(* ===== verification/Prelude.thy ===== *)
theory Prelude
  imports Main "HOL-Library.Char_ord" "HOL-Library.List_Lexorder" "HOL-Library.Product_Lexorder"
    "HOL-Library.Sublist" "HOL-Library.Countable" "HOL-Library.Code_Target_Numeral"
begin

section \<open>Prelude: the standard-library fragment the components share\<close>

text \<open>
  What the Rust code takes from its standard library, as HOL definitions:
  byte strings (a \<open>u8\<close> is a HOL \<open>char\<close>, which has exactly 256 values, so \<open>Vec<u8>\<close> and the
  UTF-8 bytes of a \<open>String\<close> are both \<open>string\<close>), little-endian integers, a file as a byte
  string with positioned reads and writes, \<open>BTreeMap\<close> as an association list kept strictly
  sorted by key, decimal numbers and string splitting. The lemmas are generic; the ones
  automation should always use are declared \<open>[simp]\<close>, the map laws are collected in
  \<open>bt_simps\<close>.
\<close>

named_theorems bt_simps \<open>laws of the sorted association lists that model BTreeMap\<close>

type_synonym byte = char
type_synonym bytes = "byte list"

subsection \<open>Little-endian and big-endian integers\<close>

fun le_bytes :: "nat \<Rightarrow> nat \<Rightarrow> bytes" where
  "le_bytes 0 n = []"
| "le_bytes (Suc w) n = char_of (n mod 256) # le_bytes w (n div 256)"

fun le_nat :: "bytes \<Rightarrow> nat" where
  "le_nat [] = 0"
| "le_nat (c # cs) = of_char c + 256 * le_nat cs"

definition be_bytes :: "nat \<Rightarrow> nat \<Rightarrow> bytes" where
  "be_bytes w n = rev (le_bytes w n)"

definition be_nat :: "bytes \<Rightarrow> nat" where
  "be_nat bs = le_nat (rev bs)"

lemma length_le_bytes [simp]: "length (le_bytes w n) = w"
  by (induction w arbitrary: n) auto

lemma length_be_bytes [simp]: "length (be_bytes w n) = w"
  by (simp add: be_bytes_def)

lemma le_nat_le_bytes: "le_nat (le_bytes w n) = n mod 256 ^ w"
proof (induction w arbitrary: n)
  case (Suc w)
  have "n mod (256 * 256 ^ w) = n mod 256 + 256 * (n div 256 mod 256 ^ w)"
    by (simp add: mod_mult2_eq)
  then show ?case using Suc by simp
qed simp

lemma le_nat_less: "le_nat bs < 256 ^ length bs"
proof (induction bs)
  case (Cons c bs)
  have "(of_char c :: nat) < 256" by simp
  moreover from Cons have "256 * le_nat bs + 256 \<le> 256 * 256 ^ length bs" by simp
  ultimately have "of_char c + 256 * le_nat bs < 256 * 256 ^ length bs" by linarith
  then show ?case by simp
qed simp

lemma le_bytes_le_nat [simp]: "w = length bs \<Longrightarrow> le_bytes w (le_nat bs) = bs"
  by (induction bs arbitrary: w) auto

lemma le_nat_less_u32: "length bs = 4 \<Longrightarrow> le_nat bs < 2 ^ 32"
  using le_nat_less [of bs] by simp

lemma le_nat_zeros [simp]: "le_nat (replicate n (CHR 0x00)) = 0"
  by (induction n) auto

lemma le_nat_u32 [simp]: "n < 2 ^ 32 \<Longrightarrow> le_nat (le_bytes 4 n) = n"
  by (simp add: le_nat_le_bytes)

lemma le_nat_u64 [simp]: "n < 2 ^ 64 \<Longrightarrow> le_nat (le_bytes 8 n) = n"
  by (simp add: le_nat_le_bytes)

lemma be_nat_u32 [simp]: "n < 2 ^ 32 \<Longrightarrow> be_nat (be_bytes 4 n) = n"
  by (simp add: be_nat_def be_bytes_def)

subsection \<open>Files\<close>

text \<open>
  A file is its bytes. \<open>write_at\<close> is a seek followed by \<open>write_all\<close> (a seek past the end
  leaves a hole of zero bytes), \<open>read_at\<close> a seek followed by \<open>read_exact\<close>, which fails
  when the file ends first.
\<close>

definition write_at :: "bytes \<Rightarrow> nat \<Rightarrow> bytes \<Rightarrow> bytes" where
  "write_at f pos data =
     take pos f @ replicate (pos - length f) (char_of (0::nat)) @ data @ drop (pos + length data) f"

definition read_at :: "bytes \<Rightarrow> nat \<Rightarrow> nat \<Rightarrow> bytes option" where
  "read_at f pos n = (if pos + n \<le> length f then Some (take n (drop pos f)) else None)"

lemma write_at_end: "pos = length f \<Longrightarrow> write_at f pos data = f @ data"
  by (simp add: write_at_def)

lemma length_write_at: "pos \<le> length f \<Longrightarrow> length (write_at f pos data) = max (length f) (pos + length data)"
  by (auto simp: write_at_def)

lemma read_at_append: "pos + n \<le> length f \<Longrightarrow> read_at (f @ g) pos n = read_at f pos n"
  by (simp add: read_at_def)

lemma read_at_length: "read_at f pos n = Some bs \<Longrightarrow> length bs = n \<and> pos + n \<le> length f"
  by (auto simp: read_at_def split: if_splits)

lemma read_at_middle: "pos = length f \<Longrightarrow> n = length g \<Longrightarrow> read_at (f @ g @ h) pos n = Some g"
  by (simp add: read_at_def)

text \<open>A header rewritten in place leaves everything behind it alone.\<close>

lemma write_at_0: "length data \<le> length f \<Longrightarrow> write_at f 0 data = data @ drop (length data) f"
  by (simp add: write_at_def)

lemma read_at_write_at_0:
  assumes "length data \<le> length f" and "length data \<le> pos"
  shows "read_at (write_at f 0 data) pos n = read_at f pos n"
  using assms by (auto simp: read_at_def write_at_0)

subsection \<open>Sorted association lists for BTreeMap\<close>

fun bt_insert :: "'k::linorder \<Rightarrow> 'v \<Rightarrow> ('k \<times> 'v) list \<Rightarrow> ('k \<times> 'v) list" where
  "bt_insert k v [] = [(k, v)]"
| "bt_insert k v (e # m) =
     (if fst e < k then e # bt_insert k v m
      else if fst e = k then (k, v) # m
      else (k, v) # e # m)"

definition bt_remove :: "'k \<Rightarrow> ('k \<times> 'v) list \<Rightarrow> ('k \<times> 'v) list" where
  "bt_remove k m = filter (\<lambda>e. fst e \<noteq> k) m"

definition bt_from :: "'k::linorder \<Rightarrow> ('k \<times> 'v) list \<Rightarrow> ('k \<times> 'v) list" where
  "bt_from lo m = filter (\<lambda>e. lo \<le> fst e) m"

definition bt_ok :: "('k::linorder \<times> 'v) list \<Rightarrow> bool" where
  "bt_ok m \<longleftrightarrow> sorted_wrt (<) (map fst m)"

fun bt_extend :: "('k::linorder \<times> 'v) list \<Rightarrow> ('k \<times> 'v) list \<Rightarrow> ('k \<times> 'v) list" where
  "bt_extend m [] = m"
| "bt_extend m (e # es) = bt_extend (bt_insert (fst e) (snd e) m) es"

lemma map_of_bt_insert [bt_simps, simp]: "map_of (bt_insert k v m) = (map_of m)(k \<mapsto> v)"
  by (induction m) (auto simp: fun_eq_iff)

lemma keys_bt_insert [bt_simps]: "fst ` set (bt_insert k v m) = insert k (fst ` set m)"
  by (induction m) auto

lemma map_of_bt_remove [bt_simps, simp]: "map_of (bt_remove k m) = (map_of m)(k := None)"
  unfolding bt_remove_def by (induction m) (auto simp: fun_eq_iff)

lemma keys_bt_remove [bt_simps]: "fst ` set (bt_remove k m) = fst ` set m - {k}"
  by (auto simp: bt_remove_def)

lemma bt_ok_Nil [simp]: "bt_ok []"
  by (simp add: bt_ok_def)

lemma bt_ok_Cons: "bt_ok (e # m) \<longleftrightarrow> (\<forall>k \<in> fst ` set m. fst e < k) \<and> bt_ok m"
  by (auto simp: bt_ok_def)

lemma bt_ok_insert [bt_simps, simp]: "bt_ok m \<Longrightarrow> bt_ok (bt_insert k v m)"
  by (induction m) (auto simp: bt_ok_Cons keys_bt_insert)

lemma bt_ok_filter [bt_simps]: "bt_ok m \<Longrightarrow> bt_ok (filter P m)"
  by (induction m) (auto simp: bt_ok_Cons)

lemma bt_ok_remove [bt_simps, simp]: "bt_ok m \<Longrightarrow> bt_ok (bt_remove k m)"
  by (simp add: bt_remove_def bt_ok_filter)

lemma bt_ok_distinct: "bt_ok m \<Longrightarrow> distinct (map fst m)"
  by (simp add: bt_ok_def strict_sorted_iff)

lemma bt_ok_map_snd: "bt_ok (map (\<lambda>e. (fst e, f e)) m) = bt_ok m"
  by (simp add: bt_ok_def comp_def)

lemma bt_get_None: "bt_ok (e # m) \<Longrightarrow> k \<le> fst e \<Longrightarrow> map_of m k = None"
  by (auto simp: bt_ok_Cons map_of_eq_None_iff)

lemma bt_get_in: "bt_ok m \<Longrightarrow> map_of m k = Some v \<longleftrightarrow> (k, v) \<in> set m"
  by (simp add: bt_ok_distinct)

text \<open>Two sorted maps with the same lookups are the same list.\<close>

lemma bt_ext:
  assumes "bt_ok m" and "bt_ok m'" and "map_of m = map_of m'"
  shows "m = m'"
proof -
  have "set m = set m'"
    using assms by (auto simp flip: bt_get_in)
  moreover have "sorted (map fst m)" "sorted (map fst m')"
    using assms(1,2) by (simp_all add: bt_ok_def strict_sorted_iff)
  moreover have "distinct (map fst m)" "distinct (map fst m')"
    using assms(1,2) by (simp_all add: bt_ok_distinct)
  moreover have "inj_on fst (set m \<union> set m')"
    using calculation by (simp add: distinct_map)
  ultimately show ?thesis
    using map_sorted_distinct_set_unique by blast
qed

lemma bt_insert_append_last:
  assumes "\<forall>e \<in> set m. fst e < k"
  shows "bt_insert k v m = m @ [(k, v)]"
  using assms by (induction m) auto

lemma map_of_filter_key: "map_of (filter (\<lambda>e. P (fst e)) m) k = (if P k then map_of m k else None)"
  by (induction m) auto

lemma filter_bt_insert:
  assumes "bt_ok m"
  shows "filter (\<lambda>e. P (fst e)) (bt_insert k v m) =
    (if P k then bt_insert k v (filter (\<lambda>e. P (fst e)) m) else filter (\<lambda>e. P (fst e)) m)"
  by (rule bt_ext) (auto simp: assms bt_simps fun_eq_iff map_of_filter_key)

lemma filter_bt_remove:
  "filter P (bt_remove k m) = bt_remove k (filter P m)"
  by (simp add: bt_remove_def conj_commute)

lemma map_of_map_vals: "map_of (map (\<lambda>e. (fst e, f (snd e))) m) k = map_option f (map_of m k)"
  by (induction m) auto

lemma set_bt_insert_subset: "set (bt_insert k v m) \<subseteq> insert (k, v) (set m)"
  by (induction m) auto

lemma set_bt_remove_subset: "set (bt_remove k m) \<subseteq> set m"
  by (auto simp: bt_remove_def)

lemma map_bt_insert:
  "map (\<lambda>e. (fst e, g (snd e))) (bt_insert k v m) =
   bt_insert k (g v) (map (\<lambda>e. (fst e, g (snd e))) m)"
  by (induction m) auto

lemma map_bt_remove:
  "map (\<lambda>e. (fst e, g (snd e))) (bt_remove k m) = bt_remove k (map (\<lambda>e. (fst e, g (snd e))) m)"
  by (simp add: bt_remove_def filter_map comp_def)

lemma length_bt_insert: "length (bt_insert k v m) \<le> Suc (length m)"
  by (induction m) auto

lemma bt_remove_absent: "map_of m k = None \<Longrightarrow> bt_remove k m = m"
  by (force simp: bt_remove_def map_of_eq_None_iff intro!: filter_True)

lemma bt_extend_append: "bt_ok (m @ m') \<Longrightarrow> bt_extend m m' = m @ m'"
proof (induction m' arbitrary: m)
  case (Cons e m')
  have "\<forall>x \<in> set m. fst x < fst e"
    using Cons.prems by (auto simp: bt_ok_def sorted_wrt_append)
  then have "bt_insert (fst e) (snd e) m = m @ [e]"
    using bt_insert_append_last [of m "fst e" "snd e"] by simp
  then show ?case using Cons.IH [of "m @ [e]"] Cons.prems by simp
qed simp

lemma bt_extend_Nil [simp]: "bt_ok m \<Longrightarrow> bt_extend [] m = m"
  using bt_extend_append [of "[]" m] by simp

text \<open>
  A prefix scan walks the sorted map from the prefix itself while keys match; because the
  matching keys are contiguous there, it finds them all.
\<close>

lemma prefix_le: "prefix p (k :: bytes) \<Longrightarrow> p \<le> k"
proof (induction p arbitrary: k)
  case (Cons c p)
  then show ?case by (cases k) auto
qed simp

lemma prefix_between:
  assumes "p \<le> x" and "x \<le> y" and "prefix p (y :: bytes)"
  shows "prefix p x"
  using assms
proof (induction p arbitrary: x y)
  case (Cons c p)
  obtain y' where y: "y = c # y'" "prefix p y'"
    using Cons.prems(3) by (auto simp: prefix_def)
  show ?case
  proof (cases x)
    case Nil
    then show ?thesis using Cons.prems(1) by simp
  next
    case (Cons d x')
    then have "d = c" "p \<le> x'" "x' \<le> y'"
      using Cons.prems(1,2) y by auto
    then show ?thesis using Cons.IH [of x' y'] y Cons by simp
  qed
qed simp

lemma takeWhile_from_filter:
  assumes "bt_ok m"
    and "\<And>e. e \<in> set m \<Longrightarrow> Q e \<Longrightarrow> lo \<le> fst e"
    and "\<And>e e'. e \<in> set m \<Longrightarrow> e' \<in> set m \<Longrightarrow> lo \<le> fst e \<Longrightarrow> fst e < fst e' \<Longrightarrow> Q e' \<Longrightarrow> Q e"
  shows "takeWhile Q (bt_from lo m) = filter Q m"
  using assms
proof (induction m)
  case (Cons e m)
  have IH: "takeWhile Q (bt_from lo m) = filter Q m"
  proof (rule Cons.IH)
    show "bt_ok m" using Cons.prems(1) by (simp add: bt_ok_Cons)
    show "lo \<le> fst a" if "a \<in> set m" "Q a" for a
      using Cons.prems(2) [of a] that by simp
    show "Q a" if "a \<in> set m" "b \<in> set m" "lo \<le> fst a" "fst a < fst b" "Q b" for a b
      using Cons.prems(3) [of a b] that by simp
  qed
  show ?case
  proof (cases "lo \<le> fst e")
    case False
    then have "\<not> Q e" using Cons.prems(2) [of e] by (meson list.set_intros(1))
    with False IH show ?thesis by (simp add: bt_from_def)
  next
    case True
    have all: "\<forall>e' \<in> set m. fst e < fst e'"
      using Cons.prems(1) by (auto simp: bt_ok_Cons)
    show ?thesis
    proof (cases "Q e")
      case True
      with \<open>lo \<le> fst e\<close> IH show ?thesis by (simp add: bt_from_def)
    next
      case False
      then have "\<forall>e' \<in> set m. \<not> Q e'"
        using Cons.prems(3) [of e] all True by auto
      with False True show ?thesis by (simp add: bt_from_def)
    qed
  qed
qed (simp add: bt_from_def)

text \<open>Renaming the keys of a map by a function that is strictly monotone on them.\<close>

lemma map_keys_bt_insert:
  assumes "\<And>x y. x \<in> insert k (fst ` set m) \<Longrightarrow> y \<in> insert k (fst ` set m) \<Longrightarrow> (h x < h y) = (x < y)"
  shows "map (\<lambda>e. (h (fst e), snd e)) (bt_insert k v m) =
    bt_insert (h k) v (map (\<lambda>e. (h (fst e), snd e)) m)"
  using assms
proof (induction m)
  case (Cons e m)
  have IH: "map (\<lambda>e. (h (fst e), snd e)) (bt_insert k v m) =
      bt_insert (h k) v (map (\<lambda>e. (h (fst e), snd e)) m)"
    using Cons.prems by (intro Cons.IH) auto
  have "(h (fst e) < h k) = (fst e < k)" "(h k < h (fst e)) = (k < fst e)"
    using Cons.prems [of "fst e" k] Cons.prems [of k "fst e"] by auto
  then have "(h (fst e) = h k) = (fst e = k)"
    by (metis less_irrefl not_less_iff_gr_or_eq)
  then show ?case
    using IH \<open>(h (fst e) < h k) = (fst e < k)\<close> by auto
qed simp

lemma bt_ok_map_keys:
  assumes "\<And>x y. x \<in> fst ` set m \<Longrightarrow> y \<in> fst ` set m \<Longrightarrow> (h x < h y) = (x < y)" and "bt_ok m"
  shows "bt_ok (map (\<lambda>e. (h (fst e), snd e)) m)"
  using assms
proof (induction m)
  case (Cons e m)
  have "bt_ok (map (\<lambda>e. (h (fst e), snd e)) m)"
    using Cons.prems by (intro Cons.IH) (auto simp: bt_ok_Cons)
  moreover have "h (fst e) < h (fst x)" if "x \<in> set m" for x
    using Cons.prems(1) [of "fst e" "fst x"] Cons.prems(2) that by (auto simp: bt_ok_Cons)
  ultimately show ?case by (auto simp: bt_ok_Cons)
qed simp

lemma map_of_map_keys:
  assumes "\<And>x. x \<in> fst ` set m \<Longrightarrow> h x = h k \<Longrightarrow> x = k"
  shows "map_of (map (\<lambda>e. (h (fst e), snd e)) m) (h k) = map_of m k"
  using assms by (induction m) (auto, metis)

lemma map_keys_bt_remove:
  assumes "\<And>x. x \<in> fst ` set m \<Longrightarrow> h x = h k \<Longrightarrow> x = k"
  shows "map (\<lambda>e. (h (fst e), snd e)) (bt_remove k m) =
    bt_remove (h k) (map (\<lambda>e. (h (fst e), snd e)) m)"
  using assms by (induction m) (auto simp: bt_remove_def)

lemma append_less [simp]: "(p @ x < p @ (y :: bytes)) = (x < y)"
  by (induction p) auto

lemma map_filter_all:
  "\<forall>x \<in> set xs. f x \<noteq> None \<Longrightarrow> List.map_filter f xs = map (\<lambda>x. the (f x)) xs"
  by (induction xs) (auto simp: map_filter_simps)

subsection \<open>Sorting by a comparison\<close>

text \<open>\<open>sort_by\<close> of a comparison closure: stable, so it is an insertion sort on what it returns.\<close>

fun insert_by :: "('a \<Rightarrow> 'a \<Rightarrow> bool) \<Rightarrow> 'a \<Rightarrow> 'a list \<Rightarrow> 'a list" where
  "insert_by le x [] = [x]"
| "insert_by le x (y # ys) = (if le x y then x # y # ys else y # insert_by le x ys)"

fun sort_by :: "('a \<Rightarrow> 'a \<Rightarrow> bool) \<Rightarrow> 'a list \<Rightarrow> 'a list" where
  "sort_by le [] = []"
| "sort_by le (x # xs) = insert_by le x (sort_by le xs)"

lemma set_insert_by [simp]: "set (insert_by le x xs) = insert x (set xs)"
  by (induction xs) auto

lemma set_sort_by [simp]: "set (sort_by le xs) = set xs"
  by (induction xs) auto

lemma length_insert_by [simp]: "length (insert_by le x xs) = Suc (length xs)"
  by (induction xs) auto

lemma length_sort_by [simp]: "length (sort_by le xs) = length xs"
  by (induction xs) auto

lemma distinct_insert_by: "distinct (map f (insert_by le x xs)) = distinct (map f (x # xs))"
  by (induction xs) auto

lemma distinct_sort_by [simp]: "distinct (map f (sort_by le xs)) = distinct (map f xs)"
  by (induction xs) (auto simp: distinct_insert_by)

lemma sorted_insert_by:
  assumes "\<And>a b. le a b \<or> le b a" and "\<And>a b c. le a b \<Longrightarrow> le b c \<Longrightarrow> le a c" and "sorted_wrt le xs"
  shows "sorted_wrt le (insert_by le x xs)"
  using assms(3)
proof (induction xs)
  case (Cons y ys)
  show ?case
  proof (cases "le x y")
    case True
    then show ?thesis using Cons.prems assms(2) by auto
  next
    case False
    then have "le y x" using assms(1) by blast
    then show ?thesis using False Cons by auto
  qed
qed simp

lemma sorted_sort_by:
  assumes "\<And>a b. le a b \<or> le b a" and "\<And>a b c. le a b \<Longrightarrow> le b c \<Longrightarrow> le a c"
  shows "sorted_wrt le (sort_by le xs)"
  using sorted_insert_by [of le, OF assms] by (induction xs) auto

end
