(* ===== verification/CrabdbFormat.thy ===== *)
theory CrabdbFormat
  imports Prelude
begin

section \<open>The CRMEM on-disk format (lib/crabdb/src/format.rs)\<close>

text \<open>
  Encoders and decoders of the file header, the log records and the index snapshot, in the
  order of the source. A \<open>u8\<close> is a \<^typ>\<open>byte\<close>; \<open>len() as u32\<close> keeps its truncation because
  \<^const>\<open>le_bytes\<close> takes the value modulo \<open>2 ^ 32\<close>; the reads past the end that the source
  guards with \<open>get(..)?\<close> are the \<open>None\<close> branches of \<open>take\<close>. The lemmas show the round trips,
  that a decoded record never depends on the bytes behind it, and that every strict prefix of
  a record or snapshot is recognised as torn.
\<close>

type_synonym key = "byte \<times> bytes"

datatype db_error =
    ShortFile
  | NotCrmem
  | UnsupportedVersion nat
  | UnknownFlags nat
  | UnknownOp byte
  | UnexpectedEof

definition MAGIC :: bytes where
  "MAGIC = ''CRMEM'' @ [CHR 0x00]"

definition VERSION :: nat where
  "VERSION = 1"

definition HEADER_LEN :: nat where
  "HEADER_LEN = 32"

datatype db_op = Put | Delete

fun op_byte :: "db_op \<Rightarrow> byte" where
  "op_byte Put = CHR 0x00"
| "op_byte Delete = CHR 0x01"

definition op_from_byte :: "byte \<Rightarrow> db_op option" where
  "op_from_byte b =
     (if b = CHR 0x00 then Some Put else if b = CHR 0x01 then Some Delete else None)"

subsection \<open>Header\<close>

record header =
  index_at :: nat
  index_len :: nat

definition header_default :: header where
  "header_default = \<lparr>index_at = 0, index_len = 0\<rparr>"

definition header_encode :: "header \<Rightarrow> bytes" where
  "header_encode h =
     MAGIC @ le_bytes 4 VERSION @ replicate 6 (CHR 0x00)
       @ le_bytes 8 (index_at h) @ le_bytes 8 (index_len h)"

definition header_decode :: "bytes \<Rightarrow> db_error + header" where
  "header_decode buf =
     (if length buf < HEADER_LEN then Inl ShortFile
      else if take 6 buf \<noteq> MAGIC then Inl NotCrmem
      else let version = le_nat (take 4 (drop 6 buf)) in
        if version \<noteq> VERSION then Inl (UnsupportedVersion version)
        else let flags = le_nat (take 2 (drop 10 buf)) in
          if flags \<noteq> 0 then Inl (UnknownFlags flags)
          else Inr \<lparr>index_at = le_nat (take 8 (drop 16 buf)),
                    index_len = le_nat (take 8 (drop 24 buf))\<rparr>)"

subsection \<open>Records\<close>

text \<open>\<open>take\<close> and \<open>take_u32\<close>: bounds-checked reads that advance a cursor.\<close>

definition take_bytes :: "bytes \<Rightarrow> nat \<Rightarrow> nat \<Rightarrow> (bytes \<times> nat) option" where
  "take_bytes buf at n =
     (if at + n \<le> length buf then Some (take n (drop at buf), at + n) else None)"

definition take_u32 :: "bytes \<Rightarrow> nat \<Rightarrow> (nat \<times> nat) option" where
  "take_u32 buf at =
     (case take_bytes buf at 4 of None \<Rightarrow> None | Some (bs, at') \<Rightarrow> Some (le_nat bs, at'))"

definition encode_record :: "db_op \<Rightarrow> byte \<Rightarrow> bytes \<Rightarrow> bytes \<Rightarrow> bytes" where
  "encode_record op col k v =
     [op_byte op, col] @ le_bytes 4 (length k) @ k @ le_bytes 4 (length v) @ v"

record db_record =
  rec_op :: db_op
  rec_col :: byte
  rec_key :: bytes
  rec_value :: bytes
  rec_len :: nat

definition decode_record :: "bytes \<Rightarrow> db_error + db_record option" where
  "decode_record buf =
     (case buf of
        [] \<Rightarrow> Inr None
      | b # _ \<Rightarrow>
        (case op_from_byte b of
           None \<Rightarrow> Inl (UnknownOp b)
         | Some op \<Rightarrow>
           (case take_u32 buf 2 of
              None \<Rightarrow> Inr None
            | Some (key_len, at1) \<Rightarrow>
              (case take_bytes buf at1 key_len of
                 None \<Rightarrow> Inr None
               | Some (k, at2) \<Rightarrow>
                 (case take_u32 buf at2 of
                    None \<Rightarrow> Inr None
                  | Some (val_len, at3) \<Rightarrow>
                    (case take_bytes buf at3 val_len of
                       None \<Rightarrow> Inr None
                     | Some (v, at4) \<Rightarrow>
                       Inr (Some \<lparr>rec_op = op, rec_col = buf ! 1, rec_key = k,
                                  rec_value = v, rec_len = at4\<rparr>)))))))"

subsection \<open>Index snapshots\<close>

definition encode_entry :: "key \<times> nat \<Rightarrow> bytes" where
  "encode_entry e =
     fst (fst e) # le_bytes 4 (length (snd (fst e))) @ snd (fst e) @ le_bytes 8 (snd e)"

definition encode_index :: "(key \<times> nat) list \<Rightarrow> bytes" where
  "encode_index entries = le_bytes 4 (length entries) @ concat (map encode_entry entries)"

fun decode_entries :: "bytes \<Rightarrow> nat \<Rightarrow> nat \<Rightarrow> (key \<times> nat) list option" where
  "decode_entries buf at 0 = Some []"
| "decode_entries buf at (Suc n) =
     (if at < length buf then
        (case take_u32 buf (at + 1) of
           None \<Rightarrow> None
         | Some (key_len, at1) \<Rightarrow>
           (case take_bytes buf at1 key_len of
              None \<Rightarrow> None
            | Some (k, at2) \<Rightarrow>
              (case take_bytes buf at2 8 of
                 None \<Rightarrow> None
               | Some (offset, at3) \<Rightarrow>
                 (case decode_entries buf at3 n of
                    None \<Rightarrow> None
                  | Some out \<Rightarrow> Some (((buf ! at, k), le_nat offset) # out)))))
      else None)"

definition decode_index :: "bytes \<Rightarrow> (key \<times> nat) list option" where
  "decode_index buf =
     (case take_u32 buf 0 of
        None \<Rightarrow> None
      | Some (count, at) \<Rightarrow> decode_entries buf at count)"

subsection \<open>Round trips\<close>

lemma length_MAGIC [simp]: "length MAGIC = 6"
  by (simp add: MAGIC_def)

lemma length_header_encode [simp]: "length (header_encode h) = HEADER_LEN"
  by (simp add: header_encode_def HEADER_LEN_def)

lemma op_from_op_byte [simp]: "op_from_byte (op_byte op) = Some op"
  by (cases op) (auto simp: op_from_byte_def)

lemma op_byte_from: "op_from_byte b = Some op \<Longrightarrow> op_byte op = b"
  by (auto simp: op_from_byte_def split: if_splits)

lemma header_decode_encode:
  assumes "index_at h < 2 ^ 64" and "index_len h < 2 ^ 64"
  shows "header_decode (header_encode h @ rest) = Inr h"
  using assms
  by (simp add: header_decode_def header_encode_def HEADER_LEN_def VERSION_def Let_def)

lemma take_bytes_mid:
  "at = length pre \<Longrightarrow> n = length xs \<Longrightarrow> take_bytes (pre @ xs @ rest) at n = Some (xs, at + n)"
  by (simp add: take_bytes_def)

lemma take_bytes_SomeD:
  assumes "take_bytes buf at n = Some (xs, at')"
  shows "at' = at + n" "length xs = n" "at + n \<le> length buf" "xs = take n (drop at buf)"
  using assms by (auto simp: take_bytes_def split: if_splits)

lemma length_encode_record [simp]:
  "length (encode_record op col k v) = 10 + length k + length v"
  by (simp add: encode_record_def)

lemma take_u32_mid:
  assumes "at = length pre" and "n < 2 ^ 32"
  shows "take_u32 (pre @ le_bytes 4 n @ rest) at = Some (n, at + 4)"
  using assms take_bytes_mid [of at pre 4 "le_bytes 4 n" rest] by (simp add: take_u32_def)

lemma decode_encode_record:
  assumes "length k < 2 ^ 32" and "length v < 2 ^ 32"
  shows "decode_record (encode_record op col k v @ rest) =
    Inr (Some \<lparr>rec_op = op, rec_col = col, rec_key = k, rec_value = v,
               rec_len = 10 + length k + length v\<rparr>)"
proof -
  let ?head = "[op_byte op, col]" and ?kl = "le_bytes 4 (length k)" and ?vl = "le_bytes 4 (length v)"
  let ?buf = "encode_record op col k v @ rest"
  have "take_u32 ?buf 2 = Some (length k, 6)"
    using take_u32_mid [of 2 ?head "length k" "k @ ?vl @ v @ rest"] assms
    by (simp add: encode_record_def)
  moreover have "take_bytes ?buf 6 (length k) = Some (k, 6 + length k)"
    using take_bytes_mid [of 6 "?head @ ?kl" "length k" k "?vl @ v @ rest"]
    by (simp add: encode_record_def)
  moreover have "take_u32 ?buf (6 + length k) = Some (length v, 10 + length k)"
    using take_u32_mid [of "6 + length k" "?head @ ?kl @ k" "length v" "v @ rest"] assms
    by (simp add: encode_record_def)
  moreover have "take_bytes ?buf (10 + length k) (length v) = Some (v, 10 + length k + length v)"
    using take_bytes_mid [of "10 + length k" "?head @ ?kl @ k @ ?vl" "length v" v rest]
    by (simp add: encode_record_def)
  moreover have "?buf = op_byte op # col # ?kl @ k @ ?vl @ v @ rest"
    by (simp add: encode_record_def)
  ultimately show ?thesis by (simp add: decode_record_def)
qed

text \<open>Conversely, whatever decodes is an encoded record followed by bytes it never looked at.\<close>

lemma decode_record_SomeD:
  assumes "decode_record buf = Inr (Some r)"
  shows "buf = encode_record (rec_op r) (rec_col r) (rec_key r) (rec_value r) @ drop (rec_len r) buf"
    and "rec_len r = 10 + length (rec_key r) + length (rec_value r)"
    and "length (rec_key r) < 2 ^ 32" and "length (rec_value r) < 2 ^ 32"
proof -
  from assms obtain b tl op kl at1 k at2 vl at3 v at4 where
    buf: "buf = b # tl" and op: "op_from_byte b = Some op"
    and kl: "take_u32 buf 2 = Some (kl, at1)" and k: "take_bytes buf at1 kl = Some (k, at2)"
    and vl: "take_u32 buf at2 = Some (vl, at3)" and v: "take_bytes buf at3 vl = Some (v, at4)"
    and r: "r = \<lparr>rec_op = op, rec_col = buf ! 1, rec_key = k, rec_value = v, rec_len = at4\<rparr>"
    by (auto simp: decode_record_def split: list.splits option.splits prod.splits)
  from kl obtain klb where klb: "take_bytes buf 2 4 = Some (klb, at1)" "kl = le_nat klb"
    by (auto simp: take_u32_def split: option.splits)
  from vl obtain vlb where vlb: "take_bytes buf at2 4 = Some (vlb, at3)" "vl = le_nat vlb"
    by (auto simp: take_u32_def split: option.splits)
  note D = take_bytes_SomeD
  have ats: "at1 = 6" "at2 = 6 + kl" "at3 = 10 + kl" "at4 = 10 + kl + vl"
    using D(1) [OF klb(1)] D(1) [OF k] D(1) [OF vlb(1)] D(1) [OF v] by simp_all
  have lens: "length klb = 4" "length k = kl" "length vlb = 4" "length v = vl"
    using D(2) [OF klb(1)] D(2) [OF k] D(2) [OF vlb(1)] D(2) [OF v] by simp_all
  have split: "drop i buf = xs @ drop (i + n) buf" if "take_bytes buf i n = Some (xs, j)" for i n xs j
    using D(4) [OF that] by (metis append_take_drop_id drop_drop add.commute)
  obtain c tl' where tl: "tl = c # tl'"
    using D(3) [OF klb(1)] buf by (cases tl) auto
  have "drop 2 buf = klb @ k @ vlb @ v @ drop at4 buf"
    using split [OF klb(1)] split [OF k] split [OF vlb(1)] split [OF v] ats by (simp add: add_ac)
  then have "buf = b # c # klb @ k @ vlb @ v @ drop at4 buf"
    using buf tl by simp
  then show "buf = encode_record (rec_op r) (rec_col r) (rec_key r) (rec_value r) @ drop (rec_len r) buf"
    using op klb(2) vlb(2) lens buf tl by (simp add: r encode_record_def op_byte_from)
  show "rec_len r = 10 + length (rec_key r) + length (rec_value r)"
    using lens ats by (simp add: r)
  show "length (rec_key r) < 2 ^ 32" "length (rec_value r) < 2 ^ 32"
    using lens klb(2) vlb(2) le_nat_less_u32 by (simp_all add: r)
qed

lemma decode_record_append:
  assumes "decode_record buf = Inr (Some r)"
  shows "decode_record (buf @ rest) = Inr (Some r)"
proof -
  note D = decode_record_SomeD [OF assms]
  have "decode_record (encode_record (rec_op r) (rec_col r) (rec_key r) (rec_value r)
      @ drop (rec_len r) buf @ rest) = Inr (Some r)"
    using D(2-4) by (simp add: decode_encode_record)
  then show ?thesis
    using D(1) by (metis append_assoc)
qed

lemma decode_record_len:
  assumes "decode_record buf = Inr (Some r)"
  shows "10 \<le> rec_len r" and "rec_len r \<le> length buf"
proof -
  note D = decode_record_SomeD [OF assms]
  show "10 \<le> rec_len r" using D(2) by simp
  have "length buf = rec_len r + (length buf - rec_len r)"
    using arg_cong [OF D(1), of length] D(2) by simp
  then show "rec_len r \<le> length buf" by simp
qed

subsection \<open>Torn tails\<close>

text \<open>A strict prefix of a record is reported as torn: never an error, never a record.\<close>

lemma decode_record_torn:
  assumes "length k < 2 ^ 32" and "length v < 2 ^ 32"
    and "n < length (encode_record op col k v)"
  shows "decode_record (take n (encode_record op col k v)) = Inr None"
proof (cases "take n (encode_record op col k v)")
  case Nil
  then show ?thesis by (simp only: decode_record_def list.case)
next
  case (Cons b tl)
  let ?r = "encode_record op col k v" and ?p = "take n (encode_record op col k v)"
  have b: "b = op_byte op"
    using Cons by (cases n) (auto simp: encode_record_def)
  show ?thesis
  proof (cases "decode_record ?p")
    case (Inl e)
    then show ?thesis
      using Cons b by (auto simp: decode_record_def split: option.splits)
  next
    case (Inr res)
    show ?thesis
    proof (cases res)
      case (Some r)
      then have dec: "decode_record ?p = Inr (Some r)" using Inr by simp
      have "decode_record (?p @ drop n ?r) = Inr (Some r)"
        by (rule decode_record_append [OF dec])
      moreover have "decode_record (?r @ []) = Inr (Some \<lparr>rec_op = op, rec_col = col, rec_key = k,
          rec_value = v, rec_len = length ?r\<rparr>)"
        using decode_encode_record [OF assms(1,2), of op col "[]"] by simp
      ultimately have "rec_len r = length ?r" by auto
      then show ?thesis
        using decode_record_len(2) [OF dec] assms(3) by simp
    qed (simp add: Inr)
  qed
qed

subsection \<open>Index snapshots\<close>

definition entry_ok :: "key \<times> nat \<Rightarrow> bool" where
  "entry_ok e \<longleftrightarrow> length (snd (fst e)) < 2 ^ 32 \<and> snd e < 2 ^ 64"

lemma decode_entries_encode:
  assumes "\<forall>e \<in> set es. entry_ok e" and "at = length pre"
  shows "decode_entries (pre @ concat (map encode_entry es) @ rest) at (length es) = Some es"
  using assms
proof (induction es arbitrary: pre at)
  case (Cons e es)
  obtain col k off where e: "e = ((col, k), off)" by (metis prod.exhaust)
  let ?kl = "le_bytes 4 (length k)" and ?ob = "le_bytes 8 off"
  let ?more = "concat (map encode_entry es) @ rest"
  let ?buf = "pre @ concat (map encode_entry (e # es)) @ rest"
  have buf: "?buf = pre @ col # ?kl @ k @ ?ob @ ?more"
    by (simp add: e encode_entry_def)
  have ok: "length k < 2 ^ 32" "off < 2 ^ 64"
    using Cons.prems(1) by (simp_all add: e entry_ok_def)
  have 1: "take_u32 ?buf (at + 1) = Some (length k, at + 5)"
    using take_u32_mid [of "at + 1" "pre @ [col]" "length k" "k @ ?ob @ ?more"] ok Cons.prems(2)
    by (simp add: e encode_entry_def)
  have 2: "take_bytes ?buf (at + 5) (length k) = Some (k, at + 5 + length k)"
    using take_bytes_mid [of "at + 5" "pre @ col # ?kl" "length k" k "?ob @ ?more"] Cons.prems(2)
    by (simp add: e encode_entry_def)
  have 3: "take_bytes ?buf (at + 5 + length k) 8 = Some (?ob, at + 13 + length k)"
    using take_bytes_mid [of "at + 5 + length k" "pre @ col # ?kl @ k" 8 ?ob ?more] Cons.prems(2)
    by (simp add: e encode_entry_def)
  have 4: "decode_entries ?buf (at + 13 + length k) (length es) = Some es"
    using Cons.IH [of "at + 13 + length k" "pre @ encode_entry e"] Cons.prems
    by (simp add: e encode_entry_def [of "((col, k), off)"])
  have 5: "?buf ! at = col" "at < length ?buf"
    using Cons.prems(2) by (simp_all add: e encode_entry_def nth_append)
  show ?case
    using 1 2 3 4 5 ok by (simp add: e)
qed simp

lemma decode_encode_index:
  assumes "\<forall>e \<in> set es. entry_ok e" and "length es < 2 ^ 32"
  shows "decode_index (encode_index es) = Some es"
proof -
  have "take_u32 (encode_index es) 0 = Some (length es, 4)"
    using take_u32_mid [of 0 "[]"] assms(2) by (simp add: encode_index_def)
  moreover have "decode_entries (encode_index es) 4 (length es) = Some es"
    using decode_entries_encode [of es 4 "le_bytes 4 (length es)" "[]"] assms(1)
    by (simp add: encode_index_def)
  ultimately show ?thesis by (simp add: decode_index_def)
qed

text \<open>
  A snapshot cut short decodes to nothing, so the caller falls back to the log: decoding is
  stable under appending bytes, and it consumes exactly the encoded length.
\<close>

lemma length_encode_entry [simp]: "length (encode_entry e) = 13 + length (snd (fst e))"
  by (simp add: encode_entry_def)

lemma take_u32_SomeD:
  assumes "take_u32 buf at = Some (n, at')"
  shows "at' = at + 4" and "at + 4 \<le> length buf" and "take_u32 (buf @ rest) at = Some (n, at')"
  using assms by (auto simp: take_u32_def take_bytes_def split: option.splits if_splits)

lemma take_bytes_append:
  "take_bytes buf at n = Some (xs, at') \<Longrightarrow> take_bytes (buf @ rest) at n = Some (xs, at')"
  by (auto simp: take_bytes_def split: if_splits)

lemma decode_entries_SomeD:
  assumes "decode_entries buf at n = Some es" and "at \<le> length buf"
  shows "at + length (concat (map encode_entry es)) \<le> length buf"
    and "decode_entries (buf @ rest) at n = Some es"
  using assms
proof (induction buf at n arbitrary: es rule: decode_entries.induct)
  case (2 buf at n)
  {
    case 1
    then obtain kl at1 k at2 ob at3 out where
      *: "take_u32 buf (at + 1) = Some (kl, at1)" "take_bytes buf at1 kl = Some (k, at2)"
        "take_bytes buf at2 8 = Some (ob, at3)" "decode_entries buf at3 n = Some out"
        "at < length buf" "es = ((buf ! at, k), le_nat ob) # out"
      by (auto split: if_splits option.splits prod.splits)
    have "at3 = at + 13 + kl" "at3 \<le> length buf" "length k = kl"
      using take_u32_SomeD(1) [OF *(1)] take_bytes_SomeD(1-3) [OF *(2)] take_bytes_SomeD(1-3) [OF *(3)]
      by simp_all
    then show ?case
      using 2(1) [OF *(5) *(1) refl *(2) refl *(3) refl *(4)] * by simp
  next
    case 2
    then obtain kl at1 k at2 ob at3 out where
      *: "take_u32 buf (at + 1) = Some (kl, at1)" "take_bytes buf at1 kl = Some (k, at2)"
        "take_bytes buf at2 8 = Some (ob, at3)" "decode_entries buf at3 n = Some out"
        "at < length buf" "es = ((buf ! at, k), le_nat ob) # out"
      by (auto split: if_splits option.splits prod.splits)
    have "at3 \<le> length buf"
      using take_bytes_SomeD(1,3) [OF *(3)] by simp
    then show ?case
      using "2.IH"(2) [OF *(5) *(1) refl *(2) refl *(3) refl *(4)] *
        take_u32_SomeD(3) [OF *(1)] take_bytes_append [OF *(2)] take_bytes_append [OF *(3)]
      by (simp add: nth_append)
  }
qed simp_all

lemma decode_index_torn:
  assumes "\<forall>e \<in> set es. entry_ok e" and "length es < 2 ^ 32"
    and "n < length (encode_index es)"
  shows "decode_index (take n (encode_index es)) = None"
proof (rule ccontr)
  let ?p = "take n (encode_index es)"
  assume "decode_index ?p \<noteq> None"
  then obtain cnt at es' where
    cnt: "take_u32 ?p 0 = Some (cnt, at)" and dec: "decode_entries ?p at cnt = Some es'"
    by (auto simp: decode_index_def split: option.splits)
  have at: "at = 4" "at \<le> length ?p"
    using take_u32_SomeD(1,2) [OF cnt] by simp_all
  have "take_u32 (?p @ drop n (encode_index es)) 0 = Some (cnt, at)"
    by (rule take_u32_SomeD(3) [OF cnt])
  moreover have "decode_entries (?p @ drop n (encode_index es)) at cnt = Some es'"
    by (rule decode_entries_SomeD(2) [OF dec at(2)])
  ultimately have "decode_index (encode_index es) = Some es'"
    by (simp add: decode_index_def)
  then have "es' = es"
    using decode_encode_index [OF assms(1,2)] by simp
  then show False
    using decode_entries_SomeD(1) [OF dec at(2)] at(1) assms(3) by (simp add: encode_index_def)
qed

end
