(* ===== verification/CrabdbInvariant.thy ===== *)
theory CrabdbInvariant
  imports CrabdbStore
begin

section \<open>What every operation of the store keeps\<close>

text \<open>
  The invariant \<open>db_wf\<close> of the store and its preservation. A log is a list of records;
  \<open>replay_log\<close> says that opening a file replays exactly the records of its log, whatever torn
  bytes follow, and \<open>open_wf\<close> that reopening a file reproduces the resident index. On top of
  it each operation refines the corresponding operation on a sorted map, the abstraction
  \<open>db_abs\<close> (each live key with the value its offset points at).
\<close>

subsection \<open>Logs\<close>

definition rec_ok :: "db_record \<Rightarrow> bool" where
  "rec_ok r \<longleftrightarrow> length (rec_key r) < 2 ^ 32 \<and> length (rec_value r) < 2 ^ 32 \<and>
     rec_len r = 10 + length (rec_key r) + length (rec_value r)"

definition rec_bytes :: "db_record \<Rightarrow> bytes" where
  "rec_bytes r = encode_record (rec_op r) (rec_col r) (rec_key r) (rec_value r)"

definition log_bytes :: "db_record list \<Rightarrow> bytes" where
  "log_bytes rs = concat (map rec_bytes rs)"

fun apply_log :: "nat \<Rightarrow> db_record list \<Rightarrow> db_index \<Rightarrow> db_index" where
  "apply_log offset [] ix = ix"
| "apply_log offset (r # rs) ix = apply_log (offset + rec_len r) rs (replay_record r offset ix)"

lemma length_rec_bytes: "rec_ok r \<Longrightarrow> length (rec_bytes r) = rec_len r"
  by (simp add: rec_ok_def rec_bytes_def)

lemma log_bytes_simps [simp]:
  "log_bytes [] = []" "log_bytes (r # rs) = rec_bytes r @ log_bytes rs"
  "log_bytes (rs @ rs') = log_bytes rs @ log_bytes rs'"
  by (simp_all add: log_bytes_def)

lemma decode_rec_bytes: "rec_ok r \<Longrightarrow> decode_record (rec_bytes r @ rest) = Inr (Some r)"
  by (simp add: rec_ok_def rec_bytes_def decode_encode_record)

lemma apply_log_snoc:
  assumes "\<forall>r \<in> set rs. rec_ok r"
  shows "apply_log offset (rs @ [r]) ix =
    replay_record r (offset + length (log_bytes rs)) (apply_log offset rs ix)"
  using assms
  by (induction rs arbitrary: offset ix) (simp_all add: length_rec_bytes add.assoc)

lemma bt_ok_replay_record [simp]: "bt_ok ix \<Longrightarrow> bt_ok (replay_record r off ix)"
  by (simp add: replay_record_def split: db_op.splits)

lemma bt_ok_apply_log: "bt_ok ix \<Longrightarrow> bt_ok (apply_log off rs ix)"
  by (induction off rs ix rule: apply_log.induct) auto

text \<open>Replaying a log followed by bytes that hold no whole record, and by a foreign byte.\<close>

lemma replay_log:
  assumes "\<forall>r \<in> set rs. rec_ok r" and "decode_record torn = Inr None" and "pos = length pre"
    and "e = start + pos"
  shows "\<exists>d. replay (pre @ log_bytes rs @ torn) start pos ix dd e =
    Inr (apply_log (start + pos) rs ix, d, start + pos + length (log_bytes rs))"
  using assms
proof (induction rs arbitrary: pre pos ix dd e)
  case Nil
  then show ?case by (subst replay.simps) simp
next
  case (Cons r rs)
  let ?buf = "pre @ log_bytes (r # rs) @ torn"
  have r: "rec_ok r" using Cons.prems by simp
  have dec: "decode_record (drop pos ?buf) = Inr (Some r)"
    using decode_rec_bytes [OF r, of "log_bytes rs @ torn"] Cons.prems(3) by simp
  have lt: "pos < length ?buf"
    using Cons.prems(3) length_rec_bytes [OF r] r by (simp add: rec_ok_def)
  have buf: "?buf = (pre @ rec_bytes r) @ log_bytes rs @ torn"
    by simp
  have "\<exists>d. replay ?buf start (pos + rec_len r) (replay_record r (start + pos) ix)
      (if map_of ix (rec_col r, rec_key r) \<noteq> None then dd + rec_len r else dd)
      (start + (pos + rec_len r)) =
    Inr (apply_log (start + (pos + rec_len r)) rs (replay_record r (start + pos) ix), d,
      start + (pos + rec_len r) + length (log_bytes rs))"
    using Cons.IH [of "pos + rec_len r" "pre @ rec_bytes r"] Cons.prems length_rec_bytes [OF r]
    unfolding buf by (simp del: not_None_eq)
  then obtain d where "replay ?buf start (pos + rec_len r) (replay_record r (start + pos) ix)
      (if map_of ix (rec_col r, rec_key r) \<noteq> None then dd + rec_len r else dd)
      (start + (pos + rec_len r)) =
    Inr (apply_log (start + (pos + rec_len r)) rs (replay_record r (start + pos) ix), d,
      start + (pos + rec_len r) + length (log_bytes rs))" by blast
  then have "replay ?buf start pos ix dd e =
      Inr (apply_log (start + pos) (r # rs) ix, d, start + pos + length (log_bytes (r # rs)))"
    using dec lt length_rec_bytes [OF r]
    by (subst replay.simps) (simp add: Let_def add.assoc)
  then show ?case ..
qed

lemma replay_log_error:
  assumes "\<forall>r \<in> set rs. rec_ok r" and "decode_record junk = Inl err" and "pos = length pre"
  shows "replay (pre @ log_bytes rs @ junk) start pos ix dd e = Inl err"
  using assms
proof (induction rs arbitrary: pre pos ix dd e)
  case Nil
  have "junk \<noteq> []" using Nil.prems(2) by (auto simp: decode_record_def)
  with Nil show ?case by (subst replay.simps) simp
next
  case (Cons r rs)
  let ?buf = "pre @ log_bytes (r # rs) @ junk"
  have r: "rec_ok r" using Cons.prems by simp
  have dec: "decode_record (drop pos ?buf) = Inr (Some r)"
    using decode_rec_bytes [OF r, of "log_bytes rs @ junk"] Cons.prems(3) by simp
  have lt: "pos < length ?buf"
    using Cons.prems(3) length_rec_bytes [OF r] r by (simp add: rec_ok_def)
  have buf: "?buf = (pre @ rec_bytes r) @ log_bytes rs @ junk"
    by simp
  have "replay ?buf start (pos + rec_len r) ix' dd' e' = Inl err" for ix' dd' e'
    using Cons.IH [of "pos + rec_len r" "pre @ rec_bytes r"] Cons.prems length_rec_bytes [OF r]
    unfolding buf by simp
  then show ?case
    using dec lt by (subst replay.simps) (simp add: Let_def)
qed

subsection \<open>Records in the file\<close>

definition record_at :: "bytes \<Rightarrow> nat \<Rightarrow> db_record \<Rightarrow> bool" where
  "record_at f offset r \<longleftrightarrow> HEADER_LEN \<le> offset \<and> decode_record (drop offset f) = Inr (Some r)"

definition value_at :: "bytes \<Rightarrow> nat \<Rightarrow> bytes" where
  "value_at f offset = (case read_value f offset of Inr (Some v) \<Rightarrow> v | _ \<Rightarrow> [])"

lemma record_at_bytes:
  assumes "record_at f offset r"
  obtains pre rest where "f = pre @ rec_bytes r @ rest" and "length pre = offset"
    and "rec_ok r"
proof -
  from assms have dec: "decode_record (drop offset f) = Inr (Some r)"
    by (simp add: record_at_def)
  note D = decode_record_SomeD [OF dec]
  have "offset \<le> length f"
    using decode_record_len [OF dec] by simp
  then have len: "length (take offset f) = offset" by simp
  have "drop offset f = rec_bytes r @ drop (rec_len r) (drop offset f)"
    using D(1) unfolding rec_bytes_def .
  then have "f = take offset f @ rec_bytes r @ drop (rec_len r) (drop offset f)"
    by (metis append_take_drop_id)
  moreover have "rec_ok r"
    using D(2-4) by (simp add: rec_ok_def)
  ultimately show ?thesis using that len by blast
qed

lemma record_at_head:
  assumes "record_at f offset r"
  shows "read_at f offset 6 = Some (take 6 (rec_bytes r))"
    and "le_nat (take 4 (drop 2 (take 6 (rec_bytes r)))) = length (rec_key r)"
    and "read_at f (offset + 6 + length (rec_key r)) 4 = Some (le_bytes 4 (length (rec_value r)))"
    and "read_at f (offset + 10 + length (rec_key r)) (length (rec_value r)) = Some (rec_value r)"
    and "le_nat (le_bytes 4 (length (rec_value r))) = length (rec_value r)"
proof -
  obtain pre rest where f: "f = pre @ rec_bytes r @ rest" and off: "length pre = offset"
    and r: "rec_ok r"
    by (rule record_at_bytes [OF assms])
  let ?kl = "le_bytes 4 (length (rec_key r))" and ?vl = "le_bytes 4 (length (rec_value r))"
  let ?head = "[op_byte (rec_op r), rec_col r] @ ?kl"
  have rb: "rec_bytes r = ?head @ rec_key r @ ?vl @ rec_value r"
    by (simp add: rec_bytes_def encode_record_def)
  show "read_at f offset 6 = Some (take 6 (rec_bytes r))"
    using off by (simp add: f rb read_at_def)
  show "le_nat (take 4 (drop 2 (take 6 (rec_bytes r)))) = length (rec_key r)"
    using r by (simp add: rb rec_ok_def)
  show "read_at f (offset + 6 + length (rec_key r)) 4 = Some ?vl"
    using read_at_middle [of "offset + 6 + length (rec_key r)" "pre @ ?head @ rec_key r" 4 ?vl "rec_value r @ rest"] off
    by (simp add: f rb)
  show "read_at f (offset + 10 + length (rec_key r)) (length (rec_value r)) = Some (rec_value r)"
    using read_at_middle [of "offset + 10 + length (rec_key r)" "pre @ ?head @ rec_key r @ ?vl"
      "length (rec_value r)" "rec_value r" rest] off
    by (simp add: f rb)
  show "le_nat ?vl = length (rec_value r)"
    using r by (simp add: rec_ok_def)
qed

lemma read_value_record_at:
  assumes "record_at f offset r"
  shows "read_value f offset = Inr (Some (rec_value r))"
  using record_at_head [OF assms] by (simp add: read_value_def Let_def add.assoc)

lemma record_at_append:
  assumes "record_at f offset r"
  shows "record_at (f @ g) offset r"
proof -
  have dec: "decode_record (drop offset f) = Inr (Some r)" using assms by (simp add: record_at_def)
  have "offset \<le> length f" using decode_record_len [OF dec] by simp
  then show ?thesis
    using assms decode_record_append [OF dec, of g] by (simp add: record_at_def)
qed

lemma record_at_write_header:
  assumes "record_at f offset r" and "length data = HEADER_LEN"
  shows "record_at (write_at f 0 data) offset r"
proof -
  have dec: "decode_record (drop offset f) = Inr (Some r)" and off: "HEADER_LEN \<le> offset"
    using assms by (simp_all add: record_at_def)
  have "offset \<le> length f" using decode_record_len [OF dec] by simp
  then have "drop offset (write_at f 0 data) = drop offset f"
    using off assms(2) by (simp add: write_at_0)
  then show ?thesis using dec off by (simp add: record_at_def)
qed

lemma record_at_end:
  assumes "rec_ok r" and "HEADER_LEN \<le> length f"
  shows "record_at (f @ rec_bytes r @ rest) (length f) r"
  using assms by (simp add: record_at_def decode_rec_bytes)

subsection \<open>The invariant\<close>

definition snapshot_ok :: "bytes \<Rightarrow> header \<Rightarrow> db_index \<Rightarrow> nat \<Rightarrow> bool" where
  "snapshot_ok f h ix base \<longleftrightarrow>
     (index_len h = 0 \<and> ix = [] \<and> base = HEADER_LEN) \<or>
     (index_len h > 0 \<and> HEADER_LEN \<le> index_at h \<and> base = index_at h + index_len h \<and>
      (\<exists>buf es. read_at f (index_at h) (index_len h) = Some buf \<and> decode_index buf = Some es \<and>
         ix = bt_extend [] es))"

definition db_clean :: "bytes \<Rightarrow> db_index \<Rightarrow> bool" where
  "db_clean f ix \<longleftrightarrow>
     (\<exists>h base ix0 rs. header_decode (take HEADER_LEN f) = Inr h \<and> snapshot_ok f h ix0 base \<and>
        HEADER_LEN \<le> length f \<and> base \<le> length f \<and> (\<forall>r \<in> set rs. rec_ok r) \<and>
        drop base f = log_bytes rs \<and> ix = apply_log base rs ix0)"

definition entry_at :: "bytes \<Rightarrow> key \<times> nat \<Rightarrow> bool" where
  "entry_at f e \<longleftrightarrow>
     (\<exists>r. record_at f (snd e) r \<and> rec_op r = Put \<and> (rec_col r, rec_key r) = fst e)"

definition db_inv :: "inner \<Rightarrow> bool" where
  "db_inv s \<longleftrightarrow> end_pos s = length (db_file s) \<and> db_clean (db_file s) (index s) \<and>
     bt_ok (index s) \<and> (\<forall>e \<in> set (index s). entry_at (db_file s) e)"

definition db_fits :: "inner \<Rightarrow> bool" where
  "db_fits s \<longleftrightarrow> length (db_file s) < 2 ^ 64 \<and> length (index s) < 2 ^ 32"

definition db_wf :: "inner \<Rightarrow> bool" where
  "db_wf s \<longleftrightarrow> db_inv s \<and> db_fits s"

definition db_abs :: "inner \<Rightarrow> (key \<times> bytes) list" where
  "db_abs s = map (\<lambda>e. (fst e, value_at (db_file s) (snd e))) (index s)"

lemma snapshot_ok_load: "snapshot_ok f h ix base \<Longrightarrow> load_snapshot f h = (ix, base)"
  by (auto simp: snapshot_ok_def load_snapshot_def)

lemma snapshot_ok_append: "snapshot_ok f h ix base \<Longrightarrow> snapshot_ok (f @ g) h ix base"
  by (auto simp: snapshot_ok_def read_at_def split: if_splits)

lemma snapshot_ok_base: "snapshot_ok f h ix base \<Longrightarrow> HEADER_LEN \<le> base"
  by (auto simp: snapshot_ok_def)

text \<open>Reopening the file of a well-formed store reproduces the resident index.\<close>

lemma open_clean:
  assumes "db_clean f ix" and "decode_record torn = Inr None"
  shows "\<exists>d. open_with opts (f @ torn) =
    Inr \<lparr>db_file = f @ torn, index = ix, end_pos = length f, dead = d, options = opts\<rparr>"
proof -
  from assms(1) obtain h base ix0 rs where
    h: "header_decode (take HEADER_LEN f) = Inr h" and sn: "snapshot_ok f h ix0 base"
    and len: "HEADER_LEN \<le> length f" "base \<le> length f" and rs: "\<forall>r \<in> set rs. rec_ok r"
    and log: "drop base f = log_bytes rs" and ix: "ix = apply_log base rs ix0"
    by (auto simp: db_clean_def)
  have drop: "drop base (f @ torn) = [] @ log_bytes rs @ torn"
    using len log by simp
  have fin: "base + length (log_bytes rs) = length f"
    using len(2) arg_cong [OF log, of length] by simp
  note replay_log [where pos = 0 and pre = "[]" and start = base and e = base and dd = 0
      and ix = ix0, OF rs assms(2)]
  then obtain d where "replay ([] @ log_bytes rs @ torn) base 0 ix0 0 base = Inr (ix, d, length f)"
    using ix fin by auto
  then have "open_with opts (f @ torn) =
    Inr \<lparr>db_file = f @ torn, index = ix, end_pos = length f, dead = d, options = opts\<rparr>"
    using h len drop snapshot_ok_load [OF snapshot_ok_append [OF sn]]
    by (simp add: open_with_def)
  then show ?thesis ..
qed

subsection \<open>Appending a record\<close>

lemma entry_at_append: "entry_at f e \<Longrightarrow> entry_at (f @ g) e"
  using record_at_append by (fastforce simp: entry_at_def)

lemma value_at_record: "record_at f offset r \<Longrightarrow> value_at f offset = rec_value r"
  by (simp add: value_at_def read_value_record_at)

lemma value_at_append: "entry_at f e \<Longrightarrow> value_at (f @ g) (snd e) = value_at f (snd e)"
  unfolding entry_at_def using record_at_append value_at_record by metis

lemma value_at_write_header:
  assumes "entry_at f e" and "length data = HEADER_LEN"
  shows "value_at (write_at f 0 data) (snd e) = value_at f (snd e)"
  using assms record_at_write_header value_at_record unfolding entry_at_def by metis

lemma entry_at_write_header:
  "entry_at f e \<Longrightarrow> length data = HEADER_LEN \<Longrightarrow> entry_at (write_at f 0 data) e"
  unfolding entry_at_def using record_at_write_header by metis

lemma db_clean_len: "db_clean f ix \<Longrightarrow> HEADER_LEN \<le> length f"
  by (auto simp: db_clean_def)

lemma db_clean_append:
  assumes "db_clean f ix" and "rec_ok r"
  shows "db_clean (f @ rec_bytes r) (replay_record r (length f) ix)"
proof -
  from assms(1) obtain h base ix0 rs where
    h: "header_decode (take HEADER_LEN f) = Inr h" and sn: "snapshot_ok f h ix0 base"
    and len: "HEADER_LEN \<le> length f" "base \<le> length f" and rs: "\<forall>r \<in> set rs. rec_ok r"
    and log: "drop base f = log_bytes rs" and ix: "ix = apply_log base rs ix0"
    by (auto simp: db_clean_def)
  have "base + length (log_bytes rs) = length f"
    using len(2) arg_cong [OF log, of length] by simp
  then have "replay_record r (length f) ix = apply_log base (rs @ [r]) ix0"
    using apply_log_snoc [OF rs] ix by simp
  moreover have "drop base (f @ rec_bytes r) = log_bytes (rs @ [r])"
    using log len by simp
  moreover have "header_decode (take HEADER_LEN (f @ rec_bytes r)) = Inr h"
    using h len by simp
  moreover have "\<forall>x \<in> set (rs @ [r]). rec_ok x" using rs assms(2) by simp
  moreover have "snapshot_ok (f @ rec_bytes r) h ix0 base" by (rule snapshot_ok_append [OF sn])
  ultimately show ?thesis
    using len unfolding db_clean_def by (metis length_append trans_le_add1)
qed

definition append_log :: "inner \<Rightarrow> db_record \<Rightarrow> inner" where
  "append_log s r = s\<lparr>db_file := db_file s @ rec_bytes r,
     index := replay_record r (length (db_file s)) (index s),
     end_pos := length (db_file s) + rec_len r\<rparr>"

lemma db_inv_append:
  assumes "db_inv s" and "rec_ok r"
  shows "db_inv (append_log s r)"
proof -
  let ?f = "db_file s" and ?ix = "replay_record r (length (db_file s)) (index s)"
  from assms(1) have clean: "db_clean ?f (index s)" and ok: "bt_ok (index s)"
    and old: "\<forall>e \<in> set (index s). entry_at ?f e"
    by (simp_all add: db_inv_def)
  have "record_at (?f @ rec_bytes r) (length ?f) r"
    using record_at_end [OF assms(2) db_clean_len [OF clean], of "[]"] by simp
  then have new: "rec_op r = Put \<Longrightarrow> entry_at (?f @ rec_bytes r) ((rec_col r, rec_key r), length ?f)"
    by (auto simp: entry_at_def)
  have "\<forall>e \<in> set ?ix. entry_at (?f @ rec_bytes r) e"
  proof
    fix e assume "e \<in> set ?ix"
    then have "e \<in> set (index s) \<or> (rec_op r = Put \<and> e = ((rec_col r, rec_key r), length ?f))"
      using set_bt_insert_subset set_bt_remove_subset
      by (fastforce simp: replay_record_def split: db_op.splits)
    then show "entry_at (?f @ rec_bytes r) e"
      using old new entry_at_append by metis
  qed
  then show ?thesis
    using db_clean_append [OF clean assms(2)] ok length_rec_bytes [OF assms(2)]
    by (simp add: db_inv_def append_log_def)
qed

lemma db_abs_append:
  assumes "db_inv s" and "rec_ok r"
  shows "db_abs (append_log s r) =
    (case rec_op r of
       Put \<Rightarrow> bt_insert (rec_col r, rec_key r) (rec_value r) (db_abs s)
     | Delete \<Rightarrow> bt_remove (rec_col r, rec_key r) (db_abs s))"
proof -
  let ?f = "db_file s" and ?g = "db_file s @ rec_bytes r"
  have clean: "db_clean ?f (index s)" and old: "\<forall>e \<in> set (index s). entry_at ?f e"
    using assms(1) by (simp_all add: db_inv_def)
  have same: "map (\<lambda>e. (fst e, value_at ?g (snd e))) (index s) = db_abs s"
    using old value_at_append by (simp add: db_abs_def)
  have "record_at ?g (length ?f) r"
    using record_at_end [OF assms(2) db_clean_len [OF clean], of "[]"] by simp
  then have "value_at ?g (length ?f) = rec_value r" by (rule value_at_record)
  moreover have "db_abs (append_log s r) =
      map (\<lambda>e. (fst e, value_at ?g (snd e))) (replay_record r (length ?f) (index s))"
    by (simp add: db_abs_def append_log_def)
  ultimately show ?thesis
    using same by (simp add: replay_record_def map_bt_insert [where g = "value_at ?g"]
        map_bt_remove [where g = "value_at ?g"] split: db_op.splits)
qed

lemma db_inv_dead [simp]: "db_inv (s\<lparr>dead := d\<rparr>) = db_inv s"
  by (simp add: db_inv_def)

lemma db_abs_dead [simp]: "db_abs (s\<lparr>dead := d\<rparr>) = db_abs s"
  by (simp add: db_abs_def)

lemma charge_dead_dead: "charge_dead s offset = s\<lparr>dead := dead (charge_dead s offset)\<rparr>"
  by (simp add: charge_dead_def Let_def split: option.splits)

lemma db_abs_ok: "db_inv s \<Longrightarrow> bt_ok (db_abs s)"
  by (simp add: db_abs_def bt_ok_map_snd db_inv_def)

lemma map_of_db_abs: "map_of (db_abs s) k = map_option (value_at (db_file s)) (map_of (index s) k)"
  by (simp add: db_abs_def map_of_map_vals)

subsection \<open>Snapshots and compaction\<close>

lemma entry_ok_entry_at:
  assumes "entry_at f e" and "length f < 2 ^ 64"
  shows "entry_ok e"
proof -
  from assms(1) obtain r where r: "record_at f (snd e) r" "(rec_col r, rec_key r) = fst e"
    by (auto simp: entry_at_def)
  obtain pre rest where "f = pre @ rec_bytes r @ rest" "length pre = snd e" "rec_ok r"
    by (rule record_at_bytes [OF r(1)])
  then show ?thesis
    using assms(2) arg_cong [OF r(2), of snd] by (auto simp: entry_ok_def rec_ok_def)
qed

lemma snapshot_index_simps:
  assumes "db_inv s" and "snapshot (options s)"
  defines "bs \<equiv> encode_index (index s)"
  shows "snapshot_index s =
    s\<lparr>db_file := write_at (db_file s @ bs) 0
        (header_encode \<lparr>index_at = length (db_file s), index_len = length bs\<rparr>),
      end_pos := length (db_file s) + length bs\<rparr>"
  using assms by (simp add: snapshot_index_def Let_def db_inv_def write_at_end)

lemma snapshot_index_inv:
  assumes inv: "db_inv s" and fits: "db_fits (snapshot_index s)"
  shows "db_inv (snapshot_index s)"
proof (cases "snapshot (options s)")
  case False
  then show ?thesis using inv by (simp add: snapshot_index_def)
next
  case True
  let ?f = "db_file s" and ?bs = "encode_index (index s)"
  let ?h = "\<lparr>index_at = length ?f, index_len = length ?bs\<rparr>"
  let ?g = "write_at (?f @ ?bs) 0 (header_encode ?h)"
  have len: "HEADER_LEN \<le> length ?f" and ok: "bt_ok (index s)"
    and old: "\<forall>e \<in> set (index s). entry_at ?f e"
    using inv db_clean_len by (auto simp: db_inv_def)
  have g: "length ?g = length ?f + length ?bs"
    using len by (simp add: length_write_at)
  have small: "length ?f + length ?bs < 2 ^ 64" "length (index s) < 2 ^ 32"
    using fits g by (simp_all add: snapshot_index_simps [OF inv True] db_fits_def)
  have bs: "0 < length ?bs" by (simp add: encode_index_def)
  have "take HEADER_LEN ?g = header_encode ?h"
    using len by (simp add: write_at_0)
  then have "header_decode (take HEADER_LEN ?g) = Inr ?h"
    using header_decode_encode [of ?h "[]"] small by simp
  moreover have "snapshot_ok ?g ?h (index s) (length ?g)"
  proof -
    have "read_at ?g (length ?f) (length ?bs) = read_at (?f @ ?bs) (length ?f) (length ?bs)"
      using len by (intro read_at_write_at_0) simp_all
    also have "\<dots> = Some ?bs" by (simp add: read_at_def)
    finally have "read_at ?g (length ?f) (length ?bs) = Some ?bs" .
    moreover have "decode_index ?bs = Some (index s)"
      using old small entry_ok_entry_at by (intro decode_encode_index) auto
    ultimately show ?thesis
      using bs len g ok by (auto simp: snapshot_ok_def)
  qed
  moreover have "drop (length ?g) ?g = log_bytes []" by simp
  ultimately have "db_clean ?g (index s)"
    using len g unfolding db_clean_def
    by (intro exI [of _ ?h] exI [of _ "length ?g"] exI [of _ "index s"] exI [of _ "[]"]) simp
  then show ?thesis
    using old ok g entry_at_append entry_at_write_header
    by (auto simp: snapshot_index_simps [OF inv True] db_inv_def)
qed

lemma snapshot_index_abs:
  assumes inv: "db_inv s"
  shows "db_abs (snapshot_index s) = db_abs s"
proof (cases "snapshot (options s)")
  case True
  have "value_at (write_at (db_file s @ bs) 0 (header_encode h)) (snd e) = value_at (db_file s) (snd e)"
    if "e \<in> set (index s)" for e bs h
  proof -
    have e: "entry_at (db_file s) e" using inv that by (simp add: db_inv_def)
    show ?thesis
      using value_at_write_header [OF entry_at_append [OF e]] value_at_append [OF e] by simp
  qed
  then show ?thesis
    by (simp add: snapshot_index_simps [OF inv True] db_abs_def)
qed (simp add: snapshot_index_def)

text \<open>Compaction is the same as appending every live record to a fresh store.\<close>

definition db_fresh :: "options \<Rightarrow> inner" where
  "db_fresh opts = \<lparr>db_file = header_encode header_default, index = [], end_pos = HEADER_LEN,
     dead = 0, options = opts\<rparr>"

lemma db_inv_fresh: "db_inv (db_fresh opts)"
proof -
  let ?f = "header_encode header_default"
  have "header_decode (take HEADER_LEN ?f) = Inr header_default"
    using header_decode_encode [of header_default "[]"] by (simp add: header_default_def)
  moreover have "snapshot_ok ?f header_default [] HEADER_LEN"
    by (simp add: snapshot_ok_def header_default_def)
  ultimately have "db_clean ?f []"
    unfolding db_clean_def
    by (intro exI [of _ header_default] exI [of _ HEADER_LEN] exI [of _ "[]"] exI [of _ "[]"]) simp
  then show ?thesis by (simp add: db_inv_def db_fresh_def)
qed

lemma db_abs_fresh [simp]: "db_abs (db_fresh opts) = []"
  by (simp add: db_abs_def db_fresh_def)

lemma compact_loop_append:
  assumes "\<forall>e \<in> set live. entry_at f e" and "db_inv t"
  shows "\<exists>t'. compact_loop f live (db_file t) (index t) (end_pos t) =
      Inr (db_file t', index t', end_pos t') \<and> db_inv t' \<and>
      db_abs t' = bt_extend (db_abs t) (map (\<lambda>e. (fst e, value_at f (snd e))) live)"
  using assms
proof (induction live arbitrary: t)
  case (Cons e live)
  obtain col k off where e: "e = ((col, k), off)" by (metis prod.exhaust)
  obtain r0 where r0: "record_at f off r0" "rec_col r0 = col" "rec_key r0 = k" "rec_op r0 = Put"
    using Cons.prems(1) e by (auto simp: entry_at_def)
  obtain pre rest where "rec_ok r0"
    by (rule record_at_bytes [OF r0(1)])
  then have r: "rec_ok r0" "rec_bytes r0 = encode_record Put col k (rec_value r0)"
    using r0 by (simp_all add: rec_bytes_def)
  let ?t = "append_log t r0"
  have val: "read_value f off = Inr (Some (rec_value r0))" "value_at f off = rec_value r0"
    using read_value_record_at [OF r0(1)] value_at_record [OF r0(1)] by simp_all
  have endp: "end_pos t = length (db_file t)" using Cons.prems(2) by (simp add: db_inv_def)
  have step: "compact_loop f (e # live) (db_file t) (index t) (end_pos t) =
      compact_loop f live (db_file ?t) (index ?t) (end_pos ?t)"
    using val r r0 endp length_rec_bytes [OF r(1)]
    by (simp add: e append_log_def replay_record_def Let_def)
  have "db_inv ?t" "db_abs ?t = bt_insert (col, k) (value_at f off) (db_abs t)"
    using db_inv_append [OF Cons.prems(2) r(1)] db_abs_append [OF Cons.prems(2) r(1)] r0 val
    by simp_all
  then show ?case
    using Cons.IH [of ?t] Cons.prems(1) step by (simp add: e)
qed auto

lemma compact_refines:
  assumes inv: "db_inv s"
  shows "\<exists>s'. compact s = Inr s' \<and> db_abs s' = db_abs s \<and> (db_fits s' \<longrightarrow> db_inv s')"
proof -
  have live: "\<forall>e \<in> set (index s). entry_at (db_file s) e" using inv by (simp add: db_inv_def)
  from compact_loop_append [OF live db_inv_fresh [of "options s"]]
  obtain t where loop: "compact_loop (db_file s) (index s) (header_encode header_default) [] HEADER_LEN =
      Inr (db_file t, index t, end_pos t)" and t: "db_inv t"
    and abs: "db_abs t = bt_extend [] (db_abs s)"
    by (auto simp: db_fresh_def db_abs_def)
  let ?u = "s\<lparr>db_file := db_file t, index := index t, end_pos := end_pos t, dead := 0\<rparr>"
  have u: "db_inv ?u" "db_abs ?u = db_abs s"
    using t abs db_abs_ok [OF inv] by (simp_all add: db_inv_def db_abs_def)
  have "compact s = Inr (snapshot_index ?u)"
    by (simp add: compact_def loop)
  then show ?thesis
    using snapshot_index_abs [OF u(1)] snapshot_index_inv [OF u(1)] u(2) by simp
qed

lemma maybe_compact_refines:
  assumes inv: "db_inv s"
  shows "\<exists>s'. maybe_compact s = Inr s' \<and> db_abs s' = db_abs s \<and> (db_fits s' \<longrightarrow> db_inv s')"
  using compact_refines [OF inv] inv by (simp add: maybe_compact_def Let_def)

end
