(* ===== verification/Keyspace.thy ===== *)
theory Keyspace
  imports Prelude
begin

section \<open>The key-value primitive and its keyspace (crates/store/src/kv.rs)\<close>

text \<open>
  \<open>KVStorage\<close> is the trait every behaviour interface of the store is written over. Its five
  required methods are specified here on \<open>kv\<close>, a sorted map from column and key to bytes; the
  provided methods (\<open>realm\<close>, \<open>key\<close>, \<open>prefix\<close>, \<open>get_json\<close>, \<open>put_json\<close>) are definitions.
  \<open>serde_json\<close> is not part of the repository: a \<open>codec\<close> (an encoder and a decoder) is an
  argument of everything that stores a structured value, and \<open>codec_ok\<close> states the documented
  round trip, relative to the fields a \<open>#[serde(skip)]\<close> drops. The locale \<open>kv_store\<close> is
  the contract between a backend and its clients: a backend simulates the sorted map.
\<close>

subsection \<open>Columns\<close>

datatype column = Agent | Session | Memory | Skill | Harness | Config | Text | Event

fun column_nat :: "column \<Rightarrow> nat" where
  "column_nat Agent = 0"
| "column_nat Session = 1"
| "column_nat Memory = 2"
| "column_nat Skill = 3"
| "column_nat Harness = 4"
| "column_nat Config = 5"
| "column_nat Text = 6"
| "column_nat Event = 7"

text \<open>\<open>#[derive(PartialOrd, Ord)]\<close>: columns compare by discriminant.\<close>

instantiation column :: linorder
begin

definition less_eq_column :: "column \<Rightarrow> column \<Rightarrow> bool" where
  "less_eq_column a b \<longleftrightarrow> column_nat a \<le> column_nat b"

definition less_column :: "column \<Rightarrow> column \<Rightarrow> bool" where
  "less_column a b \<longleftrightarrow> column_nat a < column_nat b"

instance
proof
  fix a b :: column
  show "a \<le> b \<Longrightarrow> b \<le> a \<Longrightarrow> a = b"
    by (cases a; cases b) (simp_all add: less_eq_column_def)
qed (auto simp: less_eq_column_def less_column_def)

end

definition column_all :: "column list" where
  "column_all = [Agent, Session, Memory, Skill, Harness, Config, Text, Event]"

lemma column_all_complete: "c \<in> set column_all"
  by (cases c) (simp_all add: column_all_def)

subsection \<open>The five required methods\<close>

type_synonym kv = "((column \<times> bytes) \<times> bytes) list"

definition kv_get :: "kv \<Rightarrow> column \<Rightarrow> bytes \<Rightarrow> bytes option" where
  "kv_get m col k = map_of m (col, k)"

definition kv_put :: "kv \<Rightarrow> column \<Rightarrow> bytes \<Rightarrow> bytes \<Rightarrow> kv" where
  "kv_put m col k v = bt_insert (col, k) v m"

definition kv_delete :: "kv \<Rightarrow> column \<Rightarrow> bytes \<Rightarrow> bool \<times> kv" where
  "kv_delete m col k = (map_of m (col, k) \<noteq> None, bt_remove (col, k) m)"

definition kv_scan :: "kv \<Rightarrow> column \<Rightarrow> bytes \<Rightarrow> (bytes \<times> bytes) list" where
  "kv_scan m col p =
     map (\<lambda>e. (snd (fst e), snd e)) (filter (\<lambda>e. fst (fst e) = col \<and> prefix p (snd (fst e))) m)"

definition kv_scan_keys :: "kv \<Rightarrow> column \<Rightarrow> bytes \<Rightarrow> bytes list" where
  "kv_scan_keys m col p = map fst (kv_scan m col p)"

abbreviation kv_remove :: "kv \<Rightarrow> column \<Rightarrow> bytes \<Rightarrow> kv" where
  "kv_remove m col k \<equiv> snd (kv_delete m col k)"

subsection \<open>Keys\<close>

definition realm_local :: bytes where
  "realm_local = ''local''"

definition key :: "bytes list \<Rightarrow> bytes" where
  "key parts = foldl (\<lambda>k part. k @ ''/'' @ part) realm_local parts"

definition kv_prefix :: "bytes list \<Rightarrow> bytes" where
  "kv_prefix parts = key parts @ ''/''"

subsection \<open>Structured values\<close>

datatype store_error =
    BadJson
  | BadUtf8
  | EmptyName
  | ForbiddenName bytes
  | SessionNotFound bytes
  | SkillError string

record 'v codec =
  to_json :: "'v \<Rightarrow> bytes"
  from_json :: "bytes \<Rightarrow> 'v option"

definition get_json :: "'v codec \<Rightarrow> kv \<Rightarrow> column \<Rightarrow> bytes \<Rightarrow> store_error + 'v option" where
  "get_json J m col k =
     (case kv_get m col k of
        None \<Rightarrow> Inr None
      | Some bs \<Rightarrow>
          (case from_json J bs of None \<Rightarrow> Inl BadJson | Some v \<Rightarrow> Inr (Some v)))"

definition put_json :: "'v codec \<Rightarrow> kv \<Rightarrow> column \<Rightarrow> bytes \<Rightarrow> 'v \<Rightarrow> kv" where
  "put_json J m col k v = kv_put m col k (to_json J v)"

text \<open>
  The documented behaviour of \<open>serde_json\<close>: reading back what was written gives the value,
  up to the fields the type skips (\<open>persisted\<close> is the identity for most types).
\<close>

definition codec_ok :: "('v \<Rightarrow> 'v) \<Rightarrow> 'v codec \<Rightarrow> bool" where
  "codec_ok persisted J \<longleftrightarrow> (\<forall>v. from_json J (to_json J v) = Some (persisted v))"

text \<open>
  A codec that satisfies the law exists for every type with an injection into a countable type:
  the witnesses use it to show that the law can hold.
\<close>

definition unary_codec :: "('v \<Rightarrow> 'c::countable) \<Rightarrow> ('c \<Rightarrow> 'v) \<Rightarrow> 'v codec" where
  "unary_codec f g =
     \<lparr>to_json = (\<lambda>v. replicate (to_nat (f v)) (CHR ''1'')),
      from_json = (\<lambda>bs. Some (g (from_nat (length bs))))\<rparr>"

lemma unary_codec_ok: "(\<And>v. g (f v) = p v) \<Longrightarrow> codec_ok p (unary_codec f g)"
  by (simp add: codec_ok_def unary_codec_def)

subsection \<open>Laws of the map\<close>

named_theorems kv_simps \<open>laws of the sorted key-value map\<close>

lemma kv_get_put [kv_simps, simp]:
  "kv_get (kv_put m c k v) c' k' = (if c' = c \<and> k' = k then Some v else kv_get m c' k')"
  by (simp add: kv_get_def kv_put_def)

lemma kv_get_delete [kv_simps, simp]:
  "kv_get (kv_remove m c k) c' k' = (if c' = c \<and> k' = k then None else kv_get m c' k')"
  by (simp add: kv_get_def kv_delete_def)

lemma kv_deleted [kv_simps, simp]: "fst (kv_delete m c k) \<longleftrightarrow> kv_get m c k \<noteq> None"
  by (simp add: kv_get_def kv_delete_def)

lemma bt_ok_put [simp]: "bt_ok m \<Longrightarrow> bt_ok (kv_put m c k v)"
  by (simp add: kv_put_def)

lemma bt_ok_delete [simp]: "bt_ok m \<Longrightarrow> bt_ok (kv_remove m c k)"
  by (simp add: kv_delete_def)

lemma bt_ok_put_json [simp]: "bt_ok m \<Longrightarrow> bt_ok (put_json J m c k v)"
  by (simp add: put_json_def)

lemma kv_get_put_json [kv_simps, simp]:
  "kv_get (put_json J m c k v) c' k' = (if c' = c \<and> k' = k then Some (to_json J v) else kv_get m c' k')"
  by (simp add: put_json_def)

lemma get_json_same:
  "codec_ok p J \<Longrightarrow> kv_get m c k = Some (to_json J v) \<Longrightarrow> get_json J m c k = Inr (Some (p v))"
  by (simp add: get_json_def codec_ok_def)

lemma get_json_put [kv_simps]:
  "codec_ok p J \<Longrightarrow> get_json J (put_json J m c k v) c k = Inr (Some (p v))"
  by (rule get_json_same) simp_all

lemma get_json_cong: "kv_get m c k = kv_get m' c k \<Longrightarrow> get_json J m c k = get_json J m' c k"
  by (simp add: get_json_def)

lemma get_json_put_other:
  "c' \<noteq> c \<or> k' \<noteq> k \<Longrightarrow> get_json J (put_json J' m c k v) c' k' = get_json J m c' k'"
  by (rule get_json_cong) auto

lemma get_json_kv_put_other:
  "c' \<noteq> c \<or> k' \<noteq> k \<Longrightarrow> get_json J (kv_put m c k v) c' k' = get_json J m c' k'"
  by (rule get_json_cong) auto

lemma get_json_remove_other:
  "c' \<noteq> c \<or> k' \<noteq> k \<Longrightarrow> get_json J (kv_remove m c k) c' k' = get_json J m c' k'"
  by (rule get_json_cong) auto

lemma get_json_none: "kv_get m c k = None \<Longrightarrow> get_json J m c k = Inr None"
  by (simp add: get_json_def)

lemma kv_ext:
  assumes "bt_ok m" and "bt_ok m'" and "\<And>c k. kv_get m c k = kv_get m' c k"
  shows "m = m'"
  using assms by (intro bt_ext) (auto simp: kv_get_def fun_eq_iff)

lemma set_kv_scan:
  assumes "bt_ok m"
  shows "set (kv_scan m c p) = {(k, v). prefix p k \<and> kv_get m c k = Some v}"
  using bt_get_in [OF assms] by (force simp: kv_scan_def kv_get_def image_iff)

lemma set_kv_scan_keys:
  assumes "bt_ok m"
  shows "set (kv_scan_keys m c p) = {k. prefix p k \<and> kv_get m c k \<noteq> None}"
  using set_kv_scan [OF assms, of c p] by (force simp: kv_scan_keys_def)

lemma sorted_kv_scan_keys: "bt_ok m \<Longrightarrow> sorted_wrt (<) (kv_scan_keys m c p)"
proof (induction m)
  case (Cons e m)
  show ?case
  proof (cases "fst (fst e) = c \<and> prefix p (snd (fst e))")
    case True
    have "snd (fst e) < k" if "k \<in> set (kv_scan_keys m c p)" for k
    proof -
      from that obtain x where "x \<in> set m" "fst (fst x) = c" "k = snd (fst x)"
        by (auto simp: kv_scan_keys_def kv_scan_def)
      with Cons.prems True show ?thesis
        by (cases x; cases e) (auto simp: bt_ok_Cons less_prod_def)
    qed
    moreover have "sorted_wrt (<) (kv_scan_keys m c p)"
      using Cons by (simp add: bt_ok_Cons)
    ultimately show ?thesis
      using True by (simp add: kv_scan_keys_def kv_scan_def)
  next
    case False
    with Cons show ?thesis by (auto simp: bt_ok_Cons kv_scan_keys_def kv_scan_def)
  qed
qed (simp add: kv_scan_keys_def kv_scan_def)

subsection \<open>Keys do not collide\<close>

definition slash_free :: "bytes \<Rightarrow> bool" where
  "slash_free p \<longleftrightarrow> CHR ''/'' \<notin> set p"

definition joined :: "bytes list \<Rightarrow> bytes" where
  "joined parts = concat (map (\<lambda>p. ''/'' @ p) parts)"

lemma joined_simps [simp]: "joined [] = []" "joined (p # ps) = CHR ''/'' # p @ joined ps"
  "joined (ps @ qs) = joined ps @ joined qs"
  by (simp_all add: joined_def)

lemma key_joined: "key parts = realm_local @ joined parts"
proof -
  have "foldl (\<lambda>k part. k @ ''/'' @ part) acc parts = acc @ joined parts" for acc
    by (induction parts arbitrary: acc) simp_all
  then show ?thesis by (simp add: key_def)
qed

lemma joined_head: "joined ps = [] \<or> (\<exists>t. joined ps = CHR ''/'' # t)"
  by (cases ps) auto

lemma slash_split:
  assumes "slash_free p" and "slash_free q" and "p @ A = q @ B"
    and "A = [] \<or> (\<exists>t. A = CHR ''/'' # t)" and "B = [] \<or> (\<exists>t. B = CHR ''/'' # t)"
  shows "p = q \<and> A = B"
proof -
  have "takeWhile (\<lambda>c. c \<noteq> CHR ''/'') (p @ A) = p"
    using assms(1,4) by (subst takeWhile_append2) (auto simp: slash_free_def)
  moreover have "takeWhile (\<lambda>c. c \<noteq> CHR ''/'') (q @ B) = q"
    using assms(2,5) by (subst takeWhile_append2) (auto simp: slash_free_def)
  ultimately show ?thesis using assms(3) by simp
qed

lemma joined_inj:
  assumes "\<forall>p \<in> set ps. slash_free p" and "\<forall>q \<in> set qs. slash_free q" and "joined ps = joined qs"
  shows "ps = qs"
  using assms
proof (induction ps arbitrary: qs)
  case Nil
  then show ?case by (cases qs) auto
next
  case (Cons p ps)
  then obtain q qs' where qs: "qs = q # qs'" by (cases qs) auto
  have "p = q \<and> joined ps = joined qs'"
    using Cons.prems joined_head by (intro slash_split) (auto simp: qs)
  then show ?case using Cons.IH [of qs'] Cons.prems by (simp add: qs)
qed

lemma joined_prefix:
  assumes "\<forall>p \<in> set ps. slash_free p" and "\<forall>q \<in> set qs. slash_free q"
    and "joined qs = joined ps @ CHR ''/'' # t"
  shows "\<exists>r rs. qs = ps @ r # rs"
  using assms
proof (induction ps arbitrary: qs)
  case Nil
  then show ?case by (cases qs) auto
next
  case (Cons p ps)
  then obtain q qs' where qs: "qs = q # qs'" by (cases qs) auto
  have "q = p \<and> joined qs' = joined ps @ CHR ''/'' # t"
    using Cons.prems joined_head [of ps] joined_head [of qs']
    by (intro slash_split) (auto simp: qs)
  then show ?case using Cons.IH [of qs'] Cons.prems by (simp add: qs)
qed

lemma key_inj:
  assumes "\<forall>p \<in> set ps. slash_free p" and "\<forall>q \<in> set qs. slash_free q" and "key ps = key qs"
  shows "ps = qs"
  using joined_inj [OF assms(1,2)] assms(3) by (simp add: key_joined)

lemma prefix_key_iff:
  assumes "\<forall>p \<in> set ps. slash_free p" and "\<forall>q \<in> set qs. slash_free q"
  shows "prefix (kv_prefix ps) (key qs) \<longleftrightarrow> (\<exists>r rs. qs = ps @ r # rs)"
proof
  assume "prefix (kv_prefix ps) (key qs)"
  then obtain t where "joined qs = joined ps @ CHR ''/'' # t"
    by (auto simp: prefix_def kv_prefix_def key_joined)
  then show "\<exists>r rs. qs = ps @ r # rs" by (rule joined_prefix [OF assms])
qed (auto simp: prefix_def kv_prefix_def key_joined)

subsection \<open>The contract of a backend\<close>

text \<open>
  A backend has states \<open>'s\<close>, an invariant, a sorted map it stands for, and the five methods.
  \<open>fits\<close> is the size bound of the on-disk integers: an operation always answers as the map
  does, and it keeps the invariant as long as what it wrote stays within the bound.
\<close>

locale kv_store =
  fixes inv fits :: "'s \<Rightarrow> bool"
    and abs :: "'s \<Rightarrow> kv"
    and sget :: "'s \<Rightarrow> column \<Rightarrow> bytes \<Rightarrow> 'e + bytes option"
    and sput :: "'s \<Rightarrow> column \<Rightarrow> bytes \<Rightarrow> bytes \<Rightarrow> 'e + 's"
    and sdelete :: "'s \<Rightarrow> column \<Rightarrow> bytes \<Rightarrow> 'e + (bool \<times> 's)"
    and sscan_keys :: "'s \<Rightarrow> column \<Rightarrow> bytes \<Rightarrow> 'e + bytes list"
    and sscan :: "'s \<Rightarrow> column \<Rightarrow> bytes \<Rightarrow> 'e + (bytes \<times> bytes) list"
  assumes abs_ok: "inv s \<Longrightarrow> bt_ok (abs s)"
    and get_law: "inv s \<Longrightarrow> sget s c k = Inr (kv_get (abs s) c k)"
    and put_law: "inv s \<Longrightarrow> length k < 2 ^ 32 \<Longrightarrow> length v < 2 ^ 32 \<Longrightarrow>
      \<exists>s'. sput s c k v = Inr s' \<and> abs s' = kv_put (abs s) c k v \<and> (fits s' \<longrightarrow> inv s')"
    and delete_law: "inv s \<Longrightarrow> length k < 2 ^ 32 \<Longrightarrow>
      \<exists>b s'. sdelete s c k = Inr (b, s') \<and> (b, abs s') = kv_delete (abs s) c k \<and>
        (fits s' \<longrightarrow> inv s')"
    and scan_keys_law: "inv s \<Longrightarrow> sscan_keys s c p = Inr (kv_scan_keys (abs s) c p)"
    and scan_law: "inv s \<Longrightarrow> sscan s c p = Inr (kv_scan (abs s) c p)"
begin

lemma get_after_put:
  assumes "inv s" and "length k < 2 ^ 32" and "length v < 2 ^ 32"
    and "sput s c k v = Inr s'" and "fits s'"
  shows "sget s' c' k' = Inr (if c' = c \<and> k' = k then Some v else kv_get (abs s) c' k')"
  using put_law [OF assms(1-3), of c] get_law [of s'] assms(4,5) by auto

lemma get_after_delete:
  assumes "inv s" and "length k < 2 ^ 32" and "sdelete s c k = Inr (b, s')" and "fits s'"
  shows "sget s' c' k' = Inr (if c' = c \<and> k' = k then None else kv_get (abs s) c' k')"
    and "b \<longleftrightarrow> kv_get (abs s) c k \<noteq> None"
proof -
  have inv: "inv s'" and del: "(b, abs s') = kv_delete (abs s) c k"
    using delete_law [OF assms(1,2), of c] assms(3,4) by auto
  have s': "abs s' = kv_remove (abs s) c k" using del by (metis snd_conv)
  show "sget s' c' k' = Inr (if c' = c \<and> k' = k then None else kv_get (abs s) c' k')"
    using get_law [OF inv] by (simp add: s')
  show "b \<longleftrightarrow> kv_get (abs s) c k \<noteq> None"
    using del by (metis fst_conv kv_deleted)
qed

lemma scan_keys_sorted:
  assumes "inv s" and "sscan_keys s c p = Inr ks"
  shows "sorted_wrt (<) ks" and "set ks = {k. prefix p k \<and> kv_get (abs s) c k \<noteq> None}"
  using scan_keys_law [OF assms(1)] assms(2) sorted_kv_scan_keys [OF abs_ok [OF assms(1)]]
    set_kv_scan_keys [OF abs_ok [OF assms(1)]]
  by auto

end

text \<open>The sorted map is its own backend: the specification model the interfaces run on.\<close>

interpretation mem: kv_store "\<lambda>m. bt_ok m" "\<lambda>_. True" "\<lambda>m. m"
  "\<lambda>m c k. (Inr (kv_get m c k) :: store_error + bytes option)" "\<lambda>m c k v. Inr (kv_put m c k v)"
  "\<lambda>m c k. Inr (kv_delete m c k)" "\<lambda>m c p. Inr (kv_scan_keys m c p)"
  "\<lambda>m c p. Inr (kv_scan m c p)"
  by unfold_locales (auto simp: kv_delete_def)

end
