(* ===== verification/CrabdbRefinement.thy ===== *)
theory CrabdbRefinement
  imports CrabdbInvariant Keyspace
begin

section \<open>The store refines a sorted map\<close>

text \<open>
  The public operations of \<open>CrabDb\<close> against the abstraction \<^const>\<open>db_abs\<close>, recovery from
  torn tails and from reopening, runs of operations, and the backend of
  apps/agent/src/backend/mod.rs, which is the interpretation of the contract \<open>kv_store\<close>.
  The last section shows two recovery paths on which the file format is not enough.
\<close>

subsection \<open>Operations\<close>

definition put_rec :: "byte \<Rightarrow> bytes \<Rightarrow> bytes \<Rightarrow> db_record" where
  "put_rec col k v = \<lparr>rec_op = Put, rec_col = col, rec_key = k, rec_value = v,
     rec_len = 10 + length k + length v\<rparr>"

definition delete_rec :: "byte \<Rightarrow> bytes \<Rightarrow> db_record" where
  "delete_rec col k = \<lparr>rec_op = Delete, rec_col = col, rec_key = k, rec_value = [],
     rec_len = 10 + length k\<rparr>"

lemma put_step:
  assumes "db_inv s"
  shows "\<exists>d. put s col k v = maybe_compact ((append_log s (put_rec col k v))\<lparr>dead := d\<rparr>)"
proof -
  let ?s1 = "append_log s (put_rec col k v)"
  have s1: "fst (append_record s Put col k v)\<lparr>index := bt_insert (col, k) (end_pos s) (index s)\<rparr> = ?s1"
    using assms by (simp add: append_record_def append_log_def put_rec_def rec_bytes_def
        replay_record_def db_inv_def write_at_end Let_def)
  then have "put s col k v = maybe_compact
      (case map_of (index s) (col, k) of None \<Rightarrow> ?s1 | Some stale \<Rightarrow> charge_dead ?s1 stale)"
    by (simp add: put_def append_record_def Let_def split: option.splits)
  moreover have "?s1 = ?s1\<lparr>dead := dead ?s1\<rparr>" by simp
  ultimately show ?thesis
    using charge_dead_dead [of ?s1]
    by (cases "map_of (index s) (col, k)") (metis option.case(1), metis option.case(2))
qed

lemma db_wf_inv: "db_wf s \<Longrightarrow> db_inv s"
  by (simp add: db_wf_def)

lemma put_law:
  assumes "db_inv s" and "length k < 2 ^ 32" and "length v < 2 ^ 32"
  shows "\<exists>s'. put s col k v = Inr s' \<and> db_abs s' = bt_insert (col, k) v (db_abs s) \<and>
    (db_fits s' \<longrightarrow> db_wf s')"
proof -
  obtain d where step: "put s col k v = maybe_compact ((append_log s (put_rec col k v))\<lparr>dead := d\<rparr>)"
    using put_step [OF assms(1)] by blast
  have r: "rec_ok (put_rec col k v)" using assms(2,3) by (simp add: rec_ok_def put_rec_def)
  have "db_abs (append_log s (put_rec col k v)) = bt_insert (col, k) v (db_abs s)"
    using db_abs_append [OF assms(1) r] by (simp add: put_rec_def)
  then show ?thesis
    using maybe_compact_refines [of "(append_log s (put_rec col k v))\<lparr>dead := d\<rparr>"]
      db_inv_append [OF assms(1) r] step by (auto simp: db_wf_def)
qed

lemma delete_step:
  assumes "db_inv s" and "map_of (index s) (col, k) = Some stale"
  shows "\<exists>d. delete s col k =
    (case maybe_compact ((append_log s (delete_rec col k))\<lparr>dead := d\<rparr>) of
       Inl e \<Rightarrow> Inl e | Inr s' \<Rightarrow> Inr (True, s'))"
proof -
  let ?s1 = "append_log s (delete_rec col k)"
  have s1: "fst (append_record (s\<lparr>index := bt_remove (col, k) (index s)\<rparr>) Delete col k []) = ?s1"
    using assms(1) by (simp add: append_record_def append_log_def delete_rec_def rec_bytes_def
        replay_record_def db_inv_def write_at_end Let_def)
  then have "delete s col k =
    (case maybe_compact (charge_dead ?s1 stale) of Inl e \<Rightarrow> Inl e | Inr s' \<Rightarrow> Inr (True, s'))"
    using assms(2) by (simp add: delete_def Let_def case_prod_beta)
  then show ?thesis
    using charge_dead_dead [of ?s1 stale] by metis
qed

lemma delete_law:
  assumes "db_inv s" and "length k < 2 ^ 32"
  shows "\<exists>b s'. delete s col k = Inr (b, s') \<and> b = (map_of (db_abs s) (col, k) \<noteq> None) \<and>
    db_abs s' = bt_remove (col, k) (db_abs s) \<and> (db_fits s' \<longrightarrow> db_wf s')"
proof (cases "map_of (index s) (col, k)")
  case None
  then have "map_of (db_abs s) (col, k) = None" by (simp add: map_of_db_abs)
  then show ?thesis
    using None assms(1)
    by (intro exI [of _ False] exI [of _ s]) (simp add: delete_def bt_remove_absent db_wf_def)
next
  case (Some stale)
  obtain d where step: "delete s col k =
      (case maybe_compact ((append_log s (delete_rec col k))\<lparr>dead := d\<rparr>) of
         Inl e \<Rightarrow> Inl e | Inr s' \<Rightarrow> Inr (True, s'))"
    using delete_step [OF assms(1) Some] by blast
  have r: "rec_ok (delete_rec col k)" using assms(2) by (simp add: rec_ok_def delete_rec_def)
  have "db_abs (append_log s (delete_rec col k)) = bt_remove (col, k) (db_abs s)"
    using db_abs_append [OF assms(1) r] by (simp add: delete_rec_def)
  moreover have "map_of (db_abs s) (col, k) \<noteq> None" using Some by (simp add: map_of_db_abs)
  ultimately show ?thesis
    using maybe_compact_refines [of "(append_log s (delete_rec col k))\<lparr>dead := d\<rparr>"]
      db_inv_append [OF assms(1) r] step by (auto simp: db_wf_def)
qed

lemma read_value_entry:
  "entry_at f e \<Longrightarrow> read_value f (snd e) = Inr (Some (value_at f (snd e)))"
  by (auto simp: entry_at_def read_value_record_at value_at_record)

lemma get_law:
  assumes "db_inv s"
  shows "get s col k = Inr (map_of (db_abs s) (col, k))"
proof (cases "map_of (index s) (col, k)")
  case None
  then show ?thesis by (simp add: get_def map_of_db_abs)
next
  case (Some offset)
  then have "((col, k), offset) \<in> set (index s)" by (rule map_of_SomeD)
  then have "entry_at (db_file s) ((col, k), offset)"
    using assms unfolding db_inv_def by blast
  from read_value_entry [OF this] Some show ?thesis
    by (simp add: get_def map_of_db_abs)
qed

definition db_scan :: "(CrabdbFormat.key \<times> bytes) list \<Rightarrow> byte \<Rightarrow> bytes \<Rightarrow> (bytes \<times> bytes) list" where
  "db_scan m col p =
     map (\<lambda>e. (snd (fst e), snd e)) (filter (\<lambda>e. fst (fst e) = col \<and> prefix p (snd (fst e))) m)"

lemma range_at_filter:
  assumes "bt_ok (index s)"
  shows "range_at s col p =
    map (\<lambda>e. (snd (fst e), snd e)) (filter (\<lambda>e. fst (fst e) = col \<and> prefix p (snd (fst e))) (index s))"
proof -
  let ?Q = "\<lambda>e :: CrabdbFormat.key \<times> nat. fst (fst e) = col \<and> prefix p (snd (fst e))"
  have "takeWhile ?Q (bt_from (col, p) (index s)) = filter ?Q (index s)"
  proof (rule takeWhile_from_filter [OF assms])
    fix e :: "CrabdbFormat.key \<times> nat" assume "?Q e"
    then show "(col, p) \<le> fst e"
      by (cases e; cases "fst e") (auto simp: less_eq_prod_def prefix_le)
  next
    fix e e' :: "CrabdbFormat.key \<times> nat"
    assume "(col, p) \<le> fst e" "fst e < fst e'" "?Q e'"
    then show "?Q e"
      using prefix_between [of p "snd (fst e)" "snd (fst e')"]
      by (cases e; cases "fst e"; cases e'; cases "fst e'") (auto simp: less_eq_prod_def less_prod_def)
  qed
  then show ?thesis by (simp add: range_at_def)
qed

lemma scan_loop_values:
  assumes "\<forall>e \<in> set es. read_value f (snd e) = Inr (Some (value_at f (snd e)))"
  shows "scan_loop f es = Inr (map (\<lambda>e. (fst e, value_at f (snd e))) es)"
  using assms by (induction es) auto

lemma scan_law:
  assumes "db_inv s"
  shows "scan s col p = Inr (db_scan (db_abs s) col p)"
    and "scan_keys s col p = map fst (db_scan (db_abs s) col p)"
proof -
  have ok: "bt_ok (index s)" and at: "\<forall>e \<in> set (index s). entry_at (db_file s) e"
    using assms by (simp_all add: db_inv_def)
  have "\<forall>e \<in> set (range_at s col p). read_value (db_file s) (snd e) = Inr (Some (value_at (db_file s) (snd e)))"
    using at read_value_entry by (fastforce simp: range_at_filter [OF ok])
  then have "scan s col p = Inr (map (\<lambda>e. (fst e, value_at (db_file s) (snd e))) (range_at s col p))"
    unfolding scan_def by (rule scan_loop_values)
  then show "scan s col p = Inr (db_scan (db_abs s) col p)"
    by (simp add: range_at_filter [OF ok] db_scan_def db_abs_def filter_map comp_def)
  show "scan_keys s col p = map fst (db_scan (db_abs s) col p)"
    by (simp add: scan_keys_def range_at_filter [OF ok] db_scan_def db_abs_def filter_map comp_def)
qed

subsection \<open>The backend (apps/agent/src/backend/mod.rs)\<close>

definition column_byte :: "column \<Rightarrow> byte" where
  "column_byte c = char_of (column_nat c)"

definition byte_column :: "byte \<Rightarrow> column" where
  "byte_column b = column_all ! of_char b"

definition backend_open :: "bytes \<Rightarrow> db_error + inner" where
  "backend_open f = open_with options_default f"

definition backend_get :: "inner \<Rightarrow> column \<Rightarrow> bytes \<Rightarrow> db_error + bytes option" where
  "backend_get s col k = get s (column_byte col) k"

definition backend_put :: "inner \<Rightarrow> column \<Rightarrow> bytes \<Rightarrow> bytes \<Rightarrow> db_error + inner" where
  "backend_put s col k v = put s (column_byte col) k v"

definition backend_delete :: "inner \<Rightarrow> column \<Rightarrow> bytes \<Rightarrow> db_error + (bool \<times> inner)" where
  "backend_delete s col k = delete s (column_byte col) k"

definition backend_scan_keys :: "inner \<Rightarrow> column \<Rightarrow> bytes \<Rightarrow> db_error + bytes list" where
  "backend_scan_keys s col p = Inr (scan_keys s (column_byte col) p)"

definition backend_scan :: "inner \<Rightarrow> column \<Rightarrow> bytes \<Rightarrow> db_error + (bytes \<times> bytes) list" where
  "backend_scan s col p = scan s (column_byte col) p"

definition rekey :: "byte \<times> bytes \<Rightarrow> column \<times> bytes" where
  "rekey k = (byte_column (fst k), snd k)"

definition backend_abs :: "inner \<Rightarrow> kv" where
  "backend_abs s = map (\<lambda>e. (rekey (fst e), snd e)) (db_abs s)"

definition backend_inv :: "inner \<Rightarrow> bool" where
  "backend_inv s \<longleftrightarrow> db_wf s \<and> (\<forall>e \<in> set (db_abs s). (of_char (fst (fst e)) :: nat) < 8)"

lemma column_nat_less: "column_nat c < 8"
  by (cases c) simp_all

lemma of_column_byte [simp]: "of_char (column_byte c) = column_nat c"
  using column_nat_less [of c] by (simp add: column_byte_def)

lemma byte_column_byte [simp]: "byte_column (column_byte c) = c"
  by (cases c) (simp_all add: byte_column_def column_all_def)

lemma column_byte_column: "(of_char b :: nat) < 8 \<Longrightarrow> column_byte (byte_column b) = b"
proof -
  assume "(of_char b :: nat) < 8"
  then have "of_char b \<in> set [0..<8 :: nat]" by simp
  then have "column_nat (column_all ! of_char b) = of_char b"
    by (simp add: upt_rec column_all_def) (elim disjE, simp_all)
  then show ?thesis by (simp add: byte_column_def column_byte_def)
qed

lemma byte_column_less:
  assumes "(of_char a :: nat) < 8" and "(of_char b :: nat) < 8"
  shows "byte_column a < byte_column b \<longleftrightarrow> a < b" and "byte_column a = byte_column b \<longleftrightarrow> a = b"
proof -
  have "column_nat (byte_column a) = of_char a" "column_nat (byte_column b) = of_char b"
    using assms column_byte_column of_column_byte by metis+
  then show "byte_column a < byte_column b \<longleftrightarrow> a < b"
    by (simp add: less_column_def less_char_def)
  show "byte_column a = byte_column b \<longleftrightarrow> a = b"
    using column_byte_column [OF assms(1)] column_byte_column [OF assms(2)] by metis
qed

lemma rekey_mono:
  assumes "(of_char (fst x) :: nat) < 8" and "(of_char (fst y) :: nat) < 8"
  shows "rekey x < rekey y \<longleftrightarrow> x < y" and "rekey x = rekey y \<longleftrightarrow> x = y"
  using byte_column_less [OF assms]
  by (cases x; cases y; auto simp: rekey_def less_prod_def less_le)+

lemma rekey_column [simp]: "rekey (column_byte c, k) = (c, k)"
  by (simp add: rekey_def)

lemma backend_abs_scan:
  assumes "\<forall>e \<in> set m. (of_char (fst (fst e)) :: nat) < 8"
  shows "kv_scan (map (\<lambda>e. (rekey (fst e), snd e)) m) col p = db_scan m (column_byte col) p"
  using assms
proof (induction m)
  case (Cons e m)
  have "byte_column (fst (fst e)) = col \<longleftrightarrow> fst (fst e) = column_byte col"
    using Cons.prems column_byte_column byte_column_byte by fastforce
  with Cons show ?case by (simp add: kv_scan_def db_scan_def rekey_def)
qed (simp add: kv_scan_def db_scan_def)

lemma backend_put_law:
  assumes "backend_inv s" and "length k < 2 ^ 32" and "length v < 2 ^ 32"
  shows "\<exists>s'. backend_put s c k v = Inr s' \<and> backend_abs s' = kv_put (backend_abs s) c k v \<and>
    (db_fits s' \<longrightarrow> backend_inv s')"
proof -
  have wf: "db_wf s" and cols: "\<forall>e \<in> set (db_abs s). (of_char (fst (fst e)) :: nat) < 8"
    using assms(1) by (simp_all add: backend_inv_def)
  obtain s' where s': "put s (column_byte c) k v = Inr s'"
    "db_abs s' = bt_insert (column_byte c, k) v (db_abs s)" "db_fits s' \<longrightarrow> db_wf s'"
    using put_law [OF db_wf_inv [OF wf] assms(2,3)] by blast
  have "backend_abs s' = bt_insert (rekey (column_byte c, k)) v (backend_abs s)"
    unfolding backend_abs_def s'(2)
    by (rule map_keys_bt_insert) (use cols column_nat_less in \<open>auto intro!: rekey_mono(1)\<close>)
  moreover have "\<forall>e \<in> set (db_abs s'). (of_char (fst (fst e)) :: nat) < 8"
    using cols column_nat_less set_bt_insert_subset s'(2) by fastforce
  ultimately show ?thesis
    using s' by (simp add: backend_put_def kv_put_def backend_inv_def)
qed

lemma backend_delete_law:
  assumes "backend_inv s" and "length k < 2 ^ 32"
  shows "\<exists>b s'. backend_delete s c k = Inr (b, s') \<and> (b, backend_abs s') = kv_delete (backend_abs s) c k \<and>
    (db_fits s' \<longrightarrow> backend_inv s')"
proof -
  have wf: "db_wf s" and cols: "\<forall>e \<in> set (db_abs s). (of_char (fst (fst e)) :: nat) < 8"
    using assms(1) by (simp_all add: backend_inv_def)
  obtain b s' where s': "delete s (column_byte c) k = Inr (b, s')"
    "b = (map_of (db_abs s) (column_byte c, k) \<noteq> None)"
    "db_abs s' = bt_remove (column_byte c, k) (db_abs s)" "db_fits s' \<longrightarrow> db_wf s'"
    using delete_law [OF db_wf_inv [OF wf] assms(2)] by blast
  have inj: "x = (column_byte c, k)"
    if "x \<in> fst ` set (db_abs s)" "rekey x = rekey (column_byte c, k)" for x
  proof -
    have "(of_char (fst x) :: nat) < 8" using that(1) cols by auto
    then show ?thesis
      using rekey_mono(2) [of x "(column_byte c, k)"] that(2) column_nat_less by simp
  qed
  have "backend_abs s' = bt_remove (c, k) (backend_abs s)"
    using map_keys_bt_remove [of "db_abs s" rekey "(column_byte c, k)"] inj
    by (simp add: backend_abs_def s'(3))
  moreover have "map_of (backend_abs s) (c, k) = map_of (db_abs s) (column_byte c, k)"
    using map_of_map_keys [of "db_abs s" rekey "(column_byte c, k)"] inj
    by (simp add: backend_abs_def)
  moreover have "\<forall>e \<in> set (db_abs s'). (of_char (fst (fst e)) :: nat) < 8"
    using cols set_bt_remove_subset s'(3) by fastforce
  ultimately show ?thesis
    using s' by (simp add: backend_delete_def kv_delete_def backend_inv_def)
qed

lemma backend_keyD:
  "backend_inv s \<Longrightarrow> x \<in> fst ` set (db_abs s) \<Longrightarrow> (of_char (fst x) :: nat) < 8"
  by (auto simp: backend_inv_def)

lemma backend_abs_ok:
  assumes "backend_inv s"
  shows "bt_ok (backend_abs s)"
proof -
  have "db_inv s" using assms by (simp add: backend_inv_def db_wf_def)
  then show ?thesis
    unfolding backend_abs_def
    by (intro bt_ok_map_keys db_abs_ok rekey_mono(1) backend_keyD [OF assms])
qed

lemma backend_get_law:
  assumes "backend_inv s"
  shows "backend_get s c k = Inr (kv_get (backend_abs s) c k)"
proof -
  have "map_of (backend_abs s) (rekey (column_byte c, k)) = map_of (db_abs s) (column_byte c, k)"
    unfolding backend_abs_def
  proof (rule map_of_map_keys)
    fix x assume "x \<in> fst ` set (db_abs s)" and eq: "rekey x = rekey (column_byte c, k)"
    then have "(of_char (fst x) :: nat) < 8" by (intro backend_keyD [OF assms])
    then show "x = (column_byte c, k)"
      using eq rekey_mono(2) [of x "(column_byte c, k)"] column_nat_less by simp
  qed
  then show ?thesis
    using get_law [of s] assms by (simp add: backend_get_def kv_get_def backend_inv_def db_wf_def)
qed

lemma backend_scan_law:
  assumes "backend_inv s"
  shows "backend_scan s c p = Inr (kv_scan (backend_abs s) c p)"
    and "backend_scan_keys s c p = Inr (kv_scan_keys (backend_abs s) c p)"
proof -
  have wf: "db_inv s" and cols: "\<forall>e \<in> set (db_abs s). (of_char (fst (fst e)) :: nat) < 8"
    using assms by (simp_all add: backend_inv_def db_wf_def)
  show "backend_scan s c p = Inr (kv_scan (backend_abs s) c p)"
    using scan_law(1) [OF wf] backend_abs_scan [OF cols]
    by (simp add: backend_scan_def backend_abs_def)
  show "backend_scan_keys s c p = Inr (kv_scan_keys (backend_abs s) c p)"
    using scan_law(2) [OF wf] backend_abs_scan [OF cols]
    by (simp add: backend_scan_keys_def kv_scan_keys_def backend_abs_def)
qed

interpretation backend: kv_store backend_inv db_fits backend_abs backend_get backend_put
  backend_delete backend_scan_keys backend_scan
  by (unfold_locales; rule backend_abs_ok backend_get_law backend_put_law backend_delete_law
      backend_scan_law; assumption)

subsection \<open>Runs, restarts and crashes\<close>

datatype db_cmd =
    CmdPut column bytes bytes
  | CmdDelete column bytes
  | CmdCheckpoint
  | CmdCompact
  | CmdReopen

fun run_cmd :: "inner \<Rightarrow> db_cmd \<Rightarrow> db_error + inner" where
  "run_cmd s (CmdPut c k v) = backend_put s c k v"
| "run_cmd s (CmdDelete c k) =
     (case backend_delete s c k of Inl e \<Rightarrow> Inl e | Inr (_, s') \<Rightarrow> Inr s')"
| "run_cmd s CmdCheckpoint = Inr (checkpoint s)"
| "run_cmd s CmdCompact = compact s"
| "run_cmd s CmdReopen = open_with (options s) (db_file s)"

fun run_cmds :: "inner \<Rightarrow> db_cmd list \<Rightarrow> db_error + inner" where
  "run_cmds s [] = Inr s"
| "run_cmds s (c # cs) = (case run_cmd s c of Inl e \<Rightarrow> Inl e | Inr s' \<Rightarrow> run_cmds s' cs)"

fun run_fits :: "inner \<Rightarrow> db_cmd list \<Rightarrow> bool" where
  "run_fits s [] = True"
| "run_fits s (c # cs) = (case run_cmd s c of Inl e \<Rightarrow> True | Inr s' \<Rightarrow> db_fits s' \<and> run_fits s' cs)"

fun spec_cmd :: "kv \<Rightarrow> db_cmd \<Rightarrow> kv" where
  "spec_cmd m (CmdPut c k v) = kv_put m c k v"
| "spec_cmd m (CmdDelete c k) = kv_remove m c k"
| "spec_cmd m _ = m"

fun cmd_ok :: "db_cmd \<Rightarrow> bool" where
  "cmd_ok (CmdPut c k v) \<longleftrightarrow> length k < 2 ^ 32 \<and> length v < 2 ^ 32"
| "cmd_ok (CmdDelete c k) \<longleftrightarrow> length k < 2 ^ 32"
| "cmd_ok _ \<longleftrightarrow> True"

lemma reopen_abs:
  assumes "db_inv s" and "decode_record torn = Inr None"
  shows "\<exists>s'. open_with opts (db_file s @ torn) = Inr s' \<and> index s' = index s \<and>
    end_pos s' = end_pos s \<and> db_file s' = db_file s @ torn \<and> db_abs s' = db_abs s"
proof -
  have clean: "db_clean (db_file s) (index s)" and fin: "end_pos s = length (db_file s)"
    and at: "\<forall>e \<in> set (index s). entry_at (db_file s) e"
    using assms(1) by (simp_all add: db_inv_def)
  obtain d where op: "open_with opts (db_file s @ torn) = Inr \<lparr>db_file = db_file s @ torn,
      index = index s, end_pos = length (db_file s), dead = d, options = opts\<rparr>" (is "_ = Inr ?s'")
    using open_clean [OF clean assms(2)] by blast
  have "db_abs ?s' = db_abs s"
    using at value_at_append by (simp add: db_abs_def)
  with op fin show ?thesis by simp
qed

lemma open_junk:
  assumes "db_clean f ix" and "decode_record junk = Inl err"
  shows "open_with opts (f @ junk) = Inl err"
proof -
  from assms(1) obtain h base ix0 rs where
    h: "header_decode (take HEADER_LEN f) = Inr h" and sn: "snapshot_ok f h ix0 base"
    and len: "HEADER_LEN \<le> length f" "base \<le> length f" and rs: "\<forall>r \<in> set rs. rec_ok r"
    and log: "drop base f = log_bytes rs"
    by (auto simp: db_clean_def)
  have "replay (drop base (f @ junk)) base 0 ix0 0 base = Inl err"
    using replay_log_error [OF rs assms(2), of 0 "[]"] len log by simp
  then show ?thesis
    using h len snapshot_ok_load [OF snapshot_ok_append [OF sn]]
    by (simp add: open_with_def)
qed

lemma decode_empty: "decode_record [] = Inr None"
  by (simp add: decode_record_def)

lemma run_cmd_refines:
  assumes "backend_inv s" and "cmd_ok c"
  shows "\<exists>s'. run_cmd s c = Inr s' \<and> backend_abs s' = spec_cmd (backend_abs s) c \<and>
    (db_fits s' \<longrightarrow> backend_inv s')"
proof (cases c)
  case (CmdPut col k v)
  then show ?thesis using backend.put_law [OF assms(1)] assms(2) by simp
next
  case (CmdDelete col k)
  then obtain b s' where "backend_delete s col k = Inr (b, s')"
    "(b, backend_abs s') = kv_delete (backend_abs s) col k" "db_fits s' \<longrightarrow> backend_inv s'"
    using backend.delete_law [OF assms(1), of k col] assms(2) by auto
  then show ?thesis using CmdDelete by (auto dest: arg_cong [of _ _ snd])
next
  case CmdCheckpoint
  have inv: "db_inv s" using assms(1) by (simp add: backend_inv_def db_wf_def)
  show ?thesis
    using snapshot_index_abs [OF inv] snapshot_index_inv [OF inv] assms(1) CmdCheckpoint
    by (auto simp: checkpoint_def backend_inv_def backend_abs_def db_wf_def)
next
  case CmdCompact
  then show ?thesis
    using compact_refines [of s] assms(1) by (auto simp: backend_inv_def backend_abs_def db_wf_def)
next
  case CmdReopen
  have inv: "db_inv s" using assms(1) by (simp add: backend_inv_def db_wf_def)
  obtain s' where s': "open_with (options s) (db_file s) = Inr s'" "index s' = index s"
    "end_pos s' = end_pos s" "db_file s' = db_file s" "db_abs s' = db_abs s"
    using reopen_abs [OF inv decode_empty] by auto
  then show ?thesis
    using assms(1) CmdReopen
    by (auto simp: backend_inv_def backend_abs_def db_wf_def db_inv_def)
qed

lemma run_cmds_refine:
  assumes "backend_inv s" and "list_all cmd_ok cs" and "run_fits s cs"
  shows "\<exists>s'. run_cmds s cs = Inr s' \<and> backend_inv s' \<and>
    backend_abs s' = foldl spec_cmd (backend_abs s) cs"
  using assms
proof (induction cs arbitrary: s)
  case (Cons c cs)
  then obtain s' where "run_cmd s c = Inr s'" "backend_abs s' = spec_cmd (backend_abs s) c"
    "db_fits s' \<longrightarrow> backend_inv s'"
    using run_cmd_refines [of s c] by auto
  with Cons.IH [of s'] Cons.prems show ?case by simp
qed simp

text \<open>
  C1: The store is a map, across restarts. Whatever sequence of puts, deletes, checkpoints,
  compactions and reopenings is run from a well-formed store (keys and values below
  \<open>2 ^ 32\<close> bytes, files below \<open>2 ^ 64\<close>), no operation fails, and the resulting file stands
  for exactly the map those puts and deletes make: compaction and replay lose nothing and
  resurrect nothing.
\<close>

theorem store_runs_as_map:
  assumes "backend_inv s" and "list_all cmd_ok cs" and "run_fits s cs"
  shows "\<exists>s'. run_cmds s cs = Inr s' \<and> backend_inv s' \<and>
    backend_abs s' = foldl spec_cmd (backend_abs s) cs"
  by (rule run_cmds_refine [OF assms])

lemma backend_inv_fresh: "backend_inv (db_fresh opts)"
  using db_inv_fresh
  by (simp add: backend_inv_def db_wf_def db_fits_def) (simp add: db_fresh_def HEADER_LEN_def)

definition sample_cmds :: "db_cmd list" where
  "sample_cmds =
     [CmdPut Agent ''a'' ''1'', CmdPut Memory ''b'' ''2'', CmdCheckpoint, CmdReopen,
      CmdPut Agent ''a'' ''3'', CmdCompact, CmdReopen]"

lemma sample_fits: "run_fits (db_fresh options_default) sample_cmds"
  by code_simp

theorem store_runs_as_map_witness:
  "\<exists>s'. run_cmds (db_fresh options_default) sample_cmds = Inr s' \<and> backend_inv s' \<and>
     backend_abs s' = [((Agent, ''a''), ''3''), ((Memory, ''b''), ''2'')]"
proof -
  have "list_all cmd_ok sample_cmds" by (simp add: sample_cmds_def)
  from store_runs_as_map [OF backend_inv_fresh this sample_fits] show ?thesis
    by (simp add: sample_cmds_def backend_abs_def kv_put_def less_prod_def less_column_def
        less_eq_column_def db_fresh_def db_abs_def)
qed

subsection \<open>Crashes\<close>

text \<open>
  C2: A process that dies while appending a record leaves a prefix of it at the end of the
  file. Opening that file succeeds, finds the same keys and values as before the interrupted
  write, and puts the append position on the last clean boundary.
\<close>

theorem torn_append_discarded:
  assumes "db_wf s" and "length k < 2 ^ 32" and "length v < 2 ^ 32"
    and "n < length (encode_record op col k v)"
  shows "\<exists>s'. open_with opts (db_file s @ take n (encode_record op col k v)) = Inr s' \<and>
    index s' = index s \<and> db_abs s' = db_abs s \<and> end_pos s' = length (db_file s)"
  using reopen_abs [OF db_wf_inv [OF assms(1)] decode_record_torn [OF assms(2-4)], of opts]
    assms(1) by (auto simp: db_wf_def db_inv_def)

theorem torn_append_discarded_witness:
  "\<exists>s'. open_with options_default (db_file (db_fresh options_default) @
      take 7 (encode_record Put (CHR 0x00) ''k'' ''v'')) = Inr s' \<and> index s' = [] \<and> end_pos s' = 32"
proof -
  have "db_wf (db_fresh options_default)" using backend_inv_fresh by (simp add: backend_inv_def)
  then show ?thesis
    using torn_append_discarded [of "db_fresh options_default" "''k''" "''v''" 7 Put "CHR 0x00"
        options_default]
    by (auto simp: db_fresh_def HEADER_LEN_def)
qed

text \<open>
  The torn tail is only skipped, not cut off. When the next record is shorter than the
  fragment it overwrites, the rest of the fragment stays behind it in the file, and the
  following open replays that residue: bytes that were inside a value nobody finished writing
  come back as a key.
\<close>

definition torn_value :: bytes where
  "torn_value = [CHR 0x00] @ encode_record Put (CHR 0x00) ''evil'' ''x'' @ ''!''"

definition torn_file :: bytes where
  "torn_file = header_encode header_default @
     butlast (encode_record Put (CHR 0x00) ''k'' torn_value)"

theorem torn_residue_replayed:
  "\<exists>s1 s2 s3. open_with options_default torn_file = Inr s1 \<and> db_abs s1 = [] \<and>
     put s1 (CHR 0x00) ''k'' ''v'' = Inr s2 \<and>
     db_abs s2 = [((CHR 0x00, ''k''), ''v'')] \<and>
     open_with options_default (db_file s2) = Inr s3 \<and>
     db_abs s3 = [((CHR 0x00, ''evil''), ''x''), ((CHR 0x00, ''k''), ''v'')]"
proof -
  have "(case open_with options_default torn_file of Inl _ \<Rightarrow> False | Inr s1 \<Rightarrow>
      db_abs s1 = [] \<and>
      (case put s1 (CHR 0x00) ''k'' ''v'' of Inl _ \<Rightarrow> False | Inr s2 \<Rightarrow>
        db_abs s2 = [((CHR 0x00, ''k''), ''v'')] \<and>
        (case open_with options_default (db_file s2) of Inl _ \<Rightarrow> False | Inr s3 \<Rightarrow>
          db_abs s3 = [((CHR 0x00, ''evil''), ''x''), ((CHR 0x00, ''k''), ''v'')])))"
    by code_simp
  then show ?thesis by (auto split: sum.splits)
qed

text \<open>
  C3: A checkpoint writes the snapshot behind the log before the header names it. A process that
  dies between the two leaves a file whose log is followed by snapshot bytes the header does not
  know about; opening it replays them as records. The first of them is the low byte of the number
  of keys: where that number is neither 0 nor 1 modulo 256, it is no operation, and the store does
  not open. (Stores where it is 0 or 1 are not covered: there the replay goes on.)
\<close>

theorem snapshot_without_header_unopenable:
  assumes "db_wf s" and "2 \<le> length (index s) mod 256"
  shows "open_with opts (write_at (db_file s) (end_pos s) (encode_index (index s))) =
    Inl (UnknownOp (char_of (length (index s) mod 256)))"
proof -
  let ?n = "length (index s)" and ?junk = "encode_index (index s)"
  have fin: "end_pos s = length (db_file s)" and clean: "db_clean (db_file s) (index s)"
    using assms(1) by (simp_all add: db_wf_def db_inv_def)
  have small: "\<not> (char_of (?n mod 256) = CHR 0x00 \<or> char_of (?n mod 256) = CHR 0x01)"
  proof
    assume "char_of (?n mod 256) = CHR 0x00 \<or> char_of (?n mod 256) = CHR 0x01"
    then have "(of_char (char_of (?n mod 256) :: char) :: nat) = of_char (CHR 0x00) \<or>
        (of_char (char_of (?n mod 256) :: char) :: nat) = of_char (CHR 0x01)"
      by (elim disjE) (simp_all only: simp_thms)
    then show False using assms(2) by simp
  qed
  have junk: "?junk = char_of (?n mod 256) # drop 1 ?junk"
    using le_bytes.simps(2) [of 3 ?n] by (simp add: encode_index_def del: le_bytes.simps)
  have "decode_record ?junk = Inl (UnknownOp (char_of (?n mod 256)))"
    by (subst junk, subst decode_record_def) (use small in \<open>simp add: op_from_byte_def\<close>)
  then show ?thesis
    using open_junk [OF clean] fin by (simp add: write_at_end)
qed

definition two_keys :: inner where
  "two_keys = projr (run_cmds (db_fresh options_default) (take 2 sample_cmds))"

lemma two_keys_wf: "db_wf two_keys" and two_keys_index: "length (index two_keys) = 2"
proof -
  have "list_all cmd_ok (take 2 sample_cmds)" by (simp add: sample_cmds_def)
  moreover have "run_fits (db_fresh options_default) (take 2 sample_cmds)" by code_simp
  ultimately obtain s where "run_cmds (db_fresh options_default) (take 2 sample_cmds) = Inr s"
    "backend_inv s"
    using run_cmds_refine [OF backend_inv_fresh] by blast
  then show "db_wf two_keys" by (simp add: two_keys_def backend_inv_def)
  show "length (index two_keys) = 2" by code_simp
qed

theorem snapshot_without_header_unopenable_witness:
  "open_with options_default
     (write_at (db_file two_keys) (end_pos two_keys) (encode_index (index two_keys))) =
   Inl (UnknownOp (CHR 0x02))"
proof -
  have "char_of (2 :: nat) = CHR 0x02" by code_simp
  then show ?thesis
    using snapshot_without_header_unopenable [OF two_keys_wf, of options_default]
    by (simp add: two_keys_index)
qed

end
