(* ===== verification/RustText.thy ===== *)
theory RustText
  imports Prelude
begin

section \<open>Strings as Rust has them\<close>

text \<open>
  A \<open>String\<close> is its UTF-8 bytes. This theory holds the methods of \<open>str\<close> and \<open>char\<close> the program
  uses: UTF-8 validity and character boundaries, splitting and joining, trimming, decimal
  numbers. What the standard library decides by Unicode tables (whether a character beyond
  ASCII is alphanumeric or white space, how it lowercases) is the argument \<open>unicode\<close>; the
  ASCII half of those functions is defined outright.
\<close>

text \<open>\<open>?\<close>: the error propagates, a value continues.\<close>

fun bindr :: "'e + 'a \<Rightarrow> ('a \<Rightarrow> 'e + 'b) \<Rightarrow> 'e + 'b" where
  "bindr (Inl e) f = Inl e"
| "bindr (Inr x) f = f x"

lemma bindr_Inr: "bindr x f = Inr y \<longleftrightarrow> (\<exists>a. x = Inr a \<and> f a = Inr y)"
  by (cases x) auto

lemma bindr_Inl: "bindr x f = Inl e \<longleftrightarrow> x = Inl e \<or> (\<exists>a. x = Inr a \<and> f a = Inl e)"
  by (cases x) auto

lemma map_sum_Inr_iff: "map_sum f g r = Inr b \<longleftrightarrow> (\<exists>a. r = Inr a \<and> b = g a)"
  by (cases r) auto

subsection \<open>UTF-8\<close>

definition byte_val :: "byte \<Rightarrow> nat" where
  "byte_val c = of_char c"

definition is_ascii :: "byte \<Rightarrow> bool" where
  "is_ascii c \<longleftrightarrow> byte_val c < 128"

definition is_cont :: "byte \<Rightarrow> bool" where
  "is_cont c \<longleftrightarrow> 128 \<le> byte_val c \<and> byte_val c < 192"

text \<open>\<open>is_char_boundary\<close>: an index inside the string is one unless a continuation byte is there.\<close>

definition is_char_boundary :: "bytes \<Rightarrow> nat \<Rightarrow> bool" where
  "is_char_boundary s i \<longleftrightarrow> i = 0 \<or> i = length s \<or> (i < length s \<and> \<not> is_cont (s ! i))"

text \<open>Well-formed byte sequences (table 3-7 of the Unicode standard): what \<open>from_utf8\<close> accepts.\<close>

function valid_utf8 :: "bytes \<Rightarrow> bool" where
  "valid_utf8 s =
     (case s of
        [] \<Rightarrow> True
      | a # s1 \<Rightarrow>
        (let n = byte_val a in
         if n < 128 then valid_utf8 s1
         else if 194 \<le> n \<and> n < 224 then
           (case s1 of b # s2 \<Rightarrow> is_cont b \<and> valid_utf8 s2 | _ \<Rightarrow> False)
         else if 224 \<le> n \<and> n < 240 then
           (case s1 of
              b # c # s3 \<Rightarrow>
                is_cont b \<and> is_cont c \<and> (n = 224 \<longrightarrow> 160 \<le> byte_val b) \<and> (n = 237 \<longrightarrow> byte_val b < 160) \<and>
                valid_utf8 s3
            | _ \<Rightarrow> False)
         else if 240 \<le> n \<and> n < 245 then
           (case s1 of
              b # c # d # s4 \<Rightarrow>
                is_cont b \<and> is_cont c \<and> is_cont d \<and> (n = 240 \<longrightarrow> 144 \<le> byte_val b) \<and>
                (n = 244 \<longrightarrow> byte_val b < 144) \<and> valid_utf8 s4
            | _ \<Rightarrow> False)
         else False))"
  by pat_completeness auto
termination
  by (relation "measure length") auto

declare valid_utf8.simps [simp del]

lemma valid_utf8_Nil [simp]: "valid_utf8 []"
  by (subst valid_utf8.simps) simp

lemma valid_utf8_ascii_Cons [simp]: "is_ascii a \<Longrightarrow> valid_utf8 (a # s) = valid_utf8 s"
  by (subst valid_utf8.simps) (simp add: is_ascii_def Let_def)

lemma valid_utf8_ascii: "\<forall>c \<in> set s. is_ascii c \<Longrightarrow> valid_utf8 s"
  by (induction s) auto

lemma valid_utf8_append:
  assumes "valid_utf8 s"
  shows "valid_utf8 (s @ t) = valid_utf8 t"
  using assms
proof (induction s rule: valid_utf8.induct)
  case (1 s)
  show ?case
  proof (cases s)
    case (Cons a s1)
    let ?n = "byte_val a"
    have v: "valid_utf8 (a # s1)" using "1.prems" Cons by simp
    consider "?n < 128" | "194 \<le> ?n \<and> ?n < 224" | "224 \<le> ?n \<and> ?n < 240" | "240 \<le> ?n \<and> ?n < 245"
      using v by (subst (asm) valid_utf8.simps) (auto simp: Let_def split: if_splits)
    then show ?thesis
    proof cases
      case 1
      then show ?thesis using "1.IH"(1) [OF Cons refl] v Cons by (simp add: is_ascii_def)
    next
      case 2
      then obtain b s2 where s1: "s1 = b # s2" "is_cont b" "valid_utf8 s2"
        using v by (subst (asm) valid_utf8.simps) (auto simp: Let_def split: list.splits)
      have IH: "valid_utf8 (s2 @ t) = valid_utf8 t"
        using "1.IH"(2) [OF Cons refl] 2 s1 by auto
      show ?thesis
        using 2 s1 IH Cons by (subst valid_utf8.simps) (simp add: Let_def)
    next
      case 3
      then obtain b c s3 where s1: "s1 = b # c # s3" "is_cont b" "is_cont c"
          "?n = 224 \<longrightarrow> 160 \<le> byte_val b" "?n = 237 \<longrightarrow> byte_val b < 160" "valid_utf8 s3"
        using v by (subst (asm) valid_utf8.simps) (auto simp: Let_def split: list.splits)
      have IH: "valid_utf8 (s3 @ t) = valid_utf8 t"
        using "1.IH"(3) [OF Cons refl] 3 s1 by auto
      show ?thesis
        using 3 s1 IH Cons by (subst valid_utf8.simps) (simp add: Let_def)
    next
      case 4
      then obtain b c d s4 where s1: "s1 = b # c # d # s4" "is_cont b" "is_cont c" "is_cont d"
          "?n = 240 \<longrightarrow> 144 \<le> byte_val b" "?n = 244 \<longrightarrow> byte_val b < 144" "valid_utf8 s4"
        using v by (subst (asm) valid_utf8.simps) (auto simp: Let_def split: list.splits)
      have IH: "valid_utf8 (s4 @ t) = valid_utf8 t"
        using "1.IH"(4) [OF Cons refl] 4 s1 by auto
      show ?thesis
        using 4 s1 IH Cons by (subst valid_utf8.simps) (simp add: Let_def)
    qed
  qed simp
qed

text \<open>\<open>chars()\<close>: each character as its bytes, a lead byte and the continuation bytes after it.\<close>

function chars :: "bytes \<Rightarrow> bytes list" where
  "chars [] = []"
| "chars (c # s) = (c # takeWhile is_cont s) # chars (dropWhile is_cont s)"
  by pat_completeness auto
termination
  by (relation "measure length") (simp_all add: length_dropWhile_le less_Suc_eq_le)

lemma concat_chars [simp]: "concat (chars s) = s"
  by (induction s rule: chars.induct) simp_all

lemma chars_nonempty: "ch \<in> set (chars s) \<Longrightarrow> ch \<noteq> []"
  by (induction s rule: chars.induct) auto

subsection \<open>Splitting, joining, trimming\<close>

text \<open>\<open>split(p)\<close>: the pieces between separators, empty ones included.\<close>

fun split_when :: "('a \<Rightarrow> bool) \<Rightarrow> 'a list \<Rightarrow> 'a list list" where
  "split_when P [] = [[]]"
| "split_when P (c # cs) =
     (if P c then [] # split_when P cs
      else (case split_when P cs of w # ws \<Rightarrow> (c # w) # ws | [] \<Rightarrow> [[c]]))"

fun join_with :: "'a list \<Rightarrow> 'a list list \<Rightarrow> 'a list" where
  "join_with sep [] = []"
| "join_with sep [w] = w"
| "join_with sep (w # ws) = w @ sep @ join_with sep ws"

lemma join_snoc: "xs \<noteq> [] \<Longrightarrow> join_with sep (xs @ [y]) = join_with sep xs @ sep @ y"
proof (induction xs)
  case (Cons x xs)
  then show ?case by (cases xs) auto
qed simp

definition split_char :: "byte \<Rightarrow> bytes \<Rightarrow> bytes list" where
  "split_char sep s = split_when (\<lambda>c. c = sep) s"

definition trim_end_matches :: "byte \<Rightarrow> bytes \<Rightarrow> bytes" where
  "trim_end_matches c s = rev (dropWhile (\<lambda>x. x = c) (rev s))"

lemma split_when_nonempty: "split_when P s \<noteq> []"
  by (cases s) (auto split: list.splits)

lemma join_split_when:
  "join_with [c] (split_when (\<lambda>x. x = c) s) = s"
proof (induction s)
  case (Cons x s)
  obtain w ws where w: "split_when (\<lambda>x. x = c) s = w # ws"
    using split_when_nonempty by (metis neq_Nil_conv)
  show ?case
  proof (cases "x = c")
    case True
    then show ?thesis using Cons w by (cases ws) auto
  next
    case False
    then show ?thesis using Cons w by (cases ws) auto
  qed
qed simp

lemma split_when_all: "\<forall>w \<in> set (split_when P s). \<forall>x \<in> set w. x \<in> set s \<and> \<not> P x"
  by (induction s) (auto split: list.splits)

lemma split_when_pieces: "w \<in> set (split_when P s) \<Longrightarrow> x \<in> set w \<Longrightarrow> x \<in> set s \<and> \<not> P x"
  using split_when_all by fast

lemma split_when_none: "\<forall>x \<in> set s. \<not> P x \<Longrightarrow> split_when P s = [s]"
  by (induction s) auto

lemma split_when_append:
  assumes "\<forall>x \<in> set w. \<not> P x" and "P c"
  shows "split_when P (w @ c # s) = w # split_when P s"
  using assms by (induction w) auto

subsection \<open>Characters\<close>

text \<open>What the tables of Unicode decide is an argument; the ASCII half is defined.\<close>

record unicode =
  u_alphanumeric :: "bytes \<Rightarrow> bool"
  u_whitespace :: "bytes \<Rightarrow> bool"
  u_control :: "bytes \<Rightarrow> bool"
  u_char_lower :: "bytes \<Rightarrow> bytes"
  u_str_lower :: "bytes \<Rightarrow> bytes"

definition ascii_lower :: "byte \<Rightarrow> byte" where
  "ascii_lower c = (if 65 \<le> byte_val c \<and> byte_val c \<le> 90 then char_of (byte_val c + 32) else c)"

definition ascii_alphanumeric :: "byte \<Rightarrow> bool" where
  "ascii_alphanumeric c \<longleftrightarrow>
     (48 \<le> byte_val c \<and> byte_val c \<le> 57) \<or> (65 \<le> byte_val c \<and> byte_val c \<le> 90) \<or>
     (97 \<le> byte_val c \<and> byte_val c \<le> 122)"

definition ascii_whitespace :: "byte \<Rightarrow> bool" where
  "ascii_whitespace c \<longleftrightarrow> byte_val c = 32 \<or> (9 \<le> byte_val c \<and> byte_val c \<le> 13)"

definition is_alphanumeric :: "unicode \<Rightarrow> bytes \<Rightarrow> bool" where
  "is_alphanumeric U ch =
     (case ch of
        [] \<Rightarrow> False
      | c # _ \<Rightarrow> if is_ascii c then ascii_alphanumeric c else u_alphanumeric U ch)"

definition is_whitespace :: "unicode \<Rightarrow> bytes \<Rightarrow> bool" where
  "is_whitespace U ch =
     (case ch of
        [] \<Rightarrow> False
      | c # _ \<Rightarrow> if is_ascii c then ascii_whitespace c else u_whitespace U ch)"

definition is_control :: "unicode \<Rightarrow> bytes \<Rightarrow> bool" where
  "is_control U ch =
     (case ch of
        [] \<Rightarrow> False
      | c # _ \<Rightarrow> if is_ascii c then byte_val c < 32 \<or> byte_val c = 127 else u_control U ch)"

definition char_lower :: "unicode \<Rightarrow> bytes \<Rightarrow> bytes" where
  "char_lower U ch = (case ch of [c] \<Rightarrow> [ascii_lower c] | _ \<Rightarrow> u_char_lower U ch)"

definition str_lower :: "unicode \<Rightarrow> bytes \<Rightarrow> bytes" where
  "str_lower U s = (if \<forall>c \<in> set s. is_ascii c then map ascii_lower s else u_str_lower U s)"

text \<open>A table in which only ASCII counts, for concrete inputs.\<close>

definition ascii_unicode :: unicode where
  "ascii_unicode = \<lparr>u_alphanumeric = (\<lambda>_. False), u_whitespace = (\<lambda>_. False),
     u_control = (\<lambda>_. False), u_char_lower = id, u_str_lower = id\<rparr>"

definition split_whitespace :: "unicode \<Rightarrow> bytes \<Rightarrow> bytes list" where
  "split_whitespace U s = map concat (filter (\<lambda>w. w \<noteq> []) (split_when (is_whitespace U) (chars s)))"

subsection \<open>Decimal numbers\<close>

definition digit :: "nat \<Rightarrow> byte" where
  "digit d = char_of (48 + d)"

definition digit_val :: "byte \<Rightarrow> nat option" where
  "digit_val c = (if 48 \<le> byte_val c \<and> byte_val c \<le> 57 then Some (byte_val c - 48) else None)"

fun show_nat :: "nat \<Rightarrow> bytes" where
  "show_nat n = (if n < 10 then [digit n] else show_nat (n div 10) @ [digit (n mod 10)])"

declare show_nat.simps [simp del]

fun parse_digits :: "nat \<Rightarrow> bytes \<Rightarrow> nat option" where
  "parse_digits acc [] = Some acc"
| "parse_digits acc (c # s) =
     (case digit_val c of None \<Rightarrow> None | Some d \<Rightarrow> parse_digits (10 * acc + d) s)"

text \<open>\<open>str::parse\<close> into an unsigned integer of \<open>bits\<close> bits: an optional plus sign, then digits.\<close>

definition parse_uint :: "nat \<Rightarrow> bytes \<Rightarrow> nat option" where
  "parse_uint bits s =
     (let ds = (case s of c # t \<Rightarrow> if c = CHR ''+'' then t else s | [] \<Rightarrow> [])
      in if ds = [] then None
         else case parse_digits 0 ds of
                None \<Rightarrow> None
              | Some n \<Rightarrow> if n < 2 ^ bits then Some n else None)"

text \<open>\<open>{:0w$}\<close>: decimal, padded with zeros on the left to at least \<open>w\<close> characters.\<close>

definition show_padded :: "nat \<Rightarrow> nat \<Rightarrow> bytes" where
  "show_padded w n = (let s = show_nat n in replicate (w - length s) (CHR ''0'') @ s)"

lemma digit_val_digit [simp]: "d < 10 \<Longrightarrow> digit_val (digit d) = Some d"
  by (simp add: digit_val_def digit_def byte_val_def)

lemma parse_digits_append:
  "parse_digits acc (s @ t) = (case parse_digits acc s of None \<Rightarrow> None | Some a \<Rightarrow> parse_digits a t)"
  by (induction s arbitrary: acc) (auto split: option.splits)

lemma parse_digits_acc: "parse_digits acc (show_nat n) = Some (acc * 10 ^ length (show_nat n) + n)"
proof (induction n arbitrary: acc rule: show_nat.induct)
  case (1 n)
  show ?case
  proof (cases "n < 10")
    case True
    then show ?thesis by (simp add: show_nat.simps [of n])
  next
    case False
    then have "parse_digits acc (show_nat n) = Some (10 * (acc * 10 ^ length (show_nat (n div 10)) + n div 10) + n mod 10)"
      using 1 [of acc] by (simp add: show_nat.simps [of n] parse_digits_append)
    also have "\<dots> = Some (acc * 10 ^ length (show_nat n) + n)"
      using False by (simp add: show_nat.simps [of n] algebra_simps)
    finally show ?thesis .
  qed
qed

lemma show_nat_nonempty [simp]: "show_nat n \<noteq> []"
  by (subst show_nat.simps) simp

lemma show_nat_digits: "c \<in> set (show_nat n) \<Longrightarrow> \<exists>d < 10. c = digit d"
proof (induction n rule: show_nat.induct)
  case (1 n)
  have last: "\<exists>d < 10. digit (n mod 10) = digit d"
    by (rule exI [of _ "n mod 10"]) simp
  from 1 show ?case
    by (cases "n < 10") (auto simp: show_nat.simps [of n] last simp del: ex_simps)
qed

lemma digit_ascii: "d < 10 \<Longrightarrow> is_ascii (digit d) \<and> digit d \<noteq> CHR ''+'' \<and> digit d \<noteq> CHR ''/''"
proof -
  assume d: "d < 10"
  then have v: "byte_val (digit d) = 48 + d" by (simp add: byte_val_def digit_def)
  have "byte_val (CHR ''+'') = 43" "byte_val (CHR ''/'') = 47" by (simp_all add: byte_val_def)
  then show ?thesis using d v by (auto simp: is_ascii_def)
qed

lemma show_nat_ascii: "c \<in> set (show_nat n) \<Longrightarrow> is_ascii c \<and> c \<noteq> CHR ''+'' \<and> c \<noteq> CHR ''/''"
  using show_nat_digits digit_ascii by metis

lemma parse_show [simp]: "n < 2 ^ bits \<Longrightarrow> parse_uint bits (show_nat n) = Some n"
proof -
  assume "n < 2 ^ bits"
  moreover obtain c t where s: "show_nat n = c # t"
    using show_nat_nonempty by (metis neq_Nil_conv)
  moreover have "c \<noteq> CHR ''+''" using show_nat_ascii [of c n] s by simp
  moreover have "parse_digits 0 (c # t) = Some n"
    using parse_digits_acc [of 0 n] s by (simp del: parse_digits.simps)
  ultimately show ?thesis
    by (simp add: parse_uint_def del: parse_digits.simps)
qed

lemma show_nat_inj: "show_nat m = show_nat n \<Longrightarrow> m = n"
  using parse_digits_acc [of 0 m] parse_digits_acc [of 0 n] by (metis mult_0 add_0 option.inject)

text \<open>Zero-padded numbers of the same width compare as the numbers do.\<close>

lemma parse_digits_bounds:
  assumes "parse_digits acc s = Some v"
  shows "acc * 10 ^ length s \<le> v \<and> v < (acc + 1) * 10 ^ length s"
  using assms
proof (induction s arbitrary: acc)
  case (Cons c s)
  then obtain d where d: "digit_val c = Some d" "parse_digits (10 * acc + d) s = Some v"
    by (auto split: option.splits)
  have "d < 10" using d(1) by (auto simp: digit_val_def split: if_splits)
  then have "(10 * acc + d + 1) * 10 ^ length s \<le> (acc + 1) * 10 * 10 ^ length s"
    by (intro mult_right_mono) simp_all
  then have hi: "(10 * acc + d + 1) * 10 ^ length s \<le> (acc + 1) * 10 ^ length (c # s)"
    by (simp only: length_Cons power_Suc mult.assoc)
  have "acc * 10 * 10 ^ length s \<le> (10 * acc + d) * 10 ^ length s"
    by (intro mult_right_mono) simp_all
  then have lo: "acc * 10 ^ length (c # s) \<le> (10 * acc + d) * 10 ^ length s"
    by (simp only: length_Cons power_Suc mult.assoc)
  show ?case using Cons.IH [OF d(2)] lo hi by linarith
qed simp

lemma digit_val_less: "c < c' \<Longrightarrow> digit_val c = Some d \<Longrightarrow> digit_val c' = Some d' \<Longrightarrow> d < d'"
  by (auto simp: digit_val_def byte_val_def less_char_def split: if_splits)

lemma parse_digits_less:
  assumes "s < t" and "length s = length t" and "parse_digits acc s = Some v" and "parse_digits acc t = Some u"
  shows "v < u"
  using assms
proof (induction s arbitrary: t acc)
  case (Cons c s)
  obtain c' t' where t: "t = c' # t'" using Cons.prems(2) by (cases t) auto
  obtain d where d: "digit_val c = Some d" "parse_digits (10 * acc + d) s = Some v"
    using Cons.prems(3) by (auto split: option.splits)
  obtain d' where d': "digit_val c' = Some d'" "parse_digits (10 * acc + d') t' = Some u"
    using Cons.prems(4) t by (auto split: option.splits)
  consider "c < c'" | "c = c'" "s < t'" using Cons.prems(1) t by auto
  then show ?case
  proof cases
    case 1
    then have "10 * acc + d + 1 \<le> 10 * acc + d'" using digit_val_less d(1) d'(1) by fastforce
    then have "(10 * acc + d + 1) * 10 ^ length s \<le> (10 * acc + d') * 10 ^ length t'"
      using Cons.prems(2) t by (simp only: length_Cons nat.inject) (intro mult_right_mono; simp)
    then show ?thesis
      using parse_digits_bounds [OF d(2)] parse_digits_bounds [OF d'(2)] by linarith
  next
    case 2
    then show ?thesis using Cons.IH [of t' "10 * acc + d"] Cons.prems(2) d d' t by simp
  qed
qed simp

lemma parse_digits_zeros: "parse_digits 0 (replicate n (CHR ''0'') @ s) = parse_digits 0 s"
proof (induction n)
  case (Suc n)
  have "digit_val (CHR ''0'') = Some 0" by (simp add: digit_val_def byte_val_def)
  then show ?case using Suc by simp
qed simp

lemma parse_show_padded: "parse_digits 0 (show_padded w n) = Some n"
  using parse_digits_acc [of 0 n] by (simp add: show_padded_def Let_def parse_digits_zeros)

lemma length_show_nat: "n < 10 ^ w \<Longrightarrow> 0 < w \<Longrightarrow> length (show_nat n) \<le> w"
proof (induction n arbitrary: w rule: show_nat.induct)
  case (1 n)
  show ?case
  proof (cases "n < 10")
    case True
    then show ?thesis using 1(3) by (simp add: show_nat.simps [of n])
  next
    case False
    then have "1 < w" using 1(2,3) by (cases "w = 1") auto
    then obtain v where v: "w = Suc v" "0 < v" by (cases w) auto
    then have "n div 10 < 10 ^ v" using 1(2) by (auto simp: div_less_iff_less_mult mult.commute)
    then show ?thesis using 1(1) [OF False] v False by (simp add: show_nat.simps [of n])
  qed
qed

lemma length_show_padded: "n < 10 ^ w \<Longrightarrow> 0 < w \<Longrightarrow> length (show_padded w n) = w"
  using length_show_nat [of n w] by (simp add: show_padded_def Let_def)

lemma show_padded_inj: "show_padded w m = show_padded w n \<Longrightarrow> m = n"
  using parse_show_padded by (metis option.inject)

lemma show_padded_less:
  assumes "m < n" and "n < 10 ^ w" and "0 < w"
  shows "show_padded w m < show_padded w n"
proof (rule ccontr)
  assume "\<not> ?thesis"
  moreover have "show_padded w m \<noteq> show_padded w n"
    using show_padded_inj [of w m n] assms(1) by auto
  ultimately have "show_padded w n < show_padded w m" by simp
  then have "n < m"
    using assms by (intro parse_digits_less [of "show_padded w n" "show_padded w m" 0])
      (simp_all add: length_show_padded parse_show_padded)
  then show False using assms(1) by simp
qed

lemma show_padded_ascii: "c \<in> set (show_padded w n) \<Longrightarrow> is_ascii c \<and> c \<noteq> CHR ''+'' \<and> c \<noteq> CHR ''/''"
  using show_nat_ascii [of c n] by (auto simp: show_padded_def Let_def is_ascii_def byte_val_def)

lemma parse_uint_padded:
  assumes "n < 2 ^ bits"
  shows "parse_uint bits (show_padded w n) = Some n"
proof -
  have "show_padded w n \<noteq> []" by (simp add: show_padded_def Let_def)
  then obtain c t where s: "show_padded w n = c # t" by (metis neq_Nil_conv)
  then have "c \<noteq> CHR ''+''" using show_padded_ascii [of c w n] by simp
  then show ?thesis
    using s assms parse_show_padded [of w n] by (simp add: parse_uint_def del: parse_digits.simps)
qed

end
