(* ===== verification/AgentStore.thy ===== *)
theory AgentStore
  imports Keyspace RustText "HOL-Library.Word"
begin

section \<open>Agents as persisted (crates/store/src/agent, interface/agent.rs, config)\<close>

text \<open>
  What an agent is and how the store files it: the content under its id, the name as an index
  entry that resolves to the id, the default agent as a pointer. A ULID is a 128-bit number
  whose text form is the \<open>ulid\<close> package's; \<open>ulid_ok\<close> states that it reads back what it
  writes. Everything a function here reads or writes is the sorted map \<open>kv\<close>.
  The lemmas show which operations keep the name index and the content in step, what a lookup
  by name finds, and three places where they fall out of step.
\<close>

subsection \<open>Identity\<close>

type_synonym agent_id = "128 word"

record ulid =
  ulid_show :: "agent_id \<Rightarrow> bytes"
  ulid_parse :: "bytes \<Rightarrow> agent_id option"

definition ulid_ok :: "ulid \<Rightarrow> bool" where
  "ulid_ok Q \<longleftrightarrow> (\<forall>i. ulid_parse Q (ulid_show Q i) = Some i \<and> slash_free (ulid_show Q i) \<and>
     valid_utf8 (ulid_show Q i))"

subsection \<open>Configuration\<close>

datatype root_bound = RootSession bytes | RootHome | RootFixed bytes

record harness_config =
  hc_name :: bytes
  hc_root :: "root_bound option"
  hc_hosts :: "bytes list"

record mcp_server_config =
  ms_name :: bytes
  ms_command :: bytes
  ms_args :: "bytes list"
  ms_env :: "(bytes \<times> bytes) list"
  ms_auto_restart :: bool
  ms_url :: "bytes option"
  ms_auth :: "bytes option"

definition mcp_server_default :: mcp_server_config where
  "mcp_server_default =
     \<lparr>ms_name = [], ms_command = [], ms_args = [], ms_env = [], ms_auto_restart = True,
      ms_url = None, ms_auth = None\<rparr>"

record memory_config =
  recall_limit :: nat

definition memory_config_default :: memory_config where
  "memory_config_default = \<lparr>recall_limit = 5\<rparr>"

record hooks_config =
  hooks_memory :: memory_config

definition hooks_config_default :: hooks_config where
  "hooks_config_default = \<lparr>hooks_memory = memory_config_default\<rparr>"

text \<open>
  \<open>ToolChoice\<close> belongs to a package: two of its constructors are named in the source, the
  others are carried along by their name.
\<close>

datatype tool_choice = ToolAuto | ToolDisabled | ToolOther bytes

definition DEFAULT_AGENT :: bytes where
  "DEFAULT_AGENT = ''crab''"

record agent_config =
  ag_id :: agent_id
  ag_name :: bytes
  ag_description :: bytes
  ag_model :: bytes
  ag_max_iterations :: nat
  ag_tool_choice :: tool_choice
  ag_thinking :: bool
  ag_max_tokens :: "32 word"
  ag_thinking_budget :: "32 word"
  ag_context_window :: "32 word option"
  ag_skills :: "bytes list"
  ag_mcps :: "mcp_server_config list"
  ag_harnesses :: "harness_config list"
  ag_tools :: "bytes list"
  ag_compact_tool_max_len :: nat
  ag_hooks :: hooks_config

text \<open>The provider package's own default for \<open>max_tokens\<close> is an argument.\<close>

definition agent_config_default :: "32 word \<Rightarrow> agent_config" where
  "agent_config_default provider_max_tokens =
     \<lparr>ag_id = 0, ag_name = [], ag_description = [], ag_model = [], ag_max_iterations = 16,
      ag_tool_choice = ToolAuto, ag_thinking = False, ag_max_tokens = provider_max_tokens,
      ag_thinking_budget = 4096, ag_context_window = None, ag_skills = [], ag_mcps = [],
      ag_harnesses = [], ag_tools = [], ag_compact_tool_max_len = 1024,
      ag_hooks = hooks_config_default\<rparr>"

definition agent_config_crab :: "32 word \<Rightarrow> bytes \<Rightarrow> agent_config" where
  "agent_config_crab provider_max_tokens model =
     (agent_config_default provider_max_tokens)
       \<lparr>ag_name := DEFAULT_AGENT, ag_model := model,
        ag_harnesses :=
          [\<lparr>hc_name = ''os'', hc_root = Some RootHome, hc_hosts = []\<rparr>,
           \<lparr>hc_name = ''sessions'', hc_root = None, hc_hosts = []\<rparr>]\<rparr>"

text \<open>The request's output allowance and, when thinking is on, the reasoning allowance in it.\<close>

definition token_budget :: "agent_config \<Rightarrow> 32 word \<times> 32 word option" where
  "token_budget c =
     (let thinking = (if ag_thinking c then Some (ag_thinking_budget c) else None)
      in (ag_max_tokens c + (case thinking of None \<Rightarrow> 0 | Some b \<Rightarrow> b), thinking))"

text \<open>What survives storing: \<open>tools\<close> is \<open>#[serde(skip)]\<close>.\<close>

definition persisted_config :: "agent_config \<Rightarrow> agent_config" where
  "persisted_config c = c\<lparr>ag_tools := []\<rparr>"

subsection \<open>Names\<close>

definition name_char_forbidden :: "unicode \<Rightarrow> bytes \<Rightarrow> bool" where
  "name_char_forbidden U ch \<longleftrightarrow>
     ch = ''.'' \<or> ch = ''['' \<or> ch = '']'' \<or> ch = [CHR 0x22] \<or> is_control U ch"

definition validate_table_name :: "unicode \<Rightarrow> bytes \<Rightarrow> store_error + unit" where
  "validate_table_name U name =
     (if name = [] then Inl EmptyName
      else if list_ex (name_char_forbidden U) (chars name) then Inl (ForbiddenName name)
      else Inr ())"

subsection \<open>The keyspace agents are filed under\<close>

record agent_env =
  ae_unicode :: unicode
  ae_ulid :: ulid
  ae_codec :: "agent_config codec"

definition agent_key :: "agent_env \<Rightarrow> agent_id \<Rightarrow> bytes" where
  "agent_key E i = key [''agent'', ulid_show (ae_ulid E) i]"

definition agent_name_key :: "bytes \<Rightarrow> bytes" where
  "agent_name_key name = key [''idx'', ''agent'', name]"

definition default_agent_key :: bytes where
  "default_agent_key = key [''default_agent'']"

text \<open>\<open>AgentId::from_str(std::str::from_utf8(bytes)?).ok()\<close>\<close>

definition read_agent_id :: "agent_env \<Rightarrow> bytes option \<Rightarrow> store_error + agent_id option" where
  "read_agent_id E r =
     (case r of
        None \<Rightarrow> Inr None
      | Some bs \<Rightarrow> if valid_utf8 bs then Inr (ulid_parse (ae_ulid E) bs) else Inl BadUtf8)"

definition agent_by_name :: "agent_env \<Rightarrow> kv \<Rightarrow> bytes \<Rightarrow> store_error + agent_id option" where
  "agent_by_name E m name = read_agent_id E (kv_get m Agent (agent_name_key name))"

definition put_agent_name :: "agent_env \<Rightarrow> kv \<Rightarrow> bytes \<Rightarrow> agent_id \<Rightarrow> kv" where
  "put_agent_name E m name i = kv_put m Agent (agent_name_key name) (ulid_show (ae_ulid E) i)"

subsection \<open>Operations\<close>

definition load_agent :: "agent_env \<Rightarrow> kv \<Rightarrow> agent_id \<Rightarrow> store_error + agent_config option" where
  "load_agent E m i = get_json (ae_codec E) m Agent (agent_key E i)"

definition load_agent_by_name ::
  "agent_env \<Rightarrow> kv \<Rightarrow> bytes \<Rightarrow> store_error + agent_config option" where
  "load_agent_by_name E m name =
     bindr (agent_by_name E m name)
       (\<lambda>r. case r of None \<Rightarrow> Inr None | Some i \<Rightarrow> load_agent E m i)"

definition agent_ids :: "agent_env \<Rightarrow> kv \<Rightarrow> agent_id list" where
  "agent_ids E m =
     List.map_filter (\<lambda>row. if valid_utf8 (snd row) then ulid_parse (ae_ulid E) (snd row) else None)
       (kv_scan m Agent (kv_prefix [''idx'', ''agent'']))"

definition upsert_agent :: "agent_env \<Rightarrow> kv \<Rightarrow> agent_config \<Rightarrow> store_error + kv" where
  "upsert_agent E m c =
     bindr (validate_table_name (ae_unicode E) (ag_name c))
       (\<lambda>_. bindr (load_agent E m (ag_id c))
         (\<lambda>previous.
            let m1 = (case previous of
                        Some p \<Rightarrow> if ag_name p \<noteq> ag_name c
                                 then kv_remove m Agent (agent_name_key (ag_name p)) else m
                      | None \<Rightarrow> m);
                m2 = put_json (ae_codec E) m1 Agent (agent_key E (ag_id c)) c
            in Inr (put_agent_name E m2 (ag_name c) (ag_id c))))"

definition delete_agent :: "agent_env \<Rightarrow> kv \<Rightarrow> agent_id \<Rightarrow> store_error + bool \<times> kv" where
  "delete_agent E m i =
     bindr (load_agent E m i)
       (\<lambda>r. let m1 = (case r of
                        Some c \<Rightarrow> kv_remove m Agent (agent_name_key (ag_name c))
                      | None \<Rightarrow> m)
            in Inr (kv_delete m1 Agent (agent_key E i)))"

definition rename_agent :: "agent_env \<Rightarrow> kv \<Rightarrow> agent_id \<Rightarrow> bytes \<Rightarrow> store_error + bool \<times> kv" where
  "rename_agent E m i new_name =
     bindr (validate_table_name (ae_unicode E) new_name)
       (\<lambda>_. bindr (load_agent E m i)
         (\<lambda>r. case r of
                None \<Rightarrow> Inr (False, m)
              | Some c \<Rightarrow>
                  let m1 = put_json (ae_codec E) m Agent (agent_key E i) (c\<lparr>ag_name := new_name\<rparr>);
                      m2 = put_agent_name E m1 new_name i
                  in Inr (True, kv_remove m2 Agent (agent_name_key (ag_name c)))))"

definition default_agent :: "agent_env \<Rightarrow> kv \<Rightarrow> store_error + agent_id option" where
  "default_agent E m = read_agent_id E (kv_get m Config default_agent_key)"

definition set_default_agent :: "agent_env \<Rightarrow> kv \<Rightarrow> agent_id \<Rightarrow> kv" where
  "set_default_agent E m i = kv_put m Config default_agent_key (ulid_show (ae_ulid E) i)"

subsection \<open>Keys and lookups\<close>

definition agent_env_ok :: "agent_env \<Rightarrow> bool" where
  "agent_env_ok E \<longleftrightarrow> ulid_ok (ae_ulid E) \<and> codec_ok persisted_config (ae_codec E)"

lemma agent_keys_differ [simp]:
  "agent_key E i \<noteq> agent_name_key n" "agent_name_key n \<noteq> agent_key E i"
  by (simp_all add: agent_key_def agent_name_key_def key_joined)

lemma agent_name_key_inj [simp]: "agent_name_key n = agent_name_key n' \<longleftrightarrow> n = n'"
  by (simp add: agent_name_key_def key_joined)

lemma ulid_show_inj: "ulid_ok Q \<Longrightarrow> ulid_show Q i = ulid_show Q j \<longleftrightarrow> i = j"
  by (metis ulid_ok_def option.inject)

lemma agent_key_inj [simp]: "agent_env_ok E \<Longrightarrow> agent_key E i = agent_key E j \<longleftrightarrow> i = j"
  using ulid_show_inj by (auto simp: agent_key_def key_joined agent_env_ok_def)

lemma read_agent_id_show:
  "agent_env_ok E \<Longrightarrow> read_agent_id E (Some (ulid_show (ae_ulid E) i)) = Inr (Some i)"
  by (simp add: read_agent_id_def agent_env_ok_def ulid_ok_def)

lemma put_agent_name_kv:
  "kv_get (put_agent_name E m n i) Agent (agent_name_key n') =
    (if n' = n then Some (ulid_show (ae_ulid E) i) else kv_get m Agent (agent_name_key n'))"
  by (simp add: put_agent_name_def)

lemma load_agent_put_name [simp]: "load_agent E (put_agent_name E m n j) i = load_agent E m i"
  unfolding load_agent_def by (rule get_json_cong) (simp add: put_agent_name_def)

lemma load_agent_remove_name [simp]:
  "load_agent E (kv_remove m Agent (agent_name_key n)) i = load_agent E m i"
  unfolding load_agent_def by (rule get_json_cong) simp

lemma load_agent_put:
  assumes "agent_env_ok E"
  shows "load_agent E (put_json (ae_codec E) m Agent (agent_key E j) c) i =
    (if i = j then Inr (Some (persisted_config c)) else load_agent E m i)"
  using assms
  by (auto simp: load_agent_def agent_env_ok_def get_json_put get_json_put_other)

lemma load_agent_remove:
  assumes "agent_env_ok E"
  shows "load_agent E (kv_remove m Agent (agent_key E j)) i =
    (if i = j then Inr None else load_agent E m i)"
  using assms by (auto simp: load_agent_def get_json_none get_json_remove_other)

subsection \<open>The agents a store holds, and its consistency\<close>

text \<open>
  The specification is a map from id to configuration in which no two agents share a name. A
  store is consistent when every agent's name resolves to it and every name resolves to an
  agent of that name.
\<close>

type_synonym agent_map = "agent_id \<rightharpoonup> agent_config"

definition agents_of :: "agent_env \<Rightarrow> kv \<Rightarrow> agent_map" where
  "agents_of E m = (\<lambda>i. case load_agent E m i of Inl _ \<Rightarrow> None | Inr r \<Rightarrow> r)"

definition agents_consistent :: "agent_env \<Rightarrow> kv \<Rightarrow> bool" where
  "agents_consistent E m \<longleftrightarrow>
     (\<forall>i. load_agent E m i = Inr (agents_of E m i)) \<and>
     (\<forall>i c. agents_of E m i = Some c \<longrightarrow>
        ag_id c = i \<and> kv_get m Agent (agent_name_key (ag_name c)) = Some (ulid_show (ae_ulid E) i)) \<and>
     (\<forall>n bs. kv_get m Agent (agent_name_key n) = Some bs \<longrightarrow>
        (\<exists>i c. bs = ulid_show (ae_ulid E) i \<and> agents_of E m i = Some c \<and> ag_name c = n))"

lemma agents_consistentI:
  assumes "\<And>i. load_agent E m i = Inr (A i)"
    and "\<And>i c. A i = Some c \<Longrightarrow>
      ag_id c = i \<and> kv_get m Agent (agent_name_key (ag_name c)) = Some (ulid_show (ae_ulid E) i)"
    and "\<And>n bs. kv_get m Agent (agent_name_key n) = Some bs \<Longrightarrow>
      \<exists>i c. bs = ulid_show (ae_ulid E) i \<and> A i = Some c \<and> ag_name c = n"
  shows "agents_consistent E m \<and> agents_of E m = A"
proof -
  have "agents_of E m = A" by (simp add: agents_of_def assms(1) fun_eq_iff)
  then show ?thesis using assms by (simp add: agents_consistent_def)
qed

lemma consistent_load: "agents_consistent E m \<Longrightarrow> load_agent E m i = Inr (agents_of E m i)"
  and consistent_name: "agents_consistent E m \<Longrightarrow> agents_of E m i = Some c \<Longrightarrow>
    kv_get m Agent (agent_name_key (ag_name c)) = Some (ulid_show (ae_ulid E) i)"
  and consistent_id: "agents_consistent E m \<Longrightarrow> agents_of E m i = Some c \<Longrightarrow> ag_id c = i"
  and consistent_index: "agents_consistent E m \<Longrightarrow> kv_get m Agent (agent_name_key n) = Some bs \<Longrightarrow>
    \<exists>i c. bs = ulid_show (ae_ulid E) i \<and> agents_of E m i = Some c \<and> ag_name c = n"
  by (simp_all add: agents_consistent_def)

lemma consistent_unique:
  assumes "agent_env_ok E" and "agents_consistent E m"
    and "agents_of E m i = Some c" and "agents_of E m j = Some d" and "ag_name c = ag_name d"
  shows "i = j"
proof -
  have "Some (ulid_show (ae_ulid E) i) = Some (ulid_show (ae_ulid E) j)"
    using consistent_name [OF assms(2,3)] consistent_name [OF assms(2,4)] assms(5) by metis
  then show ?thesis using assms(1) ulid_show_inj by (auto simp: agent_env_ok_def)
qed

definition name_free :: "agent_map \<Rightarrow> agent_id \<Rightarrow> bytes \<Rightarrow> bool" where
  "name_free A i n \<longleftrightarrow> (\<forall>j c. A j = Some c \<and> ag_name c = n \<longrightarrow> j = i)"

lemma persisted_simps [simp]: "ag_name (persisted_config c) = ag_name c" "ag_id (persisted_config c) = ag_id c"
  by (simp_all add: persisted_config_def)

lemma upsert_consistent:
  assumes ok: "agent_env_ok E" and wf: "agents_consistent E m"
    and valid: "validate_table_name (ae_unicode E) (ag_name c) = Inr ()"
    and free: "name_free (agents_of E m) (ag_id c) (ag_name c)"
  shows "\<exists>m'. upsert_agent E m c = Inr m' \<and> agents_consistent E m' \<and>
    agents_of E m' = (agents_of E m)(ag_id c \<mapsto> persisted_config c)"
proof -
  let ?A = "agents_of E m" and ?i = "ag_id c"
  let ?m1 = "case ?A ?i of
      Some p \<Rightarrow> if ag_name p \<noteq> ag_name c then kv_remove m Agent (agent_name_key (ag_name p)) else m
    | None \<Rightarrow> m"
  let ?m' = "put_agent_name E (put_json (ae_codec E) ?m1 Agent (agent_key E ?i) c) (ag_name c) ?i"
  have eq: "upsert_agent E m c = Inr ?m'"
    by (simp add: upsert_agent_def valid consistent_load [OF wf] Let_def)
  have load1: "load_agent E ?m1 i = Inr (?A i)" for i
    by (simp add: consistent_load [OF wf] split: option.splits)
  have name: "kv_get ?m' Agent (agent_name_key n) =
      (if n = ag_name c then Some (ulid_show (ae_ulid E) ?i)
       else if \<exists>p. ?A ?i = Some p \<and> ag_name p = n then None
       else kv_get m Agent (agent_name_key n))" for n
    by (auto simp: put_agent_name_def split: option.splits)
  have "agents_consistent E ?m' \<and> agents_of E ?m' = ?A(?i \<mapsto> persisted_config c)"
  proof (rule agents_consistentI)
    show "load_agent E ?m' i = Inr ((?A(?i \<mapsto> persisted_config c)) i)" for i
      using load1 by (simp add: load_agent_put [OF ok])
  next
    fix i d assume d: "(?A(?i \<mapsto> persisted_config c)) i = Some d"
    show "ag_id d = i \<and> kv_get ?m' Agent (agent_name_key (ag_name d)) = Some (ulid_show (ae_ulid E) i)"
    proof (cases "i = ?i")
      case True
      with d have "d = persisted_config c" by simp
      then show ?thesis using True name [of "ag_name c"] by simp
    next
      case False
      with d have A: "?A i = Some d" by simp
      have "ag_name d \<noteq> ag_name c"
        using free False A unfolding name_free_def by blast
      moreover have "\<not> (\<exists>p. ?A ?i = Some p \<and> ag_name p = ag_name d)"
        using consistent_unique [OF ok wf A] False by metis
      ultimately show ?thesis
        using name [of "ag_name d"] consistent_name [OF wf A] consistent_id [OF wf A] by simp
    qed
  next
    fix n bs assume bs: "kv_get ?m' Agent (agent_name_key n) = Some bs"
    show "\<exists>i d. bs = ulid_show (ae_ulid E) i \<and> (?A(?i \<mapsto> persisted_config c)) i = Some d \<and> ag_name d = n"
    proof (cases "n = ag_name c")
      case True
      then show ?thesis using bs name [of n] by (intro exI [of _ ?i]) simp
    next
      case False
      then have "kv_get m Agent (agent_name_key n) = Some bs"
        and other: "\<not> (\<exists>p. ?A ?i = Some p \<and> ag_name p = n)"
        using bs name [of n] by (auto split: if_splits)
      then obtain i d where "bs = ulid_show (ae_ulid E) i" "?A i = Some d" "ag_name d = n"
        using consistent_index [OF wf] by blast
      then show ?thesis using other by (intro exI [of _ i]) auto
    qed
  qed
  with eq show ?thesis by blast
qed

lemma delete_consistent:
  assumes ok: "agent_env_ok E" and wf: "agents_consistent E m"
  shows "\<exists>m'. delete_agent E m i = Inr (agents_of E m i \<noteq> None, m') \<and> agents_consistent E m' \<and>
    agents_of E m' = (agents_of E m)(i := None)"
proof -
  let ?A = "agents_of E m"
  let ?m1 = "case ?A i of Some c \<Rightarrow> kv_remove m Agent (agent_name_key (ag_name c)) | None \<Rightarrow> m"
  let ?m' = "kv_remove ?m1 Agent (agent_key E i)"
  have "load_agent E m i = Inr None \<longleftrightarrow> kv_get m Agent (agent_key E i) = None"
    by (auto simp: load_agent_def get_json_def split: option.splits)
  then have "kv_get ?m1 Agent (agent_key E i) = None \<longleftrightarrow> ?A i = None"
    by (simp add: consistent_load [OF wf] split: option.splits)
  then have "fst (kv_delete ?m1 Agent (agent_key E i)) = (?A i \<noteq> None)"
    by (simp only: kv_deleted)
  moreover have "delete_agent E m i = Inr (fst (kv_delete ?m1 Agent (agent_key E i)), ?m')"
    by (simp add: delete_agent_def consistent_load [OF wf] Let_def del: kv_deleted)
  ultimately have eq: "delete_agent E m i = Inr (?A i \<noteq> None, ?m')" by simp
  have load1: "load_agent E ?m1 j = Inr (?A j)" for j
    by (simp add: consistent_load [OF wf] split: option.splits)
  have name: "kv_get ?m' Agent (agent_name_key n) =
      (if \<exists>p. ?A i = Some p \<and> ag_name p = n then None else kv_get m Agent (agent_name_key n))" for n
    by (auto split: option.splits)
  have "agents_consistent E ?m' \<and> agents_of E ?m' = ?A(i := None)"
  proof (rule agents_consistentI)
    show "load_agent E ?m' j = Inr ((?A(i := None)) j)" for j
      using load1 by (simp add: load_agent_remove [OF ok])
  next
    fix j d assume "(?A(i := None)) j = Some d"
    then have A: "?A j = Some d" and j: "j \<noteq> i" by (auto split: if_splits)
    have "\<not> (\<exists>p. ?A i = Some p \<and> ag_name p = ag_name d)"
      using consistent_unique [OF ok wf A] j by metis
    then show "ag_id d = j \<and> kv_get ?m' Agent (agent_name_key (ag_name d)) = Some (ulid_show (ae_ulid E) j)"
      using name [of "ag_name d"] consistent_name [OF wf A] consistent_id [OF wf A] by simp
  next
    fix n bs assume "kv_get ?m' Agent (agent_name_key n) = Some bs"
    then have "kv_get m Agent (agent_name_key n) = Some bs"
      and other: "\<not> (\<exists>p. ?A i = Some p \<and> ag_name p = n)"
      using name [of n] by (auto split: if_splits)
    then obtain j d where "bs = ulid_show (ae_ulid E) j" "?A j = Some d" "ag_name d = n"
      using consistent_index [OF wf] by blast
    then show "\<exists>j d. bs = ulid_show (ae_ulid E) j \<and> (?A(i := None)) j = Some d \<and> ag_name d = n"
      using other by (intro exI [of _ j]) auto
  qed
  with eq show ?thesis by blast
qed

lemma rename_consistent:
  assumes ok: "agent_env_ok E" and wf: "agents_consistent E m"
    and valid: "validate_table_name (ae_unicode E) n' = Inr ()"
    and found: "agents_of E m i = Some c" and new: "n' \<noteq> ag_name c"
    and free: "name_free (agents_of E m) i n'"
  shows "\<exists>m'. rename_agent E m i n' = Inr (True, m') \<and> agents_consistent E m' \<and>
    agents_of E m' = (agents_of E m)(i \<mapsto> persisted_config (c\<lparr>ag_name := n'\<rparr>))"
proof -
  let ?A = "agents_of E m" and ?d = "persisted_config (c\<lparr>ag_name := n'\<rparr>)"
  let ?m' = "kv_remove (put_agent_name E
      (put_json (ae_codec E) m Agent (agent_key E i) (c\<lparr>ag_name := n'\<rparr>)) n' i)
      Agent (agent_name_key (ag_name c))"
  have eq: "rename_agent E m i n' = Inr (True, ?m')"
    by (simp add: rename_agent_def valid consistent_load [OF wf] found Let_def)
  have name: "kv_get ?m' Agent (agent_name_key n) =
      (if n = ag_name c then None else if n = n' then Some (ulid_show (ae_ulid E) i)
       else kv_get m Agent (agent_name_key n))" for n
    using new by (auto simp: put_agent_name_def)
  have "agents_consistent E ?m' \<and> agents_of E ?m' = ?A(i \<mapsto> ?d)"
  proof (rule agents_consistentI)
    show "load_agent E ?m' j = Inr ((?A(i \<mapsto> ?d)) j)" for j
      using consistent_load [OF wf] by (simp add: load_agent_put [OF ok])
  next
    fix j d assume d: "(?A(i \<mapsto> ?d)) j = Some d"
    show "ag_id d = j \<and> kv_get ?m' Agent (agent_name_key (ag_name d)) = Some (ulid_show (ae_ulid E) j)"
    proof (cases "j = i")
      case True
      with d have "d = ?d" by simp
      then show ?thesis using True name [of n'] new consistent_id [OF wf found] by simp
    next
      case False
      with d have A: "?A j = Some d" by simp
      have "ag_name d \<noteq> n'" using free False A unfolding name_free_def by blast
      moreover have "ag_name d \<noteq> ag_name c"
        using consistent_unique [OF ok wf A found] False by blast
      ultimately show ?thesis
        using name [of "ag_name d"] consistent_name [OF wf A] consistent_id [OF wf A] by simp
    qed
  next
    fix n bs assume bs: "kv_get ?m' Agent (agent_name_key n) = Some bs"
    show "\<exists>j d. bs = ulid_show (ae_ulid E) j \<and> (?A(i \<mapsto> ?d)) j = Some d \<and> ag_name d = n"
    proof (cases "n = n'")
      case True
      then show ?thesis using bs name [of n] new by (intro exI [of _ i]) simp
    next
      case False
      then have "kv_get m Agent (agent_name_key n) = Some bs" and other: "n \<noteq> ag_name c"
        using bs name [of n] by (auto split: if_splits)
      then obtain j d where j: "bs = ulid_show (ae_ulid E) j" "?A j = Some d" "ag_name d = n"
        using consistent_index [OF wf] by blast
      then have "j \<noteq> i" using found other by auto
      then show ?thesis using j by (intro exI [of _ j]) auto
    qed
  qed
  with eq show ?thesis by blast
qed

lemma empty_consistent: "agents_consistent E [] \<and> agents_of E [] = Map.empty"
  by (rule agents_consistentI) (simp_all add: load_agent_def get_json_none kv_get_def)

subsection \<open>Runs of operations\<close>

datatype agent_cmd = Upsert agent_config | Rename agent_id bytes | Remove agent_id

fun agent_cmd_run :: "agent_env \<Rightarrow> kv \<Rightarrow> agent_cmd \<Rightarrow> store_error + kv" where
  "agent_cmd_run E m (Upsert c) = upsert_agent E m c"
| "agent_cmd_run E m (Rename i n) = map_sum id snd (rename_agent E m i n)"
| "agent_cmd_run E m (Remove i) = map_sum id snd (delete_agent E m i)"

fun agent_run :: "agent_env \<Rightarrow> kv \<Rightarrow> agent_cmd list \<Rightarrow> store_error + kv" where
  "agent_run E m [] = Inr m"
| "agent_run E m (x # xs) = bindr (agent_cmd_run E m x) (\<lambda>m'. agent_run E m' xs)"

text \<open>
  The same commands on the map. A command is admissible when its name is valid and belongs to
  no other agent, and a rename really changes the name.
\<close>

fun agent_cmd_spec :: "agent_map \<Rightarrow> agent_cmd \<Rightarrow> agent_map" where
  "agent_cmd_spec A (Upsert c) = A(ag_id c \<mapsto> persisted_config c)"
| "agent_cmd_spec A (Rename i n) =
     (case A i of None \<Rightarrow> A | Some c \<Rightarrow> A(i \<mapsto> persisted_config (c\<lparr>ag_name := n\<rparr>)))"
| "agent_cmd_spec A (Remove i) = A(i := None)"

fun agent_cmd_ok :: "unicode \<Rightarrow> agent_map \<Rightarrow> agent_cmd \<Rightarrow> bool" where
  "agent_cmd_ok U A (Upsert c) \<longleftrightarrow>
     validate_table_name U (ag_name c) = Inr () \<and> name_free A (ag_id c) (ag_name c)"
| "agent_cmd_ok U A (Rename i n) \<longleftrightarrow>
     validate_table_name U n = Inr () \<and> name_free A i n \<and> (\<forall>c. A i = Some c \<longrightarrow> n \<noteq> ag_name c)"
| "agent_cmd_ok U A (Remove i) \<longleftrightarrow> True"

fun agent_cmds_ok :: "unicode \<Rightarrow> agent_map \<Rightarrow> agent_cmd list \<Rightarrow> bool" where
  "agent_cmds_ok U A [] \<longleftrightarrow> True"
| "agent_cmds_ok U A (x # xs) \<longleftrightarrow> agent_cmd_ok U A x \<and> agent_cmds_ok U (agent_cmd_spec A x) xs"

lemma agent_cmd_consistent:
  assumes "agent_env_ok E" and "agents_consistent E m" and "agent_cmd_ok (ae_unicode E) (agents_of E m) x"
  shows "\<exists>m'. agent_cmd_run E m x = Inr m' \<and> agents_consistent E m' \<and>
    agents_of E m' = agent_cmd_spec (agents_of E m) x"
proof (cases x)
  case (Upsert c)
  then show ?thesis using upsert_consistent [OF assms(1,2)] assms(3) by simp
next
  case (Rename i n)
  show ?thesis
  proof (cases "agents_of E m i")
    case None
    then show ?thesis
      using Rename assms(2,3) by (simp add: rename_agent_def consistent_load)
  next
    case (Some c)
    then show ?thesis
      using rename_consistent [OF assms(1,2) _ Some] Rename assms(3) by fastforce
  qed
next
  case (Remove i)
  then show ?thesis using delete_consistent [OF assms(1,2), of i] by fastforce
qed

lemma agent_runs:
  assumes "agent_env_ok E" and "agents_consistent E m"
    and "agent_cmds_ok (ae_unicode E) (agents_of E m) xs"
  shows "\<exists>m'. agent_run E m xs = Inr m' \<and> agents_consistent E m' \<and>
    agents_of E m' = foldl agent_cmd_spec (agents_of E m) xs"
  using assms(2,3)
proof (induction xs arbitrary: m)
  case (Cons x xs)
  then obtain m1 where m1: "agent_cmd_run E m x = Inr m1" "agents_consistent E m1"
    "agents_of E m1 = agent_cmd_spec (agents_of E m) x"
    using agent_cmd_consistent [OF assms(1)] by fastforce
  with Cons.IH [OF m1(2)] Cons.prems(2) show ?case by simp
qed simp

text \<open>
  C6: Any run of admissible upserts, renames and deletions of agents succeeds, leaves every
  name resolving to the agent that bears it and to nothing else, and the store then holds
  exactly the agents the run makes.
\<close>

theorem agent_run_refines:
  assumes "agent_env_ok E" and "agents_consistent E m"
    and "agent_cmds_ok (ae_unicode E) (agents_of E m) xs"
  shows "\<exists>m'. agent_run E m xs = Inr m' \<and> agents_consistent E m' \<and>
    agents_of E m' = foldl agent_cmd_spec (agents_of E m) xs"
  by (rule agent_runs [OF assms])

definition show_ulid :: ulid where
  "show_ulid = \<lparr>ulid_show = (\<lambda>i. show_nat (unat i)),
     ulid_parse = (\<lambda>s. map_option of_nat (parse_uint 128 s))\<rparr>"

lemma show_ulid_ok: "ulid_ok show_ulid"
proof -
  have "slash_free (show_nat n)" "valid_utf8 (show_nat n)" for n
    using show_nat_ascii by (auto simp: slash_free_def intro: valid_utf8_ascii)
  moreover have "parse_uint 128 (show_nat (unat i)) = Some (unat i)" for i :: agent_id
    using unsigned_less [of i] by (intro parse_show) simp
  ultimately show ?thesis by (simp add: ulid_ok_def show_ulid_def)
qed

text \<open>A codec with the stated law, for concrete inputs: the configuration as a countable tuple.\<close>

instance tool_choice :: countable
  by countable_datatype

instance root_bound :: countable
  by countable_datatype

definition config_tuple where
  "config_tuple c =
     (unat (ag_id c), ag_name c, ag_description c, ag_model c, ag_max_iterations c,
      (ag_tool_choice c, ag_thinking c, unat (ag_max_tokens c), unat (ag_thinking_budget c),
       map_option unat (ag_context_window c), ag_skills c),
      map (\<lambda>s. (ms_name s, ms_command s, ms_args s, ms_env s, ms_auto_restart s, ms_url s, ms_auth s))
        (ag_mcps c),
      map (\<lambda>h. (hc_name h, hc_root h, hc_hosts h)) (ag_harnesses c),
      ag_compact_tool_max_len c, recall_limit (hooks_memory (ag_hooks c)))"

fun config_untuple where
  "config_untuple (i, n, d, mo, it, (tc, th, mt, tb, cw, sk), ms, hs, cl, rl) =
     \<lparr>ag_id = of_nat i, ag_name = n, ag_description = d, ag_model = mo, ag_max_iterations = it,
      ag_tool_choice = tc, ag_thinking = th, ag_max_tokens = of_nat mt, ag_thinking_budget = of_nat tb,
      ag_context_window = map_option of_nat cw, ag_skills = sk,
      ag_mcps = map (\<lambda>(n, c, a, e, r, u, au). \<lparr>ms_name = n, ms_command = c, ms_args = a, ms_env = e,
        ms_auto_restart = r, ms_url = u, ms_auth = au\<rparr>) ms,
      ag_harnesses = map (\<lambda>(n, r, h). \<lparr>hc_name = n, hc_root = r, hc_hosts = h\<rparr>) hs,
      ag_tools = [], ag_compact_tool_max_len = cl, ag_hooks = \<lparr>hooks_memory = \<lparr>recall_limit = rl\<rparr>\<rparr>\<rparr>"

definition config_codec :: "agent_config codec" where
  "config_codec = unary_codec config_tuple config_untuple"

lemma record_etas:
  "(\<lambda>x :: mcp_server_config. \<lparr>ms_name = ms_name x, ms_command = ms_command x, ms_args = ms_args x,
     ms_env = ms_env x, ms_auto_restart = ms_auto_restart x, ms_url = ms_url x, ms_auth = ms_auth x\<rparr>) = id"
  "(\<lambda>x :: harness_config. \<lparr>hc_name = hc_name x, hc_root = hc_root x, hc_hosts = hc_hosts x\<rparr>) = id"
  "\<lparr>hooks_memory = \<lparr>recall_limit = recall_limit (hooks_memory (h :: hooks_config))\<rparr>\<rparr> = h"
  by (simp_all add: fun_eq_iff)

lemma config_codec_ok: "codec_ok persisted_config config_codec"
  unfolding config_codec_def
proof (rule unary_codec_ok)
  show "config_untuple (config_tuple c) = persisted_config c" for c :: agent_config
    by (intro agent_config.equality)
      (simp_all add: config_tuple_def persisted_config_def comp_def option.map_comp
        option.map_ident_strong record_etas)
qed

definition sample_env :: agent_env where
  "sample_env = \<lparr>ae_unicode = ascii_unicode, ae_ulid = show_ulid, ae_codec = config_codec\<rparr>"

lemma sample_env_ok: "agent_env_ok sample_env"
  by (simp add: agent_env_ok_def sample_env_def show_ulid_ok config_codec_ok)

definition sample_config :: "agent_id \<Rightarrow> bytes \<Rightarrow> agent_config" where
  "sample_config i n = (agent_config_default 8192)\<lparr>ag_id := i, ag_name := n\<rparr>"

lemma sample_config_simps [simp]: "ag_id (sample_config i n) = i" "ag_name (sample_config i n) = n"
  by (simp_all add: sample_config_def agent_config_default_def)

lemma sample_names:
  "validate_table_name ascii_unicode ''crab'' = Inr ()" "validate_table_name ascii_unicode ''claw'' = Inr ()"
  by code_simp+

theorem agent_run_refines_witness:
  "\<exists>m'. agent_run sample_env [] [Upsert (sample_config 7 ''crab''), Rename 7 ''claw'', Remove 7] = Inr m' \<and>
     agents_consistent sample_env m' \<and> agents_of sample_env m' = Map.empty"
proof -
  let ?xs = "[Upsert (sample_config 7 ''crab''), Rename 7 ''claw'', Remove 7]"
  have "agent_cmds_ok ascii_unicode Map.empty ?xs"
    by (simp add: sample_names name_free_def persisted_config_def)
  moreover have "foldl agent_cmd_spec Map.empty ?xs = Map.empty"
    by (simp add: fun_eq_iff)
  moreover have "ae_unicode sample_env = ascii_unicode"
    by (simp add: sample_env_def)
  ultimately show ?thesis
    using agent_run_refines [OF sample_env_ok, of "[]" ?xs] empty_consistent by metis
qed

subsection \<open>Lookups by name\<close>

text \<open>
  In a consistent store a lookup by name never fails and finds exactly the agent that
  bears the name.
\<close>

theorem load_agent_by_name_exact:
  assumes "agent_env_ok E" and "agents_consistent E m"
  shows "(load_agent_by_name E m n = Inr (Some c) \<longleftrightarrow> (\<exists>i. agents_of E m i = Some c \<and> ag_name c = n)) \<and>
    (load_agent_by_name E m n = Inr None \<longleftrightarrow> (\<forall>i c. agents_of E m i = Some c \<longrightarrow> ag_name c \<noteq> n))"
proof (cases "kv_get m Agent (agent_name_key n)")
  case None
  then have "load_agent_by_name E m n = Inr None"
    by (simp add: load_agent_by_name_def agent_by_name_def read_agent_id_def)
  moreover have "ag_name d \<noteq> n" if "agents_of E m i = Some d" for i d
    using consistent_name [OF assms(2) that] None by auto
  ultimately show ?thesis by auto
next
  case (Some bs)
  then obtain i d where d: "bs = ulid_show (ae_ulid E) i" "agents_of E m i = Some d" "ag_name d = n"
    using consistent_index [OF assms(2)] by blast
  have found: "load_agent_by_name E m n = Inr (Some d)"
    using Some d by (simp add: load_agent_by_name_def agent_by_name_def read_agent_id_show [OF assms(1)]
        consistent_load [OF assms(2)])
  have uniq: "e = d" if "agents_of E m j = Some e" "ag_name e = n" for j e
  proof -
    have "j = i" using consistent_unique [OF assms that(1) d(2)] that(2) d(3) by metis
    then show ?thesis using that(1) d(2) by simp
  qed
  show ?thesis unfolding found using uniq d(2,3) by blast
qed

theorem load_agent_by_name_exact_witness:
  "load_agent_by_name sample_env [] ''crab'' = Inr None"
  using load_agent_by_name_exact [OF sample_env_ok, of "[]" "''crab''"] empty_consistent
  by (simp add: empty_consistent)

lemma name_rows:
  assumes "bt_ok m"
  shows "(k, v) \<in> set (kv_scan m Agent (kv_prefix [''idx'', ''agent''])) \<longleftrightarrow>
    (\<exists>n. k = agent_name_key n \<and> kv_get m Agent k = Some v)"
proof -
  have "prefix (kv_prefix [''idx'', ''agent'']) k \<longleftrightarrow> (\<exists>n. k = agent_name_key n)"
    by (simp add: prefix_def kv_prefix_def agent_name_key_def key_joined)
  then show ?thesis by (auto simp: set_kv_scan [OF assms])
qed

lemma agent_name_key_less [simp]: "agent_name_key n < agent_name_key n' \<longleftrightarrow> n < n'"
  by (simp add: agent_name_key_def key_joined)

text \<open>
  In a consistent store the listing of ids holds every agent once, in the order of their
  names.
\<close>

theorem agent_ids_in_name_order:
  assumes "agent_env_ok E" and "bt_ok m" and "agents_consistent E m"
  shows "set (agent_ids E m) = dom (agents_of E m) \<and>
    sorted_wrt (<) (map (\<lambda>i. ag_name (the (agents_of E m i))) (agent_ids E m))"
proof -
  let ?A = "agents_of E m" and ?rows = "kv_scan m Agent (kv_prefix [''idx'', ''agent''])"
  let ?f = "\<lambda>row. if valid_utf8 (snd row) then ulid_parse (ae_ulid E) (snd row) else None"
  let ?name = "\<lambda>i. ag_name (the (?A i))"
  have row: "\<exists>i. ?f r = Some i \<and> i \<in> dom ?A \<and> fst r = agent_name_key (?name i)"
    if r: "r \<in> set ?rows" for r
  proof -
    obtain k v where kv: "r = (k, v)" by (cases r)
    from r obtain n where n: "k = agent_name_key n" "kv_get m Agent (agent_name_key n) = Some v"
      unfolding kv name_rows [OF assms(2)] by blast
    then obtain i c where "v = ulid_show (ae_ulid E) i" "?A i = Some c" "ag_name c = n"
      using consistent_index [OF assms(3) n(2)] by blast
    moreover from this(1) have "?f r = Some i"
      using assms(1) kv by (simp add: agent_env_ok_def ulid_ok_def)
    ultimately show ?thesis using kv n(1) by (intro exI [of _ i]) (simp add: domI)
  qed
  have ids: "agent_ids E m = map (\<lambda>r. the (?f r)) ?rows"
    unfolding agent_ids_def by (rule map_filter_all) (use row in blast)
  have keys: "map agent_name_key (map ?name (agent_ids E m)) = map fst ?rows"
    unfolding ids map_map by (rule map_cong [OF refl]) (use row in fastforce)
  have "sorted_wrt (<) (map agent_name_key (map ?name (agent_ids E m)))"
    unfolding keys using sorted_kv_scan_keys [OF assms(2)] by (simp add: kv_scan_keys_def)
  then have sorted: "sorted_wrt (<) (map ?name (agent_ids E m))"
    by (simp only: sorted_wrt_map agent_name_key_less)
  have "i \<in> set (agent_ids E m)" if "?A i = Some c" for i c
  proof -
    have "(agent_name_key (ag_name c), ulid_show (ae_ulid E) i) \<in> set ?rows"
      unfolding name_rows [OF assms(2)] using consistent_name [OF assms(3) that] by blast
    moreover have "the (?f (agent_name_key (ag_name c), ulid_show (ae_ulid E) i)) = i"
      using assms(1) by (simp add: agent_env_ok_def ulid_ok_def)
    ultimately show ?thesis unfolding ids by force
  qed
  moreover have "i \<in> dom ?A" if "i \<in> set (agent_ids E m)" for i
  proof -
    from that obtain r where r: "r \<in> set ?rows" "i = the (?f r)"
      unfolding ids set_map by blast
    with row [OF r(1)] show ?thesis by auto
  qed
  ultimately have "set (agent_ids E m) = dom ?A" by auto
  with sorted show ?thesis by simp
qed

theorem agent_ids_in_name_order_witness: "set (agent_ids sample_env []) = {}"
  using agent_ids_in_name_order [OF sample_env_ok, of "[]"] by (simp add: empty_consistent)

subsection \<open>Where names and agents part\<close>

text \<open>
  Renaming an agent to the name it already bears takes the name away from it: the content
  is still there under its id, but no lookup by name finds it any more.
\<close>

theorem rename_to_own_name_loses_it:
  assumes "agent_env_ok E" and "agents_consistent E m" and "agents_of E m i = Some c"
    and "validate_table_name (ae_unicode E) (ag_name c) = Inr ()"
  shows "\<exists>m'. rename_agent E m i (ag_name c) = Inr (True, m') \<and>
    load_agent E m' i = Inr (Some (persisted_config c)) \<and> load_agent_by_name E m' (ag_name c) = Inr None"
proof -
  let ?m' = "kv_remove (put_agent_name E
      (put_json (ae_codec E) m Agent (agent_key E i) (c\<lparr>ag_name := ag_name c\<rparr>)) (ag_name c) i)
      Agent (agent_name_key (ag_name c))"
  have "rename_agent E m i (ag_name c) = Inr (True, ?m')"
    by (simp add: rename_agent_def assms consistent_load [OF assms(2)] Let_def)
  moreover have "load_agent E ?m' i = Inr (Some (persisted_config c))"
    by (simp add: load_agent_put [OF assms(1)])
  moreover have "load_agent_by_name E ?m' (ag_name c) = Inr None"
    by (simp add: load_agent_by_name_def agent_by_name_def read_agent_id_def)
  ultimately show ?thesis by blast
qed

lemma one_agent:
  "\<exists>m. upsert_agent sample_env [] (sample_config i ''crab'') = Inr m \<and> agents_consistent sample_env m \<and>
     agents_of sample_env m = [i \<mapsto> persisted_config (sample_config i ''crab'')]"
  using upsert_consistent [OF sample_env_ok, of "[]" "sample_config i ''crab''"] empty_consistent [of sample_env]
    sample_names(1)
  by (simp add: sample_env_def name_free_def)

theorem rename_to_own_name_loses_it_witness:
  "\<exists>m m'. upsert_agent sample_env [] (sample_config 7 ''crab'') = Inr m \<and>
     rename_agent sample_env m 7 ''crab'' = Inr (True, m') \<and>
     load_agent_by_name sample_env m' ''crab'' = Inr None"
proof -
  obtain m where m: "upsert_agent sample_env [] (sample_config 7 ''crab'') = Inr m"
    "agents_consistent sample_env m"
    "agents_of sample_env m 7 = Some (persisted_config (sample_config 7 ''crab''))"
    using one_agent [of 7] by auto
  moreover have "ae_unicode sample_env = ascii_unicode" by (simp add: sample_env_def)
  ultimately show ?thesis
    using rename_to_own_name_loses_it [OF sample_env_ok m(2,3)] sample_names(1) by fastforce
qed

text \<open>
  Nothing keeps two agents from one name: an upsert under a name another agent bears
  succeeds and takes the name over, and the other agent can no longer be found by it.
\<close>

theorem upsert_takes_over_name:
  assumes "agent_env_ok E" and "agents_consistent E m" and "agents_of E m i = Some c"
    and "agents_of E m (ag_id d) = None" and "ag_name d = ag_name c"
    and "validate_table_name (ae_unicode E) (ag_name d) = Inr ()"
  shows "\<exists>m'. upsert_agent E m d = Inr m' \<and>
    load_agent E m' i = Inr (Some c) \<and> load_agent_by_name E m' (ag_name c) = Inr (Some (persisted_config d))"
proof -
  let ?m' = "put_agent_name E (put_json (ae_codec E) m Agent (agent_key E (ag_id d)) d) (ag_name d) (ag_id d)"
  have ne: "i \<noteq> ag_id d" using assms(3,4) by auto
  have "upsert_agent E m d = Inr ?m'"
    by (simp add: upsert_agent_def assms(4,6) consistent_load [OF assms(2)] Let_def)
  moreover have "load_agent E ?m' i = Inr (Some c)"
    using ne by (simp add: load_agent_put [OF assms(1)] consistent_load [OF assms(2)] assms(3))
  moreover have "load_agent_by_name E ?m' (ag_name c) = Inr (Some (persisted_config d))"
    using assms(5) read_agent_id_show [OF assms(1)]
    by (simp add: load_agent_by_name_def agent_by_name_def load_agent_put [OF assms(1)]
        put_agent_name_kv)
  ultimately show ?thesis by blast
qed

theorem upsert_takes_over_name_witness:
  "\<exists>m m'. upsert_agent sample_env [] (sample_config 7 ''crab'') = Inr m \<and>
     upsert_agent sample_env m (sample_config 8 ''crab'') = Inr m' \<and>
     load_agent sample_env m' 7 = Inr (Some (persisted_config (sample_config 7 ''crab''))) \<and>
     load_agent_by_name sample_env m' ''crab'' = Inr (Some (persisted_config (sample_config 8 ''crab'')))"
proof -
  obtain m where m: "upsert_agent sample_env [] (sample_config 7 ''crab'') = Inr m"
    "agents_consistent sample_env m"
    and A: "agents_of sample_env m = [7 \<mapsto> persisted_config (sample_config 7 ''crab'')]"
    using one_agent [of 7] by blast
  have "ae_unicode sample_env = ascii_unicode" by (simp add: sample_env_def)
  then have "validate_table_name (ae_unicode sample_env) (ag_name (sample_config 8 ''crab'')) = Inr ()"
    using sample_names(1) by simp
  moreover have "agents_of sample_env m 7 = Some (persisted_config (sample_config 7 ''crab''))"
    "agents_of sample_env m (ag_id (sample_config 8 ''crab'')) = None"
    by (simp_all add: A)
  ultimately show ?thesis
    using upsert_takes_over_name [OF sample_env_ok m(2), of 7 "persisted_config (sample_config 7 ''crab'')"
        "sample_config 8 ''crab''"] m(1)
    by auto
qed

lemma delete_agent_frame:
  assumes "delete_agent E m i = Inr (b, m')" and "c \<noteq> Agent"
  shows "kv_get m' c k = kv_get m c k"
proof -
  from assms(1) obtain r :: "agent_config option" where
    "kv_delete (case r of Some c \<Rightarrow> kv_remove m Agent (agent_name_key (ag_name c)) | None \<Rightarrow> m)
      Agent (agent_key E i) = (b, m')"
    unfolding delete_agent_def Let_def bindr_Inr by blast
  then have "m' = kv_remove (case r of Some c \<Rightarrow> kv_remove m Agent (agent_name_key (ag_name c)) | None \<Rightarrow> m)
      Agent (agent_key E i)"
    by (metis snd_conv)
  then show ?thesis using assms(2) by (simp split: option.splits)
qed

lemma set_default_consistent:
  assumes "agents_consistent E m"
  shows "agents_consistent E (set_default_agent E m i) \<and> agents_of E (set_default_agent E m i) = agents_of E m"
proof -
  let ?m = "set_default_agent E m i"
  have load: "load_agent E ?m j = load_agent E m j" for j
    unfolding load_agent_def set_default_agent_def by (rule get_json_kv_put_other) simp
  have name: "kv_get ?m Agent k = kv_get m Agent k" for k
    by (simp add: set_default_agent_def)
  show ?thesis
  proof (rule agents_consistentI; unfold load name)
    show "load_agent E m j = Inr (agents_of E m j)" for j
      by (rule consistent_load [OF assms])
    show "ag_id c = j \<and> kv_get m Agent (agent_name_key (ag_name c)) = Some (ulid_show (ae_ulid E) j)"
      if "agents_of E m j = Some c" for j c
      using consistent_id [OF assms that] consistent_name [OF assms that] by simp
    show "\<exists>j c. bs = ulid_show (ae_ulid E) j \<and> agents_of E m j = Some c \<and> ag_name c = n"
      if "kv_get m Agent (agent_name_key n) = Some bs" for n bs
      by (rule consistent_index [OF assms that])
  qed
qed

text \<open>
  The default agent is a pointer nothing checks: deleting the agent it points at leaves it
  in place, and it still answers with the deleted agent's id.
\<close>

theorem default_agent_dangles:
  assumes "agent_env_ok E" and "agents_consistent E m"
  shows "\<exists>m'. delete_agent E (set_default_agent E m i) i = Inr (agents_of E m i \<noteq> None, m') \<and>
    load_agent E m' i = Inr None \<and> default_agent E m' = Inr (Some i)"
proof -
  let ?m = "set_default_agent E m i"
  note set_default_consistent [OF assms(2), of i]
  then obtain m' where m': "delete_agent E ?m i = Inr (agents_of E m i \<noteq> None, m')"
    "agents_consistent E m'" "agents_of E m' = (agents_of E m)(i := None)"
    using delete_consistent [OF assms(1), of ?m i] by auto
  have "kv_get m' Config default_agent_key = kv_get ?m Config default_agent_key"
    by (rule delete_agent_frame [OF m'(1)]) simp
  then have "default_agent E m' = Inr (Some i)"
    by (simp add: default_agent_def set_default_agent_def read_agent_id_show [OF assms(1)])
  then show ?thesis using m' consistent_load [OF m'(2), of i] by auto
qed

theorem default_agent_dangles_witness:
  "\<exists>m'. delete_agent sample_env (set_default_agent sample_env [] 7) 7 = Inr (False, m') \<and>
     default_agent sample_env m' = Inr (Some 7)"
  using default_agent_dangles [OF sample_env_ok, of "[]" 7] empty_consistent [of sample_env] by auto

subsection \<open>The token budget\<close>

text \<open>
  With thinking on, the request's allowance is the sum of the two allowances as long as
  the sum fits 32 bits; otherwise it wraps below the reasoning allowance it must contain.
\<close>

theorem token_budget_sum:
  assumes "ag_thinking c"
  shows "(unat (ag_max_tokens c) + unat (ag_thinking_budget c) < 2 ^ 32 \<longrightarrow>
      unat (fst (token_budget c)) = unat (ag_max_tokens c) + unat (ag_thinking_budget c)) \<and>
    (2 ^ 32 \<le> unat (ag_max_tokens c) + unat (ag_thinking_budget c) \<longrightarrow>
      fst (token_budget c) < ag_thinking_budget c)"
proof -
  let ?a = "unat (ag_max_tokens c)" and ?b = "unat (ag_thinking_budget c)"
  have sum: "unat (fst (token_budget c)) = (?a + ?b) mod 2 ^ 32"
    using assms by (simp add: token_budget_def unat_word_ariths)
  have "?a < 2 ^ 32" "?b < 2 ^ 32"
    using unsigned_less [of "ag_max_tokens c"] unsigned_less [of "ag_thinking_budget c"] by simp_all
  then have "2 ^ 32 \<le> ?a + ?b \<Longrightarrow> (?a + ?b) mod 2 ^ 32 = ?a + ?b - 2 ^ 32" "?a < 2 ^ 32"
    by (simp_all add: mod_if)
  then show ?thesis using sum by (auto simp: word_less_nat_alt)
qed

theorem token_budget_sum_witness:
  "unat (fst (token_budget ((agent_config_default 8192)\<lparr>ag_thinking := True\<rparr>))) = 12288"
  using token_budget_sum [of "(agent_config_default 8192)\<lparr>ag_thinking := True\<rparr>"]
  by (simp add: agent_config_default_def)

end
