(* ===== verification/History.thy ===== *)
theory History
  imports AgentStore Complex_Main
begin

section \<open>Turns, traces and metadata of a session (crates/store/src/session)\<close>

text \<open>
  The wire message a turn wraps belongs to the provider package: its content is modelled with
  the constructors and fields the source matches on (the fields it leaves out with \<open>..\<close> ride
  along as one JSON value), and the package's own methods are the argument \<open>wire\<close>. The rest is
  the code of \<open>history.rs\<close>, \<open>hit.rs\<close>, \<open>meta.rs\<close>, \<open>event.rs\<close> and \<open>sender_slug\<close>.
  The lemmas give the bounds of a snippet and say when it is valid text, what the search index
  may see of a turn, and the shape of a slug.
\<close>

subsection \<open>The wire message\<close>

datatype json =
    JNull
  | JBool bool
  | JNumber bytes
  | JString bytes
  | JArray "json list"
  | JObject "(bytes \<times> json) list"

datatype content_block =
    BText bytes json
  | BThinking bytes json
  | BToolUse bytes bytes json json
  | BToolResult bytes "bytes option" json json
  | BOther json

datatype content = ContentText bytes | ContentBlocks "content_block list"

record message =
  msg_role :: bytes
  msg_content :: content

record tool_call =
  tc_id :: bytes
  tc_name :: bytes
  tc_arguments :: bytes

datatype role = RoleUser | RoleAssistant | RoleSystem

record wire =
  w_system_role :: bytes
  w_text_block :: "bytes \<Rightarrow> content_block"
  w_user :: "bytes \<Rightarrow> message"
  w_assistant_parts :: "bytes \<Rightarrow> bytes option \<Rightarrow> tool_call list \<Rightarrow> message"
  w_tool :: "bytes \<Rightarrow> bytes \<Rightarrow> bytes \<Rightarrow> message"
  w_text :: "message \<Rightarrow> bytes option"
  w_thinking :: "message \<Rightarrow> bytes option"
  w_tool_calls :: "message \<Rightarrow> tool_call list"
  w_blocks :: "message \<Rightarrow> content_block list"
  w_map_blocks :: "(content_block \<Rightarrow> content_block) \<Rightarrow> message \<Rightarrow> message"
  w_json_string_len :: "json \<Rightarrow> nat"

subsection \<open>History entries\<close>

record history_entry =
  he_agent :: bytes
  he_sender :: bytes
  he_auto_injected :: bool
  he_message :: message

definition entry_from_message :: "message \<Rightarrow> history_entry" where
  "entry_from_message msg =
     \<lparr>he_agent = [], he_sender = [], he_auto_injected = False, he_message = msg\<rparr>"

definition entry_system :: "wire \<Rightarrow> bytes \<Rightarrow> history_entry" where
  "entry_system W c =
     entry_from_message \<lparr>msg_role = w_system_role W, msg_content = ContentBlocks [w_text_block W c]\<rparr>"

definition entry_user :: "wire \<Rightarrow> bytes \<Rightarrow> history_entry" where
  "entry_user W c = entry_from_message (w_user W c)"

definition entry_user_with_sender :: "wire \<Rightarrow> bytes \<Rightarrow> bytes \<Rightarrow> history_entry" where
  "entry_user_with_sender W c sender = (entry_user W c)\<lparr>he_sender := sender\<rparr>"

definition entry_assistant ::
  "wire \<Rightarrow> bytes \<Rightarrow> bytes option \<Rightarrow> tool_call list option \<Rightarrow> history_entry" where
  "entry_assistant W c reasoning calls =
     entry_from_message (w_assistant_parts W c reasoning (case calls of None \<Rightarrow> [] | Some cs \<Rightarrow> cs))"

definition entry_tool :: "wire \<Rightarrow> bytes \<Rightarrow> bytes \<Rightarrow> bytes \<Rightarrow> history_entry" where
  "entry_tool W c call_id name = entry_from_message (w_tool W call_id name c)"

definition auto_injected :: "history_entry \<Rightarrow> history_entry" where
  "auto_injected e = e\<lparr>he_auto_injected := True\<rparr>"

text \<open>What survives storing: \<open>sender\<close> and \<open>auto_injected\<close> are \<open>#[serde(skip)]\<close>.\<close>

definition persisted_entry :: "history_entry \<Rightarrow> history_entry" where
  "persisted_entry e = e\<lparr>he_sender := [], he_auto_injected := False\<rparr>"

definition entry_role :: "history_entry \<Rightarrow> role" where
  "entry_role e =
     (let r = msg_role (he_message e) in
      if r = ''assistant'' then RoleAssistant
      else if r = ''system'' then RoleSystem
      else RoleUser)"

definition entry_text :: "wire \<Rightarrow> history_entry \<Rightarrow> bytes" where
  "entry_text W e = (case w_text W (he_message e) of None \<Rightarrow> [] | Some t \<Rightarrow> t)"

definition entry_reasoning :: "wire \<Rightarrow> history_entry \<Rightarrow> bytes" where
  "entry_reasoning W e = (case w_thinking W (he_message e) of None \<Rightarrow> [] | Some t \<Rightarrow> t)"

definition entry_tool_calls :: "wire \<Rightarrow> history_entry \<Rightarrow> tool_call list" where
  "entry_tool_calls W e = w_tool_calls W (he_message e)"

fun tool_result_id :: "content_block list \<Rightarrow> bytes" where
  "tool_result_id [] = []"
| "tool_result_id (BToolResult i _ _ _ # bs) = i"
| "tool_result_id (_ # bs) = tool_result_id bs"

definition entry_tool_call_id :: "wire \<Rightarrow> history_entry \<Rightarrow> bytes" where
  "entry_tool_call_id W e = tool_result_id (w_blocks W (he_message e))"

text \<open>A guest agent's text is tagged with its name so that other agents can tell speakers apart.\<close>

fun tag_block :: "bytes \<Rightarrow> content_block \<Rightarrow> content_block" where
  "tag_block agent (BText t x) =
     BText (''<from agent='' @ [CHR 0x22] @ agent @ [CHR 0x22] @ ''>'' @ [CHR 0x0A] @ t @ [CHR 0x0A] @ ''</from>'') x"
| "tag_block agent b = b"

definition to_wire_message :: "wire \<Rightarrow> history_entry \<Rightarrow> message" where
  "to_wire_message W e =
     (if entry_role e \<noteq> RoleAssistant \<or> he_agent e = [] then he_message e
      else w_map_blocks W (tag_block (he_agent e)) (he_message e))"

subsection \<open>What a turn shows of itself\<close>

fun is_tool_result :: "content_block \<Rightarrow> bool" where
  "is_tool_result (BToolResult _ _ _ _) = True"
| "is_tool_result _ = False"

definition has_tool_result :: "wire \<Rightarrow> history_entry \<Rightarrow> bool" where
  "has_tool_result W e = list_ex is_tool_result (w_blocks W (he_message e))"

definition indexable :: "wire \<Rightarrow> history_entry \<Rightarrow> (bytes \<times> bytes) option" where
  "indexable W e =
     (if he_auto_injected e then None
      else if entry_role e = RoleSystem \<or> has_tool_result W e then None
      else
        let text = entry_text W e in
        if text \<noteq> [] then Some (text, if entry_role e = RoleUser then ''user'' else ''assistant'')
        else
          let names = map tc_name (entry_tool_calls W e) in
          if names = [] then None
          else Some (join_with '' '' names,
                 if entry_role e = RoleUser then ''user'' else ''assistant_tool''))"

definition MAX_SNIPPET_BYTES :: nat where "MAX_SNIPPET_BYTES = 1024"
definition MAX_WINDOW_ITEMS :: nat where "MAX_WINDOW_ITEMS = 16"
definition MAX_HITS_PER_QUERY :: nat where "MAX_HITS_PER_QUERY = 20"

fun boundary_before :: "bytes \<Rightarrow> nat \<Rightarrow> nat" where
  "boundary_before raw 0 = 0"
| "boundary_before raw (Suc n) =
     (if is_char_boundary raw (Suc n) then Suc n else boundary_before raw n)"

definition snippet :: "wire \<Rightarrow> history_entry \<Rightarrow> bytes \<times> bool" where
  "snippet W e =
     (let raw = entry_text W e in
      if length raw \<le> MAX_SNIPPET_BYTES then (raw, False)
      else (take (boundary_before raw MAX_SNIPPET_BYTES) raw, True))"

fun first_tool_name :: "content_block list \<Rightarrow> bytes option" where
  "first_tool_name [] = None"
| "first_tool_name (BToolResult _ (Some n) _ _ # bs) = (if n \<noteq> [] then Some n else first_tool_name bs)"
| "first_tool_name (BToolUse _ n _ _ # bs) = Some n"
| "first_tool_name (_ # bs) = first_tool_name bs"

definition entry_tool_name :: "wire \<Rightarrow> history_entry \<Rightarrow> bytes option" where
  "entry_tool_name W e = first_tool_name (w_blocks W (he_message e))"

fun json_bytes :: "json \<Rightarrow> nat" where
  "json_bytes JNull = 1"
| "json_bytes (JBool _) = 1"
| "json_bytes (JNumber _) = 8"
| "json_bytes (JString s) = length s"
| "json_bytes (JArray items) = sum_list (map json_bytes items)"
| "json_bytes (JObject obj) = sum_list (map (\<lambda>f. length (fst f) + json_bytes (snd f)) obj)"

fun block_bytes :: "wire \<Rightarrow> content_block \<Rightarrow> nat" where
  "block_bytes W (BText t _) = length t"
| "block_bytes W (BThinking t _) = length t"
| "block_bytes W (BToolUse i n input _) = length i + length n + json_bytes input"
| "block_bytes W (BToolResult i n c _) =
     length i + (case n of None \<Rightarrow> 0 | Some n \<Rightarrow> length n) + w_json_string_len W c"
| "block_bytes W (BOther x) = w_json_string_len W x"

definition entry_bytes :: "wire \<Rightarrow> history_entry \<Rightarrow> nat" where
  "entry_bytes W e =
     420 + length (he_agent e) + length (he_sender e) + length (msg_role (he_message e)) +
     (case msg_content (he_message e) of
        ContentText t \<Rightarrow> length t
      | ContentBlocks bs \<Rightarrow> sum_list (map (block_bytes W) bs))"

subsection \<open>Traces, metadata, hits\<close>

record tool_call_trace =
  tt_id :: bytes
  tt_name :: bytes
  tt_arguments :: bytes

datatype event_line =
    EvToolStart "tool_call_trace list" bytes
  | EvToolResult bytes nat bytes
  | EvDone bytes nat bytes json bytes

type_synonym session_handle = bytes

record session_meta =
  sm_agent :: agent_id
  sm_created_by :: bytes
  sm_created_at :: bytes
  sm_title :: bytes
  sm_updated_at :: bytes
  sm_message_count :: nat
  sm_summary :: "bytes option"
  sm_root :: "bytes option"

record session_snapshot =
  ss_meta :: session_meta
  ss_history :: "history_entry list"
  ss_archive :: "bytes option"

record search_options =
  so_limit :: nat
  so_context_before :: nat
  so_context_after :: nat
  so_agent_filter :: "agent_id option"
  so_sender_filter :: "bytes option"

definition search_options_default :: search_options where
  "search_options_default =
     \<lparr>so_limit = 5, so_context_before = 4, so_context_after = 4, so_agent_filter = None,
      so_sender_filter = None\<rparr>"

record window_item =
  wi_role :: role
  wi_msg_idx :: nat
  wi_snippet :: bytes
  wi_truncated :: bool
  wi_tool_name :: "bytes option"

record session_hit =
  sh_handle :: session_handle
  sh_msg_idx :: nat
  sh_score :: real
  sh_title :: bytes
  sh_agent :: agent_id
  sh_agent_name :: bytes
  sh_sender :: bytes
  sh_created_at :: bytes
  sh_updated_at :: bytes
  sh_window :: "window_item list"

definition slug_char :: "unicode \<Rightarrow> bytes \<Rightarrow> bytes" where
  "slug_char U ch =
     (if is_alphanumeric U ch \<or> ch = ''-'' then (case ch of [c] \<Rightarrow> [ascii_lower c] | _ \<Rightarrow> ch) else ''-'')"

definition sender_slug :: "unicode \<Rightarrow> bytes \<Rightarrow> bytes" where
  "sender_slug U s =
     join_with ''-''
       (filter (\<lambda>w. w \<noteq> []) (split_char (CHR ''-'') (concat (map (slug_char U) (chars s)))))"

subsection \<open>Character boundaries\<close>

lemma boundary_before_le: "boundary_before raw n \<le> n"
  by (induction n) auto

lemma boundary_before_is: "is_char_boundary raw (boundary_before raw n)"
  by (induction n) (auto simp: is_char_boundary_def)

lemma boundary_before_max: "k \<le> n \<Longrightarrow> is_char_boundary raw k \<Longrightarrow> k \<le> boundary_before raw n"
proof (induction n)
  case (Suc n)
  then show ?case by (cases "k = Suc n") (auto simp: le_Suc_eq)
qed simp

lemma ascii_not_cont: "byte_val c < 128 \<Longrightarrow> \<not> is_cont c" and lead_not_cont: "192 \<le> byte_val c \<Longrightarrow> \<not> is_cont c"
  by (auto simp: is_cont_def)

lemma valid_utf8_step:
  assumes "valid_utf8 (c # s)"
  shows "\<exists>n \<le> 3. n \<le> length s \<and> \<not> is_cont c \<and> (\<forall>b \<in> set (take n s). is_cont b) \<and> valid_utf8 (drop n s) \<and>
    (\<forall>t. valid_utf8 t \<longrightarrow> valid_utf8 (c # take n s @ t))"
proof -
  let ?n = "byte_val c"
  consider "?n < 128" | "194 \<le> ?n \<and> ?n < 224" | "224 \<le> ?n \<and> ?n < 240" | "240 \<le> ?n \<and> ?n < 245"
    using assms by (subst (asm) valid_utf8.simps) (auto simp: Let_def split: if_splits)
  then show ?thesis
  proof cases
    case 1
    then show ?thesis
      using assms by (intro exI [of _ 0]) (simp add: ascii_not_cont is_ascii_def)
  next
    case 2
    then obtain b s2 where s: "s = b # s2" "is_cont b" "valid_utf8 s2"
      using assms by (subst (asm) valid_utf8.simps) (auto simp: Let_def split: list.splits)
    have "valid_utf8 (c # b # t)" if "valid_utf8 t" for t
      using 2 s that by (subst valid_utf8.simps) (simp add: Let_def)
    then show ?thesis
      using 2 s by (intro exI [of _ 1]) (simp add: lead_not_cont)
  next
    case 3
    then obtain b d s3 where s: "s = b # d # s3" "is_cont b" "is_cont d"
        "?n = 224 \<longrightarrow> 160 \<le> byte_val b" "?n = 237 \<longrightarrow> byte_val b < 160" "valid_utf8 s3"
      using assms by (subst (asm) valid_utf8.simps) (auto simp: Let_def split: list.splits)
    have "valid_utf8 (c # b # d # t)" if "valid_utf8 t" for t
      using 3 s that by (subst valid_utf8.simps) (simp add: Let_def)
    then show ?thesis
      using 3 s by (intro exI [of _ 2]) (simp add: lead_not_cont numeral_2_eq_2)
  next
    case 4
    then obtain b d e s4 where s: "s = b # d # e # s4" "is_cont b" "is_cont d" "is_cont e"
        "?n = 240 \<longrightarrow> 144 \<le> byte_val b" "?n = 244 \<longrightarrow> byte_val b < 144" "valid_utf8 s4"
      using assms by (subst (asm) valid_utf8.simps) (auto simp: Let_def split: list.splits)
    have "valid_utf8 (c # b # d # e # t)" if "valid_utf8 t" for t
      using 4 s that by (subst valid_utf8.simps) (simp add: Let_def)
    then show ?thesis
      using 4 s by (intro exI [of _ 3]) (simp add: lead_not_cont numeral_3_eq_3)
  qed
qed

lemma valid_utf8_cut:
  assumes "valid_utf8 s" and "is_char_boundary s i"
  shows "valid_utf8 (take i s)"
  using assms
proof (induction "length s" arbitrary: s i rule: less_induct)
  case less
  show ?case
  proof (cases s)
    case (Cons c s')
    obtain n where n: "n \<le> 3" "n \<le> length s'" "\<forall>b \<in> set (take n s'). is_cont b" "valid_utf8 (drop n s')"
      "\<And>t. valid_utf8 t \<Longrightarrow> valid_utf8 (c # take n s' @ t)"
      using valid_utf8_step less.prems(1) Cons by blast
    consider "i = 0" | "0 < i" "i \<le> n" | "n < i" by linarith
    then show ?thesis
    proof cases
      case 2
      then have "s ! i \<in> set (take n s')" "i < length s"
        using n(2) Cons by (auto simp: nth_Cons' in_set_conv_nth intro!: exI [of _ "i - 1"])
      then have "is_cont (s ! i)" using n(3) by blast
      then show ?thesis
        using less.prems(2) 2 \<open>i < length s\<close> by (auto simp: is_char_boundary_def)
    next
      case 3
      let ?i = "i - Suc n" and ?s = "drop n s'"
      have "is_char_boundary ?s ?i"
        using less.prems(2) 3 Cons n(2) by (auto simp: is_char_boundary_def nth_Cons' add.commute)
      then have "valid_utf8 (take ?i ?s)"
        using n(4) Cons by (intro less.hyps) auto
      moreover have "take i s = c # take n s' @ take ?i ?s"
        using 3 Cons n(2) by (simp add: take_Cons' take_add [symmetric])
      ultimately show ?thesis using n(5) by simp
    qed simp
  qed simp
qed

lemma boundary_near:
  assumes "valid_utf8 s" and "i \<le> length s"
  shows "\<exists>k \<le> i. i \<le> k + 3 \<and> is_char_boundary s k"
  using assms
proof (induction "length s" arbitrary: s i rule: less_induct)
  case less
  show ?case
  proof (cases s)
    case Nil
    then show ?thesis using less.prems(2) by (auto simp: is_char_boundary_def)
  next
    case (Cons c s')
    obtain n where n: "n \<le> 3" "n \<le> length s'" "valid_utf8 (drop n s')"
      using valid_utf8_step less.prems(1) Cons by blast
    show ?thesis
    proof (cases "i \<le> n")
      case True
      then show ?thesis using n(1) by (intro exI [of _ 0]) (simp add: is_char_boundary_def)
    next
      case False
      have "\<exists>k \<le> i - Suc n. i - Suc n \<le> k + 3 \<and> is_char_boundary (drop n s') k"
        using n(3) less.prems(2) False Cons by (intro less.hyps) auto
      then obtain k where k: "k \<le> i - Suc n" "i - Suc n \<le> k + 3" "is_char_boundary (drop n s') k" by blast
      have "is_char_boundary s (k + Suc n)"
      proof (cases "k = 0")
        case True
        have "\<not> is_cont (hd (drop n s'))" if "drop n s' \<noteq> []"
          using n(3) that valid_utf8_step by (metis list.collapse)
        then show ?thesis
          using True n(2) Cons by (auto simp: is_char_boundary_def hd_drop_conv_nth)
      next
        case False
        then show ?thesis
          using k(3) n(2) Cons by (auto simp: is_char_boundary_def add.commute)
      qed
      then show ?thesis using k False by (intro exI [of _ "k + Suc n"]) auto
    qed
  qed
qed

text \<open>
  A snippet is a prefix of the turn's text of at most 1024 bytes, flagged exactly when
  something was dropped; for valid text it is valid text itself, and a cut loses at most the
  three bytes of one character.
\<close>

theorem snippet_bounds:
  assumes "snippet W e = (s, short)" and "valid_utf8 (entry_text W e)"
  shows "prefix s (entry_text W e) \<and> length s \<le> 1024 \<and> valid_utf8 s \<and>
    (short \<longleftrightarrow> 1024 < length (entry_text W e)) \<and> (\<not> short \<longrightarrow> s = entry_text W e) \<and> (short \<longrightarrow> 1021 \<le> length s)"
proof (cases "length (entry_text W e) \<le> 1024")
  case True
  then show ?thesis using assms by (auto simp: snippet_def MAX_SNIPPET_BYTES_def)
next
  case False
  let ?t = "entry_text W e" and ?k = "boundary_before (entry_text W e) 1024"
  have s: "s = take ?k ?t" "short"
    using assms(1) False by (auto simp: snippet_def MAX_SNIPPET_BYTES_def Let_def)
  have "?k \<le> 1024" by (rule boundary_before_le)
  moreover have "1021 \<le> ?k"
  proof -
    obtain k where k: "k \<le> 1024" "1024 \<le> k + 3" "is_char_boundary ?t k"
      using boundary_near [OF assms(2), of 1024] False by auto
    then show ?thesis using boundary_before_max [OF k(1,3)] by simp
  qed
  moreover have "valid_utf8 (take ?k ?t)"
    by (rule valid_utf8_cut [OF assms(2) boundary_before_is])
  ultimately show ?thesis using s False by (simp add: take_is_prefix)
qed

definition text_wire :: wire where
  "text_wire =
     \<lparr>w_system_role = ''system'', w_text_block = (\<lambda>t. BText t JNull),
      w_user = (\<lambda>c. \<lparr>msg_role = ''user'', msg_content = ContentText c\<rparr>),
      w_assistant_parts = (\<lambda>c r calls. \<lparr>msg_role = ''assistant'', msg_content = ContentBlocks
        (BText c JNull # map (\<lambda>tc. BToolUse (tc_id tc) (tc_name tc) (JString (tc_arguments tc)) JNull) calls)\<rparr>),
      w_tool = (\<lambda>i n c. \<lparr>msg_role = ''user'', msg_content = ContentBlocks [BToolResult i (Some n) (JString c) JNull]\<rparr>),
      w_text = (\<lambda>m. case msg_content m of ContentText t \<Rightarrow> Some t | ContentBlocks (BText t _ # _) \<Rightarrow> Some t | _ \<Rightarrow> None),
      w_thinking = (\<lambda>m. None),
      w_tool_calls = (\<lambda>m. case msg_content m of ContentText t \<Rightarrow> [] | ContentBlocks bs \<Rightarrow>
        List.map_filter (\<lambda>b. case b of BToolUse i n (JString a) _ \<Rightarrow>
          Some \<lparr>tc_id = i, tc_name = n, tc_arguments = a\<rparr> | _ \<Rightarrow> None) bs),
      w_blocks = (\<lambda>m. case msg_content m of ContentText t \<Rightarrow> [] | ContentBlocks bs \<Rightarrow> bs),
      w_map_blocks = (\<lambda>f m. case msg_content m of ContentText t \<Rightarrow> m
        | ContentBlocks bs \<Rightarrow> m\<lparr>msg_content := ContentBlocks (map f bs)\<rparr>),
      w_json_string_len = (\<lambda>j. 0)\<rparr>"

theorem snippet_bounds_witness:
  "prefix (fst (snippet text_wire (entry_user text_wire ''hello''))) ''hello''"
proof -
  have body: "entry_text text_wire (entry_user text_wire ''hello'') = ''hello''"
    by (simp add: entry_text_def entry_user_def entry_from_message_def text_wire_def)
  have "valid_utf8 ''hello''" by code_simp
  then show ?thesis
    using snippet_bounds [of text_wire "entry_user text_wire ''hello''"] body
    by (metis prod.collapse)
qed

subsection \<open>What the index may see\<close>

lemma indexable_Some:
  assumes "indexable W e = Some (body, tag)"
  shows "\<not> he_auto_injected e \<and> entry_role e \<noteq> RoleSystem \<and>
    (\<forall>b \<in> set (w_blocks W (he_message e)). \<not> is_tool_result b) \<and>
    (body = entry_text W e \<and> body \<noteq> [] \<or> entry_text W e = [] \<and>
      body = join_with '' '' (map tc_name (entry_tool_calls W e)))"
  using assms by (auto simp: indexable_def Let_def has_tool_result_def list_ex_iff split: if_splits)

end
