(* ===== verification/AgentEvents.thy ===== *)
theory AgentEvents
  imports History
begin

section \<open>What a run reports (crates/runtime/src/agent/event.rs, tool.rs)\<close>

text \<open>
  The events of an agent run, the steps and the response they end in, how an event becomes a wire
  event and a trace line, and the registry of tool schemas. Counters of the provider package's
  \<open>Usage\<close> are 32-bit words and their sums wrap, as in a release build; the methods of \<open>Usage\<close>
  that combine them are the argument \<open>usage_ops\<close>. The lemmas show what a registry holds after an
  insert and which schemas a whitelist lets through.
\<close>

subsection \<open>Usage\<close>

record usage =
  us_input :: "32 word"
  us_output :: "32 word"
  us_cache_read :: "32 word"
  us_cache_write :: "32 word"
  us_reasoning :: "32 word"
  us_server_calls :: "(bytes \<times> nat) list"

definition usage_default :: usage where
  "usage_default =
     \<lparr>us_input = 0, us_output = 0, us_cache_read = 0, us_cache_write = 0, us_reasoning = 0,
      us_server_calls = []\<rparr>"

record usage_ops =
  uo_prompt :: "usage \<Rightarrow> 32 word"
  uo_completion :: "usage \<Rightarrow> 32 word"
  uo_total :: "usage \<Rightarrow> 32 word"
  uo_json :: "usage \<Rightarrow> json"

record token_usage =
  tu_prompt :: "32 word"
  tu_completion :: "32 word"
  tu_total :: "32 word"
  tu_cache_hit :: "32 word option"
  tu_cache_miss :: "32 word option"
  tu_reasoning :: "32 word option"

definition some_positive :: "32 word \<Rightarrow> 32 word option" where
  "some_positive n = (if n > 0 then Some n else None)"

definition token_usage_from :: "usage_ops \<Rightarrow> usage \<Rightarrow> token_usage" where
  "token_usage_from Q u =
     \<lparr>tu_prompt = uo_prompt Q u, tu_completion = uo_completion Q u, tu_total = uo_total Q u,
      tu_cache_hit = some_positive (us_cache_read u),
      tu_cache_miss = some_positive (us_cache_write u),
      tu_reasoning = some_positive (us_reasoning u)\<rparr>"

subsection \<open>Steps, responses, events\<close>

datatype finish_reason = FinishLength | FinishOther bytes

datatype stop_reason =
    TextResponse | MaxIterations | NoAction | MaxTokens | StopError bytes | StopCancelled

record agent_step =
  st_message :: message
  st_usage :: usage
  st_finish_reason :: "finish_reason option"
  st_tool_calls :: "tool_call list"
  st_tool_results :: "history_entry list"

record agent_response =
  rs_steps :: "agent_step list"
  rs_final_response :: "bytes option"
  rs_iterations :: nat
  rs_stop_reason :: stop_reason
  rs_model :: bytes

datatype agent_event =
    TextStart
  | TextDelta bytes
  | TextEnd
  | ThinkingStart
  | ThinkingDelta bytes
  | ThinkingEnd
  | ToolCallsBegin "tool_call list"
  | ToolCallsStart "tool_call list"
  | ToolResult bytes "bytes + bytes" nat
  | ToolCallsComplete
  | ContextUsage usage
  | Done agent_response

definition response_error :: "bytes \<Rightarrow> agent_response" where
  "response_error msg =
     \<lparr>rs_steps = [], rs_final_response = None, rs_iterations = 0, rs_stop_reason = StopError msg,
      rs_model = []\<rparr>"

fun stop_text :: "stop_reason \<Rightarrow> bytes" where
  "stop_text TextResponse = ''text_response''"
| "stop_text MaxIterations = ''max_iterations''"
| "stop_text NoAction = ''no_action''"
| "stop_text MaxTokens = ''max_tokens''"
| "stop_text (StopError msg) = ''error: '' @ msg"
| "stop_text StopCancelled = ''cancelled''"

definition response_usage :: "usage_ops \<Rightarrow> agent_response \<Rightarrow> token_usage" where
  "response_usage Q r =
     (let us = map st_usage (rs_steps r);
          total = (\<lambda>f. foldl (\<lambda>acc u. acc + f u) 0 us)
      in \<lparr>tu_prompt = total (uo_prompt Q), tu_completion = total (uo_completion Q),
          tu_total = total (uo_total Q),
          tu_cache_hit = some_positive (total us_cache_read),
          tu_cache_miss = some_positive (total us_cache_write),
          tu_reasoning = some_positive (total us_reasoning)\<rparr>)"

definition add_server_calls ::
  "(bytes \<times> nat) list \<Rightarrow> (bytes \<times> nat) list \<Rightarrow> (bytes \<times> nat) list" where
  "add_server_calls acc us =
     foldl (\<lambda>acc (k, v). bt_insert k ((case map_of acc k of None \<Rightarrow> 0 | Some n \<Rightarrow> n) + v) acc) acc us"

definition add_usage :: "usage \<Rightarrow> usage \<Rightarrow> usage" where
  "add_usage acc u =
     \<lparr>us_input = us_input acc + us_input u, us_output = us_output acc + us_output u,
      us_cache_read = us_cache_read acc + us_cache_read u,
      us_cache_write = us_cache_write acc + us_cache_write u,
      us_reasoning = us_reasoning acc + us_reasoning u,
      us_server_calls = add_server_calls (us_server_calls acc) (us_server_calls u)\<rparr>"

definition sum_step_usage :: "agent_step list \<Rightarrow> usage" where
  "sum_step_usage steps = foldl (\<lambda>acc s. add_usage acc (st_usage s)) usage_default steps"

subsection \<open>Trace lines and wire events\<close>

fun to_event_line :: "usage_ops \<Rightarrow> bytes \<Rightarrow> agent_event \<Rightarrow> event_line option" where
  "to_event_line Q ts (ToolCallsStart calls) =
     Some (EvToolStart
       (map (\<lambda>c. \<lparr>tt_id = tc_id c, tt_name = tc_name c, tt_arguments = tc_arguments c\<rparr>) calls) ts)"
| "to_event_line Q ts (ToolResult call_id _ ms) = Some (EvToolResult call_id ms ts)"
| "to_event_line Q ts (Done r) =
     Some (EvDone (rs_model r) (rs_iterations r) (stop_text (rs_stop_reason r))
       (uo_json Q (sum_step_usage (rs_steps r))) ts)"
| "to_event_line Q ts _ = None"

datatype wire_event =
    WTextStart bytes
  | WChunk bytes
  | WTextEnd bytes
  | WThinkingStart bytes
  | WThinking bytes
  | WThinkingEnd bytes
  | WToolStart "(bytes \<times> bytes) list"
  | WToolResult bytes bytes nat bool
  | WToolsComplete
  | WContextUsage token_usage
  | WEnd bytes bytes bytes "token_usage option"

fun tool_output_text :: "bytes + bytes \<Rightarrow> bytes" where
  "tool_output_text (Inl s) = s"
| "tool_output_text (Inr s) = s"

fun to_stream :: "usage_ops \<Rightarrow> bytes \<Rightarrow> agent_event \<Rightarrow> wire_event" where
  "to_stream Q agent TextStart = WTextStart agent"
| "to_stream Q agent (TextDelta t) = WChunk t"
| "to_stream Q agent TextEnd = WTextEnd agent"
| "to_stream Q agent ThinkingStart = WThinkingStart agent"
| "to_stream Q agent (ThinkingDelta t) = WThinking t"
| "to_stream Q agent ThinkingEnd = WThinkingEnd agent"
| "to_stream Q agent (ToolCallsBegin calls) = WToolStart (map (\<lambda>c. (tc_name c, [])) calls)"
| "to_stream Q agent (ToolCallsStart calls) =
     WToolStart (map (\<lambda>c. (tc_name c, tc_arguments c)) calls)"
| "to_stream Q agent (ToolResult call_id out ms) =
     WToolResult call_id (tool_output_text out) ms (case out of Inl _ \<Rightarrow> True | Inr _ \<Rightarrow> False)"
| "to_stream Q agent ToolCallsComplete = WToolsComplete"
| "to_stream Q agent (ContextUsage u) = WContextUsage (token_usage_from Q u)"
| "to_stream Q agent (Done r) =
     WEnd agent (case rs_stop_reason r of StopError e \<Rightarrow> e | _ \<Rightarrow> []) (rs_model r) (Some (response_usage Q r))"

subsection \<open>Tools (tool.rs)\<close>

text \<open>A schema of the provider package: its function name, the rest as JSON.\<close>

record tool =
  tool_name :: bytes
  tool_schema :: json

record tool_dispatch =
  td_args :: bytes
  td_agent :: agent_id
  td_sender :: bytes
  td_session_id :: "nat option"
  td_call_id :: bytes
  td_root :: "bytes option"

type_synonym dispatcher = "bytes \<Rightarrow> tool_dispatch \<Rightarrow> bytes + bytes"

definition no_dispatcher :: dispatcher where
  "no_dispatcher name call = Inl (''tool not registered: '' @ name)"

type_synonym tool_registry = "(bytes \<times> tool) list"

definition registry_insert :: "tool_registry \<Rightarrow> tool \<Rightarrow> tool_registry" where
  "registry_insert R t = bt_insert (tool_name t) t R"

definition registry_insert_all :: "tool_registry \<Rightarrow> tool list \<Rightarrow> tool_registry" where
  "registry_insert_all R ts = foldl registry_insert R ts"

definition registry_remove :: "tool_registry \<Rightarrow> bytes \<Rightarrow> bool \<times> tool_registry" where
  "registry_remove R name = (map_of R name \<noteq> None, bt_remove name R)"

definition registry_contains :: "tool_registry \<Rightarrow> bytes \<Rightarrow> bool" where
  "registry_contains R name \<longleftrightarrow> map_of R name \<noteq> None"

definition registry_tools :: "tool_registry \<Rightarrow> tool list" where
  "registry_tools R = map snd R"

definition filtered_snapshot :: "tool_registry \<Rightarrow> bytes list \<Rightarrow> tool list" where
  "filtered_snapshot R names =
     (if names = [] then registry_tools R
      else map snd (filter (\<lambda>(k, _). list_ex (\<lambda>n. n = k) names) R))"

text \<open>Every schema is filed under its own function name.\<close>

definition registry_ok :: "tool_registry \<Rightarrow> bool" where
  "registry_ok R \<longleftrightarrow> bt_ok R \<and> (\<forall>(k, t) \<in> set R. k = tool_name t)"

lemma registry_ok_empty [simp]: "registry_ok []"
  by (simp add: registry_ok_def bt_ok_def)

lemma registry_ok_insert [simp]: "registry_ok R \<Longrightarrow> registry_ok (registry_insert R t)"
  using set_bt_insert_subset [of "tool_name t" t R]
  by (auto simp: registry_ok_def registry_insert_def)

lemma registry_ok_insert_all: "registry_ok R \<Longrightarrow> registry_ok (registry_insert_all R ts)"
  unfolding registry_insert_all_def by (induction ts arbitrary: R) simp_all

lemma registry_ok_remove: "registry_ok R \<Longrightarrow> registry_ok (snd (registry_remove R name))"
  using set_bt_remove_subset [of name R] by (auto simp: registry_ok_def registry_remove_def)

lemma registry_contains_insert [simp]:
  "registry_contains (registry_insert R t) name \<longleftrightarrow> name = tool_name t \<or> registry_contains R name"
  by (auto simp: registry_contains_def registry_insert_def)

text \<open>The schemas an agent is given: the registered ones its whitelist names, all when it is empty.\<close>

lemma filtered_snapshot_exact:
  assumes "registry_ok R"
  shows "set (filtered_snapshot R names) =
    {t. map_of R (tool_name t) = Some t \<and> (names = [] \<or> tool_name t \<in> set names)}"
proof -
  have "map_of R (tool_name t) = Some t \<longleftrightarrow> t \<in> snd ` set R" for t
    using assms bt_get_in [of R "tool_name t" t] by (force simp: registry_ok_def)
  moreover have "k = tool_name t" if "(k, t) \<in> set R" for k t
    using assms that by (auto simp: registry_ok_def)
  ultimately show ?thesis
    by (auto simp: filtered_snapshot_def registry_tools_def list_ex_iff image_iff)
qed

end
