(* ===== verification/AgentLoop.thy ===== *)
theory AgentLoop
  imports AgentEvents
begin

section \<open>The agent and its step loop (crates/runtime/src/agent/mod.rs, compact.rs)\<close>

text \<open>
  One run of an agent: build a request from the history, read the model's stream, dispatch the
  tool calls it ends with, commit the round, go again. The provider package is the argument
  \<open>llm\<close> (its message builder a state machine of the type \<open>'b\<close>), the outside of a run is the
  argument \<open>world\<close>: per round, what the select over the stream and the cancellation token sees,
  and in which order the dispatched calls finish. A stream is read to its end: a caller that
  drops the run half way is not modelled.
  The lemmas show that every run ends in exactly one \<open>Done\<close>, that its text and thinking
  segments are bracketed, that what it appends to the history is whole rounds (an assistant
  message, one result per call, in call order), which tools it may advertise, and that the
  sender is lost after the first round of tool calls.
\<close>

subsection \<open>The provider package\<close>

text \<open>
  Its events and responses with the fields the source reads; what it does not read of an event
  rides along as a JSON value for the builder.
\<close>

datatype block_delta = DeltaText bytes | DeltaThinking bytes | DeltaInputJson bytes

datatype model_event =
    ContentBlockDelta json block_delta
  | MessageDelta "bytes option" json json
  | MessageStop
  | OtherModelEvent json

datatype system_prompt = SystemText bytes | SystemBlocks "content_block list"

record request =
  rq_model :: bytes
  rq_messages :: "message list"
  rq_max_tokens :: "32 word"
  rq_system :: "system_prompt option"
  rq_tools :: "json option"
  rq_tool_choice :: "json option"
  rq_thinking :: "32 word option"

record model_response =
  mr_content :: "content_block list"
  mr_stop_reason :: "bytes option"
  mr_usage :: json

record 'b llm =
  l_wire :: wire
  l_usage :: usage_ops
  l_usage_from :: "json \<Rightarrow> usage"
  l_finish_reason :: "bytes \<Rightarrow> finish_reason"
  l_coalesce :: "message list \<Rightarrow> message list"
  l_pairing :: "message list \<Rightarrow> message list"
  l_cached_tools :: "tool list \<Rightarrow> json"
  l_tool_choice :: "tool_choice \<Rightarrow> json"
  l_default_max_tokens :: "32 word"
  l_assistant_role :: bytes
  l_result_text :: "json \<Rightarrow> bytes option"
  l_text_result :: "bytes \<Rightarrow> json"
  l_new :: 'b
  l_accept :: "'b \<Rightarrow> model_event \<Rightarrow> 'b"
  l_calls :: "'b \<Rightarrow> tool_call list"
  l_malformed :: "'b \<Rightarrow> bytes list"
  l_build :: "'b \<Rightarrow> message"

subsection \<open>The agent\<close>

record agent =
  ar_config :: agent_config
  ar_tools :: "tool list"
  ar_dispatcher :: "dispatcher option"

text \<open>What a run tells its tool calls about the session they belong to.\<close>

record session_ref =
  sr_id :: nat
  sr_root :: "bytes option"

definition build_agent :: "tool_registry \<Rightarrow> dispatcher \<Rightarrow> agent_config \<Rightarrow> agent" where
  "build_agent R d config =
     \<lparr>ar_config = config, ar_tools = filtered_snapshot R (ag_tools config), ar_dispatcher = Some d\<rparr>"

definition extend_tools :: "agent \<Rightarrow> tool list \<Rightarrow> agent" where
  "extend_tools A tools =
     (if ag_tools (ar_config A) = [] then A\<lparr>ar_tools := ar_tools A @ tools\<rparr>
      else A\<lparr>ar_tools := ar_tools A @
        filter (\<lambda>t. list_ex (\<lambda>n. n = tool_name t) (ag_tools (ar_config A))) tools\<rparr>)"

fun last_sender_rev :: "history_entry list \<Rightarrow> bytes" where
  "last_sender_rev [] = []"
| "last_sender_rev (e # es) = (if entry_role e = RoleUser then he_sender e else last_sender_rev es)"

definition last_sender :: "history_entry list \<Rightarrow> bytes" where
  "last_sender h = last_sender_rev (rev h)"

definition ephemeral_cache :: json where
  "ephemeral_cache =
     JObject [(''cache_control'', JObject [(''type'', JString ''ephemeral'')])]"

definition system_of :: "agent_config \<Rightarrow> system_prompt option" where
  "system_of c =
     (if ag_description c = [] then None
      else Some (SystemBlocks [BText (ag_description c) ephemeral_cache]))"

definition build_request ::
  "'b llm \<Rightarrow> agent \<Rightarrow> history_entry list \<Rightarrow> tool_choice option \<Rightarrow> request" where
  "build_request L A h override =
     (let messages = l_pairing L (l_coalesce L (map (to_wire_message (l_wire L)) h));
          choice = (case override of Some c \<Rightarrow> c | None \<Rightarrow> ag_tool_choice (ar_config A));
          is_disabled = (choice = ToolDisabled);
          (max_tokens, thinking) = token_budget (ar_config A)
      in \<lparr>rq_model = ag_model (ar_config A), rq_messages = messages, rq_max_tokens = max_tokens,
          rq_system = system_of (ar_config A),
          rq_tools = (if is_disabled \<or> ar_tools A = [] then None
                      else Some (l_cached_tools L (ar_tools A))),
          rq_tool_choice = (if is_disabled \<or> ar_tools A = [] then None
                            else Some (l_tool_choice L choice)),
          rq_thinking = thinking\<rparr>)"

definition dispatch_tool ::
  "agent \<Rightarrow> bytes \<Rightarrow> session_ref option \<Rightarrow> tool_call \<Rightarrow> bytes + bytes" where
  "dispatch_tool A sender session tc =
     (case ar_dispatcher A of
        None \<Rightarrow> Inl (''tool '' @ [CHR 0x27] @ tc_name tc @ [CHR 0x27] @
                  '' called but no tool dispatcher configured'')
      | Some d \<Rightarrow>
          d (tc_name tc)
            \<lparr>td_args = tc_arguments tc, td_agent = ag_id (ar_config A), td_sender = sender,
             td_session_id = map_option sr_id session, td_call_id = tc_id tc,
             td_root = Option.bind session sr_root\<rparr>)"

definition tool_entry :: "'b llm \<Rightarrow> tool_call \<Rightarrow> bytes + bytes \<Rightarrow> history_entry" where
  "tool_entry L tc out = entry_tool (l_wire L) (tool_output_text out) (tc_id tc) (tc_name tc)"

subsection \<open>Reading the stream of one round\<close>

text \<open>What one pass through the select sees: an event, a failure, or the token fired first.\<close>

datatype poll = PollEvent model_event | PollError bytes | PollCancelled

datatype open_segment = SegNone | SegText | SegThinking

datatype stream_end = StreamDone | StreamFailed bytes | StreamCancelled

fun delta_events :: "open_segment \<Rightarrow> model_event \<Rightarrow> agent_event list \<times> open_segment" where
  "delta_events seg (ContentBlockDelta x (DeltaText t)) =
     ((if seg = SegText then []
       else (if seg = SegThinking then [ThinkingEnd] else []) @ [TextStart]) @ [TextDelta t], SegText)"
| "delta_events seg (ContentBlockDelta x (DeltaThinking t)) =
     (if t = [] then ([], seg)
      else ((if seg = SegThinking then []
             else (if seg = SegText then [TextEnd] else []) @ [ThinkingStart]) @ [ThinkingDelta t],
            SegThinking))"
| "delta_events seg _ = ([], seg)"

record 'b round_state =
  rd_builder :: 'b
  rd_finish :: "finish_reason option"
  rd_usage :: "usage option"
  rd_begun :: bool
  rd_open :: open_segment

definition round_new :: "'b llm \<Rightarrow> 'b round_state" where
  "round_new L =
     \<lparr>rd_builder = l_new L, rd_finish = None, rd_usage = None, rd_begun = False, rd_open = SegNone\<rparr>"

fun note_delta :: "'b llm \<Rightarrow> model_event \<Rightarrow> 'b round_state \<Rightarrow> 'b round_state" where
  "note_delta L (MessageDelta reason x u) s =
     s\<lparr>rd_finish := map_option (l_finish_reason L) reason, rd_usage := Some (l_usage_from L u)\<rparr>"
| "note_delta L _ s = s"

fun stream_loop ::
  "'b llm \<Rightarrow> poll list \<Rightarrow> 'b round_state \<Rightarrow> agent_event list \<times> stream_end \<times> 'b round_state" where
  "stream_loop L [] s = ([], StreamDone, s)"
| "stream_loop L (PollCancelled # ps) s = ([], StreamCancelled, s)"
| "stream_loop L (PollError e # ps) s = ([], StreamFailed e, s)"
| "stream_loop L (PollEvent ev # ps) s =
     (let (evs, seg) = delta_events (rd_open s) ev;
          b = l_accept L (rd_builder s) ev;
          begin_now = (\<not> rd_begun s \<and> l_calls L b \<noteq> []);
          (rest, res, s') = stream_loop L ps
            ((note_delta L ev s)\<lparr>rd_builder := b, rd_begun := rd_begun s \<or> begin_now, rd_open := seg\<rparr>)
      in (evs @ (if begin_now then [ToolCallsBegin (l_calls L b)] else []) @ rest, res, s'))"

fun close_segment :: "open_segment \<Rightarrow> agent_event list" where
  "close_segment SegText = [TextEnd]"
| "close_segment SegThinking = [ThinkingEnd]"
| "close_segment SegNone = []"

subsection \<open>Dispatching the tool calls of one round\<close>

text \<open>A dispatched call finishes, with its index and its duration, or the token fires.\<close>

datatype tick = TickDone nat nat | TickCancelled

fun tick_loop ::
  "(nat \<Rightarrow> bytes + bytes) \<Rightarrow> tool_call list \<Rightarrow> tick list \<Rightarrow> (bytes + bytes) option list \<Rightarrow>
   agent_event list \<times> bool \<times> (bytes + bytes) option list" where
  "tick_loop out calls [] buffered = ([], False, buffered)"
| "tick_loop out calls (TickCancelled # ts) buffered = ([], True, buffered)"
| "tick_loop out calls (TickDone i ms # ts) buffered =
     (let (evs, c, b) = tick_loop out calls ts (buffered[i := Some (out i)])
      in (ToolResult (tc_id (calls ! i)) (out i) ms # evs, c, b))"

text \<open>The entries of the round, or None where a slot was never filled: \<open>out.expect(..)\<close> panics.\<close>

fun tool_entries ::
  "'b llm \<Rightarrow> tool_call list \<Rightarrow> (bytes + bytes) option list \<Rightarrow> history_entry list option" where
  "tool_entries L (tc # tcs) (Some out # outs) =
     map_option ((#) (tool_entry L tc out)) (tool_entries L tcs outs)"
| "tool_entries L (tc # tcs) (None # outs) = None"
| "tool_entries L _ _ = Some []"

subsection \<open>One round, and the loop over rounds\<close>

datatype round_end = RoundContinues | RoundDone agent_response | RoundPanics

record round_world =
  rw_stream :: "request \<Rightarrow> poll list"
  rw_ticks :: "tool_call list \<Rightarrow> tick list"

definition response_of ::
  "agent \<Rightarrow> agent_step list \<Rightarrow> bytes option \<Rightarrow> stop_reason \<Rightarrow> agent_response" where
  "response_of A steps final stop =
     \<lparr>rs_steps = steps, rs_final_response = final, rs_iterations = length steps,
      rs_stop_reason = stop, rs_model = ag_model (ar_config A)\<rparr>"

definition step_stop_reason :: "'b llm \<Rightarrow> agent_step \<Rightarrow> stop_reason" where
  "step_stop_reason L st = (if w_text (l_wire L) (st_message st) \<noteq> None then TextResponse else NoAction)"

type_synonym round_result =
  "agent_event list \<times> history_entry list \<times> agent_step list \<times> round_end"

text \<open>The token fired while the model was speaking: the text so far is kept, calls are not.\<close>

definition cancelled_round ::
  "'b llm \<Rightarrow> agent \<Rightarrow> message \<Rightarrow> history_entry list \<Rightarrow> agent_step list \<Rightarrow> round_result" where
  "cancelled_round L A msg h steps =
     (let W = l_wire L;
          text = (case w_text W msg of None \<Rightarrow> [] | Some t \<Rightarrow> t);
          h' = (if text = [] then h
                else h @ [entry_from_message (w_assistant_parts W text (w_thinking W msg) [])])
      in ([], h', steps, RoundDone (response_of A steps None StopCancelled)))"

text \<open>The commit: the assistant message and every result, together, then the step.\<close>

definition commit_round ::
  "'b llm \<Rightarrow> agent \<Rightarrow> agent_step \<Rightarrow> history_entry list \<Rightarrow> agent_step list \<Rightarrow> round_result" where
  "commit_round L A st h steps =
     (let h' = h @ entry_from_message (st_message st) # st_tool_results st;
          report = (if uo_total (l_usage L) (st_usage st) > 0 then [ContextUsage (st_usage st)] else []);
          steps' = steps @ [st]
      in if st_tool_calls st \<noteq> [] then (ToolCallsComplete # report, h', steps', RoundContinues)
         else (report, h', steps', RoundDone (response_of A steps'
                (w_text (l_wire L) (st_message st)) (step_stop_reason L st))))"

definition dispatch_round ::
  "'b llm \<Rightarrow> agent \<Rightarrow> session_ref option \<Rightarrow> round_world \<Rightarrow> agent_step \<Rightarrow>
   history_entry list \<Rightarrow> agent_step list \<Rightarrow> round_result" where
  "dispatch_round L A session w st h steps =
     (let calls = st_tool_calls st in
      if calls = [] then commit_round L A st h steps
      else
        let sender = last_sender h;
            out = (\<lambda>i. dispatch_tool A sender session (calls ! i));
            (evs, cancelled, buffered) = tick_loop out calls (rw_ticks w calls) (replicate (length calls) None)
        in if cancelled
           then (ToolCallsStart calls # evs, h, steps, RoundDone (response_of A steps None StopCancelled))
           else case tool_entries L calls buffered of
                  None \<Rightarrow> (ToolCallsStart calls # evs, h, steps, RoundPanics)
                | Some results \<Rightarrow>
                    (let (cevs, rest) = commit_round L A (st\<lparr>st_tool_results := results\<rparr>) h steps
                     in (ToolCallsStart calls # evs @ cevs, rest)))"

definition finish_round ::
  "'b llm \<Rightarrow> agent \<Rightarrow> session_ref option \<Rightarrow> round_world \<Rightarrow> 'b round_state \<Rightarrow>
   history_entry list \<Rightarrow> agent_step list \<Rightarrow> round_result" where
  "finish_round L A session w s h steps =
     (let b = rd_builder s; malformed = l_malformed L b in
      if malformed \<noteq> [] \<and> rd_finish s \<noteq> Some FinishLength
      then ([], h, steps, RoundDone (response_of A steps None
             (StopError (''unparsable arguments for '' @ join_with '', '' malformed))))
      else
        let calls = l_calls L b; msg = l_build L b in
        if w_text (l_wire L) msg = None \<and> calls = []
        then ([], h, steps, RoundDone (response_of A steps None NoAction))
        else dispatch_round L A session w
               \<lparr>st_message = msg,
                st_usage = (case rd_usage s of None \<Rightarrow> usage_default | Some u \<Rightarrow> u),
                st_finish_reason = rd_finish s, st_tool_calls = calls, st_tool_results = []\<rparr> h steps)"

definition run_round ::
  "'b llm \<Rightarrow> agent \<Rightarrow> session_ref option \<Rightarrow> tool_choice option \<Rightarrow> round_world \<Rightarrow>
   history_entry list \<Rightarrow> agent_step list \<Rightarrow> round_result" where
  "run_round L A session choice w h steps =
     (let (evs, res, s) = stream_loop L (rw_stream w (build_request L A h choice)) (round_new L);
          evs' = evs @ close_segment (rd_open s);
          (more_evs, rest) =
            (case res of
               StreamCancelled \<Rightarrow> cancelled_round L A (l_build L (rd_builder s)) h steps
             | StreamFailed e \<Rightarrow> ([], h, steps, RoundDone (response_of A steps None (StopError e)))
             | StreamDone \<Rightarrow> finish_round L A session w s h steps)
      in (evs' @ more_evs, rest))"

text \<open>The world of the n-th round is \<open>W n\<close>; a continuing round has added one step.\<close>

fun run_rounds ::
  "'b llm \<Rightarrow> agent \<Rightarrow> session_ref option \<Rightarrow> tool_choice option \<Rightarrow> (nat \<Rightarrow> round_world) \<Rightarrow> nat \<Rightarrow>
   history_entry list \<Rightarrow> agent_step list \<Rightarrow> agent_event list \<times> history_entry list \<times> agent_response option" where
  "run_rounds L A session choice W 0 h steps =
     (let r = response_of A steps
            (if steps = [] then None else w_text (l_wire L) (st_message (last steps))) MaxIterations
      in ([Done r], h, Some r))"
| "run_rounds L A session choice W (Suc n) h steps =
     (let (evs, h', steps', res) = run_round L A session choice (W (length steps)) h steps in
      case res of
        RoundDone r \<Rightarrow> (evs @ [Done r], h', Some r)
      | RoundPanics \<Rightarrow> (evs, h', None)
      | RoundContinues \<Rightarrow>
          (let (evs', rest) = run_rounds L A session choice W n h' steps' in (evs @ evs', rest)))"

text \<open>A run: its events, the history it leaves, its response (None when it panics).\<close>

definition run_stream ::
  "'b llm \<Rightarrow> agent \<Rightarrow> session_ref option \<Rightarrow> tool_choice option \<Rightarrow> (nat \<Rightarrow> round_world) \<Rightarrow>
   history_entry list \<Rightarrow> agent_event list \<times> history_entry list \<times> agent_response option" where
  "run_stream L A session choice W h =
     run_rounds L A session choice W (ag_max_iterations (ar_config A)) h []"

subsection \<open>A run to completion, a single round, a compaction\<close>

fun last_done :: "agent_event list \<Rightarrow> agent_response option" where
  "last_done [] = None"
| "last_done (Done r # evs) = (case last_done evs of None \<Rightarrow> Some r | Some r' \<Rightarrow> Some r')"
| "last_done (_ # evs) = last_done evs"

definition run ::
  "'b llm \<Rightarrow> agent \<Rightarrow> session_ref option \<Rightarrow> tool_choice option \<Rightarrow> (nat \<Rightarrow> round_world) \<Rightarrow>
   history_entry list \<Rightarrow> agent_event list \<times> history_entry list \<times> agent_response" where
  "run L A session choice W h =
     (let (evs, h', _) = run_stream L A session choice W h in
      (evs, h', case last_done evs of
         Some r \<Rightarrow> r
       | None \<Rightarrow> \<lparr>rs_steps = [], rs_final_response = None, rs_iterations = 0,
                  rs_stop_reason = StopError ''stream ended without Done'',
                  rs_model = ag_model (ar_config A)\<rparr>))"

text \<open>The model answering a request as a whole: \<open>send\<close>, which may fail.\<close>

definition agent_step_once ::
  "'b llm \<Rightarrow> agent \<Rightarrow> session_ref option \<Rightarrow> (request \<Rightarrow> bytes + model_response) \<Rightarrow>
   history_entry list \<Rightarrow> bytes + agent_step \<times> history_entry list" where
  "agent_step_once L A session send h =
     bindr (send (build_request L A h None))
       (\<lambda>resp.
          let msg = \<lparr>msg_role = l_assistant_role L, msg_content = ContentBlocks (mr_content resp)\<rparr>;
              calls = w_tool_calls (l_wire L) msg;
              sender = last_sender h;
              results = map (\<lambda>tc. tool_entry L tc (dispatch_tool A sender session tc)) calls
          in Inr (\<lparr>st_message = msg, st_usage = l_usage_from L (mr_usage resp),
                   st_finish_reason = map_option (l_finish_reason L) (mr_stop_reason resp),
                   st_tool_calls = calls, st_tool_results = results\<rparr>,
                  h @ entry_from_message msg # results))"

definition truncated_mark :: bytes where
  "truncated_mark = ''... [truncated]''"

fun shorten_result :: "'b llm \<Rightarrow> nat \<Rightarrow> content_block \<Rightarrow> content_block" where
  "shorten_result L max_len (BToolResult i n c x) =
     (case l_result_text L c of
        Some t \<Rightarrow>
          if length t > max_len
          then BToolResult i n (l_text_result L (take (boundary_before t max_len) t @ truncated_mark)) x
          else BToolResult i n c x
      | None \<Rightarrow> BToolResult i n c x)"
| "shorten_result L max_len b = b"

fun first_text :: "content_block list \<Rightarrow> bytes option" where
  "first_text [] = None"
| "first_text (BText t x # bs) = (if t \<noteq> [] then Some t else first_text bs)"
| "first_text (_ # bs) = first_text bs"

definition compact_request :: "'b llm \<Rightarrow> agent \<Rightarrow> history_entry list \<Rightarrow> bytes \<Rightarrow> request" where
  "compact_request L A h prompt =
     \<lparr>rq_model = ag_model (ar_config A),
      rq_messages =
        map (\<lambda>e. w_map_blocks (l_wire L) (shorten_result L (ag_compact_tool_max_len (ar_config A)))
                   (to_wire_message (l_wire L) e)) h @
        [\<lparr>msg_role = ''user'', msg_content = ContentText prompt\<rparr>],
      rq_max_tokens = l_default_max_tokens L, rq_system = system_of (ar_config A),
      rq_tools = None, rq_tool_choice = None, rq_thinking = None\<rparr>"

text \<open>\<open>sent\<close> is None when the token fires before the model answers.\<close>

definition agent_compact ::
  "'b llm \<Rightarrow> agent \<Rightarrow> history_entry list \<Rightarrow> bytes \<Rightarrow>
   (request \<Rightarrow> (bytes + model_response) option) \<Rightarrow> bytes option" where
  "agent_compact L A h prompt sent =
     (case sent (compact_request L A h prompt) of
        Some (Inr resp) \<Rightarrow> first_text (mr_content resp)
      | _ \<Rightarrow> None)"

subsection \<open>What holds of a round\<close>

text \<open>Every dispatched call finishes, unless the token fires first.\<close>

definition ticks_ok :: "nat \<Rightarrow> tick list \<Rightarrow> bool" where
  "ticks_ok n ts \<longleftrightarrow> TickCancelled \<in> set ts \<or> (\<forall>i < n. \<exists>ms. TickDone i ms \<in> set ts)"

definition world_ok :: "(nat \<Rightarrow> round_world) \<Rightarrow> bool" where
  "world_ok W \<longleftrightarrow> (\<forall>k calls. ticks_ok (length calls) (rw_ticks (W k) calls))"

text \<open>The segments of a reader that follows the events.\<close>

fun seg_next :: "open_segment \<Rightarrow> agent_event \<Rightarrow> open_segment option" where
  "seg_next SegNone TextStart = Some SegText"
| "seg_next SegText (TextDelta _) = Some SegText"
| "seg_next SegText TextEnd = Some SegNone"
| "seg_next SegNone ThinkingStart = Some SegThinking"
| "seg_next SegThinking (ThinkingDelta _) = Some SegThinking"
| "seg_next SegThinking ThinkingEnd = Some SegNone"
| "seg_next seg (ToolCallsBegin _) = Some seg"
| "seg_next SegNone (ToolCallsStart _) = Some SegNone"
| "seg_next SegNone (ToolResult _ _ _) = Some SegNone"
| "seg_next SegNone ToolCallsComplete = Some SegNone"
| "seg_next SegNone (ContextUsage _) = Some SegNone"
| "seg_next SegNone (Done _) = Some SegNone"
| "seg_next _ _ = None"

fun seg_run :: "open_segment \<Rightarrow> agent_event list \<Rightarrow> open_segment option" where
  "seg_run seg [] = Some seg"
| "seg_run seg (ev # evs) = Option.bind (seg_next seg ev) (\<lambda>seg'. seg_run seg' evs)"

fun is_done :: "agent_event \<Rightarrow> bool" where
  "is_done (Done _) = True"
| "is_done _ = False"

lemma seg_run_append: "seg_run seg (xs @ ys) = Option.bind (seg_run seg xs) (\<lambda>s. seg_run s ys)"
  by (induction xs arbitrary: seg) (auto split: Option.bind_splits)

lemma delta_events_seg:
  assumes "delta_events seg ev = (evs, seg')"
  shows "seg_run seg evs = Some seg'" and "\<not> list_ex is_done evs"
proof -
  have "seg_run seg evs = Some seg' \<and> \<not> list_ex is_done evs"
  proof (cases "(seg, ev)" rule: delta_events.cases)
    case (1 s x t)
    then show ?thesis using assms by (cases s) auto
  next
    case (2 s x t)
    then show ?thesis using assms by (cases s; cases t) auto
  qed (use assms in auto)
  then show "seg_run seg evs = Some seg'" and "\<not> list_ex is_done evs" by simp_all
qed

lemma stream_loop_seg:
  assumes "stream_loop L ps s = (evs, res, s')"
  shows "seg_run (rd_open s) evs = Some (rd_open s') \<and> \<not> list_ex is_done evs"
  using assms
proof (induction L ps s arbitrary: evs rule: stream_loop.induct)
  case (4 L ev ps s)
  obtain devs seg where d: "delta_events (rd_open s) ev = (devs, seg)" by force
  let ?b = "l_accept L (rd_builder s) ev"
  let ?now = "\<not> rd_begun s \<and> l_calls L ?b \<noteq> []"
  let ?s = "(note_delta L ev s)\<lparr>rd_builder := ?b, rd_begun := rd_begun s \<or> ?now, rd_open := seg\<rparr>"
  obtain rest where r: "stream_loop L ps ?s = (rest, res, s')"
    and evs: "evs = devs @ (if ?now then [ToolCallsBegin (l_calls L ?b)] else []) @ rest"
    using "4.prems" d by (auto simp: Let_def split: prod.splits)
  have "seg_run seg rest = Some (rd_open s') \<and> \<not> list_ex is_done rest"
    using "4.IH" [OF d [symmetric] refl refl refl r] by simp
  moreover have "seg_run seg [ToolCallsBegin cs] = Some seg" for cs by (cases seg) simp_all
  ultimately show ?case
    using delta_events_seg [OF d] by (simp add: evs seg_run_append)
qed simp_all

lemma close_segment_seg: "seg_run seg (close_segment seg) = Some SegNone \<and> \<not> list_ex is_done (close_segment seg)"
  by (cases seg) simp_all

lemma tick_loop_events:
  assumes "tick_loop out calls ts b = (evs, c, b')"
  shows "seg_run SegNone evs = Some SegNone \<and> \<not> list_ex is_done evs \<and> length b' = length b"
  using assms by (induction out calls ts b arbitrary: evs rule: tick_loop.induct) (auto split: prod.splits)

lemma tick_loop_filled:
  assumes "tick_loop out calls ts b = (evs, False, b')" and "i < length b"
    and "b ! i \<noteq> None \<or> (\<exists>ms. TickDone i ms \<in> set ts)"
  shows "b' ! i \<noteq> None"
  using assms
proof (induction out calls ts b arbitrary: evs rule: tick_loop.induct)
  case (3 out calls j ms ts b)
  obtain evs' where t: "tick_loop out calls ts (b[j := Some (out j)]) = (evs', False, b')"
    using "3.prems"(1) by (auto split: prod.splits)
  show ?case
  proof (rule "3.IH" [OF t])
    show "i < length (b[j := Some (out j)])" using "3.prems"(2) by simp
    show "b[j := Some (out j)] ! i \<noteq> None \<or> (\<exists>ms. TickDone i ms \<in> set ts)"
      using "3.prems"(2,3) by (cases "i = j") auto
  qed
qed simp_all

lemma tick_loop_not_cancelled:
  "tick_loop out calls ts b = (evs, False, b') \<Longrightarrow> TickCancelled \<notin> set ts"
  by (induction out calls ts b arbitrary: evs rule: tick_loop.induct) (auto split: prod.splits)

lemma tool_entries_filled:
  assumes "length outs = length tcs" and "\<forall>i < length outs. outs ! i \<noteq> None"
  shows "tool_entries L tcs outs = Some (map2 (\<lambda>tc out. tool_entry L tc (the out)) tcs outs)"
  using assms
proof (induction L tcs outs rule: tool_entries.induct)
  case (1 L tc tcs out outs)
  then have "\<forall>i < length outs. outs ! i \<noteq> None" by force
  then show ?case using 1 by simp
next
  case (2 L tc tcs outs)
  then show ?case by force
qed auto

text \<open>A committed round: the assistant message and one result per call, in the order of the calls.\<close>

definition step_ok :: "'b llm \<Rightarrow> agent_step \<Rightarrow> bool" where
  "step_ok L st \<longleftrightarrow>
     list_all2 (\<lambda>tc e. \<exists>out. e = tool_entry L tc out) (st_tool_calls st) (st_tool_results st)"

definition step_entries :: "agent_step \<Rightarrow> history_entry list" where
  "step_entries st = entry_from_message (st_message st) # st_tool_results st"

text \<open>What a run may leave after its last committed round: the text it was cancelled in.\<close>

definition cancelled_text :: "'b llm \<Rightarrow> history_entry list \<Rightarrow> bool" where
  "cancelled_text L es \<longleftrightarrow>
     (\<exists>t reasoning. t \<noteq> [] \<and> es = [entry_from_message (w_assistant_parts (l_wire L) t reasoning [])])"

definition response_matches :: "agent_response \<Rightarrow> agent_step list \<Rightarrow> bool" where
  "response_matches r steps \<longleftrightarrow> rs_steps r = steps \<and> rs_iterations r = length steps"

fun round_result_ok ::
  "'b llm \<Rightarrow> history_entry list \<Rightarrow> agent_step list \<Rightarrow> round_result \<Rightarrow> bool" where
  "round_result_ok L h steps (evs, h', steps', RoundPanics) \<longleftrightarrow> False"
| "round_result_ok L h steps (evs, h', steps', RoundContinues) \<longleftrightarrow>
     (\<exists>st. st_tool_calls st \<noteq> [] \<and> step_ok L st \<and> steps' = steps @ [st] \<and> h' = h @ step_entries st)"
| "round_result_ok L h steps (evs, h', steps', RoundDone r) \<longleftrightarrow>
     response_matches r steps' \<and>
     (steps' = steps \<and> h' = h \<or>
      steps' = steps \<and> rs_stop_reason r = StopCancelled \<and> (\<exists>tl. cancelled_text L tl \<and> h' = h @ tl) \<or>
      (\<exists>st. st_tool_calls st = [] \<and> step_ok L st \<and> steps' = steps @ [st] \<and> h' = h @ step_entries st))"

definition quiet :: "agent_event list \<Rightarrow> bool" where
  "quiet evs \<longleftrightarrow> seg_run SegNone evs = Some SegNone \<and> \<not> list_ex is_done evs"

lemma quiet_append: "quiet xs \<Longrightarrow> quiet ys \<Longrightarrow> quiet (xs @ ys)"
  by (simp add: quiet_def seg_run_append)

lemma quiet_Nil [simp]: "quiet []"
  by (simp add: quiet_def)

lemma response_of_matches [simp]: "response_matches (response_of A steps fin stop) steps"
  by (simp add: response_matches_def response_of_def)

lemma quiet_report: "quiet (if P then [ContextUsage u] else [])"
  by (simp add: quiet_def)

lemma commit_round_ok:
  assumes "step_ok L st"
  shows "round_result_ok L h steps (commit_round L A st h steps) \<and> quiet (fst (commit_round L A st h steps))"
  using assms quiet_report
  by (cases "st_tool_calls st = []") (auto simp: commit_round_def Let_def step_entries_def quiet_def)

lemma round_result_events:
  "round_result_ok L h steps (evs, rest) \<longleftrightarrow> round_result_ok L h steps (evs', rest)"
  by (cases rest; cases "snd (snd rest)") auto

lemma dispatch_round_ok:
  assumes t: "ticks_ok (length (st_tool_calls st)) (rw_ticks w (st_tool_calls st))"
    and "st_tool_results st = []"
  shows "round_result_ok L h steps (dispatch_round L A session w st h steps) \<and>
    quiet (fst (dispatch_round L A session w st h steps))"
proof (cases "st_tool_calls st = []")
  case True
  then have "step_ok L st" using assms(2) by (simp add: step_ok_def)
  then show ?thesis using commit_round_ok [of L st] True by (simp add: dispatch_round_def)
next
  case False
  let ?calls = "st_tool_calls st"
  let ?out = "\<lambda>i. dispatch_tool A (last_sender h) session (?calls ! i)"
  obtain evs c b where tl: "tick_loop ?out ?calls (rw_ticks w ?calls) (replicate (length ?calls) None) = (evs, c, b)"
    by (metis prod_cases3)
  have evs: "quiet evs" and len: "length b = length ?calls"
    using tick_loop_events [OF tl] by (simp_all add: quiet_def)
  then have q: "quiet (ToolCallsStart ?calls # evs)" by (simp add: quiet_def)
  show ?thesis
  proof (cases c)
    case True
    then show ?thesis using False tl q by (simp add: dispatch_round_def Let_def)
  next
    case nc: False
    then have tl': "tick_loop ?out ?calls (rw_ticks w ?calls) (replicate (length ?calls) None) = (evs, False, b)"
      using tl by simp
    have "\<forall>i < length ?calls. \<exists>ms. TickDone i ms \<in> set (rw_ticks w ?calls)"
      using t tick_loop_not_cancelled [OF tl'] by (simp add: ticks_ok_def)
    then have "\<forall>i < length b. b ! i \<noteq> None"
      using tick_loop_filled [OF tl'] len by simp
    then have te: "tool_entries L ?calls b = Some (map2 (\<lambda>tc out. tool_entry L tc (the out)) ?calls b)"
      using tool_entries_filled len by blast
    let ?st = "st\<lparr>st_tool_results := map2 (\<lambda>tc out. tool_entry L tc (the out)) ?calls b\<rparr>"
    have "step_ok L ?st"
      using len by (auto simp: step_ok_def list_all2_conv_all_nth)
    then have "round_result_ok L h steps (commit_round L A ?st h steps)"
      "quiet (fst (commit_round L A ?st h steps))"
      using commit_round_ok by blast+
    moreover obtain cevs rest where cr: "commit_round L A ?st h steps = (cevs, rest)"
      by (cases "commit_round L A ?st h steps") blast
    ultimately have "round_result_ok L h steps (cevs, rest)" "quiet cevs" by simp_all
    then show ?thesis
      using False nc te quiet_append [OF q] round_result_events
      by (simp add: dispatch_round_def Let_def tl' cr) blast
  qed
qed

lemma finish_round_ok:
  assumes "\<And>calls. ticks_ok (length calls) (rw_ticks w calls)"
  shows "round_result_ok L h steps (finish_round L A session w s h steps) \<and>
    quiet (fst (finish_round L A session w s h steps))"
  unfolding finish_round_def Let_def
  using dispatch_round_ok [where h = h and steps = steps and L = L and A = A and session = session and w = w, OF assms]
  by auto

lemma run_round_ok:
  assumes "\<And>calls. ticks_ok (length calls) (rw_ticks w calls)"
  shows "round_result_ok L h steps (run_round L A session choice w h steps) \<and>
    quiet (fst (run_round L A session choice w h steps))"
proof -
  obtain evs res s where sl: "stream_loop L (rw_stream w (build_request L A h choice)) (round_new L) = (evs, res, s)"
    by (metis prod_cases3)
  have "quiet (evs @ close_segment (rd_open s))"
    using stream_loop_seg [OF sl] close_segment_seg [of "rd_open s"]
    by (simp add: quiet_def seg_run_append round_new_def)
  moreover define out where "out = (case res of
               StreamCancelled \<Rightarrow> cancelled_round L A (l_build L (rd_builder s)) h steps
             | StreamFailed e \<Rightarrow> ([], h, steps, RoundDone (response_of A steps None (StopError e)))
             | StreamDone \<Rightarrow> finish_round L A session w s h steps)"
  moreover have "round_result_ok L h steps out \<and> quiet (fst out)"
  proof (cases res)
    case StreamCancelled
    then show ?thesis
      by (auto simp: out_def cancelled_round_def Let_def cancelled_text_def response_of_def response_matches_def
          split: option.splits)
  qed (use finish_round_ok [OF assms] in \<open>simp_all add: out_def\<close>)
  moreover obtain oevs rest where "out = (oevs, rest)" by (cases out) blast
  moreover have "run_round L A session choice w h steps = ((evs @ close_segment (rd_open s)) @ oevs, rest)"
    using calculation(4) by (simp add: run_round_def sl out_def [symmetric])
  ultimately show ?thesis
    using quiet_append round_result_events by (metis fst_conv)
qed

definition run_shape ::
  "'b llm \<Rightarrow> nat \<Rightarrow> history_entry list \<Rightarrow> agent_step list \<Rightarrow> agent_event list \<Rightarrow> history_entry list \<Rightarrow>
   agent_response \<Rightarrow> bool" where
  "run_shape L n h steps evs h' r \<longleftrightarrow>
     (\<exists>evs' more tl. evs = evs' @ [Done r] \<and> quiet evs' \<and> response_matches r (steps @ more) \<and>
        length more \<le> n \<and> h' = h @ concat (map step_entries more) @ tl \<and>
        (tl = [] \<or> rs_stop_reason r = StopCancelled \<and> cancelled_text L tl) \<and>
        list_all (step_ok L) more \<and> (\<forall>st \<in> set (butlast more). st_tool_calls st \<noteq> []))"

lemma run_rounds_shape:
  assumes W: "world_ok W"
  shows "\<exists>evs h' r. run_rounds L A session choice W n h steps = (evs, h', Some r) \<and>
    run_shape L n h steps evs h' r"
proof (induction n arbitrary: h steps)
  case 0
  show ?case
    by (auto simp: run_shape_def Let_def quiet_def intro!: exI [of _ "[]"])
next
  case (Suc n)
  obtain evs h1 steps1 res where rr: "run_round L A session choice (W (length steps)) h steps = (evs, h1, steps1, res)"
    by (metis prod_cases4)
  have t: "ticks_ok (length calls) (rw_ticks (W (length steps)) calls)" for calls
    using W by (simp add: world_ok_def)
  have ok: "round_result_ok L h steps (evs, h1, steps1, res)" and q: "quiet evs"
    using rr run_round_ok [OF t, of L h steps A session choice]
    by (metis fst_conv)+
  show ?case
  proof (cases res)
    case RoundPanics
    then show ?thesis using ok by simp
  next
    case (RoundDone r)
    have m: "response_matches r steps1" using ok RoundDone by simp
    from ok RoundDone consider "steps1 = steps" "h1 = h"
      | tl where "steps1 = steps" "rs_stop_reason r = StopCancelled" "cancelled_text L tl" "h1 = h @ tl"
      | st where "st_tool_calls st = []" "step_ok L st" "steps1 = steps @ [st]" "h1 = h @ step_entries st"
      by auto
    then have "run_shape L (Suc n) h steps (evs @ [Done r]) h1 r"
    proof cases
      case 1
      then show ?thesis using m q unfolding run_shape_def
        by (intro exI [of _ evs] exI [of _ "[]"]) simp
    next
      case (2 tl)
      then show ?thesis using m q unfolding run_shape_def
        by (intro exI [of _ evs] exI [of _ "[]"] exI [of _ tl]) simp
    next
      case (3 st)
      then show ?thesis using m q unfolding run_shape_def
        by (intro exI [of _ evs] exI [of _ "[st]"] exI [of _ "[]"]) simp
    qed
    then show ?thesis using RoundDone rr by simp
  next
    case RoundContinues
    with ok obtain st where st: "st_tool_calls st \<noteq> []" "step_ok L st" "steps1 = steps @ [st]" "h1 = h @ step_entries st"
      by auto
    obtain evs2 h2 r where r2: "run_rounds L A session choice W n h1 steps1 = (evs2, h2, Some r)"
      "run_shape L n h1 steps1 evs2 h2 r" using Suc.IH by blast
    from r2(2) obtain evs' more tl where sh: "evs2 = evs' @ [Done r]" "quiet evs'"
      "response_matches r (steps1 @ more)" "length more \<le> n" "h2 = h1 @ concat (map step_entries more) @ tl"
      "tl = [] \<or> rs_stop_reason r = StopCancelled \<and> cancelled_text L tl"
      "list_all (step_ok L) more" "\<forall>st \<in> set (butlast more). st_tool_calls st \<noteq> []"
      unfolding run_shape_def by blast
    have "run_shape L (Suc n) h steps (evs @ evs2) h2 r"
      unfolding run_shape_def
      using sh st quiet_append [OF q sh(2)]
      by (intro exI [of _ "evs @ evs'"] exI [of _ "st # more"] exI [of _ tl]) auto
    then show ?thesis using RoundContinues rr r2(1) by simp
  qed
qed

lemma last_done_quiet: "\<not> list_ex is_done evs \<Longrightarrow> last_done (evs @ [Done r]) = Some r"
  by (induction evs rule: last_done.induct) auto


text \<open>
  C20: A reader that follows the events of a run sees every text and thinking segment opened before its
  deltas and closed after them, none inside another and none left open; the announcement that calls
  begin may come inside a segment, their start, results, completion, the context usage and the end
  of the run only between segments. As above, every call of a round is taken to end or to be
  cancelled.
\<close>

theorem run_segments_bracketed:
  assumes "world_ok W"
  shows "seg_run SegNone (fst (run_stream L A session choice W h)) = Some SegNone"
proof -
  obtain evs h' r where "run_stream L A session choice W h = (evs, h', Some r)"
    "run_shape L (ag_max_iterations (ar_config A)) h [] evs h' r"
    unfolding run_stream_def using run_rounds_shape [OF assms] by blast
  then show ?thesis by (auto simp: run_shape_def quiet_def seg_run_append)
qed


subsection \<open>What a request may advertise\<close>

text \<open>
  C10: Where an agent has a whitelist, the schemas it carries into a run, its own and those a
  client adds, are all on it, so a request never offers another tool; an override of \<open>Disabled\<close>
  offers none at all, with no tool choice.
\<close>

theorem request_tools_scoped:
  assumes "registry_ok R" and "ag_tools config \<noteq> []"
    and "A = extend_tools (build_agent R d config) extra"
  shows "(\<forall>t \<in> set (ar_tools A). tool_name t \<in> set (ag_tools config)) \<and>
    (ar_tools A = [] \<longrightarrow> rq_tools (build_request L A h choice) = None) \<and>
    rq_tools (build_request L A h (Some ToolDisabled)) = None \<and>
    rq_tool_choice (build_request L A h (Some ToolDisabled)) = None"
  using filtered_snapshot_exact [OF assms(1), of "ag_tools config"] assms(2,3)
  by (auto simp: extend_tools_def build_agent_def list_ex_iff build_request_def Let_def split: prod.splits)

subsection \<open>Who sent the turn\<close>

lemma last_sender_snoc: "entry_role e = RoleUser \<Longrightarrow> last_sender (h @ [e]) = he_sender e"
  by (simp add: last_sender_def)

lemma last_sender_user: "entry_role e = RoleUser \<Longrightarrow> last_sender (h @ xs @ [e]) = he_sender e"
  using last_sender_snoc [of e "h @ xs"] by simp

lemma tool_entry_sender [simp]: "he_sender (tool_entry L tc out) = []"
  by (simp add: tool_entry_def entry_tool_def entry_from_message_def)

text \<open>
  Where the provider files a tool result under a role that is neither assistant nor system,
  a round that called tools loses the sender of the turn: every call of the next round is
  dispatched with an empty sender, whoever sent the message.
\<close>

theorem sender_lost_after_tools:
  assumes "\<And>tc out. entry_role (tool_entry L tc out) = RoleUser"
    and "run_round L A session choice w h steps = (evs, h', steps', RoundContinues)"
    and "\<And>calls. ticks_ok (length calls) (rw_ticks w calls)"
  shows "last_sender h' = []"
proof -
  have "round_result_ok L h steps (evs, h', steps', RoundContinues)"
    using run_round_ok [OF assms(3), of L h steps A session choice] assms(2) by simp
  then obtain st where st: "st_tool_calls st \<noteq> []" "step_ok L st" "h' = h @ step_entries st" by auto
  then have "length (st_tool_results st) = length (st_tool_calls st)"
    by (auto simp: step_ok_def dest: list_all2_lengthD)
  then obtain es e where es: "st_tool_results st = es @ [e]"
    using st(1) by (metis length_0_conv rev_exhaust)
  then have "\<exists>tc out. e = tool_entry L tc out"
    using st(2) by (auto simp: step_ok_def list_all2_append2 list_all2_Cons2)
  then show ?thesis
    using last_sender_user [of e h "entry_from_message (st_message st) # es"] assms(1) es st(3)
    by (auto simp: step_entries_def)
qed

subsection \<open>A small provider, for concrete inputs\<close>

definition sample_accept :: "bytes \<times> tool_call list \<Rightarrow> model_event \<Rightarrow> bytes \<times> tool_call list" where
  "sample_accept b ev =
     (case ev of
        ContentBlockDelta _ (DeltaText t) \<Rightarrow> (fst b @ t, snd b)
      | OtherModelEvent (JString n) \<Rightarrow> (fst b, snd b @ [\<lparr>tc_id = n, tc_name = n, tc_arguments = []\<rparr>])
      | _ \<Rightarrow> b)"

definition sample_llm :: "(bytes \<times> tool_call list) llm" where
  "sample_llm =
     \<lparr>l_wire = text_wire,
      l_usage = \<lparr>uo_prompt = us_input, uo_completion = us_output,
                 uo_total = (\<lambda>u. us_input u + us_output u), uo_json = (\<lambda>_. JNull)\<rparr>,
      l_usage_from = (\<lambda>_. usage_default),
      l_finish_reason = (\<lambda>r. if r = ''max_tokens'' then FinishLength else FinishOther r),
      l_coalesce = id, l_pairing = id, l_cached_tools = (\<lambda>ts. JArray (map tool_schema ts)),
      l_tool_choice = (\<lambda>_. JNull), l_default_max_tokens = 8192, l_assistant_role = ''assistant'',
      l_result_text = (\<lambda>j. case j of JString t \<Rightarrow> Some t | _ \<Rightarrow> None), l_text_result = JString,
      l_new = ([], []), l_accept = sample_accept, l_calls = snd, l_malformed = (\<lambda>_. []),
      l_build = (\<lambda>b. w_assistant_parts text_wire (fst b) None (snd b))\<rparr>"

definition sample_agent :: agent where
  "sample_agent =
     \<lparr>ar_config = sample_config 7 ''crab'', ar_tools = [], ar_dispatcher = Some no_dispatcher\<rparr>"

text \<open>A model that calls one tool and then answers; calls finish in their order.\<close>

definition sample_world :: "nat \<Rightarrow> round_world" where
  "sample_world k =
     \<lparr>rw_stream = (\<lambda>_. if k = 0 then [PollEvent (OtherModelEvent (JString ''bash''))]
                     else [PollEvent (ContentBlockDelta JNull (DeltaText ''done''))]),
      rw_ticks = (\<lambda>calls. map (\<lambda>i. TickDone i 5) [0 ..< length calls])\<rparr>"

lemma sample_world_ok: "world_ok sample_world"
  by (force simp: world_ok_def ticks_ok_def sample_world_def)

definition sample_turn :: "history_entry list" where
  "sample_turn = [entry_user_with_sender text_wire ''hi'' ''bob'']"

lemma sample_run:
  "map_option rs_iterations (snd (snd (run_stream sample_llm sample_agent None None sample_world sample_turn))) = Some 2"
  by code_simp


theorem run_segments_bracketed_witness:
  "seg_run SegNone (fst (run_stream sample_llm sample_agent None None sample_world sample_turn)) = Some SegNone"
  by (rule run_segments_bracketed [OF sample_world_ok])


definition sample_tool :: "bytes \<Rightarrow> tool" where
  "sample_tool n = \<lparr>tool_name = n, tool_schema = JNull\<rparr>"

theorem request_tools_scoped_witness:
  "list_all (\<lambda>t. tool_name t = ''read'')
     (ar_tools (extend_tools (build_agent (registry_insert [] (sample_tool ''bash''))
       no_dispatcher ((sample_config 7 ''crab'')\<lparr>ag_tools := [''read'']\<rparr>))
       [sample_tool ''bash'', sample_tool ''read'']))"
proof -
  let ?c = "(sample_config 7 ''crab'')\<lparr>ag_tools := [''read'']\<rparr>"
  have "\<forall>t \<in> set (ar_tools (extend_tools (build_agent (registry_insert [] (sample_tool ''bash'')) no_dispatcher ?c)
      [sample_tool ''bash'', sample_tool ''read''])). tool_name t \<in> set (ag_tools ?c)"
    by (rule conjunct1 [OF request_tools_scoped [OF _ _ refl]]) simp_all
  then show ?thesis by (simp add: list_all_iff)
qed

lemma sample_round:
  "snd (snd (snd (run_round sample_llm sample_agent None None (sample_world 0) sample_turn []))) = RoundContinues"
  by code_simp

theorem sender_lost_after_tools_witness:
  "last_sender sample_turn = ''bob'' \<and>
   (\<exists>evs h' steps'. run_round sample_llm sample_agent None None (sample_world 0) sample_turn [] =
      (evs, h', steps', RoundContinues) \<and> last_sender h' = [])"
proof
  show "last_sender sample_turn = ''bob''" by code_simp
  obtain evs h' steps' where r: "run_round sample_llm sample_agent None None (sample_world 0) sample_turn [] =
      (evs, h', steps', RoundContinues)"
    using sample_round by (metis prod.collapse)
  have "entry_role (tool_entry sample_llm tc out) = RoleUser" for tc out
    by (simp add: tool_entry_def entry_tool_def entry_role_def entry_from_message_def sample_llm_def text_wire_def)
  moreover have "ticks_ok (length calls) (rw_ticks (sample_world 0) calls)" for calls
    using sample_world_ok by (simp add: world_ok_def)
  ultimately have "last_sender h' = []" using sender_lost_after_tools [OF _ r] by blast
  then show "\<exists>evs h' steps'. run_round sample_llm sample_agent None None (sample_world 0) sample_turn [] =
      (evs, h', steps', RoundContinues) \<and> last_sender h' = []" using r by blast
qed

end
