(* ===== verification/BermRoot.thy ===== *)
theory BermRoot
  imports AgentStore
begin

section \<open>The boundary of a harness's files (crates/berm/src/root.rs, fs.rs)\<close>

text \<open>
  A harness names a root, and every path it offers is resolved inside it. The file system is a
  tree with symbolic links; \<open>walk\<close> is how the operating system follows a path, at most forty links
  deep, and \<open>os_open\<close> what opening one for writing reaches, a missing last name included. The
  rest is the code of \<open>root.rs\<close>, \<open>bind\<close> and the two file doors.
  The lemmas show that a resolved path is where the system goes, and the one case where it is not.
\<close>

subsection \<open>Paths and the file system\<close>

type_synonym names = "bytes list"

text \<open>
  \<open>Path::components\<close>: a root or none, then the names. A dot is a component only where it begins a
  relative path, so the path \<open>.\<close> differs from the empty one, which names nothing. A slash or a dot at
  the end is as if it were not there.
\<close>

record path =
  pa_absolute :: bool
  pa_names :: names

definition dot_name :: bytes where "dot_name = ''.''"

definition parse_path :: "bytes \<Rightarrow> path" where
  "parse_path s =
     (let cs = split_char (CHR ''/'') s; ns = filter (\<lambda>c. c \<noteq> [] \<and> c \<noteq> dot_name) cs
      in \<lparr>pa_absolute = (s \<noteq> [] \<and> hd s = CHR ''/''),
          pa_names = (if hd cs = dot_name then dot_name # ns else ns)\<rparr>)"

text \<open>The root is a component of its own.\<close>

definition components :: "path \<Rightarrow> bytes option list" where
  "components p = (if pa_absolute p then [None] else []) @ map Some (pa_names p)"

text \<open>The names that are followed.\<close>

definition steps :: "path \<Rightarrow> names" where
  "steps p = filter (\<lambda>c. c \<noteq> dot_name) (pa_names p)"

datatype node = Dir | File bytes | Link path

type_synonym fs = "names \<Rightarrow> node option"

definition parent_name :: bytes where "parent_name = ''..''"

function walk :: "nat \<Rightarrow> fs \<Rightarrow> names \<Rightarrow> names \<Rightarrow> names option" where
  "walk n F base [] = Some base"
| "walk n F base (c # cs) =
     (if c = parent_name then walk n F (butlast base) cs
      else case F (base @ [c]) of
             None \<Rightarrow> None
           | Some Dir \<Rightarrow> walk n F (base @ [c]) cs
           | Some (File _) \<Rightarrow> if cs = [] then Some (base @ [c]) else None
           | Some (Link l) \<Rightarrow>
               if n = 0 then None
               else walk (n - 1) F (if pa_absolute l then [] else base) (steps l @ cs))"
  by pat_completeness auto

termination
  by (relation "measures [\<lambda>(n, F, base, cs). n, \<lambda>(n, F, base, cs). length cs]") simp_all

function os_open :: "nat \<Rightarrow> fs \<Rightarrow> names \<Rightarrow> names \<Rightarrow> names option" where
  "os_open n F base [] = Some base"
| "os_open n F base (c # cs) =
     (if c = parent_name then os_open n F (butlast base) cs
      else case F (base @ [c]) of
             None \<Rightarrow> if cs = [] then Some (base @ [c]) else None
           | Some Dir \<Rightarrow> os_open n F (base @ [c]) cs
           | Some (File _) \<Rightarrow> if cs = [] then Some (base @ [c]) else None
           | Some (Link l) \<Rightarrow>
               if n = 0 then None
               else os_open (n - 1) F (if pa_absolute l then [] else base) (steps l @ cs))"
  by pat_completeness auto

termination
  by (relation "measures [\<lambda>(n, F, base, cs). n, \<lambda>(n, F, base, cs). length cs]") simp_all

declare walk.simps(2) [simp del] os_open.simps(2) [simp del]

definition MAX_LINKS :: nat where "MAX_LINKS = 40"

text \<open>\<open>canonicalize\<close>: the empty path is none, the dot is the working directory.\<close>

definition canonicalize :: "fs \<Rightarrow> names \<Rightarrow> path \<Rightarrow> names option" where
  "canonicalize F cwd p =
     (if components p = [] then None
      else walk MAX_LINKS F (if pa_absolute p then [] else cwd) (steps p))"

subsection \<open>Resolving (root.rs)\<close>

fun normalize_names :: "names \<Rightarrow> names \<Rightarrow> names" where
  "normalize_names out [] = out"
| "normalize_names out (c # cs) =
     (if c = parent_name then normalize_names (butlast out) cs else normalize_names (out @ [c]) cs)"

definition normalize :: "path \<Rightarrow> path" where
  "normalize p = p\<lparr>pa_names := normalize_names [] (steps p)\<rparr>"

text \<open>\<open>missing\<close> is kept in the order of the path; the last name of what exists moves to its front.\<close>

function settle_loop :: "fs \<Rightarrow> names \<Rightarrow> path \<Rightarrow> path \<Rightarrow> names \<Rightarrow> path" where
  "settle_loop F cwd whole existing missing =
     (case canonicalize F cwd existing of
        Some real \<Rightarrow> \<lparr>pa_absolute = True, pa_names = real @ missing\<rparr>
      | None \<Rightarrow>
          if pa_names existing = [] then whole
          else settle_loop F cwd whole (existing\<lparr>pa_names := butlast (pa_names existing)\<rparr>)
                 (last (pa_names existing) # missing))"
  by pat_completeness auto

termination
  by (relation "measure (\<lambda>(F, cwd, whole, existing, missing). length (pa_names existing))") simp_all

declare settle_loop.simps [simp del]

definition settle :: "fs \<Rightarrow> names \<Rightarrow> path \<Rightarrow> path" where
  "settle F cwd p = settle_loop F cwd p p []"

definition path_join :: "path \<Rightarrow> path \<Rightarrow> path" where
  "path_join p q =
     (if pa_absolute q then q
      else p\<lparr>pa_names := pa_names p @ (if components p = [] then pa_names q else steps q)\<rparr>)"

definition starts_with :: "path \<Rightarrow> path \<Rightarrow> bool" where
  "starts_with p r \<longleftrightarrow> prefix (components r) (components p)"

lemma components_empty [simp]: "components p = [] \<longleftrightarrow> \<not> pa_absolute p \<and> pa_names p = []"
  by (simp add: components_def)

lemma prefix_map_Some: "prefix (map Some xs) (map Some ys) \<longleftrightarrow> prefix xs ys"
  by (induction xs arbitrary: ys; case_tac ys) simp_all

lemma starts_with_iff:
  "starts_with p r \<longleftrightarrow> (if pa_absolute r then pa_absolute p \<and> prefix (pa_names r) (pa_names p)
     else pa_names r = [] \<or> \<not> pa_absolute p \<and> prefix (pa_names r) (pa_names p))"
  by (cases "pa_names r"; cases "pa_names p") (auto simp: starts_with_def components_def prefix_map_Some)

lemma canonicalize_absolute: "pa_absolute p \<Longrightarrow> canonicalize F cwd p = walk MAX_LINKS F [] (steps p)"
  by (simp add: canonicalize_def)

lemma steps_plain: "dot_name \<notin> set (pa_names p) \<Longrightarrow> steps p = pa_names p"
  by (auto simp: steps_def filter_id_conv)

definition real_root :: "fs \<Rightarrow> names \<Rightarrow> path \<Rightarrow> path" where
  "real_root F cwd r =
     (case canonicalize F cwd r of
        Some real \<Rightarrow> \<lparr>pa_absolute = True, pa_names = real\<rparr>
      | None \<Rightarrow> normalize r)"

definition resolve :: "fs \<Rightarrow> names \<Rightarrow> path \<Rightarrow> bytes \<Rightarrow> bytes + path" where
  "resolve F cwd r s =
     (let r' = real_root F cwd r;
          q = settle F cwd (normalize (path_join r' (parse_path s)))
      in if \<not> starts_with q r' then Inl (s @ '' is outside the harness root'') else Inr q)"

subsection \<open>What a declaration is bound to (harness.rs)\<close>

definition show_path :: "path \<Rightarrow> bytes" where
  "show_path p = (if pa_absolute p then ''/'' else []) @ join_with ''/'' (pa_names p)"

text \<open>The home directory is the machine's: an argument.\<close>

definition bind_root ::
  "fs \<Rightarrow> names \<Rightarrow> bytes option \<Rightarrow> root_bound option \<Rightarrow> bytes option \<Rightarrow> bytes + path option" where
  "bind_root F cwd home declared session =
     (case declared of
        None \<Rightarrow> Inr None
      | Some (RootFixed p) \<Rightarrow> Inr (Some (parse_path p))
      | Some b \<Rightarrow>
          bindr (case b of
                   RootSession p \<Rightarrow> Inr (parse_path p)
                 | _ \<Rightarrow> (case home of Some h \<Rightarrow> Inr (parse_path h)
                         | None \<Rightarrow> Inl ''no home directory to bind a harness to''))
            (\<lambda>bound. case session of
               None \<Rightarrow> Inr (Some bound)
             | Some s \<Rightarrow>
                 if \<not> valid_utf8 s then Inl (''session root '' @ s @ '' is not utf-8'')
                 else map_sum id Some (resolve F cwd bound s)))"

subsection \<open>The file doors (fs.rs)\<close>

definition MAX_FILE_SIZE :: nat where "MAX_FILE_SIZE = 50 * 1024 * 1024"

text \<open>Following a resolved path from where it starts.\<close>

definition start_of :: "names \<Rightarrow> path \<Rightarrow> names" where
  "start_of cwd p = (if pa_absolute p then [] else cwd)"

definition read_file :: "fs \<Rightarrow> names \<Rightarrow> path \<Rightarrow> bytes option" where
  "read_file F cwd p =
     (case walk MAX_LINKS F (start_of cwd p) (pa_names p) of
        None \<Rightarrow> None
      | Some t \<Rightarrow> (case F t of Some (File d) \<Rightarrow> Some d | _ \<Rightarrow> None))"

text \<open>A failed \<open>metadata\<close> counts as a size of zero; a directory's size is below the bound.\<close>

definition fs_read :: "fs \<Rightarrow> names \<Rightarrow> path \<Rightarrow> bytes \<Rightarrow> bytes + bytes" where
  "fs_read F cwd r s =
     bindr (resolve F cwd r s)
       (\<lambda>q. case read_file F cwd q of
          None \<Rightarrow> Inl ''read failed''
        | Some d \<Rightarrow> if length d > MAX_FILE_SIZE then Inl ''file is too large'' else Inr d)"

definition fs_write :: "fs \<Rightarrow> names \<Rightarrow> path \<Rightarrow> bytes \<Rightarrow> bytes \<Rightarrow> bytes + fs" where
  "fs_write F cwd r s content =
     bindr (resolve F cwd r s)
       (\<lambda>q. case os_open MAX_LINKS F (start_of cwd q) (pa_names q) of
          None \<Rightarrow> Inl ''write failed''
        | Some t \<Rightarrow> (case F t of
              Some Dir \<Rightarrow> Inl ''write failed''
            | _ \<Rightarrow> if t = [] then Inl ''write failed'' else Inr (F(t \<mapsto> File content))))"

subsection \<open>Where a path without links leads\<close>

definition real_dir :: "fs \<Rightarrow> names \<Rightarrow> bool" where
  "real_dir F q \<longleftrightarrow> parent_name \<notin> set q \<and> (\<forall>k \<in> {1..length q}. F (take k q) = Some Dir)"

lemma real_dir_Nil [simp]: "real_dir F []"
  by (simp add: real_dir_def)

lemma real_dir_snoc: "real_dir F (q @ [c]) \<longleftrightarrow> real_dir F q \<and> c \<noteq> parent_name \<and> F (q @ [c]) = Some Dir"
proof -
  have "{1..Suc (length q)} = insert (Suc (length q)) {1..length q}" by auto
  then show ?thesis by (auto simp: real_dir_def)
qed

lemma real_dir_append: "real_dir F (q @ as) \<Longrightarrow> real_dir F q"
  by (induction as rule: rev_induct) (auto simp: real_dir_snoc simp flip: append_assoc)

lemma real_dir_butlast: "real_dir F q \<Longrightarrow> real_dir F (butlast q)"
  by (cases q rule: rev_cases) (simp_all add: real_dir_snoc)

text \<open>What a walk ends at: a directory reached through directories only, or a file in one.\<close>

definition real_at :: "fs \<Rightarrow> names \<Rightarrow> bool" where
  "real_at F q \<longleftrightarrow> real_dir F q \<or>
     (\<exists>b c d. q = b @ [c] \<and> real_dir F b \<and> c \<noteq> parent_name \<and> F q = Some (File d))"

lemma walk_real: "real_dir F base \<Longrightarrow> walk n F base cs = Some q \<Longrightarrow> real_at F q"
proof (induction n F base cs rule: walk.induct)
  case (1 n F base)
  then show ?case by (simp add: real_at_def)
next
  case (2 n F base c cs)
  show ?case
  proof (cases "c = parent_name")
    case True
    then show ?thesis using "2.IH"(1) "2.prems" by (simp add: walk.simps(2) real_dir_butlast)
  next
    case False
    obtain x where x: "F (base @ [c]) = Some x" using "2.prems" False by (auto simp: walk.simps(2) split: option.splits)
    show ?thesis
    proof (cases x)
      case Dir
      then show ?thesis using "2.IH"(2) [OF False x Dir] "2.prems" False x by (simp add: walk.simps(2) real_dir_snoc)
    next
      case (File d)
      then have "q = base @ [c]" using "2.prems"(2) False x by (auto simp: walk.simps(2) split: if_splits)
      then show ?thesis using "2.prems"(1) False x File by (auto simp: real_at_def)
    next
      case (Link l)
      have "n \<noteq> 0" using "2.prems"(2) False x Link by (auto simp: walk.simps(2) split: if_splits)
      then show ?thesis using "2.IH"(3) [OF False x Link] "2.prems" False x Link by (simp add: walk.simps(2))
    qed
  qed
qed

lemma walk_through: "real_dir F (base @ as) \<Longrightarrow> walk n F base (as @ cs) = walk n F (base @ as) cs"
proof (induction as arbitrary: base)
  case (Cons a as)
  have "real_dir F (base @ [a])" using Cons.prems real_dir_append [of F "base @ [a]" as] by simp
  then show ?case using Cons.IH [of "base @ [a]"] Cons.prems by (simp add: walk.simps(2) real_dir_snoc)
qed simp

lemma open_through: "real_dir F (base @ as) \<Longrightarrow> os_open n F base (as @ cs) = os_open n F (base @ as) cs"
proof (induction as arbitrary: base)
  case (Cons a as)
  have "real_dir F (base @ [a])" using Cons.prems real_dir_append [of F "base @ [a]" as] by simp
  then show ?case using Cons.IH [of "base @ [a]"] Cons.prems by (simp add: os_open.simps(2) real_dir_snoc)
qed simp

definition present :: "fs \<Rightarrow> names \<Rightarrow> bool" where
  "present F q \<longleftrightarrow> F q = Some Dir \<or> (\<exists>d. F q = Some (File d))"

lemma walk_snoc:
  "walk n F base cs = Some q \<Longrightarrow> real_dir F base \<Longrightarrow> real_dir F q \<Longrightarrow> present F (q @ [m]) \<Longrightarrow> m \<noteq> parent_name \<Longrightarrow>
     walk n F base (cs @ [m]) = Some (q @ [m])"
proof (induction n F base cs rule: walk.induct)
  case (1 n F base)
  then show ?case by (auto simp: walk.simps(2) present_def)
next
  case (2 n F base c cs)
  show ?case
  proof (cases "c = parent_name")
    case True
    then show ?thesis using "2.IH"(1) "2.prems" by (simp add: walk.simps(2) real_dir_butlast)
  next
    case False
    obtain x where x: "F (base @ [c]) = Some x" using "2.prems" False by (auto simp: walk.simps(2) split: option.splits)
    show ?thesis
    proof (cases x)
      case Dir
      then show ?thesis using "2.IH"(2) [OF False x Dir] "2.prems" False x by (simp add: walk.simps(2) real_dir_snoc)
    next
      case (File d)
      then have "q = base @ [c]" using "2.prems"(1) False x by (auto simp: walk.simps(2) split: if_splits)
      then show ?thesis using "2.prems"(3) x File by (simp add: real_dir_snoc)
    next
      case (Link l)
      have n: "n \<noteq> 0" using "2.prems"(1) False x Link by (auto simp: walk.simps(2) split: if_splits)
      then show ?thesis using "2.IH"(3) [OF False x Link n] "2.prems" False x Link by (simp add: walk.simps(2))
    qed
  qed
qed

lemma open_real: "real_at F q \<Longrightarrow> os_open n F [] q = Some q"
proof -
  assume "real_at F q"
  then consider "real_dir F q" | b c d where "q = b @ [c]" "real_dir F b" "c \<noteq> parent_name" "F q = Some (File d)"
    by (auto simp: real_at_def)
  then show ?thesis
  proof cases
    case 1
    then show ?thesis using open_through [of F "[]" q n "[]"] by simp
  next
    case (2 b c d)
    then show ?thesis using open_through [of F "[]" b n "[c]"] by (simp add: os_open.simps(2))
  qed
qed

lemma walk_open: "walk n F base cs = Some t \<Longrightarrow> os_open n F base cs = Some t"
  by (induction n F base cs rule: walk.induct)
    (auto simp: walk.simps(2) os_open.simps(2) split: option.splits node.splits if_splits)

subsection \<open>Settling\<close>

lemma normalize_names_plain: "parent_name \<notin> set out \<Longrightarrow> parent_name \<notin> set (normalize_names out cs)"
  by (induction out cs rule: normalize_names.induct) (auto dest: in_set_butlastD)

lemma normalize_names_dotless: "dot_name \<notin> set out \<Longrightarrow> dot_name \<notin> set cs \<Longrightarrow> dot_name \<notin> set (normalize_names out cs)"
  by (induction out cs rule: normalize_names.induct) (auto dest: in_set_butlastD)

lemma normalize_dotless: "dot_name \<notin> set (pa_names (normalize p))"
  by (simp add: normalize_def normalize_names_dotless steps_def)

lemma canonicalize_plain:
  "pa_absolute p \<Longrightarrow> dot_name \<notin> set (pa_names p) \<Longrightarrow> canonicalize F cwd p = walk MAX_LINKS F [] (pa_names p)"
  by (simp add: canonicalize_absolute steps_plain)

lemma settle_loop_cases:
  assumes "pa_absolute ex" and "dot_name \<notin> set (pa_names ex)"
  shows "\<exists>k real. k \<le> length (pa_names ex) \<and> walk MAX_LINKS F [] (take k (pa_names ex)) = Some real \<and>
    settle_loop F cwd whole ex missing = \<lparr>pa_absolute = True, pa_names = real @ drop k (pa_names ex) @ missing\<rparr> \<and>
    (k < length (pa_names ex) \<longrightarrow> walk MAX_LINKS F [] (take (Suc k) (pa_names ex)) = None)"
  using assms
proof (induction F cwd whole ex missing rule: settle_loop.induct)
  case (1 F cwd whole ex missing)
  show ?case
  proof (cases "canonicalize F cwd ex")
    case (Some real)
    then show ?thesis using "1.prems"
      by (intro exI [of _ "length (pa_names ex)"] exI [of _ real])
        (simp add: settle_loop.simps [of F cwd whole ex] canonicalize_plain)
  next
    case None
    let ?ns = "pa_names ex"
    have ne: "?ns \<noteq> []" using None "1.prems" by (auto simp: canonicalize_plain)
    have none: "walk MAX_LINKS F [] ?ns = None" using None "1.prems" by (simp add: canonicalize_plain)
    have plain: "dot_name \<notin> set (butlast ?ns)" using "1.prems"(2) in_set_butlastD by metis
    obtain k real where k: "k \<le> length (butlast ?ns)" "walk MAX_LINKS F [] (take k (butlast ?ns)) = Some real"
      "settle_loop F cwd whole (ex\<lparr>pa_names := butlast ?ns\<rparr>) (last ?ns # missing) =
        \<lparr>pa_absolute = True, pa_names = real @ drop k (butlast ?ns) @ last ?ns # missing\<rparr>"
      "k < length (butlast ?ns) \<longrightarrow> walk MAX_LINKS F [] (take (Suc k) (butlast ?ns)) = None"
      using "1.IH" [OF None ne] "1.prems" plain by auto
    have ns: "?ns = butlast ?ns @ [last ?ns]" using ne by simp
    have "length (butlast ?ns) < length ?ns" using ne by simp
    then have lt: "k < length ?ns" using k(1) by (rule le_less_trans [rotated])
    have "take k ?ns = take k (butlast ?ns)" "drop k ?ns = drop k (butlast ?ns) @ [last ?ns]"
      using k(1) by (subst ns, simp)+
    moreover have "walk MAX_LINKS F [] (take (Suc k) ?ns) = None"
    proof (cases "k < length (butlast ?ns)")
      case True
      then have "take (Suc k) ?ns = take (Suc k) (butlast ?ns)" by (subst ns) simp
      then show ?thesis using k(4) True by simp
    next
      case False
      then have "take (Suc k) ?ns = ?ns" using lt by simp
      then show ?thesis using none by simp
    qed
    ultimately show ?thesis
      using k(2,3) lt None ne by (intro exI [of _ k] exI [of _ real]) (simp add: settle_loop.simps [of F cwd whole ex])
  qed
qed

lemma resolve_shape:
  assumes r: "resolve F cwd r s = Inr q" and abs: "pa_absolute (real_root F cwd r)"
  shows "pa_absolute q \<and> prefix (pa_names (real_root F cwd r)) (pa_names q) \<and>
    (real_at F (pa_names q) \<or>
     (\<exists>real m ms. pa_names q = real @ m # ms \<and> m \<noteq> parent_name \<and>
        (\<not> real_dir F real \<and> real_at F real \<or> real_dir F real \<and> \<not> present F (real @ [m]))))"
proof -
  let ?r = "real_root F cwd r"
  define ex where "ex = normalize (path_join ?r (parse_path s))"
  have q: "q = settle F cwd ex" "starts_with q ?r"
    using r by (auto simp: resolve_def Let_def ex_def split: if_splits)
  have "pa_absolute ex" using abs by (auto simp: ex_def normalize_def path_join_def)
  then obtain k real where k: "k \<le> length (pa_names ex)" "walk MAX_LINKS F [] (take k (pa_names ex)) = Some real"
    "q = \<lparr>pa_absolute = True, pa_names = real @ drop k (pa_names ex)\<rparr>"
    "k < length (pa_names ex) \<longrightarrow> walk MAX_LINKS F [] (take (Suc k) (pa_names ex)) = None"
    using settle_loop_cases [of ex F cwd ex "[]"] normalize_dotless by (auto simp: q settle_def ex_def)
  have real: "real_at F real" using walk_real [OF _ k(2)] by simp
  have "real_at F (pa_names q) \<or>
     (\<exists>real m ms. pa_names q = real @ m # ms \<and> m \<noteq> parent_name \<and>
        (\<not> real_dir F real \<and> real_at F real \<or> real_dir F real \<and> \<not> present F (real @ [m])))"
  proof (cases "k < length (pa_names ex)")
    case False
    then show ?thesis using real k(1,3) by simp
  next
    case True
    define m where "m = pa_names ex ! k"
    have split: "drop k (pa_names ex) = m # drop (Suc k) (pa_names ex)"
      using True by (simp add: m_def Cons_nth_drop_Suc)
    have "m \<in> set (pa_names ex)" using True by (simp add: m_def)
    then have m: "m \<noteq> parent_name" using normalize_names_plain [of "[]"] by (auto simp: ex_def normalize_def)
    have "walk MAX_LINKS F [] (take k (pa_names ex) @ [m]) = None"
      using k(4) True by (simp add: take_Suc_conv_app_nth m_def)
    then have "\<not> (real_dir F real \<and> present F (real @ [m]))" using walk_snoc [OF k(2)] m by auto
    then have "pa_names q = real @ m # drop (Suc k) (pa_names ex) \<and> m \<noteq> parent_name \<and>
        (\<not> real_dir F real \<and> real_at F real \<or> real_dir F real \<and> \<not> present F (real @ [m]))"
      using real m k(3) split by auto
    then show ?thesis by blast
  qed
  then show ?thesis using q(2) k(3) abs by (simp add: starts_with_iff)
qed

text \<open>The one way out: the first name below what exists is itself a link.\<close>

definition link_below :: "fs \<Rightarrow> names \<Rightarrow> bool" where
  "link_below F q \<longleftrightarrow>
     list_ex (\<lambda>k. case F (take k q) of Some (Link _) \<Rightarrow> True | _ \<Rightarrow> False) [1..<Suc (length q)]"

lemma resolve_opens_itself:
  assumes r: "resolve F cwd r s = Inr q" and abs: "pa_absolute (real_root F cwd r)"
    and t: "os_open n F [] (pa_names q) = Some t"
  shows "t = pa_names q \<or> link_below F (pa_names q)"
proof -
  from resolve_shape [OF r abs] consider "real_at F (pa_names q)"
    | real m ms where "pa_names q = real @ m # ms" "m \<noteq> parent_name" "\<not> real_dir F real" "real_at F real"
    | real m ms where "pa_names q = real @ m # ms" "m \<noteq> parent_name" "real_dir F real" "\<not> present F (real @ [m])"
    by blast
  then show ?thesis
  proof cases
    case 1
    then show ?thesis using open_real t by simp
  next
    case (2 real m ms)
    then obtain b c d where b: "real = b @ [c]" "real_dir F b" "c \<noteq> parent_name" "F real = Some (File d)"
      by (auto simp: real_at_def)
    have "os_open n F [] (pa_names q) = os_open n F b (c # m # ms)"
      using open_through [of F "[]" b n "c # m # ms"] b 2(1) by simp
    then show ?thesis using t b by (simp add: os_open.simps(2))
  next
    case (3 real m ms)
    have o: "os_open n F [] (pa_names q) = os_open n F real (m # ms)"
      using open_through [of F "[]" real n "m # ms"] 3(1,3) by simp
    show ?thesis
    proof (cases "F (real @ [m])")
      case None
      then show ?thesis using t 3(1,2) o by (simp add: os_open.simps(2) split: if_splits)
    next
      case (Some x)
      then obtain l where "F (real @ [m]) = Some (Link l)" using 3(4) by (cases x) (auto simp: present_def)
      then have "F (take (Suc (length real)) (pa_names q)) = Some (Link l)" using 3(1) by simp
      then show ?thesis
        using 3(1) by (auto simp: link_below_def list_ex_iff simp del: upt_Suc intro!: bexI [of _ "Suc (length real)"])
    qed
  qed
qed

lemma file_doors_at:
  assumes abs: "pa_absolute (real_root F cwd r)" and res: "resolve F cwd r s = Inr q"
    and links: "\<not> link_below F (pa_names q)"
  shows "prefix (pa_names (real_root F cwd r)) (pa_names q) \<and>
    (fs_read F cwd r s = Inr d \<longrightarrow> F (pa_names q) = Some (File d)) \<and>
    (fs_write F cwd r s content = Inr F' \<longrightarrow> F' = F(pa_names q \<mapsto> File content))"
proof -
  have shape: "pa_absolute q" "prefix (pa_names (real_root F cwd r)) (pa_names q)"
    using resolve_shape [OF res abs] by simp_all
  have to: "t = pa_names q" if "os_open MAX_LINKS F [] (pa_names q) = Some t" for t
    using resolve_opens_itself [OF res abs that] links by simp
  have "F (pa_names q) = Some (File d)" if "fs_read F cwd r s = Inr d"
    using that res shape(1) to [OF walk_open]
    by (auto simp: fs_read_def read_file_def start_of_def split: option.splits node.splits if_splits)
  moreover have "F' = F(pa_names q \<mapsto> File content)" if "fs_write F cwd r s content = Inr F'"
    using that res shape(1) to
    by (auto simp: fs_write_def start_of_def split: option.splits node.splits if_splits)
  ultimately show ?thesis using shape(2) by simp
qed

text \<open>
  C18: What a harness reads and writes stays inside its root, where the root resolves to an absolute
  path, as every root that exists does: a read gives the contents of the file at a path below the
  root, and a write changes that one file, as long as no name of the resolved path is a link, which
  the resolution leaves only where it could not follow one.
\<close>

theorem file_doors_confined:
  assumes abs: "pa_absolute (real_root F cwd r)" and res: "resolve F cwd r s = Inr q"
    and links: "\<not> link_below F (pa_names q)"
  shows "prefix (pa_names (real_root F cwd r)) (pa_names q) \<and>
    (fs_read F cwd r s = Inr d \<longrightarrow> F (pa_names q) = Some (File d)) \<and>
    (fs_write F cwd r s content = Inr F' \<longrightarrow> F' = F(pa_names q \<mapsto> File content))"
  by (rule file_doors_at) (fact assms)+

text \<open>
  A path is refused or ends below the root, whatever mix of names, dots and links it is; and
  where the whole of it exists, it is the very path the system reaches, with no link left in it.
\<close>

theorem resolve_follows_links:
  assumes abs: "pa_absolute (real_root F cwd r)" and res: "resolve F cwd r s = Inr q"
    and there: "walk MAX_LINKS F [] (pa_names (normalize (path_join (real_root F cwd r) (parse_path s)))) = Some t"
  shows "pa_names q = t \<and> os_open n F [] (pa_names q) = Some t \<and> parent_name \<notin> set (pa_names q) \<and>
    prefix (pa_names (real_root F cwd r)) t"
proof -
  let ?p = "normalize (path_join (real_root F cwd r) (parse_path s))"
  have "pa_absolute ?p" using abs by (auto simp: normalize_def path_join_def)
  then have settled: "settle F cwd ?p = \<lparr>pa_absolute = True, pa_names = t\<rparr>"
    using there by (simp add: settle_def settle_loop.simps [of F cwd ?p ?p] canonicalize_plain normalize_dotless)
  have "q = settle F cwd ?p" using res by (auto simp: resolve_def Let_def split: if_splits)
  then have q: "pa_names q = t" by (simp add: settled)
  have t: "real_at F t" using walk_real [OF _ there] by simp
  then have "parent_name \<notin> set t" by (auto simp: real_at_def real_dir_def)
  then show ?thesis using q open_real [OF t] resolve_shape [OF res abs] by simp
qed

text \<open>
  A root that is empty, or goes up from a directory that is not there, resolves to the empty path,
  below which every path is: it confines nothing.
\<close>

theorem empty_root_confines_nothing:
  assumes "real_root F cwd r = \<lparr>pa_absolute = False, pa_names = []\<rparr>"
  shows "resolve F cwd r s = Inr (settle F cwd (normalize (parse_path s)))"
  using assms by (cases "parse_path s") (simp add: resolve_def Let_def starts_with_iff path_join_def)

text \<open>A link to a name that is not there yet is taken for a missing file, and a write follows it.\<close>

definition dangling_fs :: fs where
  "dangling_fs = [[''r''] \<mapsto> Dir, [''etc''] \<mapsto> Dir, [''r'', ''out''] \<mapsto> Link (parse_path ''/etc/new'')]"

theorem dangling_link_escapes:
  "resolve dangling_fs [] (parse_path ''/r'') ''out'' = Inr (parse_path ''/r/out'')"
  "map_sum id (\<lambda>F. F [''etc'', ''new'']) (fs_write dangling_fs [] (parse_path ''/r'') ''out'' ''x'') =
     Inr (Some (File ''x''))"
  by code_simp+

lemma empty_root_examples:
  "fs_read [[''etc''] \<mapsto> Dir, [''etc'', ''passwd''] \<mapsto> File ''x''] [] (parse_path []) ''/etc/passwd'' = Inr ''x''"
  "resolve dangling_fs [''r''] (parse_path ''gone/..'') ''/etc'' = Inr (parse_path ''/etc'')"
  "real_root dangling_fs [''r''] (parse_path ''.'') = parse_path ''/r''"
  by code_simp+

subsection \<open>Witnesses\<close>

definition sample_fs :: fs where
  "sample_fs =
     [[''r''] \<mapsto> Dir, [''r'', ''d''] \<mapsto> Dir, [''r'', ''d'', ''a''] \<mapsto> File ''x'',
      [''r'', ''l''] \<mapsto> Link (parse_path ''d/a''), [''etc''] \<mapsto> Dir]"

theorem file_doors_confined_witness:
  "fs_read sample_fs [] (parse_path ''/r'') ''d/../l'' = Inr ''x'' \<and>
   sample_fs [''r'', ''d'', ''a''] = Some (File ''x'')"
proof -
  have "resolve sample_fs [] (parse_path ''/r'') ''d/../l'' = Inr (parse_path ''/r/d/a'')" by code_simp
  moreover have "pa_absolute (real_root sample_fs [] (parse_path ''/r''))" by code_simp
  moreover have "\<not> link_below sample_fs (pa_names (parse_path ''/r/d/a''))" by code_simp
  moreover have "fs_read sample_fs [] (parse_path ''/r'') ''d/../l'' = Inr ''x''" by code_simp
  moreover have "pa_names (parse_path ''/r/d/a'') = [''r'', ''d'', ''a'']" by code_simp
  ultimately show ?thesis
    using file_doors_confined [of sample_fs "[]" "parse_path ''/r''" "''d/../l''" "parse_path ''/r/d/a''" "''x''" "[]" sample_fs]
    by simp
qed

theorem resolve_follows_links_witness:
  "pa_names (parse_path ''/r/d/a'') = [''r'', ''d'', ''a''] \<and>
   os_open 0 sample_fs [] (pa_names (parse_path ''/r/d/a'')) = Some [''r'', ''d'', ''a'']"
proof -
  have r: "resolve sample_fs [] (parse_path ''/r'') ''l'' = Inr (parse_path ''/r/d/a'')" by code_simp
  have a: "pa_absolute (real_root sample_fs [] (parse_path ''/r''))" by code_simp
  have w: "walk MAX_LINKS sample_fs []
      (pa_names (normalize (path_join (real_root sample_fs [] (parse_path ''/r'')) (parse_path ''l'')))) =
      Some [''r'', ''d'', ''a'']" by code_simp
  show ?thesis using resolve_follows_links [OF a r w, of 0] by blast
qed

end
