(* ===== verification/BermHarness.thy ===== *)
theory BermHarness
  imports BermRoot AgentEvents "HOL-Library.Option_ord"
begin

section \<open>Harness images and who declared them (crates/berm/src/harness.rs, protocol.rs)\<close>

text \<open>
  The registry of sandbox images: which image a digest names, what each agent declared, and what
  an agent's declarations resolved to under each session root. The sandbox is a package: compiling
  an image with the doors it is granted, its manifest, a call into it, and the hash of a digest are
  the argument \<open>berm_env\<close>, as are the directory of images and the file system. A path is kept
  as its names. The doors are data: which ones an image is built with, and what bounds them.
  The lemmas show that an image is kept exactly while a resolution points to it, that resolutions
  follow the current declarations, and that a call reaches declared images only.
\<close>

subsection \<open>State\<close>

record scope =
  sc_skills :: "bytes list"
  sc_agent :: agent_id

datatype door =
    DoorRead path
  | DoorWrite path
  | DoorGlob path
  | DoorGrep path
  | DoorExec path
  | DoorHttp "bytes list"
  | DoorPeers scope
  | DoorSessions scope
  | DoorSkillList scope
  | DoorSkillGet scope
  | DoorCall agent_id "bytes option"

record manifest =
  mf_tools :: "tool list"
  mf_usage :: bytes

record 'i berm_env =
  be_file :: "bytes \<Rightarrow> bytes option"
  be_manifest_of :: "bytes \<Rightarrow> manifest option"
  be_load :: "bytes \<Rightarrow> door list \<Rightarrow> bytes + 'i"
  be_manifest :: "'i \<Rightarrow> manifest"
  be_call :: "'i \<Rightarrow> bytes \<Rightarrow> bytes \<Rightarrow> bytes + (bytes + bytes)"
  be_hash :: "bytes \<Rightarrow> bytes"
  be_fs :: fs
  be_cwd :: names
  be_home :: "bytes option"
  be_show :: "agent_id \<Rightarrow> bytes"
  be_trim_end :: "bytes \<Rightarrow> bytes"

record declared =
  dc_harnesses :: "harness_config list"
  dc_skills :: "bytes list"

text \<open>A session root is compared by its names, as the code's paths are.\<close>

type_synonym resolution = "agent_id \<times> (bool \<times> names) option"

definition root_key :: "bytes option \<Rightarrow> (bool \<times> names) option" where
  "root_key r = map_option (\<lambda>s. (pa_absolute (parse_path s), pa_names (parse_path s))) r"

record 'i berm_registry =
  br_images :: "(bytes \<times> 'i) list"
  br_declared :: "(agent_id \<times> declared) list"
  br_agents :: "(resolution \<times> (bytes \<times> bytes) list) list"

definition berm_new :: "'i berm_registry" where
  "berm_new = \<lparr>br_images = [], br_declared = [], br_agents = []\<rparr>"

subsection \<open>The registry\<close>

definition berm_resolved :: "'i berm_registry \<Rightarrow> agent_id \<Rightarrow> bytes option \<Rightarrow> (bytes \<times> bytes) list" where
  "berm_resolved R a rt = (case map_of (br_agents R) (a, root_key rt) of Some ds \<Rightarrow> ds | None \<Rightarrow> [])"

definition images_of :: "'i berm_registry \<Rightarrow> agent_id \<Rightarrow> bytes option \<Rightarrow> 'i list" where
  "images_of R a rt = List.map_filter (\<lambda>(_, d). map_of (br_images R) d) (berm_resolved R a rt)"

definition berm_named :: "'i berm_registry \<Rightarrow> agent_id \<Rightarrow> bytes option \<Rightarrow> bytes \<Rightarrow> 'i option" where
  "berm_named R a rt name =
     Option.bind (find (\<lambda>(n, _). n = name) (berm_resolved R a rt)) (\<lambda>(_, d). map_of (br_images R) d)"

definition berm_clear :: "agent_id \<Rightarrow> 'i berm_registry \<Rightarrow> 'i berm_registry" where
  "berm_clear a R = R\<lparr>br_agents := filter (\<lambda>((b, _), _). b \<noteq> a) (br_agents R)\<rparr>"

definition berm_sweep :: "'i berm_registry \<Rightarrow> 'i berm_registry" where
  "berm_sweep R = R\<lparr>br_images :=
     filter (\<lambda>(d, _). list_ex (\<lambda>(_, ds). list_ex (\<lambda>(_, d'). d' = d) ds) (br_agents R)) (br_images R)\<rparr>"

subsection \<open>Building an image\<close>

definition nul :: bytes where "nul = [CHR 0x00]"

definition image_digest ::
  "'i berm_env \<Rightarrow> bytes \<Rightarrow> harness_config \<Rightarrow> path option \<Rightarrow> bytes option \<Rightarrow> scope \<Rightarrow> bytes" where
  "image_digest E elf decl rt session sc =
     be_hash E (elf @ nul @ (case rt of Some p \<Rightarrow> show_path p | None \<Rightarrow> []) @ nul @
       (case session of Some s \<Rightarrow> s | None \<Rightarrow> []) @ nul @
       concat (map (\<lambda>h. h @ nul) (hc_hosts decl)) @ nul @ be_show E (sc_agent sc) @ nul @
       concat (map (\<lambda>s. s @ nul) (sc_skills sc)))"

definition doors ::
  "harness_config \<Rightarrow> path option \<Rightarrow> bytes option \<Rightarrow> scope \<Rightarrow> door list" where
  "doors decl rt session sc =
     (case rt of None \<Rightarrow> [] | Some p \<Rightarrow> [DoorRead p, DoorWrite p, DoorGlob p, DoorGrep p, DoorExec p]) @
     (if hc_hosts decl = [] then [] else [DoorHttp (hc_hosts decl)]) @
     [DoorPeers sc, DoorSessions sc, DoorSkillList sc, DoorSkillGet sc] @
     [DoorCall (sc_agent sc) session]"

definition berm_image ::
  "'i berm_env \<Rightarrow> (bytes \<times> 'i) list \<Rightarrow> agent_id \<Rightarrow> harness_config \<Rightarrow> bytes list \<Rightarrow> bytes option \<Rightarrow>
   bytes + bytes \<times> (bytes \<times> 'i) list" where
  "berm_image E images a decl skills session =
     (case be_file E (hc_name decl @ ''.elf'') of
        None \<Rightarrow> Inl (hc_name decl @ ''.elf: `make harness` installs images here'')
      | Some elf \<Rightarrow>
          let sc = \<lparr>sc_skills = skills, sc_agent = a\<rparr> in
          bindr (bind_root (be_fs E) (be_cwd E) (be_home E) (hc_root decl) session)
            (\<lambda>rt.
               let d = image_digest E elf decl rt session sc in
               if map_of images d \<noteq> None then Inr (d, images)
               else bindr (be_load E elf (doors decl rt session sc))
                 (\<lambda>i. Inr (d, bt_insert d i images))))"

text \<open>A declaration that cannot be loaded is left out, the others stand.\<close>

fun berm_images ::
  "'i berm_env \<Rightarrow> (bytes \<times> 'i) list \<Rightarrow> agent_id \<Rightarrow> harness_config list \<Rightarrow> bytes list \<Rightarrow> bytes option \<Rightarrow>
   (bytes \<times> bytes) list \<times> (bytes \<times> 'i) list" where
  "berm_images E images a [] skills session = ([], images)"
| "berm_images E images a (decl # decls) skills session =
     (case berm_image E images a decl skills session of
        Inl e \<Rightarrow> berm_images E images a decls skills session
      | Inr (d, images') \<Rightarrow>
          let (ds, images'') = berm_images E images' a decls skills session
          in ((hc_name decl, d) # ds, images''))"

definition berm_resolve ::
  "'i berm_env \<Rightarrow> 'i berm_registry \<Rightarrow> agent_id \<Rightarrow> bytes option \<Rightarrow> 'i berm_registry" where
  "berm_resolve E R a rt =
     (if map_of (br_agents R) (a, root_key rt) \<noteq> None then R
      else case map_of (br_declared R) a of
             None \<Rightarrow> R
           | Some dc \<Rightarrow>
               let (ds, images) = berm_images E (br_images R) a (dc_harnesses dc) (dc_skills dc) rt
               in R\<lparr>br_images := images, br_agents := bt_insert (a, root_key rt) ds (br_agents R)\<rparr>)"

definition berm_load :: "'i berm_env \<Rightarrow> 'i berm_registry \<Rightarrow> agent_id \<Rightarrow> agent_config \<Rightarrow> 'i berm_registry" where
  "berm_load E R a c =
     (let R1 = berm_clear a R;
          R2 = R1\<lparr>br_declared := bt_insert a \<lparr>dc_harnesses = ag_harnesses c, dc_skills = ag_skills c\<rparr> (br_declared R1)\<rparr>
      in berm_sweep (berm_resolve E R2 a None))"

definition berm_forget :: "'i berm_registry \<Rightarrow> agent_id \<Rightarrow> 'i berm_registry" where
  "berm_forget R a = berm_sweep (berm_clear a (R\<lparr>br_declared := bt_remove a (br_declared R)\<rparr>))"

subsection \<open>What the runtime sees\<close>

definition has_tool :: "'i berm_env \<Rightarrow> bytes \<Rightarrow> 'i \<Rightarrow> bool" where
  "has_tool E tool i \<longleftrightarrow> list_ex (\<lambda>t. tool_name t = tool) (mf_tools (be_manifest E i))"

definition berm_owner ::
  "'i berm_env \<Rightarrow> 'i berm_registry \<Rightarrow> agent_id \<Rightarrow> bytes option \<Rightarrow> bytes \<Rightarrow> 'i option \<times> 'i berm_registry" where
  "berm_owner E R a rt tool =
     (case find (has_tool E tool) (images_of R a rt) of
        Some i \<Rightarrow> (Some i, R)
      | None \<Rightarrow>
          let R' = berm_resolve E R a rt in (find (has_tool E tool) (images_of R' a rt), R'))"

definition berm_names :: "'i berm_env \<Rightarrow> 'i berm_registry \<Rightarrow> agent_id \<Rightarrow> bytes list" where
  "berm_names E R a = concat (map (\<lambda>i. map tool_name (mf_tools (be_manifest E i))) (images_of R a None))"

definition berm_schema :: "'i berm_env \<Rightarrow> 'i berm_registry \<Rightarrow> tool list" where
  "berm_schema E R = concat (map (\<lambda>(_, i). mf_tools (be_manifest E i)) (br_images R))"

definition berm_build :: "'i berm_env \<Rightarrow> agent_config \<Rightarrow> agent_config" where
  "berm_build E c =
     foldl (\<lambda>c decl.
       let usage = (case Option.bind (be_file E (hc_name decl @ ''.elf'')) (be_manifest_of E) of
                      Some mf \<Rightarrow> mf_usage mf | None \<Rightarrow> [])
       in if usage = [] then c
          else c\<lparr>ag_description := ag_description c @ [CHR 0x0A, CHR 0x0A] @ be_trim_end E usage\<rparr>)
     c (ag_harnesses c)"

text \<open>None: no image of this agent has the tool. The outer error is the host's, the inner the harness's.\<close>

definition berm_dispatch ::
  "'i berm_env \<Rightarrow> 'i berm_registry \<Rightarrow> bytes \<Rightarrow> tool_dispatch \<Rightarrow> (bytes + bytes) option \<times> 'i berm_registry" where
  "berm_dispatch E R name call =
     (case berm_owner E R (td_agent call) (td_root call) name of
        (None, R') \<Rightarrow> (None, R')
      | (Some i, R') \<Rightarrow> (Some (bindr (be_call E i name (td_args call)) id), R'))"

subsection \<open>The protocol doors (protocol.rs)\<close>

text \<open>An empty list of skills is unrestricted.\<close>

definition may_use :: "scope \<Rightarrow> bytes \<Rightarrow> bool" where
  "may_use sc name \<longleftrightarrow> sc_skills sc = [] \<or> name \<in> set (sc_skills sc)"

subsection \<open>Images and resolutions\<close>

definition referenced :: "'i berm_registry \<Rightarrow> bytes set" where
  "referenced R = {d. \<exists>k ds n. map_of (br_agents R) k = Some ds \<and> (n, d) \<in> set ds}"

definition berm_ok :: "'i berm_registry \<Rightarrow> bool" where
  "berm_ok R \<longleftrightarrow> bt_ok (br_images R) \<and> bt_ok (br_agents R) \<and> fst ` set (br_images R) = referenced R \<and>
     (\<forall>a rt ds. map_of (br_agents R) (a, rt) = Some ds \<longrightarrow>
        (\<exists>dc. map_of (br_declared R) a = Some dc \<and> subseq (map fst ds) (map hc_name (dc_harnesses dc))))"

lemma berm_okD:
  assumes "berm_ok R" and "map_of (br_agents R) (a, rt) = Some ds"
  shows "\<exists>dc. map_of (br_declared R) a = Some dc \<and> subseq (map fst ds) (map hc_name (dc_harnesses dc))"
  using assms unfolding berm_ok_def by blast

lemma subseq_set: "subseq xs ys \<Longrightarrow> set xs \<subseteq> set ys"
  by (induction rule: list_emb.induct) auto

lemma berm_image_entry:
  assumes "berm_image E images a decl skills session = Inr (d, images')"
  shows "(\<exists>i. images' = bt_insert d i images) \<or> images' = images \<and> map_of images d \<noteq> None"
  using assms unfolding berm_image_def
  by (auto simp: Let_def bindr_Inr map_of_eq_None_iff split: option.splits if_split_asm)

lemma berm_images_shape:
  assumes "bt_ok images" and "berm_images E images a decls skills session = (ds, images')"
  shows "bt_ok images' \<and> fst ` set images' = fst ` set images \<union> snd ` set ds \<and>
    subseq (map fst ds) (map hc_name decls)"
  using assms
proof (induction decls arbitrary: images ds)
  case Nil
  then show ?case by simp
next
  case (Cons decl decls)
  show ?case
  proof (cases "berm_image E images a decl skills session")
    case (Inl e)
    then show ?thesis using Cons by auto
  next
    case (Inr x)
    obtain d images1 where x: "x = (d, images1)" by (cases x) blast
    obtain ds1 where rest: "berm_images E images1 a decls skills session = (ds1, images')"
      and ds: "ds = (hc_name decl, d) # ds1"
      using Cons.prems(2) Inr x by (auto simp: Let_def split: prod.splits)
    have e: "(\<exists>i. images1 = bt_insert d i images) \<or> images1 = images \<and> map_of images d \<noteq> None"
      using berm_image_entry Inr x by blast
    then have "bt_ok images1" using Cons.prems(1) by auto
    moreover have "fst ` set images1 = insert d (fst ` set images)"
      using e
    proof (elim disjE exE conjE)
      fix i assume "images1 = bt_insert d i images"
      then show ?thesis by (simp add: keys_bt_insert)
    next
      assume "images1 = images" "map_of images d \<noteq> None"
      then show ?thesis by (simp add: map_of_eq_None_iff insert_absorb)
    qed
    ultimately show ?thesis using Cons.IH [OF _ rest] ds by auto
  qed
qed

lemma berm_resolve_cases:
  assumes "bt_ok (br_images R)"
  shows "berm_resolve E R a rt = R \<or>
    (\<exists>dc ds images. map_of (br_agents R) (a, root_key rt) = None \<and> map_of (br_declared R) a = Some dc \<and>
      berm_resolve E R a rt = R\<lparr>br_images := images, br_agents := bt_insert (a, root_key rt) ds (br_agents R)\<rparr> \<and>
      bt_ok images \<and> fst ` set images = fst ` set (br_images R) \<union> snd ` set ds \<and>
      subseq (map fst ds) (map hc_name (dc_harnesses dc)))"
proof (cases "map_of (br_agents R) (a, root_key rt) = None \<and> map_of (br_declared R) a \<noteq> None")
  case True
  then obtain dc where dc: "map_of (br_declared R) a = Some dc" by auto
  obtain ds images where i: "berm_images E (br_images R) a (dc_harnesses dc) (dc_skills dc) rt = (ds, images)"
    by (cases "berm_images E (br_images R) a (dc_harnesses dc) (dc_skills dc) rt") blast
  show ?thesis
    using berm_images_shape [OF assms i] True dc i by (auto simp: berm_resolve_def Let_def)
qed (auto simp: berm_resolve_def split: option.split)

text \<open>The invariant with images nothing points to allowed: what a load has before its sweep.\<close>

definition berm_loose :: "'i berm_registry \<Rightarrow> bool" where
  "berm_loose R \<longleftrightarrow> bt_ok (br_images R) \<and> bt_ok (br_agents R) \<and> referenced R \<subseteq> fst ` set (br_images R) \<and>
     (\<forall>a rt ds. map_of (br_agents R) (a, rt) = Some ds \<longrightarrow>
        (\<exists>dc. map_of (br_declared R) a = Some dc \<and> subseq (map fst ds) (map hc_name (dc_harnesses dc))))"

lemma berm_ok_loose: "berm_ok R \<longleftrightarrow> berm_loose R \<and> fst ` set (br_images R) \<subseteq> referenced R"
  by (auto simp: berm_ok_def berm_loose_def)

lemma ex_value_upd:
  assumes "m k = None"
  shows "(\<exists>k' v. (m(k \<mapsto> w)) k' = Some v \<and> P v) \<longleftrightarrow> P w \<or> (\<exists>k' v. m k' = Some v \<and> P v)"
  using assms by (auto simp: fun_upd_def split: if_splits) (metis option.distinct(1))

lemma referenced_insert:
  assumes "map_of (br_agents R) k = None"
  shows "referenced (R\<lparr>br_images := images, br_agents := bt_insert k ds (br_agents R)\<rparr>) = referenced R \<union> snd ` set ds"
proof (rule set_eqI)
  fix d
  have r: "d \<in> referenced R' \<longleftrightarrow> (\<exists>k' v. map_of (br_agents R') k' = Some v \<and> d \<in> snd ` set v)" for R' :: "'a berm_registry"
    by (force simp: referenced_def)
  show "d \<in> referenced (R\<lparr>br_images := images, br_agents := bt_insert k ds (br_agents R)\<rparr>) \<longleftrightarrow>
      d \<in> referenced R \<union> snd ` set ds"
    using ex_value_upd [of "map_of (br_agents R)" k ds "\<lambda>v. d \<in> snd ` set v"] assms
    unfolding r by (simp add: r disj_commute del: fun_upd_apply)
qed

lemma berm_loose_resolve:
  assumes ok: "berm_loose R"
  shows "berm_loose (berm_resolve E R a rt)"
    and "fst ` set (br_images R) \<subseteq> referenced R \<Longrightarrow>
      fst ` set (br_images (berm_resolve E R a rt)) \<subseteq> referenced (berm_resolve E R a rt)"
proof -
  have "bt_ok (br_images R)" using ok by (simp add: berm_loose_def)
  from berm_resolve_cases [OF this, of E a rt]
  have "berm_loose (berm_resolve E R a rt) \<and>
    (fst ` set (br_images R) \<subseteq> referenced R \<longrightarrow>
      fst ` set (br_images (berm_resolve E R a rt)) \<subseteq> referenced (berm_resolve E R a rt))"
  proof (elim disjE exE conjE)
    fix dc ds images
    let ?R = "R\<lparr>br_images := images, br_agents := bt_insert (a, root_key rt) ds (br_agents R)\<rparr>"
    assume new: "map_of (br_agents R) (a, root_key rt) = None" and dc: "map_of (br_declared R) a = Some dc"
      and r: "berm_resolve E R a rt = ?R" and im: "bt_ok images"
      "fst ` set images = fst ` set (br_images R) \<union> snd ` set ds" and sub: "subseq (map fst ds) (map hc_name (dc_harnesses dc))"
    have ref: "referenced ?R = referenced R \<union> snd ` set ds" by (rule referenced_insert [OF new])
    have "referenced ?R \<subseteq> fst ` set (br_images ?R)" using ok im(2) by (auto simp: ref berm_loose_def)
    moreover have "\<exists>dc. map_of (br_declared ?R) b = Some dc \<and> subseq (map fst ds') (map hc_name (dc_harnesses dc))"
      if "map_of (br_agents ?R) (b, rt') = Some ds'" for b rt' ds'
      using that ok dc sub by (auto simp: berm_loose_def split: if_splits)
    ultimately have "berm_loose ?R" using ok im(1) by (simp add: berm_loose_def)
    moreover have "fst ` set (br_images R) \<subseteq> referenced R \<longrightarrow> fst ` set (br_images ?R) \<subseteq> referenced ?R"
      using im(2) by (auto simp: ref)
    ultimately show ?thesis unfolding r by blast
  qed (use ok in simp)
  then show "berm_loose (berm_resolve E R a rt)"
    and "fst ` set (br_images R) \<subseteq> referenced R \<Longrightarrow>
      fst ` set (br_images (berm_resolve E R a rt)) \<subseteq> referenced (berm_resolve E R a rt)"
    by blast+
qed

lemma berm_ok_sweep:
  assumes ok: "berm_loose R"
  shows "berm_ok (berm_sweep R)"
proof -
  have bt: "bt_ok (br_agents R)" using ok by (simp add: berm_loose_def)
  have "list_ex (\<lambda>(_, ds). list_ex (\<lambda>(_, d'). d' = d) ds) (br_agents R) \<longleftrightarrow> d \<in> referenced R" for d
    using bt_get_in [OF bt] by (fastforce simp: referenced_def list_ex_iff)
  then have im: "br_images (berm_sweep R) = filter (\<lambda>(d, _). d \<in> referenced R) (br_images R)" by (simp add: berm_sweep_def)
  have rest: "br_agents (berm_sweep R) = br_agents R" "br_declared (berm_sweep R) = br_declared R" "referenced (berm_sweep R) = referenced R"
    by (simp_all add: berm_sweep_def referenced_def)
  have "fst ` set (br_images (berm_sweep R)) = referenced R"
    using ok by (force simp: im berm_loose_def)
  then show ?thesis using ok by (simp add: berm_ok_def berm_loose_def rest) (simp add: im bt_ok_filter)
qed

lemma map_of_berm_clear:
  "map_of (br_agents (berm_clear a R)) (b, rt) = (if b = a then None else map_of (br_agents R) (b, rt))"
proof -
  have "map_of (filter (\<lambda>((b, _), _). b \<noteq> a) M) (b, rt) = (if b = a then None else map_of M (b, rt))"
    for M :: "(resolution \<times> (bytes \<times> bytes) list) list"
    by (induction M) auto
  then show ?thesis by (simp add: berm_clear_def)
qed

lemma berm_loose_clear:
  assumes ok: "berm_ok R" and D: "\<And>b. b \<noteq> a \<Longrightarrow> map_of D b = map_of (br_declared R) b"
  shows "berm_loose (berm_clear a (R\<lparr>br_declared := D\<rparr>))"
proof -
  let ?R = "berm_clear a (R\<lparr>br_declared := D\<rparr>)"
  have ag: "map_of (br_agents ?R) (b, rt) = (if b = a then None else map_of (br_agents R) (b, rt))" for b rt
    using map_of_berm_clear [of a "R\<lparr>br_declared := D\<rparr>"] by simp
  have "referenced ?R \<subseteq> referenced R" by (auto simp: referenced_def ag split: if_splits)
  moreover have "bt_ok (br_agents ?R)" using ok by (simp add: berm_clear_def bt_ok_filter berm_ok_def)
  moreover have "br_images ?R = br_images R" "br_declared ?R = D" by (simp_all add: berm_clear_def)
  ultimately show ?thesis using ok D by (auto simp: berm_loose_def berm_ok_def ag split: if_splits)
qed

lemma berm_ok_load:
  assumes "berm_ok R"
  shows "berm_ok (berm_load E R a c)"
proof -
  let ?D = "bt_insert a \<lparr>dc_harnesses = ag_harnesses c, dc_skills = ag_skills c\<rparr> (br_declared R)"
  have "berm_loose (berm_clear a (R\<lparr>br_declared := ?D\<rparr>))" by (rule berm_loose_clear [OF assms]) simp
  moreover have "(berm_clear a R)\<lparr>br_declared := bt_insert a \<lparr>dc_harnesses = ag_harnesses c, dc_skills = ag_skills c\<rparr>
      (br_declared (berm_clear a R))\<rparr> = berm_clear a (R\<lparr>br_declared := ?D\<rparr>)"
    by (simp add: berm_clear_def)
  ultimately show ?thesis
    using berm_ok_sweep [OF berm_loose_resolve(1)] by (simp add: berm_load_def Let_def)
qed

lemma berm_ok_forget: "berm_ok R \<Longrightarrow> berm_ok (berm_forget R a)"
  unfolding berm_forget_def by (intro berm_ok_sweep berm_loose_clear) simp_all

lemma berm_ok_resolve: "berm_ok R \<Longrightarrow> berm_ok (berm_resolve E R a rt)"
  using berm_loose_resolve [of R E a rt] by (simp add: berm_ok_loose)

lemma berm_ok_owner: "berm_ok R \<Longrightarrow> berm_ok (snd (berm_owner E R a rt tool))"
  by (simp add: berm_owner_def Let_def berm_ok_resolve split: option.split)

inductive berm_reach :: "'i berm_env \<Rightarrow> 'i berm_registry \<Rightarrow> bool" for E where
  Start: "berm_reach E berm_new"
| Load: "berm_reach E R \<Longrightarrow> berm_reach E (berm_load E R a c)"
| Forget: "berm_reach E R \<Longrightarrow> berm_reach E (berm_forget R a)"
| Dispatch: "berm_reach E R \<Longrightarrow> berm_reach E (snd (berm_dispatch E R name call))"

lemma berm_ok_reach: "berm_reach E R \<Longrightarrow> berm_ok R"
proof (induction rule: berm_reach.induct)
  case Start
  show ?case by (simp add: berm_ok_def berm_new_def referenced_def)
next
  case (Dispatch R name call)
  have "snd (berm_dispatch E R name call) = snd (berm_owner E R (td_agent call) (td_root call) name)"
    by (simp add: berm_dispatch_def split: prod.split option.split)
  then show ?case using berm_ok_owner [OF Dispatch.IH] by simp
qed (simp_all add: berm_ok_load berm_ok_forget)

lemma named_in_declared:
  assumes ok: "berm_ok R" and i: "i \<in> set (images_of R a rt)"
  shows "\<exists>dc n d. map_of (br_declared R) a = Some dc \<and> n \<in> hc_name ` set (dc_harnesses dc) \<and>
    (n, d) \<in> set (berm_resolved R a rt) \<and> map_of (br_images R) d = Some i"
proof -
  obtain n d where nd: "(n, d) \<in> set (berm_resolved R a rt)" "map_of (br_images R) d = Some i"
    using i by (force simp: images_of_def List.map_filter_def)
  then obtain ds where ds: "map_of (br_agents R) (a, root_key rt) = Some ds" "(n, d) \<in> set ds"
    by (cases "map_of (br_agents R) (a, root_key rt)") (auto simp: berm_resolved_def)
  then obtain dc where dc: "map_of (br_declared R) a = Some dc" "subseq (map fst ds) (map hc_name (dc_harnesses dc))"
    using berm_okD [OF ok] by blast
  then have "n \<in> hc_name ` set (dc_harnesses dc)"
    using subseq_set [OF dc(2)] ds(2) by force
  then show ?thesis using dc(1) nd by blast
qed

text \<open>
  C19: Whatever loads, calls and deletions happened, an image is kept exactly while some agent's
  resolution points to it, and what an agent resolved to under any root is a part of what it
  declares now, in that order: dropping a declaration drops its tools.
\<close>

theorem images_follow_declarations:
  assumes "berm_reach E R"
  shows "(map_of (br_images R) d \<noteq> None \<longleftrightarrow>
      (\<exists>a rt ds n. map_of (br_agents R) (a, rt) = Some ds \<and> (n, d) \<in> set ds)) \<and>
    (map_of (br_agents R) (a, rt) = Some ds \<longrightarrow>
      (\<exists>dc. map_of (br_declared R) a = Some dc \<and> subseq (map fst ds) (map hc_name (dc_harnesses dc))))"
proof -
  have ok: "berm_ok R" by (rule berm_ok_reach [OF assms])
  have "map_of (br_images R) d \<noteq> None \<longleftrightarrow> d \<in> referenced R"
    using ok by (auto simp: berm_ok_def map_of_eq_None_iff)
  then show ?thesis using ok by (auto simp: referenced_def berm_ok_def)
qed

text \<open>
  A call reaches only an image the calling agent declares now, resolved under the session's
  own root, and one that exports the tool; an agent without declarations reaches none.
\<close>

theorem berm_call_stays_declared:
  assumes reach: "berm_reach E R" and o: "berm_owner E R a rt tool = (Some i, R')"
  shows "has_tool E tool i \<and>
    (\<exists>dc n d. map_of (br_declared R) a = Some dc \<and> n \<in> hc_name ` set (dc_harnesses dc) \<and>
      (n, d) \<in> set (berm_resolved R' a rt) \<and> map_of (br_images R') d = Some i)"
proof -
  have ok: "berm_ok R" by (rule berm_ok_reach [OF reach])
  then have ok': "berm_ok R'" using berm_ok_owner [of R E a rt tool] o by simp
  have f: "find (has_tool E tool) (images_of R' a rt) = Some i" and D: "br_declared R' = br_declared R"
    using o by (auto simp: berm_owner_def Let_def berm_resolve_def split: option.splits if_splits prod.splits)
  have "i \<in> set (images_of R' a rt)" "has_tool E tool i"
    using f by (auto simp: find_Some_iff)
  then show ?thesis using named_in_declared [OF ok'] D by metis
qed

text \<open>
  Resolving an agent for a run drops what its session roots had resolved to, with the images only
  those used: the next call under such a root compiles them again.
\<close>

lemma load_drops_session_resolutions: "map_of (br_agents (berm_load E R a c)) (a, Some r) = None"
proof -
  have "map_of (br_agents (berm_resolve E R' a None)) (a, Some r) = map_of (br_agents R') (a, Some r)" for R'
    by (simp add: berm_resolve_def root_key_def Let_def split: option.split prod.split)
  then show ?thesis by (simp add: berm_load_def berm_sweep_def Let_def map_of_berm_clear)
qed

text \<open>
  The file and command doors of an image are bounded by its declaration: without a declared
  root there are none; a fixed root is the bound itself; and where a session narrows, the bound is
  a path below the canonical declared one, so that no session widens its reach.
\<close>

theorem doors_bounded:
  assumes rt: "bind_root F cwd home (hc_root decl) session = Inr rt"
    and d: "x \<in> set (doors decl rt session sc)" "x \<in> {DoorRead p, DoorWrite p, DoorGlob p, DoorGrep p, DoorExec p}"
  shows "case hc_root decl of
      None \<Rightarrow> False
    | Some (RootFixed b) \<Rightarrow> p = parse_path b
    | Some (RootSession b) \<Rightarrow>
        (case session of None \<Rightarrow> p = parse_path b
         | Some s \<Rightarrow> starts_with p (real_root F cwd (parse_path b)))
    | Some RootHome \<Rightarrow>
        (case home of None \<Rightarrow> False
         | Some h \<Rightarrow> (case session of None \<Rightarrow> p = parse_path h
                     | Some s \<Rightarrow> starts_with p (real_root F cwd (parse_path h))))"
proof -
  have p: "rt = Some p" using d by (auto simp: doors_def split: option.splits if_splits)
  have res: "starts_with p (real_root F cwd r)" if "map_sum id Some (resolve F cwd r s) = Inr (Some p)" for r s
    using that by (cases "resolve F cwd r s") (auto simp: resolve_def Let_def split: if_splits)
  show ?thesis
    using rt by (auto simp: p bind_root_def bindr_Inr res split: option.splits root_bound.splits if_splits)
qed

subsection \<open>Witnesses\<close>

definition sample_berm :: "bytes berm_env" where
  "sample_berm =
     \<lparr>be_file = [''sh.elf'' \<mapsto> ''S''], be_manifest_of = (\<lambda>_. None), be_load = (\<lambda>elf _. Inr elf),
      be_manifest = (\<lambda>_. \<lparr>mf_tools = [\<lparr>tool_name = ''run'', tool_schema = JNull\<rparr>], mf_usage = []\<rparr>),
      be_call = (\<lambda>_ _ input. Inr (Inr input)), be_hash = id, be_fs = sample_fs, be_cwd = [], be_home = None,
      be_show = (\<lambda>_. ''7''), be_trim_end = id\<rparr>"

definition sample_shell :: harness_config where
  "sample_shell = \<lparr>hc_name = ''sh'', hc_root = Some (RootSession ''/r''), hc_hosts = []\<rparr>"

definition sample_registry :: "bytes berm_registry" where
  "sample_registry = berm_load sample_berm berm_new 7
     ((sample_config 7 ''crab'')\<lparr>ag_harnesses := [sample_shell\<lparr>hc_name := ''gone''\<rparr>, sample_shell]\<rparr>)"

lemma sample_registry_reach: "berm_reach sample_berm sample_registry"
  unfolding sample_registry_def by (intro berm_reach.intros)

lemma sample_registry_agents:
  "map_of (br_agents sample_registry) (7, None) = Some [(''sh'', snd (hd (berm_resolved sample_registry 7 None)))]"
  by code_simp

theorem images_follow_declarations_witness:
  "map_of (br_images sample_registry) (snd (hd (berm_resolved sample_registry 7 None))) \<noteq> None \<and>
   (\<exists>dc. map_of (br_declared sample_registry) 7 = Some dc \<and> subseq [''sh''] (map hc_name (dc_harnesses dc)))"
  using images_follow_declarations [OF sample_registry_reach, of "snd (hd (berm_resolved sample_registry 7 None))" 7 None
      "[(''sh'', snd (hd (berm_resolved sample_registry 7 None)))]"] sample_registry_agents
  by fastforce

theorem berm_call_stays_declared_witness:
  "has_tool sample_berm ''run'' ''S'' \<and>
   (\<exists>dc n d. map_of (br_declared sample_registry) 7 = Some dc \<and> n \<in> hc_name ` set (dc_harnesses dc) \<and>
     (n, d) \<in> set (berm_resolved (snd (berm_owner sample_berm sample_registry 7 (Some ''d'') ''run'')) 7 (Some ''d'')) \<and>
     map_of (br_images (snd (berm_owner sample_berm sample_registry 7 (Some ''d'') ''run''))) d = Some ''S'')"
proof -
  have "fst (berm_owner sample_berm sample_registry 7 (Some ''d'') ''run'') = Some ''S''" by code_simp
  then have "berm_owner sample_berm sample_registry 7 (Some ''d'') ''run'' =
      (Some ''S'', snd (berm_owner sample_berm sample_registry 7 (Some ''d'') ''run''))"
    by (metis prod.collapse)
  from berm_call_stays_declared [OF sample_registry_reach this] show ?thesis .
qed

theorem doors_bounded_witness:
  "starts_with (parse_path ''/r/d'') (real_root sample_fs [] (parse_path ''/r''))"
proof -
  have b: "bind_root sample_fs [] None (hc_root sample_shell) (Some ''d'') = Inr (Some (parse_path ''/r/d''))" by code_simp
  have d: "DoorRead (parse_path ''/r/d'') \<in> set (doors sample_shell (Some (parse_path ''/r/d'')) (Some ''d'') \<lparr>sc_skills = [], sc_agent = 7\<rparr>)"
    by (simp add: doors_def)
  have "hc_root sample_shell = Some (RootSession ''/r'')" by (simp add: sample_shell_def)
  then show ?thesis
    using doors_bounded [OF b d, of "parse_path ''/r/d''"] by simp
qed

end
