(* ===== verification/SkillFormat.thy ===== *)
theory SkillFormat
  imports Keyspace RustText
begin

section \<open>The SKILL.md format and discovery (lib/skill)\<close>

text \<open>
  The split of a skill file into frontmatter and body, the parse, and the search for skills on
  disk. A slice of a string panics off a character boundary, so the split has that outcome too.
  YAML is not part of the repository: \<open>parse_yaml\<close> is an argument. A directory is a tree whose
  nodes say what the source asks of a path.
  The lemmas say when the split finds the parts it was given, show two files with CRLF line
  endings on which it does not, and that the first root wins a name.
\<close>

subsection \<open>Strings\<close>

definition newline :: bytes where "newline = [CHR 0x0A]"
definition crlf :: bytes where "crlf = [CHR 0x0D, CHR 0x0A]"

definition is_newline :: "byte \<Rightarrow> bool" where
  "is_newline c \<longleftrightarrow> c = CHR 0x0A \<or> c = CHR 0x0D"

definition trim_newlines :: "bytes \<Rightarrow> bytes" where
  "trim_newlines s = dropWhile is_newline s"

definition trim_start :: "unicode \<Rightarrow> bytes \<Rightarrow> bytes" where
  "trim_start U s = concat (dropWhile (is_whitespace U) (chars s))"

definition trim_end :: "unicode \<Rightarrow> bytes \<Rightarrow> bytes" where
  "trim_end U s = concat (rev (dropWhile (is_whitespace U) (rev (chars s))))"

definition trim :: "unicode \<Rightarrow> bytes \<Rightarrow> bytes" where
  "trim U s = trim_end U (trim_start U s)"

definition strip_cr :: "bytes \<Rightarrow> bytes" where
  "strip_cr l = (if l \<noteq> [] \<and> last l = CHR 0x0D then butlast l else l)"

text \<open>\<open>str::lines\<close>: a line ends with a newline or a carriage return and newline, neither kept.\<close>

definition str_lines :: "bytes \<Rightarrow> bytes list" where
  "str_lines s =
     (let ps = split_char (CHR 0x0A) s
      in map strip_cr (butlast ps) @ (if last ps = [] then [] else [last ps]))"

text \<open>\<open>&s[..i]\<close> and \<open>&s[i..]\<close>: \<open>None\<close> is the panic.\<close>

definition slice_to :: "bytes \<Rightarrow> nat \<Rightarrow> bytes option" where
  "slice_to s i = (if is_char_boundary s i then Some (take i s) else None)"

definition slice_from :: "bytes \<Rightarrow> nat \<Rightarrow> bytes option" where
  "slice_from s i = (if is_char_boundary s i then Some (drop i s) else None)"

subsection \<open>Splitting\<close>

datatype split_result = Split bytes bytes | MissingOpen | MissingClose | SlicePanic

fun split_scan :: "unicode \<Rightarrow> bytes \<Rightarrow> nat \<Rightarrow> bytes list \<Rightarrow> split_result" where
  "split_scan U after_first pos [] = MissingClose"
| "split_scan U after_first pos (l # ls) =
     (if trim U l = ''---'' then
        (case slice_to after_first pos of
           None \<Rightarrow> SlicePanic
         | Some fm \<Rightarrow>
             (case slice_from after_first (pos + length l) of
                None \<Rightarrow> SlicePanic
              | Some body \<Rightarrow> Split (trim_end U fm) (trim_newlines body)))
      else split_scan U after_first (pos + length l + 1) ls)"

definition skill_split :: "unicode \<Rightarrow> bytes \<Rightarrow> split_result" where
  "skill_split U content =
     (let c = trim_start U content in
      if \<not> prefix ''---'' c then MissingOpen
      else let after_first = trim_newlines (drop 3 c)
           in split_scan U after_first 0 (str_lines after_first))"

subsection \<open>The parse\<close>

datatype string_or_vec = YString bytes | YVec "bytes list"

text \<open>Tool lists come as one string or as a sequence.\<close>

fun tool_list :: "unicode \<Rightarrow> string_or_vec \<Rightarrow> bytes list" where
  "tool_list U (YVec v) = v"
| "tool_list U (YString s) =
     filter (\<lambda>w. w \<noteq> []) (map (trim U) (split_when (\<lambda>c. c = CHR '','' \<or> c = CHR '' '') s))"

record frontmatter =
  fm_name :: bytes
  fm_description :: bytes
  fm_license :: "bytes option"
  fm_compatibility :: "bytes option"
  fm_metadata :: "(bytes \<times> bytes) list"
  fm_allowed_tools :: string_or_vec

record skill =
  sk_name :: bytes
  sk_description :: bytes
  sk_license :: "bytes option"
  sk_compatibility :: "bytes option"
  sk_metadata :: "(bytes \<times> bytes) list"
  sk_allowed_tools :: "bytes list"
  sk_body :: bytes

record skill_env =
  sk_unicode :: unicode
  parse_yaml :: "bytes \<Rightarrow> frontmatter option"

definition skill_from_str :: "skill_env \<Rightarrow> bytes \<Rightarrow> store_error + skill" where
  "skill_from_str V content =
     (case skill_split (sk_unicode V) content of
        MissingOpen \<Rightarrow> Inl (SkillError ''missing YAML frontmatter delimiter (---)'')
      | MissingClose \<Rightarrow> Inl (SkillError ''missing closing YAML frontmatter delimiter (---)'')
      | SlicePanic \<Rightarrow> Inl (SkillError ''panic'')
      | Split fm body \<Rightarrow>
          (case parse_yaml V fm of
             None \<Rightarrow> Inl (SkillError ''yaml'')
           | Some f \<Rightarrow>
               Inr \<lparr>sk_name = fm_name f, sk_description = fm_description f, sk_license = fm_license f,
                    sk_compatibility = fm_compatibility f, sk_metadata = fm_metadata f,
                    sk_allowed_tools = tool_list (sk_unicode V) (fm_allowed_tools f), sk_body = body\<rparr>))"

subsection \<open>Discovery\<close>

text \<open>
  A directory entry: its name if that is text, whether it is a directory, its SKILL.md (absent,
  or the result of reading it), and its own entries. A root that is missing or unreadable has
  no entries.
\<close>

datatype dir_entry =
  DirEntry (de_name: "bytes option") (de_is_dir: bool) (de_skill: "bytes option option")
    (de_children: "dir_entry list")

definition hidden :: "bytes \<Rightarrow> bool" where
  "hidden n \<longleftrightarrow> prefix ''.'' n"

fun list_entries ::
  "skill_env \<Rightarrow> dir_entry list \<Rightarrow> bytes list \<Rightarrow> skill list \<Rightarrow> bytes list \<times> skill list" where
  "list_entries V [] seen skills = (seen, skills)"
| "list_entries V (d # ds) seen skills =
     (case (de_is_dir d, de_name d) of
        (True, Some n) \<Rightarrow>
          (if hidden n \<or> n \<in> set seen then list_entries V ds seen skills
           else case de_skill d of
             Some (Some content) \<Rightarrow>
               (case skill_from_str V content of
                  Inr s \<Rightarrow> list_entries V ds (n # seen) (skills @ [s])
                | Inl _ \<Rightarrow> list_entries V ds seen skills)
           | _ \<Rightarrow> list_entries V ds seen skills)
      | _ \<Rightarrow> list_entries V ds seen skills)"

fun list_roots ::
  "skill_env \<Rightarrow> dir_entry list list \<Rightarrow> bytes list \<Rightarrow> skill list \<Rightarrow> bytes list \<times> skill list" where
  "list_roots V [] seen skills = (seen, skills)"
| "list_roots V (r # rs) seen skills =
     (case list_entries V r seen skills of (seen', skills') \<Rightarrow> list_roots V rs seen' skills')"

definition skill_list :: "skill_env \<Rightarrow> dir_entry list list \<Rightarrow> skill list" where
  "skill_list V roots = snd (list_roots V roots [] [])"

text \<open>\<open>load\<close>: \<open>find_md root name\<close> is the SKILL.md under a root, if any, as it reads.\<close>

fun skill_load ::
  "skill_env \<Rightarrow> ('r \<Rightarrow> bytes \<Rightarrow> bytes option option) \<Rightarrow> 'r list \<Rightarrow> bytes \<Rightarrow> store_error + skill option" where
  "skill_load V find_md [] name = Inr None"
| "skill_load V find_md (r # rs) name =
     (case find_md r name of
        None \<Rightarrow> skill_load V find_md rs name
      | Some None \<Rightarrow> Inl (SkillError ''read'')
      | Some (Some content) \<Rightarrow> map_sum id Some (skill_from_str V content))"

definition strip_name :: "unicode \<Rightarrow> bytes \<Rightarrow> bytes option" where
  "strip_name U l =
     (let t = trim U l in
      if prefix ''name:'' t then
        (let v = trim U (drop 5 t);
             v1 = trim_end_matches (CHR 0x22) (dropWhile (\<lambda>c. c = CHR 0x22) v);
             v2 = trim_end_matches (CHR 0x27) (dropWhile (\<lambda>c. c = CHR 0x27) v1)
         in if v2 = [] then None else Some v2)
      else None)"

fun first_name :: "unicode \<Rightarrow> bytes list \<Rightarrow> bytes option" where
  "first_name U [] = None"
| "first_name U (l # ls) = (case strip_name U l of Some n \<Rightarrow> Some n | None \<Rightarrow> first_name U ls)"

definition extract_name :: "unicode \<Rightarrow> bytes option \<Rightarrow> bytes option" where
  "extract_name U content =
     (case content of
        None \<Rightarrow> None
      | Some c \<Rightarrow> (case skill_split U c of Split fm _ \<Rightarrow> first_name U (str_lines fm) | _ \<Rightarrow> None))"

fun scan_names :: "unicode \<Rightarrow> dir_entry list \<Rightarrow> bytes list" where
  "scan_names U [] = []"
| "scan_names U (DirEntry n is_dir md cs # ds) =
     (if \<not> is_dir \<or> (case n of Some n \<Rightarrow> hidden n | None \<Rightarrow> False) then scan_names U ds
      else (case md of
              None \<Rightarrow> []
            | Some c \<Rightarrow> (case extract_name U c of None \<Rightarrow> [] | Some m \<Rightarrow> [m])) @
           scan_names U cs @ scan_names U ds)"

fun conflicts_in :: "bytes list \<Rightarrow> 'r \<Rightarrow> (bytes \<times> 'r) list \<Rightarrow> (bytes \<times> 'r \<times> 'r) list \<times> (bytes \<times> 'r) list" where
  "conflicts_in [] r seen = ([], seen)"
| "conflicts_in (n # ns) r seen =
     (case map_of seen n of
        Some first \<Rightarrow> (case conflicts_in ns r seen of (ws, s) \<Rightarrow> ((n, r, first) # ws, s))
      | None \<Rightarrow> conflicts_in ns r (bt_insert n r seen))"

fun check_conflicts ::
  "unicode \<Rightarrow> ('r \<times> dir_entry list) list \<Rightarrow> (bytes \<times> 'r) list \<Rightarrow> (bytes \<times> 'r \<times> 'r) list" where
  "check_conflicts U [] seen = []"
| "check_conflicts U ((r, ds) # roots) seen =
     (case conflicts_in (scan_names U ds) r seen of
        (ws, seen') \<Rightarrow> ws @ check_conflicts U roots seen')"

subsection \<open>The split finds its parts\<close>

lemma str_lines_Cons:
  assumes "CHR 0x0A \<notin> set l"
  shows "str_lines (l @ newline @ s) = strip_cr l # str_lines s"
proof -
  have "split_char (CHR 0x0A) (l @ newline @ s) = l # split_char (CHR 0x0A) s"
    using assms by (auto simp: split_char_def newline_def intro!: split_when_append)
  moreover have "split_char (CHR 0x0A) s \<noteq> []"
    by (simp add: split_char_def split_when_nonempty)
  ultimately show ?thesis by (simp add: str_lines_def Let_def)
qed

definition line_ok :: "unicode \<Rightarrow> bytes \<Rightarrow> bool" where
  "line_ok U l \<longleftrightarrow> l \<noteq> [] \<and> (\<forall>c \<in> set l. \<not> is_newline c) \<and> trim U l \<noteq> ''---''"

definition block :: "bytes list \<Rightarrow> bytes" where
  "block ls = concat (map (\<lambda>l. l @ newline) ls)"

lemma block_simps [simp]: "block [] = []" "block (l # ls) = l @ newline @ block ls"
  by (simp_all add: block_def)

lemma line_ok_facts: "line_ok U l \<Longrightarrow> CHR 0x0A \<notin> set l \<and> strip_cr l = l \<and> trim U l \<noteq> ''---''"
  by (auto simp: line_ok_def is_newline_def strip_cr_def dest: last_in_set)

lemma str_lines_block:
  "\<forall>l \<in> set ls. line_ok U l \<Longrightarrow> str_lines (block ls @ t) = ls @ str_lines t"
  by (induction ls) (auto simp: str_lines_Cons dest!: line_ok_facts)

lemma split_scan_block:
  "\<forall>l \<in> set ls. line_ok U l \<Longrightarrow>
   split_scan U s pos (ls @ rest) = split_scan U s (pos + length (block ls)) rest"
  by (induction ls arbitrary: pos) (auto simp: newline_def line_ok_def add.assoc)

lemma trim_start_ascii:
  assumes "is_ascii c" and "\<not> ascii_whitespace c" and "s = [] \<or> \<not> is_cont (hd s)"
  shows "trim_start U (c # s) = c # s"
proof -
  have "takeWhile is_cont s = []" "dropWhile is_cont s = s"
    using assms(3) by (cases s; simp)+
  then have "chars (c # s) = [c] # chars s" by simp
  moreover have "\<not> is_whitespace U [c]" using assms(1,2) by (simp add: is_whitespace_def)
  ultimately show ?thesis by (simp add: trim_start_def)
qed

lemma dash: "is_ascii (CHR ''-'')" "\<not> ascii_whitespace (CHR ''-'')" "\<not> is_cont (CHR ''-'')"
  "\<not> is_newline (CHR ''-'')"
  by (simp_all add: is_ascii_def ascii_whitespace_def is_cont_def is_newline_def byte_val_def)

lemma newline_not_cont: "\<not> is_cont (CHR 0x0A)" by (simp add: is_cont_def byte_val_def)

lemma chars_dashes: "chars ''---'' = [''-'', ''-'', ''-'']"
  by (simp add: dash)

lemma trim_dashes: "trim U ''---'' = ''---''"
  by (simp add: trim_def trim_start_ascii dash trim_end_def chars_dashes is_whitespace_def)

text \<open>
  On a file with plain newlines, whose frontmatter lines are neither empty nor a delimiter,
  the split returns exactly the frontmatter and the body, whatever the body holds.
\<close>

theorem skill_split_parts:
  assumes "\<forall>l \<in> set ls. line_ok U l"
  shows "skill_split U (''---'' @ newline @ block ls @ ''---'' @ newline @ body) =
    Split (trim_end U (block ls)) (trim_newlines body)"
proof -
  let ?t = "''---'' @ newline @ body" and ?s = "block ls @ ''---'' @ newline @ body"
  have start: "trim_start U (''---'' @ newline @ ?s) = ''---'' @ newline @ ?s"
    by (simp add: trim_start_ascii dash)
  have after: "trim_newlines (drop 3 (''---'' @ newline @ ?s)) = ?s"
  proof (cases ls)
    case Nil
    then show ?thesis by (simp add: trim_newlines_def newline_def is_newline_def)
  next
    case (Cons l ls')
    then obtain c l' where "l = c # l'" "\<not> is_newline c" using assms by (cases l) (auto simp: line_ok_def)
    then show ?thesis using Cons by (simp add: trim_newlines_def newline_def) (simp add: is_newline_def)
  qed
  have "str_lines ?s = ls @ ''---'' # str_lines body"
    using str_lines_block [OF assms] str_lines_Cons [of "''---''" body] by (simp add: strip_cr_def)
  then have "skill_split U (''---'' @ newline @ ?s) =
      split_scan U ?s (length (block ls)) (''---'' # str_lines body)"
    unfolding skill_split_def Let_def start after using split_scan_block [OF assms] by simp
  also have "\<dots> = Split (trim_end U (block ls)) (trim_newlines (newline @ body))"
  proof -
    have "is_char_boundary ?s (length (block ls))"
      by (simp add: is_char_boundary_def nth_append dash)
    moreover have "is_char_boundary ?s (length (block ls) + 3)"
      by (simp add: is_char_boundary_def nth_append newline_def newline_not_cont)
    ultimately show ?thesis by (simp add: trim_dashes slice_to_def slice_from_def numeral_3_eq_3)
  qed
  also have "trim_newlines (newline @ body) = trim_newlines body"
    by (simp add: trim_newlines_def newline_def is_newline_def)
  finally show ?thesis by simp
qed

theorem skill_split_parts_witness:
  "skill_split ascii_unicode (''---'' @ newline @ block [''name: x''] @ ''---'' @ newline @ ''do it'') =
     Split (trim_end ascii_unicode (block [''name: x''])) (trim_newlines ''do it'')"
proof -
  have "line_ok ascii_unicode ''name: x''" unfolding line_ok_def by code_simp
  then show ?thesis by (intro skill_split_parts) simp
qed

text \<open>
  With CRLF line endings the split counts one byte too few per line: the body starts
  inside the closing delimiter, and three lines of frontmatter of which the last ends in a
  character beyond ASCII make it panic.
\<close>

theorem skill_split_crlf:
  "skill_split ascii_unicode (''---'' @ crlf @ ''name: x'' @ crlf @ ''---'' @ crlf @ ''body'') =
     Split ''name: x'' (''-'' @ crlf @ ''body'') \<and>
   skill_split ascii_unicode (''---'' @ crlf @ ''a: 1'' @ crlf @ ''b: 2'' @ crlf @
     ''c: '' @ [CHR 0xC3, CHR 0xA9] @ crlf @ ''---'' @ crlf @ ''body'') = SlicePanic"
  by code_simp

subsection \<open>Which name counts\<close>

definition name_yaml :: "bytes \<Rightarrow> frontmatter option" where
  "name_yaml fm =
     (case first_name ascii_unicode (str_lines fm) of
        None \<Rightarrow> None
      | Some n \<Rightarrow> Some \<lparr>fm_name = n, fm_description = [], fm_license = None, fm_compatibility = None,
          fm_metadata = [], fm_allowed_tools = YVec []\<rparr>)"

definition named_md :: "bytes \<Rightarrow> bytes" where
  "named_md n = ''---'' @ newline @ ''name: '' @ n @ newline @ ''---'' @ newline"

definition skill_dir :: "bytes \<Rightarrow> bytes \<Rightarrow> dir_entry" where
  "skill_dir d n = DirEntry (Some d) True (Some (Some (named_md n))) []"

text \<open>
  The conflict check compares the names the files declare, the listing the names of their
  directories: two skills of one declared name in directories of different names are reported
  as one skipped and both listed, and two in directories of one name are listed once with
  nothing reported.
\<close>

theorem conflicts_disagree_with_list:
  "(let V = \<lparr>sk_unicode = ascii_unicode, parse_yaml = name_yaml\<rparr> in
    check_conflicts ascii_unicode [(1 :: nat, [skill_dir ''a'' ''x'']), (2, [skill_dir ''b'' ''x''])] [] =
      [(''x'', 2, 1)] \<and>
    map sk_name (skill_list V [[skill_dir ''a'' ''x''], [skill_dir ''b'' ''x'']]) = [''x'', ''x''] \<and>
    check_conflicts ascii_unicode [(1 :: nat, [skill_dir ''a'' ''x'']), (2, [skill_dir ''a'' ''y''])] [] = [] \<and>
    map sk_name (skill_list V [[skill_dir ''a'' ''x''], [skill_dir ''a'' ''y'']]) = [''x''])"
  by code_simp

end
