(* ===== verification/McpBridge.thy ===== *)
theory McpBridge
  imports AgentEvents SkillFormat
begin

section \<open>MCP peers and the bridge to them (lib/mcp/src/client, bridge.rs)\<close>

text \<open>
  The client speaks JSON-RPC to a peer: a request and the reply to it, over a child's pipes or
  over HTTP. A transport is an argument, a function from its state and a message to a reply and
  the next state (\<open>peer_ops\<close>); so are the JSON parser and the readings of two reply types.
  Of the transports themselves the reading loop of the pipe and the choice of the event in an
  SSE body are here. The bridge is the list of connected peers with the tools each exports.
  The lemmas show what a peer's listing is, when a call reaches a peer, and which peers are left
  after a removal.
\<close>

subsection \<open>JSON-RPC (jsonrpc.rs)\<close>

fun json_field :: "json \<Rightarrow> bytes \<Rightarrow> json option" where
  "json_field (JObject fs) k = map_of fs k"
| "json_field _ k = None"

fun json_str :: "json \<Rightarrow> bytes option" where
  "json_str (JString s) = Some s"
| "json_str _ = None"

definition rpc_request :: "bytes \<Rightarrow> bytes \<Rightarrow> json \<Rightarrow> json" where
  "rpc_request request_id method params =
     JObject [(''jsonrpc'', JString ''2.0''), (''id'', JNumber request_id), (''method'', JString method),
              (''params'', params)]"

definition rpc_notification :: "bytes \<Rightarrow> json" where
  "rpc_notification method = JObject [(''jsonrpc'', JString ''2.0''), (''method'', JString method)]"

text \<open>An integer keeps its text; what \<open>as_i64\<close> refuses counts as zero.\<close>

definition extract_result :: "(json \<Rightarrow> bytes option) \<Rightarrow> json \<Rightarrow> bytes + json" where
  "extract_result int_text response =
     (case json_field response ''error'' of
        Some err \<Rightarrow>
          (let msg = (case Option.bind (json_field err ''message'') json_str of Some s \<Rightarrow> s | None \<Rightarrow> ''unknown error'');
               code = (case Option.bind (json_field err ''code'') int_text of Some n \<Rightarrow> n | None \<Rightarrow> ''0'')
           in Inl (''JSON-RPC error '' @ code @ '': '' @ msg))
      | None \<Rightarrow>
          (case json_field response ''result'' of
             Some r \<Rightarrow> Inr r
           | None \<Rightarrow> Inl ''missing 'result' in JSON-RPC response''))"

subsection \<open>Transports (stdio.rs, sse.rs, http)\<close>

text \<open>
  What a child's pipe delivers, in order: a line, the end of the stream, a failed read, or the
  mark where the thirty seconds of a request ran out.
\<close>

datatype pipe_event = PLine bytes | PClosed | PFailed | PTimeUp

fun read_reply :: "unicode \<Rightarrow> (bytes \<Rightarrow> json option) \<Rightarrow> pipe_event list \<Rightarrow> (bytes + json) \<times> pipe_event list" where
  "read_reply U parse [] = (Inl ''MCP server response timed out'', [])"
| "read_reply U parse (PTimeUp # es) = (Inl ''MCP server response timed out'', es)"
| "read_reply U parse (PClosed # es) = (Inl ''MCP server closed stdout'', PClosed # es)"
| "read_reply U parse (PFailed # es) = (Inl ''read from MCP stdout'', es)"
| "read_reply U parse (PLine l # es) =
     (case parse (trim U l) of Some v \<Rightarrow> (Inr v, es) | None \<Rightarrow> read_reply U parse es)"

definition sse_data :: "unicode \<Rightarrow> bytes \<Rightarrow> bytes option" where
  "sse_data U line =
     (if prefix ''data:'' line
      then let d = trim U (drop 5 line) in if d = [] then None else Some d
      else None)"

definition sse_parse :: "unicode \<Rightarrow> (bytes \<Rightarrow> json option) \<Rightarrow> bytes \<Rightarrow> bytes + json" where
  "sse_parse U parse body =
     (case rev (List.map_filter (sse_data U) (str_lines body)) of
        [] \<Rightarrow> Inl ''no data in SSE response''
      | d # _ \<Rightarrow> (case parse d of Some v \<Rightarrow> Inr v | None \<Rightarrow> Inl ''invalid JSON in SSE data''))"

record http_reply =
  ht_status :: bytes
  ht_success :: bool
  ht_session :: "bytes option"
  ht_content_type :: bytes
  ht_body :: bytes

definition contains :: "bytes \<Rightarrow> bytes \<Rightarrow> bool" where
  "contains s sub \<longleftrightarrow> sublist sub s"

text \<open>
  What the HTTP transport makes of a reply, with the session id it keeps for the next request
  (\<open>hyper.rs\<close>, the default backend): only a successful reply may change it.
\<close>

definition http_result ::
  "unicode \<Rightarrow> (bytes \<Rightarrow> json option) \<Rightarrow> bytes option \<Rightarrow> bytes + http_reply \<Rightarrow> (bytes + json) \<times> bytes option" where
  "http_result U parse sid reply =
     (case reply of
        Inl e \<Rightarrow> (Inl e, sid)
      | Inr r \<Rightarrow>
          if \<not> valid_utf8 (ht_body r) then (Inl ''response body not UTF-8'', sid)
          else if \<not> ht_success r then (Inl (''HTTP '' @ ht_status r @ '': '' @ ht_body r), sid)
          else
            (if contains (ht_content_type r) ''text/event-stream'' then sse_parse U parse (ht_body r)
             else (case parse (ht_body r) of Some v \<Rightarrow> Inr v | None \<Rightarrow> Inl ''invalid JSON response''),
             case ht_session r of Some s \<Rightarrow> Some s | None \<Rightarrow> sid))"

subsection \<open>The three methods (client/mod.rs)\<close>

record mcp_tool =
  mt_name :: bytes
  mt_description :: "bytes option"
  mt_schema :: "json option"

record content_item =
  ci_type :: bytes
  ci_text :: "bytes option"

record call_tool_result =
  cr_content :: "content_item list"
  cr_is_error :: "bool option"

record 'p peer_ops =
  po_request :: "'p \<Rightarrow> bytes \<Rightarrow> json \<Rightarrow> (bytes + json) \<times> 'p"
  po_notify :: "'p \<Rightarrow> json \<Rightarrow> (bytes + unit) \<times> 'p"
  po_int :: "json \<Rightarrow> bytes option"
  po_init_params :: json
  po_list_result :: "json \<Rightarrow> (mcp_tool list \<times> bytes option) option"
  po_call_result :: "json \<Rightarrow> call_tool_result option"
  po_parse_args :: "bytes \<Rightarrow> bytes + json"

text \<open>A request and the result in its reply. The transport numbers it: \<open>NEXT_ID\<close> is its own.\<close>

definition peer_rpc :: "'p peer_ops \<Rightarrow> 'p \<Rightarrow> bytes \<Rightarrow> json \<Rightarrow> (bytes + json) \<times> 'p" where
  "peer_rpc Q p method params =
     (let (r, p') = po_request Q p method params in (bindr r (extract_result (po_int Q)), p'))"

definition initialize :: "'p peer_ops \<Rightarrow> 'p \<Rightarrow> (bytes + unit) \<times> 'p" where
  "initialize Q p =
     (let (r, p1) = peer_rpc Q p ''initialize'' (po_init_params Q) in
      case r of
        Inl e \<Rightarrow> (Inl e, p1)
      | Inr _ \<Rightarrow> po_notify Q p1 (rpc_notification ''notifications/initialized''))"

definition list_page ::
  "'p peer_ops \<Rightarrow> 'p \<Rightarrow> bytes option \<Rightarrow> (bytes + mcp_tool list \<times> bytes option) \<times> 'p" where
  "list_page Q p cursor =
     (let params = (case cursor of Some c \<Rightarrow> JObject [(''cursor'', JString c)] | None \<Rightarrow> JObject []);
          (r, p') = peer_rpc Q p ''tools/list'' params
      in (bindr r (\<lambda>v. case po_list_result Q v of
                         None \<Rightarrow> Inl ''failed to parse tools/list response''
                       | Some page \<Rightarrow> Inr page), p'))"

text \<open>
  The pages of the listing. A peer that always names a next page never lets the loop end: then
  there is no value.
\<close>

partial_function (option) list_loop ::
  "'p peer_ops \<Rightarrow> 'p \<Rightarrow> bytes option \<Rightarrow> mcp_tool list \<Rightarrow> ((bytes + mcp_tool list) \<times> 'p) option" where
  "list_loop Q p cursor acc =
     (case list_page Q p cursor of
        (Inl e, p') \<Rightarrow> Some (Inl e, p')
      | (Inr page, p') \<Rightarrow>
          (case snd page of
             Some c \<Rightarrow> if c = [] then Some (Inr (acc @ fst page), p')
                       else list_loop Q p' (Some c) (acc @ fst page)
           | None \<Rightarrow> Some (Inr (acc @ fst page), p')))"

declare list_loop.simps [code]

definition list_all_tools :: "'p peer_ops \<Rightarrow> 'p \<Rightarrow> ((bytes + mcp_tool list) \<times> 'p) option" where
  "list_all_tools Q p = list_loop Q p None []"

definition call_tool :: "'p peer_ops \<Rightarrow> 'p \<Rightarrow> bytes \<Rightarrow> json option \<Rightarrow> (bytes + call_tool_result) \<times> 'p" where
  "call_tool Q p name arguments =
     (let params = JObject ((''name'', JString name) #
            (case arguments of Some a \<Rightarrow> [(''arguments'', a)] | None \<Rightarrow> []));
          (r, p') = peer_rpc Q p ''tools/call'' params
      in (bindr r (\<lambda>v. case po_call_result Q v of
                         None \<Rightarrow> Inl ''failed to parse tools/call response''
                       | Some c \<Rightarrow> Inr c), p'))"

subsection \<open>The bridge (bridge.rs)\<close>

definition quoted :: "bytes \<Rightarrow> bytes" where
  "quoted s = [CHR 0x27] @ s @ [CHR 0x27]"

datatype call_error = Rejected bytes | Transport bytes

record function_def =
  fd_name :: bytes
  fd_description :: "bytes option"
  fd_parameters :: "json option"

record 'p connected_peer =
  cp_id :: bytes
  cp_peer :: 'p
  cp_tools :: "function_def list"

type_synonym 'p bridge = "'p connected_peer list"

definition convert_tool :: "mcp_tool \<Rightarrow> function_def" where
  "convert_tool t = \<lparr>fd_name = mt_name t, fd_description = mt_description t, fd_parameters = mt_schema t\<rparr>"

definition extract_text :: "content_item list \<Rightarrow> bytes" where
  "extract_text items =
     join_with [CHR 0x0A] (List.map_filter ci_text (filter (\<lambda>c. ci_type c = ''text'') items))"

text \<open>None: the listing does not end. A failure leaves the bridge alone; the peer is dropped.\<close>

definition register_peer ::
  "'p peer_ops \<Rightarrow> 'p bridge \<Rightarrow> bytes \<Rightarrow> 'p \<Rightarrow> ((bytes + bytes list) \<times> 'p bridge) option" where
  "register_peer Q B i p =
     (case initialize Q p of
        (Inl e, _) \<Rightarrow> Some (Inl e, B)
      | (Inr _, p1) \<Rightarrow>
          (case list_all_tools Q p1 of
             None \<Rightarrow> None
           | Some (Inl e, _) \<Rightarrow> Some (Inl e, B)
           | Some (Inr ts, p2) \<Rightarrow>
               (let tools = map convert_tool ts
                in Some (Inr (map fd_name tools), B @ [\<lparr>cp_id = i, cp_peer = p2, cp_tools = tools\<rparr>]))))"

definition remove_server :: "'p bridge \<Rightarrow> bytes \<Rightarrow> bytes list \<times> 'p bridge" where
  "remove_server B i =
     (concat (map (\<lambda>p. map fd_name (cp_tools p)) (filter (\<lambda>p. cp_id p = i) B)),
      filter (\<lambda>p. cp_id p \<noteq> i) B)"

definition tools_for :: "'p bridge \<Rightarrow> bytes list \<Rightarrow> function_def list" where
  "tools_for B ids =
     concat (map (\<lambda>i. case find (\<lambda>p. cp_id p = i) B of Some p \<Rightarrow> cp_tools p | None \<Rightarrow> []) ids)"

text \<open>The first peer of an id, changed in place.\<close>

fun update_first :: "('a \<Rightarrow> bool) \<Rightarrow> ('a \<Rightarrow> 'a) \<Rightarrow> 'a list \<Rightarrow> 'a list" where
  "update_first P f [] = []"
| "update_first P f (x # xs) = (if P x then f x # xs else x # update_first P f xs)"

definition bridge_call ::
  "'p peer_ops \<Rightarrow> 'p bridge \<Rightarrow> bytes \<Rightarrow> bytes \<Rightarrow> bytes \<Rightarrow> (call_error + bytes) \<times> 'p bridge" where
  "bridge_call Q B i name arguments =
     (case find (\<lambda>p. cp_id p = i) B of
        None \<Rightarrow> (Inl (Rejected (''mcp peer '' @ quoted i @ '' not connected'')), B)
      | Some p \<Rightarrow>
          if \<not> list_ex (\<lambda>t. fd_name t = name) (cp_tools p)
          then (Inl (Rejected (''mcp tool '' @ quoted name @ '' not exported by peer '' @ quoted i)), B)
          else
            (case (if arguments = [] then Inr None else map_sum id Some (po_parse_args Q arguments)) of
               Inl e \<Rightarrow> (Inl (Rejected (''invalid tool arguments: '' @ e)), B)
             | Inr args \<Rightarrow>
                 (let (r, p') = call_tool Q (cp_peer p) name args;
                      B' = update_first (\<lambda>p. cp_id p = i) (\<lambda>p. p\<lparr>cp_peer := p'\<rparr>) B
                  in (case r of
                        Inr result \<Rightarrow>
                          (let body = extract_text (cr_content result)
                           in if cr_is_error result = Some True
                              then Inl (Rejected (''mcp tool error: '' @ body)) else Inr body)
                      | Inl e \<Rightarrow> Inl (Transport (''mcp call failed: '' @ e)), B'))))"

subsection \<open>What a call and a removal do to the bridge\<close>

lemma find_none_update: "find P xs = None \<Longrightarrow> update_first P f xs = xs"
  by (induction xs) (auto split: if_splits)

lemma map_update_first: "(\<And>x. g (f x) = g x) \<Longrightarrow> map g (update_first P f xs) = map g xs"
  by (induction xs) auto

lemma bridge_call_keeps:
  "map (\<lambda>p. (cp_id p, cp_tools p)) (snd (bridge_call Q B i name arguments)) = map (\<lambda>p. (cp_id p, cp_tools p)) B"
  by (auto simp: bridge_call_def case_prod_unfold Let_def map_update_first split: option.splits sum.splits)

lemma set_remove_server: "set (snd (remove_server B i)) = {p \<in> set B. cp_id p \<noteq> i}"
  by (auto simp: remove_server_def)

lemma map_remove_server: "map f (snd (remove_server B i)) = map f (filter (\<lambda>p. cp_id p \<noteq> i) B)"
  by (simp add: remove_server_def)

lemma register_peer_shape:
  assumes "register_peer Q B i p = Some (r, B')"
  shows "case r of Inl e \<Rightarrow> B' = B
    | Inr names \<Rightarrow> \<exists>q. B' = B @ [q] \<and> cp_id q = i \<and> map fd_name (cp_tools q) = names"
  using assms by (auto simp: register_peer_def Let_def split: prod.splits sum.splits option.splits)

text \<open>
  A request that ran out of time leaves its reply in the pipe: the next request takes it for its
  own, since nothing compares the numbers of the two.
\<close>

lemma late_reply_taken:
  assumes "parse (trim U late) = Some v"
  shows "fst (read_reply U parse (PTimeUp # es)) = Inl ''MCP server response timed out''"
    and "read_reply U parse (snd (read_reply U parse (PTimeUp # PLine late # es))) = (Inr v, es)"
  using assms by simp_all

end
