(* ===== verification/TextIndex.thy ===== *)
theory TextIndex
  imports Keyspace RustText Complex_Main
begin

section \<open>Ranked full-text search over the keyspace (crates/store/src/text.rs)\<close>

text \<open>
  The tokenizer, the inverted index and the BM25 ranking. Scores are \<open>f64\<close> in the source and
  \<open>real\<close> here; document weights, which are literals of the program, are rationals. The hash
  maps of \<open>index_text\<close> and \<open>search_text\<close> are iterated in some unspecified order there: the
  postings are written in the order of first occurrence here (no put depends on another), and
  the scores are kept in a sorted map, as the source sorts them by score and key afterwards.
  The lemmas show what an indexed document leaves in the store, that dropping it takes all of
  it away again, what a search returns, and the bounds of the BM25 formula.
\<close>

subsection \<open>Tokens\<close>

definition stopwords :: "bytes list" where
  "stopwords =
     [''a'', ''an'', ''the'', ''is'', ''it'', ''in'', ''of'', ''to'', ''and'', ''or'', ''for'',
      ''on'', ''at'', ''by'', ''with'', ''as'', ''be'', ''was'', ''are'', ''been'', ''has'',
      ''had'', ''have'', ''do'', ''does'', ''did'', ''but'', ''not'', ''no'', ''if'', ''so'',
      ''from'', ''that'', ''this'', ''then'', ''than'', ''into'', ''its'', ''my'', ''me'', ''we'',
      ''he'', ''she'', ''they'', ''you'', ''your'', ''our'', ''his'', ''her'']"

definition is_stopword :: "bytes \<Rightarrow> bool" where
  "is_stopword w \<longleftrightarrow> w \<in> set stopwords"

definition tokenize :: "unicode \<Rightarrow> bytes \<Rightarrow> bytes list" where
  "tokenize U text =
     filter (\<lambda>w. \<not> is_stopword w)
       (map (\<lambda>w. str_lower U (concat w))
         (filter (\<lambda>w. length w > 1)
           (split_when (\<lambda>ch. \<not> is_alphanumeric U ch) (chars text))))"

definition normalize :: "unicode \<Rightarrow> bytes \<Rightarrow> bytes" where
  "normalize U word = concat (map (char_lower U) (filter (is_alphanumeric U) (chars word)))"

record qterm =
  term_text :: bytes
  term_prefix :: bool

definition query_term :: "unicode \<Rightarrow> bytes \<Rightarrow> qterm" where
  "query_term U raw =
     (let pre = suffix ''*'' raw;
          stripped = trim_end_matches (CHR ''*'') raw;
          text = (if pre then normalize U stripped
                  else (case tokenize U stripped of t # _ \<Rightarrow> t | [] \<Rightarrow> []))
      in \<lparr>term_text = text, term_prefix = pre\<rparr>)"

fun collect_terms :: "qterm list \<Rightarrow> qterm list \<Rightarrow> qterm list" where
  "collect_terms out [] = out"
| "collect_terms out (t # ts) =
     (if term_text t = [] then collect_terms out ts
      else if t \<in> set out then collect_terms out ts
      else collect_terms (out @ [t]) ts)"

definition query_terms :: "unicode \<Rightarrow> bytes \<Rightarrow> qterm list" where
  "query_terms U query = collect_terms [] (map (query_term U) (split_whitespace U query))"

subsection \<open>The keyspace of the index\<close>

datatype text_index = Messages | SessionMeta | MemoryEntries

fun index_str :: "text_index \<Rightarrow> bytes" where
  "index_str Messages = ''msg''"
| "index_str SessionMeta = ''meta''"
| "index_str MemoryEntries = ''mem''"

definition doc_prefix :: "text_index \<Rightarrow> bytes" where
  "doc_prefix ix = kv_prefix [''idx'', ''text'', index_str ix, ''doc'']"

definition doc_key :: "text_index \<Rightarrow> bytes \<Rightarrow> bytes" where
  "doc_key ix k = doc_prefix ix @ k"

definition posting_key :: "text_index \<Rightarrow> bytes \<Rightarrow> bytes \<Rightarrow> bytes" where
  "posting_key ix t k = kv_prefix [''idx'', ''text'', index_str ix, ''term'', t] @ k"

definition stats_key :: "text_index \<Rightarrow> bytes" where
  "stats_key ix = key [''idx'', ''text'', index_str ix, ''stats'']"

record doc =
  doc_len :: nat
  doc_weight :: rat
  doc_terms :: "bytes list"

definition doc_default :: doc where
  "doc_default = \<lparr>doc_len = 0, doc_weight = 0, doc_terms = []\<rparr>"

record stats =
  st_docs :: nat
  st_total_len :: nat

definition stats_default :: stats where
  "stats_default = \<lparr>st_docs = 0, st_total_len = 0\<rparr>"

record text_codecs =
  doc_codec :: "doc codec"
  stats_codec :: "stats codec"

definition load_stats :: "text_codecs \<Rightarrow> kv \<Rightarrow> text_index \<Rightarrow> store_error + stats" where
  "load_stats J m ix =
     bindr (get_json (stats_codec J) m Text (stats_key ix))
       (\<lambda>r. Inr (case r of None \<Rightarrow> stats_default | Some st \<Rightarrow> st))"

subsection \<open>Indexing\<close>

fun drop_postings :: "kv \<Rightarrow> text_index \<Rightarrow> bytes list \<Rightarrow> bytes \<Rightarrow> kv" where
  "drop_postings m ix [] k = m"
| "drop_postings m ix (t # ts) k = drop_postings (kv_remove m Text (posting_key ix t k)) ix ts k"

definition drop_text :: "text_codecs \<Rightarrow> kv \<Rightarrow> text_index \<Rightarrow> bytes \<Rightarrow> store_error + kv" where
  "drop_text J m ix k =
     bindr (get_json (doc_codec J) m Text (doc_key ix k))
       (\<lambda>r. case r of
          None \<Rightarrow> Inr m
        | Some d \<Rightarrow>
            (let m1 = drop_postings m ix (doc_terms d) k;
                 m2 = kv_remove m1 Text (doc_key ix k)
             in bindr (load_stats J m2 ix)
                  (\<lambda>st. Inr (put_json (stats_codec J) m2 Text (stats_key ix)
                     \<lparr>st_docs = st_docs st - 1, st_total_len = st_total_len st - doc_len d\<rparr>))))"

definition term_freqs :: "bytes list \<Rightarrow> (bytes \<times> nat) list" where
  "term_freqs terms = map (\<lambda>t. (t, count_list terms t)) (remdups terms)"

fun put_postings :: "kv \<Rightarrow> text_index \<Rightarrow> (bytes \<times> nat) list \<Rightarrow> bytes \<Rightarrow> kv" where
  "put_postings m ix [] k = m"
| "put_postings m ix ((t, tf) # tfs) k =
     put_postings (kv_put m Text (posting_key ix t k) (show_nat tf)) ix tfs k"

definition index_text ::
  "unicode \<Rightarrow> text_codecs \<Rightarrow> kv \<Rightarrow> text_index \<Rightarrow> bytes \<Rightarrow> bytes \<Rightarrow> rat \<Rightarrow> store_error + kv" where
  "index_text U J m ix k text weight =
     bindr (drop_text J m ix k)
       (\<lambda>m1. let terms = tokenize U text in
          if terms = [] then Inr m1
          else
            let tfs = term_freqs terms;
                m2 = put_postings m1 ix tfs k;
                n = length terms mod 2 ^ 32;
                m3 = put_json (doc_codec J) m2 Text (doc_key ix k)
                       \<lparr>doc_len = n, doc_weight = weight, doc_terms = sort (map fst tfs)\<rparr>
            in bindr (load_stats J m3 ix)
                 (\<lambda>st. Inr (put_json (stats_codec J) m3 Text (stats_key ix)
                    \<lparr>st_docs = st_docs st + 1, st_total_len = st_total_len st + n\<rparr>)))"

fun drop_docs :: "text_codecs \<Rightarrow> kv \<Rightarrow> text_index \<Rightarrow> bytes list \<Rightarrow> store_error + kv" where
  "drop_docs J m ix [] = Inr m"
| "drop_docs J m ix (dk # dks) =
     bindr (drop_text J m ix (drop (length (doc_prefix ix)) dk)) (\<lambda>m'. drop_docs J m' ix dks)"

definition drop_text_prefix :: "text_codecs \<Rightarrow> kv \<Rightarrow> text_index \<Rightarrow> bytes \<Rightarrow> store_error + kv" where
  "drop_text_prefix J m ix p = drop_docs J m ix (kv_scan_keys m Text (doc_key ix p))"

subsection \<open>Ranking\<close>

record bm25 =
  bm_k1 :: real
  bm_b :: real

definition bm25_default :: bm25 where
  "bm25_default = \<lparr>bm_k1 = 1.2, bm_b = 0.75\<rparr>"

definition idf :: "nat \<Rightarrow> nat \<Rightarrow> real" where
  "idf df docs = ln ((real docs - real df + 0.5) / (real df + 0.5) + 1)"

definition weigh :: "bm25 \<Rightarrow> nat \<Rightarrow> nat \<Rightarrow> real \<Rightarrow> real" where
  "weigh B tf dl avgdl =
     (real tf * (bm_k1 B + 1)) / (real tf + bm_k1 B * (1 - bm_b B + bm_b B * real dl / avgdl))"

definition find_term_boundary :: "bytes \<Rightarrow> bytes \<Rightarrow> bool \<Rightarrow> nat option" where
  "find_term_boundary k scope pre =
     (if \<not> pre then Some (length scope)
      else if length scope \<le> length k then
        (let rest = drop (length scope) k; pos = length (takeWhile (\<lambda>c. c \<noteq> CHR ''/'') rest)
         in if pos < length rest then Some (length scope + pos + 1) else None)
      else None)"

fun read_postings :: "bytes \<Rightarrow> bool \<Rightarrow> (bytes \<times> bytes) list \<Rightarrow> (bytes \<times> nat) list" where
  "read_postings scope pre [] = []"
| "read_postings scope pre ((k, tf) # rows) =
     (case find_term_boundary k scope pre of
        None \<Rightarrow> read_postings scope pre rows
      | Some start \<Rightarrow>
          (case parse_uint 32 (if valid_utf8 tf then tf else ''0'') of
             None \<Rightarrow> read_postings scope pre rows
           | Some n \<Rightarrow> (drop start k, n) # read_postings scope pre rows))"

definition postings :: "kv \<Rightarrow> text_index \<Rightarrow> qterm \<Rightarrow> (bytes \<times> nat) list" where
  "postings m ix t =
     (let scope = (if term_prefix t then key [''idx'', ''text'', index_str ix, ''term'', term_text t]
                   else kv_prefix [''idx'', ''text'', index_str ix, ''term'', term_text t])
      in read_postings scope (term_prefix t) (kv_scan m Text scope))"

type_synonym scores = "(bytes \<times> real) list"
type_synonym lens = "(bytes \<times> (nat \<times> rat)) list"

text \<open>One posting: the document is read once and remembered, and its score grows.\<close>

definition score_posting ::
  "text_codecs \<Rightarrow> kv \<Rightarrow> text_index \<Rightarrow> real \<Rightarrow> real \<Rightarrow> bytes \<times> nat \<Rightarrow> scores \<times> lens \<Rightarrow>
   store_error + scores \<times> lens" where
  "score_posting J m ix term_idf avgdl p acc =
     (let (scores, lens) = acc; (k, tf) = p in
      bindr (case map_of lens k of
               Some known \<Rightarrow> Inr (known, lens)
             | None \<Rightarrow>
                 bindr (get_json (doc_codec J) m Text (doc_key ix k))
                   (\<lambda>r. let d = (case r of None \<Rightarrow> doc_default | Some d \<Rightarrow> d);
                            known = (doc_len d, doc_weight d)
                        in Inr (known, bt_insert k known lens)))
        (\<lambda>(known, lens').
           let old = (case map_of scores k of None \<Rightarrow> 0 | Some s \<Rightarrow> s);
               add = term_idf * weigh bm25_default tf (fst known) avgdl * of_rat (snd known)
           in Inr (bt_insert k (old + add) scores, lens')))"

fun score_postings ::
  "text_codecs \<Rightarrow> kv \<Rightarrow> text_index \<Rightarrow> real \<Rightarrow> real \<Rightarrow> (bytes \<times> nat) list \<Rightarrow> scores \<times> lens \<Rightarrow>
   store_error + scores \<times> lens" where
  "score_postings J m ix term_idf avgdl [] acc = Inr acc"
| "score_postings J m ix term_idf avgdl (p # ps) acc =
     bindr (score_posting J m ix term_idf avgdl p acc) (score_postings J m ix term_idf avgdl ps)"

fun score_terms ::
  "text_codecs \<Rightarrow> kv \<Rightarrow> text_index \<Rightarrow> nat \<Rightarrow> real \<Rightarrow> qterm list \<Rightarrow> scores \<times> lens \<Rightarrow>
   store_error + scores \<times> lens" where
  "score_terms J m ix docs avgdl [] acc = Inr acc"
| "score_terms J m ix docs avgdl (t # ts) acc =
     (let ps = postings m ix t in
      if ps = [] then score_terms J m ix docs avgdl ts acc
      else bindr (score_postings J m ix (idf (length ps) docs) avgdl ps acc)
             (score_terms J m ix docs avgdl ts))"

record text_hit =
  hit_key :: bytes
  hit_score :: real

definition rank_hits :: "nat \<Rightarrow> scores \<Rightarrow> text_hit list" where
  "rank_hits limit scores =
     take limit
       (sort_key (\<lambda>h. (- hit_score h, hit_key h))
         (map (\<lambda>e. \<lparr>hit_key = fst e, hit_score = snd e\<rparr>) (filter (\<lambda>e. snd e > 0) scores)))"

definition search_text ::
  "unicode \<Rightarrow> text_codecs \<Rightarrow> kv \<Rightarrow> text_index \<Rightarrow> bytes \<Rightarrow> nat \<Rightarrow> store_error + text_hit list" where
  "search_text U J m ix query limit =
     (let terms = query_terms U query in
      if terms = [] \<or> limit = 0 then Inr []
      else bindr (load_stats J m ix)
        (\<lambda>st. if st_docs st = 0 then Inr []
              else
                let avgdl = real (st_total_len st) / real (st_docs st)
                in bindr (score_terms J m ix (st_docs st) avgdl terms ([], []))
                     (\<lambda>acc. Inr (rank_hits limit (fst acc)))))"

subsection \<open>Tokens\<close>

text \<open>
  The one thing the keyspace needs of Unicode lowercasing: it makes no separator out of a word
  that has none.
\<close>

definition unicode_ok :: "unicode \<Rightarrow> bool" where
  "unicode_ok U \<longleftrightarrow> (\<forall>s. slash_free s \<longrightarrow> slash_free (u_str_lower U s))"

lemma chars_cont: "ch \<in> set (chars s) \<Longrightarrow> \<forall>c \<in> set (tl ch). is_cont c"
  by (induction s rule: chars.induct) (auto dest: set_takeWhileD)

lemma slash_not_cont: "\<not> is_cont (CHR ''/'')" and slash_ascii: "is_ascii (CHR ''/'')"
  and slash_not_alnum: "\<not> ascii_alphanumeric (CHR ''/'')"
  by (simp_all add: is_cont_def is_ascii_def ascii_alphanumeric_def byte_val_def)

lemma alphanumeric_slash_free:
  assumes "ch \<in> set (chars s)" and "is_alphanumeric U ch"
  shows "slash_free ch"
proof (cases ch)
  case (Cons c cs)
  have "CHR ''/'' \<notin> set cs"
    using chars_cont [OF assms(1)] slash_not_cont Cons by auto
  moreover have "c \<noteq> CHR ''/''"
    using assms(2) slash_ascii slash_not_alnum Cons by (auto simp: is_alphanumeric_def)
  ultimately show ?thesis using Cons by (auto simp: slash_free_def)
qed (simp add: slash_free_def)

lemma ascii_lower_slash: "ascii_lower c = CHR ''/'' \<Longrightarrow> c = CHR ''/''"
proof (cases "65 \<le> byte_val c \<and> byte_val c \<le> 90")
  case True
  assume "ascii_lower c = CHR ''/''"
  then have "(of_char (char_of (byte_val c + 32) :: char) :: nat) = of_char (CHR ''/'')"
    using True by (simp add: ascii_lower_def)
  then show ?thesis using True by simp
qed (simp add: ascii_lower_def)

lemma str_lower_slash_free: "unicode_ok U \<Longrightarrow> slash_free s \<Longrightarrow> slash_free (str_lower U s)"
  using ascii_lower_slash by (fastforce simp: str_lower_def unicode_ok_def slash_free_def)

lemma tokenize_slash_free:
  assumes "unicode_ok U" and "t \<in> set (tokenize U text)"
  shows "slash_free t"
proof -
  from assms(2) obtain w where
    w: "w \<in> set (split_when (\<lambda>ch. \<not> is_alphanumeric U ch) (chars text))" and
    t: "t = str_lower U (concat w)"
    by (auto simp: tokenize_def)
  have "slash_free ch" if "ch \<in> set w" for ch
    using split_when_pieces [OF w that] alphanumeric_slash_free by auto
  then have "slash_free (concat w)" by (auto simp: slash_free_def)
  then show ?thesis using str_lower_slash_free assms(1) t by simp
qed

subsection \<open>Keys of the index\<close>

lemma index_keys_differ [simp]:
  "doc_key ix k \<noteq> posting_key ix' t k'" "posting_key ix' t k' \<noteq> doc_key ix k"
  "doc_key ix k \<noteq> stats_key ix'" "stats_key ix' \<noteq> doc_key ix k"
  "posting_key ix t k \<noteq> stats_key ix'" "stats_key ix' \<noteq> posting_key ix t k"
  by (cases ix; cases ix'; simp add: doc_key_def doc_prefix_def posting_key_def stats_key_def
      kv_prefix_def key_joined)+

lemma doc_key_inj [simp]: "doc_key ix k = doc_key ix k' \<longleftrightarrow> k = k'"
  by (simp add: doc_key_def)

lemma posting_key_inj:
  assumes "slash_free t" and "slash_free t'" and "posting_key ix t k = posting_key ix t' k'"
  shows "t = t' \<and> k = k'"
proof -
  have "t @ CHR ''/'' # k = t' @ CHR ''/'' # k'"
    using assms(3) by (simp add: posting_key_def kv_prefix_def key_joined)
  then show ?thesis using slash_split [OF assms(1,2)] by auto
qed

lemma kv_get_drop_postings:
  "kv_get (drop_postings m ix ts k) c k' =
     (if c = Text \<and> k' \<in> (\<lambda>t. posting_key ix t k) ` set ts then None else kv_get m c k')"
  by (induction m ix ts k rule: drop_postings.induct) auto

lemma kv_get_put_postings_other:
  "c \<noteq> Text \<or> k' \<notin> (\<lambda>t. posting_key ix t k) ` fst ` set tfs \<Longrightarrow>
   kv_get (put_postings m ix tfs k) c k' = kv_get m c k'"
  by (induction m ix tfs k rule: put_postings.induct) auto

lemma kv_get_put_postings:
  assumes "(t, n) \<in> set tfs" and "distinct (map fst tfs)" and "\<forall>t \<in> fst ` set tfs. slash_free t"
  shows "kv_get (put_postings m ix tfs k) Text (posting_key ix t k) = Some (show_nat n)"
  using assms
proof (induction m ix tfs k rule: put_postings.induct)
  case (2 m ix t' tf tfs k)
  show ?case
  proof (cases "(t, n) \<in> set tfs")
    case False
    then have eq: "t = t'" "n = tf" using 2(2) by auto
    have "posting_key ix t k \<notin> (\<lambda>t. posting_key ix t k) ` fst ` set tfs"
    proof
      assume "posting_key ix t k \<in> (\<lambda>t. posting_key ix t k) ` fst ` set tfs"
      then obtain t2 where t2: "t2 \<in> fst ` set tfs" "posting_key ix t k = posting_key ix t2 k"
        by blast
      then have "slash_free t" "slash_free t2" using 2(4) eq by auto
      then have "t = t2" using posting_key_inj t2(2) by blast
      then show False using t2(1) 2(3) eq by simp
    qed
    then show ?thesis
      using eq by (simp add: kv_get_put_postings_other)
  qed (use 2 in simp)
qed simp

lemma bt_ok_put_postings [simp]: "bt_ok m \<Longrightarrow> bt_ok (put_postings m ix tfs k)"
  by (induction m ix tfs k rule: put_postings.induct) simp_all

lemma bt_ok_drop_postings [simp]: "bt_ok m \<Longrightarrow> bt_ok (drop_postings m ix ts k)"
  by (induction m ix ts k rule: drop_postings.induct) simp_all

subsection \<open>What indexing and dropping do to the store\<close>

definition codecs_ok :: "text_codecs \<Rightarrow> bool" where
  "codecs_ok J \<longleftrightarrow> codec_ok id (doc_codec J) \<and> codec_ok id (stats_codec J)"

definition indexed_doc :: "unicode \<Rightarrow> bytes \<Rightarrow> rat \<Rightarrow> doc" where
  "indexed_doc U text w =
     \<lparr>doc_len = length (tokenize U text) mod 2 ^ 32, doc_weight = w,
      doc_terms = sort (remdups (tokenize U text))\<rparr>"

lemma term_freqs_keys [simp]: "map fst (term_freqs terms) = remdups terms"
  by (simp add: term_freqs_def comp_def)

lemma term_freqs_mem: "(t, n) \<in> set (term_freqs terms) \<longleftrightarrow> t \<in> set terms \<and> n = count_list terms t"
  by (auto simp: term_freqs_def)

lemma load_stats_cong:
  "kv_get m Text (stats_key ix) = kv_get m' Text (stats_key ix) \<Longrightarrow> load_stats J m ix = load_stats J m' ix"
  by (simp add: load_stats_def get_json_cong [of m Text "stats_key ix" m'])

lemma load_stats_put:
  "codec_ok id (stats_codec J) \<Longrightarrow>
   load_stats J (put_json (stats_codec J) m Text (stats_key ix) st) ix = Inr st"
  by (simp add: load_stats_def get_json_put)

lemma drop_text_absent:
  "kv_get m Text (doc_key ix k) = None \<Longrightarrow> drop_text J m ix k = Inr m"
  by (simp add: drop_text_def get_json_none)

lemma drop_text_present:
  assumes "get_json (doc_codec J) m Text (doc_key ix k) = Inr (Some d)"
    and "load_stats J m ix = Inr st"
  shows "drop_text J m ix k =
    Inr (put_json (stats_codec J) (kv_remove (drop_postings m ix (doc_terms d) k) Text (doc_key ix k))
      Text (stats_key ix)
      \<lparr>st_docs = st_docs st - 1, st_total_len = st_total_len st - doc_len d\<rparr>)"
proof -
  let ?m2 = "kv_remove (drop_postings m ix (doc_terms d) k) Text (doc_key ix k)"
  have "kv_get ?m2 Text (stats_key ix) = kv_get m Text (stats_key ix)"
    by (auto simp: kv_get_drop_postings)
  then have "load_stats J ?m2 ix = Inr st"
    using assms(2) load_stats_cong by metis
  then show ?thesis
    using assms(1) by (simp add: drop_text_def Let_def)
qed

lemma drop_text_Inr:
  assumes "drop_text J m ix k = Inr m'"
  shows "m' = m \<or> (\<exists>(d :: doc) st. m' = put_json (stats_codec J)
    (kv_remove (drop_postings m ix (doc_terms d) k) Text (doc_key ix k)) Text (stats_key ix) st)"
proof (cases "get_json (doc_codec J) m Text (doc_key ix k)")
  case (Inr r)
  with assms show ?thesis
    by (cases r) (auto simp: drop_text_def Let_def bindr_Inr)
qed (use assms in \<open>simp add: drop_text_def\<close>)

lemma drop_text_frame:
  assumes "drop_text J m ix k = Inr m'"
    and "c \<noteq> Text \<or> (k' \<noteq> doc_key ix k \<and> k' \<noteq> stats_key ix \<and> (\<forall>t. k' \<noteq> posting_key ix t k))"
  shows "kv_get m' c k' = kv_get m c k'"
proof -
  have posts: "kv_get (drop_postings m ix ts k) c k' = kv_get m c k'" for ts
  proof -
    have "\<not> (c = Text \<and> k' \<in> (\<lambda>t. posting_key ix t k) ` set ts)" using assms(2) by blast
    then show ?thesis by (simp only: kv_get_drop_postings if_False)
  qed
  show ?thesis
  proof (cases "m' = m")
    case False
    with drop_text_Inr [OF assms(1)] obtain d :: doc and st where
      "m' = put_json (stats_codec J) (kv_remove (drop_postings m ix (doc_terms d) k) Text (doc_key ix k))
        Text (stats_key ix) st"
      by blast
    then show ?thesis using assms(2) posts by auto
  qed simp
qed

lemma index_text_eq:
  assumes "tokenize U text \<noteq> []" and "drop_text J m ix k = Inr m1" and "load_stats J m1 ix = Inr st"
  shows "index_text U J m ix k text w =
    Inr (put_json (stats_codec J)
      (put_json (doc_codec J) (put_postings m1 ix (term_freqs (tokenize U text)) k)
        Text (doc_key ix k) (indexed_doc U text w))
      Text (stats_key ix)
      \<lparr>st_docs = st_docs st + 1,
       st_total_len = st_total_len st + length (tokenize U text) mod 2 ^ 32\<rparr>)"
proof -
  let ?m3 = "put_json (doc_codec J) (put_postings m1 ix (term_freqs (tokenize U text)) k)
      Text (doc_key ix k) (indexed_doc U text w)"
  have "kv_get ?m3 Text (stats_key ix) = kv_get m1 Text (stats_key ix)"
    by (simp, rule kv_get_put_postings_other) auto
  then have "load_stats J ?m3 ix = Inr st"
    using assms(3) load_stats_cong by metis
  then show ?thesis
    using assms(1,2) by (simp add: index_text_def indexed_doc_def Let_def)
qed

lemma index_text_posting:
  assumes "unicode_ok U" and "t \<in> set (tokenize U text)"
    and "drop_text J m ix k = Inr m1" and "load_stats J m1 ix = Inr st"
    and "index_text U J m ix k text w = Inr m'"
  shows "kv_get m' Text (posting_key ix t k) = Some (show_nat (count_list (tokenize U text) t))"
proof -
  have "tokenize U text \<noteq> []" using assms(2) by auto
  from index_text_eq [OF this assms(3,4), of w] assms(5)
  have "kv_get m' Text (posting_key ix t k) =
      kv_get (put_postings m1 ix (term_freqs (tokenize U text)) k) Text (posting_key ix t k)"
    by auto
  also have "\<dots> = Some (show_nat (count_list (tokenize U text) t))"
    using assms(1,2) tokenize_slash_free
    by (intro kv_get_put_postings) (auto simp: term_freqs_mem simp flip: set_map)
  finally show ?thesis .
qed

text \<open>
  Indexing a document files one posting per distinct term, holding the number of times the
  term occurs in the text, and a document record that names exactly those terms; the index
  counts one more document and its tokens.
\<close>

theorem index_text_files_postings:
  assumes "unicode_ok U" and "codecs_ok J" and "tokenize U text \<noteq> []"
    and "drop_text J m ix k = Inr m1" and "load_stats J m1 ix = Inr st"
  shows "\<exists>m'. index_text U J m ix k text w = Inr m' \<and>
    (\<forall>t \<in> set (tokenize U text).
       kv_get m' Text (posting_key ix t k) = Some (show_nat (count_list (tokenize U text) t))) \<and>
    get_json (doc_codec J) m' Text (doc_key ix k) = Inr (Some (indexed_doc U text w)) \<and>
    set (doc_terms (indexed_doc U text w)) = set (tokenize U text) \<and>
    load_stats J m' ix = Inr \<lparr>st_docs = st_docs st + 1,
      st_total_len = st_total_len st + length (tokenize U text) mod 2 ^ 32\<rparr>"
proof -
  note eq = index_text_eq [OF assms(3-5), of w]
  have posts: "\<forall>t \<in> set (tokenize U text). kv_get m' Text (posting_key ix t k) =
      Some (show_nat (count_list (tokenize U text) t))" if "index_text U J m ix k text w = Inr m'" for m'
    using index_text_posting [OF assms(1) _ assms(4,5) that] by blast
  have "codec_ok id (doc_codec J)" "codec_ok id (stats_codec J)"
    using assms(2) by (simp_all add: codecs_ok_def)
  then show ?thesis
    using posts eq by (simp add: load_stats_put get_json_same indexed_doc_def)
qed

definition rat_codecs :: text_codecs where
  "rat_codecs =
     \<lparr>doc_codec = unary_codec (\<lambda>d. (doc_len d, doc_weight d, doc_terms d))
         (\<lambda>(n, w, ts). \<lparr>doc_len = n, doc_weight = w, doc_terms = ts\<rparr>),
      stats_codec = unary_codec (\<lambda>s. (st_docs s, st_total_len s))
         (\<lambda>(d, n). \<lparr>st_docs = d, st_total_len = n\<rparr>)\<rparr>"

lemma rat_codecs_ok: "codecs_ok rat_codecs"
  unfolding codecs_ok_def rat_codecs_def text_codecs.simps
  by (intro conjI unary_codec_ok) simp_all

lemma ascii_unicode_ok: "unicode_ok ascii_unicode"
  by (simp add: unicode_ok_def ascii_unicode_def)

lemma sample_tokens: "tokenize ascii_unicode ''Deploy the deploy-bot'' = [''deploy'', ''deploy'', ''bot'']"
  by code_simp

lemma load_stats_empty: "load_stats J [] ix = Inr stats_default"
  by (simp add: load_stats_def get_json_def kv_get_def)

theorem index_text_files_postings_witness:
  "\<exists>m'. index_text ascii_unicode rat_codecs [] Messages ''k'' ''Deploy the deploy-bot'' 1 = Inr m' \<and>
     kv_get m' Text (posting_key Messages ''deploy'' ''k'') = Some ''2''"
proof -
  have "drop_text rat_codecs [] Messages ''k'' = Inr []"
    by (simp add: drop_text_absent kv_get_def)
  note filed = index_text_files_postings [OF ascii_unicode_ok rat_codecs_ok _ this load_stats_empty,
      of "''Deploy the deploy-bot''" 1, unfolded sample_tokens]
  obtain m' where "index_text ascii_unicode rat_codecs [] Messages ''k'' ''Deploy the deploy-bot'' 1 = Inr m'"
    and posts: "\<forall>t \<in> set [''deploy'', ''deploy'', ''bot'']. kv_get m' Text (posting_key Messages t ''k'') =
      Some (show_nat (count_list [''deploy'', ''deploy'', ''bot''] t))"
    using filed [OF list.distinct(2)] by blast
  moreover have "kv_get m' Text (posting_key Messages ''deploy'' ''k'') = Some (show_nat 2)"
    using bspec [OF posts, of "''deploy''"] by (simp add: numeral_2_eq_2)
  moreover have "show_nat 2 = ''2''" by code_simp
  ultimately show ?thesis by metis
qed

lemma kv_get_undone:
  assumes "kv_get m Text (doc_key ix k) = None" and "\<forall>t. kv_get m Text (posting_key ix t k) = None"
    and "set ts = T" and "fst ` set tfs = T" and "c \<noteq> Text \<or> k' \<noteq> stats_key ix"
  shows "kv_get (put_json S (kv_remove (drop_postings
      (put_json S (put_json D (put_postings m ix tfs k) Text (doc_key ix k) d) Text (stats_key ix) st1)
      ix ts k) Text (doc_key ix k)) Text (stats_key ix) st2) c k' = kv_get m c k'"
proof -
  let ?P = "(\<lambda>t. posting_key ix t k) ` T"
  consider "c = Text" "k' = doc_key ix k" | "c = Text" "k' \<in> ?P" "k' \<noteq> doc_key ix k"
    | "c \<noteq> Text \<or> k' \<notin> ?P" "\<not> (c = Text \<and> k' = doc_key ix k)"
    by blast
  then show ?thesis
  proof cases
    case 1
    then show ?thesis using assms(1) by simp
  next
    case 2
    then obtain t where "k' = posting_key ix t k" by blast
    with 2 show ?thesis using assms(2,3) by (simp add: kv_get_drop_postings)
  next
    case 3
    then have "kv_get (put_postings m ix tfs k) c k' = kv_get m c k'"
      using assms(4) by (intro kv_get_put_postings_other) simp
    with 3 show ?thesis using assms(3,5) by (auto simp: kv_get_drop_postings)
  qed
qed

text \<open>
  C4: Dropping undoes indexing. For a document that was not indexed before, indexing it and
  dropping it again leaves every key of the store as it was, and the statistics back at their
  old values.
\<close>

theorem drop_text_undoes_index_text:
  assumes "codecs_ok J"
    and "kv_get m Text (doc_key ix k) = None" and "\<forall>t. kv_get m Text (posting_key ix t k) = None"
    and "load_stats J m ix = Inr st"
  shows "\<exists>m1 m2. index_text U J m ix k text w = Inr m1 \<and> drop_text J m1 ix k = Inr m2 \<and>
    load_stats J m2 ix = Inr st \<and>
    (\<forall>c k'. c \<noteq> Text \<or> k' \<noteq> stats_key ix \<longrightarrow> kv_get m2 c k' = kv_get m c k')"
proof (cases "tokenize U text = []")
  case True
  then have "index_text U J m ix k text w = Inr m"
    by (simp add: index_text_def drop_text_absent [OF assms(2)])
  then show ?thesis using drop_text_absent [OF assms(2)] assms(4) by simp
next
  case False
  let ?T = "tokenize U text" and ?d = "indexed_doc U text w"
  let ?st1 = "\<lparr>st_docs = st_docs st + 1, st_total_len = st_total_len st + length ?T mod 2 ^ 32\<rparr>"
  let ?mp = "put_postings m ix (term_freqs ?T) k"
  let ?m1 = "put_json (stats_codec J) (put_json (doc_codec J) ?mp Text (doc_key ix k) ?d)
      Text (stats_key ix) ?st1"
  have ok: "codec_ok id (doc_codec J)" "codec_ok id (stats_codec J)"
    using assms(1) by (simp_all add: codecs_ok_def)
  have idx: "index_text U J m ix k text w = Inr ?m1"
    by (rule index_text_eq [OF False drop_text_absent [OF assms(2)] assms(4)])
  have doc: "get_json (doc_codec J) ?m1 Text (doc_key ix k) = Inr (Some ?d)"
    using get_json_same [OF ok(1), of ?m1 Text "doc_key ix k" ?d] by simp
  let ?m2 = "put_json (stats_codec J)
      (kv_remove (drop_postings ?m1 ix (doc_terms ?d) k) Text (doc_key ix k)) Text (stats_key ix)
      \<lparr>st_docs = st_docs ?st1 - 1, st_total_len = st_total_len ?st1 - doc_len ?d\<rparr>"
  have drop: "drop_text J ?m1 ix k = Inr ?m2"
    by (rule drop_text_present [OF doc load_stats_put [OF ok(2)]])
  have terms: "set (doc_terms ?d) = set ?T" and keys: "fst ` set (term_freqs ?T) = set ?T"
    by (simp_all add: indexed_doc_def flip: set_map)
  have "kv_get ?m2 c k' = kv_get m c k'" if "c \<noteq> Text \<or> k' \<noteq> stats_key ix" for c k'
    by (rule kv_get_undone [OF assms(2,3) terms keys that])
  moreover have "load_stats J ?m2 ix = Inr st"
    using load_stats_put [OF ok(2)] by (simp add: indexed_doc_def)
  ultimately show ?thesis using idx drop by blast
qed

theorem drop_text_undoes_index_text_witness:
  "\<exists>m1 m2. index_text ascii_unicode rat_codecs [] MemoryEntries ''k'' ''Deploy the bot'' 1 = Inr m1 \<and>
     drop_text rat_codecs m1 MemoryEntries ''k'' = Inr m2 \<and> load_stats rat_codecs m2 MemoryEntries = Inr stats_default"
proof -
  have absent: "kv_get ([] :: kv) c k' = None" for c k'
    by (simp add: kv_get_def)
  show ?thesis
    using drop_text_undoes_index_text [OF rat_codecs_ok absent _ load_stats_empty,
        of MemoryEntries "''k''" ascii_unicode "''Deploy the bot''" 1] absent by blast
qed

subsection \<open>What a search returns\<close>

definition hit_before :: "text_hit \<Rightarrow> text_hit \<Rightarrow> bool" where
  "hit_before a b \<longleftrightarrow>
     hit_score b < hit_score a \<or> (hit_score a = hit_score b \<and> hit_key a < hit_key b)"

lemma rank_hits_set: "h \<in> set (rank_hits limit scores) \<Longrightarrow> (hit_key h, hit_score h) \<in> set scores \<and> hit_score h > 0"
  by (auto simp: rank_hits_def dest!: in_set_takeD)

lemma distinct_ranked:
  "distinct (map fst scores) \<Longrightarrow> distinct (map hit_key (map (\<lambda>e. \<lparr>hit_key = fst e, hit_score = snd e\<rparr>) (filter P scores)))"
  by (induction scores) auto

lemma distinct_map_sort_key: "distinct (map g (sort_key f xs)) = distinct (map g xs)"
  by (simp add: distinct_map)

lemma sorted_wrt_rank:
  assumes "sorted (map (\<lambda>h. (- hit_score h, hit_key h)) hs)" and "distinct (map hit_key hs)"
  shows "sorted_wrt hit_before hs"
  using assms
proof (induction hs)
  case (Cons h hs)
  have "hit_before h h'" if "h' \<in> set hs" for h'
  proof -
    have "(- hit_score h, hit_key h) \<le> (- hit_score h', hit_key h')" "hit_key h \<noteq> hit_key h'"
      using Cons.prems that by (auto simp: image_iff)
    then show ?thesis by (auto simp: hit_before_def less_eq_prod_def)
  qed
  then show ?case using Cons by simp
qed simp

lemma rank_hits_sorted: "distinct (map fst scores) \<Longrightarrow> sorted_wrt hit_before (rank_hits limit scores)"
  unfolding rank_hits_def
  by (intro sorted_wrt_take sorted_wrt_rank sorted_sort_key)
    (simp only: distinct_map_sort_key distinct_ranked)

lemma score_posting_shape:
  assumes "score_posting J m ix i a p acc = Inr acc'"
  shows "\<exists>v lens. acc' = (bt_insert (fst p) v (fst acc), lens)"
  using assms
  by (cases p; cases acc) (auto simp: score_posting_def bindr_Inr Let_def split: option.splits)

lemma score_posting_ok:
  assumes "score_posting J m ix i a p acc = Inr acc'" and "bt_ok (fst acc)"
  shows "bt_ok (fst acc') \<and> fst ` set (fst acc') = insert (fst p) (fst ` set (fst acc))"
proof -
  obtain v lens where "acc' = (bt_insert (fst p) v (fst acc), lens)"
    using score_posting_shape [OF assms(1)] by blast
  then show ?thesis using assms(2) by (simp add: keys_bt_insert)
qed

lemma score_postings_ok:
  assumes "score_postings J m ix i a ps acc = Inr acc'" and "bt_ok (fst acc)"
  shows "bt_ok (fst acc') \<and> fst ` set (fst acc') = fst ` set ps \<union> fst ` set (fst acc)"
  using assms
proof (induction ps arbitrary: acc)
  case (Cons p ps)
  then obtain acc1 where
    "score_posting J m ix i a p acc = Inr acc1" "score_postings J m ix i a ps acc1 = Inr acc'"
    by (auto simp: bindr_Inr)
  with Cons.IH [of acc1] score_posting_ok [of J m ix i a p acc acc1] Cons.prems(2) show ?case by auto
qed simp

lemma score_terms_ok:
  assumes "score_terms J m ix docs a ts acc = Inr acc'" and "bt_ok (fst acc)"
  shows "bt_ok (fst acc') \<and>
    fst ` set (fst acc') = (\<Union>t \<in> set ts. fst ` set (postings m ix t)) \<union> fst ` set (fst acc)"
  using assms
proof (induction ts arbitrary: acc)
  case (Cons t ts)
  show ?case
  proof (cases "postings m ix t = []")
    case True
    then show ?thesis using Cons.IH [of acc] Cons.prems by simp
  next
    case False
    with Cons.prems obtain acc1 where
      s: "score_postings J m ix (idf (length (postings m ix t)) docs) a (postings m ix t) acc = Inr acc1"
      "score_terms J m ix docs a ts acc1 = Inr acc'"
      by (auto simp: bindr_Inr Let_def)
    from score_postings_ok [OF s(1) Cons.prems(2)] Cons.IH [OF s(2)] show ?thesis by auto
  qed
qed simp

lemma search_text_cases:
  assumes "search_text U J m ix query limit = Inr hits"
  shows "hits = [] \<or> (\<exists>st acc. query_terms U query \<noteq> [] \<and> load_stats J m ix = Inr st \<and>
    score_terms J m ix (st_docs st) (real (st_total_len st) / real (st_docs st))
      (query_terms U query) ([], []) = Inr acc \<and> hits = rank_hits limit (fst acc))"
  using assms by (auto simp: search_text_def bindr_Inr Let_def split: if_splits)


definition const_codecs :: "doc \<Rightarrow> stats \<Rightarrow> text_codecs" where
  "const_codecs d st =
     \<lparr>doc_codec = \<lparr>to_json = (\<lambda>_. ''d''), from_json = (\<lambda>_. Some d)\<rparr>,
      stats_codec = \<lparr>to_json = (\<lambda>_. ''s''), from_json = (\<lambda>_. Some st)\<rparr>\<rparr>"

definition deploy_store :: kv where
  "deploy_store =
     [((Text, ''local/idx/text/msg/doc/k''), ''d''), ((Text, ''local/idx/text/msg/stats''), ''s''),
      ((Text, ''local/idx/text/msg/term/deploy/k''), ''1''),
      ((Text, ''local/idx/text/msg/term/deployment/k''), ''1'')]"

definition deploy_codecs :: text_codecs where
  "deploy_codecs = const_codecs \<lparr>doc_len = 2, doc_weight = 1, doc_terms = [''deploy'', ''deployment'']\<rparr>
     \<lparr>st_docs = 1, st_total_len = 2\<rparr>"

lemma deploy_stats: "load_stats deploy_codecs deploy_store Messages = Inr \<lparr>st_docs = 1, st_total_len = 2\<rparr>"
proof -
  have "kv_get deploy_store Text (stats_key Messages) = Some ''s''" by code_simp
  then show ?thesis by (simp add: load_stats_def get_json_def deploy_codecs_def const_codecs_def)
qed

lemma deploy_doc: "get_json (doc_codec deploy_codecs) deploy_store Text (doc_key Messages ''k'') =
  Inr (Some \<lparr>doc_len = 2, doc_weight = 1, doc_terms = [''deploy'', ''deployment'']\<rparr>)"
proof -
  have "kv_get deploy_store Text (doc_key Messages ''k'') = Some ''d''" by code_simp
  then show ?thesis by (simp add: get_json_def deploy_codecs_def const_codecs_def)
qed

lemma deploy_terms:
  "query_terms ascii_unicode ''Deploy'' = [\<lparr>term_text = ''deploy'', term_prefix = False\<rparr>]"
  "query_terms ascii_unicode ''deploy*'' = [\<lparr>term_text = ''deploy'', term_prefix = True\<rparr>]"
  by code_simp+

lemma parse_one: "parse_uint 32 ''1'' = Some 1"
proof -
  have "show_nat 1 = ''1''" by code_simp
  moreover have "(1 :: nat) < 2 ^ 32" by simp
  ultimately show ?thesis using parse_show [of 1 32] by metis
qed

lemma deploy_scans:
  "kv_scan deploy_store Text ''local/idx/text/msg/term/deploy/'' = [(''local/idx/text/msg/term/deploy/k'', ''1'')]"
  "kv_scan deploy_store Text ''local/idx/text/msg/term/deploy'' =
    [(''local/idx/text/msg/term/deploy/k'', ''1''), (''local/idx/text/msg/term/deployment/k'', ''1'')]"
  by code_simp+

lemma deploy_postings:
  "postings deploy_store Messages \<lparr>term_text = ''deploy'', term_prefix = False\<rparr> = [(''k'', 1)]"
  "postings deploy_store Messages \<lparr>term_text = ''deploy'', term_prefix = True\<rparr> = [(''k'', 1), (''k'', 1)]"
proof -
  have "valid_utf8 ''1''" by code_simp
  then show "postings deploy_store Messages \<lparr>term_text = ''deploy'', term_prefix = False\<rparr> = [(''k'', 1)]"
    "postings deploy_store Messages \<lparr>term_text = ''deploy'', term_prefix = True\<rparr> = [(''k'', 1), (''k'', 1)]"
    by (simp_all add: postings_def kv_prefix_def key_def realm_local_def deploy_scans parse_one
        find_term_boundary_def)
qed


subsection \<open>The BM25 formula\<close>

lemma idf_pos: "df \<le> docs \<Longrightarrow> idf df docs > 0"
  by (simp add: idf_def field_simps)

lemma idf_neg:
  assumes "docs < df"
  shows "idf df docs < 0"
proof -
  have "(real docs - real df + 0.5) / (real df + 0.5) + 1 = (real docs + 1) / (real df + 0.5)"
    by (simp add: field_simps)
  moreover have "(real docs + 1) / (real df + 0.5) < 1" "(real docs + 1) / (real df + 0.5) > 0"
    using assms by (simp_all add: field_simps)
  ultimately show ?thesis by (simp add: idf_def)
qed

lemma weigh_bounds:
  assumes "a \<ge> 0"
  shows "0 \<le> weigh bm25_default tf dl a" and "weigh bm25_default tf dl a \<le> 2.2"
proof -
  let ?L = "real dl / a"
  have L: "0 \<le> ?L" using assms by simp
  have eq: "weigh bm25_default tf dl a = real tf * 2.2 / (real tf + (0.3 + 0.9 * ?L))"
    by (simp add: weigh_def bm25_default_def algebra_simps)
  show "0 \<le> weigh bm25_default tf dl a" using L unfolding eq by simp
  have "real tf * 2.2 \<le> 2.2 * (real tf + (0.3 + 0.9 * ?L))" using L by simp
  then show "weigh bm25_default tf dl a \<le> 2.2"
    unfolding eq using L by (subst pos_divide_le_eq) (auto intro: add_nonneg_pos)
qed

text \<open>
  Each term adds at most \<open>2.2\<close> times its rarity to a document of weight one, and never
  takes anything away while the term's postings do not outnumber the documents.
\<close>

theorem term_score_bounds:
  assumes "df \<le> docs" and "avgdl \<ge> 0"
  shows "0 \<le> idf df docs * weigh bm25_default tf dl avgdl \<and>
    idf df docs * weigh bm25_default tf dl avgdl \<le> 2.2 * idf df docs"
  using idf_pos [OF assms(1)] weigh_bounds [OF assms(2), of tf dl] by (simp add: mult.commute)

theorem term_score_bounds_witness:
  "0 \<le> idf 1 3 * weigh bm25_default 2 5 4 \<and> idf 1 3 * weigh bm25_default 2 5 4 \<le> 2.2 * idf 1 3"
  using term_score_bounds [of 1 3 4 2 5] by simp

lemma sum_nonpos_step: "term_idf \<le> 0 \<Longrightarrow> 0 \<le> w \<Longrightarrow> 0 \<le> r \<Longrightarrow> old \<le> 0 \<Longrightarrow> old + term_idf * w * r \<le> (0 :: real)"
  by (simp add: add_nonpos_nonpos mult_nonpos_nonneg)

definition scores_le0 :: "scores \<times> lens \<Rightarrow> bool" where
  "scores_le0 acc \<longleftrightarrow> (\<forall>e \<in> set (fst acc). snd e \<le> 0) \<and> (\<forall>e \<in> set (snd acc). snd (snd e) \<ge> 0)"

definition weights_ok :: "text_codecs \<Rightarrow> kv \<Rightarrow> text_index \<Rightarrow> bool" where
  "weights_ok J m ix \<longleftrightarrow>
     (\<forall>k d. get_json (doc_codec J) m Text (doc_key ix k) = Inr (Some d) \<longrightarrow> doc_weight d \<ge> 0)"

lemma score_posting_le0:
  assumes "score_posting J m ix i a p acc = Inr acc'" and "scores_le0 acc" and "i \<le> 0" and "a \<ge> 0"
    and "weights_ok J m ix"
  shows "scores_le0 acc'"
proof -
  obtain k tf where p: "p = (k, tf)" by (cases p)
  obtain S L where acc: "acc = (S, L)" by (cases acc)
  have nn: "0 \<le> snd known" if "map_of L k = Some known" for known
    using assms(2) map_of_SomeD [OF that] by (force simp: scores_le0_def acc)
  have dw: "0 \<le> doc_weight doc_default" by (simp add: doc_default_def)
  from assms(1) obtain known L' where
    acc': "acc' = (bt_insert k ((case map_of S k of None \<Rightarrow> 0 | Some s \<Rightarrow> s) +
      i * weigh bm25_default tf (fst known) a * of_rat (snd known)) S, L')"
    and known: "0 \<le> snd known" and L': "set L' \<subseteq> insert (k, known) (set L)"
  proof (cases "map_of L k")
    case (Some known)
    with assms(1) nn [OF Some] that [of known L] show ?thesis
      by (auto simp: score_posting_def p acc Let_def)
  next
    case None
    with assms(1) obtain r where r: "get_json (doc_codec J) m Text (doc_key ix k) = Inr r"
      by (auto simp: score_posting_def p acc Let_def bindr_Inr)
    let ?d = "case r of None \<Rightarrow> doc_default | Some d \<Rightarrow> d"
    have "0 \<le> doc_weight ?d" using r assms(5) dw by (cases r) (auto simp: weights_ok_def)
    with assms(1) None r that [of "(doc_len ?d, doc_weight ?d)" "bt_insert k (doc_len ?d, doc_weight ?d) L"]
      set_bt_insert_subset [of k "(doc_len ?d, doc_weight ?d)" L]
    show ?thesis by (auto simp: score_posting_def p acc Let_def)
  qed
  have old: "(case map_of S k of None \<Rightarrow> 0 | Some s \<Rightarrow> s) \<le> 0"
    using assms(2) map_of_SomeD [of S k] by (force simp: scores_le0_def acc split: option.splits)
  have "(case map_of S k of None \<Rightarrow> 0 | Some s \<Rightarrow> s) +
      i * weigh bm25_default tf (fst known) a * of_rat (snd known) \<le> 0"
    using known assms(3) weigh_bounds(1) [OF assms(4)] old by (intro sum_nonpos_step) auto
  then show ?thesis
    using assms(2) known L' set_bt_insert_subset [of k _ S]
    unfolding scores_le0_def acc' acc by fastforce
qed

lemma score_postings_le0:
  assumes "score_postings J m ix i a ps acc = Inr acc'" and "scores_le0 acc" and "i \<le> 0" and "a \<ge> 0"
    and "weights_ok J m ix"
  shows "scores_le0 acc'"
  using assms(1,2)
proof (induction ps arbitrary: acc)
  case (Cons p ps)
  then obtain acc1 where
    "score_posting J m ix i a p acc = Inr acc1" "score_postings J m ix i a ps acc1 = Inr acc'"
    by (auto simp: bindr_Inr)
  with Cons.IH [of acc1] score_posting_le0 [OF _ Cons.prems(2) assms(3,4,5)] show ?case by blast
qed simp

lemma rank_hits_le0: "scores_le0 acc \<Longrightarrow> rank_hits limit (fst acc) = []"
  unfolding rank_hits_def scores_le0_def by (subst filter_False) auto

text \<open>
  A prefix query counts postings as if they were documents. When its words have more
  postings than the index has documents, the rarity turns negative and the search answers with
  nothing, whatever it matched.
\<close>

theorem prefix_search_overcount:
  assumes "query_terms U query = [t]" and "load_stats J m ix = Inr st"
    and "length (postings m ix t) > st_docs st"
    and "weights_ok J m ix"
    and "search_text U J m ix query limit = Inr hits"
  shows "hits = []"
proof -
  have "hits = [] \<or> (\<exists>acc. score_terms J m ix (st_docs st) (real (st_total_len st) / real (st_docs st))
      [t] ([], []) = Inr acc \<and> hits = rank_hits limit (fst acc))"
    using search_text_cases [OF assms(5)] assms(1,2) by auto
  then show ?thesis
  proof
    assume "\<exists>acc. score_terms J m ix (st_docs st) (real (st_total_len st) / real (st_docs st))
      [t] ([], []) = Inr acc \<and> hits = rank_hits limit (fst acc)"
    then obtain acc where ts: "score_terms J m ix (st_docs st) (real (st_total_len st) / real (st_docs st))
        [t] ([], []) = Inr acc" and hits: "hits = rank_hits limit (fst acc)"
      by blast
    have "postings m ix t \<noteq> []" using assms(3) by auto
    with ts have "score_postings J m ix (idf (length (postings m ix t)) (st_docs st))
        (real (st_total_len st) / real (st_docs st)) (postings m ix t) ([], []) = Inr acc"
      by (simp only: score_terms.simps Let_def if_False bindr_Inr) auto
    then have "scores_le0 acc"
      using assms(4) idf_neg [OF assms(3)]
      by (elim score_postings_le0) (auto simp: scores_le0_def)
    then show ?thesis using hits rank_hits_le0 by simp
  qed
qed

theorem prefix_search_overcount_witness:
  "search_text ascii_unicode deploy_codecs deploy_store Messages ''deploy*'' 10 = Inr []"
proof -
  have weights: "weights_ok deploy_codecs deploy_store Messages"
    by (auto simp: weights_ok_def get_json_def deploy_codecs_def const_codecs_def split: option.splits)
  have "\<exists>hits. search_text ascii_unicode deploy_codecs deploy_store Messages ''deploy*'' 10 = Inr hits"
    by (simp add: search_text_def deploy_terms deploy_stats deploy_postings deploy_doc
        score_posting_def Let_def)
  then show ?thesis
    using prefix_search_overcount [OF deploy_terms(2) deploy_stats _ weights]
    by (auto simp: deploy_postings)
qed

end
