(* ===== verification/SmallStores.thy ===== *)
theory SmallStores
  imports TextIndex SkillFormat AgentStore
begin

section \<open>Memory, harness images, skills and subscriptions (crates/store/src/interface)\<close>

text \<open>
  The four small interfaces over the keyspace: memory entries with their search, harness images
  under a 64-bit FNV-1a digest, installed skills, standing subscriptions. The lemmas show what
  each lookup returns after a put, what the listings hold, and what a slash in a memory's name
  does to its listing.
\<close>

subsection \<open>Memory (memory.rs)\<close>

record memory_entry =
  me_name :: bytes
  me_kind :: bytes
  me_content :: bytes
  me_aliases :: "bytes list"
  me_created_at :: bytes

record memory_env =
  mm_unicode :: unicode
  mm_text :: text_codecs
  mm_codec :: "memory_entry codec"

definition memory_key :: "bytes \<Rightarrow> bytes" where
  "memory_key name = key [''memory'', name]"

definition last_segment :: "bytes \<Rightarrow> bytes option" where
  "last_segment k = (if valid_utf8 k then Some (last (split_char (CHR ''/'') k)) else None)"

definition memory :: "memory_env \<Rightarrow> kv \<Rightarrow> bytes \<Rightarrow> store_error + memory_entry option" where
  "memory M m name = get_json (mm_codec M) m Memory (memory_key name)"

definition memory_names :: "kv \<Rightarrow> bytes list" where
  "memory_names m = List.map_filter last_segment (kv_scan_keys m Memory (kv_prefix [''memory'']))"

definition memory_names_under :: "kv \<Rightarrow> bytes \<Rightarrow> bytes list" where
  "memory_names_under m stem =
     List.map_filter last_segment (kv_scan_keys m Memory (key [''memory'', stem]))"

definition memory_text :: "memory_entry \<Rightarrow> bytes" where
  "memory_text e =
     (if me_aliases e = [] then me_content e
      else join_with '' '' (me_aliases e) @ newline @ me_content e)"

definition put_memory :: "memory_env \<Rightarrow> kv \<Rightarrow> memory_entry \<Rightarrow> store_error + kv" where
  "put_memory M m e =
     (let k = memory_key (me_name e)
      in index_text (mm_unicode M) (mm_text M) (put_json (mm_codec M) m Memory k e)
           MemoryEntries k (memory_text e) 1)"

definition remove_memory :: "memory_env \<Rightarrow> kv \<Rightarrow> bytes \<Rightarrow> store_error + bool \<times> kv" where
  "remove_memory M m name =
     bindr (drop_text (mm_text M) m MemoryEntries (memory_key name))
       (\<lambda>m1. Inr (kv_delete m1 Memory (memory_key name)))"

definition search_memory :: "memory_env \<Rightarrow> kv \<Rightarrow> bytes \<Rightarrow> nat \<Rightarrow> store_error + bytes list" where
  "search_memory M m query limit =
     bindr (search_text (mm_unicode M) (mm_text M) m MemoryEntries query limit)
       (\<lambda>hits. Inr (List.map_filter (\<lambda>h. last_segment (hit_key h)) hits))"

subsection \<open>Harness images (harness.rs)\<close>

definition fnv_step :: "64 word \<Rightarrow> byte \<Rightarrow> 64 word" where
  "fnv_step hash b = Bit_Operations.xor hash (of_nat (byte_val b)) * 0x100000001b3"

definition hex_digit :: "nat \<Rightarrow> byte" where
  "hex_digit d = (if d < 10 then char_of (48 + d) else char_of (87 + d))"

fun hex_digits :: "nat \<Rightarrow> nat \<Rightarrow> bytes" where
  "hex_digits 0 n = []"
| "hex_digits (Suc w) n = hex_digits w (n div 16) @ [hex_digit (n mod 16)]"

text \<open>\<open>{hash:016x}\<close> of a 64-bit value is its sixteen hexadecimal digits.\<close>

definition digest :: "bytes \<Rightarrow> bytes" where
  "digest bs = hex_digits 16 (unat (foldl fnv_step 0xcbf29ce484222325 bs))"

definition harness_image :: "kv \<Rightarrow> bytes \<Rightarrow> bytes option" where
  "harness_image m d = kv_get m Harness (key [''image'', d])"

definition put_harness_image :: "kv \<Rightarrow> bytes \<Rightarrow> bytes \<Rightarrow> bytes \<times> kv" where
  "put_harness_image m name bs =
     (let d = digest bs
      in (d, kv_put (kv_put m Harness (key [''image'', d]) bs) Harness (key [''name'', name]) d))"

definition resolve_harness :: "kv \<Rightarrow> bytes \<Rightarrow> store_error + bytes option" where
  "resolve_harness m name =
     (case kv_get m Harness (key [''name'', name]) of
        None \<Rightarrow> Inr None
      | Some bs \<Rightarrow> if valid_utf8 bs then Inr (Some bs) else Inl BadUtf8)"

subsection \<open>Skills (skill.rs)\<close>

record skill_summary =
  su_name :: bytes
  su_description :: bytes

definition summary_of :: "skill \<Rightarrow> skill_summary" where
  "summary_of s = \<lparr>su_name = sk_name s, su_description = sk_description s\<rparr>"

fun read_summaries ::
  "skill_summary codec \<Rightarrow> kv \<Rightarrow> bytes list \<Rightarrow> store_error + skill_summary list" where
  "read_summaries J m [] = Inr []"
| "read_summaries J m (k # ks) =
     bindr (get_json J m Skill k)
       (\<lambda>r. bindr (read_summaries J m ks)
          (\<lambda>out. Inr (case r of None \<Rightarrow> out | Some s \<Rightarrow> s # out)))"

definition list_skills ::
  "skill_summary codec \<Rightarrow> kv \<Rightarrow> nat \<Rightarrow> nat \<Rightarrow> store_error + skill_summary list" where
  "list_skills J m limit offset =
     read_summaries J m
       (take limit (drop offset (kv_scan_keys m Skill (kv_prefix [''skill'', ''meta'']))))"

definition load_skill :: "skill_env \<Rightarrow> kv \<Rightarrow> bytes \<Rightarrow> store_error + skill option" where
  "load_skill V m name =
     (case kv_get m Skill (key [''skill'', ''body'', name]) of
        None \<Rightarrow> Inr None
      | Some bs \<Rightarrow>
          if valid_utf8 bs then map_sum id Some (skill_from_str V bs) else Inl BadUtf8)"

definition put_skill ::
  "skill_env \<Rightarrow> skill_summary codec \<Rightarrow> kv \<Rightarrow> bytes \<Rightarrow> store_error + skill_summary \<times> kv" where
  "put_skill V J m md =
     bindr (skill_from_str V md)
       (\<lambda>s. let summary = summary_of s;
                m1 = kv_put m Skill (key [''skill'', ''body'', sk_name s]) md
            in Inr (summary, put_json J m1 Skill (key [''skill'', ''meta'', sk_name s]) summary))"

definition remove_skill :: "kv \<Rightarrow> bytes \<Rightarrow> bool \<times> kv" where
  "remove_skill m name =
     (let (had_meta, m1) = kv_delete m Skill (key [''skill'', ''meta'', name]);
          (had_body, m2) = kv_delete m1 Skill (key [''skill'', ''body'', name])
      in (had_meta \<or> had_body, m2))"

subsection \<open>Subscriptions (event.rs)\<close>

record event_subscription =
  es_id :: nat
  es_source :: bytes
  es_target :: agent_id
  es_once :: bool
  es_session_handle :: bytes

definition subscription_key :: "nat \<Rightarrow> bytes" where
  "subscription_key i = key [''subscription'', show_nat i]"

fun read_subscriptions ::
  "event_subscription codec \<Rightarrow> kv \<Rightarrow> bytes list \<Rightarrow> store_error + event_subscription list" where
  "read_subscriptions J m [] = Inr []"
| "read_subscriptions J m (k # ks) =
     bindr (get_json J m Event k)
       (\<lambda>r. bindr (read_subscriptions J m ks)
          (\<lambda>out. Inr (case r of None \<Rightarrow> out | Some s \<Rightarrow> s # out)))"

definition subscriptions ::
  "event_subscription codec \<Rightarrow> kv \<Rightarrow> store_error + event_subscription list" where
  "subscriptions J m = read_subscriptions J m (kv_scan_keys m Event (kv_prefix [''subscription'']))"

definition put_subscription :: "event_subscription codec \<Rightarrow> kv \<Rightarrow> event_subscription \<Rightarrow> kv" where
  "put_subscription J m s = put_json J m Event (subscription_key (es_id s)) s"

definition remove_subscription :: "kv \<Rightarrow> nat \<Rightarrow> bool \<times> kv" where
  "remove_subscription m i = kv_delete m Event (subscription_key i)"

subsection \<open>What the lookups return\<close>

lemma last_segment_key:
  assumes "slash_free name" and "valid_utf8 name"
  shows "last_segment (memory_key name) = Some name"
proof -
  have "memory_key name = key [''memory''] @ CHR ''/'' # name"
    by (simp add: memory_key_def key_joined)
  moreover have "valid_utf8 (key [''memory''] @ CHR ''/'' # name)"
    using assms(2) by (simp add: key_joined realm_local_def is_ascii_def byte_val_def)
  moreover have "split_char (CHR ''/'') (memory_key name) = [''local'', ''memory'', name]"
  proof -
    have "split_when (\<lambda>c. c = CHR ''/'') name = [name]"
      by (rule split_when_none) (use assms(1) in \<open>auto simp: slash_free_def\<close>)
    then have "split_when (\<lambda>c. c = CHR ''/'') (''local'' @ CHR ''/'' # ''memory'' @ CHR ''/'' # name) =
        [''local'', ''memory'', name]"
      by simp
    then show ?thesis by (simp add: split_char_def memory_key_def key_joined realm_local_def)
  qed
  ultimately show ?thesis by (simp add: last_segment_def)
qed

text \<open>
  Where every stored memory has a name without slashes, the listing is exactly the stored
  names, in order.
\<close>

theorem memory_names_exact:
  assumes "bt_ok m" and "\<forall>k. prefix (kv_prefix [''memory'']) k \<and> kv_get m Memory k \<noteq> None \<longrightarrow>
    (\<exists>n. k = memory_key n \<and> slash_free n \<and> valid_utf8 n)"
  shows "set (memory_names m) = {n. kv_get m Memory (memory_key n) \<noteq> None} \<and> sorted_wrt (<) (memory_names m)"
proof -
  let ?ks = "kv_scan_keys m Memory (kv_prefix [''memory''])"
  have ks: "k \<in> set ?ks \<longleftrightarrow> (\<exists>n. k = memory_key n \<and> kv_get m Memory k \<noteq> None)" for k
    unfolding set_kv_scan_keys [OF assms(1)]
    by (auto simp: prefix_def kv_prefix_def memory_key_def key_joined)
  have seg: "\<exists>n. k = memory_key n \<and> last_segment k = Some n \<and> kv_get m Memory k \<noteq> None" if "k \<in> set ?ks" for k
    using assms(2) that last_segment_key set_kv_scan_keys [OF assms(1)] by blast
  have names: "memory_names m = map (\<lambda>k. the (last_segment k)) ?ks"
    unfolding memory_names_def by (rule map_filter_all) (use seg in blast)
  have inj: "memory_key a = memory_key b \<longleftrightarrow> a = b" and less: "memory_key a < memory_key b \<longleftrightarrow> a < b" for a b
    by (simp_all add: memory_key_def key_joined)
  have "map memory_key (memory_names m) = ?ks"
    unfolding names map_map by (rule map_idI) (use seg in fastforce)
  then have "sorted_wrt (<) (map memory_key (memory_names m))"
    using sorted_kv_scan_keys [OF assms(1)] by simp
  moreover have "n \<in> set (memory_names m) \<longleftrightarrow> memory_key n \<in> set ?ks" for n
    using \<open>map memory_key (memory_names m) = ?ks\<close> inj by (metis image_iff set_map)
  ultimately show ?thesis using ks inj by (auto simp: sorted_wrt_map less)
qed

theorem memory_names_exact_witness:
  "set (memory_names [((Memory, memory_key ''a''), ''x'')]) = {''a''}"
proof -
  have "\<forall>k. prefix (kv_prefix [''memory'']) k \<and> kv_get [((Memory, memory_key ''a''), ''x'')] Memory k \<noteq> None \<longrightarrow>
      (\<exists>n. k = memory_key n \<and> slash_free n \<and> valid_utf8 n)"
    by (auto simp: kv_get_def slash_free_def is_ascii_def byte_val_def intro!: exI [of _ "''a''"] split: if_splits)
  from memory_names_exact [OF _ this] show ?thesis
    by (auto simp: kv_get_def bt_ok_def memory_key_def key_joined split: if_splits)
qed

lemma last_split_when:
  assumes "P c" and "\<forall>x \<in> set b. \<not> P x"
  shows "last (split_when P (x @ c # b)) = b"
proof (induction x)
  case Nil
  have "split_when P b = [b]" by (rule split_when_none) (rule assms(2))
  then show ?case using assms(1) by simp
next
  case (Cons y x)
  have "length (split_when P (x @ c # b)) > 1"
    using assms(1) split_when_nonempty by (induction x) (auto split: list.splits)
  then show ?case using Cons by (auto split: list.splits)
qed

text \<open>
  A slash in a memory's name loses it: the entry can be read under its full name, but the
  listing gives only what follows the last slash, which reads as nothing.
\<close>

theorem memory_name_with_slash:
  assumes "codec_ok id (mm_codec M)" and "slash_free b" and "valid_utf8 a" and "valid_utf8 b" and "bt_ok m"
    and "kv_get m Memory (memory_key b) = None" and "b \<noteq> a @ ''/'' @ b"
  shows "let n = a @ ''/'' @ b; m' = put_json (mm_codec M) m Memory (memory_key n) (e\<lparr>me_name := n\<rparr>) in
    memory M m' n = Inr (Some (e\<lparr>me_name := n\<rparr>)) \<and> b \<in> set (memory_names m') \<and> memory M m' b = Inr None"
proof -
  let ?n = "a @ ''/'' @ b"
  let ?m' = "put_json (mm_codec M) m Memory (memory_key ?n) (e\<lparr>me_name := ?n\<rparr>)"
  have key: "memory_key ?n = (key [''memory''] @ CHR ''/'' # a) @ CHR ''/'' # b"
    by (simp add: memory_key_def key_joined)
  have "memory M ?m' ?n = Inr (Some (e\<lparr>me_name := ?n\<rparr>))"
    using get_json_put [OF assms(1)] by (simp add: memory_def)
  moreover have "memory M ?m' b = Inr None"
  proof -
    have "memory_key b \<noteq> memory_key ?n" using assms(7) by (simp add: memory_key_def key_joined)
    then have "kv_get ?m' Memory (memory_key b) = None" using assms(6) by simp
    then show ?thesis unfolding memory_def by (rule get_json_none)
  qed
  moreover have "b \<in> set (memory_names ?m')"
  proof -
    have "last (split_char (CHR ''/'') (memory_key ?n)) = b"
      unfolding key split_char_def
      by (rule last_split_when) (use assms(2) in \<open>auto simp: slash_free_def\<close>)
    moreover have "valid_utf8 (memory_key ?n)"
      using assms(3,4) by (simp add: memory_key_def key_joined realm_local_def is_ascii_def byte_val_def valid_utf8_append)
    ultimately have "last_segment (memory_key ?n) = Some b" by (simp add: last_segment_def)
    moreover have "memory_key ?n \<in> set (kv_scan_keys ?m' Memory (kv_prefix [''memory'']))"
      unfolding set_kv_scan_keys [OF bt_ok_put_json [OF assms(5)]]
      by (simp add: memory_key_def kv_prefix_def key_joined prefix_def)
    ultimately show ?thesis unfolding memory_names_def map_filter_def by force
  qed
  ultimately show ?thesis by (simp add: Let_def)
qed

definition memory_codec :: "memory_entry codec" where
  "memory_codec = unary_codec (\<lambda>e. (me_name e, me_kind e, me_content e, me_aliases e, me_created_at e))
     (\<lambda>(n, k, c, a, t). \<lparr>me_name = n, me_kind = k, me_content = c, me_aliases = a, me_created_at = t\<rparr>)"

definition sample_memory :: memory_env where
  "sample_memory = \<lparr>mm_unicode = ascii_unicode, mm_text = rat_codecs, mm_codec = memory_codec\<rparr>"

lemma memory_codec_ok: "codec_ok id (mm_codec sample_memory)"
  unfolding sample_memory_def memory_env.simps memory_codec_def by (rule unary_codec_ok) simp

theorem memory_name_with_slash_witness:
  "\<exists>m. ''b'' \<in> set (memory_names m) \<and> memory sample_memory m ''b'' = Inr None"
proof -
  have "slash_free ''b''" "valid_utf8 ''a''" "valid_utf8 ''b''"
    by (simp_all add: slash_free_def is_ascii_def byte_val_def)
  then show ?thesis
    using memory_name_with_slash [OF memory_codec_ok, of "''b''" "''a''" "[]"]
    by (simp add: Let_def kv_get_def) blast
qed

text \<open>
  A harness name resolves to the digest of the last image put under it, and that digest to
  the image; another name keeps resolving as it did, and so does an image of another digest.
\<close>

theorem put_harness_image_resolves:
  assumes "put_harness_image m name bs = (d, m')"
  shows "resolve_harness m' name = Inr (Some d) \<and> harness_image m' d = Some bs \<and> length d = 16 \<and>
    (name' \<noteq> name \<longrightarrow> resolve_harness m' name' = resolve_harness m name') \<and>
    (d' \<noteq> d \<longrightarrow> harness_image m' d' = harness_image m d')"
proof -
  have m': "m' = kv_put (kv_put m Harness (key [''image'', d]) bs) Harness (key [''name'', name]) d" "d = digest bs"
    using assms by (auto simp: put_harness_image_def Let_def)
  have len: "length (hex_digits w n) = w" for w n by (induction w arbitrary: n) auto
  have hex: "is_ascii (hex_digit (n mod 16))" for n
  proof -
    have "n mod 16 < 16" by simp
    then show ?thesis by (auto simp: hex_digit_def is_ascii_def byte_val_def)
  qed
  have "\<forall>c \<in> set (hex_digits w n). is_ascii c" for w n
    by (induction w arbitrary: n) (auto simp: hex)
  then have "valid_utf8 d" unfolding m'(2) digest_def by (intro valid_utf8_ascii) blast
  moreover have "length d = 16" by (simp add: m'(2) digest_def len)
  moreover have "key [''image'', x] \<noteq> key [''name'', y]" "key [''name'', y] \<noteq> key [''image'', x]"
    "key [''image'', x] = key [''image'', y] \<longleftrightarrow> x = y" "key [''name'', x] = key [''name'', y] \<longleftrightarrow> x = y" for x y
    by (simp_all add: key_joined)
  ultimately show ?thesis
    by (simp add: m'(1) resolve_harness_def harness_image_def)
qed

theorem put_harness_image_resolves_witness:
  "resolve_harness (snd (put_harness_image [] ''os'' ''ELF'')) ''os'' = Inr (Some (digest ''ELF''))"
  using put_harness_image_resolves [of "[]" "''os''" "''ELF''" "digest ''ELF''"]
  by (simp add: put_harness_image_def Let_def)

text \<open>
  A skill that was put loads as what its markdown parses to, and its summary is listed.
\<close>

theorem put_skill_loads:
  assumes "codec_ok id J" and "skill_from_str V md = Inr s" and "valid_utf8 md"
  shows "\<exists>m'. put_skill V J m md = Inr (summary_of s, m') \<and> load_skill V m' (sk_name s) = Inr (Some s) \<and>
    get_json J m' Skill (key [''skill'', ''meta'', sk_name s]) = Inr (Some (summary_of s)) \<and>
    (\<forall>n. n \<noteq> sk_name s \<longrightarrow> load_skill V m' n = load_skill V m n)"
proof -
  have keys: "key [''skill'', ''body'', x] \<noteq> key [''skill'', ''meta'', y]"
    "key [''skill'', ''body'', x] = key [''skill'', ''body'', y] \<longleftrightarrow> x = y" for x y
    by (simp_all add: key_joined)
  let ?m' = "put_json J (kv_put m Skill (key [''skill'', ''body'', sk_name s]) md) Skill
      (key [''skill'', ''meta'', sk_name s]) (summary_of s)"
  have "put_skill V J m md = Inr (summary_of s, ?m')"
    using assms(2) by (simp add: put_skill_def Let_def)
  then show ?thesis
    using assms get_json_put [OF assms(1)] by (simp add: load_skill_def keys)
qed

definition summary_codec :: "skill_summary codec" where
  "summary_codec = unary_codec (\<lambda>s. (su_name s, su_description s)) (\<lambda>(n, d). \<lparr>su_name = n, su_description = d\<rparr>)"

theorem put_skill_loads_witness:
  "\<exists>m' s. put_skill \<lparr>sk_unicode = ascii_unicode, parse_yaml = name_yaml\<rparr> summary_codec [] (named_md ''x'') =
      Inr (summary_of s, m') \<and>
    load_skill \<lparr>sk_unicode = ascii_unicode, parse_yaml = name_yaml\<rparr> m' ''x'' = Inr (Some s)"
proof -
  let ?V = "\<lparr>sk_unicode = ascii_unicode, parse_yaml = name_yaml\<rparr>"
  have "codec_ok id summary_codec" unfolding summary_codec_def by (rule unary_codec_ok) simp
  moreover have "map_sum id sk_name (skill_from_str ?V (named_md ''x'')) = Inr ''x''" by code_simp
  then obtain s where "skill_from_str ?V (named_md ''x'') = Inr s" "sk_name s = ''x''"
    by (cases "skill_from_str ?V (named_md ''x'')") auto
  moreover have "valid_utf8 (named_md ''x'')" by code_simp
  ultimately show ?thesis using put_skill_loads [of summary_codec ?V "named_md ''x''" s "[]"] by auto
qed

end
