(* ===== verification/McpHandler.thy ===== *)
theory McpHandler
  imports McpBridge SmallStores
begin

section \<open>MCP servers by declaration (lib/mcp/src/handler.rs, dispatch.rs)\<close>

text \<open>
  Agents declare servers; equal declarations share one peer, filed under a fingerprint. The
  handler keeps the declarations (\<open>mh_peers\<close>), who made which (\<open>mh_by_owner\<close>) and the bridge with
  the running processes. A method of the handler is a few sections under its locks with calls of
  the bridge between them: each section is a definition, the methods compose them. The clock is
  an argument, the hasher and how a process or an HTTP session is started are the argument
  \<open>mcp_env\<close>. The bridge's \<open>try_bridge\<close> and the event subscription hand out what the state holds.
  The lemmas show that claims and declarations agree under any interleaving of the sections, that
  whole methods keep track of every process, and how an interleaving loses one.
\<close>

subsection \<open>Declarations\<close>

datatype hash_feed = HStr bytes | HLen nat | HNone | HSome

definition feed_option :: "bytes option \<Rightarrow> hash_feed list" where
  "feed_option x = (case x of None \<Rightarrow> [HNone] | Some s \<Rightarrow> [HSome, HStr s])"

definition fingerprint_feed :: "mcp_server_config \<Rightarrow> hash_feed list" where
  "fingerprint_feed c =
     HStr (ms_command c) # HLen (length (ms_args c)) # map HStr (ms_args c) @
     concat (map (\<lambda>(k, v). [HStr k, HStr v]) (ms_env c)) @ feed_option (ms_url c) @ feed_option (ms_auth c)"

type_synonym fingerprint = "64 word"
type_synonym owner = "bytes \<times> bytes"

record 'p mcp_env =
  me_peer :: "'p peer_ops"
  me_hash :: "hash_feed list \<Rightarrow> fingerprint"
  me_spawn :: "bytes \<Rightarrow> bytes list \<Rightarrow> (bytes \<times> bytes) list \<Rightarrow> bytes + 'p"
  me_http :: "bytes \<Rightarrow> bytes option \<Rightarrow> 'p"
  me_late :: "mcp_server_config \<Rightarrow> nat \<Rightarrow> bool"

definition fingerprint_of :: "'p mcp_env \<Rightarrow> mcp_server_config \<Rightarrow> fingerprint" where
  "fingerprint_of M c = me_hash M (fingerprint_feed c)"

definition peer_id :: "fingerprint \<Rightarrow> bytes" where
  "peer_id fp = hex_digits 16 (unat fp)"

datatype server_status = Connecting | Connected | Failed | Disconnected

record server_state =
  sv_status :: server_status
  sv_tools :: "bytes list"
  sv_error :: "bytes option"

definition state_connecting :: server_state where
  "state_connecting = \<lparr>sv_status = Connecting, sv_tools = [], sv_error = None\<rparr>"

definition state_connected :: "bytes list \<Rightarrow> server_state" where
  "state_connected tools = \<lparr>sv_status = Connected, sv_tools = tools, sv_error = None\<rparr>"

definition state_failed :: "bytes \<Rightarrow> server_state" where
  "state_failed e = \<lparr>sv_status = Failed, sv_tools = [], sv_error = Some e\<rparr>"

definition state_idle :: server_state where
  "state_idle = \<lparr>sv_status = Disconnected, sv_tools = [], sv_error = None\<rparr>"

record peer_entry =
  pe_state :: server_state
  pe_refs :: "owner list"
  pe_cfg :: mcp_server_config
  pe_last_used :: "nat option"

datatype mcp_event =
    McpConnecting bytes bytes
  | McpConnected bytes bytes "bytes list"
  | McpFailed bytes bytes bytes
  | McpDisconnected bytes bytes

record 'p mcp_handler =
  mh_bridge :: "'p bridge"
  mh_peers :: "(fingerprint \<times> peer_entry) list"
  mh_by_owner :: "(owner \<times> fingerprint) list"
  mh_events :: "mcp_event list"
  mh_idle_timeout :: nat

definition handler_new :: "nat \<Rightarrow> 'p mcp_handler" where
  "handler_new idle = \<lparr>mh_bridge = [], mh_peers = [], mh_by_owner = [], mh_events = [], mh_idle_timeout = idle\<rparr>"

text \<open>\<open>BTreeSet\<close>.\<close>

definition set_insert :: "'a::linorder \<Rightarrow> 'a list \<Rightarrow> 'a list" where
  "set_insert x xs = (if x \<in> set xs then xs else insort x xs)"

definition set_remove :: "'a \<Rightarrow> 'a list \<Rightarrow> 'a list" where
  "set_remove x xs = filter (\<lambda>y. y \<noteq> x) xs"

text \<open>\<open>get_mut\<close>: an entry changed in place, nothing where there is none.\<close>

definition peer_update ::
  "(fingerprint \<times> peer_entry) list \<Rightarrow> fingerprint \<Rightarrow> (peer_entry \<Rightarrow> peer_entry) \<Rightarrow>
   (fingerprint \<times> peer_entry) list" where
  "peer_update P fp f = map (\<lambda>(k, e). (k, if k = fp then f e else e)) P"

definition emit :: "'p mcp_handler \<Rightarrow> mcp_event list \<Rightarrow> 'p mcp_handler" where
  "emit S evs = S\<lparr>mh_events := mh_events S @ evs\<rparr>"

definition bridge_remove :: "'p mcp_handler \<Rightarrow> fingerprint \<Rightarrow> 'p mcp_handler" where
  "bridge_remove S fp = S\<lparr>mh_bridge := snd (remove_server (mh_bridge S) (peer_id fp))\<rparr>"

subsection \<open>Reading the state\<close>

definition states :: "'p mcp_handler \<Rightarrow> (owner \<times> server_state) list" where
  "states S = List.map_filter
     (\<lambda>(k, fp). map_option (\<lambda>e. (k, pe_state e)) (map_of (mh_peers S) fp)) (mh_by_owner S)"

definition allowed :: "'p mcp_handler \<Rightarrow> bytes \<Rightarrow> bytes list \<Rightarrow> (fingerprint \<times> bytes) list" where
  "allowed S agent names = concat (map (\<lambda>n.
     case map_of (mh_by_owner S) (agent, n) of
       None \<Rightarrow> []
     | Some fp \<Rightarrow> (case map_of (mh_peers S) fp of
                    None \<Rightarrow> []
                  | Some e \<Rightarrow> map (\<lambda>t. (fp, t)) (sv_tools (pe_state e)))) names)"

subsection \<open>Registering\<close>

text \<open>An owner's claim is taken off the peer it was on; a peer nobody claims is forgotten.\<close>

definition drop_ref :: "(fingerprint \<times> peer_entry) list \<Rightarrow> fingerprint \<Rightarrow> owner \<Rightarrow>
    fingerprint option \<times> (fingerprint \<times> peer_entry) list" where
  "drop_ref P fp k =
     (case map_of P fp of
        None \<Rightarrow> (None, P)
      | Some e \<Rightarrow>
          if set_remove k (pe_refs e) = [] then (Some fp, bt_remove fp P)
          else (None, peer_update P fp (\<lambda>e. e\<lparr>pe_refs := set_remove k (pe_refs e)\<rparr>)))"

definition replay_event :: "bytes \<Rightarrow> bytes \<Rightarrow> server_state \<Rightarrow> mcp_event list" where
  "replay_event agent name s =
     (case sv_status s of
        Connected \<Rightarrow> [McpConnected agent name (sv_tools s)]
      | Failed \<Rightarrow> [McpFailed agent name (case sv_error s of Some e \<Rightarrow> e | None \<Rightarrow> [])]
      | _ \<Rightarrow> [])"

definition register_claim ::
  "'p mcp_env \<Rightarrow> 'p mcp_handler \<Rightarrow> bytes \<Rightarrow> mcp_server_config \<Rightarrow> fingerprint option \<times> 'p mcp_handler" where
  "register_claim M S agent c =
     (let fp = fingerprint_of M c; k = (agent, ms_name c);
          (stale, P) = (case map_of (mh_by_owner S) k of
             Some old \<Rightarrow> if old \<noteq> fp then drop_ref (mh_peers S) old k else (None, mh_peers S)
           | None \<Rightarrow> (None, mh_peers S));
          O' = bt_insert k fp (mh_by_owner S)
      in (stale,
          case map_of P fp of
            Some e \<Rightarrow>
              emit (S\<lparr>mh_peers := peer_update P fp (\<lambda>e. e\<lparr>pe_refs := set_insert k (pe_refs e)\<rparr>),
                      mh_by_owner := O'\<rparr>)
                (replay_event agent (ms_name c) (pe_state e))
          | None \<Rightarrow>
              S\<lparr>mh_peers := bt_insert fp \<lparr>pe_state = state_idle, pe_refs = [k], pe_cfg = c, pe_last_used = None\<rparr> P,
                mh_by_owner := O'\<rparr>))"

definition register_for_agent ::
  "'p mcp_env \<Rightarrow> 'p mcp_handler \<Rightarrow> bytes \<Rightarrow> mcp_server_config \<Rightarrow> 'p mcp_handler" where
  "register_for_agent M S agent c =
     (case register_claim M S agent c of
        (None, S') \<Rightarrow> S'
      | (Some old, S') \<Rightarrow> bridge_remove S' old)"

subsection \<open>Connecting\<close>

definition broadcast :: "'p mcp_handler \<Rightarrow> owner list \<Rightarrow> (bytes \<Rightarrow> bytes \<Rightarrow> mcp_event) \<Rightarrow> 'p mcp_handler" where
  "broadcast S owners event = emit S (map (\<lambda>(agent, name). event agent name) owners)"

definition announce :: "'p mcp_handler \<Rightarrow> owner list \<Rightarrow> server_state \<Rightarrow> 'p mcp_handler" where
  "announce S owners s = emit S (concat (map (\<lambda>(agent, name). replay_event agent name s) owners))"

text \<open>Under the peer's gate: None where the peer is gone or settled.\<close>

definition connect_begin :: "'p mcp_handler \<Rightarrow> fingerprint \<Rightarrow> (owner list \<times> 'p mcp_handler) option" where
  "connect_begin S fp =
     (case map_of (mh_peers S) fp of
        None \<Rightarrow> None
      | Some e \<Rightarrow>
          if sv_status (pe_state e) \<in> {Connected, Failed} then None
          else Some (pe_refs e,
            broadcast (S\<lparr>mh_peers := peer_update (mh_peers S) fp (\<lambda>e. e\<lparr>pe_state := state_connecting\<rparr>)\<rparr>)
              (pe_refs e) McpConnecting))"

definition connect_one ::
  "'p mcp_env \<Rightarrow> 'p bridge \<Rightarrow> mcp_server_config \<Rightarrow> fingerprint \<Rightarrow> nat \<Rightarrow> server_state \<times> 'p bridge" where
  "connect_one M B c fp now =
     (if me_late M c now then (state_failed ''timed out after 30s'', B)
      else
        case (case ms_url c of
                Some url \<Rightarrow> Inr (me_http M url (ms_auth c))
              | None \<Rightarrow> me_spawn M (ms_command c) (ms_args c) (ms_env c)) of
          Inl e \<Rightarrow> (state_failed e, B)
        | Inr p \<Rightarrow>
            (case register_peer (me_peer M) B (peer_id fp) p of
               None \<Rightarrow> (state_failed ''timed out after 30s'', B)
             | Some (Inl e, B') \<Rightarrow> (state_failed e, B')
             | Some (Inr tools, B') \<Rightarrow> (state_connected tools, B')))"

definition connect_settle ::
  "'p mcp_handler \<Rightarrow> fingerprint \<Rightarrow> owner list \<Rightarrow> server_state \<Rightarrow> nat \<Rightarrow> 'p mcp_handler" where
  "connect_settle S fp owners s now =
     announce
       (S\<lparr>mh_peers := peer_update (mh_peers S) fp (\<lambda>e. e\<lparr>pe_state := s, pe_last_used := Some now\<rparr>)\<rparr>)
       owners s"

definition connect_peer :: "'p mcp_env \<Rightarrow> 'p mcp_handler \<Rightarrow> fingerprint \<Rightarrow> nat \<Rightarrow> 'p mcp_handler" where
  "connect_peer M S fp now =
     (case map_of (mh_peers S) fp of
        None \<Rightarrow> S
      | Some e \<Rightarrow>
          (case connect_begin S fp of
             None \<Rightarrow> S
           | Some (owners, S1) \<Rightarrow>
               (let (s, B) = connect_one M (mh_bridge S1) (pe_cfg e) fp now
                in connect_settle (S1\<lparr>mh_bridge := B\<rparr>) fp owners s now)))"

text \<open>The connects run concurrently; here one after the other, in the order they are listed.\<close>

definition pending :: "'p mcp_handler \<Rightarrow> bytes \<Rightarrow> bytes list \<Rightarrow> fingerprint list" where
  "pending S agent names =
     filter (\<lambda>fp. case map_of (mh_peers S) fp of
               None \<Rightarrow> False
             | Some e \<Rightarrow> sv_status (pe_state e) \<in> {Disconnected, Connecting})
       (List.map_filter (\<lambda>n. map_of (mh_by_owner S) (agent, n)) names)"

definition ensure_connected ::
  "'p mcp_env \<Rightarrow> 'p mcp_handler \<Rightarrow> bytes \<Rightarrow> bytes list \<Rightarrow> nat \<Rightarrow> 'p mcp_handler" where
  "ensure_connected M S agent names now = foldl (\<lambda>S fp. connect_peer M S fp now) S (pending S agent names)"

subsection \<open>Calling, failing, idling, letting go\<close>

definition mark_failed :: "'p mcp_handler \<Rightarrow> fingerprint \<Rightarrow> bytes \<Rightarrow> 'p mcp_handler" where
  "mark_failed S fp e =
     (case map_of (mh_peers S) fp of
        None \<Rightarrow> S
      | Some x \<Rightarrow>
          if sv_status (pe_state x) = Failed then S
          else broadcast
            (S\<lparr>mh_peers := peer_update (mh_peers S) fp
                 (\<lambda>x. x\<lparr>pe_state := (pe_state x)\<lparr>sv_status := Failed, sv_error := Some e\<rparr>\<rparr>)\<rparr>)
            (pe_refs x) (\<lambda>agent name. McpFailed agent name e))"

definition handler_call ::
  "'p mcp_env \<Rightarrow> 'p mcp_handler \<Rightarrow> fingerprint \<Rightarrow> bytes \<Rightarrow> bytes \<Rightarrow> nat \<Rightarrow> (bytes + bytes) \<times> 'p mcp_handler" where
  "handler_call M S fp name arguments now =
     (let S1 = S\<lparr>mh_peers := peer_update (mh_peers S) fp (\<lambda>e. e\<lparr>pe_last_used := Some now\<rparr>)\<rparr>;
          (r, B) = bridge_call (me_peer M) (mh_bridge S1) (peer_id fp) name arguments;
          S2 = S1\<lparr>mh_bridge := B\<rparr>
      in case r of
           Inr out \<Rightarrow> (Inr out, S2)
         | Inl (Rejected e) \<Rightarrow> (Inl e, S2)
         | Inl (Transport e) \<Rightarrow> (Inl e, mark_failed S2 fp e))"

definition expired :: "nat \<Rightarrow> nat \<Rightarrow> peer_entry \<Rightarrow> bool" where
  "expired idle now e \<longleftrightarrow>
     sv_status (pe_state e) \<in> {Connected, Failed} \<and>
     (case pe_last_used e of None \<Rightarrow> False | Some t \<Rightarrow> idle \<le> now - t)"

definition reap_mark :: "'p mcp_handler \<Rightarrow> nat \<Rightarrow> (fingerprint \<times> owner list) list \<times> 'p mcp_handler" where
  "reap_mark S now =
     (map (\<lambda>(fp, e). (fp, pe_refs e)) (filter (\<lambda>(_, e). expired (mh_idle_timeout S) now e) (mh_peers S)),
      S\<lparr>mh_peers := map (\<lambda>(fp, e). (fp,
          if expired (mh_idle_timeout S) now e
          then e\<lparr>pe_state := (pe_state e)\<lparr>sv_status := Disconnected, sv_tools := []\<rparr>, pe_last_used := None\<rparr>
          else e)) (mh_peers S)\<rparr>)"

definition reap_idle :: "'p mcp_handler \<Rightarrow> nat \<Rightarrow> 'p mcp_handler" where
  "reap_idle S now =
     (let (gone, S') = reap_mark S now
      in foldl (\<lambda>S (fp, owners). broadcast (bridge_remove S fp) owners McpDisconnected) S' gone)"

definition reconnect_mark :: "'p mcp_handler \<Rightarrow> bytes \<Rightarrow> bytes \<Rightarrow> bytes + fingerprint \<times> 'p mcp_handler" where
  "reconnect_mark S agent name =
     (case map_of (mh_by_owner S) (agent, name) of
        None \<Rightarrow> Inl (''mcp '' @ quoted name @ '' is not registered for agent '' @ quoted agent)
      | Some fp \<Rightarrow>
          (case map_of (mh_peers S) fp of
             None \<Rightarrow> Inl (''mcp '' @ quoted name @ '' is not tracked'')
           | Some e \<Rightarrow>
               Inr (fp, S\<lparr>mh_peers := peer_update (mh_peers S) fp (\<lambda>e. e\<lparr>pe_state := state_idle\<rparr>)\<rparr>)))"

definition reconnect_for_agent ::
  "'p mcp_env \<Rightarrow> 'p mcp_handler \<Rightarrow> bytes \<Rightarrow> bytes \<Rightarrow> nat \<Rightarrow> (bytes + unit) \<times> 'p mcp_handler" where
  "reconnect_for_agent M S agent name now =
     (case reconnect_mark S agent name of
        Inl e \<Rightarrow> (Inl e, S)
      | Inr (fp, S') \<Rightarrow> (Inr (), connect_peer M (bridge_remove S' fp) fp now))"

definition unregister_claim :: "'p mcp_handler \<Rightarrow> bytes \<Rightarrow> bytes \<Rightarrow> fingerprint option \<times> 'p mcp_handler" where
  "unregister_claim S agent name =
     (case map_of (mh_by_owner S) (agent, name) of
        None \<Rightarrow> (None, S)
      | Some fp \<Rightarrow>
          (let (gone, P) = drop_ref (mh_peers S) fp (agent, name)
           in (gone, emit (S\<lparr>mh_peers := P, mh_by_owner := bt_remove (agent, name) (mh_by_owner S)\<rparr>)
                 [McpDisconnected agent name])))"

definition unregister_for_agent :: "'p mcp_handler \<Rightarrow> bytes \<Rightarrow> bytes \<Rightarrow> 'p mcp_handler" where
  "unregister_for_agent S agent name =
     (case unregister_claim S agent name of
        (None, S') \<Rightarrow> S'
      | (Some fp, S') \<Rightarrow> bridge_remove S' fp)"

subsection \<open>The tool (dispatch.rs)\<close>

record mcp_args =
  ma_name :: bytes
  ma_args :: "bytes option"

definition tool_line :: "function_def \<Rightarrow> bytes" where
  "tool_line t = fd_name t @ '': '' @ (case fd_description t of Some d \<Rightarrow> d | None \<Rightarrow> [])"

definition tool_matches :: "unicode \<Rightarrow> bytes \<Rightarrow> function_def \<Rightarrow> bool" where
  "tool_matches U query t \<longleftrightarrow>
     query = [] \<or> contains (str_lower U (fd_name t)) query \<or>
     (case fd_description t of Some d \<Rightarrow> contains (str_lower U d) query | None \<Rightarrow> False)"

definition dispatch_mcp ::
  "unicode \<Rightarrow> (bytes \<Rightarrow> bytes + mcp_args) \<Rightarrow> 'p mcp_env \<Rightarrow> 'p mcp_handler \<Rightarrow> bytes \<Rightarrow> bytes \<Rightarrow> bytes list \<Rightarrow>
   nat \<Rightarrow> (bytes + bytes) \<times> 'p mcp_handler" where
  "dispatch_mcp U parse M S agent args names now =
     (case parse args of
        Inl e \<Rightarrow> (Inl (''invalid arguments: '' @ e), S)
      | Inr a \<Rightarrow>
          (let S1 = ensure_connected M S agent names now; reach = allowed S1 agent names
           in if ma_name a \<noteq> []
              then (case find (\<lambda>(_, n). n = ma_name a) reach of
                      None \<Rightarrow> (Inl (''tool not available: '' @ ma_name a), S1)
                    | Some (fp, _) \<Rightarrow>
                        handler_call M S1 fp (ma_name a) (case ma_args a of Some x \<Rightarrow> x | None \<Rightarrow> []) now)
              else
                (let ids = map peer_id (sorted_list_of_set (fst ` set reach));
                     tools = tools_for (mh_bridge S1) ids;
                     query = str_lower U (ma_name a);
                     lines = map tool_line (filter (tool_matches U query) tools)
                 in (Inr (if lines = [] then ''no tools found'' else join_with [CHR 0x0A] lines), S1))))"

subsection \<open>Identity\<close>

lemma HStr_prefix_eq:
  "map HStr xs @ as = map HStr ys @ bs \<Longrightarrow> length xs = length ys \<Longrightarrow> xs = ys \<and> as = bs"
  by (induction xs arbitrary: ys) (auto simp: Suc_length_conv)

lemma feed_option_eq: "feed_option x @ as = feed_option y @ bs \<Longrightarrow> x = y \<and> as = bs"
  by (auto simp: feed_option_def split: option.splits)

lemma feed_env_eq:
  assumes "concat (map (\<lambda>(k, v). [HStr k, HStr v]) xs) @ feed_option a @ as =
    concat (map (\<lambda>(k, v). [HStr k, HStr v]) ys) @ feed_option b @ bs"
  shows "xs = ys \<and> feed_option a @ as = feed_option b @ bs"
  using assms
proof (induction xs arbitrary: ys)
  case Nil
  then show ?case by (cases ys) (auto simp: feed_option_def split: option.splits)
next
  case (Cons x xs)
  show ?case
  proof (cases ys)
    case Nil
    then show ?thesis using Cons.prems by (cases x) (auto simp: feed_option_def split: option.splits)
  next
    case (Cons y zs)
    then show ?thesis using Cons.prems Cons.IH [of zs] by (cases x; cases y) auto
  qed
qed

lemma fingerprint_feed_eq:
  "fingerprint_feed c = fingerprint_feed d \<longleftrightarrow>
     ms_command c = ms_command d \<and> ms_args c = ms_args d \<and> ms_env c = ms_env d \<and> ms_url c = ms_url d \<and>
     ms_auth c = ms_auth d"
proof
  assume eq: "fingerprint_feed c = fingerprint_feed d"
  then have "ms_command c = ms_command d" and len: "length (ms_args c) = length (ms_args d)"
    by (simp_all add: fingerprint_feed_def)
  moreover have "ms_args c = ms_args d \<and>
      concat (map (\<lambda>(k, v). [HStr k, HStr v]) (ms_env c)) @ feed_option (ms_url c) @ feed_option (ms_auth c) =
      concat (map (\<lambda>(k, v). [HStr k, HStr v]) (ms_env d)) @ feed_option (ms_url d) @ feed_option (ms_auth d)"
    using eq by (intro HStr_prefix_eq [OF _ len]) (simp add: fingerprint_feed_def)
  moreover from this have "ms_env c = ms_env d \<and>
      feed_option (ms_url c) @ feed_option (ms_auth c) = feed_option (ms_url d) @ feed_option (ms_auth d)"
    using feed_env_eq by blast
  moreover from this have "ms_url c = ms_url d \<and> feed_option (ms_auth c) @ [] = feed_option (ms_auth d) @ []"
    using feed_option_eq [of "ms_url c" "feed_option (ms_auth c)"] by simp
  moreover from this have "ms_auth c = ms_auth d" using feed_option_eq by blast
  ultimately show "ms_command c = ms_command d \<and> ms_args c = ms_args d \<and> ms_env c = ms_env d \<and>
      ms_url c = ms_url d \<and> ms_auth c = ms_auth d" by blast
qed (simp add: fingerprint_feed_def)

text \<open>The id of a peer names its fingerprint.\<close>

lemma hex_digit_inj: "a < 16 \<Longrightarrow> b < 16 \<Longrightarrow> hex_digit a = hex_digit b \<Longrightarrow> a = b"
proof -
  have val: "of_char (hex_digit d) = (if d < 10 then 48 + d else 87 + d)" if "d < 16" for d :: nat
    using that by (simp add: hex_digit_def)
  assume "a < 16" "b < 16" "hex_digit a = hex_digit b"
  then have "(if a < 10 then 48 + a else 87 + a) = (if b < 10 then 48 + b else 87 + b)"
    using val by metis
  then show "a = b" using \<open>a < 16\<close> \<open>b < 16\<close> by (auto split: if_splits)
qed

lemma hex_digits_inj: "hex_digits w a = hex_digits w b \<Longrightarrow> a mod 16 ^ w = b mod 16 ^ w"
proof (induction w arbitrary: a b)
  case (Suc w)
  have d: "hex_digits w (a div 16) = hex_digits w (b div 16)" "hex_digit (a mod 16) = hex_digit (b mod 16)"
    using Suc.prems by simp_all
  have "a div 16 mod 16 ^ w = b div 16 mod 16 ^ w" by (rule Suc.IH [OF d(1)])
  moreover have "a mod 16 = b mod 16" by (rule hex_digit_inj [OF _ _ d(2)]) simp_all
  ultimately show ?case using mod_mult2_eq [of a 16 "16 ^ w"] mod_mult2_eq [of b 16 "16 ^ w"] by simp
qed simp

lemma peer_id_inj: "peer_id a = peer_id b \<longleftrightarrow> a = b"
proof
  assume "peer_id a = peer_id b"
  then have "unat a mod 16 ^ 16 = unat b mod 16 ^ 16" unfolding peer_id_def by (rule hex_digits_inj)
  moreover have "unat w mod 16 ^ 16 = unat w" for w :: "64 word"
    using unsigned_less [of w] by (intro mod_less) simp
  ultimately have "unat a = unat b" by simp
  then show "a = b" by (rule unsigned_word_eqI)
qed simp

subsection \<open>Claims and declarations\<close>

definition refs_at :: "(fingerprint \<times> peer_entry) list \<Rightarrow> fingerprint \<Rightarrow> owner set" where
  "refs_at P fp = (case map_of P fp of None \<Rightarrow> {} | Some e \<Rightarrow> set (pe_refs e))"

definition claims_ok ::
  "'p mcp_env \<Rightarrow> (fingerprint \<times> peer_entry) list \<Rightarrow> (owner \<times> fingerprint) list \<Rightarrow> bool" where
  "claims_ok M P O' \<longleftrightarrow> bt_ok P \<and> bt_ok O' \<and> (\<forall>fp. {k. map_of O' k = Some fp} = refs_at P fp) \<and>
     (\<forall>fp e. map_of P fp = Some e \<longrightarrow> pe_refs e \<noteq> [] \<and> fingerprint_of M (pe_cfg e) = fp)"

lemma claims_okD:
  assumes "claims_ok M P O'"
  shows "bt_ok P" and "bt_ok O'" and "map_of O' k = Some fp \<longleftrightarrow> k \<in> refs_at P fp"
    and "map_of P fp = Some e \<Longrightarrow> pe_refs e \<noteq> []" and "map_of P fp = Some e \<Longrightarrow> fingerprint_of M (pe_cfg e) = fp"
  using assms by (auto simp: claims_ok_def simp del: split_paired_All)

lemma claims_okI:
  assumes "bt_ok P" and "bt_ok O'" and "\<And>k fp. map_of O' k = Some fp \<longleftrightarrow> k \<in> refs_at P fp"
    and "\<And>fp e. map_of P fp = Some e \<Longrightarrow> pe_refs e \<noteq> [] \<and> fingerprint_of M (pe_cfg e) = fp"
  shows "claims_ok M P O'"
  unfolding claims_ok_def using assms by (auto simp del: split_paired_All)

lemma set_set_insert [simp]: "set (set_insert x xs) = insert x (set xs)"
  by (auto simp: set_insert_def set_insort_key)

lemma set_set_remove [simp]: "set (set_remove x xs) = set xs - {x}"
  by (auto simp: set_remove_def)

lemma map_of_peer_update:
  "map_of (peer_update P fp f) q = (if q = fp then map_option f (map_of P fp) else map_of P q)"
  unfolding peer_update_def by (induction P) auto

lemma bt_ok_peer_update [simp]: "bt_ok (peer_update P fp f) = bt_ok P"
  by (simp add: bt_ok_def peer_update_def comp_def case_prod_unfold)

text \<open>Sections that touch neither the owners nor the configuration of a declaration.\<close>

lemma claims_ok_map:
  assumes "\<And>k e. pe_refs (f k e) = pe_refs e \<and> pe_cfg (f k e) = pe_cfg e"
  shows "claims_ok M (map (\<lambda>(k, e). (k, f k e)) P) O' = claims_ok M P O'"
proof -
  have "map_of (map (\<lambda>(k, e). (k, f k e)) P) q = map_option (f q) (map_of P q)" for q
    by (induction P) auto
  moreover from this have "refs_at (map (\<lambda>(k, e). (k, f k e)) P) = refs_at P"
    using assms by (auto simp: refs_at_def fun_eq_iff split: option.splits)
  moreover have "bt_ok (map (\<lambda>(k, e). (k, f k e)) P) = bt_ok P"
    by (simp add: bt_ok_def comp_def case_prod_unfold)
  moreover have "(\<forall>e. map_option (f fp) (map_of P fp) = Some e \<longrightarrow> pe_refs e \<noteq> [] \<and> fingerprint_of M (pe_cfg e) = fp) =
      (\<forall>e. map_of P fp = Some e \<longrightarrow> pe_refs e \<noteq> [] \<and> fingerprint_of M (pe_cfg e) = fp)" for fp
    by (cases "map_of P fp") (simp_all add: assms)
  ultimately show ?thesis by (simp add: claims_ok_def)
qed

lemma claims_ok_update:
  assumes "\<And>e. pe_refs (f e) = pe_refs e \<and> pe_cfg (f e) = pe_cfg e"
  shows "claims_ok M (peer_update P fp f) O' = claims_ok M P O'"
  unfolding peer_update_def using assms by (intro claims_ok_map) auto

lemma drop_ref_refs:
  assumes "drop_ref P fp k = (gone, P')"
  shows "refs_at P' q = refs_at P q - (if q = fp then {k} else {})"
proof (cases "map_of P fp")
  case None
  then show ?thesis using assms by (simp add: drop_ref_def refs_at_def)
next
  case (Some e)
  have "set (pe_refs e) - {k} = {}" if "set_remove k (pe_refs e) = []"
    using set_set_remove [of k "pe_refs e"] that by simp
  then show ?thesis
    using assms Some
    by (auto simp: drop_ref_def refs_at_def map_of_peer_update split: if_splits option.splits)
qed

lemma drop_ref_entry:
  assumes "drop_ref P fp k = (gone, P')" and "map_of P' q = Some e'"
  shows "\<exists>e. map_of P q = Some e \<and> pe_cfg e' = pe_cfg e \<and> (pe_refs e \<noteq> [] \<longrightarrow> pe_refs e' \<noteq> [])"
  using assms by (auto simp: drop_ref_def map_of_peer_update split: option.splits if_splits)

lemma drop_ref_bt_ok: "drop_ref P fp k = (gone, P') \<Longrightarrow> bt_ok P \<Longrightarrow> bt_ok P'"
  by (auto simp: drop_ref_def split: option.splits if_splits)

lemma claims_ok_unregister:
  assumes ok: "claims_ok M (mh_peers S) (mh_by_owner S)" and r: "unregister_claim S agent name = (gone, S')"
  shows "claims_ok M (mh_peers S') (mh_by_owner S')"
proof (cases "map_of (mh_by_owner S) (agent, name)")
  case (Some fp)
  let ?k = "(agent, name)"
  obtain P where d: "drop_ref (mh_peers S) fp ?k = (gone, P)"
    and S': "mh_peers S' = P" "mh_by_owner S' = bt_remove ?k (mh_by_owner S)"
    using r Some by (auto simp: unregister_claim_def Let_def emit_def split: prod.splits)
  show ?thesis unfolding S'(1)
  proof (rule claims_okI)
    show "map_of (mh_by_owner S') k = Some q \<longleftrightarrow> k \<in> refs_at P q" for k q
      using claims_okD(3) [OF ok, of k q] claims_okD(3) [OF ok, of ?k q] Some
      by (cases "k = ?k"; cases "q = fp") (simp_all add: S' drop_ref_refs [OF d])
    show "pe_refs e' \<noteq> [] \<and> fingerprint_of M (pe_cfg e') = q" if "map_of P q = Some e'" for q e'
      using drop_ref_entry [OF d that] claims_okD(4,5) [OF ok] by metis
    show "bt_ok P" "bt_ok (mh_by_owner S')"
      using claims_okD(1,2) [OF ok] drop_ref_bt_ok [OF d] by (simp_all add: S')
  qed
qed (use assms in \<open>auto simp: unregister_claim_def\<close>)

lemma claims_ok_register:
  assumes ok: "claims_ok M (mh_peers S) (mh_by_owner S)" and r: "register_claim M S agent c = (stale, S')"
  shows "claims_ok M (mh_peers S') (mh_by_owner S')"
proof -
  let ?k = "(agent, ms_name c)" and ?fp = "fingerprint_of M c"
  obtain P where P: "(case map_of (mh_by_owner S) ?k of
             Some old \<Rightarrow> if old \<noteq> ?fp then drop_ref (mh_peers S) old ?k else (None, mh_peers S)
           | None \<Rightarrow> (None, mh_peers S)) = (stale, P)"
    using r by (auto simp: register_claim_def Let_def split: prod.splits)
  have refs: "refs_at P q = refs_at (mh_peers S) q - (if map_of (mh_by_owner S) ?k = Some q \<and> q \<noteq> ?fp then {?k} else {})"
    for q using P drop_ref_refs [of "mh_peers S" q ?k stale P q] drop_ref_refs [of "mh_peers S" _ ?k stale P q]
    by (auto split: option.splits if_splits)
  have entry: "pe_refs e \<noteq> [] \<and> fingerprint_of M (pe_cfg e) = q" if e: "map_of P q = Some e" for q e
    using P e ok drop_ref_entry [of "mh_peers S" _ ?k stale P q e]
    by (fastforce simp: claims_ok_def split: option.splits if_splits)
  have btP: "bt_ok P" using P ok drop_ref_bt_ok [of "mh_peers S" _ ?k stale P]
    by (auto simp: claims_ok_def split: option.splits if_splits)
  have O': "mh_by_owner S' = bt_insert ?k ?fp (mh_by_owner S)"
    using r P by (auto simp: register_claim_def Let_def emit_def split: option.splits)
  define P' where "P' = mh_peers S'"
  have P': "map_of P' q = (if q = ?fp
      then Some (case map_of P ?fp of Some e \<Rightarrow> e\<lparr>pe_refs := set_insert ?k (pe_refs e)\<rparr>
                 | None \<Rightarrow> \<lparr>pe_state = state_idle, pe_refs = [?k], pe_cfg = c, pe_last_used = None\<rparr>)
      else map_of P q)" and btP': "bt_ok P'" for q
    using r P btP by (auto simp: P'_def register_claim_def Let_def emit_def map_of_peer_update split: option.splits)
  have refs': "refs_at P' q = refs_at P q \<union> (if q = ?fp then {?k} else {})" for q
    by (auto simp: refs_at_def P' split: option.splits)
  have "map_of (mh_by_owner S') k = Some q \<longleftrightarrow> k \<in> refs_at P' q" for k q
    using claims_okD(3) [OF ok, of k q] claims_okD(3) [OF ok, of ?k q]
    by (cases "k = ?k"; cases "q = ?fp") (auto simp: O' refs' refs)
  moreover have "pe_refs e \<noteq> [] \<and> fingerprint_of M (pe_cfg e) = q" if "map_of P' q = Some e" for q e
  proof -
    have "set_insert ?k xs \<noteq> []" for xs using set_set_insert [of ?k xs] by (metis empty_set insert_not_empty)
    then show ?thesis using that entry [of q] by (auto simp: P' split: if_splits option.splits)
  qed
  moreover have "bt_ok (mh_by_owner S')" using claims_okD(2) [OF ok] by (simp add: O')
  ultimately show ?thesis using btP' by (intro claims_okI) (simp_all add: P'_def)
qed

text \<open>
  The sections of the methods as steps: any of them may run between two of another method, and
  the bridge may be anything.
\<close>

inductive mcp_step :: "'p mcp_env \<Rightarrow> 'p mcp_handler \<Rightarrow> 'p mcp_handler \<Rightarrow> bool" for M where
  Register: "mcp_step M S (snd (register_claim M S agent c))"
| Unregister: "mcp_step M S (snd (unregister_claim S agent name))"
| Begin: "connect_begin S fp = Some (owners, S') \<Longrightarrow> mcp_step M S S'"
| Settle: "mcp_step M S (connect_settle S fp owners s now)"
| Reap: "mcp_step M S (snd (reap_mark S now))"
| Reconnect: "reconnect_mark S agent name = Inr (fp, S') \<Longrightarrow> mcp_step M S S'"
| Use: "mcp_step M S (S\<lparr>mh_peers := peer_update (mh_peers S) fp (\<lambda>e. e\<lparr>pe_last_used := Some now\<rparr>)\<rparr>)"
| Fail: "mcp_step M S (mark_failed S fp e)"
| Bridge: "mcp_step M S (S\<lparr>mh_bridge := B\<rparr>)"
| Tell: "mcp_step M S (emit S evs)"

abbreviation handler_claims :: "'p mcp_env \<Rightarrow> 'p mcp_handler \<Rightarrow> bool" where
  "handler_claims M S \<equiv> claims_ok M (mh_peers S) (mh_by_owner S)"

lemma emit_simps [simp]:
  "mh_peers (emit S evs) = mh_peers S" "mh_by_owner (emit S evs) = mh_by_owner S"
  "mh_bridge (emit S evs) = mh_bridge S" "mh_idle_timeout (emit S evs) = mh_idle_timeout S"
  by (simp_all add: emit_def)

lemma claims_begin: "connect_begin S fp = Some (owners, S') \<Longrightarrow> handler_claims M S' = handler_claims M S"
  by (auto simp: connect_begin_def broadcast_def claims_ok_update split: option.splits if_splits)

lemma claims_settle: "handler_claims M (connect_settle S fp owners s now) = handler_claims M S"
  by (simp add: connect_settle_def announce_def claims_ok_update)

lemma claims_reap: "handler_claims M (snd (reap_mark S now)) = handler_claims M S"
  unfolding reap_mark_def snd_conv by (simp, rule claims_ok_map) simp

lemma claims_reconnect: "reconnect_mark S agent name = Inr (fp, S') \<Longrightarrow> handler_claims M S' = handler_claims M S"
  by (auto simp: reconnect_mark_def claims_ok_update split: option.splits)

lemma claims_fail: "handler_claims M (mark_failed S fp e) = handler_claims M S"
  by (auto simp: mark_failed_def broadcast_def claims_ok_update split: option.splits)

lemma claims_step: "mcp_step M S S' \<Longrightarrow> handler_claims M S \<Longrightarrow> handler_claims M S'"
proof (induction rule: mcp_step.induct)
  case (Register S agent c)
  then show ?case using claims_ok_register by (metis prod.collapse)
next
  case (Unregister S agent name)
  then show ?case using claims_ok_unregister by (metis prod.collapse)
qed (simp_all add: claims_begin claims_settle claims_reap claims_reconnect claims_fail claims_ok_update)

lemma claims_new: "handler_claims M (handler_new idle)"
  by (simp add: claims_ok_def handler_new_def refs_at_def)

lemma claims_reachable: "(mcp_step M)\<^sup>*\<^sup>* (handler_new idle) S \<Longrightarrow> handler_claims M S"
  by (induction rule: rtranclp_induct) (simp_all add: claims_new claims_step)

subsection \<open>Processes\<close>

text \<open>
  The bridge against the declarations, except for the peers of \<open>F\<close>, whose processes are still to
  be stopped.
\<close>

definition accounted :: "'p mcp_handler \<Rightarrow> 'p connected_peer \<Rightarrow> bool" where
  "accounted S p \<longleftrightarrow> (\<exists>fp e. map_of (mh_peers S) fp = Some e \<and> cp_id p = peer_id fp \<and>
     sv_status (pe_state e) \<in> {Connected, Failed} \<and> map fd_name (cp_tools p) = sv_tools (pe_state e))"

definition procs_ok :: "fingerprint set \<Rightarrow> 'p mcp_handler \<Rightarrow> bool" where
  "procs_ok F S \<longleftrightarrow> distinct (map cp_id (mh_bridge S)) \<and>
     (\<forall>p \<in> set (mh_bridge S). cp_id p \<in> peer_id ` F \<or> accounted S p) \<and>
     (\<forall>fp e. map_of (mh_peers S) fp = Some e \<longrightarrow> sv_status (pe_state e) \<noteq> Connecting \<and>
        (sv_status (pe_state e) = Connected \<longrightarrow> fp \<notin> F \<and> peer_id fp \<in> cp_id ` set (mh_bridge S)))"

lemma accountedI:
  "map_of (mh_peers S) fp = Some e \<Longrightarrow> cp_id p = peer_id fp \<Longrightarrow> sv_status (pe_state e) \<in> {Connected, Failed} \<Longrightarrow>
     map fd_name (cp_tools p) = sv_tools (pe_state e) \<Longrightarrow> accounted S p"
  unfolding accounted_def by blast

lemma procs_okD:
  assumes "procs_ok F S"
  shows "distinct (map cp_id (mh_bridge S))"
    and "p \<in> set (mh_bridge S) \<Longrightarrow> cp_id p \<in> peer_id ` F \<or> accounted S p"
    and "map_of (mh_peers S) fp = Some e \<Longrightarrow> sv_status (pe_state e) \<noteq> Connecting"
    and "map_of (mh_peers S) fp = Some e \<Longrightarrow> sv_status (pe_state e) = Connected \<Longrightarrow>
      fp \<notin> F \<and> peer_id fp \<in> cp_id ` set (mh_bridge S)"
  using assms by (simp_all add: procs_ok_def)

lemma procs_okI:
  assumes "distinct (map cp_id (mh_bridge S))"
    and "\<And>p. p \<in> set (mh_bridge S) \<Longrightarrow> cp_id p \<in> peer_id ` F \<or> accounted S p"
    and "\<And>fp e. map_of (mh_peers S) fp = Some e \<Longrightarrow> sv_status (pe_state e) \<noteq> Connecting \<and>
      (sv_status (pe_state e) = Connected \<longrightarrow> fp \<notin> F \<and> peer_id fp \<in> cp_id ` set (mh_bridge S))"
  shows "procs_ok F S"
  using assms by (simp add: procs_ok_def)

lemma procs_ok_emit [simp]: "procs_ok F (emit S evs) = procs_ok F S"
  by (simp add: procs_ok_def accounted_def)

lemma accounted_cong: "mh_peers S' = mh_peers S \<Longrightarrow> accounted S' p = accounted S p"
  by (simp add: accounted_def)

lemma bridge_remove_simps [simp]:
  "mh_peers (bridge_remove S fp) = mh_peers S" "mh_by_owner (bridge_remove S fp) = mh_by_owner S"
  "mh_bridge (bridge_remove S fp) = filter (\<lambda>p. cp_id p \<noteq> peer_id fp) (mh_bridge S)"
  by (simp_all add: bridge_remove_def remove_server_def)

lemma procs_ok_remove:
  assumes ok: "procs_ok (insert fp F) S"
  shows "procs_ok F (bridge_remove S fp)"
proof (rule procs_okI)
  show "distinct (map cp_id (mh_bridge (bridge_remove S fp)))"
    using procs_okD(1) [OF ok] by (simp add: distinct_map_filter)
  show "cp_id p \<in> peer_id ` F \<or> accounted (bridge_remove S fp) p" if "p \<in> set (mh_bridge (bridge_remove S fp))" for p
    using that procs_okD(2) [OF ok, of p] by (auto simp: accounted_def)
  show "sv_status (pe_state e) \<noteq> Connecting \<and> (sv_status (pe_state e) = Connected \<longrightarrow>
      q \<notin> F \<and> peer_id q \<in> cp_id ` set (mh_bridge (bridge_remove S fp)))"
    if e: "map_of (mh_peers (bridge_remove S fp)) q = Some e" for q e
  proof -
    have "cp_id ` set (mh_bridge (bridge_remove S fp)) = cp_id ` set (mh_bridge S) - {peer_id fp}" by auto
    then show ?thesis using e procs_okD(3,4) [OF ok, of q e] by (simp add: peer_id_inj)
  qed
qed

text \<open>Entries changed in place, or taken away with their process listed to be stopped.\<close>

lemma procs_ok_entries:
  assumes ok: "procs_ok F S" and B: "mh_bridge S' = mh_bridge S"
    and new: "\<And>fp e'. map_of (mh_peers S') fp = Some e' \<Longrightarrow>
      (\<exists>e. map_of (mh_peers S) fp = Some e \<and> pe_state e' = pe_state e \<and> fp \<notin> G) \<or>
      sv_status (pe_state e') = Disconnected"
    and gone: "\<And>fp e. map_of (mh_peers S) fp = Some e \<Longrightarrow> fp \<in> G \<or>
      (\<exists>e'. map_of (mh_peers S') fp = Some e' \<and> pe_state e' = pe_state e)"
  shows "procs_ok (F \<union> G) S'"
proof (rule procs_okI)
  show "distinct (map cp_id (mh_bridge S'))" using procs_okD(1) [OF ok] B by simp
  show "cp_id p \<in> peer_id ` (F \<union> G) \<or> accounted S' p" if p: "p \<in> set (mh_bridge S')" for p
  proof (cases "accounted S p")
    case True
    then show ?thesis using gone by (fastforce simp: accounted_def)
  next
    case False
    then show ?thesis using procs_okD(2) [OF ok, of p] p B by auto
  qed
  show "sv_status (pe_state e') \<noteq> Connecting \<and> (sv_status (pe_state e') = Connected \<longrightarrow>
      q \<notin> F \<union> G \<and> peer_id q \<in> cp_id ` set (mh_bridge S'))" if e: "map_of (mh_peers S') q = Some e'" for q e'
    using new [OF e] procs_okD(3,4) [OF ok, of q] B by auto
qed

lemma drop_ref_states:
  assumes "drop_ref P fp k = (gone, P')"
  shows "map_of P' q = Some e' \<Longrightarrow> \<exists>e. map_of P q = Some e \<and> pe_state e' = pe_state e"
    and "map_of P' q = Some e' \<Longrightarrow> q \<notin> set_option gone"
    and "map_of P q = Some e \<Longrightarrow> q \<in> set_option gone \<or> (\<exists>e'. map_of P' q = Some e' \<and> pe_state e' = pe_state e)"
    and "q \<in> set_option gone \<Longrightarrow> q = fp"
  using assms by (auto simp: drop_ref_def map_of_peer_update split: option.splits if_splits)

lemma procs_ok_unregister:
  assumes "procs_ok {} S"
  shows "procs_ok {} (unregister_for_agent S agent name)"
proof -
  obtain gone S' where r: "unregister_claim S agent name = (gone, S')" by (cases "unregister_claim S agent name") blast
  have "procs_ok (set_option gone) S'"
  proof (cases "map_of (mh_by_owner S) (agent, name)")
    case None
    then show ?thesis using r assms by (simp add: unregister_claim_def)
  next
    case (Some fp)
    then obtain P where d: "drop_ref (mh_peers S) fp (agent, name) = (gone, P)"
      and S': "mh_peers S' = P" "mh_bridge S' = mh_bridge S"
      using r by (auto simp: unregister_claim_def Let_def split: prod.splits)
    have "procs_ok ({} \<union> set_option gone) S'"
      by (rule procs_ok_entries [OF assms S'(2)]) (use drop_ref_states [OF d] in \<open>auto simp: S'(1)\<close>)
    then show ?thesis by simp
  qed
  then show ?thesis
    using r procs_ok_remove [of _ "{}" S'] by (cases gone) (simp_all add: unregister_for_agent_def)
qed

lemma procs_ok_register:
  assumes "procs_ok {} S"
  shows "procs_ok {} (register_for_agent M S agent c)"
proof -
  let ?fp = "fingerprint_of M c" and ?k = "(agent, ms_name c)"
  obtain stale S' where r: "register_claim M S agent c = (stale, S')" by (cases "register_claim M S agent c") blast
  obtain P where P: "(case map_of (mh_by_owner S) ?k of
             Some old \<Rightarrow> if old \<noteq> ?fp then drop_ref (mh_peers S) old ?k else (None, mh_peers S)
           | None \<Rightarrow> (None, mh_peers S)) = (stale, P)"
    using r by (auto simp: register_claim_def Let_def split: prod.splits)
  have old: "\<And>q e'. map_of P q = Some e' \<Longrightarrow> \<exists>e. map_of (mh_peers S) q = Some e \<and> pe_state e' = pe_state e"
    "\<And>q e'. map_of P q = Some e' \<Longrightarrow> q \<notin> set_option stale"
    "\<And>q e. map_of (mh_peers S) q = Some e \<Longrightarrow> q \<in> set_option stale \<or> (\<exists>e'. map_of P q = Some e' \<and> pe_state e' = pe_state e)"
    "?fp \<notin> set_option stale"
  proof -
    have "(stale = None \<and> P = mh_peers S) \<or> (\<exists>q. q \<noteq> ?fp \<and> drop_ref (mh_peers S) q ?k = (stale, P))"
      using P by (auto split: option.splits if_splits)
    then consider "stale = None" "P = mh_peers S" | q where "q \<noteq> ?fp" "drop_ref (mh_peers S) q ?k = (stale, P)"
      by blast
    note cases = this
    show "\<exists>e. map_of (mh_peers S) q = Some e \<and> pe_state e' = pe_state e" if "map_of P q = Some e'" for q e'
      using cases by cases (use that drop_ref_states(1) in auto)
    show "q \<notin> set_option stale" if "map_of P q = Some e'" for q e'
      using cases by cases (use that drop_ref_states(2) in auto)
    show "q \<in> set_option stale \<or> (\<exists>e'. map_of P q = Some e' \<and> pe_state e' = pe_state e)"
      if "map_of (mh_peers S) q = Some e" for q e
      using cases by cases (use that drop_ref_states(3) in auto)
    show "?fp \<notin> set_option stale"
      using cases by cases (simp, use drop_ref_states(4) [where q = ?fp] in blast)
  qed
  have B: "mh_bridge S' = mh_bridge S"
    using r P by (auto simp: register_claim_def Let_def split: option.splits)
  have P': "map_of (mh_peers S') q = (if q = ?fp
      then Some (case map_of P ?fp of Some e \<Rightarrow> e\<lparr>pe_refs := set_insert ?k (pe_refs e)\<rparr>
                 | None \<Rightarrow> \<lparr>pe_state = state_idle, pe_refs = [?k], pe_cfg = c, pe_last_used = None\<rparr>)
      else map_of P q)" for q
    using r P by (auto simp: register_claim_def Let_def map_of_peer_update split: option.splits)
  have "procs_ok ({} \<union> set_option stale) S'"
  proof (rule procs_ok_entries [OF assms B])
    fix q e'
    assume e': "map_of (mh_peers S') q = Some e'"
    show "(\<exists>e. map_of (mh_peers S) q = Some e \<and> pe_state e' = pe_state e \<and> q \<notin> set_option stale) \<or>
        sv_status (pe_state e') = Disconnected"
    proof (cases "map_of P q")
      case None
      then show ?thesis using e' by (auto simp: P' state_idle_def split: if_splits)
    next
      case (Some e)
      then have "pe_state e' = pe_state e" using e' by (auto simp: P' split: if_splits)
      then show ?thesis using old(1,2) [OF Some] by auto
    qed
  next
    fix q e
    assume "map_of (mh_peers S) q = Some e"
    from old(3) [OF this] show "q \<in> set_option stale \<or> (\<exists>e'. map_of (mh_peers S') q = Some e' \<and> pe_state e' = pe_state e)"
      by (auto simp: P')
  qed
  then show ?thesis
    using r procs_ok_remove [of _ "{}" S'] by (cases stale) (simp_all add: register_for_agent_def)
qed

lemma connect_one_cases:
  assumes "connect_one M B c fp now = (s, B')"
  shows "(sv_status s = Failed \<and> B' = B) \<or>
    (sv_status s = Connected \<and> (\<exists>q. B' = B @ [q] \<and> cp_id q = peer_id fp \<and> map fd_name (cp_tools q) = sv_tools s))"
proof (cases "me_late M c now")
  case True
  then show ?thesis using assms by (auto simp: connect_one_def state_failed_def)
next
  case False
  let ?start = "case ms_url c of Some url \<Rightarrow> Inr (me_http M url (ms_auth c))
    | None \<Rightarrow> me_spawn M (ms_command c) (ms_args c) (ms_env c)"
  show ?thesis
  proof (cases ?start)
    case (Inl e)
    then show ?thesis using assms False unfolding connect_one_def by (auto simp: state_failed_def)
  next
    case (Inr p)
    let ?r = "register_peer (me_peer M) B (peer_id fp) p"
    have r: "(s, B') = (case ?r of None \<Rightarrow> (state_failed ''timed out after 30s'', B)
        | Some (Inl e, B') \<Rightarrow> (state_failed e, B') | Some (Inr tools, B') \<Rightarrow> (state_connected tools, B'))"
      using assms False Inr unfolding connect_one_def by simp
    show ?thesis
    proof (cases ?r)
      case None
      then show ?thesis using r by (simp add: state_failed_def)
    next
      case (Some x)
      obtain y B1 where x: "x = (y, B1)" by (cases x) blast
      show ?thesis using r register_peer_shape [OF Some [unfolded x]]
        by (cases y) (auto simp: Some x state_failed_def state_connected_def)
    qed
  qed
qed

lemma procs_ok_connect:
  assumes ok: "procs_ok {} S"
  shows "procs_ok {} (connect_peer M S fp now)"
proof (cases "connect_begin S fp")
  case None
  then show ?thesis using ok by (auto simp: connect_peer_def split: option.splits)
next
  case (Some b)
  obtain owners S1 where S1: "connect_begin S fp = Some (owners, S1)" using Some by (cases b) simp
  obtain e where e: "map_of (mh_peers S) fp = Some e" and st: "sv_status (pe_state e) \<notin> {Connected, Failed}"
    and B1: "mh_bridge S1 = mh_bridge S"
    and P1: "mh_peers S1 = peer_update (mh_peers S) fp (\<lambda>e. e\<lparr>pe_state := state_connecting\<rparr>)"
    using S1 by (auto simp: connect_begin_def broadcast_def split: option.splits if_splits)
  obtain s B where c: "connect_one M (mh_bridge S) (pe_cfg e) fp now = (s, B)"
    by (cases "connect_one M (mh_bridge S) (pe_cfg e) fp now") blast
  define S2 where "S2 = connect_peer M S fp now"
  have B2: "mh_bridge S2 = B" and P2: "map_of (mh_peers S2) q =
      (if q = fp then Some (e\<lparr>pe_state := s, pe_last_used := Some now\<rparr>) else map_of (mh_peers S) q)" for q
    using c by (auto simp: S2_def connect_peer_def e S1 B1 P1 connect_settle_def announce_def map_of_peer_update)
  have absent: "peer_id fp \<notin> cp_id ` set (mh_bridge S)"
    using procs_okD(2) [OF ok] e st by (fastforce simp: accounted_def peer_id_inj)
  have keep: "accounted S2 p" if p: "p \<in> set (mh_bridge S)" for p
  proof -
    obtain q x where q: "map_of (mh_peers S) q = Some x" "cp_id p = peer_id q"
      "sv_status (pe_state x) \<in> {Connected, Failed}" "map fd_name (cp_tools p) = sv_tools (pe_state x)"
      using procs_okD(2) [OF ok p] by (auto simp: accounted_def)
    moreover have "q \<noteq> fp" using absent p q(2) by (metis imageI)
    ultimately show ?thesis unfolding accounted_def P2 by (intro exI [of _ q] exI [of _ x]) simp
  qed
  have "procs_ok {} S2"
  proof (rule procs_okI)
    show "distinct (map cp_id (mh_bridge S2))"
      using connect_one_cases [OF c] procs_okD(1) [OF ok] absent by (auto simp: B2)
    show "cp_id p \<in> peer_id ` {} \<or> accounted S2 p" if p: "p \<in> set (mh_bridge S2)" for p
    proof (cases "p \<in> set (mh_bridge S)")
      case False
      then have "sv_status s = Connected" "cp_id p = peer_id fp" "map fd_name (cp_tools p) = sv_tools s"
        using connect_one_cases [OF c] p by (auto simp: B2)
      then show ?thesis using accountedI [of S2 fp "e\<lparr>pe_state := s, pe_last_used := Some now\<rparr>" p] by (simp add: P2)
    qed (simp add: keep)
    show "sv_status (pe_state x) \<noteq> Connecting \<and> (sv_status (pe_state x) = Connected \<longrightarrow>
        q \<notin> {} \<and> peer_id q \<in> cp_id ` set (mh_bridge S2))" if x: "map_of (mh_peers S2) q = Some x" for q x
      using connect_one_cases [OF c] x procs_okD(3,4) [OF ok, of q x] by (auto simp: B2 P2 split: if_splits)
  qed
  then show ?thesis by (simp add: S2_def)
qed

lemma foldl_preserves: "(\<And>x S. P S \<Longrightarrow> P (f S x)) \<Longrightarrow> P S \<Longrightarrow> P (foldl f S xs)"
  by (induction xs arbitrary: S) simp_all

lemma procs_ok_ensure: "procs_ok {} S \<Longrightarrow> procs_ok {} (ensure_connected M S agent names now)"
  unfolding ensure_connected_def by (rule foldl_preserves) (simp_all add: procs_ok_connect)

text \<open>Entries whose status may have turned to failed, their process with them.\<close>

lemma procs_ok_failing:
  assumes ok: "procs_ok {} S"
    and B: "map (\<lambda>p. (cp_id p, cp_tools p)) (mh_bridge S') = map (\<lambda>p. (cp_id p, cp_tools p)) (mh_bridge S)"
    and P: "\<And>fp. map_of (mh_peers S') fp = map_option (f fp) (map_of (mh_peers S) fp)"
    and f: "\<And>fp e. sv_tools (pe_state (f fp e)) = sv_tools (pe_state e) \<and>
      (sv_status (pe_state (f fp e)) = sv_status (pe_state e) \<or> sv_status (pe_state (f fp e)) = Failed)"
  shows "procs_ok {} S'"
proof (rule procs_okI)
  have ids: "map cp_id (mh_bridge S') = map cp_id (mh_bridge S)"
    using arg_cong [OF B, of "map fst"] by (simp add: comp_def)
  then show "distinct (map cp_id (mh_bridge S'))" using procs_okD(1) [OF ok] by simp
  have ids': "cp_id ` set (mh_bridge S') = cp_id ` set (mh_bridge S)" using ids by (metis set_map)
  show "cp_id p \<in> peer_id ` {} \<or> accounted S' p" if p: "p \<in> set (mh_bridge S')" for p
  proof -
    have "(cp_id p, cp_tools p) \<in> set (map (\<lambda>p. (cp_id p, cp_tools p)) (mh_bridge S))"
      unfolding B [symmetric] using p by simp
    then obtain q where q: "q \<in> set (mh_bridge S)" "cp_id q = cp_id p" "cp_tools q = cp_tools p" by auto
    obtain fp e where e: "map_of (mh_peers S) fp = Some e" "cp_id q = peer_id fp"
      "sv_status (pe_state e) \<in> {Connected, Failed}" "map fd_name (cp_tools q) = sv_tools (pe_state e)"
      using procs_okD(2) [OF ok q(1)] by (auto simp: accounted_def)
    have "map_of (mh_peers S') fp = Some (f fp e)" by (simp add: P e(1))
    moreover have "sv_status (pe_state (f fp e)) \<in> {Connected, Failed}" using e(3) f [of fp e] by auto
    ultimately have "accounted S' p" using accountedI [of S' fp "f fp e" p] e q f [of fp e] by simp
    then show ?thesis ..
  qed
  show "sv_status (pe_state e') \<noteq> Connecting \<and> (sv_status (pe_state e') = Connected \<longrightarrow>
      q \<notin> {} \<and> peer_id q \<in> cp_id ` set (mh_bridge S'))" if e': "map_of (mh_peers S') q = Some e'" for q e'
  proof -
    obtain e where e: "map_of (mh_peers S) q = Some e" "e' = f q e" using e' P [of q] by auto
    then show ?thesis using procs_okD(3,4) [OF ok e(1)] f [of q e] ids' by auto
  qed
qed

lemma procs_ok_mark_failed:
  assumes "procs_ok {} S"
  shows "procs_ok {} (mark_failed S fp e)"
proof (cases "map_of (mh_peers S) fp")
  case (Some x)
  let ?S = "S\<lparr>mh_peers := peer_update (mh_peers S) fp
    (\<lambda>x. x\<lparr>pe_state := (pe_state x)\<lparr>sv_status := Failed, sv_error := Some e\<rparr>\<rparr>)\<rparr>"
  have "procs_ok {} ?S"
    by (rule procs_ok_failing [OF assms, of ?S "\<lambda>q x. if q = fp then x\<lparr>pe_state := (pe_state x)\<lparr>sv_status := Failed, sv_error := Some e\<rparr>\<rparr> else x"])
      (auto simp: map_of_peer_update option.map_ident)
  then show ?thesis using assms Some by (simp add: mark_failed_def broadcast_def)
qed (use assms in \<open>simp add: mark_failed_def\<close>)

lemma procs_ok_call:
  assumes ok: "procs_ok {} S" and r: "handler_call M S fp name arguments now = (r, S')"
  shows "procs_ok {} S'"
proof -
  let ?P = "peer_update (mh_peers S) fp (\<lambda>e. e\<lparr>pe_last_used := Some now\<rparr>)"
  let ?S = "S\<lparr>mh_peers := ?P, mh_bridge := snd (bridge_call (me_peer M) (mh_bridge S) (peer_id fp) name arguments)\<rparr>"
  have used: "procs_ok {} ?S"
    by (rule procs_ok_failing [OF ok, of ?S "\<lambda>q x. if q = fp then x\<lparr>pe_last_used := Some now\<rparr> else x"])
      (auto simp: bridge_call_keeps map_of_peer_update option.map_ident)
  have "S' = ?S \<or> (\<exists>e. S' = mark_failed ?S fp e)"
    using r by (auto simp: handler_call_def Let_def case_prod_unfold split: sum.splits call_error.splits)
  then show ?thesis using used procs_ok_mark_failed by blast
qed

lemma procs_ok_reap:
  assumes ok: "procs_ok {} S" and bt: "bt_ok (mh_peers S)"
  shows "procs_ok {} (reap_idle S now)"
proof -
  obtain gone S' where r: "reap_mark S now = (gone, S')" by (cases "reap_mark S now") blast
  let ?x = "expired (mh_idle_timeout S) now"
  let ?F = "{fp. \<exists>e. map_of (mh_peers S) fp = Some e \<and> ?x e}"
  have F: "fst ` set gone = ?F"
    using r bt_get_in [OF bt] by (force simp: reap_mark_def)
  have P': "map_of (mh_peers S') fp = map_option (\<lambda>e. if ?x e
      then e\<lparr>pe_state := (pe_state e)\<lparr>sv_status := Disconnected, sv_tools := []\<rparr>, pe_last_used := None\<rparr> else e)
      (map_of (mh_peers S) fp)" for fp
    using r by (auto simp: reap_mark_def map_of_map)
  have B: "mh_bridge S' = mh_bridge S" using r by (auto simp: reap_mark_def)
  have "procs_ok ({} \<union> ?F) S'"
  proof (rule procs_ok_entries [OF ok B])
    fix fp e'
    assume e': "map_of (mh_peers S') fp = Some e'"
    obtain e where e: "map_of (mh_peers S) fp = Some e" using e' P' [of fp] by auto
    show "(\<exists>e. map_of (mh_peers S) fp = Some e \<and> pe_state e' = pe_state e \<and> fp \<notin> ?F) \<or>
        sv_status (pe_state e') = Disconnected"
      using e e' P' [of fp] by (cases "?x e") auto
  qed (auto simp: P')
  then have "procs_ok (fst ` set gone) S'" by (simp add: F)
  then have "procs_ok {} (foldl (\<lambda>S (fp, owners). broadcast (bridge_remove S fp) owners McpDisconnected) S' gone)"
  proof (induction gone arbitrary: S')
    case (Cons x gone)
    obtain fp owners where x: "x = (fp, owners)" by (cases x) blast
    have "procs_ok (fst ` set gone) (bridge_remove S' fp)"
      using Cons.prems by (intro procs_ok_remove) (simp add: x)
    then show ?case using Cons.IH by (simp add: x broadcast_def)
  qed simp
  then show ?thesis by (simp add: reap_idle_def r)
qed

lemma procs_ok_reconnect:
  assumes ok: "procs_ok {} S" and r: "reconnect_for_agent M S agent name now = (r, S')"
  shows "procs_ok {} S'"
proof (cases "reconnect_mark S agent name")
  case (Inl e)
  then show ?thesis using r ok by (simp add: reconnect_for_agent_def)
next
  case (Inr x)
  obtain fp S1 where x: "reconnect_mark S agent name = Inr (fp, S1)" using Inr by (cases x) simp
  have "procs_ok ({} \<union> {fp}) S1"
    by (rule procs_ok_entries [OF ok])
      (use x in \<open>auto simp: reconnect_mark_def map_of_peer_update state_idle_def split: option.splits if_splits\<close>)
  then have "procs_ok {} (bridge_remove S1 fp)" by (intro procs_ok_remove) simp
  then show ?thesis using r x procs_ok_connect by (auto simp: reconnect_for_agent_def)
qed

subsection \<open>The properties\<close>

text \<open>Whole methods, one after the other.\<close>

inductive mcp_run :: "unicode \<Rightarrow> (bytes \<Rightarrow> bytes + mcp_args) \<Rightarrow> 'p mcp_env \<Rightarrow> nat \<Rightarrow> 'p mcp_handler \<Rightarrow> bool"
  for U parse M idle where
  Start: "mcp_run U parse M idle (handler_new idle)"
| Register: "mcp_run U parse M idle S \<Longrightarrow> mcp_run U parse M idle (register_for_agent M S agent c)"
| Unregister: "mcp_run U parse M idle S \<Longrightarrow> mcp_run U parse M idle (unregister_for_agent S agent name)"
| Dispatch: "mcp_run U parse M idle S \<Longrightarrow>
    mcp_run U parse M idle (snd (dispatch_mcp U parse M S agent args names now))"
| Reap: "mcp_run U parse M idle S \<Longrightarrow> mcp_run U parse M idle (reap_idle S now)"
| Reconnect: "mcp_run U parse M idle S \<Longrightarrow>
    mcp_run U parse M idle (snd (reconnect_for_agent M S agent name now))"

text \<open>A whole method is a sequence of its sections.\<close>

abbreviation mcp_steps :: "'p mcp_env \<Rightarrow> 'p mcp_handler \<Rightarrow> 'p mcp_handler \<Rightarrow> bool" where
  "mcp_steps M \<equiv> (mcp_step M)\<^sup>*\<^sup>*"

lemma steps_bridge_remove: "mcp_step M S (bridge_remove S fp)"
  unfolding bridge_remove_def by (rule mcp_step.Bridge)

lemma steps_register: "mcp_steps M S (register_for_agent M S agent c)"
proof -
  have "mcp_step M S (snd (register_claim M S agent c))" by (rule mcp_step.Register)
  then show ?thesis
    using steps_bridge_remove [of M "snd (register_claim M S agent c)"]
    by (auto simp: register_for_agent_def split: prod.split option.split intro: rtranclp.rtrancl_into_rtrancl)
qed

lemma steps_unregister: "mcp_steps M S (unregister_for_agent S agent name)"
proof -
  have "mcp_step M S (snd (unregister_claim S agent name))" by (rule mcp_step.Unregister)
  then show ?thesis
    using steps_bridge_remove [of M "snd (unregister_claim S agent name)"]
    by (auto simp: unregister_for_agent_def split: prod.split option.split intro: rtranclp.rtrancl_into_rtrancl)
qed

lemma steps_connect: "mcp_steps M S (connect_peer M S fp now)"
proof (cases "connect_begin S fp")
  case None
  then show ?thesis by (auto simp: connect_peer_def split: option.split)
next
  case (Some b)
  obtain owners S1 where S1: "connect_begin S fp = Some (owners, S1)" using Some by (cases b) simp
  then obtain e where e: "map_of (mh_peers S) fp = Some e" by (auto simp: connect_begin_def split: option.splits)
  obtain s B where c: "connect_one M (mh_bridge S1) (pe_cfg e) fp now = (s, B)"
    by (cases "connect_one M (mh_bridge S1) (pe_cfg e) fp now") blast
  have "mcp_step M S S1" by (rule mcp_step.Begin [OF S1])
  moreover have "mcp_step M S1 (S1\<lparr>mh_bridge := B\<rparr>)" by (rule mcp_step.Bridge)
  moreover have "mcp_step M (S1\<lparr>mh_bridge := B\<rparr>) (connect_settle (S1\<lparr>mh_bridge := B\<rparr>) fp owners s now)"
    by (rule mcp_step.Settle)
  ultimately have "mcp_steps M S (connect_settle (S1\<lparr>mh_bridge := B\<rparr>) fp owners s now)"
    by (meson converse_rtranclp_into_rtranclp r_into_rtranclp)
  then show ?thesis by (simp add: connect_peer_def e S1 c)
qed

lemma steps_ensure: "mcp_steps M S (ensure_connected M S agent names now)"
  unfolding ensure_connected_def
  by (rule foldl_preserves [where P = "mcp_steps M S"]) (use steps_connect rtranclp_trans in \<open>metis\<close>, simp)

lemma steps_call: "mcp_steps M S (snd (handler_call M S fp name arguments now))"
proof -
  let ?S1 = "S\<lparr>mh_peers := peer_update (mh_peers S) fp (\<lambda>e. e\<lparr>pe_last_used := Some now\<rparr>)\<rparr>"
  obtain r B where c: "bridge_call (me_peer M) (mh_bridge ?S1) (peer_id fp) name arguments = (r, B)"
    by (cases "bridge_call (me_peer M) (mh_bridge ?S1) (peer_id fp) name arguments") blast
  have "mcp_step M S ?S1" by (rule mcp_step.Use)
  moreover have "mcp_step M ?S1 (?S1\<lparr>mh_bridge := B\<rparr>)" by (rule mcp_step.Bridge)
  ultimately have two: "mcp_steps M S (?S1\<lparr>mh_bridge := B\<rparr>)" by (meson converse_rtranclp_into_rtranclp r_into_rtranclp)
  moreover have "mcp_step M (?S1\<lparr>mh_bridge := B\<rparr>) (mark_failed (?S1\<lparr>mh_bridge := B\<rparr>) fp e)" for e
    by (rule mcp_step.Fail)
  ultimately have "mcp_steps M S (mark_failed (?S1\<lparr>mh_bridge := B\<rparr>) fp e)" for e
    by (meson rtranclp.rtrancl_into_rtrancl)
  then show ?thesis
    unfolding handler_call_def Let_def c using two by (simp split: sum.split call_error.split)
qed

lemma steps_reap: "mcp_steps M S (reap_idle S now)"
proof -
  have one: "mcp_steps M T (broadcast (bridge_remove T fp) owners McpDisconnected)" for T fp owners
    unfolding broadcast_def
    by (meson steps_bridge_remove mcp_step.Tell converse_rtranclp_into_rtranclp r_into_rtranclp)
  have "mcp_steps M S (foldl (\<lambda>S (fp, owners). broadcast (bridge_remove S fp) owners McpDisconnected)
      (snd (reap_mark S now)) (fst (reap_mark S now)))"
  proof (rule foldl_preserves [where P = "mcp_steps M S"])
    show "mcp_steps M S (case x of (fp, owners) \<Rightarrow> broadcast (bridge_remove T fp) owners McpDisconnected)"
      if "mcp_steps M S T" for x T
      using that one by (cases x) (auto intro: rtranclp_trans)
    show "mcp_steps M S (snd (reap_mark S now))" using mcp_step.Reap by (rule r_into_rtranclp)
  qed
  then show ?thesis by (simp add: reap_idle_def case_prod_unfold Let_def)
qed

lemma steps_reconnect: "mcp_steps M S (snd (reconnect_for_agent M S agent name now))"
proof (cases "reconnect_mark S agent name")
  case (Inr x)
  obtain fp S1 where x: "reconnect_mark S agent name = Inr (fp, S1)" using Inr by (cases x) simp
  have "mcp_step M S S1" by (rule mcp_step.Reconnect [OF x])
  then have "mcp_steps M S (bridge_remove S1 fp)"
    using steps_bridge_remove by (meson converse_rtranclp_into_rtranclp r_into_rtranclp)
  from rtranclp_trans [OF this steps_connect] show ?thesis by (simp add: reconnect_for_agent_def x)
qed (simp add: reconnect_for_agent_def)

lemma steps_dispatch: "mcp_steps M S (snd (dispatch_mcp U parse M S agent args names now))"
proof -
  let ?S1 = "ensure_connected M S agent names now"
  have "mcp_steps M S (snd (handler_call M ?S1 fp name arguments now))" for fp name arguments
    by (rule rtranclp_trans [OF steps_ensure steps_call])
  then show ?thesis
    unfolding dispatch_mcp_def Let_def using steps_ensure [of M S agent names now]
    by (auto split: sum.split option.split prod.split)
qed

lemma run_steps: "mcp_run U parse M idle S \<Longrightarrow> mcp_steps M (handler_new idle) S"
proof (induction rule: mcp_run.induct)
  case Start
  show ?case by simp
qed (blast intro: rtranclp_trans steps_register steps_unregister steps_dispatch steps_reap steps_reconnect)+

lemma procs_ok_dispatch:
  assumes "procs_ok {} S"
  shows "procs_ok {} (snd (dispatch_mcp U parse M S agent args names now))"
proof -
  have e: "procs_ok {} (ensure_connected M S agent names now)" by (rule procs_ok_ensure [OF assms])
  have "procs_ok {} (snd (handler_call M (ensure_connected M S agent names now) fp name arguments now))"
    for fp name arguments
    by (rule procs_ok_call [OF e prod.collapse [symmetric]])
  then show ?thesis
    unfolding dispatch_mcp_def Let_def using e assms by (auto split: sum.split option.split prod.split)
qed

lemma run_procs: "mcp_run U parse M idle S \<Longrightarrow> procs_ok {} S"
proof (induction rule: mcp_run.induct)
  case Start
  show ?case by (simp add: procs_ok_def handler_new_def)
next
  case (Reap S now)
  have "bt_ok (mh_peers S)" by (rule claims_okD(1) [OF claims_reachable [OF run_steps [OF Reap.hyps]]])
  then show ?case by (rule procs_ok_reap [OF Reap.IH])
next
  case (Reconnect S agent name now)
  show ?case by (rule procs_ok_reconnect [OF Reconnect.IH prod.collapse [symmetric]])
qed (simp_all add: procs_ok_register procs_ok_unregister procs_ok_dispatch)

subsection \<open>What a call can reach\<close>

definition declared_ids :: "'p mcp_handler \<Rightarrow> bytes \<Rightarrow> bytes list \<Rightarrow> bytes list" where
  "declared_ids S agent names =
     List.map_filter (\<lambda>n. map_option peer_id (map_of (mh_by_owner S) (agent, n))) names"

definition others :: "bytes list \<Rightarrow> 'p mcp_handler \<Rightarrow> 'p connected_peer list" where
  "others D S = filter (\<lambda>p. cp_id p \<notin> set D) (mh_bridge S)"

lemma declared_id_in: "n \<in> set names \<Longrightarrow> map_of (mh_by_owner S) (agent, n) = Some fp \<Longrightarrow>
    peer_id fp \<in> set (declared_ids S agent names)"
  by (force simp: declared_ids_def List.map_filter_def)

lemma filter_update_first:
  "(\<And>x. P x \<Longrightarrow> \<not> Q x \<and> \<not> Q (f x)) \<Longrightarrow> filter Q (update_first P f xs) = filter Q xs"
  by (induction xs) auto

lemma connect_peer_bridge:
  "mh_by_owner (connect_peer M S fp now) = mh_by_owner S \<and>
   (mh_bridge (connect_peer M S fp now) = mh_bridge S \<or>
    (\<exists>q. mh_bridge (connect_peer M S fp now) = mh_bridge S @ [q] \<and> cp_id q = peer_id fp))"
proof (cases "connect_begin S fp")
  case None
  then show ?thesis by (auto simp: connect_peer_def split: option.split)
next
  case (Some b)
  obtain owners S1 where S1: "connect_begin S fp = Some (owners, S1)" using Some by (cases b) simp
  then obtain e where e: "map_of (mh_peers S) fp = Some e" and B1: "mh_bridge S1 = mh_bridge S"
    and O1: "mh_by_owner S1 = mh_by_owner S"
    by (auto simp: connect_begin_def broadcast_def split: option.splits if_splits)
  obtain s B where c: "connect_one M (mh_bridge S) (pe_cfg e) fp now = (s, B)"
    by (cases "connect_one M (mh_bridge S) (pe_cfg e) fp now") blast
  show ?thesis
    using connect_one_cases [OF c]
    by (auto simp: connect_peer_def e S1 B1 c O1 connect_settle_def announce_def)
qed

lemma others_connect:
  assumes "peer_id fp \<in> set D"
  shows "others D (connect_peer M S fp now) = others D S"
  using connect_peer_bridge [of M S fp now] assms by (auto simp: others_def)

lemma others_ensure:
  assumes D: "D = declared_ids S agent names"
  shows "others D (ensure_connected M S agent names now) = others D S"
    and "mh_by_owner (ensure_connected M S agent names now) = mh_by_owner S"
proof -
  have "peer_id fp \<in> set D" if "fp \<in> set (pending S agent names)" for fp
    using that by (force simp: D pending_def declared_ids_def List.map_filter_def)
  then have "others D (foldl (\<lambda>S fp. connect_peer M S fp now) T fps) = others D T \<and>
      mh_by_owner (foldl (\<lambda>S fp. connect_peer M S fp now) T fps) = mh_by_owner T"
    if "set fps \<subseteq> set (pending S agent names)" for T fps
    using that by (induction fps arbitrary: T) (simp_all add: others_connect connect_peer_bridge)
  then show "others D (ensure_connected M S agent names now) = others D S"
    and "mh_by_owner (ensure_connected M S agent names now) = mh_by_owner S"
    by (simp_all add: ensure_connected_def)
qed

lemma mark_failed_bridge [simp]: "mh_bridge (mark_failed S fp e) = mh_bridge S"
  by (simp add: mark_failed_def broadcast_def split: option.split)

lemma others_call:
  assumes "peer_id fp \<in> set D"
  shows "others D (snd (handler_call M S fp name arguments now)) = others D S"
proof -
  have "filter (\<lambda>p. cp_id p \<notin> set D) (snd (bridge_call Q B (peer_id fp) name arguments)) =
      filter (\<lambda>p. cp_id p \<notin> set D) B" for Q and B :: "'a bridge"
  proof -
    have "filter (\<lambda>p. cp_id p \<notin> set D) (update_first (\<lambda>p. cp_id p = peer_id fp) (\<lambda>p. p\<lparr>cp_peer := p'\<rparr>) B) =
        filter (\<lambda>p. cp_id p \<notin> set D) B" for p'
      by (rule filter_update_first) (use assms in simp)
    then show ?thesis
      by (auto simp: bridge_call_def Let_def case_prod_unfold split: option.split sum.split)
  qed
  then show ?thesis
    by (simp add: handler_call_def Let_def case_prod_unfold others_def split: sum.split call_error.split)
qed

text \<open>
  C15: However the sections of registering, letting go, connecting, failing, idling and
  reconnecting interleave, the claims and the declarations agree: an owner's claim is on a peer
  exactly where the peer lists that owner, and a peer is kept exactly while somebody claims it,
  under the fingerprint of the configuration it was declared with.
\<close>

theorem claims_agree:
  assumes "mcp_steps M (handler_new idle) S"
  shows "(map_of (mh_by_owner S) k = Some fp \<longleftrightarrow>
      (\<exists>e. map_of (mh_peers S) fp = Some e \<and> k \<in> set (pe_refs e))) \<and>
    (map_of (mh_peers S) fp = Some e \<longrightarrow>
      pe_refs e \<noteq> [] \<and> fingerprint_of M (pe_cfg e) = fp)"
  using claims_okD(3-5) [OF claims_reachable [OF assms]] by (auto simp: refs_at_def split: option.splits)

text \<open>
  Two declarations end up on one peer exactly when they agree in command, arguments,
  environment, address and credentials, as long as the hash tells the two apart: in particular
  agents with different credentials never share a process.
\<close>

theorem peers_shared_exactly:
  assumes "inj_on (me_hash M) {fingerprint_feed c, fingerprint_feed d}" and "(a, ms_name c) \<noteq> (b, ms_name d)"
  shows "map_of (mh_by_owner (register_for_agent M (register_for_agent M S a c) b d)) (a, ms_name c) =
      map_of (mh_by_owner (register_for_agent M (register_for_agent M S a c) b d)) (b, ms_name d) \<longleftrightarrow>
    ms_command c = ms_command d \<and> ms_args c = ms_args d \<and> ms_env c = ms_env d \<and> ms_url c = ms_url d \<and>
    ms_auth c = ms_auth d"
proof -
  have O': "mh_by_owner (register_for_agent M T x y) =
      bt_insert (x, ms_name y) (fingerprint_of M y) (mh_by_owner T)" for T x y
    by (auto simp: register_for_agent_def register_claim_def Let_def split: option.split prod.split)
  have "map_of (mh_by_owner (register_for_agent M (register_for_agent M S a c) b d)) (a, ms_name c) =
      Some (fingerprint_of M c)"
    and "map_of (mh_by_owner (register_for_agent M (register_for_agent M S a c) b d)) (b, ms_name d) =
      Some (fingerprint_of M d)"
    using assms(2) by (auto simp: O')
  moreover have "fingerprint_of M c = fingerprint_of M d \<longleftrightarrow> fingerprint_feed c = fingerprint_feed d"
    unfolding fingerprint_of_def by (rule inj_on_eq_iff [OF assms(1)]) simp_all
  ultimately show ?thesis by (simp only: option.inject fingerprint_feed_eq)
qed

text \<open>
  C16: As long as methods run one after the other, the bridge runs exactly what the declarations
  say: no two processes bear one id, every process belongs to a declared peer that is connected or
  failed and exports the tools the peer lists, and every connected peer has its process.
\<close>

theorem processes_accounted:
  assumes "mcp_run U parse M idle S"
  shows "distinct (map cp_id (mh_bridge S)) \<and>
    (p \<in> set (mh_bridge S) \<longrightarrow> (\<exists>fp e. map_of (mh_peers S) fp = Some e \<and> cp_id p = peer_id fp \<and>
       sv_status (pe_state e) \<in> {Connected, Failed} \<and> map fd_name (cp_tools p) = sv_tools (pe_state e))) \<and>
    (map_of (mh_peers S) fp = Some e \<and> sv_status (pe_state e) = Connected \<longrightarrow>
       (\<exists>p \<in> set (mh_bridge S). cp_id p = peer_id fp))"
  using procs_okD [OF run_procs [OF assms]] unfolding accounted_def by fastforce

lemma bridge_call_answer:
  assumes "fst (bridge_call Q B i name arguments) = Inr out"
  shows "\<exists>p \<in> set B. cp_id p = i \<and> name \<in> fd_name ` set (cp_tools p) \<and>
    (\<exists>args r. (if arguments = [] then args = None else \<exists>v. po_parse_args Q arguments = Inr v \<and> args = Some v) \<and>
       fst (call_tool Q (cp_peer p) name args) = Inr r \<and> out = extract_text (cr_content r))"
proof -
  obtain p where p: "find (\<lambda>p. cp_id p = i) B = Some p" using assms by (cases "find (\<lambda>p. cp_id p = i) B") (simp_all add: bridge_call_def)
  have tool: "list_ex (\<lambda>t. fd_name t = name) (cp_tools p)" using assms by (auto simp: bridge_call_def p split: if_splits)
  obtain args where args: "(if arguments = [] then Inr None else map_sum id Some (po_parse_args Q arguments)) = Inr args"
    using assms tool by (cases "if arguments = [] then Inr None else map_sum id Some (po_parse_args Q arguments)") (simp_all add: bridge_call_def p)
  obtain r where r: "fst (call_tool Q (cp_peer p) name args) = Inr r" "out = extract_text (cr_content r)"
    using assms tool args
    by (auto simp: bridge_call_def p Let_def case_prod_beta split: sum.splits if_splits)
  have "p \<in> set B" "cp_id p = i" using p by (auto simp: find_Some_iff)
  moreover have "if arguments = [] then args = None else \<exists>v. po_parse_args Q arguments = Inr v \<and> args = Some v"
    using args by (auto simp: map_sum_Inr_iff split: if_splits)
  moreover have "name \<in> fd_name ` set (cp_tools p)" using tool by (auto simp: list_ex_iff)
  ultimately show ?thesis using r by blast
qed


text \<open>
  A name no such server exports is refused, though the tool's schema promises the names that are
  like it: the list is given for the empty name only.
\<close>

lemma unknown_tool_refused:
  assumes "parse args = Inr a" and "ma_name a \<noteq> []"
    and "ma_name a \<notin> snd ` set (allowed (ensure_connected M S agent names now) agent names)"
  shows "dispatch_mcp U parse M S agent args names now =
    (Inl (''tool not available: '' @ ma_name a), ensure_connected M S agent names now)"
proof -
  have "find (\<lambda>(_, n). n = m) xs = None" if "m \<notin> snd ` set xs" for m and xs :: "(fingerprint \<times> bytes) list"
    using that by (force simp: find_None_iff)
  then show ?thesis using assms by (simp add: dispatch_mcp_def Let_def)
qed

subsection \<open>What an interleaving loses\<close>

text \<open>
  A connect waits for its process outside the locks. If the last owner lets go meanwhile, the
  process is entered in the bridge all the same, and nothing knows of it any more.
\<close>

theorem unregister_during_connect_leaks:
  assumes sole: "map_of (mh_peers S) fp = Some e" "pe_refs e = [k]" "map_of (mh_by_owner S) k = Some fp"
    and start: "connect_begin S fp = Some (owners, S1)"
    and up: "connect_one M (mh_bridge (unregister_for_agent S1 (fst k) (snd k))) (pe_cfg e) fp now = (s, B)"
      "sv_status s = Connected"
  shows "let S2 = connect_settle ((unregister_for_agent S1 (fst k) (snd k))\<lparr>mh_bridge := B\<rparr>) fp owners s now
    in map_of (mh_peers S2) fp = None \<and> peer_id fp \<in> cp_id ` set (mh_bridge S2)"
proof -
  have S1: "map_of (mh_peers S1) fp = Some (e\<lparr>pe_state := state_connecting\<rparr>)" "mh_by_owner S1 = mh_by_owner S"
    using start sole(1) by (auto simp: connect_begin_def broadcast_def map_of_peer_update split: if_splits)
  have "drop_ref (mh_peers S1) fp k = (Some fp, bt_remove fp (mh_peers S1))"
    using S1(1) sole(2) by (simp add: drop_ref_def set_remove_def)
  then have "map_of (mh_peers (unregister_for_agent S1 (fst k) (snd k))) fp = None"
    using sole(3) S1(2) by (simp add: unregister_for_agent_def unregister_claim_def)
  then show ?thesis
    using connect_one_cases [OF up(1)] up(2)
    by (auto simp: Let_def connect_settle_def announce_def map_of_peer_update)
qed

text \<open>
  The reaper marks a peer idle and stops its process later, outside the locks. A connect in
  between is undone: the peer is listed as connected and has no process.
\<close>

theorem reap_stops_fresh_process:
  assumes "connect_peer M S fp now = S1" and "map_of (mh_peers S1) fp = Some e" and "sv_status (pe_state e) = Connected"
  shows "map_of (mh_peers (bridge_remove S1 fp)) fp = Some e \<and>
    peer_id fp \<notin> cp_id ` set (mh_bridge (bridge_remove S1 fp))"
  using assms by auto

subsection \<open>Witnesses\<close>

text \<open>A peer that answers everything and exports one tool, and a hash that counts.\<close>

definition sample_mcp :: "nat mcp_env" where
  "sample_mcp =
     \<lparr>me_peer = \<lparr>po_request = (\<lambda>p method params. (Inr (JObject [(''result'', JNull)]), p + 1)),
        po_notify = (\<lambda>p note. (Inr (), p)), po_int = (\<lambda>_. None), po_init_params = JNull,
        po_list_result = (\<lambda>_. Some ([\<lparr>mt_name = ''look'', mt_description = None, mt_schema = None\<rparr>], None)),
        po_call_result = (\<lambda>_. Some \<lparr>cr_content = [\<lparr>ci_type = ''text'', ci_text = Some ''seen''\<rparr>], cr_is_error = None\<rparr>),
        po_parse_args = (\<lambda>_. Inr JNull)\<rparr>,
      me_hash = (\<lambda>f. of_nat (length f)), me_spawn = (\<lambda>_ _ _. Inr 0), me_http = (\<lambda>_ _. 0),
      me_late = (\<lambda>_ _. False)\<rparr>"

definition sample_server :: mcp_server_config where
  "sample_server = mcp_server_default\<lparr>ms_name := ''eye'', ms_command := ''eye''\<rparr>"

definition sample_tool_call :: "bytes \<Rightarrow> bytes + mcp_args" where
  "sample_tool_call _ = Inr \<lparr>ma_name = ''look'', ma_args = None\<rparr>"

definition sample_handler :: "nat mcp_handler" where
  "sample_handler =
     snd (dispatch_mcp ascii_unicode sample_tool_call sample_mcp
       (register_for_agent sample_mcp (handler_new 60) ''a'' sample_server) ''a'' [] [''eye''] 7)"

lemma sample_handler_run: "mcp_run ascii_unicode sample_tool_call sample_mcp 60 sample_handler"
  unfolding sample_handler_def by (intro mcp_run.Dispatch mcp_run.Register mcp_run.Start)

theorem claims_agree_witness:
  "map_of (mh_by_owner sample_handler) (''a'', ''eye'') = Some 4"
proof -
  have "map (\<lambda>(fp, e). (fp, pe_refs e)) (mh_peers sample_handler) = [(4, [(''a'', ''eye'')])]" by code_simp
  then have "\<exists>e. map_of (mh_peers sample_handler) 4 = Some e \<and> (''a'', ''eye'') \<in> set (pe_refs e)"
    by (auto simp: map_eq_Cons_conv)
  then show ?thesis using claims_agree [OF run_steps [OF sample_handler_run]] by blast
qed

theorem peers_shared_exactly_witness:
  "map_of (mh_by_owner (register_for_agent sample_mcp
      (register_for_agent sample_mcp (handler_new 0) ''a'' sample_server) ''b'' (sample_server\<lparr>ms_auth := Some ''key''\<rparr>)))
      (''a'', ''eye'') \<noteq>
   map_of (mh_by_owner (register_for_agent sample_mcp
      (register_for_agent sample_mcp (handler_new 0) ''a'' sample_server) ''b'' (sample_server\<lparr>ms_auth := Some ''key''\<rparr>)))
      (''b'', ''eye'')"
proof -
  let ?d = "sample_server\<lparr>ms_auth := Some ''key''\<rparr>"
  have "inj_on (me_hash sample_mcp) {fingerprint_feed sample_server, fingerprint_feed ?d}"
    by (simp add: sample_mcp_def sample_server_def mcp_server_default_def fingerprint_feed_def feed_option_def)
  then show ?thesis
    using peers_shared_exactly [of sample_mcp sample_server ?d "''a''" "''b''" "handler_new 0"]
    by (simp add: sample_server_def mcp_server_default_def)
qed

theorem processes_accounted_witness:
  "\<exists>fp e. map_of (mh_peers sample_handler) fp = Some e \<and> peer_id 4 = peer_id fp"
proof -
  have "map cp_id (mh_bridge sample_handler) = [peer_id 4]" by code_simp
  then obtain p where "p \<in> set (mh_bridge sample_handler)" "cp_id p = peer_id 4" by (auto simp: map_eq_Cons_conv)
  then show ?thesis using processes_accounted [OF sample_handler_run] by metis
qed


end
