(* ===== verification/HarnessHost.thy ===== *)
theory HarnessHost
  imports BermHarness McpHandler
begin

section \<open>The harness registry (crates/crabtalk/src/harness, system/host.rs)\<close>

text \<open>
  The one harness the runtime sees: the sandbox images, the \<open>mcp\<close> tool, the memory tools and the
  consumer harnesses of the embedder, in that order. The registry indexes the tools of its members
  once, routes a call by that index, and keeps what each agent's last resolve put in scope. A
  consumer harness is code of the embedder: its callbacks are the argument \<open>hook_ops\<close>. The tasks
  the \<open>mcp\<close> member spawns are a list; a step runs one of them. The member's clock, argument
  parsers and tool schemas are arguments. Where the store fails the text says so and the store is
  left as it was.
  The lemmas show who owns a tool name, what an agent is offered and what a call can reach, that
  the spawned tasks make claims follow declarations when they run in order, and what the memory
  tools leave in the store.
\<close>

subsection \<open>State\<close>

record 'h hook_ops =
  ho_schema :: "'h \<Rightarrow> tool list"
  ho_usage :: "'h \<Rightarrow> bytes option"
  ho_build :: "'h \<Rightarrow> agent_config \<Rightarrow> agent_config"
  ho_scoped :: "'h \<Rightarrow> agent_config \<Rightarrow> bytes list \<times> bytes option"
  ho_resolve :: "agent_id \<Rightarrow> agent_config \<Rightarrow> 'h \<Rightarrow> 'h"
  ho_forget :: "agent_id \<Rightarrow> 'h \<Rightarrow> 'h"
  ho_event :: "agent_id \<Rightarrow> nat \<Rightarrow> agent_event \<Rightarrow> 'h \<Rightarrow> 'h"
  ho_preprocess :: "'h \<Rightarrow> agent_id \<Rightarrow> bytes \<Rightarrow> bytes option"
  ho_dispatch :: "'h \<Rightarrow> bytes \<Rightarrow> tool_dispatch \<Rightarrow> (bytes + bytes) option \<times> 'h"

datatype member = MBerm | MMcp | MMemory | MHook nat

datatype mcp_task = Register bytes mcp_server_config | Unregister bytes bytes

record 'p mcp_harness =
  mc_handler :: "'p mcp_handler"
  mc_agents :: "(agent_id \<times> bytes list) list"
  mc_tasks :: "mcp_task list"

record memory_harness =
  mx_store :: kv
  mx_configs :: "(agent_id \<times> memory_config) list"

record ('i, 'p, 'h) host =
  hs_scopes :: "(agent_id \<times> bytes list) list"
  hs_berm :: "'i berm_registry option"
  hs_mcp :: "'p mcp_harness"
  hs_memory :: memory_harness
  hs_hooks :: "'h list"
  hs_owner :: "(bytes \<times> member) list"
  hs_sink :: "(bytes \<times> bytes) list option"

record ('i, 'p, 'h) host_env =
  he_berm :: "'i berm_env"
  he_mcp :: "'p mcp_env"
  he_hook :: "'h hook_ops"
  he_memory :: memory_env
  he_overlay :: "(bytes \<times> bytes) list"
  he_parameters :: "bytes \<Rightarrow> json"
  he_parse_mcp :: "bytes \<Rightarrow> bytes + mcp_args"
  he_parse_recall :: "bytes \<Rightarrow> bytes + bytes \<times> nat option"
  he_parse_remember :: "bytes \<Rightarrow> bytes + bytes \<times> bytes \<times> bytes list"
  he_parse_forget :: "bytes \<Rightarrow> bytes + bytes"
  he_show :: "agent_id \<Rightarrow> bytes"
  he_error :: "store_error \<Rightarrow> bytes"

text \<open>\<open>as_tool\<close>: the tool of an argument struct carries the struct's name and derived schema.\<close>

definition as_tool :: "('i, 'p, 'h) host_env \<Rightarrow> bytes \<Rightarrow> tool" where
  "as_tool E name = \<lparr>tool_name = name, tool_schema = he_parameters E name\<rparr>"

subsection \<open>The memory tools (memory/)\<close>

definition memory_usage :: bytes where
  "memory_usage =
     ''Call `recall` before assuming context is missing. Use `remember` for durable facts, '' @
     ''`forget` to remove ones no longer true '' @ [CHR 0xE2, CHR 0x80, CHR 0x94] @
     '' skip transient or one-off details.''"

definition effective_limit :: "memory_harness \<Rightarrow> agent_id \<Rightarrow> nat" where
  "effective_limit X a =
     (case map_of (mx_configs X) a of
        Some c \<Rightarrow> recall_limit c
      | None \<Rightarrow> recall_limit memory_config_default)"

definition recall :: "('i, 'p, 'h) host_env \<Rightarrow> kv \<Rightarrow> bytes \<Rightarrow> nat \<Rightarrow> bytes" where
  "recall E m query limit =
     (case search_memory (he_memory E) m query limit of
        Inl e \<Rightarrow> ''recall failed: '' @ he_error E e
      | Inr names \<Rightarrow>
          let out = List.map_filter (\<lambda>name. case memory (he_memory E) m name of
                Inr (Some e) \<Rightarrow> Some (''## '' @ me_name e @ newline @ me_content e)
              | _ \<Rightarrow> None) names
          in if out = [] then ''no memories found''
             else join_with (newline @ ''---'' @ newline) out)"

definition remember ::
  "('i, 'p, 'h) host_env \<Rightarrow> kv \<Rightarrow> bytes \<Rightarrow> bytes \<Rightarrow> bytes list \<Rightarrow> bytes \<Rightarrow> bytes \<times> kv" where
  "remember E m name content aliases now =
     (let created_at = (case memory (he_memory E) m name of
            Inr (Some existing) \<Rightarrow> me_created_at existing
          | _ \<Rightarrow> now);
          e = \<lparr>me_name = name, me_kind = ''note'', me_content = content, me_aliases = aliases,
               me_created_at = created_at\<rparr>
      in case put_memory (he_memory E) m e of
           Inr m' \<Rightarrow> (''remembered: '' @ name, m')
         | Inl err \<Rightarrow> (''failed to save entry: '' @ he_error E err, m))"

definition forget :: "('i, 'p, 'h) host_env \<Rightarrow> kv \<Rightarrow> bytes \<Rightarrow> bytes \<times> kv" where
  "forget E m name =
     (case remove_memory (he_memory E) m name of
        Inr (True, m') \<Rightarrow> (''forgot: '' @ name, m')
      | Inr (False, m') \<Rightarrow> (''no entry named: '' @ name, m')
      | Inl err \<Rightarrow> (''failed to forget '' @ name @ '': '' @ he_error E err, m))"

definition invalid_arguments :: "bytes \<Rightarrow> bytes" where
  "invalid_arguments e = ''invalid arguments: '' @ e"

definition handle_recall :: "('i, 'p, 'h) host_env \<Rightarrow> memory_harness \<Rightarrow> tool_dispatch \<Rightarrow> bytes + bytes" where
  "handle_recall E X call =
     (case he_parse_recall E (td_args call) of
        Inl e \<Rightarrow> Inl (invalid_arguments e)
      | Inr (query, limit) \<Rightarrow>
          Inr (recall E (mx_store X) query
            (case limit of Some n \<Rightarrow> n | None \<Rightarrow> effective_limit X (td_agent call))))"

definition handle_remember ::
  "('i, 'p, 'h) host_env \<Rightarrow> memory_harness \<Rightarrow> tool_dispatch \<Rightarrow> bytes \<Rightarrow> (bytes + bytes) \<times> memory_harness" where
  "handle_remember E X call now =
     (case he_parse_remember E (td_args call) of
        Inl e \<Rightarrow> (Inl (invalid_arguments e), X)
      | Inr (name, content, aliases) \<Rightarrow>
          let (reply, m) = remember E (mx_store X) name content aliases now
          in (Inr reply, X\<lparr>mx_store := m\<rparr>))"

definition handle_forget ::
  "('i, 'p, 'h) host_env \<Rightarrow> memory_harness \<Rightarrow> tool_dispatch \<Rightarrow> (bytes + bytes) \<times> memory_harness" where
  "handle_forget E X call =
     (case he_parse_forget E (td_args call) of
        Inl e \<Rightarrow> (Inl (invalid_arguments e), X)
      | Inr name \<Rightarrow> let (reply, m) = forget E (mx_store X) name in (Inr reply, X\<lparr>mx_store := m\<rparr>))"

definition memory_tools :: "('i, 'p, 'h) host_env \<Rightarrow> tool list" where
  "memory_tools E = [as_tool E ''recall'', as_tool E ''remember'', as_tool E ''forget'']"

definition memory_resolve :: "memory_harness \<Rightarrow> agent_id \<Rightarrow> agent_config \<Rightarrow> memory_harness" where
  "memory_resolve X a c = X\<lparr>mx_configs := bt_insert a (hooks_memory (ag_hooks c)) (mx_configs X)\<rparr>"

definition memory_forget :: "memory_harness \<Rightarrow> agent_id \<Rightarrow> memory_harness" where
  "memory_forget X a = X\<lparr>mx_configs := bt_remove a (mx_configs X)\<rparr>"

definition memory_dispatch ::
  "('i, 'p, 'h) host_env \<Rightarrow> bytes \<Rightarrow> memory_harness \<Rightarrow> bytes \<Rightarrow> tool_dispatch \<Rightarrow>
   (bytes + bytes) option \<times> memory_harness" where
  "memory_dispatch E now X name call =
     (if name = ''recall'' then (Some (handle_recall E X call), X)
      else if name = ''remember'' then map_prod Some id (handle_remember E X call now)
      else if name = ''forget'' then map_prod Some id (handle_forget E X call)
      else (None, X))"

subsection \<open>The mcp tool (mcp.rs)\<close>

definition mcp_tools :: "('i, 'p, 'h) host_env \<Rightarrow> tool list" where
  "mcp_tools E = [as_tool E ''mcp'']"

definition mcp_scoped :: "('i, 'p, 'h) host_env \<Rightarrow> agent_config \<Rightarrow> bytes list \<times> bytes option" where
  "mcp_scoped E c =
     (if ag_mcps c = [] then ([], None)
      else (map tool_name (mcp_tools E),
            Some (''mcp servers: '' @ join_with '', '' (map ms_name (ag_mcps c)))))"

text \<open>The daemon's own environment fills what the declaration leaves open.\<close>

definition effective :: "(bytes \<times> bytes) list \<Rightarrow> mcp_server_config \<Rightarrow> mcp_server_config" where
  "effective overlay c =
     c\<lparr>ms_env := foldl (\<lambda>env (k, v). if map_of env k = None then bt_insert k v env else env) (ms_env c) overlay\<rparr>"

definition mcp_resolve ::
  "('i, 'p, 'h) host_env \<Rightarrow> 'p mcp_harness \<Rightarrow> agent_id \<Rightarrow> agent_config \<Rightarrow> 'p mcp_harness" where
  "mcp_resolve E X a c =
     (let new_names = map ms_name (ag_mcps c);
          prior = (case map_of (mc_agents X) a of Some ns \<Rightarrow> ns | None \<Rightarrow> [])
      in X\<lparr>mc_agents := bt_insert a new_names (mc_agents X),
           mc_tasks := mc_tasks X @
             map (Unregister (he_show E a)) (filter (\<lambda>n. n \<notin> set new_names) prior) @
             map (\<lambda>cfg. Register (he_show E a) (effective (he_overlay E) cfg)) (ag_mcps c)\<rparr>)"

definition mcp_forget :: "('i, 'p, 'h) host_env \<Rightarrow> 'p mcp_harness \<Rightarrow> agent_id \<Rightarrow> 'p mcp_harness" where
  "mcp_forget E X a =
     (case map_of (mc_agents X) a of
        None \<Rightarrow> X
      | Some names \<Rightarrow>
          X\<lparr>mc_agents := bt_remove a (mc_agents X),
            mc_tasks := mc_tasks X @ map (Unregister (he_show E a)) names\<rparr>)"

fun run_task :: "'p mcp_env \<Rightarrow> mcp_task \<Rightarrow> 'p mcp_handler \<Rightarrow> 'p mcp_handler" where
  "run_task M (Register agent c) S = register_for_agent M S agent c"
| "run_task M (Unregister agent name) S = unregister_for_agent S agent name"

definition mcp_dispatch ::
  "('i, 'p, 'h) host_env \<Rightarrow> nat \<Rightarrow> 'p mcp_harness \<Rightarrow> bytes \<Rightarrow> tool_dispatch \<Rightarrow>
   (bytes + bytes) option \<times> 'p mcp_harness" where
  "mcp_dispatch E now X name call =
     (if name \<noteq> ''mcp'' then (None, X)
      else
        let names = (case map_of (mc_agents X) (td_agent call) of Some ns \<Rightarrow> ns | None \<Rightarrow> []);
            (r, S) = dispatch_mcp (mm_unicode (he_memory E)) (he_parse_mcp E) (he_mcp E) (mc_handler X)
              (he_show E (td_agent call)) (td_args call) names now
        in (Some r, X\<lparr>mc_handler := S\<rparr>))"

subsection \<open>Members (mod.rs)\<close>

text \<open>The built-in members first, then the consumers in the order they were registered.\<close>

definition members :: "('i, 'p, 'h) host \<Rightarrow> member list" where
  "members H =
     (if hs_berm H = None then [] else [MBerm]) @ [MMcp, MMemory] @ map MHook [0..<length (hs_hooks H)]"

fun member_schema :: "('i, 'p, 'h) host_env \<Rightarrow> ('i, 'p, 'h) host \<Rightarrow> member \<Rightarrow> tool list" where
  "member_schema E H MBerm = (case hs_berm H of None \<Rightarrow> [] | Some R \<Rightarrow> berm_schema (he_berm E) R)"
| "member_schema E H MMcp = mcp_tools E"
| "member_schema E H MMemory = memory_tools E"
| "member_schema E H (MHook k) = ho_schema (he_hook E) (hs_hooks H ! k)"

fun member_usage :: "('i, 'p, 'h) host_env \<Rightarrow> ('i, 'p, 'h) host \<Rightarrow> member \<Rightarrow> bytes option" where
  "member_usage E H MMemory = Some (newline @ newline @ memory_usage)"
| "member_usage E H (MHook k) = ho_usage (he_hook E) (hs_hooks H ! k)"
| "member_usage E H _ = None"

text \<open>A member that does not say otherwise puts all its tools in scope and adds no line.\<close>

fun member_scoped ::
  "('i, 'p, 'h) host_env \<Rightarrow> ('i, 'p, 'h) host \<Rightarrow> agent_config \<Rightarrow> member \<Rightarrow> bytes list \<times> bytes option" where
  "member_scoped E H c MBerm =
     (case hs_berm H of None \<Rightarrow> [] | Some R \<Rightarrow> berm_names (he_berm E) R (ag_id c), None)"
| "member_scoped E H c MMcp = mcp_scoped E c"
| "member_scoped E H c MMemory = (map tool_name (memory_tools E), None)"
| "member_scoped E H c (MHook k) = ho_scoped (he_hook E) (hs_hooks H ! k) c"

definition hook_update :: "('i, 'p, 'h) host \<Rightarrow> nat \<Rightarrow> ('h \<Rightarrow> 'h) \<Rightarrow> ('i, 'p, 'h) host" where
  "hook_update H k f = H\<lparr>hs_hooks := (hs_hooks H)[k := f (hs_hooks H ! k)]\<rparr>"

fun member_resolve ::
  "('i, 'p, 'h) host_env \<Rightarrow> agent_id \<Rightarrow> agent_config \<Rightarrow> ('i, 'p, 'h) host \<Rightarrow> member \<Rightarrow> ('i, 'p, 'h) host" where
  "member_resolve E a c H MBerm = H\<lparr>hs_berm := map_option (\<lambda>R. berm_load (he_berm E) R a c) (hs_berm H)\<rparr>"
| "member_resolve E a c H MMcp = H\<lparr>hs_mcp := mcp_resolve E (hs_mcp H) a c\<rparr>"
| "member_resolve E a c H MMemory = H\<lparr>hs_memory := memory_resolve (hs_memory H) a c\<rparr>"
| "member_resolve E a c H (MHook k) = hook_update H k (ho_resolve (he_hook E) a c)"

fun member_forget ::
  "('i, 'p, 'h) host_env \<Rightarrow> agent_id \<Rightarrow> ('i, 'p, 'h) host \<Rightarrow> member \<Rightarrow> ('i, 'p, 'h) host" where
  "member_forget E a H MBerm = H\<lparr>hs_berm := map_option (\<lambda>R. berm_forget R a) (hs_berm H)\<rparr>"
| "member_forget E a H MMcp = H\<lparr>hs_mcp := mcp_forget E (hs_mcp H) a\<rparr>"
| "member_forget E a H MMemory = H\<lparr>hs_memory := memory_forget (hs_memory H) a\<rparr>"
| "member_forget E a H (MHook k) = hook_update H k (ho_forget (he_hook E) a)"

fun member_event ::
  "('i, 'p, 'h) host_env \<Rightarrow> agent_id \<Rightarrow> nat \<Rightarrow> agent_event \<Rightarrow> ('i, 'p, 'h) host \<Rightarrow> member \<Rightarrow> ('i, 'p, 'h) host" where
  "member_event E a s ev H (MHook k) = hook_update H k (ho_event (he_hook E) a s ev)"
| "member_event E a s ev H _ = H"

fun member_preprocess ::
  "('i, 'p, 'h) host_env \<Rightarrow> ('i, 'p, 'h) host \<Rightarrow> agent_id \<Rightarrow> bytes \<Rightarrow> member \<Rightarrow> bytes option" where
  "member_preprocess E H a content (MHook k) = ho_preprocess (he_hook E) (hs_hooks H ! k) a content"
| "member_preprocess E H a content _ = None"

text \<open>The two clocks of a call: the handler's and the one memories are dated by.\<close>

fun member_dispatch ::
  "('i, 'p, 'h) host_env \<Rightarrow> nat \<Rightarrow> bytes \<Rightarrow> ('i, 'p, 'h) host \<Rightarrow> bytes \<Rightarrow> tool_dispatch \<Rightarrow> member \<Rightarrow>
   (bytes + bytes) option \<times> ('i, 'p, 'h) host" where
  "member_dispatch E now date H name call MBerm =
     (case hs_berm H of
        None \<Rightarrow> (None, H)
      | Some R \<Rightarrow> let (r, R') = berm_dispatch (he_berm E) R name call in (r, H\<lparr>hs_berm := Some R'\<rparr>))"
| "member_dispatch E now date H name call MMcp =
     (let (r, X) = mcp_dispatch E now (hs_mcp H) name call in (r, H\<lparr>hs_mcp := X\<rparr>))"
| "member_dispatch E now date H name call MMemory =
     (let (r, X) = memory_dispatch E date (hs_memory H) name call in (r, H\<lparr>hs_memory := X\<rparr>))"
| "member_dispatch E now date H name call (MHook k) =
     (let (r, h) = ho_dispatch (he_hook E) (hs_hooks H ! k) name call in (r, hook_update H k (\<lambda>_. h)))"

subsection \<open>The registry (mod.rs)\<close>

definition index_tools ::
  "('i, 'p, 'h) host \<Rightarrow> member \<Rightarrow> tool list \<Rightarrow> bytes + ('i, 'p, 'h) host" where
  "index_tools H m ts =
     (let names = map tool_name ts in
      case find (\<lambda>n. map_of (hs_owner H) n \<noteq> None) names of
        Some n \<Rightarrow> Inl (''duplicate tool: '' @ n)
      | None \<Rightarrow> Inr (H\<lparr>hs_owner := foldl (\<lambda>M n. bt_insert n m M) (hs_owner H) names\<rparr>))"

fun index_members ::
  "('i, 'p, 'h) host_env \<Rightarrow> ('i, 'p, 'h) host \<Rightarrow> member list \<Rightarrow> bytes + ('i, 'p, 'h) host" where
  "index_members E H [] = Inr H"
| "index_members E H (m # ms) = bindr (index_tools H m (member_schema E H m)) (\<lambda>H'. index_members E H' ms)"

definition host_new ::
  "('i, 'p, 'h) host_env \<Rightarrow> 'i berm_registry option \<Rightarrow> 'p mcp_harness \<Rightarrow> memory_harness \<Rightarrow>
   bytes + ('i, 'p, 'h) host" where
  "host_new E berm mcp mem =
     (let H = \<lparr>hs_scopes = [], hs_berm = berm, hs_mcp = mcp, hs_memory = mem, hs_hooks = [], hs_owner = [],
               hs_sink = None\<rparr>
      in index_members E H (members H))"

definition host_register ::
  "('i, 'p, 'h) host_env \<Rightarrow> ('i, 'p, 'h) host \<Rightarrow> 'h \<Rightarrow> bytes + ('i, 'p, 'h) host" where
  "host_register E H h =
     bindr (index_tools H (MHook (length (hs_hooks H))) (ho_schema (he_hook E) h))
       (\<lambda>H'. Inr (H'\<lparr>hs_hooks := hs_hooks H' @ [h]\<rparr>))"

fun register_all ::
  "('i, 'p, 'h) host_env \<Rightarrow> ('i, 'p, 'h) host \<Rightarrow> 'h list \<Rightarrow> bytes + ('i, 'p, 'h) host" where
  "register_all E H [] = Inr H"
| "register_all E H (h # hs) = bindr (host_register E H h) (\<lambda>H'. register_all E H' hs)"

definition set_event_sink :: "('i, 'p, 'h) host \<Rightarrow> ('i, 'p, 'h) host" where
  "set_event_sink H = H\<lparr>hs_sink := Some []\<rparr>"

definition host_schema :: "('i, 'p, 'h) host_env \<Rightarrow> ('i, 'p, 'h) host \<Rightarrow> tool list" where
  "host_schema E H = concat (map (member_schema E H) (members H))"

text \<open>
  \<open>build_all\<close>: the registry starts with no image loaded, no claim and no agent; the tool schemas
  the runtime offers are the registry's at that moment.
\<close>

definition host_build ::
  "('i, 'p, 'h) host_env \<Rightarrow> bool \<Rightarrow> nat \<Rightarrow> kv \<Rightarrow> 'h list \<Rightarrow> bytes + ('i, 'p, 'h) host \<times> tool_registry" where
  "host_build E sandbox idle m hooks =
     bindr (host_new E (if sandbox then Some berm_new else None)
         \<lparr>mc_handler = handler_new idle, mc_agents = [], mc_tasks = []\<rparr> \<lparr>mx_store = m, mx_configs = []\<rparr>)
       (\<lambda>H. bindr (register_all E H hooks)
          (\<lambda>H'. Inr (set_event_sink H', registry_insert_all [] (host_schema E H'))))"

definition host_usage :: "('i, 'p, 'h) host_env \<Rightarrow> ('i, 'p, 'h) host \<Rightarrow> bytes option" where
  "host_usage E H =
     (let usage = concat (List.map_filter (member_usage E H) (members H))
      in if usage = [] then None else Some usage)"

definition apply_scope ::
  "('i, 'p, 'h) host_env \<Rightarrow> ('i, 'p, 'h) host \<Rightarrow> agent_config \<Rightarrow> agent_config" where
  "apply_scope E H c =
     (if ag_skills c = [] \<and> ag_mcps c = [] then c
      else
        let parts = map (member_scoped E H c) (members H);
            lines = List.map_filter snd parts
        in c\<lparr>ag_description :=
               (if lines = [] then ag_description c
                else ag_description c @ newline @ newline @ ''<scope>'' @ newline @ join_with newline lines @
                  newline @ ''</scope>''),
             ag_tools := concat (map fst parts)\<rparr>)"

definition host_build_agent ::
  "('i, 'p, 'h) host_env \<Rightarrow> ('i, 'p, 'h) host \<Rightarrow> agent_config \<Rightarrow> agent_config" where
  "host_build_agent E H c =
     apply_scope E H
       (case host_usage E H of None \<Rightarrow> c | Some u \<Rightarrow> c\<lparr>ag_description := ag_description c @ u\<rparr>)"

definition host_resolve ::
  "('i, 'p, 'h) host_env \<Rightarrow> ('i, 'p, 'h) host \<Rightarrow> agent_id \<Rightarrow> agent_config \<Rightarrow> ('i, 'p, 'h) host" where
  "host_resolve E H a c =
     foldl (member_resolve E a c) (H\<lparr>hs_scopes := bt_insert a (ag_tools c) (hs_scopes H)\<rparr>) (members H)"

definition host_forget :: "('i, 'p, 'h) host_env \<Rightarrow> ('i, 'p, 'h) host \<Rightarrow> agent_id \<Rightarrow> ('i, 'p, 'h) host" where
  "host_forget E H a =
     foldl (member_forget E a) (H\<lparr>hs_scopes := bt_remove a (hs_scopes H)\<rparr>) (members H)"

text \<open>The sink is kept as the list of what was published.\<close>

definition host_event ::
  "('i, 'p, 'h) host_env \<Rightarrow> ('i, 'p, 'h) host \<Rightarrow> agent_id \<Rightarrow> nat \<Rightarrow> agent_event \<Rightarrow> ('i, 'p, 'h) host" where
  "host_event E H a s ev =
     (let H' = foldl (member_event E a s ev) H (members H) in
      case ev of
        Done r \<Rightarrow>
          H'\<lparr>hs_sink := map_option (\<lambda>log. log @
               [(''agent:'' @ he_show E a @ '':done'',
                 case rs_final_response r of None \<Rightarrow> [] | Some t \<Rightarrow> t)]) (hs_sink H')\<rparr>
      | _ \<Rightarrow> H')"

fun first_some :: "('a \<Rightarrow> 'b option) \<Rightarrow> 'a list \<Rightarrow> 'b option" where
  "first_some f [] = None"
| "first_some f (x # xs) = (case f x of Some y \<Rightarrow> Some y | None \<Rightarrow> first_some f xs)"

definition host_preprocess ::
  "('i, 'p, 'h) host_env \<Rightarrow> ('i, 'p, 'h) host \<Rightarrow> agent_id \<Rightarrow> bytes \<Rightarrow> bytes option" where
  "host_preprocess E H a content = first_some (member_preprocess E H a content) (members H)"

definition host_dispatch ::
  "('i, 'p, 'h) host_env \<Rightarrow> nat \<Rightarrow> bytes \<Rightarrow> ('i, 'p, 'h) host \<Rightarrow> bytes \<Rightarrow> tool_dispatch \<Rightarrow>
   (bytes + bytes) option \<times> ('i, 'p, 'h) host" where
  "host_dispatch E now date H name call =
     (case map_of (hs_scopes H) (td_agent call) of
        Some tools \<Rightarrow>
          if tools \<noteq> [] \<and> \<not> list_ex (\<lambda>t. t = name) tools
          then (Some (Inl (''tool not available: '' @ name)), H)
          else (case map_of (hs_owner H) name of
                  Some m \<Rightarrow> member_dispatch E now date H name call m
                | None \<Rightarrow> (None, H))
      | None \<Rightarrow> (case map_of (hs_owner H) name of
                  Some m \<Rightarrow> member_dispatch E now date H name call m
                | None \<Rightarrow> (None, H)))"

subsection \<open>The environment (host.rs)\<close>

definition env_dispatch ::
  "('i, 'p, 'h) host_env \<Rightarrow> nat \<Rightarrow> bytes \<Rightarrow> ('i, 'p, 'h) host \<Rightarrow> bytes \<Rightarrow> tool_dispatch \<Rightarrow>
   (bytes + bytes) \<times> ('i, 'p, 'h) host" where
  "env_dispatch E now date H name call =
     (case host_dispatch E now date H name call of
        (Some r, H') \<Rightarrow> (r, H')
      | (None, H') \<Rightarrow> (Inl (''tool not registered: '' @ name), H'))"

definition MAX_TOOL_OUTPUT_BROADCAST :: nat where
  "MAX_TOOL_OUTPUT_BROADCAST = 2048"

definition truncated_marker :: bytes where
  "truncated_marker = [CHR 0xE2, CHR 0x80, CHR 0xA6] @ ''[truncated]''"

definition truncate_for_broadcast :: "bytes \<Rightarrow> nat \<Rightarrow> bytes" where
  "truncate_for_broadcast s n =
     (if length s \<le> n then s
      else if n \<le> length truncated_marker then truncated_marker
      else take (boundary_before s (n - length truncated_marker)) s @ truncated_marker)"

subsection \<open>Who owns a tool\<close>

definition tool_names :: "tool list \<Rightarrow> bytes set" where
  "tool_names ts = tool_name ` set ts"

definition static_tools :: "('i, 'p, 'h) host_env \<Rightarrow> 'h list \<Rightarrow> bytes set" where
  "static_tools E hooks =
     {''mcp'', ''recall'', ''remember'', ''forget''} \<union> (\<Union>h \<in> set hooks. tool_names (ho_schema (he_hook E) h))"

lemma member_schema_owner [simp]: "member_schema E (H\<lparr>hs_owner := x\<rparr>) m = member_schema E H m"
  by (cases m) simp_all

lemma members_owner [simp]: "members (H\<lparr>hs_owner := x\<rparr>) = members H"
  by (simp add: members_def)

lemma members_sink [simp]: "members (H\<lparr>hs_sink := x\<rparr>) = members H"
  by (simp add: members_def)

lemma member_schema_sink [simp]: "member_schema E (H\<lparr>hs_sink := x\<rparr>) m = member_schema E H m"
  by (cases m) simp_all

lemma map_of_foldl_owner:
  "map_of (foldl (\<lambda>M n. bt_insert n m M) M names) n = (if n \<in> set names then Some m else map_of M n)"
  by (induction names arbitrary: M) auto

lemma index_tools_Inr:
  assumes "index_tools H m ts = Inr H'"
  shows "H' = H\<lparr>hs_owner := hs_owner H'\<rparr>"
    and "map_of (hs_owner H') n = (if n \<in> tool_names ts then Some m else map_of (hs_owner H) n)"
    and "n \<in> tool_names ts \<Longrightarrow> map_of (hs_owner H) n = None"
  using assms
  by (auto simp: index_tools_def Let_def map_of_foldl_owner tool_names_def find_None_iff split: option.splits)

lemma index_members_Inr:
  assumes "index_members E H ms = Inr H'"
  shows "H' = H\<lparr>hs_owner := hs_owner H'\<rparr> \<and>
    (map_of (hs_owner H') n = Some m \<longleftrightarrow>
      map_of (hs_owner H) n = Some m \<or> m \<in> set ms \<and> n \<in> tool_names (member_schema E H m))"
  using assms
proof (induction ms arbitrary: H)
  case Nil
  then show ?case by simp
next
  case (Cons x xs)
  then obtain H1 where H1: "index_tools H x (member_schema E H x) = Inr H1" and r: "index_members E H1 xs = Inr H'"
    by (auto simp: bindr_Inr)
  note i = index_tools_Inr [OF H1]
  have eq: "member_schema E H1 y = member_schema E H y" for y
    by (subst i(1)) simp
  have "H' = H1\<lparr>hs_owner := hs_owner H'\<rparr>" using Cons.IH [OF r] by blast
  then have "H' = H\<lparr>hs_owner := hs_owner H'\<rparr>" by (subst (asm) i(1)) simp
  moreover have "map_of (hs_owner H') n = Some m \<longleftrightarrow>
      map_of (hs_owner H1) n = Some m \<or> m \<in> set xs \<and> n \<in> tool_names (member_schema E H m)"
    using Cons.IH [OF r] by (simp add: eq)
  ultimately show ?case using i(2,3) [of n] by auto
qed

definition owners_exact :: "('i, 'p, 'h) host_env \<Rightarrow> ('i, 'p, 'h) host \<Rightarrow> bool" where
  "owners_exact E H \<longleftrightarrow>
     (\<forall>n m. map_of (hs_owner H) n = Some m \<longleftrightarrow> m \<in> set (members H) \<and> n \<in> tool_names (member_schema E H m))"

lemma owners_exactD:
  "owners_exact E H \<Longrightarrow> map_of (hs_owner H) n = Some m \<longleftrightarrow> m \<in> set (members H) \<and> n \<in> tool_names (member_schema E H m)"
  by (simp add: owners_exact_def)

lemma host_new_exact:
  fixes E :: "('i, 'p, 'h) host_env"
  assumes "host_new E berm mcp mem = Inr H"
  shows "owners_exact E H \<and> hs_berm H = berm \<and> hs_hooks H = [] \<and> hs_scopes H = []"
proof -
  let ?H = "\<lparr>hs_scopes = [], hs_berm = berm, hs_mcp = mcp, hs_memory = mem, hs_hooks = [], hs_owner = [], hs_sink = None\<rparr> :: ('i, 'p, 'h) host"
  have r: "index_members E ?H (members ?H) = Inr H" using assms by (simp add: host_new_def Let_def)
  obtain x where eq: "H = ?H\<lparr>hs_owner := x\<rparr>" using index_members_Inr [OF r] by blast
  have "members H = members ?H" "member_schema E H m = member_schema E ?H m" for m
    unfolding eq by (rule members_owner, rule member_schema_owner)
  then have "owners_exact E H"
    unfolding owners_exact_def using index_members_Inr [OF r] by simp
  moreover have "hs_berm H = berm" "hs_hooks H = []" "hs_scopes H = []" unfolding eq by simp_all
  ultimately show ?thesis by blast
qed

lemma host_register_exact:
  assumes "host_register E H h = Inr H'" and ok: "owners_exact E H"
  shows "owners_exact E H' \<and> hs_berm H' = hs_berm H \<and> hs_hooks H' = hs_hooks H @ [h] \<and> hs_scopes H' = hs_scopes H"
proof -
  let ?k = "length (hs_hooks H)"
  obtain H1 where H1: "index_tools H (MHook ?k) (ho_schema (he_hook E) h) = Inr H1"
    and H': "H' = H1\<lparr>hs_hooks := hs_hooks H1 @ [h]\<rparr>"
    using assms(1) by (auto simp: host_register_def bindr_Inr)
  note i = index_tools_Inr [OF H1]
  have f: "hs_berm H1 = hs_berm H" "hs_hooks H1 = hs_hooks H" "hs_scopes H1 = hs_scopes H"
    using arg_cong [OF i(1), of hs_berm] arg_cong [OF i(1), of hs_hooks] arg_cong [OF i(1), of hs_scopes] by simp_all
  have ms: "members H' = members H @ [MHook ?k]"
    by (simp add: members_def H' f)
  have old: "member_schema E H' m = member_schema E H m" if "m \<in> set (members H)" for m
    using that by (cases m) (auto simp: members_def H' f nth_append split: if_splits)
  have new: "member_schema E H' (MHook ?k) = ho_schema (he_hook E) h" by (simp add: H' f)
  have fresh: "MHook ?k \<notin> set (members H)" by (auto simp: members_def)
  have ow: "hs_owner H' = hs_owner H1" by (simp add: H')
  have "map_of (hs_owner H') n = Some m \<longleftrightarrow> m \<in> set (members H') \<and> n \<in> tool_names (member_schema E H' m)" for n m
  proof (cases "m = MHook ?k")
    case True
    then show ?thesis
      using i(2,3) [of n] owners_exactD [OF ok, of n m] new fresh by (auto simp: ms ow simp del: member_schema.simps)
  next
    case False
    then show ?thesis
      using i(2,3) [of n] owners_exactD [OF ok, of n m] old [of m] by (auto simp: ms ow simp del: member_schema.simps)
  qed
  then show ?thesis by (simp add: owners_exact_def H' f)
qed

lemma register_all_exact:
  assumes "register_all E H hooks = Inr H'" and "owners_exact E H"
  shows "owners_exact E H' \<and> hs_berm H' = hs_berm H \<and> hs_hooks H' = hs_hooks H @ hooks \<and> hs_scopes H' = hs_scopes H"
  using assms
proof (induction hooks arbitrary: H)
  case (Cons h hooks)
  then obtain H1 where "host_register E H h = Inr H1" "register_all E H1 hooks = Inr H'"
    by (auto simp: bindr_Inr)
  then show ?case using host_register_exact Cons by fastforce
qed simp

lemma host_build_exact:
  assumes "host_build E sandbox idle m hooks = Inr (H, T)"
  shows "owners_exact E H" and "hs_hooks H = hooks" and "hs_berm H = (if sandbox then Some berm_new else None)"
    and "hs_scopes H = []" and "T = registry_insert_all [] (host_schema E H)"
proof -
  obtain H1 H2 where r: "host_new E (if sandbox then Some berm_new else None)
         \<lparr>mc_handler = handler_new idle, mc_agents = [], mc_tasks = []\<rparr> \<lparr>mx_store = m, mx_configs = []\<rparr> = Inr H1"
      "register_all E H1 hooks = Inr H2" and H: "H = set_event_sink H2" "T = registry_insert_all [] (host_schema E H2)"
    using assms by (auto simp: host_build_def bindr_Inr)
  have n: "owners_exact E H1" "hs_berm H1 = (if sandbox then Some berm_new else None)" "hs_hooks H1 = []" "hs_scopes H1 = []"
    using host_new_exact [OF r(1)] by simp_all
  have a: "owners_exact E H2" "hs_berm H2 = hs_berm H1" "hs_hooks H2 = hs_hooks H1 @ hooks" "hs_scopes H2 = hs_scopes H1"
    using register_all_exact [OF r(2) n(1)] by simp_all
  show "owners_exact E H" using a(1) by (simp add: owners_exact_def H set_event_sink_def)
  show "hs_hooks H = hooks" "hs_berm H = (if sandbox then Some berm_new else None)" "hs_scopes H = []"
    using a n by (simp_all add: H set_event_sink_def)
  have "member_schema E (H2\<lparr>hs_sink := x\<rparr>) = member_schema E H2" for x by (rule ext) simp
  then show "T = registry_insert_all [] (host_schema E H)" by (simp add: H set_event_sink_def host_schema_def)
qed

lemma registry_contains_insert_all:
  "registry_contains (registry_insert_all R ts) n \<longleftrightarrow> n \<in> tool_names ts \<or> registry_contains R n"
  unfolding registry_insert_all_def by (induction ts arbitrary: R) (auto simp: tool_names_def)

lemma tool_names_simps [simp]:
  "tool_names (mcp_tools E) = {''mcp''}" "tool_names (memory_tools E) = {''recall'', ''remember'', ''forget''}"
  "tool_names [] = {}"
  by (simp_all add: tool_names_def mcp_tools_def memory_tools_def as_tool_def)

lemma berm_schema_new [simp]: "berm_schema B berm_new = []"
  by (simp add: berm_schema_def berm_new_def)

lemma build_owners:
  assumes b: "host_build E sandbox idle m hooks = Inr (H, T)"
  shows "map_of (hs_owner H) n \<noteq> Some MBerm" and "map_of (hs_owner H) n \<noteq> None \<longleftrightarrow> n \<in> static_tools E hooks"
proof -
  note e = host_build_exact [OF b]
  have berm: "member_schema E H MBerm = []" by (simp add: e(3))
  then show "map_of (hs_owner H) n \<noteq> Some MBerm" using owners_exactD [OF e(1), of n MBerm] by simp
  have "map_of (hs_owner H) n \<noteq> None \<longleftrightarrow> (\<exists>m \<in> set (members H). n \<in> tool_names (member_schema E H m))"
    using owners_exactD [OF e(1), of n] by auto
  also have "\<dots> \<longleftrightarrow> n \<in> static_tools E hooks"
  proof -
    have "set (members H) = (if hs_berm H = None then {} else {MBerm}) \<union> {MMcp, MMemory} \<union> MHook ` {0..<length hooks}"
      by (auto simp: members_def e(2))
    moreover have "(\<exists>h \<in> set hooks. n \<in> tool_names (ho_schema (he_hook E) h)) \<longleftrightarrow>
        (\<exists>k \<in> {0..<length hooks}. n \<in> tool_names (member_schema E H (MHook k)))"
      by (auto simp: e(2) in_set_conv_nth Bex_def)
    ultimately show ?thesis using berm by (auto simp: static_tools_def simp del: member_schema.simps(4))
  qed
  finally show "map_of (hs_owner H) n \<noteq> None \<longleftrightarrow> n \<in> static_tools E hooks" .
qed

lemma offered_static:
  assumes b: "host_build E sandbox idle m hooks = Inr (H, T)"
  shows "registry_contains T n \<longleftrightarrow> n \<in> static_tools E hooks"
proof -
  note e = host_build_exact [OF b]
  have "registry_contains T n \<longleftrightarrow> (\<exists>m \<in> set (members H). n \<in> tool_names (member_schema E H m))"
    unfolding e(5) registry_contains_insert_all by (auto simp: host_schema_def tool_names_def registry_contains_def)
  then show ?thesis using owners_exactD [OF e(1), of n] build_owners(2) [OF b, of n] by auto
qed

text \<open>
  A registry that could be built gives every tool name one owner: the index holds exactly the
  names the members export, each under its member, a name two members export having been refused;
  and the runtime offers the schemas of exactly these names.
\<close>

theorem each_tool_one_owner:
  assumes "host_build E sandbox idle m hooks = Inr (H, T)"
  shows "(map_of (hs_owner H) n = Some mb \<longleftrightarrow>
      mb \<in> set (members H) \<and> n \<in> tool_name ` set (member_schema E H mb)) \<and>
    (registry_contains T n \<longleftrightarrow> map_of (hs_owner H) n \<noteq> None)"
proof -
  note e = host_build_exact [OF assms]
  have "registry_contains T n \<longleftrightarrow> map_of (hs_owner H) n \<noteq> None"
    using offered_static [OF assms, of n] build_owners(2) [OF assms, of n] by simp
  then show ?thesis using owners_exactD [OF e(1), of n mb] by (simp add: tool_names_def)
qed

subsection \<open>What a call reaches\<close>

text \<open>
  The callbacks of a running daemon in any order. A resolve gets the stored configuration; what the
  tasks, the reaper and other writers do to the servers and the store is any change of them.
\<close>

inductive host_reach :: "('i, 'p, 'h) host_env \<Rightarrow> 'h list \<Rightarrow> ('i, 'p, 'h) host \<Rightarrow> bool" for E hooks where
  Built: "host_build E sandbox idle m hooks = Inr (H, T) \<Longrightarrow> host_reach E hooks H"
| Resolved: "host_reach E hooks H \<Longrightarrow> host_reach E hooks (host_resolve E H a (persisted_config c))"
| Forgot: "host_reach E hooks H \<Longrightarrow> host_reach E hooks (host_forget E H a)"
| Reported: "host_reach E hooks H \<Longrightarrow> host_reach E hooks (host_event E H a s ev)"
| Called: "host_reach E hooks H \<Longrightarrow> host_reach E hooks (snd (env_dispatch E now date H name call))"
| Outside: "host_reach E hooks H \<Longrightarrow> host_reach E hooks (H\<lparr>hs_mcp := X, hs_memory := Y\<rparr>)"

text \<open>The parts of the registry no callback of a member touches.\<close>

definition frame :: "('i, 'p, 'h) host \<Rightarrow> (bytes \<times> member) list \<times> (agent_id \<times> bytes list) list \<times> nat \<times> bool" where
  "frame H = (hs_owner H, hs_scopes H, length (hs_hooks H), hs_berm H = None)"

lemma frame_members: "frame H = frame H' \<Longrightarrow> members H = members H'"
  by (simp add: frame_def members_def)

lemma frame_resolve: "frame (member_resolve E a c H m) = frame H"
  by (cases m) (simp_all add: frame_def hook_update_def)

lemma frame_forget: "frame (member_forget E a H m) = frame H"
  by (cases m) (simp_all add: frame_def hook_update_def)

lemma frame_event: "frame (member_event E a s ev H m) = frame H"
  by (cases m) (simp_all add: frame_def hook_update_def)

lemma frame_foldl: "(\<And>H m. frame (f H m) = frame H) \<Longrightarrow> frame (foldl f H ms) = frame H"
  by (induction ms arbitrary: H) simp_all

lemma frame_dispatch: "frame (snd (member_dispatch E now date H name call m)) = frame H"
  by (cases m) (simp_all add: frame_def hook_update_def split: option.split prod.split)

lemma frame_host_dispatch: "frame (snd (host_dispatch E now date H name call)) = frame H"
  by (simp add: host_dispatch_def frame_dispatch split: option.split)

lemma snd_env_dispatch: "snd (env_dispatch E now date H name call) = snd (host_dispatch E now date H name call)"
  by (simp add: env_dispatch_def split: prod.split option.split)

definition host_ok :: "('i, 'p, 'h) host_env \<Rightarrow> 'h list \<Rightarrow> ('i, 'p, 'h) host \<Rightarrow> bool" where
  "host_ok E hooks H \<longleftrightarrow>
     (\<forall>n. map_of (hs_owner H) n \<noteq> Some MBerm \<and> (map_of (hs_owner H) n \<noteq> None \<longleftrightarrow> n \<in> static_tools E hooks)) \<and>
     (\<forall>a ts. map_of (hs_scopes H) a = Some ts \<longrightarrow> ts = []) \<and> length (hs_hooks H) = length hooks"

lemma host_ok_frame:
  assumes "host_ok E hooks H" and "frame H' = frame (H\<lparr>hs_scopes := S\<rparr>)"
    and "\<And>a ts. map_of S a = Some ts \<Longrightarrow> ts = []"
  shows "host_ok E hooks H'"
proof -
  have "hs_owner H' = hs_owner H" "hs_scopes H' = S" "length (hs_hooks H') = length (hs_hooks H)"
    using assms(2) by (simp_all add: frame_def)
  then show ?thesis using assms(1,3) unfolding host_ok_def by simp
qed

lemma host_ok_reach: "host_reach E hooks H \<Longrightarrow> host_ok E hooks H"
proof (induction rule: host_reach.induct)
  case (Built sandbox idle m H T)
  then show ?case using host_build_exact [OF Built] build_owners [OF Built] by (simp add: host_ok_def)
next
  case (Resolved H a c)
  have f: "frame (host_resolve E H a (persisted_config c)) = frame (H\<lparr>hs_scopes := bt_insert a [] (hs_scopes H)\<rparr>)"
    unfolding host_resolve_def by (subst frame_foldl) (simp_all add: frame_resolve persisted_config_def)
  show ?case
    by (rule host_ok_frame [OF Resolved.IH f]) (use Resolved.IH in \<open>auto simp: host_ok_def split: if_splits\<close>)
next
  case (Forgot H a)
  have f: "frame (host_forget E H a) = frame (H\<lparr>hs_scopes := bt_remove a (hs_scopes H)\<rparr>)"
    unfolding host_forget_def by (subst frame_foldl) (simp_all add: frame_forget)
  show ?case
    by (rule host_ok_frame [OF Forgot.IH f]) (use Forgot.IH in \<open>auto simp: host_ok_def split: if_splits\<close>)
next
  case (Reported H a s ev)
  have "frame (foldl (member_event E a s ev) H (members H)) = frame H"
    by (rule frame_foldl) (rule frame_event)
  then have f: "frame (host_event E H a s ev) = frame (H\<lparr>hs_scopes := hs_scopes H\<rparr>)"
    by (cases ev) (simp_all add: host_event_def Let_def frame_def)
  show ?case by (rule host_ok_frame [OF Reported.IH f]) (use Reported.IH in \<open>auto simp: host_ok_def\<close>)
next
  case (Called H now date name call)
  have f: "frame (snd (env_dispatch E now date H name call)) = frame (H\<lparr>hs_scopes := hs_scopes H\<rparr>)"
    using frame_host_dispatch [of E now date H name call] by (simp add: snd_env_dispatch)
  show ?case by (rule host_ok_frame [OF Called.IH f]) (use Called.IH in \<open>auto simp: host_ok_def\<close>)
next
  case (Outside H X Y)
  show ?case
    by (rule host_ok_frame [OF Outside.IH, where S = "hs_scopes H"])
       (use Outside.IH in \<open>auto simp: host_ok_def frame_def\<close>)
qed

text \<open>
  In a running daemon a tool call reaches the built-in tools and the consumers' tools and nothing
  else: the index is made before any agent is resolved. So a tool of an image an agent declares is
  answered as not registered, unless a built-in or a consumer's tool bears its name, and the sandbox is
  never entered; the documentation says these tools are offered and dispatched.
\<close>

theorem image_tools_never_reached:
  assumes "host_reach E hooks H"
  shows "map_of (hs_owner H) name \<noteq> Some MBerm \<and>
    (name \<in> static_tools E hooks \<or>
     env_dispatch E now date H name call = (Inl (''tool not registered: '' @ name), H))"
proof -
  have ok: "host_ok E hooks H" by (rule host_ok_reach [OF assms])
  then have sc: "ts = []" if "map_of (hs_scopes H) a = Some ts" for a ts using that unfolding host_ok_def by blast
  have "env_dispatch E now date H name call = (Inl (''tool not registered: '' @ name), H)"
    if "map_of (hs_owner H) name = None"
    using that sc by (auto simp: env_dispatch_def host_dispatch_def split: option.split)
  then show ?thesis using ok unfolding host_ok_def by blast
qed

text \<open>
  No call is refused for its agent's scope: what a resolve records is the stored
  configuration's empty list, which is unrestricted. Every call of an indexed tool goes to the
  tool's member, also where the agent was offered a whitelist without it.
\<close>

theorem scope_never_refuses:
  assumes "host_reach E hooks H"
  shows "host_dispatch E now date H name call =
    (case map_of (hs_owner H) name of
       Some m \<Rightarrow> member_dispatch E now date H name call m
     | None \<Rightarrow> (None, H))"
proof -
  have "host_ok E hooks H" by (rule host_ok_reach [OF assms])
  then have "ts = []" if "map_of (hs_scopes H) a = Some ts" for a ts using that unfolding host_ok_def by blast
  then show ?thesis by (auto simp: host_dispatch_def split: option.split)
qed

text \<open>
  In a daemon without consumers, an agent that declares neither skills nor servers is offered
  every built-in tool; any other agent the memory tools, and the tool for servers exactly when it
  declares one or an image of its own exports that name.
\<close>

theorem offered_tools_exact:
  assumes "host_build E sandbox idle m [] = Inr (H0, T)" and "host_reach E [] H" and "ag_tools c = []"
  shows "tool_name ` set (filtered_snapshot T (ag_tools (host_build_agent E H c))) =
    (if ag_skills c = [] \<and> ag_mcps c = [] then {''mcp'', ''recall'', ''remember'', ''forget''}
     else {''recall'', ''remember'', ''forget''} \<union>
       (if ag_mcps c \<noteq> [] \<or>
           (\<exists>R. hs_berm H = Some R \<and> ''mcp'' \<in> set (berm_names (he_berm E) R (ag_id c)))
        then {''mcp''} else {}))"
proof -
  note e = host_build_exact [OF assms(1)]
  have T: "registry_ok T" by (simp add: e(5) registry_ok_insert_all)
  have hooks: "hs_hooks H = []" using host_ok_reach [OF assms(2)] by (simp add: host_ok_def)
  have mine: "registry_contains T n \<longleftrightarrow> n \<in> {''mcp'', ''recall'', ''remember'', ''forget''}" for n
    using offered_static [OF assms(1), of n] by (simp add: static_tools_def)
  have snap: "tool_name ` set (filtered_snapshot T ns) = {n. registry_contains T n \<and> (ns = [] \<or> n \<in> set ns)}" for ns
  proof -
    have nm: "tool_name t = n" if "map_of T n = Some t" for n t
      using T bt_get_in [of T n t] that by (auto simp: registry_ok_def)
    have "n \<in> tool_name ` set (filtered_snapshot T ns)" if "map_of T n = Some t" "ns = [] \<or> n \<in> set ns" for n t
      unfolding filtered_snapshot_exact [OF T] by (rule image_eqI [of _ _ t]) (use nm [OF that(1)] that in simp_all)
    moreover have "map_of T n \<noteq> None \<and> (ns = [] \<or> n \<in> set ns)" if "n \<in> tool_name ` set (filtered_snapshot T ns)" for n
      using that unfolding filtered_snapshot_exact [OF T] by (elim imageE) simp
    ultimately show ?thesis unfolding registry_contains_def by (intro set_eqI iffI) blast+
  qed
  show ?thesis
  proof (cases "ag_skills c = [] \<and> ag_mcps c = []")
    case True
    then have "ag_tools (host_build_agent E H c) = []"
      using assms(3) by (simp add: host_build_agent_def apply_scope_def split: option.split)
    then show ?thesis using True snap mine by auto
  next
    case False
    define c' where "c' = (case host_usage E H of None \<Rightarrow> c | Some u \<Rightarrow> c\<lparr>ag_description := ag_description c @ u\<rparr>)"
    have c': "ag_skills c' = ag_skills c" "ag_mcps c' = ag_mcps c" "ag_id c' = ag_id c"
      by (simp_all add: c'_def split: option.split)
    have "ag_tools (host_build_agent E H c) = concat (map fst (map (member_scoped E H c') (members H)))"
      using False c' by (auto simp: host_build_agent_def apply_scope_def Let_def c'_def [symmetric])
    then have tools: "set (ag_tools (host_build_agent E H c)) =
        (case hs_berm H of None \<Rightarrow> {} | Some R \<Rightarrow> set (berm_names (he_berm E) R (ag_id c))) \<union>
        (if ag_mcps c = [] then {} else {''mcp''}) \<union> {''recall'', ''remember'', ''forget''}"
      by (cases "hs_berm H")
        (simp_all add: members_def hooks mcp_scoped_def c' mcp_tools_def memory_tools_def as_tool_def Un_assoc)
    then have "ag_tools (host_build_agent E H c) \<noteq> []" by (intro notI) simp
    then have "tool_name ` set (filtered_snapshot T (ag_tools (host_build_agent E H c))) =
        {''mcp'', ''recall'', ''remember'', ''forget''} \<inter> set (ag_tools (host_build_agent E H c))"
      by (simp only: snap mine simp_thms Int_def)
    then show ?thesis using False unfolding tools by (cases "hs_berm H") auto
  qed
qed

subsection \<open>Claims follow declarations\<close>

text \<open>What a task does to the table of claims.\<close>

fun claim_effect :: "'p mcp_env \<Rightarrow> mcp_task \<Rightarrow> (owner \<rightharpoonup> fingerprint) \<Rightarrow> owner \<rightharpoonup> fingerprint" where
  "claim_effect M (Register agent c) f = f((agent, ms_name c) \<mapsto> fingerprint_of M c)"
| "claim_effect M (Unregister agent name) f = f((agent, name) := None)"

lemma run_task_claims:
  "map_of (mh_by_owner (run_task M t S)) = claim_effect M t (map_of (mh_by_owner S))"
proof (cases t)
  case (Register agent c)
  have "mh_by_owner (snd (register_claim M S agent c)) = bt_insert (agent, ms_name c) (fingerprint_of M c) (mh_by_owner S)"
    by (simp add: register_claim_def emit_def Let_def case_prod_unfold split: option.split)
  moreover have "mh_by_owner (register_for_agent M S agent c) = mh_by_owner (snd (register_claim M S agent c))"
    by (simp add: register_for_agent_def bridge_remove_def split: prod.split option.split)
  ultimately show ?thesis using Register by simp
next
  case (Unregister agent name)
  then show ?thesis
    by (auto simp: unregister_for_agent_def unregister_claim_def bridge_remove_def emit_def Let_def
        split: option.split prod.split)
qed

text \<open>The claims once the waiting tasks have run, in the order they were spawned.\<close>

definition settled_claims :: "('i, 'p, 'h) host_env \<Rightarrow> 'p mcp_harness \<Rightarrow> owner \<rightharpoonup> fingerprint" where
  "settled_claims E X =
     foldl (\<lambda>f t. claim_effect (he_mcp E) t f) (map_of (mh_by_owner (mc_handler X))) (mc_tasks X)"

text \<open>What a list of declarations asks for: of two under one name, the later.\<close>

definition declared_claims ::
  "('i, 'p, 'h) host_env \<Rightarrow> mcp_server_config list \<Rightarrow> bytes \<rightharpoonup> fingerprint" where
  "declared_claims E cfgs =
     map_of (rev (map (\<lambda>c. (ms_name c, fingerprint_of (he_mcp E) (effective (he_overlay E) c))) cfgs))"

text \<open>
  A run of the member: callbacks spawn tasks, the oldest task runs next, and connects, calls and
  the reaper change the handler without touching a claim. \<open>D\<close> is what each agent declared last.
\<close>

inductive mcp_reach ::
  "('i, 'p, 'h) host_env \<Rightarrow> 'p mcp_harness \<Rightarrow> (agent_id \<rightharpoonup> mcp_server_config list) \<Rightarrow> bool" for E where
  New: "mcp_reach E \<lparr>mc_handler = handler_new idle, mc_agents = [], mc_tasks = []\<rparr> Map.empty"
| Resolve: "mcp_reach E X D \<Longrightarrow> mcp_reach E (mcp_resolve E X a c) (D(a \<mapsto> ag_mcps c))"
| Forget: "mcp_reach E X D \<Longrightarrow> mcp_reach E (mcp_forget E X a) (D(a := None))"
| Task: "mcp_reach E X D \<Longrightarrow> mc_tasks X = t # ts \<Longrightarrow>
    mcp_reach E (X\<lparr>mc_handler := run_task (he_mcp E) t (mc_handler X), mc_tasks := ts\<rparr>) D"
| Other: "mcp_reach E X D \<Longrightarrow> map_of (mh_by_owner S) = map_of (mh_by_owner (mc_handler X)) \<Longrightarrow>
    mcp_reach E (X\<lparr>mc_handler := S\<rparr>) D"

definition claims_follow ::
  "('i, 'p, 'h) host_env \<Rightarrow> 'p mcp_harness \<Rightarrow> (agent_id \<rightharpoonup> mcp_server_config list) \<Rightarrow> bool" where
  "claims_follow E X D \<longleftrightarrow>
     (\<forall>a. map_of (mc_agents X) a = map_option (map ms_name) (D a)) \<and>
     (\<forall>a n. settled_claims E X (he_show E a, n) =
        (case D a of None \<Rightarrow> None | Some cfgs \<Rightarrow> declared_claims E cfgs n))"

lemma settled_append:
  "foldl (\<lambda>f t. claim_effect (he_mcp E) t f) (map_of (mh_by_owner (mc_handler X))) (mc_tasks X @ ts) =
   foldl (\<lambda>f t. claim_effect (he_mcp E) t f) (settled_claims E X) ts"
  by (simp add: settled_claims_def)

lemma fold_unregister:
  "foldl (\<lambda>f t. claim_effect M t f) f (map (Unregister s) names) (s', n) =
   (if s' = s \<and> n \<in> set names then None else f (s', n))"
  by (induction names arbitrary: f) auto

lemma fold_register:
  "foldl (\<lambda>f t. claim_effect M t f) f (map (\<lambda>c. Register s (e c)) cfgs) (s', n) =
   (if s' = s then (case map_of (rev (map (\<lambda>c. (ms_name (e c), fingerprint_of M (e c))) cfgs)) n of
        Some fp \<Rightarrow> Some fp | None \<Rightarrow> f (s', n))
    else f (s', n))"
  by (induction cfgs arbitrary: f) (auto simp: map_add_def split: option.split)

lemma declared_claims_None: "declared_claims E cfgs n = None \<longleftrightarrow> n \<notin> ms_name ` set cfgs"
  by (force simp: declared_claims_def map_of_eq_None_iff)

lemma ms_name_effective [simp]: "ms_name (effective ov c) = ms_name c"
  by (simp add: effective_def)

lemma claims_follow_resolve:
  assumes ok: "claims_follow E X D" and inj: "inj (he_show E)"
  shows "claims_follow E (mcp_resolve E X a c) (D(a \<mapsto> ag_mcps c))"
proof -
  let ?new = "map ms_name (ag_mcps c)"
  let ?prior = "case map_of (mc_agents X) a of Some ns \<Rightarrow> ns | None \<Rightarrow> []"
  let ?gone = "filter (\<lambda>n. n \<notin> set ?new) ?prior"
  let ?u = "foldl (\<lambda>f t. claim_effect (he_mcp E) t f) (settled_claims E X) (map (Unregister (he_show E a)) ?gone)"
  have ag: "map_of (mc_agents X) b = map_option (map ms_name) (D b)"
    and cl: "settled_claims E X (he_show E b, n) = (case D b of None \<Rightarrow> None | Some cfgs \<Rightarrow> declared_claims E cfgs n)"
    for b n using ok by (simp_all add: claims_follow_def)
  have s: "settled_claims E (mcp_resolve E X a c) = foldl (\<lambda>f t. claim_effect (he_mcp E) t f) ?u
      (map (\<lambda>cfg. Register (he_show E a) (effective (he_overlay E) cfg)) (ag_mcps c))"
    by (simp add: settled_claims_def mcp_resolve_def Let_def)
  have "settled_claims E (mcp_resolve E X a c) (he_show E b, n) =
      (if b = a then declared_claims E (ag_mcps c) n
       else case D b of None \<Rightarrow> None | Some cfgs \<Rightarrow> declared_claims E cfgs n)" for b n
  proof (cases "b = a")
    case False
    then have "he_show E b \<noteq> he_show E a" using inj by (simp add: inj_eq)
    then show ?thesis using False by (simp add: s fold_register fold_unregister cl)
  next
    case True
    have old: "n \<notin> set ?prior \<Longrightarrow> settled_claims E X (he_show E a, n) = None"
      by (cases "D a") (auto simp: cl ag declared_claims_None)
    have "?u (he_show E a, n) = None" if "n \<notin> set ?new"
      using that old by (auto simp: fold_unregister simp del: set_map)
    moreover have "declared_claims E (ag_mcps c) n = None \<longleftrightarrow> n \<notin> set ?new" by (simp add: declared_claims_None)
    ultimately show ?thesis
      using True by (cases "declared_claims E (ag_mcps c) n") (auto simp: s fold_register declared_claims_def)
  qed
  then show ?thesis by (simp add: claims_follow_def ag mcp_resolve_def Let_def)
qed

lemma claims_follow_forget:
  assumes ok: "claims_follow E X D" and inj: "inj (he_show E)"
  shows "claims_follow E (mcp_forget E X a) (D(a := None))"
proof -
  have ag: "map_of (mc_agents X) b = map_option (map ms_name) (D b)"
    and cl: "settled_claims E X (he_show E b, n) = (case D b of None \<Rightarrow> None | Some cfgs \<Rightarrow> declared_claims E cfgs n)"
    for b n using ok by (simp_all add: claims_follow_def)
  show ?thesis
  proof (cases "D a")
    case None
    then show ?thesis using ok ag [of a] by (simp add: mcp_forget_def fun_upd_idem)
  next
    case (Some cfgs)
    then have f: "mcp_forget E X a = X\<lparr>mc_agents := bt_remove a (mc_agents X),
        mc_tasks := mc_tasks X @ map (Unregister (he_show E a)) (map ms_name cfgs)\<rparr>"
      using ag [of a] by (simp add: mcp_forget_def)
    have "settled_claims E (mcp_forget E X a) (he_show E b, n) =
        (case (D(a := None)) b of None \<Rightarrow> None | Some cfgs \<Rightarrow> declared_claims E cfgs n)" for b n
    proof -
      have "settled_claims E (mcp_forget E X a) =
          foldl (\<lambda>f t. claim_effect (he_mcp E) t f) (settled_claims E X) (map (Unregister (he_show E a)) (map ms_name cfgs))"
        unfolding f settled_claims_def by simp
      then have "settled_claims E (mcp_forget E X a) (he_show E b, n) =
          (if he_show E b = he_show E a \<and> n \<in> set (map ms_name cfgs) then None else settled_claims E X (he_show E b, n))"
        by (simp only: fold_unregister)
      then show ?thesis
        using inj Some declared_claims_None [of E cfgs n] by (auto simp: cl inj_eq)
    qed
    then show ?thesis by (auto simp: claims_follow_def f ag)
  qed
qed

lemma claims_follow_reach:
  assumes "mcp_reach E X D" and inj: "inj (he_show E)"
  shows "claims_follow E X D"
  using assms(1)
proof (induction rule: mcp_reach.induct)
  case (New idle)
  show ?case by (simp add: claims_follow_def settled_claims_def handler_new_def)
next
  case (Resolve X D a c)
  then show ?case using claims_follow_resolve inj by blast
next
  case (Forget X D a)
  then show ?case using claims_follow_forget inj by blast
next
  case (Task X D t ts)
  then show ?case by (simp add: claims_follow_def settled_claims_def run_task_claims)
next
  case (Other X D S)
  then show ?case by (simp add: claims_follow_def settled_claims_def)
qed

lemma run_tasks_claims:
  "map_of (mh_by_owner (foldl (\<lambda>S t. run_task M t S) S ts)) =
   foldl (\<lambda>f t. claim_effect M t f) (map_of (mh_by_owner S)) ts"
  by (induction ts arbitrary: S) (simp_all add: run_task_claims)

text \<open>
  C21: From every state the member can reach, running the tasks it spawned, oldest first, ends with
  each agent claiming exactly the servers it declared last, each under the fingerprint of its
  declaration with the daemon's environment filled in; a forgotten agent claims none.
\<close>

theorem tasks_settle_claims:
  assumes "mcp_reach E X D" and "inj (he_show E)"
  shows "map_of (mh_by_owner (foldl (\<lambda>S t. run_task (he_mcp E) t S) (mc_handler X) (mc_tasks X))) (he_show E a, n) =
      (case D a of None \<Rightarrow> None | Some cfgs \<Rightarrow> declared_claims E cfgs n) \<and>
    map_of (mc_agents X) a = map_option (map ms_name) (D a)"
  using claims_follow_reach [OF assms] unfolding run_tasks_claims claims_follow_def settled_claims_def by simp

end
