(* ===== verification/SessionInvariant.thy ===== *)
theory SessionInvariant
  imports SessionStore
begin

section \<open>Sessions as lists of turns\<close>

text \<open>
  The invariant of the session store and the refinement: under the keys of a session there is
  exactly its metadata, its archive pointer, and one readable message per position. Each
  operation of the store is then the obvious operation on a map from handles to metadata, turns
  and archive pointer, and no operation on one session reaches another.
\<close>

subsection \<open>The text index stays readable and to itself\<close>

definition text_readable :: "text_codecs \<Rightarrow> kv \<Rightarrow> bool" where
  "text_readable J m \<longleftrightarrow>
     (\<forall>ix k. \<exists>r. get_json (doc_codec J) m Text (doc_key ix k) = Inr r) \<and> (\<forall>ix. \<exists>st. load_stats J m ix = Inr st)"

lemma text_readable_cong:
  assumes "\<And>k. kv_get m' Text k = kv_get m Text k"
  shows "text_readable J m' = text_readable J m"
proof -
  have "get_json (doc_codec J) m' Text k = get_json (doc_codec J) m Text k" for k
    by (rule get_json_cong [OF assms])
  moreover have "load_stats J m' ix = load_stats J m ix" for ix
    by (rule load_stats_cong [OF assms])
  ultimately show ?thesis by (simp add: text_readable_def)
qed

lemma text_readable_put_other [simp]:
  "c \<noteq> Text \<Longrightarrow> text_readable J (put_json J' m c k v) = text_readable J m"
  "c \<noteq> Text \<Longrightarrow> text_readable J (kv_put m c k b) = text_readable J m"
  "c \<noteq> Text \<Longrightarrow> text_readable J (kv_remove m c k) = text_readable J m"
  by (rule text_readable_cong, simp)+

lemma stats_key_inj [simp]: "stats_key ix = stats_key ix' \<longleftrightarrow> ix = ix'"
  by (cases ix; cases ix') (simp_all add: stats_key_def key_joined)

lemma doc_key_inj2 [simp]: "doc_key ix k = doc_key ix' k' \<longleftrightarrow> ix = ix' \<and> k = k'"
  by (cases ix; cases ix') (auto simp: doc_key_def doc_prefix_def kv_prefix_def key_joined)

lemma readable_put_stats:
  assumes "codecs_ok J" and "text_readable J m"
  shows "text_readable J (put_json (stats_codec J) m Text (stats_key ix) st)"
proof -
  have "codec_ok id (stats_codec J)" using assms(1) by (simp add: codecs_ok_def)
  then have "load_stats J (put_json (stats_codec J) m Text (stats_key ix) st) ix' =
      (if ix' = ix then Inr st else load_stats J m ix')" for ix'
    by (auto simp: load_stats_def get_json_put get_json_put_other)
  then show ?thesis
    using assms(2) by (simp add: text_readable_def get_json_put_other)
qed

lemma readable_put_doc:
  assumes "codecs_ok J" and "text_readable J m"
  shows "text_readable J (put_json (doc_codec J) m Text (doc_key ix k) d)"
proof -
  have "codec_ok id (doc_codec J)" using assms(1) by (simp add: codecs_ok_def)
  then have "get_json (doc_codec J) (put_json (doc_codec J) m Text (doc_key ix k) d) Text (doc_key ix' k') =
      (if ix' = ix \<and> k' = k then Inr (Some d) else get_json (doc_codec J) m Text (doc_key ix' k'))" for ix' k'
    by (auto simp: get_json_put get_json_put_other)
  then show ?thesis
    using assms(2) by (simp add: text_readable_def load_stats_def get_json_put_other)
qed

lemma readable_remove_doc:
  assumes "text_readable J m"
  shows "text_readable J (kv_remove m Text (doc_key ix k))"
proof -
  have "get_json (doc_codec J) (kv_remove m Text (doc_key ix k)) Text (doc_key ix' k') =
      (if ix' = ix \<and> k' = k then Inr None else get_json (doc_codec J) m Text (doc_key ix' k'))" for ix' k'
    by (auto simp: get_json_none get_json_remove_other)
  then show ?thesis
    using assms by (simp add: text_readable_def load_stats_def get_json_remove_other)
qed

lemma readable_postings:
  assumes "text_readable J m"
  shows "text_readable J (put_postings m ix tfs k)" "text_readable J (drop_postings m ix ts k)"
proof -
  have put: "kv_get (put_postings m ix tfs k) Text q = kv_get m Text q"
    and del: "kv_get (drop_postings m ix ts k) Text q = kv_get m Text q"
    if "\<forall>t. q \<noteq> posting_key ix t k" for q
    using that by (auto intro!: kv_get_put_postings_other simp: kv_get_drop_postings)
  have "get_json (doc_codec J) (put_postings m ix tfs k) Text (doc_key ix' k') = get_json (doc_codec J) m Text (doc_key ix' k')"
    "load_stats J (put_postings m ix tfs k) ix' = load_stats J m ix'"
    "get_json (doc_codec J) (drop_postings m ix ts k) Text (doc_key ix' k') = get_json (doc_codec J) m Text (doc_key ix' k')"
    "load_stats J (drop_postings m ix ts k) ix' = load_stats J m ix'" for ix' k'
    by (auto intro!: get_json_cong load_stats_cong put del)
  then show "text_readable J (put_postings m ix tfs k)" "text_readable J (drop_postings m ix ts k)"
    using assms by (simp_all add: text_readable_def)
qed

lemma drop_text_total:
  assumes "codecs_ok J" and "text_readable J m"
  shows "\<exists>m'. drop_text J m ix k = Inr m' \<and> text_readable J m'"
proof -
  obtain r where r: "get_json (doc_codec J) m Text (doc_key ix k) = Inr r"
    using assms(2) unfolding text_readable_def by blast
  show ?thesis
  proof (cases r)
    case None
    then show ?thesis using r assms(2) by (simp add: drop_text_def)
  next
    case (Some d)
    let ?m = "kv_remove (drop_postings m ix (doc_terms d) k) Text (doc_key ix k)"
    have rd: "text_readable J ?m"
      by (intro readable_remove_doc readable_postings assms(2))
    then obtain st where "load_stats J ?m ix = Inr st" unfolding text_readable_def by blast
    then show ?thesis
      using r Some readable_put_stats [OF assms(1) rd] by (simp add: drop_text_def Let_def)
  qed
qed

lemma index_text_total:
  assumes "codecs_ok J" and "text_readable J m"
  shows "\<exists>m'. index_text U J m ix k text w = Inr m' \<and> text_readable J m'"
proof -
  obtain m1 where m1: "drop_text J m ix k = Inr m1" "text_readable J m1"
    using drop_text_total [OF assms] by blast
  show ?thesis
  proof (cases "tokenize U text = []")
    case True
    then show ?thesis using m1 by (simp add: index_text_def)
  next
    case False
    obtain st where st: "load_stats J m1 ix = Inr st" using m1(2) unfolding text_readable_def by blast
    show ?thesis
      unfolding index_text_eq [OF False m1(1) st]
      by (simp add: readable_put_stats readable_put_doc readable_postings assms(1) m1(2))
  qed
qed

lemma drop_text_other: "drop_text J m ix k = Inr m' \<Longrightarrow> c \<noteq> Text \<Longrightarrow> kv_get m' c q = kv_get m c q"
  by (rule drop_text_frame) auto

lemma drop_text_ok: "drop_text J m ix k = Inr m' \<Longrightarrow> bt_ok m \<Longrightarrow> bt_ok m'"
  using drop_text_Inr by fastforce

lemma index_text_Inr:
  assumes "index_text U J m ix k text w = Inr m'"
  shows "\<exists>m1. drop_text J m ix k = Inr m1 \<and> (m' = m1 \<or> (\<exists>tfs d st.
    m' = put_json (stats_codec J) (put_json (doc_codec J) (put_postings m1 ix tfs k) Text (doc_key ix k) d)
      Text (stats_key ix) st))"
  using assms by (auto simp: index_text_def bindr_Inr Let_def split: if_splits)

lemma index_text_other:
  assumes "index_text U J m ix k text w = Inr m'" and "c \<noteq> Text"
  shows "kv_get m' c q = kv_get m c q"
  using index_text_Inr [OF assms(1)] drop_text_other [of J m ix k _ c q] assms(2)
  by (auto simp: kv_get_put_postings_other)

lemma index_text_ok: "index_text U J m ix k text w = Inr m' \<Longrightarrow> bt_ok m \<Longrightarrow> bt_ok m'"
  using index_text_Inr drop_text_ok by fastforce

subsection \<open>The keys of a session\<close>

definition session_prefix :: "session_handle \<Rightarrow> bytes" where
  "session_prefix h = kv_prefix [''session'', h]"

lemma slash_free_names [simp]: "slash_free ''session''" "slash_free ''meta''" "slash_free ''archive''"
  "slash_free ''msg''" "slash_free ''evt''" "slash_free ''title''" "slash_free ''summary''"
  by (simp_all add: slash_free_def)

lemma slash_free_padded [simp]: "slash_free (show_padded w n)"
  using show_padded_ascii by (auto simp: slash_free_def)

lemma session_key_prefix:
  "prefix (session_prefix h) (meta_key h)" "prefix (session_prefix h) (archive_key h)"
  "prefix (session_prefix h) (message_key h i)"
  by (auto simp: session_prefix_def kv_prefix_def meta_key_def archive_key_def message_key_def key_joined
      prefix_def)

lemma message_prefix_session: "prefix (message_prefix h) k \<Longrightarrow> prefix (session_prefix h) k"
  by (auto simp: session_prefix_def message_prefix_def kv_prefix_def key_joined prefix_def)

lemma session_prefix_unique:
  assumes "slash_free h" and "slash_free h'" and "prefix (session_prefix h) k" and "prefix (session_prefix h') k"
  shows "h = h'"
proof -
  obtain a b where "joined [''session'', h] @ CHR ''/'' # a = joined [''session'', h'] @ CHR ''/'' # b"
    using assms(3,4) by (auto simp: session_prefix_def kv_prefix_def key_joined prefix_def)
  then have "h @ CHR ''/'' # a = h' @ CHR ''/'' # b" by simp
  then show ?thesis using slash_split [OF assms(1,2)] by auto
qed

lemma session_index_not_session: "\<not> prefix (session_prefix h) (session_index_key E meta h')"
  by (simp add: session_prefix_def kv_prefix_def session_index_key_def key_joined prefix_def)

lemma message_key_prefix [simp]: "prefix (message_prefix h) (message_key h i)"
  by (simp add: message_prefix_def kv_prefix_def message_key_def key_joined prefix_def)

lemma not_message_keys [simp]:
  "\<not> prefix (message_prefix h) (meta_key h)" "\<not> prefix (message_prefix h) (archive_key h)"
  by (simp_all add: message_prefix_def kv_prefix_def meta_key_def archive_key_def key_joined prefix_def)

lemma session_keys_differ [simp]:
  "meta_key h \<noteq> message_key h i" "message_key h i \<noteq> meta_key h" "archive_key h \<noteq> message_key h i"
  "message_key h i \<noteq> archive_key h" "meta_key h \<noteq> archive_key h" "archive_key h \<noteq> meta_key h"
  by (simp_all add: meta_key_def archive_key_def message_key_def key_joined)

lemma message_key_inj [simp]: "message_key h i = message_key h j \<longleftrightarrow> i = j"
  using show_padded_inj by (auto simp: message_key_def key_joined)

lemma message_key_less: "i < j \<Longrightarrow> j < 10 ^ 12 \<Longrightarrow> message_key h i < message_key h j"
  using show_padded_less [of i j 12] by (simp add: message_key_def key_joined)

subsection \<open>One session\<close>

type_synonym session_state = "session_meta \<times> history_entry list \<times> bytes option"

text \<open>The bound the zero padding gives: past it, keys no longer sort as positions do.\<close>

definition MAX_MESSAGES :: nat where "MAX_MESSAGES = 10 ^ 12"

definition session_rel :: "session_env \<Rightarrow> kv \<Rightarrow> session_handle \<Rightarrow> session_state \<Rightarrow> bool" where
  "session_rel E m h S \<longleftrightarrow>
     (case S of (meta, es, arch) \<Rightarrow>
        read_meta E m h = Inr (Some meta) \<and> sm_message_count meta = length es \<and> length es \<le> MAX_MESSAGES \<and>
        get_json (se_archive E) m Session (archive_key h) = Inr arch \<and>
        (\<forall>k. prefix (message_prefix h) k \<longrightarrow>
           (kv_get m Session k \<noteq> None \<longleftrightarrow> (\<exists>i < length es. k = message_key h i))) \<and>
        (\<forall>i < length es. get_json (se_entry E) m Session (message_key h i) = Inr (Some (es ! i))))"

lemma session_rel_cong:
  assumes "session_rel E m h S" and "\<And>k. prefix (session_prefix h) k \<Longrightarrow> kv_get m' Session k = kv_get m Session k"
  shows "session_rel E m' h S"
proof -
  obtain meta es arch where S: "S = (meta, es, arch)" by (cases S)
  have "read_meta E m' h = read_meta E m h"
    unfolding read_meta_def by (intro get_json_cong assms(2) session_key_prefix)
  moreover have "get_json (se_archive E) m' Session (archive_key h) = get_json (se_archive E) m Session (archive_key h)"
    by (intro get_json_cong assms(2) session_key_prefix)
  moreover have "get_json (se_entry E) m' Session (message_key h i) = get_json (se_entry E) m Session (message_key h i)" for i
    by (intro get_json_cong assms(2) session_key_prefix)
  moreover have "kv_get m' Session k = kv_get m Session k" if "prefix (message_prefix h) k" for k
    by (intro assms(2) message_prefix_session that)
  ultimately show ?thesis using assms(1) by (simp add: session_rel_def S)
qed

lemma message_keys_of:
  assumes "bt_ok m" and "session_rel E m h (meta, es, arch)"
  shows "kv_scan_keys m Session (message_prefix h) = map (message_key h) [0..<length es]"
proof -
  have "set (kv_scan_keys m Session (message_prefix h)) = set (map (message_key h) [0..<length es])"
    using assms(2) unfolding set_kv_scan_keys [OF assms(1)] session_rel_def by force
  moreover have "sorted_wrt (<) (map (message_key h) [0..<length es])"
  proof -
    have "length es \<le> 10 ^ 12" using assms(2) by (simp add: session_rel_def MAX_MESSAGES_def)
    then show ?thesis
      by (auto simp: sorted_wrt_iff_nth_less intro!: message_key_less)
  qed
  ultimately show ?thesis
    using sorted_kv_scan_keys [OF assms(1), of Session "message_prefix h"]
    by (simp add: strict_sorted_equal)
qed

lemma load_session_rel:
  assumes "bt_ok m" and "session_rel E m h (meta, es, arch)"
  shows "load_session E m h = Inr (Some \<lparr>ss_meta = meta, ss_history = es, ss_archive = arch\<rparr>)"
proof -
  have entries: "read_entry E m (message_key h i) = Some (es ! i)" if "i < length es" for i
    using assms(2) that by (simp add: session_rel_def read_entry_def)
  have "List.map_filter (read_entry E m) (map (message_key h) [0..<length es]) =
      map (\<lambda>k. the (read_entry E m k)) (map (message_key h) [0..<length es])"
    by (rule map_filter_all) (auto simp: entries)
  also have "\<dots> = es"
    by (rule nth_equalityI) (simp_all add: entries)
  finally have "List.map_filter (read_entry E m) (map (message_key h) [0..<length es]) = es" .
  then show ?thesis
    using assms(2) unfolding load_session_def message_keys_of [OF assms] by (simp add: session_rel_def)
qed

subsection \<open>Appending, truncating, compacting\<close>

definition session_env_ok :: "session_env \<Rightarrow> bool" where
  "session_env_ok E \<longleftrightarrow>
     codecs_ok (se_text E) \<and> codec_ok id (se_meta E) \<and> codec_ok persisted_entry (se_entry E) \<and>
     codec_ok id (se_archive E) \<and> ulid_ok (ae_ulid (se_agents E))"

text \<open>What an operation on \<open>h\<close> may touch: the keys of \<open>h\<close> and the text index.\<close>

definition only_session :: "session_handle \<Rightarrow> kv \<Rightarrow> kv \<Rightarrow> bool" where
  "only_session h m m' \<longleftrightarrow>
     (\<forall>c k. c \<noteq> Text \<and> \<not> (c = Session \<and> prefix (session_prefix h) k) \<longrightarrow> kv_get m' c k = kv_get m c k)"

lemma only_session_refl [simp]: "only_session h m m"
  by (simp add: only_session_def)

lemma only_session_trans: "only_session h m m1 \<Longrightarrow> only_session h m1 m2 \<Longrightarrow> only_session h m m2"
  by (simp add: only_session_def)

lemma only_session_put [simp]:
  "prefix (session_prefix h) k \<Longrightarrow> only_session h m (put_json J m Session k v)"
  "prefix (session_prefix h) k \<Longrightarrow> only_session h m (kv_remove m Session k)"
  by (auto simp: only_session_def)

lemma only_session_text:
  "drop_text J m ix k = Inr m' \<Longrightarrow> only_session h m m'"
  "index_text U J m ix k text w = Inr m' \<Longrightarrow> only_session h m m'"
  using drop_text_other index_text_other by (fastforce simp: only_session_def)+

definition store_ok :: "session_env \<Rightarrow> kv \<Rightarrow> bool" where
  "store_ok E m \<longleftrightarrow> bt_ok m \<and> text_readable (se_text E) m"

lemma append_entry_rel:
  assumes ok: "session_env_ok E" and st: "store_ok E m"
  shows "\<exists>m'. append_entry E m h i e = Inr m' \<and> store_ok E m' \<and> only_session h m m' \<and>
    (\<forall>k. kv_get m' Session k = (if k = message_key h i then Some (to_json (se_entry E) e) else kv_get m Session k))"
proof -
  let ?m1 = "put_json (se_entry E) m Session (message_key h i) e"
  have m1: "bt_ok ?m1" "text_readable (se_text E) ?m1"
    using st by (simp_all add: store_ok_def)
  show ?thesis
  proof (cases "indexable (se_wire E) e")
    case None
    then show ?thesis
      using m1 session_key_prefix by (simp add: append_entry_def store_ok_def)
  next
    case (Some bt)
    obtain body tag where bt: "bt = (body, tag)" by (cases bt)
    have cod: "codecs_ok (se_text E)" using ok by (simp add: session_env_ok_def)
    obtain m' where m': "index_text (se_unicode E) (se_text E) ?m1 Messages (message_key h i) body
        (message_weight tag) = Inr m'" "text_readable (se_text E) m'"
      using index_text_total [OF cod m1(2)] by blast
    moreover have "only_session h m m'"
      by (rule only_session_trans [OF _ only_session_text(2) [OF m'(1)]]) (simp add: session_key_prefix)
    moreover have "bt_ok m'" by (rule index_text_ok [OF m'(1) m1(1)])
    moreover have "kv_get m' Session k = kv_get ?m1 Session k" for k
      by (rule index_text_other [OF m'(1)]) simp
    ultimately show ?thesis
      using Some bt by (simp add: append_entry_def store_ok_def)
  qed
qed

lemma append_entries_rel:
  assumes ok: "session_env_ok E" and st: "store_ok E m"
  shows "\<exists>m'. append_entries E m h i ns = Inr m' \<and> store_ok E m' \<and> only_session h m m' \<and>
    (\<forall>j < length ns. kv_get m' Session (message_key h (i + j)) = Some (to_json (se_entry E) (ns ! j))) \<and>
    (\<forall>k. (\<forall>j < length ns. k \<noteq> message_key h (i + j)) \<longrightarrow> kv_get m' Session k = kv_get m Session k)"
  using st
proof (induction ns arbitrary: m i)
  case (Cons e ns)
  obtain m1 where m1: "append_entry E m h i e = Inr m1" "store_ok E m1" "only_session h m m1"
    "\<And>k. kv_get m1 Session k = (if k = message_key h i then Some (to_json (se_entry E) e) else kv_get m Session k)"
    using append_entry_rel [OF ok Cons.prems] by blast
  obtain m' where m': "append_entries E m1 h (i + 1) ns = Inr m'" "store_ok E m'" "only_session h m1 m'"
    "\<And>j. j < length ns \<Longrightarrow> kv_get m' Session (message_key h (i + 1 + j)) = Some (to_json (se_entry E) (ns ! j))"
    "\<And>k. (\<And>j. j < length ns \<Longrightarrow> k \<noteq> message_key h (i + 1 + j)) \<Longrightarrow> kv_get m' Session k = kv_get m1 Session k"
    using Cons.IH [OF m1(2), of "i + 1"] by blast
  have "kv_get m' Session (message_key h (i + j)) = Some (to_json (se_entry E) ((e # ns) ! j))"
    if "j < length (e # ns)" for j
  proof (cases j)
    case 0
    then show ?thesis using m'(5) [of "message_key h i"] m1(4) by simp
  next
    case (Suc l)
    then show ?thesis using m'(4) [of l] that by simp
  qed
  moreover have "kv_get m' Session k = kv_get m Session k"
    if k: "\<forall>j < length (e # ns). k \<noteq> message_key h (i + j)" for k
  proof -
    have "k \<noteq> message_key h (i + 1 + j)" if "j < length ns" for j
      using k [rule_format, of "Suc j"] that by simp
    then show ?thesis using m'(5) [of k] m1(4) [of k] k [rule_format, of 0] by simp
  qed
  moreover have "append_entries E m h i (e # ns) = Inr m'" using m1(1) m'(1) by simp
  ultimately show ?case
    using m'(2) only_session_trans [OF m1(3) m'(3)] by blast
qed simp

lemma append_rel:
  assumes ok: "session_env_ok E" and st: "store_ok E m" and rel: "session_rel E m h (meta, es, arch)"
    and room: "length es + length ns \<le> MAX_MESSAGES" and ns: "ns \<noteq> []"
  shows "\<exists>m'. append_session_messages E m h ns now = Inr m' \<and> store_ok E m' \<and> only_session h m m' \<and>
    session_rel E m' h (meta\<lparr>sm_message_count := length es + length ns, sm_updated_at := now\<rparr>,
      es @ map persisted_entry ns, arch)"
proof -
  let ?n = "length es"
  let ?meta = "meta\<lparr>sm_message_count := ?n + length ns, sm_updated_at := now\<rparr>"
  have R: "read_meta E m h = Inr (Some meta)" "sm_message_count meta = ?n"
    "get_json (se_archive E) m Session (archive_key h) = Inr arch"
    "\<And>k. prefix (message_prefix h) k \<Longrightarrow> kv_get m Session k \<noteq> None \<longleftrightarrow> (\<exists>i < ?n. k = message_key h i)"
    "\<And>i. i < ?n \<Longrightarrow> get_json (se_entry E) m Session (message_key h i) = Inr (Some (es ! i))"
    using rel by (simp_all add: session_rel_def)
  have cod: "codec_ok id (se_meta E)" "codec_ok persisted_entry (se_entry E)"
    using ok by (simp_all add: session_env_ok_def)
  obtain m1 where m1: "append_entries E m h ?n ns = Inr m1" "store_ok E m1" "only_session h m m1"
    "\<And>j. j < length ns \<Longrightarrow> kv_get m1 Session (message_key h (?n + j)) = Some (to_json (se_entry E) (ns ! j))"
    "\<And>k. (\<And>j. j < length ns \<Longrightarrow> k \<noteq> message_key h (?n + j)) \<Longrightarrow> kv_get m1 Session k = kv_get m Session k"
    using append_entries_rel [OF ok st, of h ?n ns] by blast
  let ?m' = "put_json (se_meta E) m1 Session (meta_key h) ?meta"
  have eq: "append_session_messages E m h ns now = Inr ?m'"
    using ns R(1,2) m1(1) by (simp add: append_session_messages_def)
  have old: "kv_get ?m' Session (message_key h i) = kv_get m Session (message_key h i)" if "i < ?n" for i
    using m1(5) [of "message_key h i"] that by simp
  have "session_rel E ?m' h (?meta, es @ map persisted_entry ns, arch)"
    unfolding session_rel_def prod.case
  proof (intro conjI allI impI)
    show "read_meta E ?m' h = Inr (Some ?meta)"
      using get_json_put [OF cod(1)] by (simp add: read_meta_def)
    show "get_json (se_archive E) ?m' Session (archive_key h) = Inr arch"
    proof -
      have "kv_get ?m' Session (archive_key h) = kv_get m Session (archive_key h)"
        using m1(5) [of "archive_key h"] by simp
      then show ?thesis unfolding R(3) [symmetric] by (rule get_json_cong)
    qed
    show "sm_message_count ?meta = length (es @ map persisted_entry ns)" by simp
    show "length (es @ map persisted_entry ns) \<le> MAX_MESSAGES" using room by simp
  next
    fix k assume k: "prefix (message_prefix h) k"
    then have "k \<noteq> meta_key h" by auto
    then have k': "kv_get ?m' Session k = kv_get m1 Session k" by simp
    show "kv_get ?m' Session k \<noteq> None \<longleftrightarrow> (\<exists>i < length (es @ map persisted_entry ns). k = message_key h i)"
    proof (cases "\<exists>j < length ns. k = message_key h (?n + j)")
      case True
      then show ?thesis using m1(4) k' by auto
    next
      case False
      then have "kv_get ?m' Session k \<noteq> None \<longleftrightarrow> (\<exists>i < ?n. k = message_key h i)"
        using m1(5) [of k] R(4) [OF k] k' by auto
      moreover have "i < ?n" if "i < ?n + length ns" "k = message_key h i" for i
        using False that by (metis add_diff_inverse_nat nat_add_left_cancel_less)
      ultimately show ?thesis by auto
    qed
  next
    fix i assume i: "i < length (es @ map persisted_entry ns)"
    show "get_json (se_entry E) ?m' Session (message_key h i) = Inr (Some ((es @ map persisted_entry ns) ! i))"
    proof (cases "i < ?n")
      case True
      then show ?thesis
        unfolding get_json_cong [OF old [OF True]] using R(5) by (simp add: nth_append)
    next
      case False
      then obtain j where "i = ?n + j" "j < length ns" using i by (metis add_diff_inverse_nat length_append length_map nat_add_left_cancel_less)
      moreover from this have "kv_get ?m' Session (message_key h i) = Some (to_json (se_entry E) (ns ! j))"
        using m1(4) by simp
      ultimately show ?thesis
        using get_json_same [OF cod(2), of ?m' Session] by (simp add: nth_append)
    qed
  qed
  moreover have "store_ok E ?m'" using m1(2) by (simp add: store_ok_def)
  moreover have "only_session h m ?m'"
    by (rule only_session_trans [OF m1(3)]) (simp add: session_key_prefix)
  ultimately show ?thesis using eq by blast
qed

lemma drop_messages_rel:
  assumes ok: "session_env_ok E" and st: "store_ok E m" and ks: "\<forall>k \<in> set ks. prefix (session_prefix h) k"
  shows "\<exists>m'. drop_messages E m ks = Inr m' \<and> store_ok E m' \<and> only_session h m m' \<and>
    (\<forall>k. kv_get m' Session k = (if k \<in> set ks then None else kv_get m Session k))"
  using st ks
proof (induction ks arbitrary: m)
  case (Cons k ks)
  have cod: "codecs_ok (se_text E)" using ok by (simp add: session_env_ok_def)
  obtain m1 where m1: "drop_text (se_text E) m Messages k = Inr m1" "text_readable (se_text E) m1"
    using drop_text_total [OF cod] Cons.prems(1) unfolding store_ok_def by blast
  let ?m2 = "kv_remove m1 Session k"
  have m2: "store_ok E ?m2"
    using m1 drop_text_ok [OF m1(1)] Cons.prems(1) by (simp add: store_ok_def)
  obtain m' where m': "drop_messages E ?m2 ks = Inr m'" "store_ok E m'" "only_session h ?m2 m'"
    "\<And>q. kv_get m' Session q = (if q \<in> set ks then None else kv_get ?m2 Session q)"
    using Cons.IH [OF m2] Cons.prems(2) by auto
  have "kv_get m1 Session q = kv_get m Session q" for q
    by (rule drop_text_other [OF m1(1)]) simp
  then have "kv_get m' Session q = (if q \<in> set (k # ks) then None else kv_get m Session q)" for q
    using m'(4) [of q] by simp
  moreover have "only_session h m m'"
    using only_session_text(1) [OF m1(1)] only_session_put(2) [of h k m1] Cons.prems(2) m'(3) only_session_trans
    by (metis list.set_intros(1))
  ultimately show ?case using m1(1) m'(1,2) by simp
qed simp

lemma truncate_rel:
  assumes ok: "session_env_ok E" and st: "store_ok E m" and rel: "session_rel E m h (meta, es, arch)"
  shows "\<exists>m'. truncate_session_messages E m h keep = Inr m' \<and> store_ok E m' \<and> only_session h m m' \<and>
    session_rel E m' h (meta\<lparr>sm_message_count := min keep (length es)\<rparr>, take keep es, arch)"
proof -
  let ?n = "length es" and ?ks = "map (message_key h) [0..<length es]"
  let ?meta = "meta\<lparr>sm_message_count := min keep ?n\<rparr>"
  have R: "read_meta E m h = Inr (Some meta)" "?n \<le> MAX_MESSAGES"
    "get_json (se_archive E) m Session (archive_key h) = Inr arch"
    "\<And>k. prefix (message_prefix h) k \<Longrightarrow> kv_get m Session k \<noteq> None \<longleftrightarrow> (\<exists>i < ?n. k = message_key h i)"
    "\<And>i. i < ?n \<Longrightarrow> get_json (se_entry E) m Session (message_key h i) = Inr (Some (es ! i))"
    using rel by (simp_all add: session_rel_def)
  have cod: "codec_ok id (se_meta E)" using ok by (simp add: session_env_ok_def)
  have scan: "kv_scan_keys m Session (message_prefix h) = ?ks"
    using message_keys_of [OF _ rel] st by (simp add: store_ok_def)
  have dropped: "drop keep ?ks = map (message_key h) [keep..<?n]"
    by (simp add: drop_map)
  obtain m1 where m1: "drop_messages E m (drop keep ?ks) = Inr m1" "store_ok E m1" "only_session h m m1"
    "\<And>k. kv_get m1 Session k = (if k \<in> set (drop keep ?ks) then None else kv_get m Session k)"
    using drop_messages_rel [OF ok st, of "drop keep ?ks" h] session_key_prefix(3)
    by (auto simp: dropped)
  let ?m' = "put_json (se_meta E) m1 Session (meta_key h) ?meta"
  have eq: "truncate_session_messages E m h keep = Inr ?m'"
    using R(1) m1(1) by (simp add: truncate_session_messages_def scan)
  have kept: "kv_get ?m' Session (message_key h i) = kv_get m Session (message_key h i)" if "i < keep" for i
    using m1(4) [of "message_key h i"] that by (auto simp: dropped)
  have "session_rel E ?m' h (?meta, take keep es, arch)"
    unfolding session_rel_def prod.case
  proof (intro conjI allI impI)
    show "read_meta E ?m' h = Inr (Some ?meta)"
      using get_json_put [OF cod] by (simp add: read_meta_def)
    have "kv_get ?m' Session (archive_key h) = kv_get m Session (archive_key h)"
      using m1(4) [of "archive_key h"] by (auto simp: dropped)
    then show "get_json (se_archive E) ?m' Session (archive_key h) = Inr arch"
      unfolding R(3) [symmetric] by (rule get_json_cong)
    show "sm_message_count ?meta = length (take keep es)" by simp
    show "length (take keep es) \<le> MAX_MESSAGES" using R(2) by simp
  next
    fix k assume k: "prefix (message_prefix h) k"
    then have "k \<noteq> meta_key h" by auto
    then have "kv_get ?m' Session k \<noteq> None \<longleftrightarrow> k \<notin> set (drop keep ?ks) \<and> (\<exists>i < ?n. k = message_key h i)"
      using m1(4) [of k] R(4) [OF k] by simp
    also have "\<dots> \<longleftrightarrow> (\<exists>i < length (take keep es). k = message_key h i)"
      by (auto simp: dropped)
    finally show "kv_get ?m' Session k \<noteq> None \<longleftrightarrow> (\<exists>i < length (take keep es). k = message_key h i)" .
  next
    fix i assume i: "i < length (take keep es)"
    then show "get_json (se_entry E) ?m' Session (message_key h i) = Inr (Some (take keep es ! i))"
      unfolding get_json_cong [OF kept [of i]] using R(5) [of i] i
      by (simp add: get_json_cong [OF kept [of i]])
  qed
  moreover have "store_ok E ?m'" using m1(2) by (simp add: store_ok_def)
  moreover have "only_session h m ?m'"
    by (rule only_session_trans [OF m1(3)]) (simp add: session_key_prefix)
  ultimately show ?thesis using eq by blast
qed

lemma compact_rel:
  assumes ok: "session_env_ok E" and st: "store_ok E m" and rel: "session_rel E m h (meta, es, arch)"
  shows "\<exists>m'. append_session_compact E m h a = Inr m' \<and> store_ok E m' \<and> only_session h m m' \<and>
    session_rel E m' h (meta\<lparr>sm_message_count := 0\<rparr>, [], Some a)"
proof -
  obtain m1 where m1: "truncate_session_messages E m h 0 = Inr m1" "store_ok E m1" "only_session h m m1"
    "session_rel E m1 h (meta\<lparr>sm_message_count := 0\<rparr>, [], arch)"
    using truncate_rel [OF assms, of 0] by auto
  let ?m' = "put_json (se_archive E) m1 Session (archive_key h) a"
  have "codec_ok id (se_archive E)" using ok by (simp add: session_env_ok_def)
  then have "get_json (se_archive E) ?m' Session (archive_key h) = Inr (Some a)"
    by (simp add: get_json_put)
  moreover have "read_meta E ?m' h = read_meta E m1 h"
    unfolding read_meta_def by (rule get_json_put_other) simp
  moreover have "kv_get ?m' Session k = kv_get m1 Session k" if "prefix (message_prefix h) k" for k
    using that by auto
  ultimately have "session_rel E ?m' h (meta\<lparr>sm_message_count := 0\<rparr>, [], Some a)"
    using m1(4) by (simp add: session_rel_def)
  moreover have "store_ok E ?m'" using m1(2) by (simp add: store_ok_def)
  moreover have "only_session h m ?m'"
    by (rule only_session_trans [OF m1(3)]) (simp add: session_key_prefix)
  moreover have "append_session_compact E m h a = Inr ?m'"
    using m1(1) by (simp add: append_session_compact_def)
  ultimately show ?thesis by blast
qed

subsection \<open>All sessions\<close>

type_synonym session_map = "session_handle \<rightharpoonup> session_state"

definition index_prefix :: bytes where
  "index_prefix = kv_prefix [''idx'', ''sess'']"

definition handle_ok :: "session_handle \<Rightarrow> bool" where
  "handle_ok h \<longleftrightarrow> slash_free h \<and> valid_utf8 h"

definition sessions_inv :: "session_env \<Rightarrow> kv \<Rightarrow> session_map \<Rightarrow> bool" where
  "sessions_inv E m A \<longleftrightarrow>
     store_ok E m \<and>
     (\<forall>h S. A h = Some S \<longrightarrow> handle_ok h \<and> session_rel E m h S) \<and>
     (\<forall>h k. slash_free h \<and> A h = None \<and> prefix (session_prefix h) k \<longrightarrow> kv_get m Session k = None) \<and>
     (\<forall>k v. prefix index_prefix k \<longrightarrow>
        (kv_get m Session k = Some v \<longleftrightarrow> (\<exists>S. A v = Some S \<and> k = session_index_key E (fst S) v)))"

lemma inv_store: "sessions_inv E m A \<Longrightarrow> store_ok E m"
  and inv_rel: "sessions_inv E m A \<Longrightarrow> A h = Some S \<Longrightarrow> session_rel E m h S"
  and inv_handle: "sessions_inv E m A \<Longrightarrow> A h = Some S \<Longrightarrow> handle_ok h"
  and inv_absent: "sessions_inv E m A \<Longrightarrow> slash_free h \<Longrightarrow> A h = None \<Longrightarrow> prefix (session_prefix h) k \<Longrightarrow>
    kv_get m Session k = None"
  and inv_index: "sessions_inv E m A \<Longrightarrow> prefix index_prefix k \<Longrightarrow>
    kv_get m Session k = Some v \<longleftrightarrow> (\<exists>S. A v = Some S \<and> k = session_index_key E (fst S) v)"
  unfolding sessions_inv_def by blast+

lemma index_key_prefix [simp]: "prefix index_prefix (session_index_key E meta h)"
  by (auto simp: index_prefix_def kv_prefix_def session_index_key_def key_joined prefix_def)

lemma index_not_session: "prefix index_prefix k \<Longrightarrow> \<not> prefix (session_prefix h) k"
  by (auto simp: index_prefix_def session_prefix_def kv_prefix_def key_joined prefix_def)

lemma index_key_handle:
  assumes "slash_free h" and "slash_free h'" and "session_index_key E a h = session_index_key E b h'"
  shows "h = h'"
proof -
  let ?x = "\<lambda>a. se_show E (sm_agent a) @ CHR ''/'' # sm_created_by a @ CHR ''/'' # sm_created_at a"
  have "?x a @ CHR ''/'' # h = ?x b @ CHR ''/'' # h'"
    using assms(3) by (simp add: session_index_key_def key_joined)
  then have "rev (?x a @ CHR ''/'' # h) = rev (?x b @ CHR ''/'' # h')" by (rule arg_cong)
  then have "rev h @ CHR ''/'' # rev (?x a) = rev h' @ CHR ''/'' # rev (?x b)"
    by (simp only: rev_append rev.simps append.simps append_assoc)
  then show ?thesis
    using slash_split [of "rev h" "rev h'"] assms(1,2) by (auto simp: slash_free_def)
qed

lemma inv_update:
  assumes inv: "sessions_inv E m A" and h: "handle_ok h" and old: "A h = Some S0"
    and same: "session_index_key E (fst S) h = session_index_key E (fst S0) h"
    and m': "store_ok E m'" "only_session h m m'" "session_rel E m' h S"
  shows "sessions_inv E m' (A(h \<mapsto> S))"
  unfolding sessions_inv_def
proof (intro conjI allI impI)
  have other: "kv_get m' Session k = kv_get m Session k" if "\<not> prefix (session_prefix h) k" for k
    using m'(2) that by (simp add: only_session_def)
  have apart: "\<not> prefix (session_prefix h) k" if "slash_free h'" "h' \<noteq> h" "prefix (session_prefix h') k" for h' k
    using session_prefix_unique [of h h' k] h that by (auto simp: handle_ok_def)
  show "store_ok E m'" by (rule m'(1))
  show "handle_ok h'" if "(A(h \<mapsto> S)) h' = Some T" for h' T
    using that h inv_handle [OF inv] by (auto split: if_splits)
  show "session_rel E m' h' T" if T: "(A(h \<mapsto> S)) h' = Some T" for h' T
  proof (cases "h' = h")
    case False
    then have "A h' = Some T" using T by simp
    then have "session_rel E m h' T" "slash_free h'"
      using inv_rel [OF inv] inv_handle [OF inv] by (auto simp: handle_ok_def)
    then show ?thesis
      using session_rel_cong other apart False by metis
  qed (use m'(3) T in simp)
  show "kv_get m' Session k = None"
    if "slash_free h' \<and> (A(h \<mapsto> S)) h' = None \<and> prefix (session_prefix h') k" for h' k
  proof -
    have "h' \<noteq> h" "A h' = None" using that by (auto split: if_splits)
    then show ?thesis using that inv_absent [OF inv] other apart by metis
  qed
  show "kv_get m' Session k = Some v \<longleftrightarrow> (\<exists>T. (A(h \<mapsto> S)) v = Some T \<and> k = session_index_key E (fst T) v)"
    if k: "prefix index_prefix k" for k v
    unfolding other [OF index_not_session [OF k]] inv_index [OF inv k]
    by (cases "v = h") (simp_all add: old same)
qed

lemma create_inv:
  assumes ok: "session_env_ok E" and inv: "sessions_inv E m A" and h: "handle_ok h" and fresh: "A h = None"
  shows "sessions_inv E (create_session E m h agent by rt now)
    (A(h \<mapsto> (\<lparr>sm_agent = agent, sm_created_by = by, sm_created_at = now, sm_title = [],
       sm_updated_at = now, sm_message_count = 0, sm_summary = None, sm_root = rt\<rparr>, [], None)))"
proof -
  define meta where "meta = \<lparr>sm_agent = agent, sm_created_by = by, sm_created_at = now, sm_title = [],
       sm_updated_at = now, sm_message_count = 0, sm_summary = None, sm_root = rt\<rparr>"
  let ?m' = "kv_put (put_json (se_meta E) m Session (meta_key h) meta) Session (session_index_key E meta h) h"
  have eq: "create_session E m h agent by rt now = ?m'"
    by (simp add: create_session_def meta_def Let_def)
  have cod: "codec_ok id (se_meta E)" using ok by (simp add: session_env_ok_def)
  have sf: "slash_free h" using h by (simp add: handle_ok_def)
  have get: "kv_get ?m' Session k = (if k = session_index_key E meta h then Some h
      else if k = meta_key h then Some (to_json (se_meta E) meta) else kv_get m Session k)" for k
    by simp
  have idx: "k \<noteq> session_index_key E meta' g" if "prefix (session_prefix h') k" for k h' meta' g
    using that session_index_not_session by auto
  have none: "kv_get m Session k = None" if "prefix (session_prefix h) k" for k
    using inv_absent [OF inv sf fresh that] .
  have "session_rel E ?m' h (meta, [], None)"
    unfolding session_rel_def prod.case
  proof (intro conjI allI impI)
    show "read_meta E ?m' h = Inr (Some meta)"
      unfolding read_meta_def using get_json_same [OF cod, of ?m' Session "meta_key h" meta]
        idx [OF session_key_prefix(1)] by simp
    show "get_json (se_archive E) ?m' Session (archive_key h) = Inr None"
      using none [OF session_key_prefix(2)] idx [OF session_key_prefix(2)] by (intro get_json_none) simp
    show "sm_message_count meta = length []" by (simp add: meta_def)
  next
    fix k assume k: "prefix (message_prefix h) k"
    then have "k \<noteq> meta_key h" by auto
    then show "kv_get ?m' Session k \<noteq> None \<longleftrightarrow> (\<exists>i < length []. k = message_key h i)"
      using none [OF message_prefix_session [OF k]] idx [OF message_prefix_session [OF k]] by simp
  qed (simp_all add: MAX_MESSAGES_def)
  moreover have "store_ok E ?m'" using inv_store [OF inv] by (simp add: store_ok_def)
  moreover have other: "kv_get ?m' Session k = kv_get m Session k"
    if "slash_free h'" "h' \<noteq> h" "prefix (session_prefix h') k" for h' k
    using get [of k] idx [OF that(3)] session_prefix_unique [OF that(1) sf that(3)] session_key_prefix(1) that(2) by auto
  ultimately have "sessions_inv E ?m' (A(h \<mapsto> (meta, [], None)))"
    unfolding sessions_inv_def
  proof (intro conjI allI impI)
    show "handle_ok h'" if "(A(h \<mapsto> (meta, [], None))) h' = Some T" for h' T
      using that h inv_handle [OF inv] by (auto split: if_splits)
    show "session_rel E ?m' h' T" if T: "(A(h \<mapsto> (meta, [], None))) h' = Some T" for h' T
    proof (cases "h' = h")
      case False
      then have "A h' = Some T" using T by simp
      then have "session_rel E m h' T" "slash_free h'"
        using inv_rel [OF inv] inv_handle [OF inv] by (auto simp: handle_ok_def)
      then show ?thesis using session_rel_cong other False by metis
    qed (use \<open>session_rel E ?m' h (meta, [], None)\<close> T in simp)
    show "kv_get ?m' Session k = None"
      if "slash_free h' \<and> (A(h \<mapsto> (meta, [], None))) h' = None \<and> prefix (session_prefix h') k" for h' k
    proof -
      have "h' \<noteq> h" "A h' = None" using that by (auto split: if_splits)
      then show ?thesis using that inv_absent [OF inv] other by metis
    qed
    show "kv_get ?m' Session k = Some v \<longleftrightarrow>
        (\<exists>T. (A(h \<mapsto> (meta, [], None))) v = Some T \<and> k = session_index_key E (fst T) v)"
      if k: "prefix index_prefix k" for k v
    proof -
      have "k \<noteq> meta_key h" using index_not_session [OF k] session_key_prefix(1) by auto
      moreover have "v \<noteq> h" if "kv_get m Session k = Some v" for v
        using inv_index [OF inv k] that fresh by auto
      moreover have "A v = Some S \<Longrightarrow> k = session_index_key E (fst S) v \<Longrightarrow> k \<noteq> session_index_key E meta h" for S
        using index_key_handle [of v h E "fst S" meta] inv_handle [OF inv, of v S] sf fresh by (auto simp: handle_ok_def)
      ultimately show ?thesis
        using get [of k] inv_index [OF inv k, of v] fresh by auto
    qed
  qed simp
  then show ?thesis unfolding eq by (simp add: meta_def)
qed

lemma delete_keys_get:
  "kv_get (snd (delete_keys m ks)) c k = (if c = Session \<and> k \<in> set ks then None else kv_get m c k)"
  by (induction ks arbitrary: m) (auto simp: case_prod_unfold Let_def)

lemma delete_keys_found: "fst (delete_keys m ks) \<longleftrightarrow> (\<exists>k \<in> set ks. kv_get m Session k \<noteq> None)"
proof (induction ks arbitrary: m)
  case (Cons a ks)
  show ?case
  proof (cases "kv_get m Session a = None")
    case True
    then have "kv_get (kv_remove m Session a) Session k = kv_get m Session k" for k
      by simp
    then show ?thesis
      using Cons [of "kv_remove m Session a"] True by (simp add: case_prod_unfold Let_def del: kv_get_delete)
  qed (simp add: case_prod_unfold Let_def)
qed simp

lemma delete_keys_ok: "bt_ok m \<Longrightarrow> bt_ok (snd (delete_keys m ks))"
  by (induction ks arbitrary: m) (auto simp: case_prod_unfold Let_def)

lemma drop_docs_total:
  assumes "codecs_ok J" and "text_readable J m"
  shows "\<exists>m'. drop_docs J m ix dks = Inr m' \<and> text_readable J m' \<and> (bt_ok m \<longrightarrow> bt_ok m') \<and>
    (\<forall>c k. c \<noteq> Text \<longrightarrow> kv_get m' c k = kv_get m c k)"
  using assms(2)
proof (induction dks arbitrary: m)
  case (Cons dk dks)
  obtain m1 where m1: "drop_text J m ix (drop (length (doc_prefix ix)) dk) = Inr m1" "text_readable J m1"
    using drop_text_total [OF assms(1) Cons.prems] by blast
  then show ?case
    using Cons.IH [OF m1(2)] drop_text_ok [OF m1(1)] drop_text_other [OF m1(1)] by fastforce
qed simp

lemma drop_text_prefix_total:
  assumes "codecs_ok (se_text E)" and "store_ok E m"
  shows "\<exists>m'. drop_text_prefix (se_text E) m ix p = Inr m' \<and> store_ok E m' \<and>
    (\<forall>k. kv_get m' Session k = kv_get m Session k)"
proof -
  obtain m' where "drop_text_prefix (se_text E) m ix p = Inr m'" "text_readable (se_text E) m'" "bt_ok m'"
    "\<forall>c k. c \<noteq> Text \<longrightarrow> kv_get m' c k = kv_get m c k"
    using drop_docs_total [OF assms(1)] assms(2) unfolding drop_text_prefix_def store_ok_def by blast
  then show ?thesis by (simp add: store_ok_def)
qed

lemma delete_inv:
  assumes ok: "session_env_ok E" and inv: "sessions_inv E m A" and h: "handle_ok h"
  shows "\<exists>m'. delete_session E m h = Inr (A h \<noteq> None, m') \<and> sessions_inv E m' (A(h := None))"
proof -
  let ?p = "kv_prefix [''session'', h]"
  have sf: "slash_free h" using h by (simp add: handle_ok_def)
  have cod: "codecs_ok (se_text E)" using ok by (simp add: session_env_ok_def)
  obtain m1 where m1: "drop_text_prefix (se_text E) m Messages ?p = Inr m1" "store_ok E m1"
    "\<And>k. kv_get m1 Session k = kv_get m Session k"
    using drop_text_prefix_total [OF cod inv_store [OF inv]] by blast
  obtain m2 where m2: "drop_text_prefix (se_text E) m1 SessionMeta ?p = Inr m2" "store_ok E m2"
    "\<And>k. kv_get m2 Session k = kv_get m1 Session k"
    using drop_text_prefix_total [OF cod m1(2)] by blast
  have same: "kv_get m2 Session k = kv_get m Session k" for k
    using m1(3) m2(3) by simp
  have meta: "read_meta E m2 h = Inr (map_option fst (A h))"
  proof -
    have "read_meta E m2 h = read_meta E m h"
      unfolding read_meta_def by (rule get_json_cong) (rule same)
    moreover have "read_meta E m h = Inr (map_option fst (A h))"
    proof (cases "A h")
      case None
      then show ?thesis
        using inv_absent [OF inv sf None session_key_prefix(1)] by (simp add: read_meta_def get_json_none)
    next
      case (Some S)
      then show ?thesis using inv_rel [OF inv Some] by (auto simp: session_rel_def split: prod.splits)
    qed
    ultimately show ?thesis by simp
  qed
  define m3 where "m3 = (case map_option fst (A h) of
      Some meta \<Rightarrow> kv_remove m2 Session (session_index_key E meta h) | None \<Rightarrow> m2)"
  let ?ks = "kv_scan_keys m3 Session ?p"
  let ?m' = "snd (delete_keys m3 ?ks)"
  have m3: "bt_ok m3" "text_readable (se_text E) m3"
    using m2(2) by (simp_all add: m3_def store_ok_def split: option.splits)
  have get3: "kv_get m3 Session k =
      (if \<exists>S. A h = Some S \<and> k = session_index_key E (fst S) h then None else kv_get m Session k)" for k
    using same by (auto simp: m3_def split: option.splits)
  have get3p: "kv_get m3 Session k = kv_get m Session k" if "prefix (session_prefix h') k" for h' k
    using get3 [of k] that session_index_not_session by auto
  have ks: "k \<in> set ?ks \<longleftrightarrow> prefix (session_prefix h) k \<and> kv_get m Session k \<noteq> None" for k
    using get3p unfolding set_kv_scan_keys [OF m3(1)] by (auto simp: session_prefix_def)
  have get': "kv_get ?m' Session k = (if prefix (session_prefix h) k then None else kv_get m3 Session k)" for k
    using ks [of k] get3p [of h k] by (auto simp: delete_keys_get)
  have eq: "delete_session E m h = Inr (fst (delete_keys m3 ?ks), ?m')"
    using m1(1) m2(1) meta by (simp add: delete_session_def m3_def Let_def)
  have found: "fst (delete_keys m3 ?ks) \<longleftrightarrow> A h \<noteq> None"
  proof (cases "A h")
    case None
    then have "?ks = []" using ks inv_absent [OF inv sf None] by (metis list.set_intros(1) neq_Nil_conv)
    then show ?thesis using None by simp
  next
    case (Some S)
    then have "read_meta E m h = Inr (Some (fst S))"
      using inv_rel [OF inv Some] by (auto simp: session_rel_def split: prod.splits)
    then have "kv_get m Session (meta_key h) \<noteq> None"
      by (cases "kv_get m Session (meta_key h)") (simp_all add: read_meta_def get_json_none)
    then have "meta_key h \<in> set ?ks" using ks session_key_prefix(1) by blast
    moreover have "kv_get m3 Session (meta_key h) \<noteq> None"
      using get3p [OF session_key_prefix(1), of h] \<open>kv_get m Session (meta_key h) \<noteq> None\<close> by simp
    ultimately show ?thesis using Some unfolding delete_keys_found by blast
  qed
  have apart: "\<not> prefix (session_prefix h) k" if "slash_free h'" "h' \<noteq> h" "prefix (session_prefix h') k" for h' k
    using session_prefix_unique [OF sf that(1)] that by auto
  have "sessions_inv E ?m' (A(h := None))"
    unfolding sessions_inv_def
  proof (intro conjI allI impI)
    have "text_readable (se_text E) ?m' = text_readable (se_text E) m3"
      by (rule text_readable_cong) (simp add: delete_keys_get)
    then show "store_ok E ?m'"
      using m3 delete_keys_ok [OF m3(1)] by (simp add: store_ok_def)
    show "handle_ok h'" if "(A(h := None)) h' = Some T" for h' T
      using that inv_handle [OF inv] by (auto split: if_splits)
    show "session_rel E ?m' h' T" if T: "(A(h := None)) h' = Some T" for h' T
    proof -
      have A: "A h' = Some T" "h' \<noteq> h" using T by (auto split: if_splits)
      then have "session_rel E m h' T" "slash_free h'"
        using inv_rel [OF inv] inv_handle [OF inv] by (auto simp: handle_ok_def)
      then show ?thesis
        using session_rel_cong get' get3p apart A(2) by metis
    qed
    show "kv_get ?m' Session k = None"
      if "slash_free h' \<and> (A(h := None)) h' = None \<and> prefix (session_prefix h') k" for h' k
    proof (cases "h' = h")
      case False
      then have "A h' = None" using that by simp
      then show ?thesis using that inv_absent [OF inv] get' get3p by metis
    qed (use that get' in simp)
    show "kv_get ?m' Session k = Some v \<longleftrightarrow> (\<exists>T. (A(h := None)) v = Some T \<and> k = session_index_key E (fst T) v)"
      if k: "prefix index_prefix k" for k v
    proof -
      have other: "v = h" if "A v = Some S" "A h = Some S'" "session_index_key E (fst S) v = session_index_key E (fst S') h" for S S'
        using index_key_handle [OF _ sf that(3)] inv_handle [OF inv that(1)] by (simp add: handle_ok_def)
      have eq3: "kv_get ?m' Session k = kv_get m3 Session k" using get' index_not_session [OF k] by simp
      show ?thesis
      proof (cases "\<exists>S. A h = Some S \<and> k = session_index_key E (fst S) h")
        case True
        then have "\<not> (\<exists>T. (A(h := None)) v = Some T \<and> k = session_index_key E (fst T) v)"
        proof (intro notI, elim exE conjE)
          fix T assume T: "(A(h := None)) v = Some T" "k = session_index_key E (fst T) v"
          then have "v \<noteq> h" "A v = Some T" by (auto split: if_splits)
          with other [of T] T(2) True show False by metis
        qed
        then show ?thesis using True unfolding eq3 get3 by simp
      next
        case False
        then have "kv_get ?m' Session k = kv_get m Session k"
          unfolding eq3 get3 by (simp only: if_False)
        then show ?thesis using inv_index [OF inv k, of v] False by (cases "v = h") auto
      qed
    qed
  qed
  then show ?thesis using eq unfolding found by blast
qed

lemma update_meta_inv:
  assumes ok: "session_env_ok E" and inv: "sessions_inv E m A" and old: "A h = Some (meta0, es, arch)"
    and same: "session_index_key E meta h = session_index_key E meta0 h"
  shows "\<exists>m'. update_session_meta E m h meta = Inr m' \<and> only_session h m m' \<and>
    sessions_inv E m' (A(h \<mapsto> (meta\<lparr>sm_message_count := sm_message_count meta0\<rparr>, es, arch)))"
proof -
  let ?meta = "meta\<lparr>sm_message_count := sm_message_count meta0\<rparr>"
  let ?m1 = "put_json (se_meta E) m Session (meta_key h) ?meta"
  let ?tk = "key [''session'', h, ''meta'', ''title'']" and ?sk = "key [''session'', h, ''meta'', ''summary'']"
  have rel: "session_rel E m h (meta0, es, arch)" by (rule inv_rel [OF inv old])
  have cod: "codecs_ok (se_text E)" "codec_ok id (se_meta E)" using ok by (simp_all add: session_env_ok_def)
  have st: "store_ok E ?m1" using inv_store [OF inv] by (simp add: store_ok_def)
  have step: "\<exists>m'. (if b then drop_text (se_text E) n ix k else index_text (se_unicode E) (se_text E) n ix k t w) = Inr m' \<and>
      store_ok E m' \<and> only_session h n m' \<and> (\<forall>q. kv_get m' Session q = kv_get n Session q)"
    if "store_ok E n" for b n ix k t w
  proof -
    have n: "text_readable (se_text E) n" "bt_ok n" using that by (simp_all add: store_ok_def)
    show ?thesis
    proof (cases b)
      case True
      obtain m' where m': "drop_text (se_text E) n ix k = Inr m'" "text_readable (se_text E) m'"
        using drop_text_total [OF cod(1) n(1)] by blast
      then show ?thesis
        using True drop_text_ok [OF m'(1) n(2)] only_session_text(1) [OF m'(1)] drop_text_other [OF m'(1)]
        by (simp add: store_ok_def)
    next
      case False
      obtain m' where m': "index_text (se_unicode E) (se_text E) n ix k t w = Inr m'" "text_readable (se_text E) m'"
        using index_text_total [OF cod(1) n(1)] by blast
      then show ?thesis
        using False index_text_ok [OF m'(1) n(2)] only_session_text(2) [OF m'(1)] index_text_other [OF m'(1)]
        by (simp add: store_ok_def)
    qed
  qed
  obtain m2 where m2: "(if sm_title ?meta = [] then drop_text (se_text E) ?m1 SessionMeta ?tk
      else index_text (se_unicode E) (se_text E) ?m1 SessionMeta ?tk (sm_title ?meta) 1) = Inr m2"
    "store_ok E m2" "only_session h ?m1 m2" "\<And>q. kv_get m2 Session q = kv_get ?m1 Session q"
    using step [OF st, of "sm_title ?meta = []" SessionMeta ?tk "sm_title ?meta" 1] by blast
  let ?s = "case sm_summary ?meta of None \<Rightarrow> [] | Some t \<Rightarrow> t"
  obtain m3 where m3: "(if ?s = [] then drop_text (se_text E) m2 SessionMeta ?sk
      else index_text (se_unicode E) (se_text E) m2 SessionMeta ?sk ?s 1) = Inr m3"
    "store_ok E m3" "only_session h m2 m3" "\<And>q. kv_get m3 Session q = kv_get m2 Session q"
    using step [OF m2(2), of "?s = []" SessionMeta ?sk ?s 1] by blast
  have "read_meta E m h = Inr (Some meta0)" using rel by (simp add: session_rel_def)
  moreover have "index_meta_text E ?m1 h ?meta = Inr m3"
    using m2(1) m3(1) by (cases "sm_summary meta") (simp_all add: index_meta_text_def Let_def split: if_splits)
  ultimately have eq: "update_session_meta E m h meta = Inr m3"
    by (simp add: update_session_meta_def Let_def)
  have get: "kv_get m3 Session q = kv_get ?m1 Session q" for q using m2(4) m3(4) by simp
  have "session_rel E ?m1 h (?meta, es, arch)"
  proof -
    have "read_meta E ?m1 h = Inr (Some ?meta)" using get_json_put [OF cod(2)] by (simp add: read_meta_def)
    moreover have "kv_get ?m1 Session k = kv_get m Session k" if "prefix (message_prefix h) k" for k
      using that by auto
    moreover have "get_json (se_archive E) ?m1 Session (archive_key h) = get_json (se_archive E) m Session (archive_key h)"
      "get_json (se_entry E) ?m1 Session (message_key h i) = get_json (se_entry E) m Session (message_key h i)" for i
      by (rule get_json_put_other; simp)+
    ultimately show ?thesis using rel by (simp add: session_rel_def)
  qed
  then have "session_rel E m3 h (?meta, es, arch)"
    using session_rel_cong get by metis
  moreover have only: "only_session h m m3"
    using only_session_put(1) [OF session_key_prefix(1)] m2(3) m3(3) only_session_trans by metis
  moreover have "handle_ok h" by (rule inv_handle [OF inv old])
  moreover have "session_index_key E (fst (?meta, es, arch)) h = session_index_key E (fst (meta0, es, arch)) h"
    using same by (simp add: session_index_key_def)
  ultimately have "sessions_inv E m3 (A(h \<mapsto> (?meta, es, arch)))"
    using inv_update [OF inv _ old _ m3(2)] by blast
  with eq only show ?thesis by blast
qed

text \<open>The trace of a run is filed beside the turns and touches none of them.\<close>

lemma event_key_prefix: "prefix (session_prefix h) (event_key h i)"
  "\<not> prefix (message_prefix h) (event_key h i)"
  "event_key h i \<noteq> meta_key h" "event_key h i \<noteq> archive_key h"
  by (auto simp: session_prefix_def message_prefix_def kv_prefix_def event_key_def meta_key_def archive_key_def
      key_joined prefix_def)

lemma append_events_inv:
  assumes inv: "sessions_inv E m A" and A: "A h = Some S"
  shows "sessions_inv E (append_events E m h i evs) A \<and> only_session h m (append_events E m h i evs)"
  using inv
proof (induction evs arbitrary: m i)
  case (Cons ev evs)
  let ?m = "put_json (se_event E) m Session (event_key h i) ev"
  obtain meta es arch where S: "S = (meta, es, arch)" by (cases S)
  have ne: "k \<noteq> event_key h i" if "prefix (message_prefix h) k" for k
    using that event_key_prefix(2) by auto
  have "read_meta E ?m h = read_meta E m h"
    unfolding read_meta_def using event_key_prefix(3) [of h i] by (intro get_json_cong) auto
  moreover have "get_json (se_archive E) ?m Session (archive_key h) = get_json (se_archive E) m Session (archive_key h)"
    using event_key_prefix(4) [of h i] by (intro get_json_cong) auto
  moreover have "get_json (se_entry E) ?m Session (message_key h j) = get_json (se_entry E) m Session (message_key h j)" for j
    using ne [OF message_key_prefix, of j] by (intro get_json_cong) auto
  moreover have "kv_get ?m Session k = kv_get m Session k" if "prefix (message_prefix h) k" for k
    using ne [OF that] by simp
  ultimately have "session_rel E ?m h S"
    using inv_rel [OF Cons.prems A] by (simp add: session_rel_def S)
  moreover have "store_ok E ?m" using inv_store [OF Cons.prems] by (simp add: store_ok_def)
  moreover have only: "only_session h m ?m" by (rule only_session_put(1) [OF event_key_prefix(1)])
  ultimately have "sessions_inv E ?m (A(h \<mapsto> S))"
    using inv_update [OF Cons.prems inv_handle [OF Cons.prems A] A refl] by blast
  then have "sessions_inv E ?m A" using A by (simp add: fun_upd_idem)
  then show ?case using Cons.IH [of ?m "i + 1"] only_session_trans [OF only] by simp
qed simp

subsection \<open>Runs of operations\<close>

datatype session_cmd =
    CreateSession session_handle agent_id bytes "bytes option" bytes
  | AppendMessages session_handle "history_entry list" bytes
  | Truncate session_handle nat
  | Compact session_handle bytes
  | UpdateMeta session_handle session_meta
  | DeleteSession session_handle

fun session_cmd_run :: "session_env \<Rightarrow> kv \<Rightarrow> session_cmd \<Rightarrow> store_error + kv" where
  "session_cmd_run E m (CreateSession h agent by rt now) = Inr (create_session E m h agent by rt now)"
| "session_cmd_run E m (AppendMessages h ns now) = append_session_messages E m h ns now"
| "session_cmd_run E m (Truncate h keep) = truncate_session_messages E m h keep"
| "session_cmd_run E m (Compact h a) = append_session_compact E m h a"
| "session_cmd_run E m (UpdateMeta h meta) = update_session_meta E m h meta"
| "session_cmd_run E m (DeleteSession h) = map_sum id snd (delete_session E m h)"

fun session_run :: "session_env \<Rightarrow> kv \<Rightarrow> session_cmd list \<Rightarrow> store_error + kv" where
  "session_run E m [] = Inr m"
| "session_run E m (x # xs) = bindr (session_cmd_run E m x) (\<lambda>m'. session_run E m' xs)"

text \<open>The same commands on the map from handles to metadata, turns and archive pointer.\<close>

fun session_spec :: "session_map \<Rightarrow> session_cmd \<Rightarrow> session_map" where
  "session_spec A (CreateSession h agent by rt now) =
     A(h \<mapsto> (\<lparr>sm_agent = agent, sm_created_by = by, sm_created_at = now, sm_title = [],
       sm_updated_at = now, sm_message_count = 0, sm_summary = None, sm_root = rt\<rparr>, [], None))"
| "session_spec A (AppendMessages h ns now) =
     (case A h of None \<Rightarrow> A
      | Some (meta, es, arch) \<Rightarrow>
          if ns = [] then A
          else A(h \<mapsto> (meta\<lparr>sm_message_count := length es + length ns, sm_updated_at := now\<rparr>,
                 es @ map persisted_entry ns, arch)))"
| "session_spec A (Truncate h keep) =
     (case A h of None \<Rightarrow> A
      | Some (meta, es, arch) \<Rightarrow>
          A(h \<mapsto> (meta\<lparr>sm_message_count := min keep (length es)\<rparr>, take keep es, arch)))"
| "session_spec A (Compact h a) =
     (case A h of None \<Rightarrow> A
      | Some (meta, es, arch) \<Rightarrow> A(h \<mapsto> (meta\<lparr>sm_message_count := 0\<rparr>, [], Some a)))"
| "session_spec A (UpdateMeta h meta') =
     (case A h of None \<Rightarrow> A
      | Some (meta, es, arch) \<Rightarrow>
          A(h \<mapsto> (meta'\<lparr>sm_message_count := sm_message_count meta\<rparr>, es, arch)))"
| "session_spec A (DeleteSession h) = A(h := None)"

text \<open>
  A handle is created once, operations name sessions that exist, an update keeps what the index
  key is made of, and a stream stays within the padding.
\<close>

fun session_cmd_ok :: "session_map \<Rightarrow> session_cmd \<Rightarrow> bool" where
  "session_cmd_ok A (CreateSession h agent by rt now) \<longleftrightarrow> handle_ok h \<and> A h = None"
| "session_cmd_ok A (AppendMessages h ns now) \<longleftrightarrow>
     (case A h of None \<Rightarrow> False | Some (meta, es, arch) \<Rightarrow> length es + length ns \<le> MAX_MESSAGES)"
| "session_cmd_ok A (Truncate h keep) \<longleftrightarrow> A h \<noteq> None"
| "session_cmd_ok A (Compact h a) \<longleftrightarrow> A h \<noteq> None"
| "session_cmd_ok A (UpdateMeta h meta') \<longleftrightarrow>
     (case A h of None \<Rightarrow> False
      | Some (meta, es, arch) \<Rightarrow>
          sm_agent meta' = sm_agent meta \<and> sm_created_by meta' = sm_created_by meta \<and>
          sm_created_at meta' = sm_created_at meta)"
| "session_cmd_ok A (DeleteSession h) \<longleftrightarrow> handle_ok h"

fun session_cmds_ok :: "session_map \<Rightarrow> session_cmd list \<Rightarrow> bool" where
  "session_cmds_ok A [] \<longleftrightarrow> True"
| "session_cmds_ok A (x # xs) \<longleftrightarrow> session_cmd_ok A x \<and> session_cmds_ok (session_spec A x) xs"

lemma session_cmd_inv:
  assumes ok: "session_env_ok E" and inv: "sessions_inv E m A" and x: "session_cmd_ok A x"
  shows "\<exists>m'. session_cmd_run E m x = Inr m' \<and> sessions_inv E m' (session_spec A x)"
proof (cases x)
  case (CreateSession h agent "by" rt now)
  then show ?thesis using create_inv [OF ok inv] x by simp
next
  case (AppendMessages h ns now)
  then obtain meta es arch where A: "A h = Some (meta, es, arch)" and room: "length es + length ns \<le> MAX_MESSAGES"
    using x by (auto split: option.splits)
  show ?thesis
  proof (cases "ns = []")
    case True
    then show ?thesis using AppendMessages A inv by (simp add: append_session_messages_def)
  next
    case False
    then show ?thesis
      using append_rel [OF ok inv_store [OF inv] inv_rel [OF inv A] room False]
        inv_update [OF inv inv_handle [OF inv A] A] AppendMessages A
      by (fastforce simp: session_index_key_def)
  qed
next
  case (Truncate h keep)
  then obtain meta es arch where A: "A h = Some (meta, es, arch)" using x by auto
  then show ?thesis
    using truncate_rel [OF ok inv_store [OF inv] inv_rel [OF inv A]]
      inv_update [OF inv inv_handle [OF inv A] A] Truncate
    by (fastforce simp: session_index_key_def)
next
  case (Compact h a)
  then obtain meta es arch where A: "A h = Some (meta, es, arch)" using x by auto
  then show ?thesis
    using compact_rel [OF ok inv_store [OF inv] inv_rel [OF inv A]]
      inv_update [OF inv inv_handle [OF inv A] A] Compact
    by (fastforce simp: session_index_key_def)
next
  case (UpdateMeta h meta')
  then obtain meta es arch where A: "A h = Some (meta, es, arch)" "sm_agent meta' = sm_agent meta"
    "sm_created_by meta' = sm_created_by meta" "sm_created_at meta' = sm_created_at meta"
    using x by (auto split: option.splits)
  then have "session_index_key E meta' h = session_index_key E meta h" by (simp add: session_index_key_def)
  then obtain m' where "update_session_meta E m h meta' = Inr m'"
    "sessions_inv E m' (A(h \<mapsto> (meta'\<lparr>sm_message_count := sm_message_count meta\<rparr>, es, arch)))"
    using update_meta_inv [OF ok inv A(1)] by blast
  then show ?thesis using UpdateMeta A(1) by simp
next
  case (DeleteSession h)
  then show ?thesis using delete_inv [OF ok inv] x by fastforce
qed

lemma session_runs:
  assumes "session_env_ok E" and "sessions_inv E m A" and "session_cmds_ok A xs"
  shows "\<exists>m'. session_run E m xs = Inr m' \<and> sessions_inv E m' (foldl session_spec A xs) \<and>
    (\<forall>h. handle_ok h \<longrightarrow> load_session E m' h =
      Inr (map_option (\<lambda>(meta, es, arch). \<lparr>ss_meta = meta, ss_history = es, ss_archive = arch\<rparr>)
        (foldl session_spec A xs h)))"
proof -
  have "\<exists>m'. session_run E m xs = Inr m' \<and> sessions_inv E m' (foldl session_spec A xs)"
    using assms(2,3)
  proof (induction xs arbitrary: m A)
    case (Cons x xs)
    then obtain m1 where "session_cmd_run E m x = Inr m1" "sessions_inv E m1 (session_spec A x)"
      using session_cmd_inv [OF assms(1)] by fastforce
    with Cons.IH [OF this(2)] Cons.prems(2) show ?case by simp
  qed simp
  then obtain m' where m': "session_run E m xs = Inr m'" "sessions_inv E m' (foldl session_spec A xs)" by blast
  have "load_session E m' h =
      Inr (map_option (\<lambda>(meta, es, arch). \<lparr>ss_meta = meta, ss_history = es, ss_archive = arch\<rparr>)
        (foldl session_spec A xs h))" if h: "handle_ok h" for h
  proof (cases "foldl session_spec A xs h")
    case None
    then have "kv_get m' Session (meta_key h) = None"
      using inv_absent [OF m'(2) _ None session_key_prefix(1)] h by (simp add: handle_ok_def)
    then show ?thesis using None by (simp add: load_session_def read_meta_def get_json_none)
  next
    case (Some S)
    moreover have "bt_ok m'" using inv_store [OF m'(2)] by (simp add: store_ok_def)
    ultimately show ?thesis
      using load_session_rel inv_rel [OF m'(2) Some] by (cases S) auto
  qed
  with m' show ?thesis by blast
qed

text \<open>
  C7: Any run of admissible session operations, over any number of sessions, succeeds, and every
  session then loads as exactly the metadata, the turns (without what is never stored) and the
  archive pointer the run gives it; a deleted session is gone, and no operation reaches another
  session. Admissible are: creating under a fresh, slash-free and valid handle; appending, as far
  as the number of turns fits twelve digits, truncating, compacting and updating a session there
  is; an update that keeps the agent, the creator and the time of creation; deleting under any such
  handle.
\<close>

theorem session_run_refines:
  assumes "session_env_ok E" and "sessions_inv E m A" and "session_cmds_ok A xs"
  shows "\<exists>m'. session_run E m xs = Inr m' \<and> sessions_inv E m' (foldl session_spec A xs) \<and>
    (\<forall>h. handle_ok h \<longrightarrow> load_session E m' h =
      Inr (map_option (\<lambda>(meta, es, arch). \<lparr>ss_meta = meta, ss_history = es, ss_archive = arch\<rparr>)
        (foldl session_spec A xs h)))"
  by (rule session_runs [OF assms])

lemma empty_sessions: "sessions_inv E [] Map.empty"
  by (auto simp: sessions_inv_def store_ok_def text_readable_def get_json_none kv_get_def load_stats_empty)

text \<open>An environment with the stated laws, for concrete inputs.\<close>

instance json :: countable
  by countable_datatype

instance content_block :: countable
  by countable_datatype

instance content :: countable
  by countable_datatype

definition sample_session_env :: session_env where
  "sample_session_env =
     \<lparr>se_agents = sample_env, se_wire = text_wire, se_text = rat_codecs,
      se_meta = unary_codec (\<lambda>m. (unat (sm_agent m), sm_created_by m, sm_created_at m, sm_title m,
          sm_updated_at m, sm_message_count m, sm_summary m, sm_root m))
        (\<lambda>(a, b, c, t, u, n, s, r). \<lparr>sm_agent = of_nat a, sm_created_by = b, sm_created_at = c, sm_title = t,
          sm_updated_at = u, sm_message_count = n, sm_summary = s, sm_root = r\<rparr>),
      se_entry = unary_codec (\<lambda>e. (he_agent e, msg_role (he_message e), msg_content (he_message e)))
        (\<lambda>(a, r, c). \<lparr>he_agent = a, he_sender = [], he_auto_injected = False,
          he_message = \<lparr>msg_role = r, msg_content = c\<rparr>\<rparr>),
      se_event = \<lparr>to_json = (\<lambda>_. []), from_json = (\<lambda>_. None)\<rparr>,
      se_archive = unary_codec id id\<rparr>"

lemma sample_session_env_ok: "session_env_ok sample_session_env"
proof -
  have "codec_ok id (se_meta sample_session_env)"
    unfolding sample_session_env_def session_env.simps by (rule unary_codec_ok) simp
  moreover have "codec_ok persisted_entry (se_entry sample_session_env)"
    unfolding sample_session_env_def session_env.simps
    by (rule unary_codec_ok) (simp add: persisted_entry_def)
  moreover have "codec_ok id (se_archive sample_session_env)"
    unfolding sample_session_env_def session_env.simps by (rule unary_codec_ok) simp
  moreover have "codecs_ok (se_text sample_session_env)" "ulid_ok (ae_ulid (se_agents sample_session_env))"
    using rat_codecs_ok sample_env_ok by (simp_all add: sample_session_env_def agent_env_ok_def)
  ultimately show ?thesis by (simp add: session_env_ok_def)
qed

theorem session_run_refines_witness:
  "\<exists>m'. session_run sample_session_env []
      [CreateSession ''s1'' 7 ''me'' None ''t0'', AppendMessages ''s1'' [entry_user text_wire ''hi''] ''t1'',
       CreateSession ''s2'' 7 ''me'' None ''t2'', AppendMessages ''s1'' [entry_user text_wire ''ho''] ''t3'',
       Truncate ''s1'' 1, DeleteSession ''s2''] = Inr m' \<and>
     map_sum id (map_option ss_history) (load_session sample_session_env m' ''s1'') =
       Inr (Some [entry_user text_wire ''hi'']) \<and>
     load_session sample_session_env m' ''s2'' = Inr None"
proof -
  let ?xs = "[CreateSession ''s1'' 7 ''me'' None ''t0'', AppendMessages ''s1'' [entry_user text_wire ''hi''] ''t1'',
       CreateSession ''s2'' 7 ''me'' None ''t2'', AppendMessages ''s1'' [entry_user text_wire ''ho''] ''t3'',
       Truncate ''s1'' 1, DeleteSession ''s2'']"
  have h: "handle_ok ''s1''" "handle_ok ''s2''"
    by (simp_all add: handle_ok_def slash_free_def valid_utf8_ascii is_ascii_def byte_val_def)
  have ok: "session_cmds_ok Map.empty ?xs"
    using h by (simp add: MAX_MESSAGES_def)
  have p: "persisted_entry (entry_user text_wire t) = entry_user text_wire t" for t
    by (simp add: persisted_entry_def entry_user_def entry_from_message_def)
  have fin: "\<exists>meta. foldl session_spec Map.empty ?xs ''s1'' = Some (meta, [entry_user text_wire ''hi''], None)"
    "foldl session_spec Map.empty ?xs ''s2'' = None"
    by (simp_all add: p)
  obtain m' where "session_run sample_session_env [] ?xs = Inr m'"
    "\<And>h. handle_ok h \<Longrightarrow> load_session sample_session_env m' h =
      Inr (map_option (\<lambda>(meta, es, arch). \<lparr>ss_meta = meta, ss_history = es, ss_archive = arch\<rparr>)
        (foldl session_spec Map.empty ?xs h))"
    using session_run_refines [OF sample_session_env_ok empty_sessions ok] by blast
  then show ?thesis using h fin by auto
qed

end
