(* ===== verification/HarnessTools.thy ===== *)
theory HarnessTools
  imports HarnessHost SessionInvariant
begin

section \<open>What the tools of a harness leave behind\<close>

text \<open>
  The memory tools over the store, the order of the tasks the \<open>mcp\<close> member spawns, the cut a tool's
  output gets before it is broadcast, and a sample daemon for the witnesses.
\<close>

subsection \<open>Memory tools\<close>

definition memory_ready :: "('i, 'p, 'h) host_env \<Rightarrow> kv \<Rightarrow> bool" where
  "memory_ready E m \<longleftrightarrow>
     codec_ok id (mm_codec (he_memory E)) \<and> codecs_ok (mm_text (he_memory E)) \<and>
     text_readable (mm_text (he_memory E)) m"

lemma memory_key_inj [simp]: "memory_key a = memory_key b \<longleftrightarrow> a = b"
  by (simp add: memory_key_def key_joined)

definition born :: "('i, 'p, 'h) host_env \<Rightarrow> kv \<Rightarrow> bytes \<Rightarrow> bytes \<Rightarrow> bytes" where
  "born E m name now =
     (case memory (he_memory E) m name of Inr (Some x) \<Rightarrow> me_created_at x | _ \<Rightarrow> now)"

lemma remember_total:
  assumes ok: "memory_ready E m"
  shows "\<exists>m'. remember E m name content aliases now = (''remembered: '' @ name, m') \<and> memory_ready E m' \<and>
    (\<forall>n. memory (he_memory E) m' n =
      (if n = name
       then Inr (Some \<lparr>me_name = name, me_kind = ''note'', me_content = content, me_aliases = aliases,
                       me_created_at = born E m name now\<rparr>)
       else memory (he_memory E) m n))"
proof -
  let ?M = "he_memory E"
  let ?e = "\<lparr>me_name = name, me_kind = ''note'', me_content = content, me_aliases = aliases,
    me_created_at = born E m name now\<rparr>"
  let ?m1 = "put_json (mm_codec ?M) m Memory (memory_key name) ?e"
  have cod: "codec_ok id (mm_codec ?M)" "codecs_ok (mm_text ?M)" and "text_readable (mm_text ?M) ?m1"
    using ok by (simp_all add: memory_ready_def)
  then obtain m' where ix: "index_text (mm_unicode ?M) (mm_text ?M) ?m1 MemoryEntries (memory_key name) (memory_text ?e) 1 = Inr m'"
    "text_readable (mm_text ?M) m'"
    using index_text_total by blast
  have "remember E m name content aliases now = (''remembered: '' @ name, m')"
    using ix(1) by (simp add: remember_def born_def put_memory_def Let_def)
  moreover have "memory ?M m' n = (if n = name then Inr (Some ?e) else memory ?M m n)" for n
  proof -
    have "memory ?M m' n = memory ?M ?m1 n"
      unfolding memory_def by (rule get_json_cong) (rule index_text_other [OF ix(1)], simp)
    then show ?thesis
      using get_json_put [OF cod(1), of m Memory "memory_key name" ?e]
      by (simp add: memory_def get_json_put_other)
  qed
  ultimately show ?thesis using cod ix(2) by (simp add: memory_ready_def)
qed

lemma forget_total:
  assumes ok: "memory_ready E m"
  shows "\<exists>m'. forget E m name =
      ((if kv_get m Memory (memory_key name) = None then ''no entry named: '' @ name else ''forgot: '' @ name), m') \<and>
    memory_ready E m' \<and>
    (\<forall>n. memory (he_memory E) m' n = (if n = name then Inr None else memory (he_memory E) m n))"
proof -
  let ?M = "he_memory E"
  have cod: "codecs_ok (mm_text ?M)" "text_readable (mm_text ?M) m" using ok by (simp_all add: memory_ready_def)
  obtain m1 where m1: "drop_text (mm_text ?M) m MemoryEntries (memory_key name) = Inr m1" "text_readable (mm_text ?M) m1"
    using drop_text_total [OF cod] by blast
  have other: "kv_get m1 Memory q = kv_get m Memory q" for q
    using drop_text_other [OF m1(1)] by simp
  let ?m' = "kv_remove m1 Memory (memory_key name)"
  have "remove_memory ?M m name = Inr (kv_get m Memory (memory_key name) \<noteq> None, ?m')"
    using m1(1) other [of "memory_key name"] by (simp add: remove_memory_def kv_delete_def kv_get_def)
  then have "forget E m name =
      ((if kv_get m Memory (memory_key name) = None then ''no entry named: '' @ name else ''forgot: '' @ name), ?m')"
    by (simp add: forget_def)
  moreover have "text_readable (mm_text ?M) ?m'" using m1(2) by simp
  moreover have "memory ?M ?m' n = (if n = name then Inr None else memory ?M m n)" for n
    by (simp add: memory_def get_json_def other)
  ultimately show ?thesis using ok by (simp add: memory_ready_def)
qed

text \<open>
  A remembered entry reads back under its name with the day it was first learned, also when
  it is remembered again; forgetting it removes it, and no other entry changes. Both tools
  answer, whatever the store holds, as long as its index can be read.
\<close>

theorem remember_then_forget:
  assumes "memory_ready E m"
  shows "\<exists>m1 m2 m3.
    remember E m name content aliases now = (''remembered: '' @ name, m1) \<and>
    remember E m1 name content' aliases' now' = (''remembered: '' @ name, m2) \<and>
    memory (he_memory E) m2 name =
      Inr (Some \<lparr>me_name = name, me_kind = ''note'', me_content = content', me_aliases = aliases',
                 me_created_at = born E m name now\<rparr>) \<and>
    forget E m2 name = (''forgot: '' @ name, m3) \<and> memory (he_memory E) m3 name = Inr None \<and>
    (\<forall>n. n \<noteq> name \<longrightarrow> memory (he_memory E) m3 n = memory (he_memory E) m n)"
proof -
  let ?e = "\<lparr>me_name = name, me_kind = ''note'', me_content = content, me_aliases = aliases, me_created_at = born E m name now\<rparr>"
  obtain m1 where 1: "remember E m name content aliases now = (''remembered: '' @ name, m1)" "memory_ready E m1"
    "\<And>n. memory (he_memory E) m1 n = (if n = name then Inr (Some ?e) else memory (he_memory E) m n)"
    using remember_total [OF assms, of name content aliases now] by auto
  have b: "born E m1 name now' = born E m name now"
    by (simp add: born_def [of E m1] 1(3))
  let ?e2 = "\<lparr>me_name = name, me_kind = ''note'', me_content = content', me_aliases = aliases', me_created_at = born E m name now\<rparr>"
  obtain m2 where 2: "remember E m1 name content' aliases' now' = (''remembered: '' @ name, m2)" "memory_ready E m2"
    "\<And>n. memory (he_memory E) m2 n = (if n = name then Inr (Some ?e2) else memory (he_memory E) m1 n)"
    using remember_total [OF 1(2), of name content' aliases' now'] unfolding b by auto
  have "memory (he_memory E) m2 name = Inr (Some ?e2)" by (simp add: 2(3))
  then have "kv_get m2 Memory (memory_key name) \<noteq> None"
    by (intro notI) (simp add: memory_def get_json_none)
  then obtain m3 where 3: "forget E m2 name = (''forgot: '' @ name, m3)"
    "\<And>n. memory (he_memory E) m3 n = (if n = name then Inr None else memory (he_memory E) m2 n)"
    using forget_total [OF 2(2), of name] by auto
  show ?thesis
    by (rule exI [of _ m1], rule exI [of _ m2], rule exI [of _ m3]) (simp add: 1(1,3) 2(1,3) 3)
qed

subsection \<open>What is broadcast\<close>

text \<open>
  C23: A tool's output is broadcast whole while it fits; a longer one is cut to a prefix with the
  marker, valid text for valid text, never above the bound and at most three bytes below it.
\<close>

theorem truncate_bounds:
  assumes "valid_utf8 s" and "length truncated_marker < n"
  shows "length (truncate_for_broadcast s n) \<le> n \<and> valid_utf8 (truncate_for_broadcast s n) \<and>
    (truncate_for_broadcast s n = s \<or>
     (\<exists>k. truncate_for_broadcast s n = take k s @ truncated_marker \<and> n \<le> k + length truncated_marker + 3 \<and> n < length s))"
proof (cases "length s \<le> n")
  case False
  let ?i = "n - length truncated_marker" and ?k = "boundary_before s (n - length truncated_marker)"
  have t: "truncate_for_broadcast s n = take ?k s @ truncated_marker"
    using False assms(2) by (simp add: truncate_for_broadcast_def)
  have k: "?k \<le> ?i" by (rule boundary_before_le)
  obtain j where j: "j \<le> ?i" "?i \<le> j + 3" "is_char_boundary s j"
    using boundary_near [OF assms(1), of ?i] False by (auto simp: le_diff_conv)
  have "j \<le> ?k" by (rule boundary_before_max [OF j(1,3)])
  moreover have "valid_utf8 (take ?k s)" by (rule valid_utf8_cut [OF assms(1) boundary_before_is])
  moreover have "valid_utf8 truncated_marker" by code_simp
  moreover have "length (take ?k s @ truncated_marker) \<le> n" using k assms(2) by simp
  ultimately show ?thesis
    unfolding t using j(2) False by (auto simp: valid_utf8_append intro!: exI [of _ ?k])
qed (use assms in \<open>simp add: truncate_for_broadcast_def\<close>)

subsection \<open>A sample daemon\<close>

definition sample_host :: "(bytes, nat, unit) host_env" where
  "sample_host =
     \<lparr>he_berm = sample_berm, he_mcp = sample_mcp,
      he_hook = \<lparr>ho_schema = (\<lambda>_. [\<lparr>tool_name = ''ping'', tool_schema = JNull\<rparr>]), ho_usage = (\<lambda>_. None),
        ho_build = (\<lambda>_ c. c), ho_scoped = (\<lambda>_ _. ([''ping''], None)), ho_resolve = (\<lambda>_ _ h. h),
        ho_forget = (\<lambda>_ h. h), ho_event = (\<lambda>_ _ _ h. h), ho_preprocess = (\<lambda>_ _ _. None),
        ho_dispatch = (\<lambda>h name call. (if name = ''ping'' then Some (Inr ''pong'') else None, h))\<rparr>,
      he_memory = sample_memory, he_overlay = [(''HOME'', ''/h'')], he_parameters = (\<lambda>_. JNull),
      he_parse_mcp = sample_tool_call, he_parse_recall = (\<lambda>a. Inr (a, None)),
      he_parse_remember = (\<lambda>a. Inr (a, a, [])), he_parse_forget = (\<lambda>a. Inr a),
      he_show = (\<lambda>a. show_nat (unat a)), he_error = (\<lambda>_. ''store'')\<rparr>"

definition sample_built :: "(bytes, nat, unit) host" where
  "sample_built = fst (projr (host_build sample_host True 60 [] [()]))"

lemma sample_built: "\<exists>T. host_build sample_host True 60 [] [()] = Inr (sample_built, T)"
proof -
  have "(case host_build sample_host True 60 [] [()] of Inl e \<Rightarrow> False | Inr p \<Rightarrow> True)" by code_simp
  then show ?thesis unfolding sample_built_def by (cases "host_build sample_host True 60 [] [()]") auto
qed

lemma sample_built_reach: "host_reach sample_host [()] sample_built"
  using sample_built host_reach.Built by blast

text \<open>An agent with one image, one skill and no server, resolved.\<close>

definition sample_agent :: agent_config where
  "sample_agent = (sample_config 7 ''crab'')\<lparr>ag_harnesses := [sample_shell], ag_skills := [''s'']\<rparr>"

definition sample_running :: "(bytes, nat, unit) host" where
  "sample_running = host_resolve sample_host sample_built 7 (persisted_config sample_agent)"

lemma sample_running_reach: "host_reach sample_host [()] sample_running"
  unfolding sample_running_def by (rule host_reach.Resolved [OF sample_built_reach])

definition sample_dispatch :: tool_dispatch where
  "sample_dispatch =
     \<lparr>td_args = ''x'', td_agent = 7, td_sender = [], td_session_id = None, td_call_id = [], td_root = None\<rparr>"

theorem each_tool_one_owner_witness:
  "map_of (hs_owner sample_built) ''ping'' = Some (MHook 0) \<and> MHook 0 \<in> set (members sample_built)"
proof -
  obtain T where "host_build sample_host True 60 [] [()] = Inr (sample_built, T)" using sample_built by blast
  moreover have "map_of (hs_owner sample_built) ''ping'' = Some (MHook 0)" by code_simp
  ultimately show ?thesis using each_tool_one_owner [of sample_host True 60 "[]" "[()]" sample_built T "''ping''" "MHook 0"]
    by blast
qed

text \<open>The agent's image exports \<open>run\<close>, the sandbox holds it, and the call is refused.\<close>

theorem image_tools_never_reached_witness:
  "''run'' \<in> set (case hs_berm sample_running of None \<Rightarrow> [] | Some R \<Rightarrow> berm_names sample_berm R 7) \<and>
   fst (env_dispatch sample_host 0 [] sample_running ''run'' sample_dispatch) = Inl (''tool not registered: '' @ ''run'')"
proof -
  have "''run'' \<in> set (case hs_berm sample_running of None \<Rightarrow> [] | Some R \<Rightarrow> berm_names sample_berm R 7)" by code_simp
  moreover have "''run'' \<notin> static_tools sample_host [()]"
    by (simp add: static_tools_def sample_host_def tool_names_def)
  ultimately show ?thesis using image_tools_never_reached [OF sample_running_reach, of "''run''" 0 "[]" sample_dispatch]
    by simp
qed

text \<open>The agent's whitelist lacks the tool for servers; the call of it goes to its member.\<close>

theorem scope_never_refuses_witness:
  "''mcp'' \<notin> set (ag_tools (host_build_agent sample_host sample_running sample_agent)) \<and>
   host_dispatch sample_host 0 [] sample_running ''mcp'' sample_dispatch =
   member_dispatch sample_host 0 [] sample_running ''mcp'' sample_dispatch MMcp"
proof -
  have "''mcp'' \<notin> set (ag_tools (host_build_agent sample_host sample_running sample_agent))" by code_simp
  moreover have "map_of (hs_owner sample_running) ''mcp'' = Some MMcp" by code_simp
  ultimately show ?thesis using scope_never_refuses [OF sample_running_reach, of 0 "[]" "''mcp''" sample_dispatch] by simp
qed

definition lone_built :: "(bytes, nat, unit) host \<times> tool_registry" where
  "lone_built = projr (host_build sample_host True 60 [] [])"

lemma lone_built: "host_build sample_host True 60 [] [] = Inr (fst lone_built, snd lone_built)"
proof -
  have "(case host_build sample_host True 60 [] [] of Inl e \<Rightarrow> False | Inr p \<Rightarrow> True)" by code_simp
  then show ?thesis unfolding lone_built_def by (cases "host_build sample_host True 60 [] []") auto
qed

theorem offered_tools_exact_witness:
  "tool_name ` set (filtered_snapshot (snd lone_built) (ag_tools (host_build_agent sample_host (fst lone_built) sample_agent))) =
   {''recall'', ''remember'', ''forget''}"
proof -
  have s: "ag_skills sample_agent = [''s'']" "ag_mcps sample_agent = []" "ag_tools sample_agent = []" "ag_id sample_agent = 7"
    by (simp_all add: sample_agent_def sample_config_def agent_config_default_def)
  have "(case hs_berm (fst lone_built) of None \<Rightarrow> True | Some R \<Rightarrow> berm_names sample_berm R 7 = [])" by code_simp
  then have "\<not> (\<exists>R. hs_berm (fst lone_built) = Some R \<and> ''mcp'' \<in> set (berm_names (he_berm sample_host) R 7))"
    by (auto simp: sample_host_def)
  moreover have "\<not> (ag_skills sample_agent = [] \<and> ag_mcps sample_agent = [])" "\<not> ag_mcps sample_agent \<noteq> []"
    by (simp_all add: s)
  ultimately show ?thesis
    using offered_tools_exact [OF lone_built host_reach.Built [OF lone_built] s(3)] unfolding s(4) by (simp only: if_False simp_thms Un_empty_right)
qed

definition sample_claims :: "nat mcp_harness" where
  "sample_claims =
     mcp_resolve sample_host \<lparr>mc_handler = handler_new 60, mc_agents = [], mc_tasks = []\<rparr> 7
       (sample_agent\<lparr>ag_mcps := [sample_server]\<rparr>)"

theorem tasks_settle_claims_witness:
  "map_of (mh_by_owner (foldl (\<lambda>S t. run_task sample_mcp t S) (mc_handler sample_claims) (mc_tasks sample_claims))) (''7'', ''eye'') =
     Some (fingerprint_of sample_mcp (effective [(''HOME'', ''/h'')] sample_server))"
proof -
  have r: "mcp_reach sample_host sample_claims (Map.empty(7 \<mapsto> ag_mcps (sample_agent\<lparr>ag_mcps := [sample_server]\<rparr>)))"
    unfolding sample_claims_def by (intro mcp_reach.intros)
  have inj: "inj (he_show sample_host)"
    by (rule injI) (simp add: sample_host_def word_unat_eq_iff show_nat_inj)
  have "he_show sample_host 7 = ''7''" by code_simp
  moreover have "declared_claims sample_host [sample_server] ''eye'' =
      Some (fingerprint_of sample_mcp (effective [(''HOME'', ''/h'')] sample_server))"
    by (simp add: declared_claims_def sample_host_def) (simp add: sample_server_def mcp_server_default_def)
  moreover have "he_mcp sample_host = sample_mcp" by (simp add: sample_host_def)
  ultimately show ?thesis using tasks_settle_claims [OF r inj, of 7 "''eye''"] by simp
qed

text \<open>
  The tasks are not ordered by anything: a register that runs after the unregister of its forgotten
  agent leaves a claim nobody can drop.
\<close>

theorem register_after_forget_leaks:
  "let X = mcp_forget sample_host sample_claims 7; S = foldr (run_task sample_mcp) (mc_tasks X) (mc_handler X) in
   map_of (mh_by_owner S) (''7'', ''eye'') \<noteq> None \<and> mc_agents X = []"
  by code_simp

theorem remember_then_forget_witness:
  "\<exists>m1 m2 m3. remember sample_host [] ''a'' ''x'' [] ''d1'' = (''remembered: '' @ ''a'', m1) \<and>
    remember sample_host m1 ''a'' ''y'' [] ''d2'' = (''remembered: '' @ ''a'', m2) \<and>
    memory sample_memory m2 ''a'' =
      Inr (Some \<lparr>me_name = ''a'', me_kind = ''note'', me_content = ''y'', me_aliases = [], me_created_at = ''d1''\<rparr>) \<and>
    forget sample_host m2 ''a'' = (''forgot: '' @ ''a'', m3)"
proof -
  have e: "he_memory sample_host = sample_memory" by (simp add: sample_host_def)
  have "memory_ready sample_host []"
    using memory_codec_ok rat_codecs_ok
    by (simp add: memory_ready_def e text_readable_def load_stats_def get_json_def kv_get_def) (simp add: sample_memory_def)
  from remember_then_forget [OF this, of "''a''" "''x''" "[]" "''d1''" "''y''" "[]" "''d2''"]
  show ?thesis unfolding e by (simp add: born_def e memory_def get_json_def kv_get_def) blast
qed

theorem truncate_bounds_witness:
  "length (truncate_for_broadcast (replicate 3000 CHR ''a'') MAX_TOOL_OUTPUT_BROADCAST) \<le> 2048"
proof -
  have "valid_utf8 (replicate 3000 CHR ''a'')"
    by (rule valid_utf8_ascii) (simp add: is_ascii_def byte_val_def)
  moreover have "length truncated_marker < MAX_TOOL_OUTPUT_BROADCAST"
    by (simp add: truncated_marker_def MAX_TOOL_OUTPUT_BROADCAST_def)
  ultimately show ?thesis using truncate_bounds by (simp add: MAX_TOOL_OUTPUT_BROADCAST_def)
qed

end
