(* ===== verification/Engine.thy ===== *)
theory Engine
  imports AgentLoop SessionStore SmallStores
begin

section \<open>The runtime over a session (crates/runtime/src/engine, session/mod.rs)\<close>

text \<open>
  A live session is the working context of one conversation; the engine runs an agent on it and
  persists what the run added. The engine's parts that come from outside, the provider package,
  the hook of the node and its tools, are the argument \<open>engine\<close>; the world of a run is the
  argument of \<open>AgentLoop\<close>. A function that changes the session returns it, with the store.
  Where the source ignores an error of the store (\<open>let _ = ..\<close>) the store is left as it was before
  the call; a slice out of range is the value that stands for the panic.
\<close>

subsection \<open>Live sessions\<close>

record live_session =
  lv_id :: nat
  lv_agent :: agent_id
  lv_created_by :: bytes
  lv_history :: "history_entry list"
  lv_title :: bytes
  lv_created_at :: nat
  lv_created_at_iso :: bytes
  lv_summary :: "bytes option"
  lv_handle :: "session_handle option"
  lv_root :: "bytes option"

definition session_new :: "nat \<Rightarrow> agent_id \<Rightarrow> bytes \<Rightarrow> nat \<Rightarrow> bytes \<Rightarrow> live_session" where
  "session_new i agent created_by clock now =
     \<lparr>lv_id = i, lv_agent = agent, lv_created_by = created_by, lv_history = [], lv_title = [],
      lv_created_at = clock, lv_created_at_iso = now, lv_summary = None, lv_handle = None,
      lv_root = None\<rparr>"

definition session_bytes :: "wire \<Rightarrow> live_session \<Rightarrow> nat" where
  "session_bytes W s = sum_list (map (entry_bytes W) (lv_history s))"

definition meta_of :: "live_session \<Rightarrow> bytes \<Rightarrow> session_meta" where
  "meta_of s now =
     \<lparr>sm_agent = lv_agent s, sm_created_by = lv_created_by s, sm_created_at = lv_created_at_iso s,
      sm_title = lv_title s, sm_updated_at = now, sm_message_count = length (lv_history s),
      sm_summary = lv_summary s, sm_root = lv_root s\<rparr>"

definition ref_of :: "live_session \<Rightarrow> session_ref" where
  "ref_of s = \<lparr>sr_id = lv_id s, sr_root = lv_root s\<rparr>"

subsection \<open>The engine\<close>

record 'b engine =
  eg_llm :: "'b llm"
  eg_sessions :: session_env
  eg_memory :: memory_env
  eg_tools :: tool_registry
  eg_dispatcher :: dispatcher
  eg_preprocess :: "agent_id \<Rightarrow> bytes \<Rightarrow> bytes option"
  eg_on_build :: "agent_config \<Rightarrow> agent_config"
  eg_seconds :: "bytes \<Rightarrow> bytes \<Rightarrow> int option"

abbreviation eg_wire :: "'b engine \<Rightarrow> wire" where
  "eg_wire G \<equiv> l_wire (eg_llm G)"

abbreviation eg_agents :: "'b engine \<Rightarrow> agent_env" where
  "eg_agents G \<equiv> se_agents (eg_sessions G)"

abbreviation eg_show :: "'b engine \<Rightarrow> agent_id \<Rightarrow> bytes" where
  "eg_show G \<equiv> ulid_show (ae_ulid (eg_agents G))"

datatype engine_error =
    StoreFailed store_error
  | AgentNotFound agent_id
  | AgentNotRegistered agent_id
  | AgentExists bytes
  | AgentMissing agent_id
  | NoSession bytes
  | EnginePanic

fun ignore_error :: "kv \<Rightarrow> store_error + kv \<Rightarrow> kv" where
  "ignore_error m (Inl e) = m"
| "ignore_error m (Inr m') = m'"

fun lift_store :: "store_error + 'a \<Rightarrow> engine_error + 'a" where
  "lift_store (Inl e) = Inl (StoreFailed e)"
| "lift_store (Inr a) = Inr a"

subsection \<open>Agents (agents.rs, config.rs)\<close>

definition engine_agent :: "'b engine \<Rightarrow> kv \<Rightarrow> agent_id \<Rightarrow> agent_config option" where
  "engine_agent G m i = (case load_agent (eg_agents G) m i of Inr r \<Rightarrow> r | Inl e \<Rightarrow> None)"

definition engine_agents :: "'b engine \<Rightarrow> kv \<Rightarrow> agent_config list" where
  "engine_agents G m = List.map_filter (engine_agent G m) (agent_ids (eg_agents G) m)"

definition has_agent :: "'b engine \<Rightarrow> kv \<Rightarrow> agent_id \<Rightarrow> bool" where
  "has_agent G m i \<longleftrightarrow> engine_agent G m i \<noteq> None"

text \<open>A \<open>HashMap\<close> collected from the listing: the last row of an id wins.\<close>

definition agent_names :: "'b engine \<Rightarrow> kv \<Rightarrow> agent_id \<Rightarrow> bytes option" where
  "agent_names G m = map_of (rev (map (\<lambda>c. (ag_id c, ag_name c)) (engine_agents G m)))"

definition resolve_agent :: "'b engine \<Rightarrow> kv \<Rightarrow> agent_id \<Rightarrow> agent option" where
  "resolve_agent G m i =
     map_option (\<lambda>c. build_agent (eg_tools G) (eg_dispatcher G) (eg_on_build G c)) (engine_agent G m i)"

definition reload_agent :: "'b engine \<Rightarrow> kv \<Rightarrow> agent_id \<Rightarrow> engine_error + agent_config" where
  "reload_agent G m i = (case engine_agent G m i of Some c \<Rightarrow> Inr c | None \<Rightarrow> Inl (AgentMissing i))"

text \<open>The id a new agent gets is minted by the \<open>ulid\<close> package: the argument \<open>new_id\<close>.\<close>

definition create_agent ::
  "'b engine \<Rightarrow> kv \<Rightarrow> agent_id \<Rightarrow> agent_config \<Rightarrow> engine_error + agent_config \<times> kv" where
  "create_agent G m new_id config =
     (let c = config\<lparr>ag_id := new_id\<rparr> in
      bindr (lift_store (load_agent_by_name (eg_agents G) m (ag_name c)))
        (\<lambda>r. if r \<noteq> None then Inl (AgentExists (ag_name c))
             else bindr (lift_store (upsert_agent (eg_agents G) m c))
               (\<lambda>m'. bindr (reload_agent G m' new_id) (\<lambda>d. Inr (d, m')))))"

definition update_agent ::
  "'b engine \<Rightarrow> kv \<Rightarrow> agent_id \<Rightarrow> agent_config \<Rightarrow> engine_error + agent_config \<times> kv" where
  "update_agent G m i config =
     bindr (lift_store (upsert_agent (eg_agents G) m (config\<lparr>ag_id := i\<rparr>)))
       (\<lambda>m'. bindr (reload_agent G m' i) (\<lambda>d. Inr (d, m')))"

definition purge_agent :: "'b engine \<Rightarrow> kv \<Rightarrow> agent_id \<Rightarrow> engine_error + bool \<times> kv" where
  "purge_agent G m i =
     bindr (lift_store (delete_agent (eg_agents G) m i))
       (\<lambda>(removed, m1).
          if removed
          then bindr (lift_store (delete_sessions_of (eg_sessions G) m1 i)) (\<lambda>(n, m2). Inr (True, m2))
          else Inr (False, m1))"

definition engine_rename_agent ::
  "'b engine \<Rightarrow> kv \<Rightarrow> agent_id \<Rightarrow> bytes \<Rightarrow> engine_error + agent_config \<times> kv" where
  "engine_rename_agent G m i new_name =
     bindr (lift_store (rename_agent (eg_agents G) m i new_name))
       (\<lambda>(found, m'). if found then bindr (reload_agent G m' i) (\<lambda>d. Inr (d, m'))
                      else Inl (AgentNotFound i))"

definition engine_default_agent :: "'b engine \<Rightarrow> kv \<Rightarrow> agent_config option" where
  "engine_default_agent G m =
     (case default_agent (eg_agents G) m of Inr (Some i) \<Rightarrow> engine_agent G m i | _ \<Rightarrow> None)"

definition active_model :: "'b engine \<Rightarrow> kv \<Rightarrow> bytes" where
  "active_model G m = (case engine_default_agent G m of Some c \<Rightarrow> ag_model c | None \<Rightarrow> [])"

text \<open>The cached listing is replaced as a whole.\<close>

definition set_models :: "bytes list \<Rightarrow> bytes list \<Rightarrow> bytes list" where
  "set_models models names = names"

definition list_models :: "'b engine \<Rightarrow> kv \<Rightarrow> bytes list \<Rightarrow> (bytes \<times> bool) list" where
  "list_models G m models = map (\<lambda>n. (n, n = active_model G m)) models"

subsection \<open>A turn (execution.rs)\<close>

definition guest_note :: bytes where
  "guest_note =
     ''Messages wrapped in <from agent='' @ [CHR 0x22] @ ''...'' @ [CHR 0x22] @
     ''> tags are from guest agents who were consulted in this session. Continue responding as yourself.''"

definition turn_entry :: "'b engine \<Rightarrow> agent_id \<Rightarrow> bytes \<Rightarrow> bytes \<Rightarrow> history_entry" where
  "turn_entry G agent content sender =
     (let c = (case eg_preprocess G agent content of Some c \<Rightarrow> c | None \<Rightarrow> content)
      in if sender = [] then entry_user (eg_wire G) c
         else entry_user_with_sender (eg_wire G) c sender)"

text \<open>Insert before the last entry: \<open>insert(len.saturating_sub(1), framing)\<close>.\<close>

definition insert_before_last :: "'a \<Rightarrow> 'a list \<Rightarrow> 'a list" where
  "insert_before_last x xs = take (length xs - 1) xs @ x # drop (length xs - 1) xs"

definition retained :: "history_entry list \<Rightarrow> history_entry list" where
  "retained h = filter (\<lambda>e. \<not> he_auto_injected e) h"

definition prepare_history ::
  "'b engine \<Rightarrow> live_session \<Rightarrow> bytes \<Rightarrow> bytes \<Rightarrow> live_session" where
  "prepare_history G s content sender =
     (let h = retained (lv_history s @ [turn_entry G (lv_agent s) content sender])
      in s\<lparr>lv_history :=
           (if list_ex (\<lambda>e. he_agent e \<noteq> []) h
            then insert_before_last (auto_injected (entry_user (eg_wire G) guest_note)) h
            else h)\<rparr>)"

text \<open>Post-run tail: what the run added and what is worth keeping of its events. None is a panic.\<close>

definition finalize_run ::
  "'b engine \<Rightarrow> kv \<Rightarrow> live_session \<Rightarrow> nat \<Rightarrow> event_line list \<Rightarrow> bytes \<Rightarrow> bytes \<Rightarrow> kv option" where
  "finalize_run G m s pre_run_len trace now now' =
     (case lv_handle s of
        None \<Rightarrow> Some m
      | Some h \<Rightarrow>
          if length (lv_history s) < pre_run_len then None
          else
            let E = eg_sessions G;
                new_entries = retained (drop pre_run_len (lv_history s));
                m1 = ignore_error m (append_session_messages E m h new_entries now);
                m2 = (if trace = [] then m1 else append_session_events E m1 h trace)
            in Some (ignore_error m2 (update_session_meta E m2 h (meta_of s now'))))"

definition trace_of :: "'b engine \<Rightarrow> bytes \<Rightarrow> agent_event list \<Rightarrow> event_line list" where
  "trace_of G ts evs = List.map_filter (to_event_line (l_usage (eg_llm G)) ts) evs"

definition not_registered :: "'b engine \<Rightarrow> bytes \<Rightarrow> agent_id \<Rightarrow> bytes" where
  "not_registered G who i = who @ '' '' @ [CHR 0x27] @ eg_show G i @ [CHR 0x27] @ '' not registered''"

text \<open>The response or the error, the session as it is left, the store (None after a panic).\<close>

definition send_to ::
  "'b engine \<Rightarrow> kv \<Rightarrow> live_session \<Rightarrow> bytes \<Rightarrow> bytes \<Rightarrow> tool_choice option \<Rightarrow> tool list \<Rightarrow>
   (nat \<Rightarrow> round_world) \<Rightarrow> bytes \<Rightarrow> bytes \<Rightarrow> (engine_error + agent_response) \<times> live_session \<times> kv option" where
  "send_to G m s content sender choice extra W now now' =
     (let pre_run_len = length (lv_history s);
          s1 = prepare_history G s content sender
      in case resolve_agent G m (lv_agent s) of
           None \<Rightarrow> (Inl (AgentNotRegistered (lv_agent s)), s1, Some m)
         | Some A \<Rightarrow>
             (let (evs, h', r) = run (eg_llm G) (extend_tools A extra) (Some (ref_of s1)) choice W (lv_history s1);
                  s2 = s1\<lparr>lv_history := h'\<rparr>
              in (Inr r, s2, finalize_run G m s2 pre_run_len (trace_of G now evs) now now')))"

text \<open>The streamed turn: the events as the caller sees them, \<open>Done\<close> held back until the turn is stored.\<close>

definition stream_to ::
  "'b engine \<Rightarrow> kv \<Rightarrow> live_session \<Rightarrow> bytes \<Rightarrow> bytes \<Rightarrow> tool_choice option \<Rightarrow> tool list \<Rightarrow>
   (nat \<Rightarrow> round_world) \<Rightarrow> bytes \<Rightarrow> bytes \<Rightarrow> agent_event list \<times> live_session \<times> kv option" where
  "stream_to G m s content sender choice extra W now now' =
     (let pre_run_len = length (lv_history s);
          s1 = prepare_history G s content sender
      in case resolve_agent G m (lv_agent s) of
           None \<Rightarrow> ([Done (response_error (not_registered G ''agent'' (lv_agent s)))], s1, Some m)
         | Some A \<Rightarrow>
             (let (evs, h', _) = run_stream (eg_llm G) (extend_tools A extra) (Some (ref_of s1)) choice W (lv_history s1);
                  s2 = s1\<lparr>lv_history := h'\<rparr>;
                  out = filter (\<lambda>ev. \<not> is_done ev) evs @
                    (case last_done evs of Some r \<Rightarrow> [Done r] | None \<Rightarrow> [])
              in (out, s2, finalize_run G m s2 pre_run_len (trace_of G now evs) now now')))"

definition ephemeral_stream ::
  "'b engine \<Rightarrow> kv \<Rightarrow> agent_id \<Rightarrow> bytes \<Rightarrow> tool_choice option \<Rightarrow> tool list \<Rightarrow>
   (nat \<Rightarrow> round_world) \<Rightarrow> agent_event list" where
  "ephemeral_stream G m i content choice extra W =
     (case resolve_agent G m i of
        None \<Rightarrow> [Done (response_error (not_registered G ''agent'' i))]
      | Some A \<Rightarrow>
          fst (run_stream (eg_llm G) (extend_tools A extra) None choice W [entry_user (eg_wire G) content]))"

subsection \<open>A guest's turn (execution.rs, guest_stream_to)\<close>

definition guest_framing :: "bytes \<Rightarrow> bytes" where
  "guest_framing primary =
     ''You are joining a session as a guest. The primary agent is '' @ [CHR 0x27] @ primary @ [CHR 0x27] @
     ''. Messages wrapped in <from agent='' @ [CHR 0x22] @ ''...'' @ [CHR 0x22] @
     ''> tags are from other agents. Respond as yourself to the user'' @ [CHR 0x27] @ ''s latest message.''"

definition agent_label :: "'b engine \<Rightarrow> kv \<Rightarrow> agent_id \<Rightarrow> bytes" where
  "agent_label G m i = (case engine_agent G m i of Some c \<Rightarrow> ag_name c | None \<Rightarrow> eg_show G i)"

definition prepare_guest ::
  "'b engine \<Rightarrow> kv \<Rightarrow> live_session \<Rightarrow> bytes \<Rightarrow> bytes \<Rightarrow> live_session" where
  "prepare_guest G m s content sender =
     s\<lparr>lv_history :=
         insert_before_last
           (auto_injected (entry_system (eg_wire G) (guest_framing (agent_label G m (lv_agent s)))))
           (retained (lv_history s @ [turn_entry G (lv_agent s) content sender]))\<rparr>"

definition guest_request :: "'b engine \<Rightarrow> agent \<Rightarrow> history_entry list \<Rightarrow> request" where
  "guest_request G A h =
     (let c = ar_config A; (max_tokens, thinking) = token_budget c
      in \<lparr>rq_model = ag_model c, rq_messages = map (to_wire_message (eg_wire G)) h,
          rq_max_tokens = max_tokens,
          rq_system = (if ag_description c = [] then None else Some (SystemText (ag_description c))),
          rq_tools = None, rq_tool_choice = None, rq_thinking = thinking\<rparr>)"

record guest_state =
  gs_text :: bytes
  gs_reasoning :: bytes
  gs_truncated :: bool
  gs_saw_stop :: bool

definition guest_start :: guest_state where
  "guest_start = \<lparr>gs_text = [], gs_reasoning = [], gs_truncated = False, gs_saw_stop = False\<rparr>"

text \<open>The stream of a guest's answer: its events, then the error it broke with, if any.\<close>

fun guest_loop ::
  "(bytes + model_event) list \<Rightarrow> guest_state \<Rightarrow> agent_event list \<times> bytes option \<times> guest_state" where
  "guest_loop [] g = ([], None, g)"
| "guest_loop (Inl e # evs) g = ([], if gs_saw_stop g then None else Some e, g)"
| "guest_loop (Inr (ContentBlockDelta x (DeltaText t)) # evs) g =
     (let (out, r) = guest_loop evs (g\<lparr>gs_text := gs_text g @ t\<rparr>) in (TextDelta t # out, r))"
| "guest_loop (Inr (ContentBlockDelta x (DeltaThinking t)) # evs) g =
     (let (out, r) = guest_loop evs (g\<lparr>gs_reasoning := gs_reasoning g @ t\<rparr>) in (ThinkingDelta t # out, r))"
| "guest_loop (Inr (MessageDelta reason x u) # evs) g =
     guest_loop evs (g\<lparr>gs_saw_stop := gs_saw_stop g \<or> reason \<noteq> None,
       gs_truncated := gs_truncated g \<or> reason = Some ''max_tokens''\<rparr>)"
| "guest_loop (Inr MessageStop # evs) g = guest_loop evs (g\<lparr>gs_saw_stop := True\<rparr>)"
| "guest_loop (Inr _ # evs) g = guest_loop evs g"

definition guest_response :: "agent \<Rightarrow> bytes option \<Rightarrow> stop_reason \<Rightarrow> agent_response" where
  "guest_response A final stop =
     \<lparr>rs_steps = [], rs_final_response = final, rs_iterations = 1, rs_stop_reason = stop,
      rs_model = ag_model (ar_config A)\<rparr>"

definition guest_stream_to ::
  "'b engine \<Rightarrow> kv \<Rightarrow> live_session \<Rightarrow> bytes \<Rightarrow> bytes \<Rightarrow> agent_id \<Rightarrow>
   (request \<Rightarrow> (bytes + model_event) list) \<Rightarrow> bytes \<Rightarrow> bytes \<Rightarrow>
   agent_event list \<times> live_session \<times> kv option" where
  "guest_stream_to G m s content sender guest stream now now' =
     (case resolve_agent G m guest of
        None \<Rightarrow> ([Done (response_error (not_registered G ''guest agent'' guest))], s, Some m)
      | Some A \<Rightarrow>
          (let pre_run_len = length (lv_history s);
               s1 = prepare_guest G m s content sender;
               (out, broke, g) = guest_loop (stream (guest_request G A (lv_history s1))) guest_start
           in case broke of
                Some e \<Rightarrow> (out @ [Done (guest_response A None (StopError e))], s1, Some m)
              | None \<Rightarrow>
                  let e = (entry_assistant (eg_wire G) (gs_text g)
                             (if gs_reasoning g = [] then None else Some (gs_reasoning g)) None)
                            \<lparr>he_agent := agent_label G m guest\<rparr>;
                      s2 = s1\<lparr>lv_history := lv_history s1 @ [e]\<rparr>
                  in (out @ [Done (guest_response A (Some (gs_text g))
                        (if gs_truncated g then MaxTokens else TextResponse))],
                      s2, finalize_run G m s2 pre_run_len [] now now')))"

subsection \<open>Resuming, compacting, rewinding (session.rs)\<close>

definition archive_gap :: "bytes \<Rightarrow> bytes" where
  "archive_gap name = ''[archived context unavailable: '' @ name @ '']''"

definition resumed_history ::
  "'b engine \<Rightarrow> kv \<Rightarrow> bytes option \<Rightarrow> history_entry list \<Rightarrow> history_entry list" where
  "resumed_history G m archive h =
     (case archive of
        None \<Rightarrow> h
      | Some name \<Rightarrow>
          entry_user (eg_wire G)
            (case memory (eg_memory G) m name of
               Inr (Some e) \<Rightarrow> me_content e
             | _ \<Rightarrow> archive_gap name) # h)"

definition load ::
  "'b engine \<Rightarrow> kv \<Rightarrow> session_handle \<Rightarrow> nat \<Rightarrow> nat \<Rightarrow> bytes \<Rightarrow> engine_error + live_session option" where
  "load G m handle i clock now =
     bindr (lift_store (load_session (eg_sessions G) m handle))
       (\<lambda>r. case r of
          None \<Rightarrow> Inr None
        | Some snap \<Rightarrow>
            let meta = ss_meta snap in
            if \<not> has_agent G m (sm_agent meta) then Inl (AgentNotFound (sm_agent meta))
            else
              let s = session_new i (sm_agent meta) (sm_created_by meta) clock now
              in Inr (Some (s\<lparr>lv_history := resumed_history G m (ss_archive snap) (ss_history snap),
                   lv_title := sm_title meta,
                   lv_created_at_iso :=
                     (if sm_created_at meta = [] then lv_created_at_iso s else sm_created_at meta),
                   lv_summary := sm_summary meta, lv_root := sm_root meta,
                   lv_handle := Some handle\<rparr>)))"

text \<open>The numbers a stem's archives bear, in canonical form only. None: a name slices out of range.\<close>

fun archive_numbers :: "nat \<Rightarrow> bytes list \<Rightarrow> nat list option" where
  "archive_numbers n [] = Some []"
| "archive_numbers n (name # names) =
     (case slice_from name n of
        None \<Rightarrow> None
      | Some rest \<Rightarrow>
          map_option (\<lambda>ns. case parse_uint 32 rest of
              None \<Rightarrow> ns
            | Some k \<Rightarrow> if show_nat k = rest then k # ns else ns)
            (archive_numbers n names))"

definition archive_stem :: "'b engine \<Rightarrow> session_handle \<Rightarrow> bytes" where
  "archive_stem G h = sender_slug (se_unicode (eg_sessions G)) h @ ''-''"

text \<open>The name the summary was stored under, with the store; None is a panic.\<close>

definition write_archive ::
  "'b engine \<Rightarrow> kv \<Rightarrow> session_handle \<Rightarrow> bytes \<Rightarrow> bytes \<Rightarrow> (bytes option \<times> kv) option" where
  "write_archive G m h summary now =
     (let stem = archive_stem G h in
      case archive_numbers (length stem) (memory_names_under m stem) of
        None \<Rightarrow> None
      | Some ns \<Rightarrow>
          let next_seq = (Max (insert 0 (set ns)) + 1) mod 2 ^ 32;
              name = stem @ show_nat next_seq;
              entry = \<lparr>me_name = name, me_kind = ''archive'', me_content = summary, me_aliases = [],
                       me_created_at = now\<rparr>
          in Some (case put_memory (eg_memory G) m entry of
                Inr m' \<Rightarrow> (Some name, m')
              | Inl e \<Rightarrow> (None, m)))"

definition compact_session ::
  "'b engine \<Rightarrow> kv \<Rightarrow> live_session \<Rightarrow> bytes \<Rightarrow> (request \<Rightarrow> (bytes + model_response) option) \<Rightarrow> bytes \<Rightarrow>
   bytes \<Rightarrow> (bytes option \<times> live_session \<times> kv) option" where
  "compact_session G m s prompt sent now now' =
     (if prompt = [] \<or> lv_history s = [] then Some (None, s, m)
      else case resolve_agent G m (lv_agent s) of
        None \<Rightarrow> Some (None, s, m)
      | Some A \<Rightarrow>
          (case agent_compact (eg_llm G) A (lv_history s) prompt sent of
             None \<Rightarrow> Some (None, s, m)
           | Some summary \<Rightarrow>
               (case lv_handle s of
                  None \<Rightarrow> Some (None, s, m)
                | Some h \<Rightarrow>
                    (case write_archive G m h summary now of
                       None \<Rightarrow> None
                     | Some (None, m1) \<Rightarrow> Some (None, s, m1)
                     | Some (Some name, m1) \<Rightarrow>
                         (case append_session_compact (eg_sessions G) m1 h name of
                            Inl e \<Rightarrow> Some (None, s, m1)
                          | Inr m2 \<Rightarrow>
                              let s' = s\<lparr>lv_history := [entry_user (eg_wire G) summary],
                                         lv_summary := Some summary\<rparr>
                              in Some (Some summary, s',
                                   ignore_error m2
                                     (update_session_meta (eg_sessions G) m2 h (meta_of s' now'))))))))"

text \<open>The position of the \<open>turns\<close>-th user entry from the end, counting entries that were not injected.\<close>

definition opens_turn :: "history_entry \<Rightarrow> bool" where
  "opens_turn e \<longleftrightarrow> entry_role e = RoleUser \<and> \<not> he_auto_injected e"

fun find_boundary :: "nat \<Rightarrow> nat \<Rightarrow> (nat \<times> history_entry) list \<Rightarrow> nat option" where
  "find_boundary turns seen [] = None"
| "find_boundary turns seen ((i, e) # rest) =
     (if opens_turn e
      then if seen + 1 = turns then Some i else find_boundary turns (seen + 1) rest
      else find_boundary turns seen rest)"

definition turn_boundary :: "nat \<Rightarrow> history_entry list \<Rightarrow> nat option" where
  "turn_boundary turns h = find_boundary turns 0 (rev (enumerate 0 h))"

definition truncate_session ::
  "'b engine \<Rightarrow> kv \<Rightarrow> live_session \<Rightarrow> nat \<Rightarrow> (engine_error + nat) \<times> live_session \<times> kv" where
  "truncate_session G m s turns =
     (case turn_boundary turns (lv_history s) of
        None \<Rightarrow> (Inr (length (lv_history s)), s, m)
      | Some b \<Rightarrow>
          (let s' = s\<lparr>lv_history := take b (lv_history s)\<rparr> in
           case lv_handle s of
             None \<Rightarrow> (Inr (length (lv_history s')), s', m)
           | Some h \<Rightarrow>
               (let offset = (if lv_summary s = None then 0 else 1) in
                if length (lv_history s') < offset then (Inl EnginePanic, s', m)
                else
                  let keep = length (retained (drop offset (lv_history s')))
                  in case truncate_session_messages (eg_sessions G) m h keep of
                       Inl e \<Rightarrow> (Inl (StoreFailed e), s', m)
                     | Inr m' \<Rightarrow> (Inr (length (lv_history s')), s', m'))))"

subsection \<open>Listings (history.rs)\<close>

record conversation_info =
  ci_agent_id :: bytes
  ci_agent_name :: bytes
  ci_sender :: bytes
  ci_seq :: nat
  ci_title :: bytes
  ci_file_path :: bytes
  ci_message_count :: nat
  ci_alive_secs :: nat
  ci_date :: bytes

definition rfc3339_diff_secs :: "'b engine \<Rightarrow> bytes \<Rightarrow> bytes \<Rightarrow> nat" where
  "rfc3339_diff_secs G start fin =
     (if start = [] \<or> fin = [] then 0
      else case eg_seconds G start fin of None \<Rightarrow> 0 | Some d \<Rightarrow> nat (max d 0))"

definition created_before :: "session_handle \<times> session_meta \<Rightarrow> session_handle \<times> session_meta \<Rightarrow> bool" where
  "created_before a b \<longleftrightarrow>
     (sm_created_at (snd a), fst a) = (sm_created_at (snd b), fst b) \<or>
     sm_created_at (snd a) < sm_created_at (snd b) \<or>
     sm_created_at (snd a) = sm_created_at (snd b) \<and> fst a < fst b"

text \<open>\<open>seqs\<close> is the \<open>HashMap\<close> from (agent, sender) to the number last given.\<close>

fun number_sessions ::
  "'b engine \<Rightarrow> kv \<Rightarrow> ((agent_id \<times> bytes) \<times> nat) list \<Rightarrow> (session_handle \<times> session_meta) list \<Rightarrow>
   conversation_info list" where
  "number_sessions G m seqs [] = []"
| "number_sessions G m seqs ((h, meta) # rest) =
     (let k = (sm_agent meta, sm_created_by meta);
          n = (case map_of seqs k of None \<Rightarrow> 1 | Some n \<Rightarrow> n + 1)
      in \<lparr>ci_agent_id = eg_show G (sm_agent meta),
          ci_agent_name = (case agent_names G m (sm_agent meta) of Some a \<Rightarrow> a | None \<Rightarrow> []),
          ci_sender = sm_created_by meta, ci_seq = n, ci_title = sm_title meta, ci_file_path = h,
          ci_message_count = sm_message_count meta,
          ci_alive_secs = rfc3339_diff_secs G (sm_created_at meta) (sm_updated_at meta),
          ci_date = sm_created_at meta\<rparr> # number_sessions G m ((k, n) # seqs) rest)"

definition info_before :: "conversation_info \<Rightarrow> conversation_info \<Rightarrow> bool" where
  "info_before a b \<longleftrightarrow>
     ci_seq b < ci_seq a \<or> ci_seq a = ci_seq b \<and> ci_agent_name a \<le> ci_agent_name b"

definition list_conversations ::
  "'b engine \<Rightarrow> kv \<Rightarrow> agent_id option \<Rightarrow> bytes \<Rightarrow> conversation_info list" where
  "list_conversations G m agent sender =
     (case list_sessions (eg_sessions G) m of
        Inl e \<Rightarrow> []
      | Inr summaries \<Rightarrow>
          let matched = filter (\<lambda>(_, meta). sender = [] \<or> sm_created_by meta = sender)
                (filter (\<lambda>(_, meta). case agent of None \<Rightarrow> True | Some i \<Rightarrow> sm_agent meta = i) summaries)
          in sort_by info_before (number_sessions G m [] (sort_by created_before matched)))"

record conversation_history =
  cv_title :: bytes
  cv_agent_id :: bytes
  cv_agent_name :: bytes
  cv_messages :: "(role \<times> bytes) list"

definition load_conversation_history ::
  "'b engine \<Rightarrow> kv \<Rightarrow> bytes \<Rightarrow> engine_error + conversation_history" where
  "load_conversation_history G m slug =
     bindr (lift_store (load_session (eg_sessions G) m slug))
       (\<lambda>r. case r of
          None \<Rightarrow> Inl (NoSession slug)
        | Some snap \<Rightarrow>
            bindr (case ss_archive snap of
                     None \<Rightarrow> Inr (ss_history snap)
                   | Some name \<Rightarrow>
                       bindr (lift_store (memory (eg_memory G) m name))
                         (\<lambda>e. Inr (case e of
                            None \<Rightarrow> ss_history snap
                          | Some e \<Rightarrow> entry_user (eg_wire G) (me_content e) # ss_history snap)))
              (\<lambda>h. Inr \<lparr>cv_title = sm_title (ss_meta snap), cv_agent_id = eg_show G (sm_agent (ss_meta snap)),
                   cv_agent_name =
                     (case engine_agent G m (sm_agent (ss_meta snap)) of Some c \<Rightarrow> ag_name c | None \<Rightarrow> []),
                   cv_messages = map (\<lambda>e. (entry_role e, entry_text (eg_wire G) e))
                     (filter (\<lambda>e. entry_role e \<noteq> RoleSystem) h)\<rparr>))"

definition delete_conversation :: "'b engine \<Rightarrow> kv \<Rightarrow> bytes \<Rightarrow> engine_error + kv" where
  "delete_conversation G m slug =
     bindr (lift_store (delete_session (eg_sessions G) m slug))
       (\<lambda>(deleted, m'). if deleted then Inr m' else Inl (NoSession slug))"

end
