(* ===== verification/SessionSearch.thy ===== *)
theory SessionSearch
  imports SessionInvariant
begin

section \<open>Listings and searches over sessions\<close>

text \<open>
  What the enumerations and the search of \<open>interface/session.rs\<close> answer: the listing holds every
  session once in its order, purging an agent removes its sessions and no others, message keys
  read back, a search is bounded, ordered and filtered, and its windows are bounded. Two
  theorems concern what a window leaves out and what the search index may depend on.
\<close>

subsection \<open>The session index\<close>

lemma index_prefix_agent: "prefix (kv_prefix [''idx'', ''sess'', a]) k \<Longrightarrow> prefix index_prefix k"
  by (auto simp: index_prefix_def kv_prefix_def key_joined prefix_def)

lemma index_key_agent:
  assumes "session_env_ok E"
  shows "prefix (kv_prefix [''idx'', ''sess'', se_show E a]) (session_index_key E meta h) \<longleftrightarrow> sm_agent meta = a"
proof
  assume "prefix (kv_prefix [''idx'', ''sess'', se_show E a]) (session_index_key E meta h)"
  then obtain t where
    "se_show E (sm_agent meta) @ CHR ''/'' # sm_created_by meta @ CHR ''/'' # sm_created_at meta @ CHR ''/'' # h =
     se_show E a @ CHR ''/'' # t"
    by (auto simp: prefix_def kv_prefix_def session_index_key_def key_joined)
  moreover have sf: "slash_free (se_show E i)" for i
    using assms by (simp add: session_env_ok_def ulid_ok_def)
  ultimately have "se_show E (sm_agent meta) = se_show E a"
    using slash_split [OF sf sf] by blast
  then show "sm_agent meta = a"
    using assms ulid_show_inj by (auto simp: session_env_ok_def)
qed (auto simp: prefix_def kv_prefix_def session_index_key_def key_joined)

lemma index_rows:
  assumes ok: "session_env_ok E" and inv: "sessions_inv E m A"
  shows "set (kv_scan m Session (kv_prefix [''idx'', ''sess''])) =
      {(session_index_key E (fst S) h, h) | h S. A h = Some S}"
    and "set (kv_scan m Session (kv_prefix [''idx'', ''sess'', se_show E a])) =
      {(session_index_key E (fst S) h, h) | h S. A h = Some S \<and> sm_agent (fst S) = a}"
proof -
  have bt: "bt_ok m" using inv_store [OF inv] by (simp add: store_ok_def)
  have row: "kv_get m Session k = Some v \<longleftrightarrow> (\<exists>S. A v = Some S \<and> k = session_index_key E (fst S) v)"
    if "prefix index_prefix k" for k v
    by (rule inv_index [OF inv that])
  have ip: "kv_prefix [''idx'', ''sess''] = index_prefix" by (simp add: index_prefix_def)
  show "set (kv_scan m Session (kv_prefix [''idx'', ''sess''])) =
      {(session_index_key E (fst S) h, h) | h S. A h = Some S}"
    unfolding set_kv_scan [OF bt] ip using row index_key_prefix by (auto simp del: split_paired_Ex)
  show "set (kv_scan m Session (kv_prefix [''idx'', ''sess'', se_show E a])) =
      {(session_index_key E (fst S) h, h) | h S. A h = Some S \<and> sm_agent (fst S) = a}"
    unfolding set_kv_scan [OF bt]
    using row index_prefix_agent index_key_agent [OF ok] by (auto simp del: split_paired_Ex)
qed

lemma kv_scan_sorted: "bt_ok m \<Longrightarrow> sorted_wrt (<) (map fst (kv_scan m c p))"
  using sorted_kv_scan_keys by (simp add: kv_scan_keys_def)

lemma indexed_handles_exact:
  assumes ok: "session_env_ok E" and inv: "sessions_inv E m A"
  shows "set (indexed_handles E m None) = dom A"
    and "set (indexed_handles E m (Some a)) = {h. \<exists>S. A h = Some S \<and> sm_agent (fst S) = a}"
    and "distinct (indexed_handles E m agent)"
proof -
  have bt: "bt_ok m" using inv_store [OF inv] by (simp add: store_ok_def)
  have valid: "A h = Some S \<Longrightarrow> valid_utf8 h \<and> slash_free h" for h S
    using inv_handle [OF inv] by (auto simp: handle_ok_def)
  show "set (indexed_handles E m None) = dom A"
    using valid unfolding indexed_handles_def Let_def set_filter set_map option.case index_rows(1) [OF ok inv]
    by (fastforce simp: image_iff)
  show "set (indexed_handles E m (Some a)) = {h. \<exists>S. A h = Some S \<and> sm_agent (fst S) = a}"
    using valid unfolding indexed_handles_def Let_def set_filter set_map option.case index_rows(2) [OF ok inv]
    by (fastforce simp: image_iff)
  have dist: "distinct (map snd (kv_scan m Session p))"
    if rows: "\<And>k v. (k, v) \<in> set (kv_scan m Session p) \<Longrightarrow> \<exists>S. A v = Some S \<and> k = session_index_key E (fst S) v" for p
  proof -
    have "distinct (map fst (kv_scan m Session p))"
      using kv_scan_sorted [OF bt] strict_sorted_iff by blast
    then have "inj_on fst (set (kv_scan m Session p))" "distinct (kv_scan m Session p)"
      by (simp_all add: distinct_map)
    moreover have "inj_on snd (set (kv_scan m Session p))"
    proof (rule inj_onI)
      fix x y assume x: "x \<in> set (kv_scan m Session p)" and y: "y \<in> set (kv_scan m Session p)" and eq: "snd x = snd y"
      obtain S where S: "A (snd x) = Some S" "fst x = session_index_key E (fst S) (snd x)"
        using rows [of "fst x" "snd x"] x by auto
      obtain T where T: "A (snd y) = Some T" "fst y = session_index_key E (fst T) (snd y)"
        using rows [of "fst y" "snd y"] y by auto
      have "S = T" using S(1) T(1) eq by simp
      then show "x = y" using S(2) T(2) eq by (simp add: prod_eq_iff)
    qed
    ultimately show ?thesis by (simp add: distinct_map)
  qed
  have "distinct (map snd (kv_scan m Session (kv_prefix [''idx'', ''sess''])))"
    by (rule dist) (use index_rows(1) [OF ok inv] in blast)
  moreover have "distinct (map snd (kv_scan m Session (kv_prefix [''idx'', ''sess'', se_show E a])))" for a
    by (rule dist) (use index_rows(2) [OF ok inv] in blast)
  ultimately show "distinct (indexed_handles E m agent)"
    unfolding indexed_handles_def Let_def by (cases agent) (simp_all add: distinct_filter)
qed

lemma read_meta_inv:
  assumes "sessions_inv E m A" and "A h = Some S"
  shows "read_meta E m h = Inr (Some (fst S))"
  using inv_rel [OF assms] by (auto simp: session_rel_def split: prod.splits)

lemma read_metas_exact:
  assumes inv: "sessions_inv E m A" and "\<forall>h \<in> set hs. h \<in> dom A"
  shows "read_metas E m hs = Inr (map (\<lambda>h. (h, fst (the (A h)))) hs)"
  using assms(2) by (induction hs) (auto simp: read_meta_inv [OF inv])

lemma listed_before_total: "listed_before a b \<or> listed_before b a"
  by (auto simp: listed_before_def case_prod_unfold Let_def)

lemma listed_before_trans: "listed_before a b \<Longrightarrow> listed_before b c \<Longrightarrow> listed_before a c"
  by (auto simp: listed_before_def case_prod_unfold Let_def split: if_splits)

text \<open>
  The listing never fails and holds every session once, with its metadata: the most
  recently updated first, then the most recently created, then by handle.
\<close>

theorem list_sessions_exact:
  assumes "session_env_ok E" and "sessions_inv E m A"
  shows "\<exists>out. list_sessions E m = Inr out \<and> set out = {(h, fst S) | h S. A h = Some S} \<and>
    distinct (map fst out) \<and> sorted_wrt listed_before out"
proof -
  let ?hs = "indexed_handles E m None" and ?f = "\<lambda>h. (h, fst (the (A h)))"
  have hs: "set ?hs = dom A" by (rule indexed_handles_exact(1) [OF assms])
  then have "list_sessions E m = Inr (sort_by listed_before (map ?f ?hs))"
    using read_metas_exact [OF assms(2), of ?hs] by (simp add: list_sessions_def)
  moreover have "set (map ?f ?hs) = {(h, fst S) | h S. A h = Some S}"
    using hs by (force simp: image_iff)
  moreover have "distinct (map fst (sort_by listed_before (map ?f ?hs)))"
    unfolding distinct_sort_by using indexed_handles_exact(3) [OF assms, of None] by (simp add: comp_def)
  moreover have "sorted_wrt listed_before (sort_by listed_before (map ?f ?hs))"
    by (rule sorted_sort_by) (rule listed_before_total, erule (1) listed_before_trans)
  ultimately show ?thesis by (simp del: set_map map_map)
qed

theorem list_sessions_exact_witness:
  "\<exists>out. list_sessions sample_session_env [] = Inr out \<and> set out = {}"
  using list_sessions_exact [OF sample_session_env_ok empty_sessions] by simp

lemma delete_sessions_inv:
  assumes ok: "session_env_ok E" and inv: "sessions_inv E m A"
    and hs: "distinct hs" "set hs \<subseteq> dom A"
  shows "\<exists>m'. delete_sessions E m hs = Inr (length hs, m') \<and> sessions_inv E m' (A |` (- set hs))"
  using inv hs
proof (induction hs arbitrary: m A)
  case (Cons h hs)
  obtain S where A: "A h = Some S" using Cons.prems(3) by auto
  obtain m1 where m1: "delete_session E m h = Inr (True, m1)" "sessions_inv E m1 (A(h := None))"
    using delete_inv [OF ok Cons.prems(1) inv_handle [OF Cons.prems(1) A]] A by auto
  have sub: "set hs \<subseteq> dom (A(h := None))" using Cons.prems(2,3) by auto
  obtain m' where m': "delete_sessions E m1 hs = Inr (length hs, m')"
    "sessions_inv E m' ((A(h := None)) |` (- set hs))"
    using Cons.IH [OF m1(2) _ sub] Cons.prems(2) unfolding distinct.simps by blast
  have "(A(h := None)) |` (- set hs) = A |` (- set (h # hs))"
    by (auto simp: restrict_map_def fun_eq_iff)
  then show ?case using m1(1) m' by simp
qed (simp add: restrict_map_def)

text \<open>
  Purging an agent deletes exactly its sessions, counts them, and leaves every other
  session as it was.
\<close>

theorem delete_sessions_of_exact:
  assumes "session_env_ok E" and "sessions_inv E m A"
  shows "\<exists>m'. delete_sessions_of E m a = Inr (card {h. \<exists>S. A h = Some S \<and> sm_agent (fst S) = a}, m') \<and>
    sessions_inv E m' (A |` (- {h. \<exists>S. A h = Some S \<and> sm_agent (fst S) = a}))"
proof -
  let ?hs = "indexed_handles E m (Some a)"
  have hs: "set ?hs = {h. \<exists>S. A h = Some S \<and> sm_agent (fst S) = a}" "distinct ?hs"
    using indexed_handles_exact(2,3) [OF assms] by blast+
  then have "length ?hs = card {h. \<exists>S. A h = Some S \<and> sm_agent (fst S) = a}"
    by (metis distinct_card)
  moreover have "set ?hs \<subseteq> dom A" using hs(1) by auto
  ultimately show ?thesis
    using delete_sessions_inv [OF assms hs(2)] hs(1) by (simp add: delete_sessions_of_def)
qed

theorem delete_sessions_of_exact_witness:
  "\<exists>m'. delete_sessions_of sample_session_env [] 7 = Inr (0, m')"
  using delete_sessions_of_exact [OF sample_session_env_ok empty_sessions, of 7] by auto

subsection \<open>Message keys\<close>

lemma split_char_joined:
  assumes "\<forall>p \<in> set ps. slash_free p" and "slash_free p0"
  shows "split_char (CHR ''/'') (p0 @ joined ps) = p0 # ps"
  using assms
proof (induction ps arbitrary: p0)
  case Nil
  then show ?case
    by (auto simp: split_char_def slash_free_def intro!: split_when_none)
next
  case (Cons p ps)
  have "split_when (\<lambda>c. c = CHR ''/'') (p0 @ CHR ''/'' # (p @ joined ps)) =
      p0 # split_when (\<lambda>c. c = CHR ''/'') (p @ joined ps)"
    using Cons.prems(2) by (intro split_when_append) (auto simp: slash_free_def)
  then show ?case using Cons by (simp add: split_char_def)
qed

lemma valid_utf8_joined: "\<forall>p \<in> set ps. valid_utf8 p \<Longrightarrow> valid_utf8 (joined ps)"
proof (induction ps)
  case (Cons p ps)
  then show ?case by (simp add: valid_utf8_append is_ascii_def byte_val_def)
qed simp

lemma valid_utf8_key: "\<forall>p \<in> set ps. valid_utf8 p \<Longrightarrow> valid_utf8 (key ps)"
  using valid_utf8_joined
  by (simp add: key_joined realm_local_def is_ascii_def byte_val_def)

text \<open>
  A message's key reads back as the session and position it was made from.
\<close>

theorem parse_message_key_roundtrip:
  assumes "handle_ok h" and "i < 2 ^ 64"
  shows "parse_message_key (message_key h i) = Some (h, i)"
proof -
  have "valid_utf8 (show_padded 12 i)" "valid_utf8 ''session''" "valid_utf8 ''msg''"
    using show_padded_ascii by (auto intro!: valid_utf8_ascii simp: is_ascii_def byte_val_def)
  then have "valid_utf8 (message_key h i)"
    unfolding message_key_def using assms(1) by (intro valid_utf8_key) (simp add: handle_ok_def)
  moreover have "split_char (CHR ''/'') (message_key h i) =
      [realm_local, ''session'', h, ''msg'', show_padded 12 i]"
    unfolding message_key_def key_joined
    using assms(1) by (intro split_char_joined) (simp_all add: handle_ok_def, simp add: realm_local_def slash_free_def)
  ultimately show ?thesis
    using parse_uint_padded [OF assms(2), of 12] by (simp add: parse_message_key_def)
qed

theorem parse_message_key_roundtrip_witness:
  "parse_message_key (message_key ''s1'' 10) = Some (''s1'', 10)"
proof -
  have "handle_ok ''s1''"
    by (simp add: handle_ok_def slash_free_def valid_utf8_ascii is_ascii_def byte_val_def)
  then show ?thesis by (rule parse_message_key_roundtrip) simp
qed

subsection \<open>Windows\<close>

definition window_item_of :: "session_env \<Rightarrow> nat \<Rightarrow> history_entry \<Rightarrow> window_item" where
  "window_item_of E i e =
     \<lparr>wi_role = entry_role e, wi_msg_idx = i mod 2 ^ 32, wi_snippet = fst (snippet (se_wire E) e),
      wi_truncated = snd (snippet (se_wire E) e), wi_tool_name = entry_tool_name (se_wire E) e\<rparr>"

lemma window_loop_step:
  "length out < MAX_WINDOW_ITEMS \<Longrightarrow> get_json (se_entry E) m Session (message_key h i) = Inr (Some e) \<Longrightarrow>
   window_loop E m h (i # js) out = window_loop E m h js (out @ [window_item_of E i e])"
  by (simp add: window_item_of_def case_prod_unfold Let_def)

lemma window_loop_full: "MAX_WINDOW_ITEMS \<le> length out \<Longrightarrow> window_loop E m h js out = Inr out"
  by (cases js) auto

declare window_loop.simps(2) [simp del]

lemma window_loop_shape:
  assumes "window_loop E m h js out = Inr w" and "length out \<le> MAX_WINDOW_ITEMS"
  shows "\<exists>items. w = out @ items \<and> length w \<le> MAX_WINDOW_ITEMS \<and>
    (\<forall>x \<in> set items. \<exists>i \<in> set js. \<exists>e. x = window_item_of E i e)"
  using assms
proof (induction js arbitrary: out)
  case (Cons i js)
  show ?case
  proof (cases "MAX_WINDOW_ITEMS \<le> length out")
    case True
    then show ?thesis using Cons.prems by (simp add: window_loop_full)
  next
    case False
    then obtain r where r: "get_json (se_entry E) m Session (message_key h i) = Inr r"
      using Cons.prems(1) by (auto simp: window_loop.simps(2) bindr_Inr)
    show ?thesis
    proof (cases r)
      case None
      then have "window_loop E m h js out = Inr w"
        using Cons.prems(1) False r by (simp add: window_loop.simps(2))
      then show ?thesis using Cons.IH Cons.prems(2) by fastforce
    next
      case (Some e)
      then have "window_loop E m h js (out @ [window_item_of E i e]) = Inr w"
        using Cons.prems(1) window_loop_step [of out E m h i e js] False r by simp
      from Cons.IH [OF this] False show ?thesis by fastforce
    qed
  qed
qed simp

lemma window_loop_prefix:
  assumes "\<And>i. i \<in> set js \<Longrightarrow> get_json (se_entry E) m Session (message_key h i) = Inr (Some (f i))"
    and "length out + length js \<le> MAX_WINDOW_ITEMS"
  shows "window_loop E m h (js @ rest) out = window_loop E m h rest (out @ map (\<lambda>i. window_item_of E i (f i)) js)"
  using assms
proof (induction js arbitrary: out)
  case (Cons i js)
  then have "window_loop E m h ((i # js) @ rest) out =
      window_loop E m h (js @ rest) (out @ [window_item_of E i (f i)])"
    using window_loop_step [of out E m h i "f i"] by simp
  then show ?case using Cons by simp
qed simp

lemma snippet_length: "length (fst (snippet W e)) \<le> 1024"
  using boundary_before_le [of "entry_text W e" 1024] by (simp add: snippet_def MAX_SNIPPET_BYTES_def Let_def)

lemma min_capped: "min (so_context_before opts) MAX_WINDOW_ITEMS \<le> MAX_WINDOW_ITEMS"
  by simp

text \<open>
  A window has at most 16 items, each with a snippet of at most 1024 bytes, taken from
  positions at most 16 before and 16 after the match.
\<close>

theorem window_bounds:
  assumes "window E m h idx opts = Inr w"
  shows "length w \<le> 16 \<and>
    (\<forall>x \<in> set w. length (wi_snippet x) \<le> 1024 \<and> (\<exists>i. wi_msg_idx x = i mod 2 ^ 32 \<and> idx \<le> i + 16 \<and> i \<le> idx + 16))"
proof -
  let ?b = "min (so_context_before opts) MAX_WINDOW_ITEMS" and ?a = "min (so_context_after opts) MAX_WINDOW_ITEMS"
  define js where "js = [idx - ?b ..< min (idx + ?a) (2 ^ 64 - 1) + 1]"
  have "window_loop E m h js [] = Inr w"
    using assms unfolding window_def Let_def js_def .
  then have len: "length w \<le> MAX_WINDOW_ITEMS" and
    items: "\<forall>x \<in> set w. \<exists>i \<in> set js. \<exists>e. x = window_item_of E i e"
    using window_loop_shape [of E m h js "[]" w] by auto
  have "length (wi_snippet x) \<le> 1024 \<and> (\<exists>i. wi_msg_idx x = i mod 2 ^ 32 \<and> idx \<le> i + 16 \<and> i \<le> idx + 16)"
    if "x \<in> set w" for x
  proof -
    from bspec [OF items that] obtain i where i: "i \<in> set js" and "\<exists>e. x = window_item_of E i e" by (rule bexE)
    then obtain e where x: "x = window_item_of E i e" by (elim exE)
    have ab: "?b \<le> 16" "?a \<le> 16" by (simp_all add: MAX_WINDOW_ITEMS_def)
    have "idx - ?b \<le> i" "i < min (idx + ?a) (2 ^ 64 - 1) + 1"
      using i unfolding js_def set_upt atLeastLessThan_iff by blast+
    moreover have "min (idx + ?a) (2 ^ 64 - 1) \<le> idx + ?a" by (rule min.cobounded1)
    ultimately have "idx \<le> i + 16 \<and> i \<le> idx + 16" using ab by linarith
    then show ?thesis using x snippet_length [of "se_wire E" e] by (auto simp: window_item_of_def)
  qed
  then show ?thesis using len by (simp add: MAX_WINDOW_ITEMS_def)
qed

lemma window_loop_absent:
  "\<forall>i \<in> set js. get_json (se_entry E) m Session (message_key h i) = Inr None \<Longrightarrow>
   window_loop E m h js out = Inr out"
  by (induction js) (auto simp: window_loop.simps(2))

theorem window_bounds_witness:
  "\<exists>w. window sample_session_env [] ''s1'' 3 search_options_default = Inr w \<and> length w \<le> 16"
proof -
  have "window sample_session_env [] ''s1'' 3 search_options_default = Inr []"
    unfolding window_def Let_def by (rule window_loop_absent) (simp add: get_json_none kv_get_def)
  then show ?thesis using window_bounds by blast
qed

text \<open>
  Asked for sixteen or more messages of context before it, the window of a hit that has
  them stops before it reaches the hit: the matching message itself is not in it.
\<close>

theorem window_leaves_out_match:
  assumes "session_rel E m h (meta, es, arch)" and "idx < length es" and "length es \<le> 2 ^ 32"
    and "16 \<le> idx" and "16 \<le> so_context_before opts"
  shows "\<exists>w. window E m h idx opts = Inr w \<and> length w = 16 \<and> (\<forall>x \<in> set w. wi_msg_idx x < idx)"
proof -
  let ?a = "min (so_context_after opts) MAX_WINDOW_ITEMS"
  let ?f = "\<lambda>i. window_item_of E i (es ! i)"
  have b: "min (so_context_before opts) MAX_WINDOW_ITEMS = 16"
    using assms(5) by (simp add: MAX_WINDOW_ITEMS_def)
  define top where "top = min (idx + ?a) (2 ^ 64 - 1) + 1"
  have "(2 :: nat) ^ 32 \<le> 2 ^ 64 - 1" by simp
  then have "idx \<le> top" using assms(2,3) by (simp add: top_def)
  then have js: "[idx - 16 ..< top] = [idx - 16 ..< idx] @ [idx ..< top]"
    using upt_add_eq_append [of "idx - 16" idx "top - idx"] by simp
  have "window E m h idx opts = window_loop E m h ([idx - 16 ..< idx] @ [idx ..< top]) []"
    unfolding window_def Let_def b top_def [symmetric] js ..
  also have "\<dots> = window_loop E m h [idx ..< top] ([] @ map ?f [idx - 16 ..< idx])"
    using assms(1,2,4) by (intro window_loop_prefix) (auto simp: session_rel_def MAX_WINDOW_ITEMS_def)
  also have "\<dots> = Inr (map ?f [idx - 16 ..< idx])"
    using assms(4) by (simp add: window_loop_full MAX_WINDOW_ITEMS_def)
  finally have "window E m h idx opts = Inr (map ?f [idx - 16 ..< idx])" .
  moreover have "wi_msg_idx (?f i) < idx" if "i < idx" for i
    using that assms(2,3) by (simp add: window_item_of_def)
  ultimately show ?thesis using assms(4) by (auto simp: window_item_of_def)
qed

theorem window_leaves_out_match_witness:
  "\<exists>m w. session_run sample_session_env []
      [CreateSession ''s1'' 7 ''me'' None ''t0'',
       AppendMessages ''s1'' (replicate 17 (entry_user text_wire ''hi'')) ''t1''] = Inr m \<and>
     window sample_session_env m ''s1'' 16 (search_options_default\<lparr>so_context_before := 16\<rparr>) = Inr w \<and>
     length w = 16 \<and> (\<forall>x \<in> set w. wi_msg_idx x < 16)"
proof -
  let ?xs = "[CreateSession ''s1'' 7 ''me'' None ''t0'',
       AppendMessages ''s1'' (replicate 17 (entry_user text_wire ''hi'')) ''t1'']"
  have h: "handle_ok ''s1''"
    by (simp add: handle_ok_def slash_free_def valid_utf8_ascii is_ascii_def byte_val_def)
  have ok: "session_cmds_ok Map.empty ?xs"
    using h by (simp add: MAX_MESSAGES_def)
  obtain meta es arch where fin: "foldl session_spec Map.empty ?xs ''s1'' = Some (meta, es, arch)" "length es = 17"
    by (simp add: numeral_eq_Suc)
  obtain m where m: "session_run sample_session_env [] ?xs = Inr m"
    "sessions_inv sample_session_env m (foldl session_spec Map.empty ?xs)"
    using session_run_refines [OF sample_session_env_ok empty_sessions ok] by blast
  have "\<exists>w. window sample_session_env m ''s1'' 16 (search_options_default\<lparr>so_context_before := 16\<rparr>) = Inr w \<and>
      length w = 16 \<and> (\<forall>x \<in> set w. wi_msg_idx x < 16)"
    by (rule window_leaves_out_match [OF inv_rel [OF m(2) fin(1)]]) (simp_all add: fin(2))
  then show ?thesis using m(1) by blast
qed

subsection \<open>Search results\<close>

lemma best_messages_ok: "bt_ok best \<Longrightarrow> bt_ok (best_messages ts best)"
  by (induction ts best rule: best_messages.induct) (auto split: option.splits)

lemma collect_hits_Cons:
  assumes "collect_hits E m opts boosts ((h, (idx, score)) # rest) = Inr hits"
  shows "collect_hits E m opts boosts rest = Inr hits \<or>
    (\<exists>meta w hits'. hits = \<lparr>sh_handle = h, sh_msg_idx = idx mod 2 ^ 32,
         sh_score = score + (case map_of boosts h of None \<Rightarrow> 0 | Some b \<Rightarrow> b),
         sh_title = sm_title meta, sh_agent = sm_agent meta,
         sh_agent_name = agent_display_name E m (sm_agent meta),
         sh_sender = sm_created_by meta, sh_created_at = sm_created_at meta,
         sh_updated_at = sm_updated_at meta, sh_window = w\<rparr> # hits' \<and>
       read_meta E m h = Inr (Some meta) \<and>
       (\<forall>i. so_agent_filter opts = Some i \<longrightarrow> sm_agent meta = i) \<and>
       (\<forall>s. so_sender_filter opts = Some s \<longrightarrow> sm_created_by meta = s) \<and>
       window E m h idx opts = Inr w \<and> collect_hits E m opts boosts rest = Inr hits')"
proof -
  obtain r where r: "read_meta E m h = Inr r"
    using assms by (auto simp: bindr_Inr)
  show ?thesis
  proof (cases r)
    case None
    then show ?thesis using assms r by simp
  next
    case (Some meta)
    show ?thesis
    proof (cases "(case so_agent_filter opts of None \<Rightarrow> False | Some i \<Rightarrow> sm_agent meta \<noteq> i) \<or>
        (case so_sender_filter opts of None \<Rightarrow> False | Some s \<Rightarrow> sm_created_by meta \<noteq> s)")
      case True
      then show ?thesis using assms r Some by simp
    next
      case False
      with assms r Some obtain w hits' where
        "window E m h idx opts = Inr w" "collect_hits E m opts boosts rest = Inr hits'"
        "hits = \<lparr>sh_handle = h, sh_msg_idx = idx mod 2 ^ 32,
         sh_score = score + (case map_of boosts h of None \<Rightarrow> 0 | Some b \<Rightarrow> b),
         sh_title = sm_title meta, sh_agent = sm_agent meta,
         sh_agent_name = agent_display_name E m (sm_agent meta),
         sh_sender = sm_created_by meta, sh_created_at = sm_created_at meta,
         sh_updated_at = sm_updated_at meta, sh_window = w\<rparr> # hits'"
        unfolding collect_hits.simps by (auto simp: bindr_Inr)
      then show ?thesis using r Some False by (auto split: option.splits)
    qed
  qed
qed

definition hit_ok :: "session_env \<Rightarrow> kv \<Rightarrow> search_options \<Rightarrow> session_hit \<Rightarrow> bool" where
  "hit_ok E m opts x \<longleftrightarrow>
     (\<exists>meta. read_meta E m (sh_handle x) = Inr (Some meta) \<and> sh_agent x = sm_agent meta \<and>
        sh_sender x = sm_created_by meta \<and> sh_title x = sm_title meta) \<and>
     (\<forall>i. so_agent_filter opts = Some i \<longrightarrow> sh_agent x = i) \<and>
     (\<forall>s. so_sender_filter opts = Some s \<longrightarrow> sh_sender x = s) \<and> length (sh_window x) \<le> 16"

lemma collect_hits_ok:
  assumes "collect_hits E m opts boosts best = Inr hits" and "distinct (map fst best)"
  shows "distinct (map sh_handle hits) \<and> sh_handle ` set hits \<subseteq> fst ` set best \<and>
    (\<forall>x \<in> set hits. hit_ok E m opts x)"
  using assms
proof (induction best arbitrary: hits)
  case (Cons b rest)
  obtain h idx score where b: "b = (h, (idx, score))" by (metis prod.exhaust)
  from collect_hits_Cons [OF Cons.prems(1) [unfolded b]] show ?case
  proof (elim disjE exE conjE)
    assume "collect_hits E m opts boosts rest = Inr hits"
    with Cons.IH [OF this] Cons.prems(2) show ?case by auto
  next
    fix meta w hits'
    assume *: "hits = \<lparr>sh_handle = h, sh_msg_idx = idx mod 2 ^ 32,
         sh_score = score + (case map_of boosts h of None \<Rightarrow> 0 | Some b \<Rightarrow> b),
         sh_title = sm_title meta, sh_agent = sm_agent meta,
         sh_agent_name = agent_display_name E m (sm_agent meta),
         sh_sender = sm_created_by meta, sh_created_at = sm_created_at meta,
         sh_updated_at = sm_updated_at meta, sh_window = w\<rparr> # hits'"
      and read: "read_meta E m h = Inr (Some meta)"
      and filters: "\<forall>i. so_agent_filter opts = Some i \<longrightarrow> sm_agent meta = i"
        "\<forall>s. so_sender_filter opts = Some s \<longrightarrow> sm_created_by meta = s"
      and w: "window E m h idx opts = Inr w" and rest: "collect_hits E m opts boosts rest = Inr hits'"
    have IH: "distinct (map sh_handle hits')" "sh_handle ` set hits' \<subseteq> fst ` set rest"
      "\<forall>x \<in> set hits'. hit_ok E m opts x"
      using Cons.IH [OF rest] Cons.prems(2) by auto
    moreover have "h \<notin> fst ` set rest" using Cons.prems(2) b by auto
    moreover have "length w \<le> MAX_WINDOW_ITEMS"
      using window_loop_shape [OF w [unfolded window_def Let_def]] by auto
    ultimately show ?case
      using read filters unfolding * b by (auto simp: hit_ok_def MAX_WINDOW_ITEMS_def)
  qed
qed simp

text \<open>
  A session search returns at most the requested number of hits, clamped to one to twenty,
  by descending score and at most one per session; every hit is a session that exists, passes
  the agent and sender filters and carries a window of at most sixteen messages.
\<close>

theorem search_sessions_bounds:
  assumes "search_sessions E m query opts = Inr hits"
  shows "length hits \<le> min 20 (max 1 (so_limit opts)) \<and>
    sorted_wrt (\<lambda>a b. sh_score b \<le> sh_score a) hits \<and> distinct (map sh_handle hits) \<and>
    (\<forall>x \<in> set hits. hit_ok E m opts x)"
proof -
  let ?limit = "min MAX_HITS_PER_QUERY (max 1 (so_limit opts))"
  let ?le = "\<lambda>a b. sh_score b \<le> sh_score a"
  consider "hits = []" | boosts best found where "bt_ok best" "collect_hits E m opts boosts best = Inr found"
    "hits = take ?limit (sort_by ?le found)"
    using assms best_messages_ok [of "[]"]
    by (auto simp: search_sessions_def Let_def bindr_Inr split: if_splits)
  then show ?thesis
  proof cases
    case 2
    have ok: "distinct (map sh_handle found)" "\<forall>x \<in> set found. hit_ok E m opts x"
      using collect_hits_ok [OF 2(2) bt_ok_distinct [OF 2(1)]] by blast+
    have "sorted_wrt ?le (sort_by ?le found)"
      by (rule sorted_sort_by) auto
    then have "sorted_wrt ?le hits" unfolding 2(3) by (rule sorted_wrt_take)
    moreover have "distinct (map sh_handle hits)"
      unfolding 2(3) take_map [symmetric] by (intro distinct_take) (simp add: ok(1))
    moreover have "hit_ok E m opts x" if "x \<in> set hits" for x
      using that ok(2) unfolding 2(3) by (auto dest: in_set_takeD)
    moreover have "length hits \<le> min 20 (max 1 (so_limit opts))"
      unfolding 2(3) length_take MAX_HITS_PER_QUERY_def by (rule min.cobounded2)
    ultimately show ?thesis by blast
  qed simp
qed

theorem search_sessions_bounds_witness:
  "\<exists>hits. search_sessions sample_session_env [] ''deploy'' search_options_default = Inr hits \<and> length hits \<le> 5"
proof -
  have "search_sessions sample_session_env [] ''deploy'' search_options_default = Inr []"
    by (simp add: search_sessions_def search_text_def load_stats_empty stats_default_def Let_def)
  then show ?thesis
    using search_sessions_bounds by (fastforce simp: search_options_default_def)
qed

subsection \<open>What reaches the index\<close>

definition same_text :: "kv \<Rightarrow> kv \<Rightarrow> bool" where
  "same_text m n \<longleftrightarrow> (\<forall>k. kv_get m Text k = kv_get n Text k)"

lemma same_text_read:
  assumes "same_text m n"
  shows "get_json J m Text k = get_json J n Text k" and "load_stats T m ix = load_stats T n ix"
  using assms by (auto simp: same_text_def intro: get_json_cong load_stats_cong)

lemma same_text_put:
  "same_text m n \<Longrightarrow> same_text (put_json J m Text k v) (put_json J n Text k v)"
  "same_text m n \<Longrightarrow> same_text (kv_remove m Text k) (kv_remove n Text k)"
  "same_text m n \<Longrightarrow> same_text (kv_put m Text k b) (kv_put n Text k b)"
  by (simp_all add: same_text_def)

lemma same_text_postings:
  "same_text m n \<Longrightarrow> same_text (drop_postings m ix ts k) (drop_postings n ix ts k)"
  "same_text m n \<Longrightarrow> same_text (put_postings m ix tfs k) (put_postings n ix tfs k)"
proof -
  show "same_text m n \<Longrightarrow> same_text (drop_postings m ix ts k) (drop_postings n ix ts k)"
    by (induction ts arbitrary: m n) (auto intro: same_text_put(2))
  show "same_text m n \<Longrightarrow> same_text (put_postings m ix tfs k) (put_postings n ix tfs k)"
  proof (induction tfs arbitrary: m n)
    case (Cons e tfs)
    then show ?case using Cons.IH [OF same_text_put(3) [OF Cons.prems]] by (cases e) simp
  qed simp
qed

lemma drop_text_same:
  assumes "same_text m n" and "drop_text J m ix k = Inr m'" and "drop_text J n ix k = Inr n'"
  shows "same_text m' n'"
proof -
  obtain r where r: "get_json (doc_codec J) m Text (doc_key ix k) = Inr r"
    "get_json (doc_codec J) n Text (doc_key ix k) = Inr r"
    using assms(2) same_text_read(1) [OF assms(1), of "doc_codec J"] by (auto simp: drop_text_def bindr_Inr)
  show ?thesis
  proof (cases r)
    case None
    then show ?thesis using assms r by (simp add: drop_text_def)
  next
    case (Some d)
    let ?d = "\<lambda>m. kv_remove (drop_postings m ix (doc_terms d) k) Text (doc_key ix k)"
    have st: "same_text (?d m) (?d n)"
      by (intro same_text_put same_text_postings assms(1))
    then have "load_stats J (?d m) ix = load_stats J (?d n) ix" by (rule same_text_read(2))
    then show ?thesis
      using assms(2,3) r Some same_text_put(1) [OF st]
      by (auto simp: drop_text_def bindr_Inr Let_def)
  qed
qed

lemma index_text_same:
  assumes "same_text m n" and "index_text U J m ix k text w = Inr m'" and "index_text U J n ix k text w = Inr n'"
  shows "same_text m' n'"
proof -
  obtain m1 n1 where d: "drop_text J m ix k = Inr m1" "drop_text J n ix k = Inr n1"
    using assms(2,3) by (auto simp: index_text_def bindr_Inr)
  have st: "same_text m1 n1" by (rule drop_text_same [OF assms(1) d])
  show ?thesis
  proof (cases "tokenize U text = []")
    case True
    then show ?thesis using assms(2,3) d st by (simp add: index_text_def)
  next
    case False
    let ?p = "\<lambda>m. put_json (doc_codec J) (put_postings m ix (term_freqs (tokenize U text)) k)
        Text (doc_key ix k) (indexed_doc U text w)"
    have sp: "same_text (?p m1) (?p n1)"
      by (intro same_text_put same_text_postings st)
    have form: "\<exists>s. x' = put_json (stats_codec J) (?p x1) Text (stats_key ix) s \<and> load_stats J (?p x1) ix = Inr st \<and>
        s = \<lparr>st_docs = st_docs st + 1, st_total_len = st_total_len st + length (tokenize U text) mod 2 ^ 32\<rparr>"
      if "index_text U J x ix k text w = Inr x'" "drop_text J x ix k = Inr x1" "load_stats J (?p x1) ix = Inr st"
      for x x' x1 st
      using that False by (simp add: index_text_def indexed_doc_def Let_def)
    obtain st where "load_stats J (?p m1) ix = Inr st"
      using assms(2) d(1) False by (auto simp: index_text_def indexed_doc_def bindr_Inr Let_def)
    moreover from this have "load_stats J (?p n1) ix = Inr st"
      using same_text_read(2) [OF sp] by simp
    ultimately show ?thesis
      using form [OF assms(2) d(1)] form [OF assms(3) d(2)] same_text_put(1) [OF sp] by auto
  qed
qed

lemma append_entries_same:
  assumes "same_text m n" and "map (indexable (se_wire E)) es = map (indexable (se_wire E)) fs"
    and "append_entries E m h i es = Inr m'" and "append_entries E n h i fs = Inr n'"
  shows "same_text m' n'"
  using assms
proof (induction es arbitrary: fs m n i)
  case (Cons e es)
  obtain f fs' where fs: "fs = f # fs'" "indexable (se_wire E) e = indexable (se_wire E) f"
    "map (indexable (se_wire E)) es = map (indexable (se_wire E)) fs'"
    using Cons.prems(2) by (cases fs) auto
  obtain m1 n1 where step: "append_entry E m h i e = Inr m1" "append_entry E n h i f = Inr n1"
    and rest: "append_entries E m1 h (i + 1) es = Inr m'" "append_entries E n1 h (i + 1) fs' = Inr n'"
    using Cons.prems(3,4) fs(1) by (auto simp: bindr_Inr)
  have put: "same_text (put_json (se_entry E) m Session (message_key h i) e)
      (put_json (se_entry E) n Session (message_key h i) f)"
    using Cons.prems(1) by (simp add: same_text_def)
  have "same_text m1 n1"
  proof (cases "indexable (se_wire E) e")
    case None
    then show ?thesis using step fs(2) put by (simp add: append_entry_def)
  next
    case (Some bt)
    then show ?thesis
      using step fs(2) index_text_same [OF put] by (cases bt) (simp add: append_entry_def)
  qed
  then show ?case using Cons.IH [OF _ fs(3) rest] by blast
qed simp

text \<open>
  The search index depends on a turn only through what \<open>indexable\<close> shows of it: two
  appends that differ in tool results, in the arguments of tool calls, in reasoning or in
  anything else it leaves out produce the same index.
\<close>

theorem append_indexes_only_indexable:
  assumes "map (indexable (se_wire E)) es = map (indexable (se_wire E)) fs"
    and "append_session_messages E m h es now = Inr m'" and "append_session_messages E m h fs now = Inr n'"
  shows "kv_get m' Text k = kv_get n' Text k"
proof (cases "es = []")
  case True
  then show ?thesis using assms by (simp add: append_session_messages_def)
next
  case False
  then have fs: "fs \<noteq> []" using assms(1) by auto
  obtain meta where meta: "read_meta E m h = Inr (Some meta)"
    using assms(2) False by (auto simp: append_session_messages_def bindr_Inr split: option.splits)
  have shape: "\<exists>m1 meta'. append_entries E m h (sm_message_count meta) gs = Inr m1 \<and>
      x = put_json (se_meta E) m1 Session (meta_key h) meta'"
    if "append_session_messages E m h gs now = Inr x" "gs \<noteq> []" for gs x
    using that meta by (auto simp: append_session_messages_def bindr_Inr)
  obtain m1 a where m1: "append_entries E m h (sm_message_count meta) es = Inr m1"
    "m' = put_json (se_meta E) m1 Session (meta_key h) a"
    using shape [OF assms(2) False] by blast
  obtain n1 b where n1: "append_entries E m h (sm_message_count meta) fs = Inr n1"
    "n' = put_json (se_meta E) n1 Session (meta_key h) b"
    using shape [OF assms(3) fs] by blast
  have "same_text m m" by (simp add: same_text_def)
  from append_entries_same [OF this assms(1) m1(1) n1(1)] show ?thesis
    unfolding m1(2) n1(2) by (simp add: same_text_def)
qed

theorem append_indexes_only_indexable_witness:
  "\<exists>m' n'. append_session_messages sample_session_env [] ''s'' [] ''t'' = Inr m' \<and>
     append_session_messages sample_session_env [] ''s'' [] ''t'' = Inr n' \<and> kv_get m' Text ''k'' = kv_get n' Text ''k''"
proof -
  have "append_session_messages sample_session_env [] ''s'' [] ''t'' = Inr []"
    by (simp add: append_session_messages_def)
  then show ?thesis using append_indexes_only_indexable [of sample_session_env "[]" "[]"] by blast
qed

end
