(* ===== verification/EngineInvariant.thy ===== *)
theory EngineInvariant
  imports Engine SessionSearch
begin

section \<open>The live session and the stored one\<close>

text \<open>
  A live session and its record in the store say the same thing: the turns that were not injected
  are the stored ones, after the archive prefix where there is one. A turn, a rewind and a
  compaction keep it so; a turn does so where no framing is left over from a guest
  (\<open>turn_ready\<close>), since the engine counts what a run added from the length of the history
  before the framing was dropped.
\<close>

subsection \<open>Histories\<close>

lemma retained_append [simp]: "retained (xs @ ys) = retained xs @ retained ys"
  by (simp add: retained_def)

lemma retained_Nil [simp]: "retained [] = []"
  by (simp add: retained_def)

lemma retained_Cons: "retained (e # es) = (if he_auto_injected e then retained es else e # retained es)"
  by (simp add: retained_def)

lemma retained_idem [simp]: "retained (retained xs) = retained xs"
  by (simp add: retained_def)

lemma insert_before_last_snoc [simp]: "insert_before_last x (xs @ [y]) = xs @ [x, y]"
  by (simp add: insert_before_last_def)

lemma entry_flags [simp]:
  "\<not> he_auto_injected (entry_from_message msg)" "he_agent (entry_from_message msg) = []"
  "\<not> he_auto_injected (entry_user W c)" "he_agent (entry_user W c) = []"
  "he_auto_injected (auto_injected e)" "he_agent (auto_injected e) = he_agent e"
  by (simp_all add: entry_from_message_def entry_user_def auto_injected_def)

lemma tool_entry_flags [simp]:
  "\<not> he_auto_injected (tool_entry L tc out)" "he_agent (tool_entry L tc out) = []"
  by (simp_all add: tool_entry_def entry_tool_def)

lemma turn_entry_flags [simp]:
  "\<not> he_auto_injected (turn_entry G a c u)" "he_agent (turn_entry G a c u) = []"
  by (simp_all add: turn_entry_def Let_def entry_user_with_sender_def)

definition has_guest :: "history_entry list \<Rightarrow> bool" where
  "has_guest h \<longleftrightarrow> (\<exists>e \<in> set (retained h). he_agent e \<noteq> [])"

definition guest_frame :: "'b engine \<Rightarrow> history_entry list \<Rightarrow> history_entry list" where
  "guest_frame G h =
     (if has_guest h then [auto_injected (entry_user (eg_wire G) guest_note)] else [])"

text \<open>
  A turn starts from the turns so far without what was injected before, the new message
  last, and, where a guest has spoken, one injected note right before it.
\<close>

theorem prepare_history_shape:
  "lv_history (prepare_history G s content sender) =
     retained (lv_history s) @ guest_frame G (lv_history s) @ [turn_entry G (lv_agent s) content sender]"
  by (auto simp: prepare_history_def Let_def guest_frame_def has_guest_def list_ex_iff retained_Cons)

lemma prepare_history_rest:
  "\<exists>h. prepare_history G s content sender = s\<lparr>lv_history := h\<rparr>"
  by (auto simp: prepare_history_def Let_def)

definition injected :: "history_entry list \<Rightarrow> history_entry list" where
  "injected h = filter he_auto_injected h"

definition turn_ready :: "history_entry list \<Rightarrow> bool" where
  "turn_ready h \<longleftrightarrow> length (injected h) \<le> (if has_guest h then 1 else 0)"

lemma length_retained: "length (retained h) + length (injected h) = length h"
  by (induction h) (auto simp: retained_def injected_def)

text \<open>What a run added is found from the length of the history before it: all of it, no more.\<close>

lemma drop_prepared:
  assumes "length fr = 1 \<or> fr = []" and "length (injected h) \<le> length fr" and "retained fr = []"
  shows "retained (drop (length h) (retained h @ fr @ new)) = retained new"
proof -
  have n: "length h - length (retained h) = length (injected h)"
    using length_retained [of h] by simp
  have "drop (length h) (retained h @ fr @ new) = drop (length (injected h)) fr @ new"
    using assms(1,2) length_retained [of h] by (auto simp: n)
  moreover have "retained (drop k fr) = []" for k
    using assms(1,3) by (cases k) (auto simp: length_Suc_conv)
  ultimately show ?thesis by simp
qed

subsection \<open>The two halves of a session\<close>

definition stored_turns :: "history_entry list \<Rightarrow> history_entry list" where
  "stored_turns h = map persisted_entry (retained h)"

lemma stored_turns_append [simp]: "stored_turns (xs @ ys) = stored_turns xs @ stored_turns ys"
  by (simp add: stored_turns_def)

text \<open>The entries after the archive prefix, which is not stored with the turns.\<close>

fun live_turns :: "bytes option \<Rightarrow> history_entry list \<Rightarrow> history_entry list option" where
  "live_turns None h = Some h"
| "live_turns (Some name) [] = None"
| "live_turns (Some name) (p # rest) = (if he_auto_injected p then None else Some rest)"

definition live_rel :: "session_handle \<Rightarrow> session_state \<Rightarrow> live_session \<Rightarrow> bool" where
  "live_rel h S s \<longleftrightarrow>
     (case S of (meta, es, arch) \<Rightarrow>
        lv_handle s = Some h \<and> lv_agent s = sm_agent meta \<and> lv_created_by s = sm_created_by meta \<and>
        lv_created_at_iso s = sm_created_at meta \<and> (lv_summary s = None \<longleftrightarrow> arch = None) \<and>
        map_option stored_turns (live_turns arch (lv_history s)) = Some es)"

lemma live_rel_history:
  assumes "live_rel h (meta, es, arch) s"
  shows "\<exists>pre rest. lv_history s = pre @ rest \<and> retained pre = pre \<and> es = stored_turns rest \<and>
    length pre = (if arch = None then 0 else 1)"
proof (cases arch)
  case None
  then show ?thesis using assms
    by (intro exI [of _ "[]"] exI [of _ "lv_history s"]) (auto simp: live_rel_def)
next
  case (Some name)
  then obtain p rest where "lv_history s = p # rest" "\<not> he_auto_injected p" "es = stored_turns rest"
    using assms by (cases "lv_history s") (auto simp: live_rel_def split: if_splits)
  then show ?thesis using Some by (intro exI [of _ "[p]"] exI [of _ rest]) (simp add: retained_Cons)
qed

text \<open>What a turn leaves, on the stored side: the new turns after the old, the metadata the session's.\<close>

lemma finalize_run_inv:
  assumes ok: "session_env_ok (eg_sessions G)" and inv: "sessions_inv (eg_sessions G) m A"
    and A: "A h = Some (meta, es, arch)"
    and s: "lv_handle s = Some h" "lv_agent s = sm_agent meta" "lv_created_by s = sm_created_by meta"
      "lv_created_at_iso s = sm_created_at meta"
    and pre: "pre_run_len \<le> length (lv_history s)"
    and new: "new = retained (drop pre_run_len (lv_history s))"
    and room: "length es + length new \<le> MAX_MESSAGES"
  shows "\<exists>m' meta'. finalize_run G m s pre_run_len trace now now' = Some m' \<and>
    sessions_inv (eg_sessions G) m' (A(h \<mapsto> (meta', es @ map persisted_entry new, arch))) \<and>
    meta' = (meta_of s now')\<lparr>sm_message_count := length es + length new\<rparr>"
proof -
  let ?E = "eg_sessions G"
  have ae: "session_cmd_ok A (AppendMessages h new now)" using A room by simp
  obtain m1 where m1: "append_session_messages ?E m h new now = Inr m1"
    "sessions_inv ?E m1 (session_spec A (AppendMessages h new now))"
    using session_cmd_inv [OF ok inv ae] by auto
  have "sm_message_count meta = length es"
    using inv_rel [OF inv A] by (simp add: session_rel_def)
  then obtain meta1 where A1: "session_spec A (AppendMessages h new now) = A(h \<mapsto> (meta1, es @ map persisted_entry new, arch))"
    and meta1: "sm_agent meta1 = sm_agent meta" "sm_created_by meta1 = sm_created_by meta"
      "sm_created_at meta1 = sm_created_at meta" "sm_message_count meta1 = length es + length new"
  proof (cases "new = []")
    case True
    then have "session_spec A (AppendMessages h new now) = A(h \<mapsto> (meta, es @ map persisted_entry new, arch))"
      using A by (simp add: fun_upd_idem)
    then show ?thesis using that [of meta] True \<open>sm_message_count meta = length es\<close> by simp
  next
    case False
    then have "session_spec A (AppendMessages h new now) =
        A(h \<mapsto> (meta\<lparr>sm_message_count := length es + length new, sm_updated_at := now\<rparr>,
          es @ map persisted_entry new, arch))"
      using A by simp
    then show ?thesis using that by fastforce
  qed
  let ?A1 = "A(h \<mapsto> (meta1, es @ map persisted_entry new, arch))"
  define m2 where "m2 = (if trace = [] then m1 else append_session_events ?E m1 h trace)"
  have inv1: "sessions_inv ?E m1 ?A1" using m1(2) unfolding A1 .
  have inv2: "sessions_inv ?E m2 ?A1"
    using inv1 append_events_inv [OF inv1, of h] by (auto simp: m2_def append_session_events_def)
  have "session_index_key ?E (meta_of s now') h = session_index_key ?E meta1 h"
    using s meta1 by (simp add: session_index_key_def meta_of_def)
  then obtain m3 where m3: "update_session_meta ?E m2 h (meta_of s now') = Inr m3"
    "sessions_inv ?E m3 (?A1(h \<mapsto> ((meta_of s now')\<lparr>sm_message_count := sm_message_count meta1\<rparr>,
       es @ map persisted_entry new, arch)))"
    using update_meta_inv [OF ok inv2, of h meta1 "es @ map persisted_entry new" arch "meta_of s now'"] by auto
  have "finalize_run G m s pre_run_len trace now now' = Some m3"
    using pre s(1) m1(1) m3(1)
    by (cases "trace = []") (simp_all add: finalize_run_def Let_def new [symmetric] m2_def)
  then show ?thesis using m3(2) meta1(4) by auto
qed

subsection \<open>A turn\<close>

lemma guest_frame_facts:
  "length (guest_frame G h) = (if has_guest h then 1 else 0)" "retained (guest_frame G h) = []"
  by (simp_all add: guest_frame_def retained_Cons)

lemma live_turns_retained:
  assumes "live_turns arch h = Some rest" and "\<not> he_auto_injected u"
  shows "\<exists>rest'. live_turns arch (retained h @ fr @ u # new) = Some rest' \<and>
    retained rest' = retained rest @ retained (fr @ u # new)"
  using assms by (cases arch; cases h) (auto simp: retained_Cons split: if_splits)

lemma run_history:
  assumes "world_ok W"
  shows "\<exists>evs r new. run L A session choice W h = (evs @ [Done r], h @ new, r) \<and>
    run_stream L A session choice W h = (evs @ [Done r], h @ new, Some r) \<and>
    \<not> list_ex is_done evs \<and> retained new = new \<and> (\<forall>e \<in> set new. he_agent e = [])"
proof -
  obtain evs h' r where r: "run_stream L A session choice W h = (evs, h', Some r)"
    "run_shape L (ag_max_iterations (ar_config A)) h [] evs h' r"
    unfolding run_stream_def using run_rounds_shape [OF assms] by blast
  from r(2) obtain evs' more tl where sh: "evs = evs' @ [Done r]" "quiet evs'"
    "h' = h @ concat (map step_entries more) @ tl"
    "tl = [] \<or> cancelled_text L tl" "list_all (step_ok L) more"
    unfolding run_shape_def by auto
  let ?new = "concat (map step_entries more) @ tl"
  have plain: "\<not> he_auto_injected e \<and> he_agent e = []" if "e \<in> set ?new" for e
  proof -
    from that consider st where "st \<in> set more" "e \<in> set (step_entries st)" | "e \<in> set tl" by auto
    then show ?thesis
    proof cases
      case (1 st)
      then have "step_ok L st" using sh(5) by (simp add: list_all_iff)
      then have "\<exists>tc out. x = tool_entry L tc out" if "x \<in> set (st_tool_results st)" for x
        using that by (auto simp: step_ok_def list_all2_conv_all_nth in_set_conv_nth) blast
      with 1(2) show ?thesis by (auto simp: step_entries_def) fastforce+
    next
      case 2
      then show ?thesis using sh(4) by (auto simp: cancelled_text_def)
    qed
  qed
  then have "retained ?new = ?new" unfolding retained_def by (intro filter_True) blast
  moreover have "\<not> list_ex is_done evs'" using sh(2) by (simp add: quiet_def)
  moreover have "run L A session choice W h = (evs' @ [Done r], h @ ?new, r)"
    using r(1) sh(1,3) last_done_quiet calculation(2) by (simp add: run_def)
  ultimately show ?thesis using r(1) sh(1,3) plain by blast
qed

text \<open>The session after a run over the prepared history, before its tail is stored.\<close>

lemma turn_inv:
  assumes ok: "session_env_ok (eg_sessions G)" and inv: "sessions_inv (eg_sessions G) m A"
    and A: "A h = Some (meta, es, arch)" and live: "live_rel h (meta, es, arch) s"
    and ready: "turn_ready (lv_history s)"
    and new: "retained new = new" "\<forall>e \<in> set new. he_agent e = []"
    and s2: "s2 = (prepare_history G s content sender)\<lparr>lv_history :=
      lv_history (prepare_history G s content sender) @ new\<rparr>"
    and room: "length es + 1 + length new \<le> MAX_MESSAGES"
  shows "\<exists>m' meta'. finalize_run G m s2 (length (lv_history s)) trace now now' = Some m' \<and>
    sessions_inv (eg_sessions G) m' (A(h \<mapsto>
      (meta', es @ map persisted_entry (turn_entry G (lv_agent s) content sender # new), arch))) \<and>
    live_rel h (meta', es @ map persisted_entry (turn_entry G (lv_agent s) content sender # new), arch) s2 \<and>
    turn_ready (lv_history s2)"
proof -
  let ?u = "turn_entry G (lv_agent s) content sender" and ?fr = "guest_frame G (lv_history s)"
  let ?h = "lv_history s"
  have h2: "lv_history s2 = retained ?h @ ?fr @ [?u] @ new"
    by (simp add: s2 prepare_history_shape)
  obtain hh where s2': "s2 = s\<lparr>lv_history := hh\<rparr>"
    using prepare_history_rest [of G s content sender] s2 by auto
  then have hh: "hh = retained ?h @ ?fr @ ?u # new" using h2 by simp
  have fr: "length ?fr = 1 \<or> ?fr = []" "length (injected ?h) \<le> length ?fr" "retained ?fr = []"
    using guest_frame_facts [of G ?h] ready by (auto simp: turn_ready_def)
  have d: "?u # new = retained (drop (length ?h) (lv_history s2))"
    using drop_prepared [OF fr, of "[?u] @ new"] new(1) by (simp add: h2 retained_Cons)
  have len: "length ?h \<le> length (lv_history s2)"
    using length_retained [of ?h] fr(2) by (simp add: h2)
  have L: "lv_handle s2 = Some h" "lv_agent s2 = sm_agent meta" "lv_created_by s2 = sm_created_by meta"
    "lv_created_at_iso s2 = sm_created_at meta"
    using live by (simp_all add: s2' live_rel_def)
  have rm: "length es + length (?u # new) \<le> MAX_MESSAGES" using room by simp
  obtain m' meta' where m': "finalize_run G m s2 (length ?h) trace now now' = Some m'"
    "sessions_inv (eg_sessions G) m' (A(h \<mapsto> (meta', es @ map persisted_entry (?u # new), arch)))"
    "meta' = (meta_of s2 now')\<lparr>sm_message_count := length es + length (?u # new)\<rparr>"
    using finalize_run_inv [OF ok inv A L len d rm] by blast
  obtain rest where rest: "live_turns arch ?h = Some rest" "es = stored_turns rest"
    using live by (auto simp: live_rel_def)
  obtain rest' where rest': "live_turns arch (retained ?h @ ?fr @ ?u # new) = Some rest'"
    "retained rest' = retained rest @ retained (?fr @ ?u # new)"
    using live_turns_retained [OF rest(1)] by (metis turn_entry_flags(1))
  have "stored_turns rest' = es @ map persisted_entry (?u # new)"
    using rest' rest(2) fr(3) new(1) by (simp add: stored_turns_def retained_Cons)
  then have "live_rel h (meta', es @ map persisted_entry (?u # new), arch) s2"
    using rest'(1) L live hh by (simp add: live_rel_def m'(3) meta_of_def s2')
  moreover have "turn_ready (lv_history s2)"
  proof -
    have "injected (retained xs) = []" for xs by (induction xs) (auto simp: injected_def retained_def)
    then have "injected (lv_history s2) = injected ?fr"
      using new(1) by (simp add: h2 injected_def) (metis filter_append)
    moreover have "has_guest (lv_history s2) = has_guest ?h"
      using new fr(3) by (auto simp: has_guest_def h2 retained_Cons)
    moreover have "injected ?fr = ?fr" by (simp add: guest_frame_def injected_def)
    ultimately show ?thesis using guest_frame_facts(1) [of G ?h] by (simp add: turn_ready_def)
  qed
  ultimately show ?thesis using m' by blast
qed

lemma filter_not_done: "\<not> list_ex is_done evs \<Longrightarrow> filter (\<lambda>ev. \<not> is_done ev) (evs @ [Done r]) = evs"
  by (induction evs) auto

text \<open>
  C11: A turn on a session in step with the store leaves it in step: the new message and all the
  run added are stored after the turns there were, the archive pointer is as it was, every other
  session is untouched. The streamed turn stores the same and ends its events in the same response.
  This is of a registered agent, of turns that fit the numbering of the store, of rounds whose
  calls all end or are cancelled, and of a live history with no injected message, or one at most
  where a guest has spoken, as turns leave it: the turn finds what the run added by the length
  before it, and with more of them injected it would miss the message.
\<close>

theorem turn_stays_in_step:
  assumes "session_env_ok (eg_sessions G)" and "sessions_inv (eg_sessions G) m A"
    and "A h = Some (meta, es, arch)" and "live_rel h (meta, es, arch) s" and "turn_ready (lv_history s)"
    and "world_ok W" and "resolve_agent G m (lv_agent s) = Some B"
    and "length es + length (lv_history (fst (snd (send_to G m s content sender choice extra W now now')))) \<le> MAX_MESSAGES"
  shows "\<exists>r s2 m' meta' new evs.
    send_to G m s content sender choice extra W now now' = (Inr r, s2, Some m') \<and>
    stream_to G m s content sender choice extra W now now' = (evs @ [Done r], s2, Some m') \<and>
    \<not> list_ex is_done evs \<and>
    sessions_inv (eg_sessions G) m' (A(h \<mapsto> (meta', es @ new, arch))) \<and>
    live_rel h (meta', es @ new, arch) s2 \<and> turn_ready (lv_history s2) \<and>
    hd new = persisted_entry (turn_entry G (lv_agent s) content sender)"
proof -
  let ?s1 = "prepare_history G s content sender"
  obtain evs r new where run:
    "run (eg_llm G) (extend_tools B extra) (Some (ref_of ?s1)) choice W (lv_history ?s1) = (evs @ [Done r], lv_history ?s1 @ new, r)"
    "run_stream (eg_llm G) (extend_tools B extra) (Some (ref_of ?s1)) choice W (lv_history ?s1) =
       (evs @ [Done r], lv_history ?s1 @ new, Some r)"
    "\<not> list_ex is_done evs" "retained new = new" "\<forall>e \<in> set new. he_agent e = []"
    using run_history [OF assms(6)] by blast
  define s2 where "s2 = ?s1\<lparr>lv_history := lv_history ?s1 @ new\<rparr>"
  define fin where "fin = finalize_run G m s2 (length (lv_history s)) (trace_of G now (evs @ [Done r])) now now'"
  have send: "send_to G m s content sender choice extra W now now' = (Inr r, s2, fin)"
    using run(1) assms(7) by (simp add: send_to_def Let_def s2_def fin_def)
  have stream: "stream_to G m s content sender choice extra W now now' = (evs @ [Done r], s2, fin)"
    using run(2) assms(7) filter_not_done [OF run(3)] last_done_quiet [OF run(3)]
    by (simp add: stream_to_def Let_def s2_def fin_def)
  have room: "length es + 1 + length new \<le> MAX_MESSAGES"
    using assms(8) by (simp add: send s2_def prepare_history_shape)
  obtain m' meta' where m': "fin = Some m'"
    "sessions_inv (eg_sessions G) m' (A(h \<mapsto>
      (meta', es @ map persisted_entry (turn_entry G (lv_agent s) content sender # new), arch)))"
    "live_rel h (meta', es @ map persisted_entry (turn_entry G (lv_agent s) content sender # new), arch) s2"
    "turn_ready (lv_history s2)"
    unfolding fin_def using turn_inv [OF assms(1-5) run(4,5) s2_def room] by blast
  show ?thesis
    using send stream run(3) m' by (intro exI [of _ r] exI [of _ s2] exI [of _ m'] exI [of _ meta']
      exI [of _ "map persisted_entry (turn_entry G (lv_agent s) content sender # new)"] exI [of _ evs]) simp
qed

subsection \<open>Rewinding\<close>

lemma find_boundary_Some:
  assumes "find_boundary turns seen xs = Some i"
  shows "\<exists>ys e zs. xs = ys @ (i, e) # zs \<and> opens_turn e \<and>
    seen + length (filter (\<lambda>(_, e). opens_turn e) ys) + 1 = turns"
  using assms
proof (induction turns seen xs rule: find_boundary.induct)
  case (2 turns seen i' e rest)
  show ?case
  proof (cases "opens_turn e")
    case True
    show ?thesis
    proof (cases "seen + 1 = turns")
      case True
      then show ?thesis using 2 \<open>opens_turn e\<close> by (intro exI [of _ "[]"]) auto
    next
      case False
      then obtain ys e' zs where "rest = ys @ (i, e') # zs" "opens_turn e'"
        "seen + 1 + length (filter (\<lambda>(_, e). opens_turn e) ys) + 1 = turns"
        using 2 True by auto
      then show ?thesis using True by (intro exI [of _ "(i', e) # ys"]) auto
    qed
  next
    case False
    then obtain ys e' zs where "rest = ys @ (i, e') # zs" "opens_turn e'"
        "seen + length (filter (\<lambda>(_, e). opens_turn e) ys) + 1 = turns"
      using 2 by auto
    then show ?thesis using False by (intro exI [of _ "(i', e) # ys"]) auto
  qed
qed simp

lemma find_boundary_None:
  assumes "find_boundary turns seen xs = None" and "seen < turns"
  shows "seen + length (filter (\<lambda>(_, e). opens_turn e) xs) < turns"
  using assms
  by (induction turns seen xs rule: find_boundary.induct) (auto split: if_splits)

lemma length_filter_enumerate: "length (filter (\<lambda>(_, e). P e) (enumerate n xs)) = length (filter P xs)"
  by (induction xs arbitrary: n) auto

text \<open>
  A rewind finds the position where the last \<open>turns\<close> turns begin: what follows it opens
  exactly that many, and it finds none exactly when the history has fewer.
\<close>

theorem turn_boundary_exact:
  assumes "0 < turns"
  shows "(turn_boundary turns h = Some b \<longrightarrow>
      b < length h \<and> opens_turn (h ! b) \<and> length (filter opens_turn (drop b h)) = turns) \<and>
    (turn_boundary turns h = None \<longleftrightarrow> length (filter opens_turn h) < turns)"
proof -
  let ?n = "\<lambda>xs. length (filter (\<lambda>(_, e). opens_turn e) xs)"
  have some: "b < length h \<and> opens_turn (h ! b) \<and> length (filter opens_turn (drop b h)) = turns"
    if "turn_boundary turns h = Some b" for b
  proof -
    have fb: "find_boundary turns 0 (rev (enumerate 0 h)) = Some b"
      using that by (simp add: turn_boundary_def)
    obtain ys e zs where d: "rev (enumerate 0 h) = ys @ (b, e) # zs" "opens_turn e" "?n ys + 1 = turns"
      using find_boundary_Some [OF fb] by auto
    then have en: "enumerate 0 h = rev zs @ (b, e) # rev ys"
      by (metis rev_append rev_rev_ident rev.simps(2) append_assoc append.simps)
    then have "enumerate 0 h ! length zs = (b, e)" "length zs < length (enumerate 0 h)"
      by (simp_all add: nth_append)
    then have b: "b = length zs" "e = h ! b" "b < length h"
      by (auto simp: nth_enumerate_eq)
    have "map snd (drop b (enumerate 0 h)) = e # map snd (rev ys)"
      using b(1) by (simp add: en)
    then have "drop b h = e # map snd (rev ys)" by (simp add: drop_map [symmetric])
    then have "length (filter opens_turn (drop b h)) = 1 + length (filter opens_turn (map snd (rev ys)))"
      using d(2) by simp
    also have "length (filter opens_turn (map snd (rev ys))) = ?n ys"
      by (simp add: filter_map comp_def case_prod_unfold rev_filter [symmetric])
    finally show ?thesis using b d(2,3) by simp
  qed
  moreover have "length (filter opens_turn h) < turns" if "turn_boundary turns h = None"
  proof -
    have "?n (rev (enumerate 0 h)) < turns"
      using find_boundary_None [OF that [unfolded turn_boundary_def] assms] by simp
    then show ?thesis by (simp add: rev_filter [symmetric] length_filter_enumerate)
  qed
  moreover have "turns \<le> length (filter opens_turn h)" if "turn_boundary turns h = Some b" for b
  proof -
    have "length (filter opens_turn (drop b h)) \<le> length (filter opens_turn h)"
      using arg_cong [OF append_take_drop_id [of b h], of "\<lambda>xs. length (filter opens_turn xs)"]
      by (simp del: append_take_drop_id)
    then show ?thesis using some [OF that] by simp
  qed
  ultimately show ?thesis by (cases "turn_boundary turns h") force+
qed

lemma take_retained: "take (length (retained (take k xs))) (retained xs) = retained (take k xs)"
proof -
  have "retained xs = retained (take k xs) @ retained (drop k xs)"
    unfolding retained_append [symmetric] by simp
  then show ?thesis by (metis append_eq_conv_conj)
qed

text \<open>
  A rewind to a turn after the archive prefix drops the last turns from the session and from
  the store alike: both keep exactly what came before the boundary.
\<close>

theorem truncate_stays_in_step:
  assumes "session_env_ok (eg_sessions G)" and "sessions_inv (eg_sessions G) m A"
    and "A h = Some (meta, es, arch)" and "live_rel h (meta, es, arch) s"
    and "turn_boundary turns (lv_history s) = Some b" and "arch = None \<or> 0 < b"
  shows "\<exists>m' s' meta' keep. truncate_session G m s turns = (Inr b, s', m') \<and>
    lv_history s' = take b (lv_history s) \<and>
    sessions_inv (eg_sessions G) m' (A(h \<mapsto> (meta', take keep es, arch))) \<and>
    live_rel h (meta', take keep es, arch) s'"
proof -
  obtain pre rest where pr: "lv_history s = pre @ rest" "retained pre = pre" "es = stored_turns rest"
    "length pre = (if arch = None then 0 else 1)"
    using live_rel_history [OF assms(4)] by blast
  have "0 < turns"
    using find_boundary_Some [of turns 0 "rev (enumerate 0 (lv_history s))" b] assms(5)
    by (auto simp: turn_boundary_def)
  then have b: "b < length (lv_history s)" using turn_boundary_exact assms(5) by blast
  have L: "lv_handle s = Some h" "lv_summary s = None \<longleftrightarrow> arch = None"
    using assms(4) by (simp_all add: live_rel_def)
  let ?off = "if lv_summary s = None then 0 else 1 :: nat"
  let ?rest = "take (b - length pre) rest"
  have off: "?off = length pre" using L(2) pr(4) by simp
  have le: "length pre \<le> b" using assms(6) pr(4) by auto
  have tk: "take b (lv_history s) = pre @ ?rest" using pr(1) le by simp
  define keep where "keep = length (retained ?rest)"
  have keep: "length (retained (drop ?off (take b (lv_history s)))) = keep"
    unfolding off tk keep_def by simp
  have T: "session_cmd_ok A (Truncate h keep)" using assms(3) by simp
  obtain m' where m': "truncate_session_messages (eg_sessions G) m h keep = Inr m'"
    "sessions_inv (eg_sessions G) m' (session_spec A (Truncate h keep))"
    using session_cmd_inv [OF assms(1,2) T] by auto
  let ?s' = "s\<lparr>lv_history := take b (lv_history s)\<rparr>"
  let ?meta' = "meta\<lparr>sm_message_count := min keep (length es)\<rparr>"
  have "truncate_session G m s turns = (Inr b, ?s', m')"
    using assms(5) L(1) m'(1) keep b le off unfolding truncate_session_def Let_def by simp
  moreover have "sessions_inv (eg_sessions G) m' (A(h \<mapsto> (?meta', take keep es, arch)))"
    using m'(2) assms(3) by simp
  moreover have "take keep es = stored_turns ?rest"
    unfolding keep_def pr(3) stored_turns_def take_map take_retained ..
  then have "live_rel h (?meta', take keep es, arch) ?s'"
    using assms(4) pr(1,2,4) le
    by (cases arch; cases pre; cases b) (auto simp: live_rel_def tk retained_Cons split: if_splits)
  ultimately show ?thesis by (intro exI [of _ m'] exI [of _ ?s'] exI [of _ ?meta'] exI [of _ keep]) simp
qed

text \<open>
  Where every entry after the archive prefix is rewound and the prefix itself counts as a turn,
  the slice that skips it is out of range.
\<close>

theorem truncate_into_archive_panics:
  assumes "lv_handle s = Some h" and "lv_summary s \<noteq> None"
    and "turn_boundary turns (lv_history s) = Some 0"
  shows "fst (truncate_session G m s turns) = Inl EnginePanic"
  using assms by (auto simp: truncate_session_def Let_def)

text \<open>
  A guest whose answer breaks off leaves its framing in the session, with no guest entry that
  would renew it: what the next turn stores is only what its run added, not the message.
\<close>

theorem broken_guest_turn_loses_message:
  assumes "injected (lv_history s) = []" and "\<not> has_guest (lv_history s)"
    and "s1 = prepare_guest G m s content sender"
  shows "retained (drop (length (lv_history s1)) (lv_history (prepare_history G s1 content' sender') @ new)) =
    retained new"
proof -
  have r: "retained (lv_history s) = lv_history s"
    using assms(1) by (auto simp: retained_def injected_def filter_empty_conv intro!: filter_True)
  have h1: "lv_history s1 = lv_history s @
      [auto_injected (entry_system (eg_wire G) (guest_framing (agent_label G m (lv_agent s)))),
       turn_entry G (lv_agent s) content sender]"
    unfolding assms(3) prepare_guest_def by (simp add: r retained_Cons)
  have "\<not> has_guest (lv_history s1)"
    using assms(2) by (auto simp: has_guest_def h1 r retained_Cons)
  then have "lv_history (prepare_history G s1 content' sender') = lv_history s @
      [turn_entry G (lv_agent s) content sender, turn_entry G (lv_agent s1) content' sender']"
    by (simp add: prepare_history_shape guest_frame_def h1 r retained_Cons)
  then show ?thesis by (simp add: h1)
qed

subsection \<open>Compaction\<close>

text \<open>Memory shares the text index of the sessions, and its codec reads back what it writes.\<close>

definition engine_memory_ok :: "'b engine \<Rightarrow> bool" where
  "engine_memory_ok G \<longleftrightarrow>
     mm_text (eg_memory G) = se_text (eg_sessions G) \<and> codec_ok id (mm_codec (eg_memory G))"

lemma sessions_inv_other:
  assumes "sessions_inv E m A" and "store_ok E m'" and "\<And>k. kv_get m' Session k = kv_get m Session k"
  shows "sessions_inv E m' A"
  using assms session_rel_cong [of E m _ _ m'] unfolding sessions_inv_def by simp

lemma put_memory_inv:
  assumes ok: "session_env_ok (eg_sessions G)" "engine_memory_ok G"
    and inv: "sessions_inv (eg_sessions G) m A" and put: "put_memory (eg_memory G) m e = Inr m'"
  shows "sessions_inv (eg_sessions G) m' A \<and> memory (eg_memory G) m' (me_name e) = Inr (Some e) \<and>
    (\<forall>k. kv_get m' Agent k = kv_get m Agent k)"
proof -
  let ?M = "eg_memory G"
  let ?k = "memory_key (me_name e)"
  let ?m1 = "put_json (mm_codec ?M) m Memory ?k e"
  have ix: "index_text (mm_unicode ?M) (mm_text ?M) ?m1 MemoryEntries ?k (memory_text e) 1 = Inr m'"
    using put by (simp add: put_memory_def Let_def)
  have st: "store_ok (eg_sessions G) m" by (rule inv_store [OF inv])
  have "store_ok (eg_sessions G) m'"
  proof -
    have cod: "codecs_ok (mm_text ?M)" using ok by (simp add: session_env_ok_def engine_memory_ok_def)
    have m1: "text_readable (mm_text ?M) ?m1" "bt_ok ?m1"
      using st ok(2) by (simp_all add: store_ok_def engine_memory_ok_def)
    obtain n where "index_text (mm_unicode ?M) (mm_text ?M) ?m1 MemoryEntries ?k (memory_text e) 1 = Inr n"
      "text_readable (mm_text ?M) n"
      using index_text_total [OF cod m1(1)] by blast
    then have "text_readable (mm_text ?M) m'" using ix by simp
    then show ?thesis
      using index_text_ok [OF ix m1(2)] ok(2) by (simp add: store_ok_def engine_memory_ok_def)
  qed
  moreover have "kv_get m' Session k = kv_get m Session k" "kv_get m' Agent k = kv_get m Agent k" for k
    using index_text_other [OF ix] by simp_all
  moreover have "get_json (mm_codec ?M) m' Memory ?k = get_json (mm_codec ?M) ?m1 Memory ?k"
    by (rule get_json_cong) (rule index_text_other [OF ix], simp)
  moreover have "get_json (mm_codec ?M) ?m1 Memory ?k = Inr (Some e)"
    using get_json_put [of id "mm_codec ?M"] ok(2) by (simp add: engine_memory_ok_def)
  ultimately show ?thesis
    using sessions_inv_other [OF inv] by (simp add: memory_def)
qed

lemma memory_only_session:
  assumes "only_session h m m'"
  shows "memory M m' name = memory M m name"
  unfolding memory_def using assms by (intro get_json_cong) (simp add: only_session_def)

lemma engine_agent_cong:
  assumes "\<And>k. kv_get m' Agent k = kv_get m Agent k"
  shows "engine_agent G m' i = engine_agent G m i"
proof -
  have "load_agent (eg_agents G) m' i = load_agent (eg_agents G) m i"
    unfolding load_agent_def by (rule get_json_cong) (rule assms)
  then show ?thesis by (simp add: engine_agent_def)
qed

lemma compact_session_parts:
  assumes "compact_session G m s prompt sent now now' = Some (Some summary, s', m')"
  shows "\<exists>h name m1 m2. lv_handle s = Some h \<and> has_agent G m (lv_agent s) \<and>
    write_archive G m h summary now = Some (Some name, m1) \<and>
    append_session_compact (eg_sessions G) m1 h name = Inr m2 \<and>
    s' = s\<lparr>lv_history := [entry_user (eg_wire G) summary], lv_summary := Some summary\<rparr> \<and>
    m' = ignore_error m2 (update_session_meta (eg_sessions G) m2 h (meta_of s' now'))"
  using assms unfolding compact_session_def
  by (auto simp: Let_def resolve_agent_def has_agent_def split: if_splits option.splits prod.splits sum.splits)

text \<open>
  C12: A compaction that succeeds on a session in step with the store leaves the summary as the one
  entry of the session, a user message; the summary is kept in the memory the session's archive
  names, the store holds no turns, the two are in step, and loading the session afresh gives back
  the very same history.
\<close>

theorem compaction_resumes:
  assumes "session_env_ok (eg_sessions G)" and "engine_memory_ok G"
    and "sessions_inv (eg_sessions G) m A" and "A h = Some (meta, es, arch)"
    and "live_rel h (meta, es, arch) s"
    and "compact_session G m s prompt sent now now' = Some (Some summary, s', m')"
  shows "\<exists>name meta' live e. sessions_inv (eg_sessions G) m' (A(h \<mapsto> (meta', [], Some name))) \<and>
    live_rel h (meta', [], Some name) s' \<and>
    lv_history s' = [entry_user (eg_wire G) summary] \<and> lv_summary s' = Some summary \<and>
    memory (eg_memory G) m' name = Inr (Some e) \<and> me_content e = summary \<and>
    load G m' h i clock t = Inr (Some live) \<and>
    lv_history live = [entry_user (eg_wire G) summary] \<and> lv_summary live = Some summary"
proof -
  let ?E = "eg_sessions G"
  have s: "lv_handle s = Some h" "lv_agent s = sm_agent meta" "lv_created_by s = sm_created_by meta"
    "lv_created_at_iso s = sm_created_at meta"
    using assms(5) by (simp_all add: live_rel_def)
  obtain name m1 m2 where c: "has_agent G m (lv_agent s)" "write_archive G m h summary now = Some (Some name, m1)"
    "append_session_compact ?E m1 h name = Inr m2"
    "s' = s\<lparr>lv_history := [entry_user (eg_wire G) summary], lv_summary := Some summary\<rparr>"
    "m' = ignore_error m2 (update_session_meta ?E m2 h (meta_of s' now'))"
    using compact_session_parts [OF assms(6)] s(1) by auto
  obtain e where e: "put_memory (eg_memory G) m e = Inr m1" "me_name e = name" "me_content e = summary"
    using c(2) by (auto simp: write_archive_def Let_def split: option.splits sum.splits)
  have m1: "sessions_inv ?E m1 A" "memory (eg_memory G) m1 name = Inr (Some e)"
    "\<And>k. kv_get m1 Agent k = kv_get m Agent k"
    using put_memory_inv [OF assms(1-3) e(1)] e(2) by simp_all
  let ?meta2 = "meta\<lparr>sm_message_count := 0\<rparr>"
  have cr: "only_session h m1 m2" "sessions_inv ?E m2 (A(h \<mapsto> (?meta2, [], Some name)))"
  proof -
    obtain n where "append_session_compact ?E m1 h name = Inr n" "only_session h m1 n"
      using compact_rel [OF assms(1) inv_store [OF m1(1)] inv_rel [OF m1(1) assms(4)]] by blast
    then show "only_session h m1 m2" using c(3) by simp
    show "sessions_inv ?E m2 (A(h \<mapsto> (?meta2, [], Some name)))"
      using session_cmd_inv [OF assms(1) m1(1), of "Compact h name"] c(3) assms(4) by simp
  qed
  have "session_index_key ?E (meta_of s' now') h = session_index_key ?E ?meta2 h"
    using s by (simp add: session_index_key_def meta_of_def c(4))
  then obtain m3 where m3: "update_session_meta ?E m2 h (meta_of s' now') = Inr m3" "only_session h m2 m3"
    "sessions_inv ?E m3 ((A(h \<mapsto> (?meta2, [], Some name)))(h \<mapsto>
       ((meta_of s' now')\<lparr>sm_message_count := sm_message_count ?meta2\<rparr>, [], Some name)))"
    using update_meta_inv [OF assms(1) cr(2), of h ?meta2 "[]" "Some name" "meta_of s' now'"] by auto
  let ?meta3 = "(meta_of s' now')\<lparr>sm_message_count := 0\<rparr>"
  have inv3: "sessions_inv ?E m3 (A(h \<mapsto> (?meta3, [], Some name)))" using m3(3) by simp
  have m': "m' = m3" using c(5) m3(1) by simp
  have mem: "memory (eg_memory G) m3 name = Inr (Some e)"
    using m1(2) memory_only_session [OF cr(1)] memory_only_session [OF m3(2)] by simp
  have "kv_get m3 Agent k = kv_get m Agent k" for k
    using m1(3) [of k] cr(1) m3(2) by (simp add: only_session_def)
  then have ag: "has_agent G m3 (lv_agent s)"
    using c(1) engine_agent_cong [of m3 m G] by (simp add: has_agent_def)
  have "load_session ?E m3 h = Inr (Some \<lparr>ss_meta = ?meta3, ss_history = [], ss_archive = Some name\<rparr>)"
    using load_session_rel [OF _ inv_rel [OF inv3]] inv_store [OF inv3] by (simp add: store_ok_def)
  then have "\<exists>live. load G m3 h i clock t = Inr (Some live) \<and>
      lv_history live = [entry_user (eg_wire G) summary] \<and> lv_summary live = Some summary"
    using ag mem e(3) by (simp add: load_def Let_def meta_of_def c(4) resumed_history_def)
  moreover have "live_rel h (?meta3, [], Some name) s'"
    using s by (simp add: live_rel_def c(4) meta_of_def stored_turns_def)
  ultimately show ?thesis using inv3 mem e(3) unfolding m'
    by (intro exI [of _ name] exI [of _ ?meta3]) (auto simp: c(4))
qed

subsection \<open>A concrete engine\<close>

definition sample_engine :: "(bytes \<times> tool_call list) engine" where
  "sample_engine =
     \<lparr>eg_llm = sample_llm, eg_sessions = sample_session_env, eg_memory = sample_memory, eg_tools = [],
      eg_dispatcher = no_dispatcher, eg_preprocess = (\<lambda>_ _. None), eg_on_build = id,
      eg_seconds = (\<lambda>_ _. None)\<rparr>"

lemma sample_engine_simps [simp]:
  "eg_llm sample_engine = sample_llm" "eg_sessions sample_engine = sample_session_env"
  "eg_memory sample_engine = sample_memory" "l_wire sample_llm = text_wire"
  "eg_tools sample_engine = []" "eg_dispatcher sample_engine = no_dispatcher" "eg_on_build sample_engine = id"
  by (simp_all add: sample_engine_def sample_llm_def)

definition two_turns :: "history_entry list" where
  "two_turns = [entry_user text_wire ''hi'', entry_user text_wire ''ho'']"

text \<open>A store with one agent and one session of two turns, and that session live.\<close>

definition sample_live :: live_session where
  "sample_live =
     (session_new 1 7 ''me'' 0 ''t0'')\<lparr>lv_history := two_turns, lv_handle := Some ''s1''\<rparr>"

lemma sample_store:
  "\<exists>m meta. sessions_inv sample_session_env m [''s1'' \<mapsto> (meta, two_turns, None)] \<and>
     live_rel ''s1'' (meta, two_turns, None) sample_live \<and>
     engine_agent sample_engine m 7 = Some (sample_config 7 ''crab'') \<and>
     (\<forall>k. kv_get m Memory k = None)"
proof -
  let ?E = sample_session_env
  let ?ak = "agent_key (se_agents ?E) 7"
  let ?m0 = "put_json (ae_codec (se_agents ?E)) [] Agent ?ak (sample_config 7 ''crab'')"
  let ?meta = "\<lparr>sm_agent = 7, sm_created_by = ''me'', sm_created_at = ''t0'', sm_title = [],
       sm_updated_at = ''t0'', sm_message_count = 0, sm_summary = None, sm_root = None\<rparr>"
  have h: "handle_ok ''s1''"
    by (simp add: handle_ok_def slash_free_def valid_utf8_ascii is_ascii_def byte_val_def)
  have "store_ok ?E ?m0" using inv_store [OF empty_sessions, of ?E] by (simp add: store_ok_def)
  then have i0: "sessions_inv ?E ?m0 Map.empty" by (rule sessions_inv_other [OF empty_sessions]) simp
  define m1 where "m1 = create_session ?E ?m0 ''s1'' 7 ''me'' None ''t0''"
  have i1: "sessions_inv ?E m1 [''s1'' \<mapsto> (?meta, [], None)]"
    unfolding m1_def using create_inv [OF sample_session_env_ok i0 h] by simp
  have p: "map persisted_entry two_turns = two_turns"
    by (simp add: persisted_entry_def two_turns_def entry_user_def entry_from_message_def)
  obtain m2 where m2: "append_session_messages ?E m1 ''s1'' two_turns ''t1'' = Inr m2" "only_session ''s1'' m1 m2"
    using append_rel [OF sample_session_env_ok inv_store [OF i1] inv_rel [OF i1], of "''s1''" ?meta "[]" None two_turns "''t1''"]
    by (auto simp: MAX_MESSAGES_def two_turns_def)
  have tt: "two_turns \<noteq> []" "length two_turns = 2" by (simp_all add: two_turns_def)
  let ?x = "AppendMessages ''s1'' two_turns ''t1''"
  have x: "session_cmd_ok [''s1'' \<mapsto> (?meta, [], None)] ?x"
    using tt by (simp add: MAX_MESSAGES_def)
  have sp: "session_spec [''s1'' \<mapsto> (?meta, [], None)] ?x =
      [''s1'' \<mapsto> (?meta\<lparr>sm_message_count := 2, sm_updated_at := ''t1''\<rparr>, two_turns, None)]"
    using tt p by (simp add: eval_nat_numeral)
  have i2: "sessions_inv ?E m2 [''s1'' \<mapsto>
      (?meta\<lparr>sm_message_count := 2, sm_updated_at := ''t1''\<rparr>, two_turns, None)]"
    using session_cmd_inv [OF sample_session_env_ok i1 x] m2(1) unfolding sp by auto
  have other: "kv_get m2 c k = kv_get ?m0 c k" if "c \<noteq> Text" "c \<noteq> Session" for c k
    using m2(2) that by (simp add: only_session_def m1_def create_session_def Let_def)
  have "get_json (ae_codec (se_agents ?E)) m2 Agent ?ak = get_json (ae_codec (se_agents ?E)) ?m0 Agent ?ak"
    by (rule get_json_cong) (rule other, simp_all)
  also have "\<dots> = Inr (Some (persisted_config (sample_config 7 ''crab'')))"
    using config_codec_ok by (intro get_json_put) (simp add: sample_session_env_def sample_env_def)
  finally have "engine_agent sample_engine m2 7 = Some (sample_config 7 ''crab'')"
    by (simp add: engine_agent_def load_agent_def persisted_config_def sample_config_def agent_config_default_def)
  moreover have "kv_get m2 Memory k = None" for k
    using other [of Memory k] by simp (simp add: kv_get_def)
  moreover have "live_rel ''s1'' (?meta\<lparr>sm_message_count := 2, sm_updated_at := ''t1''\<rparr>, two_turns, None) sample_live"
    by (simp add: live_rel_def sample_live_def session_new_def stored_turns_def two_turns_def retained_Cons
        persisted_entry_def entry_user_def entry_from_message_def)
  ultimately show ?thesis using i2 by blast
qed

lemma sample_memory_ok: "engine_memory_ok sample_engine"
  using memory_codec_ok by (simp add: engine_memory_ok_def sample_memory_def sample_session_env_def)

definition sample_turn_agent :: agent where
  "sample_turn_agent = extend_tools (build_agent [] no_dispatcher (sample_config 7 ''crab'')) []"

lemma sample_turn_run:
  "map_option (length \<circ> rs_steps) (snd (snd (run_stream sample_llm sample_turn_agent
      (Some (ref_of sample_live)) None sample_world (two_turns @ [entry_user text_wire ''hey''])))) = Some 2"
  by code_simp

lemma sample_turn_length:
  "length (fst (snd (run sample_llm sample_turn_agent (Some (ref_of sample_live)) None sample_world
      (two_turns @ [entry_user text_wire ''hey''])))) = 6"
  by code_simp

theorem turn_stays_in_step_witness:
  "\<exists>m m' r s2 new evs. send_to sample_engine m sample_live ''hey'' [] None [] sample_world ''t2'' ''t3'' = (Inr r, s2, Some m') \<and>
     stream_to sample_engine m sample_live ''hey'' [] None [] sample_world ''t2'' ''t3'' = (evs @ [Done r], s2, Some m') \<and>
     hd new = entry_user text_wire ''hey'' \<and>
     (\<exists>meta'. sessions_inv sample_session_env m' [''s1'' \<mapsto> (meta', two_turns @ new, None)])"
proof -
  obtain m meta where m: "sessions_inv sample_session_env m [''s1'' \<mapsto> (meta, two_turns, None)]"
    "live_rel ''s1'' (meta, two_turns, None) sample_live"
    "engine_agent sample_engine m 7 = Some (sample_config 7 ''crab'')"
    using sample_store by blast
  have ag: "lv_agent sample_live = 7" and h: "lv_history sample_live = two_turns"
    by (simp_all add: sample_live_def session_new_def)
  have R: "resolve_agent sample_engine m (lv_agent sample_live) = Some (build_agent [] no_dispatcher (sample_config 7 ''crab''))"
    by (simp add: resolve_agent_def ag m(3))
  have te: "turn_entry sample_engine a ''hey'' [] = entry_user text_wire ''hey''" for a
    by (simp add: turn_entry_def sample_engine_def sample_llm_def)
  have ph: "prepare_history sample_engine sample_live ''hey'' [] =
      sample_live\<lparr>lv_history := two_turns @ [entry_user text_wire ''hey'']\<rparr>"
    by (simp add: prepare_history_def h te two_turns_def retained_Cons)
  have rf: "ref_of (sample_live\<lparr>lv_history := x\<rparr>) = ref_of sample_live" for x
    by (simp add: ref_of_def)
  have "length (lv_history (fst (snd (send_to sample_engine m sample_live ''hey'' [] None [] sample_world ''t2'' ''t3'')))) = 6"
    using sample_turn_length
    by (cases "run sample_llm sample_turn_agent (Some (ref_of sample_live)) None sample_world
        (two_turns @ [entry_user text_wire ''hey''])")
      (simp add: send_to_def Let_def R ph rf sample_turn_agent_def)
  then have room: "length two_turns + length (lv_history (fst (snd (send_to sample_engine m sample_live ''hey'' [] None []
      sample_world ''t2'' ''t3'')))) \<le> MAX_MESSAGES"
    by (simp add: two_turns_def MAX_MESSAGES_def)
  have ready: "turn_ready (lv_history sample_live)"
    by (simp add: turn_ready_def injected_def h two_turns_def)
  have "\<exists>r s2 m' meta' new evs.
    send_to sample_engine m sample_live ''hey'' [] None [] sample_world ''t2'' ''t3'' = (Inr r, s2, Some m') \<and>
    stream_to sample_engine m sample_live ''hey'' [] None [] sample_world ''t2'' ''t3'' = (evs @ [Done r], s2, Some m') \<and>
    \<not> list_ex is_done evs \<and>
    sessions_inv (eg_sessions sample_engine) m' ([''s1'' \<mapsto> (meta, two_turns, None)](''s1'' \<mapsto> (meta', two_turns @ new, None))) \<and>
    live_rel ''s1'' (meta', two_turns @ new, None) s2 \<and> turn_ready (lv_history s2) \<and>
    hd new = persisted_entry (turn_entry sample_engine (lv_agent sample_live) ''hey'' [])"
    by (rule turn_stays_in_step [OF _ _ _ m(2) ready sample_world_ok R room])
      (simp_all add: m(1) sample_session_env_ok)
  moreover have "persisted_entry (entry_user text_wire ''hey'') = entry_user text_wire ''hey''"
    by (simp add: persisted_entry_def entry_user_def entry_from_message_def)
  ultimately obtain r s2 m' meta' new evs where w:
    "send_to sample_engine m sample_live ''hey'' [] None [] sample_world ''t2'' ''t3'' = (Inr r, s2, Some m')"
    "stream_to sample_engine m sample_live ''hey'' [] None [] sample_world ''t2'' ''t3'' = (evs @ [Done r], s2, Some m')"
    "sessions_inv sample_session_env m' [''s1'' \<mapsto> (meta', two_turns @ new, None)]"
    "hd new = entry_user text_wire ''hey''"
    unfolding te by auto
  show ?thesis
    by (intro exI [of _ m] exI [of _ m'] exI [of _ r] exI [of _ s2] exI [of _ new] exI [of _ evs] conjI w exI [of _ meta'])
qed

theorem turn_boundary_exact_witness: "turn_boundary 1 two_turns = Some 1 \<and> opens_turn (two_turns ! 1)"
proof -
  have "turn_boundary 1 two_turns = Some 1" by code_simp
  then show ?thesis using turn_boundary_exact [of 1 two_turns 1] by simp
qed

theorem truncate_stays_in_step_witness:
  "\<exists>m m' s'. truncate_session sample_engine m sample_live 1 = (Inr 1, s', m') \<and>
     lv_history s' = [entry_user text_wire ''hi'']"
proof -
  obtain m meta where m: "sessions_inv sample_session_env m [''s1'' \<mapsto> (meta, two_turns, None)]"
    "live_rel ''s1'' (meta, two_turns, None) sample_live"
    using sample_store by blast
  have h: "lv_history sample_live = two_turns" by (simp add: sample_live_def session_new_def)
  have "turn_boundary 1 two_turns = Some 1" by code_simp
  then have tb: "turn_boundary 1 (lv_history sample_live) = Some 1" by (simp only: h)
  have "\<exists>m' s' meta' keep. truncate_session sample_engine m sample_live 1 = (Inr 1, s', m') \<and>
      lv_history s' = take 1 (lv_history sample_live) \<and>
      sessions_inv (eg_sessions sample_engine) m' ([''s1'' \<mapsto> (meta, two_turns, None)]
        (''s1'' \<mapsto> (meta', take keep two_turns, None))) \<and>
      live_rel ''s1'' (meta', take keep two_turns, None) s'"
    by (rule truncate_stays_in_step [OF _ _ _ m(2) tb]) (simp_all add: m(1) sample_session_env_ok)
  then show ?thesis by (auto simp: h two_turns_def)
qed

definition sample_answer :: "request \<Rightarrow> (bytes + model_response) option" where
  "sample_answer q = Some (Inr \<lparr>mr_content = [BText ''brief'' JNull], mr_stop_reason = None, mr_usage = JNull\<rparr>)"

theorem compaction_resumes_witness:
  "\<exists>m m' s' live. compact_session sample_engine m sample_live ''sum up'' sample_answer ''t2'' ''t3'' =
      Some (Some ''brief'', s', m') \<and>
     load sample_engine m' ''s1'' 2 0 ''t4'' = Inr (Some live) \<and>
     lv_history live = [entry_user text_wire ''brief'']"
proof -
  obtain m meta where m: "sessions_inv sample_session_env m [''s1'' \<mapsto> (meta, two_turns, None)]"
    "live_rel ''s1'' (meta, two_turns, None) sample_live"
    "engine_agent sample_engine m 7 = Some (sample_config 7 ''crab'')" "\<And>k. kv_get m Memory k = None"
    using sample_store by blast
  have st: "store_ok sample_session_env m" by (rule inv_store [OF m(1)])
  have live: "lv_agent sample_live = 7" "lv_history sample_live = two_turns" "lv_handle sample_live = Some ''s1''"
    by (simp_all add: sample_live_def session_new_def)
  have R: "resolve_agent sample_engine m 7 = Some (build_agent [] no_dispatcher (sample_config 7 ''crab''))"
    by (simp add: resolve_agent_def m(3))
  have ac: "agent_compact sample_llm B hh ''sum up'' sample_answer = Some ''brief''" for B hh
    by (simp add: agent_compact_def sample_answer_def)
  have "kv_scan_keys m Memory p = []" for p
    using set_kv_scan_keys [of m Memory p] st m(4) by (simp add: store_ok_def)
  then have nu: "memory_names_under m stem = []" for stem by (simp add: memory_names_under_def)
  define name where "name = archive_stem sample_engine ''s1'' @ show_nat 1"
  define e where "e = \<lparr>me_name = name, me_kind = ''archive'', me_content = ''brief'', me_aliases = [],
      me_created_at = ''t2''\<rparr>"
  have "codecs_ok (mm_text sample_memory)" and tr: "text_readable (mm_text sample_memory) m"
    using sample_session_env_ok st
    by (simp_all add: session_env_ok_def sample_session_env_def sample_memory_def store_ok_def)
  then obtain m1 where m1: "put_memory sample_memory m e = Inr m1"
    using index_text_total [of "mm_text sample_memory" "put_json (mm_codec sample_memory) m Memory (memory_key (me_name e)) e"
        "mm_unicode sample_memory" MemoryEntries "memory_key (me_name e)" "memory_text e" 1]
    by (auto simp: put_memory_def Let_def)
  have wa: "write_archive sample_engine m ''s1'' ''brief'' ''t2'' = Some (Some name, m1)"
    using m1 by (simp add: write_archive_def Let_def nu e_def name_def)
  have i1: "sessions_inv sample_session_env m1 [''s1'' \<mapsto> (meta, two_turns, None)]"
    using put_memory_inv [of sample_engine] sample_session_env_ok sample_memory_ok m(1) m1 by simp
  obtain m2 where m2: "append_session_compact sample_session_env m1 ''s1'' name = Inr m2"
    using compact_rel [OF sample_session_env_ok inv_store [OF i1] inv_rel [OF i1], of "''s1''"] by fastforce
  let ?s' = "sample_live\<lparr>lv_history := [entry_user text_wire ''brief''], lv_summary := Some ''brief''\<rparr>"
  obtain m' where c: "compact_session sample_engine m sample_live ''sum up'' sample_answer ''t2'' ''t3'' =
      Some (Some ''brief'', ?s', m')"
  proof -
    have "two_turns \<noteq> []" by (simp add: two_turns_def)
    then have "compact_session sample_engine m sample_live ''sum up'' sample_answer ''t2'' ''t3'' =
        Some (Some ''brief'', ?s', ignore_error m2 (update_session_meta sample_session_env m2 ''s1'' (meta_of ?s' ''t3'')))"
      by (simp add: compact_session_def live R ac wa m2 Let_def)
    then show ?thesis by (rule that)
  qed
  have "\<exists>name meta' live e. sessions_inv (eg_sessions sample_engine) m' ([''s1'' \<mapsto> (meta, two_turns, None)]
        (''s1'' \<mapsto> (meta', [], Some name))) \<and>
      live_rel ''s1'' (meta', [], Some name) ?s' \<and>
      lv_history ?s' = [entry_user (eg_wire sample_engine) ''brief''] \<and> lv_summary ?s' = Some ''brief'' \<and>
      memory (eg_memory sample_engine) m' name = Inr (Some e) \<and> me_content e = ''brief'' \<and>
      load sample_engine m' ''s1'' 2 0 ''t4'' = Inr (Some live) \<and>
      lv_history live = [entry_user (eg_wire sample_engine) ''brief''] \<and> lv_summary live = Some ''brief''"
    by (rule compaction_resumes [OF _ sample_memory_ok _ _ m(2) c]) (simp_all add: m(1) sample_session_env_ok)
  then show ?thesis using c by auto
qed

subsection \<open>Archive names\<close>

lemma archive_numbers_Cons:
  assumes "archive_numbers n (a # names) = Some ns"
  shows "\<exists>rest ns'. slice_from a n = Some rest \<and> archive_numbers n names = Some ns' \<and>
    ns = (case parse_uint 32 rest of None \<Rightarrow> ns' | Some k \<Rightarrow> if show_nat k = rest then k # ns' else ns')"
  using assms by (auto split: option.splits)

lemma archive_numbers_in:
  assumes "archive_numbers n names = Some ns" and "name \<in> set names" and "slice_from name n = Some (show_nat k)"
    and "k < 2 ^ 32"
  shows "k \<in> set ns"
  using assms
proof (induction n names arbitrary: ns rule: archive_numbers.induct)
  case (2 n a names)
  obtain rest ns' where r: "slice_from a n = Some rest" "archive_numbers n names = Some ns'"
    "ns = (case parse_uint 32 rest of None \<Rightarrow> ns' | Some k \<Rightarrow> if show_nat k = rest then k # ns' else ns')"
    using archive_numbers_Cons [OF "2.prems"(1)] by blast
  show ?case
  proof (cases "name = a")
    case True
    then show ?thesis using r "2.prems"(3,4) by simp
  next
    case False
    then have "k \<in> set ns'" using "2.IH" [OF r(1,2)] "2.prems" by simp
    then show ?thesis using r(3) by (auto split: option.splits)
  qed
qed simp

lemma parse_uint_bound: "parse_uint bits s = Some k \<Longrightarrow> k < 2 ^ bits"
  by (auto simp: parse_uint_def Let_def split: if_splits option.splits list.splits)

lemma archive_numbers_bound:
  assumes "archive_numbers n names = Some ns" and "k \<in> set ns"
  shows "k < 2 ^ 32"
  using assms
proof (induction n names arbitrary: ns rule: archive_numbers.induct)
  case (2 n a names)
  obtain rest ns' where r: "slice_from a n = Some rest" "archive_numbers n names = Some ns'"
    "ns = (case parse_uint 32 rest of None \<Rightarrow> ns' | Some k \<Rightarrow> if show_nat k = rest then k # ns' else ns')"
    using archive_numbers_Cons [OF "2.prems"(1)] by blast
  show ?case
  proof (cases "k \<in> set ns'")
    case True
    then show ?thesis using "2.IH" [OF r(1,2)] by simp
  next
    case False
    then have "parse_uint 32 rest = Some k"
      using r(3) "2.prems"(2) by (cases "parse_uint 32 rest") (auto split: if_splits)
    then show ?thesis by (rule parse_uint_bound)
  qed
qed simp

lemma mod_next: "a < b \<Longrightarrow> (a + 1) mod b = a + 1 \<or> (a + 1) mod b = 0" for a b :: nat
  by (cases "a + 1 = b") auto

lemma slice_from_digits: "slice_from (stem @ show_nat n) (length stem) = Some (show_nat n)"
proof -
  obtain c cs where c: "show_nat n = c # cs" using show_nat_nonempty by (cases "show_nat n") auto
  then have "\<not> is_cont c" using show_nat_ascii [of c n] by (simp add: is_cont_def is_ascii_def)
  then show ?thesis by (simp add: slice_from_def is_char_boundary_def c)
qed

text \<open>
  An archive is written under a name nothing is stored under: no earlier summary of the
  session is overwritten, up to the end of the 32-bit sequence.
\<close>

theorem archive_name_fresh:
  assumes "write_archive G m h summary now = Some (Some name, m')" and "bt_ok m"
    and "slash_free (archive_stem G h)" and "valid_utf8 (archive_stem G h)"
    and "name \<noteq> archive_stem G h @ show_nat 0"
  shows "kv_get m Memory (memory_key name) = None"
proof (rule ccontr)
  assume stored: "kv_get m Memory (memory_key name) \<noteq> None"
  let ?stem = "archive_stem G h"
  obtain ns where ns: "archive_numbers (length ?stem) (memory_names_under m ?stem) = Some ns"
    using assms(1) by (auto simp: write_archive_def Let_def split: option.splits)
  define k where "k = (Max (insert 0 (set ns)) + 1) mod 2 ^ 32"
  have name: "name = ?stem @ show_nat k"
    using assms(1) ns by (auto simp: write_archive_def Let_def k_def split: sum.splits)
  have "k \<noteq> 0" using assms(5) name by (metis (full_types))
  have sf: "slash_free name" "valid_utf8 name"
    using assms(3,4) show_nat_ascii unfolding name
    by (auto simp: slash_free_def valid_utf8_append intro!: valid_utf8_ascii)
  have "prefix (key [''memory'', ?stem]) (memory_key name)"
    by (simp add: memory_key_def key_joined name prefix_def)
  then have "memory_key name \<in> set (kv_scan_keys m Memory (key [''memory'', ?stem]))"
    using stored set_kv_scan_keys [OF assms(2)] by blast
  then have "name \<in> set (memory_names_under m ?stem)"
    using last_segment_key [OF sf] unfolding memory_names_under_def memory_key_def
    by (force simp: List.map_filter_def)
  then have "k \<in> set ns"
    using archive_numbers_in [OF ns, of name k] slice_from_digits name by (simp add: k_def)
  then have "k \<le> Max (insert 0 (set ns))" by simp
  moreover have "Max (insert 0 (set ns)) < 2 ^ 32"
    using archive_numbers_bound [OF ns] by simp
  then have "k = Max (insert 0 (set ns)) + 1 \<or> k = 0"
    unfolding k_def by (rule mod_next)
  ultimately have "k = 0" by linarith
  then show False using \<open>k \<noteq> 0\<close> by simp
qed


theorem archive_name_fresh_witness:
  "\<exists>m'. write_archive sample_engine [] ''s1'' ''brief'' ''t2'' = Some (Some ''s1-1'', m') \<and>
     kv_get ([] :: kv) Memory (memory_key ''s1-1'') = None"
proof -
  have stem: "archive_stem sample_engine ''s1'' = ''s1-''"
  proof -
    have "sender_slug ascii_unicode ''s1'' = ''s1''" by code_simp
    then show ?thesis by (simp add: archive_stem_def sample_session_env_def sample_env_def)
  qed
  have one: "show_nat 1 = ''1''" by code_simp
  have zero: "show_nat 0 = ''0''" by code_simp
  have nu: "memory_names_under [] s = []" for s
    using set_kv_scan_keys [of "[]" Memory "key [''memory'', s]"] by (simp add: memory_names_under_def kv_get_def)
  define e where "e = \<lparr>me_name = ''s1-1'', me_kind = ''archive'', me_content = ''brief'', me_aliases = [],
      me_created_at = ''t2''\<rparr>"
  have "codecs_ok (mm_text sample_memory)" and tr: "text_readable (mm_text sample_memory) []"
    using sample_session_env_ok inv_store [OF empty_sessions, of sample_session_env]
    by (simp_all add: session_env_ok_def sample_session_env_def sample_memory_def store_ok_def)
  then obtain m1 where m1: "put_memory sample_memory [] e = Inr m1"
    using index_text_total [of "mm_text sample_memory" "put_json (mm_codec sample_memory) [] Memory (memory_key (me_name e)) e"
        "mm_unicode sample_memory" MemoryEntries "memory_key (me_name e)" "memory_text e" 1]
    by (auto simp: put_memory_def Let_def)
  have w: "write_archive sample_engine [] ''s1'' ''brief'' ''t2'' = Some (Some ''s1-1'', m1)"
    using m1 one by (simp add: write_archive_def Let_def nu stem e_def)
  have "kv_get ([] :: kv) Memory (memory_key ''s1-1'') = None"
    by (rule archive_name_fresh [OF w])
      (simp_all add: stem zero slash_free_def valid_utf8_ascii is_ascii_def byte_val_def)
  then show ?thesis using w by blast
qed

subsection \<open>What a rewind takes for a turn\<close>

text \<open>
  Where a tool result is filed under a role that is neither assistant nor system, it counts as
  the opening of a turn: rewinding one turn after a run that used a tool drops the answer and
  the last result, and leaves the message and the call that asked for it.
\<close>

theorem rewind_stops_at_tool_result:
  assumes "entry_role (tool_entry L tc out) = RoleUser" and "entry_role e = RoleAssistant"
  shows "turn_boundary 1 (h @ [tool_entry L tc out, e]) = Some (length h)"
proof -
  have "enumerate 0 (h @ [tool_entry L tc out, e]) =
      enumerate 0 h @ [(length h, tool_entry L tc out), (length h + 1, e)]"
    by (simp add: enumerate_append_eq)
  then show ?thesis using assms by (simp add: turn_boundary_def opens_turn_def)
qed

text \<open>
  A session created in the store and then run once live is filed under the stamp of the store,
  but its metadata then bears the stamp of the live session: deleting it misses its index row.
\<close>

lemma drop_docs_other: "drop_docs J m ix ks = Inr m' \<Longrightarrow> c \<noteq> Text \<Longrightarrow> kv_get m' c q = kv_get m c q"
  by (induction J m ix ks rule: drop_docs.induct) (auto simp: bindr_Inr drop_text_other)

lemma drop_text_prefix_other:
  "drop_text_prefix J m ix p = Inr m' \<Longrightarrow> c \<noteq> Text \<Longrightarrow> kv_get m' c q = kv_get m c q"
  by (auto simp: drop_text_prefix_def bindr_Inr dest: drop_docs_other)

theorem deleted_session_leaves_row:
  assumes "delete_session E m h = Inr (b, m')" and "read_meta E m h = Inr (Some meta)"
    and "session_index_key E meta h \<noteq> session_index_key E meta0 h"
    and "kv_get m Session (session_index_key E meta0 h) = Some h"
  shows "kv_get m' Session (session_index_key E meta0 h) = Some h"
proof -
  let ?p = "kv_prefix [''session'', h]"
  obtain m1 m2 where m1: "drop_text_prefix (se_text E) m Messages ?p = Inr m1"
    and m2: "drop_text_prefix (se_text E) m1 SessionMeta ?p = Inr m2"
    using assms(1) by (auto simp: delete_session_def Let_def bindr_Inr)
  have same: "kv_get m2 Session k = kv_get m Session k" for k
    using drop_text_prefix_other [OF m1] drop_text_prefix_other [OF m2] by simp
  have "read_meta E m2 h = read_meta E m h"
    unfolding read_meta_def by (rule get_json_cong) (rule same)
  then have m': "m' = snd (delete_keys (kv_remove m2 Session (session_index_key E meta h))
      (kv_scan_keys (kv_remove m2 Session (session_index_key E meta h)) Session ?p))"
    using assms(1,2) m1 m2 by (simp add: delete_session_def Let_def)
  have "\<not> prefix ?p (session_index_key E meta0 h)"
    using session_index_not_session by (simp add: session_prefix_def)
  then have "session_index_key E meta0 h \<notin> set (kv_scan_keys (kv_remove m2 Session (session_index_key E meta h)) Session ?p)"
    by (auto simp: kv_scan_keys_def kv_scan_def)
  then show ?thesis using assms(3,4) same by (simp add: m' delete_keys_get)
qed

end
