(* ===== verification/LiveSessions.thy ===== *)
theory LiveSessions
  imports EngineInvariant
begin

section \<open>The registry of live sessions (crates/runtime/src/session)\<close>

text \<open>
  Which sessions are live, under what id, and who may cancel them: two indexes under one lock, a
  counter of ids, a counter of accesses, a bound on the bytes of history. A shared session is the
  session with what the registry can see of its sharing: how many others hold it (\<open>strong_count\<close>
  less the registry's own) and whether a run holds its lock. A cancellation token is a number;
  those that fired are kept in the state.
  The lemmas show that the two indexes agree in every reachable state, that a sweep evicts only
  sessions nothing else holds, least recently used first, until the bound holds or all that is
  left is in flight, and that the registry never lets a handle name two sessions.
\<close>

subsection \<open>State\<close>

record live =
  lr_handle :: session_handle
  lr_session :: live_session
  lr_holders :: nat
  lr_locked :: bool
  lr_cancel :: "nat option"
  lr_touched :: nat
  lr_bytes :: nat

record registry =
  by_id :: "(nat \<times> live) list"
  by_handle :: "(session_handle \<times> nat) list"

record sessions =
  sx_registry :: registry
  sx_next_id :: nat
  sx_tick :: nat
  sx_max_bytes :: "nat option"
  sx_next_token :: nat
  sx_fired :: "nat list"

definition registry_empty :: registry where
  "registry_empty = \<lparr>by_id = [], by_handle = []\<rparr>"

definition sessions_new :: "nat option \<Rightarrow> sessions" where
  "sessions_new max_bytes =
     \<lparr>sx_registry = registry_empty, sx_next_id = 1, sx_tick = 0, sx_max_bytes = max_bytes,
      sx_next_token = 0, sx_fired = []\<rparr>"

subsection \<open>The two indexes (registry.rs)\<close>

definition reg_insert :: "registry \<Rightarrow> nat \<Rightarrow> live \<Rightarrow> registry" where
  "reg_insert R i l =
     (let ids = (case map_of (by_handle R) (lr_handle l) of
                   Some displaced \<Rightarrow> bt_remove displaced (by_id R)
                 | None \<Rightarrow> by_id R)
      in \<lparr>by_id = bt_insert i l ids, by_handle = bt_insert (lr_handle l) i (by_handle R)\<rparr>)"

definition reg_remove :: "registry \<Rightarrow> nat \<Rightarrow> live option \<times> registry" where
  "reg_remove R i =
     (case map_of (by_id R) i of
        None \<Rightarrow> (None, R)
      | Some l \<Rightarrow>
          (Some l, \<lparr>by_id = bt_remove i (by_id R), by_handle = bt_remove (lr_handle l) (by_handle R)\<rparr>))"

text \<open>A change of one live session in place.\<close>

definition reg_update :: "registry \<Rightarrow> nat \<Rightarrow> (live \<Rightarrow> live) \<Rightarrow> registry" where
  "reg_update R i f = R\<lparr>by_id := map (\<lambda>(j, l). (j, if j = i then f l else l)) (by_id R)\<rparr>"

subsection \<open>The bound\<close>

definition resident :: "registry \<Rightarrow> nat" where
  "resident R = sum_list (map (\<lambda>(_, l). lr_bytes l) (by_id R))"

definition measured :: "wire \<Rightarrow> live \<Rightarrow> live" where
  "measured W l = (if lr_locked l then l else l\<lparr>lr_bytes := session_bytes W (lr_session l)\<rparr>)"

definition refresh :: "wire \<Rightarrow> registry \<Rightarrow> registry" where
  "refresh W R = R\<lparr>by_id := map (\<lambda>(i, l). (i, measured W l)) (by_id R)\<rparr>"

definition idle :: "live \<Rightarrow> bool" where
  "idle l \<longleftrightarrow> lr_cancel l = None \<and> lr_holders l = 0"

text \<open>\<open>min_by_key\<close>: the first of the least recently touched.\<close>

fun least_touched :: "(nat \<times> live) list \<Rightarrow> nat option" where
  "least_touched [] = None"
| "least_touched [(i, l)] = Some i"
| "least_touched ((i, l) # (j, k) # rest) =
     (if lr_touched k < lr_touched l then least_touched ((j, k) # rest)
      else least_touched ((i, l) # rest))"

definition victim :: "registry \<Rightarrow> nat option" where
  "victim R = least_touched (filter (\<lambda>(_, l). idle l) (by_id R))"

lemma least_touched_in: "least_touched xs = Some i \<Longrightarrow> i \<in> fst ` set xs"
  by (induction xs rule: least_touched.induct) (auto split: if_splits)

lemma victim_in:
  assumes "victim R = Some i"
  shows "\<exists>l. (i, l) \<in> set (by_id R) \<and> idle l"
  using least_touched_in [OF assms [unfolded victim_def]] by auto

lemma reg_remove_shorter:
  assumes "victim R = Some i"
  shows "length (by_id (snd (reg_remove R i))) < length (by_id R)"
proof -
  obtain l where "(i, l) \<in> set (by_id R)" using victim_in [OF assms] by blast
  then obtain l' where "map_of (by_id R) i = Some l'" using weak_map_of_SomeI by metis
  moreover have "length (bt_remove i (by_id R)) < length (by_id R)"
    unfolding bt_remove_def
    by (rule length_filter_less [OF \<open>(i, l) \<in> set (by_id R)\<close>]) simp
  ultimately show ?thesis by (simp add: reg_remove_def)
qed

function evict_loop :: "nat \<Rightarrow> registry \<Rightarrow> registry" where
  "evict_loop mx R =
     (if resident R > mx
      then case victim R of
             None \<Rightarrow> R
           | Some i \<Rightarrow> evict_loop mx (snd (reg_remove R i))
      else R)"
  by pat_completeness auto

termination
  by (relation "measure (\<lambda>(mx, R). length (by_id R))") (simp_all add: reg_remove_shorter)

declare evict_loop.simps [simp del]

definition evict :: "wire \<Rightarrow> nat option \<Rightarrow> registry \<Rightarrow> registry" where
  "evict W mx R = (case mx of None \<Rightarrow> R | Some mx \<Rightarrow> evict_loop mx (refresh W R))"

subsection \<open>Operations (sessions.rs)\<close>

definition touch :: "sessions \<Rightarrow> nat \<Rightarrow> sessions" where
  "touch S i =
     S\<lparr>sx_registry := reg_update (sx_registry S) i (\<lambda>l. l\<lparr>lr_touched := sx_tick S\<rparr>),
       sx_tick := sx_tick S + 1\<rparr>"

text \<open>Handing out the shared session: the caller holds it until it is released.\<close>

definition hold :: "sessions \<Rightarrow> nat \<Rightarrow> sessions" where
  "hold S i = S\<lparr>sx_registry := reg_update (sx_registry S) i (\<lambda>l. l\<lparr>lr_holders := lr_holders l + 1\<rparr>)\<rparr>"

definition get_live :: "sessions \<Rightarrow> nat \<Rightarrow> (live_session \<times> sessions) option" where
  "get_live S i =
     (case map_of (by_id (sx_registry S)) i of
        None \<Rightarrow> None
      | Some l \<Rightarrow> Some (lr_session l, hold (touch S i) i))"

definition find_by_handle :: "sessions \<Rightarrow> session_handle \<Rightarrow> (nat \<times> live_session \<times> sessions) option" where
  "find_by_handle S h =
     (case map_of (by_handle (sx_registry S)) h of
        None \<Rightarrow> None
      | Some i \<Rightarrow> map_option (\<lambda>(s, S'). (i, s, S')) (get_live S i))"

definition reprice :: "wire \<Rightarrow> sessions \<Rightarrow> nat \<Rightarrow> sessions" where
  "reprice W S i =
     (case map_of (by_id (sx_registry S)) i of
        None \<Rightarrow> S
      | Some l \<Rightarrow>
          if lr_locked l then S
          else
            let R = reg_update (sx_registry S) i (measured W) in
            if (case sx_max_bytes S of None \<Rightarrow> True | Some mx \<Rightarrow> resident R \<le> mx)
            then S\<lparr>sx_registry := R\<rparr>
            else S\<lparr>sx_registry := evict W (sx_max_bytes S) R\<rparr>)"

text \<open>\<open>expect\<close>: a session without a handle panics.\<close>

definition insert_live :: "wire \<Rightarrow> sessions \<Rightarrow> live_session \<Rightarrow> (nat \<times> sessions) option" where
  "insert_live W S s =
     (case lv_handle s of
        None \<Rightarrow> None
      | Some h \<Rightarrow>
          let l = \<lparr>lr_handle = h, lr_session = s, lr_holders = 1, lr_locked = False, lr_cancel = None,
                   lr_touched = sx_tick S, lr_bytes = session_bytes W s\<rparr>;
              R = reg_insert (sx_registry S) (lv_id s) l
          in Some (lv_id s, S\<lparr>sx_registry := evict W (sx_max_bytes S) R, sx_tick := sx_tick S + 1\<rparr>))"

text \<open>
  Open by handle: the live one, else the stored one under a new id, else a new one in the store.
  The clock of the store and of the live session are read apart (\<open>now\<close>, \<open>now'\<close>).
\<close>

definition open_session ::
  "'b engine \<Rightarrow> kv \<Rightarrow> sessions \<Rightarrow> session_handle \<Rightarrow> agent_id \<Rightarrow> bytes \<Rightarrow> bytes option \<Rightarrow> nat \<Rightarrow>
   bytes \<Rightarrow> bytes \<Rightarrow> (engine_error + nat) \<times> sessions \<times> kv" where
  "open_session G m S h agent created_by rt clock now now' =
     (case find_by_handle S h of
        Some (i, s, S') \<Rightarrow> (Inr i, reprice (eg_wire G) S' i, m)
      | None \<Rightarrow>
          (let i = sx_next_id S; S1 = S\<lparr>sx_next_id := i + 1\<rparr> in
           case load G m h i clock now' of
             Inl e \<Rightarrow> (Inl e, S1, m)
           | Inr (Some s) \<Rightarrow>
               (case insert_live (eg_wire G) S1 s of
                  None \<Rightarrow> (Inl EnginePanic, S1, m)
                | Some (i, S2) \<Rightarrow> (Inr i, S2, m))
           | Inr None \<Rightarrow>
               (if engine_agent G m agent = None then (Inl (AgentNotRegistered agent), S1, m)
                else
                  let m' = create_session (eg_sessions G) m h agent created_by rt now;
                      s = (session_new i agent created_by clock now')\<lparr>lv_handle := Some h, lv_root := rt\<rparr>
                  in case insert_live (eg_wire G) S1 s of
                       None \<Rightarrow> (Inl EnginePanic, S1, m')
                     | Some (i, S2) \<Rightarrow> (Inr i, S2, m'))))"

definition close :: "sessions \<Rightarrow> nat \<Rightarrow> bool \<times> sessions" where
  "close S i =
     (let (l, R) = reg_remove (sx_registry S) i in (l \<noteq> None, S\<lparr>sx_registry := R\<rparr>))"

definition begin_cancel :: "sessions \<Rightarrow> nat \<Rightarrow> nat option \<times> sessions" where
  "begin_cancel S i =
     (let t = sx_next_token S; S1 = S\<lparr>sx_next_token := t + 1\<rparr> in
      case map_of (by_id (sx_registry S)) i of
        None \<Rightarrow> (None, S1)
      | Some l \<Rightarrow>
          (Some t, S1\<lparr>sx_registry := reg_update (sx_registry S) i (\<lambda>l. l\<lparr>lr_cancel := Some t\<rparr>)\<rparr>))"

definition end_cancel :: "sessions \<Rightarrow> nat \<Rightarrow> sessions" where
  "end_cancel S i = S\<lparr>sx_registry := reg_update (sx_registry S) i (\<lambda>l. l\<lparr>lr_cancel := None\<rparr>)\<rparr>"

definition cancel :: "sessions \<Rightarrow> nat \<Rightarrow> bool \<times> sessions" where
  "cancel S i =
     (case Option.bind (map_of (by_id (sx_registry S)) i) lr_cancel of
        None \<Rightarrow> (False, S)
      | Some t \<Rightarrow> (True, S\<lparr>sx_fired := t # sx_fired S\<rparr>))"

definition live_count :: "sessions \<Rightarrow> nat" where
  "live_count S = length (by_id (sx_registry S))"

definition resident_bytes :: "sessions \<Rightarrow> nat" where
  "resident_bytes S = resident (sx_registry S)"

record active_info =
  ai_agent_id :: bytes
  ai_agent_name :: bytes
  ai_sender :: bytes
  ai_message_count :: nat
  ai_alive_secs :: nat
  ai_title :: bytes
  ai_handle :: session_handle

text \<open>\<open>elapsed\<close> is the clock's, in whole seconds: \<open>age\<close> of the creation instant.\<close>

definition list_active :: "'b engine \<Rightarrow> kv \<Rightarrow> (nat \<Rightarrow> nat) \<Rightarrow> sessions \<Rightarrow> active_info list" where
  "list_active G m age S =
     map (\<lambda>(_, l). let c = lr_session l in
         \<lparr>ai_agent_id = eg_show G (lv_agent c),
          ai_agent_name = (case agent_names G m (lv_agent c) of Some n \<Rightarrow> n | None \<Rightarrow> []),
          ai_sender = lv_created_by c, ai_message_count = length (lv_history c),
          ai_alive_secs = age (lv_created_at c), ai_title = lv_title c, ai_handle = lr_handle l\<rparr>)
       (by_id (sx_registry S))"

subsection \<open>What the callers do with a shared session\<close>

text \<open>
  A holder lets go; a run takes the lock, and gives it back with the session as it leaves it: all
  but its id and its handle may have changed.
\<close>

definition release :: "sessions \<Rightarrow> nat \<Rightarrow> sessions" where
  "release S i = S\<lparr>sx_registry := reg_update (sx_registry S) i (\<lambda>l. l\<lparr>lr_holders := lr_holders l - 1\<rparr>)\<rparr>"

definition lock :: "sessions \<Rightarrow> nat \<Rightarrow> sessions" where
  "lock S i = S\<lparr>sx_registry := reg_update (sx_registry S) i (\<lambda>l. l\<lparr>lr_locked := True\<rparr>)\<rparr>"

definition unlock :: "sessions \<Rightarrow> nat \<Rightarrow> live_session \<Rightarrow> sessions" where
  "unlock S i s' =
     S\<lparr>sx_registry := reg_update (sx_registry S) i
       (\<lambda>l. l\<lparr>lr_locked := False,
              lr_session := s'\<lparr>lv_id := lv_id (lr_session l), lv_handle := lv_handle (lr_session l)\<rparr>\<rparr>)\<rparr>"

text \<open>
  A resolve of a handle is not one step: between the id it takes and the entry it puts in stand the
  reads and writes of the store, where other calls run. The second component is the resolves in
  flight, by the id taken and the handle asked for; the session one ends with is any session of
  that id and handle.
\<close>

type_synonym sess_state = "sessions \<times> (nat \<times> session_handle) list"

inductive sess_step :: "wire \<Rightarrow> sess_state \<Rightarrow> sess_state \<Rightarrow> bool" for W where
  Hit: "find_by_handle S h = Some (i, s, S') \<Longrightarrow> sess_step W (S, P) (reprice W S' i, P)"
| Miss: "find_by_handle S h = None \<Longrightarrow>
    sess_step W (S, P) (S\<lparr>sx_next_id := sx_next_id S + 1\<rparr>, (sx_next_id S, h) # P)"
| Fail: "sess_step W (S, P @ p # Q) (S, P @ Q)"
| Resolved: "lv_id s = i \<Longrightarrow> lv_handle s = Some h \<Longrightarrow> insert_live W S s = Some (j, S') \<Longrightarrow>
    sess_step W (S, P @ (i, h) # Q) (S', P @ Q)"
| Get: "get_live S i = Some (s, S') \<Longrightarrow> sess_step W (S, P) (S', P)"
| Close: "sess_step W (S, P) (snd (close S i), P)"
| Begin: "sess_step W (S, P) (snd (begin_cancel S i), P)"
| End: "sess_step W (S, P) (end_cancel S i, P)"
| Cancel: "sess_step W (S, P) (snd (cancel S i), P)"
| Release: "sess_step W (S, P) (release S i, P)"
| Lock: "sess_step W (S, P) (lock S i, P)"
| Unlock: "sess_step W (S, P) (unlock S i s', P)"

inductive sess_reach :: "wire \<Rightarrow> nat option \<Rightarrow> sess_state \<Rightarrow> bool" for W mx where
  Start: "sess_reach W mx (sessions_new mx, [])"
| Step: "sess_reach W mx x \<Longrightarrow> sess_step W x y \<Longrightarrow> sess_reach W mx y"

inductive_cases sess_stepE: "sess_step W (S, P) y"

subsection \<open>The indexes agree\<close>

definition reg_ok :: "registry \<Rightarrow> bool" where
  "reg_ok R \<longleftrightarrow> bt_ok (by_id R) \<and> bt_ok (by_handle R) \<and>
     (\<forall>h i. map_of (by_handle R) h = Some i \<longleftrightarrow> (\<exists>l. map_of (by_id R) i = Some l \<and> lr_handle l = h))"

lemma reg_ok_handle:
  "reg_ok R \<Longrightarrow> map_of (by_handle R) h = Some i \<longleftrightarrow> (\<exists>l. map_of (by_id R) i = Some l \<and> lr_handle l = h)"
  by (simp add: reg_ok_def)

lemma reg_ok_unique:
  assumes "reg_ok R" and "map_of (by_id R) i = Some l" and "map_of (by_id R) j = Some k"
    and "lr_handle l = lr_handle k"
  shows "i = j"
proof -
  have "map_of (by_handle R) (lr_handle l) = Some i" "map_of (by_handle R) (lr_handle l) = Some j"
    using reg_ok_handle [OF assms(1)] assms(2-4) by auto
  then show ?thesis by simp
qed

lemma reg_ok_empty: "reg_ok registry_empty"
  by (simp add: reg_ok_def registry_empty_def)

lemma map_of_map_pairs: "map_of (map (\<lambda>(i, l). (i, f i l)) xs) j = map_option (f j) (map_of xs j)"
  by (induction xs) auto

lemma bt_ok_map_pairs: "bt_ok (map (\<lambda>(i, l). (i, f i l)) xs) = bt_ok xs"
  by (simp add: bt_ok_def comp_def case_prod_unfold)

lemma reg_ok_map:
  assumes "reg_ok R" and "\<And>i l. lr_handle (f i l) = lr_handle l"
  shows "reg_ok (R\<lparr>by_id := map (\<lambda>(i, l). (i, f i l)) (by_id R)\<rparr>)"
  using assms by (auto simp: reg_ok_def map_of_map_pairs bt_ok_map_pairs)

lemma reg_ok_update:
  assumes "reg_ok R" and "\<And>l. lr_handle (f l) = lr_handle l"
  shows "reg_ok (reg_update R i f)"
  unfolding reg_update_def using assms by (intro reg_ok_map) auto

lemma measured_handle [simp]: "lr_handle (measured W l) = lr_handle l"
  by (simp add: measured_def)

lemma reg_ok_refresh: "reg_ok R \<Longrightarrow> reg_ok (refresh W R)"
  unfolding refresh_def by (rule reg_ok_map) simp_all

lemma by_id_insert:
  "map_of (by_id (reg_insert R i l)) j =
     (if j = i then Some l else if map_of (by_handle R) (lr_handle l) = Some j then None else map_of (by_id R) j)"
  "map_of (by_handle (reg_insert R i l)) h = (if h = lr_handle l then Some i else map_of (by_handle R) h)"
  by (auto simp: reg_insert_def Let_def split: option.splits)

lemma reg_ok_insert:
  assumes ok: "reg_ok R" and fresh: "map_of (by_id R) i = None"
  shows "reg_ok (reg_insert R i l)"
proof -
  have "map_of (by_handle (reg_insert R i l)) h = Some j \<longleftrightarrow>
      (\<exists>k. map_of (by_id (reg_insert R i l)) j = Some k \<and> lr_handle k = h)" for h j
  proof (cases "j = i")
    case True
    then show ?thesis using fresh reg_ok_handle [OF ok, of h i] by (auto simp: by_id_insert)
  next
    case False
    then show ?thesis using reg_ok_handle [OF ok, of h j] reg_ok_handle [OF ok, of "lr_handle l" j]
      by (auto simp: by_id_insert)
  qed
  moreover have "bt_ok (by_id (reg_insert R i l))" "bt_ok (by_handle (reg_insert R i l))"
    using ok by (auto simp: reg_insert_def reg_ok_def Let_def split: option.splits)
  ultimately show ?thesis by (simp add: reg_ok_def)
qed

lemma by_id_remove:
  "map_of (by_id (snd (reg_remove R i))) j = (if j = i then None else map_of (by_id R) j)"
  by (auto simp: reg_remove_def split: option.splits)

lemma reg_ok_remove:
  assumes ok: "reg_ok R"
  shows "reg_ok (snd (reg_remove R i))"
proof (cases "map_of (by_id R) i")
  case (Some l)
  have "map_of (by_handle (snd (reg_remove R i))) h = Some j \<longleftrightarrow>
      (\<exists>k. map_of (by_id (snd (reg_remove R i))) j = Some k \<and> lr_handle k = h)" for h j
  proof (cases "h = lr_handle l")
    case True
    have "lr_handle k \<noteq> h" if "j \<noteq> i" and "map_of (by_id R) j = Some k" for k
      using reg_ok_unique [OF ok Some that(2)] that(1) True by auto
    then show ?thesis using True Some by (auto simp: reg_remove_def)
  next
    case False
    then show ?thesis using reg_ok_handle [OF ok, of h j] Some by (auto simp: reg_remove_def)
  qed
  then show ?thesis using ok Some by (simp add: reg_ok_def reg_remove_def)
qed (use ok in \<open>simp add: reg_remove_def\<close>)

subsection \<open>A sweep\<close>

lemma evict_loop_stop: "\<not> (resident R > mx \<and> victim R \<noteq> None) \<Longrightarrow> evict_loop mx R = R"
  by (simp add: evict_loop.simps [of mx R] split: option.splits)

lemma evict_loop_go:
  "resident R > mx \<Longrightarrow> victim R = Some i \<Longrightarrow> evict_loop mx R = evict_loop mx (snd (reg_remove R i))"
  by (simp add: evict_loop.simps [of mx R])

lemma evict_loop_rule [case_names stop go]:
  assumes "\<And>R. \<not> (resident R > mx \<and> victim R \<noteq> None) \<Longrightarrow> P R R"
    and "\<And>R i R'. resident R > mx \<Longrightarrow> victim R = Some i \<Longrightarrow> P (snd (reg_remove R i)) R' \<Longrightarrow> P R R'"
  shows "P R (evict_loop mx R)"
proof (induction "length (by_id R)" arbitrary: R rule: less_induct)
  case less
  show ?case
  proof (cases "resident R > mx \<and> victim R \<noteq> None")
    case True
    then obtain i where i: "resident R > mx" "victim R = Some i" by auto
    have "P (snd (reg_remove R i)) (evict_loop mx (snd (reg_remove R i)))"
      using less reg_remove_shorter [OF i(2)] by blast
    then show ?thesis using assms(2) [OF i] by (simp add: evict_loop_go [OF i])
  qed (simp add: evict_loop_stop assms(1))
qed

lemma evict_loop_bounds: "resident (evict_loop mx R) \<le> mx \<or> victim (evict_loop mx R) = None"
  by (rule evict_loop_rule [where P = "\<lambda>R R'. resident R' \<le> mx \<or> victim R' = None"]) auto

lemma evict_loop_subset: "map_of (by_id (evict_loop mx R)) i = Some l \<Longrightarrow> map_of (by_id R) i = Some l"
  by (rule evict_loop_rule [where P = "\<lambda>R R'. map_of (by_id R') i = Some l \<longrightarrow> map_of (by_id R) i = Some l", rule_format])
    (auto simp: by_id_remove split: if_splits)

lemma reg_ok_evict_loop: "reg_ok R \<Longrightarrow> reg_ok (evict_loop mx R)"
  by (rule evict_loop_rule [where P = "\<lambda>R R'. reg_ok R \<longrightarrow> reg_ok R'", rule_format])
    (auto simp: reg_ok_remove)

lemma reg_ok_evict: "reg_ok R \<Longrightarrow> reg_ok (evict W mx R)"
  by (simp add: evict_def reg_ok_evict_loop reg_ok_refresh split: option.split)

lemma victim_idle:
  assumes "reg_ok R" and "victim R = Some j"
  shows "\<exists>k. map_of (by_id R) j = Some k \<and> idle k"
proof -
  obtain k where k: "(j, k) \<in> set (by_id R)" "idle k" using victim_in [OF assms(2)] by blast
  have "bt_ok (by_id R)" using assms(1) by (simp add: reg_ok_def)
  then have "map_of (by_id R) j = Some k" using bt_get_in [of "by_id R" j k] k(1) by simp
  then show ?thesis using k(2) by simp
qed

lemma evict_loop_keeps:
  assumes "reg_ok R" and "map_of (by_id R) i = Some l" and "\<not> idle l"
  shows "map_of (by_id (evict_loop mx R)) i = Some l"
proof -
  have "reg_ok R \<and> map_of (by_id R) i = Some l \<longrightarrow> map_of (by_id (evict_loop mx R)) i = Some l"
  proof (rule evict_loop_rule [where P = "\<lambda>R R'. reg_ok R \<and> map_of (by_id R) i = Some l \<longrightarrow> map_of (by_id R') i = Some l"])
    fix R j R'
    assume j: "victim R = Some j"
      and step: "reg_ok (snd (reg_remove R j)) \<and> map_of (by_id (snd (reg_remove R j))) i = Some l \<longrightarrow>
        map_of (by_id R') i = Some l"
    show "reg_ok R \<and> map_of (by_id R) i = Some l \<longrightarrow> map_of (by_id R') i = Some l"
      using step victim_idle [OF _ j] assms(3) by (auto simp: by_id_remove reg_ok_remove)
  qed simp
  then show ?thesis using assms(1,2) by simp
qed

subsection \<open>The sweep against a reference\<close>

text \<open>
  The idle sessions, least recently used first, and a registry without some of its sessions. The
  reference drops the shortest prefix of that queue that meets the bound, or all of it.
\<close>

definition lru_queue :: "registry \<Rightarrow> nat list" where
  "lru_queue R = map fst (sort_key (\<lambda>(_, l). lr_touched l) (filter (\<lambda>(_, l). idle l) (by_id R)))"

definition without :: "nat list \<Rightarrow> registry \<Rightarrow> registry" where
  "without D R = \<lparr>by_id = filter (\<lambda>(i, _). i \<notin> set D) (by_id R),
                  by_handle = filter (\<lambda>(_, i). i \<notin> set D) (by_handle R)\<rparr>"

definition evict_ref :: "nat \<Rightarrow> registry \<Rightarrow> registry" where
  "evict_ref mx R =
     (let q = lru_queue R in
      case find (\<lambda>R'. resident R' \<le> mx) (map (\<lambda>n. without (take n q) R) [0..<Suc (length q)]) of
        Some R' \<Rightarrow> R'
      | None \<Rightarrow> without q R)"

lemma insort_key_head:
  "insort_key f x xs = (case xs of [] \<Rightarrow> [x] | y # ys \<Rightarrow> if f x \<le> f y then x # y # ys else y # insort_key f x ys)"
  by (cases xs) simp_all

lemma least_touched_sort:
  "least_touched xs = (case sort_key (\<lambda>(_, l). lr_touched l) xs of [] \<Rightarrow> None | p # _ \<Rightarrow> Some (fst p))"
proof (induction xs rule: least_touched.induct)
  case (3 i l j k rest)
  define s where "s = sort_key (\<lambda>(_, l). lr_touched l) rest"
  show ?case
    using "3.IH" by (cases s) (auto simp: s_def [symmetric] insort_key_head)
qed simp_all

lemma victim_queue: "victim R = (case lru_queue R of [] \<Rightarrow> None | i # _ \<Rightarrow> Some i)"
  by (simp add: victim_def least_touched_sort lru_queue_def split: list.splits)

lemma without_Nil [simp]: "without [] R = R"
  by (simp add: without_def)

lemma without_remove:
  assumes ok: "reg_ok R" and i: "map_of (by_id R) i = Some l"
  shows "without D (snd (reg_remove R i)) = without (i # D) R"
proof -
  have h: "h = lr_handle l \<longleftrightarrow> j = i" if "(h, j) \<in> set (by_handle R)" for h j
  proof -
    have "bt_ok (by_handle R)" using ok by (simp add: reg_ok_def)
    then have j: "map_of (by_handle R) h = Some j" using bt_get_in [of "by_handle R" h j] that by simp
    then show ?thesis using reg_ok_handle [OF ok, of h j] reg_ok_handle [OF ok, of "lr_handle l" i] i by auto
  qed
  have "filter (\<lambda>(_, j). j \<notin> set D) (bt_remove (lr_handle l) (by_handle R)) =
      filter (\<lambda>(_, j). j \<notin> set (i # D)) (by_handle R)"
    unfolding bt_remove_def filter_filter by (rule filter_cong [OF refl]) (use h in auto)
  moreover have "filter (\<lambda>(j, _). j \<notin> set D) (bt_remove i (by_id R)) =
      filter (\<lambda>(j, _). j \<notin> set (i # D)) (by_id R)"
    unfolding bt_remove_def filter_filter by (rule filter_cong [OF refl]) auto
  ultimately show ?thesis using i by (simp add: without_def reg_remove_def)
qed

lemma lru_queue_remove:
  assumes ok: "reg_ok R" and q: "lru_queue R = i # q" and i: "map_of (by_id R) i = Some l"
  shows "lru_queue (snd (reg_remove R i)) = q"
proof -
  have "distinct (map fst (by_id R))" using ok by (simp add: reg_ok_def bt_ok_distinct)
  then have "distinct (lru_queue R)"
    by (simp add: lru_queue_def distinct_map inj_on_subset [of fst "set (by_id R)"])
  moreover have "lru_queue (snd (reg_remove R i)) = filter (\<lambda>j. j \<noteq> i) (lru_queue R)"
    using i by (simp add: lru_queue_def reg_remove_def bt_remove_def filter_map filter_sort comp_def
      case_prod_unfold conj_commute)
  ultimately show ?thesis using q by (simp add: filter_id_conv) auto
qed

lemma evict_loop_ref:
  assumes "reg_ok R"
  shows "evict_loop mx R = evict_ref mx R"
proof (rule evict_loop_rule [where P = "\<lambda>R R'. reg_ok R \<longrightarrow> R' = evict_ref mx R", rule_format, OF _ _ assms])
  fix R :: registry
  assume "\<not> (resident R > mx \<and> victim R \<noteq> None)"
  then show "R = evict_ref mx R"
    by (auto simp: evict_ref_def victim_queue upt_conv_Cons simp del: upt_Suc split: list.splits)
next
  fix R i R'
  assume big: "resident R > mx" and vi: "victim R = Some i" and ok: "reg_ok R"
    and step: "reg_ok (snd (reg_remove R i)) \<Longrightarrow> R' = evict_ref mx (snd (reg_remove R i))"
  obtain l where l: "map_of (by_id R) i = Some l" using victim_idle [OF ok vi] by blast
  obtain q where q: "lru_queue R = i # q" using vi by (auto simp: victim_queue split: list.splits)
  have "[0..<Suc (Suc (length q))] = 0 # map Suc [0..<Suc (length q)]"
    by (subst upt_conv_Cons) (simp_all add: map_Suc_upt del: upt_Suc)
  then have "evict_ref mx R = evict_ref mx (snd (reg_remove R i))"
    using big unfolding evict_ref_def
    by (simp add: q lru_queue_remove [OF ok q l] without_remove [OF ok l] comp_def
      del: upt_Suc split: option.split)
  then show "R' = evict_ref mx R" using step reg_ok_remove [OF ok] by simp
qed

subsection \<open>What holds in every reachable state\<close>

definition live_ok :: "sessions \<Rightarrow> nat \<Rightarrow> live \<Rightarrow> bool" where
  "live_ok S i l \<longleftrightarrow>
     i < sx_next_id S \<and> lr_touched l < sx_tick S \<and> lv_id (lr_session l) = i \<and>
     lv_handle (lr_session l) = Some (lr_handle l) \<and>
     (\<forall>t. lr_cancel l = Some t \<longrightarrow> t < sx_next_token S)"

definition sess_ok :: "sess_state \<Rightarrow> bool" where
  "sess_ok x \<longleftrightarrow> (case x of (S, P) \<Rightarrow>
     reg_ok (sx_registry S) \<and>
     (\<forall>i l. map_of (by_id (sx_registry S)) i = Some l \<longrightarrow> live_ok S i l) \<and>
     (\<forall>t \<in> set (sx_fired S). t < sx_next_token S) \<and> distinct (map fst P) \<and>
     (\<forall>p \<in> set P. fst p < sx_next_id S \<and> map_of (by_id (sx_registry S)) (fst p) = None))"

lemma sess_okI [intro]:
  assumes "reg_ok (sx_registry S)" and "\<And>i l. map_of (by_id (sx_registry S)) i = Some l \<Longrightarrow> live_ok S i l"
    and "\<And>t. t \<in> set (sx_fired S) \<Longrightarrow> t < sx_next_token S" and "distinct (map fst P)"
    and "\<And>p. p \<in> set P \<Longrightarrow> fst p < sx_next_id S \<and> map_of (by_id (sx_registry S)) (fst p) = None"
  shows "sess_ok (S, P)"
  using assms by (simp add: sess_ok_def)

lemma sess_okD:
  assumes "sess_ok (S, P)"
  shows "reg_ok (sx_registry S)" and "map_of (by_id (sx_registry S)) i = Some l \<Longrightarrow> live_ok S i l"
    and "t \<in> set (sx_fired S) \<Longrightarrow> t < sx_next_token S" and "distinct (map fst P)"
    and "p \<in> set P \<Longrightarrow> fst p < sx_next_id S"
    and "p \<in> set P \<Longrightarrow> map_of (by_id (sx_registry S)) (fst p) = None"
  using assms by (simp_all add: sess_ok_def)

lemma by_id_update:
  "map_of (by_id (reg_update R i f)) j = (if j = i then map_option f (map_of (by_id R) i) else map_of (by_id R) j)"
  by (simp add: reg_update_def map_of_map_pairs option.map_ident)

lemma by_handle_update [simp]: "by_handle (reg_update R i f) = by_handle R"
  by (simp add: reg_update_def)

text \<open>A change of one live session in place, the counters perhaps advanced.\<close>

lemma sess_ok_update:
  assumes ok: "sess_ok (S, P)"
    and R: "sx_registry S' = reg_update (sx_registry S) i f" and f: "\<And>l. lr_handle (f l) = lr_handle l"
    and n: "sx_next_id S \<le> sx_next_id S'" "sx_tick S \<le> sx_tick S'" "sx_next_token S \<le> sx_next_token S'"
    and fired: "\<And>t. t \<in> set (sx_fired S') \<Longrightarrow> t < sx_next_token S'"
    and l: "\<And>l. live_ok S i l \<Longrightarrow> live_ok S' i (f l)"
  shows "sess_ok (S', P)"
proof
  show "reg_ok (sx_registry S')" using sess_okD(1) [OF ok] f by (simp add: R reg_ok_update)
  show "live_ok S' j k" if "map_of (by_id (sx_registry S')) j = Some k" for j k
  proof (cases "j = i")
    case True
    then show ?thesis using that l sess_okD(2) [OF ok] by (auto simp: R by_id_update)
  next
    case False
    then have "live_ok S j k" using that sess_okD(2) [OF ok] by (simp add: R by_id_update)
    then show ?thesis using n by (fastforce simp: live_ok_def)
  qed
  show "fst p < sx_next_id S' \<and> map_of (by_id (sx_registry S')) (fst p) = None" if "p \<in> set P" for p
    using sess_okD(5,6) [OF ok that] n(1) by (auto simp: R by_id_update)
qed (use fired sess_okD(4) [OF ok] in simp_all)

text \<open>Fewer or re-measured entries.\<close>

lemma evict_entries:
  "map_of (by_id (evict W mx R)) i = Some l \<Longrightarrow>
     \<exists>k. map_of (by_id R) i = Some k \<and> (l = k \<or> l = measured W k)"
  by (auto simp: evict_def refresh_def map_of_map_pairs split: option.splits dest!: evict_loop_subset)

lemma live_ok_measured [simp]: "live_ok S i (measured W l) = live_ok S i l"
  by (simp add: live_ok_def measured_def)

lemma sess_ok_evict:
  assumes ok: "sess_ok (S, P)"
  shows "sess_ok (S\<lparr>sx_registry := evict W mx (sx_registry S)\<rparr>, P)"
proof
  let ?R = "evict W mx (sx_registry S)"
  show "live_ok (S\<lparr>sx_registry := ?R\<rparr>) i l"
    if il: "map_of (by_id (sx_registry (S\<lparr>sx_registry := ?R\<rparr>))) i = Some l" for i l
  proof -
    obtain k where "map_of (by_id (sx_registry S)) i = Some k" "l = k \<or> l = measured W k"
      using il evict_entries [of W mx "sx_registry S" i l] by auto
    then have "live_ok S i l" using sess_okD(2) [OF ok] by auto
    then show ?thesis by (simp add: live_ok_def)
  qed
  show "fst p < sx_next_id (S\<lparr>sx_registry := ?R\<rparr>) \<and>
      map_of (by_id (sx_registry (S\<lparr>sx_registry := ?R\<rparr>))) (fst p) = None" if "p \<in> set P" for p
    using sess_okD(5,6) [OF ok that] evict_entries [of W mx "sx_registry S" "fst p"]
    by (cases "map_of (by_id ?R) (fst p)") auto
qed (use sess_okD [OF ok] in \<open>simp_all add: reg_ok_evict\<close>)

lemma sess_ok_in_place:
  assumes ok: "sess_ok (S, P)" and f: "\<And>l. lr_handle (f l) = lr_handle l" "\<And>l. live_ok S i l \<Longrightarrow> live_ok S i (f l)"
  shows "sess_ok (S\<lparr>sx_registry := reg_update (sx_registry S) i f\<rparr>, P)"
proof (rule sess_ok_update [OF ok, of _ i f])
  let ?S = "S\<lparr>sx_registry := reg_update (sx_registry S) i f\<rparr>"
  have "live_ok ?S = live_ok S" by (simp add: live_ok_def fun_eq_iff)
  then show "live_ok S i l \<Longrightarrow> live_ok ?S i (f l)" for l using f(2) by simp
qed (use f(1) sess_okD(3) [OF ok] in simp_all)

lemma sess_ok_hold: "sess_ok (S, P) \<Longrightarrow> sess_ok (hold S i, P)"
  unfolding hold_def by (rule sess_ok_in_place) (simp_all add: live_ok_def)

lemma sess_ok_touch:
  assumes ok: "sess_ok (S, P)"
  shows "sess_ok (touch S i, P)"
  unfolding touch_def
  by (rule sess_ok_update [OF ok, of _ i "\<lambda>l. l\<lparr>lr_touched := sx_tick S\<rparr>"])
    (use sess_okD(3) [OF ok] in \<open>simp_all add: live_ok_def\<close>)

lemma sess_ok_release: "sess_ok (S, P) \<Longrightarrow> sess_ok (release S i, P)"
  unfolding release_def by (rule sess_ok_in_place) (simp_all add: live_ok_def)

lemma sess_ok_lock: "sess_ok (S, P) \<Longrightarrow> sess_ok (lock S i, P)"
  unfolding lock_def by (rule sess_ok_in_place) (simp_all add: live_ok_def)

lemma sess_ok_unlock: "sess_ok (S, P) \<Longrightarrow> sess_ok (unlock S i s', P)"
  unfolding unlock_def by (rule sess_ok_in_place) (simp_all add: live_ok_def)

lemma sess_ok_end_cancel: "sess_ok (S, P) \<Longrightarrow> sess_ok (end_cancel S i, P)"
  unfolding end_cancel_def by (rule sess_ok_in_place) (simp_all add: live_ok_def)

lemma sess_ok_counters:
  assumes ok: "sess_ok (S, P)" and R: "sx_registry S' = sx_registry S"
    and n: "sx_next_id S \<le> sx_next_id S'" "sx_tick S \<le> sx_tick S'" "sx_next_token S \<le> sx_next_token S'"
    and fired: "\<And>t. t \<in> set (sx_fired S') \<Longrightarrow> t < sx_next_token S'"
  shows "sess_ok (S', P)"
proof -
  have "sx_registry S' = reg_update (sx_registry S) i (\<lambda>l. l)" for i
    by (simp add: R reg_update_def)
  then show ?thesis
    by (rule sess_ok_update [OF ok]) (use n fired in \<open>auto simp: live_ok_def\<close>)
qed

lemma sess_ok_begin_cancel:
  assumes ok: "sess_ok (S, P)"
  shows "sess_ok (snd (begin_cancel S i), P)"
proof -
  let ?S = "S\<lparr>sx_next_token := sx_next_token S + 1\<rparr>"
  have up: "sess_ok (?S, P)"
    by (rule sess_ok_counters [OF ok]) (auto dest: sess_okD(3) [OF ok])
  have "sess_ok (?S\<lparr>sx_registry := reg_update (sx_registry ?S) i (\<lambda>l. l\<lparr>lr_cancel := Some (sx_next_token S)\<rparr>)\<rparr>, P)"
    by (rule sess_ok_in_place [OF up]) (simp_all add: live_ok_def)
  with up show ?thesis by (simp add: begin_cancel_def Let_def split: option.split)
qed

lemma sess_ok_cancel:
  assumes ok: "sess_ok (S, P)"
  shows "sess_ok (snd (cancel S i), P)"
proof (cases "Option.bind (map_of (by_id (sx_registry S)) i) lr_cancel")
  case None
  then show ?thesis using ok by (simp add: cancel_def)
next
  case (Some t)
  then obtain l where l: "map_of (by_id (sx_registry S)) i = Some l" "lr_cancel l = Some t"
    by (auto simp: bind_eq_Some_conv)
  have "t < sx_next_token S" using sess_okD(2) [OF ok l(1)] l(2) by (simp add: live_ok_def)
  then have "sess_ok (S\<lparr>sx_fired := t # sx_fired S\<rparr>, P)"
    by (intro sess_ok_counters [OF ok]) (auto dest: sess_okD(3) [OF ok])
  then show ?thesis using Some by (simp add: cancel_def)
qed

lemma sess_ok_miss:
  assumes ok: "sess_ok (S, P)"
  shows "sess_ok (S\<lparr>sx_next_id := sx_next_id S + 1\<rparr>, (sx_next_id S, h) # P)"
proof
  let ?S = "S\<lparr>sx_next_id := sx_next_id S + 1\<rparr>"
  have up: "sess_ok (?S, P)" by (rule sess_ok_counters [OF ok]) (auto dest: sess_okD(3) [OF ok])
  have new: "map_of (by_id (sx_registry S)) (sx_next_id S) = None"
    using sess_okD(2) [OF ok, of "sx_next_id S"] by (cases "map_of (by_id (sx_registry S)) (sx_next_id S)")
      (auto simp: live_ok_def)
  show "fst p < sx_next_id ?S \<and> map_of (by_id (sx_registry ?S)) (fst p) = None"
    if "p \<in> set ((sx_next_id S, h) # P)" for p
    using that new sess_okD(5,6) [OF ok, of p] by auto
  show "live_ok ?S i l" if "map_of (by_id (sx_registry ?S)) i = Some l" for i l
    by (rule sess_okD(2) [OF up that])
  show "distinct (map fst ((sx_next_id S, h) # P))"
    using sess_okD(4,5) [OF ok] by fastforce
qed (use sess_okD(1,3) [OF ok] in simp_all)

lemma sess_ok_get: "get_live S i = Some (s, S') \<Longrightarrow> sess_ok (S, P) \<Longrightarrow> sess_ok (S', P)"
  by (auto simp: get_live_def sess_ok_hold sess_ok_touch split: option.splits)

lemma sess_ok_find: "find_by_handle S h = Some (i, s, S') \<Longrightarrow> sess_ok (S, P) \<Longrightarrow> sess_ok (S', P)"
  by (auto simp: find_by_handle_def sess_ok_get split: option.splits)

lemma sess_ok_reprice:
  assumes ok: "sess_ok (S, P)"
  shows "sess_ok (reprice W S i, P)"
proof -
  let ?S = "S\<lparr>sx_registry := reg_update (sx_registry S) i (measured W)\<rparr>"
  have up: "sess_ok (?S, P)"
    by (rule sess_ok_update [OF ok, of _ i "measured W"])
      (use sess_okD(3) [OF ok] in \<open>simp_all add: live_ok_def measured_def\<close>)
  show ?thesis
    using ok up sess_ok_evict [OF up, of W "sx_max_bytes S"]
    by (simp add: reprice_def Let_def split: option.split)
qed

lemma sess_ok_drop: "sess_ok (S, P @ p # Q) \<Longrightarrow> sess_ok (S, P @ Q)"
  by (auto simp: sess_ok_def)

lemma sess_ok_insert:
  assumes ok: "sess_ok (S, P)" and fresh: "map_of (by_id (sx_registry S)) (lv_id s) = None" "lv_id s < sx_next_id S"
    and out: "lv_id s \<notin> fst ` set P" and ins: "insert_live W S s = Some (j, S')"
  shows "sess_ok (S', P)"
proof -
  obtain h where h: "lv_handle s = Some h" using ins by (auto simp: insert_live_def split: option.splits)
  define l where "l = \<lparr>lr_handle = h, lr_session = s, lr_holders = 1, lr_locked = False, lr_cancel = None,
                   lr_touched = sx_tick S, lr_bytes = session_bytes W s\<rparr>"
  define S1 where "S1 = S\<lparr>sx_registry := reg_insert (sx_registry S) (lv_id s) l, sx_tick := sx_tick S + 1\<rparr>"
  have "sess_ok (S1, P)"
  proof
    show "reg_ok (sx_registry S1)" using sess_okD(1) [OF ok] fresh(1) by (simp add: S1_def reg_ok_insert)
    show "live_ok S1 i k" if ik: "map_of (by_id (sx_registry S1)) i = Some k" for i k
      using ik sess_okD(2) [OF ok, of i k] h fresh(2)
      by (auto simp: S1_def by_id_insert live_ok_def l_def split: if_splits)
    show "fst p < sx_next_id S1 \<and> map_of (by_id (sx_registry S1)) (fst p) = None" if "p \<in> set P" for p
      using sess_okD(5,6) [OF ok that] out that by (cases p) (force simp: S1_def by_id_insert)
  qed (use sess_okD(3,4) [OF ok] in \<open>simp_all add: S1_def\<close>)
  moreover have "S' = S1\<lparr>sx_registry := evict W (sx_max_bytes S) (sx_registry S1)\<rparr>"
    using ins h by (auto simp: insert_live_def S1_def l_def Let_def)
  ultimately show ?thesis using sess_ok_evict by simp
qed

lemma sess_ok_close:
  assumes ok: "sess_ok (S, P)"
  shows "sess_ok (snd (close S i), P)"
proof -
  have "snd (close S i) = S\<lparr>sx_registry := snd (reg_remove (sx_registry S) i)\<rparr>"
    by (simp add: close_def Let_def case_prod_unfold)
  then show ?thesis
    using sess_okD [OF ok] by (auto simp: by_id_remove reg_ok_remove live_ok_def split: if_splits)
qed

lemma sess_ok_step:
  assumes "sess_step W x y" and "sess_ok x"
  shows "sess_ok y"
  using assms
proof (induction rule: sess_step.induct)
  case (Resolved s i h S j S' P Q)
  have "i \<notin> fst ` set (P @ Q)" using sess_okD(4) [OF Resolved.prems] by auto
  moreover have "map_of (by_id (sx_registry S)) i = None" "i < sx_next_id S"
    using sess_okD(5,6) [OF Resolved.prems, of "(i, h)"] by simp_all
  ultimately show ?case
    using sess_ok_insert [OF sess_ok_drop [OF Resolved.prems], of s W j S'] Resolved.hyps by simp
next
  case (Miss S h P)
  show ?case by (rule sess_ok_miss [OF Miss.prems])
qed (simp_all add: sess_ok_find sess_ok_reprice sess_ok_drop sess_ok_get sess_ok_close
  sess_ok_begin_cancel sess_ok_end_cancel sess_ok_cancel sess_ok_release sess_ok_lock sess_ok_unlock)

lemma sess_ok_reach: "sess_reach W mx x \<Longrightarrow> sess_ok x"
proof (induction rule: sess_reach.induct)
  case Start
  show ?case using reg_ok_empty by (auto simp: sess_ok_def sessions_new_def registry_empty_def)
next
  case (Step x y)
  show ?case by (rule sess_ok_step [OF Step.hyps(2) Step.IH])
qed

subsection \<open>Opening by handle\<close>

lemma measured_idle [simp]: "idle (measured W l) = idle l"
  by (simp add: measured_def idle_def)

lemma measured_holders [simp]: "lr_holders (measured W l) = lr_holders l"
  by (simp add: measured_def)

lemma evict_keeps:
  assumes "reg_ok R" and "map_of (by_id R) i = Some l" and "\<not> idle l"
  shows "map_of (by_id (evict W mx R)) i = Some (if mx = None then l else measured W l)"
proof (cases mx)
  case (Some b)
  have "map_of (by_id (refresh W R)) i = Some (measured W l)" using assms(2) by (simp add: refresh_def map_of_map_pairs)
  then show ?thesis
    using evict_loop_keeps [OF reg_ok_refresh [OF assms(1)], of W i "measured W l" b] assms(3) Some
    by (simp add: evict_def)
qed (simp add: evict_def assms)

lemma reprice_keeps:
  assumes ok: "reg_ok (sx_registry S)" and l: "map_of (by_id (sx_registry S)) i = Some l" "\<not> idle l"
  shows "\<exists>k. map_of (by_id (sx_registry (reprice W S j))) i = Some k \<and> lr_handle k = lr_handle l \<and>
    lr_holders k = lr_holders l"
proof -
  let ?R = "reg_update (sx_registry S) j (measured W)"
  have k: "map_of (by_id ?R) i = Some k" "k = l \<or> k = measured W l"
    if "k = (if i = j then measured W l else l)" for k
    using l(1) that by (auto simp: by_id_update)
  define k where "k = (if i = j then measured W l else l)"
  note k = k [OF k_def]
  have "reg_ok ?R" using ok by (rule reg_ok_update) simp
  moreover have "\<not> idle k" using k(2) l(2) by auto
  ultimately have "map_of (by_id (evict W (sx_max_bytes S) ?R)) i =
      Some (if sx_max_bytes S = None then k else measured W k)"
    using evict_keeps k(1) by blast
  then show ?thesis using k l(1) by (auto simp: reprice_def Let_def split: option.splits)
qed

text \<open>An entry under a handle with someone holding it, and the lookup that finds it.\<close>

definition open_at :: "sessions \<Rightarrow> session_handle \<Rightarrow> nat \<Rightarrow> bool" where
  "open_at S h i \<longleftrightarrow> map_of (by_handle (sx_registry S)) h = Some i \<and>
     (case map_of (by_id (sx_registry S)) i of None \<Rightarrow> False | Some l \<Rightarrow> lr_handle l = h \<and> 0 < lr_holders l)"

lemma open_atI:
  assumes "reg_ok (sx_registry S)" and "map_of (by_id (sx_registry S)) i = Some l" and "lr_handle l = h"
    and "0 < lr_holders l"
  shows "open_at S h i"
  using assms reg_ok_handle [OF assms(1), of h i] by (simp add: open_at_def)

lemma find_open:
  assumes "sess_ok (S, P)"
  shows "find_by_handle S h = Some (i, s, S') \<Longrightarrow> open_at S' h i \<and> map_of (by_handle (sx_registry S)) h = Some i"
    and "map_of (by_handle (sx_registry S)) h = Some i \<Longrightarrow> \<exists>s S'. find_by_handle S h = Some (i, s, S')"
proof -
  have ok: "reg_ok (sx_registry S)" using sess_okD(1) [OF assms] .
  show "\<exists>s S'. find_by_handle S h = Some (i, s, S')" if "map_of (by_handle (sx_registry S)) h = Some i"
    using that reg_ok_handle [OF ok, of h i] by (auto simp: find_by_handle_def get_live_def)
  assume found: "find_by_handle S h = Some (i, s, S')"
  then have h: "map_of (by_handle (sx_registry S)) h = Some i" and g: "get_live S i = Some (s, S')"
    by (auto simp: find_by_handle_def split: option.splits)
  then obtain l where l: "map_of (by_id (sx_registry S)) i = Some l" "lr_handle l = h"
    using reg_ok_handle [OF ok, of h i] by auto
  have ok': "reg_ok (sx_registry S')" using sess_okD(1) [OF sess_ok_find [OF found assms]] .
  have "map_of (by_id (sx_registry S')) i = Some (l\<lparr>lr_touched := sx_tick S, lr_holders := lr_holders l + 1\<rparr>)"
    using g l by (auto simp: get_live_def hold_def touch_def by_id_update)
  then show "open_at S' h i \<and> map_of (by_handle (sx_registry S)) h = Some i"
    using open_atI [OF ok', of i] l(2) h by simp
qed

lemma open_at_reprice:
  assumes ok: "sess_ok (S, P)" and h: "open_at S h i"
  shows "open_at (reprice W S j) h i"
proof -
  obtain l where l: "map_of (by_id (sx_registry S)) i = Some l" "lr_handle l = h" "0 < lr_holders l"
    using h by (auto simp: open_at_def split: option.splits)
  then have "\<not> idle l" by (simp add: idle_def)
  then show ?thesis
    using reprice_keeps [OF sess_okD(1) [OF ok] l(1), of W j] l(2,3)
      open_atI [OF sess_okD(1) [OF sess_ok_reprice [OF ok]]] by auto
qed

lemma insert_live_open:
  assumes ok: "sess_ok (S, P)" and fresh: "map_of (by_id (sx_registry S)) (lv_id s) = None"
    and h: "lv_handle s = Some h" and ins: "insert_live W S s = Some (i, S')"
  shows "open_at S' h i"
proof -
  define l where "l = \<lparr>lr_handle = h, lr_session = s, lr_holders = 1, lr_locked = False, lr_cancel = None,
                   lr_touched = sx_tick S, lr_bytes = session_bytes W s\<rparr>"
  define R where "R = reg_insert (sx_registry S) (lv_id s) l"
  have R: "reg_ok R" using sess_okD(1) [OF ok] fresh by (simp add: R_def reg_ok_insert)
  have i: "i = lv_id s" and S': "sx_registry S' = evict W (sx_max_bytes S) R"
    using ins h by (auto simp: insert_live_def Let_def R_def l_def)
  have "map_of (by_id R) i = Some l" by (simp add: R_def by_id_insert i)
  moreover have "\<not> idle l" by (simp add: idle_def l_def)
  ultimately have "map_of (by_id (sx_registry S')) i = Some (if sx_max_bytes S = None then l else measured W l)"
    using evict_keeps [OF R] S' by simp
  then show ?thesis
    using open_atI [OF _ _ _ _, of S' i] R by (auto simp: S' reg_ok_evict l_def split: if_splits)
qed

lemma load_id:
  assumes "load G m h i clock now = Inr (Some s)"
  shows "lv_id s = i \<and> lv_handle s = Some h"
  using assms
  by (auto simp: load_def session_new_def Let_def bindr_Inr split: option.splits if_splits)

lemma open_session_open:
  assumes ok: "sess_ok (S, [])" and r: "open_session G m S h agent creator rt clock now now' = (Inr i, S', m')"
  shows "open_at S' h i \<and> sess_ok (S', [])"
proof (cases "find_by_handle S h")
  case (Some p)
  obtain s S1 where p: "p = (i, s, S1)" and S': "S' = reprice (eg_wire G) S1 i"
    using r Some by (cases p) (auto simp: open_session_def)
  have found: "find_by_handle S h = Some (i, s, S1)" using Some p by simp
  have ok1: "sess_ok (S1, [])" by (rule sess_ok_find [OF found ok])
  show ?thesis
    using find_open(1) [OF ok found] open_at_reprice [OF ok1] sess_ok_reprice [OF ok1] by (simp add: S')
next
  case None
  let ?S = "S\<lparr>sx_next_id := sx_next_id S + 1\<rparr>"
  have ok1: "sess_ok (?S, [(sx_next_id S, h)])" using sess_ok_miss [OF ok] .
  then have fresh: "map_of (by_id (sx_registry ?S)) (sx_next_id S) = None" "sx_next_id S < sx_next_id ?S"
    using sess_okD(6) [OF ok1, of "(sx_next_id S, h)"] by simp_all
  have ok0: "sess_ok (?S, [])" using sess_ok_drop [of ?S "[]" "(sx_next_id S, h)" "[]"] ok1 by simp
  let ?new = "(session_new (sx_next_id S) agent creator clock now')\<lparr>lv_handle := Some h, lv_root := rt\<rparr>"
  have "\<exists>s. lv_id s = sx_next_id S \<and> lv_handle s = Some h \<and> insert_live (eg_wire G) ?S s = Some (i, S')"
  proof (cases "load G m h (sx_next_id S) clock now'")
    case (Inl e)
    then show ?thesis using r None by (simp add: open_session_def)
  next
    case (Inr x)
    show ?thesis
    proof (cases x)
      case None': None
      then have "insert_live (eg_wire G) ?S ?new = Some (i, S')"
        using r None Inr by (auto simp: open_session_def Let_def split: if_splits option.splits)
      moreover have "lv_id ?new = sx_next_id S" "lv_handle ?new = Some h" by (simp_all add: session_new_def)
      ultimately show ?thesis by blast
    next
      case (Some s)
      then have "insert_live (eg_wire G) ?S s = Some (i, S')"
        using r None Inr by (auto simp: open_session_def Let_def split: option.splits)
      then show ?thesis using load_id Inr Some by blast
    qed
  qed
  then obtain s where s: "lv_id s = sx_next_id S" "lv_handle s = Some h"
    and ins: "insert_live (eg_wire G) ?S s = Some (i, S')" by blast
  show ?thesis
    using insert_live_open [OF ok0 _ s(2) ins] sess_ok_insert [OF ok0 _ _ _ ins] fresh s(1) by simp
qed

lemma open_session_hit:
  assumes ok: "sess_ok (S, P)" and h: "map_of (by_handle (sx_registry S)) h = Some i"
  shows "\<exists>S'. open_session G m S h agent creator rt clock now now' = (Inr i, S', m)"
proof -
  obtain s S' where "find_by_handle S h = Some (i, s, S')" using find_open(2) [OF ok h] by blast
  then show ?thesis by (simp add: open_session_def)
qed

subsection \<open>The properties\<close>

text \<open>
  C13: In every state the registry can reach, resolves of handles interleaving in any way, its two
  indexes agree: a handle leads to an id exactly where the entry of that id bears the handle, so a
  handle never names two live sessions. Every entry is filed under its session's own id and handle,
  below the counter of ids, and was last touched before the next tick; every token it carries has
  been handed out.
\<close>

theorem reachable_indexes_agree:
  assumes "sess_reach W mx (S, P)"
  shows "(map_of (by_handle (sx_registry S)) h = Some i \<longleftrightarrow>
      (\<exists>l. map_of (by_id (sx_registry S)) i = Some l \<and> lr_handle l = h)) \<and>
    (map_of (by_id (sx_registry S)) i = Some l \<longrightarrow>
      lv_id (lr_session l) = i \<and> lv_handle (lr_session l) = Some (lr_handle l) \<and> i < sx_next_id S \<and>
      lr_touched l < sx_tick S \<and> (\<forall>t. lr_cancel l = Some t \<longrightarrow> t < sx_next_token S))"
  using reg_ok_handle [OF sess_okD(1) [OF sess_ok_reach [OF assms]]] sess_okD(2) [OF sess_ok_reach [OF assms], of i l]
  by (auto simp: live_ok_def)

text \<open>
  C14: A sweep does what its reference does, which drops the shortest prefix of the idle sessions,
  least recently used first, that brings the resident bytes within the bound, or all of them.
  A session somebody holds, or one with a cancellable operation, is never dropped.
\<close>

theorem evict_matches_reference:
  assumes "reg_ok R"
  shows "evict W (Some mx) R = evict_ref mx (refresh W R) \<and>
    (map_of (by_id R) i = Some l \<and> \<not> idle l \<longrightarrow> map_of (by_id (evict W (Some mx) R)) i = Some (measured W l))"
  using evict_loop_ref [OF reg_ok_refresh [OF assms]] evict_keeps [OF assms, of i l W "Some mx"]
  by (auto simp: evict_def)

text \<open>
  Whatever the bound, a session just opened is live under the handle asked for, with its caller
  holding it; a handle that already was live gets that session and leaves the store alone; and
  opening the handle again answers the same session, against any store and for any agent.
\<close>

theorem open_session_sticks:
  assumes ok: "sess_ok (S, [])" and r: "open_session G m S h agent creator rt clock now now' = (Inr i, S', m')"
  shows "open_at S' h i \<and>
    (\<forall>j. map_of (by_handle (sx_registry S)) h = Some j \<longrightarrow> j = i \<and> m' = m) \<and>
    (\<exists>S''. open_session G' m2 S' h agent2 creator2 rt2 clock2 now2 now3 = (Inr i, S'', m2))"
proof -
  have open': "open_at S' h i" "sess_ok (S', [])" using open_session_open [OF ok r] by simp_all
  then have "map_of (by_handle (sx_registry S')) h = Some i" by (simp add: open_at_def)
  then show ?thesis
    using open' open_session_hit [OF open'(2)] open_session_hit [OF ok, of h _ G m agent creator rt clock now now'] r
    by fastforce
qed

text \<open>
  A token stands for one operation: a cancel fires exactly the token its begin handed out, which
  no cancel fired before; after the operation ended, or the session closed, a cancel fails and
  fires nothing; and while the token is there no sweep drops the session.
\<close>

theorem cancel_lifecycle:
  assumes ok: "sess_ok (S, P)" and t: "begin_cancel S i = (Some t, S')"
  shows "t \<notin> set (sx_fired S) \<and> cancel S' i = (True, S'\<lparr>sx_fired := t # sx_fired S'\<rparr>) \<and>
    cancel (end_cancel S' i) i = (False, end_cancel S' i) \<and>
    cancel (snd (close S' i)) i = (False, snd (close S' i)) \<and>
    map_of (by_id (evict W mx (sx_registry S'))) i \<noteq> None"
proof -
  obtain l where l: "map_of (by_id (sx_registry S)) i = Some l" and new: "t = sx_next_token S"
    and S': "sx_registry S' = reg_update (sx_registry S) i (\<lambda>l. l\<lparr>lr_cancel := Some t\<rparr>)"
    using t by (auto simp: begin_cancel_def Let_def split: option.splits)
  have "t \<notin> set (sx_fired S)" using sess_okD(3) [OF ok, of t] by (auto simp: new)
  moreover have l': "map_of (by_id (sx_registry S')) i = Some (l\<lparr>lr_cancel := Some t\<rparr>)"
    by (simp add: S' by_id_update l)
  moreover have "reg_ok (sx_registry S')" using sess_okD(1) [OF ok] by (simp add: S' reg_ok_update)
  then have "map_of (by_id (evict W mx (sx_registry S'))) i \<noteq> None"
    using evict_keeps [OF _ l'] by (simp add: idle_def)
  ultimately show ?thesis
    by (simp add: cancel_def end_cancel_def close_def Let_def case_prod_unfold by_id_update by_id_remove)
qed

subsection \<open>Witnesses\<close>

text \<open>One session opened under a bound of nothing: its caller keeps it live.\<close>

definition sample_sessions :: sessions where
  "sample_sessions =
     (case insert_live text_wire ((sessions_new (Some 0))\<lparr>sx_next_id := 2\<rparr>) sample_live of
        Some (_, S) \<Rightarrow> S | None \<Rightarrow> sessions_new None)"

lemma sample_sessions_insert:
  "insert_live text_wire ((sessions_new (Some 0))\<lparr>sx_next_id := 2\<rparr>) sample_live = Some (1, sample_sessions)"
  by (simp add: sample_sessions_def insert_live_def sample_live_def session_new_def Let_def)

lemma sample_sessions_reach: "sess_reach text_wire (Some 0) (sample_sessions, [])"
proof -
  let ?S = "(sessions_new (Some 0))\<lparr>sx_next_id := 2\<rparr>"
  have "sess_step text_wire (sessions_new (Some 0), [])
      ((sessions_new (Some 0))\<lparr>sx_next_id := sx_next_id (sessions_new (Some 0)) + 1\<rparr>,
       (sx_next_id (sessions_new (Some 0)), ''s1'') # [])"
    by (rule sess_step.Miss) (simp add: find_by_handle_def sessions_new_def registry_empty_def)
  then have "sess_step text_wire (sessions_new (Some 0), []) (?S, [] @ (1, ''s1'') # [])"
    by (simp add: sessions_new_def numeral_2_eq_2)
  moreover have "sess_step text_wire (?S, [] @ (1, ''s1'') # []) (sample_sessions, [] @ [])"
    by (rule sess_step.Resolved [OF _ _ sample_sessions_insert]) (simp_all add: sample_live_def session_new_def)
  ultimately have "sess_reach text_wire (Some 0) (sample_sessions, [] @ [])"
    using sess_reach.Step [OF sess_reach.Step [OF sess_reach.Start]] by blast
  then show ?thesis by simp
qed

lemma sample_sessions_ok: "sess_ok (sample_sessions, [])"
  by (rule sess_ok_reach [OF sample_sessions_reach])

lemma sample_sessions_live:
  "map_of (by_handle (sx_registry sample_sessions)) ''s1'' = Some 1"
  "map_of (by_id (sx_registry sample_sessions)) 1 \<noteq> None"
proof -
  have h: "open_at sample_sessions ''s1'' 1"
    by (rule insert_live_open [OF _ _ _ sample_sessions_insert, of "[]"])
      (auto simp: sess_ok_def sample_live_def session_new_def sessions_new_def registry_empty_def reg_ok_empty [unfolded registry_empty_def])
  then show "map_of (by_handle (sx_registry sample_sessions)) ''s1'' = Some 1"
    "map_of (by_id (sx_registry sample_sessions)) 1 \<noteq> None"
    by (auto simp: open_at_def split: option.splits)
qed

theorem reachable_indexes_agree_witness:
  "\<exists>l. map_of (by_id (sx_registry sample_sessions)) 1 = Some l \<and> lr_handle l = ''s1''"
  using reachable_indexes_agree [OF sample_sessions_reach, of "''s1''" 1] sample_sessions_live by simp

definition two_idle :: registry where
  "two_idle =
     (let l = \<lparr>lr_handle = ''s1'', lr_session = sample_live, lr_holders = 0, lr_locked = False, lr_cancel = None,
               lr_touched = 5, lr_bytes = 0\<rparr>
      in reg_insert (reg_insert registry_empty 1 l) 2 (l\<lparr>lr_handle := ''s2'', lr_touched := 3\<rparr>))"

theorem evict_matches_reference_witness:
  "map fst (by_id two_idle) = [1, 2] \<and> map fst (by_id (evict text_wire (Some 1000) two_idle)) = [1]"
proof -
  have "reg_ok two_idle"
    unfolding two_idle_def Let_def by (intro reg_ok_insert reg_ok_empty) (simp_all add: by_id_insert registry_empty_def)
  then have "evict text_wire (Some 1000) two_idle = evict_ref 1000 (refresh text_wire two_idle)"
    using evict_matches_reference by blast
  moreover have "map fst (by_id two_idle) = [1, 2]" by code_simp
  moreover have "map fst (by_id (evict_ref 1000 (refresh text_wire two_idle))) = [1]" by code_simp
  ultimately show ?thesis by simp
qed

theorem open_session_sticks_witness:
  "\<exists>S'. open_session sample_engine [] sample_sessions ''s1'' 7 ''me'' None 0 ''t'' ''t'' = (Inr 1, S', []) \<and>
     open_at S' ''s1'' 1"
proof -
  obtain S' where r: "open_session sample_engine [] sample_sessions ''s1'' 7 ''me'' None 0 ''t'' ''t'' =
      (Inr 1, S', [])"
    using open_session_hit [OF sample_sessions_ok sample_sessions_live(1)] by blast
  show ?thesis using open_session_sticks [OF sample_sessions_ok r] r by blast
qed

theorem cancel_lifecycle_witness:
  "\<exists>S'. begin_cancel sample_sessions 1 = (Some 0, S') \<and> fst (cancel S' 1)"
proof -
  obtain S' where r: "begin_cancel sample_sessions 1 = (Some 0, S')"
    using sample_sessions_live(2)
    by (auto simp: begin_cancel_def Let_def sample_sessions_def insert_live_def sample_live_def session_new_def
        sessions_new_def)
  show ?thesis using cancel_lifecycle [OF sample_sessions_ok r] r by simp
qed

end
