(* ===== verification/ProtoWire.thy ===== *)
theory ProtoWire
  imports LiveSessions
begin

section \<open>The wire protocol (crates/proto/src)\<close>

text \<open>
  The messages of the protocol, the server's dispatch of a message to a handler and the client's
  typed calls. A message with one field is that field, one with a few is their tuple; the envelope
  is an option, since an empty one can arrive. What the runtime fills itself are its own records.
  A handler is a function on the state of the server; a stream is the list of what it yields, an
  error is its text. A client has two transport primitives; how Rust prints an unexpected reply is
  its argument. The lemmas show that a reply has the type its request's caller expects and
  that a typed call over any link that delivers replies returns what the handler returned.
\<close>

subsection \<open>Messages\<close>

record send_msg =
  sn_agent :: bytes
  sn_content :: bytes
  sn_sender :: "bytes option"
  sn_tool_choice :: "bytes option"
  sn_session :: bytes

record stream_msg =
  sq_agent :: bytes
  sq_content :: bytes
  sq_sender :: "bytes option"
  sq_guest :: "bytes option"
  sq_tool_choice :: "bytes option"
  sq_ephemeral :: bool
  sq_correlation :: "nat option"
  sq_session :: bytes

record create_session_msg =
  cs_session :: bytes
  cs_agent :: bytes
  cs_sender :: "bytes option"
  cs_root :: "bytes option"

record search_msg =
  sr_query :: bytes
  sr_limit :: "nat option"
  sr_before :: "nat option"
  sr_after :: "nat option"
  sr_agent :: bytes
  sr_sender :: bytes

record subscription_info =
  si_id :: nat
  si_source :: bytes
  si_target :: bytes
  si_once :: bool

record send_response =
  sp_agent :: bytes
  sp_content :: bytes
  sp_model :: bytes
  sp_usage :: "token_usage option"

text \<open>The events of a run, and the start of a stream that precedes them.\<close>

datatype stream_item = SStart bytes | SEvent wire_event

type_synonym stream_event = "stream_item option"

record daemon_stats =
  ss_uptime :: nat
  ss_active :: nat
  ss_agents :: nat
  ss_model :: bytes
  ss_version :: bytes

record agent_info =
  gi_id :: bytes
  gi_name :: bytes
  gi_description :: bytes
  gi_config :: bytes
  gi_model :: bytes
  gi_max_iterations :: nat
  gi_thinking :: bool
  gi_skills :: "bytes list"
  gi_mcps :: "bytes list"
  gi_compact_tool_max_len :: nat

record wire_window_item =
  wi_role :: bytes
  wi_msg_idx :: nat
  wi_snippet :: bytes
  wi_truncated :: bool
  wi_tool_name :: bytes

record wire_hit =
  wh_session :: bytes
  wh_msg_idx :: nat
  wh_score :: real
  wh_title :: bytes
  wh_agent_id :: bytes
  wh_agent_name :: bytes
  wh_sender :: bytes
  wh_created_at :: bytes
  wh_updated_at :: bytes
  wh_window :: "wire_window_item list"

datatype mcp_status = McpUnknown | McpConnectedStatus | McpDisconnectedStatus | McpFailedStatus | McpConnectingStatus

record mcp_info =
  mi_name :: bytes
  mi_command :: bytes
  mi_args :: "bytes list"
  mi_env :: "(bytes \<times> bytes) list"
  mi_url :: bytes
  mi_auth :: bytes
  mi_source :: bytes
  mi_auto_restart :: bool
  mi_status :: mcp_status
  mi_error :: bytes
  mi_tool_count :: nat

datatype agent_event_kind =
    KTextDelta | KThinkingDelta | KToolStart | KToolResult | KToolsComplete | KDone | KTextStart | KTextEnd
  | KThinkingStart | KThinkingEnd

record agent_event_msg =
  em_agent :: bytes
  em_sender :: bytes
  em_kind :: agent_event_kind
  em_content :: bytes
  em_timestamp :: bytes
  em_tool_calls :: "(bytes \<times> bytes) list"
  em_tool_output :: bytes
  em_tool_is_error :: bool
  em_ephemeral :: bool

record mcp_event_msg =
  mm_kind :: nat
  mm_name :: bytes
  mm_tools :: "bytes list"
  mm_error :: bytes
  mm_timestamp :: bytes
  mm_agent :: bytes

datatype client_msg =
    CSend send_msg
  | CStream stream_msg
  | CListActive bytes bytes
  | CKill bytes
  | CCompact bytes bytes
  | CListConversations bytes bytes
  | CSetActiveModel bytes
  | CListMcps bytes
  | CUpsertMcp bytes bytes
  | CDeleteMcp bytes bytes
  | CReconnectMcp bytes bytes
  | CListAgents
  | CGetAgent bytes
  | CCreateAgent bytes bytes
  | CUpdateAgent bytes bytes
  | CDeleteAgent bytes
  | CRenameAgent bytes bytes
  | CListSkills
  | CGetSkill bytes
  | CListModels
  | CGetHistory bytes
  | CSearchSessions search_msg
  | CDeleteConversation bytes
  | CPing
  | CGetConfig
  | CGetStats
  | CSubscribeEvents
  | CSubscribeEvent bytes bytes bool
  | CUnsubscribeEvent nat
  | CListSubscriptions
  | CPublishEvent bytes bytes
  | CCancelStream bytes
  | CCreateSession create_session_msg
  | CSubscribeMcpEvents
  | CExtension bytes

datatype server_msg =
    SError "32 word" bytes
  | SPong
  | SResponse send_response
  | SStream stream_event
  | SActive "active_info list"
  | SCompact bytes
  | SConversations "conversation_info list"
  | SMcpList "mcp_info list"
  | SAgentInfo agent_info
  | SAgentList "agent_info list"
  | SSkillList "skill_summary list"
  | SSkillBody bytes bytes
  | SModelList "(bytes \<times> bool) list"
  | SHistory conversation_history
  | SHits "wire_hit list"
  | SConfig bytes
  | SStats daemon_stats
  | SAgentEvent agent_event_msg
  | SSubscription subscription_info
  | SSubscriptions "subscription_info list"
  | SMcpInfo mcp_info
  | SMcpEvent mcp_event_msg
  | SExtension bytes

type_synonym client_message = "client_msg option"
type_synonym server_message = "server_msg option"

subsection \<open>The server (server.rs)\<close>

type_synonym ('s, 'a) handler = "'s \<Rightarrow> (bytes + 'a) \<times> 's"
type_synonym ('s, 'a) streamer = "'s \<Rightarrow> (bytes + 'a) list \<times> 's"

record 's server =
  sv_send :: "send_msg \<Rightarrow> ('s, send_response) handler"
  sv_stream :: "stream_msg \<Rightarrow> ('s, stream_event) streamer"
  sv_ping :: "('s, unit) handler"
  sv_list_active :: "('s, active_info list) handler"
  sv_kill :: "bytes \<Rightarrow> ('s, bool) handler"
  sv_subscribe_events :: "('s, agent_event_msg) streamer"
  sv_subscribe_mcp_events :: "('s, mcp_event_msg) streamer"
  sv_get_stats :: "('s, daemon_stats) handler"
  sv_subscribe_event :: "bytes \<Rightarrow> bytes \<Rightarrow> bool \<Rightarrow> ('s, subscription_info) handler"
  sv_unsubscribe_event :: "nat \<Rightarrow> ('s, bool) handler"
  sv_list_subscriptions :: "('s, subscription_info list) handler"
  sv_publish_event :: "bytes \<Rightarrow> bytes \<Rightarrow> ('s, unit) handler"
  sv_compact :: "bytes \<Rightarrow> bytes \<Rightarrow> ('s, bytes) handler"
  sv_cancel_stream :: "bytes \<Rightarrow> ('s, unit) handler"
  sv_create_session :: "create_session_msg \<Rightarrow> ('s, unit) handler"
  sv_list_agents :: "('s, agent_info list) handler"
  sv_get_agent :: "bytes \<Rightarrow> ('s, agent_info) handler"
  sv_create_agent :: "bytes \<Rightarrow> bytes \<Rightarrow> ('s, agent_info) handler"
  sv_update_agent :: "bytes \<Rightarrow> bytes \<Rightarrow> ('s, agent_info) handler"
  sv_delete_agent :: "bytes \<Rightarrow> ('s, bool) handler"
  sv_rename_agent :: "bytes \<Rightarrow> bytes \<Rightarrow> ('s, agent_info) handler"
  sv_list_skills :: "('s, skill_summary list) handler"
  sv_get_skill :: "bytes \<Rightarrow> ('s, bytes \<times> bytes) handler"
  sv_list_models :: "('s, (bytes \<times> bool) list) handler"
  sv_list_conversations :: "bytes \<Rightarrow> bytes \<Rightarrow> ('s, conversation_info list) handler"
  sv_get_history :: "bytes \<Rightarrow> ('s, conversation_history) handler"
  sv_delete_conversation :: "bytes \<Rightarrow> ('s, unit) handler"
  sv_search_sessions :: "search_msg \<Rightarrow> ('s, wire_hit list) handler"
  sv_list_mcps :: "bytes \<Rightarrow> ('s, mcp_info list) handler"
  sv_upsert_mcp :: "bytes \<Rightarrow> bytes \<Rightarrow> ('s, mcp_info) handler"
  sv_delete_mcp :: "bytes \<Rightarrow> bytes \<Rightarrow> ('s, bool) handler"
  sv_reconnect_mcp :: "bytes \<Rightarrow> bytes \<Rightarrow> ('s, mcp_info) handler"
  sv_set_active_model :: "bytes \<Rightarrow> ('s, unit) handler"
  sv_extension :: "bytes \<Rightarrow> ('s, bytes) handler"

definition extension_default :: "bytes \<Rightarrow> ('s, bytes) handler" where
  "extension_default payload s = (Inl ''extension not supported'', s)"

definition server_error :: "32 word \<Rightarrow> bytes \<Rightarrow> server_message" where
  "server_error code message = Some (SError code message)"

definition server_pong :: server_message where
  "server_pong = Some SPong"

definition in_quotes :: "bytes \<Rightarrow> bytes" where
  "in_quotes x = [CHR 0x27] @ x @ [CHR 0x27]"

text \<open>The arms of \<open>dispatch\<close>: a reply under a constructor, a pong, a pong or a 404, a stream.\<close>

definition reply :: "('a \<Rightarrow> server_msg) \<Rightarrow> 32 word \<Rightarrow> (bytes + 'a) \<times> 's \<Rightarrow> server_message list \<times> 's" where
  "reply wrap code = (\<lambda>(r, s). ([case r of Inr a \<Rightarrow> Some (wrap a) | Inl e \<Rightarrow> server_error code e], s))"

definition reply_unit :: "(bytes + unit) \<times> 's \<Rightarrow> server_message list \<times> 's" where
  "reply_unit = (\<lambda>(r, s). ([case r of Inr _ \<Rightarrow> server_pong | Inl e \<Rightarrow> server_error 500 e], s))"

definition reply_found :: "bytes \<Rightarrow> (bytes + bool) \<times> 's \<Rightarrow> server_message list \<times> 's" where
  "reply_found missing = (\<lambda>(r, s).
     ([case r of Inr found \<Rightarrow> if found then server_pong else server_error 404 missing
       | Inl e \<Rightarrow> server_error 500 e], s))"

definition result_to_msg :: "('a \<Rightarrow> server_msg) \<Rightarrow> bytes + 'a \<Rightarrow> server_message" where
  "result_to_msg wrap r = (case r of Inr a \<Rightarrow> Some (wrap a) | Inl e \<Rightarrow> server_error 500 e)"

definition reply_stream :: "('a \<Rightarrow> server_msg) \<Rightarrow> (bytes + 'a) list \<times> 's \<Rightarrow> server_message list \<times> 's" where
  "reply_stream wrap = (\<lambda>(rs, s). (map (result_to_msg wrap) rs, s))"

text \<open>The arms on agents and what belongs to them; the other messages have their arms above these.\<close>

fun dispatch_catalogue :: "'s server \<Rightarrow> 's \<Rightarrow> client_msg \<Rightarrow> server_message list \<times> 's" where
  "dispatch_catalogue V s CListAgents = reply SAgentList 500 (sv_list_agents V s)"
| "dispatch_catalogue V s (CGetAgent name) = reply SAgentInfo 404 (sv_get_agent V name s)"
| "dispatch_catalogue V s (CCreateAgent name config) = reply SAgentInfo 500 (sv_create_agent V name config s)"
| "dispatch_catalogue V s (CUpdateAgent agent config) = reply SAgentInfo 500 (sv_update_agent V agent config s)"
| "dispatch_catalogue V s (CDeleteAgent agent) =
     reply_found (''agent '' @ in_quotes agent @ '' not found in local manifest'') (sv_delete_agent V agent s)"
| "dispatch_catalogue V s (CRenameAgent agent name) = reply SAgentInfo 500 (sv_rename_agent V agent name s)"
| "dispatch_catalogue V s CListSkills = reply SSkillList 500 (sv_list_skills V s)"
| "dispatch_catalogue V s (CGetSkill name) = reply (\<lambda>(n, b). SSkillBody n b) 404 (sv_get_skill V name s)"
| "dispatch_catalogue V s (CSearchSessions m) = reply SHits 500 (sv_search_sessions V m s)"
| "dispatch_catalogue V s CListModels = reply SModelList 500 (sv_list_models V s)"
| "dispatch_catalogue V s (CListConversations agent sender) = reply SConversations 500 (sv_list_conversations V agent sender s)"
| "dispatch_catalogue V s (CGetHistory path) = reply SHistory 500 (sv_get_history V path s)"
| "dispatch_catalogue V s (CDeleteConversation path) = reply_unit (sv_delete_conversation V path s)"
| "dispatch_catalogue V s (CListMcps agent) = reply SMcpList 500 (sv_list_mcps V agent s)"
| "dispatch_catalogue V s (CUpsertMcp agent config) = reply SMcpInfo 500 (sv_upsert_mcp V agent config s)"
| "dispatch_catalogue V s (CDeleteMcp agent name) =
     reply_found (''mcp '' @ in_quotes name @ '' not found'') (sv_delete_mcp V agent name s)"
| "dispatch_catalogue V s (CReconnectMcp agent name) = reply SMcpInfo 500 (sv_reconnect_mcp V agent name s)"
| "dispatch_catalogue V s (CSetActiveModel model) = reply_unit (sv_set_active_model V model s)"
| "dispatch_catalogue V s (CExtension payload) = reply SExtension 500 (sv_extension V payload s)"
| "dispatch_catalogue V s _ = ([], s)"

fun dispatch_msg :: "'s server \<Rightarrow> 's \<Rightarrow> client_msg \<Rightarrow> server_message list \<times> 's" where
  "dispatch_msg V s (CSend m) = reply SResponse 500 (sv_send V m s)"
| "dispatch_msg V s (CStream m) = reply_stream SStream (sv_stream V m s)"
| "dispatch_msg V s CPing = reply_unit (sv_ping V s)"
| "dispatch_msg V s (CListActive agent sender) = reply SActive 500 (sv_list_active V s)"
| "dispatch_msg V s (CKill h) =
     reply_found (''conversation not found for handle='' @ in_quotes h) (sv_kill V h s)"
| "dispatch_msg V s CGetConfig =
     ([server_error 410 (''GetConfig is deprecated '' @ [CHR 0xE2, CHR 0x80, CHR 0x94] @ '' use GetStats and granular APIs'')], s)"
| "dispatch_msg V s CSubscribeEvents = reply_stream SAgentEvent (sv_subscribe_events V s)"
| "dispatch_msg V s CSubscribeMcpEvents = reply_stream SMcpEvent (sv_subscribe_mcp_events V s)"
| "dispatch_msg V s (CCancelStream h) = reply_unit (sv_cancel_stream V h s)"
| "dispatch_msg V s (CCreateSession m) = reply_unit (sv_create_session V m s)"
| "dispatch_msg V s CGetStats = reply SStats 500 (sv_get_stats V s)"
| "dispatch_msg V s (CSubscribeEvent source target once) = reply SSubscription 500 (sv_subscribe_event V source target once s)"
| "dispatch_msg V s (CUnsubscribeEvent i) =
     reply_found (''subscription '' @ show_nat i @ '' not found'') (sv_unsubscribe_event V i s)"
| "dispatch_msg V s CListSubscriptions = reply SSubscriptions 500 (sv_list_subscriptions V s)"
| "dispatch_msg V s (CPublishEvent source payload) = reply_unit (sv_publish_event V source payload s)"
| "dispatch_msg V s (CCompact h prompt) = reply SCompact 500 (sv_compact V h prompt s)"
| "dispatch_msg V s m = dispatch_catalogue V s m"

definition server_dispatch :: "'s server \<Rightarrow> 's \<Rightarrow> client_message \<Rightarrow> server_message list \<times> 's" where
  "server_dispatch V s m =
     (case m of
        None \<Rightarrow> ([server_error 400 ''empty client message''], s)
      | Some inner \<Rightarrow> dispatch_msg V s inner)"

subsection \<open>The client (client.rs, convert.rs)\<close>

text \<open>
  The stream primitive gives what arrives until the link reports an error or the caller stops
  reading: a caller that goes on past the last message waits.
\<close>

record 'c client =
  cl_request :: "client_message \<Rightarrow> ('c, server_message) handler"
  cl_stream :: "client_message \<Rightarrow> ('c, server_message) streamer"
  cl_debug :: "server_message \<Rightarrow> bytes"

definition server_error_text :: "32 word \<Rightarrow> bytes \<Rightarrow> bytes" where
  "server_error_text code message = ''server error ('' @ show_nat (unat code) @ ''): '' @ message"

definition error_or_unexpected :: "(server_message \<Rightarrow> bytes) \<Rightarrow> server_message \<Rightarrow> bytes" where
  "error_or_unexpected debug m =
     (case m of
        Some (SError code message) \<Rightarrow> server_error_text code message
      | _ \<Rightarrow> ''unexpected response: '' @ debug m)"

definition expect :: "(server_message \<Rightarrow> bytes) \<Rightarrow> (server_msg \<Rightarrow> 'a option) \<Rightarrow> bytes + server_message \<Rightarrow> bytes + 'a" where
  "expect debug pick r =
     bindr r (\<lambda>m. case Option.bind m pick of
       Some a \<Rightarrow> Inr a
     | None \<Rightarrow> Inl (error_or_unexpected debug m))"

definition call :: "'c client \<Rightarrow> client_msg \<Rightarrow> (server_msg \<Rightarrow> 'a option) \<Rightarrow> ('c, 'a) handler" where
  "call X m pick c = (let (r, c') = cl_request X (Some m) c in (expect (cl_debug X) pick r, c'))"

fun is_pong :: "server_msg \<Rightarrow> unit option" where
  "is_pong SPong = Some ()"
| "is_pong _ = None"

definition client_send :: "'c client \<Rightarrow> send_msg \<Rightarrow> ('c, send_response) handler" where
  "client_send X m = call X (CSend m) (\<lambda>r. case r of SResponse a \<Rightarrow> Some a | _ \<Rightarrow> None)"

definition client_ping :: "'c client \<Rightarrow> ('c, unit) handler" where
  "client_ping X = call X CPing is_pong"

definition client_get_stats :: "'c client \<Rightarrow> ('c, daemon_stats) handler" where
  "client_get_stats X = call X CGetStats (\<lambda>r. case r of SStats a \<Rightarrow> Some a | _ \<Rightarrow> None)"

definition client_list_agents :: "'c client \<Rightarrow> ('c, agent_info list) handler" where
  "client_list_agents X = call X CListAgents (\<lambda>r. case r of SAgentList a \<Rightarrow> Some a | _ \<Rightarrow> None)"

definition agent_info_of :: "server_msg \<Rightarrow> agent_info option" where
  "agent_info_of r = (case r of SAgentInfo a \<Rightarrow> Some a | _ \<Rightarrow> None)"

definition client_get_agent :: "'c client \<Rightarrow> bytes \<Rightarrow> ('c, agent_info) handler" where
  "client_get_agent X name = call X (CGetAgent name) agent_info_of"

definition client_create_agent :: "'c client \<Rightarrow> bytes \<Rightarrow> bytes \<Rightarrow> ('c, agent_info) handler" where
  "client_create_agent X name config = call X (CCreateAgent name config) agent_info_of"

definition client_update_agent :: "'c client \<Rightarrow> bytes \<Rightarrow> bytes \<Rightarrow> ('c, agent_info) handler" where
  "client_update_agent X agent config = call X (CUpdateAgent agent config) agent_info_of"

definition client_delete_agent :: "'c client \<Rightarrow> bytes \<Rightarrow> ('c, unit) handler" where
  "client_delete_agent X agent = call X (CDeleteAgent agent) is_pong"

definition client_rename_agent :: "'c client \<Rightarrow> bytes \<Rightarrow> bytes \<Rightarrow> ('c, agent_info) handler" where
  "client_rename_agent X agent new_name = call X (CRenameAgent agent new_name) agent_info_of"

definition client_list_conversations :: "'c client \<Rightarrow> bytes \<Rightarrow> bytes \<Rightarrow> ('c, conversation_info list) handler" where
  "client_list_conversations X agent sender =
     call X (CListConversations agent sender) (\<lambda>r. case r of SConversations a \<Rightarrow> Some a | _ \<Rightarrow> None)"

definition client_get_history :: "'c client \<Rightarrow> bytes \<Rightarrow> ('c, conversation_history) handler" where
  "client_get_history X path = call X (CGetHistory path) (\<lambda>r. case r of SHistory a \<Rightarrow> Some a | _ \<Rightarrow> None)"

definition client_delete_conversation :: "'c client \<Rightarrow> bytes \<Rightarrow> ('c, unit) handler" where
  "client_delete_conversation X path = call X (CDeleteConversation path) is_pong"

definition client_list_mcps :: "'c client \<Rightarrow> bytes \<Rightarrow> ('c, mcp_info list) handler" where
  "client_list_mcps X agent = call X (CListMcps agent) (\<lambda>r. case r of SMcpList a \<Rightarrow> Some a | _ \<Rightarrow> None)"

definition mcp_info_of :: "server_msg \<Rightarrow> mcp_info option" where
  "mcp_info_of r = (case r of SMcpInfo a \<Rightarrow> Some a | _ \<Rightarrow> None)"

definition client_upsert_mcp :: "'c client \<Rightarrow> bytes \<Rightarrow> bytes \<Rightarrow> ('c, mcp_info) handler" where
  "client_upsert_mcp X agent config = call X (CUpsertMcp agent config) mcp_info_of"

definition client_delete_mcp :: "'c client \<Rightarrow> bytes \<Rightarrow> bytes \<Rightarrow> ('c, unit) handler" where
  "client_delete_mcp X agent name = call X (CDeleteMcp agent name) is_pong"

definition client_reconnect_mcp :: "'c client \<Rightarrow> bytes \<Rightarrow> bytes \<Rightarrow> ('c, mcp_info) handler" where
  "client_reconnect_mcp X agent name = call X (CReconnectMcp agent name) mcp_info_of"

definition client_set_active_model :: "'c client \<Rightarrow> bytes \<Rightarrow> ('c, unit) handler" where
  "client_set_active_model X model = call X (CSetActiveModel model) is_pong"

definition client_list_skills :: "'c client \<Rightarrow> ('c, skill_summary list) handler" where
  "client_list_skills X = call X CListSkills (\<lambda>r. case r of SSkillList a \<Rightarrow> Some a | _ \<Rightarrow> None)"

definition client_search_sessions :: "'c client \<Rightarrow> search_msg \<Rightarrow> ('c, wire_hit list) handler" where
  "client_search_sessions X m = call X (CSearchSessions m) (\<lambda>r. case r of SHits a \<Rightarrow> Some a | _ \<Rightarrow> None)"

definition client_get_skill :: "'c client \<Rightarrow> bytes \<Rightarrow> ('c, bytes \<times> bytes) handler" where
  "client_get_skill X name = call X (CGetSkill name) (\<lambda>r. case r of SSkillBody n b \<Rightarrow> Some (n, b) | _ \<Rightarrow> None)"

definition client_list_models :: "'c client \<Rightarrow> ('c, (bytes \<times> bool) list) handler" where
  "client_list_models X = call X CListModels (\<lambda>r. case r of SModelList a \<Rightarrow> Some a | _ \<Rightarrow> None)"

definition client_subscribe_event :: "'c client \<Rightarrow> bytes \<Rightarrow> bytes \<Rightarrow> bool \<Rightarrow> ('c, subscription_info) handler" where
  "client_subscribe_event X source target once =
     call X (CSubscribeEvent source target once) (\<lambda>r. case r of SSubscription a \<Rightarrow> Some a | _ \<Rightarrow> None)"

definition client_unsubscribe_event :: "'c client \<Rightarrow> nat \<Rightarrow> ('c, unit) handler" where
  "client_unsubscribe_event X i = call X (CUnsubscribeEvent i) is_pong"

definition client_list_subscriptions :: "'c client \<Rightarrow> ('c, subscription_info list) handler" where
  "client_list_subscriptions X =
     call X CListSubscriptions (\<lambda>r. case r of SSubscriptions a \<Rightarrow> Some a | _ \<Rightarrow> None)"

definition client_publish_event :: "'c client \<Rightarrow> bytes \<Rightarrow> bytes \<Rightarrow> ('c, unit) handler" where
  "client_publish_event X source payload = call X (CPublishEvent source payload) is_pong"

definition client_list_active :: "'c client \<Rightarrow> bytes \<Rightarrow> bytes \<Rightarrow> ('c, active_info list) handler" where
  "client_list_active X agent sender =
     call X (CListActive agent sender) (\<lambda>r. case r of SActive a \<Rightarrow> Some a | _ \<Rightarrow> None)"

text \<open>A 404 is the answer no.\<close>

definition client_kill :: "'c client \<Rightarrow> bytes \<Rightarrow> ('c, bool) handler" where
  "client_kill X h = call X (CKill h) (\<lambda>r. case r of
     SPong \<Rightarrow> Some True
   | SError code message \<Rightarrow> if code = 404 then Some False else None
   | _ \<Rightarrow> None)"

definition client_compact :: "'c client \<Rightarrow> bytes \<Rightarrow> bytes \<Rightarrow> ('c, bytes) handler" where
  "client_compact X h prompt = call X (CCompact h prompt) (\<lambda>r. case r of SCompact a \<Rightarrow> Some a | _ \<Rightarrow> None)"

definition client_get_config :: "'c client \<Rightarrow> ('c, bytes) handler" where
  "client_get_config X = call X CGetConfig (\<lambda>r. case r of SConfig a \<Rightarrow> Some a | _ \<Rightarrow> None)"

definition client_cancel_stream :: "'c client \<Rightarrow> bytes \<Rightarrow> ('c, unit) handler" where
  "client_cancel_stream X h = call X (CCancelStream h) is_pong"

definition client_create_session :: "'c client \<Rightarrow> create_session_msg \<Rightarrow> ('c, unit) handler" where
  "client_create_session X m = call X (CCreateSession m) is_pong"

fun is_end :: "bytes + server_message \<Rightarrow> bool" where
  "is_end (Inr (Some (SStream (Some (SEvent (WEnd agent err model u)))))) = True"
| "is_end _ = False"

definition event_of :: "(server_message \<Rightarrow> bytes) \<Rightarrow> server_message \<Rightarrow> bytes + stream_item" where
  "event_of debug m =
     (case m of
        Some (SStream e) \<Rightarrow> (case e of Some x \<Rightarrow> Inr x | None \<Rightarrow> Inl ''empty stream event'')
      | _ \<Rightarrow> Inl (error_or_unexpected debug m))"

definition client_stream :: "'c client \<Rightarrow> stream_msg \<Rightarrow> ('c, stream_item) streamer" where
  "client_stream X m c =
     (let (rs, c') = cl_stream X (Some (CStream m)) c
      in (map (\<lambda>r. bindr r (event_of (cl_debug X))) (takeWhile (\<lambda>r. \<not> is_end r) rs), c'))"

definition only :: "(server_msg \<Rightarrow> 'a option) \<Rightarrow> bytes + server_message \<Rightarrow> (bytes + 'a) option" where
  "only pick r =
     (case r of
        Inl e \<Rightarrow> Some (Inl e)
      | Inr m \<Rightarrow>
          (case Option.bind m pick of
             Some a \<Rightarrow> Some (Inr a)
           | None \<Rightarrow> (case m of Some (SError code message) \<Rightarrow> Some (Inl (server_error_text code message)) | _ \<Rightarrow> None)))"

definition client_subscribe_events :: "'c client \<Rightarrow> ('c, agent_event_msg) streamer" where
  "client_subscribe_events X c =
     (let (rs, c') = cl_stream X (Some CSubscribeEvents) c
      in (List.map_filter (only (\<lambda>r. case r of SAgentEvent e \<Rightarrow> Some e | _ \<Rightarrow> None)) rs, c'))"

definition client_subscribe_mcp_events :: "'c client \<Rightarrow> ('c, mcp_event_msg) streamer" where
  "client_subscribe_mcp_events X c =
     (let (rs, c') = cl_stream X (Some CSubscribeMcpEvents) c
      in (List.map_filter (only (\<lambda>r. case r of SMcpEvent e \<Rightarrow> Some e | _ \<Rightarrow> None)) rs, c'))"

definition client_steer :: "'c client \<Rightarrow> bytes \<Rightarrow> bytes \<Rightarrow> bytes \<Rightarrow> ('c, stream_item) streamer" where
  "client_steer X agent h content c =
     (let (_, c') = client_cancel_stream X h c
      in client_stream X \<lparr>sq_agent = agent, sq_content = content, sq_sender = None, sq_guest = None,
           sq_tool_choice = None, sq_ephemeral = False, sq_correlation = None, sq_session = h\<rparr> c')"

subsection \<open>Typing of replies\<close>

text \<open>The one message a reply to a request may be, errors apart.\<close>

fun reply_type :: "client_msg \<Rightarrow> server_msg \<Rightarrow> bool" where
  "reply_type (CSend m) r = (\<exists>a. r = SResponse a)"
| "reply_type (CStream m) r = (\<exists>a. r = SStream a)"
| "reply_type (CListActive a b) r = (\<exists>a. r = SActive a)"
| "reply_type (CCompact a b) r = (\<exists>a. r = SCompact a)"
| "reply_type (CListConversations a b) r = (\<exists>a. r = SConversations a)"
| "reply_type (CListMcps a) r = (\<exists>a. r = SMcpList a)"
| "reply_type (CUpsertMcp a b) r = (\<exists>a. r = SMcpInfo a)"
| "reply_type (CReconnectMcp a b) r = (\<exists>a. r = SMcpInfo a)"
| "reply_type CListAgents r = (\<exists>a. r = SAgentList a)"
| "reply_type (CGetAgent a) r = (\<exists>a. r = SAgentInfo a)"
| "reply_type (CCreateAgent a b) r = (\<exists>a. r = SAgentInfo a)"
| "reply_type (CUpdateAgent a b) r = (\<exists>a. r = SAgentInfo a)"
| "reply_type (CRenameAgent a b) r = (\<exists>a. r = SAgentInfo a)"
| "reply_type CListSkills r = (\<exists>a. r = SSkillList a)"
| "reply_type (CGetSkill a) r = (\<exists>a b. r = SSkillBody a b)"
| "reply_type CListModels r = (\<exists>a. r = SModelList a)"
| "reply_type (CGetHistory a) r = (\<exists>a. r = SHistory a)"
| "reply_type (CSearchSessions m) r = (\<exists>a. r = SHits a)"
| "reply_type CGetConfig r = (\<exists>a. r = SConfig a)"
| "reply_type CGetStats r = (\<exists>a. r = SStats a)"
| "reply_type CSubscribeEvents r = (\<exists>a. r = SAgentEvent a)"
| "reply_type CSubscribeMcpEvents r = (\<exists>a. r = SMcpEvent a)"
| "reply_type (CSubscribeEvent a b c) r = (\<exists>a. r = SSubscription a)"
| "reply_type CListSubscriptions r = (\<exists>a. r = SSubscriptions a)"
| "reply_type (CExtension a) r = (\<exists>a. r = SExtension a)"
| "reply_type _ r = (r = SPong)"

fun streams :: "client_msg \<Rightarrow> bool" where
  "streams (CStream m) = True"
| "streams CSubscribeEvents = True"
| "streams CSubscribeMcpEvents = True"
| "streams _ = False"

text \<open>
  C22: Every message the server sends is an error or of the type its request's caller expects, and
  a request that is not a stream gets exactly one; an empty envelope gets one error.
\<close>

theorem dispatch_replies_typed:
  "list_all (\<lambda>x. case x of
      None \<Rightarrow> False
    | Some (SError code message) \<Rightarrow> True
    | Some r \<Rightarrow> (case m of None \<Rightarrow> False | Some q \<Rightarrow> reply_type q r)) (fst (server_dispatch V s m)) \<and>
   (if (case m of None \<Rightarrow> False | Some q \<Rightarrow> streams q) then True
    else length (fst (server_dispatch V s m)) = 1)"
proof (cases m)
  case None
  then show ?thesis by (simp add: server_dispatch_def server_error_def)
next
  case (Some q)
  then show ?thesis
    by (cases q) (auto simp: server_dispatch_def reply_def reply_unit_def reply_found_def reply_stream_def
        result_to_msg_def server_error_def server_pong_def list_all_iff split: prod.splits sum.splits)
qed

subsection \<open>Typed calls over a link\<close>

text \<open>What a stream primitive hands over: the messages up to the first error, which ends it.\<close>

fun until_error :: "server_message list \<Rightarrow> (bytes + server_message) list" where
  "until_error [] = []"
| "until_error (Some (SError code message) # ms) = [Inl (server_error_text code message)]"
| "until_error (m # ms) = Inr m # until_error ms"

text \<open>A typed call that reads a missing thing as an error.\<close>

definition found_or :: "bytes \<Rightarrow> bytes + bool \<Rightarrow> bytes + unit" where
  "found_or missing r =
     (case r of
        Inr found \<Rightarrow> if found then Inr () else Inl (server_error_text 404 missing)
      | Inl e \<Rightarrow> Inl (server_error_text 500 e))"

text \<open>
  What a client may rely on of its link to a server, for the messages that fit it: the one reply
  of a request is delivered, and a stream is delivered up to its first error.
\<close>

locale wire_link =
  fixes V :: "'s server" and X :: "'s client" and fits :: "'s \<Rightarrow> client_msg \<Rightarrow> bool"
  assumes request_delivers:
    "fits s q \<Longrightarrow> dispatch_msg V s q = ([r], s') \<Longrightarrow> cl_request X (Some q) s = (Inr r, s')"
    and stream_delivers:
    "fits s q \<Longrightarrow> dispatch_msg V s q = (rs, s') \<Longrightarrow> cl_stream X (Some q) s = (until_error rs, s')"
begin

lemma typed_reply:
  assumes "fits s q" and "dispatch_msg V s q = reply wrap code h" and "\<And>a. pick (wrap a) = Some a"
    and "\<And>e. pick (SError code e) = None"
  shows "call X q pick s = (map_sum (server_error_text code) id (fst h), snd h)"
proof -
  obtain r s' where h: "h = (r, s')" by (cases h) blast
  have "cl_request X (Some q) s = (Inr (case r of Inr a \<Rightarrow> Some (wrap a) | Inl e \<Rightarrow> server_error code e), s')"
    by (rule request_delivers [OF assms(1)]) (simp add: assms(2) h reply_def)
  then show ?thesis
    using assms(3,4) by (cases r) (simp_all add: call_def expect_def h server_error_def error_or_unexpected_def)
qed

lemma typed_unit:
  assumes "fits s q" and "dispatch_msg V s q = reply_unit h"
  shows "call X q is_pong s = (map_sum (server_error_text 500) id (fst h), snd h)"
proof -
  obtain r s' where h: "h = (r, s')" by (cases h) blast
  have "cl_request X (Some q) s = (Inr (case r of Inr _ \<Rightarrow> server_pong | Inl e \<Rightarrow> server_error 500 e), s')"
    by (rule request_delivers [OF assms(1)]) (simp add: assms(2) h reply_unit_def)
  then show ?thesis
    by (cases r) (simp_all add: call_def expect_def h server_error_def server_pong_def error_or_unexpected_def)
qed

lemma typed_found:
  assumes "fits s q" and "dispatch_msg V s q = reply_found missing h"
  shows "call X q is_pong s = (found_or missing (fst h), snd h)"
proof -
  obtain r s' where h: "h = (r, s')" by (cases h) blast
  have "cl_request X (Some q) s = (Inr (case r of Inr found \<Rightarrow> if found then server_pong else server_error 404 missing
       | Inl e \<Rightarrow> server_error 500 e), s')"
    by (rule request_delivers [OF assms(1)]) (simp add: assms(2) h reply_found_def)
  then show ?thesis
    by (cases r) (simp_all add: call_def expect_def h server_error_def server_pong_def error_or_unexpected_def found_or_def)
qed

lemma typed_kill:
  assumes "fits s (CKill h)"
  shows "client_kill X h s = (map_sum (server_error_text 500) id (fst (sv_kill V h s)), snd (sv_kill V h s))"
proof -
  obtain r s' where h: "sv_kill V h s = (r, s')" by (cases "sv_kill V h s") blast
  have "cl_request X (Some (CKill h)) s = (Inr (case r of Inr found \<Rightarrow> if found then server_pong
      else server_error 404 (''conversation not found for handle='' @ in_quotes h) | Inl e \<Rightarrow> server_error 500 e), s')"
    by (rule request_delivers [OF assms], unfold dispatch_msg.simps reply_found_def h) simp
  then show ?thesis
    by (cases r) (simp_all add: client_kill_def call_def expect_def h server_error_def server_pong_def error_or_unexpected_def)
qed

text \<open>
  A stream of events that ends as it should: the client sees the events and not the end. One that
  breaks: the events and the error.
\<close>

lemma stream_seen:
  assumes "fits s (CStream m)" and "sv_stream V m s = (map (\<lambda>e. Inr (Some e)) es @ last_of, s')"
    and "list_all (\<lambda>e. case e of SEvent (WEnd _ _ _ _) \<Rightarrow> False | _ \<Rightarrow> True) es"
    and "last_of = [Inr (Some (SEvent (WEnd agent err model u)))] \<or> last_of = [Inl text]"
  shows "client_stream X m s =
    (map Inr es @ (case last_of of [Inl e] \<Rightarrow> [Inl (server_error_text 500 e)] | _ \<Rightarrow> []), s')"
proof -
  let ?ms = "map (result_to_msg SStream) (map (\<lambda>e. Inr (Some e)) es @ last_of)"
  have "cl_stream X (Some (CStream m)) s = (until_error ?ms, s')"
    by (rule stream_delivers [OF assms(1)]) (simp add: assms(2) reply_stream_def)
  moreover have "until_error (map (\<lambda>e. Some (SStream (Some e))) es @ rs) = map (\<lambda>e. Inr (Some (SStream (Some e)))) es @ until_error rs"
    for rs by (induction es) simp_all
  moreover have "takeWhile (\<lambda>r. \<not> is_end r) (map (\<lambda>e. Inr (Some (SStream (Some e)))) es @ rs) =
      map (\<lambda>e. Inr (Some (SStream (Some e)))) es @ takeWhile (\<lambda>r. \<not> is_end r) rs" for rs
    using assms(3) by (induction es) (auto split: stream_item.splits wire_event.splits)
  ultimately show ?thesis
    using assms(4) by (auto simp: client_stream_def comp_def result_to_msg_def event_of_def server_error_def)
qed

end

end
