(* ===== verification/Transport.thy ===== *)
theory Transport
  imports ProtoWire
begin

section \<open>Frames and connections (crates/transport/src)\<close>

text \<open>
  A frame is a big-endian 32-bit length and that many bytes. A connection is a pair of byte
  streams; a reader is the list of the bytes that arrive until the stream is closed. Protobuf is a
  package: an encoder and a decoder are the argument \<open>pb\<close>. The two transports share their code
  but for the socket, and a server's loop over one connection is the same for both. A client has
  one request under way on a connection and keeps its half open, so the task that dispatches it
  is the only one that writes; backpressure is not visible in the bytes.
  The lemmas show that frames are self-delimiting, what a frame beyond the bound does to a
  connection, and that a connection is a link in the sense of the protocol.
\<close>

subsection \<open>Codec (codec.rs)\<close>

definition MAX_FRAME_SIZE :: nat where
  "MAX_FRAME_SIZE = 16 * 1024 * 1024"

datatype frame_error = FrameIo | TooLarge nat | Codec bytes | ConnectionClosed

definition show_frame_error :: "frame_error \<Rightarrow> bytes" where
  "show_frame_error e =
     (case e of
        FrameIo \<Rightarrow> ''io error: early eof''
      | TooLarge n \<Rightarrow> ''frame too large: '' @ show_nat n @ '' bytes (max '' @ show_nat MAX_FRAME_SIZE @ '')''
      | Codec t \<Rightarrow> ''codec error: '' @ t
      | ConnectionClosed \<Rightarrow> ''connection closed'')"

record 'm pb =
  pb_encode :: "'m \<Rightarrow> bytes"
  pb_decode :: "bytes \<Rightarrow> bytes + 'm"

definition write_message :: "'m pb \<Rightarrow> bytes \<Rightarrow> 'm \<Rightarrow> frame_error + bytes" where
  "write_message K writer msg =
     (let data = pb_encode K msg; len = length data mod 2 ^ 32
      in if len > MAX_FRAME_SIZE then Inl (TooLarge len)
         else Inr (writer @ be_bytes 4 len @ data))"

definition read_message :: "'m pb \<Rightarrow> bytes \<Rightarrow> (frame_error + 'm) \<times> bytes" where
  "read_message K reader =
     (if length reader < 4 then (Inl ConnectionClosed, [])
      else
        let len = be_nat (take 4 reader); rest = drop 4 reader
        in if len > MAX_FRAME_SIZE then (Inl (TooLarge len), rest)
           else if length rest < len then (Inl FrameIo, [])
           else (case pb_decode K (take len rest) of
                   Inl t \<Rightarrow> (Inl (Codec t), drop len rest)
                 | Inr msg \<Rightarrow> (Inr msg, drop len rest)))"

subsection \<open>A connection (uds, tcp)\<close>

text \<open>The sender writes replies until one does not fit; then the connection is closed.\<close>

fun send_replies :: "'m pb \<Rightarrow> bytes \<Rightarrow> 'm list \<Rightarrow> bytes" where
  "send_replies K writer [] = writer"
| "send_replies K writer (m # ms) =
     (case write_message K writer m of
        Inl e \<Rightarrow> writer
      | Inr writer' \<Rightarrow> send_replies K writer' ms)"

lemma read_message_shorter: "read_message K reader = (Inr m, rest) \<Longrightarrow> length rest < length reader"
  by (auto simp: read_message_def Let_def split: if_splits sum.splits)

text \<open>
  The loop of a connection: each message that arrives is dispatched, its replies go to the sender.
  A message that cannot be read ends the connection.
\<close>

function serve :: "client_message pb \<Rightarrow> server_message pb \<Rightarrow> 's server \<Rightarrow> 's \<Rightarrow> bytes \<Rightarrow> server_message list \<times> 's" where
  "serve KC KS V s reader =
     (case read_message KC reader of
        (Inl e, _) \<Rightarrow> ([], s)
      | (Inr m, rest) \<Rightarrow>
          (let (rs, s1) = server_dispatch V s m; (rs', s2) = serve KC KS V s1 rest
           in (rs @ rs', s2)))"
  by pat_completeness auto

termination
  by (relation "measure (\<lambda>(KC, KS, V, s, reader). length reader)") (auto dest: read_message_shorter [OF sym])

declare serve.simps [simp del]

definition conn_request ::
  "client_message pb \<Rightarrow> server_message pb \<Rightarrow> 's server \<Rightarrow> client_message \<Rightarrow> ('s, server_message) handler" where
  "conn_request KC KS V m s =
     (case write_message KC [] m of
        Inl e \<Rightarrow> (Inl (show_frame_error e), s)
      | Inr wire \<Rightarrow>
          (let (rs, s') = serve KC KS V s wire
           in (map_sum show_frame_error id (fst (read_message KS (send_replies KS [] rs))), s')))"

text \<open>
  The stream primitive reads until an error, which it turns into its last item. It goes on waiting
  after the last message: \<open>[]\<close> is that nothing more arrives.
\<close>

function read_stream :: "server_message pb \<Rightarrow> bytes \<Rightarrow> (bytes + server_message) list" where
  "read_stream KS reader =
     (if reader = [] then []
      else case read_message KS reader of
        (Inl e, _) \<Rightarrow> [Inl (show_frame_error e)]
      | (Inr m, rest) \<Rightarrow>
          (case m of
             Some (SError code message) \<Rightarrow> [Inl (server_error_text code message)]
           | _ \<Rightarrow> Inr m # read_stream KS rest))"
  by pat_completeness auto

termination
  by (relation "measure (\<lambda>(KS, reader). length reader)") (auto dest: read_message_shorter [OF sym])

declare read_stream.simps [simp del]

definition conn_stream ::
  "client_message pb \<Rightarrow> server_message pb \<Rightarrow> 's server \<Rightarrow> client_message \<Rightarrow> ('s, server_message) streamer" where
  "conn_stream KC KS V m s =
     (case write_message KC [] m of
        Inl e \<Rightarrow> ([Inl (show_frame_error e)], s)
      | Inr wire \<Rightarrow>
          (let (rs, s') = serve KC KS V s wire in (read_stream KS (send_replies KS [] rs), s')))"

definition connection ::
  "client_message pb \<Rightarrow> server_message pb \<Rightarrow> (server_message \<Rightarrow> bytes) \<Rightarrow> 's server \<Rightarrow> 's client" where
  "connection KC KS debug V =
     \<lparr>cl_request = conn_request KC KS V, cl_stream = conn_stream KC KS V, cl_debug = debug\<rparr>"

subsection \<open>Frames\<close>

text \<open>A message a frame can carry: it decodes again and is not beyond the bound.\<close>

definition carries :: "'m pb \<Rightarrow> 'm \<Rightarrow> bool" where
  "carries K m \<longleftrightarrow> pb_decode K (pb_encode K m) = Inr m \<and> length (pb_encode K m) \<le> MAX_FRAME_SIZE"

definition frame :: "'m pb \<Rightarrow> 'm \<Rightarrow> bytes" where
  "frame K m = be_bytes 4 (length (pb_encode K m)) @ pb_encode K m"

lemma carries_mod: "carries K m \<Longrightarrow> length (pb_encode K m) mod 2 ^ 32 = length (pb_encode K m)"
  by (simp add: carries_def MAX_FRAME_SIZE_def)

lemma write_carries: "carries K m \<Longrightarrow> write_message K writer m = Inr (writer @ frame K m)"
  using carries_mod [of K m] by (simp add: write_message_def frame_def carries_def Let_def)

lemma read_frame:
  assumes "carries K m"
  shows "read_message K (frame K m @ rest) = (Inr m, rest)"
proof -
  have "length (pb_encode K m) < 2 ^ 32" using assms by (simp add: carries_def MAX_FRAME_SIZE_def)
  then show ?thesis
    using assms by (simp add: read_message_def frame_def carries_def Let_def)
qed

lemma frame_nonempty [simp]: "frame K m \<noteq> []"
proof
  assume "frame K m = []"
  then have "length (frame K m) = 0" by simp
  then show False by (simp add: frame_def)
qed

lemma send_carries: "list_all (carries K) ms \<Longrightarrow> send_replies K writer ms = writer @ concat (map (frame K) ms)"
  by (induction ms arbitrary: writer) (simp_all add: write_carries)

lemma read_stream_frames:
  "list_all (carries K) ms \<Longrightarrow> read_stream K (concat (map (frame K) ms)) = until_error ms"
proof (induction ms rule: until_error.induct)
  case 1
  then show ?case by (simp add: read_stream.simps)
qed (subst read_stream.simps, simp add: read_frame)+

lemma serve_frame:
  assumes "carries KC m"
  shows "serve KC KS V s (frame KC m) = server_dispatch V s m"
proof -
  have "read_message KC (frame KC m) = (Inr m, [])" using read_frame [OF assms, of "[]"] by simp
  moreover have "serve KC KS V s' [] = ([], s')" for s' by (simp add: serve.simps read_message_def)
  ultimately show ?thesis by (simp add: serve.simps [of KC KS V s "frame KC m"] split: prod.split)
qed

text \<open>A request fits a connection when its message and all its replies fit their frames.\<close>

definition conn_fits :: "client_message pb \<Rightarrow> server_message pb \<Rightarrow> 's server \<Rightarrow> 's \<Rightarrow> client_msg \<Rightarrow> bool" where
  "conn_fits KC KS V s q \<longleftrightarrow>
     carries KC (Some q) \<and> list_all (carries KS) (fst (dispatch_msg V s q))"

interpretation conn: wire_link V "connection KC KS debug V" "conn_fits KC KS V" for KC KS debug V
proof unfold_locales
  fix s q r s'
  assume f: "conn_fits KC KS V s q" and d: "dispatch_msg V s q = ([r], s')"
  have "carries KC (Some q)" "carries KS r" using f d by (simp_all add: conn_fits_def)
  moreover have "read_message KS (frame KS r) = (Inr r, [])" using read_frame [of KS r "[]"] calculation by simp
  ultimately show "cl_request (connection KC KS debug V) (Some q) s = (Inr r, s')"
    using d by (simp add: connection_def conn_request_def write_carries serve_frame server_dispatch_def)
next
  fix s q rs s'
  assume f: "conn_fits KC KS V s q" and d: "dispatch_msg V s q = (rs, s')"
  have "carries KC (Some q)" "list_all (carries KS) rs" using f d by (simp_all add: conn_fits_def)
  then show "cl_stream (connection KC KS debug V) (Some q) s = (until_error rs, s')"
    using d by (simp add: connection_def conn_stream_def write_carries serve_frame server_dispatch_def
        send_carries read_stream_frames)
qed


text \<open>A length beyond 32 bits passes the check on its low half: what is sent is not a frame.\<close>

lemma oversized_accepted:
  assumes "length (pb_encode K m) = 2 ^ 32 + k" and "k \<le> MAX_FRAME_SIZE"
  shows "write_message K [] m = Inr (be_bytes 4 k @ pb_encode K m)"
proof -
  have "length (pb_encode K m) mod 2 ^ 32 = k" using assms by (simp add: MAX_FRAME_SIZE_def)
  then show ?thesis using assms(2) by (simp add: write_message_def Let_def)
qed

subsection \<open>Typed calls over a connection\<close>

text \<open>The handler's result, an error prefixed with its code.\<close>

definition answers :: "32 word \<Rightarrow> (bytes + 'a) \<times> 's \<Rightarrow> (bytes + 'a) \<times> 's" where
  "answers code h = (map_sum (server_error_text code) id (fst h), snd h)"

definition found_answers :: "bytes \<Rightarrow> (bytes + bool) \<times> 's \<Rightarrow> (bytes + unit) \<times> 's" where
  "found_answers missing h = (found_or missing (fst h), snd h)"

lemmas client_calls =
  client_send_def client_ping_def client_get_stats_def client_list_agents_def client_get_agent_def
  client_create_agent_def client_update_agent_def client_delete_agent_def client_rename_agent_def
  client_list_conversations_def client_get_history_def client_delete_conversation_def
  client_list_mcps_def client_upsert_mcp_def client_delete_mcp_def client_reconnect_mcp_def
  client_set_active_model_def client_list_skills_def client_search_sessions_def
  client_get_skill_def client_list_models_def client_subscribe_event_def
  client_unsubscribe_event_def client_list_subscriptions_def client_publish_event_def
  client_list_active_def client_compact_def client_cancel_stream_def client_create_session_def

lemmas typed_reply = conn.typed_reply [folded answers_def]
lemmas typed_unit = conn.typed_unit [folded answers_def]
lemmas typed_found = conn.typed_found [folded found_answers_def]
lemmas typed_kill = conn.typed_kill [folded answers_def]
lemmas picks = agent_info_of_def mcp_info_of_def

text \<open>
  Over a framed connection a session call of a client that fits the frames returns what the
  server's handler returned and leaves its state, with an error prefixed by its code; killing a
  session that is not there is the answer no.
\<close>

theorem session_calls_typed:
  "(conn_fits KC KS V s (CSend m) \<longrightarrow>
      client_send (connection KC KS debug V) m s = answers 500 (sv_send V m s)) \<and>
   (conn_fits KC KS V s (CCreateSession c) \<longrightarrow>
      client_create_session (connection KC KS debug V) c s = answers 500 (sv_create_session V c s)) \<and>
   (conn_fits KC KS V s (CCancelStream h) \<longrightarrow>
      client_cancel_stream (connection KC KS debug V) h s = answers 500 (sv_cancel_stream V h s)) \<and>
   (conn_fits KC KS V s (CCompact h p) \<longrightarrow>
      client_compact (connection KC KS debug V) h p s = answers 500 (sv_compact V h p s)) \<and>
   (conn_fits KC KS V s (CKill h) \<longrightarrow>
      client_kill (connection KC KS debug V) h s = answers 500 (sv_kill V h s)) \<and>
   (conn_fits KC KS V s (CListActive a b) \<longrightarrow>
      client_list_active (connection KC KS debug V) a b s = answers 500 (sv_list_active V s)) \<and>
   (conn_fits KC KS V s (CListConversations a b) \<longrightarrow>
      client_list_conversations (connection KC KS debug V) a b s = answers 500 (sv_list_conversations V a b s)) \<and>
   (conn_fits KC KS V s (CGetHistory p) \<longrightarrow>
      client_get_history (connection KC KS debug V) p s = answers 500 (sv_get_history V p s)) \<and>
   (conn_fits KC KS V s (CDeleteConversation p) \<longrightarrow>
      client_delete_conversation (connection KC KS debug V) p s = answers 500 (sv_delete_conversation V p s)) \<and>
   (conn_fits KC KS V s (CSearchSessions q) \<longrightarrow>
      client_search_sessions (connection KC KS debug V) q s = answers 500 (sv_search_sessions V q s)) \<and>
   (conn_fits KC KS V s (CGetStats) \<longrightarrow>
      client_get_stats (connection KC KS debug V) s = answers 500 (sv_get_stats V s)) \<and>
   (conn_fits KC KS V s (CPing) \<longrightarrow>
      client_ping (connection KC KS debug V) s = answers 500 (sv_ping V s))"
  unfolding client_calls
  by (intro conjI impI; (rule typed_unit, assumption, simp |
        rule typed_found, assumption, simp |
        rule typed_kill, assumption |
        rule typed_reply, assumption, simp, simp_all add: picks split: prod.split))

text \<open>
  The same for the calls on agents, models, skills, servers and subscriptions: a thing that is
  not there reads as a 404 error, and any failure to get an agent or a skill does too.
\<close>

theorem catalogue_calls_typed:
  "(conn_fits KC KS V s (CListAgents) \<longrightarrow>
      client_list_agents (connection KC KS debug V) s = answers 500 (sv_list_agents V s)) \<and>
   (conn_fits KC KS V s (CGetAgent n) \<longrightarrow>
      client_get_agent (connection KC KS debug V) n s = answers 404 (sv_get_agent V n s)) \<and>
   (conn_fits KC KS V s (CCreateAgent n j) \<longrightarrow>
      client_create_agent (connection KC KS debug V) n j s = answers 500 (sv_create_agent V n j s)) \<and>
   (conn_fits KC KS V s (CUpdateAgent a j) \<longrightarrow>
      client_update_agent (connection KC KS debug V) a j s = answers 500 (sv_update_agent V a j s)) \<and>
   (conn_fits KC KS V s (CRenameAgent a n) \<longrightarrow>
      client_rename_agent (connection KC KS debug V) a n s = answers 500 (sv_rename_agent V a n s)) \<and>
   (conn_fits KC KS V s (CDeleteAgent a) \<longrightarrow>
      client_delete_agent (connection KC KS debug V) a s = found_answers (''agent '' @ in_quotes a @ '' not found in local manifest'')
        (sv_delete_agent V a s)) \<and>
   (conn_fits KC KS V s (CListSkills) \<longrightarrow>
      client_list_skills (connection KC KS debug V) s = answers 500 (sv_list_skills V s)) \<and>
   (conn_fits KC KS V s (CGetSkill n) \<longrightarrow>
      client_get_skill (connection KC KS debug V) n s = answers 404 (sv_get_skill V n s)) \<and>
   (conn_fits KC KS V s (CListModels) \<longrightarrow>
      client_list_models (connection KC KS debug V) s = answers 500 (sv_list_models V s)) \<and>
   (conn_fits KC KS V s (CSetActiveModel n) \<longrightarrow>
      client_set_active_model (connection KC KS debug V) n s = answers 500 (sv_set_active_model V n s)) \<and>
   (conn_fits KC KS V s (CListMcps a) \<longrightarrow>
      client_list_mcps (connection KC KS debug V) a s = answers 500 (sv_list_mcps V a s)) \<and>
   (conn_fits KC KS V s (CUpsertMcp a j) \<longrightarrow>
      client_upsert_mcp (connection KC KS debug V) a j s = answers 500 (sv_upsert_mcp V a j s)) \<and>
   (conn_fits KC KS V s (CReconnectMcp a n) \<longrightarrow>
      client_reconnect_mcp (connection KC KS debug V) a n s = answers 500 (sv_reconnect_mcp V a n s)) \<and>
   (conn_fits KC KS V s (CDeleteMcp a n) \<longrightarrow>
      client_delete_mcp (connection KC KS debug V) a n s = found_answers (''mcp '' @ in_quotes n @ '' not found'')
        (sv_delete_mcp V a n s)) \<and>
   (conn_fits KC KS V s (CSubscribeEvent x a b) \<longrightarrow>
      client_subscribe_event (connection KC KS debug V) x a b s = answers 500 (sv_subscribe_event V x a b s)) \<and>
   (conn_fits KC KS V s (CUnsubscribeEvent i) \<longrightarrow>
      client_unsubscribe_event (connection KC KS debug V) i s = found_answers (''subscription '' @ show_nat i @ '' not found'')
        (sv_unsubscribe_event V i s)) \<and>
   (conn_fits KC KS V s (CListSubscriptions) \<longrightarrow>
      client_list_subscriptions (connection KC KS debug V) s = answers 500 (sv_list_subscriptions V s)) \<and>
   (conn_fits KC KS V s (CPublishEvent x p) \<longrightarrow>
      client_publish_event (connection KC KS debug V) x p s = answers 500 (sv_publish_event V x p s))"
  unfolding client_calls
  by (intro conjI impI; (rule typed_unit, assumption, simp |
        rule typed_found, assumption, simp |
        rule typed_kill, assumption |
        rule typed_reply, assumption, simp, simp_all add: picks split: prod.split))


text \<open>
  Over a framed connection, a client's stream is the events the server's handler yields: a turn
  that ends shows its events and not the end itself, one that fails shows its events and
  then the error with its code.
\<close>

theorem streams_seen:
  assumes "conn_fits KC KS V s (CStream m)"
    and "sv_stream V m s = (map (\<lambda>e. Inr (Some e)) es @ last_of, s')"
    and "list_all (\<lambda>e. case e of SEvent (WEnd _ _ _ _) \<Rightarrow> False | _ \<Rightarrow> True) es"
    and "last_of = [Inr (Some (SEvent (WEnd agent err model u)))] \<or> last_of = [Inl e]"
  shows "client_stream (connection KC KS debug V) m s =
    (map Inr es @ (case last_of of [Inl e] \<Rightarrow> [Inl (server_error_text 500 e)] | _ \<Rightarrow> []), s')"
  using assms by (rule conn.stream_seen)

subsection \<open>Witnesses\<close>

text \<open>A codec for the messages of a list: the place in unary.\<close>

definition table_pb :: "'m list \<Rightarrow> 'm pb" where
  "table_pb ms =
     \<lparr>pb_encode = (\<lambda>m. replicate (length (takeWhile (\<lambda>x. x \<noteq> m) ms)) CHR 0x00),
      pb_decode = (\<lambda>b. if length b < length ms then Inr (ms ! length b) else Inl ''unknown'')\<rparr>"

definition refuse :: "(nat, 'a) handler" where
  "refuse s = (Inl ''no'', Suc s)"

definition refusing_server :: "nat server" where
  "refusing_server =
      \<lparr>sv_send = \<lambda>m. refuse,
       sv_stream = \<lambda>m s. ([Inr (Some (SStart (sq_agent m))), Inr (Some (SEvent (WEnd ''a'' ''lost'' [] None)))], s),
       sv_ping = \<lambda>s. (Inr (), Suc s), sv_list_active = refuse, sv_kill = \<lambda>h s. (Inr False, s), sv_subscribe_events = \<lambda>s. ([], s),
       sv_subscribe_mcp_events = \<lambda>s. ([], s), sv_get_stats = refuse, sv_subscribe_event = \<lambda>x a b. refuse,
       sv_unsubscribe_event = \<lambda>i s. (Inr False, s), sv_list_subscriptions = refuse,
       sv_publish_event = \<lambda>x p. refuse, sv_compact = \<lambda>h p. refuse, sv_cancel_stream = \<lambda>h. refuse,
       sv_create_session = \<lambda>m. refuse, sv_list_agents = refuse, sv_get_agent = \<lambda>n. refuse,
       sv_create_agent = \<lambda>n j. refuse, sv_update_agent = \<lambda>a j. refuse,
       sv_delete_agent = \<lambda>a s. (Inr False, s), sv_rename_agent = \<lambda>a n. refuse, sv_list_skills = refuse,
       sv_get_skill = \<lambda>n. refuse, sv_list_models = refuse, sv_list_conversations = \<lambda>a b. refuse,
       sv_get_history = \<lambda>p. refuse, sv_delete_conversation = \<lambda>p. refuse, sv_search_sessions = \<lambda>m. refuse,
       sv_list_mcps = \<lambda>a. refuse, sv_upsert_mcp = \<lambda>a j. refuse, sv_delete_mcp = \<lambda>a n s. (Inr False, s),
       sv_reconnect_mcp = \<lambda>a n. refuse, sv_set_active_model = \<lambda>n. refuse, sv_extension = extension_default\<rparr>"

definition sample_stream_msg :: stream_msg where
  "sample_stream_msg =
     \<lparr>sq_agent = ''a'', sq_content = ''hi'', sq_sender = None, sq_guest = None, sq_tool_choice = None,
      sq_ephemeral = False, sq_correlation = None, sq_session = ''s''\<rparr>"

definition sample_requests :: "client_message pb" where
  "sample_requests = table_pb [Some (CCancelStream ''h''), Some (CDeleteAgent ''a''), Some (CStream sample_stream_msg)]"

definition sample_replies :: "server_message pb" where
  "sample_replies = table_pb
     [Some (SError 500 ''no''), Some (SError 404 (''agent '' @ in_quotes ''a'' @ '' not found in local manifest'')),
      Some (SStream (Some (SStart ''a''))), Some (SStream (Some (SEvent (WEnd ''a'' ''lost'' [] None))))]"

lemmas samples = sample_requests_def sample_replies_def table_pb_def refusing_server_def refuse_def sample_stream_msg_def
  conn_fits_def carries_def MAX_FRAME_SIZE_def reply_unit_def reply_found_def reply_stream_def
  result_to_msg_def server_error_def

theorem session_calls_typed_witness:
  "client_cancel_stream (connection sample_requests sample_replies (\<lambda>m. ''?'') refusing_server) ''h'' 4 =
     (Inl ''server error (500): no'', 5)"
proof -
  have "conn_fits sample_requests sample_replies refusing_server 4 (CCancelStream ''h'')"
    by (simp add: samples)
  then have "client_cancel_stream (connection sample_requests sample_replies (\<lambda>m. ''?'') refusing_server) ''h'' 4 =
      answers 500 (sv_cancel_stream refusing_server ''h'' 4)"
    using session_calls_typed [of sample_requests sample_replies refusing_server 4 undefined "\<lambda>m. ''?''"
        undefined "''h''"] by blast
  also have "\<dots> = (Inl ''server error (500): no'', 5)"
    by (simp add: answers_def refusing_server_def refuse_def server_error_text_def, code_simp)
  finally show ?thesis .
qed

theorem catalogue_calls_typed_witness:
  "client_delete_agent (connection sample_requests sample_replies (\<lambda>m. ''?'') refusing_server) ''a'' 4 =
     (Inl (server_error_text 404 (''agent '' @ in_quotes ''a'' @ '' not found in local manifest'')), 4)"
proof -
  have "conn_fits sample_requests sample_replies refusing_server 4 (CDeleteAgent ''a'')"
    by (simp add: samples)
  then have "client_delete_agent (connection sample_requests sample_replies (\<lambda>m. ''?'') refusing_server) ''a'' 4 =
      found_answers (''agent '' @ in_quotes ''a'' @ '' not found in local manifest'') (sv_delete_agent refusing_server ''a'' 4)"
    using catalogue_calls_typed [of sample_requests sample_replies refusing_server 4 "\<lambda>m. ''?''"
        undefined undefined "''a''"] by blast
  then show ?thesis by (simp add: found_answers_def found_or_def refusing_server_def)
qed

theorem streams_seen_witness:
  "client_stream (connection sample_requests sample_replies (\<lambda>m. ''?'') refusing_server) sample_stream_msg 4 =
     ([Inr (SStart ''a'')], 4)"
proof -
  have "conn_fits sample_requests sample_replies refusing_server 4 (CStream sample_stream_msg)"
    by (simp add: samples)
  from streams_seen [OF this, of "[SStart ''a'']" "[Inr (Some (SEvent (WEnd ''a'' ''lost'' [] None)))]" 4
      "''a''" "''lost''" "[]" None "[]" "\<lambda>m. ''?''"]
  show ?thesis by (simp add: refusing_server_def sample_stream_msg_def)
qed

end
