(* ===== verification/EventBus.thy ===== *)
theory EventBus
  imports SmallStores
begin

section \<open>The event bus (crates/crabtalk/src/system/event.rs)\<close>

text \<open>
  The standing subscriptions the daemon answers from, and their mirror in the store. A publish
  hands the matching subscriptions to the callback: the value of a publish is what it was
  handed. A write to the store is a task that is spawned; the bus holds the tasks that have
  not run, oldest first. The map is kept by id, a \<open>HashMap\<close> has no order to rely on. Ids stay
  below \<open>2 ^ 64\<close>. The lemmas show what fires, and that a restart finds the subscriptions once the
  tasks have run in the order they were spawned, which nothing enforces.
\<close>

subsection \<open>The bus\<close>

datatype mirror_task = MirrorPut event_subscription | MirrorRemove nat

record event_bus =
  eb_subscriptions :: "(nat \<times> event_subscription) list"
  eb_next_id :: nat
  eb_tasks :: "mirror_task list"

definition bus_load :: "event_subscription codec \<Rightarrow> kv \<Rightarrow> event_bus" where
  "bus_load J m =
     (let subs = (case subscriptions J m of
          Inr l \<Rightarrow> bt_extend [] (map (\<lambda>s. (es_id s, s)) l)
        | Inl e \<Rightarrow> [])
      in \<lparr>eb_subscriptions = subs, eb_next_id = foldr max (map fst subs) 0 + 1, eb_tasks = []\<rparr>)"

definition mirror :: "event_bus \<Rightarrow> event_subscription option \<Rightarrow> nat \<Rightarrow> event_bus" where
  "mirror B sub i =
     B\<lparr>eb_tasks := eb_tasks B @ [case sub of Some s \<Rightarrow> MirrorPut s | None \<Rightarrow> MirrorRemove i]\<rparr>"

definition bus_subscribe :: "event_bus \<Rightarrow> event_subscription \<Rightarrow> event_subscription \<times> event_bus" where
  "bus_subscribe B s =
     (let s' = s\<lparr>es_id := eb_next_id B\<rparr>;
          B' = B\<lparr>eb_next_id := eb_next_id B + 1,
                 eb_subscriptions := bt_insert (es_id s') s' (eb_subscriptions B)\<rparr>
      in (s', mirror B' (Some s') (es_id s')))"

definition bus_unsubscribe :: "event_bus \<Rightarrow> nat \<Rightarrow> bool \<times> event_bus" where
  "bus_unsubscribe B i =
     (if map_of (eb_subscriptions B) i = None then (False, B)
      else (True, mirror (B\<lparr>eb_subscriptions := bt_remove i (eb_subscriptions B)\<rparr>) None i))"

definition bus_list :: "event_bus \<Rightarrow> event_subscription list" where
  "bus_list B = map snd (eb_subscriptions B)"

definition bus_drop :: "nat \<Rightarrow> event_bus \<Rightarrow> event_bus" where
  "bus_drop i B = mirror (B\<lparr>eb_subscriptions := bt_remove i (eb_subscriptions B)\<rparr>) None i"

definition bus_publish :: "event_bus \<Rightarrow> bytes \<Rightarrow> bytes \<Rightarrow> (event_subscription \<times> bytes) list \<times> event_bus" where
  "bus_publish B source payload =
     (let matching = filter (\<lambda>(i, s). es_source s = source) (eb_subscriptions B);
          to_remove = map fst (filter (\<lambda>(i, s). es_once s) matching)
      in (map (\<lambda>(i, s). (s, payload)) matching, fold bus_drop to_remove B))"

fun run_mirror :: "event_subscription codec \<Rightarrow> mirror_task \<Rightarrow> kv \<Rightarrow> kv" where
  "run_mirror J (MirrorPut s) m = put_subscription J m s"
| "run_mirror J (MirrorRemove i) m = snd (remove_subscription m i)"

subsection \<open>Steps\<close>

text \<open>
  A state is the bus, the store and what has been fired. The tasks run one at a time, in the order
  they were spawned.
\<close>

type_synonym bus_state = "event_bus \<times> kv \<times> (event_subscription \<times> bytes) list"

inductive bus_step :: "event_subscription codec \<Rightarrow> bus_state \<Rightarrow> bus_state \<Rightarrow> bool" for J where
  Subscribe: "bus_step J (B, m, F) (snd (bus_subscribe B s), m, F)"
| Unsubscribe: "bus_step J (B, m, F) (snd (bus_unsubscribe B i), m, F)"
| Publish: "bus_publish B source payload = (fired, B') \<Longrightarrow> bus_step J (B, m, F) (B', m, F @ fired)"
| Mirrored: "eb_tasks B = t # ts \<Longrightarrow> bus_step J (B, m, F) (B\<lparr>eb_tasks := ts\<rparr>, run_mirror J t m, F)"

inductive bus_run :: "event_subscription codec \<Rightarrow> kv \<Rightarrow> bus_state \<Rightarrow> bool" for J m0 where
  Load: "bus_run J m0 (bus_load J m0, m0, [])"
| Step: "bus_run J m0 x \<Longrightarrow> bus_step J x y \<Longrightarrow> bus_run J m0 y"

text \<open>The store says of the subscriptions exactly what the map says.\<close>

definition mirrors :: "event_subscription codec \<Rightarrow> kv \<Rightarrow> (nat \<times> event_subscription) list \<Rightarrow> bool" where
  "mirrors J m subs \<longleftrightarrow> bt_ok m \<and>
     (\<forall>k. prefix (kv_prefix [''subscription'']) k \<and> kv_get m Event k \<noteq> None \<longrightarrow> (\<exists>i. k = subscription_key i)) \<and>
     (\<forall>i. get_json J m Event (subscription_key i) = Inr (map_of subs i))"

definition bus_ok :: "event_bus \<Rightarrow> bool" where
  "bus_ok B \<longleftrightarrow> bt_ok (eb_subscriptions B) \<and>
     (\<forall>i s. map_of (eb_subscriptions B) i = Some s \<longrightarrow> es_id s = i \<and> i < eb_next_id B)"

definition settled :: "event_subscription codec \<Rightarrow> event_bus \<Rightarrow> kv \<Rightarrow> kv" where
  "settled J B m = fold (run_mirror J) (eb_tasks B) m"

definition fired_once :: "event_bus \<Rightarrow> (event_subscription \<times> bytes) list \<Rightarrow> bool" where
  "fired_once B F \<longleftrightarrow>
     (let once = filter es_once (map fst F) in
      distinct (map es_id once) \<and> (\<forall>s \<in> set (map fst F). es_id s < eb_next_id B) \<and>
      (\<forall>s \<in> set once. map_of (eb_subscriptions B) (es_id s) = None))"

subsection \<open>The mirror\<close>

lemma subscription_key_inj [simp]: "subscription_key i = subscription_key j \<longleftrightarrow> i = j"
  by (auto simp: subscription_key_def key_joined dest: show_nat_inj)

lemma subscription_key_prefix [simp]: "prefix (kv_prefix [''subscription'']) (subscription_key i)"
  by (auto simp: subscription_key_def kv_prefix_def key_joined prefix_def)

lemma mirrorsI:
  assumes "bt_ok m"
    and "\<And>k. prefix (kv_prefix [''subscription'']) k \<Longrightarrow> kv_get m Event k \<noteq> None \<Longrightarrow> \<exists>i. k = subscription_key i"
    and "\<And>i. get_json J m Event (subscription_key i) = Inr (map_of subs i)"
  shows "mirrors J m subs"
  using assms unfolding mirrors_def by blast

lemma mirrors_run:
  assumes "codec_ok id J" and "mirrors J m subs"
  shows "mirrors J (run_mirror J (MirrorPut s) m) (bt_insert (es_id s) s subs)"
    and "mirrors J (run_mirror J (MirrorRemove i) m) (bt_remove i subs)"
proof -
  have m: "bt_ok m" "\<And>j. get_json J m Event (subscription_key j) = Inr (map_of subs j)"
    "\<And>k. prefix (kv_prefix [''subscription'']) k \<Longrightarrow> kv_get m Event k \<noteq> None \<Longrightarrow> \<exists>i. k = subscription_key i"
    using assms(2) unfolding mirrors_def by blast+
  have put: "get_json J (put_json J m Event (subscription_key (es_id s)) s) Event (subscription_key j) =
      Inr (map_of (bt_insert (es_id s) s subs) j)" for j
    using get_json_put [OF assms(1), of m Event "subscription_key (es_id s)" s] m(2) [of j]
    by (cases "j = es_id s") (simp_all add: get_json_put_other)
  show "mirrors J (run_mirror J (MirrorPut s) m) (bt_insert (es_id s) s subs)"
    unfolding run_mirror.simps put_subscription_def
  proof (rule mirrorsI)
    show "\<exists>i. k = subscription_key i" if "prefix (kv_prefix [''subscription'']) k"
      and "kv_get (put_json J m Event (subscription_key (es_id s)) s) Event k \<noteq> None" for k
      using m(3) [OF that(1)] that(2) by (cases "k = subscription_key (es_id s)") auto
  qed (simp_all only: put bt_ok_put_json m(1))
  have remove: "get_json J (snd (kv_delete m Event (subscription_key i))) Event (subscription_key j) =
      Inr (map_of (bt_remove i subs) j)" for j
    using m(2) [of j] by (cases "j = i") (simp_all add: get_json_remove_other get_json_none)
  show "mirrors J (run_mirror J (MirrorRemove i) m) (bt_remove i subs)"
    unfolding run_mirror.simps remove_subscription_def
  proof (rule mirrorsI)
    show "\<exists>i. k = subscription_key i" if "prefix (kv_prefix [''subscription'']) k"
      and "kv_get (snd (kv_delete m Event (subscription_key i))) Event k \<noteq> None" for k
      using m(3) [OF that(1)] that(2) by (cases "k = subscription_key i") auto
  qed (simp_all only: remove bt_ok_delete m(1))
qed

lemma read_subscriptions_map:
  "\<forall>k \<in> set ks. get_json J m Event k = Inr (Some (f k)) \<Longrightarrow> read_subscriptions J m ks = Inr (map f ks)"
  by (induction ks) simp_all

lemma map_of_extend_ids:
  assumes "\<And>s. s \<in> set l \<Longrightarrow> map_of subs (es_id s) = Some s"
    and "\<And>i s. map_of subs i = Some s \<Longrightarrow> i \<in> dom (map_of acc) \<or> s \<in> set l \<and> es_id s = i"
    and "\<And>i. i \<in> dom (map_of acc) \<Longrightarrow> map_of acc i = map_of subs i"
  shows "map_of (bt_extend acc (map (\<lambda>s. (es_id s, s)) l)) = map_of subs"
  using assms
proof (induction l arbitrary: acc)
  case Nil
  have "map_of acc i = map_of subs i" for i
  proof (cases "map_of subs i")
    case (Some t)
    then have "i \<in> dom (map_of acc)" using Nil.prems(2) by fastforce
    then show ?thesis by (rule Nil.prems(3))
  next
    case None
    then show ?thesis using Nil.prems(3) [of i] by (cases "map_of acc i") (auto simp: domIff)
  qed
  then show ?case by (simp add: fun_eq_iff)
next
  case (Cons s l)
  have "map_of (bt_extend (bt_insert (es_id s) s acc) (map (\<lambda>s. (es_id s, s)) l)) = map_of subs"
  proof (rule Cons.IH)
    show "i \<in> dom (map_of (bt_insert (es_id s) s acc)) \<or> t \<in> set l \<and> es_id t = i" if "map_of subs i = Some t" for i t
      using Cons.prems(2) [OF that] by auto
    show "map_of (bt_insert (es_id s) s acc) i = map_of subs i" if "i \<in> dom (map_of (bt_insert (es_id s) s acc))" for i
      using Cons.prems(1) [of s] Cons.prems(3) [of i] that by (auto split: if_splits)
  qed (use Cons.prems(1) in simp)
  then show ?case by simp
qed

lemma bt_ok_extend: "bt_ok acc \<Longrightarrow> bt_ok (bt_extend acc es)"
  by (induction es arbitrary: acc) simp_all

lemma mirrors_load:
  assumes "mirrors J m subs" and "bt_ok subs" and "\<And>i s. map_of subs i = Some s \<Longrightarrow> es_id s = i"
  shows "eb_subscriptions (bus_load J m) = subs"
proof -
  let ?ks = "kv_scan_keys m Event (kv_prefix [''subscription''])"
  have m: "bt_ok m" "\<And>j. get_json J m Event (subscription_key j) = Inr (map_of subs j)"
    "\<And>k. prefix (kv_prefix [''subscription'']) k \<Longrightarrow> kv_get m Event k \<noteq> None \<Longrightarrow> \<exists>i. k = subscription_key i"
    using assms(1) unfolding mirrors_def by blast+
  have none: "map_of subs i \<noteq> None \<longleftrightarrow> kv_get m Event (subscription_key i) \<noteq> None" for i
    using m(2) [of i] by (cases "map_of subs i") (auto simp: get_json_def split: option.splits)
  have ks: "k \<in> set ?ks \<longleftrightarrow> (\<exists>i s. k = subscription_key i \<and> map_of subs i = Some s)" for k
    unfolding set_kv_scan_keys [OF m(1)] using m(3) [of k] none by fastforce
  define f where "f k = (case get_json J m Event k of Inr (Some s) \<Rightarrow> s)" for k
  have f: "f (subscription_key i) = s" if "map_of subs i = Some s" for i s
    using m(2) [of i] that by (simp add: f_def)
  have "subscriptions J m = Inr (map f ?ks)"
    unfolding subscriptions_def by (rule read_subscriptions_map) (use ks m(2) f in fastforce)
  moreover have "map_of (bt_extend [] (map (\<lambda>s. (es_id s, s)) (map f ?ks))) = map_of subs"
  proof (rule map_of_extend_ids)
    show "map_of subs (es_id s) = Some s" if "s \<in> set (map f ?ks)" for s
      using that ks f assms(3) by fastforce
    show "i \<in> dom (map_of []) \<or> s \<in> set (map f ?ks) \<and> es_id s = i" if "map_of subs i = Some s" for i s
      using that ks f assms(3) by force
  qed simp
  ultimately show ?thesis
    by (simp add: bus_load_def Let_def) (rule bt_ext, simp_all add: bt_ok_extend assms(2))
qed

subsection \<open>What a step does\<close>

lemma mirror_simps [simp]:
  "eb_subscriptions (mirror B sub i) = eb_subscriptions B" "eb_next_id (mirror B sub i) = eb_next_id B"
  "eb_tasks (mirror B sub i) = eb_tasks B @ [case sub of Some s \<Rightarrow> MirrorPut s | None \<Rightarrow> MirrorRemove i]"
  by (simp_all add: mirror_def)

lemma fold_drop:
  "eb_subscriptions (fold bus_drop is B) = fold bt_remove is (eb_subscriptions B)"
  "eb_next_id (fold bus_drop is B) = eb_next_id B"
  "eb_tasks (fold bus_drop is B) = eb_tasks B @ map MirrorRemove is"
  by (induction "is" arbitrary: B) (simp_all add: bus_drop_def)

lemma bt_ok_removes: "bt_ok m \<Longrightarrow> bt_ok (fold bt_remove is m)"
  by (induction "is" arbitrary: m) simp_all

lemma map_of_removes: "map_of (fold bt_remove is m) i = (if i \<in> set is then None else map_of m i)"
  by (induction "is" arbitrary: m) auto

definition matching :: "event_bus \<Rightarrow> bytes \<Rightarrow> (nat \<times> event_subscription) list" where
  "matching B source = filter (\<lambda>(i, s). es_source s = source) (eb_subscriptions B)"

definition spent :: "event_bus \<Rightarrow> bytes \<Rightarrow> nat list" where
  "spent B source = map fst (filter (\<lambda>(i, s). es_once s) (matching B source))"

lemma bus_publish_eq:
  "bus_publish B source payload =
     (map (\<lambda>(i, s). (s, payload)) (matching B source), fold bus_drop (spent B source) B)"
  by (simp add: bus_publish_def spent_def matching_def Let_def)

lemma in_matching:
  "bt_ok (eb_subscriptions B) \<Longrightarrow>
     (i, s) \<in> set (matching B source) \<longleftrightarrow> map_of (eb_subscriptions B) i = Some s \<and> es_source s = source"
  by (auto simp: matching_def bt_get_in)

lemma in_spent:
  "bt_ok (eb_subscriptions B) \<Longrightarrow>
     i \<in> set (spent B source) \<longleftrightarrow>
       (\<exists>s. map_of (eb_subscriptions B) i = Some s \<and> es_source s = source \<and> es_once s)"
  by (force simp: spent_def in_matching image_iff)

lemma bus_okD:
  assumes "bus_ok B"
  shows "bt_ok (eb_subscriptions B)"
    and "map_of (eb_subscriptions B) i = Some s \<Longrightarrow> es_id s = i"
    and "map_of (eb_subscriptions B) i = Some s \<Longrightarrow> i < eb_next_id B"
  using assms by (auto simp: bus_ok_def)

lemma map_of_extend_from:
  "map_of (bt_extend acc (map (\<lambda>s. (es_id s, s)) l)) i = Some s \<Longrightarrow> map_of acc i = Some s \<or> s \<in> set l \<and> es_id s = i"
  by (induction l arbitrary: acc) (fastforce split: if_splits)+

lemma le_foldr_max: "(i :: nat) \<in> set xs \<Longrightarrow> i \<le> foldr max xs 0"
  by (induction xs) auto

lemma bus_ok_load: "bus_ok (bus_load J m)"
proof -
  define subs where "subs = eb_subscriptions (bus_load J m)"
  have ok: "bt_ok subs" by (simp add: subs_def bus_load_def Let_def bt_ok_extend split: sum.split)
  have ids: "es_id s = i" if "map_of subs i = Some s" for i s
    using that by (auto simp: subs_def bus_load_def Let_def dest!: map_of_extend_from split: sum.splits)
  have next_id: "eb_next_id (bus_load J m) = foldr max (map fst subs) 0 + 1"
    by (simp add: subs_def bus_load_def Let_def)
  have below: "i < eb_next_id (bus_load J m)" if "map_of subs i = Some s" for i s
  proof -
    have "i \<in> set (map fst subs)" using map_of_SomeD [OF that] by force
    then show ?thesis unfolding next_id using le_foldr_max by fastforce
  qed
  show ?thesis unfolding bus_ok_def subs_def [symmetric] using ok ids below by blast
qed

lemma bus_ok_step:
  assumes "bus_step J (B, m, F) (B', m', F')" and "bus_ok B"
  shows "bus_ok B'"
  using assms(1)
proof cases
  case (Subscribe s)
  then show ?thesis using assms(2) by (auto simp: bus_ok_def bus_subscribe_def Let_def less_Suc_eq)
next
  case (Unsubscribe i)
  then show ?thesis using assms(2) by (auto simp: bus_ok_def bus_unsubscribe_def)
next
  case (Publish source payload fired)
  then show ?thesis
    using assms(2) by (auto simp: bus_ok_def bus_publish_eq fold_drop bt_ok_removes map_of_removes split: if_splits)
next
  case (Mirrored t ts)
  then show ?thesis using assms(2) by (simp add: bus_ok_def)
qed

lemma bus_run_ok: "bus_run J m0 x \<Longrightarrow> bus_ok (fst x)"
proof (induction rule: bus_run.induct)
  case Load
  then show ?case by (simp add: bus_ok_load)
next
  case (Step x y)
  then show ?case by (cases x; cases y) (auto intro: bus_ok_step)
qed

lemma mirrors_removes:
  assumes "codec_ok id J" and "mirrors J m subs"
  shows "mirrors J (fold (run_mirror J) (map MirrorRemove is) m) (fold bt_remove is subs)"
  using assms(2)
proof (induction "is" arbitrary: m subs)
  case (Cons i "is")
  show ?case using Cons.IH [OF mirrors_run(2) [OF assms(1) Cons.prems]] by simp
qed simp

lemma settled_step:
  assumes "codec_ok id J" and "bus_step J (B, m, F) (B', m', F')"
    and "mirrors J (settled J B m) (eb_subscriptions B)"
  shows "mirrors J (settled J B' m') (eb_subscriptions B')"
  using assms(2)
proof cases
  case (Subscribe s)
  then show ?thesis
    using mirrors_run(1) [OF assms(1,3), of "s\<lparr>es_id := eb_next_id B\<rparr>"]
    by (simp add: settled_def bus_subscribe_def Let_def del: run_mirror.simps)
next
  case (Unsubscribe i)
  then show ?thesis
    using assms(3) mirrors_run(2) [OF assms(1,3), of i]
    by (simp add: settled_def bus_unsubscribe_def del: run_mirror.simps)
next
  case (Publish source payload fired)
  then have "B' = fold bus_drop (spent B source) B" "m' = m" by (simp_all add: bus_publish_eq)
  then show ?thesis
    using mirrors_removes [OF assms(1,3), of "spent B source"] by (simp add: settled_def fold_drop)
next
  case (Mirrored t ts)
  then show ?thesis using assms(3) by (simp add: settled_def)
qed

lemma settled_run:
  assumes "codec_ok id J" and "mirrors J m0 (eb_subscriptions (bus_load J m0))" and "bus_run J m0 (B, m, F)"
  shows "mirrors J (settled J B m) (eb_subscriptions B)"
proof -
  have "mirrors J (settled J (fst x) (fst (snd x))) (eb_subscriptions (fst x))" if "bus_run J m0 x" for x
    using that
  proof (induction rule: bus_run.induct)
    case Load
    have "settled J (bus_load J m0) m0 = m0" by (simp add: settled_def bus_load_def Let_def)
    then show ?case using assms(2) by simp
  next
    case (Step x y)
    then show ?case by (cases x; cases y) (auto intro: settled_step [OF assms(1)])
  qed
  from this [OF assms(3)] show ?thesis by simp
qed

lemma in_bus_list:
  assumes "bus_ok B"
  shows "s \<in> set (bus_list B) \<longleftrightarrow> map_of (eb_subscriptions B) (es_id s) = Some s"
proof
  assume "s \<in> set (bus_list B)"
  then obtain i where "(i, s) \<in> set (eb_subscriptions B)" by (auto simp: bus_list_def)
  then have "map_of (eb_subscriptions B) i = Some s" using bt_get_in [OF bus_okD(1) [OF assms]] by simp
  then show "map_of (eb_subscriptions B) (es_id s) = Some s" using bus_okD(2) [OF assms] by blast
next
  assume "map_of (eb_subscriptions B) (es_id s) = Some s"
  then show "s \<in> set (bus_list B)" by (force simp: bus_list_def dest: map_of_SomeD)
qed

lemma matching_ids:
  assumes "bus_ok B"
  shows "map es_id (map snd (matching B source)) = map fst (matching B source)"
    and "distinct (map es_id (map snd (matching B source)))"
proof -
  show eq: "map es_id (map snd (matching B source)) = map fst (matching B source)"
    using in_matching [OF bus_okD(1) [OF assms]] bus_okD(2) [OF assms] by fastforce
  have "distinct (map fst (matching B source))"
    unfolding matching_def using bus_okD(1) [OF assms] by (intro bt_ok_distinct bt_ok_filter)
  then show "distinct (map es_id (map snd (matching B source)))" unfolding eq .
qed

lemma distinct_filtered: "distinct (map f xs) \<Longrightarrow> distinct (map f (filter P xs))"
  by (induction xs) auto

lemma fired_once_step:
  assumes "bus_step J (B, m, F) (B', m', F')" and "bus_ok B" and "fired_once B F"
  shows "fired_once B' F'"
  using assms(1)
proof cases
  case (Subscribe s)
  then show ?thesis using assms(3) by (auto simp: fired_once_def bus_subscribe_def Let_def intro: less_SucI)
next
  case (Unsubscribe i)
  then show ?thesis using assms(3) by (auto simp: fired_once_def bus_unsubscribe_def Let_def)
next
  case (Publish source payload fired)
  have ok: "bt_ok (eb_subscriptions B)" by (rule bus_okD(1) [OF assms(2)])
  let ?M = "map snd (matching B source)"
  have F': "map fst F' = map fst F @ ?M" and B': "B' = fold bus_drop (spent B source) B"
    using Publish by (auto simp: bus_publish_eq)
  have M: "map_of (eb_subscriptions B) (es_id s) = Some s \<and> es_source s = source" if "s \<in> set ?M" for s
    using that in_matching [OF ok] bus_okD(2) [OF assms(2)] by fastforce
  have "distinct (map es_id (filter es_once ?M))"
    by (rule distinct_filtered) (rule matching_ids(2) [OF assms(2)])
  moreover have "es_id s \<in> set (spent B source)" if "s \<in> set ?M" "es_once s" for s
    unfolding in_spent [OF ok] using M [OF that(1)] that(2) by blast
  ultimately show ?thesis
    using assms(3) M bus_okD(3) [OF assms(2)]
    unfolding fired_once_def F' B' Let_def fold_drop map_of_removes
    by (fastforce simp: image_iff)
next
  case (Mirrored t ts)
  then show ?thesis using assms(3) by (simp add: fired_once_def)
qed

lemma fired_once_run: "bus_run J m0 x \<Longrightarrow> fired_once (fst x) (snd (snd x))"
proof (induction rule: bus_run.induct)
  case Load
  then show ?case by (simp add: fired_once_def)
next
  case (Step x y)
  moreover have "bus_ok (fst x)" using Step.hyps(1) by (rule bus_run_ok)
  ultimately show ?case by (cases x; cases y) (auto intro: fired_once_step)
qed

subsection \<open>Properties\<close>

text \<open>
  A publish hands over exactly the subscriptions to its source, each once, and takes away
  those of them that were for one event; every other subscription stays as it is.
\<close>

theorem publish_exact:
  assumes "bus_run J m0 (B, m, F)" and "bus_publish B source payload = (fired, B')"
  shows "set fired = {(s, payload) | s. s \<in> set (bus_list B) \<and> es_source s = source} \<and> distinct fired \<and>
    set (bus_list B') = {s \<in> set (bus_list B). es_source s = source \<longrightarrow> \<not> es_once s}"
proof -
  have B: "bus_ok B" using bus_run_ok [OF assms(1)] by simp
  then have B': "bus_ok B'"
    using bus_ok_step [of J B m F B' m "F @ fired"] bus_step.Publish [OF assms(2)] by blast
  have fired: "fired = map (\<lambda>(i, s). (s, payload)) (matching B source)" "B' = fold bus_drop (spent B source) B"
    using assms(2) by (simp_all add: bus_publish_eq)
  have "set fired = {(s, payload) | s. s \<in> set (bus_list B) \<and> es_source s = source}"
    unfolding fired bus_list_def matching_def by force
  moreover have "map (es_id \<circ> fst) fired = map es_id (map snd (matching B source))"
    unfolding fired by auto
  then have "distinct (map (es_id \<circ> fst) fired)" using matching_ids(2) [OF B] by simp
  then have "distinct fired" by (simp only: distinct_map)
  moreover have "map_of (eb_subscriptions B') i =
      (if i \<in> set (spent B source) then None else map_of (eb_subscriptions B) i)" for i
    by (simp add: fired(2) fold_drop map_of_removes)
  then have "s \<in> set (bus_list B') \<longleftrightarrow> s \<in> set (bus_list B) \<and> (es_source s = source \<longrightarrow> \<not> es_once s)" for s
    unfolding in_bus_list [OF B'] in_bus_list [OF B] using in_spent [OF bus_okD(1) [OF B]] by auto
  ultimately show ?thesis by blast
qed

text \<open>
  C24: Whatever is subscribed, unsubscribed and published in whatever order, a subscription for one
  event fires at most once and is gone once it did.
\<close>

theorem once_fires_once:
  assumes "bus_run J m0 (B, m, F)"
  shows "distinct (map es_id (filter es_once (map fst F))) \<and>
    (\<forall>(s, p) \<in> set F. \<not> es_once s \<or> s \<notin> set (bus_list B))"
proof -
  have once: "fired_once B F" and B: "bus_ok B"
    using fired_once_run [OF assms] bus_run_ok [OF assms] by simp_all
  have "s \<notin> set (bus_list B)" if "(s, p) \<in> set F" "es_once s" for s p
  proof -
    have "map_of (eb_subscriptions B) (es_id s) = None" using once that by (force simp: fired_once_def Let_def)
    then show ?thesis unfolding in_bus_list [OF B] by simp
  qed
  then show ?thesis using once by (auto simp: fired_once_def Let_def)
qed

text \<open>
  Once the spawned tasks have run in their order, a daemon that starts again has the
  subscriptions the bus had: what was subscribed is not lost and what was dropped does not
  come back.
\<close>

theorem restart_finds_subscriptions:
  assumes "codec_ok id J" and "mirrors J m0 (eb_subscriptions (bus_load J m0))" and "bus_run J m0 (B, m, F)"
  shows "eb_subscriptions (bus_load J (settled J B m)) = eb_subscriptions B"
proof (rule mirrors_load)
  have "bus_ok B" using bus_run_ok [OF assms(3)] by simp
  then show "bt_ok (eb_subscriptions B)" "\<And>i s. map_of (eb_subscriptions B) i = Some s \<Longrightarrow> es_id s = i"
    by (auto dest: bus_okD)
qed (rule settled_run [OF assms])

subsection \<open>Witnesses\<close>

definition subscription_codec :: "event_subscription codec" where
  "subscription_codec =
     unary_codec (\<lambda>s. (es_id s, es_source s, es_target s, es_once s, es_session_handle s))
       (\<lambda>(i, x, t, c, h). \<lparr>es_id = i, es_source = x, es_target = t, es_once = c, es_session_handle = h\<rparr>)"

lemma subscription_codec_ok: "codec_ok id subscription_codec"
  unfolding subscription_codec_def by (rule unary_codec_ok) simp

lemma mirrors_empty: "mirrors J [] (eb_subscriptions (bus_load J []))"
  by (rule mirrorsI)
    (simp_all add: bus_load_def subscriptions_def kv_scan_keys_def kv_scan_def kv_get_def get_json_def Let_def)

definition sample_subscription :: event_subscription where
  "sample_subscription =
     \<lparr>es_id = 0, es_source = ''s'', es_target = 1, es_once = True, es_session_handle = ''h''\<rparr>"

definition sample_bus :: event_bus where
  "sample_bus =
     \<lparr>eb_subscriptions = [(1, sample_subscription\<lparr>es_id := 1\<rparr>)], eb_next_id = 2,
      eb_tasks = [MirrorPut (sample_subscription\<lparr>es_id := 1\<rparr>)]\<rparr>"

lemma sample_bus_run: "bus_run J [] (sample_bus, [], [])"
proof -
  have "bus_load J [] = \<lparr>eb_subscriptions = [], eb_next_id = 1, eb_tasks = []\<rparr>"
    by (simp add: bus_load_def subscriptions_def kv_scan_keys_def kv_scan_def Let_def)
  then have "snd (bus_subscribe (bus_load J []) sample_subscription) = sample_bus"
    by (simp add: bus_subscribe_def mirror_def sample_bus_def sample_subscription_def Let_def)
  then show ?thesis using bus_run.Step [OF bus_run.Load bus_step.Subscribe] by metis
qed

theorem publish_exact_witness:
  "bus_list (snd (bus_publish sample_bus ''s'' ''p'')) = [] \<and>
   fst (bus_publish sample_bus ''s'' ''p'') = [(sample_subscription\<lparr>es_id := 1\<rparr>, ''p'')]"
proof -
  have one: "bus_list sample_bus = [sample_subscription\<lparr>es_id := 1\<rparr>]" by (simp add: bus_list_def sample_bus_def)
  have "set (bus_list (snd (bus_publish sample_bus ''s'' ''p''))) = {}"
    using publish_exact [OF sample_bus_run [of subscription_codec], of "''s''" "''p''", OF surjective_pairing]
    by (auto simp: one sample_subscription_def)
  then show ?thesis by (simp add: bus_publish_def sample_bus_def sample_subscription_def Let_def)
qed

theorem once_fires_once_witness:
  "distinct (map es_id (filter es_once (map fst (fst (bus_publish sample_bus ''s'' ''p'')))))"
  using once_fires_once [OF bus_run.Step [OF sample_bus_run [of subscription_codec]
        bus_step.Publish [of sample_bus "''s''" "''p''", OF surjective_pairing]]]
  by simp

theorem restart_finds_subscriptions_witness:
  "eb_subscriptions (bus_load subscription_codec (settled subscription_codec sample_bus [])) =
     [(1, sample_subscription\<lparr>es_id := 1\<rparr>)]"
  using restart_finds_subscriptions [OF subscription_codec_ok mirrors_empty sample_bus_run]
  by (simp add: sample_bus_def)

text \<open>
  Nothing orders the tasks: a removal that runs before the write it follows leaves the
  subscription in the store, and a restart serves an event again that was for once.
\<close>

lemma reordered_mirror_revives:
  fixes J defines B: "B \<equiv> snd (bus_publish sample_bus ''s'' ''p'')"
  assumes "codec_ok id J"
  shows "eb_subscriptions B = [] \<and>
    eb_tasks B = [MirrorPut (sample_subscription\<lparr>es_id := 1\<rparr>), MirrorRemove 1] \<and>
    eb_subscriptions (bus_load J (fold (run_mirror J) (rev (eb_tasks B)) [])) =
      [(1, sample_subscription\<lparr>es_id := 1\<rparr>)]"
proof -
  let ?s = "sample_subscription\<lparr>es_id := 1\<rparr>"
  have Bs: "eb_subscriptions B = []" "eb_tasks B = [MirrorPut ?s, MirrorRemove 1]"
    by (simp_all add: B bus_publish_def bus_drop_def mirror_def sample_bus_def sample_subscription_def
        bt_remove_def Let_def)
  have "mirrors J [] []" using mirrors_empty [of J]
    by (simp add: bus_load_def subscriptions_def kv_scan_keys_def kv_scan_def Let_def)
  then have "mirrors J (run_mirror J (MirrorPut ?s) (run_mirror J (MirrorRemove 1) []))
      (bt_insert (es_id ?s) ?s (bt_remove 1 []))"
    by (intro mirrors_run [OF assms(2)])
  then have "eb_subscriptions (bus_load J (run_mirror J (MirrorPut ?s) (run_mirror J (MirrorRemove 1) []))) = [(1, ?s)]"
    by (intro mirrors_load) (auto simp: bt_remove_def bt_ok_def sample_subscription_def split: if_splits)
  then show ?thesis using Bs by (simp del: run_mirror.simps)
qed

end
