(* ===== verification/Daemon.thy ===== *)
theory Daemon
  imports Transport EventBus McpHandler BermRoot
begin

section \<open>The daemon's state and its configuration calls (crates/crabtalk/src/protocol)\<close>

text \<open>
  The state the protocol handlers share: the store, the live sessions, the servers, the event bus,
  the cached models and the turns an event fired that have not run. What does not change while a daemon runs, its engine and the packages it is
  given, is the argument \<open>node\<close>; what a call takes from the world, clocks, fresh ids, what a model
  answers, is the argument \<open>moment\<close>. The tasks a hook spawns when an agent is resolved
  or forgotten are those of \<open>HarnessHost\<close>. A call that fails leaves its error's text.
  The lemmas show what a merge patch does, what a change of the configuration keeps, and which
  server a change of a declaration reaches.
\<close>

subsection \<open>State\<close>

record ('b, 'p) node =
  nd_engine :: "'b engine"
  nd_mcp :: "'p mcp_env"
  nd_subscriptions :: "event_subscription codec"
  nd_skill :: skill_env
  nd_summary :: "skill_summary codec"
  nd_parse_json :: "bytes \<Rightarrow> bytes + json"
  nd_to_value :: "agent_config \<Rightarrow> json"
  nd_from_value :: "json \<Rightarrow> bytes + agent_config"
  nd_parse_config :: "bytes \<Rightarrow> bytes + agent_config"
  nd_parse_mcp :: "bytes \<Rightarrow> bytes + mcp_server_config"
  nd_ulid_error :: "bytes \<Rightarrow> bytes"
  nd_store_text :: "store_error \<Rightarrow> bytes"
  nd_tool_choice :: "bytes \<Rightarrow> tool_choice"
  nd_max_tokens :: "32 word"
  nd_local_day :: "bytes \<Rightarrow> int option"
  nd_show_day :: "int \<Rightarrow> bytes"
  nd_version :: bytes
  nd_fs :: fs
  nd_cwd :: names
  nd_home :: "bytes option"

datatype 'a received = Received 'a | Lagged | Closed

record moment =
  mo_clock :: nat
  mo_now :: bytes
  mo_later :: bytes
  mo_today :: int
  mo_secs :: nat
  mo_uptime :: nat
  mo_age :: "nat \<Rightarrow> nat"
  mo_id :: agent_id
  mo_token :: bytes
  mo_world :: "nat \<Rightarrow> round_world"
  mo_guest :: "request \<Rightarrow> (bytes + model_event) list"
  mo_compact :: "request \<Rightarrow> (bytes + model_response) option"
  mo_agent_events :: "agent_event_msg received list"
  mo_mcp_events :: "mcp_event received list"

record 'p daemon =
  dm_store :: kv
  dm_sessions :: sessions
  dm_mcp :: "'p mcp_handler"
  dm_bus :: event_bus
  dm_models :: "bytes list"
  dm_fired :: "(event_subscription \<times> bytes) list"

definition engine_text :: "('b, 'p) node \<Rightarrow> engine_error \<Rightarrow> bytes" where
  "engine_text N e =
     (let who = (\<lambda>i. ''agent '' @ quoted (eg_show (nd_engine N) i)) in
      case e of
        StoreFailed s \<Rightarrow> nd_store_text N s
      | AgentNotFound i \<Rightarrow> who i @ '' not found''
      | AgentNotRegistered i \<Rightarrow> who i @ '' not registered''
      | AgentExists name \<Rightarrow> ''agent '' @ quoted name @ '' already exists''
      | AgentMissing i \<Rightarrow> who i @ '' missing from storage after write''
      | NoSession slug \<Rightarrow> ''session not found: '' @ slug
      | EnginePanic \<Rightarrow> ''panic'')"

definition told :: "('e \<Rightarrow> bytes) \<Rightarrow> 'e + 'a \<Rightarrow> bytes + 'a" where
  "told f r = map_sum f id r"

text \<open>A call on the engine that changes the store: an error leaves the daemon as it was.\<close>

definition stored :: "('b, 'p) node \<Rightarrow> 'p daemon \<Rightarrow> engine_error + 'a \<times> kv \<Rightarrow> (bytes + 'a) \<times> 'p daemon" where
  "stored N d r =
     (case r of
        Inl e \<Rightarrow> (Inl (engine_text N e), d)
      | Inr (a, m) \<Rightarrow> (Inr a, d\<lparr>dm_store := m\<rparr>))"

subsection \<open>Helpers (mod.rs)\<close>

definition parse_agent :: "('b, 'p) node \<Rightarrow> bytes \<Rightarrow> bytes + agent_id" where
  "parse_agent N raw =
     (case ulid_parse (ae_ulid (eg_agents (nd_engine N))) raw of
        Some i \<Rightarrow> Inr i
      | None \<Rightarrow> Inl (''invalid agent id '' @ quoted raw @ '': '' @ nd_ulid_error N raw))"

definition parse_agent_filter :: "('b, 'p) node \<Rightarrow> bytes \<Rightarrow> bytes + agent_id option" where
  "parse_agent_filter N raw =
     (if raw = [] then Inr None else map_sum id Some (parse_agent N raw))"

text \<open>The calendar is a package: the local day of a timestamp is a number.\<close>

definition format_date_label :: "('b, 'p) node \<Rightarrow> int \<Rightarrow> bytes \<Rightarrow> bytes" where
  "format_date_label N today created_at =
     (case nd_local_day N created_at of
        None \<Rightarrow> []
      | Some d \<Rightarrow> if d = today then ''Today'' else if d = today - 1 then ''Yesterday'' else nd_show_day N d)"

fun merge :: "json \<Rightarrow> json \<Rightarrow> json" and
  merge_fields :: "(bytes \<times> json) list \<Rightarrow> (bytes \<times> json) list \<Rightarrow> (bytes \<times> json) list" where
  "merge (JObject base) (JObject patch) = JObject (merge_fields base patch)"
| "merge base patch = patch"
| "merge_fields base [] = base"
| "merge_fields base ((k, v) # patch) =
     merge_fields
       (if v = JNull then bt_remove k base
        else bt_insert k (merge (case map_of base k of Some b \<Rightarrow> b | None \<Rightarrow> JNull) v) base)
       patch"

definition agent_info_from :: "('b, 'p) node \<Rightarrow> agent_config \<Rightarrow> agent_info" where
  "agent_info_from N c =
     \<lparr>gi_id = eg_show (nd_engine N) (ag_id c), gi_name = ag_name c, gi_description = ag_description c,
      gi_config = to_json (ae_codec (eg_agents (nd_engine N))) c, gi_model = ag_model c,
      gi_max_iterations = ag_max_iterations c mod 2 ^ 32, gi_thinking = ag_thinking c,
      gi_skills = ag_skills c, gi_mcps = map ms_name (ag_mcps c),
      gi_compact_tool_max_len = ag_compact_tool_max_len c mod 2 ^ 32\<rparr>"

subsection \<open>Agents (mod.rs)\<close>

definition daemon_list_agents :: "('b, 'p) node \<Rightarrow> ('p daemon, agent_info list) handler" where
  "daemon_list_agents N d = (Inr (map (agent_info_from N) (engine_agents (nd_engine N) (dm_store d))), d)"

definition daemon_get_agent :: "('b, 'p) node \<Rightarrow> bytes \<Rightarrow> ('p daemon, agent_info) handler" where
  "daemon_get_agent N name d =
     (bindr (told (nd_store_text N) (load_agent_by_name (eg_agents (nd_engine N)) (dm_store d) name))
        (\<lambda>r. case r of
             None \<Rightarrow> Inl (''agent '' @ quoted name @ '' not found'')
           | Some c \<Rightarrow> Inr (agent_info_from N c)), d)"

definition daemon_create_agent ::
  "('b, 'p) node \<Rightarrow> moment \<Rightarrow> bytes \<Rightarrow> bytes \<Rightarrow> ('p daemon, agent_info) handler" where
  "daemon_create_agent N M name config d =
     (case nd_parse_config N config of
        Inl e \<Rightarrow> (Inl (''invalid AgentConfig JSON: '' @ e), d)
      | Inr c \<Rightarrow>
          stored N d (map_sum id (map_prod (agent_info_from N) id)
            (create_agent (nd_engine N) (dm_store d) (mo_id M) (c\<lparr>ag_name := name\<rparr>))))"

text \<open>The patched configuration, under the name it had.\<close>

definition patched :: "('b, 'p) node \<Rightarrow> agent_config \<Rightarrow> json \<Rightarrow> bytes + agent_config" where
  "patched N c patch =
     map_sum (\<lambda>e. ''invalid AgentConfig JSON: '' @ e) (\<lambda>c'. c'\<lparr>ag_name := ag_name c\<rparr>)
       (nd_from_value N (merge (nd_to_value N c) patch))"

definition daemon_update_agent ::
  "('b, 'p) node \<Rightarrow> bytes \<Rightarrow> bytes \<Rightarrow> ('p daemon, agent_info) handler" where
  "daemon_update_agent N agent config d =
     (let G = nd_engine N in
      case parse_agent N agent of
        Inl e \<Rightarrow> (Inl e, d)
      | Inr i \<Rightarrow>
          (case nd_parse_json N config of
             Inl e \<Rightarrow> (Inl (''invalid AgentConfig JSON: '' @ e), d)
           | Inr patch \<Rightarrow>
               (case load_agent (eg_agents G) (dm_store d) i of
                  Inl e \<Rightarrow> (Inl (nd_store_text N e), d)
                | Inr None \<Rightarrow> (Inl (''agent '' @ quoted (eg_show G i) @ '' not found''), d)
                | Inr (Some c) \<Rightarrow>
                    (case patched N c patch of
                       Inl e \<Rightarrow> (Inl e, d)
                     | Inr c' \<Rightarrow>
                         stored N d (map_sum id (map_prod (agent_info_from N) id)
                           (update_agent G (dm_store d) i c'))))))"

definition daemon_delete_agent :: "('b, 'p) node \<Rightarrow> bytes \<Rightarrow> ('p daemon, bool) handler" where
  "daemon_delete_agent N agent d =
     (case parse_agent N agent of
        Inl e \<Rightarrow> (Inl e, d)
      | Inr i \<Rightarrow> stored N d (purge_agent (nd_engine N) (dm_store d) i))"

definition daemon_rename_agent :: "('b, 'p) node \<Rightarrow> bytes \<Rightarrow> bytes \<Rightarrow> ('p daemon, agent_info) handler" where
  "daemon_rename_agent N agent new_name d =
     (case parse_agent N agent of
        Inl e \<Rightarrow> (Inl e, d)
      | Inr i \<Rightarrow>
          stored N d (map_sum id (map_prod (agent_info_from N) id)
            (engine_rename_agent (nd_engine N) (dm_store d) i new_name)))"

subsection \<open>Models and servers (config.rs)\<close>

definition daemon_list_models :: "('b, 'p) node \<Rightarrow> ('p daemon, (bytes \<times> bool) list) handler" where
  "daemon_list_models N d = (Inr (list_models (nd_engine N) (dm_store d) (dm_models d)), d)"

definition daemon_set_active_model :: "('b, 'p) node \<Rightarrow> bytes \<Rightarrow> ('p daemon, unit) handler" where
  "daemon_set_active_model N model d =
     (let known = list_models (nd_engine N) (dm_store d) (dm_models d) in
      if known \<noteq> [] \<and> \<not> list_ex (\<lambda>(name, _). name = model) known
      then (Inl (''model '' @ quoted model @ '' not advertised by the LLM endpoint''), d)
      else
        let c = (case engine_default_agent (nd_engine N) (dm_store d) of
                   Some c \<Rightarrow> c
                 | None \<Rightarrow> agent_config_crab (nd_max_tokens N) model)
        in stored N d (map_sum id (map_prod (\<lambda>_. ()) id)
             (update_agent (nd_engine N) (dm_store d) (ag_id c) (c\<lparr>ag_model := model\<rparr>))))"

fun mcp_status_from :: "server_status \<Rightarrow> mcp_status" where
  "mcp_status_from Connecting = McpConnectingStatus"
| "mcp_status_from Connected = McpConnectedStatus"
| "mcp_status_from Failed = McpFailedStatus"
| "mcp_status_from Disconnected = McpDisconnectedStatus"

text \<open>The kind of a listed server is always local.\<close>

definition mcp_info_for ::
  "('b, 'p) node \<Rightarrow> mcp_server_config \<Rightarrow> agent_config \<Rightarrow> (owner \<times> server_state) list \<Rightarrow> mcp_info" where
  "mcp_info_for N c a known =
     (let (status, tool_count, err) =
        (case map_of known (eg_show (nd_engine N) (ag_id a), ms_name c) of
           Some s \<Rightarrow> (mcp_status_from (McpHandler.sv_status s), length (sv_tools s) mod 2 ^ 32,
                       (case sv_error s of Some e \<Rightarrow> e | None \<Rightarrow> []))
         | None \<Rightarrow> (McpUnknown, 0, []))
      in \<lparr>mi_name = ms_name c, mi_command = ms_command c, mi_args = ms_args c, mi_env = ms_env c,
          mi_url = (case ms_url c of Some u \<Rightarrow> u | None \<Rightarrow> []),
          mi_auth = (case ms_auth c of Some t \<Rightarrow> t | None \<Rightarrow> []), mi_source = ag_name a,
          mi_auto_restart = ms_auto_restart c, mi_status = status, mi_error = err,
          mi_tool_count = tool_count\<rparr>)"

definition list_mcps :: "('b, 'p) node \<Rightarrow> 'p daemon \<Rightarrow> agent_id option \<Rightarrow> bytes + mcp_info list" where
  "list_mcps N d agent =
     (let G = nd_engine N; known = states (dm_mcp d) in
      map_sum id (\<lambda>configs. concat (map (\<lambda>a. map (\<lambda>c. mcp_info_for N c a known) (ag_mcps a)) configs))
        (case agent of
           None \<Rightarrow> Inr (engine_agents G (dm_store d))
         | Some i \<Rightarrow>
             (case engine_agent G (dm_store d) i of
                Some a \<Rightarrow> Inr [a]
              | None \<Rightarrow> Inl (''agent '' @ quoted (eg_show G i) @ '' not found''))))"

definition daemon_list_mcps :: "('b, 'p) node \<Rightarrow> bytes \<Rightarrow> ('p daemon, mcp_info list) handler" where
  "daemon_list_mcps N agent d = (bindr (parse_agent_filter N agent) (list_mcps N d), d)"

text \<open>The first declaration of that name is replaced, or one is added.\<close>

fun upsert_slot :: "mcp_server_config \<Rightarrow> mcp_server_config list \<Rightarrow> mcp_server_config list" where
  "upsert_slot c [] = [c]"
| "upsert_slot c (x # xs) = (if ms_name x = ms_name c then c # xs else x # upsert_slot c xs)"

definition find_mcp :: "bytes \<Rightarrow> bytes \<Rightarrow> bytes + mcp_info list \<Rightarrow> bytes + mcp_info" where
  "find_mcp what name r =
     bindr r (\<lambda>l. case find (\<lambda>x. mi_name x = name) l of
       Some x \<Rightarrow> Inr x
     | None \<Rightarrow> Inl (''mcp '' @ quoted name @ '' missing from listing after '' @ what))"

definition daemon_upsert_mcp ::
  "('b, 'p) node \<Rightarrow> moment \<Rightarrow> bytes \<Rightarrow> bytes \<Rightarrow> ('p daemon, mcp_info) handler" where
  "daemon_upsert_mcp N M agent config d =
     (let G = nd_engine N in
      case parse_agent N agent of
        Inl e \<Rightarrow> (Inl e, d)
      | Inr i \<Rightarrow>
          (case nd_parse_mcp N config of
             Inl e \<Rightarrow> (Inl ''invalid McpServerConfig JSON'', d)
           | Inr c \<Rightarrow>
               if ms_name c = [] then (Inl ''MCP config must have a name'', d)
               else
                 (case load_agent (eg_agents G) (dm_store d) i of
                    Inl e \<Rightarrow> (Inl (nd_store_text N e), d)
                  | Inr None \<Rightarrow> (Inl (''agent '' @ quoted (eg_show G i) @ '' not found''), d)
                  | Inr (Some a) \<Rightarrow>
                      (case update_agent G (dm_store d) i (a\<lparr>ag_mcps := upsert_slot c (ag_mcps a)\<rparr>) of
                         Inl e \<Rightarrow> (Inl (engine_text N e), d)
                       | Inr (_, m) \<Rightarrow>
                           (let d' = d\<lparr>dm_store := m,
                                  dm_mcp := ensure_connected (nd_mcp N) (dm_mcp d) (eg_show G i) [ms_name c] (mo_secs M)\<rparr>
                            in (find_mcp ''upsert'' (ms_name c) (list_mcps N d' (Some i)), d'))))))"

definition daemon_delete_mcp :: "('b, 'p) node \<Rightarrow> bytes \<Rightarrow> bytes \<Rightarrow> ('p daemon, bool) handler" where
  "daemon_delete_mcp N agent name d =
     (let G = nd_engine N in
      case parse_agent N agent of
        Inl e \<Rightarrow> (Inl e, d)
      | Inr i \<Rightarrow>
          (case load_agent (eg_agents G) (dm_store d) i of
             Inl e \<Rightarrow> (Inl (nd_store_text N e), d)
           | Inr None \<Rightarrow> (Inl (''agent '' @ quoted (eg_show G i) @ '' not found''), d)
           | Inr (Some a) \<Rightarrow>
               (let kept = filter (\<lambda>c. ms_name c \<noteq> name) (ag_mcps a) in
                if length kept = length (ag_mcps a) then (Inr False, d)
                else stored N d (map_sum id (map_prod (\<lambda>_. True) id)
                       (update_agent G (dm_store d) i (a\<lparr>ag_mcps := kept\<rparr>))))))"

definition daemon_reconnect_mcp ::
  "('b, 'p) node \<Rightarrow> moment \<Rightarrow> bytes \<Rightarrow> bytes \<Rightarrow> ('p daemon, mcp_info) handler" where
  "daemon_reconnect_mcp N M agent name d =
     (case parse_agent N agent of
        Inl e \<Rightarrow> (Inl e, d)
      | Inr i \<Rightarrow>
          (case reconnect_for_agent (nd_mcp N) (dm_mcp d) (eg_show (nd_engine N) i) name (mo_secs M) of
             (Inl e, S) \<Rightarrow> (Inl e, d\<lparr>dm_mcp := S\<rparr>)
           | (Inr _, S) \<Rightarrow>
               (let d' = d\<lparr>dm_mcp := S\<rparr>
                in (find_mcp ''reconnect'' name (list_mcps N d' (Some i)), d'))))"

subsection \<open>Skills (config.rs)\<close>

definition SKILL_PAGE :: nat where
  "SKILL_PAGE = 200"

definition daemon_list_skills :: "('b, 'p) node \<Rightarrow> ('p daemon, skill_summary list) handler" where
  "daemon_list_skills N d =
     (Inr (case list_skills (nd_summary N) (dm_store d) SKILL_PAGE 0 of Inr l \<Rightarrow> l | Inl e \<Rightarrow> []), d)"

definition daemon_get_skill :: "('b, 'p) node \<Rightarrow> bytes \<Rightarrow> ('p daemon, bytes \<times> bytes) handler" where
  "daemon_get_skill N name d =
     (bindr (told (nd_store_text N) (load_skill (nd_skill N) (dm_store d) name))
        (\<lambda>r. case r of
             None \<Rightarrow> Inl (''no skill named '' @ quoted name)
           | Some s \<Rightarrow> Inr (sk_name s, sk_body s)), d)"

subsection \<open>Merge patches\<close>

text \<open>RFC 7386: a patch object is merged into an empty object where the target is none.\<close>

fun rfc_merge :: "json \<Rightarrow> json \<Rightarrow> json" and
  rfc_fields :: "(bytes \<times> json) list \<Rightarrow> (bytes \<times> json) list \<Rightarrow> (bytes \<times> json) list" where
  "rfc_merge base (JObject patch) =
     JObject (rfc_fields (case base of JObject b \<Rightarrow> b | _ \<Rightarrow> []) patch)"
| "rfc_merge base patch = patch"
| "rfc_fields base [] = base"
| "rfc_fields base ((k, v) # patch) =
     rfc_fields
       (if v = JNull then bt_remove k base
        else bt_insert k (rfc_merge (case map_of base k of Some b \<Rightarrow> b | None \<Rightarrow> JNull) v) base)
       patch"

text \<open>A value whose objects have no nulls, their keys in order.\<close>

fun null_free :: "json \<Rightarrow> bool" and null_free_fields :: "(bytes \<times> json) list \<Rightarrow> bool" where
  "null_free (JObject fs) = (bt_ok fs \<and> null_free_fields fs)"
| "null_free v = (v \<noteq> JNull)"
| "null_free_fields [] = True"
| "null_free_fields ((k, v) # fs) = (null_free v \<and> null_free_fields fs)"

text \<open>Where the patch has an object and the base has none, the object is free of nulls.\<close>

fun meets :: "json \<Rightarrow> json \<Rightarrow> bool" and
  meets_fields :: "(bytes \<times> json) list \<Rightarrow> (bytes \<times> json) list \<Rightarrow> bool" where
  "meets (JObject base) (JObject patch) = (distinct (map fst patch) \<and> meets_fields base patch)"
| "meets base (JObject patch) = null_free (JObject patch)"
| "meets base patch = True"
| "meets_fields base [] = True"
| "meets_fields base ((k, v) # patch) =
     (meets (case map_of base k of Some b \<Rightarrow> b | None \<Rightarrow> JNull) v \<and> meets_fields base patch)"

lemma null_free_rfc:
  "null_free v \<Longrightarrow> rfc_merge JNull v = v"
  "null_free_fields fs \<Longrightarrow> bt_ok (acc @ fs) \<Longrightarrow> rfc_fields acc fs = acc @ fs"
proof (induction v and fs arbitrary: and acc rule: null_free_null_free_fields.induct)
  case (1 fs)
  then show ?case using "1.IH" [of "[]"] by simp
next
  case (4 k v fs)
  have "map_of acc k = None" and last: "\<forall>x \<in> fst ` set acc. x < k"
    using 4(4) by (auto simp: bt_ok_def sorted_wrt_append map_of_eq_None_iff)
  moreover have "v \<noteq> JNull" using 4(3) by auto
  moreover have "bt_insert k v acc = acc @ [(k, v)]"
    by (rule bt_insert_append_last) (use last in auto)
  ultimately show ?case using 4 by simp
qed simp_all

lemma meets_fields_cong:
  "(\<And>k. k \<in> fst ` set patch \<Longrightarrow> map_of base k = map_of base' k) \<Longrightarrow> meets_fields base patch = meets_fields base' patch"
  by (induction patch) auto

lemma merge_scalar [simp]:
  "merge base JNull = JNull" "merge base (JBool b) = JBool b" "merge base (JNumber n) = JNumber n"
  "merge base (JString s) = JString s" "merge base (JArray a) = JArray a"
  by (cases base; simp)+

lemma meets_other:
  assumes "\<And>b. base \<noteq> JObject b" and "meets base patch"
  shows "merge base patch = rfc_merge base patch"
proof (cases patch)
  case (JObject fs)
  then have "null_free (JObject fs)" using assms by (cases base) auto
  then have "rfc_fields [] fs = fs" using null_free_rfc(2) [of fs "[]"] by simp
  then show ?thesis using JObject assms(1) by (cases base) auto
qed (use assms(1) in \<open>cases base; simp\<close>)+

lemma merge_rfc:
  "meets base patch \<Longrightarrow> merge base patch = rfc_merge base patch"
  "meets_fields bs ps \<Longrightarrow> distinct (map fst ps) \<Longrightarrow> merge_fields bs ps = rfc_fields bs ps"
proof (induction base patch and bs ps rule: merge_merge_fields.induct)
  case (4 bs k v ps)
  let ?b = "case map_of bs k of Some b \<Rightarrow> b | None \<Rightarrow> JNull"
  let ?bs = "if v = JNull then bt_remove k bs else bt_insert k (merge ?b v) bs"
  have "meets_fields ?bs ps = meets_fields bs ps"
    by (rule meets_fields_cong) (use 4(4) in auto)
  moreover have "v \<noteq> JNull \<Longrightarrow> merge ?b v = rfc_merge ?b v" using 4 by simp
  ultimately show ?case using 4 by auto
qed ((simp; fail) | (rule meets_other, simp, assumption))+

lemma map_of_merge_fields:
  "distinct (map fst patch) \<Longrightarrow> map_of (merge_fields base patch) k =
     (case map_of patch k of
        None \<Rightarrow> map_of base k
      | Some v \<Rightarrow> if v = JNull then None
                  else Some (merge (case map_of base k of Some b \<Rightarrow> b | None \<Rightarrow> JNull) v))"
proof (induction patch arbitrary: base)
  case (Cons e patch)
  obtain x v where e: "e = (x, v)" by (cases e) blast
  have fresh: "map_of patch x = None" and dis: "distinct (map fst patch)"
    using Cons.prems by (auto simp: e map_of_eq_None_iff)
  show ?case
  proof (cases "k = x")
    case True
    then show ?thesis using Cons.IH [OF dis] fresh by (simp add: e)
  next
    case False
    then show ?thesis using Cons.IH [OF dis] by (cases "v = JNull") (simp_all add: e split: option.split)
  qed
qed simp

text \<open>
  A patch of an object changes each key on its own: a key it does not name keeps its value, a null
  removes the key, any other value is merged into what the key had.
\<close>

theorem merge_pointwise:
  assumes "distinct (map fst patch)"
  shows "\<exists>r. merge (JObject base) (JObject patch) = JObject r \<and>
    map_of r k = (case map_of patch k of
        None \<Rightarrow> map_of base k
      | Some v \<Rightarrow> if v = JNull then None
                  else Some (merge (case map_of base k of Some b \<Rightarrow> b | None \<Rightarrow> JNull) v))"
  using map_of_merge_fields [OF assms] by simp

theorem merge_pointwise_witness:
  "merge (JObject [(''a'', JBool True), (''b'', JNull)]) (JObject [(''a'', JNull)]) = JObject [(''b'', JNull)]"
proof -
  have "distinct (map fst [(''a'', JNull)])" by simp
  from merge_pointwise [OF this, of "[(''a'', JBool True), (''b'', JNull)]" "''b''"]
  show ?thesis by (simp add: bt_remove_def)
qed

text \<open>
  C25: The merge is that of RFC 7386 for every patch whose objects meet an object or hold no nulls.
\<close>

theorem merge_is_rfc:
  assumes "meets base patch"
  shows "merge base patch = rfc_merge base patch"
  using assms by (rule merge_rfc)

theorem merge_is_rfc_witness:
  "merge (JObject [(''a'', JObject [(''b'', JBool True)])]) (JObject [(''a'', JObject [(''b'', JNull)])]) =
     rfc_merge (JObject [(''a'', JObject [(''b'', JBool True)])]) (JObject [(''a'', JObject [(''b'', JNull)])])"
  by (rule merge_is_rfc) simp

text \<open>
  Elsewhere it is not: nulls of an object that meets none are kept, and applying the patch again
  changes the result.
\<close>

lemma merge_keeps_null:
  fixes p defines p: "p \<equiv> JObject [(''a'', JObject [(''b'', JNull)])]"
  shows "merge (JObject []) p = p" and "rfc_merge (JObject []) p = JObject [(''a'', JObject [])]"
    and "merge (merge (JObject []) p) p = JObject [(''a'', JObject [])]"
  by (simp_all add: p bt_remove_def)

subsection \<open>What an update keeps\<close>

lemma update_agent_known:
  fixes G :: "'b engine" and m i c
  defines "E \<equiv> eg_agents G"
  assumes ok: "agent_env_ok E" and wf: "agents_consistent E m"
    and valid: "validate_table_name (ae_unicode E) (ag_name c) = Inr ()"
    and known: "agents_of E m i = Some c" and name: "ag_name c' = ag_name c"
  shows "\<exists>m'. update_agent G m i c' = Inr (persisted_config (c'\<lparr>ag_id := i\<rparr>), m') \<and> agents_consistent E m' \<and>
    agents_of E m' = (agents_of E m)(i \<mapsto> persisted_config (c'\<lparr>ag_id := i\<rparr>)) \<and>
    (\<forall>k. kv_get m' Config k = kv_get m Config k)"
proof -
  have "name_free (agents_of E m) i (ag_name c)"
    using consistent_unique [OF ok wf _ known] by (auto simp: name_free_def)
  then obtain m' where m': "upsert_agent E m (c'\<lparr>ag_id := i\<rparr>) = Inr m'" "agents_consistent E m'"
    "agents_of E m' = (agents_of E m)(i \<mapsto> persisted_config (c'\<lparr>ag_id := i\<rparr>))"
    using upsert_consistent [OF ok wf, of "c'\<lparr>ag_id := i\<rparr>"] valid name by auto
  have "reload_agent G m' i = Inr (persisted_config (c'\<lparr>ag_id := i\<rparr>))"
    using consistent_load [OF m'(2), of i] m'(3) by (simp add: reload_agent_def engine_agent_def E_def)
  moreover have "kv_get m' Config k = kv_get m Config k" for k
  proof -
    have "m' = put_agent_name E (put_json (ae_codec E) m Agent (agent_key E i) (c'\<lparr>ag_id := i\<rparr>)) (ag_name c) i"
      using m'(1) valid name known consistent_load [OF wf, of i] consistent_id [OF wf known]
      by (simp add: upsert_agent_def Let_def)
    then show ?thesis by (simp add: put_agent_name_def)
  qed
  ultimately show ?thesis using m' by (auto simp: update_agent_def E_def)
qed

text \<open>
  A patch changes the agent it is for and nothing else: the agent stays under its id and its
  name whatever the patch says of them, every other agent is as it was, and names still resolve.
\<close>

theorem update_agent_keeps_identity:
  assumes "agent_env_ok (eg_agents (nd_engine N))" and "agents_consistent (eg_agents (nd_engine N)) (dm_store d)"
    and "parse_agent N agent = Inr i" and "agents_of (eg_agents (nd_engine N)) (dm_store d) i = Some c"
    and "validate_table_name (ae_unicode (eg_agents (nd_engine N))) (ag_name c) = Inr ()"
    and "nd_parse_json N config = Inr patch" and "nd_from_value N (merge (nd_to_value N c) patch) = Inr c'"
  shows "\<exists>d' r. daemon_update_agent N agent config d = (Inr (agent_info_from N r), d') \<and>
    r = persisted_config (c'\<lparr>ag_name := ag_name c, ag_id := i\<rparr>) \<and> d' = d\<lparr>dm_store := dm_store d'\<rparr> \<and>
    agents_consistent (eg_agents (nd_engine N)) (dm_store d') \<and>
    agents_of (eg_agents (nd_engine N)) (dm_store d') =
      (agents_of (eg_agents (nd_engine N)) (dm_store d))(i \<mapsto> r)"
proof -
  let ?E = "eg_agents (nd_engine N)" and ?r = "persisted_config (c'\<lparr>ag_name := ag_name c, ag_id := i\<rparr>)"
  obtain m' where m': "update_agent (nd_engine N) (dm_store d) i (c'\<lparr>ag_name := ag_name c\<rparr>) = Inr (?r, m')"
    "agents_consistent ?E m'" "agents_of ?E m' = (agents_of ?E (dm_store d))(i \<mapsto> ?r)"
    using update_agent_known [OF assms(1,2,5,4), of "c'\<lparr>ag_name := ag_name c\<rparr>"] by auto
  have "daemon_update_agent N agent config d = (Inr (agent_info_from N ?r), d\<lparr>dm_store := m'\<rparr>)"
    using assms(3,4,6,7) m'(1) consistent_load [OF assms(2), of i]
    by (simp add: daemon_update_agent_def patched_def stored_def Let_def)
  then show ?thesis using m' by auto
qed

text \<open>
  Setting the active model of an install with a default agent makes that model the active
  one, for a model the endpoint serves or where nothing is known, and changes nothing of the
  agent but its model.
\<close>

theorem set_active_model_takes:
  assumes "agent_env_ok (eg_agents (nd_engine N))" and "agents_consistent (eg_agents (nd_engine N)) (dm_store d)"
    and "engine_default_agent (nd_engine N) (dm_store d) = Some c"
    and "validate_table_name (ae_unicode (eg_agents (nd_engine N))) (ag_name c) = Inr ()"
    and "dm_models d = [] \<or> model \<in> set (dm_models d)"
  shows "\<exists>d'. daemon_set_active_model N model d = (Inr (), d') \<and>
    active_model (nd_engine N) (dm_store d') = model \<and>
    agents_of (eg_agents (nd_engine N)) (dm_store d') =
      (agents_of (eg_agents (nd_engine N)) (dm_store d))(ag_id c \<mapsto> persisted_config (c\<lparr>ag_model := model\<rparr>))"
proof -
  let ?E = "eg_agents (nd_engine N)" and ?G = "nd_engine N" and ?m = "dm_store d"
  obtain i where i: "default_agent ?E ?m = Inr (Some i)" "engine_agent ?G ?m i = Some c"
    using assms(3) by (auto simp: engine_default_agent_def split: sum.splits option.splits)
  then have known: "agents_of ?E ?m i = Some c"
    using consistent_load [OF assms(2), of i] by (simp add: engine_agent_def)
  then have id: "ag_id c = i" by (rule consistent_id [OF assms(2)])
  obtain m' where m': "update_agent ?G ?m i (c\<lparr>ag_model := model\<rparr>) = Inr (persisted_config (c\<lparr>ag_model := model\<rparr>), m')"
    "agents_consistent ?E m'" "agents_of ?E m' = (agents_of ?E ?m)(i \<mapsto> persisted_config (c\<lparr>ag_model := model\<rparr>))"
    "\<And>k. kv_get m' Config k = kv_get ?m Config k"
    using update_agent_known [OF assms(1,2,4) known, of "c\<lparr>ag_model := model\<rparr>"] id by auto
  have "default_agent ?E m' = Inr (Some i)" using i(1) m'(4) by (simp add: default_agent_def)
  then have "active_model ?G m' = model"
    using consistent_load [OF m'(2), of i] m'(3)
    by (simp add: active_model_def engine_default_agent_def engine_agent_def persisted_config_def)
  moreover have "daemon_set_active_model N model d = (Inr (), d\<lparr>dm_store := m'\<rparr>)"
    using assms(3,5) m'(1) id
    by (auto simp: daemon_set_active_model_def list_models_def stored_def list_ex_iff Let_def)
  ultimately show ?thesis using m'(3) id by auto
qed

lemma lift_store_Inr: "lift_store r = Inr a \<longleftrightarrow> r = Inr a"
  by (cases r) simp_all

lemma upsert_agent_frame:
  "upsert_agent E m c = Inr m' \<Longrightarrow> col \<noteq> Agent \<Longrightarrow> kv_get m' col k = kv_get m col k"
  by (auto simp: upsert_agent_def bindr_Inr put_agent_name_def Let_def split: option.split)

text \<open>With no default agent the call succeeds and the active model stays empty: no default is set.\<close>

lemma set_active_model_without_default:
  assumes "agent_env_ok (eg_agents (nd_engine N))"
    and "default_agent (eg_agents (nd_engine N)) (dm_store d) = Inr None"
    and "daemon_set_active_model N model d = (Inr (), d')"
  shows "active_model (nd_engine N) (dm_store d') = []"
proof -
  let ?E = "eg_agents (nd_engine N)" and ?c = "(agent_config_crab (nd_max_tokens N) model)\<lparr>ag_model := model\<rparr>"
  have "engine_default_agent (nd_engine N) (dm_store d) = None" using assms(2) by (simp add: engine_default_agent_def)
  then obtain r where "update_agent (nd_engine N) (dm_store d) (ag_id ?c) ?c = Inr (r, dm_store d')"
    using assms(3)
    by (cases "update_agent (nd_engine N) (dm_store d) (ag_id ?c) ?c")
      (auto simp: daemon_set_active_model_def stored_def Let_def split: if_splits)
  then have "upsert_agent ?E (dm_store d) ?c = Inr (dm_store d')"
    by (auto simp: update_agent_def bindr_Inr lift_store_Inr)
  then have "kv_get (dm_store d') Config default_agent_key = kv_get (dm_store d) Config default_agent_key"
    by (rule upsert_agent_frame) simp
  then show ?thesis using assms(2) by (simp add: active_model_def engine_default_agent_def default_agent_def)
qed

subsection \<open>What an upsert of a server reaches\<close>

lemma find_upsert_slot: "find (\<lambda>x. ms_name x = ms_name c) (upsert_slot c cs) = Some c"
  by (induction cs) auto

lemma states_unclaimed:
  assumes "map_of (mh_by_owner S) k = None"
  shows "map_of (states S) k = None"
proof -
  have "k \<notin> fst ` set (mh_by_owner S)" using assms by (simp add: map_of_eq_None_iff)
  then have "k \<notin> fst ` set (states S)"
    by (force simp: states_def map_filter_def split: option.splits)
  then show ?thesis by (simp add: map_of_eq_None_iff)
qed

lemma mcp_info_name [simp]: "mi_name (mcp_info_for N c a known) = ms_name c"
  by (simp add: mcp_info_for_def Let_def split: prod.split)

lemma find_map_info:
  "find (\<lambda>x. mi_name x = n) (map (\<lambda>c. mcp_info_for N c a known) cs) =
     map_option (\<lambda>c. mcp_info_for N c a known) (find (\<lambda>c. ms_name c = n) cs)"
  by (induction cs) simp_all

text \<open>
  Declaring a server an agent did not claim puts the declaration into the stored agent and nothing
  else: no connection is made and no tool is there, which is what the answer says.
\<close>

theorem upsert_mcp_declares:
  assumes "agent_env_ok (eg_agents (nd_engine N))" and "agents_consistent (eg_agents (nd_engine N)) (dm_store d)"
    and "parse_agent N agent = Inr i" and "agents_of (eg_agents (nd_engine N)) (dm_store d) i = Some a"
    and "validate_table_name (ae_unicode (eg_agents (nd_engine N))) (ag_name a) = Inr ()"
    and "nd_parse_mcp N config = Inr c" and "ms_name c \<noteq> []"
    and "map_of (mh_by_owner (dm_mcp d)) (eg_show (nd_engine N) i, ms_name c) = None"
  shows "\<exists>d' info r. daemon_upsert_mcp N M agent config d = (Inr info, d') \<and>
    mi_name info = ms_name c \<and> mi_status info = McpUnknown \<and> mi_tool_count info = 0 \<and>
    dm_mcp d' = dm_mcp d \<and> r = persisted_config (a\<lparr>ag_mcps := upsert_slot c (ag_mcps a)\<rparr>) \<and>
    agents_of (eg_agents (nd_engine N)) (dm_store d') = (agents_of (eg_agents (nd_engine N)) (dm_store d))(i \<mapsto> r)"
proof -
  let ?E = "eg_agents (nd_engine N)" and ?G = "nd_engine N" and ?m = "dm_store d"
  let ?a = "a\<lparr>ag_mcps := upsert_slot c (ag_mcps a)\<rparr>"
  let ?r = "persisted_config ?a"
  have id: "ag_id a = i" by (rule consistent_id [OF assms(2,4)])
  have same: "?a\<lparr>ag_id := i\<rparr> = ?a" by (rule agent_config.equality) (simp_all add: id)
  obtain m' where m': "update_agent ?G ?m i ?a = Inr (?r, m')" "agents_consistent ?E m'"
    "agents_of ?E m' = (agents_of ?E ?m)(i \<mapsto> ?r)"
    using update_agent_known [OF assms(1,2,5,4), of ?a] by (auto simp: same)
  have "ensure_connected (nd_mcp N) (dm_mcp d) (eg_show ?G i) [ms_name c] (mo_secs M) = dm_mcp d"
    using assms(8) by (simp add: ensure_connected_def pending_def map_filter_def)
  moreover have "engine_agent ?G m' i = Some ?r"
    using consistent_load [OF m'(2), of i] m'(3) by (simp add: engine_agent_def)
  ultimately have "daemon_upsert_mcp N M agent config d =
      (Inr (mcp_info_for N c ?r (states (dm_mcp d))), d\<lparr>dm_store := m'\<rparr>)"
    using assms(3,4,6,7) m'(1) consistent_load [OF assms(2), of i]
    by (simp add: daemon_upsert_mcp_def list_mcps_def find_mcp_def find_map_info find_upsert_slot
        persisted_config_def Let_def)
  moreover have "map_of (states (dm_mcp d)) (eg_show ?G (ag_id ?r), ms_name c) = None"
    using states_unclaimed [OF assms(8)] id by simp
  then have "mi_status (mcp_info_for N c ?r (states (dm_mcp d))) = McpUnknown"
    "mi_tool_count (mcp_info_for N c ?r (states (dm_mcp d))) = 0"
    by (simp_all add: mcp_info_for_def Let_def)
  ultimately show ?thesis using m'(3) by auto
qed

subsection \<open>Witnesses\<close>

definition sample_node :: "(bytes \<times> tool_call list, nat) node" where
  "sample_node =
     \<lparr>nd_engine = sample_engine, nd_mcp = sample_mcp, nd_subscriptions = subscription_codec,
      nd_skill = \<lparr>sk_unicode = ascii_unicode, parse_yaml = name_yaml\<rparr>, nd_summary = summary_codec,
      nd_parse_json = (\<lambda>t. Inr (JObject [(''model'', JString t)])),
      nd_to_value = (\<lambda>c. JObject [(''model'', JString (ag_model c)), (''name'', JString (ag_name c))]),
      nd_from_value = (\<lambda>v. case v of
          JObject fs \<Rightarrow> (case map_of fs ''model'' of
              Some (JString t) \<Rightarrow> Inr ((sample_config 3 ''other'')\<lparr>ag_model := t\<rparr>)
            | _ \<Rightarrow> Inl ''missing field'')
        | _ \<Rightarrow> Inl ''invalid type''),
      nd_parse_config = (\<lambda>t. Inl t),
      nd_parse_mcp = (\<lambda>t. if t = [] then Inl ''empty'' else Inr (mcp_server_default\<lparr>ms_name := t\<rparr>)),
      nd_ulid_error = (\<lambda>_. ''invalid length''), nd_store_text = (\<lambda>_. ''store''),
      nd_tool_choice = ToolOther, nd_max_tokens = 8192, nd_local_day = (\<lambda>_. None), nd_show_day = (\<lambda>_. []),
      nd_version = ''1'', nd_fs = (\<lambda>_. None), nd_cwd = [], nd_home = None\<rparr>"

definition sample_daemon :: "kv \<Rightarrow> nat daemon" where
  "sample_daemon m =
     \<lparr>dm_store = m, dm_sessions = sessions_new None, dm_mcp = handler_new 60, dm_bus = sample_bus, dm_models = [],
      dm_fired = []\<rparr>"

lemma sample_node_simps [simp]:
  "nd_engine sample_node = sample_engine" "nd_to_value sample_node c = JObject [(''model'', JString (ag_model c)), (''name'', JString (ag_name c))]"
  "nd_parse_json sample_node t = Inr (JObject [(''model'', JString t)])"
  "dm_store (sample_daemon m) = m" "dm_models (sample_daemon m) = []" "dm_mcp (sample_daemon m) = handler_new 60"
  "dm_sessions (sample_daemon m) = sessions_new None"
  by (simp_all add: sample_node_def sample_daemon_def)

lemma sample_agents [simp]: "se_agents sample_session_env = sample_env"
  by (simp add: sample_session_env_def)

lemma sample_crab:
  "validate_table_name (ae_unicode sample_env) ''crab'' = Inr ()"
  by (simp add: sample_env_def sample_names)

lemma sample_agent_store:
  "\<exists>m. agents_consistent sample_env m \<and> agents_of sample_env m = [7 \<mapsto> sample_config 7 ''crab''] \<and>
     default_agent sample_env m = Inr (Some 7) \<and> (\<forall>k. kv_get m Session k = None)"
proof -
  obtain m where m: "upsert_agent sample_env [] (sample_config 7 ''crab'') = Inr m"
    "agents_consistent sample_env m" "agents_of sample_env m = [7 \<mapsto> sample_config 7 ''crab'']"
    using upsert_consistent [OF sample_env_ok, of "[]" "sample_config 7 ''crab''"] empty_consistent [of sample_env]
      sample_crab
    by (auto simp: name_free_def persisted_config_def sample_config_def agent_config_default_def)
  let ?m = "set_default_agent sample_env m 7"
  have load: "load_agent sample_env ?m j = load_agent sample_env m j" for j
    unfolding load_agent_def set_default_agent_def by (rule get_json_kv_put_other) simp
  have same: "agents_of sample_env ?m = agents_of sample_env m" by (simp add: agents_of_def load)
  then have "agents_consistent sample_env ?m"
    using m(2) by (simp add: agents_consistent_def load) (simp add: set_default_agent_def)
  moreover have "default_agent sample_env ?m = Inr (Some 7)"
    by (simp add: default_agent_def set_default_agent_def read_agent_id_show [OF sample_env_ok])
  moreover have "kv_get ?m Session k = None" for k
    using upsert_agent_frame [OF m(1), of Session k]
    by (simp add: set_default_agent_def) (simp add: kv_get_def)
  ultimately show ?thesis using m(3) same by metis
qed

lemma sample_parse: "parse_agent sample_node ''7'' = Inr 7"
proof -
  have "parse_uint 128 ''7'' = Some 7" by code_simp
  then show ?thesis by (simp add: parse_agent_def sample_env_def show_ulid_def)
qed

theorem update_agent_keeps_identity_witness:
  "\<exists>d d' info. daemon_update_agent sample_node ''7'' ''m2'' d = (Inr info, d') \<and>
     map_option ag_name (agents_of sample_env (dm_store d') 7) = Some ''crab'' \<and>
     map_option ag_model (agents_of sample_env (dm_store d') 7) = Some ''m2''"
proof -
  obtain m where m: "agents_consistent sample_env m" "agents_of sample_env m = [7 \<mapsto> sample_config 7 ''crab'']"
    using sample_agent_store by blast
  have v: "nd_from_value sample_node (merge (nd_to_value sample_node (sample_config 7 ''crab''))
      (JObject [(''model'', JString ''m2'')])) = Inr ((sample_config 3 ''other'')\<lparr>ag_model := ''m2''\<rparr>)"
    by (simp add: sample_node_def)
  then obtain d' where d': "daemon_update_agent sample_node ''7'' ''m2'' (sample_daemon m) =
      (Inr (agent_info_from sample_node (persisted_config ((sample_config 3 ''other'')
        \<lparr>ag_model := ''m2'', ag_name := ''crab'', ag_id := 7\<rparr>))), d')"
    "agents_of sample_env (dm_store d') = [7 \<mapsto> persisted_config ((sample_config 3 ''other'')
        \<lparr>ag_model := ''m2'', ag_name := ''crab'', ag_id := 7\<rparr>)]"
    using update_agent_keeps_identity [OF _ _ sample_parse _ _ _ v, of "sample_daemon m" "''m2''"]
      m sample_env_ok sample_crab
    by auto
  then show ?thesis
    by (intro exI [of _ "sample_daemon m"] exI [of _ d']) (auto simp: persisted_config_def)
qed

theorem set_active_model_takes_witness:
  "\<exists>d d'. daemon_set_active_model sample_node ''m2'' d = (Inr (), d') \<and>
     active_model sample_engine (dm_store d) = [] \<and> active_model sample_engine (dm_store d') = ''m2''"
proof -
  obtain m where m: "agents_consistent sample_env m" "agents_of sample_env m = [7 \<mapsto> sample_config 7 ''crab'']"
    "default_agent sample_env m = Inr (Some 7)"
    using sample_agent_store by blast
  have c: "engine_default_agent sample_engine m = Some (sample_config 7 ''crab'')"
    using m consistent_load [OF m(1), of 7] by (simp add: engine_default_agent_def engine_agent_def)
  then have "active_model sample_engine m = []"
    by (simp add: active_model_def sample_config_def agent_config_default_def)
  moreover obtain d' where "daemon_set_active_model sample_node ''m2'' (sample_daemon m) = (Inr (), d')"
    "active_model sample_engine (dm_store d') = ''m2''"
    using set_active_model_takes [of sample_node "sample_daemon m" "sample_config 7 ''crab''" "''m2''"]
      m c sample_env_ok sample_crab by auto
  ultimately show ?thesis by (intro exI [of _ "sample_daemon m"] exI [of _ d']) simp
qed

theorem upsert_mcp_declares_witness:
  "\<forall>M. \<exists>d d' info. daemon_upsert_mcp sample_node M ''7'' ''web'' d = (Inr info, d') \<and> mi_status info = McpUnknown \<and>
     map_option (map ms_name \<circ> ag_mcps) (agents_of sample_env (dm_store d') 7) = Some [''web'']"
proof (rule allI)
  fix M
  obtain m where m: "agents_consistent sample_env m" "agents_of sample_env m = [7 \<mapsto> sample_config 7 ''crab'']"
    using sample_agent_store by blast
  have "nd_parse_mcp sample_node ''web'' = Inr (mcp_server_default\<lparr>ms_name := ''web''\<rparr>)"
    by (simp add: sample_node_def)
  then obtain d' info where "daemon_upsert_mcp sample_node M ''7'' ''web'' (sample_daemon m) = (Inr info, d')"
    "mi_status info = McpUnknown"
    "agents_of sample_env (dm_store d') = [7 \<mapsto> persisted_config ((sample_config 7 ''crab'')
       \<lparr>ag_mcps := upsert_slot (mcp_server_default\<lparr>ms_name := ''web''\<rparr>) (ag_mcps (sample_config 7 ''crab''))\<rparr>)]"
    using upsert_mcp_declares [of sample_node "sample_daemon m" "''7''" 7 "sample_config 7 ''crab''" "''web''"
        "mcp_server_default\<lparr>ms_name := ''web''\<rparr>" M]
      m sample_env_ok sample_crab sample_parse
    by (auto simp: handler_new_def)
  then show "\<exists>d d' info. daemon_upsert_mcp sample_node M ''7'' ''web'' d = (Inr info, d') \<and> mi_status info = McpUnknown \<and>
     map_option (map ms_name \<circ> ag_mcps) (agents_of sample_env (dm_store d') 7) = Some [''web'']"
    by (intro exI [of _ "sample_daemon m"] exI [of _ d'] exI [of _ info])
      (simp add: persisted_config_def sample_config_def agent_config_default_def mcp_server_default_def)
qed

end
