(* ===== verification/DaemonSessions.thy ===== *)
theory DaemonSessions
  imports Daemon SessionSearch
begin

section \<open>The daemon's session calls and its server (crates/crabtalk/src/protocol)\<close>

text \<open>
  Opening, running, cancelling and ending sessions over the wire, the administrative calls, and the
  record of handlers the dispatch is given. A run holds its session and has its lock; a turn an
  event fires is a task that runs later, kept with the state. A run that panics leaves the
  store as it was. The lemmas show how a stream ends, what an ephemeral turn leaves alone, when a
  session is created, and what a client of the daemon sees over a connection.
\<close>

subsection \<open>Opening and running\<close>

definition created_by :: "bytes option \<Rightarrow> bytes" where
  "created_by sender =
     (case sender of None \<Rightarrow> ''user'' | Some s \<Rightarrow> if s = [] then ''user'' else s)"

definition or_empty :: "bytes option \<Rightarrow> bytes" where
  "or_empty x = (case x of Some s \<Rightarrow> s | None \<Rightarrow> [])"

definition daemon_open ::
  "('b, 'p) node \<Rightarrow> moment \<Rightarrow> 'p daemon \<Rightarrow> session_handle \<Rightarrow> agent_id \<Rightarrow> bytes \<Rightarrow> bytes option \<Rightarrow>
   (bytes + nat) \<times> 'p daemon" where
  "daemon_open N M d h agent who rt =
     (let (r, S, m) = open_session (nd_engine N) (dm_store d) (dm_sessions d) h agent who rt
            (mo_clock M) (mo_now M) (mo_later M)
      in (told (engine_text N) r, d\<lparr>dm_store := m, dm_sessions := S\<rparr>))"

text \<open>A run on a live session, under its lock: what it returns, the session and the store it leaves.\<close>

definition run_locked ::
  "nat \<Rightarrow> (kv \<Rightarrow> live_session \<Rightarrow> 'a \<times> live_session \<times> kv option) \<Rightarrow> 'p daemon \<Rightarrow> 'a option \<times> 'p daemon" where
  "run_locked i f d =
     (case map_of (by_id (sx_registry (dm_sessions d))) i of
        None \<Rightarrow> (None, d)
      | Some l \<Rightarrow>
          (let (a, s', m) = f (dm_store d) (lr_session l)
           in (Some a, d\<lparr>dm_sessions := unlock (lock (dm_sessions d) i) i s',
                         dm_store := (case m of Some m' \<Rightarrow> m' | None \<Rightarrow> dm_store d)\<rparr>)))"

definition let_go :: "nat \<Rightarrow> 'p daemon \<Rightarrow> 'p daemon" where
  "let_go i d = d\<lparr>dm_sessions := release (dm_sessions d) i\<rparr>"

subsection \<open>Sending and streaming (session.rs)\<close>

definition daemon_send :: "('b, 'p) node \<Rightarrow> moment \<Rightarrow> send_msg \<Rightarrow> ('p daemon, send_response) handler" where
  "daemon_send N M req d =
     (let G = nd_engine N in
      if sn_session req = [] then (Inl ''session_handle is required'', d)
      else case parse_agent N (sn_agent req) of
        Inl e \<Rightarrow> (Inl e, d)
      | Inr agent \<Rightarrow>
          (case daemon_open N M d (sn_session req) agent (created_by (sn_sender req)) None of
             (Inl e, d1) \<Rightarrow> (Inl e, d1)
           | (Inr i, d1) \<Rightarrow>
               (let (r, d2) = run_locked i (\<lambda>m s. send_to G m s (sn_content req) (or_empty (sn_sender req))
                      (map_option (nd_tool_choice N) (sn_tool_choice req)) [] (mo_world M) (mo_now M) (mo_later M)) d1
                in (case r of
                      None \<Rightarrow> Inl (engine_text N EnginePanic)
                    | Some (Inl e) \<Rightarrow> Inl (engine_text N e)
                    | Some (Inr a) \<Rightarrow>
                        Inr \<lparr>sp_agent = eg_show G agent, sp_content = or_empty (rs_final_response a),
                             sp_model = rs_model a, sp_usage = Some (response_usage (l_usage (eg_llm G)) a)\<rparr>,
                    let_go i d2))))"

definition final_event :: "bytes \<Rightarrow> bytes + stream_event" where
  "final_event agent = Inr (Some (SEvent (WEnd agent [] [] None)))"

text \<open>The events of a run as they are yielded: nothing after \<open>Done\<close>, and an end if it never came.\<close>

fun turn_events :: "usage_ops \<Rightarrow> bytes \<Rightarrow> agent_event list \<Rightarrow> (bytes + stream_event) list" where
  "turn_events Q agent [] = [final_event agent]"
| "turn_events Q agent (ev # evs) =
     Inr (Some (SEvent (to_stream Q agent ev))) # (if is_done ev then [] else turn_events Q agent evs)"

definition parse_guest :: "('b, 'p) node \<Rightarrow> bytes option \<Rightarrow> bytes + agent_id option" where
  "parse_guest N guest = parse_agent_filter N (or_empty guest)"

text \<open>
  A turn of the session's own agent can be cancelled while it runs, a guest's cannot; either way
  the token is gone when the stream is.
\<close>

definition stream_session ::
  "('b, 'p) node \<Rightarrow> moment \<Rightarrow> stream_msg \<Rightarrow> agent_id option \<Rightarrow> nat \<Rightarrow> 'p daemon \<Rightarrow> agent_event list \<times> 'p daemon" where
  "stream_session N M req guest i d =
     (let G = nd_engine N; sender = or_empty (sq_sender req);
          (r, d') = (case guest of
             None \<Rightarrow>
               run_locked i (\<lambda>m s. stream_to G m s (sq_content req) sender
                   (map_option (nd_tool_choice N) (sq_tool_choice req)) [] (mo_world M) (mo_now M) (mo_later M))
                 (d\<lparr>dm_sessions := snd (begin_cancel (dm_sessions d) i)\<rparr>)
           | Some g \<Rightarrow>
               run_locked i (\<lambda>m s. guest_stream_to G m s (sq_content req) sender g (mo_guest M) (mo_now M) (mo_later M)) d)
      in (case r of Some evs \<Rightarrow> evs | None \<Rightarrow> [],
          let_go i (d'\<lparr>dm_sessions := end_cancel (dm_sessions d') i\<rparr>)))"

definition daemon_stream :: "('b, 'p) node \<Rightarrow> moment \<Rightarrow> stream_msg \<Rightarrow> ('p daemon, stream_event) streamer" where
  "daemon_stream N M req d =
     (let G = nd_engine N; show = eg_show G;
          choice = map_option (nd_tool_choice N) (sq_tool_choice req);
          started = (\<lambda>a evs. Inr (Some (SStart (show a))) # turn_events (l_usage (eg_llm G)) (show a) evs)
      in case parse_agent N (sq_agent req) of
        Inl e \<Rightarrow> ([Inl e], d)
      | Inr agent \<Rightarrow>
          (case parse_guest N (sq_guest req) of
             Inl e \<Rightarrow> ([Inl e], d)
           | Inr guest \<Rightarrow>
               if sq_ephemeral req
               then (started agent (ephemeral_stream G (dm_store d) agent (sq_content req) choice [] (mo_world M)), d)
               else if sq_session req = [] then ([Inl ''session_handle is required''], d)
               else
                 (case daemon_open N M d (sq_session req) agent (created_by (sq_sender req)) None of
                    (Inl e, d1) \<Rightarrow> ([Inl e], d1)
                  | (Inr i, d1) \<Rightarrow>
                      (let (evs, d2) = stream_session N M req guest i d1
                       in (started (case guest of Some g \<Rightarrow> g | None \<Rightarrow> agent) evs, d2)))))"

subsection \<open>Creating, compacting, cancelling, killing\<close>

text \<open>The first declaration that cannot be bound to the root.\<close>

definition unbound :: "('b, 'p) node \<Rightarrow> bytes option \<Rightarrow> harness_config list \<Rightarrow> harness_config option" where
  "unbound N rt hs =
     find (\<lambda>h. case bind_root (nd_fs N) (nd_cwd N) (nd_home N) (hc_root h) rt of Inl e \<Rightarrow> True | Inr r \<Rightarrow> False) hs"

definition daemon_create_session ::
  "('b, 'p) node \<Rightarrow> moment \<Rightarrow> create_session_msg \<Rightarrow> ('p daemon, unit) handler" where
  "daemon_create_session N M req d =
     (let G = nd_engine N in
      if cs_session req = [] then (Inl ''session_handle is required'', d)
      else case parse_agent N (cs_agent req) of
        Inl e \<Rightarrow> (Inl e, d)
      | Inr agent \<Rightarrow>
          (case load_session (eg_sessions G) (dm_store d) (cs_session req) of
             Inl e \<Rightarrow> (Inl (nd_store_text N e), d)
           | Inr (Some snap) \<Rightarrow> (Inl (''session '' @ quoted (cs_session req) @ '' already exists''), d)
           | Inr None \<Rightarrow>
               (case engine_agent G (dm_store d) agent of
                  None \<Rightarrow> (Inl (engine_text N (AgentNotRegistered agent)), d)
                | Some config \<Rightarrow>
                    (case unbound N (cs_root req) (ag_harnesses config) of
                       Some h \<Rightarrow> (Inl (''harness '' @ quoted (hc_name h) @ '' cannot be bound to that root''), d)
                     | None \<Rightarrow>
                         (case daemon_open N M d (cs_session req) agent (created_by (cs_sender req)) (cs_root req) of
                            (Inl e, d1) \<Rightarrow> (Inl e, d1)
                          | (Inr i, d1) \<Rightarrow> (Inr (), let_go i d1))))))"

definition no_session :: "bytes \<Rightarrow> bytes" where
  "no_session h = ''session not found for handle='' @ quoted h"

definition daemon_compact :: "('b, 'p) node \<Rightarrow> moment \<Rightarrow> bytes \<Rightarrow> bytes \<Rightarrow> ('p daemon, bytes) handler" where
  "daemon_compact N M h prompt d =
     (case find_by_handle (dm_sessions d) h of
        None \<Rightarrow> (Inl (no_session h), d)
      | Some (i, _, S) \<Rightarrow>
          (let (r, d1) = run_locked i
                 (\<lambda>m s. case compact_session (nd_engine N) m s prompt (mo_compact M) (mo_now M) (mo_later M) of
                    None \<Rightarrow> (None, s, None)
                  | Some (a, s', m') \<Rightarrow> (a, s', Some m'))
                 (d\<lparr>dm_sessions := snd (begin_cancel S i)\<rparr>)
           in (case Option.bind r id of
                 Some summary \<Rightarrow> Inr summary
               | None \<Rightarrow> Inl (''compact failed for handle='' @ quoted h),
               let_go i (d1\<lparr>dm_sessions := end_cancel (dm_sessions d1) i\<rparr>))))"

definition daemon_cancel_stream :: "bytes \<Rightarrow> ('p daemon, unit) handler" where
  "daemon_cancel_stream h d =
     (case find_by_handle (dm_sessions d) h of
        None \<Rightarrow> (Inl (no_session h), d)
      | Some (i, _, S) \<Rightarrow>
          (let (ok, S') = cancel (release S i) i
           in (if ok then Inr () else Inl (''no cancellable operation for session '' @ show_nat i),
               d\<lparr>dm_sessions := S'\<rparr>)))"

definition daemon_kill :: "bytes \<Rightarrow> ('p daemon, bool) handler" where
  "daemon_kill h d =
     (case find_by_handle (dm_sessions d) h of
        None \<Rightarrow> (Inr False, d)
      | Some (i, _, S) \<Rightarrow>
          (let (found, S') = close (release S i) i in (Inr found, d\<lparr>dm_sessions := S'\<rparr>)))"

subsection \<open>Listings and search\<close>

definition daemon_list_active :: "('b, 'p) node \<Rightarrow> moment \<Rightarrow> ('p daemon, active_info list) handler" where
  "daemon_list_active N M d = (Inr (list_active (nd_engine N) (dm_store d) (mo_age M) (dm_sessions d)), d)"

definition daemon_list_conversations ::
  "('b, 'p) node \<Rightarrow> moment \<Rightarrow> bytes \<Rightarrow> bytes \<Rightarrow> ('p daemon, conversation_info list) handler" where
  "daemon_list_conversations N M agent sender d =
     (map_sum id (\<lambda>a. map (\<lambda>c. c\<lparr>ci_date := format_date_label N (mo_today M) (ci_date c)\<rparr>)
          (list_conversations (nd_engine N) (dm_store d) a sender))
        (parse_agent_filter N agent), d)"

definition daemon_get_history :: "('b, 'p) node \<Rightarrow> bytes \<Rightarrow> ('p daemon, conversation_history) handler" where
  "daemon_get_history N path d =
     (told (engine_text N) (load_conversation_history (nd_engine N) (dm_store d) path), d)"

definition daemon_delete_conversation :: "('b, 'p) node \<Rightarrow> bytes \<Rightarrow> ('p daemon, unit) handler" where
  "daemon_delete_conversation N path d =
     stored N d (map_sum id (\<lambda>m. ((), m)) (delete_conversation (nd_engine N) (dm_store d) path))"

fun role_text :: "role \<Rightarrow> bytes" where
  "role_text RoleUser = ''user''"
| "role_text RoleAssistant = ''assistant''"
| "role_text RoleSystem = ''system''"

definition wire_item :: "window_item \<Rightarrow> wire_window_item" where
  "wire_item w =
     \<lparr>wi_role = role_text (History.wi_role w), wi_msg_idx = History.wi_msg_idx w,
      wi_snippet = History.wi_snippet w, wi_truncated = History.wi_truncated w,
      wi_tool_name = or_empty (History.wi_tool_name w)\<rparr>"

definition wire_hit_from :: "('b, 'p) node \<Rightarrow> session_hit \<Rightarrow> wire_hit" where
  "wire_hit_from N h =
     \<lparr>wh_session = sh_handle h, wh_msg_idx = sh_msg_idx h, wh_score = sh_score h, wh_title = sh_title h,
      wh_agent_id = eg_show (nd_engine N) (sh_agent h), wh_agent_name = sh_agent_name h, wh_sender = sh_sender h,
      wh_created_at = sh_created_at h, wh_updated_at = sh_updated_at h, wh_window = map wire_item (sh_window h)\<rparr>"

definition daemon_search_sessions :: "('b, 'p) node \<Rightarrow> search_msg \<Rightarrow> ('p daemon, wire_hit list) handler" where
  "daemon_search_sessions N req d =
     (let D = search_options_default; or_else = (\<lambda>x n. case x of Some k \<Rightarrow> k | None \<Rightarrow> n) in
      bindr (parse_agent_filter N (ProtoWire.sr_agent req))
        (\<lambda>agent. map_sum (nd_store_text N) (map (wire_hit_from N))
           (search_sessions (eg_sessions (nd_engine N)) (dm_store d) (sr_query req)
              \<lparr>so_limit = or_else (sr_limit req) (so_limit D),
               so_context_before = or_else (sr_before req) (so_context_before D),
               so_context_after = or_else (sr_after req) (so_context_after D),
               so_agent_filter = agent,
               so_sender_filter = (if sr_sender req = [] then None else Some (sr_sender req))\<rparr>)), d)"

subsection \<open>Administration (admin.rs, builder.rs)\<close>

definition daemon_get_stats :: "('b, 'p) node \<Rightarrow> moment \<Rightarrow> ('p daemon, daemon_stats) handler" where
  "daemon_get_stats N M d =
     (Inr \<lparr>ss_uptime = mo_uptime M, ss_active = live_count (dm_sessions d) mod 2 ^ 32,
           ss_agents = length (engine_agents (nd_engine N) (dm_store d)) mod 2 ^ 32,
           ss_model = active_model (nd_engine N) (dm_store d), ss_version = nd_version N\<rparr>, d)"

text \<open>A receiver that lagged goes on with what it still gets.\<close>

fun received :: "'a received list \<Rightarrow> 'a list" where
  "received [] = []"
| "received (Received a # rs) = a # received rs"
| "received (Lagged # rs) = received rs"
| "received (Closed # rs) = []"

definition daemon_subscribe_events :: "moment \<Rightarrow> ('p daemon, agent_event_msg) streamer" where
  "daemon_subscribe_events M d = (map Inr (received (mo_agent_events M)), d)"

fun mcp_event_from :: "bytes \<Rightarrow> mcp_event \<Rightarrow> mcp_event_msg" where
  "mcp_event_from now (McpConnecting a n) =
     \<lparr>mm_kind = 1, mm_name = n, mm_tools = [], mm_error = [], mm_timestamp = now, mm_agent = a\<rparr>"
| "mcp_event_from now (McpConnected a n ts) =
     \<lparr>mm_kind = 2, mm_name = n, mm_tools = ts, mm_error = [], mm_timestamp = now, mm_agent = a\<rparr>"
| "mcp_event_from now (McpFailed a n e) =
     \<lparr>mm_kind = 3, mm_name = n, mm_tools = [], mm_error = e, mm_timestamp = now, mm_agent = a\<rparr>"
| "mcp_event_from now (McpDisconnected a n) =
     \<lparr>mm_kind = 4, mm_name = n, mm_tools = [], mm_error = [], mm_timestamp = now, mm_agent = a\<rparr>"

definition daemon_subscribe_mcp_events :: "moment \<Rightarrow> ('p daemon, mcp_event_msg) streamer" where
  "daemon_subscribe_mcp_events M d = (map (Inr \<circ> mcp_event_from (mo_now M)) (received (mo_mcp_events M)), d)"

definition subscription_info_from :: "('b, 'p) node \<Rightarrow> event_subscription \<Rightarrow> subscription_info" where
  "subscription_info_from N s =
     \<lparr>si_id = es_id s, si_source = es_source s, si_target = eg_show (nd_engine N) (es_target s), si_once = es_once s\<rparr>"

definition daemon_subscribe_event ::
  "('b, 'p) node \<Rightarrow> moment \<Rightarrow> bytes \<Rightarrow> bytes \<Rightarrow> bool \<Rightarrow> ('p daemon, subscription_info) handler" where
  "daemon_subscribe_event N M source target once d =
     (case parse_agent N target of
        Inl e \<Rightarrow> (Inl e, d)
      | Inr i \<Rightarrow>
          if engine_agent (nd_engine N) (dm_store d) i = None
          then (Inl (engine_text N (AgentNotFound i)), d)
          else
            (let (s, B) = bus_subscribe (dm_bus d)
                   \<lparr>es_id = 0, es_source = source, es_target = i, es_once = once, es_session_handle = mo_token M\<rparr>
             in (Inr (subscription_info_from N s), d\<lparr>dm_bus := B\<rparr>)))"

definition daemon_unsubscribe_event :: "nat \<Rightarrow> ('p daemon, bool) handler" where
  "daemon_unsubscribe_event i d =
     (let (found, B) = bus_unsubscribe (dm_bus d) i in (Inr found, d\<lparr>dm_bus := B\<rparr>))"

definition daemon_list_subscriptions :: "('b, 'p) node \<Rightarrow> ('p daemon, subscription_info list) handler" where
  "daemon_list_subscriptions N d = (Inr (map (subscription_info_from N) (bus_list (dm_bus d))), d)"

definition daemon_publish_event :: "bytes \<Rightarrow> bytes \<Rightarrow> ('p daemon, unit) handler" where
  "daemon_publish_event source payload d =
     (let (fired, B) = bus_publish (dm_bus d) source payload
      in (Inr (), d\<lparr>dm_bus := B, dm_fired := dm_fired d @ fired\<rparr>))"

text \<open>The oldest turn an event fired, on the subscription's own session.\<close>

definition fire_next :: "('b, 'p) node \<Rightarrow> moment \<Rightarrow> 'p daemon \<Rightarrow> 'p daemon" where
  "fire_next N M d =
     (case dm_fired d of
        [] \<Rightarrow> d
      | (s, payload) # rest \<Rightarrow>
          (let d0 = d\<lparr>dm_fired := rest\<rparr>; who = ''event:'' @ es_source s in
           case daemon_open N M d0 (es_session_handle s) (es_target s) who None of
             (Inl e, d1) \<Rightarrow> d1
           | (Inr i, d1) \<Rightarrow>
               let_go i (snd (run_locked i (\<lambda>m l. send_to (nd_engine N) m l payload who None []
                 (mo_world M) (mo_now M) (mo_later M)) d1))))"

subsection \<open>The server (mod.rs)\<close>

definition daemon_server :: "('b, 'p) node \<Rightarrow> moment \<Rightarrow> 'p daemon server" where
  "daemon_server N M =
     \<lparr>sv_send = daemon_send N M, sv_stream = daemon_stream N M, sv_ping = (\<lambda>d. (Inr (), d)),
      sv_list_active = daemon_list_active N M, sv_kill = daemon_kill,
      sv_subscribe_events = daemon_subscribe_events M, sv_subscribe_mcp_events = daemon_subscribe_mcp_events M,
      sv_get_stats = daemon_get_stats N M, sv_subscribe_event = daemon_subscribe_event N M,
      sv_unsubscribe_event = daemon_unsubscribe_event, sv_list_subscriptions = daemon_list_subscriptions N,
      sv_publish_event = daemon_publish_event, sv_compact = daemon_compact N M,
      sv_cancel_stream = daemon_cancel_stream, sv_create_session = daemon_create_session N M,
      sv_list_agents = daemon_list_agents N, sv_get_agent = daemon_get_agent N,
      sv_create_agent = daemon_create_agent N M, sv_update_agent = daemon_update_agent N,
      sv_delete_agent = daemon_delete_agent N, sv_rename_agent = daemon_rename_agent N,
      sv_list_skills = daemon_list_skills N, sv_get_skill = daemon_get_skill N,
      sv_list_models = daemon_list_models N, sv_list_conversations = daemon_list_conversations N M,
      sv_get_history = daemon_get_history N, sv_delete_conversation = daemon_delete_conversation N,
      sv_search_sessions = daemon_search_sessions N, sv_list_mcps = daemon_list_mcps N,
      sv_upsert_mcp = daemon_upsert_mcp N M, sv_delete_mcp = daemon_delete_mcp N,
      sv_reconnect_mcp = daemon_reconnect_mcp N M, sv_set_active_model = daemon_set_active_model N,
      sv_extension = extension_default\<rparr>"

subsection \<open>How a stream ends\<close>

lemma to_stream_end: "\<not> is_done ev \<Longrightarrow> (case SEvent (to_stream Q a ev) of SEvent (WEnd _ _ _ _) \<Rightarrow> False | _ \<Rightarrow> True)"
  by (cases ev) simp_all

lemma turn_events_shape:
  "\<exists>es err model u. turn_events Q a evs =
     map (\<lambda>e. Inr (Some e)) es @ [Inr (Some (SEvent (WEnd a err model u)))] \<and>
     list_all (\<lambda>e. case e of SEvent (WEnd _ _ _ _) \<Rightarrow> False | _ \<Rightarrow> True) es"
proof (induction evs)
  case Nil
  show ?case by (rule exI [of _ "[]"]) (simp add: final_event_def)
next
  case (Cons ev evs)
  show ?case
  proof (cases "is_done ev")
    case True
    then obtain r where "ev = Done r" by (cases ev) simp_all
    then show ?thesis by (simp add: exI [of _ "[]"])
  next
    case False
    then obtain es err model u where "turn_events Q a (ev # evs) =
        map (\<lambda>e. Inr (Some e)) (SEvent (to_stream Q a ev) # es) @ [Inr (Some (SEvent (WEnd a err model u)))]"
      "list_all (\<lambda>e. case e of SEvent (WEnd _ _ _ _) \<Rightarrow> False | _ \<Rightarrow> True) es"
      using Cons by auto
    then show ?thesis
      using to_stream_end [OF False, of Q a]
      by (intro exI [of _ "SEvent (to_stream Q a ev) # es"] exI conjI) simp_all
  qed
qed

lemma started_shape:
  "\<exists>es err model u. Inr (Some (SStart a)) # turn_events Q a evs =
     map (\<lambda>e. Inr (Some e)) (SStart a # es) @ [Inr (Some (SEvent (WEnd a err model u)))] \<and>
     list_all (\<lambda>e. case e of SEvent (WEnd _ _ _ _) \<Rightarrow> False | _ \<Rightarrow> True) (SStart a # es)"
  using turn_events_shape [of Q a evs] by auto

lemma daemon_stream_shape:
  "(\<exists>e. fst (daemon_stream N M req d) = [Inl e]) \<or>
   (\<exists>a evs. fst (daemon_stream N M req d) = Inr (Some (SStart a)) # turn_events (l_usage (eg_llm (nd_engine N))) a evs)"
  unfolding daemon_stream_def Let_def
  by (auto split: sum.split prod.split)

text \<open>
  The run a request is answered with: an ephemeral run of the agent, or the turn of the agent, or of
  the guest, on the session that was opened, with the events the engine yields for it. A session
  that is gone again yields none.
\<close>

definition turn_run ::
  "('b, 'p) node \<Rightarrow> moment \<Rightarrow> stream_msg \<Rightarrow> agent_id option \<Rightarrow> nat \<Rightarrow> 'p daemon \<Rightarrow> agent_event list" where
  "turn_run N M req guest i d =
     (let G = nd_engine N; sender = or_empty (sq_sender req) in
      case map_of (by_id (sx_registry (dm_sessions d))) i of
        None \<Rightarrow> []
      | Some l \<Rightarrow> fst (case guest of
            None \<Rightarrow> stream_to G (dm_store d) (lr_session l) (sq_content req) sender
              (map_option (nd_tool_choice N) (sq_tool_choice req)) [] (mo_world M) (mo_now M) (mo_later M)
          | Some g \<Rightarrow> guest_stream_to G (dm_store d) (lr_session l) (sq_content req) sender g (mo_guest M)
              (mo_now M) (mo_later M)))"

definition run_of :: "('b, 'p) node \<Rightarrow> moment \<Rightarrow> stream_msg \<Rightarrow> 'p daemon \<Rightarrow> agent_id \<Rightarrow> agent_event list \<Rightarrow> bool" where
  "run_of N M req d who evs \<longleftrightarrow>
     (if sq_ephemeral req
      then parse_agent N (sq_agent req) = Inr who \<and>
        evs = ephemeral_stream (nd_engine N) (dm_store d) who (sq_content req)
          (map_option (nd_tool_choice N) (sq_tool_choice req)) [] (mo_world M)
      else \<exists>agent guest i d1.
        parse_agent N (sq_agent req) = Inr agent \<and> parse_guest N (sq_guest req) = Inr guest \<and>
        daemon_open N M d (sq_session req) agent (created_by (sq_sender req)) None = (Inr i, d1) \<and>
        who = (case guest of Some g \<Rightarrow> g | None \<Rightarrow> agent) \<and> evs = turn_run N M req guest i d1)"

text \<open>The events up to the first that says the run is done, and that one; an end of its own where none does.\<close>

definition wire_run :: "usage_ops \<Rightarrow> bytes \<Rightarrow> agent_event list \<Rightarrow> stream_item list" where
  "wire_run Q a evs =
     map (\<lambda>ev. SEvent (to_stream Q a ev)) (takeWhile (\<lambda>ev. \<not> is_done ev) evs) @
     [case find is_done evs of Some ev \<Rightarrow> SEvent (to_stream Q a ev) | None \<Rightarrow> SEvent (WEnd a [] [] None)]"

lemma turn_events_exact: "turn_events Q a evs = map (\<lambda>e. Inr (Some e)) (wire_run Q a evs)"
  by (induction evs) (simp_all add: wire_run_def final_event_def)

lemma run_locked_events:
  "(case fst (run_locked i f d) of Some evs \<Rightarrow> evs | None \<Rightarrow> []) =
     (case map_option lr_session (map_of (by_id (sx_registry (dm_sessions d))) i) of
        None \<Rightarrow> [] | Some s \<Rightarrow> fst (f (dm_store d) s))"
  by (simp add: run_locked_def case_prod_beta split: option.split)

lemma begin_cancel_session:
  "map_option lr_session (map_of (by_id (sx_registry (snd (begin_cancel S i)))) j) =
     map_option lr_session (map_of (by_id (sx_registry S)) j)"
  by (cases "map_of (by_id (sx_registry S)) i") (simp_all add: begin_cancel_def Let_def by_id_update)

lemma stream_session_events: "fst (stream_session N M req guest i d) = turn_run N M req guest i d"
  unfolding stream_session_def turn_run_def Let_def
  by (cases guest; cases "map_of (by_id (sx_registry (dm_sessions d))) i")
    (simp_all add: case_prod_beta run_locked_events begin_cancel_session)

text \<open>
  C26: Every stream the daemon answers with is one error, or the start, then every event of the run the
  engine yields, in its order, up to and with the one that says it is done, and nothing after it; a
  run that yields none that says so is ended all the same.
\<close>

theorem stream_ends:
  "(\<exists>e. fst (daemon_stream N M req d) = [Inl e]) \<or>
   (\<exists>who evs. run_of N M req d who evs \<and>
      fst (daemon_stream N M req d) = map (\<lambda>e. Inr (Some e))
        (SStart (eg_show (nd_engine N) who) # wire_run (l_usage (eg_llm (nd_engine N))) (eg_show (nd_engine N) who) evs))"
proof (cases "parse_agent N (sq_agent req)")
  case (Inr agent)
  note agent = Inr
  show ?thesis
  proof (cases "parse_guest N (sq_guest req)")
    case (Inr guest)
    note guest = Inr
    let ?out = "fst (daemon_stream N M req d)"
    consider "sq_ephemeral req" | "\<not> sq_ephemeral req" "sq_session req = []" | "\<not> sq_ephemeral req" "sq_session req \<noteq> []" by blast
    then show ?thesis
    proof cases
      case 1
      then show ?thesis
        by (intro disjI2 exI [of _ agent] exI conjI) (simp_all add: daemon_stream_def run_of_def agent guest Let_def turn_events_exact)
    next
      case 2
      then show ?thesis by (simp add: daemon_stream_def agent guest Let_def)
    next
      case 3
      obtain r d1 where o: "daemon_open N M d (sq_session req) agent (created_by (sq_sender req)) None = (r, d1)"
        by (cases "daemon_open N M d (sq_session req) agent (created_by (sq_sender req)) None")
      show ?thesis
      proof (cases r)
        case (Inl e)
        then show ?thesis using 3 by (simp add: daemon_stream_def agent guest Let_def o)
      next
        case (Inr i)
        let ?who = "case guest of Some g \<Rightarrow> g | None \<Rightarrow> agent"
        have "run_of N M req d ?who (turn_run N M req guest i d1)"
          unfolding run_of_def if_not_P [OF 3(1)]
          by (intro exI [of _ agent] exI [of _ guest] exI [of _ i] exI [of _ d1]) (simp add: agent guest o Inr)
        moreover have "?out = map (\<lambda>e. Inr (Some e)) (SStart (eg_show (nd_engine N) ?who) #
            wire_run (l_usage (eg_llm (nd_engine N))) (eg_show (nd_engine N) ?who) (turn_run N M req guest i d1))"
          using 3 by (simp add: daemon_stream_def agent guest Let_def o Inr case_prod_beta turn_events_exact stream_session_events)
        ultimately show ?thesis by blast
      qed
    qed
  next
    case (Inl e)
    then show ?thesis by (simp add: daemon_stream_def agent)
  qed
next
  case (Inl e)
  then show ?thesis by (simp add: daemon_stream_def)
qed

text \<open>
  A client of the daemon, over a connection its request and the replies fit, sees a stream that
  ends: one error, or the start and the events of the run; it never sees the end itself, nor
  what the end says of the run.
\<close>

theorem client_stream_ends:
  assumes "conn_fits KC KS (daemon_server N M) d (CStream req)"
  shows "snd (client_stream (connection KC KS debug (daemon_server N M)) req d) = snd (daemon_stream N M req d) \<and>
    ((\<exists>e. fst (client_stream (connection KC KS debug (daemon_server N M)) req d) = [Inl (server_error_text 500 e)]) \<or>
     (\<exists>a es. fst (client_stream (connection KC KS debug (daemon_server N M)) req d) = map Inr (SStart a # es) \<and>
        list_all (\<lambda>e. case e of SEvent (WEnd _ _ _ _) \<Rightarrow> False | _ \<Rightarrow> True) es))"
proof -
  let ?d' = "snd (daemon_stream N M req d)"
  have st: "sv_stream (daemon_server N M) req d = (fst (daemon_stream N M req d), ?d')"
    by (simp add: daemon_server_def)
  show ?thesis
  proof (cases "\<exists>e. fst (daemon_stream N M req d) = [Inl e]")
    case True
    then obtain e where e: "fst (daemon_stream N M req d) = [Inl e]" by blast
    have "sv_stream (daemon_server N M) req d = (map (\<lambda>e. Inr (Some e)) [] @ [Inl e], ?d')"
      by (simp add: st e)
    from conn.stream_seen [OF assms this]
    have "client_stream (connection KC KS debug (daemon_server N M)) req d = ([Inl (server_error_text 500 e)], ?d')"
      by simp
    then show ?thesis by auto
  next
    case False
    then obtain a evs where "fst (daemon_stream N M req d) =
        Inr (Some (SStart a)) # turn_events (l_usage (eg_llm (nd_engine N))) a evs"
      using daemon_stream_shape by blast
    then obtain es err model u where es: "fst (daemon_stream N M req d) =
        map (\<lambda>e. Inr (Some e)) (SStart a # es) @ [Inr (Some (SEvent (WEnd a err model u)))]"
      "list_all (\<lambda>e. case e of SEvent (WEnd _ _ _ _) \<Rightarrow> False | _ \<Rightarrow> True) (SStart a # es)"
      using started_shape by metis
    have "sv_stream (daemon_server N M) req d =
        (map (\<lambda>e. Inr (Some e)) (SStart a # es) @ [Inr (Some (SEvent (WEnd a err model u)))], ?d')"
      by (simp add: st es(1))
    from conn.stream_seen [OF assms this es(2)]
    have "client_stream (connection KC KS debug (daemon_server N M)) req d = (map Inr (SStart a # es), ?d')"
      by simp
    then show ?thesis using es(2) by auto
  qed
qed

subsection \<open>What every request keeps\<close>

text \<open>The session registry, the bus and the claims on servers are each consistent.\<close>

definition daemon_ok :: "('b, 'p) node \<Rightarrow> 'p daemon \<Rightarrow> bool" where
  "daemon_ok N d \<longleftrightarrow> sess_ok (dm_sessions d, []) \<and> bus_ok (dm_bus d) \<and> handler_claims (nd_mcp N) (dm_mcp d)"

lemma daemon_okD:
  assumes "daemon_ok N d"
  shows "sess_ok (dm_sessions d, [])" and "bus_ok (dm_bus d)" and "handler_claims (nd_mcp N) (dm_mcp d)"
  using assms by (simp_all add: daemon_ok_def)

lemma daemon_ok_frame [simp]:
  "daemon_ok N (d\<lparr>dm_store := m\<rparr>) = daemon_ok N d" "daemon_ok N (d\<lparr>dm_fired := F\<rparr>) = daemon_ok N d"
  by (simp_all add: daemon_ok_def)

lemma daemon_ok_sessions: "daemon_ok N d \<Longrightarrow> sess_ok (S, []) \<Longrightarrow> daemon_ok N (d\<lparr>dm_sessions := S\<rparr>)"
  by (simp add: daemon_ok_def)

lemma daemon_ok_bus: "daemon_ok N d \<Longrightarrow> bus_ok B \<Longrightarrow> daemon_ok N (d\<lparr>dm_bus := B\<rparr>)"
  by (simp add: daemon_ok_def)

lemma daemon_ok_mcp: "daemon_ok N d \<Longrightarrow> handler_claims (nd_mcp N) S \<Longrightarrow> daemon_ok N (d\<lparr>dm_mcp := S\<rparr>)"
  by (simp add: daemon_ok_def)

lemma open_session_ok:
  assumes ok: "sess_ok (S, [])" and r: "open_session G m S h agent creator rt clock now now' = (r, S', m')"
  shows "sess_ok (S', [])"
proof (cases r)
  case (Inr i)
  then show ?thesis using open_session_open [OF ok] r by blast
next
  case (Inl e)
  have "sess_ok (S\<lparr>sx_next_id := sx_next_id S + 1\<rparr>, [])"
    by (rule sess_ok_counters [OF ok]) (use sess_okD(3) [OF ok] in simp_all)
  moreover have "find_by_handle S h = None" using r Inl by (auto simp: open_session_def split: option.splits)
  then have "S' = S\<lparr>sx_next_id := sx_next_id S + 1\<rparr>"
    using r Inl by (auto simp: open_session_def Let_def split: sum.splits option.splits if_splits)
  ultimately show ?thesis by simp
qed

lemma daemon_open_ok: "daemon_open N' M d h agent who rt = (r, d') \<Longrightarrow> daemon_ok N d \<Longrightarrow> daemon_ok N d'"
  by (auto simp: daemon_open_def daemon_ok_def split: prod.splits dest: open_session_ok)

lemma run_locked_ok: "run_locked i f d = (a, d') \<Longrightarrow> daemon_ok N d \<Longrightarrow> daemon_ok N d'"
  by (auto simp: run_locked_def daemon_ok_def sess_ok_lock sess_ok_unlock Let_def split: option.splits prod.splits)

lemma let_go_ok: "daemon_ok N d \<Longrightarrow> daemon_ok N (let_go i d)"
  by (simp add: let_go_def daemon_ok_def sess_ok_release)

lemma stored_ok: "daemon_ok N d \<Longrightarrow> daemon_ok N (snd (stored N' d r))"
  by (auto simp: stored_def daemon_ok_def split: sum.splits prod.splits)

lemma begin_ok: "daemon_ok N d \<Longrightarrow> daemon_ok N (d\<lparr>dm_sessions := snd (begin_cancel (dm_sessions d) i)\<rparr>)"
  by (simp add: daemon_ok_def sess_ok_begin_cancel)

lemma end_ok: "daemon_ok N d \<Longrightarrow> daemon_ok N (d\<lparr>dm_sessions := end_cancel (dm_sessions d) i\<rparr>)"
  by (simp add: daemon_ok_def sess_ok_end_cancel)

lemma stream_session_ok:
  assumes "stream_session N' M req guest i d = (evs, d')" and ok: "daemon_ok N d"
  shows "daemon_ok N d'"
proof -
  have "daemon_ok N (d\<lparr>dm_sessions := snd (begin_cancel (dm_sessions d) i)\<rparr>)" by (rule begin_ok [OF ok])
  with assms show ?thesis
    unfolding stream_session_def Let_def
    by (auto intro!: let_go_ok end_ok dest: run_locked_ok split: option.splits prod.splits)
qed

lemma session_calls_ok:
  assumes "daemon_ok N d"
  shows "daemon_ok N (snd (daemon_send N' M sm d))"
    and "daemon_ok N (snd (daemon_stream N' M req d))"
    and "daemon_ok N (snd (daemon_create_session N' M cr d))"
  using assms
  by (auto simp: daemon_send_def daemon_stream_def daemon_create_session_def Let_def
      intro!: let_go_ok dest!: daemon_open_ok run_locked_ok stream_session_ok split: sum.split option.split prod.split)

lemma find_handle_ok: "find_by_handle (dm_sessions d) h = Some (i, s, S) \<Longrightarrow> daemon_ok N d \<Longrightarrow> sess_ok (S, [])"
  by (auto simp: daemon_ok_def dest: sess_ok_find)

lemma handle_calls_ok:
  assumes "daemon_ok N d"
  shows "daemon_ok N (snd (daemon_compact N' M h prompt d))"
    and "daemon_ok N (snd (daemon_cancel_stream h d))"
    and "daemon_ok N (snd (daemon_kill h d))"
proof -
  have S: "daemon_ok N (d\<lparr>dm_sessions := snd (begin_cancel S i)\<rparr>)" "daemon_ok N (d\<lparr>dm_sessions := snd (cancel (release S i) i)\<rparr>)"
    "daemon_ok N (d\<lparr>dm_sessions := snd (close (release S i) i)\<rparr>)"
    if "find_by_handle (dm_sessions d) h = Some (i, s, S)" for i s S
    using find_handle_ok [OF that assms] assms
    by (simp_all add: daemon_ok_sessions sess_ok_begin_cancel sess_ok_cancel sess_ok_close sess_ok_release)
  show "daemon_ok N (snd (daemon_compact N' M h prompt d))"
    unfolding daemon_compact_def Let_def
    using S(1) assms by (auto intro!: let_go_ok end_ok dest!: run_locked_ok split: option.split prod.split)
  show "daemon_ok N (snd (daemon_cancel_stream h d))" "daemon_ok N (snd (daemon_kill h d))"
    using S(2,3) assms
    by (auto simp: daemon_cancel_stream_def daemon_kill_def Let_def split: option.split prod.split)
qed

lemma claims_connect: "handler_claims M S \<Longrightarrow> handler_claims M (connect_peer M S fp now)"
  by (auto simp: connect_peer_def Let_def claims_settle claims_begin split: option.split prod.split)

lemma claims_ensure: "handler_claims M S \<Longrightarrow> handler_claims M (ensure_connected M S agent names now)"
proof -
  have "handler_claims M S \<Longrightarrow> handler_claims M (foldl (\<lambda>S fp. connect_peer M S fp now) S fps)" for fps
    by (induction fps arbitrary: S) (simp_all add: claims_connect)
  then show "handler_claims M S \<Longrightarrow> handler_claims M (ensure_connected M S agent names now)"
    by (simp add: ensure_connected_def)
qed

lemma claims_reconnected:
  "reconnect_for_agent M S agent name now = (r, S') \<Longrightarrow> handler_claims M S \<Longrightarrow> handler_claims M S'"
  by (auto simp: reconnect_for_agent_def claims_reconnect intro!: claims_connect split: sum.splits)

lemma agent_calls_ok:
  assumes "daemon_ok N d"
  shows "daemon_ok N (snd (daemon_create_agent N M a b d))" "daemon_ok N (snd (daemon_update_agent N a b d))"
    "daemon_ok N (snd (daemon_delete_agent N a d))" "daemon_ok N (snd (daemon_rename_agent N a b d))"
    "daemon_ok N (snd (daemon_set_active_model N a d))" "daemon_ok N (snd (daemon_delete_mcp N a b d))"
    "daemon_ok N (snd (daemon_delete_conversation N a d))"
  using assms
  by (auto simp: daemon_create_agent_def daemon_update_agent_def daemon_delete_agent_def daemon_rename_agent_def
      daemon_set_active_model_def daemon_delete_mcp_def daemon_delete_conversation_def Let_def
      intro: stored_ok split: sum.split option.split)

lemma server_calls_ok:
  assumes "daemon_ok N d"
  shows "daemon_ok N (snd (daemon_upsert_mcp N M a b d))" "daemon_ok N (snd (daemon_reconnect_mcp N M a b d))"
  using assms
  by (auto simp: daemon_upsert_mcp_def daemon_reconnect_mcp_def Let_def daemon_ok_def claims_ensure
      dest: claims_reconnected split: sum.split option.split prod.split)

lemma bus_subscribe_ok: "bus_ok B \<Longrightarrow> bus_ok (snd (bus_subscribe B s))"
  by (rule bus_ok_step [OF bus_step.Subscribe])

lemma bus_unsubscribe_ok: "bus_ok B \<Longrightarrow> bus_ok (snd (bus_unsubscribe B i))"
  by (rule bus_ok_step [OF bus_step.Unsubscribe])

lemma bus_publish_ok: "bus_ok B \<Longrightarrow> bus_ok (snd (bus_publish B source payload))"
  by (rule bus_ok_step [OF bus_step.Publish [OF surjective_pairing]])

lemma event_calls_ok:
  assumes "daemon_ok N d"
  shows "daemon_ok N (snd (daemon_subscribe_event N M a b c d))" "daemon_ok N (snd (daemon_unsubscribe_event i d))"
    "daemon_ok N (snd (daemon_publish_event a b d))"
proof -
  have bus: "bus_ok (dm_bus d)" by (rule daemon_okD(2) [OF assms])
  have "bus_ok B" if "bus_subscribe (dm_bus d) s = (s', B)" for s s' B using bus_subscribe_ok [OF bus, of s] that by simp
  moreover have "bus_ok B" if "bus_unsubscribe (dm_bus d) i = (r, B)" for r B using bus_unsubscribe_ok [OF bus, of i] that by simp
  moreover have "bus_ok B" if "bus_publish (dm_bus d) a b = (r, B)" for r B using bus_publish_ok [OF bus, of a b] that by simp
  ultimately show "daemon_ok N (snd (daemon_subscribe_event N M a b c d))" "daemon_ok N (snd (daemon_unsubscribe_event i d))"
    "daemon_ok N (snd (daemon_publish_event a b d))"
    using assms
    by (auto simp: daemon_subscribe_event_def daemon_unsubscribe_event_def daemon_publish_event_def daemon_ok_def
        split: sum.split prod.split)
qed

lemma reads_same [simp]:
  "snd (daemon_list_active N M d) = d" "snd (daemon_subscribe_events M d) = d"
  "snd (daemon_subscribe_mcp_events M d) = d" "snd (daemon_get_stats N M d) = d"
  "snd (daemon_list_subscriptions N d) = d" "snd (daemon_list_agents N d) = d" "snd (daemon_get_agent N a d) = d"
  "snd (daemon_list_skills N d) = d" "snd (daemon_get_skill N a d) = d" "snd (daemon_list_models N d) = d"
  "snd (daemon_list_conversations N M a b d) = d" "snd (daemon_get_history N a d) = d"
  "snd (daemon_search_sessions N q d) = d" "snd (daemon_list_mcps N a d) = d"
  by (simp_all add: daemon_list_active_def daemon_subscribe_events_def daemon_subscribe_mcp_events_def
      daemon_get_stats_def daemon_list_subscriptions_def daemon_list_agents_def daemon_get_agent_def
      daemon_list_skills_def daemon_get_skill_def daemon_list_models_def daemon_list_conversations_def
      daemon_get_history_def daemon_search_sessions_def daemon_list_mcps_def Let_def)

lemma snd_replies [simp]:
  "snd (reply w code h) = snd h" "snd (reply_unit h1) = snd h1" "snd (reply_found t h2) = snd h2"
  "snd (reply_stream v h3) = snd h3"
  by (simp_all add: reply_def reply_unit_def reply_found_def reply_stream_def split: prod.split)

lemma dispatch_ok: "daemon_ok N d \<Longrightarrow> daemon_ok N (snd (server_dispatch (daemon_server N M) d q))"
proof (cases q)
  case (Some m)
  assume "daemon_ok N d"
  then show ?thesis
    unfolding server_dispatch_def Some option.case
    by (cases m) (simp_all add: daemon_server_def session_calls_ok handle_calls_ok agent_calls_ok server_calls_ok
        event_calls_ok extension_default_def)
qed (simp add: server_dispatch_def)

lemma fire_next_ok: "daemon_ok N d \<Longrightarrow> daemon_ok N (fire_next N M d)"
proof -
  assume ok: "daemon_ok N d"
  show ?thesis
  proof (cases "dm_fired d")
    case (Cons p rest)
    obtain r d1 where d1: "daemon_open N M (d\<lparr>dm_fired := rest\<rparr>) (es_session_handle (fst p)) (es_target (fst p))
        (''event:'' @ es_source (fst p)) None = (r, d1)"
      by (cases "daemon_open N M (d\<lparr>dm_fired := rest\<rparr>) (es_session_handle (fst p)) (es_target (fst p))
        (''event:'' @ es_source (fst p)) None") blast
    then have ok1: "daemon_ok N d1" using daemon_open_ok ok by fastforce
    have "daemon_ok N (let_go i (snd (run_locked i f d1)))" for i and f :: "kv \<Rightarrow> live_session \<Rightarrow> 'x \<times> live_session \<times> kv option"
      by (rule let_go_ok) (rule run_locked_ok [OF _ ok1], rule surjective_pairing)
    then show ?thesis
      using d1 ok1 unfolding fire_next_def Cons by (cases p) (auto simp: Let_def split: sum.split)
  qed (simp add: fire_next_def ok)
qed

text \<open>
  A daemon from its start: any client's request, a turn an event fired, a write of the bus's mirror,
  a step of the servers' handler, each at any moment.
\<close>

inductive daemon_run :: "('b, 'p) node \<Rightarrow> 'p daemon \<Rightarrow> 'p daemon \<Rightarrow> bool" for N d0 where
  Start: "daemon_run N d0 d0"
| Request: "daemon_run N d0 d \<Longrightarrow> daemon_run N d0 (snd (server_dispatch (daemon_server N M) d q))"
| Fired: "daemon_run N d0 d \<Longrightarrow> daemon_run N d0 (fire_next N M d)"
| Mirror: "daemon_run N d0 d \<Longrightarrow> eb_tasks (dm_bus d) = t # ts \<Longrightarrow>
    daemon_run N d0 (d\<lparr>dm_bus := (dm_bus d)\<lparr>eb_tasks := ts\<rparr>,
      dm_store := run_mirror (nd_subscriptions N) t (dm_store d)\<rparr>)"
| Server: "daemon_run N d0 d \<Longrightarrow> mcp_step (nd_mcp N) (dm_mcp d) S \<Longrightarrow> daemon_run N d0 (d\<lparr>dm_mcp := S\<rparr>)"

definition daemon_start :: "('b, 'p) node \<Rightarrow> kv \<Rightarrow> nat option \<Rightarrow> nat \<Rightarrow> bytes list \<Rightarrow> 'p daemon" where
  "daemon_start N m max_bytes idle_timeout models =
     \<lparr>dm_store = m, dm_sessions = sessions_new max_bytes, dm_mcp = handler_new idle_timeout,
      dm_bus = bus_load (nd_subscriptions N) m, dm_models = models, dm_fired = []\<rparr>"

lemma daemon_run_ok: "daemon_run N (daemon_start N m mx it models) d \<Longrightarrow> daemon_ok N d"
proof (induction rule: daemon_run.induct)
  case Start
  show ?case
    by (simp add: daemon_ok_def daemon_start_def bus_ok_load claims_new sess_ok_reach [OF sess_reach.Start])
next
  case (Request d M q)
  then show ?case by (simp add: dispatch_ok)
next
  case (Fired d M)
  then show ?case by (simp add: fire_next_ok)
next
  case (Mirror d t ts)
  have "bus_ok ((dm_bus d)\<lparr>eb_tasks := ts\<rparr>)" using daemon_okD(2) [OF Mirror.IH] by (simp add: bus_ok_def)
  then show ?case using Mirror.IH by (simp add: daemon_ok_def)
next
  case (Server d S)
  then show ?case by (simp add: daemon_ok_def claims_step)
qed

text \<open>
  C27: Whatever clients request, in any order and at any moments, while fired turns, writes of
  the mirror and the servers' own steps come between: a handle names at most one live session and
  that one is filed under it, subscriptions are filed under their own ids below the next, and
  the claims on servers and the servers claimed are the same.
\<close>

theorem requests_keep_daemon:
  assumes "daemon_run N (daemon_start N m mx it models) d"
  shows "(map_of (by_handle (sx_registry (dm_sessions d))) h = Some i \<longleftrightarrow>
      (\<exists>l. map_of (by_id (sx_registry (dm_sessions d))) i = Some l \<and> lr_handle l = h)) \<and>
    (\<forall>j s. map_of (eb_subscriptions (dm_bus d)) j = Some s \<longrightarrow> es_id s = j \<and> j < eb_next_id (dm_bus d)) \<and>
    (map_of (mh_by_owner (dm_mcp d)) k = Some fp \<longleftrightarrow> k \<in> refs_at (mh_peers (dm_mcp d)) fp)"
proof -
  have ok: "daemon_ok N d" by (rule daemon_run_ok [OF assms])
  show ?thesis
    using reg_ok_handle [OF sess_okD(1) [OF daemon_okD(1) [OF ok]]] bus_okD(2,3) [OF daemon_okD(2) [OF ok]]
      claims_okD(3) [OF daemon_okD(3) [OF ok]]
    by blast
qed

subsection \<open>Creating a session\<close>

lemma open_new:
  assumes ok: "sess_ok (S, [])" and new: "find_by_handle S h = None"
    and none: "load_session (eg_sessions G) m h = Inr None" and known: "engine_agent G m agent \<noteq> None"
  shows "\<exists>i S' l. open_session G m S h agent who rt clock now now' =
      (Inr i, S', create_session (eg_sessions G) m h agent who rt now) \<and>
    map_of (by_handle (sx_registry S')) h = Some i \<and> map_of (by_id (sx_registry S')) i = Some l \<and>
    lr_session l = (session_new i agent who clock now')\<lparr>lv_handle := Some h, lv_root := rt\<rparr>"
proof -
  let ?i = "sx_next_id S" and ?S = "S\<lparr>sx_next_id := sx_next_id S + 1\<rparr>"
  let ?s = "(session_new ?i agent who clock now')\<lparr>lv_handle := Some h, lv_root := rt\<rparr>"
  let ?l = "\<lparr>lr_handle = h, lr_session = ?s, lr_holders = 1, lr_locked = False, lr_cancel = None,
     lr_touched = sx_tick S, lr_bytes = session_bytes (eg_wire G) ?s\<rparr>"
  let ?R = "reg_insert (sx_registry S) ?i ?l"
  have id: "lv_id ?s = ?i" by (simp add: session_new_def)
  have ins: "insert_live (eg_wire G) ?S ?s =
      Some (?i, ?S\<lparr>sx_registry := evict (eg_wire G) (sx_max_bytes S) ?R, sx_tick := sx_tick S + 1\<rparr>)"
    by (simp add: insert_live_def id Let_def)
  have opened: "open_session G m S h agent who rt clock now now' =
      (Inr ?i, ?S\<lparr>sx_registry := evict (eg_wire G) (sx_max_bytes S) ?R, sx_tick := sx_tick S + 1\<rparr>,
       create_session (eg_sessions G) m h agent who rt now)"
    using new none known ins by (simp add: open_session_def load_def Let_def)
  have reg: "reg_ok (sx_registry S)" by (rule sess_okD(1) [OF ok])
  have fresh: "map_of (by_id (sx_registry S)) ?i = None"
    using sess_okD(2) [OF ok, of ?i] by (cases "map_of (by_id (sx_registry S)) ?i") (auto simp: live_ok_def)
  have "reg_ok ?R" by (rule reg_ok_insert [OF reg fresh])
  moreover have "map_of (by_id ?R) ?i = Some ?l" by (simp add: by_id_insert)
  ultimately have "map_of (by_id (evict (eg_wire G) (sx_max_bytes S) ?R)) ?i =
      Some (if sx_max_bytes S = None then ?l else measured (eg_wire G) ?l)"
    by (rule evict_keeps) (simp add: idle_def)
  moreover have "lr_session (measured W l) = lr_session l" for W l by (simp add: measured_def)
  moreover have "open_at (?S\<lparr>sx_registry := evict (eg_wire G) (sx_max_bytes S) ?R, sx_tick := sx_tick S + 1\<rparr>) h ?i"
    using open_session_open [OF ok opened] by blast
  ultimately show ?thesis using opened by (auto simp: open_at_def)
qed

lemma told_Inr: "told f r = Inr a \<longleftrightarrow> r = Inr a"
  by (cases r) (simp_all add: told_def)

lemma open_live:
  "find_by_handle S h = Some (i, s, S') \<Longrightarrow>
     open_session G m S h agent who rt clock now now' = (Inr i, reprice (eg_wire G) S' i, m)"
  by (simp add: open_session_def)

definition may_create :: "('b, 'p) node \<Rightarrow> create_session_msg \<Rightarrow> 'p daemon \<Rightarrow> bool" where
  "may_create N req d \<longleftrightarrow> cs_session req \<noteq> [] \<and>
     load_session (eg_sessions (nd_engine N)) (dm_store d) (cs_session req) = Inr None \<and>
     (\<exists>a c. parse_agent N (cs_agent req) = Inr a \<and> engine_agent (nd_engine N) (dm_store d) a = Some c \<and>
        (\<forall>h \<in> set (ag_harnesses c). \<exists>r. bind_root (nd_fs N) (nd_cwd N) (nd_home N) (hc_root h) (cs_root req) = Inr r))"

lemma unbound_None:
  "unbound N rt hs = None \<longleftrightarrow>
     (\<forall>h \<in> set hs. \<exists>r. bind_root (nd_fs N) (nd_cwd N) (nd_home N) (hc_root h) rt = Inr r)"
proof -
  have "(\<exists>r. x = Inr r) \<longleftrightarrow> \<not> (case x of Inl e \<Rightarrow> True | Inr r \<Rightarrow> False)" for x :: "bytes + path option"
    by (cases x) simp_all
  then show ?thesis unfolding unbound_def find_None_iff by blast
qed

text \<open>
  A session is created exactly when the request names a handle no stored session has, and an
  agent that is there and whose every harness can be bound to the root; a refusal changes
  nothing. What is created, where the handle was not live, is an empty session of that agent
  under that root, live under the handle and in the store.
\<close>

theorem create_session_exact:
  assumes "daemon_run N (daemon_start N m mx it models) d"
  shows "(fst (daemon_create_session N M req d) = Inr ()) = may_create N req d \<and>
    (may_create N req d \<or> snd (daemon_create_session N M req d) = d) \<and>
    (\<not> may_create N req d \<or> find_by_handle (dm_sessions d) (cs_session req) \<noteq> None \<or>
     (\<exists>a i l. let d' = snd (daemon_create_session N M req d) in
        parse_agent N (cs_agent req) = Inr a \<and>
        map_of (by_handle (sx_registry (dm_sessions d'))) (cs_session req) = Some i \<and>
        map_of (by_id (sx_registry (dm_sessions d'))) i = Some l \<and>
        lv_agent (lr_session l) = a \<and> lv_root (lr_session l) = cs_root req \<and> lv_history (lr_session l) = [] \<and>
        dm_store d' = create_session (eg_sessions (nd_engine N)) (dm_store d) (cs_session req) a
          (created_by (cs_sender req)) (cs_root req) (mo_now M)))"
proof (cases "may_create N req d")
  case False
  have "\<exists>e. daemon_create_session N M req d = (Inl e, d)"
  proof (cases "parse_agent N (cs_agent req)")
    case (Inr a)
    then show ?thesis
      using False
      by (cases "engine_agent (nd_engine N) (dm_store d) a")
        (auto simp: may_create_def daemon_create_session_def unbound_None [symmetric]
          Let_def split: sum.split option.split)
  qed (simp add: daemon_create_session_def Let_def)
  then show ?thesis using False by auto
next
  case True
  let ?G = "nd_engine N" and ?h = "cs_session req" and ?who = "created_by (cs_sender req)"
  obtain a c where a: "parse_agent N (cs_agent req) = Inr a" "engine_agent ?G (dm_store d) a = Some c"
    "unbound N (cs_root req) (ag_harnesses c) = None"
    using True by (auto simp: may_create_def unbound_None)
  have new: "?h \<noteq> []" "load_session (eg_sessions ?G) (dm_store d) ?h = Inr None"
    using True by (simp_all add: may_create_def)
  have eq: "daemon_create_session N M req d =
      (case daemon_open N M d ?h a ?who (cs_root req) of
         (Inl e, d1) \<Rightarrow> (Inl e, d1) | (Inr i, d1) \<Rightarrow> (Inr (), let_go i d1))"
    using a new by (simp add: daemon_create_session_def Let_def)
  have ok: "sess_ok (dm_sessions d, [])" by (rule daemon_okD(1) [OF daemon_run_ok [OF assms]])
  show ?thesis
  proof (cases "find_by_handle (dm_sessions d) ?h")
    case None
    from open_new [OF ok None new(2), of a ?who "cs_root req" "mo_clock M" "mo_now M" "mo_later M"] a(2)
    obtain i S' l where o: "open_session ?G (dm_store d) (dm_sessions d) ?h a ?who (cs_root req) (mo_clock M)
        (mo_now M) (mo_later M) = (Inr i, S', create_session (eg_sessions ?G) (dm_store d) ?h a ?who (cs_root req) (mo_now M))"
      "map_of (by_handle (sx_registry S')) ?h = Some i" "map_of (by_id (sx_registry S')) i = Some l"
      "lr_session l = (session_new i a ?who (mo_clock M) (mo_later M))\<lparr>lv_handle := Some ?h, lv_root := cs_root req\<rparr>"
      by auto
    have "daemon_create_session N M req d = (Inr (), let_go i (d\<lparr>dm_store :=
        create_session (eg_sessions ?G) (dm_store d) ?h a ?who (cs_root req) (mo_now M), dm_sessions := S'\<rparr>))"
      by (simp add: eq daemon_open_def o(1) told_def)
    then show ?thesis
      using True a(1) o(2-4)
      by (auto simp: let_go_def release_def by_id_update session_new_def Let_def)
  next
    case (Some p)
    obtain i s S where p: "p = (i, s, S)" by (cases p) blast
    have "daemon_open N M d ?h a ?who (cs_root req) =
        (Inr i, d\<lparr>dm_store := dm_store d, dm_sessions := reprice (eg_wire ?G) S i\<rparr>)"
      using open_live [of "dm_sessions d" ?h i s S ?G "dm_store d" a ?who "cs_root req" "mo_clock M" "mo_now M" "mo_later M"]
        Some p
      by (simp add: daemon_open_def told_def)
    then have "fst (daemon_create_session N M req d) = Inr ()" by (simp add: eq)
    then show ?thesis using True Some by simp
  qed
qed

subsection \<open>Cancelling\<close>

definition no_token :: "sessions \<Rightarrow> nat \<Rightarrow> bool" where
  "no_token S i \<longleftrightarrow> Option.bind (map_of (by_id (sx_registry S)) i) lr_cancel = None"

lemma no_token_ended: "no_token (end_cancel S i) i"
  by (cases "map_of (by_id (sx_registry S)) i") (simp_all add: no_token_def end_cancel_def by_id_update)

lemma no_token_update:
  assumes "sx_registry S' = reg_update (sx_registry S) i f" and "\<And>l. lr_cancel (f l) = lr_cancel l"
  shows "no_token S' i = no_token S i"
  using assms by (cases "map_of (by_id (sx_registry S)) i") (simp_all add: no_token_def by_id_update)

lemma no_token_kept [simp]:
  "no_token (release S i) i = no_token S i" "no_token (hold S i) i = no_token S i"
  "no_token (touch S i) i = no_token S i"
  unfolding release_def hold_def touch_def by (rule no_token_update, simp, simp)+

lemma cancel_without_token: "no_token S i \<Longrightarrow> cancel S i = (False, S)"
  by (simp add: no_token_def cancel_def)

lemma handles_kept [simp]:
  "by_handle (sx_registry (end_cancel S i)) = by_handle (sx_registry S)"
  "by_handle (sx_registry (release S i)) = by_handle (sx_registry S)"
  "by_handle (sx_registry (lock S i)) = by_handle (sx_registry S)"
  "by_handle (sx_registry (unlock S i s)) = by_handle (sx_registry S)"
  "by_handle (sx_registry (snd (begin_cancel S i))) = by_handle (sx_registry S)"
  by (simp_all add: end_cancel_def release_def lock_def unlock_def begin_cancel_def Let_def split: option.split)

lemma run_locked_handles:
  "run_locked i f d = (a, d') \<Longrightarrow> by_handle (sx_registry (dm_sessions d')) = by_handle (sx_registry (dm_sessions d))"
  by (auto simp: run_locked_def Let_def split: option.splits prod.splits)

lemma stream_session_after:
  assumes "stream_session N M req guest i d = (evs, d')"
  shows "by_handle (sx_registry (dm_sessions d')) = by_handle (sx_registry (dm_sessions d)) \<and>
    no_token (dm_sessions d') i"
  using assms unfolding stream_session_def Let_def
  by (auto simp: let_go_def no_token_ended dest!: run_locked_handles split: option.splits prod.splits)

text \<open>
  Once the stream of a turn is over, cancelling its session is refused: no token is left behind
  for a turn that comes later.
\<close>

theorem ended_stream_not_cancellable:
  assumes "daemon_run N (daemon_start N m mx it models) d"
    and "daemon_stream N M req d = (Inr (Some (SStart a)) # evs, d')" and "\<not> sq_ephemeral req"
  shows "\<exists>e. fst (daemon_cancel_stream (sq_session req) d') = Inl e"
proof -
  have ok: "sess_ok (dm_sessions d, [])" by (rule daemon_okD(1) [OF daemon_run_ok [OF assms(1)]])
  obtain agent guest i d1 es where o: "daemon_open N M d (sq_session req) agent (created_by (sq_sender req)) None = (Inr i, d1)"
    and s: "stream_session N M req guest i d1 = (es, d')"
    using assms(2,3) by (auto simp: daemon_stream_def Let_def split: sum.splits prod.splits if_splits)
  obtain S1 m1 where "open_session (nd_engine N) (dm_store d) (dm_sessions d) (sq_session req) agent
      (created_by (sq_sender req)) None (mo_clock M) (mo_now M) (mo_later M) = (Inr i, S1, m1)" "dm_sessions d1 = S1"
    using o by (auto simp: daemon_open_def told_Inr split: prod.splits)
  then have "open_at (dm_sessions d1) (sq_session req) i" using open_session_open [OF ok] by blast
  then have h: "map_of (by_handle (sx_registry (dm_sessions d'))) (sq_session req) = Some i"
    and token: "no_token (dm_sessions d') i"
    using stream_session_after [OF s] by (auto simp: open_at_def)
  show ?thesis
  proof (cases "find_by_handle (dm_sessions d') (sq_session req)")
    case (Some p)
    then obtain t where "p = (i, t, hold (touch (dm_sessions d') i) i)"
      using h by (auto simp: find_by_handle_def get_live_def split: option.splits)
    then have "cancel (release (snd (snd p)) i) i = (False, release (snd (snd p)) i)" "fst p = i"
      using token by (simp_all add: cancel_without_token)
    then show ?thesis using Some by (cases p) (simp add: daemon_cancel_stream_def Let_def)
  qed (simp add: daemon_cancel_stream_def)
qed

subsection \<open>Witnesses\<close>

definition sample_moment :: moment where
  "sample_moment =
     \<lparr>mo_clock = 0, mo_now = ''t0'', mo_later = ''t1'', mo_today = 0, mo_secs = 0, mo_uptime = 0, mo_age = (\<lambda>_. 0),
      mo_id = 9, mo_token = ''tok'', mo_world = sample_world, mo_guest = (\<lambda>_. []), mo_compact = (\<lambda>_. None),
      mo_agent_events = [], mo_mcp_events = []\<rparr>"

definition sample_create :: create_session_msg where
  "sample_create = \<lparr>cs_session = ''s9'', cs_agent = ''7'', cs_sender = None, cs_root = Some ''/w''\<rparr>"

definition sample_turn_request :: "bytes \<Rightarrow> stream_msg" where
  "sample_turn_request h =
     \<lparr>sq_agent = ''7'', sq_content = ''hi'', sq_sender = None, sq_guest = None, sq_tool_choice = None,
      sq_ephemeral = False, sq_correlation = None, sq_session = h\<rparr>"

lemma sample_start:
  "\<exists>m. engine_agent sample_engine m 7 = Some (sample_config 7 ''crab'') \<and>
     load_session sample_session_env m ''s9'' = Inr None"
proof -
  obtain m where m: "agents_consistent sample_env m" "agents_of sample_env m = [7 \<mapsto> sample_config 7 ''crab'']"
    "\<And>k. kv_get m Session k = None"
    using sample_agent_store by blast
  have "engine_agent sample_engine m 7 = Some (sample_config 7 ''crab'')"
    using m(2) consistent_load [OF m(1), of 7] by (simp add: engine_agent_def)
  moreover have "read_meta sample_session_env m ''s9'' = Inr None"
    unfolding read_meta_def by (rule get_json_none) (rule m(3))
  ultimately show ?thesis by (auto simp: load_session_def)
qed

lemma sample_start_simps [simp]:
  "dm_store (daemon_start N m mx it models) = m" "dm_sessions (daemon_start N m mx it models) = sessions_new mx"
  by (simp_all add: daemon_start_def)

lemma sessions_new_find [simp]: "find_by_handle (sessions_new mx) h = None"
  by (simp add: find_by_handle_def sessions_new_def registry_empty_def)

theorem create_session_exact_witness:
  "\<exists>m i. let d' = snd (daemon_create_session sample_node sample_moment sample_create (daemon_start sample_node m None 60 [])) in
     map_of (by_handle (sx_registry (dm_sessions d'))) ''s9'' = Some i \<and>
     map_option (lv_root \<circ> lr_session) (map_of (by_id (sx_registry (dm_sessions d'))) i) = Some (Some ''/w'')"
proof -
  obtain m where m: "engine_agent sample_engine m 7 = Some (sample_config 7 ''crab'')"
    "load_session sample_session_env m ''s9'' = Inr None"
    using sample_start by blast
  let ?d = "daemon_start sample_node m None 60 []"
  have "may_create sample_node sample_create ?d"
    using m sample_parse by (auto simp: may_create_def sample_create_def sample_config_def agent_config_default_def)
  then obtain i l where "map_of (by_handle (sx_registry (dm_sessions (snd (daemon_create_session sample_node
        sample_moment sample_create ?d))))) ''s9'' = Some i"
      "map_of (by_id (sx_registry (dm_sessions (snd (daemon_create_session sample_node sample_moment
        sample_create ?d))))) i = Some l" "lv_root (lr_session l) = Some ''/w''"
    using create_session_exact [OF daemon_run.Start, where N = sample_node and m = m and mx = None and it = 60
        and models = "[]" and M = sample_moment and req = sample_create]
    by (auto simp: sample_create_def Let_def)
  then show ?thesis by (intro exI [of _ m] exI [of _ i]) (simp add: Let_def)
qed

theorem ended_stream_not_cancellable_witness:
  "\<exists>m e. fst (daemon_cancel_stream ''s9'' (snd (daemon_stream sample_node sample_moment (sample_turn_request ''s9'')
     (daemon_start sample_node m None 60 [])))) = Inl e"
proof -
  obtain m where m: "engine_agent sample_engine m 7 = Some (sample_config 7 ''crab'')"
    "load_session sample_session_env m ''s9'' = Inr None"
    using sample_start by blast
  let ?d = "daemon_start sample_node m None 60 []" and ?q = "sample_turn_request ''s9''"
  have "sess_ok (sessions_new None, [])" by (rule sess_ok_reach) (rule sess_reach.Start)
  then obtain i S m' where "open_session sample_engine m (sessions_new None) ''s9'' 7 ''user'' None 0 ''t0'' ''t1'' =
      (Inr i, S, m')"
    using open_new [of "sessions_new None" "''s9''" sample_engine m 7 "''user''" None 0 "''t0''" "''t1''"] m by auto
  then have "daemon_open sample_node sample_moment ?d ''s9'' 7 ''user'' None =
      (Inr i, ?d\<lparr>dm_store := m', dm_sessions := S\<rparr>)"
    by (simp add: daemon_open_def told_def sample_moment_def)
  moreover obtain es d' where "stream_session sample_node sample_moment ?q None i
      (?d\<lparr>dm_store := m', dm_sessions := S\<rparr>) = (es, d')"
    by (cases "stream_session sample_node sample_moment ?q None i (?d\<lparr>dm_store := m', dm_sessions := S\<rparr>)") blast
  ultimately obtain a evs where s: "daemon_stream sample_node sample_moment ?q ?d = (Inr (Some (SStart a)) # evs, d')"
    using sample_parse
    by (auto simp: daemon_stream_def sample_turn_request_def parse_guest_def parse_agent_filter_def or_empty_def
        created_by_def Let_def)
  have "\<exists>e. fst (daemon_cancel_stream (sq_session ?q) d') = Inl e"
    by (rule ended_stream_not_cancellable [OF daemon_run.Start s]) (simp add: sample_turn_request_def)
  then show ?thesis using s by (auto simp: sample_turn_request_def intro!: exI [of _ m])
qed

theorem client_stream_ends_witness:
  "snd (client_stream (connection (table_pb [Some (CStream (sample_turn_request []))])
     (table_pb [Some (SError 500 ''session_handle is required'')]) (\<lambda>_. [])
     (daemon_server sample_node sample_moment)) (sample_turn_request []) (sample_daemon [])) = sample_daemon []"
proof -
  have s: "daemon_stream sample_node sample_moment (sample_turn_request []) (sample_daemon []) =
      ([Inl ''session_handle is required''], sample_daemon [])"
    using sample_parse
    by (simp add: daemon_stream_def sample_turn_request_def parse_guest_def parse_agent_filter_def or_empty_def Let_def)
  then have "conn_fits (table_pb [Some (CStream (sample_turn_request []))])
      (table_pb [Some (SError 500 ''session_handle is required'')]) (daemon_server sample_node sample_moment)
      (sample_daemon []) (CStream (sample_turn_request []))"
    by (simp add: conn_fits_def carries_def table_pb_def MAX_FRAME_SIZE_def daemon_server_def reply_stream_def
        result_to_msg_def server_error_def)
  from client_stream_ends [OF this] show ?thesis by (simp add: s)
qed

theorem requests_keep_daemon_witness:
  "let d = snd (server_dispatch (daemon_server sample_node sample_moment) (daemon_start sample_node [] None 60 [])
       (Some (CPublishEvent ''s'' ''p''))) in
     (map_of (by_handle (sx_registry (dm_sessions d))) ''h'' = Some 1) =
     (\<exists>l. map_of (by_id (sx_registry (dm_sessions d))) 1 = Some l \<and> lr_handle l = ''h'')"
  using requests_keep_daemon [OF daemon_run.Request [OF daemon_run.Start]] unfolding Let_def by blast

end
