(* ===== verification/BermDoors.thy ===== *)
theory BermDoors
  imports BermHarness DaemonSessions
begin

section \<open>What a harness's doors answer (crates/berm/src: fs.rs, exec.rs, http.rs, protocol.rs, call.rs)\<close>

text \<open>
  The doors an image is built with, as functions of what bounds them. Walking a directory, globs,
  regular expressions, the shell, the HTTP client, the wire format of a call and protobuf are
  packages and the machine: each is a record of functions, and what the code does with their
  answers is here. The runtime's doors are given the daemon's dispatch, so that what a harness
  reaches through them is stated of the daemon's own handlers.
  The lemmas show which hosts a request goes to, that search results are paths the read door
  takes, how many there are, that session search is narrowed to the declaring agent, that skills
  are the declared ones and that a sibling is called by a name declared under the same resolution.
\<close>

subsection \<open>Searching files (fs.rs)\<close>

definition MAX_RESULTS :: nat where "MAX_RESULTS = 2000"

definition newline :: bytes where "newline = [CHR 0x0A]"

record entry =
  en_path :: path
  en_file :: bool
  en_modified :: "int option"

text \<open>
  \<open>wk_walk\<close> is what a walk from a base gives, its errors left out and filtered by the overrides of
  an include; \<open>wk_matches\<close> the numbered lines a search of one file hands over, in order.
\<close>

record ('m, 'o) walker =
  wk_glob :: "bytes \<Rightarrow> bytes + (names \<Rightarrow> bool)"
  wk_regex :: "bytes \<Rightarrow> bytes + 'm"
  wk_override :: "path \<Rightarrow> bytes \<Rightarrow> bytes + 'o"
  wk_walk :: "path \<Rightarrow> 'o option \<Rightarrow> entry list"
  wk_matches :: "'m \<Rightarrow> path \<Rightarrow> (nat \<times> bytes) list"
  wk_lossy :: "bytes \<Rightarrow> bytes"
  wk_trim_end :: "bytes \<Rightarrow> bytes"

definition strip_prefix :: "path \<Rightarrow> path \<Rightarrow> path option" where
  "strip_prefix r p =
     (if starts_with p r
      then Some \<lparr>pa_absolute = pa_absolute p \<and> \<not> pa_absolute r, pa_names = drop (length (pa_names r)) (pa_names p)\<rparr>
      else None)"

definition display :: "('m, 'o) walker \<Rightarrow> path \<Rightarrow> path \<Rightarrow> bytes" where
  "display W r p = wk_lossy W (show_path (case strip_prefix r p of Some q \<Rightarrow> q | None \<Rightarrow> p))"

definition glob_hit :: "('m, 'o) walker \<Rightarrow> path \<Rightarrow> path \<Rightarrow> (names \<Rightarrow> bool) \<Rightarrow> entry \<Rightarrow> (int \<times> bytes) option" where
  "glob_hit W anchor base matches e =
     (if \<not> en_file e then None
      else case strip_prefix base (en_path e) of
             None \<Rightarrow> None
           | Some q \<Rightarrow>
               if \<not> matches (pa_names q) then None
               else Some (case en_modified e of Some t \<Rightarrow> t | None \<Rightarrow> 0, display W anchor (en_path e)))"

text \<open>The code's sort is unstable: paths of one time may come in another order than here.\<close>

definition glob_hits :: "('m, 'o) walker \<Rightarrow> path \<Rightarrow> path \<Rightarrow> (names \<Rightarrow> bool) \<Rightarrow> bytes list" where
  "glob_hits W anchor base matches =
     map snd (take MAX_RESULTS (sort_by (\<lambda>a b. fst b \<le> fst a)
       (List.map_filter (glob_hit W anchor base matches) (wk_walk W base None))))"

definition fs_glob :: "('m, 'o) walker \<Rightarrow> fs \<Rightarrow> names \<Rightarrow> path \<Rightarrow> bytes \<Rightarrow> bytes \<Rightarrow> bytes + bytes" where
  "fs_glob W F cwd r pattern s =
     bindr (resolve F cwd r ''.'') (\<lambda>anchor.
       bindr (resolve F cwd r s) (\<lambda>base.
         bindr (wk_glob W pattern) (\<lambda>matches. Inr (join_with newline (glob_hits W anchor base matches)))))"

definition FILES :: bytes where "FILES = ''files''"
definition CONTENT :: bytes where "CONTENT = ''content''"
definition COUNT :: bytes where "COUNT = ''count''"

definition colon :: bytes where "colon = '':''"

text \<open>A line is pushed before the count is looked at.\<close>

fun push_lines :: "('m, 'o) walker \<Rightarrow> bytes \<Rightarrow> (nat \<times> bytes) list \<Rightarrow> bytes list \<Rightarrow> bytes list" where
  "push_lines W shown [] out = out"
| "push_lines W shown ((number, l) # ls) out =
     (let out' = out @ [shown @ colon @ show_nat number @ colon @ wk_trim_end W l]
      in if length out' < MAX_RESULTS then push_lines W shown ls out' else out')"

definition grep_file :: "('m, 'o) walker \<Rightarrow> path \<Rightarrow> 'm \<Rightarrow> bytes \<Rightarrow> path \<Rightarrow> bytes list \<Rightarrow> bytes list" where
  "grep_file W anchor m mode p out =
     (let shown = display W anchor p; ls = wk_matches W m p
      in if mode = FILES then (if ls \<noteq> [] then out @ [shown] else out)
         else if mode = COUNT then (if 0 < length ls then out @ [shown @ colon @ show_nat (length ls)] else out)
         else push_lines W shown ls out)"

fun grep_loop :: "('m, 'o) walker \<Rightarrow> path \<Rightarrow> 'm \<Rightarrow> bytes \<Rightarrow> entry list \<Rightarrow> bytes list \<Rightarrow> bytes list" where
  "grep_loop W anchor m mode [] out = out"
| "grep_loop W anchor m mode (e # es) out =
     (if MAX_RESULTS \<le> length out then out
      else grep_loop W anchor m mode es (if \<not> en_file e then out else grep_file W anchor m mode (en_path e) out))"

definition fs_grep ::
  "('m, 'o) walker \<Rightarrow> fs \<Rightarrow> names \<Rightarrow> path \<Rightarrow> bytes \<Rightarrow> bytes \<Rightarrow> bytes \<Rightarrow> bytes \<Rightarrow> bytes + bytes" where
  "fs_grep W F cwd r pattern s include_text mode =
     (if mode \<notin> {FILES, CONTENT, COUNT} then
        Inl (''unknown mode '' @ mode @ '' (expected '' @ FILES @ '', '' @ CONTENT @ '' or '' @ COUNT @ '')'')
      else bindr (resolve F cwd r ''.'') (\<lambda>anchor.
        bindr (resolve F cwd r s) (\<lambda>base.
          bindr (wk_regex W pattern) (\<lambda>m.
            bindr (if include_text = [] then Inr None else map_sum id Some (wk_override W base include_text))
              (\<lambda>ov. Inr (join_with newline (grep_loop W anchor m mode (wk_walk W base ov) [])))))))"

subsection \<open>Commands (exec.rs)\<close>

text \<open>
  A child is polled: \<open>ch_poll t\<close> is what \<open>try_wait\<close> says \<open>t\<close> milliseconds after the start, and
  \<open>ch_eof\<close> when the last process holding its pipes closes them, after a kill or without one.
\<close>

record child =
  ch_poll :: "nat \<Rightarrow> bytes + int option option"
  ch_stdout :: bytes
  ch_stderr :: bytes
  ch_eof :: "bool \<Rightarrow> nat"

record shell =
  sh_spawn :: "path \<Rightarrow> bytes \<Rightarrow> (bytes \<times> bytes) list \<Rightarrow> bytes + child"
  sh_json :: "bytes \<Rightarrow> bytes \<Rightarrow> int \<Rightarrow> bytes"

definition EXEC_TIMEOUT :: nat where "EXEC_TIMEOUT = 30000"
definition EXEC_POLL :: nat where "EXEC_POLL = 5"

lemma EXEC_POLL_pos: "0 < EXEC_POLL" by (simp add: EXEC_POLL_def)

function await :: "child \<Rightarrow> nat \<Rightarrow> nat \<Rightarrow> (bytes + int option option) \<times> nat" where
  "await C deadline t =
     (case ch_poll C t of
        Inl e \<Rightarrow> (Inl e, t)
      | Inr (Some status) \<Rightarrow> (Inr (Some status), t)
      | Inr None \<Rightarrow> if deadline \<le> t then (Inr None, t) else await C deadline (t + EXEC_POLL))"
  by pat_completeness auto

termination
  by (relation "measure (\<lambda>(C, deadline, t). Suc deadline - t)") (simp_all add: EXEC_POLL_def)

declare await.simps [simp del]

text \<open>The second value is when the call returns.\<close>

definition exec_run ::
  "shell \<Rightarrow> fs \<Rightarrow> names \<Rightarrow> path \<Rightarrow> bytes \<Rightarrow> bytes \<Rightarrow> (bytes \<times> bytes) list \<Rightarrow> (bytes + bytes) \<times> nat" where
  "exec_run X F cwd r command s env =
     (case resolve F cwd r s of
        Inl e \<Rightarrow> (Inl e, 0)
      | Inr dir \<Rightarrow>
          (case sh_spawn X dir command env of
             Inl e \<Rightarrow> (Inl e, 0)
           | Inr C \<Rightarrow>
               (case await C EXEC_TIMEOUT 0 of
                  (Inl e, t) \<Rightarrow> (Inl e, t)
                | (Inr None, t) \<Rightarrow>
                    (Inl (''command timed out after '' @ show_nat (EXEC_TIMEOUT div 1000) @ '' seconds''),
                     max t (ch_eof C True))
                | (Inr (Some status), t) \<Rightarrow>
                    (Inr (sh_json X (ch_stdout C) (ch_stderr C) (case status of Some k \<Rightarrow> k | None \<Rightarrow> - 1)),
                     max t (ch_eof C False)))))"

subsection \<open>Requests (http.rs)\<close>

definition MAX_BODY :: nat where "MAX_BODY = 16 * 1024 * 1024"

record web_request =
  wq_method :: bytes
  wq_url :: bytes
  wq_headers :: "(bytes \<times> bytes) list"
  wq_body :: bytes

record web_response =
  wr_status :: nat
  wr_headers :: "(bytes \<times> bytes) list"
  wr_body :: "bytes + bytes"

record fetched =
  fe_status :: nat
  fe_headers :: bytes
  fe_body :: bytes

text \<open>\<open>hv_uri\<close> parses a URL to its host and port; \<open>hv_send\<close> gives None for a request that timed out.\<close>

record http_env =
  hv_uri :: "bytes \<Rightarrow> (bytes option \<times> nat option) option"
  hv_build :: "web_request \<Rightarrow> bytes + unit"
  hv_send :: "web_request \<Rightarrow> (bytes + web_response) option"
  hv_limit :: bytes
  hv_lossy :: "bytes \<Rightarrow> bytes"

definition eq_ignore_ascii_case :: "bytes \<Rightarrow> bytes \<Rightarrow> bool" where
  "eq_ignore_ascii_case a b \<longleftrightarrow> map ascii_lower a = map ascii_lower b"

definition header_lines :: "http_env \<Rightarrow> (bytes \<times> bytes) list \<Rightarrow> bytes" where
  "header_lines V hs = concat (map (\<lambda>(name, v). name @ '': '' @ hv_lossy V v @ newline) hs)"

definition fetched_of :: "http_env \<Rightarrow> web_response \<Rightarrow> bytes + fetched" where
  "fetched_of V r =
     (case wr_body r of
        Inl e \<Rightarrow> Inl (''could not read the response body: '' @ e)
      | Inr b \<Rightarrow>
          if MAX_BODY < length b then Inl (''could not read the response body: '' @ hv_limit V)
          else Inr \<lparr>fe_status = wr_status r, fe_headers = header_lines V (wr_headers r), fe_body = b\<rparr>)"

text \<open>With the result, the requests that left.\<close>

definition http_fetch ::
  "http_env \<Rightarrow> bytes list \<Rightarrow> bytes \<Rightarrow> bytes \<Rightarrow> bytes \<Rightarrow> (bytes \<times> bytes) list \<Rightarrow>
   (bytes + fetched) \<times> web_request list" where
  "http_fetch V hosts meth url body headers =
     (case hv_uri V url of
        None \<Rightarrow> (Inl (url @ '' is not a url''), [])
      | Some (None, _) \<Rightarrow> (Inl (url @ '' has no host''), [])
      | Some (Some host, port) \<Rightarrow>
          if \<not> list_ex (\<lambda>granted. eq_ignore_ascii_case granted host) hosts then
            (Inl (host @ '' is not a host this harness was granted''), [])
          else
            let authority = (case port of Some n \<Rightarrow> host @ colon @ show_nat n | None \<Rightarrow> host);
                q = \<lparr>wq_method = meth, wq_url = url, wq_headers = (''host'', authority) # headers, wq_body = body\<rparr>
            in case hv_build V q of
                 Inl e \<Rightarrow> (Inl e, [])
               | Inr _ \<Rightarrow>
                   (case hv_send V q of
                      None \<Rightarrow> Inl ''request timed out''
                    | Some (Inl e) \<Rightarrow> Inl ''request failed''
                    | Some (Inr r) \<Rightarrow> fetched_of V r, [q]))"

subsection \<open>The runtime (protocol.rs)\<close>

type_synonym 's reach = "('s \<Rightarrow> client_message \<Rightarrow> server_message list \<times> 's) option"

record door_codec =
  pk_show :: "agent_id \<Rightarrow> bytes"
  pk_search :: "bytes \<Rightarrow> bytes + search_msg"
  pk_agents :: "agent_info list \<Rightarrow> bytes"
  pk_hits :: "wire_hit list \<Rightarrow> bytes"
  pk_skills :: "skill_summary list \<Rightarrow> bytes"
  pk_body :: "bytes \<Rightarrow> bytes \<Rightarrow> bytes"

definition ask :: "'s reach \<Rightarrow> client_msg \<Rightarrow> ('s, server_message) handler" where
  "ask X q s =
     (case X of
        None \<Rightarrow> (Inl ''the protocol is not connected yet'', s)
      | Some dispatch \<Rightarrow>
          let (replies, s') = dispatch s (Some q)
          in (case replies of [] \<Rightarrow> Inl ''the runtime returned no reply'' | r # _ \<Rightarrow> Inr r, s'))"

definition asked :: "bytes \<Rightarrow> (server_msg \<Rightarrow> 'a option) \<Rightarrow> (bytes + server_message) \<times> 's \<Rightarrow> (bytes + 'a) \<times> 's" where
  "asked missing pick r =
     (bindr (fst r) (\<lambda>reply. case Option.bind reply pick of Some a \<Rightarrow> Inr a | None \<Rightarrow> Inl missing), snd r)"

definition sent_back :: "('a \<Rightarrow> bytes) \<Rightarrow> (bytes + 'a) \<times> 's \<Rightarrow> (bytes + bytes) \<times> 's" where
  "sent_back enc r = (map_sum id enc (fst r), snd r)"

definition door_peers :: "door_codec \<Rightarrow> 's reach \<Rightarrow> ('s, bytes) handler" where
  "door_peers P X s =
     sent_back (\<lambda>as. pk_agents P (map (\<lambda>i. i\<lparr>gi_config := []\<rparr>) as))
       (asked ''the runtime did not return an agent list''
          (\<lambda>m. case m of SAgentList as \<Rightarrow> Some as | _ \<Rightarrow> None) (ask X CListAgents s))"

definition door_sessions :: "door_codec \<Rightarrow> 's reach \<Rightarrow> scope \<Rightarrow> bytes \<Rightarrow> ('s, bytes) handler" where
  "door_sessions P X sc request s =
     (case pk_search P request of
        Inl e \<Rightarrow> (Inl e, s)
      | Inr q \<Rightarrow>
          sent_back (pk_hits P)
            (asked ''the runtime did not return session hits'' (\<lambda>m. case m of SHits hs \<Rightarrow> Some hs | _ \<Rightarrow> None)
               (ask X (CSearchSessions (q\<lparr>ProtoWire.sr_agent := pk_show P (sc_agent sc)\<rparr>)) s)))"

definition door_skills :: "door_codec \<Rightarrow> 's reach \<Rightarrow> scope \<Rightarrow> ('s, bytes) handler" where
  "door_skills P X sc s =
     sent_back (\<lambda>l. pk_skills P (filter (\<lambda>k. may_use sc (su_name k)) l))
       (asked ''the runtime did not return a skill list''
          (\<lambda>m. case m of SSkillList l \<Rightarrow> Some l | _ \<Rightarrow> None) (ask X CListSkills s))"

definition door_skill :: "door_codec \<Rightarrow> 's reach \<Rightarrow> scope \<Rightarrow> bytes \<Rightarrow> ('s, bytes) handler" where
  "door_skill P X sc name s =
     (if \<not> may_use sc name then (Inl (''skill not available: '' @ name), s)
      else sent_back (\<lambda>(n, body). pk_body P n body)
        (asked ''the runtime did not return a skill body''
           (\<lambda>m. case m of SSkillBody n body \<Rightarrow> Some (n, body) | _ \<Rightarrow> None) (ask X (CGetSkill name) s)))"

subsection \<open>A sibling (call.rs)\<close>

record 'i call_env =
  cv_fields :: "bytes \<Rightarrow> bytes + bytes list"
  cv_text :: "bytes list \<Rightarrow> nat \<Rightarrow> bytes \<Rightarrow> bytes + bytes"
  cv_tools :: "'i \<Rightarrow> bytes list"
  cv_debug :: "bytes \<Rightarrow> bytes"

definition sibling_call ::
  "'i berm_env \<Rightarrow> 'i call_env \<Rightarrow> 'i berm_registry \<Rightarrow> agent_id \<Rightarrow> bytes option \<Rightarrow> bytes \<Rightarrow> bytes + bytes" where
  "sibling_call E V R agent session request =
     bindr (cv_fields V request) (\<lambda>fs.
       bindr (cv_text V fs 0 ''harness'') (\<lambda>name.
         bindr (cv_text V fs 1 ''tool'') (\<lambda>tool.
           bindr (cv_text V fs 2 ''arguments'') (\<lambda>args.
             case berm_named R agent session name of
               None \<Rightarrow> Inl (''no harness named '' @ cv_debug V name @ '' is declared here'')
             | Some i \<Rightarrow>
                 if \<not> list_ex (\<lambda>declared. declared = tool) (cv_tools V i) then
                   Inl (name @ '' exports no tool named '' @ cv_debug V tool)
                 else bindr (be_call E i tool args) id))))"

subsection \<open>Searches give what can be read\<close>

lemma length_push_lines:
  "length out < MAX_RESULTS \<Longrightarrow> length (push_lines W shown ls out) \<le> MAX_RESULTS"
  by (induction W shown ls out rule: push_lines.induct) (auto simp: Let_def)

lemma length_grep_file: "length out < MAX_RESULTS \<Longrightarrow> length (grep_file W anchor m mode p out) \<le> MAX_RESULTS"
  by (simp add: grep_file_def Let_def length_push_lines)

lemma length_grep_loop: "length out \<le> MAX_RESULTS \<Longrightarrow> length (grep_loop W anchor m mode es out) \<le> MAX_RESULTS"
  by (induction W anchor m mode es out rule: grep_loop.induct) (simp add: length_grep_file)+

lemma push_lines_names:
  "x \<in> set (push_lines W shown ls out) \<Longrightarrow> x \<in> set out \<or> prefix shown x"
  by (induction W shown ls out rule: push_lines.induct) (auto simp: Let_def split: if_splits)

lemma grep_file_names:
  "x \<in> set (grep_file W anchor m mode p out) \<Longrightarrow>
     x \<in> set out \<or> prefix (display W anchor p) x \<and> (mode = FILES \<longrightarrow> x = display W anchor p)"
  using push_lines_names [of x W "display W anchor p" "wk_matches W m p" out]
  by (auto simp: grep_file_def Let_def FILES_def split: if_splits)

lemma grep_loop_names:
  "x \<in> set (grep_loop W anchor m mode es out) \<Longrightarrow> x \<in> set out \<or>
     (\<exists>e \<in> set es. en_file e \<and> prefix (display W anchor (en_path e)) x \<and>
        (mode = FILES \<longrightarrow> x = display W anchor (en_path e)))"
proof (induction W anchor m mode es out rule: grep_loop.induct)
  case (2 W anchor m mode e es out)
  then show ?case using grep_file_names [of x W anchor m mode "en_path e" out] by (auto split: if_splits)
qed simp

lemma glob_hits_names:
  assumes "x \<in> set (glob_hits W anchor base matches)"
  shows "\<exists>e \<in> set (wk_walk W base None). en_file e \<and> x = display W anchor (en_path e)"
proof -
  obtain t where "(t, x) \<in> set (List.map_filter (glob_hit W anchor base matches) (wk_walk W base None))"
    using assms by (auto simp: glob_hits_def dest: in_set_takeD)
  then show ?thesis
    by (force simp: List.map_filter_def glob_hit_def split: if_splits option.splits)
qed

lemma length_glob_hits: "length (glob_hits W anchor base matches) \<le> MAX_RESULTS"
  by (simp add: glob_hits_def)

text \<open>
  What the walk promises: below what is there it gives paths that are there, reached through
  directories only (links are not followed). Names are plain valid text, which is shown as it is.
\<close>

definition plain_name :: "bytes \<Rightarrow> bool" where
  "plain_name c \<longleftrightarrow> c \<noteq> [] \<and> c \<noteq> ''.'' \<and> slash_free c \<and> valid_utf8 c"

definition names_plain :: "fs \<Rightarrow> bool" where
  "names_plain F \<longleftrightarrow> (\<forall>q x. F q = Some x \<longrightarrow> list_all plain_name q)"

definition walk_ok :: "('m, 'o) walker \<Rightarrow> fs \<Rightarrow> bool" where
  "walk_ok W F \<longleftrightarrow>
     (\<forall>base inc e. real_at F (pa_names base) \<and> pa_absolute base \<and> e \<in> set (wk_walk W base inc) \<longrightarrow>
        starts_with (en_path e) base \<and> real_at F (pa_names (en_path e)) \<and>
        (en_file e \<longrightarrow> (\<exists>d. F (pa_names (en_path e)) = Some (File d)))) \<and>
     (\<forall>s. valid_utf8 s \<longrightarrow> wk_lossy W s = s)"

lemma join_with_joined: "join_with ''/'' (p0 # ps) = p0 @ joined ps"
  by (induction ps arbitrary: p0) simp_all

lemma plain_join:
  assumes "list_all plain_name ns"
  shows "parse_path (join_with ''/'' ns) = \<lparr>pa_absolute = False, pa_names = ns\<rparr>" and "valid_utf8 (join_with ''/'' ns)"
proof -
  have "parse_path (join_with ''/'' ns) = \<lparr>pa_absolute = False, pa_names = ns\<rparr> \<and> valid_utf8 (join_with ''/'' ns)"
  proof (cases ns)
    case Nil
    then show ?thesis by (simp add: parse_path_def split_char_def dot_name_def)
  next
    case (Cons n rest)
    have s: "split_char (CHR ''/'') (n @ joined rest) = n # rest"
      using assms Cons by (intro split_char_joined) (auto simp: list_all_iff plain_name_def)
    have h: "n \<noteq> []" "hd (n @ joined rest) \<noteq> CHR ''/''"
      using assms Cons by (cases n; auto simp: plain_name_def slash_free_def)+
    have v: "valid_utf8 (n @ joined rest)"
      using assms Cons by (simp add: valid_utf8_append valid_utf8_joined list_all_iff plain_name_def)
    show ?thesis
      using assms Cons h v
      by (simp add: join_with_joined parse_path_def s list_all_iff plain_name_def dot_name_def)
  qed
  then show "parse_path (join_with ''/'' ns) = \<lparr>pa_absolute = False, pa_names = ns\<rparr>" "valid_utf8 (join_with ''/'' ns)"
    by blast+
qed

lemma real_at_plain: "real_at F q \<Longrightarrow> parent_name \<notin> set q"
  by (auto simp: real_at_def real_dir_def)

lemma walk_real_at: "real_at F q \<Longrightarrow> walk n F [] q = Some q"
proof -
  assume "real_at F q"
  then consider "real_dir F q" | b c d where "q = b @ [c]" "real_dir F b" "c \<noteq> parent_name" "F q = Some (File d)"
    by (auto simp: real_at_def)
  then show ?thesis
  proof cases
    case 1
    then show ?thesis using walk_through [of F "[]" q n "[]"] by simp
  next
    case (2 b c d)
    then show ?thesis using walk_through [of F "[]" b n "[c]"] by (simp add: walk.simps(2))
  qed
qed

lemma normalize_names_id: "parent_name \<notin> set cs \<Longrightarrow> normalize_names out cs = out @ cs"
  by (induction out cs rule: normalize_names.induct) auto

lemma resolve_below:
  assumes c: "canonicalize F cwd r = Some an" and q: "real_at F (an @ ns)"
    and s: "\<not> pa_absolute (parse_path s)" "steps (parse_path s) = ns" and dots: "dot_name \<notin> set (an @ ns)"
  shows "resolve F cwd r s = Inr \<lparr>pa_absolute = True, pa_names = an @ ns\<rparr>"
proof -
  have "settle F cwd (BermRoot.normalize \<lparr>pa_absolute = True, pa_names = an @ ns\<rparr>) = \<lparr>pa_absolute = True, pa_names = an @ ns\<rparr>"
    using real_at_plain [OF q] walk_real_at [OF q] dots
    by (simp add: settle_def settle_loop.simps canonicalize_absolute BermRoot.normalize_def normalize_names_id steps_plain)
  then show ?thesis
    by (simp add: resolve_def real_root_def c path_join_def s starts_with_iff)
qed

lemma display_reads_back:
  assumes W: "\<And>s. valid_utf8 s \<Longrightarrow> wk_lossy W s = s" and P: "names_plain F"
    and c: "canonicalize F cwd r = Some an" and q: "real_at F (an @ ns)" and f: "F (an @ ns) = Some (File d)"
  shows "resolve F cwd r (display W \<lparr>pa_absolute = True, pa_names = an\<rparr> \<lparr>pa_absolute = True, pa_names = an @ ns\<rparr>) =
      Inr \<lparr>pa_absolute = True, pa_names = an @ ns\<rparr>"
proof -
  have plain: "list_all plain_name (an @ ns)" using P f by (auto simp: names_plain_def simp del: list_all_append)
  then have ns: "list_all plain_name ns" and dots: "dot_name \<notin> set (an @ ns)"
    by (auto simp: list_all_iff plain_name_def dot_name_def)
  then have "display W \<lparr>pa_absolute = True, pa_names = an\<rparr> \<lparr>pa_absolute = True, pa_names = an @ ns\<rparr> = join_with ''/'' ns"
    using W [OF plain_join(2)] ns by (simp add: display_def strip_prefix_def starts_with_iff show_path_def)
  moreover have "\<not> pa_absolute (parse_path (join_with ''/'' ns))" "steps (parse_path (join_with ''/'' ns)) = ns"
    using dots by (simp_all add: plain_join(1) [OF ns] steps_plain)
  ultimately show ?thesis using resolve_below [OF c q _ _ dots] by simp
qed


subsection \<open>A command outlives its timeout\<close>

lemma await_bounds:
  assumes "await C deadline t = (res, t')"
  shows "t \<le> t' \<and> t' \<le> max t (deadline + EXEC_POLL - 1) \<and> (res = Inr None \<longrightarrow> deadline \<le> t' \<and> ch_poll C t' = Inr None)"
  using assms
proof (induction C deadline t rule: await.induct)
  case (1 C deadline t)
  show ?case
  proof (cases "ch_poll C t = Inr None \<and> t < deadline")
    case True
    then show ?thesis
      using "1.IH" "1.prems" EXEC_POLL_pos by (auto simp: await.simps [of C deadline t] max_def split: if_splits)
  next
    case False
    then show ?thesis
      using "1.prems" EXEC_POLL_pos
      by (auto simp: await.simps [of C deadline t] max_def split: sum.splits option.splits if_splits)
  qed
qed

text \<open>
  The wait for the command itself is bounded, five milliseconds past the timeout at most. The call
  is not: it joins the pipes' readers, and a process the command left behind keeps them open.
\<close>

lemma exec_waits_for_pipes:
  assumes "resolve F cwd r s = Inr dir" and "sh_spawn X dir command env = Inr C" and "ch_poll C 0 = Inr (Some (Some 0))"
  shows "snd (exec_run X F cwd r command s env) = ch_eof C False"
  using assms by (simp add: exec_run_def await.simps)

lemma exec_wait_bounded:
  assumes "exec_run X F cwd r command s env = (res, t)" and "sh_spawn X dir command env = Inr C"
    and "resolve F cwd r s = Inr dir" and "ch_eof C True \<le> n" and "ch_eof C False \<le> n"
  shows "t < max n EXEC_TIMEOUT + EXEC_POLL"
proof -
  obtain w t' where w: "await C EXEC_TIMEOUT 0 = (w, t')" by (cases "await C EXEC_TIMEOUT 0") blast
  show ?thesis
    using assms await_bounds [OF w] EXEC_POLL_pos
    by (auto simp: exec_run_def w max_def split: sum.splits option.splits if_splits)
qed

subsection \<open>Where a request goes\<close>

text \<open>
  C29: A request leaves only for a host the declaration names, spelt in any case, with the method,
  the body and the headers the harness gave and the host's own header in front, and one call sends
  at most one; a body past the bound never enters the sandbox.
\<close>

theorem fetch_only_granted:
  assumes "http_fetch V hosts meth url body headers = (res, sent)"
  shows "(sent = [] \<or> (\<exists>q host port g. sent = [q] \<and> hv_uri V (wq_url q) = Some (Some host, port) \<and>
       g \<in> set hosts \<and> eq_ignore_ascii_case g host \<and> wq_url q = url \<and> wq_method q = meth \<and> wq_body q = body \<and>
       (\<exists>authority. prefix host authority \<and> wq_headers q = (''host'', authority) # headers))) \<and>
    (\<forall>f. res = Inr f \<longrightarrow> length (fe_body f) \<le> MAX_BODY \<and> sent \<noteq> [])"
proof (cases "\<exists>host port. hv_uri V url = Some (Some host, port) \<and> list_ex (\<lambda>g. eq_ignore_ascii_case g host) hosts")
  case False
  then show ?thesis
    using assms by (auto simp: http_fetch_def split: option.splits if_splits)
next
  case True
  then obtain host port where u: "hv_uri V url = Some (Some host, port)"
    and g: "list_ex (\<lambda>g. eq_ignore_ascii_case g host) hosts" by blast
  define q where "q = \<lparr>wq_method = meth, wq_url = url,
    wq_headers = (''host'', (case port of Some n \<Rightarrow> host @ colon @ show_nat n | None \<Rightarrow> host)) # headers, wq_body = body\<rparr>"
  have r: "(case hv_build V q of Inl e \<Rightarrow> (Inl e, [])
      | Inr _ \<Rightarrow> (case hv_send V q of None \<Rightarrow> Inl ''request timed out''
          | Some (Inl e) \<Rightarrow> Inl ''request failed'' | Some (Inr r) \<Rightarrow> fetched_of V r, [q])) = (res, sent)"
    using assms u g unfolding q_def by (simp add: http_fetch_def Let_def)
  then have "sent = [] \<and> (\<exists>e. res = Inl e) \<or> sent = [q] \<and> (\<forall>f. res = Inr f \<longrightarrow> length (fe_body f) \<le> MAX_BODY)"
    by (auto simp: fetched_of_def split: sum.splits option.splits if_splits)
  moreover have "\<exists>authority. prefix host authority \<and> wq_headers q = (''host'', authority) # headers"
    by (auto simp: q_def split: option.split)
  moreover have "wq_url q = url" "wq_method q = meth" "wq_body q = body" by (simp_all add: q_def)
  moreover obtain g where "g \<in> set hosts" "eq_ignore_ascii_case g host" using g by (auto simp: list_ex_iff)
  ultimately show ?thesis using u by (metis Inl_Inr_False list.distinct(1))
qed

subsection \<open>What the runtime's doors reach\<close>

lemma ask_daemon:
  "ask (Some (server_dispatch V)) q s = (case fst (dispatch_msg V s q) of [] \<Rightarrow> Inl ''the runtime returned no reply'' | r # _ \<Rightarrow> Inr r,
     snd (dispatch_msg V s q))"
  by (simp add: ask_def server_dispatch_def split: prod.split)

lemma daemon_server_search: "sv_search_sessions (daemon_server N M) = daemon_search_sessions N"
  by (simp add: daemon_server_def)

lemma ask_search:
  "ask (Some (server_dispatch (daemon_server N M))) (CSearchSessions q) d =
     (Inr (case fst (daemon_search_sessions N q d) of Inr hits \<Rightarrow> Some (SHits hits) | Inl e \<Rightarrow> server_error 500 e), d)"
  by (simp add: ask_daemon daemon_server_search reply_def split: prod.split) (simp add: daemon_search_sessions_def Let_def)

lemma session_door_hits:
  assumes shown: "pk_show P = eg_show (nd_engine N)" "eg_show (nd_engine N) (sc_agent sc) \<noteq> []"
    and ulid: "ulid_ok (ae_ulid (eg_agents (nd_engine N)))"
    and door: "door_sessions P (Some (server_dispatch (daemon_server N M))) sc request d = (Inr ans, d')"
  shows "d' = d \<and> (\<exists>hits. ans = pk_hits P hits \<and> length hits \<le> 20 \<and>
    list_all (\<lambda>h. wh_agent_id h = eg_show (nd_engine N) (sc_agent sc)) hits)"
proof -
  let ?V = "daemon_server N M"
  obtain q where q: "pk_search P request = Inr q" using door by (auto simp: door_sessions_def split: sum.splits)
  define m where "m = q\<lparr>ProtoWire.sr_agent := pk_show P (sc_agent sc)\<rparr>"
  have m: "ProtoWire.sr_agent m = eg_show (nd_engine N) (sc_agent sc)" by (simp add: m_def shown)
  have p: "parse_agent_filter N (ProtoWire.sr_agent m) = Inr (Some (sc_agent sc))"
    using ulid shown(2) by (simp add: parse_agent_filter_def m parse_agent_def ulid_ok_def)
  have e: "door_sessions P (Some (server_dispatch ?V)) sc request d = sent_back (pk_hits P)
      (asked ''the runtime did not return session hits'' (\<lambda>m. case m of SHits hs \<Rightarrow> Some hs | _ \<Rightarrow> None)
        (Inr (case fst (daemon_search_sessions N m d) of Inr hits \<Rightarrow> Some (SHits hits) | Inl e \<Rightarrow> server_error 500 e), d))"
    unfolding door_sessions_def q sum.case m_def [symmetric] ask_search ..
  have "\<exists>hits. fst (daemon_search_sessions N m d) = Inr hits \<and> ans = pk_hits P hits \<and> d' = d"
    using door unfolding e
    by (cases "fst (daemon_search_sessions N m d)") (simp_all add: sent_back_def asked_def server_error_def)
  then obtain hits where h: "fst (daemon_search_sessions N m d) = Inr hits" and r: "ans = pk_hits P hits" and d: "d' = d"
    by blast
  obtain found opts where f: "search_sessions (eg_sessions (nd_engine N)) (dm_store d) (sr_query m) opts = Inr found"
    "hits = map (wire_hit_from N) found" "so_agent_filter opts = Some (sc_agent sc)"
    using h by (auto simp: daemon_search_sessions_def p Let_def map_sum_Inr_iff)
  from search_sessions_bounds [OF f(1)] have "length found \<le> 20" "\<forall>x \<in> set found. sh_agent x = sc_agent sc"
    using f(3) by (auto simp: hit_ok_def)
  then have "length hits \<le> 20" "list_all (\<lambda>h. wh_agent_id h = eg_show (nd_engine N) (sc_agent sc)) hits"
    by (auto simp: f(2) list_all_iff wire_hit_from_def)
  then show ?thesis using r d by blast
qed

text \<open>
  C28: However a harness fills its request, searching the sessions of a daemon gives hits of the
  declaring agent's own conversations only, at most twenty of them, and changes nothing.
\<close>

theorem session_door_own:
  assumes shown: "pk_show P = eg_show (nd_engine N)" "eg_show (nd_engine N) (sc_agent sc) \<noteq> []"
    and ulid: "ulid_ok (ae_ulid (eg_agents (nd_engine N)))"
    and door: "door_sessions P (Some (server_dispatch (daemon_server N M))) sc request d = (Inr ans, d')"
  shows "d' = d \<and> (\<exists>hits. ans = pk_hits P hits \<and> length hits \<le> 20 \<and>
    list_all (\<lambda>h. wh_agent_id h = eg_show (nd_engine N) (sc_agent sc)) hits)"
  by (rule session_door_hits) (fact assms)+

text \<open>
  A harness whose agent names skills lists those only, and is refused any other without the
  runtime being asked.
\<close>

lemma skill_doors_scoped:
  "fst (door_skills P X sc s) = Inr ans \<Longrightarrow> \<exists>l. ans = pk_skills P l \<and> list_all (\<lambda>k. may_use sc (su_name k)) l"
  "\<not> may_use sc name \<Longrightarrow> door_skill P X sc name s = (Inl (''skill not available: '' @ name), s)"
proof -
  assume "fst (door_skills P X sc s) = Inr ans"
  then obtain l where "ans = pk_skills P (filter (\<lambda>k. may_use sc (su_name k)) l)"
    by (cases "fst (asked ''the runtime did not return a skill list''
          (\<lambda>m. case m of SSkillList l \<Rightarrow> Some l | _ \<Rightarrow> None) (ask X CListSkills s))") (auto simp: door_skills_def sent_back_def)
  then show "\<exists>l. ans = pk_skills P l \<and> list_all (\<lambda>k. may_use sc (su_name k)) l"
    by (auto simp: list_all_iff)
qed (simp add: door_skill_def)

text \<open>The agents a harness is told of are those of the store, without their configurations.\<close>

lemma peers_without_configs:
  "door_peers P (Some (server_dispatch (daemon_server N M))) d =
     (Inr (pk_agents P (map (\<lambda>c. (agent_info_from N c)\<lparr>gi_config := []\<rparr>)
        (engine_agents (nd_engine N) (dm_store d)))), d)"
  by (simp add: door_peers_def ask_daemon sent_back_def asked_def reply_def daemon_server_def daemon_list_agents_def comp_def)

text \<open>A sibling is reached by a name the calling agent declares now, resolved where the caller is.\<close>

lemma sibling_call_declared:
  assumes "berm_reach E R" and "sibling_call E V R a session request = Inr result"
  shows "\<exists>i name tool args dc. map_of (br_declared R) a = Some dc \<and> name \<in> hc_name ` set (dc_harnesses dc) \<and>
    berm_named R a session name = Some i \<and> tool \<in> set (cv_tools V i) \<and> be_call E i tool args = Inr (Inr result)"
proof -
  obtain name tool args i where i: "berm_named R a session name = Some i" "tool \<in> set (cv_tools V i)"
    "be_call E i tool args = Inr (Inr result)"
    using assms(2) by (auto simp: sibling_call_def bindr_Inr list_ex_iff split: option.splits if_splits)
  obtain d where d: "(name, d) \<in> set (berm_resolved R a session)"
    using i(1) by (auto simp: berm_named_def find_Some_iff bind_eq_Some_conv in_set_conv_nth)
  then obtain ds where ds: "map_of (br_agents R) (a, root_key session) = Some ds" "(name, d) \<in> set ds"
    by (cases "map_of (br_agents R) (a, root_key session)") (auto simp: berm_resolved_def)
  then obtain dc where dc: "map_of (br_declared R) a = Some dc" "subseq (map fst ds) (map hc_name (dc_harnesses dc))"
    using berm_okD [OF berm_ok_reach [OF assms(1)]] by blast
  then have "name \<in> hc_name ` set (dc_harnesses dc)" using subseq_set [OF dc(2)] ds(2) by force
  then show ?thesis using i dc(1) by blast
qed

subsection \<open>Witnesses\<close>

definition sample_walker :: "(unit, unit) walker" where
  "sample_walker =
     \<lparr>wk_glob = (\<lambda>_. Inr (\<lambda>_. True)), wk_regex = (\<lambda>_. Inr ()), wk_override = (\<lambda>_ _. Inr ()),
      wk_walk = (\<lambda>base _. if base = parse_path ''/r''
         then [\<lparr>en_path = parse_path ''/r/d'', en_file = False, en_modified = None\<rparr>,
               \<lparr>en_path = parse_path ''/r/d/a'', en_file = True, en_modified = Some 5\<rparr>] else []),
      wk_matches = (\<lambda>_ _. [(1, ''x'')]), wk_lossy = id, wk_trim_end = id\<rparr>"

lemma sample_walk_ok: "walk_ok sample_walker sample_fs"
proof -
  have p: "parse_path ''/r'' = \<lparr>pa_absolute = True, pa_names = [''r'']\<rparr>"
    "parse_path ''/r/d'' = \<lparr>pa_absolute = True, pa_names = [''r'', ''d'']\<rparr>"
    "parse_path ''/r/d/a'' = \<lparr>pa_absolute = True, pa_names = [''r'', ''d'', ''a'']\<rparr>" by code_simp+
  have d: "real_dir sample_fs [''r'']" "real_dir sample_fs [''r'', ''d'']"
    using real_dir_snoc [of sample_fs "[]" "''r''"] real_dir_snoc [of sample_fs "[''r'']" "''d''"]
    by (simp_all add: sample_fs_def parent_name_def)
  have "real_at sample_fs [''r'', ''d'', ''a'']"
    unfolding real_at_def by (intro disjI2 exI [of _ "[''r'', ''d'']"] exI [of _ "''a''"] exI [of _ "''x''"])
      (simp add: d, simp add: sample_fs_def parent_name_def)
  then show ?thesis
    using d by (auto simp: walk_ok_def sample_walker_def p starts_with_iff real_at_def) (simp_all add: sample_fs_def)
qed

lemma sample_names_plain: "names_plain sample_fs"
proof -
  have "list_all (list_all plain_name) [[''r''], [''r'', ''d''], [''r'', ''d'', ''a''], [''r'', ''l''], [''etc'']]"
    by (simp add: plain_name_def slash_free_def) code_simp
  then show ?thesis by (auto simp: names_plain_def sample_fs_def split: if_splits)
qed


definition sample_http :: http_env where
  "sample_http =
     \<lparr>hv_uri = (\<lambda>u. if u = ''http://A.b/x'' then Some (Some ''A.b'', Some 8080) else None), hv_build = (\<lambda>_. Inr ()),
      hv_send = (\<lambda>q. Some (Inr \<lparr>wr_status = 200, wr_headers = [(''k'', ''v'')], wr_body = Inr (wq_url q)\<rparr>)),
      hv_limit = ''length limit exceeded'', hv_lossy = id\<rparr>"

theorem fetch_only_granted_witness:
  "\<exists>f q. http_fetch sample_http [''a.B''] ''GET'' ''http://A.b/x'' [] [] = (Inr f, [q]) \<and>
     length (fe_body f) \<le> MAX_BODY \<and> prefix ''A.b'' (snd (hd (wq_headers q)))"
proof -
  have l: "ascii_lower (CHR ''a'') = CHR ''a''" "ascii_lower (CHR ''B'') = CHR ''b''" "ascii_lower (CHR ''.'') = CHR ''.''"
    "ascii_lower (CHR ''A'') = CHR ''a''" "ascii_lower (CHR ''b'') = CHR ''b''" by code_simp+
  obtain f q where f: "http_fetch sample_http [''a.B''] ''GET'' ''http://A.b/x'' [] [] = (Inr f, [q])"
    by (simp add: http_fetch_def sample_http_def eq_ignore_ascii_case_def l fetched_of_def Let_def MAX_BODY_def)
  from fetch_only_granted [OF f] have "length (fe_body f) \<le> MAX_BODY"
    "\<exists>host port. hv_uri sample_http ''http://A.b/x'' = Some (Some host, port) \<and> prefix host (snd (hd (wq_headers q)))"
    by auto
  then show ?thesis using f by (intro exI [of _ f] exI [of _ q]) (simp add: sample_http_def)
qed

definition sample_doors :: door_codec where
  "sample_doors =
     \<lparr>pk_show = eg_show sample_engine, pk_search = (\<lambda>t. Inr \<lparr>sr_query = t, sr_limit = None, sr_before = None, sr_after = None,
        sr_agent = ''other'', sr_sender = []\<rparr>), pk_agents = (\<lambda>_. []), pk_hits = (\<lambda>hs. concat (map wh_agent_id hs)),
      pk_skills = (\<lambda>_. []), pk_body = (\<lambda>_ b. b)\<rparr>"

theorem session_door_own_witness:
  "\<exists>hits. door_sessions sample_doors (Some (server_dispatch (daemon_server sample_node sample_moment)))
     \<lparr>sc_skills = [], sc_agent = 7\<rparr> ''deploy'' (sample_daemon []) = (Inr (pk_hits sample_doors hits), sample_daemon []) \<and>
     length hits \<le> 20"
proof -
  let ?door = "door_sessions sample_doors (Some (server_dispatch (daemon_server sample_node sample_moment)))
     \<lparr>sc_skills = [], sc_agent = 7\<rparr> ''deploy'' (sample_daemon [])"
  have n: "eg_show sample_engine 7 \<noteq> []" by (simp add: sample_engine_def sample_env_def) code_simp
  have u: "ulid_ok (ae_ulid (eg_agents sample_engine))" using sample_env_ok by (simp add: agent_env_ok_def sample_engine_def)
  have "search_sessions sample_session_env [] ''deploy'' opts = Inr []" for opts
    by (simp add: search_sessions_def search_text_def load_stats_empty stats_default_def Let_def)
  then have "fst (daemon_search_sessions sample_node q (sample_daemon [])) = Inr []"
    if "sr_query q = ''deploy''" "ProtoWire.sr_agent q = eg_show sample_engine 7" for q
    using that n u by (simp add: daemon_search_sessions_def parse_agent_filter_def parse_agent_def ulid_ok_def Let_def sample_engine_def)
  then have door: "?door = (Inr (pk_hits sample_doors []), sample_daemon [])"
    unfolding door_sessions_def by (simp add: sample_doors_def ask_search sent_back_def asked_def)
  from session_door_own [OF _ _ _ door] n u
  have "\<exists>hits. pk_hits sample_doors [] = pk_hits sample_doors hits \<and> length hits \<le> 20"
    by (auto simp only: sample_doors_def door_codec.simps scope.simps sample_node_simps)
  with door show ?thesis by auto
qed

end
