(* ===== verification/CodeInput.thy ===== *)
theory CodeInput
  imports RustText
begin

section \<open>The input box of the terminal client (apps/code/src/tui/input.rs, command.rs)\<close>

text \<open>
  A multi-line editor with history. A line is the list of its Unicode scalar values, since the
  cursor counts characters; a byte offset is computed from the UTF-8 widths, as \<open>byte_of\<close> does it,
  and a slice or a drain out of order is a panic, the value None. A column is a \<open>usize\<close> and the
  subtraction of the code wraps, as it does in the shipped profile.
  The lemmas show that every key does to the text what an editor with a cursor between two strings
  does, with the one key that does not, and what recall and the history file keep.
\<close>

subsection \<open>Text\<close>

type_synonym scalar = nat
type_synonym text_line = "scalar list"

definition newline_char :: scalar where "newline_char = 10"
definition return_char :: scalar where "return_char = 13"

definition utf8_width :: "scalar \<Rightarrow> nat" where
  "utf8_width c = (if c < 0x80 then 1 else if c < 0x800 then 2 else if c < 0x10000 then 3 else 4)"

definition byte_len :: "text_line \<Rightarrow> nat" where
  "byte_len s = sum_list (map utf8_width s)"

text \<open>The string split at a byte offset: None where the offset is no character's.\<close>

fun split_bytes :: "text_line \<Rightarrow> nat \<Rightarrow> (text_line \<times> text_line) option" where
  "split_bytes s 0 = Some ([], s)"
| "split_bytes [] (Suc n) = None"
| "split_bytes (c # s) (Suc n) =
     (if utf8_width c \<le> Suc n then map_option (\<lambda>(a, b). (c # a, b)) (split_bytes s (Suc n - utf8_width c)) else None)"

definition byte_of :: "text_line \<Rightarrow> nat \<Rightarrow> nat" where
  "byte_of s n = byte_len (take n s)"

text \<open>\<open>drain(from..to)\<close>\<close>

definition drain_bytes :: "text_line \<Rightarrow> nat \<Rightarrow> nat \<Rightarrow> text_line option" where
  "drain_bytes s a b =
     (if b < a then None
      else case (split_bytes s a, split_bytes s b) of
             (Some (l, _), Some (_, r)) \<Rightarrow> Some (l @ r)
           | _ \<Rightarrow> None)"

definition insert_at_byte :: "text_line \<Rightarrow> nat \<Rightarrow> scalar \<Rightarrow> text_line option" where
  "insert_at_byte s a c = map_option (\<lambda>(l, r). l @ c # r) (split_bytes s a)"

text \<open>\<open>char::is_whitespace\<close>\<close>

definition white_space :: "scalar \<Rightarrow> bool" where
  "white_space c \<longleftrightarrow> 9 \<le> c \<and> c \<le> 13 \<or> c = 0x20 \<or> c = 0x85 \<or> c = 0xA0 \<or> c = 0x1680 \<or> 0x2000 \<le> c \<and> c \<le> 0x200A \<or>
     c \<in> {0x2028, 0x2029, 0x202F, 0x205F, 0x3000}"

definition trim_text :: "text_line \<Rightarrow> text_line" where
  "trim_text s = rev (dropWhile white_space (rev (dropWhile white_space s)))"

text \<open>\<open>str::lines\<close>\<close>

definition strip_return :: "text_line \<Rightarrow> text_line" where
  "strip_return s = (if s \<noteq> [] \<and> last s = return_char then butlast s else s)"

definition text_lines :: "text_line \<Rightarrow> text_line list" where
  "text_lines s =
     (let ws = split_when (\<lambda>c. c = newline_char) s
      in map strip_return (butlast ws) @ (if last ws = [] then [] else [last ws]))"

subsection \<open>The buffer\<close>

record buffer =
  bf_lines :: "text_line list"
  bf_row :: nat
  bf_col :: nat

definition USIZE :: nat where "USIZE = 2 ^ 64"

definition wrap_pred :: "nat \<Rightarrow> nat" where
  "wrap_pred n = (if n = 0 then USIZE - 1 else n - 1)"

definition wrap_succ :: "nat \<Rightarrow> nat" where
  "wrap_succ n = (n + 1) mod USIZE"

definition buffer_new :: buffer where
  "buffer_new = \<lparr>bf_lines = [[]], bf_row = 0, bf_col = 0\<rparr>"

definition buffer_from :: "text_line \<Rightarrow> buffer" where
  "buffer_from s =
     (let ls = (if s = [] then [[]] else text_lines s)
      in \<lparr>bf_lines = ls, bf_row = length ls - 1, bf_col = length (last ls)\<rparr>)"

definition buffer_empty :: "buffer \<Rightarrow> bool" where
  "buffer_empty b \<longleftrightarrow> bf_lines b = [[]]"

definition content :: "buffer \<Rightarrow> text_line" where
  "content b = join_with [newline_char] (bf_lines b)"

definition line_at :: "buffer \<Rightarrow> text_line" where
  "line_at b = bf_lines b ! bf_row b"

definition with_line :: "buffer \<Rightarrow> text_line \<Rightarrow> buffer" where
  "with_line b s = b\<lparr>bf_lines := (bf_lines b)[bf_row b := s]\<rparr>"

definition buffer_newline :: "buffer \<Rightarrow> buffer option" where
  "buffer_newline b =
     map_option (\<lambda>(l, r). \<lparr>bf_lines = take (bf_row b) (bf_lines b) @ [l, r] @ drop (Suc (bf_row b)) (bf_lines b),
        bf_row = bf_row b + 1, bf_col = 0\<rparr>)
       (split_bytes (line_at b) (byte_of (line_at b) (bf_col b)))"

datatype key_code = KBackspace | KLeft | KRight | KHome | KEnd | KDelete | KChar scalar | KEnter | KUp | KDown | KOther

definition join_up :: "buffer \<Rightarrow> buffer" where
  "join_up b =
     (let ls = take (bf_row b) (bf_lines b) @ drop (Suc (bf_row b)) (bf_lines b); r = bf_row b - 1
      in \<lparr>bf_lines = ls[r := ls ! r @ line_at b], bf_row = r, bf_col = length (ls ! r)\<rparr>)"

definition buffer_key :: "key_code \<Rightarrow> buffer \<Rightarrow> buffer option" where
  "buffer_key k b =
     (let row = bf_row b; col = bf_col b; s = line_at b
      in case k of
           KBackspace \<Rightarrow>
             if col = 0 \<and> 0 < row then Some (join_up b)
             else map_option (\<lambda>s'. (with_line b s')\<lparr>bf_col := wrap_pred col\<rparr>)
                    (drain_bytes s (byte_of s (wrap_pred col)) (byte_of s col))
         | KLeft \<Rightarrow>
             if col = 0 \<and> 0 < row then Some (b\<lparr>bf_row := row - 1, bf_col := length (bf_lines b ! (row - 1))\<rparr>)
             else Some (b\<lparr>bf_col := col - 1\<rparr>)
         | KRight \<Rightarrow>
             if length s \<le> col then
               if row + 1 < length (bf_lines b) then Some (b\<lparr>bf_row := row + 1, bf_col := 0\<rparr>) else Some b
             else Some (b\<lparr>bf_col := wrap_succ col\<rparr>)
         | KHome \<Rightarrow> Some (b\<lparr>bf_col := 0\<rparr>)
         | KEnd \<Rightarrow> Some (b\<lparr>bf_col := length s\<rparr>)
         | KDelete \<Rightarrow>
             if col < length s then map_option (with_line b) (drain_bytes s (byte_of s col) (byte_of s (col + 1)))
             else Some b
         | KChar c \<Rightarrow>
             map_option (\<lambda>s'. (with_line b s')\<lparr>bf_col := wrap_succ col\<rparr>) (insert_at_byte s (byte_of s col) c)
         | _ \<Rightarrow> Some b)"

definition buffer_up :: "buffer \<Rightarrow> buffer" where
  "buffer_up b =
     (if 0 < bf_row b
      then b\<lparr>bf_row := bf_row b - 1, bf_col := min (bf_col b) (length (bf_lines b ! (bf_row b - 1)))\<rparr>
      else b)"

definition buffer_down :: "buffer \<Rightarrow> buffer" where
  "buffer_down b =
     (if bf_row b + 1 < length (bf_lines b)
      then b\<lparr>bf_row := bf_row b + 1, bf_col := min (bf_col b) (length (bf_lines b ! (bf_row b + 1)))\<rparr>
      else b)"

subsection \<open>History\<close>

record input_history =
  ih_entries :: "text_line list"
  ih_cursor :: nat
  ih_stash :: text_line

definition history_load :: "text_line option \<Rightarrow> input_history" where
  "history_load file =
     (let es = filter (\<lambda>l. l \<noteq> []) (text_lines (case file of Some s \<Rightarrow> s | None \<Rightarrow> []))
      in \<lparr>ih_entries = es, ih_cursor = length es, ih_stash = []\<rparr>)"

definition history_save :: "input_history \<Rightarrow> text_line" where
  "history_save h = join_with [newline_char] (ih_entries h)"

definition history_push :: "input_history \<Rightarrow> text_line \<Rightarrow> input_history" where
  "history_push h s =
     (let l = trim_text s
      in if l = [] then h\<lparr>ih_cursor := length (ih_entries h)\<rparr>
         else let es = (if ih_entries h \<noteq> [] \<and> last (ih_entries h) = l then ih_entries h else ih_entries h @ [l])
              in h\<lparr>ih_entries := es, ih_cursor := length es\<rparr>)"

definition history_prev :: "input_history \<Rightarrow> text_line \<Rightarrow> text_line option \<times> input_history" where
  "history_prev h now =
     (let h1 = (if ih_cursor h = length (ih_entries h) then h\<lparr>ih_stash := now\<rparr> else h)
      in if ih_cursor h1 = 0 then (None, h1)
         else (Some (ih_entries h1 ! (ih_cursor h1 - 1)), h1\<lparr>ih_cursor := ih_cursor h1 - 1\<rparr>))"

definition history_next :: "input_history \<Rightarrow> text_line option \<times> input_history" where
  "history_next h =
     (if length (ih_entries h) \<le> ih_cursor h then (None, h)
      else let h1 = h\<lparr>ih_cursor := ih_cursor h + 1\<rparr>
           in (Some (if ih_cursor h1 = length (ih_entries h) then ih_stash h else ih_entries h ! ih_cursor h1), h1))"

subsection \<open>The box\<close>

record key_event =
  ke_code :: key_code
  ke_ctrl :: bool
  ke_shift :: bool

datatype action = Submit text_line | Interrupt | Eof | Noop

record input_box =
  ib_buffer :: buffer
  ib_history :: input_history

definition LETTER_C :: scalar where "LETTER_C = 99"
definition LETTER_D :: scalar where "LETTER_D = 100"

definition edited :: "input_box \<Rightarrow> buffer option \<Rightarrow> (action \<times> input_box) option" where
  "edited I r = map_option (\<lambda>b. (Noop, I\<lparr>ib_buffer := b\<rparr>)) r"

definition recalled :: "input_box \<Rightarrow> text_line option \<times> input_history \<Rightarrow> (action \<times> input_box) option" where
  "recalled I r =
     (let I1 = I\<lparr>ib_history := snd r\<rparr>
      in Some (Noop, case fst r of Some s \<Rightarrow> I1\<lparr>ib_buffer := buffer_from s\<rparr> | None \<Rightarrow> I1))"

definition input_key :: "key_event \<Rightarrow> input_box \<Rightarrow> (action \<times> input_box) option" where
  "input_key e I =
     (let b = ib_buffer I
      in if ke_code e = KChar LETTER_C \<and> ke_ctrl e then Some (Interrupt, I)
         else if ke_code e = KChar LETTER_D \<and> ke_ctrl e \<and> buffer_empty b then Some (Eof, I)
         else case ke_code e of
                KEnter \<Rightarrow>
                  if ke_shift e then edited I (buffer_newline b)
                  else Some (Submit (content b),
                         \<lparr>ib_buffer = buffer_new, ib_history = history_push (ib_history I) (content b)\<rparr>)
              | KUp \<Rightarrow>
                  if 1 < length (bf_lines b) \<and> 0 < bf_row b then edited I (Some (buffer_up b))
                  else recalled I (history_prev (ib_history I) (content b))
              | KDown \<Rightarrow>
                  if bf_row b + 1 < length (bf_lines b) then edited I (Some (buffer_down b))
                  else recalled I (history_next (ib_history I))
              | k \<Rightarrow> edited I (buffer_key k b))"

subsection \<open>Commands (command.rs)\<close>

datatype command = Reconnect | Compact | Help | Exit | Unknown text_line

definition ascii_text :: "string \<Rightarrow> text_line" where
  "ascii_text s = map of_char s"

definition command_of :: "text_line \<Rightarrow> command" where
  "command_of name =
     (if name = ascii_text ''reconnect'' then Reconnect
      else if name = ascii_text ''compact'' then Compact
      else if name = ascii_text ''help'' then Help
      else if name = ascii_text ''exit'' \<or> name = ascii_text ''quit'' then Exit
      else Unknown name)"

definition parse_line :: "text_line \<Rightarrow> command option" where
  "parse_line l =
     (case trim_text l of
        [] \<Rightarrow> None
      | c # name \<Rightarrow> if c = 0x2F then Some (command_of name) else None)"

subsection \<open>Byte offsets are characters\<close>

lemma utf8_width_pos [simp]: "0 < utf8_width c" "utf8_width c \<noteq> 0"
  by (simp_all add: utf8_width_def)

lemma byte_len_simps [simp]: "byte_len [] = 0" "byte_len (c # s) = utf8_width c + byte_len s"
  "byte_len (s @ t) = byte_len s + byte_len t"
  by (simp_all add: byte_len_def)

lemma split_bytes_append: "split_bytes (l @ r) (byte_len l) = Some (l, r)"
proof (induction l)
  case (Cons c l)
  obtain n where n: "utf8_width c + byte_len l = Suc n" by (metis add_is_0 not0_implies_Suc utf8_width_pos(2))
  moreover have "Suc n - utf8_width c = byte_len l" "utf8_width c \<le> Suc n" using n by simp_all
  ultimately show ?case using Cons by (simp del: Suc_diff_le)
qed simp

lemma split_byte_of [simp]: "split_bytes s (byte_of s n) = Some (take n s, drop n s)"
  using split_bytes_append [of "take n s" "drop n s"] by (simp add: byte_of_def)

lemma byte_of_mono: "m \<le> n \<Longrightarrow> byte_of s m \<le> byte_of s n"
proof -
  assume "m \<le> n"
  then have "take n s = take m s @ take (n - m) (drop m s)" by (metis le_add_diff_inverse take_add)
  then show ?thesis by (simp add: byte_of_def)
qed

lemma drain_byte_of: "m \<le> n \<Longrightarrow> drain_bytes s (byte_of s m) (byte_of s n) = Some (take m s @ drop n s)"
  using byte_of_mono [of m n s] by (simp add: drain_bytes_def)

lemma insert_byte_of [simp]: "insert_at_byte s (byte_of s n) c = Some (take n s @ c # drop n s)"
  by (simp add: insert_at_byte_def)

subsection \<open>A cursor between two strings\<close>

text \<open>
  The buffer that holds \<open>us\<close> above, the line \<open>l @ r\<close> with the cursor after \<open>l\<close>, and \<open>vs\<close> below; the
  text before the cursor and the text after it.
\<close>

definition buf :: "text_line list \<Rightarrow> text_line \<Rightarrow> text_line \<Rightarrow> text_line list \<Rightarrow> buffer" where
  "buf us l r vs = \<lparr>bf_lines = us @ (l @ r) # vs, bf_row = length us, bf_col = length l\<rparr>"

definition buffer_ok :: "buffer \<Rightarrow> bool" where
  "buffer_ok b \<longleftrightarrow> bf_row b < length (bf_lines b) \<and> bf_col b \<le> length (line_at b) \<and>
     list_all (\<lambda>l. newline_char \<notin> set l) (bf_lines b)"

definition around :: "buffer \<Rightarrow> text_line \<times> text_line" where
  "around b =
     (join_with [newline_char] (take (bf_row b) (bf_lines b) @ [take (bf_col b) (line_at b)]),
      join_with [newline_char] (drop (bf_col b) (line_at b) # drop (Suc (bf_row b)) (bf_lines b)))"

definition line_head :: "text_line \<Rightarrow> text_line" where
  "line_head a = rev (dropWhile (\<lambda>c. c \<noteq> newline_char) (rev a))"

definition line_tail :: "text_line \<Rightarrow> text_line" where
  "line_tail a = rev (takeWhile (\<lambda>c. c \<noteq> newline_char) (rev a))"

text \<open>What a key does to the two strings; None is the key the code is not written for.\<close>

fun edit_text :: "key_code \<Rightarrow> text_line \<times> text_line \<Rightarrow> (text_line \<times> text_line) option" where
  "edit_text KBackspace (a, z) = (if a = [] then None else Some (butlast a, z))"
| "edit_text KLeft (a, z) = Some (if a = [] then (a, z) else (butlast a, last a # z))"
| "edit_text KRight (a, z) = Some (case z of [] \<Rightarrow> (a, z) | c # z' \<Rightarrow> (a @ [c], z'))"
| "edit_text KHome (a, z) = Some (line_head a, line_tail a @ z)"
| "edit_text KEnd (a, z) =
     Some (a @ takeWhile (\<lambda>c. c \<noteq> newline_char) z, dropWhile (\<lambda>c. c \<noteq> newline_char) z)"
| "edit_text KDelete (a, z) = Some (case z of [] \<Rightarrow> (a, z) | c # z' \<Rightarrow> if c = newline_char then (a, z) else (a, z'))"
| "edit_text (KChar c) (a, z) = Some (a @ [c], z)"
| "edit_text KEnter (a, z) = Some (a @ [newline_char], z)"
| "edit_text k p = Some p"

definition press :: "key_code \<Rightarrow> buffer \<Rightarrow> buffer option" where
  "press k b = (if k = KEnter then buffer_newline b else buffer_key k b)"

lemma buffer_ok_buf:
  assumes "buffer_ok b"
  obtains us l r vs where "b = buf us l r vs"
proof -
  let ?us = "take (bf_row b) (bf_lines b)" and ?l = "take (bf_col b) (line_at b)"
    and ?r = "drop (bf_col b) (line_at b)" and ?vs = "drop (Suc (bf_row b)) (bf_lines b)"
  have "bf_lines b = ?us @ line_at b # ?vs"
    using assms by (simp add: buffer_ok_def line_at_def id_take_nth_drop)
  moreover have "line_at b = ?l @ ?r" by simp
  moreover have "length ?us = bf_row b" "length ?l = bf_col b" using assms by (simp_all add: buffer_ok_def)
  ultimately have "b = buf ?us ?l ?r ?vs" by (cases b) (simp add: buf_def)
  then show ?thesis by (rule that)
qed

lemma line_at_buf [simp]: "line_at (buf us l r vs) = l @ r"
  by (simp add: line_at_def buf_def)

lemma buf_sel [simp]: "bf_lines (buf us l r vs) = us @ (l @ r) # vs" "bf_row (buf us l r vs) = length us"
  "bf_col (buf us l r vs) = length l"
  by (simp_all add: buf_def)

lemma around_buf [simp]:
  "around (buf us l r vs) = (join_with [newline_char] (us @ [l]), join_with [newline_char] (r # vs))"
  by (simp add: around_def)

lemma buffer_ok_buf_iff [simp]:
  "buffer_ok (buf us l r vs) \<longleftrightarrow> list_all (\<lambda>l. newline_char \<notin> set l) (us @ l # r # vs)"
  by (auto simp: buffer_ok_def)


lemma press_char: "length l + 1 < USIZE \<Longrightarrow> press (KChar c) (buf us l r vs) = Some (buf us (l @ [c]) r vs)"
  by (simp add: buf_def line_at_def with_line_def press_def buffer_key_def Let_def wrap_succ_def)

lemma drain_last: "drain_bytes (l @ c # r) (byte_of (l @ c # r) (length l)) (byte_of (l @ c # r) (Suc (length l))) = Some (l @ r)"
  using drain_byte_of [of "length l" "Suc (length l)" "l @ c # r"] by simp

lemma press_backspace: "press KBackspace (buf us (l @ [c]) r vs) = Some (buf us l r vs)"
  by (simp add: buf_def line_at_def with_line_def press_def buffer_key_def Let_def wrap_pred_def drain_last)

lemma press_backspace_join: "press KBackspace (buf (us @ [u]) [] r vs) = Some (buf us u r vs)"
  by (simp add: buf_def line_at_def with_line_def press_def buffer_key_def Let_def join_up_def nth_append)

lemma press_left: "press KLeft (buf us (l @ [c]) r vs) = Some (buf us l (c # r) vs)"
  "press KLeft (buf (us @ [u]) [] r vs) = Some (buf us u [] (r # vs))"
  "press KLeft (buf [] [] r vs) = Some (buf [] [] r vs)"
  by (simp_all add: buf_def line_at_def with_line_def press_def buffer_key_def Let_def nth_append)

lemma press_right: "length l + 1 < USIZE \<Longrightarrow> press KRight (buf us l (c # r) vs) = Some (buf us (l @ [c]) r vs)"
  "press KRight (buf us l [] (v # vs)) = Some (buf (us @ [l]) [] v vs)"
  "press KRight (buf us l [] []) = Some (buf us l [] [])"
  by (simp_all add: buf_def line_at_def with_line_def press_def buffer_key_def Let_def wrap_succ_def)

lemma press_ends: "press KHome (buf us l r vs) = Some (buf us [] (l @ r) vs)"
  "press KEnd (buf us l r vs) = Some (buf us (l @ r) [] vs)"
  by (simp_all add: buf_def line_at_def with_line_def press_def buffer_key_def Let_def)

lemma press_delete: "press KDelete (buf us l (c # r) vs) = Some (buf us l r vs)"
  "press KDelete (buf us l [] vs) = Some (buf us l [] vs)"
  by (simp_all add: buf_def line_at_def with_line_def press_def buffer_key_def Let_def drain_last)

lemma press_enter: "press KEnter (buf us l r vs) = Some (buf (us @ [l]) [] r vs)"
  by (simp add: buf_def line_at_def with_line_def press_def buffer_newline_def)

lemma press_other: "press KUp b = Some b" "press KDown b = Some b" "press KOther b = Some b"
  by (simp_all add: press_def buffer_key_def)

lemma join_Cons: "vs \<noteq> [] \<Longrightarrow> join_with s (r # vs) = r @ s @ join_with s vs"
  by (cases vs) simp_all

lemma join_last_char: "join_with s (us @ [l @ [c]]) = join_with s (us @ [l]) @ [c]"
  by (cases "us = []") (simp_all add: join_snoc)

lemma join_hd_char: "join_with s ((c # r) # vs) = c # join_with s (r # vs)"
  by (cases vs) simp_all

lemma join_blank: "join_with [n] ((us @ [u]) @ [[]]) = join_with [n] (us @ [u]) @ [n]"
  by (subst join_snoc) simp_all

lemma while_separator:
  "n \<notin> set w \<Longrightarrow> takeWhile (\<lambda>c. c \<noteq> n) (w @ n # x) = w"
  "n \<notin> set w \<Longrightarrow> dropWhile (\<lambda>c. c \<noteq> n) (w @ n # x) = n # x"
  "n \<notin> set w \<Longrightarrow> takeWhile (\<lambda>c. c \<noteq> n) w = w"
  "n \<notin> set w \<Longrightarrow> dropWhile (\<lambda>c. c \<noteq> n) w = []"
  by (induction w) auto

lemma line_ends:
  assumes "newline_char \<notin> set l"
  shows "line_head (join_with [newline_char] (us @ [l])) = join_with [newline_char] (us @ [[]])"
    and "line_tail (join_with [newline_char] (us @ [l])) = l"
  using assms by (cases "us = []"; simp add: join_snoc line_head_def line_tail_def while_separator)+

lemma line_rest:
  assumes "newline_char \<notin> set r"
  shows "takeWhile (\<lambda>c. c \<noteq> newline_char) (join_with [newline_char] (r # vs)) = r"
    and "dropWhile (\<lambda>c. c \<noteq> newline_char) (join_with [newline_char] (r # vs)) = join_with [newline_char] ([] # vs)"
  using assms by (cases vs; simp add: while_separator)+

lemma join_append_line: "join_with s (us @ [l @ r]) = join_with s (us @ [l]) @ r"
  by (cases "us = []") (simp_all add: join_snoc)

lemma join_prepend_line: "join_with s ((l @ r) # vs) = l @ join_with s (r # vs)"
  by (cases vs) simp_all

lemma join_nonempty: "join_with [n] ((us @ [u]) @ [l]) \<noteq> []"
  by (subst join_snoc) simp_all

lemma press_edits:
  assumes ok: "buffer_ok b" and small: "list_all (\<lambda>l. length l + 1 < USIZE) (bf_lines b)"
    and plain: "k \<noteq> KChar newline_char" and e: "edit_text k (around b) = Some p"
  shows "\<exists>b'. press k b = Some b' \<and> buffer_ok b' \<and> around b' = p"
proof -
  obtain us l r vs where b: "b = buf us l r vs" using buffer_ok_buf [OF ok] by blast
  have nl: "newline_char \<notin> set l" "newline_char \<notin> set r" "list_all (\<lambda>l. newline_char \<notin> set l) us"
    "list_all (\<lambda>l. newline_char \<notin> set l) vs" using ok by (simp_all add: b)
  have s: "length l + 1 < USIZE" using small by (simp add: b)
  show ?thesis
  proof (cases k)
    case KBackspace
    show ?thesis
    proof (cases l rule: rev_cases)
      case (snoc l' c)
      then show ?thesis using e nl by (auto simp: b KBackspace press_backspace join_last_char split: if_splits)
    next
      case Nil
      then obtain us' u where "us = us' @ [u]" using e by (cases us rule: rev_cases) (auto simp: b KBackspace)
      then show ?thesis using e nl Nil join_blank [of newline_char us' u]
        by (auto simp: b KBackspace press_backspace_join split: if_splits)
    qed
  next
    case KLeft
    show ?thesis
    proof (cases l rule: rev_cases)
      case (snoc l' c)
      then show ?thesis using e nl by (auto simp: b KLeft press_left join_last_char join_hd_char split: if_splits)
    next
      case Nil
      show ?thesis
      proof (cases us rule: rev_cases)
        case (snoc us' u)
        then show ?thesis using e nl Nil join_blank [of newline_char us' u]
          by (auto simp: b KLeft press_left join_Cons split: if_splits)
      qed (use e nl Nil in \<open>auto simp: b KLeft press_left\<close>)
    qed
  next
    case KRight
    show ?thesis
    proof (cases r)
      case (Cons c r')
      then show ?thesis using e nl s by (auto simp: b KRight press_right join_last_char join_hd_char)
    next
      case Nil
      show ?thesis
      proof (cases vs)
        case (Cons v vs')
        then show ?thesis using e nl Nil join_blank [of newline_char us l] by (auto simp: b KRight press_right)
      qed (use e nl Nil in \<open>auto simp: b KRight press_right\<close>)
    qed
  next
    case KDelete
    show ?thesis
    proof (cases r)
      case (Cons c r')
      then show ?thesis using e nl by (auto simp: b KDelete press_delete join_hd_char)
    next
      case Nil
      then show ?thesis using e nl by (cases vs) (auto simp: b KDelete press_delete)
    qed
  next
    case (KChar c)
    then show ?thesis using e nl plain s by (auto simp: b press_char join_last_char)
  next
    case KEnter
    then show ?thesis using e nl join_blank [of newline_char us l] by (auto simp: b press_enter)
  next
    case KHome
    then show ?thesis using e nl by (auto simp: b press_ends line_ends join_prepend_line)
  next
    case KEnd
    then show ?thesis using e nl by (auto simp: b press_ends line_rest join_append_line)
  qed (use e nl ok in \<open>auto simp: b press_other\<close>)
qed

subsection \<open>What is typed is what is submitted\<close>

fun edit_texts :: "key_code list \<Rightarrow> text_line \<times> text_line \<Rightarrow> (text_line \<times> text_line) option" where
  "edit_texts [] p = Some p"
| "edit_texts (k # ks) p = Option.bind (edit_text k p) (edit_texts ks)"

fun input_keys :: "key_event list \<Rightarrow> input_box \<Rightarrow> (action list \<times> input_box) option" where
  "input_keys [] I = Some ([], I)"
| "input_keys (e # es) I =
     Option.bind (input_key e I) (\<lambda>(a, I1). map_option (\<lambda>(as, I2). (a # as, I2)) (input_keys es I1))"

text \<open>
  Keys that type: not Control-C and Control-D, which interrupt and close, not Enter without Shift, which
  submits, and not Up and Down, which move by columns and recall at the ends of the text. A
  terminal never sends a line break as a character.
\<close>

definition typing :: "key_event \<Rightarrow> bool" where
  "typing e \<longleftrightarrow> \<not> (ke_ctrl e \<and> ke_code e \<in> {KChar LETTER_C, KChar LETTER_D}) \<and>
     ke_code e \<notin> {KUp, KDown, KChar newline_char} \<and> (ke_code e = KEnter \<longrightarrow> ke_shift e)"

definition enter :: key_event where
  "enter = \<lparr>ke_code = KEnter, ke_ctrl = False, ke_shift = False\<rparr>"

lemma input_key_press: "typing e \<Longrightarrow> input_key e I = edited I (press (ke_code e) (ib_buffer I))"
  by (cases "ke_code e") (auto simp: typing_def input_key_def press_def Let_def)

lemma content_around: "buffer_ok b \<Longrightarrow> content b = fst (around b) @ snd (around b)"
proof -
  assume ok: "buffer_ok b"
  obtain us l r vs where b: "b = buf us l r vs" using buffer_ok_buf [OF ok] by blast
  have "join_with [newline_char] (us @ (l @ r) # vs) = join_with [newline_char] (us @ [l]) @ join_with [newline_char] (r # vs)"
    by (induction us) (simp_all add: join_prepend_line join_Cons)
  then show ?thesis by (simp add: b content_def)
qed

lemma line_in_join: "l \<in> set ls \<Longrightarrow> length l \<le> length (join_with s ls)"
proof (induction ls)
  case (Cons a ls)
  then show ?case by (cases "ls = []") (auto simp: join_Cons)
qed simp

lemma edit_text_length: "edit_text k p = Some q \<Longrightarrow> length (fst q @ snd q) \<le> length (fst p @ snd p) + 1"
proof (cases p)
  case (Pair a z)
  have "length (line_head a) + length (line_tail a) = length a"
    unfolding line_head_def line_tail_def
    by (metis add.commute length_append length_rev takeWhile_dropWhile_id)
  moreover have "length (takeWhile (\<lambda>c. c \<noteq> newline_char) z) + length (dropWhile (\<lambda>c. c \<noteq> newline_char) z) = length z"
    by (metis length_append takeWhile_dropWhile_id)
  moreover assume "edit_text k p = Some q"
  ultimately show ?thesis
    by (cases k) (auto simp: Pair split: if_splits list.splits)
qed

lemma typing_run:
  assumes "buffer_ok (ib_buffer I)" and "list_all typing es" and "edit_texts (map ke_code es) (around (ib_buffer I)) = Some p"
    and "length (content (ib_buffer I)) + length es + 1 < USIZE"
  shows "\<exists>b. input_keys es I = Some (replicate (length es) Noop, I\<lparr>ib_buffer := b\<rparr>) \<and> buffer_ok b \<and> around b = p"
  using assms
proof (induction es arbitrary: I)
  case Nil
  then show ?case by (intro exI [of _ "ib_buffer I"]) simp
next
  case (Cons e es)
  obtain q where q: "edit_text (ke_code e) (around (ib_buffer I)) = Some q" "edit_texts (map ke_code es) q = Some p"
    using Cons.prems(3) by (auto simp: bind_eq_Some_conv)
  have small: "list_all (\<lambda>l. length l + 1 < USIZE) (bf_lines (ib_buffer I))"
    using line_in_join [of _ "bf_lines (ib_buffer I)" "[newline_char]"] Cons.prems(4)
    by (force simp: list_all_iff content_def)
  have "typing e" using Cons.prems(2) by simp
  then have "ke_code e \<noteq> KChar newline_char" by (simp add: typing_def)
  then obtain b where b: "press (ke_code e) (ib_buffer I) = Some b" "buffer_ok b" "around b = q"
    using press_edits [OF Cons.prems(1) small _ q(1)] by blast
  have "length (content b) \<le> length (content (ib_buffer I)) + 1"
    using edit_text_length [OF q(1)] b(2,3) Cons.prems(1) by (simp add: content_around)
  then have "\<exists>b'. input_keys es (I\<lparr>ib_buffer := b\<rparr>) = Some (replicate (length es) Noop, I\<lparr>ib_buffer := b\<rparr>\<lparr>ib_buffer := b'\<rparr>) \<and>
      buffer_ok b' \<and> around b' = p"
    using Cons.prems(2,4) b q(2) by (intro Cons.IH) auto
  then show ?case using b(1) \<open>typing e\<close> by (auto simp: input_key_press edited_def)
qed

text \<open>
  C31: Whatever is typed into the box, with movements left, right and to the ends of a line, deletions,
  line breaks and joined lines, Enter submits exactly the text an editor with one cursor in one
  string has after the same keys, the columns counted in characters of any width. Left out are the
  keys up and down, Control-C and Control-D, and Backspace at the very start, for which that editor is
  undefined; the length of the text stays below the machine's bound.
\<close>

theorem typed_is_submitted:
  assumes "buffer_ok (ib_buffer I)" and "list_all typing es"
    and "edit_texts (map ke_code es) (around (ib_buffer I)) = Some (a, z)"
    and "length (content (ib_buffer I)) + length es + 1 < USIZE"
  shows "\<exists>I'. input_keys (es @ [enter]) I = Some (replicate (length es) Noop @ [Submit (a @ z)], I') \<and>
    ib_buffer I' = buffer_new \<and> ib_history I' = history_push (ib_history I) (a @ z)"
proof -
  obtain b where b: "input_keys es I = Some (replicate (length es) Noop, I\<lparr>ib_buffer := b\<rparr>)" "buffer_ok b" "around b = (a, z)"
    using typing_run [OF assms] by blast
  have app: "input_keys (xs @ ys) J = Option.bind (input_keys xs J) (\<lambda>(as, J1). map_option (\<lambda>(bs, J2). (as @ bs, J2)) (input_keys ys J1))"
    for xs ys J
  proof (induction xs arbitrary: J)
    case Nil
    then show ?case by (cases "input_keys ys J") auto
  next
    case (Cons x xs)
    then show ?case by (cases "input_key x J") (auto simp: option.map_comp comp_def case_prod_beta split: bind_split)
  qed
  have "content b = a @ z" using content_around [OF b(2)] b(3) by simp
  then show ?thesis by (simp add: app b(1) enter_def input_key_def Let_def)
qed

text \<open>
  Backspace at the very start: with text in the first line the drain's bounds are the wrong way
  round and the client aborts; on an empty line the column wraps, and what is typed next comes
  out in the wrong order.
\<close>

lemma backspace_at_start_aborts: "buffer_key KBackspace (buf [] [] (c # r) vs) = None"
proof -
  have "byte_of (c # r) (USIZE - 1) \<ge> byte_of (c # r) 1" by (rule byte_of_mono) (simp add: USIZE_def)
  then have "0 < byte_of (c # r) (USIZE - 1)" by (rule less_le_trans [rotated]) (simp add: byte_of_def)
  then have "drain_bytes (c # r) (byte_of (c # r) (USIZE - 1)) (byte_of (c # r) 0) = None"
    by (auto simp: drain_bytes_def byte_of_def dest: less_le_trans)
  then show ?thesis by (simp add: buffer_key_def wrap_pred_def)
qed

lemma backspace_on_empty_reorders:
  "map_option content (Option.bind (Option.bind (buffer_key KBackspace buffer_new) (buffer_key (KChar a))) (buffer_key (KChar b))) =
     Some [b, a]"
  by (simp add: buffer_new_def buffer_key_def wrap_pred_def wrap_succ_def line_at_def with_line_def content_def
      drain_bytes_def byte_of_def insert_at_byte_def USIZE_def)

subsection \<open>History\<close>

definition plain_entry :: "text_line \<Rightarrow> bool" where
  "plain_entry l \<longleftrightarrow> newline_char \<notin> set l \<and> (l = [] \<or> last l \<noteq> return_char)"

lemma split_join_lines:
  "ls \<noteq> [] \<Longrightarrow> list_all (\<lambda>l. newline_char \<notin> set l) ls \<Longrightarrow>
     split_when (\<lambda>c. c = newline_char) (join_with [newline_char] ls) = ls"
proof (induction ls)
  case (Cons l ls)
  show ?case
  proof (cases "ls = []")
    case True
    then show ?thesis using Cons.prems by (auto intro!: split_when_none)
  next
    case False
    have "split_when (\<lambda>c. c = newline_char) (l @ newline_char # join_with [newline_char] ls) =
        l # split_when (\<lambda>c. c = newline_char) (join_with [newline_char] ls)"
      using Cons.prems by (intro split_when_append) auto
    then show ?thesis using Cons False by (simp add: join_Cons)
  qed
qed simp

lemma text_lines_join:
  assumes "ls \<noteq> []" and "list_all plain_entry ls"
  shows "text_lines (join_with [newline_char] ls) = (if last ls = [] then butlast ls else ls)"
proof -
  have s: "split_when (\<lambda>c. c = newline_char) (join_with [newline_char] ls) = ls"
    using assms by (intro split_join_lines) (auto simp: list_all_iff plain_entry_def)
  have "map strip_return (butlast ls) = butlast ls"
    using assms(2) by (intro map_idI) (auto simp: strip_return_def plain_entry_def list_all_iff dest: in_set_butlastD)
  then show ?thesis using assms(1) by (simp add: text_lines_def s Let_def)
qed

text \<open>
  What the history file keeps: entries of one line come back as they were, in their order, with the
  cursor past the last.
\<close>

theorem history_reloads:
  assumes "list_all (\<lambda>l. l \<noteq> [] \<and> plain_entry l) (ih_entries h)"
  shows "history_load (Some (history_save h)) =
    \<lparr>ih_entries = ih_entries h, ih_cursor = length (ih_entries h), ih_stash = []\<rparr>"
proof (cases "ih_entries h = []")
  case True
  then show ?thesis by (simp add: history_load_def history_save_def text_lines_def)
next
  case False
  have "list_all plain_entry (ih_entries h)" "last (ih_entries h) \<noteq> []"
    using assms False by (auto simp: list_all_iff)
  then have "text_lines (history_save h) = ih_entries h"
    using text_lines_join [OF False] by (simp add: history_save_def)
  moreover have "filter (\<lambda>l. l \<noteq> []) (ih_entries h) = ih_entries h"
    using assms by (intro filter_True) (auto simp: list_all_iff)
  ultimately show ?thesis by (simp add: history_load_def Let_def)
qed

text \<open>An entry of two lines, which Shift and Enter make, comes back as two entries.\<close>

lemma history_splits_entries:
  "ih_entries (history_load (Some (history_save (history_push (history_load None) [97, newline_char, 98])))) = [[97], [98]]"
  by code_simp

text \<open>Going up from a text and down again gives it back, unless it ends in an empty line.\<close>

lemma recall_gives_back:
  assumes "buffer_ok b" and "list_all plain_entry (bf_lines b)" and "last (bf_lines b) \<noteq> [] \<or> bf_lines b = [[]]"
    and "ih_cursor h = length (ih_entries h)" and "ih_entries h \<noteq> []"
  shows "\<exists>h1 h2 e. history_prev h (content b) = (Some e, h1) \<and> history_next h1 = (Some (content b), h2) \<and>
    bf_lines (buffer_from (content b)) = bf_lines b"
proof -
  have ne: "bf_lines b \<noteq> []" using assms(1) by (auto simp: buffer_ok_def)
  have "bf_lines (buffer_from (content b)) = bf_lines b"
  proof (cases "bf_lines b = [[]]")
    case False
    then have "last (bf_lines b) \<noteq> []" using assms(3) by blast
    moreover from this have "content b \<noteq> []"
      using line_in_join [of "last (bf_lines b)" "bf_lines b" "[newline_char]"] ne by (auto simp: content_def)
    ultimately show ?thesis using text_lines_join [OF ne assms(2)] by (simp add: buffer_from_def content_def Let_def)
  qed (simp add: buffer_from_def content_def Let_def)
  moreover have "\<not> length (ih_entries h) \<le> length (ih_entries h) - 1" "0 < length (ih_entries h)"
    using assms(5) by (cases "ih_entries h"; simp)+
  ultimately show ?thesis
    using assms(4) by (auto simp: history_prev_def history_next_def Let_def)
qed

lemma recall_drops_last_line: "content (buffer_from [97, newline_char]) = [97]"
  by code_simp

subsection \<open>Witnesses\<close>

definition sample_box :: input_box where
  "sample_box = \<lparr>ib_buffer = buffer_new, ib_history = history_load None\<rparr>"

definition sample_keys :: "key_event list" where
  "sample_keys = map (\<lambda>k. \<lparr>ke_code = k, ke_ctrl = False, ke_shift = (k = KEnter)\<rparr>)
     [KChar 97, KChar 0x1F980, KChar 98, KLeft, KBackspace, KEnter, KHome, KChar 99]"

theorem typed_is_submitted_witness:
  "\<exists>I'. input_keys (sample_keys @ [enter]) sample_box = Some (replicate 8 Noop @ [Submit [97, newline_char, 99, 98]], I')"
proof -
  have ok: "buffer_ok (ib_buffer sample_box)" by (simp add: sample_box_def buffer_new_def buffer_ok_def line_at_def)
  have t: "list_all typing sample_keys" by code_simp
  have e: "edit_texts (map ke_code sample_keys) (around (ib_buffer sample_box)) = Some ([97, newline_char, 99], [98])" by code_simp
  have l: "length sample_keys = 8" by (simp add: sample_keys_def)
  have c: "length (content (ib_buffer sample_box)) + length sample_keys + 1 < USIZE"
    by (simp add: l sample_box_def buffer_new_def content_def USIZE_def)
  show ?thesis using typed_is_submitted [OF ok t e c] unfolding l by auto
qed

theorem history_reloads_witness:
  "ih_entries (history_load (Some (history_save \<lparr>ih_entries = [[97], [0x1F980, 98]], ih_cursor = 0, ih_stash = []\<rparr>))) =
     [[97], [0x1F980, 98]]"
proof -
  have "list_all (\<lambda>l. l \<noteq> [] \<and> plain_entry l) [[97], [0x1F980, 98]]" by code_simp
  then show ?thesis using history_reloads [of "\<lparr>ih_entries = [[97], [0x1F980, 98]], ih_cursor = 0, ih_stash = []\<rparr>"] by simp
qed

end
