(* ===== verification/CodeTranscript.thy ===== *)
theory CodeTranscript
  imports SkillFormat ProtoWire
begin

section \<open>The transcript of the terminal client (apps/code/src/tui: stream.rs, item.rs, replay.rs, mod.rs)\<close>

text \<open>
  Chunks of a turn come in, items go out: a line is held until its newline, a fenced block until it
  closes, a round of tools until it is done, and what is settled is written to the terminal's
  scrollback once. JSON and the camel casing of a tool's name are packages; drawing an item is the
  terminal's business and left out, except for the lines of a tool's result. Slicing text between
  the bytes of a character is a panic, the value None.
  The lemmas show that what was handed to the scrollback is never changed, that a text may be cut
  into chunks anywhere, what a turn leaves unsettled, and what is lost of an open block.
\<close>

subsection \<open>Items (item.rs)\<close>

datatype tool_status = Running | Success | Failure

datatype item =
    ItText bytes bool
  | ItPrompt bytes
  | ItBorder bytes
  | ItCode bytes
  | ItTable bytes
  | ItTool "bytes list" tool_status
  | ItResult bytes bool
  | ItThinking bytes
  | ItError bytes
  | ItBlank

fun item_settled :: "item \<Rightarrow> bool" where
  "item_settled (ItTool labels status) \<longleftrightarrow> status \<noteq> Running"
| "item_settled _ \<longleftrightarrow> True"

record tui_env =
  te_json :: "bytes \<Rightarrow> json option"
  te_i64 :: "bytes \<Rightarrow> int option"
  te_camel :: "bytes \<Rightarrow> bytes"
  te_unicode :: unicode

definition json_field :: "bytes \<Rightarrow> json \<Rightarrow> json option" where
  "json_field k v = (case v of JObject fs \<Rightarrow> map_of fs k | _ \<Rightarrow> None)"

definition json_i64 :: "tui_env \<Rightarrow> json \<Rightarrow> int option" where
  "json_i64 E v = (case v of JNumber n \<Rightarrow> te_i64 E n | _ \<Rightarrow> None)"

definition json_str :: "json \<Rightarrow> bytes option" where
  "json_str v = (case v of JString s \<Rightarrow> Some s | _ \<Rightarrow> None)"

definition exit_code :: "tui_env \<Rightarrow> json \<Rightarrow> int option" where
  "exit_code E v = Option.bind (json_field ''exit_code'' v) (json_i64 E)"

definition item_failed :: "tui_env \<Rightarrow> bytes \<Rightarrow> bool" where
  "item_failed E output =
     (case Option.bind (te_json E output) (exit_code E) of
        Some code \<Rightarrow> code \<noteq> 0
      | None \<Rightarrow> list_ex (\<lambda>p. prefix p output) [''bash failed:'', ''tool not available:'', ''invalid arguments:''])"

definition dots :: bytes where "dots = ''...''"

definition tool_label :: "tui_env \<Rightarrow> bytes \<Rightarrow> bytes \<Rightarrow> nat \<Rightarrow> bytes option" where
  "tool_label E name args width =
     (let pascal = te_camel E name
      in if name \<noteq> ''bash'' then Some pascal
         else case Option.bind (te_json E args) (\<lambda>v. Option.bind (json_field ''command'' v) json_str) of
                None \<Rightarrow> Some pascal
              | Some command \<Rightarrow>
                  let line = (case str_lines command of l # _ \<Rightarrow> l | [] \<Rightarrow> command);
                      bound = width - 8
                  in map_option (\<lambda>shown. ''Bash('' @ shown @ '')'')
                       (if bound < length line then map_option (\<lambda>s. s @ dots) (slice_to line bound)
                        else if length line < length command then Some (line @ dots)
                        else Some line))"

definition RESULT_LINES_OK :: nat where "RESULT_LINES_OK = 5"
definition RESULT_LINES_FAILED :: nat where "RESULT_LINES_FAILED = 10"

definition result_text :: "tui_env \<Rightarrow> bytes \<Rightarrow> bytes" where
  "result_text E output =
     (case te_json E output of
        None \<Rightarrow> output
      | Some v \<Rightarrow>
          let field = (\<lambda>name. case Option.bind (json_field name v) json_str of Some s \<Rightarrow> s | None \<Rightarrow> []);
              stdout = field ''stdout''; stderr = field ''stderr''; code = exit_code E v
          in if code \<in> {Some 0, None} \<and> stdout \<noteq> [] then stdout
             else if code \<noteq> None \<and> stderr \<noteq> [] then stderr
             else if stdout = [] then stderr else stdout)"

definition elide :: "tui_env \<Rightarrow> bytes \<Rightarrow> nat \<Rightarrow> bytes list \<times> nat" where
  "elide E output bound =
     (let all = filter (\<lambda>l. l \<noteq> []) (str_lines (result_text E output)) in (take bound all, length all))"

definition PAD :: bytes where "PAD = ''  ''"

text \<open>The marks of a result and of what is left out, in UTF-8; a line is its spans' texts joined.\<close>

definition corner :: bytes where "corner = [CHR 0xE2, CHR 0x8E, CHR 0xBF, CHR 0x20]"
definition more_mark :: bytes where "more_mark = [CHR 0xE2, CHR 0x80, CHR 0xA6, CHR 0x20, CHR 0x2B]"

definition fit_line :: "bytes \<Rightarrow> nat \<Rightarrow> bytes option" where
  "fit_line l room = (if room < length l then map_option (\<lambda>s. s @ dots) (slice_to l (room - 3)) else Some l)"

fun fit_lines :: "bytes list \<Rightarrow> nat \<Rightarrow> nat \<Rightarrow> bytes list option" where
  "fit_lines [] at_row room = Some []"
| "fit_lines (l # ls) at_row room =
     Option.bind (fit_line l room) (\<lambda>t.
       map_option (\<lambda>ts. (if at_row = 0 then PAD @ corner @ t else PAD @ PAD @ t) # ts) (fit_lines ls (at_row + 1) room))"

definition result_lines :: "tui_env \<Rightarrow> bytes \<Rightarrow> bool \<Rightarrow> nat \<Rightarrow> bytes list option" where
  "result_lines E output failed width =
     (let (shown, total) = elide E output (if failed then RESULT_LINES_FAILED else RESULT_LINES_OK);
          room = width - (length PAD + 2)
      in if shown = [] then Some [PAD @ corner @ ''(no output)'']
         else map_option (\<lambda>ls. ls @
                (if length shown < total then [PAD @ PAD @ more_mark @ show_nat (total - length shown) @ '' lines''] else []))
              (fit_lines shown 0 room))"

subsection \<open>The transcript (stream.rs)\<close>

datatype line_state = Normal | Code bytes | Table bytes | InThinking

record transcript =
  tr_items :: "item list"
  tr_waiting :: bool
  tr_committed :: nat
  tr_line :: bytes
  tr_state :: line_state
  tr_marker :: bool
  tr_started :: bool
  tr_after_tool :: bool
  tr_thinking :: bytes
  tr_tool_failed :: bool
  tr_width :: nat

definition transcript_new :: "nat \<Rightarrow> transcript" where
  "transcript_new width =
     \<lparr>tr_items = [], tr_waiting = False, tr_committed = 0, tr_line = [], tr_state = Normal, tr_marker = False,
      tr_started = False, tr_after_tool = False, tr_thinking = [], tr_tool_failed = False, tr_width = width\<rparr>"

definition push_item :: "item \<Rightarrow> transcript \<Rightarrow> transcript" where
  "push_item x T = T\<lparr>tr_items := tr_items T @ [x]\<rparr>"

text \<open>What became final since the last call, and the transcript that has handed it over.\<close>

definition settled :: "transcript \<Rightarrow> item list \<times> transcript" where
  "settled T =
     (let new = takeWhile item_settled (drop (tr_committed T) (tr_items T))
      in (new, T\<lparr>tr_committed := tr_committed T + length new\<rparr>))"

definition live_items :: "transcript \<Rightarrow> item list" where
  "live_items T = drop (tr_committed T) (tr_items T)"

definition start_turn :: "transcript \<Rightarrow> transcript" where
  "start_turn T = T\<lparr>tr_waiting := True, tr_started := False, tr_marker := False, tr_after_tool := False, tr_tool_failed := False\<rparr>"

definition fence :: bytes where "fence = ''```''"

definition border_open :: bytes where
  "border_open = [CHR 0xE2, CHR 0x94, CHR 0x8C]"
definition border_dash :: bytes where
  "border_dash = [CHR 0xE2, CHR 0x94, CHR 0x80]"

definition open_code :: "bytes \<Rightarrow> transcript \<Rightarrow> transcript" where
  "open_code lang T =
     (push_item (ItBorder (if lang = [] then border_open @ border_dash else border_open @ '' '' @ lang @ '' '' @ border_dash)) T)
       \<lparr>tr_marker := False, tr_state := Code []\<rparr>"

definition flush_table :: "transcript \<Rightarrow> transcript" where
  "flush_table T = (case tr_state T of Table rows \<Rightarrow> push_item (ItTable rows) T | _ \<Rightarrow> T)\<lparr>tr_state := Normal\<rparr>"

definition plain_line :: "tui_env \<Rightarrow> bytes \<Rightarrow> transcript \<Rightarrow> transcript" where
  "plain_line E l T =
     (if prefix fence l then open_code (trim (te_unicode E) (drop (length fence) l)) T
      else if prefix ''|'' l then T\<lparr>tr_state := Table (l @ newline)\<rparr>
      else if l = [] then push_item ItBlank T
      else push_item (ItText l (tr_marker T)) T)"

definition push_line :: "tui_env \<Rightarrow> bytes \<Rightarrow> transcript \<Rightarrow> transcript" where
  "push_line E l T =
     (case tr_state T of
        Code code \<Rightarrow>
          if prefix fence l then (push_item (ItCode code) T)\<lparr>tr_state := Normal\<rparr>
          else T\<lparr>tr_state := Code (code @ l @ newline)\<rparr>
      | Table rows \<Rightarrow>
          if prefix ''|'' l then T\<lparr>tr_state := Table (rows @ l @ newline)\<rparr>
          else plain_line E l (flush_table T)
      | _ \<Rightarrow> plain_line E l T)"

definition flush_line :: "transcript \<Rightarrow> transcript" where
  "flush_line T =
     (if tr_line T = [] then T
      else (case tr_state T of
              Code code \<Rightarrow> (push_item (ItCode (code @ tr_line T)) T)\<lparr>tr_state := Normal\<rparr>
            | _ \<Rightarrow> push_item (ItText (tr_line T) (tr_marker T)) T)\<lparr>tr_line := [], tr_marker := False\<rparr>)"

definition flush_thinking :: "transcript \<Rightarrow> transcript" where
  "flush_thinking T =
     (let T1 = (if tr_thinking T \<noteq> [] then (push_item (ItThinking (tr_thinking T)) T)\<lparr>tr_thinking := []\<rparr> else T)
      in if tr_state T1 = InThinking then T1\<lparr>tr_state := Normal\<rparr> else T1)"

definition push_char :: "tui_env \<Rightarrow> byte \<Rightarrow> transcript \<Rightarrow> transcript" where
  "push_char E c T =
     (if c \<noteq> CHR 0x0A then T\<lparr>tr_line := tr_line T @ [c]\<rparr>
      else let l = tr_line T; T1 = push_line E l (T\<lparr>tr_line := []\<rparr>)
           in if l \<noteq> [] then T1\<lparr>tr_marker := False\<rparr> else T1)"

definition open_text :: "transcript \<Rightarrow> transcript" where
  "open_text T =
     (let T1 = T\<lparr>tr_waiting := False\<rparr>;
          T2 = (if tr_state T1 = InThinking then flush_thinking T1 else T1);
          T3 = (if \<not> tr_started T2 then T2\<lparr>tr_started := True, tr_marker := True\<rparr> else T2)
      in if tr_after_tool T3 then T3\<lparr>tr_after_tool := False, tr_marker := True\<rparr> else T3)"

definition push_text :: "tui_env \<Rightarrow> bytes \<Rightarrow> transcript \<Rightarrow> transcript" where
  "push_text E chunk T = (if chunk = [] then T else fold (push_char E) chunk (open_text T))"

definition push_thinking :: "bytes \<Rightarrow> transcript \<Rightarrow> transcript" where
  "push_thinking chunk T =
     (if chunk = [] then T
      else T\<lparr>tr_waiting := False, tr_state := InThinking, tr_thinking := tr_thinking T @ chunk\<rparr>)"

fun labels_of :: "tui_env \<Rightarrow> nat \<Rightarrow> (bytes \<times> bytes) list \<Rightarrow> bytes list option" where
  "labels_of E width [] = Some []"
| "labels_of E width ((name, args) # calls) =
     Option.bind (tool_label E name args width) (\<lambda>l. map_option (\<lambda>ls. l # ls) (labels_of E width calls))"

definition push_tool_start :: "tui_env \<Rightarrow> (bytes \<times> bytes) list \<Rightarrow> transcript \<Rightarrow> transcript option" where
  "push_tool_start E calls T =
     (let T1 = (flush_line (flush_thinking T))\<lparr>tr_waiting := False, tr_tool_failed := False\<rparr>
      in map_option (\<lambda>ls. push_item (ItTool ls Running) (push_item ItBlank T1)) (labels_of E (tr_width T) calls))"

definition push_tool_result :: "tui_env \<Rightarrow> bytes \<Rightarrow> transcript \<Rightarrow> transcript" where
  "push_tool_result E output T =
     (let failed = item_failed E output
      in push_item ItBlank (push_item (ItResult output failed) (T\<lparr>tr_tool_failed := (tr_tool_failed T \<or> failed)\<rparr>)))"

text \<open>The last running tool, looked for from the end.\<close>

fun settle_first :: "tool_status \<Rightarrow> item list \<Rightarrow> item list" where
  "settle_first status [] = []"
| "settle_first status (ItTool ls Running # xs) = ItTool ls status # xs"
| "settle_first status (x # xs) = x # settle_first status xs"

definition push_tool_done :: "transcript \<Rightarrow> transcript" where
  "push_tool_done T =
     T\<lparr>tr_items := rev (settle_first (if tr_tool_failed T then Failure else Success) (rev (tr_items T))),
       tr_after_tool := True\<rparr>"

definition finish :: "transcript \<Rightarrow> transcript" where
  "finish T = (flush_line (flush_thinking (push_tool_done T)))\<lparr>tr_waiting := False, tr_after_tool := False\<rparr>"

subsection \<open>A stored session (replay.rs)\<close>

fun settle_tool :: "tool_status \<Rightarrow> item list \<Rightarrow> item list" where
  "settle_tool status [] = []"
| "settle_tool status (ItTool ls held # xs) = ItTool ls status # xs"
| "settle_tool status (x # xs) = x # settle_tool status xs"

definition replay_labels :: "tui_env \<Rightarrow> wire \<Rightarrow> history_entry \<Rightarrow> bytes list option" where
  "replay_labels E W e = labels_of E 80 (map (\<lambda>c. (tc_name c, tc_arguments c)) (entry_tool_calls W e))"

definition replay_entry :: "tui_env \<Rightarrow> wire \<Rightarrow> history_entry \<Rightarrow> item list \<Rightarrow> item list option" where
  "replay_entry E W e out =
     (if entry_tool_call_id W e \<noteq> [] then
        let output = entry_text W e; failed = item_failed E output;
            out1 = (if failed then rev (settle_tool Failure (rev out)) else out)
        in Some (out1 @ [ItResult output failed, ItBlank])
      else case entry_role e of
             RoleSystem \<Rightarrow> Some out
           | RoleUser \<Rightarrow>
               if entry_text W e = [] then Some out
               else Some (out @ [ItPrompt (entry_text W e), ItBlank])
           | RoleAssistant \<Rightarrow>
               map_option (\<lambda>labels.
                 (out @ (if entry_text W e \<noteq> [] then [ItText (entry_text W e) True] else []) @
                  (if labels \<noteq> [] then [ItBlank, ItTool labels Success] else [])))
                 (replay_labels E W e))"

fun replay_items :: "tui_env \<Rightarrow> wire \<Rightarrow> history_entry list \<Rightarrow> item list \<Rightarrow> item list option" where
  "replay_items E W [] out = Some out"
| "replay_items E W (e # es) out = Option.bind (replay_entry E W e out) (replay_items E W es)"

subsection \<open>The loop's state (mod.rs)\<close>

record app =
  ap_transcript :: transcript
  ap_turn :: bool
  ap_tokens :: "nat option"
  ap_compact_due :: bool

definition app_push :: "item list \<Rightarrow> app \<Rightarrow> app" where
  "app_push xs A = A\<lparr>ap_transcript := fold push_item xs (ap_transcript A)\<rparr>"

definition app_fail :: "bytes \<Rightarrow> app \<Rightarrow> app" where
  "app_fail e A = (app_push [ItError e, ItBlank] (A\<lparr>ap_transcript := finish (ap_transcript A)\<rparr>))\<lparr>ap_turn := False\<rparr>"

text \<open>A submitted message; a line that is a command is \<open>CodeInput\<close>'s.\<close>

definition app_submit :: "bytes \<Rightarrow> app \<Rightarrow> app" where
  "app_submit l A =
     (let A1 = app_push [ItPrompt l, ItBlank] A
      in A1\<lparr>ap_transcript := start_turn (ap_transcript A1), ap_turn := True\<rparr>)"

text \<open>\<open>over\<close>: whether a call of so many tokens no longer fits the model's window.\<close>

definition app_chunk :: "tui_env \<Rightarrow> (nat \<Rightarrow> bool) \<Rightarrow> stream_item \<Rightarrow> app \<Rightarrow> app option" where
  "app_chunk E over ev A =
     (let T = ap_transcript A; to = (\<lambda>T. Some (A\<lparr>ap_transcript := T\<rparr>))
      in case ev of
           SEvent (WChunk t) \<Rightarrow> to (push_text E t T)
         | SEvent (WThinking t) \<Rightarrow> to (push_thinking t T)
         | SEvent (WToolStart calls) \<Rightarrow> Option.bind (push_tool_start E calls T) to
         | SEvent (WContextUsage u) \<Rightarrow> Some (A\<lparr>ap_tokens := Some (unat (tu_prompt u))\<rparr>)
         | SEvent (WToolResult i output ms ok) \<Rightarrow> to (push_tool_result E output T)
         | SEvent WToolsComplete \<Rightarrow> to (push_tool_done T)
         | SEvent (WEnd a err model u) \<Rightarrow>
             if err \<noteq> [] then Some (app_fail err A)
             else Some (A\<lparr>ap_transcript := finish T, ap_turn := False,
                          ap_compact_due := (case ap_tokens A of Some n \<Rightarrow> over n | None \<Rightarrow> False)\<rparr>)
         | _ \<Rightarrow> Some A)"

definition em_dash :: bytes where "em_dash = [CHR 0xE2, CHR 0x80, CHR 0x94]"

text \<open>The summary is a round trip: its answer is the argument.\<close>

definition app_compact :: "bool \<Rightarrow> bytes + bytes \<Rightarrow> app \<Rightarrow> app" where
  "app_compact automatic answer A =
     (let A1 = A\<lparr>ap_turn := False, ap_transcript := finish (ap_transcript A)\<rparr>;
          A2 = (if automatic then app_push [ItText (''*the next turn would not fit '' @ em_dash @ '' summarizing*'') False] A1 else A1);
          A3 = (case answer of
                  Inr summary \<Rightarrow>
                    (app_push [ItText summary True, ItBlank, ItText ''*the conversation above is now this summary*'' False] A2)
                      \<lparr>ap_tokens := None\<rparr>
                | Inl e \<Rightarrow> app_push [ItError e] A2)
      in app_push [ItBlank] A3)"

text \<open>Ctrl+C during a turn; the error is the cancel's.\<close>

definition app_interrupt :: "bytes option \<Rightarrow> app \<Rightarrow> app" where
  "app_interrupt err A =
     (if \<not> ap_turn A then A
      else let A1 = (case err of Some e \<Rightarrow> app_push [ItError e] A | None \<Rightarrow> A)\<lparr>ap_turn := False\<rparr>
           in app_push [ItBlank] (A1\<lparr>ap_transcript := finish (ap_transcript A1)\<rparr>))"

definition app_commit :: "app \<Rightarrow> item list \<times> app" where
  "app_commit A = (let (new, T) = settled (ap_transcript A) in (new, A\<lparr>ap_transcript := T\<rparr>))"

subsection \<open>What a chunk may do to the items\<close>

definition running :: "item list \<Rightarrow> nat" where
  "running xs = length (filter (\<lambda>x. \<not> item_settled x) xs)"

lemma running_simps [simp]: "running [] = 0" "running (xs @ ys) = running xs + running ys"
  "running (x # xs) = (if item_settled x then running xs else Suc (running xs))" "running (rev xs) = running xs"
  by (simp_all add: running_def rev_filter [symmetric])

lemma running_0: "running xs = 0 \<longleftrightarrow> list_all item_settled xs"
  by (auto simp: running_def filter_empty_conv list_all_iff)

text \<open>Items are appended, \<open>n\<close> of them running, and none is handed over.\<close>

definition appends :: "nat \<Rightarrow> transcript \<Rightarrow> transcript \<Rightarrow> bool" where
  "appends n T T' \<longleftrightarrow> tr_committed T' = tr_committed T \<and> (\<exists>xs. tr_items T' = tr_items T @ xs \<and> running xs = n)"

lemma appends_trans [trans]: "appends m T T1 \<Longrightarrow> appends n T1 T2 \<Longrightarrow> appends (m + n) T T2"
  by (fastforce simp: appends_def)

lemma appends_0_trans: "appends 0 T T1 \<Longrightarrow> appends 0 T1 T2 \<Longrightarrow> appends 0 T T2"
  using appends_trans [of 0 T T1 0 T2] by simp

lemma appends_same: "tr_items T' = tr_items T \<Longrightarrow> tr_committed T' = tr_committed T \<Longrightarrow> appends 0 T T'"
  by (simp add: appends_def)

lemma appends_item:
  "tr_items T' = tr_items T @ [x] \<Longrightarrow> tr_committed T' = tr_committed T \<Longrightarrow> appends (if item_settled x then 0 else 1) T T'"
  by (auto simp: appends_def)

lemma appends_flush_line: "appends 0 T (flush_line T)"
  by (auto simp: flush_line_def push_item_def appends_def split: line_state.split)

lemma appends_flush_thinking: "appends 0 T (flush_thinking T)"
  by (auto simp: flush_thinking_def push_item_def appends_def Let_def)

lemma appends_flush_table: "appends 0 T (flush_table T)"
  by (auto simp: flush_table_def push_item_def appends_def split: line_state.split)

lemma appends_plain_line: "appends 0 T (plain_line E l T)"
  by (auto simp: plain_line_def open_code_def push_item_def appends_def)

lemma appends_push_line: "appends 0 T (push_line E l T)"
proof (cases "tr_state T")
  case (Table rows)
  then show ?thesis
    using appends_0_trans [OF appends_flush_table appends_plain_line] by (auto simp: push_line_def appends_def)
qed (auto simp: push_line_def push_item_def appends_plain_line, auto simp: appends_def)

lemma appends_push_char: "appends 0 T (push_char E c T)"
proof (cases "c = CHR 0x0A")
  case True
  have "appends 0 (T\<lparr>tr_line := []\<rparr>) (push_line E (tr_line T) (T\<lparr>tr_line := []\<rparr>))" by (rule appends_push_line)
  then show ?thesis using True by (cases "tr_line T = []") (simp_all add: push_char_def Let_def appends_def)
qed (simp add: push_char_def appends_def)

lemma appends_fold_char: "appends 0 T (fold (push_char E) s T)"
proof (induction s arbitrary: T)
  case (Cons c s)
  show ?case using appends_0_trans [OF appends_push_char Cons.IH] by simp
qed (simp add: appends_def)

lemma appends_open_text: "appends 0 T (open_text T)"
  using appends_flush_thinking [of "T\<lparr>tr_waiting := False\<rparr>"] by (auto simp: open_text_def Let_def appends_def)

lemma appends_push_text: "appends 0 T (push_text E s T)"
  using appends_0_trans [OF appends_open_text appends_fold_char] by (auto simp: push_text_def appends_def)

lemma appends_push_thinking: "appends 0 T (push_thinking s T)"
  by (simp add: push_thinking_def appends_def)

lemma appends_tool_start: "push_tool_start E calls T = Some T' \<Longrightarrow> appends 1 T T'"
  using appends_0_trans [OF appends_flush_thinking appends_flush_line, of T]
  by (fastforce simp: push_tool_start_def push_item_def appends_def Let_def)

lemma appends_tool_result: "appends 0 T (push_tool_result E s T)"
  by (simp add: push_tool_result_def push_item_def appends_def Let_def)

lemma appends_push_items: "list_all item_settled xs \<Longrightarrow> appends 0 T (fold push_item xs T)"
proof (induction xs arbitrary: T)
  case (Cons x xs)
  have "appends 0 T (push_item x T)" using Cons.prems by (simp add: push_item_def appends_def)
  then show ?case using appends_0_trans Cons by fastforce
qed (simp add: appends_def)

subsection \<open>Settling the running tool\<close>

lemma settle_first_Cons:
  "item_settled x \<Longrightarrow> settle_first status (x # xs) = x # settle_first status xs"
proof (cases x)
  case (ItTool ls st)
  assume "item_settled x"
  then show ?thesis using ItTool by (cases st) simp_all
qed simp_all

lemma settle_first_none: "running xs = 0 \<Longrightarrow> settle_first status xs = xs"
  by (induction xs) (auto simp: settle_first_Cons split: if_splits)

lemma settle_first_some:
  "0 < running xs \<Longrightarrow> \<exists>us ls vs. xs = us @ ItTool ls Running # vs \<and> running us = 0 \<and>
     settle_first status xs = us @ ItTool ls status # vs"
proof (induction xs)
  case (Cons x xs)
  show ?case
  proof (cases "item_settled x")
    case True
    then obtain us ls vs where "xs = us @ ItTool ls Running # vs" "running us = 0"
      "settle_first status xs = us @ ItTool ls status # vs" using Cons by auto
    then show ?thesis using True by (intro exI [of _ "x # us"] exI [of _ ls] exI [of _ vs]) (simp add: settle_first_Cons)
  next
    case False
    then obtain ls where "x = ItTool ls Running" by (cases x) auto
    then show ?thesis by (intro exI [of _ "[]"] exI [of _ ls] exI [of _ xs]) simp
  qed
qed simp

definition transcript_ok :: "transcript \<Rightarrow> bool" where
  "transcript_ok T \<longleftrightarrow> tr_committed T \<le> length (tr_items T) \<and> list_all item_settled (take (tr_committed T) (tr_items T))"

text \<open>What is handed over stays as it is, and what is running is \<open>n\<close>.\<close>

definition keeps :: "transcript \<Rightarrow> nat \<Rightarrow> transcript \<Rightarrow> bool" where
  "keeps T n T' \<longleftrightarrow> tr_committed T' = tr_committed T \<and> length (tr_items T) \<le> length (tr_items T') \<and>
     take (tr_committed T) (tr_items T') = take (tr_committed T) (tr_items T) \<and> running (tr_items T') = n"

lemma keeps_ok: "keeps T n T' \<Longrightarrow> transcript_ok T \<Longrightarrow> transcript_ok T'"
  by (auto simp: keeps_def transcript_ok_def)

lemma keeps_appends: "appends n T T' \<Longrightarrow> transcript_ok T \<Longrightarrow> keeps T (running (tr_items T) + n) T'"
  by (auto simp: appends_def keeps_def transcript_ok_def)

lemma keeps_trans: "keeps T m T1 \<Longrightarrow> keeps T1 n T2 \<Longrightarrow> keeps T n T2"
  by (auto simp: keeps_def)

lemma keeps_tool_done:
  assumes ok: "transcript_ok T"
  shows "keeps T (running (tr_items T) - 1) (push_tool_done T)"
proof (cases "running (tr_items T) = 0")
  case True
  then show ?thesis using settle_first_none [of "rev (tr_items T)"] by (simp add: push_tool_done_def keeps_def)
next
  case False
  let ?st = "if tr_tool_failed T then Failure else Success"
  have st: "?st \<noteq> Running" by simp
  obtain us ls vs where f: "rev (tr_items T) = us @ ItTool ls Running # vs" "running us = 0"
    "settle_first ?st (rev (tr_items T)) = us @ ItTool ls ?st # vs"
    using settle_first_some [of "rev (tr_items T)" ?st] False by auto
  have items: "tr_items T = rev vs @ ItTool ls Running # rev us" using f(1) by (metis append.assoc append_Cons append_Nil rev.simps(2) rev_append rev_rev_ident)
  have c: "tr_committed T \<le> length vs"
  proof (rule ccontr)
    assume "\<not> tr_committed T \<le> length vs"
    then have "ItTool ls Running \<in> set (take (tr_committed T) (tr_items T))"
      by (auto simp: items take_Cons' split: if_splits)
    then show False using ok by (auto simp: transcript_ok_def list_all_iff)
  qed
  have new: "tr_items (push_tool_done T) = rev vs @ ItTool ls ?st # rev us"
    by (simp add: push_tool_done_def f(3))
  have "running (tr_items (push_tool_done T)) = running (tr_items T) - 1"
    using st by (simp add: new items)
  then show ?thesis using c by (simp add: keeps_def new items) (simp add: push_tool_done_def)
qed

lemma keeps_flags: "keeps T n U \<Longrightarrow> keeps T n (U\<lparr>tr_waiting := a, tr_after_tool := b\<rparr>)"
  by (simp add: keeps_def)

lemma keeps_finish:
  assumes ok: "transcript_ok T"
  shows "keeps T (running (tr_items T) - 1) (finish T)"
proof -
  define U where "U = push_tool_done T"
  have k: "keeps T (running (tr_items T) - 1) U" unfolding U_def by (rule keeps_tool_done [OF ok])
  have r: "running (tr_items U) = running (tr_items T) - 1" using k by (simp add: keeps_def)
  have "appends 0 U (flush_line (flush_thinking U))" by (rule appends_0_trans [OF appends_flush_thinking appends_flush_line])
  from keeps_appends [OF this keeps_ok [OF k ok]]
  have "keeps U (running (tr_items T) - 1) (flush_line (flush_thinking U))" by (simp only: r add_0_right)
  from keeps_flags [OF keeps_trans [OF k this]] show ?thesis unfolding finish_def U_def .
qed

subsection \<open>Scrollback is final\<close>

datatype tui_op =
    OpSubmit bytes
  | OpChunk stream_item
  | OpFail bytes
  | OpCompact bool "bytes + bytes"
  | OpInterrupt "bytes option"
  | OpWidth nat
  | OpCommit

text \<open>One turn of the loop: what it writes to the scrollback, and the state after it.\<close>

fun app_step :: "tui_env \<Rightarrow> (nat \<Rightarrow> bool) \<Rightarrow> tui_op \<Rightarrow> app \<Rightarrow> (item list \<times> app) option" where
  "app_step E over (OpSubmit l) A = Some ([], app_submit l A)"
| "app_step E over (OpChunk ev) A = map_option (Pair []) (app_chunk E over ev A)"
| "app_step E over (OpFail e) A = Some ([], app_fail e A)"
| "app_step E over (OpCompact auto_start answer) A = Some ([], app_compact auto_start answer A)"
| "app_step E over (OpInterrupt err) A = Some ([], app_interrupt err A)"
| "app_step E over (OpWidth w) A = Some ([], A\<lparr>ap_transcript := (ap_transcript A)\<lparr>tr_width := w\<rparr>\<rparr>)"
| "app_step E over OpCommit A = Some (app_commit A)"

fun app_run :: "tui_env \<Rightarrow> (nat \<Rightarrow> bool) \<Rightarrow> tui_op list \<Rightarrow> app \<Rightarrow> (item list \<times> app) option" where
  "app_run E over [] A = Some ([], A)"
| "app_run E over (x # xs) A =
     Option.bind (app_step E over x A) (\<lambda>(out, A1). map_option (\<lambda>(rest, A2). (out @ rest, A2)) (app_run E over xs A1))"

definition app_new :: "nat \<Rightarrow> app" where
  "app_new width = \<lparr>ap_transcript = transcript_new width, ap_turn = False, ap_tokens = None, ap_compact_due = False\<rparr>"

definition app_ok :: "app \<Rightarrow> bool" where
  "app_ok A \<longleftrightarrow> transcript_ok (ap_transcript A)"

definition app_running :: "app \<Rightarrow> nat" where
  "app_running A = running (tr_items (ap_transcript A))"

definition app_keeps :: "app \<Rightarrow> nat \<Rightarrow> app \<Rightarrow> bool" where
  "app_keeps A n A' \<longleftrightarrow> keeps (ap_transcript A) n (ap_transcript A')"

lemma app_keeps_same: "ap_transcript A' = ap_transcript A \<Longrightarrow> app_keeps A (app_running A) A'"
  by (simp add: app_keeps_def app_running_def keeps_def)

lemma app_keeps_trans: "app_keeps A m A1 \<Longrightarrow> app_keeps A1 n A2 \<Longrightarrow> app_keeps A n A2"
  unfolding app_keeps_def by (rule keeps_trans)

lemma app_keeps_ok: "app_keeps A n A' \<Longrightarrow> app_ok A \<Longrightarrow> app_ok A'"
  unfolding app_keeps_def app_ok_def by (rule keeps_ok)

lemma app_keeps_running: "app_keeps A n A' \<Longrightarrow> app_running A' = n"
  by (simp add: app_keeps_def app_running_def keeps_def)

lemma app_keeps_push: "app_ok A \<Longrightarrow> list_all item_settled xs \<Longrightarrow> app_keeps A (app_running A) (app_push xs A)"
  using keeps_appends [OF appends_push_items, of xs "ap_transcript A"]
  by (simp add: app_keeps_def app_ok_def app_running_def app_push_def)

lemma app_keeps_finish: "app_ok A \<Longrightarrow> app_keeps A (app_running A - 1) (A\<lparr>ap_transcript := finish (ap_transcript A)\<rparr>)"
  using keeps_finish by (simp add: app_keeps_def app_ok_def app_running_def)

lemma app_keeps_flag: "app_keeps A n B \<Longrightarrow> ap_transcript C = ap_transcript B \<Longrightarrow> app_keeps A n C"
  by (simp add: app_keeps_def)

lemma app_keeps_then_push:
  assumes "app_keeps A n B" and "app_ok A" and "list_all item_settled xs"
  shows "app_keeps A n (app_push xs B)"
  using app_keeps_trans [OF assms(1) app_keeps_push [OF app_keeps_ok [OF assms(1,2)] assms(3)]] app_keeps_running [OF assms(1)]
  by simp

lemma app_keeps_fail: "app_ok A \<Longrightarrow> app_keeps A (app_running A - 1) (app_fail e A)"
  unfolding app_fail_def
  by (rule app_keeps_flag [OF app_keeps_then_push [OF app_keeps_finish]]) simp_all

lemma app_keeps_submit: "app_ok A \<Longrightarrow> app_keeps A (app_running A) (app_submit l A)"
proof -
  assume ok: "app_ok A"
  have "app_keeps A (app_running A) (app_push [ItPrompt l, ItBlank] A)" by (rule app_keeps_push [OF ok]) simp
  then show ?thesis by (simp add: app_submit_def Let_def start_turn_def app_keeps_def keeps_def)
qed

lemma app_keeps_compact: "app_ok A \<Longrightarrow> app_keeps A (app_running A - 1) (app_compact auto_start answer A)"
proof -
  assume ok: "app_ok A"
  let ?n = "app_running A - 1"
  let ?A1 = "A\<lparr>ap_turn := False, ap_transcript := finish (ap_transcript A)\<rparr>"
  define A2 where "A2 = (if auto_start
    then app_push [ItText (''*the next turn would not fit '' @ em_dash @ '' summarizing*'') False] ?A1 else ?A1)"
  define A3 where "A3 = (case answer of
    Inr summary \<Rightarrow> (app_push [ItText summary True, ItBlank, ItText ''*the conversation above is now this summary*'' False] A2)\<lparr>ap_tokens := None\<rparr>
  | Inl e \<Rightarrow> app_push [ItError e] A2)"
  have k1: "app_keeps A ?n ?A1" by (rule app_keeps_flag [OF app_keeps_finish [OF ok]]) simp
  have k2: "app_keeps A ?n A2" using k1 app_keeps_then_push [OF k1 ok] by (simp add: A2_def)
  have k3: "app_keeps A ?n A3"
  proof (cases answer)
    case (Inr summary)
    show ?thesis unfolding A3_def Inr sum.case
      by (rule app_keeps_flag [OF app_keeps_then_push [OF k2 ok]]) simp_all
  next
    case (Inl e)
    show ?thesis unfolding A3_def Inl sum.case by (rule app_keeps_then_push [OF k2 ok]) simp
  qed
  show ?thesis
    using app_keeps_then_push [OF k3 ok, of "[ItBlank]"] unfolding app_compact_def Let_def A2_def A3_def by simp
qed

lemma app_keeps_interrupt: "app_ok A \<Longrightarrow> \<exists>n. app_keeps A n (app_interrupt err A)"
proof (cases "ap_turn A")
  case True
  assume ok: "app_ok A"
  define A1 where "A1 = (case err of Some e \<Rightarrow> app_push [ItError e] A | None \<Rightarrow> A)\<lparr>ap_turn := False\<rparr>"
  have k1: "app_keeps A (app_running A) A1"
  proof (cases err)
    case (Some e)
    show ?thesis unfolding A1_def Some option.case by (rule app_keeps_flag [OF app_keeps_push [OF ok]]) simp_all
  qed (simp add: A1_def app_keeps_same)
  have k2: "app_keeps A (app_running A - 1) (A1\<lparr>ap_transcript := finish (ap_transcript A1)\<rparr>)"
    using app_keeps_trans [OF k1 app_keeps_finish [OF app_keeps_ok [OF k1 ok]]] app_keeps_running [OF k1] by simp
  show ?thesis
    using app_keeps_then_push [OF k2 ok, of "[ItBlank]"] True by (auto simp: app_interrupt_def Let_def A1_def)
qed (use app_keeps_same in \<open>auto simp: app_interrupt_def\<close>)

text \<open>What a chunk makes of the number of running tools.\<close>

fun tools_after :: "stream_item \<Rightarrow> nat \<Rightarrow> nat" where
  "tools_after (SEvent (WToolStart calls)) n = n + 1"
| "tools_after (SEvent WToolsComplete) n = n - 1"
| "tools_after (SEvent (WEnd a err model u)) n = n - 1"
| "tools_after _ n = n"

lemma app_keeps_appends:
  "app_ok A \<Longrightarrow> appends n (ap_transcript A) T \<Longrightarrow> app_keeps A (app_running A + n) (A\<lparr>ap_transcript := T\<rparr>)"
  using keeps_appends by (simp add: app_keeps_def app_ok_def app_running_def)

lemma app_keeps_chunk:
  assumes ok: "app_ok A" and c: "app_chunk E over ev A = Some A'"
  shows "app_keeps A (tools_after ev (app_running A)) A'"
proof (cases ev)
  case (SEvent w)
  note app_keeps_0 = app_keeps_appends [OF ok, where n = 0, unfolded add_0_right]
  show ?thesis
  proof (cases w)
    case (WToolStart calls)
    then obtain T where T: "push_tool_start E calls (ap_transcript A) = Some T" "A' = A\<lparr>ap_transcript := T\<rparr>"
      using c by (auto simp: app_chunk_def SEvent Let_def bind_eq_Some_conv)
    show ?thesis using app_keeps_appends [OF ok appends_tool_start [OF T(1)]] by (simp add: SEvent WToolStart T(2))
  next
    case WToolsComplete
    then show ?thesis using c keeps_tool_done ok
      by (auto simp: app_chunk_def SEvent app_keeps_def app_ok_def app_running_def)
  next
    case (WEnd a err model u)
    then show ?thesis
      using c app_keeps_fail [OF ok, of err] app_keeps_flag [OF app_keeps_finish [OF ok]]
      by (auto simp: app_chunk_def SEvent split: if_splits)
  qed (use c app_keeps_same app_keeps_0 [OF appends_push_text] app_keeps_0 [OF appends_push_thinking] app_keeps_0 [OF appends_tool_result]
      in \<open>auto simp: app_chunk_def SEvent\<close>)
qed (use c app_keeps_same in \<open>auto simp: app_chunk_def\<close>)

lemma app_step_keeps:
  assumes ok: "app_ok A" and s: "app_step E over x A = Some (out, A')" and x: "x \<noteq> OpCommit"
  shows "out = [] \<and> (\<exists>n. app_keeps A n A')"
proof (cases x)
  case (OpWidth w)
  then show ?thesis using s by (auto simp: app_keeps_def keeps_def)
next
  case (OpChunk ev)
  then have "app_chunk E over ev A = Some A'" "out = []" using s by auto
  then show ?thesis using app_keeps_chunk [OF ok] by blast
next
  case (OpFail e)
  then show ?thesis using s app_keeps_fail [OF ok, of e] by (simp add: exI)
next
  case (OpCompact auto_start answer)
  then show ?thesis using s app_keeps_compact [OF ok, of auto_start answer] by (simp add: exI)
qed (use s x app_keeps_submit [OF ok] app_keeps_interrupt [OF ok] in auto)

definition handed_over :: "app \<Rightarrow> item list" where
  "handed_over A = take (tr_committed (ap_transcript A)) (tr_items (ap_transcript A))"

lemma app_keeps_handed: "app_keeps A n A' \<Longrightarrow> handed_over A' = handed_over A"
  by (simp add: app_keeps_def keeps_def handed_over_def)

lemma settled_items: "settled T = (new, T') \<Longrightarrow> tr_items T' = tr_items T \<and> list_all item_settled new \<and>
    tr_committed T' = tr_committed T + length new \<and>
    new = takeWhile item_settled (drop (tr_committed T) (tr_items T))"
  by (auto simp: settled_def Let_def list_all_iff dest: set_takeWhileD)

lemma app_commit_hands_over:
  assumes ok: "app_ok A" and c: "app_commit A = (new, A')"
  shows "app_ok A' \<and> handed_over A' = handed_over A @ new \<and> app_running A' = app_running A \<and>
    (live_items (ap_transcript A') = [] \<longleftrightarrow> app_running A = 0)"
proof -
  let ?T = "ap_transcript A"
  obtain T' where T': "settled ?T = (new, T')" "A' = A\<lparr>ap_transcript := T'\<rparr>"
    using c by (auto simp: app_commit_def split: prod.splits)
  note st = settled_items [OF T'(1)]
  let ?rest = "drop (tr_committed ?T) (tr_items ?T)"
  have new: "new = takeWhile item_settled ?rest" and len: "tr_committed T' = tr_committed ?T + length new" using st by blast+
  have split: "?rest = new @ dropWhile item_settled ?rest" by (simp add: new)
  have le: "tr_committed T' \<le> length (tr_items ?T)"
  proof -
    have "length new \<le> length ?rest" unfolding new by (rule length_takeWhile_le)
    then show ?thesis using ok len by (simp add: app_ok_def transcript_ok_def; linarith)
  qed
  have tk: "take (tr_committed T') (tr_items ?T) = take (tr_committed ?T) (tr_items ?T) @ new"
    using split by (simp add: len take_add) (metis append_eq_conv_conj)
  have it: "tr_items T' = tr_items ?T" using st by blast
  have "drop (length new) ?rest = dropWhile item_settled ?rest" using split by (metis append_eq_conv_conj)
  then have lv: "live_items T' = dropWhile item_settled ?rest" by (simp add: live_items_def it len add.commute)
  have set: "list_all item_settled (take (tr_committed ?T) (tr_items ?T))" using ok by (simp add: app_ok_def transcript_ok_def)
  have "app_running A = running (take (tr_committed ?T) (tr_items ?T)) + running ?rest"
    by (simp add: app_running_def flip: running_simps(2))
  also have "running (take (tr_committed ?T) (tr_items ?T)) = 0" using set by (simp add: running_0)
  finally have "app_running A = 0 \<longleftrightarrow> dropWhile item_settled ?rest = []"
    by (simp add: running_0 list_all_iff dropWhile_eq_Nil_conv)
  moreover have all: "list_all item_settled (take (tr_committed T') (tr_items ?T))"
    unfolding tk list_all_append using set st by blast
  moreover have "app_ok A'" unfolding app_ok_def transcript_ok_def T'(2) using le all by (simp add: it)
  moreover have "handed_over A' = handed_over A @ new" "app_running A' = app_running A"
    using st tk by (simp_all add: T'(2) handed_over_def app_running_def)
  ultimately show ?thesis using lv by (simp add: T'(2))
qed

lemma app_run_keeps:
  "app_ok A \<Longrightarrow> app_run E over ops A = Some (wrote, A') \<Longrightarrow>
     app_ok A' \<and> handed_over A' = handed_over A @ wrote"
proof (induction ops arbitrary: A wrote)
  case (Cons x xs)
  obtain out A1 rest where x: "app_step E over x A = Some (out, A1)" "app_run E over xs A1 = Some (rest, A')" "wrote = out @ rest"
    using Cons.prems(2) by (auto simp: bind_eq_Some_conv)
  have "app_ok A1 \<and> handed_over A1 = handed_over A @ out"
  proof (cases "x = OpCommit")
    case True
    then show ?thesis using x(1) app_commit_hands_over [OF Cons.prems(1)] by auto
  next
    case False
    then show ?thesis
      using app_step_keeps [OF Cons.prems(1) x(1)] app_keeps_ok [OF _ Cons.prems(1)] app_keeps_handed by auto
  qed
  then show ?case using Cons.IH [OF _ x(2)] x(3) by auto
qed simp

text \<open>
  C32: What was written to the scrollback is final: whatever is submitted, streamed, cancelled,
  compacted or fails in whatever order, the items handed to the terminal so far are exactly a
  settled prefix of the transcript's items as they are now, each handed over once, in order and
  never changed after.
\<close>

theorem scrollback_final:
  assumes "app_run E over ops (app_new width) = Some (wrote, A)"
  shows "wrote = take (tr_committed (ap_transcript A)) (tr_items (ap_transcript A)) \<and> list_all item_settled wrote \<and>
    wrote @ live_items (ap_transcript A) = tr_items (ap_transcript A)"
proof -
  have new: "app_ok (app_new width)" "handed_over (app_new width) = []"
    by (simp_all add: app_new_def transcript_new_def app_ok_def transcript_ok_def handed_over_def)
  from app_run_keeps [OF new(1) assms] new(2)
  have "wrote = take (tr_committed (ap_transcript A)) (tr_items (ap_transcript A))" "app_ok A" by (auto simp: handed_over_def)
  then show ?thesis by (simp add: app_ok_def transcript_ok_def live_items_def)
qed

text \<open>What the loop does between the start of a turn and its end: chunks, drawing, another width.\<close>

fun loop_op :: "tui_op \<Rightarrow> bool" where
  "loop_op (OpChunk ev) = True"
| "loop_op OpCommit = True"
| "loop_op (OpWidth w) = True"
| "loop_op _ = False"

fun chunks_of :: "tui_op list \<Rightarrow> stream_item list" where
  "chunks_of [] = []"
| "chunks_of (OpChunk ev # ops) = ev # chunks_of ops"
| "chunks_of (x # ops) = chunks_of ops"

lemma turn_runs:
  "app_ok A \<Longrightarrow> list_all loop_op turn \<Longrightarrow> app_run E over (turn @ ops) A = Some (wrote, A') \<Longrightarrow>
     \<exists>B rest. app_ok B \<and> app_running B = fold tools_after (chunks_of turn) (app_running A) \<and>
       app_run E over ops B = Some (rest, A')"
proof (induction turn arbitrary: A wrote)
  case (Cons x turn)
  obtain out A1 rest where x: "app_step E over x A = Some (out, A1)" "app_run E over (turn @ ops) A1 = Some (rest, A')"
    using Cons.prems(3) by (auto simp: bind_eq_Some_conv)
  have l: "list_all loop_op turn" "loop_op x" using Cons.prems(2) by simp_all
  show ?case
  proof (cases x)
    case (OpChunk ev)
    then have "app_chunk E over ev A = Some A1" using x(1) by auto
    note k = app_keeps_chunk [OF Cons.prems(1) this]
    show ?thesis
      using Cons.IH [OF app_keeps_ok [OF k Cons.prems(1)] l(1) x(2)] app_keeps_running [OF k] by (simp add: OpChunk)
  next
    case OpCommit
    then have "app_commit A = (out, A1)" using x(1) by simp
    from app_commit_hands_over [OF Cons.prems(1) this]
    show ?thesis using Cons.IH [OF _ l(1) x(2)] by (simp add: OpCommit)
  next
    case (OpWidth w)
    then have "app_keeps A (app_running A) A1" using x(1) by (auto simp: app_keeps_def keeps_def app_running_def)
    from app_keeps_ok [OF this Cons.prems(1)] app_keeps_running [OF this]
    show ?thesis using Cons.IH [OF _ l(1) x(2)] by (simp add: OpWidth)
  qed (use l(2) in simp_all)
qed auto


text \<open>
  The runtime announces each round twice, when the model begins a call and with the complete call,
  and completes it once: after two rounds of tools the scrollback stands still.
\<close>

lemma two_rounds_stall:
  "fold tools_after (map (\<lambda>ev. SEvent (to_stream Q a ev))
     [ToolCallsBegin cs, ToolCallsStart cs, ToolResult i r ms, ToolCallsComplete,
      ToolCallsBegin cs', ToolCallsStart cs', ToolResult j r' ms', ToolCallsComplete, TextDelta t]) 0 = 2"
  by simp

subsection \<open>Chunks\<close>

lemma push_item_flags [simp]:
  "tr_waiting (push_item x T) = tr_waiting T" "tr_state (push_item x T) = tr_state T"
  "tr_started (push_item x T) = tr_started T" "tr_after_tool (push_item x T) = tr_after_tool T"
  "tr_thinking (push_item x T) = tr_thinking T"
  by (simp_all add: push_item_def)

text \<open>A text segment is open.\<close>

definition text_open :: "transcript \<Rightarrow> bool" where
  "text_open T \<longleftrightarrow> \<not> tr_waiting T \<and> tr_state T \<noteq> InThinking \<and> tr_started T \<and> \<not> tr_after_tool T"

lemma text_open_open: "text_open (open_text T)"
proof -
  have st: "tr_state (flush_thinking U) \<noteq> InThinking" "tr_waiting (flush_thinking U) = tr_waiting U" for U
    by (simp_all add: flush_thinking_def Let_def)
  show ?thesis by (auto simp: open_text_def text_open_def Let_def st)
qed

lemma open_text_id: "text_open T \<Longrightarrow> open_text T = T"
  by (cases T) (simp add: text_open_def open_text_def Let_def)

lemma text_open_plain_line: "text_open T \<Longrightarrow> text_open (plain_line E l T)"
  by (simp add: text_open_def plain_line_def open_code_def)

lemma text_open_push_line: "text_open T \<Longrightarrow> text_open (push_line E l T)"
  by (auto simp: push_line_def flush_table_def text_open_def plain_line_def open_code_def split: line_state.split)

lemma text_open_push_char: "text_open T \<Longrightarrow> text_open (push_char E c T)"
  using text_open_push_line [of "T\<lparr>tr_line := []\<rparr>" E "tr_line T"]
  by (auto simp: push_char_def Let_def text_open_def)

lemma text_open_fold: "text_open T \<Longrightarrow> text_open (fold (push_char E) s T)"
  by (induction s arbitrary: T) (simp_all add: text_open_push_char)

text \<open>However a response is cut into chunks, the transcript is the same.\<close>

theorem chunking_irrelevant:
  assumes "s \<noteq> []" and "t \<noteq> []"
  shows "push_text E t (push_text E s T) = push_text E (s @ t) T"
  using assms open_text_id [OF text_open_fold [OF text_open_open]] by (simp add: push_text_def)

subsection \<open>What an open block loses\<close>

text \<open>
  A table that ends a response is not shown with it: \<open>finish\<close> flushes a line, not a block, and the
  rows come out when the next turn's text starts. Thinking that comes between discards them.
\<close>

lemma table_left_open:
  "tr_items (finish (push_text E (''|a|'' @ newline) (start_turn (transcript_new w)))) = []"
  "tr_items (push_text E (''x'' @ newline) (start_turn (finish (push_text E (''|a|'' @ newline) (start_turn (transcript_new w)))))) =
     [ItTable (''|a|'' @ newline), ItText ''x'' True]"
  by (simp_all add: transcript_new_def start_turn_def push_text_def open_text_def newline_def push_char_def push_line_def plain_line_def
      fence_def finish_def push_tool_done_def flush_thinking_def flush_line_def flush_table_def push_item_def Let_def)

lemma thinking_discards_table:
  "tr_items (push_text E (''x'' @ newline) (push_thinking ''t'' (push_text E (''|a|'' @ newline) (start_turn (transcript_new w))))) =
     [ItThinking ''t'', ItText ''x'' False]"
  by (simp add: transcript_new_def start_turn_def push_text_def push_thinking_def open_text_def newline_def push_char_def push_line_def plain_line_def
      fence_def flush_thinking_def push_item_def Let_def)

text \<open>A shell command or a line of output whose cut falls inside a character aborts the client.\<close>

lemma label_aborts:
  assumes "te_json E args = Some (JObject [(''command'', JString [CHR 0xC3, CHR 0xA9, CHR 0x61])])"
  shows "tool_label E ''bash'' args 9 = None"
proof -
  have "str_lines [CHR 0xC3, CHR 0xA9, CHR 0x61] = [[CHR 0xC3, CHR 0xA9, CHR 0x61]]" by code_simp
  moreover have "slice_to [CHR 0xC3, CHR 0xA9, CHR 0x61] 1 = None" by code_simp
  ultimately show ?thesis by (simp add: tool_label_def assms json_field_def json_str_def)
qed

subsection \<open>Witnesses\<close>

definition sample_tui :: tui_env where
  "sample_tui = \<lparr>te_json = (\<lambda>_. None), te_i64 = (\<lambda>_. None), te_camel = id, te_unicode = ascii_unicode\<rparr>"

definition sample_turn :: "tui_op list" where
  "sample_turn =
     OpSubmit ''q'' # map OpChunk [SEvent (WChunk ''a''), SEvent (WToolStart [(''ls'', [])]), SEvent (WToolResult ''1'' ''ok'' 5 True),
       SEvent WToolsComplete] @ [OpChunk (SEvent (WEnd ''7'' [] ''m'' None)), OpCommit]"

definition sample_items :: "item list" where
  "sample_items = [ItPrompt ''q'', ItBlank, ItText ''a'' True, ItBlank, ItTool [''ls''] Success, ItResult ''ok'' False, ItBlank]"

definition sample_app :: "item list \<Rightarrow> nat \<Rightarrow> bytes \<Rightarrow> bool \<Rightarrow> bool \<Rightarrow> bool \<Rightarrow> bool \<Rightarrow> bool \<Rightarrow> app" where
  "sample_app xs n l waiting marker started after turn =
     \<lparr>ap_transcript =
        \<lparr>tr_items = xs, tr_waiting = waiting, tr_committed = n, tr_line = l, tr_state = Normal, tr_marker = marker,
         tr_started = started, tr_after_tool = after, tr_thinking = [], tr_tool_failed = False, tr_width = 80\<rparr>,
      ap_turn = turn, ap_tokens = None, ap_compact_due = False\<rparr>"

lemma sample_steps:
  "app_submit ''q'' (app_new 80) = sample_app (take 2 sample_items) 0 [] True False False False True"
  "app_chunk sample_tui over (SEvent (WChunk ''a'')) (sample_app (take 2 sample_items) 0 [] True False False False True) =
     Some (sample_app (take 2 sample_items) 0 ''a'' False True True False True)"
  "app_chunk sample_tui over (SEvent (WToolStart [(''ls'', [])])) (sample_app (take 2 sample_items) 0 ''a'' False True True False True) =
     Some (sample_app (take 4 sample_items @ [ItTool [''ls''] Running]) 0 [] False False True False True)"
  "app_chunk sample_tui over (SEvent (WToolResult ''1'' ''ok'' 5 True))
      (sample_app (take 4 sample_items @ [ItTool [''ls''] Running]) 0 [] False False True False True) =
     Some (sample_app (take 4 sample_items @ [ItTool [''ls''] Running, ItResult ''ok'' False, ItBlank]) 0 [] False False True False True)"
  by (simp_all add: sample_app_def sample_items_def sample_tui_def app_new_def transcript_new_def app_submit_def app_push_def app_chunk_def
      start_turn_def push_text_def open_text_def push_char_def push_tool_start_def tool_label_def flush_line_def flush_thinking_def
      push_tool_result_def item_failed_def push_item_def Let_def)

lemma sample_ends:
  "app_chunk sample_tui over (SEvent WToolsComplete)
      (sample_app (take 4 sample_items @ [ItTool [''ls''] Running, ItResult ''ok'' False, ItBlank]) 0 [] False False True False True) =
     Some (sample_app sample_items 0 [] False False True True True)"
  "app_chunk sample_tui over (SEvent (WEnd ''7'' [] ''m'' None)) (sample_app sample_items 0 [] False False True True True) =
     Some (sample_app sample_items 0 [] False False True False False)"
  "app_commit (sample_app sample_items 0 [] False False True False False) =
     (sample_items, sample_app sample_items 7 [] False False True False False)"
  by (simp_all add: sample_app_def sample_items_def app_chunk_def push_tool_done_def finish_def flush_line_def flush_thinking_def
      app_commit_def settled_def Let_def)

lemma sample_turn_on_screen:
  "\<exists>A. app_run sample_tui (\<lambda>_. False) sample_turn (app_new 80) = Some (sample_items, A) \<and> tr_items (ap_transcript A) = sample_items"
  by (simp add: sample_turn_def sample_steps sample_ends) (simp add: sample_app_def)

theorem scrollback_final_witness:
  "\<exists>A. app_run sample_tui (\<lambda>_. False) sample_turn (app_new 80) = Some (sample_items, A) \<and> list_all item_settled sample_items \<and>
     sample_items @ live_items (ap_transcript A) = sample_items"
proof -
  obtain A where A: "app_run sample_tui (\<lambda>_. False) sample_turn (app_new 80) = Some (sample_items, A)"
    "tr_items (ap_transcript A) = sample_items" using sample_turn_on_screen by blast
  show ?thesis using scrollback_final [OF A(1)] A by auto
qed


theorem chunking_irrelevant_witness:
  "push_text sample_tui ''b'' (push_text sample_tui ''a'' (transcript_new 80)) = push_text sample_tui ''ab'' (transcript_new 80)"
  using chunking_irrelevant [of "''a''" "''b''"] by simp

end
