(* ===== verification/CodeFiles.thy ===== *)
theory CodeFiles
  imports Keyspace SkillFormat
begin

section \<open>The files under the terminal client's store (apps/code/src/backend/mod.rs)\<close>

text \<open>
  The directory the client keeps its state in, as a map from paths below its root to files and
  directories, with the system calls the store makes: walking a path (empty and \<open>.\<close> components
  stay, \<open>..\<close> goes up), creating directories, writing, appending, renaming, removing, listing.
  Calls fail where a component is missing or of the wrong kind; a full disk, permissions, links
  and a case-insensitive directory are outside the model. On top of it stand the helpers of the
  module: the percent-encoding of names and the reading and writing of JSON documents and JSON
  lines. The lemmas show that the encoding is reversible and what each helper leaves and reads.
\<close>

type_synonym fpath = "bytes list"

datatype fnode = FDir | FFile bytes

type_synonym files = "(fpath \<times> fnode) list"

datatype crab_error = IoFailed | Refused store_error

subsection \<open>System calls\<close>

definition is_dir :: "files \<Rightarrow> fpath \<Rightarrow> bool" where
  "is_dir m p \<longleftrightarrow> p = [] \<or> map_of m p = Some FDir"

text \<open>Where a path leads: every component but the last has to be found in a directory.\<close>

fun locate :: "files \<Rightarrow> fpath \<Rightarrow> fpath \<Rightarrow> fpath option" where
  "locate m cur [] = Some cur"
| "locate m cur (c # cs) =
     (if \<not> is_dir m cur then None
      else if c = [] \<or> c = ''.'' then locate m cur cs
      else if c = ''..'' then locate m (butlast cur) cs
      else locate m (cur @ [c]) cs)"

definition sys_read :: "files \<Rightarrow> fpath \<Rightarrow> bytes option" where
  "sys_read m p =
     (case locate m [] p of
        None \<Rightarrow> None
      | Some q \<Rightarrow> (case map_of m q of Some (FFile b) \<Rightarrow> Some b | _ \<Rightarrow> None))"

text \<open>\<open>read_to_string\<close>: a file that is not UTF-8 is an error.\<close>

definition sys_read_string :: "files \<Rightarrow> fpath \<Rightarrow> bytes option" where
  "sys_read_string m p =
     (case sys_read m p of None \<Rightarrow> None | Some b \<Rightarrow> if valid_utf8 b then Some b else None)"

definition sys_write :: "files \<Rightarrow> fpath \<Rightarrow> bytes \<Rightarrow> crab_error + files" where
  "sys_write m p b =
     (case locate m [] p of
        None \<Rightarrow> Inl IoFailed
      | Some q \<Rightarrow> if is_dir m q then Inl IoFailed else Inr (bt_insert q (FFile b) m))"

text \<open>Opened with \<open>create\<close> and \<open>append\<close>, then \<open>write_all\<close>.\<close>

definition sys_append :: "files \<Rightarrow> fpath \<Rightarrow> bytes \<Rightarrow> crab_error + files" where
  "sys_append m p b =
     (case locate m [] p of
        None \<Rightarrow> Inl IoFailed
      | Some q \<Rightarrow>
          if is_dir m q then Inl IoFailed
          else Inr (bt_insert q
                 (FFile ((case map_of m q of Some (FFile old) \<Rightarrow> old | _ \<Rightarrow> []) @ b)) m))"

definition sys_rename :: "files \<Rightarrow> fpath \<Rightarrow> fpath \<Rightarrow> crab_error + files" where
  "sys_rename m src dst =
     (case (locate m [] src, locate m [] dst) of
        (Some s, Some d) \<Rightarrow>
          (case map_of m s of
             Some (FFile b) \<Rightarrow>
               if is_dir m d then Inl IoFailed else Inr (bt_insert d (FFile b) (bt_remove s m))
           | _ \<Rightarrow> Inl IoFailed)
      | _ \<Rightarrow> Inl IoFailed)"

definition sys_remove_file :: "files \<Rightarrow> fpath \<Rightarrow> bool \<times> files" where
  "sys_remove_file m p =
     (case locate m [] p of
        None \<Rightarrow> (False, m)
      | Some q \<Rightarrow> (case map_of m q of Some (FFile b) \<Rightarrow> (True, bt_remove q m) | _ \<Rightarrow> (False, m)))"

fun sys_mkdirs :: "files \<Rightarrow> fpath \<Rightarrow> fpath \<Rightarrow> crab_error + files" where
  "sys_mkdirs m cur [] = Inr m"
| "sys_mkdirs m cur (c # cs) =
     (if c = [] \<or> c = ''.'' then sys_mkdirs m cur cs
      else if c = ''..'' then sys_mkdirs m (butlast cur) cs
      else (case map_of m (cur @ [c]) of
              Some (FFile b) \<Rightarrow> Inl IoFailed
            | Some FDir \<Rightarrow> sys_mkdirs m (cur @ [c]) cs
            | None \<Rightarrow> sys_mkdirs (bt_insert (cur @ [c]) FDir m) (cur @ [c]) cs))"

text \<open>
  \<open>remove_dir_all\<close> opens the directory, removes what is in it, then the path itself. A path that
  ends in \<open>.\<close> cannot be removed after its content is gone; one that ends in \<open>..\<close> no longer exists
  by then, which the standard library takes for success.
\<close>

definition sys_remove_dir_all :: "files \<Rightarrow> fpath \<Rightarrow> bool \<times> files" where
  "sys_remove_dir_all m p =
     (case locate m [] p of
        None \<Rightarrow> (False, m)
      | Some q \<Rightarrow>
          if \<not> is_dir m q then (False, m)
          else let emptied = filter (\<lambda>e. \<not> strict_prefix q (fst e)) m
               in if last p = ''.'' then (False, emptied)
                  else if last p = ''..'' then (True, emptied)
                  else (True, bt_remove q emptied))"

definition sys_read_dir :: "files \<Rightarrow> fpath \<Rightarrow> bytes list option" where
  "sys_read_dir m p =
     (case locate m [] p of
        None \<Rightarrow> None
      | Some q \<Rightarrow>
          if is_dir m q
          then Some (map (last \<circ> fst) (filter (\<lambda>e. fst e \<noteq> [] \<and> butlast (fst e) = q) m))
          else None)"

subsection \<open>Names as file names\<close>

definition plain_byte :: "byte \<Rightarrow> bool" where
  "plain_byte c \<longleftrightarrow> ascii_alphanumeric c \<or> c = CHR ''.'' \<or> c = CHR ''_'' \<or> c = CHR ''-''"

definition hex_upper :: "nat \<Rightarrow> byte" where
  "hex_upper d = (if d < 10 then char_of (48 + d) else char_of (55 + d))"

text \<open>\<open>%{byte:02X}\<close>\<close>

definition encode_byte :: "byte \<Rightarrow> bytes" where
  "encode_byte c =
     (if plain_byte c then [c]
      else [CHR ''%'', hex_upper (byte_val c div 16), hex_upper (byte_val c mod 16)])"

definition encode :: "bytes \<Rightarrow> bytes" where
  "encode name = concat (map encode_byte name)"

definition hex_val :: "byte \<Rightarrow> nat option" where
  "hex_val c =
     (let n = byte_val c in
      if 48 \<le> n \<and> n \<le> 57 then Some (n - 48)
      else if 65 \<le> n \<and> n \<le> 70 then Some (n - 55)
      else if 97 \<le> n \<and> n \<le> 102 then Some (n - 87)
      else None)"

text \<open>\<open>u8::from_str_radix(hex, 16)\<close> of two bytes: a leading plus sign is allowed.\<close>

definition hex_pair :: "byte \<Rightarrow> byte \<Rightarrow> byte option" where
  "hex_pair a b =
     (if a = CHR ''+'' then map_option char_of (hex_val b)
      else (case (hex_val a, hex_val b) of
              (Some x, Some y) \<Rightarrow> Some (char_of (16 * x + y))
            | _ \<Rightarrow> None))"

function decode_bytes :: "bytes \<Rightarrow> bytes" where
  "decode_bytes [] = []"
| "decode_bytes (c # cs) =
     (if c = CHR ''%'' then
        (case cs of
           a # b # rest \<Rightarrow>
             (case hex_pair a b of
                Some x \<Rightarrow> x # decode_bytes rest
              | None \<Rightarrow> c # decode_bytes cs)
         | _ \<Rightarrow> c # decode_bytes cs)
      else c # decode_bytes cs)"
  by pat_completeness auto
termination
  by (relation "measure length") auto

definition decode :: "bytes \<Rightarrow> bytes" where
  "decode name = (let out = decode_bytes name in if valid_utf8 out then out else name)"

definition strip_suffix :: "bytes \<Rightarrow> bytes \<Rightarrow> bytes option" where
  "strip_suffix sfx s = (if suffix sfx s then Some (take (length s - length sfx) s) else None)"

definition names_in :: "files \<Rightarrow> fpath \<Rightarrow> bytes \<Rightarrow> bytes list" where
  "names_in m dir sfx =
     (case sys_read_dir m dir of
        None \<Rightarrow> []
      | Some names \<Rightarrow> sort (map decode (List.map_filter (strip_suffix sfx) names)))"

subsection \<open>Documents and lines\<close>

text \<open>\<open>with_extension\<close>: the extension starts at the last dot that is not the first byte.\<close>

definition file_stem :: "bytes \<Rightarrow> bytes" where
  "file_stem name =
     (let ext = takeWhile (\<lambda>c. c \<noteq> CHR ''.'') (rev name);
          rest = drop (length ext) (rev name)
      in if length rest \<le> 1 then name else rev (tl rest))"

definition with_tmp :: "fpath \<Rightarrow> fpath" where
  "with_tmp p = butlast p @ [file_stem (last p) @ ''.tmp'']"

definition read_json :: "'v codec \<Rightarrow> files \<Rightarrow> fpath \<Rightarrow> crab_error + 'v option" where
  "read_json J m p =
     (case sys_read m p of
        None \<Rightarrow> Inr None
      | Some b \<Rightarrow> (case from_json J b of None \<Rightarrow> Inl (Refused BadJson) | Some v \<Rightarrow> Inr (Some v)))"

text \<open>The parents are made, the bytes go to a file beside the target, which is renamed over it.\<close>

definition replace_file :: "files \<Rightarrow> fpath \<Rightarrow> bytes \<Rightarrow> crab_error + files" where
  "replace_file m p b =
     bindr (sys_mkdirs m [] (butlast p))
       (\<lambda>m1. bindr (sys_write m1 (with_tmp p) b) (\<lambda>m2. sys_rename m2 (with_tmp p) p))"

definition write_json :: "'v codec \<Rightarrow> files \<Rightarrow> fpath \<Rightarrow> 'v \<Rightarrow> crab_error + files" where
  "write_json J m p v = replace_file m p (to_json J v)"

definition json_lines :: "'v codec \<Rightarrow> 'v list \<Rightarrow> bytes" where
  "json_lines J vs = concat (map (\<lambda>v. to_json J v @ newline) vs)"

definition append_json :: "'v codec \<Rightarrow> files \<Rightarrow> fpath \<Rightarrow> 'v list \<Rightarrow> crab_error + files" where
  "append_json J m p vs =
     (if vs = [] then Inr m
      else bindr (sys_mkdirs m [] (butlast p)) (\<lambda>m1. sys_append m1 p (json_lines J vs)))"

definition lines_of :: "'v codec \<Rightarrow> bytes \<Rightarrow> 'v list" where
  "lines_of J b =
     List.map_filter (from_json J) (filter (\<lambda>l. l \<noteq> []) (split_char (CHR 0x0A) b))"

definition read_lines :: "'v codec \<Rightarrow> files \<Rightarrow> fpath \<Rightarrow> 'v list" where
  "read_lines J m p = (case sys_read m p of None \<Rightarrow> [] | Some b \<Rightarrow> lines_of J b)"

definition write_lines :: "'v codec \<Rightarrow> files \<Rightarrow> fpath \<Rightarrow> 'v list \<Rightarrow> crab_error + files" where
  "write_lines J m p vs = replace_file m p (json_lines J vs)"

text \<open>
  What the program relies on from the compact form of \<open>serde_json\<close>: a document is one line that is
  not empty, and reads back.
\<close>

definition line_codec_ok :: "('v \<Rightarrow> 'v) \<Rightarrow> 'v codec \<Rightarrow> bool" where
  "line_codec_ok persisted J \<longleftrightarrow>
     codec_ok persisted J \<and> (\<forall>v. to_json J v \<noteq> [] \<and> CHR 0x0A \<notin> set (to_json J v))"

subsection \<open>The encoding is reversible\<close>

lemma plain_not_percent: "plain_byte c \<Longrightarrow> c \<noteq> CHR ''%''"
  by (auto simp: plain_byte_def ascii_alphanumeric_def byte_val_def)

lemma byte_val_hex_upper: "d < 16 \<Longrightarrow> byte_val (hex_upper d) = (if d < 10 then 48 + d else 55 + d)"
  by (simp add: byte_val_def hex_upper_def)

lemma hex_val_upper [simp]: "d < 16 \<Longrightarrow> hex_val (hex_upper d) = Some d"
  by (simp add: hex_val_def byte_val_hex_upper Let_def)

lemma hex_upper_not_plus: "d < 16 \<Longrightarrow> hex_upper d \<noteq> CHR ''+''"
  using byte_val_hex_upper [of d] by (auto simp: byte_val_def split: if_splits)

lemma byte_val_less: "byte_val c < 256"
  by (simp add: byte_val_def)

lemma hex_pair_encoded: "hex_pair (hex_upper (byte_val c div 16)) (hex_upper (byte_val c mod 16)) = Some c"
proof -
  have d: "byte_val c div 16 < 16" using byte_val_less [of c] by simp
  have "char_of (16 * (byte_val c div 16) + byte_val c mod 16) = c"
    by (simp add: byte_val_def)
  then show ?thesis
    using d hex_upper_not_plus [OF d] by (simp add: hex_pair_def)
qed

lemma decode_encoded_byte: "decode_bytes (encode_byte c @ s) = c # decode_bytes s"
  by (simp add: encode_byte_def plain_not_percent hex_pair_encoded)

lemma decode_bytes_encode: "decode_bytes (encode name) = name"
  by (induction name) (simp_all add: encode_def decode_encoded_byte)

lemma encode_roundtrip_aux: "valid_utf8 name \<Longrightarrow> decode (encode name) = name"
  by (simp add: decode_def decode_bytes_encode)

text \<open>
  A name that went through the file-name encoding comes back unchanged, whatever characters it
  holds, so two names never share a file (on a case-sensitive file system).
\<close>

theorem encode_roundtrip:
  assumes "valid_utf8 name"
  shows "decode (encode name) = name"
  by (rule encode_roundtrip_aux [OF assms])

theorem encode_roundtrip_witness:
  "decode (encode ''notes/2 %41'') = ''notes/2 %41'' \<and> encode ''notes/2 %41'' = ''notes%2F2%20%2541''"
proof
  show "decode (encode ''notes/2 %41'') = ''notes/2 %41''"
    by (rule encode_roundtrip) (simp add: valid_utf8_ascii is_ascii_def byte_val_def)
  show "encode ''notes/2 %41'' = ''notes%2F2%20%2541''"
    by code_simp
qed

lemma encode_inj: "encode a = encode b \<longleftrightarrow> a = b"
  by (metis decode_bytes_encode)

lemma encode_byte_chars: "x \<in> set (encode_byte c) \<Longrightarrow> plain_byte x \<or> x = CHR ''%''"
proof -
  have hex: "plain_byte (hex_upper d)" if "d < 16" for d
    using byte_val_hex_upper [OF that] that
    by (auto simp: plain_byte_def ascii_alphanumeric_def)
  assume "x \<in> set (encode_byte c)"
  then show ?thesis
    using hex [of "byte_val c div 16"] hex [of "byte_val c mod 16"] byte_val_less [of c]
    by (auto simp: encode_byte_def split: if_splits)
qed

text \<open>A file name the encoding makes holds no separator; only the two dot names are special.\<close>

lemma encode_chars: "x \<in> set (encode name) \<Longrightarrow> plain_byte x \<or> x = CHR ''%''"
  using encode_byte_chars by (auto simp: encode_def)

lemma encode_no_slash: "CHR ''/'' \<notin> set (encode name)"
  using encode_chars [of "CHR ''/''" name]
  by (auto simp: plain_byte_def ascii_alphanumeric_def byte_val_def)

lemma encode_dots [simp]: "encode [] = []" "encode ''.'' = ''.''" "encode ''..'' = ''..''"
  by code_simp+

lemma encode_ascii: "x \<in> set (encode name) \<Longrightarrow> is_ascii x"
  using encode_chars [of x name]
  by (auto simp: plain_byte_def ascii_alphanumeric_def is_ascii_def byte_val_def)

subsection \<open>What the calls leave behind\<close>

definition plain_part :: "bytes \<Rightarrow> bool" where
  "plain_part c \<longleftrightarrow> c \<noteq> [] \<and> c \<noteq> ''.'' \<and> c \<noteq> ''..''"

definition plain_path :: "fpath \<Rightarrow> bool" where
  "plain_path p \<longleftrightarrow> list_all plain_part p"

lemma plain_path_simps [simp]:
  "plain_path []" "plain_path (c # p) \<longleftrightarrow> plain_part c \<and> plain_path p"
  "plain_path (p @ q) \<longleftrightarrow> plain_path p \<and> plain_path q"
  by (simp_all add: plain_path_def)

text \<open>Nothing on the way down \<open>d\<close> is a file.\<close>

definition way_free :: "files \<Rightarrow> fpath \<Rightarrow> fpath \<Rightarrow> bool" where
  "way_free m cur d \<longleftrightarrow>
     (\<forall>p. p \<noteq> [] \<and> prefix p d \<longrightarrow> map_of m (cur @ p) = None \<or> map_of m (cur @ p) = Some FDir)"

definition way_dirs :: "files \<Rightarrow> fpath \<Rightarrow> fpath \<Rightarrow> bool" where
  "way_dirs m cur d \<longleftrightarrow> (\<forall>p. prefix p d \<longrightarrow> is_dir m (cur @ p))"

lemma way_dirs_Nil [simp]: "way_dirs m cur [] \<longleftrightarrow> is_dir m cur"
  by (simp add: way_dirs_def)

lemma way_dirs_Cons: "way_dirs m cur (c # d) \<longleftrightarrow> is_dir m cur \<and> way_dirs m (cur @ [c]) d"
  by (auto simp: way_dirs_def prefix_Cons)

lemma way_dirs_last: "way_dirs m cur d \<Longrightarrow> is_dir m (cur @ d)"
  by (simp add: way_dirs_def)

lemma walk_plain:
  assumes "plain_path d" and "plain_part n" and "way_dirs m cur d"
  shows "locate m cur (d @ [n]) = Some (cur @ d @ [n])"
  using assms
proof (induction d arbitrary: cur)
  case Nil
  then show ?case by (simp add: plain_part_def)
next
  case (Cons c d)
  then show ?case by (simp add: way_dirs_Cons plain_part_def)
qed

lemma walk_dir:
  assumes "plain_path d" and "way_dirs m cur d"
  shows "locate m cur d = Some (cur @ d)"
  using assms
proof (induction d arbitrary: cur)
  case (Cons c d)
  then show ?case by (simp add: way_dirs_Cons plain_part_def)
qed simp

lemma way_free_Cons:
  "way_free m cur (c # d) \<longleftrightarrow>
     (map_of m (cur @ [c]) = None \<or> map_of m (cur @ [c]) = Some FDir) \<and> way_free m (cur @ [c]) d"
proof -
  have "(p \<noteq> [] \<and> prefix p (c # d)) = (p = [c] \<or> (\<exists>p'. p = c # p' \<and> p' \<noteq> [] \<and> prefix p' d))" for p
    by (auto simp: prefix_Cons)
  then show ?thesis by (auto simp: way_free_def)
qed

lemma mkdirs_plain:
  assumes "plain_path d" and "way_free m cur d" and "is_dir m cur"
  shows "\<exists>m'. sys_mkdirs m cur d = Inr m' \<and> way_dirs m' cur d \<and> (bt_ok m \<longrightarrow> bt_ok m') \<and>
    (\<forall>q. map_of m' q = (if \<exists>p. p \<noteq> [] \<and> prefix p d \<and> q = cur @ p then Some FDir else map_of m q))"
  using assms
proof (induction d arbitrary: m cur)
  case (Cons c d)
  let ?q = "cur @ [c]"
  let ?m = "if map_of m ?q = None then bt_insert ?q FDir m else m"
  have dir: "is_dir ?m ?q" using Cons.prems(2) by (auto simp: is_dir_def way_free_Cons)
  have look: "map_of ?m q = (if q = ?q then Some FDir else map_of m q)" for q
    using Cons.prems(2) by (auto simp: way_free_Cons)
  have "way_free ?m ?q d"
    using Cons.prems(2) unfolding way_free_Cons by (simp add: way_free_def look)
  then obtain m' where m': "sys_mkdirs ?m ?q d = Inr m'" "way_dirs m' ?q d" "bt_ok ?m \<longrightarrow> bt_ok m'"
      "\<And>q. map_of m' q = (if \<exists>p. p \<noteq> [] \<and> prefix p d \<and> q = ?q @ p then Some FDir else map_of ?m q)"
    using Cons.IH [of ?m ?q] Cons.prems(1) dir by auto
  have step: "sys_mkdirs m cur (c # d) = sys_mkdirs ?m ?q d"
    using Cons.prems(1,2) by (auto simp: plain_part_def way_free_Cons split: option.splits fnode.splits)
  have split: "(\<exists>p. p \<noteq> [] \<and> prefix p (c # d) \<and> q = cur @ p) \<longleftrightarrow>
      q = ?q \<or> (\<exists>p. p \<noteq> [] \<and> prefix p d \<and> q = ?q @ p)" for q
    by (auto simp: prefix_Cons)
  have all: "map_of m' q = (if \<exists>p. p \<noteq> [] \<and> prefix p (c # d) \<and> q = cur @ p then Some FDir else map_of m q)" for q
    using Cons.prems(2) unfolding split by (auto simp: m'(4) look way_free_Cons)
  have "is_dir m' cur"
    using Cons.prems(3) all [of cur] by (auto simp: is_dir_def)
  moreover have "bt_ok m \<longrightarrow> bt_ok m'" using m'(3) by auto
  ultimately show ?case
    using step m'(1,2) all by (simp add: way_dirs_Cons)
qed simp

text \<open>Writing through the file beside it: the target holds the bytes, that file is gone.\<close>

lemma replace_file_plain:
  assumes d: "plain_path d" "way_free m [] d" and n: "plain_part n" and t: "with_tmp (d @ [n]) = d @ [t]" "plain_part t" "t \<noteq> n"
    and nodir: "\<not> is_dir m (d @ [n])" "\<not> is_dir m (d @ [t])"
  shows "\<exists>m'. replace_file m (d @ [n]) b = Inr m' \<and> (bt_ok m \<longrightarrow> bt_ok m') \<and>
    (\<forall>q. map_of m' q = (if q = d @ [n] then Some (FFile b) else if q = d @ [t] then None
       else if q \<noteq> [] \<and> prefix q d then Some FDir else map_of m q))"
proof -
  obtain m1 where m1: "sys_mkdirs m [] d = Inr m1" "way_dirs m1 [] d" "bt_ok m \<longrightarrow> bt_ok m1"
      "\<And>q. map_of m1 q = (if \<exists>p. p \<noteq> [] \<and> prefix p d \<and> q = [] @ p then Some FDir else map_of m q)"
    using mkdirs_plain [OF d, of] by (auto simp: is_dir_def)
  have look1: "map_of m1 q = (if q \<noteq> [] \<and> prefix q d then Some FDir else map_of m q)" for q
    using m1(4) by auto
  have no_dir: "\<not> is_dir m1 (d @ [n])" "\<not> is_dir m1 (d @ [t])"
    using nodir by (auto simp: is_dir_def look1 dest: prefix_length_le)
  let ?m2 = "bt_insert (d @ [t]) (FFile b) m1"
  have keep: "is_dir ?m2 q \<longleftrightarrow> is_dir m1 q" if "q \<noteq> d @ [t]" for q
    using that by (simp add: is_dir_def)
  have way2: "way_dirs ?m2 [] d"
    using m1(2) unfolding way_dirs_def by (auto simp: is_dir_def dest: prefix_length_le)
  have w1: "locate m1 [] (d @ [t]) = Some (d @ [t])"
    using walk_plain [OF d(1) t(2) m1(2)] by simp
  have w2: "locate ?m2 [] (d @ [t]) = Some (d @ [t])" "locate ?m2 [] (d @ [n]) = Some (d @ [n])"
    using walk_plain [OF d(1) t(2) way2] walk_plain [OF d(1) n way2] by simp_all
  have "replace_file m (d @ [n]) b = Inr (bt_insert (d @ [n]) (FFile b) (bt_remove (d @ [t]) ?m2))"
    using no_dir t(3) by (simp add: replace_file_def m1(1) t(1) sys_write_def w1 sys_rename_def w2 keep)
  then show ?thesis
    using m1(3) t(3) by (auto simp: look1)
qed

text \<open>What a listing of a directory under the root holds.\<close>

lemma read_dir_names:
  assumes ok: "bt_ok m" and top: "map_of m [d] = Some FDir" and d: "plain_part d"
  shows "\<exists>names. sys_read_dir m [d] = Some names \<and> distinct names \<and>
    (\<forall>e. e \<in> set names \<longleftrightarrow> map_of m [d, e] \<noteq> None)"
proof -
  let ?ms = "filter (\<lambda>e. fst e \<noteq> [] \<and> butlast (fst e) = [d]) m"
  let ?names = "map (last \<circ> fst) ?ms"
  have shape: "p \<noteq> [] \<and> butlast p = [d] \<longleftrightarrow> p = [d, last p]" for p :: fpath
    by (metis append_butlast_last_id append_Cons append_Nil butlast_snoc last_snoc list.distinct(1))
  have "sys_read_dir m [d] = Some ?names"
    using top d by (simp add: sys_read_dir_def is_dir_def plain_part_def)
  moreover have "distinct ?names"
  proof -
    have "map fst ?ms = map (\<lambda>n. [d, n]) ?names"
      unfolding map_map by (rule map_cong [OF refl]) (simp add: shape)
    moreover have "distinct (map fst ?ms)" by (rule distinct_map_filter [OF bt_ok_distinct [OF ok]])
    ultimately show ?thesis by (simp only: distinct_map)
  qed
  moreover have "e \<in> set ?names \<longleftrightarrow> map_of m [d, e] \<noteq> None" for e
  proof
    assume "e \<in> set ?names"
    then obtain p n where "(p, n) \<in> set m" "p = [d, e]" by (auto simp: shape)
    then show "map_of m [d, e] \<noteq> None" using bt_get_in [OF ok] by auto
  next
    assume "map_of m [d, e] \<noteq> None"
    then obtain n where n: "([d, e], n) \<in> set m" using bt_get_in [OF ok] by auto
    show "e \<in> set ?names"
      unfolding set_map by (rule image_eqI [of _ _ "([d, e], n)"]) (simp_all add: n)
  qed
  ultimately show ?thesis by blast
qed

end
