(* ===== verification/CodeStore.thy ===== *)
theory CodeStore
  imports CodeFiles SmallStores SessionStore
begin

section \<open>The store of the terminal client (apps/code/src/backend)\<close>

text \<open>
  The six interfaces of the store over a directory instead of a keyspace: agents, memory and
  skills are a file each, a session is a directory of its metadata, its messages and events as
  JSON lines and the name of its archive, subscriptions are one document, harness images a file
  per digest. Ranking reads the whole corpus, since no postings are kept. The clock is an
  argument. What the operations guarantee is proved in the theories on top of this one.
\<close>

record code_env =
  ce_agents :: agent_env
  ce_wire :: wire
  ce_skills :: skill_env
  ce_meta :: "session_meta codec"
  ce_entry :: "history_entry codec"
  ce_event :: "event_line codec"
  ce_memory :: "memory_entry codec"
  ce_subs :: "event_subscription list codec"

abbreviation ce_unicode :: "code_env \<Rightarrow> unicode" where
  "ce_unicode C \<equiv> ae_unicode (ce_agents C)"

definition open_store :: "files \<Rightarrow> crab_error + files" where
  "open_store m =
     foldl (\<lambda>r d. bindr r (\<lambda>m'. sys_mkdirs m' [] [d])) (Inr m)
       [''agents'', ''sessions'', ''memory'', ''skills'', ''harnesses'']"

subsection \<open>Sessions (session.rs)\<close>

definition session_dir :: "session_handle \<Rightarrow> fpath" where
  "session_dir h = [''sessions'', encode h]"

definition meta_path :: "session_handle \<Rightarrow> fpath" where
  "meta_path h = session_dir h @ [''meta.json'']"

definition messages_path :: "session_handle \<Rightarrow> fpath" where
  "messages_path h = session_dir h @ [''messages.jsonl'']"

definition events_path :: "session_handle \<Rightarrow> fpath" where
  "events_path h = session_dir h @ [''events.jsonl'']"

definition archive_path :: "session_handle \<Rightarrow> fpath" where
  "archive_path h = session_dir h @ [''archive'']"

definition session_meta_at :: "code_env \<Rightarrow> files \<Rightarrow> session_handle \<Rightarrow> crab_error + session_meta option" where
  "session_meta_at C m h = read_json (ce_meta C) m (meta_path h)"

definition messages :: "code_env \<Rightarrow> files \<Rightarrow> session_handle \<Rightarrow> history_entry list" where
  "messages C m h = read_lines (ce_entry C) m (messages_path h)"

definition handles :: "files \<Rightarrow> session_handle list" where
  "handles m =
     (case sys_read_dir m [''sessions''] of None \<Rightarrow> [] | Some names \<Rightarrow> sort (map decode names))"

definition create_session_dir ::
  "code_env \<Rightarrow> files \<Rightarrow> session_handle \<Rightarrow> agent_id \<Rightarrow> bytes \<Rightarrow> bytes option \<Rightarrow> bytes \<Rightarrow> crab_error + files" where
  "create_session_dir C m h agent created_by rt now =
     write_json (ce_meta C) m (meta_path h)
       \<lparr>sm_agent = agent, sm_created_by = created_by, sm_created_at = now, sm_title = [],
        sm_updated_at = now, sm_message_count = 0, sm_summary = None, sm_root = rt\<rparr>"

definition load_session_dir ::
  "code_env \<Rightarrow> files \<Rightarrow> session_handle \<Rightarrow> crab_error + session_snapshot option" where
  "load_session_dir C m h =
     bindr (session_meta_at C m h)
       (\<lambda>r. case r of
          None \<Rightarrow> Inr None
        | Some meta \<Rightarrow>
            Inr (Some \<lparr>ss_meta = meta, ss_history = messages C m h,
              ss_archive = map_option (trim (ce_unicode C)) (sys_read_string m (archive_path h))\<rparr>))"

fun read_metas_dir ::
  "code_env \<Rightarrow> files \<Rightarrow> session_handle list \<Rightarrow> crab_error + (session_handle \<times> session_meta) list" where
  "read_metas_dir C m [] = Inr []"
| "read_metas_dir C m (h # hs) =
     bindr (session_meta_at C m h)
       (\<lambda>r. bindr (read_metas_dir C m hs)
          (\<lambda>rest. Inr (case r of None \<Rightarrow> rest | Some meta \<Rightarrow> (h, meta) # rest)))"

definition list_sessions_dir ::
  "code_env \<Rightarrow> files \<Rightarrow> crab_error + (session_handle \<times> session_meta) list" where
  "list_sessions_dir C m =
     bindr (read_metas_dir C m (handles m)) (\<lambda>out. Inr (sort_by listed_before out))"

definition append_session_messages_dir ::
  "code_env \<Rightarrow> files \<Rightarrow> session_handle \<Rightarrow> history_entry list \<Rightarrow> bytes \<Rightarrow> crab_error + files" where
  "append_session_messages_dir C m h entries now =
     (if entries = [] then Inr m
      else bindr (session_meta_at C m h)
        (\<lambda>r. case r of
           None \<Rightarrow> Inl (Refused (SessionNotFound h))
         | Some meta \<Rightarrow>
             bindr (append_json (ce_entry C) m (messages_path h) entries)
               (\<lambda>m1. write_json (ce_meta C) m1 (meta_path h)
                  (meta\<lparr>sm_message_count := sm_message_count meta + length entries, sm_updated_at := now\<rparr>))))"

definition append_session_events_dir ::
  "code_env \<Rightarrow> files \<Rightarrow> session_handle \<Rightarrow> event_line list \<Rightarrow> crab_error + files" where
  "append_session_events_dir C m h events = append_json (ce_event C) m (events_path h) events"

definition truncate_session_messages_dir ::
  "code_env \<Rightarrow> files \<Rightarrow> session_handle \<Rightarrow> nat \<Rightarrow> crab_error + files" where
  "truncate_session_messages_dir C m h keep =
     bindr (session_meta_at C m h)
       (\<lambda>r. case r of
          None \<Rightarrow> Inr m
        | Some meta \<Rightarrow>
            (let history = messages C m h; kept = min keep (length history) in
             bindr (write_lines (ce_entry C) m (messages_path h) (take kept history))
               (\<lambda>m1. write_json (ce_meta C) m1 (meta_path h) (meta\<lparr>sm_message_count := kept\<rparr>))))"

definition append_session_compact_dir ::
  "code_env \<Rightarrow> files \<Rightarrow> session_handle \<Rightarrow> bytes \<Rightarrow> crab_error + files" where
  "append_session_compact_dir C m h arch =
     bindr (truncate_session_messages_dir C m h 0) (\<lambda>m1. sys_write m1 (archive_path h) arch)"

definition update_session_meta_dir ::
  "code_env \<Rightarrow> files \<Rightarrow> session_handle \<Rightarrow> session_meta \<Rightarrow> crab_error + files" where
  "update_session_meta_dir C m h meta =
     bindr (session_meta_at C m h)
       (\<lambda>r. write_json (ce_meta C) m (meta_path h)
          (case r of None \<Rightarrow> meta
           | Some stored \<Rightarrow> meta\<lparr>sm_message_count := sm_message_count stored\<rparr>))"

definition delete_session_dir :: "files \<Rightarrow> session_handle \<Rightarrow> bool \<times> files" where
  "delete_session_dir m h = sys_remove_dir_all m (session_dir h)"

fun delete_listed_dir ::
  "files \<Rightarrow> agent_id \<Rightarrow> (session_handle \<times> session_meta) list \<Rightarrow> nat \<times> files" where
  "delete_listed_dir m agent [] = (0, m)"
| "delete_listed_dir m agent ((h, meta) # rest) =
     (if sm_agent meta = agent then
        (let (existed, m1) = delete_session_dir m h; (n, m2) = delete_listed_dir m1 agent rest
         in ((if existed then 1 else 0) + n, m2))
      else delete_listed_dir m agent rest)"

definition delete_sessions_of_dir :: "code_env \<Rightarrow> files \<Rightarrow> agent_id \<Rightarrow> crab_error + nat \<times> files" where
  "delete_sessions_of_dir C m agent =
     bindr (list_sessions_dir C m) (\<lambda>out. Inr (delete_listed_dir m agent out))"

subsection \<open>Ranking without postings (search.rs)\<close>

record sdoc =
  sd_text :: bytes
  sd_weight :: real

definition term_counts :: "bytes list list \<Rightarrow> bytes \<Rightarrow> nat list" where
  "term_counts tokenized t = map (\<lambda>d. length (filter (\<lambda>x. x = t) d)) tokenized"

text \<open>One query term: what it adds to the score of every document.\<close>

definition rank_term :: "nat \<Rightarrow> real \<Rightarrow> (bytes list \<times> real) list \<Rightarrow> bytes \<Rightarrow> real list \<Rightarrow> real list" where
  "rank_term n avgdl ds t scores =
     (let counts = term_counts (map fst ds) t;
          df = length (filter (\<lambda>c. c > 0) counts)
      in if df = 0 then scores
         else map (\<lambda>((d, w), tf, s).
             if tf = 0 then s
             else s + idf df n * weigh bm25_default tf (length d mod 2 ^ 32) avgdl * w)
           (zip ds (zip counts scores)))"

definition rank :: "unicode \<Rightarrow> sdoc list \<Rightarrow> bytes \<Rightarrow> nat \<Rightarrow> (nat \<times> real) list" where
  "rank U docs query limit =
     (let terms = filter (\<lambda>t. \<not> is_stopword t) (tokenize U query) in
      if terms = [] \<or> limit = 0 \<or> docs = [] then []
      else
        let tokenized = map (\<lambda>d. tokenize U (sd_text d)) docs;
            avgdl = real (sum_list (map length tokenized)) / real (length docs)
        in if avgdl = 0 then []
           else
             let scores = foldl (\<lambda>s t. rank_term (length docs) avgdl (zip tokenized (map sd_weight docs)) t s)
                   (replicate (length docs) 0) terms
             in take limit (sort_by (\<lambda>a b. snd b \<le> snd a)
                  (filter (\<lambda>e. snd e > 0) (enumerate 0 scores))))"

subsection \<open>Searching sessions (session.rs)\<close>

text \<open>The window a hit is shown in: the turns around it, at most sixteen.\<close>

definition window_dir :: "code_env \<Rightarrow> history_entry list \<Rightarrow> nat \<Rightarrow> search_options \<Rightarrow> window_item list" where
  "window_dir C history pos opts =
     (let before = min (so_context_before opts) MAX_WINDOW_ITEMS;
          after = min (so_context_after opts) MAX_WINDOW_ITEMS;
          first = pos - before;
          final = min (min (pos + after) (2 ^ 64 - 1)) (length history - 1)
      in map (\<lambda>(idx, e).
           (let (s, c) = snippet (ce_wire C) e in
            \<lparr>wi_role = entry_role e, wi_msg_idx = idx mod 2 ^ 32, wi_snippet = s, wi_truncated = c,
             wi_tool_name = entry_tool_name (ce_wire C) e\<rparr>))
           (take MAX_WINDOW_ITEMS (drop first (take (final + 1) (enumerate 0 history)))))"

type_synonym loaded = "(session_handle \<times> session_meta \<times> history_entry list) list"

definition load_all :: "code_env \<Rightarrow> files \<Rightarrow> (session_handle \<times> session_meta) list \<Rightarrow> loaded" where
  "load_all C m out = map (\<lambda>(h, meta). (h, meta, messages C m h)) out"

text \<open>The documents of the corpus, each with the session and the turn it came from.\<close>

definition message_docs :: "code_env \<Rightarrow> loaded \<Rightarrow> (sdoc \<times> (nat \<times> nat)) list" where
  "message_docs C loaded =
     concat (map (\<lambda>(n, h, meta, history).
       List.map_filter (\<lambda>(idx, e).
         case indexable (ce_wire C) e of
           None \<Rightarrow> None
         | Some (body, tag) \<Rightarrow>
             Some (\<lparr>sd_text = body, sd_weight = of_rat (message_weight tag)\<rparr>, (n, idx)))
         (enumerate 0 history))
       (enumerate 0 loaded))"

definition meta_docs :: "loaded \<Rightarrow> (sdoc \<times> (nat \<times> real)) list" where
  "meta_docs loaded =
     concat (map (\<lambda>(n, h, meta, history).
       (if sm_title meta \<noteq> []
        then [(\<lparr>sd_text = sm_title meta, sd_weight = 1\<rparr>, (n, wt_title_boost weights_default))] else []) @
       (case sm_summary meta of
          None \<Rightarrow> []
        | Some s \<Rightarrow> [(\<lparr>sd_text = s, sd_weight = 1\<rparr>, (n, wt_summary_boost weights_default))]))
       (enumerate 0 loaded))"

fun best_of :: "(nat \<times> nat) list \<Rightarrow> (nat \<times> real) list \<Rightarrow> (nat \<times> (nat \<times> real)) list \<Rightarrow> (nat \<times> (nat \<times> real)) list" where
  "best_of located [] best = best"
| "best_of located ((d, score) # ranked) best =
     (let (n, idx) = located ! d in
      best_of located ranked
        (case map_of best n of
           None \<Rightarrow> bt_insert n (idx, score) best
         | Some (i, s) \<Rightarrow> if score > s then bt_insert n (idx, score) best else best))"

fun boosts_of :: "(nat \<times> real) list \<Rightarrow> (nat \<times> real) list \<Rightarrow> (nat \<times> real) list \<Rightarrow> (nat \<times> real) list" where
  "boosts_of located [] boosts = boosts"
| "boosts_of located ((d, score) # ranked) boosts =
     (let (n, b) = located ! d in
      boosts_of located ranked
        (bt_insert n ((case map_of boosts n of None \<Rightarrow> 0 | Some x \<Rightarrow> x) + b) boosts))"

definition agent_path :: "code_env \<Rightarrow> agent_id \<Rightarrow> fpath" where
  "agent_path C i = [''agents'', encode (ulid_show (ae_ulid (ce_agents C)) i) @ ''.json'']"

definition load_agent_dir :: "code_env \<Rightarrow> files \<Rightarrow> agent_id \<Rightarrow> crab_error + agent_config option" where
  "load_agent_dir C m i = read_json (ae_codec (ce_agents C)) m (agent_path C i)"

fun collect_hits_dir ::
  "code_env \<Rightarrow> files \<Rightarrow> search_options \<Rightarrow> loaded \<Rightarrow> (nat \<times> real) list \<Rightarrow> (nat \<times> (nat \<times> real)) list \<Rightarrow>
   crab_error + session_hit list" where
  "collect_hits_dir C m opts loaded boosts [] = Inr []"
| "collect_hits_dir C m opts loaded boosts ((n, (idx, score)) # rest) =
     (let (h, meta, history) = loaded ! n in
      if (case so_agent_filter opts of None \<Rightarrow> False | Some i \<Rightarrow> sm_agent meta \<noteq> i) \<or>
         (case so_sender_filter opts of None \<Rightarrow> False | Some s \<Rightarrow> sm_created_by meta \<noteq> s)
      then collect_hits_dir C m opts loaded boosts rest
      else
        bindr (load_agent_dir C m (sm_agent meta))
          (\<lambda>config. bindr (collect_hits_dir C m opts loaded boosts rest)
            (\<lambda>hits. Inr (\<lparr>sh_handle = h, sh_msg_idx = idx mod 2 ^ 32,
               sh_score = score + (case map_of boosts n of None \<Rightarrow> 0 | Some b \<Rightarrow> b),
               sh_title = sm_title meta, sh_agent = sm_agent meta,
               sh_agent_name = (case config of None \<Rightarrow> [] | Some c \<Rightarrow> ag_name c),
               sh_sender = sm_created_by meta, sh_created_at = sm_created_at meta,
               sh_updated_at = sm_updated_at meta, sh_window = window_dir C history idx opts\<rparr> # hits))))"

definition search_sessions_dir ::
  "code_env \<Rightarrow> files \<Rightarrow> bytes \<Rightarrow> search_options \<Rightarrow> crab_error + session_hit list" where
  "search_sessions_dir C m query opts =
     (let limit = min MAX_HITS_PER_QUERY (max 1 (so_limit opts));
          candidates = limit * wt_candidates_per_hit weights_default in
      bindr (list_sessions_dir C m)
        (\<lambda>out.
           let loaded = load_all C m out;
               docs = message_docs C loaded;
               mdocs = meta_docs loaded;
               best = best_of (map snd docs) (rank (ce_unicode C) (map fst docs) query candidates) []
           in if best = [] then Inr []
              else
                let boosts = boosts_of (map snd mdocs) (rank (ce_unicode C) (map fst mdocs) query candidates) []
                in bindr (collect_hits_dir C m opts loaded boosts best)
                     (\<lambda>hits. Inr (take limit (sort_by (\<lambda>a b. sh_score b \<le> sh_score a) hits)))))"

subsection \<open>Agents (agent.rs)\<close>

definition default_agent_path :: fpath where
  "default_agent_path = [''agents'', ''default'']"

fun read_agents :: "code_env \<Rightarrow> files \<Rightarrow> bytes list \<Rightarrow> crab_error + agent_config list" where
  "read_agents C m [] = Inr []"
| "read_agents C m (name # names) =
     (case ulid_parse (ae_ulid (ce_agents C)) name of
        None \<Rightarrow> read_agents C m names
      | Some i \<Rightarrow>
          bindr (load_agent_dir C m i)
            (\<lambda>r. bindr (read_agents C m names)
               (\<lambda>out. Inr (case r of None \<Rightarrow> out | Some c \<Rightarrow> c # out))))"

definition all_agents :: "code_env \<Rightarrow> files \<Rightarrow> crab_error + agent_config list" where
  "all_agents C m =
     bindr (read_agents C m (names_in m [''agents''] ''.json''))
       (\<lambda>out. Inr (sort_by (\<lambda>a b. ag_name a \<le> ag_name b) out))"

definition load_agent_by_name_dir :: "code_env \<Rightarrow> files \<Rightarrow> bytes \<Rightarrow> crab_error + agent_config option" where
  "load_agent_by_name_dir C m name =
     bindr (all_agents C m) (\<lambda>out. Inr (find (\<lambda>c. ag_name c = name) out))"

definition agent_ids_dir :: "code_env \<Rightarrow> files \<Rightarrow> crab_error + agent_id list" where
  "agent_ids_dir C m = bindr (all_agents C m) (\<lambda>out. Inr (map ag_id out))"

definition refused :: "store_error + 'a \<Rightarrow> crab_error + 'a" where
  "refused = map_sum Refused id"

definition upsert_agent_dir :: "code_env \<Rightarrow> files \<Rightarrow> agent_config \<Rightarrow> crab_error + files" where
  "upsert_agent_dir C m c =
     bindr (refused (validate_table_name (ce_unicode C) (ag_name c)))
       (\<lambda>_. write_json (ae_codec (ce_agents C)) m (agent_path C (ag_id c)) c)"

definition delete_agent_dir :: "code_env \<Rightarrow> files \<Rightarrow> agent_id \<Rightarrow> bool \<times> files" where
  "delete_agent_dir C m i = sys_remove_file m (agent_path C i)"

definition rename_agent_dir :: "code_env \<Rightarrow> files \<Rightarrow> agent_id \<Rightarrow> bytes \<Rightarrow> crab_error + bool \<times> files" where
  "rename_agent_dir C m i new_name =
     bindr (refused (validate_table_name (ce_unicode C) new_name))
       (\<lambda>_. bindr (load_agent_dir C m i)
         (\<lambda>r. case r of
            None \<Rightarrow> Inr (False, m)
          | Some c \<Rightarrow>
              bindr (write_json (ae_codec (ce_agents C)) m (agent_path C i) (c\<lparr>ag_name := new_name\<rparr>))
                (\<lambda>m1. Inr (True, m1))))"

definition default_agent_dir :: "code_env \<Rightarrow> files \<Rightarrow> agent_id option" where
  "default_agent_dir C m =
     (case sys_read_string m default_agent_path of
        None \<Rightarrow> None
      | Some raw \<Rightarrow> ulid_parse (ae_ulid (ce_agents C)) (trim (ce_unicode C) raw))"

definition set_default_agent_dir :: "code_env \<Rightarrow> files \<Rightarrow> agent_id \<Rightarrow> crab_error + files" where
  "set_default_agent_dir C m i = sys_write m default_agent_path (ulid_show (ae_ulid (ce_agents C)) i)"

subsection \<open>Memory (memory.rs)\<close>

definition memory_path :: "bytes \<Rightarrow> fpath" where
  "memory_path name = [''memory'', encode name @ ''.json'']"

definition memory_file :: "code_env \<Rightarrow> files \<Rightarrow> bytes \<Rightarrow> crab_error + memory_entry option" where
  "memory_file C m name = read_json (ce_memory C) m (memory_path name)"

definition memory_names_dir :: "files \<Rightarrow> bytes list" where
  "memory_names_dir m = names_in m [''memory''] ''.json''"

definition memory_names_under_dir :: "files \<Rightarrow> bytes \<Rightarrow> bytes list" where
  "memory_names_under_dir m stem = filter (prefix stem) (memory_names_dir m)"

definition put_memory_dir :: "code_env \<Rightarrow> files \<Rightarrow> memory_entry \<Rightarrow> crab_error + files" where
  "put_memory_dir C m e = write_json (ce_memory C) m (memory_path (me_name e)) e"

definition remove_memory_dir :: "files \<Rightarrow> bytes \<Rightarrow> bool \<times> files" where
  "remove_memory_dir m name = sys_remove_file m (memory_path name)"

fun memory_docs :: "code_env \<Rightarrow> files \<Rightarrow> bytes list \<Rightarrow> crab_error + (bytes \<times> sdoc) list" where
  "memory_docs C m [] = Inr []"
| "memory_docs C m (name # names) =
     bindr (memory_file C m name)
       (\<lambda>r. bindr (memory_docs C m names)
          (\<lambda>out. Inr (case r of
             None \<Rightarrow> out
           | Some e \<Rightarrow> (name, \<lparr>sd_text = memory_text e, sd_weight = 1\<rparr>) # out)))"

definition search_memory_dir :: "code_env \<Rightarrow> files \<Rightarrow> bytes \<Rightarrow> nat \<Rightarrow> crab_error + bytes list" where
  "search_memory_dir C m query limit =
     bindr (memory_docs C m (memory_names_dir m))
       (\<lambda>docs. Inr (map (\<lambda>(n, _). fst (docs ! n)) (rank (ce_unicode C) (map snd docs) query limit)))"

subsection \<open>Skills, harness images, subscriptions (skill.rs, harness.rs, event.rs)\<close>

definition skill_path :: "bytes \<Rightarrow> fpath" where
  "skill_path name = [''skills'', encode name @ ''.md'']"

definition load_skill_dir :: "code_env \<Rightarrow> files \<Rightarrow> bytes \<Rightarrow> crab_error + skill option" where
  "load_skill_dir C m name =
     (case sys_read_string m (skill_path name) of
        None \<Rightarrow> Inr None
      | Some md \<Rightarrow> bindr (refused (skill_from_str (ce_skills C) md)) (\<lambda>s. Inr (Some s)))"

fun read_skills :: "code_env \<Rightarrow> files \<Rightarrow> bytes list \<Rightarrow> crab_error + skill_summary list" where
  "read_skills C m [] = Inr []"
| "read_skills C m (name # names) =
     bindr (load_skill_dir C m name)
       (\<lambda>r. bindr (read_skills C m names)
          (\<lambda>out. Inr (case r of None \<Rightarrow> out | Some s \<Rightarrow> summary_of s # out)))"

definition list_skills_dir :: "code_env \<Rightarrow> files \<Rightarrow> nat \<Rightarrow> nat \<Rightarrow> crab_error + skill_summary list" where
  "list_skills_dir C m limit offset =
     read_skills C m (take limit (drop offset (names_in m [''skills''] ''.md'')))"

definition put_skill_dir :: "code_env \<Rightarrow> files \<Rightarrow> bytes \<Rightarrow> crab_error + skill_summary \<times> files" where
  "put_skill_dir C m md =
     bindr (refused (skill_from_str (ce_skills C) md))
       (\<lambda>s. bindr (sys_write m (skill_path (sk_name s)) md) (\<lambda>m1. Inr (summary_of s, m1)))"

definition remove_skill_dir :: "files \<Rightarrow> bytes \<Rightarrow> bool \<times> files" where
  "remove_skill_dir m name = sys_remove_file m (skill_path name)"

definition image_path :: "bytes \<Rightarrow> fpath" where
  "image_path d = [''harnesses'', encode d]"

definition harness_name_path :: "bytes \<Rightarrow> fpath" where
  "harness_name_path name = [''harnesses'', ''names'', encode name]"

definition harness_image_dir :: "files \<Rightarrow> bytes \<Rightarrow> bytes option" where
  "harness_image_dir m d = sys_read m (image_path d)"

definition put_harness_image_dir :: "files \<Rightarrow> bytes \<Rightarrow> bytes \<Rightarrow> crab_error + bytes \<times> files" where
  "put_harness_image_dir m name bs =
     (let d = digest bs in
      bindr (sys_write m (image_path d) bs)
        (\<lambda>m1. bindr (sys_mkdirs m1 [] (butlast (harness_name_path name)))
          (\<lambda>m2. bindr (sys_write m2 (harness_name_path name) d) (\<lambda>m3. Inr (d, m3)))))"

definition resolve_harness_dir :: "code_env \<Rightarrow> files \<Rightarrow> bytes \<Rightarrow> bytes option" where
  "resolve_harness_dir C m name =
     map_option (trim (ce_unicode C)) (sys_read_string m (harness_name_path name))"

definition subscriptions_path :: fpath where
  "subscriptions_path = [''subscriptions.json'']"

definition subscriptions_dir :: "code_env \<Rightarrow> files \<Rightarrow> crab_error + event_subscription list" where
  "subscriptions_dir C m =
     bindr (read_json (ce_subs C) m subscriptions_path)
       (\<lambda>r. Inr (case r of None \<Rightarrow> [] | Some subs \<Rightarrow> subs))"

text \<open>The first held one with the same id is replaced, else the new one goes to the end.\<close>

fun put_sub :: "event_subscription \<Rightarrow> event_subscription list \<Rightarrow> event_subscription list" where
  "put_sub s [] = [s]"
| "put_sub s (held # subs) = (if es_id held = es_id s then s # subs else held # put_sub s subs)"

definition put_subscription_dir :: "code_env \<Rightarrow> files \<Rightarrow> event_subscription \<Rightarrow> crab_error + files" where
  "put_subscription_dir C m s =
     bindr (subscriptions_dir C m) (\<lambda>subs. write_json (ce_subs C) m subscriptions_path (put_sub s subs))"

definition remove_subscription_dir :: "code_env \<Rightarrow> files \<Rightarrow> nat \<Rightarrow> crab_error + bool \<times> files" where
  "remove_subscription_dir C m i =
     bindr (subscriptions_dir C m)
       (\<lambda>subs.
          let kept = filter (\<lambda>s. es_id s \<noteq> i) subs in
          if length kept = length subs then Inr (False, m)
          else bindr (write_json (ce_subs C) m subscriptions_path kept) (\<lambda>m1. Inr (True, m1)))"

end
