(* ===== verification/CodeSessions.thy ===== *)
theory CodeSessions
  imports CodeStore SessionSearch
begin

section \<open>The sessions of the terminal client are those of the keyspace\<close>

text \<open>
  The invariant of a sessions directory: every session of the map is a directory of its own, whose
  messages file is one whole line per turn, and nothing else lies there. Each operation is the
  operation on the map of sessions that the keyspace store refines too, so the two stores load
  and list the same.
\<close>

subsection \<open>A session as its directory\<close>

definition name_ok :: "bytes \<Rightarrow> bool" where
  "name_ok h \<longleftrightarrow> valid_utf8 h \<and> plain_part h"

lemma plain_encode [simp]: "plain_part (encode h) \<longleftrightarrow> plain_part h"
  unfolding plain_part_def by (metis encode_dots encode_inj)

text \<open>The messages file is whole lines, one per turn, each reading back as that turn.\<close>

definition entry_lines :: "code_env \<Rightarrow> fnode option \<Rightarrow> history_entry list \<Rightarrow> bool" where
  "entry_lines C node es \<longleftrightarrow>
     (\<exists>ls. (node = None \<and> ls = [] \<or> node = Some (FFile (concat (map (\<lambda>l. l @ newline) ls)))) \<and>
        (\<forall>l \<in> set ls. l \<noteq> [] \<and> CHR 0x0A \<notin> set l) \<and> map (from_json (ce_entry C)) ls = map Some es) \<and>
     (\<forall>e \<in> set es. persisted_entry e = e)"

definition archive_file :: "code_env \<Rightarrow> fnode option \<Rightarrow> bytes option \<Rightarrow> bool" where
  "archive_file C node arch \<longleftrightarrow>
     (case arch of
        None \<Rightarrow> node = None
      | Some a \<Rightarrow> \<exists>b. node = Some (FFile b) \<and> valid_utf8 b \<and> trim (ce_unicode C) b = a)"

definition session_files :: "code_env \<Rightarrow> files \<Rightarrow> session_handle \<Rightarrow> session_state \<Rightarrow> bool" where
  "session_files C m h S \<longleftrightarrow>
     (case S of (meta, es, arch) \<Rightarrow>
        map_of m (session_dir h) = Some FDir \<and>
        (\<exists>b. map_of m (meta_path h) = Some (FFile b) \<and> from_json (ce_meta C) b = Some meta) \<and>
        sm_message_count meta = length es \<and>
        entry_lines C (map_of m (messages_path h)) es \<and>
        archive_file C (map_of m (archive_path h)) arch \<and>
        map_of m (session_dir h @ [''meta.tmp'']) = None \<and> map_of m (session_dir h @ [''messages.tmp'']) = None)"

definition code_env_ok :: "code_env \<Rightarrow> bool" where
  "code_env_ok C \<longleftrightarrow>
     codec_ok id (ce_meta C) \<and> line_codec_ok persisted_entry (ce_entry C) \<and> agent_env_ok (ce_agents C)"

lemma lines_split:
  assumes "\<forall>l \<in> set ls. CHR 0x0A \<notin> set l"
  shows "split_char (CHR 0x0A) (concat (map (\<lambda>l. l @ newline) ls) @ t) = ls @ split_char (CHR 0x0A) t"
  using assms
proof (induction ls)
  case (Cons l ls)
  have "split_when (\<lambda>c. c = CHR 0x0A) (l @ CHR 0x0A # (concat (map (\<lambda>l. l @ newline) ls) @ t)) =
      l # split_when (\<lambda>c. c = CHR 0x0A) (concat (map (\<lambda>l. l @ newline) ls) @ t)"
    using Cons.prems by (intro split_when_append) auto
  then show ?case using Cons by (simp add: split_char_def newline_def)
qed simp

lemma map_filter_some: "map f ls = map Some es \<Longrightarrow> List.map_filter f ls = es"
  by (induction ls arbitrary: es) (auto simp: map_filter_simps)

lemma lines_of_whole:
  assumes "\<forall>l \<in> set ls. l \<noteq> [] \<and> CHR 0x0A \<notin> set l" and "map (from_json J) ls = map Some es"
  shows "lines_of J (concat (map (\<lambda>l. l @ newline) ls)) = es"
proof -
  have "split_char (CHR 0x0A) (concat (map (\<lambda>l. l @ newline) ls) @ []) = ls @ [[]]"
    using assms(1) by (subst lines_split) (auto simp: split_char_def)
  moreover have "filter (\<lambda>l. l \<noteq> []) ls = ls" using assms(1) by (simp add: filter_id_conv)
  ultimately show ?thesis using map_filter_some [OF assms(2)] by (simp add: lines_of_def)
qed

lemma json_lines_encoded:
  "json_lines J vs = concat (map (\<lambda>l. l @ newline) (map (to_json J) vs))"
  by (simp add: json_lines_def comp_def)

lemma encoded_lines:
  assumes "line_codec_ok p J"
  shows "\<forall>l \<in> set (map (to_json J) vs). l \<noteq> [] \<and> CHR 0x0A \<notin> set l"
    and "map (from_json J) (map (to_json J) vs) = map Some (map p vs)"
proof -
  have J: "from_json J (to_json J v) = Some (p v)" "to_json J v \<noteq> []" "CHR 0x0A \<notin> set (to_json J v)" for v
    using assms by (simp_all add: line_codec_ok_def codec_ok_def)
  show "\<forall>l \<in> set (map (to_json J) vs). l \<noteq> [] \<and> CHR 0x0A \<notin> set l"
    "map (from_json J) (map (to_json J) vs) = map Some (map p vs)"
    by (simp_all add: J)
qed

lemma entry_lines_encoded:
  assumes "line_codec_ok persisted_entry (ce_entry C)"
  shows "entry_lines C (Some (FFile (json_lines (ce_entry C) es))) (map persisted_entry es)"
  unfolding entry_lines_def json_lines_encoded
  using encoded_lines [OF assms, of es]
  by (intro conjI exI [of _ "map (to_json (ce_entry C)) es"]) (auto simp: persisted_entry_def)

lemma entry_lines_append:
  assumes "line_codec_ok persisted_entry (ce_entry C)" and "entry_lines C node es"
  shows "entry_lines C (Some (FFile ((case node of Some (FFile old) \<Rightarrow> old | _ \<Rightarrow> []) @ json_lines (ce_entry C) ns)))
    (es @ map persisted_entry ns)"
proof -
  obtain ls where ls: "node = None \<and> ls = [] \<or> node = Some (FFile (concat (map (\<lambda>l. l @ newline) ls)))"
      "\<forall>l \<in> set ls. l \<noteq> [] \<and> CHR 0x0A \<notin> set l" "map (from_json (ce_entry C)) ls = map Some es"
      "\<forall>e \<in> set es. persisted_entry e = e"
    using assms(2) by (auto simp: entry_lines_def)
  obtain ks where ks: "json_lines (ce_entry C) ns = concat (map (\<lambda>l. l @ newline) ks)"
      "\<forall>l \<in> set ks. l \<noteq> [] \<and> CHR 0x0A \<notin> set l" "map (from_json (ce_entry C)) ks = map Some (map persisted_entry ns)"
    using that json_lines_encoded encoded_lines [OF assms(1), of ns] by blast
  have "(case node of Some (FFile old) \<Rightarrow> old | _ \<Rightarrow> []) = concat (map (\<lambda>l. l @ newline) ls)"
    using ls(1) by auto
  then show ?thesis
    unfolding entry_lines_def using ls(2,3,4) ks
    by (auto simp: persisted_entry_def intro!: exI [of _ "ls @ ks"])
qed

lemma entry_lines_take:
  assumes "line_codec_ok persisted_entry (ce_entry C)" and "entry_lines C node es"
  shows "entry_lines C (Some (FFile (json_lines (ce_entry C) (take k es)))) (take k es)"
proof -
  have "map persisted_entry (take k es) = take k es"
    using assms(2) by (intro map_idI) (auto simp: entry_lines_def dest: in_set_takeD)
  then show ?thesis using entry_lines_encoded [OF assms(1), of "take k es"] by simp
qed

lemma entry_lines_read: "entry_lines C (map_of m p) es \<Longrightarrow> locate m [] p = Some p \<Longrightarrow> read_lines (ce_entry C) m p = es"
  by (auto simp: entry_lines_def read_lines_def sys_read_def lines_of_whole)

lemma entry_lines_not_dir: "entry_lines C node es \<Longrightarrow> node \<noteq> Some FDir"
  by (auto simp: entry_lines_def)

lemma archive_file_not_dir: "archive_file C node arch \<Longrightarrow> node \<noteq> Some FDir"
  by (auto simp: archive_file_def split: option.splits)

subsection \<open>Writing in the directory of a session\<close>

text \<open>A session's place: below the sessions directory, a directory or nothing yet.\<close>

definition place_ok :: "files \<Rightarrow> session_handle \<Rightarrow> bool" where
  "place_ok m h \<longleftrightarrow> name_ok h \<and> bt_ok m \<and> map_of m [''sessions''] = Some FDir \<and>
     (map_of m (session_dir h) = None \<or> map_of m (session_dir h) = Some FDir)"

lemma plain_fixed [simp]: "plain_part ''sessions''" "plain_part ''meta.json''" "plain_part ''messages.jsonl''"
  "plain_part ''archive''" "plain_part ''events.jsonl''" "plain_part ''meta.tmp''" "plain_part ''messages.tmp''"
  by (simp_all add: plain_part_def)

lemma stems: "file_stem ''meta.json'' = ''meta''" "file_stem ''messages.jsonl'' = ''messages''"
  by code_simp+

lemma prefix_session_dir:
  "prefix q (session_dir h) \<longleftrightarrow> q = [] \<or> q = [''sessions''] \<or> q = session_dir h"
  by (auto simp: session_dir_def prefix_Cons)

lemma place_way: "place_ok m h \<Longrightarrow> plain_path (session_dir h) \<and> way_free m [] (session_dir h)"
  by (auto simp: way_free_def place_ok_def name_ok_def prefix_session_dir) (simp_all add: session_dir_def)

lemma walk_session:
  assumes "place_ok m h" and "map_of m (session_dir h) = Some FDir" and "plain_part n"
  shows "locate m [] (session_dir h @ [n]) = Some (session_dir h @ [n])"
proof -
  have "way_dirs m [] (session_dir h)"
    using assms(1,2) by (auto simp: way_dirs_def prefix_session_dir is_dir_def place_ok_def)
  then show ?thesis
    using walk_plain [of "session_dir h" n m "[]"] assms(1,3) place_way by simp
qed

text \<open>Only paths below the directory of \<open>h\<close> change.\<close>

definition only_dir :: "session_handle \<Rightarrow> files \<Rightarrow> files \<Rightarrow> bool" where
  "only_dir h m m' \<longleftrightarrow> bt_ok m' \<and> (\<forall>q. \<not> prefix (session_dir h) q \<longrightarrow> map_of m' q = map_of m q)"

lemma session_replace:
  assumes p: "place_ok m h" and n: "plain_part n" "file_stem n @ ''.tmp'' = t" "plain_part t" "t \<noteq> n"
    and nodir: "map_of m (session_dir h @ [n]) \<noteq> Some FDir" "map_of m (session_dir h @ [t]) \<noteq> Some FDir"
  shows "\<exists>m'. replace_file m (session_dir h @ [n]) b = Inr m' \<and> place_ok m' h \<and> only_dir h m m' \<and>
    (\<forall>q. map_of m' q = (if q = session_dir h @ [n] then Some (FFile b) else if q = session_dir h @ [t] then None
       else if q = session_dir h then Some FDir else map_of m q))"
proof -
  have w: "plain_path (session_dir h)" "way_free m [] (session_dir h)" using place_way [OF p] by auto
  obtain m' where m': "replace_file m (session_dir h @ [n]) b = Inr m'" "bt_ok m \<longrightarrow> bt_ok m'"
      "\<And>q. map_of m' q = (if q = session_dir h @ [n] then Some (FFile b) else if q = session_dir h @ [t] then None
       else if q \<noteq> [] \<and> prefix q (session_dir h) then Some FDir else map_of m q)"
    using replace_file_plain [OF w n(1) _ n(3,4), of b] n(2) nodir by (auto simp: with_tmp_def is_dir_def)
  have look: "map_of m' q = (if q = session_dir h @ [n] then Some (FFile b) else if q = session_dir h @ [t] then None
       else if q = session_dir h then Some FDir else map_of m q)" for q
    using p by (auto simp: m'(3) prefix_session_dir place_ok_def) (simp_all add: session_dir_def)
  have ok: "bt_ok m'" using m'(2) p by (simp add: place_ok_def)
  have "only_dir h m m'" using ok by (auto simp: only_dir_def look)
  moreover have "place_ok m' h"
    using p ok by (auto simp: place_ok_def look) (simp_all add: session_dir_def)
  ultimately show ?thesis using m'(1) look by blast
qed

lemma session_paths:
  "meta_path h = session_dir h @ [''meta.json'']" "messages_path h = session_dir h @ [''messages.jsonl'']"
  "archive_path h = session_dir h @ [''archive'']" "events_path h = session_dir h @ [''events.jsonl'']"
  by (simp_all add: meta_path_def messages_path_def archive_path_def events_path_def)

lemma session_files_place:
  "session_files C m h S \<Longrightarrow> name_ok h \<Longrightarrow> bt_ok m \<Longrightarrow> map_of m [''sessions''] = Some FDir \<Longrightarrow> place_ok m h"
  by (auto simp: session_files_def place_ok_def)

text \<open>What the parts of a session's directory are read as.\<close>

lemma read_session:
  assumes "session_files C m h (meta, es, arch)" and "place_ok m h"
  shows "session_meta_at C m h = Inr (Some meta)" and "messages C m h = es"
    and "map_option (trim (ce_unicode C)) (sys_read_string m (archive_path h)) = arch"
proof -
  have "map_of m (session_dir h) = Some FDir" using assms(1) by (simp add: session_files_def)
  note w = walk_session [OF assms(2) this]
  show "session_meta_at C m h = Inr (Some meta)"
    using assms(1) w by (auto simp: session_files_def session_meta_at_def read_json_def sys_read_def session_paths)
  show "messages C m h = es"
    using assms(1) w entry_lines_read by (auto simp: session_files_def messages_def session_paths)
  show "map_option (trim (ce_unicode C)) (sys_read_string m (archive_path h)) = arch"
    using assms(1) w
    by (auto simp: session_files_def archive_file_def sys_read_string_def sys_read_def session_paths split: option.splits)
qed

lemma write_meta:
  assumes C: "code_env_ok C" and p: "place_ok m h"
    and free: "map_of m (meta_path h) \<noteq> Some FDir" "map_of m (session_dir h @ [''meta.tmp'']) = None"
      "map_of m (session_dir h @ [''messages.tmp'']) = None"
    and e: "entry_lines C (map_of m (messages_path h)) es" and a: "archive_file C (map_of m (archive_path h)) arch"
    and n: "sm_message_count meta = length es"
  shows "\<exists>m'. write_json (ce_meta C) m (meta_path h) meta = Inr m' \<and> only_dir h m m' \<and> session_files C m' h (meta, es, arch)"
proof -
  obtain m' where m': "replace_file m (session_dir h @ [''meta.json'']) (to_json (ce_meta C) meta) = Inr m'"
      "only_dir h m m'"
      "\<And>q. map_of m' q = (if q = session_dir h @ [''meta.json''] then Some (FFile (to_json (ce_meta C) meta))
       else if q = session_dir h @ [''meta.tmp''] then None else if q = session_dir h then Some FDir else map_of m q)"
    using session_replace [OF p, of "''meta.json''" "''meta.tmp''" "to_json (ce_meta C) meta"] free
    by (auto simp: stems session_paths)
  have "from_json (ce_meta C) (to_json (ce_meta C) meta) = Some meta"
    using C by (simp add: code_env_ok_def codec_ok_def)
  then have "session_files C m' h (meta, es, arch)"
    using e a n free by (simp add: session_files_def m'(3) session_paths)
  then show ?thesis using m'(1,2) by (auto simp: write_json_def session_paths)
qed

lemma write_messages:
  assumes C: "code_env_ok C" and p: "place_ok m h" and S: "session_files C m h (meta, es, arch)"
  shows "\<exists>m'. write_lines (ce_entry C) m (messages_path h) (take k es) = Inr m' \<and> only_dir h m m' \<and> place_ok m' h \<and>
    (\<forall>q. map_of m' q = (if q = messages_path h then Some (FFile (json_lines (ce_entry C) (take k es)))
       else if q = session_dir h @ [''messages.tmp''] then None else map_of m q))"
proof -
  have nd: "map_of m (session_dir h @ [''messages.jsonl'']) \<noteq> Some FDir"
    using S entry_lines_not_dir by (auto simp: session_files_def session_paths)
  have dir: "map_of m (session_dir h) = Some FDir" "map_of m (session_dir h @ [''messages.tmp'']) \<noteq> Some FDir"
    using S by (simp_all add: session_files_def)
  obtain m' where m': "replace_file m (session_dir h @ [''messages.jsonl'']) (json_lines (ce_entry C) (take k es)) = Inr m'"
      "only_dir h m m'" "place_ok m' h"
      "\<And>q. map_of m' q = (if q = session_dir h @ [''messages.jsonl''] then Some (FFile (json_lines (ce_entry C) (take k es)))
       else if q = session_dir h @ [''messages.tmp''] then None else if q = session_dir h then Some FDir else map_of m q)"
    using session_replace [OF p, of "''messages.jsonl''" "''messages.tmp''" "json_lines (ce_entry C) (take k es)"] nd dir(2)
    by (auto simp: stems)
  then show ?thesis using dir(1) by (auto simp: write_lines_def session_paths)
qed

lemma append_messages:
  assumes C: "code_env_ok C" and p: "place_ok m h" and S: "session_files C m h (meta, es, arch)" and "ns \<noteq> []"
  shows "\<exists>m' b. append_json (ce_entry C) m (messages_path h) ns = Inr m' \<and> only_dir h m m' \<and> place_ok m' h \<and>
    entry_lines C (Some (FFile b)) (es @ map persisted_entry ns) \<and>
    (\<forall>q. map_of m' q = (if q = messages_path h then Some (FFile b) else map_of m q))"
proof -
  have dir: "map_of m (session_dir h) = Some FDir" and e: "entry_lines C (map_of m (messages_path h)) es"
    using S by (simp_all add: session_files_def)
  have "plain_part (encode h)" using p by (simp add: place_ok_def name_ok_def)
  then have mk: "sys_mkdirs m [] (session_dir h) = Inr m"
    using p dir by (simp add: session_dir_def place_ok_def plain_part_def)
  let ?b = "(case map_of m (messages_path h) of Some (FFile old) \<Rightarrow> old | _ \<Rightarrow> []) @ json_lines (ce_entry C) ns"
  let ?m = "bt_insert (messages_path h) (FFile ?b) m"
  have "locate m [] (messages_path h) = Some (messages_path h)"
    using walk_session [OF p dir] by (simp add: session_paths)
  moreover have "\<not> is_dir m (messages_path h)"
    using entry_lines_not_dir [OF e] by (auto simp: is_dir_def session_paths)
  ultimately have "append_json (ce_entry C) m (messages_path h) ns = Inr ?m"
    using mk assms(4) by (simp add: append_json_def sys_append_def session_paths)
  moreover have "entry_lines C (Some (FFile ?b)) (es @ map persisted_entry ns)"
    using entry_lines_append [OF _ e] C by (simp add: code_env_ok_def)
  moreover have "only_dir h m ?m" "place_ok ?m h"
    using p dir by (auto simp: only_dir_def place_ok_def session_paths)
  ultimately show ?thesis by auto
qed

subsection \<open>Each operation is the operation on the map\<close>

definition dir_inv :: "code_env \<Rightarrow> files \<Rightarrow> session_map \<Rightarrow> bool" where
  "dir_inv C m A \<longleftrightarrow>
     bt_ok m \<and> map_of m [''sessions''] = Some FDir \<and>
     (\<forall>h S. A h = Some S \<longrightarrow> name_ok h \<and> session_files C m h S) \<and>
     (\<forall>h p. A h = None \<and> prefix (session_dir h) p \<longrightarrow> map_of m p = None) \<and>
     (\<forall>e. map_of m [''sessions'', e] \<noteq> None \<longrightarrow> (\<exists>h. e = encode h))"

lemma dir_inv_some: "dir_inv C m A \<Longrightarrow> A h = Some S \<Longrightarrow> name_ok h"
    "dir_inv C m A \<Longrightarrow> A h = Some S \<Longrightarrow> session_files C m h S"
  and dir_inv_none: "dir_inv C m A \<Longrightarrow> A h = None \<Longrightarrow> prefix (session_dir h) p \<Longrightarrow> map_of m p = None"
  unfolding dir_inv_def by blast+

lemma dir_inv_place:
  assumes "dir_inv C m A" and "name_ok h"
  shows "place_ok m h"
proof (cases "A h")
  case None
  then have "map_of m (session_dir h) = None" using dir_inv_none [OF assms(1)] by simp
  then show ?thesis using assms by (simp add: place_ok_def dir_inv_def)
next
  case (Some S)
  show ?thesis
    by (rule session_files_place [OF dir_inv_some(2) [OF assms(1) Some] assms(2)])
      (use assms(1) in \<open>simp_all add: dir_inv_def\<close>)
qed

lemma session_dirs_apart: "h \<noteq> h' \<Longrightarrow> prefix (session_dir h') q \<Longrightarrow> \<not> prefix (session_dir h) q"
  by (auto simp: session_dir_def prefix_def encode_inj)

lemma session_files_cong:
  assumes "session_files C m h S" and "\<And>q. prefix (session_dir h) q \<Longrightarrow> map_of m' q = map_of m q"
  shows "session_files C m' h S"
  using assms(1) by (simp add: session_files_def session_paths assms(2))

lemma dir_inv_update:
  assumes inv: "dir_inv C m A" and h: "name_ok h" and m': "only_dir h m m'" and S: "session_files C m' h S"
  shows "dir_inv C m' (A(h \<mapsto> S))"
proof -
  have same: "map_of m' q = map_of m q" if "h' \<noteq> h" "prefix (session_dir h') q" for h' q
    using m' session_dirs_apart [OF that(1)[symmetric] that(2)] by (simp add: only_dir_def)
  have outside: "map_of m' q = map_of m q" if "\<not> prefix (session_dir h) q" for q
    using m' that by (simp add: only_dir_def)
  have "map_of m' [''sessions''] = Some FDir"
    using inv outside [of "[''sessions'']"] by (simp add: dir_inv_def session_dir_def)
  moreover have "name_ok h' \<and> session_files C m' h' S'" if "A h' = Some S'" "h' \<noteq> h" for h' S'
    using dir_inv_some [OF inv that(1)] session_files_cong [of C m h' S' m'] same [OF that(2)] by blast
  moreover have "map_of m' p = None" if "A h' = None" "h' \<noteq> h" "prefix (session_dir h') p" for h' p
    using dir_inv_none [OF inv that(1,3)] same [OF that(2,3)] by simp
  moreover have "\<exists>h'. e = encode h'" if "map_of m' [''sessions'', e] \<noteq> None" for e
    using inv that outside [of "[''sessions'', e]"]
    by (cases "e = encode h") (auto simp: dir_inv_def session_dir_def)
  moreover have "bt_ok m'" using m' by (simp add: only_dir_def)
  ultimately show ?thesis using h S by (auto simp: dir_inv_def)
qed

lemma only_dir_trans: "only_dir h m m1 \<Longrightarrow> only_dir h m1 m2 \<Longrightarrow> only_dir h m m2"
  by (simp add: only_dir_def)

lemma create_dir_inv:
  assumes C: "code_env_ok C" and inv: "dir_inv C m A" and h: "name_ok h" "A h = None"
  shows "\<exists>m'. create_session_dir C m h agent by' rt now = Inr m' \<and>
    dir_inv C m' (session_spec A (CreateSession h agent by' rt now))"
proof -
  let ?meta = "\<lparr>sm_agent = agent, sm_created_by = by', sm_created_at = now, sm_title = [],
    sm_updated_at = now, sm_message_count = 0, sm_summary = None, sm_root = rt\<rparr>"
  have none: "map_of m (session_dir h @ p) = None" for p
    using dir_inv_none [OF inv h(2)] by simp
  obtain m' where "write_json (ce_meta C) m (meta_path h) ?meta = Inr m'" "only_dir h m m'"
      "session_files C m' h (?meta, [], None)"
    using write_meta [OF C dir_inv_place [OF inv h(1)], of "[]" None ?meta] none
    by (auto simp: session_paths entry_lines_def archive_file_def)
  then show ?thesis
    using dir_inv_update [OF inv h(1)] by (simp add: create_session_dir_def)
qed

lemma inv_session:
  assumes "dir_inv C m A" and "A h = Some (meta, es, arch)"
  shows "name_ok h" and "place_ok m h" and "session_files C m h (meta, es, arch)"
    and "session_meta_at C m h = Inr (Some meta)" and "messages C m h = es" and "sm_message_count meta = length es"
proof -
  show *: "name_ok h" "session_files C m h (meta, es, arch)" using assms by (auto simp: dir_inv_def)
  show p: "place_ok m h" by (rule dir_inv_place [OF assms(1) *(1)])
  show "session_meta_at C m h = Inr (Some meta)" "messages C m h = es" by (rule read_session [OF *(2) p])+
  show "sm_message_count meta = length es" using *(2) by (simp add: session_files_def)
qed

lemma append_dir_inv:
  assumes C: "code_env_ok C" and inv: "dir_inv C m A" and A: "A h = Some (meta, es, arch)"
  shows "\<exists>m'. append_session_messages_dir C m h ns now = Inr m' \<and> dir_inv C m' (session_spec A (AppendMessages h ns now))"
proof (cases "ns = []")
  case True
  then show ?thesis using inv A by (simp add: append_session_messages_dir_def)
next
  case False
  note s = inv_session [OF inv A]
  let ?meta = "meta\<lparr>sm_message_count := length es + length ns, sm_updated_at := now\<rparr>"
  obtain m1 b where m1: "append_json (ce_entry C) m (messages_path h) ns = Inr m1" "only_dir h m m1" "place_ok m1 h"
      "entry_lines C (Some (FFile b)) (es @ map persisted_entry ns)"
      "\<And>q. map_of m1 q = (if q = messages_path h then Some (FFile b) else map_of m q)"
    using append_messages [OF C s(2,3) False] by blast
  obtain m' where "write_json (ce_meta C) m1 (meta_path h) ?meta = Inr m'" "only_dir h m1 m'"
      "session_files C m' h (?meta, es @ map persisted_entry ns, arch)"
    using write_meta [OF C m1(3), of "es @ map persisted_entry ns" arch ?meta] s(3) m1(4)
    by (auto simp: m1(5) session_paths session_files_def)
  then show ?thesis
    using False m1(1,2) s(4,6) A dir_inv_update [OF inv s(1) only_dir_trans]
    by (simp add: append_session_messages_dir_def)
qed

lemma truncate_files:
  assumes C: "code_env_ok C" and inv: "dir_inv C m A" and A: "A h = Some (meta, es, arch)"
  shows "\<exists>m'. truncate_session_messages_dir C m h keep = Inr m' \<and> only_dir h m m' \<and> place_ok m' h \<and>
    session_files C m' h (meta\<lparr>sm_message_count := min keep (length es)\<rparr>, take keep es, arch)"
proof -
  note s = inv_session [OF inv A]
  let ?k = "min keep (length es)"
  let ?meta = "meta\<lparr>sm_message_count := ?k\<rparr>"
  have k: "take ?k es = take keep es" by (simp add: min_def)
  obtain m1 where m1: "write_lines (ce_entry C) m (messages_path h) (take ?k es) = Inr m1" "only_dir h m m1" "place_ok m1 h"
      "\<And>q. map_of m1 q = (if q = messages_path h then Some (FFile (json_lines (ce_entry C) (take ?k es)))
       else if q = session_dir h @ [''messages.tmp''] then None else map_of m q)"
    using write_messages [OF C s(2,3)] by blast
  have e: "entry_lines C (Some (FFile (json_lines (ce_entry C) (take keep es)))) (take keep es)"
    using s(3) C by (intro entry_lines_take) (auto simp: session_files_def code_env_ok_def)
  obtain m' where m': "write_json (ce_meta C) m1 (meta_path h) ?meta = Inr m'" "only_dir h m1 m'"
      "session_files C m' h (?meta, take keep es, arch)"
    using write_meta [OF C m1(3), of "take keep es" arch ?meta] s(3) e
    by (auto simp: m1(4) k session_paths session_files_def min.commute)
  have "only_dir h m m'" by (rule only_dir_trans [OF m1(2) m'(2)])
  moreover have "place_ok m' h"
    using session_files_place [OF m'(3) s(1)] m'(2) m1(3) by (simp add: only_dir_def place_ok_def session_dir_def)
  ultimately show ?thesis
    using m1(1) m' s(4,5) by (auto simp: truncate_session_messages_dir_def Let_def)
qed

lemma truncate_dir_inv:
  assumes C: "code_env_ok C" and inv: "dir_inv C m A" and A: "A h = Some (meta, es, arch)"
  shows "\<exists>m'. truncate_session_messages_dir C m h keep = Inr m' \<and> dir_inv C m' (session_spec A (Truncate h keep))"
  using truncate_files [OF C inv A, of keep] dir_inv_update [OF inv inv_session(1) [OF inv A]] A by auto

lemma compact_dir_inv:
  assumes C: "code_env_ok C" and inv: "dir_inv C m A" and A: "A h = Some (meta, es, arch)"
    and a: "valid_utf8 a" "trim (ce_unicode C) a = a"
  shows "\<exists>m'. append_session_compact_dir C m h a = Inr m' \<and> dir_inv C m' (session_spec A (Compact h a))"
proof -
  let ?meta = "meta\<lparr>sm_message_count := 0\<rparr>"
  obtain m1 where m1: "truncate_session_messages_dir C m h 0 = Inr m1" "only_dir h m m1" "place_ok m1 h"
      "session_files C m1 h (?meta, [], arch)"
    using truncate_files [OF C inv A, of 0] by auto
  let ?m = "bt_insert (archive_path h) (FFile a) m1"
  have "locate m1 [] (archive_path h) = Some (archive_path h)"
    using walk_session [OF m1(3)] m1(4) by (simp add: session_files_def session_paths)
  moreover have "\<not> is_dir m1 (archive_path h)"
    using m1(4) archive_file_not_dir by (auto simp: session_files_def is_dir_def session_paths)
  ultimately have run: "append_session_compact_dir C m h a = Inr ?m"
    using m1(1) by (simp add: append_session_compact_dir_def sys_write_def)
  have "only_dir h m1 ?m" using m1(3) by (simp add: only_dir_def place_ok_def session_paths)
  then have "only_dir h m ?m" by (rule only_dir_trans [OF m1(2)])
  moreover have "session_files C ?m h (?meta, [], Some a)"
    using m1(4) a by (simp add: session_files_def session_paths archive_file_def)
  ultimately have "dir_inv C ?m (A(h \<mapsto> (?meta, [], Some a)))"
    by (rule dir_inv_update [OF inv inv_session(1) [OF inv A]])
  then show ?thesis using run A by simp
qed

lemma update_dir_inv:
  assumes C: "code_env_ok C" and inv: "dir_inv C m A" and A: "A h = Some (meta, es, arch)"
  shows "\<exists>m'. update_session_meta_dir C m h meta' = Inr m' \<and> dir_inv C m' (session_spec A (UpdateMeta h meta'))"
proof -
  note s = inv_session [OF inv A]
  let ?meta = "meta'\<lparr>sm_message_count := sm_message_count meta\<rparr>"
  obtain m' where "write_json (ce_meta C) m (meta_path h) ?meta = Inr m'" "only_dir h m m'"
      "session_files C m' h (?meta, es, arch)"
    using write_meta [OF C s(2), of es arch ?meta] s(3) by (auto simp: session_files_def)
  then show ?thesis
    using dir_inv_update [OF inv s(1)] s(4) A by (simp add: update_session_meta_dir_def)
qed

lemma map_of_emptied:
  "map_of (filter (\<lambda>e. \<not> strict_prefix q (fst e)) m) p = (if strict_prefix q p then None else map_of m p)"
  by (induction m) auto

text \<open>Removing a directory under an ordinary name takes all below it and nothing else.\<close>

lemma delete_session_files:
  assumes p: "place_ok m h"
  shows "fst (delete_session_dir m h) \<longleftrightarrow> map_of m (session_dir h) = Some FDir" and
    "map_of m (session_dir h) = Some FDir \<Longrightarrow>
     map_of (snd (delete_session_dir m h)) q = (if prefix (session_dir h) q then None else map_of m q)" and
    "map_of m (session_dir h) \<noteq> Some FDir \<Longrightarrow> snd (delete_session_dir m h) = m" and
    "bt_ok (snd (delete_session_dir m h))"
proof -
  have pe: "plain_part (encode h)" using p by (simp add: place_ok_def name_ok_def)
  then have w: "locate m [] (session_dir h) = Some (session_dir h)"
    using p by (simp add: session_dir_def place_ok_def plain_part_def is_dir_def)
  have l: "last (session_dir h) \<noteq> ''.''" "last (session_dir h) \<noteq> ''..''"
    using pe by (simp_all add: session_dir_def plain_part_def)
  have run: "delete_session_dir m h =
      (if map_of m (session_dir h) = Some FDir
       then (True, bt_remove (session_dir h) (filter (\<lambda>e. \<not> strict_prefix (session_dir h) (fst e)) m)) else (False, m))"
    using l by (simp add: delete_session_dir_def sys_remove_dir_all_def w is_dir_def Let_def) (simp add: session_dir_def)
  show "fst (delete_session_dir m h) \<longleftrightarrow> map_of m (session_dir h) = Some FDir"
    "map_of m (session_dir h) \<noteq> Some FDir \<Longrightarrow> snd (delete_session_dir m h) = m"
    by (simp_all add: run)
  show "map_of m (session_dir h) = Some FDir \<Longrightarrow>
     map_of (snd (delete_session_dir m h)) q = (if prefix (session_dir h) q then None else map_of m q)"
    by (simp add: run map_of_emptied) (auto simp: strict_prefix_def)
  show "bt_ok (snd (delete_session_dir m h))"
    using p by (simp add: run place_ok_def bt_ok_filter)
qed

lemma delete_dir_inv:
  assumes inv: "dir_inv C m A" and h: "name_ok h"
  shows "dir_inv C (snd (delete_session_dir m h)) (session_spec A (DeleteSession h))"
    and "fst (delete_session_dir m h) \<longleftrightarrow> A h \<noteq> None"
proof -
  have p: "place_ok m h" by (rule dir_inv_place [OF inv h])
  note d = delete_session_files [OF p]
  show there: "fst (delete_session_dir m h) \<longleftrightarrow> A h \<noteq> None"
    using dir_inv_none [OF inv, of h "session_dir h"] dir_inv_some(2) [OF inv, of h]
    by (cases "A h") (auto simp: d(1) session_files_def)
  let ?m = "snd (delete_session_dir m h)"
  have look: "map_of ?m q = (if prefix (session_dir h) q then None else map_of m q)" for q
    using d(2) [of q] d(3) dir_inv_none [OF inv, of h q] there d(1) by (cases "A h") auto
  have same: "map_of ?m q = map_of m q" if "h' \<noteq> h" "prefix (session_dir h') q" for h' q
    using session_dirs_apart [OF that(1)[symmetric] that(2)] by (simp add: look)
  have "map_of ?m [''sessions''] = Some FDir"
    using inv by (simp add: look dir_inv_def session_dir_def)
  moreover have "name_ok h' \<and> session_files C ?m h' S'" if "A h' = Some S'" "h' \<noteq> h" for h' S'
    using dir_inv_some [OF inv that(1)] session_files_cong [of C m h' S' ?m] same [OF that(2)] by blast
  moreover have "map_of ?m p = None" if "A h' = None" "prefix (session_dir h') p" for h' p
    using dir_inv_none [OF inv that] by (simp add: look)
  moreover have "map_of ?m p = None" if "prefix (session_dir h) p" for p
    using that by (simp add: look)
  moreover have "\<exists>h'. e = encode h'" if "map_of ?m [''sessions'', e] \<noteq> None" for e
    using inv that by (auto simp: dir_inv_def look split: if_splits)
  ultimately show "dir_inv C ?m (session_spec A (DeleteSession h))"
    using d(4) by (auto simp: dir_inv_def)
qed

subsection \<open>Runs, loading and listing\<close>

fun dir_cmd_run :: "code_env \<Rightarrow> files \<Rightarrow> session_cmd \<Rightarrow> crab_error + files" where
  "dir_cmd_run C m (CreateSession h agent by' rt now) = create_session_dir C m h agent by' rt now"
| "dir_cmd_run C m (AppendMessages h ns now) = append_session_messages_dir C m h ns now"
| "dir_cmd_run C m (Truncate h keep) = truncate_session_messages_dir C m h keep"
| "dir_cmd_run C m (Compact h a) = append_session_compact_dir C m h a"
| "dir_cmd_run C m (UpdateMeta h meta) = update_session_meta_dir C m h meta"
| "dir_cmd_run C m (DeleteSession h) = Inr (snd (delete_session_dir m h))"

fun dir_run :: "code_env \<Rightarrow> files \<Rightarrow> session_cmd list \<Rightarrow> crab_error + files" where
  "dir_run C m [] = Inr m"
| "dir_run C m (x # xs) = bindr (dir_cmd_run C m x) (\<lambda>m'. dir_run C m' xs)"

text \<open>
  What the directory asks for beyond the keyspace: a handle that is no dot name, and an archive
  name that has no white space around it, since it is trimmed when it is read.
\<close>

fun dir_cmd_ok :: "unicode \<Rightarrow> session_cmd \<Rightarrow> bool" where
  "dir_cmd_ok U (CreateSession h agent by' rt now) \<longleftrightarrow> name_ok h"
| "dir_cmd_ok U (Compact h a) \<longleftrightarrow> valid_utf8 a \<and> trim U a = a"
| "dir_cmd_ok U (DeleteSession h) \<longleftrightarrow> name_ok h"
| "dir_cmd_ok U _ \<longleftrightarrow> True"

lemma dir_cmd_inv:
  assumes C: "code_env_ok C" and inv: "dir_inv C m A" and x: "session_cmd_ok A x" "dir_cmd_ok (ce_unicode C) x"
  shows "\<exists>m'. dir_cmd_run C m x = Inr m' \<and> dir_inv C m' (session_spec A x)"
proof (cases x)
  case (CreateSession h agent by' rt now)
  then show ?thesis using create_dir_inv [OF C inv] x by simp
next
  case (AppendMessages h ns now)
  then obtain meta es arch where "A h = Some (meta, es, arch)" using x by (auto split: option.splits)
  then show ?thesis using append_dir_inv [OF C inv] AppendMessages by simp
next
  case (Truncate h keep)
  then obtain meta es arch where "A h = Some (meta, es, arch)" using x by auto
  then show ?thesis using truncate_dir_inv [OF C inv] Truncate by simp
next
  case (Compact h a)
  then obtain meta es arch where "A h = Some (meta, es, arch)" using x by auto
  then show ?thesis using compact_dir_inv [OF C inv] Compact x by simp
next
  case (UpdateMeta h meta')
  then obtain meta es arch where "A h = Some (meta, es, arch)" using x by (auto split: option.splits)
  then show ?thesis using update_dir_inv [OF C inv] UpdateMeta by simp
next
  case (DeleteSession h)
  then show ?thesis using delete_dir_inv(1) [OF inv, of h] x by simp
qed

lemma dir_run_inv:
  assumes "code_env_ok C" and "dir_inv C m A" and "session_cmds_ok A xs" and "list_all (dir_cmd_ok (ce_unicode C)) xs"
  shows "\<exists>m'. dir_run C m xs = Inr m' \<and> dir_inv C m' (foldl session_spec A xs)"
  using assms(2-)
proof (induction xs arbitrary: m A)
  case (Cons x xs)
  then obtain m1 where "dir_cmd_run C m x = Inr m1" "dir_inv C m1 (session_spec A x)"
    using dir_cmd_inv [OF assms(1)] by fastforce
  with Cons.IH [OF this(2)] Cons.prems(2,3) show ?case by simp
qed simp

abbreviation snapshot_of :: "session_state \<Rightarrow> session_snapshot" where
  "snapshot_of S \<equiv> (case S of (meta, es, arch) \<Rightarrow> \<lparr>ss_meta = meta, ss_history = es, ss_archive = arch\<rparr>)"

lemma load_dir_inv:
  assumes inv: "dir_inv C m A" and h: "name_ok h"
  shows "load_session_dir C m h = Inr (map_option snapshot_of (A h))"
proof (cases "A h")
  case None
  have "map_of m (meta_path h) = None"
    using dir_inv_none [OF inv None] by (simp add: session_paths)
  then have "session_meta_at C m h = Inr None"
  proof -
    have "plain_part (encode h)" using h by (simp add: name_ok_def)
    moreover have "map_of m (session_dir h) = None" using dir_inv_none [OF inv None] by simp
    ultimately have "locate m [] (meta_path h) = None"
      by (auto simp: session_paths session_dir_def plain_part_def is_dir_def)
    then show ?thesis by (simp add: session_meta_at_def read_json_def sys_read_def)
  qed
  then show ?thesis using None by (simp add: load_session_dir_def)
next
  case (Some S)
  obtain meta es arch where S: "S = (meta, es, arch)" by (cases S)
  show ?thesis
    using read_session [OF inv_session(3,2) [OF inv Some [unfolded S]]] Some S
    by (simp add: load_session_dir_def)
qed

lemma handles_inv:
  assumes inv: "dir_inv C m A"
  shows "set (handles m) = dom A" and "distinct (handles m)"
proof -
  have ok: "bt_ok m" and top: "map_of m [''sessions''] = Some FDir"
    and kids: "\<And>e. map_of m [''sessions'', e] \<noteq> None \<Longrightarrow> \<exists>h. e = encode h"
    using inv unfolding dir_inv_def by blast+
  obtain names where dir: "sys_read_dir m [''sessions''] = Some names" and "distinct names"
      and set_names: "\<And>e. e \<in> set names \<longleftrightarrow> map_of m [''sessions'', e] \<noteq> None"
    using read_dir_names [OF ok top plain_fixed(1)] by blast
  have enc: "\<exists>h. e = encode h \<and> h \<in> dom A \<and> decode e = h" if "e \<in> set names" for e
  proof -
    have "map_of m [''sessions'', e] \<noteq> None" using that by (simp only: set_names simp_thms)
    then obtain h where h: "e = encode h" using kids by blast
    have "map_of m (session_dir h) \<noteq> None" using that unfolding set_names h session_dir_def .
    then obtain S where S: "A h = Some S"
      using dir_inv_none [OF inv, of h "session_dir h"] by (cases "A h") auto
    have "valid_utf8 h" using dir_inv_some(1) [OF inv S] by (simp add: name_ok_def)
    then show ?thesis using h S encode_roundtrip_aux by blast
  qed
  have there: "encode h \<in> set names \<and> decode (encode h) = h" if "h \<in> dom A" for h
  proof -
    obtain S where S: "A h = Some S" using \<open>h \<in> dom A\<close> by blast
    have "map_of m (session_dir h) = Some FDir"
      using dir_inv_some(2) [OF inv S] by (auto simp: session_files_def)
    then have "encode h \<in> set names" unfolding set_names session_dir_def by simp
    moreover have "valid_utf8 h" using dir_inv_some(1) [OF inv S] by (simp add: name_ok_def)
    ultimately show ?thesis using encode_roundtrip_aux by simp
  qed
  have "set (handles m) = decode ` set names" by (simp add: handles_def dir)
  also have "\<dots> = dom A" using enc there by force
  finally show "set (handles m) = dom A" .
  have "inj_on decode (set names)" using enc by (metis inj_onI)
  with \<open>distinct names\<close> show "distinct (handles m)" by (simp add: handles_def dir distinct_map)
qed

lemma read_metas_dir_inv:
  assumes inv: "dir_inv C m A" and "\<forall>h \<in> set hs. h \<in> dom A"
  shows "read_metas_dir C m hs = Inr (map (\<lambda>h. (h, fst (the (A h)))) hs)"
  using assms(2)
proof (induction hs)
  case (Cons h hs)
  then obtain meta es arch where "A h = Some (meta, es, arch)" by auto
  then show ?case using Cons inv_session(4) [OF inv, of h] by simp
qed simp

text \<open>A total order by comparison lists a set of pairs in one way only.\<close>

lemma sorted_wrt_unique:
  assumes "sorted_wrt le xs" and "sorted_wrt le ys" and "distinct xs" and "distinct ys" and "set xs = set ys"
    and "\<And>a b. a \<in> set xs \<Longrightarrow> b \<in> set xs \<Longrightarrow> le a b \<Longrightarrow> le b a \<Longrightarrow> a = b"
  shows "xs = ys"
  using assms
proof (induction xs arbitrary: ys)
  case (Cons x xs)
  then obtain y zs where ys: "ys = y # zs" by (cases ys) auto
  have "x = y"
  proof (rule ccontr)
    assume "x \<noteq> y"
    then have "x \<in> set zs" "y \<in> set xs" using Cons.prems(5) ys by auto
    then have "le y x" "le x y" using Cons.prems(1,2) ys by auto
    then show False using Cons.prems(6) [of x y] \<open>x \<noteq> y\<close> \<open>y \<in> set xs\<close> by simp
  qed
  moreover have "xs = zs"
  proof (rule Cons.IH)
    show "set xs = set zs" using Cons.prems(3,4,5) ys \<open>x = y\<close> by auto
    show "a = b" if "a \<in> set xs" "b \<in> set xs" "le a b" "le b a" for a b
      using Cons.prems(6) [of a b] that by simp
  qed (use Cons.prems ys in simp_all)
  ultimately show ?case using ys by simp
qed simp

lemma listed_before_antisym: "listed_before a b \<Longrightarrow> listed_before b a \<Longrightarrow> fst a = fst b"
  by (auto simp: listed_before_def case_prod_unfold Let_def split: if_splits)

lemma list_dir_inv:
  assumes "dir_inv C m A"
  shows "\<exists>out. list_sessions_dir C m = Inr out \<and> set out = {(h, fst S) | h S. A h = Some S} \<and>
    distinct (map fst out) \<and> sorted_wrt listed_before out"
proof -
  let ?f = "\<lambda>h. (h, fst (the (A h)))"
  note hs = handles_inv [OF assms]
  have "list_sessions_dir C m = Inr (sort_by listed_before (map ?f (handles m)))"
    using read_metas_dir_inv [OF assms, of "handles m"] hs(1) by (simp add: list_sessions_dir_def)
  moreover have "set (map ?f (handles m)) = {(h, fst S) | h S. A h = Some S}"
    using hs(1) by (force simp: image_iff)
  moreover have "distinct (map fst (sort_by listed_before (map ?f (handles m))))"
    unfolding distinct_sort_by using hs(2) by (simp add: comp_def)
  moreover have "sorted_wrt listed_before (sort_by listed_before (map ?f (handles m)))"
    by (rule sorted_sort_by) (rule listed_before_total, erule (1) listed_before_trans)
  ultimately show ?thesis by (simp del: set_map map_map)
qed

lemma empty_dir_inv: "dir_inv C [([''sessions''], FDir)] Map.empty"
  by (auto simp: dir_inv_def session_dir_def bt_ok_def prefix_Cons)

text \<open>
  C34: Whatever is created, appended, truncated, compacted, renamed in its metadata and deleted,
  the directory of the terminal client and the keyspace of the daemon end with the same sessions:
  both runs succeed, every handle loads the same snapshot from both, and both list the sessions in
  the same order. The operations are those admissible in a run of sessions, and for the directory
  the handles are names of files (valid, not empty, without a slash, neither one dot nor two), and
  the archive names valid text that trimming leaves alone; the handles compared are of that kind.
\<close>

theorem stores_agree:
  assumes "session_env_ok E" and "code_env_ok C" and "sessions_inv E k A" and "dir_inv C d A"
    and "session_cmds_ok A xs" and "list_all (dir_cmd_ok (ce_unicode C)) xs"
  shows "\<exists>k' d'. session_run E k xs = Inr k' \<and> dir_run C d xs = Inr d' \<and>
    (\<forall>h. handle_ok h \<and> name_ok h \<longrightarrow> (\<exists>r. load_session E k' h = Inr r \<and> load_session_dir C d' h = Inr r)) \<and>
    (\<exists>out. list_sessions E k' = Inr out \<and> list_sessions_dir C d' = Inr out)"
proof -
  let ?A = "foldl session_spec A xs"
  obtain k' where k: "session_run E k xs = Inr k'" "sessions_inv E k' ?A"
      "\<And>h. handle_ok h \<Longrightarrow> load_session E k' h = Inr (map_option snapshot_of (?A h))"
    using session_runs [OF assms(1,3,5)] by blast
  obtain d' where d: "dir_run C d xs = Inr d'" "dir_inv C d' ?A"
    using dir_run_inv [OF assms(2,4,5,6)] by blast
  obtain out where out: "list_sessions E k' = Inr out" "set out = {(h, fst S) | h S. ?A h = Some S}"
      "distinct (map fst out)" "sorted_wrt listed_before out"
    using list_sessions_exact [OF assms(1) k(2)] by blast
  obtain out' where out': "list_sessions_dir C d' = Inr out'" "set out' = {(h, fst S) | h S. ?A h = Some S}"
      "distinct (map fst out')" "sorted_wrt listed_before out'"
    using list_dir_inv [OF d(2)] by blast
  have "out = out'"
  proof (rule sorted_wrt_unique [OF out(4) out'(4)])
    show "distinct out" "distinct out'" using out(3) out'(3) by (simp_all add: distinct_map)
    show "a = b" if "a \<in> set out" "b \<in> set out" "listed_before a b" "listed_before b a" for a b
      using listed_before_antisym [OF that(3,4)] that(1,2) by (auto simp: out(2))
  qed (simp add: out(2) out'(2))
  then show ?thesis
    using k(1) d(1) k(3) load_dir_inv [OF d(2)] out(1) out'(1) by blast
qed

text \<open>Codecs with the stated laws, for concrete inputs: a document is a line of ones.\<close>

definition line_codec :: "('v \<Rightarrow> 'c::countable) \<Rightarrow> ('c \<Rightarrow> 'v) \<Rightarrow> 'v codec" where
  "line_codec f g =
     \<lparr>to_json = (\<lambda>v. replicate (Suc (to_nat (f v))) (CHR ''1'')),
      from_json = (\<lambda>bs. if bs = [] then None else Some (g (from_nat (length bs - 1))))\<rparr>"

lemma line_codec_ok: "(\<And>v. g (f v) = p v) \<Longrightarrow> line_codec_ok p (line_codec f g)"
  by (simp add: line_codec_ok_def codec_ok_def line_codec_def)

definition sample_code_env :: code_env where
  "sample_code_env =
     \<lparr>ce_agents = sample_env, ce_wire = text_wire,
      ce_skills = \<lparr>sk_unicode = ascii_unicode, parse_yaml = (\<lambda>_. None)\<rparr>,
      ce_meta = se_meta sample_session_env,
      ce_entry = line_codec (\<lambda>e. (he_agent e, msg_role (he_message e), msg_content (he_message e)))
        (\<lambda>(a, r, c). \<lparr>he_agent = a, he_sender = [], he_auto_injected = False,
          he_message = \<lparr>msg_role = r, msg_content = c\<rparr>\<rparr>),
      ce_event = \<lparr>to_json = (\<lambda>_. []), from_json = (\<lambda>_. None)\<rparr>,
      ce_memory = unary_codec (\<lambda>e. (me_name e, me_kind e, me_content e, me_aliases e, me_created_at e))
        (\<lambda>(n, k, c, a, t). \<lparr>me_name = n, me_kind = k, me_content = c, me_aliases = a, me_created_at = t\<rparr>),
      ce_subs = unary_codec
        (map (\<lambda>s. (es_id s, es_source s, unat (es_target s), es_once s, es_session_handle s)))
        (map (\<lambda>(i, s, t, b, h). \<lparr>es_id = i, es_source = s, es_target = of_nat t, es_once = b,
           es_session_handle = h\<rparr>))\<rparr>"

lemma sample_code_env_ok: "code_env_ok sample_code_env"
proof -
  have "codec_ok id (ce_meta sample_code_env)"
    using sample_session_env_ok by (simp add: sample_code_env_def session_env_ok_def)
  moreover have "line_codec_ok persisted_entry (ce_entry sample_code_env)"
    unfolding sample_code_env_def code_env.simps by (rule line_codec_ok) (simp add: persisted_entry_def)
  ultimately show ?thesis
    using sample_env_ok by (simp add: code_env_ok_def sample_code_env_def)
qed

theorem stores_agree_witness:
  "\<exists>k' d' s. session_run sample_session_env []
      [CreateSession ''s1'' 7 ''me'' None ''t0'', AppendMessages ''s1'' [entry_user text_wire ''hi''] ''t1'',
       CreateSession ''s2'' 7 ''me'' None ''t2'', Truncate ''s1'' 1, DeleteSession ''s2''] = Inr k' \<and>
     dir_run sample_code_env [([''sessions''], FDir)]
      [CreateSession ''s1'' 7 ''me'' None ''t0'', AppendMessages ''s1'' [entry_user text_wire ''hi''] ''t1'',
       CreateSession ''s2'' 7 ''me'' None ''t2'', Truncate ''s1'' 1, DeleteSession ''s2''] = Inr d' \<and>
     load_session sample_session_env k' ''s1'' = Inr s \<and> load_session_dir sample_code_env d' ''s1'' = Inr s"
proof -
  let ?xs = "[CreateSession ''s1'' 7 ''me'' None ''t0'', AppendMessages ''s1'' [entry_user text_wire ''hi''] ''t1'',
       CreateSession ''s2'' 7 ''me'' None ''t2'', Truncate ''s1'' 1, DeleteSession ''s2'']"
  have h: "handle_ok ''s1''" "handle_ok ''s2''"
    by (simp_all add: handle_ok_def slash_free_def valid_utf8_ascii is_ascii_def byte_val_def)
  then have n: "name_ok ''s1''" "name_ok ''s2''"
    by (simp_all add: name_ok_def handle_ok_def plain_part_def)
  have "session_cmds_ok Map.empty ?xs" using h by (simp add: MAX_MESSAGES_def)
  moreover have "list_all (dir_cmd_ok (ce_unicode sample_code_env)) ?xs" using n by simp
  ultimately show ?thesis
    using stores_agree [OF sample_session_env_ok sample_code_env_ok empty_sessions empty_dir_inv, of ?xs] h n
    by blast
qed

end
