(* ===== verification/CodeDocuments.thy ===== *)
theory CodeDocuments
  imports CodeSessions
begin

section \<open>The documents of the terminal client's store\<close>

text \<open>
  Memory entries and agents are one JSON document each under an encoded name. The locale states
  what such a directory is, a map from names to values, and proves reading, writing, removing and
  listing against it; memory and agents are its two instances, and the agents are those the
  keyspace store ends with after the same commands.
\<close>

subsection \<open>A directory of documents\<close>

definition doc_name :: "bytes \<Rightarrow> bytes" where
  "doc_name name = encode name @ ''.json''"

definition docs_inv :: "bytes \<Rightarrow> 'v codec \<Rightarrow> files \<Rightarrow> (bytes \<rightharpoonup> 'v) \<Rightarrow> bool" where
  "docs_inv base J m M \<longleftrightarrow>
     bt_ok m \<and> map_of m [base] = Some FDir \<and>
     (\<forall>name v. M name = Some v \<longrightarrow>
        valid_utf8 name \<and> (\<exists>b. map_of m [base, doc_name name] = Some (FFile b) \<and> from_json J b = Some v)) \<and>
     (\<forall>e. suffix ''.json'' e \<and> map_of m [base, e] \<noteq> None \<longrightarrow> (\<exists>name. M name \<noteq> None \<and> e = doc_name name)) \<and>
     (\<forall>e. suffix ''.tmp'' e \<longrightarrow> map_of m [base, e] = None)"

lemma docs_inv_facts:
  assumes "docs_inv base J m M"
  shows docs_ok: "bt_ok m" and docs_top: "map_of m [base] = Some FDir"
    and docs_some: "\<And>name v. M name = Some v \<Longrightarrow>
      valid_utf8 name \<and> (\<exists>b. map_of m [base, doc_name name] = Some (FFile b) \<and> from_json J b = Some v)"
    and docs_only: "\<And>e. suffix ''.json'' e \<Longrightarrow> map_of m [base, e] \<noteq> None \<Longrightarrow> \<exists>name. M name \<noteq> None \<and> e = doc_name name"
    and docs_tmp: "\<And>e. suffix ''.tmp'' e \<Longrightarrow> map_of m [base, e] = None"
  using assms unfolding docs_inv_def by blast+

lemma doc_name_inj [simp]: "doc_name a = doc_name b \<longleftrightarrow> a = b"
  by (simp add: doc_name_def encode_inj)

lemma doc_name_suffix [simp]: "suffix ''.json'' (doc_name name)"
  by (simp add: doc_name_def suffix_def)

lemma docs_none:
  assumes "docs_inv base J m M" and "M name = None"
  shows "map_of m [base, doc_name name] = None"
  using docs_only [OF assms(1) doc_name_suffix, of name] assms(2) by (cases "map_of m [base, doc_name name]") auto

lemma plain_doc_name [simp]: "plain_part (doc_name name)"
proof -
  have "length (doc_name name) \<ge> 5" by (simp add: doc_name_def)
  then show ?thesis by (auto simp: plain_part_def)
qed

lemma doc_tmp:
  "\<exists>s. file_stem (doc_name name) @ ''.tmp'' = s \<and> suffix ''.tmp'' s \<and> plain_part s \<and> s \<noteq> doc_name name \<and> \<not> suffix ''.json'' s"
proof -
  let ?s = "file_stem (doc_name name) @ ''.tmp''"
  have tmp: "suffix ''.tmp'' ?s" by (simp add: suffix_def)
  have not_both: "\<not> suffix ''.json'' s" if "suffix ''.tmp'' s" for s
    using that by (auto simp: suffix_def)
  have "length ?s \<ge> 4" by simp
  then have "plain_part ?s" by (auto simp: plain_part_def)
  then show ?thesis using tmp not_both doc_name_suffix by metis
qed

lemma tmp_not_json: "suffix ''.tmp'' s \<Longrightarrow> \<not> suffix ''.json'' s"
  by (auto simp: suffix_def)

lemma strip_suffix_Some: "strip_suffix t e = Some x \<longleftrightarrow> e = x @ t"
  by (auto simp: strip_suffix_def suffix_def)

lemma strip_suffix_append [simp]: "strip_suffix t (x @ t) = Some x"
  by (simp add: strip_suffix_Some)

lemma docs_invI:
  assumes "bt_ok m" and "map_of m [base] = Some FDir"
    and "\<And>name v. M name = Some v \<Longrightarrow>
      valid_utf8 name \<and> (\<exists>b. map_of m [base, doc_name name] = Some (FFile b) \<and> from_json J b = Some v)"
    and "\<And>e. suffix ''.json'' e \<Longrightarrow> map_of m [base, e] \<noteq> None \<Longrightarrow> \<exists>name. M name \<noteq> None \<and> e = doc_name name"
    and "\<And>e. suffix ''.tmp'' e \<Longrightarrow> map_of m [base, e] = None"
  shows "docs_inv base J m M"
  using assms unfolding docs_inv_def by blast

lemma in_map_filter: "y \<in> set (List.map_filter f xs) \<longleftrightarrow> (\<exists>x \<in> set xs. f x = Some y)"
  by (induction xs) (auto simp: map_filter_simps split: option.splits)

locale doc_dir =
  fixes base :: bytes
  assumes plain: "plain_part base"
begin

lemma walk_doc: "docs_inv base J m M \<Longrightarrow> locate m [] [base, doc_name name] = Some [base, doc_name name]"
  using docs_top [of base J m M] plain plain_doc_name [of name] by (simp add: plain_part_def is_dir_def)

lemma read_doc:
  assumes "docs_inv base J m M"
  shows "read_json J m [base, doc_name name] = Inr (M name)"
  using docs_some [OF assms, of name] docs_none [OF assms, of name] walk_doc [OF assms, of name]
  by (cases "M name") (auto simp: read_json_def sys_read_def simp del: locate.simps)

lemma write_doc:
  assumes J: "codec_ok p J" and inv: "docs_inv base J m M" and name: "valid_utf8 name"
  shows "\<exists>m'. write_json J m [base, doc_name name] v = Inr m' \<and> docs_inv base J m' (M(name \<mapsto> p v))"
proof -
  obtain s where s: "file_stem (doc_name name) @ ''.tmp'' = s" "suffix ''.tmp'' s" "plain_part s" "s \<noteq> doc_name name"
      "\<not> suffix ''.json'' s"
    using doc_tmp by blast
  have way: "way_free m [] [base]" using docs_top [OF inv] by (auto simp: way_free_def prefix_Cons)
  have nodir: "\<not> is_dir m ([base] @ [doc_name name])" "\<not> is_dir m ([base] @ [s])"
    using docs_some [OF inv, of name] docs_none [OF inv, of name] docs_tmp [OF inv s(2)]
    by (cases "M name", auto simp: is_dir_def)+
  have t: "with_tmp ([base] @ [doc_name name]) = [base] @ [s]" by (simp add: with_tmp_def s(1))
  obtain m' where m': "replace_file m ([base] @ [doc_name name]) (to_json J v) = Inr m'" "bt_ok m \<longrightarrow> bt_ok m'"
      and all: "\<And>q. map_of m' q = (if q = [base] @ [doc_name name] then Some (FFile (to_json J v))
         else if q = [base] @ [s] then None else if q \<noteq> [] \<and> prefix q [base] then Some FDir else map_of m q)"
    using replace_file_plain [OF _ way plain_doc_name t s(3,4) nodir, of "to_json J v"] plain by auto
  have look: "map_of m' [base, e] = (if e = doc_name name then Some (FFile (to_json J v)) else if e = s then None
      else map_of m [base, e])" for e
    using all [of "[base, e]"] by (simp add: prefix_Cons)
  have "map_of m' [base] = Some FDir" using all [of "[base]"] by simp
  have back_v: "from_json J (to_json J v) = Some (p v)" using J by (simp add: codec_ok_def)
  have other: "doc_name n \<noteq> s" for n using s(5) doc_name_suffix by metis
  have "docs_inv base J m' (M(name \<mapsto> p v))"
  proof (rule docs_invI)
    show "bt_ok m'" using docs_ok [OF inv] m'(2) by simp
    show "valid_utf8 n \<and> (\<exists>b. map_of m' [base, doc_name n] = Some (FFile b) \<and> from_json J b = Some u)"
      if "(M(name \<mapsto> p v)) n = Some u" for n u
      using that docs_some [OF inv, of n u] name back_v other by (cases "n = name") (simp_all add: look)
    show "\<exists>n. (M(name \<mapsto> p v)) n \<noteq> None \<and> e = doc_name n"
      if "suffix ''.json'' e" "map_of m' [base, e] \<noteq> None" for e
    proof (cases "e = doc_name name")
      case False
      then have "map_of m [base, e] \<noteq> None" using that(2) by (simp add: look split: if_splits)
      then show ?thesis using docs_only [OF inv that(1)] False by auto
    qed auto
    show "map_of m' [base, e] = None" if "suffix ''.tmp'' e" for e
    proof -
      have "e \<noteq> doc_name name" using tmp_not_json [OF that] doc_name_suffix by metis
      then show ?thesis using docs_tmp [OF inv that] by (simp add: look)
    qed
  qed fact
  then show ?thesis using m'(1) by (auto simp: write_json_def)
qed

lemma remove_doc:
  assumes inv: "docs_inv base J m M"
  shows "fst (sys_remove_file m [base, doc_name name]) \<longleftrightarrow> M name \<noteq> None"
    and "docs_inv base J (snd (sys_remove_file m [base, doc_name name])) (M(name := None))"
proof -
  note locate = walk_doc [OF inv, of name]
  have run: "sys_remove_file m [base, doc_name name] =
      (if M name = None then (False, m) else (True, bt_remove [base, doc_name name] m))"
    using docs_some [OF inv, of name] docs_none [OF inv, of name]
    by (cases "M name") (auto simp: sys_remove_file_def locate simp del: locate.simps)
  then show "fst (sys_remove_file m [base, doc_name name]) \<longleftrightarrow> M name \<noteq> None" by simp
  show "docs_inv base J (snd (sys_remove_file m [base, doc_name name])) (M(name := None))"
  proof (cases "M name")
    case None
    then have "M(name := None) = M" by auto
    then show ?thesis using inv None run by simp
  next
    case (Some v)
    have "docs_inv base J (bt_remove [base, doc_name name] m) (M(name := None))"
    proof (rule docs_invI)
      show "\<exists>n. (M(name := None)) n \<noteq> None \<and> e = doc_name n"
        if "suffix ''.json'' e" "map_of (bt_remove [base, doc_name name] m) [base, e] \<noteq> None" for e
        using docs_only [OF inv that(1)] that(2) by (fastforce split: if_splits)
      show "valid_utf8 n \<and> (\<exists>b. map_of (bt_remove [base, doc_name name] m) [base, doc_name n] = Some (FFile b) \<and>
          from_json J b = Some u)" if "(M(name := None)) n = Some u" for n u
        using docs_some [OF inv, of n u] that by (simp split: if_splits)
    qed (use docs_ok [OF inv] docs_top [OF inv] docs_tmp [OF inv] in auto)
    then show ?thesis using Some run by simp
  qed
qed

lemma list_docs:
  assumes inv: "docs_inv base J m M"
  shows "sorted (names_in m [base] ''.json'')" and "distinct (names_in m [base] ''.json'')"
    and "set (names_in m [base] ''.json'') = dom M"
proof -
  obtain names where dir: "sys_read_dir m [base] = Some names" and dist: "distinct names"
      and set_names: "\<And>e. e \<in> set names \<longleftrightarrow> map_of m [base, e] \<noteq> None"
    using read_dir_names [OF docs_ok [OF inv] docs_top [OF inv] plain] by blast
  let ?stems = "List.map_filter (strip_suffix ''.json'') names"
  have stems: "x \<in> set ?stems \<longleftrightarrow> x @ ''.json'' \<in> set names" for x
    by (auto simp: in_map_filter strip_suffix_Some)
  have enc: "\<exists>name. x = encode name \<and> M name \<noteq> None \<and> decode x = name" if "x \<in> set ?stems" for x
  proof -
    have "map_of m [base, x @ ''.json''] \<noteq> None" using that by (simp only: stems set_names simp_thms)
    then obtain name where n: "M name \<noteq> None" "x @ ''.json'' = doc_name name"
      using docs_only [OF inv] by (metis suffix_def)
    then have "x = encode name" by (simp add: doc_name_def)
    moreover have "valid_utf8 name" using docs_some [OF inv] n(1) by blast
    ultimately show ?thesis using n(1) encode_roundtrip_aux by blast
  qed
  have dec: "name \<in> decode ` set ?stems" if "M name = Some v" for name v
  proof -
    have "map_of m [base, encode name @ ''.json''] \<noteq> None" "valid_utf8 name"
      using docs_some [OF inv that] by (auto simp: doc_name_def)
    then have "encode name \<in> set ?stems" "decode (encode name) = name"
      using encode_roundtrip_aux by (simp_all only: stems set_names simp_thms)
    then show ?thesis by force
  qed
  have names: "names_in m [base] ''.json'' = sort (map decode ?stems)" by (simp add: names_in_def dir)
  show "sorted (names_in m [base] ''.json'')" by (simp add: names)
  have "decode ` set ?stems = dom M"
  proof
    show "decode ` set ?stems \<subseteq> dom M" using enc by blast
    show "dom M \<subseteq> decode ` set ?stems" using dec by blast
  qed
  then show "set (names_in m [base] ''.json'') = dom M" by (simp add: names)
  have "inj_on (the \<circ> strip_suffix ''.json'') {x. strip_suffix ''.json'' x \<noteq> None}"
    by (rule inj_onI) (auto simp: strip_suffix_Some)
  then have "distinct ?stems"
    unfolding List.map_filter_def distinct_map using dist by (auto intro: inj_on_subset)
  moreover have "encode (decode x) = x" if "x \<in> set ?stems" for x
    using enc [OF that] by auto
  then have "inj_on decode (set ?stems)" by (rule inj_on_inverseI)
  ultimately show "distinct (names_in m [base] ''.json'')" by (simp add: names distinct_map)
qed

end

interpretation mem: doc_dir "''memory''"
  by unfold_locales (simp add: plain_part_def)

interpretation ags: doc_dir "''agents''"
  by unfold_locales (simp add: plain_part_def)

subsection \<open>Memory\<close>

datatype memory_cmd = PutMemory memory_entry | RemoveMemory bytes

fun memory_run_dir :: "code_env \<Rightarrow> files \<Rightarrow> memory_cmd list \<Rightarrow> crab_error + files" where
  "memory_run_dir C m [] = Inr m"
| "memory_run_dir C m (PutMemory e # xs) = bindr (put_memory_dir C m e) (\<lambda>m'. memory_run_dir C m' xs)"
| "memory_run_dir C m (RemoveMemory name # xs) = memory_run_dir C (snd (remove_memory_dir m name)) xs"

fun memory_spec :: "(bytes \<rightharpoonup> memory_entry) \<Rightarrow> memory_cmd \<Rightarrow> (bytes \<rightharpoonup> memory_entry)" where
  "memory_spec M (PutMemory e) = M(me_name e \<mapsto> e)"
| "memory_spec M (RemoveMemory name) = M(name := None)"

fun memory_cmd_ok :: "memory_cmd \<Rightarrow> bool" where
  "memory_cmd_ok (PutMemory e) \<longleftrightarrow> valid_utf8 (me_name e)"
| "memory_cmd_ok (RemoveMemory name) \<longleftrightarrow> True"

lemma memory_path_doc: "memory_path name = [''memory'', doc_name name]"
  by (simp add: memory_path_def doc_name_def)

lemma memory_dir_run_inv:
  assumes "codec_ok id (ce_memory C)" and "docs_inv ''memory'' (ce_memory C) m M" and "list_all memory_cmd_ok xs"
  shows "\<exists>m'. memory_run_dir C m xs = Inr m' \<and> docs_inv ''memory'' (ce_memory C) m' (foldl memory_spec M xs)"
  using assms(2,3)
proof (induction xs arbitrary: m M)
  case (Cons x xs)
  show ?case
  proof (cases x)
    case (PutMemory e)
    then have "valid_utf8 (me_name e)" using Cons.prems(2) by simp
    from mem.write_doc [OF assms(1) Cons.prems(1) this, of e]
    obtain m1 where m1: "put_memory_dir C m e = Inr m1"
        "docs_inv ''memory'' (ce_memory C) m1 (M(me_name e \<mapsto> e))"
      unfolding put_memory_dir_def memory_path_doc id_apply by blast
    show ?thesis using Cons.IH [OF m1(2)] Cons.prems(2) PutMemory m1(1) by (simp del: fun_upd_apply)
  next
    case (RemoveMemory name)
    have "docs_inv ''memory'' (ce_memory C) (snd (remove_memory_dir m name)) (memory_spec M x)"
      using mem.remove_doc(2) [OF Cons.prems(1), of name] RemoveMemory by (simp add: remove_memory_dir_def memory_path_doc)
    with Cons.IH [OF this] Cons.prems(2) RemoveMemory show ?thesis by (simp del: fun_upd_apply)
  qed
qed simp

text \<open>
  Any run of puts and removals of memory entries under the client's directory succeeds; every name
  then reads as the entry last put under it, and the listing is exactly the names held, in order,
  slashes included.
\<close>

theorem memory_dir_refines:
  assumes "codec_ok id (ce_memory C)" and "docs_inv ''memory'' (ce_memory C) m M" and "list_all memory_cmd_ok xs"
  shows "\<exists>m'. memory_run_dir C m xs = Inr m' \<and>
    (\<forall>name. memory_file C m' name = Inr (foldl memory_spec M xs name)) \<and>
    set (memory_names_dir m') = dom (foldl memory_spec M xs) \<and>
    sorted (memory_names_dir m') \<and> distinct (memory_names_dir m')"
proof -
  obtain m' where run: "memory_run_dir C m xs = Inr m'"
    and inv: "docs_inv ''memory'' (ce_memory C) m' (foldl memory_spec M xs)"
    using memory_dir_run_inv [OF assms] by blast
  show ?thesis
    using run mem.read_doc [OF inv] mem.list_docs [OF inv]
    by (auto simp: memory_file_def memory_names_dir_def memory_path_doc)
qed

subsection \<open>Agents\<close>

definition agents_dir_inv :: "code_env \<Rightarrow> files \<Rightarrow> agent_map \<Rightarrow> bool" where
  "agents_dir_inv C m A \<longleftrightarrow>
     (\<exists>M. docs_inv ''agents'' (ae_codec (ce_agents C)) m M \<and>
        (\<forall>i. M (ulid_show (ae_ulid (ce_agents C)) i) = A i) \<and>
        (\<forall>name. M name \<noteq> None \<longrightarrow> (\<exists>i. name = ulid_show (ae_ulid (ce_agents C)) i))) \<and>
     (\<forall>i c. A i = Some c \<longrightarrow> ag_id c = i)"

lemma agent_path_doc: "agent_path C i = [''agents'', doc_name (ulid_show (ae_ulid (ce_agents C)) i)]"
  by (simp add: agent_path_def doc_name_def)

lemma load_agent_dir_inv: "agents_dir_inv C m A \<Longrightarrow> load_agent_dir C m i = Inr (A i)"
  by (auto simp: agents_dir_inv_def load_agent_dir_def agent_path_doc ags.read_doc)

lemma write_agent_inv:
  assumes ok: "agent_env_ok (ce_agents C)" and inv: "agents_dir_inv C m A" and i: "ag_id c = i"
  shows "\<exists>m'. write_json (ae_codec (ce_agents C)) m (agent_path C i) c = Inr m' \<and>
    agents_dir_inv C m' (A(i \<mapsto> persisted_config c))"
proof -
  let ?show = "ulid_show (ae_ulid (ce_agents C))"
  obtain M where M: "docs_inv ''agents'' (ae_codec (ce_agents C)) m M" "\<And>i. M (?show i) = A i"
      "\<And>name. M name \<noteq> None \<Longrightarrow> \<exists>i. name = ?show i" and ids: "\<And>i c. A i = Some c \<Longrightarrow> ag_id c = i"
    using inv unfolding agents_dir_inv_def by blast
  have u: "ulid_ok (ae_ulid (ce_agents C))" using ok by (simp add: agent_env_ok_def)
  have "codec_ok persisted_config (ae_codec (ce_agents C))" "valid_utf8 (?show i)"
    using ok u by (simp_all add: agent_env_ok_def ulid_ok_def)
  then obtain m' where m': "write_json (ae_codec (ce_agents C)) m [''agents'', doc_name (?show i)] c = Inr m'"
      "docs_inv ''agents'' (ae_codec (ce_agents C)) m' (M(?show i \<mapsto> persisted_config c))"
    using ags.write_doc [OF _ M(1)] by blast
  have "(M(?show i \<mapsto> persisted_config c)) (?show j) = (A(i \<mapsto> persisted_config c)) j" for j
    using M(2) ulid_show_inj [OF u, of j i] by simp
  moreover have "\<exists>j. name = ?show j" if "(M(?show i \<mapsto> persisted_config c)) name \<noteq> None" for name
    using M(3) [of name] that by (auto split: if_splits)
  ultimately have "agents_dir_inv C m' (A(i \<mapsto> persisted_config c))"
    unfolding agents_dir_inv_def using m'(2) ids i by auto
  then show ?thesis using m'(1) by (simp add: agent_path_doc)
qed

fun agent_cmd_dir :: "code_env \<Rightarrow> files \<Rightarrow> agent_cmd \<Rightarrow> crab_error + files" where
  "agent_cmd_dir C m (Upsert c) = upsert_agent_dir C m c"
| "agent_cmd_dir C m (Rename i n) = map_sum id snd (rename_agent_dir C m i n)"
| "agent_cmd_dir C m (Remove i) = Inr (snd (delete_agent_dir C m i))"

fun agent_run_dir :: "code_env \<Rightarrow> files \<Rightarrow> agent_cmd list \<Rightarrow> crab_error + files" where
  "agent_run_dir C m [] = Inr m"
| "agent_run_dir C m (x # xs) = bindr (agent_cmd_dir C m x) (\<lambda>m'. agent_run_dir C m' xs)"

lemma agent_cmd_dir_inv:
  assumes ok: "agent_env_ok (ce_agents C)" and inv: "agents_dir_inv C m A" and x: "agent_cmd_ok (ce_unicode C) A x"
  shows "\<exists>m'. agent_cmd_dir C m x = Inr m' \<and> agents_dir_inv C m' (agent_cmd_spec A x)"
proof (cases x)
  case (Upsert c)
  then show ?thesis
    using write_agent_inv [OF ok inv, of c "ag_id c"] x by (auto simp: upsert_agent_dir_def refused_def)
next
  case (Rename i n)
  show ?thesis
  proof (cases "A i")
    case None
    then show ?thesis
      using Rename inv x by (simp add: rename_agent_dir_def refused_def load_agent_dir_inv [OF inv])
  next
    case (Some c)
    then have "ag_id (c\<lparr>ag_name := n\<rparr>) = i" using inv by (simp add: agents_dir_inv_def)
    then obtain m' where "write_json (ae_codec (ce_agents C)) m (agent_path C i) (c\<lparr>ag_name := n\<rparr>) = Inr m'"
        "agents_dir_inv C m' (A(i \<mapsto> persisted_config (c\<lparr>ag_name := n\<rparr>)))"
      using write_agent_inv [OF ok inv] by blast
    then show ?thesis
      using Rename Some x by (simp add: rename_agent_dir_def refused_def load_agent_dir_inv [OF inv])
  qed
next
  case (Remove i)
  let ?show = "ulid_show (ae_ulid (ce_agents C))"
  obtain M where M: "docs_inv ''agents'' (ae_codec (ce_agents C)) m M" "\<And>i. M (?show i) = A i"
      "\<And>name. M name \<noteq> None \<Longrightarrow> \<exists>i. name = ?show i" and ids: "\<And>i c. A i = Some c \<Longrightarrow> ag_id c = i"
    using inv unfolding agents_dir_inv_def by blast
  have u: "ulid_ok (ae_ulid (ce_agents C))" using ok by (simp add: agent_env_ok_def)
  have "docs_inv ''agents'' (ae_codec (ce_agents C)) (snd (delete_agent_dir C m i)) (M(?show i := None))"
    using ags.remove_doc(2) [OF M(1)] by (simp add: delete_agent_dir_def agent_path_doc)
  moreover have "(M(?show i := None)) (?show j) = (A(i := None)) j" for j
    using M(2) ulid_show_inj [OF u, of j i] by simp
  moreover have "\<exists>j. name = ?show j" if "(M(?show i := None)) name \<noteq> None" for name
    using M(3) [of name] that by (auto split: if_splits)
  ultimately have "agents_dir_inv C (snd (delete_agent_dir C m i)) (A(i := None))"
    unfolding agents_dir_inv_def using ids by auto
  then show ?thesis using Remove by simp
qed

lemma agent_run_dir_inv:
  assumes "agent_env_ok (ce_agents C)" and "agents_dir_inv C m A" and "agent_cmds_ok (ce_unicode C) A xs"
  shows "\<exists>m'. agent_run_dir C m xs = Inr m' \<and> agents_dir_inv C m' (foldl agent_cmd_spec A xs)"
  using assms(2-)
proof (induction xs arbitrary: m A)
  case (Cons x xs)
  then obtain m1 where "agent_cmd_dir C m x = Inr m1" "agents_dir_inv C m1 (agent_cmd_spec A x)"
    using agent_cmd_dir_inv [OF assms(1)] by fastforce
  with Cons.IH [OF this(2)] Cons.prems(2) show ?case by simp
qed simp

lemma read_agents_known:
  assumes "agents_dir_inv C m A" and "ulid_ok (ae_ulid (ce_agents C))"
    and "\<forall>name \<in> set names. \<exists>i c. name = ulid_show (ae_ulid (ce_agents C)) i \<and> A i = Some c"
  shows "read_agents C m names = Inr (map (\<lambda>name. the (A (the (ulid_parse (ae_ulid (ce_agents C)) name)))) names)"
  using assms(3)
proof (induction names)
  case (Cons name names)
  then obtain i c where "name = ulid_show (ae_ulid (ce_agents C)) i" "A i = Some c" by auto
  then show ?case using Cons assms(2) by (simp add: load_agent_dir_inv [OF assms(1)] ulid_ok_def)
qed simp

lemma all_agents_inv:
  assumes inv: "agents_dir_inv C m A" and u: "ulid_ok (ae_ulid (ce_agents C))"
  shows "\<exists>out. all_agents C m = Inr out \<and> set out = ran A \<and> distinct (map ag_id out) \<and>
    sorted_wrt (\<lambda>a b. ag_name a \<le> ag_name b) out"
proof -
  let ?show = "ulid_show (ae_ulid (ce_agents C))" and ?parse = "ulid_parse (ae_ulid (ce_agents C))"
  obtain M where M: "docs_inv ''agents'' (ae_codec (ce_agents C)) m M" "\<And>i. M (?show i) = A i"
      "\<And>name. M name \<noteq> None \<Longrightarrow> \<exists>i. name = ?show i" and ids: "\<And>i c. A i = Some c \<Longrightarrow> ag_id c = i"
    using inv unfolding agents_dir_inv_def by blast
  let ?names = "names_in m [''agents''] ''.json''"
  note names = ags.list_docs [OF M(1)]
  have known: "\<exists>i c. name = ?show i \<and> A i = Some c" if "name \<in> set ?names" for name
  proof -
    have "M name \<noteq> None" using that names(3) by auto
    moreover from M(3) [OF this] obtain i where "name = ?show i" by blast
    ultimately show ?thesis using M(2) by auto
  qed
  have parse: "?parse (?show i) = Some i" for i using u by (simp add: ulid_ok_def)
  let ?f = "\<lambda>name. the (A (the (?parse name)))"
  let ?out = "sort_by (\<lambda>a b. ag_name a \<le> ag_name b) (map ?f ?names)"
  have "all_agents C m = Inr ?out"
    using read_agents_known [OF inv u] known by (simp add: all_agents_def)
  moreover have "set ?out = ran A"
  proof
    show "set ?out \<subseteq> ran A" using known parse by (force intro: ranI)
    show "ran A \<subseteq> set ?out"
    proof
      fix c assume "c \<in> ran A"
      then obtain i where i: "A i = Some c" by (auto simp: ran_def)
      then have "?show i \<in> set ?names" using M(2) names(3) by auto
      moreover have "?f (?show i) = c" using i parse by simp
      ultimately show "c \<in> set ?out" by force
    qed
  qed
  moreover have "distinct (map ag_id ?out)"
  proof -
    have "?show (ag_id (?f name)) = name" if "name \<in> set ?names" for name
      using known [OF that] parse ids by auto
    then have "inj_on (\<lambda>name. ag_id (?f name)) (set ?names)" by (rule inj_on_inverseI)
    then have "distinct (map (\<lambda>name. ag_id (?f name)) ?names)" using names(2) by (simp add: distinct_map)
    then show ?thesis unfolding distinct_sort_by by (simp add: comp_def)
  qed
  moreover have "sorted_wrt (\<lambda>a b. ag_name a \<le> ag_name b) ?out"
    by (rule sorted_sort_by) auto
  ultimately show ?thesis by blast
qed

lemma kv_delete_ok: "bt_ok m \<Longrightarrow> kv_delete m c k = (a, m1) \<Longrightarrow> bt_ok m1"
  using bt_ok_delete [of m c k] by simp

lemma agent_run_bt_ok: "agent_run E m xs = Inr m' \<Longrightarrow> bt_ok m \<Longrightarrow> bt_ok m'"
proof (induction xs arbitrary: m)
  case (Cons x xs)
  then obtain m1 where m1: "agent_cmd_run E m x = Inr m1" "agent_run E m1 xs = Inr m'" by (auto simp: bindr_Inr)
  have "bt_ok m1"
    using m1(1) Cons.prems(2)
    by (cases x) (auto simp: upsert_agent_def rename_agent_def delete_agent_def put_agent_name_def bindr_Inr Let_def
        map_sum_Inr_iff split: option.splits if_splits intro: kv_delete_ok bt_ok_delete)
  then show ?case using Cons.IH m1(2) by blast
qed simp

lemma find_unique:
  assumes "\<And>a b. a \<in> set xs \<Longrightarrow> b \<in> set xs \<Longrightarrow> f a = f b \<Longrightarrow> a = b"
  shows "find (\<lambda>a. f a = y) xs = Some x \<longleftrightarrow> x \<in> set xs \<and> f x = y"
  using assms by (induction xs) auto

lemma strict_names:
  fixes f :: "'a \<Rightarrow> 'b::linorder"
  assumes "sorted_wrt (\<lambda>a b. f a \<le> f b) xs" and "distinct (map f xs)"
  shows "sorted_wrt (<) (map f xs)"
  using assms by (induction xs) (auto simp: order_less_le)

text \<open>
  C35: Whatever agents are put, renamed and removed, as long as a put or a rename takes a valid
  name no other agent has, and a rename a name other than the agent's own, the directory of the
  terminal client and the keyspace of the daemon end with the same agents: both runs succeed, every
  id loads the same configuration, every name resolves to the same one, though the directory keeps
  no index of names, and both list the ids in the same order.
\<close>

theorem agents_agree:
  assumes E: "agent_env_ok E" and C: "agent_env_ok (ce_agents C)" and U: "ce_unicode C = ae_unicode E"
    and k: "bt_ok k" "agents_consistent E k" and d: "agents_dir_inv C d (agents_of E k)"
    and xs: "agent_cmds_ok (ae_unicode E) (agents_of E k) xs"
  shows "\<exists>k' d'. agent_run E k xs = Inr k' \<and> agent_run_dir C d xs = Inr d' \<and>
    (\<forall>i. \<exists>r. load_agent E k' i = Inr r \<and> load_agent_dir C d' i = Inr r) \<and>
    (\<forall>n. \<exists>r. load_agent_by_name E k' n = Inr r \<and> load_agent_by_name_dir C d' n = Inr r) \<and>
    agent_ids_dir C d' = Inr (agent_ids E k')"
proof -
  obtain k' where k': "agent_run E k xs = Inr k'" "agents_consistent E k'"
      "agents_of E k' = foldl agent_cmd_spec (agents_of E k) xs"
    using agent_runs [OF E k(2) xs] by blast
  have ok: "bt_ok k'" by (rule agent_run_bt_ok [OF k'(1) k(1)])
  let ?A = "agents_of E k'"
  obtain d' where d': "agent_run_dir C d xs = Inr d'" "agents_dir_inv C d' ?A"
    using agent_run_dir_inv [OF C d] xs U k'(3) by auto
  have u: "ulid_ok (ae_ulid (ce_agents C))" using C by (simp add: agent_env_ok_def)
  obtain out where out: "all_agents C d' = Inr out" "set out = ran ?A" "distinct (map ag_id out)"
      "sorted_wrt (\<lambda>a b. ag_name a \<le> ag_name b) out"
    using all_agents_inv [OF d'(2) u] by blast
  have uniq: "a = b" if ab: "a \<in> set out" "b \<in> set out" "ag_name a = ag_name b" for a b
  proof -
    obtain i j where "?A i = Some a" "?A j = Some b" using ab(1,2) unfolding out(2) ran_def by blast
    then show ?thesis using consistent_unique [OF E k'(2)] ab(3) by fastforce
  qed
  have by_name: "\<exists>r. load_agent_by_name E k' n = Inr r \<and> load_agent_by_name_dir C d' n = Inr r" for n
  proof (cases "\<exists>i c. ?A i = Some c \<and> ag_name c = n")
    case True
    then obtain i c where c: "?A i = Some c" "ag_name c = n" by blast
    then have "load_agent_by_name E k' n = Inr (Some c)"
      using load_agent_by_name_exact [OF E k'(2), of n c] by blast
    moreover have "c \<in> set out" using c(1) unfolding out(2) by (rule ranI)
    moreover have "find (\<lambda>a. ag_name a = n) out = Some c \<longleftrightarrow> c \<in> set out \<and> ag_name c = n"
      by (rule find_unique) (rule uniq)
    ultimately show ?thesis using c(2) by (simp add: load_agent_by_name_dir_def out(1))
  next
    case False
    then have "load_agent_by_name E k' n = Inr None"
      using load_agent_by_name_exact [OF E k'(2), of n] by blast
    moreover have "find (\<lambda>a. ag_name a = n) out = None"
      using False out(2) by (auto simp: find_None_iff ran_def)
    ultimately show ?thesis by (simp add: load_agent_by_name_dir_def out(1))
  qed
  have ids: "map ag_id out = agent_ids E k'"
  proof -
    let ?name = "\<lambda>i. ag_name (the (?A i))"
    note listed = agent_ids_in_name_order [OF E ok k'(2)]
    have own: "?A (ag_id c) = Some c" if "c \<in> set out" for c
      using that consistent_id [OF k'(2)] by (auto simp: out(2) ran_def)
    have names: "map ?name (map ag_id out) = map ag_name out" using own by simp
    have "distinct out" using out(3) by (simp add: distinct_map)
    then have "distinct (map ag_name out)" using uniq by (simp add: distinct_map inj_on_def)
    then have strict: "sorted_wrt (<) (map ?name (map ag_id out))"
      unfolding names by (rule strict_names [OF out(4)])
    have "set (map ag_id out) = dom ?A"
      using consistent_id [OF k'(2)] by (force simp: out(2) ran_def)
    then have same: "set (map ag_id out) = set (agent_ids E k')" using listed by simp
    then have "set (map ?name (map ag_id out)) = set (map ?name (agent_ids E k'))"
      by (simp only: set_map)
    then have "map ?name (map ag_id out) = map ?name (agent_ids E k')"
      using strict listed by (intro strict_sorted_equal) auto
    moreover have "inj_on ?name (set (map ag_id out) \<union> set (agent_ids E k'))"
      unfolding same [symmetric] Un_absorb using own uniq by (auto simp: inj_on_def)
    ultimately show ?thesis by (rule map_inj_on)
  qed
  show ?thesis
    using k'(1) d'(1) consistent_load [OF k'(2)] load_agent_dir_inv [OF d'(2)] by_name ids
    by (auto simp: agent_ids_dir_def out(1))
qed

text \<open>An empty directory of agents, for concrete inputs.\<close>

lemma empty_agents_dir: "agents_dir_inv C [([''agents''], FDir)] Map.empty"
proof -
  have "docs_inv ''agents'' (ae_codec (ce_agents C)) [([''agents''], FDir)] Map.empty"
    by (rule docs_invI) (simp_all add: bt_ok_def)
  then show ?thesis unfolding agents_dir_inv_def by (intro conjI exI [of _ Map.empty]) simp_all
qed

theorem agents_agree_witness:
  "\<exists>k' d'. agent_run sample_env [] [Upsert (sample_config 7 ''crab''), Rename 7 ''claw''] = Inr k' \<and>
     agent_run_dir sample_code_env [([''agents''], FDir)] [Upsert (sample_config 7 ''crab''), Rename 7 ''claw''] = Inr d' \<and>
     agent_ids_dir sample_code_env d' = Inr (agent_ids sample_env k')"
proof -
  let ?xs = "[Upsert (sample_config 7 ''crab''), Rename 7 ''claw'']"
  have C: "ce_agents sample_code_env = sample_env" by (simp add: sample_code_env_def)
  have none: "agents_consistent sample_env []" "agents_of sample_env [] = Map.empty"
    using empty_consistent [of sample_env] by simp_all
  have "agent_cmds_ok (ae_unicode sample_env) Map.empty ?xs"
    by (simp add: sample_env_def sample_names name_free_def persisted_config_def)
  then show ?thesis
    using agents_agree [OF sample_env_ok _ _ bt_ok_Nil none(1), of sample_code_env "[([''agents''], FDir)]" ?xs]
      sample_env_ok empty_agents_dir [of sample_code_env]
    unfolding none(2) C by blast
qed

end
