(* ===== verification/CodeStoreEdges.thy ===== *)
theory CodeStoreEdges
  imports CodeDocuments
begin

section \<open>Ranking, windows, small files and crashes in the terminal client's store\<close>

text \<open>
  The rest of what the client's store guarantees: what a ranking holds and where it differs from
  the one over postings, that the window around a hit is the keyspace store's, what
  subscriptions, skills and harness images read as after a put; and the edges: a line cut short
  by a crash, a session handle that is a dot name.
\<close>

subsection \<open>A line cut short\<close>

text \<open>
  A last line cut short by a crash is dropped when the file is read, but the next append continues
  it: the first entry appended after the crash is lost with it, the others are kept.
\<close>

theorem torn_line_swallows_next:
  assumes J: "line_codec_ok p J" and ls: "\<forall>l \<in> set ls. l \<noteq> [] \<and> CHR 0x0A \<notin> set l"
    and es: "map (from_json J) ls = map Some es" and t: "CHR 0x0A \<notin> set t" "from_json J t = None"
    and lost: "from_json J (t @ to_json J v) = None"
  shows "lines_of J (concat (map (\<lambda>l. l @ newline) ls) @ t) = es \<and>
    lines_of J ((concat (map (\<lambda>l. l @ newline) ls) @ t) @ json_lines J (v # vs)) = es @ map p vs"
proof
  have whole: "filter (\<lambda>l. l \<noteq> []) ls = ls" using ls by (simp add: filter_id_conv)
  have mf: "List.map_filter (from_json J) (ls @ xs) = es @ List.map_filter (from_json J) xs" for xs
    using map_filter_some [OF es] by (simp add: List.map_filter_def)
  have "split_char (CHR 0x0A) (concat (map (\<lambda>l. l @ newline) ls) @ t) = ls @ split_char (CHR 0x0A) t"
    using ls by (intro lines_split) blast
  also have "split_char (CHR 0x0A) t = [t]"
    unfolding split_char_def using t(1) by (intro split_when_none) auto
  finally show "lines_of J (concat (map (\<lambda>l. l @ newline) ls) @ t) = es"
    using t(2) by (simp add: lines_of_def whole mf map_filter_simps)
  note enc = encoded_lines [OF J, of vs]
  let ?ks = "ls @ (t @ to_json J v) # map (to_json J) vs"
  have v: "to_json J v \<noteq> []" "CHR 0x0A \<notin> set (to_json J v)" using encoded_lines(1) [OF J, of "[v]"] by simp_all
  have "(concat (map (\<lambda>l. l @ newline) ls) @ t) @ json_lines J (v # vs) =
      concat (map (\<lambda>l. l @ newline) ?ks) @ []"
    by (simp add: json_lines_def comp_def)
  moreover have "split_char (CHR 0x0A) (concat (map (\<lambda>l. l @ newline) ?ks) @ []) = ?ks @ split_char (CHR 0x0A) []"
    using ls enc(1) t(1) v(2) by (intro lines_split) auto
  moreover have "filter (\<lambda>l. l \<noteq> []) (?ks @ [[]]) = ?ks"
    using whole enc(1) v(1) by (auto simp: filter_id_conv)
  moreover have "List.map_filter (from_json J) ?ks = es @ map p vs"
    using map_filter_some [OF enc(2)] lost by (simp add: mf map_filter_simps)
  ultimately show "lines_of J ((concat (map (\<lambda>l. l @ newline) ls) @ t) @ json_lines J (v # vs)) = es @ map p vs"
    by (simp add: lines_of_def split_char_def)
qed

definition bit_codec :: "bool codec" where
  "bit_codec = \<lparr>to_json = (\<lambda>b. if b then ''[1]'' else ''[0]''),
     from_json = (\<lambda>s. if s = ''[1]'' then Some True else if s = ''[0]'' then Some False else None)\<rparr>"

theorem torn_line_swallows_next_witness:
  "lines_of bit_codec (''[1]'' @ newline @ ''[0'' @ json_lines bit_codec [True, False]) = [True, False]"
proof -
  have "line_codec_ok id bit_codec"
    by (simp add: line_codec_ok_def codec_ok_def bit_codec_def)
  moreover have "map (from_json bit_codec) [''[1]''] = map Some [True]"
    "from_json bit_codec ''[0'' = None" "from_json bit_codec (''[0'' @ to_json bit_codec True) = None"
    by (simp_all add: bit_codec_def)
  ultimately show ?thesis
    using torn_line_swallows_next [of id bit_codec "[''[1]'']" "[True]" "''[0''" True "[False]"] by simp
qed

subsection \<open>Dot names\<close>

text \<open>
  The encoding leaves the names of the parent and of the directory itself as they are: deleting a
  session under the handle \<open>..\<close> removes everything below the root of the store, under \<open>.\<close> or the
  empty handle every session.
\<close>

theorem delete_dot_handles:
  assumes "map_of m [''sessions''] = Some FDir" and "p \<noteq> []"
  shows "map_of (snd (delete_session_dir m ''..'')) p = None \<and>
    map_of (snd (delete_session_dir m ''.'')) p = (if strict_prefix [''sessions''] p then None else map_of m p) \<and>
    map_of (snd (delete_session_dir m [])) p = (if prefix [''sessions''] p then None else map_of m p)"
proof -
  have s: "is_dir m [''sessions'']" "is_dir m []" using assms(1) by (simp_all add: is_dir_def)
  have w: "locate m [] (session_dir ''..'') = Some []" "locate m [] (session_dir ''.'') = Some [''sessions'']"
    "locate m [] (session_dir []) = Some [''sessions'']"
    using s by (simp_all add: session_dir_def)
  show ?thesis
    using assms(2) s
    by (simp add: delete_session_dir_def sys_remove_dir_all_def w map_of_emptied Let_def session_dir_def)
      (auto simp: strict_prefix_def)
qed

theorem delete_dot_handles_witness:
  "map_of (snd (delete_session_dir [([''agents''], FDir), ([''agents'', ''x.json''], FFile ''{}''), ([''sessions''], FDir)] ''..''))
     [''agents'', ''x.json''] = None"
  using delete_dot_handles [of "[([''agents''], FDir), ([''agents'', ''x.json''], FFile ''{}''), ([''sessions''], FDir)]"
      "[''agents'', ''x.json'']"] by simp

subsection \<open>Ranking\<close>

lemma length_rank_term [simp]: "length ds = length scores \<Longrightarrow> length (rank_term n a ds t scores) = length scores"
  by (simp add: rank_term_def term_counts_def Let_def)

lemma length_rank_terms: "length ds = length scores \<Longrightarrow> length (foldl (\<lambda>s t. rank_term n a ds t s) scores ts) = length scores"
  by (induction ts arbitrary: scores) auto

lemma if_twice: "(if a then [] else if b then [] else x) = [] \<or> (if a then [] else if b then [] else x) = x"
  by simp

lemma rank_shape:
  "rank U docs query limit = [] \<or> (\<exists>scores. length scores = length docs \<and>
     rank U docs query limit = take limit (sort_by (\<lambda>a b. snd b \<le> snd a)
       (filter (\<lambda>e. snd e > 0) (enumerate 0 scores))))"
proof -
  let ?ts = "map (\<lambda>d. tokenize U (sd_text d)) docs"
  let ?S = "foldl (\<lambda>s t. rank_term (length docs) (real (sum_list (map length ?ts)) / real (length docs))
      (zip ?ts (map sd_weight docs)) t s) (replicate (length docs) 0)
      (filter (\<lambda>t. \<not> is_stopword t) (tokenize U query))"
  have "length ?S = length docs" by (subst length_rank_terms) simp_all
  moreover have "rank U docs query limit = [] \<or>
      rank U docs query limit = take limit (sort_by (\<lambda>a b. snd b \<le> snd a) (filter (\<lambda>e. snd e > 0) (enumerate 0 ?S)))"
    unfolding rank_def Let_def by (rule if_twice)
  ultimately show ?thesis by blast
qed

text \<open>
  A ranking returns at most \<open>limit\<close> documents, each once, each one of those given, with a positive
  score, best first.
\<close>

theorem rank_sound:
  "length (rank U docs query limit) \<le> limit \<and> distinct (map fst (rank U docs query limit)) \<and>
   (\<forall>e \<in> set (rank U docs query limit). fst e < length docs \<and> 0 < snd e) \<and>
   sorted_wrt (\<lambda>a b. snd b \<le> snd a) (rank U docs query limit)"
proof (cases "rank U docs query limit = []")
  case False
  then obtain scores where len: "length scores = length docs"
    and r: "rank U docs query limit = take limit (sort_by (\<lambda>a b. snd b \<le> snd a)
      (filter (\<lambda>e. snd e > 0) (enumerate 0 scores)))"
    using rank_shape [of U docs query limit] by blast
  let ?es = "filter (\<lambda>e. snd e > 0) (enumerate 0 scores)"
  let ?s = "sort_by (\<lambda>a b. snd b \<le> snd a) ?es"
  have "sorted_wrt (\<lambda>a b. snd b \<le> snd a) ?s" by (rule sorted_sort_by) auto
  moreover have "distinct (map fst ?s)"
    unfolding distinct_sort_by by (rule distinct_map_filter) (simp add: map_fst_enumerate)
  moreover have "fst e < length docs \<and> 0 < snd e" if "e \<in> set ?s" for e
    using that len by (auto simp: in_set_enumerate_eq)
  ultimately show ?thesis
    unfolding r using sorted_wrt_take [of _ ?s limit]
    by (intro conjI ballI) (auto simp only: take_map [symmetric] length_take distinct_take min.cobounded2 dest: in_set_takeD)
qed simp

text \<open>
  A word written twice in a query counts twice, and every word of a hyphenated one counts, where
  the ranking over postings takes each term once and only the first word.
\<close>

lemma rank_term_twice:
  assumes "length ds = k"
  shows "rank_term n a ds t (rank_term n a ds t (replicate k 0)) = map (\<lambda>s. 2 * s) (rank_term n a ds t (replicate k 0))"
proof -
  have z: "zip ds (zip cs (replicate k 0)) = map (\<lambda>(d, c). (d, c, 0)) (zip ds cs)"
    if "length cs = k" for cs :: "nat list"
    using assms that by (intro nth_equalityI) auto
  show ?thesis
    using assms
    by (auto simp: rank_term_def Let_def term_counts_def z comp_def case_prod_unfold zip_map2 zip_map1
        intro!: nth_equalityI)
qed

theorem queries_read_differently:
  "map term_text (query_terms ascii_unicode ''tokio-rs rust rust'') = [''tokio'', ''rust''] \<and>
   filter (\<lambda>t. \<not> is_stopword t) (tokenize ascii_unicode ''tokio-rs rust rust'') = [''tokio'', ''rs'', ''rust'', ''rust'']"
  by code_simp

subsection \<open>Windows\<close>

lemma enumerate_map: "enumerate 0 xs = map (\<lambda>i. (i, xs ! i)) [0..<length xs]"
  by (simp add: enumerate_eq_zip) (rule nth_equalityI, auto)

lemma window_loop_known:
  assumes "\<forall>i \<in> set js. get_json (se_entry E) m Session (message_key h i) = Inr (Some (f i))"
    and "\<forall>i \<in> set rest. get_json (se_entry E) m Session (message_key h i) = Inr None"
    and "length out \<le> MAX_WINDOW_ITEMS"
  shows "window_loop E m h (js @ rest) out =
    Inr (out @ take (MAX_WINDOW_ITEMS - length out) (map (\<lambda>i. window_item_of E i (f i)) js))"
  using assms(1,3)
proof (induction js arbitrary: out)
  case Nil
  then show ?case using window_loop_absent [OF assms(2)] by simp
next
  case (Cons i js)
  show ?case
  proof (cases "length out < MAX_WINDOW_ITEMS")
    case True
    then have "window_loop E m h ((i # js) @ rest) out = window_loop E m h (js @ rest) (out @ [window_item_of E i (f i)])"
      using window_loop_step [of out E m h i "f i"] Cons.prems(1) by simp
    also have "\<dots> = Inr ((out @ [window_item_of E i (f i)]) @
        take (MAX_WINDOW_ITEMS - length (out @ [window_item_of E i (f i)])) (map (\<lambda>i. window_item_of E i (f i)) js))"
      by (rule Cons.IH) (use Cons.prems(1) True in simp_all)
    also have "\<dots> = Inr (out @ take (MAX_WINDOW_ITEMS - length out) (map (\<lambda>i. window_item_of E i (f i)) (i # js)))"
      using True by (simp add: take_Cons' Suc_diff_Suc)
    finally show ?thesis .
  next
    case False
    then show ?thesis using Cons.prems(2) by (simp add: window_loop_full)
  qed
qed

text \<open>
  Over the same turns the window around a hit is the same in both stores, the limit of sixteen
  items and what it cuts off included.
\<close>

theorem windows_agree:
  assumes S: "session_rel E m h (meta, es, arch)" and W: "ce_wire C = se_wire E" and pos: "pos < length es"
  shows "window E m h pos opts = Inr (window_dir C es pos opts)"
proof -
  let ?b = "min (so_context_before opts) MAX_WINDOW_ITEMS" and ?a = "min (so_context_after opts) MAX_WINDOW_ITEMS"
  define N where "N = min (pos + ?a) (2 ^ 64 - 1) + 1"
  define L where "L = min N (length es)"
  have len: "length es \<le> 10 ^ 12" using S by (simp add: session_rel_def MAX_MESSAGES_def)
  then have "pos < 2 ^ 64 - 1" using pos by simp
  then have L: "pos < L" "L \<le> N" "L \<le> length es" using pos by (simp_all add: L_def N_def)
  have here: "get_json (se_entry E) m Session (message_key h i) = Inr (Some (es ! i))" if "i < length es" for i
    using S that by (simp add: session_rel_def)
  have gone: "get_json (se_entry E) m Session (message_key h i) = Inr None" if "\<not> i < length es" for i
  proof -
    have "kv_get m Session (message_key h i) \<noteq> None \<longleftrightarrow> (\<exists>j < length es. message_key h i = message_key h j)"
      using S message_key_prefix unfolding session_rel_def prod.case by blast
    then have "kv_get m Session (message_key h i) = None" using that by auto
    then show ?thesis by (rule get_json_none)
  qed
  have js: "[pos - ?b ..< N] = [pos - ?b ..< L] @ [L ..< N]"
    using L(1,2) by (metis upt_add_eq_append le_add_diff_inverse less_imp_le diff_le_self le_trans)
  have "window E m h pos opts = window_loop E m h [pos - ?b ..< N] []"
    unfolding window_def Let_def N_def ..
  also have "\<dots> = window_loop E m h ([pos - ?b ..< L] @ [L ..< N]) []" by (simp only: js)
  also have "\<dots> = Inr ([] @ take (MAX_WINDOW_ITEMS - length ([] :: window_item list))
      (map (\<lambda>i. window_item_of E i (es ! i)) [pos - ?b ..< L]))"
  proof (rule window_loop_known)
    show "\<forall>i \<in> set [pos - ?b ..< L]. get_json (se_entry E) m Session (message_key h i) = Inr (Some (es ! i))"
      using L(3) here by simp
    show "\<forall>i \<in> set [L ..< N]. get_json (se_entry E) m Session (message_key h i) = Inr None"
      using gone by (simp add: L_def min_def split: if_splits)
  qed simp
  finally have keyed: "window E m h pos opts =
      Inr (take MAX_WINDOW_ITEMS (map (\<lambda>i. window_item_of E i (es ! i)) [pos - ?b ..< L]))" by simp
  have fin: "min (min (pos + ?a) (2 ^ 64 - 1)) (length es - 1) + 1 = L"
    using pos unfolding L_def N_def by linarith
  have "drop (pos - ?b) (take L (enumerate 0 es)) = map (\<lambda>i. (i, es ! i)) [pos - ?b ..< L]"
    using L(3) by (simp add: enumerate_map take_map drop_map)
  then have "window_dir C es pos opts =
      take MAX_WINDOW_ITEMS (map (\<lambda>i. window_item_of E i (es ! i)) [pos - ?b ..< L])"
    unfolding window_dir_def Let_def fin by (simp add: take_map W window_item_of_def case_prod_unfold comp_def)
  then show ?thesis using keyed by simp
qed

subsection \<open>Subscriptions\<close>

lemma put_sub_ids: "map es_id (put_sub s subs) =
    (if es_id s \<in> set (map es_id subs) then map es_id subs else map es_id subs @ [es_id s])"
  by (induction subs) auto

lemma in_put_sub:
  "distinct (map es_id subs) \<Longrightarrow> x \<in> set (put_sub s subs) \<longleftrightarrow> x = s \<or> x \<in> set subs \<and> es_id x \<noteq> es_id s"
  by (induction subs) (auto simp: image_iff)

text \<open>The root of a store: the subscriptions are a document there, or none is yet.\<close>

definition subs_inv :: "code_env \<Rightarrow> files \<Rightarrow> event_subscription list \<Rightarrow> bool" where
  "subs_inv C m subs \<longleftrightarrow>
     bt_ok m \<and> distinct (map es_id subs) \<and> map_of m [''subscriptions.tmp''] = None \<and>
     (map_of m subscriptions_path = None \<and> subs = [] \<or>
      (\<exists>b. map_of m subscriptions_path = Some (FFile b) \<and> from_json (ce_subs C) b = Some subs))"

lemma read_subs: "subs_inv C m subs \<Longrightarrow> subscriptions_dir C m = Inr subs"
  by (auto simp: subs_inv_def subscriptions_dir_def read_json_def sys_read_def subscriptions_path_def is_dir_def)

lemma write_subs:
  assumes J: "codec_ok id (ce_subs C)" and inv: "subs_inv C m subs" and d: "distinct (map es_id subs')"
  shows "\<exists>m'. write_json (ce_subs C) m subscriptions_path subs' = Inr m' \<and> subs_inv C m' subs'"
proof -
  have t: "with_tmp ([] @ [''subscriptions.json'']) = [] @ [''subscriptions.tmp'']" by code_simp
  have nodir: "\<not> is_dir m ([] @ [''subscriptions.json''])" "\<not> is_dir m ([] @ [''subscriptions.tmp''])"
    using inv by (auto simp: subs_inv_def is_dir_def subscriptions_path_def)
  have way: "way_free m [] []" "plain_path []" "plain_part ''subscriptions.json''" "plain_part ''subscriptions.tmp''"
    by (simp_all add: way_free_def plain_part_def)
  obtain m' where m': "replace_file m ([] @ [''subscriptions.json'']) (to_json (ce_subs C) subs') = Inr m'"
      "bt_ok m \<longrightarrow> bt_ok m'"
      "\<And>q. map_of m' q = (if q = [''subscriptions.json''] then Some (FFile (to_json (ce_subs C) subs'))
         else if q = [''subscriptions.tmp''] then None else if q \<noteq> [] \<and> prefix q [] then Some FDir else map_of m q)"
    using replace_file_plain [OF way(2,1,3) t way(4) _ nodir, of "to_json (ce_subs C) subs'"] by auto
  have "subs_inv C m' subs'"
    using inv d m'(2) J by (simp add: subs_inv_def m'(3) subscriptions_path_def codec_ok_def)
  then show ?thesis using m'(1) by (auto simp: write_json_def subscriptions_path_def)
qed

text \<open>
  Putting a subscription keeps one per id and every other one as it was; removing one says whether
  it was there and takes it alone.
\<close>

theorem subscriptions_file:
  assumes "codec_ok id (ce_subs C)" and "subs_inv C m subs"
  shows "\<exists>m'. put_subscription_dir C m s = Inr m' \<and> subs_inv C m' (put_sub s subs) \<and>
      subscriptions_dir C m' = Inr (put_sub s subs)"
    and "\<exists>m'. remove_subscription_dir C m i = Inr (i \<in> set (map es_id subs), m') \<and>
      subscriptions_dir C m' = Inr (filter (\<lambda>x. es_id x \<noteq> i) subs)"
proof -
  have d: "distinct (map es_id subs)" using assms(2) by (simp add: subs_inv_def)
  then have "distinct (map es_id (put_sub s subs))" by (auto simp: put_sub_ids)
  then obtain m' where "write_json (ce_subs C) m subscriptions_path (put_sub s subs) = Inr m'"
      "subs_inv C m' (put_sub s subs)"
    using write_subs [OF assms] by blast
  then show "\<exists>m'. put_subscription_dir C m s = Inr m' \<and> subs_inv C m' (put_sub s subs) \<and>
      subscriptions_dir C m' = Inr (put_sub s subs)"
    using read_subs [OF assms(2)] read_subs by (auto simp: put_subscription_dir_def)
  let ?kept = "filter (\<lambda>x. es_id x \<noteq> i) subs"
  have same: "length ?kept \<noteq> length subs" if "i \<in> set (map es_id subs)"
    using that length_filter_less [of _ subs "\<lambda>x. es_id x \<noteq> i"] by fastforce
  show "\<exists>m'. remove_subscription_dir C m i = Inr (i \<in> set (map es_id subs), m') \<and>
      subscriptions_dir C m' = Inr (filter (\<lambda>x. es_id x \<noteq> i) subs)"
  proof (cases "i \<in> set (map es_id subs)")
    case False
    then have "?kept = subs" by (auto simp: filter_id_conv)
    then show ?thesis using False read_subs [OF assms(2)] by (auto simp: remove_subscription_dir_def)
  next
    case True
    have "distinct (map es_id ?kept)" by (rule distinct_map_filter [OF d])
    then obtain m' where "write_json (ce_subs C) m subscriptions_path ?kept = Inr m'" "subs_inv C m' ?kept"
      using write_subs [OF assms] by blast
    then show ?thesis
      using True same read_subs [OF assms(2)] read_subs by (auto simp: remove_subscription_dir_def Let_def)
  qed
qed

subsection \<open>Skills and harness images\<close>

lemma write_in:
  assumes "sys_write m [a, b] x = Inr m'" and "plain_part a" and "plain_part b"
  shows "sys_read m' [a, b] = Some x" and "plain_part c \<Longrightarrow> c \<noteq> b \<Longrightarrow> sys_read m' [a, c] = sys_read m [a, c]"
  using assms by (auto simp: sys_write_def sys_read_def plain_part_def is_dir_def split: if_splits)

lemma plain_skill [simp]: "plain_part (encode n @ ''.md'')"
proof -
  have "length (encode n @ ''.md'') \<ge> 3" by simp
  then show ?thesis by (auto simp: plain_part_def)
qed

text \<open>
  A skill that was put loads as what its markdown parses to; every other name loads as before.
\<close>

theorem put_skill_dir_loads:
  assumes "put_skill_dir C m md = Inr (summary, m')" and "valid_utf8 md"
  shows "\<exists>s. skill_from_str (ce_skills C) md = Inr s \<and> summary = summary_of s \<and>
    load_skill_dir C m' (sk_name s) = Inr (Some s) \<and>
    (\<forall>n. n \<noteq> sk_name s \<longrightarrow> load_skill_dir C m' n = load_skill_dir C m n)"
proof -
  obtain s where s: "skill_from_str (ce_skills C) md = Inr s" "summary = summary_of s"
      "sys_write m (skill_path (sk_name s)) md = Inr m'"
    using assms(1) by (auto simp: put_skill_dir_def refused_def bindr_Inr map_sum_Inr_iff)
  have p: "plain_part ''skills''" by (simp add: plain_part_def)
  note w = write_in [OF s(3) [unfolded skill_path_def] p plain_skill]
  have "load_skill_dir C m' (sk_name s) = Inr (Some s)"
    using w(1) assms(2) s(1) by (simp add: load_skill_dir_def sys_read_string_def skill_path_def refused_def)
  moreover have "load_skill_dir C m' n = load_skill_dir C m n" if "n \<noteq> sk_name s" for n
    using w(2) [of "encode n @ ''.md''"] that by (simp add: load_skill_dir_def sys_read_string_def skill_path_def encode_inj)
  ultimately show ?thesis using s(1,2) by blast
qed

lemma digest_bytes: "length (digest bs) = 16" "c \<in> set (digest bs) \<Longrightarrow> ascii_alphanumeric c"
proof -
  have "length (hex_digits w n) = w" for w n by (induction w arbitrary: n) auto
  then show "length (digest bs) = 16" by (simp add: digest_def)
  have hex: "ascii_alphanumeric (hex_digit (n mod 16))" for n
  proof -
    have "n mod 16 < 16" by simp
    then show ?thesis by (auto simp: hex_digit_def ascii_alphanumeric_def byte_val_def)
  qed
  have "\<forall>c \<in> set (hex_digits w n). ascii_alphanumeric c" for w n
    by (induction w arbitrary: n) (auto simp: hex)
  then show "c \<in> set (digest bs) \<Longrightarrow> ascii_alphanumeric c" unfolding digest_def by blast
qed

lemma alphanumeric_ascii: "ascii_alphanumeric c \<Longrightarrow> is_ascii c \<and> \<not> ascii_whitespace c \<and> \<not> is_cont c"
  by (auto simp: ascii_alphanumeric_def is_ascii_def ascii_whitespace_def is_cont_def)

lemma trim_alphanumeric:
  assumes "\<forall>c \<in> set s. ascii_alphanumeric c"
  shows "trim U s = s"
proof -
  have "chars s = map (\<lambda>c. [c]) s"
    using assms
  proof (induction s)
    case (Cons c s)
    have "takeWhile is_cont s = [] \<and> dropWhile is_cont s = s"
      using Cons.prems alphanumeric_ascii by (cases s) auto
    then show ?case using Cons by simp
  qed simp
  moreover have "dropWhile (is_whitespace U) (map (\<lambda>c. [c]) xs) = map (\<lambda>c. [c]) xs" if "set xs \<subseteq> set s" for xs
    using that assms alphanumeric_ascii by (cases xs) (auto simp: is_whitespace_def)
  ultimately have "trim_start U s = s" "trim_end U s = s"
    by (simp_all add: trim_start_def trim_end_def rev_map)
  then show ?thesis by (simp add: trim_def)
qed

lemma encode_alphanumeric: "\<forall>c \<in> set s. ascii_alphanumeric c \<Longrightarrow> encode s = s"
  by (induction s) (simp_all add: encode_def encode_byte_def plain_byte_def)

text \<open>
  A harness name resolves to the digest of the image last put under it, and the digest to the image.
\<close>

theorem put_harness_image_dir_resolves:
  assumes "put_harness_image_dir m name bs = Inr (d, m')" and "plain_part name"
  shows "d = digest bs \<and> resolve_harness_dir C m' name = Some d \<and> harness_image_dir m' d = Some bs"
proof -
  obtain m1 m2 where run: "sys_write m (image_path (digest bs)) bs = Inr m1"
      "sys_mkdirs m1 [] [''harnesses'', ''names''] = Inr m2"
      "sys_write m2 (harness_name_path name) (digest bs) = Inr m'" "d = digest bs"
    using assms(1) by (auto simp: put_harness_image_dir_def Let_def bindr_Inr harness_name_path_def)
  have enc: "encode (digest bs) = digest bs" using digest_bytes(2) by (intro encode_alphanumeric) blast
  have dp: "plain_part (digest bs)" "digest bs \<noteq> ''names''"
    using digest_bytes(1) [of bs] by (auto simp: plain_part_def)
  have np: "plain_part ''harnesses''" "plain_part ''names''" "plain_part (encode name)"
    using assms(2) by (simp_all add: plain_part_def [of "''harnesses''"] plain_part_def [of "''names''"])
  have trimmed: "trim (ce_unicode C) (digest bs) = digest bs" using digest_bytes(2) by (intro trim_alphanumeric) blast
  have valid: "valid_utf8 (digest bs)" using digest_bytes(2) alphanumeric_ascii by (intro valid_utf8_ascii) blast
  have img: "map_of m1 [''harnesses'', digest bs] = Some (FFile bs)" "is_dir m1 [''harnesses'']"
    using run(1) dp(1) np(1) by (auto simp: sys_write_def image_path_def enc plain_part_def is_dir_def split: if_splits)
  have img2: "map_of m2 [''harnesses'', digest bs] = Some (FFile bs)" "is_dir m2 [''harnesses'']" "is_dir m2 [''harnesses'', ''names'']"
    using run(2) img dp(2) np by (auto simp: is_dir_def split: option.splits fnode.splits)
  have m': "m' = bt_insert [''harnesses'', ''names'', encode name] (FFile (digest bs)) m2"
    using run(3) img2 np by (auto simp: sys_write_def harness_name_path_def plain_part_def split: if_splits)
  show ?thesis
    using run(4) img2 np dp valid trimmed
    by (simp add: m' resolve_harness_dir_def sys_read_string_def sys_read_def harness_name_path_def harness_image_dir_def
        image_path_def enc is_dir_def plain_part_def)
qed

end
