(* ===== verification/TextFind.thy ===== *)
theory TextFind
  imports SkillFormat
begin

section \<open>Searching and replacing in strings\<close>

text \<open>
  \<open>str::find\<close>, \<open>contains\<close>, \<open>split\<close>, \<open>matches\<close> and \<open>replacen\<close> with a string as the pattern, for the parts
  that read text by it: address normalisation, configuration values, the tools that edit files.
  The patterns are never empty. The lemmas say where the first occurrence is.
\<close>

fun find_sub :: "bytes \<Rightarrow> bytes \<Rightarrow> nat option" where
  "find_sub pat s =
     (if prefix pat s then Some 0
      else (case s of [] \<Rightarrow> None | c # cs \<Rightarrow> map_option Suc (find_sub pat cs)))"

declare find_sub.simps [simp del]

definition contains_sub :: "bytes \<Rightarrow> bytes \<Rightarrow> bool" where
  "contains_sub pat s \<longleftrightarrow> find_sub pat s \<noteq> None"

lemma find_sub_start: "prefix pat s \<Longrightarrow> find_sub pat s = Some 0"
  by (subst find_sub.simps) simp

lemma find_sub_Nil: "find_sub pat [] = (if pat = [] then Some 0 else None)"
  by (simp add: find_sub.simps)

lemma find_sub_Cons:
  "find_sub pat (c # cs) = (if prefix pat (c # cs) then Some 0 else map_option Suc (find_sub pat cs))"
  by (subst find_sub.simps) simp

lemma find_sub_cut: "find_sub pat s = Some n \<Longrightarrow> take n s @ pat @ drop (n + length pat) s = s"
proof (induction s arbitrary: n)
  case Nil
  then show ?case by (simp add: find_sub_Nil split: if_splits)
next
  case (Cons c s)
  show ?case
  proof (cases "prefix pat (c # s)")
    case True
    then have "n = 0" using Cons.prems by (simp add: find_sub_Cons)
    moreover obtain u where "c # s = pat @ u" using True by (auto elim: prefixE)
    ultimately show ?thesis by simp
  next
    case False
    then obtain m where "find_sub pat s = Some m" "n = Suc m" using Cons.prems by (auto simp: find_sub_Cons)
    then show ?thesis using Cons.IH by simp
  qed
qed

lemma find_sub_bound: "find_sub pat s = Some n \<Longrightarrow> n + length pat \<le> length s"
proof (induction s arbitrary: n)
  case Nil
  then show ?case by (simp add: find_sub_Nil split: if_splits)
next
  case (Cons c s)
  then show ?case by (auto simp: find_sub_Cons split: if_splits dest: prefix_length_le)
qed

text \<open>Nothing before the first occurrence is one.\<close>

lemma find_sub_first:
  assumes "find_sub pat s = Some n" and "s = u @ pat @ v"
  shows "n \<le> length u"
  using assms
proof (induction u arbitrary: s n)
  case Nil
  then show ?case using find_sub_start [of pat s] by simp
next
  case (Cons c u)
  show ?case
  proof (cases "prefix pat s")
    case True
    then show ?thesis using Cons.prems(1) find_sub_start [OF True] by simp
  next
    case False
    then obtain m where "find_sub pat (u @ pat @ v) = Some m" "n = Suc m"
      using Cons.prems by (auto simp: find_sub_Cons)
    then show ?thesis using Cons.IH by fastforce
  qed
qed

lemma find_sub_None: "find_sub pat s = None \<Longrightarrow> s \<noteq> u @ pat @ v"
proof (induction s arbitrary: u)
  case Nil
  then show ?case by (auto simp: find_sub_Nil split: if_splits)
next
  case (Cons c s)
  then show ?case by (cases u) (auto simp: find_sub_Cons split: if_splits)
qed

lemma contains_sub_iff: "contains_sub pat s \<longleftrightarrow> (\<exists>u v. s = u @ pat @ v)"
  using find_sub_cut find_sub_None unfolding contains_sub_def by (metis not_None_eq)

text \<open>\<open>split(pat)\<close>; \<open>matches(pat).count()\<close> counts the same occurrences.\<close>

function split_sub :: "bytes \<Rightarrow> bytes \<Rightarrow> bytes list" where
  "split_sub pat s =
     (if pat = [] then [s]
      else (case find_sub pat s of
              None \<Rightarrow> [s]
            | Some n \<Rightarrow> take n s # split_sub pat (drop (n + length pat) s)))"
  by pat_completeness auto
termination
proof (relation "measure (\<lambda>(pat, s). length s)")
  show "((pat, drop (n + length pat) s), (pat, s)) \<in> measure (\<lambda>(pat, s). length s)"
    if "pat \<noteq> []" "find_sub pat s = Some n" for pat s n
    using find_sub_bound [OF that(2)] that(1) by (cases pat) auto
qed simp

declare split_sub.simps [simp del]

definition count_sub :: "bytes \<Rightarrow> bytes \<Rightarrow> nat" where
  "count_sub pat s = length (split_sub pat s) - 1"

lemma split_sub_nonempty: "split_sub pat s \<noteq> []"
  by (subst split_sub.simps) (simp split: option.splits)

lemma count_sub_unfold:
  "pat \<noteq> [] \<Longrightarrow> count_sub pat s =
     (case find_sub pat s of None \<Rightarrow> 0 | Some n \<Rightarrow> Suc (count_sub pat (drop (n + length pat) s)))"
  using split_sub_nonempty [of pat "drop (the (find_sub pat s) + length pat) s"]
  by (auto simp: count_sub_def split_sub.simps [of pat s] split: option.splits)

text \<open>\<open>replacen(pat, r, 1)\<close>.\<close>

definition replace_first :: "bytes \<Rightarrow> bytes \<Rightarrow> bytes \<Rightarrow> bytes" where
  "replace_first pat r s =
     (case find_sub pat s of None \<Rightarrow> s | Some n \<Rightarrow> take n s @ r @ drop (n + length pat) s)"

text \<open>\<open>str::replace\<close>: left to right, no overlap.\<close>

function replace_all :: "bytes \<Rightarrow> bytes \<Rightarrow> bytes \<Rightarrow> bytes" where
  "replace_all pat r s =
     (if pat = [] \<or> s = [] then s
      else if prefix pat s then r @ replace_all pat r (drop (length pat) s)
      else hd s # replace_all pat r (List.tl s))"
  by pat_completeness auto
termination
  by (relation "measure (\<lambda>(pat, r, s). length s)") auto

declare replace_all.simps [simp del]

text \<open>What occurs once is cut out between what is before it and what is after it.\<close>

lemma replace_first_once:
  assumes "pat \<noteq> []" and "count_sub pat s = 1"
  obtains u v where "s = u @ pat @ v" and "replace_first pat r s = u @ r @ v" and "\<not> contains_sub pat v"
    and "\<And>u' v'. s = u' @ pat @ v' \<Longrightarrow> length u \<le> length u'"
proof -
  obtain n where n: "find_sub pat s = Some n" "count_sub pat (drop (n + length pat) s) = 0"
    using assms by (auto simp: count_sub_unfold [OF assms(1), of s] split: option.splits)
  have "find_sub pat (drop (n + length pat) s) = None"
    using n(2) by (auto simp: count_sub_unfold [OF assms(1), of "drop (n + length pat) s"] split: option.splits)
  moreover have "length (take n s) \<le> length u'" if "s = u' @ pat @ v'" for u' v'
    using find_sub_first [OF n(1) that] by simp
  ultimately show thesis
    using that [of "take n s" "drop (n + length pat) s"] find_sub_cut [OF n(1)] n(1)
    by (simp add: replace_first_def contains_sub_def)
qed

end
