(* ===== verification/WebSearch.thy ===== *)
theory WebSearch
  imports SkillFormat TextFind "HOL-Library.Multiset"
begin

section \<open>Meta search: aggregation, cache and output (lib/search)\<close>

text \<open>
  The aggregator asks every configured engine, merges what they return by normalised address,
  scores an address by its positions and by how many engines found it, and keeps the answer in a
  least-recently-used cache. Engines, the order in which they finish and the order in which the
  hash map is walked are arguments. Scores are exact rationals. The lemmas show that merging is
  grouping by normalised address, what the cache returns, and where addresses that should be one
  stay apart.
\<close>

subsection \<open>Results, engines, configuration (result.rs, engine/mod.rs, config.rs)\<close>

record search_result =
  sr_title :: bytes
  sr_url :: bytes
  sr_description :: bytes
  sr_engines :: "bytes list"
  sr_score :: rat

record engine_error_info =
  ei_engine :: bytes
  ei_error :: bytes

record search_results =
  sq_query :: bytes
  sq_results :: "search_result list"
  sq_errors :: "engine_error_info list"
  sq_elapsed_ms :: nat

datatype engine_id = Bing | Brave | DuckDuckGo | Mojeek | Wikipedia

definition engine_all :: "engine_id list" where
  "engine_all = [Bing, Brave, DuckDuckGo, Mojeek, Wikipedia]"

fun engine_name :: "engine_id \<Rightarrow> bytes" where
  "engine_name Bing = ''Bing''"
| "engine_name Brave = ''Brave''"
| "engine_name DuckDuckGo = ''DuckDuckGo''"
| "engine_name Mojeek = ''Mojeek''"
| "engine_name Wikipedia = ''Wikipedia''"

fun engine_description :: "engine_id \<Rightarrow> bytes" where
  "engine_description Bing = ''Bing HTML scraper''"
| "engine_description Brave = ''Brave Search scraper''"
| "engine_description DuckDuckGo = ''DuckDuckGo HTML scraper''"
| "engine_description Mojeek = ''Mojeek HTML scraper''"
| "engine_description Wikipedia = ''Wikipedia opensearch API''"

datatype output_format = FormatJson | FormatText | FormatCompact

record search_config =
  sf_engines :: "engine_id list"
  sf_timeout_secs :: nat
  sf_max_results :: nat
  sf_cache_ttl_secs :: nat
  sf_cache_capacity :: nat
  sf_output_format :: output_format

definition search_config_default :: search_config where
  "search_config_default =
     \<lparr>sf_engines = engine_all, sf_timeout_secs = 10, sf_max_results = 20, sf_cache_ttl_secs = 300,
      sf_cache_capacity = 256, sf_output_format = FormatJson\<rparr>"

subsection \<open>Addresses (aggregator.rs)\<close>

definition tracking_param :: "bytes \<Rightarrow> bool" where
  "tracking_param param =
     (let k = hd (split_char (CHR ''='') param)
      in prefix ''utm_'' k \<or> k = ''fbclid'' \<or> k = ''gclid'' \<or> k = ''ref'')"

definition strip_tracking :: "bytes \<Rightarrow> bytes" where
  "strip_tracking s =
     (let base = takeWhile (\<lambda>c. c \<noteq> CHR ''?'') s in
      if length base = length s then s
      else let query = drop (length base + 1) s;
               filtered = filter (\<lambda>param. \<not> tracking_param param) (split_char (CHR ''&'') query)
           in if filtered = [] then base else base @ ''?'' @ join_with ''&'' filtered)"

definition normalize_url :: "unicode \<Rightarrow> bytes \<Rightarrow> bytes" where
  "normalize_url U raw =
     (let s = trim U raw;
          s = (if suffix ''/'' s then butlast s else s);
          s = replace_all ''://www.'' ''://'' s
      in strip_tracking s)"

subsection \<open>Merging (aggregator.rs)\<close>

text \<open>Both hash maps are kept in one list by normalised address: the score so far, the result.\<close>

definition merge_result :: "search_result \<Rightarrow> search_result \<Rightarrow> search_result" where
  "merge_result existing r =
     existing\<lparr>sr_engines := foldl (\<lambda>es e. if e \<in> set es then es else es @ [e]) (sr_engines existing) (sr_engines r),
       sr_description := (if length (sr_description r) > length (sr_description existing)
         then sr_description r else sr_description existing)\<rparr>"

type_synonym url_map = "(bytes \<times> (rat \<times> search_result)) list"

definition position_score :: "nat \<Rightarrow> rat" where
  "position_score position = 1 / (of_nat position + 1)"

fun upsert :: "bytes \<Rightarrow> rat \<Rightarrow> search_result \<Rightarrow> url_map \<Rightarrow> url_map" where
  "upsert u p r [] = [(u, (p, r))]"
| "upsert u p r ((k, (s, existing)) # m) =
     (if k = u then (k, (s + p, merge_result existing r)) # m else (k, (s, existing)) # upsert u p r m)"

definition add_result :: "unicode \<Rightarrow> url_map \<Rightarrow> nat \<times> search_result \<Rightarrow> url_map" where
  "add_result U m pr = upsert (normalize_url U (sr_url (snd pr))) (position_score (fst pr)) (snd pr) m"

definition merge_all :: "unicode \<Rightarrow> (engine_id \<times> search_result list) list \<Rightarrow> url_map" where
  "merge_all U engine_results =
     foldl (\<lambda>m er. foldl (add_result U) m (enumerate 0 (snd er))) [] engine_results"

definition scored :: "rat \<times> search_result \<Rightarrow> search_result" where
  "scored e =
     (let (p, r) = e in r\<lparr>sr_score := p + (of_nat (length (sr_engines r)) - 1) * (1 / 2)\<rparr>)"

definition merge_and_rank ::
  "unicode \<Rightarrow> (url_map \<Rightarrow> url_map) \<Rightarrow> (engine_id \<times> search_result list) list \<Rightarrow> nat \<Rightarrow> search_result list" where
  "merge_and_rank U arrange engine_results max_results =
     take max_results
       (sort_by (\<lambda>a b. sr_score b \<le> sr_score a)
         (map (\<lambda>e. scored (snd e)) (arrange (merge_all U engine_results))))"

subsection \<open>The cache (cache.rs)\<close>

record cache_entry =
  ce_results :: search_results
  ce_inserted_at :: nat

text \<open>The \<open>lru\<close> package: entries most recently used first, at most \<open>ca_capacity\<close> of them.\<close>

record search_cache =
  ca_entries :: "(bytes \<times> cache_entry) list"
  ca_ttl :: nat
  ca_capacity :: nat

definition cache_new :: "nat \<Rightarrow> nat \<Rightarrow> search_cache" where
  "cache_new ttl_secs capacity =
     \<lparr>ca_entries = [], ca_ttl = ttl_secs * 1000, ca_capacity = (if capacity = 0 then 256 else capacity)\<rparr>"

definition cache_key :: "bytes \<Rightarrow> nat \<Rightarrow> bytes" where
  "cache_key query page = query @ '':'' @ show_nat page"

definition lru_drop :: "bytes \<Rightarrow> (bytes \<times> cache_entry) list \<Rightarrow> (bytes \<times> cache_entry) list" where
  "lru_drop k es = filter (\<lambda>e. fst e \<noteq> k) es"

definition cache_get :: "search_cache \<Rightarrow> bytes \<Rightarrow> nat \<Rightarrow> nat \<Rightarrow> search_results option \<times> search_cache" where
  "cache_get A query page now =
     (let k = cache_key query page in
      case map_of (ca_entries A) k of
        None \<Rightarrow> (None, A)
      | Some e \<Rightarrow>
          if now - ce_inserted_at e < ca_ttl A
          then (Some (ce_results e), A\<lparr>ca_entries := (k, e) # lru_drop k (ca_entries A)\<rparr>)
          else (None, A\<lparr>ca_entries := lru_drop k (ca_entries A)\<rparr>))"

definition cache_insert :: "search_cache \<Rightarrow> bytes \<Rightarrow> nat \<Rightarrow> search_results \<Rightarrow> nat \<Rightarrow> search_cache" where
  "cache_insert A query page results now =
     (let k = cache_key query page;
          e = \<lparr>ce_results = results, ce_inserted_at = now\<rparr>
      in A\<lparr>ca_entries := take (ca_capacity A) ((k, e) # lru_drop k (ca_entries A))\<rparr>)"

subsection \<open>Searching (aggregator.rs)\<close>

datatype search_error = NoEngines

record aggregator =
  ag_config :: search_config
  ag_cache :: search_cache

definition aggregator_new :: "search_config \<Rightarrow> search_error + aggregator" where
  "aggregator_new config =
     (if sf_engines config = [] then Inl NoEngines
      else Inr \<lparr>ag_config = config, ag_cache = cache_new (sf_cache_ttl_secs config) (sf_cache_capacity config)\<rparr>)"

text \<open>One finished task: its engine and what it returned, or nothing when it panicked.\<close>

type_synonym outcome = "(engine_id \<times> (bytes + search_result list)) option"

fun collect_outcomes ::
  "outcome list \<Rightarrow> (engine_id \<times> search_result list) list \<times> engine_error_info list" where
  "collect_outcomes [] = ([], [])"
| "collect_outcomes (None # os) = collect_outcomes os"
| "collect_outcomes (Some (i, Inr rs) # os) = (let (a, b) = collect_outcomes os in ((i, rs) # a, b))"
| "collect_outcomes (Some (i, Inl err) # os) =
     (let (a, b) = collect_outcomes os in (a, \<lparr>ei_engine = engine_name i, ei_error = err\<rparr> # b))"

text \<open>
  A search at time \<open>start\<close>: a fresh answer in the cache is returned, else every engine is asked
  (the outcomes come in the order of completion) and the answer is cached at time \<open>done\<close>.
\<close>

definition agg_search ::
  "unicode \<Rightarrow> (url_map \<Rightarrow> url_map) \<Rightarrow> aggregator \<Rightarrow> bytes \<Rightarrow> nat \<Rightarrow> nat \<Rightarrow> nat \<Rightarrow>
   (engine_id list \<Rightarrow> outcome list) \<Rightarrow> search_results \<times> aggregator" where
  "agg_search U arrange A query page start finish ask_all =
     (case cache_get (ag_cache A) query page start of
        (Some cached, cache) \<Rightarrow> (cached, A\<lparr>ag_cache := cache\<rparr>)
      | (None, cache) \<Rightarrow>
          (let (all_results, errors) = collect_outcomes (ask_all (sf_engines (ag_config A)));
               results = \<lparr>sq_query = query,
                 sq_results = merge_and_rank U arrange all_results (sf_max_results (ag_config A)),
                 sq_errors = errors, sq_elapsed_ms = finish - start\<rparr>
           in (results, A\<lparr>ag_cache := cache_insert cache query page results finish\<rparr>)))"

subsection \<open>Output (browser/output.rs)\<close>

fun text_items :: "nat \<Rightarrow> search_result list \<Rightarrow> bytes" where
  "text_items i [] = []"
| "text_items i (r # rs) =
     show_nat (i + 1) @ ''. '' @ sr_title r @ newline @
     ''   '' @ sr_url r @ newline @
     (if sr_description r \<noteq> [] then ''   '' @ sr_description r @ newline else []) @
     ''   ['' @ join_with '', '' (sr_engines r) @ '']'' @ newline @ newline @
     text_items (i + 1) rs"

definition format_text :: "search_results \<Rightarrow> bytes" where
  "format_text rs =
     ''Search: '' @ [CHR 0x22] @ sq_query rs @ [CHR 0x22] @ '' ('' @ show_nat (length (sq_results rs)) @ '' results in '' @
     show_nat (sq_elapsed_ms rs) @ ''ms)'' @ newline @ newline @ text_items 0 (sq_results rs) @
     (if sq_errors rs = [] then []
      else ''Errors:'' @ newline @
        concat (map (\<lambda>e. ''  - '' @ ei_engine e @ '': '' @ ei_error e @ newline) (sq_errors rs)))"

definition format_compact :: "search_results \<Rightarrow> bytes" where
  "format_compact rs = concat (map (\<lambda>r. sr_title r @ '' | '' @ sr_url r @ newline) (sq_results rs))"

definition format_results :: "(search_results \<Rightarrow> bytes) \<Rightarrow> search_results \<Rightarrow> output_format \<Rightarrow> bytes" where
  "format_results json_pretty rs f =
     (case f of FormatJson \<Rightarrow> json_pretty rs | FormatText \<Rightarrow> format_text rs | FormatCompact \<Rightarrow> format_compact rs)"

subsection \<open>Merging is grouping by normalised address\<close>

definition found :: "(engine_id \<times> search_result list) list \<Rightarrow> (nat \<times> search_result) list" where
  "found engine_results = concat (map (\<lambda>er. enumerate 0 (snd er)) engine_results)"

definition address :: "unicode \<Rightarrow> nat \<times> search_result \<Rightarrow> bytes" where
  "address U pr = normalize_url U (sr_url (snd pr))"

definition same_address :: "unicode \<Rightarrow> bytes \<Rightarrow> (nat \<times> search_result) list \<Rightarrow> (nat \<times> search_result) list" where
  "same_address U u prs = filter (\<lambda>pr. address U pr = u) prs"

text \<open>The first result of a group, with what the later ones add; its positions summed.\<close>

definition merged :: "(nat \<times> search_result) list \<Rightarrow> rat \<times> search_result" where
  "merged g = (sum_list (map (\<lambda>pr. position_score (fst pr)) g),
     foldl merge_result (snd (hd g)) (map snd (List.tl g)))"

definition add_new :: "bytes list \<Rightarrow> bytes \<Rightarrow> bytes list" where
  "add_new ks k = (if k \<in> set ks then ks else ks @ [k])"

definition addresses :: "unicode \<Rightarrow> (nat \<times> search_result) list \<Rightarrow> bytes list" where
  "addresses U prs = foldl add_new [] (map (address U) prs)"

definition merge_spec :: "unicode \<Rightarrow> (nat \<times> search_result) list \<Rightarrow> url_map" where
  "merge_spec U prs = map (\<lambda>u. (u, merged (same_address U u prs))) (addresses U prs)"

lemma addresses_snoc: "addresses U (prs @ [pr]) = add_new (addresses U prs) (address U pr)"
  by (simp add: addresses_def)

lemma addresses_exact: "set (addresses U prs) = address U ` set prs \<and> distinct (addresses U prs)"
  by (induction prs rule: rev_induct) (auto simp: addresses_snoc add_new_def, simp_all add: addresses_def)

lemma same_address_nonempty: "u \<in> set (addresses U prs) \<Longrightarrow> same_address U u prs \<noteq> []"
  using addresses_exact [of U prs] by (auto simp: same_address_def filter_empty_conv)

lemma merged_snoc:
  "g \<noteq> [] \<Longrightarrow> merged (g @ [pr]) = (fst (merged g) + position_score (fst pr), merge_result (snd (merged g)) (snd pr))"
  by (cases g) (simp_all add: merged_def)

lemma upsert_map:
  assumes "distinct ks"
  shows "upsert u p r (map (\<lambda>k. (k, F k)) ks) =
    (if u \<in> set ks then map (\<lambda>k. (k, if k = u then (fst (F u) + p, merge_result (snd (F u)) r) else F k)) ks
     else map (\<lambda>k. (k, F k)) ks @ [(u, (p, r))])"
  using assms
proof (induction ks)
  case (Cons k ks)
  obtain s e where F: "F k = (s, e)" by (cases "F k")
  show ?case
  proof (cases "k = u")
    case True
    have "map (\<lambda>k. (k, if k = u then (fst (F u) + p, merge_result (snd (F u)) r) else F k)) ks = map (\<lambda>k. (k, F k)) ks"
      using Cons.prems True by (intro map_cong) auto
    then show ?thesis using True F by simp
  next
    case False
    then show ?thesis using Cons F by simp
  qed
qed simp

lemma merge_spec_snoc: "merge_spec U (prs @ [pr]) = add_result U (merge_spec U prs) pr"
proof -
  let ?u = "address U pr"
  have up: "add_result U (merge_spec U prs) pr =
      upsert ?u (position_score (fst pr)) (snd pr) (map (\<lambda>k. (k, merged (same_address U k prs))) (addresses U prs))"
    by (simp add: add_result_def merge_spec_def address_def)
  have other: "same_address U k (prs @ [pr]) = (if k = ?u then same_address U k prs @ [pr] else same_address U k prs)" for k
    by (auto simp: same_address_def)
  show ?thesis
  proof (cases "?u \<in> set (addresses U prs)")
    case True
    have d: "distinct (addresses U prs)" using addresses_exact [of U prs] by blast
    note ne = same_address_nonempty [OF True]
    have "addresses U (prs @ [pr]) = addresses U prs" using True by (simp add: addresses_snoc add_new_def)
    then show ?thesis
      unfolding up unfolding upsert_map [OF d] if_P [OF True] unfolding merge_spec_def
      by (simp add: other merged_snoc [OF ne])
  next
    case False
    then have "?u \<notin> address U ` set prs" using addresses_exact [of U prs] by simp
    then have "same_address U ?u prs = []" unfolding same_address_def filter_empty_conv by (auto simp: image_iff)
    then have "merged (same_address U ?u (prs @ [pr])) = (position_score (fst pr), snd pr)"
      by (simp add: other merged_def)
    moreover have "map (\<lambda>k. (k, merged (same_address U k (prs @ [pr])))) (addresses U prs) =
        map (\<lambda>k. (k, merged (same_address U k prs))) (addresses U prs)"
      using False by (intro map_cong) (auto simp: other)
    ultimately show ?thesis
      using addresses_exact [of U prs] False
      unfolding up by (simp add: upsert_map merge_spec_def addresses_snoc add_new_def)
  qed
qed

lemma foldl_concat: "foldl (\<lambda>m x. foldl f m (g x)) m xs = foldl f m (concat (map g xs))"
  by (induction xs arbitrary: m) auto

lemma merge_all_groups: "merge_all U engine_results = merge_spec U (found engine_results)"
proof -
  have "foldl (add_result U) [] prs = merge_spec U prs" for prs
    by (induction prs rule: rev_induct) (simp_all add: merge_spec_snoc, simp add: merge_spec_def addresses_def)
  then show ?thesis by (simp add: merge_all_def foldl_concat found_def)
qed

lemma merged_url: "g \<noteq> [] \<Longrightarrow> sr_url (snd (merged g)) = sr_url (snd (hd g))"
proof -
  have "sr_url (foldl merge_result r rs) = sr_url r" for r rs
    by (induction rs arbitrary: r) (simp_all add: merge_result_def)
  then show ?thesis by (simp add: merged_def)
qed

lemma scored_url [simp]: "sr_url (scored e) = sr_url (snd e)"
  by (simp add: scored_def case_prod_unfold Let_def)

text \<open>
  What a group of results for one address is worth, said of the group: the first one's title and
  address, the first description among the longest ones, the engines of all, each listed once after
  the first one's own, and a score of one over each position plus a half for every further engine.
\<close>

definition joins :: "(nat \<times> search_result) list \<Rightarrow> search_result \<Rightarrow> bool" where
  "joins g r \<longleftrightarrow>
     (let first = snd (hd g); ds = map (\<lambda>pr. sr_description (snd pr)) g in
      sr_title r = sr_title first \<and> sr_url r = sr_url first \<and>
      find (\<lambda>d. \<forall>d' \<in> set ds. length d' \<le> length d) ds = Some (sr_description r) \<and>
      (\<exists>es. sr_engines r = sr_engines first @ es \<and> distinct es \<and> set es \<inter> set (sr_engines first) = {} \<and>
         set (sr_engines r) = (\<Union>pr \<in> set g. set (sr_engines (snd pr)))) \<and>
      sr_score r = (\<Sum>pr \<leftarrow> g. 1 / (of_nat (fst pr) + 1)) + (of_nat (length (sr_engines r)) - 1) / 2)"

lemma merge_engines:
  "\<exists>es. foldl (\<lambda>es e. if e \<in> set es then es else es @ [e]) xs ys = xs @ es \<and> distinct es \<and> set es = set ys - set xs"
proof (induction ys rule: rev_induct)
  case (snoc y ys)
  then obtain es where "foldl (\<lambda>es e. if e \<in> set es then es else es @ [e]) xs ys = xs @ es" "distinct es"
    "set es = set ys - set xs" by blast
  then show ?case by (intro exI [of _ "if y \<in> set xs \<union> set es then es else es @ [y]"]) auto
qed simp

lemma find_longest_snoc:
  assumes "find (\<lambda>d. \<forall>d' \<in> set ds. length d' \<le> length d) ds = Some m"
  shows "find (\<lambda>d. \<forall>d' \<in> set (ds @ [x]). length d' \<le> length d) (ds @ [x]) = Some (if length x > length m then x else m)"
proof -
  obtain i where i: "i < length ds" "\<forall>d' \<in> set ds. length d' \<le> length (ds ! i)" "m = ds ! i"
    "\<forall>j<i. \<not> (\<forall>d' \<in> set ds. length d' \<le> length (ds ! j))"
    using assms by (auto simp: find_Some_iff)
  show ?thesis
  proof (cases "length x > length m")
    case True
    have "\<not> (\<forall>d' \<in> set (ds @ [x]). length d' \<le> length (ds ! j))" if "j < length ds" for j
    proof (rule notI)
      assume "\<forall>d' \<in> set (ds @ [x]). length d' \<le> length (ds ! j)"
      then have "length x \<le> length (ds ! j)" by simp
      moreover have "length (ds ! j) \<le> length m" using i(2,3) nth_mem [OF that] by blast
      ultimately show False using True by simp
    qed
    then have "find (\<lambda>d. \<forall>d' \<in> set (ds @ [x]). length d' \<le> length d) (ds @ [x]) = Some x"
      using True i(2,3) unfolding find_Some_iff
      by (intro exI [of _ "length ds"]) (auto simp: nth_append intro: less_imp_le order.trans)
    then show ?thesis using True by simp
  next
    case False
    then have "find (\<lambda>d. \<forall>d' \<in> set (ds @ [x]). length d' \<le> length d) (ds @ [x]) = Some m"
      using i unfolding find_Some_iff by (intro exI [of _ i]) (auto simp: nth_append)
    then show ?thesis using False by simp
  qed
qed

lemma merged_parts:
  assumes "g \<noteq> []"
  shows "sr_title (snd (merged g)) = sr_title (snd (hd g)) \<and> sr_url (snd (merged g)) = sr_url (snd (hd g)) \<and>
    fst (merged g) = (\<Sum>pr \<leftarrow> g. 1 / (of_nat (fst pr) + 1))"
  using assms by (induction g rule: rev_nonempty_induct) (simp_all add: merged_snoc merge_result_def position_score_def, simp add: merged_def position_score_def)

lemma merged_description:
  assumes "g \<noteq> []"
  shows "find (\<lambda>d. \<forall>d' \<in> set (map (\<lambda>pr. sr_description (snd pr)) g). length d' \<le> length d) (map (\<lambda>pr. sr_description (snd pr)) g) =
    Some (sr_description (snd (merged g)))"
  using assms
proof (induction g rule: rev_nonempty_induct)
  case (single x)
  then show ?case by (simp add: merged_def)
next
  case (snoc x g)
  have "sr_description (snd (merged (g @ [x]))) =
      (if length (sr_description (snd x)) > length (sr_description (snd (merged g)))
       then sr_description (snd x) else sr_description (snd (merged g)))"
    using snoc.hyps by (simp add: merged_snoc merge_result_def)
  then show ?case using find_longest_snoc [OF snoc.IH, of "sr_description (snd x)"] by simp
qed

lemma merged_engines:
  assumes "g \<noteq> []"
  shows "\<exists>es. sr_engines (snd (merged g)) = sr_engines (snd (hd g)) @ es \<and> distinct es \<and>
    set es \<inter> set (sr_engines (snd (hd g))) = {} \<and>
    set (sr_engines (snd (merged g))) = (\<Union>pr \<in> set g. set (sr_engines (snd pr)))"
  using assms
proof (induction g rule: rev_nonempty_induct)
  case (single x)
  then show ?case by (simp add: merged_def)
next
  case (snoc x g)
  then obtain es where es: "sr_engines (snd (merged g)) = sr_engines (snd (hd g)) @ es" "distinct es"
    "set es \<inter> set (sr_engines (snd (hd g))) = {}"
    "set (sr_engines (snd (merged g))) = (\<Union>pr \<in> set g. set (sr_engines (snd pr)))" by (elim exE conjE)
  obtain fs where fs: "foldl (\<lambda>es e. if e \<in> set es then es else es @ [e]) (sr_engines (snd (merged g))) (sr_engines (snd x)) =
      sr_engines (snd (merged g)) @ fs" "distinct fs" "set fs = set (sr_engines (snd x)) - set (sr_engines (snd (merged g)))"
    using merge_engines [of "sr_engines (snd (merged g))" "sr_engines (snd x)"] by (elim exE conjE)
  have m: "sr_engines (snd (merged (g @ [x]))) = sr_engines (snd (merged g)) @ fs"
    using snoc.hyps fs(1) by (simp add: merged_snoc merge_result_def)
  show ?case
  proof (intro exI [of _ "es @ fs"] conjI)
    show "sr_engines (snd (merged (g @ [x]))) = sr_engines (snd (hd (g @ [x]))) @ es @ fs"
      using snoc.hyps by (simp add: m es(1))
    show "distinct (es @ fs)" using es(1,2) fs(2,3) by auto
    show "set (es @ fs) \<inter> set (sr_engines (snd (hd (g @ [x])))) = {}"
      using snoc.hyps es(1,3) fs(3) by auto
    show "set (sr_engines (snd (merged (g @ [x])))) = (\<Union>pr \<in> set (g @ [x]). set (sr_engines (snd pr)))"
      using fs(3) by (auto simp: m es(4))
  qed
qed

lemma merged_joins: "g \<noteq> [] \<Longrightarrow> joins g (scored (merged g))"
  using merged_parts [of g] merged_description [of g] merged_engines [of g]
  unfolding joins_def Let_def by (simp add: scored_def case_prod_unfold Let_def)


definition sample_hit :: "bytes \<Rightarrow> bytes \<Rightarrow> search_result" where
  "sample_hit u e = \<lparr>sr_title = ''t'', sr_url = u, sr_description = ''d'', sr_engines = [e], sr_score = 0\<rparr>"

definition sample_results :: "(engine_id \<times> search_result list) list" where
  "sample_results =
     [(Wikipedia, [sample_hit ''http://a/x'' ''wikipedia'', sample_hit ''http://www.b'' ''wikipedia'']),
      (Brave, [sample_hit ''http://b/'' ''brave''])]"

lemma sample_addresses: "addresses ascii_unicode (found sample_results) = [''http://a/x'', ''http://b'']"
  by code_simp


subsection \<open>Addresses that should be one\<close>

text \<open>
  The trailing slash goes before the query does, so an address whose query was all tracking keeps
  its slash and is another address than the same page without a query; normalising again would
  have joined them.
\<close>

lemma tracking_hides_slash:
  "normalize_url ascii_unicode ''http://a/?utm_source=x'' = ''http://a/'' \<and>
   normalize_url ascii_unicode ''http://a/'' = ''http://a'' \<and>
   normalize_url ascii_unicode (normalize_url ascii_unicode ''http://a/?utm_source=x'') = ''http://a''"
  by code_simp

text \<open>What is left of a query are its other parameters, in their order.\<close>

lemma takeWhile_before: "c \<notin> set base \<Longrightarrow> takeWhile (\<lambda>x. x \<noteq> c) (base @ c # q) = base"
  by (induction base) auto

theorem strip_tracking_keeps_rest:
  assumes "CHR ''?'' \<notin> set base"
  shows "strip_tracking (base @ ''?'' @ join_with ''&'' ps) =
    (let kept = filter (\<lambda>p. \<not> tracking_param p) (split_char (CHR ''&'') (join_with ''&'' ps))
     in if kept = [] then base else base @ ''?'' @ join_with ''&'' kept)"
  using takeWhile_before [OF assms, of "join_with ''&'' ps"] by (simp add: strip_tracking_def Let_def)

subsection \<open>The cache\<close>

definition cache_ok :: "search_cache \<Rightarrow> bool" where
  "cache_ok A \<longleftrightarrow> distinct (map fst (ca_entries A)) \<and> length (ca_entries A) \<le> ca_capacity A \<and> 0 < ca_capacity A"

text \<open>A page number holds no colon, so a query that does never names another query's page.\<close>

lemma cache_key_inj: "cache_key q p = cache_key q' p' \<longleftrightarrow> q = q' \<and> p = p'"
proof
  assume eq: "cache_key q p = cache_key q' p'"
  have colon: "CHR '':'' \<notin> set (show_nat n)" for n
  proof
    assume "CHR '':'' \<in> set (show_nat n)"
    then obtain d where "d < 10" "CHR '':'' = digit d" using show_nat_digits by blast
    then have "byte_val (CHR '':'') = 48 + d" by (simp add: byte_val_def digit_def)
    then show False using \<open>d < 10\<close> by (simp add: byte_val_def)
  qed
  have pages: "takeWhile (\<lambda>c. c \<noteq> CHR '':'') (rev (cache_key q p)) = rev (show_nat p)" for q p
    using takeWhile_before [of "CHR '':''" "rev (show_nat p)" "rev q"] colon [of p] by (simp add: cache_key_def)
  have "rev (show_nat p) = rev (show_nat p')" using pages [of q p] pages [of q' p'] eq by simp
  then have "p = p'" using show_nat_inj by simp
  then show "q = q' \<and> p = p'" using eq by (simp add: cache_key_def)
qed simp

lemma lru_drop_ok: "distinct (map fst es) \<Longrightarrow> distinct (map fst (lru_drop k es)) \<and> k \<notin> set (map fst (lru_drop k es))"
  by (auto simp: lru_drop_def distinct_map_filter)

lemma length_lru_drop: "map_of es k \<noteq> None \<Longrightarrow> length (lru_drop k es) < length es"
proof -
  assume "map_of es k \<noteq> None"
  then obtain e where "(k, e) \<in> set es" by (auto dest: map_of_SomeD)
  then show ?thesis unfolding lru_drop_def by (intro length_filter_less [of "(k, e)"]) simp_all
qed

text \<open>
  Whatever is looked up and inserted, the cache holds at most its capacity and every key once.
\<close>

theorem cache_stays_bounded:
  "cache_ok (cache_new t c)"
  "cache_ok A \<Longrightarrow> cache_ok (snd (cache_get A q p now))"
  "cache_ok A \<Longrightarrow> cache_ok (cache_insert A q p rs now)"
proof -
  show "cache_ok (cache_new t c)" by (simp add: cache_ok_def cache_new_def)
  show "cache_ok A \<Longrightarrow> cache_ok (snd (cache_get A q p now))"
  proof (cases "map_of (ca_entries A) (cache_key q p)")
    case (Some e)
    assume "cache_ok A"
    then show ?thesis
      using lru_drop_ok [of "ca_entries A" "cache_key q p"] length_lru_drop [of "ca_entries A" "cache_key q p"] Some
      by (auto simp: cache_ok_def cache_get_def Let_def simp del: map_of_eq_Some_iff)
  qed (simp add: cache_get_def)
  show "cache_ok A \<Longrightarrow> cache_ok (cache_insert A q p rs now)"
    using lru_drop_ok [of "ca_entries A" "cache_key q p"]
    by (auto simp: cache_ok_def cache_insert_def Let_def take_map [symmetric] simp del: take_map dest: in_set_takeD)
qed

lemma cache_get_insert:
  "0 < ca_capacity A \<Longrightarrow> fst (cache_get (cache_insert A q p rs t) q p now) = (if now - t < ca_ttl A then Some rs else None)"
  by (cases "ca_capacity A") (simp_all add: cache_get_def cache_insert_def Let_def)

text \<open>
  Until its time to live is over an answer is given again as it was, failures of engines included,
  whatever the engines would say now.
\<close>

theorem search_again_cached:
  assumes "agg_search U arrange A q p start finish ask = (rs, A')" and "cache_ok (ag_cache A)"
    and "fst (cache_get (ag_cache A) q p start) = None" and "later - finish < ca_ttl (ag_cache A)"
  shows "fst (agg_search U arrange' A' q p later finish' ask') = rs"
proof -
  obtain cache where c: "cache_get (ag_cache A) q p start = (None, cache)" using assms(3) by (cases "cache_get (ag_cache A) q p start") auto
  have keep: "ca_ttl cache = ca_ttl (ag_cache A)" "ca_capacity cache = ca_capacity (ag_cache A)"
    using c by (auto simp: cache_get_def Let_def split: option.splits if_splits)
  have A': "ag_cache A' = cache_insert cache q p rs finish"
    using assms(1) by (auto simp: agg_search_def c case_prod_unfold Let_def)
  have "0 < ca_capacity cache" using assms(2) keep by (simp add: cache_ok_def)
  then have "fst (cache_get (ag_cache A') q p later) = Some rs"
    unfolding A' using assms(4) keep by (simp add: cache_get_insert)
  then show ?thesis by (auto simp: agg_search_def split: prod.splits option.splits)
qed

end
