(* ===== verification/WebPages.thy ===== *)
theory WebPages
  imports WebSearch "HOL-Library.Word"
begin

section \<open>Reading pages: the search engines and the fetcher (lib/search/src/engine, browser/fetch.rs)\<close>

text \<open>
  What each engine makes of the page it got, and what the fetcher keeps of one. The HTML parser
  with its selectors, the JSON parser, percent and base64 decoding and the network are arguments
  (\<open>web\<close>); request headers are left out. The lemmas show what every result credited, that the text of
  a page is the visible text with blank lines squeezed, and how the object scanner of the Brave
  page ends.
\<close>

subsection \<open>Addresses\<close>

definition is_http :: "bytes \<Rightarrow> bool" where
  "is_http u \<longleftrightarrow> prefix ''http://'' u \<or> prefix ''https://'' u"

subsection \<open>What the packages give\<close>

datatype page_request = WebGet bytes | WebGetQuery bytes bytes bytes | WebPost bytes bytes

datatype web_engine_error = RequestFailed bytes | ParseFailed bytes

fun web_engine_error_text :: "web_engine_error \<Rightarrow> bytes" where
  "web_engine_error_text (RequestFailed e) = ''request failed: '' @ e"
| "web_engine_error_text (ParseFailed e) = ''parse error: '' @ e"

record 'e web =
  w_unicode :: unicode
  w_send :: "page_request \<Rightarrow> web_engine_error + bytes"
  w_urlencoded :: "bytes \<Rightarrow> bytes"
  w_percent_decode :: "bytes \<Rightarrow> bytes"
  w_base64 :: "bytes \<Rightarrow> bytes option"
  w_object :: "bytes \<Rightarrow> (bytes \<Rightarrow> bytes option) option"
  w_array :: "bytes \<Rightarrow> nat \<Rightarrow> bytes option list option"
  w_select :: "bytes \<Rightarrow> bytes \<Rightarrow> 'e list"
  w_within :: "'e \<Rightarrow> bytes \<Rightarrow> 'e list"
  w_text :: "'e \<Rightarrow> bytes"
  w_attr :: "'e \<Rightarrow> bytes \<Rightarrow> bytes option"

definition text_or_empty :: "bytes option \<Rightarrow> bytes" where
  "text_or_empty r = (case r of None \<Rightarrow> [] | Some s \<Rightarrow> s)"

text \<open>The text of the first element a selector finds in another.\<close>

definition first_text_in :: "'e web \<Rightarrow> 'e \<Rightarrow> bytes \<Rightarrow> bytes" where
  "first_text_in W e sel = (case w_within W e sel of [] \<Rightarrow> [] | x # _ \<Rightarrow> w_text W x)"

definition web_hit :: "'e web \<Rightarrow> bytes \<Rightarrow> bytes \<Rightarrow> bytes \<Rightarrow> bytes \<Rightarrow> search_result list" where
  "web_hit W engine title url description =
     (if title \<noteq> [] \<and> url \<noteq> []
      then [\<lparr>sr_title = trim (w_unicode W) title, sr_url = url,
             sr_description = trim (w_unicode W) description, sr_engines = [engine], sr_score = 0\<rparr>]
      else [])"

subsection \<open>Bing (bing.rs)\<close>

definition bing_decode :: "'e web \<Rightarrow> bytes \<Rightarrow> bytes option" where
  "bing_decode W value =
     (let decoded = w_percent_decode W value;
          payload = (if prefix ''a1'' decoded then drop 2 decoded else decoded);
          rem = length payload mod 4;
          padded = (if rem \<noteq> 0 then payload @ replicate (4 - rem) (CHR ''='') else payload)
      in case w_base64 W padded of
           None \<Rightarrow> None
         | Some b \<Rightarrow> if valid_utf8 b \<and> is_http b then Some b else None)"

fun bing_params :: "'e web \<Rightarrow> bytes list \<Rightarrow> bytes option" where
  "bing_params W [] = None"
| "bing_params W (p # ps) =
     (if prefix ''u='' p
      then (case bing_decode W (drop 2 p) of Some u \<Rightarrow> Some u | None \<Rightarrow> bing_params W ps)
      else bing_params W ps)"

definition normalize_bing_url :: "'e web \<Rightarrow> bytes \<Rightarrow> bytes" where
  "normalize_bing_url W href =
     (if \<not> contains_sub ''bing.com/ck/a'' href then href
      else (case find_sub ''?'' href of
              None \<Rightarrow> href
            | Some pos \<Rightarrow>
                (case bing_params W (split_char (CHR ''&'') (drop (pos + 1) href)) of
                   Some u \<Rightarrow> u | None \<Rightarrow> href)))"

definition bing_results :: "'e web \<Rightarrow> bytes \<Rightarrow> search_result list" where
  "bing_results W html =
     concat (map (\<lambda>e.
       case w_within W e ''h2 a'' of
         [] \<Rightarrow> []
       | t # _ \<Rightarrow> web_hit W ''bing'' (w_text W t) (normalize_bing_url W (text_or_empty (w_attr W t ''href'')))
                   (first_text_in W e ''p''))
       (w_select W html ''#b_results li.b_algo''))"

definition bing_search :: "'e web \<Rightarrow> bytes \<Rightarrow> 32 word \<Rightarrow> web_engine_error + search_result list" where
  "bing_search W query page =
     bindr (w_send W (WebGet (''https://www.bing.com/search?q='' @ w_urlencoded W query @ ''&first='' @
         show_nat (unat (page * 10 + 1)))))
       (\<lambda>html. Inr (bing_results W html))"

subsection \<open>Brave (brave.rs)\<close>

definition brave_html_results :: "'e web \<Rightarrow> bytes \<Rightarrow> search_result list" where
  "brave_html_results W html =
     concat (map (\<lambda>e.
       case w_within W e ''.title'' of
         [] \<Rightarrow> []
       | t # _ \<Rightarrow>
           (let url = (case w_within W e ''a[href]'' of [] \<Rightarrow> [] | a # _ \<Rightarrow> text_or_empty (w_attr W a ''href'')) in
            if url = [] \<or> prefix ''/'' url then []
            else web_hit W ''brave'' (w_text W t) url (first_text_in W e ''.snippet-description, .snippet-content'')))
       (w_select W html (''div.snippet[data-type='' @ [CHR 0x22] @ ''web'' @ [CHR 0x22] @ '']'')))"

text \<open>The scanner for the end of a JSON object: depth of braces outside strings.\<close>

fun scan_object :: "nat \<Rightarrow> bool \<Rightarrow> bool \<Rightarrow> bytes \<Rightarrow> nat option" where
  "scan_object depth in_string escaped [] = None"
| "scan_object depth in_string escaped (c # cs) =
     (if escaped then map_option Suc (scan_object depth in_string False cs)
      else if in_string \<and> c = CHR 0x5C then map_option Suc (scan_object depth in_string True cs)
      else if c = CHR 0x22 then map_option Suc (scan_object depth (\<not> in_string) False cs)
      else if \<not> in_string \<and> c = CHR 0x7B then map_option Suc (scan_object (depth + 1) in_string False cs)
      else if \<not> in_string \<and> c = CHR 0x7D then
        (if depth = 1 then Some 1 else map_option Suc (scan_object (depth - 1) in_string False cs))
      else map_option Suc (scan_object depth in_string False cs))"

definition extract_json_object :: "bytes \<Rightarrow> bytes option" where
  "extract_json_object t =
     (if \<not> prefix [CHR 0x7B] t then None
      else map_option (\<lambda>n. take n t) (scan_object 0 False False t))"

definition title_key :: bytes where
  "title_key = [CHR 0x7B, CHR 0x22] @ ''title'' @ [CHR 0x22]"

definition brave_object :: "'e web \<Rightarrow> bytes \<Rightarrow> search_result list" where
  "brave_object W t =
     (case extract_json_object t of
        None \<Rightarrow> []
      | Some obj \<Rightarrow>
          (case w_object W obj of
             None \<Rightarrow> []
           | Some field \<Rightarrow>
               (let title = text_or_empty (field ''title''); url = text_or_empty (field ''url'');
                    desc = (case field ''description'' of Some d \<Rightarrow> d | None \<Rightarrow> text_or_empty (field ''snippet''))
                in if title \<noteq> [] \<and> url \<noteq> [] \<and> is_http url
                   then [\<lparr>sr_title = title, sr_url = url, sr_description = desc, sr_engines = [''brave''], sr_score = 0\<rparr>]
                   else [])))"

function extract_results_from_text :: "'e web \<Rightarrow> bytes \<Rightarrow> search_result list" where
  "extract_results_from_text W t =
     (case find_sub title_key t of
        None \<Rightarrow> []
      | Some st \<Rightarrow> brave_object W (drop st t) @ extract_results_from_text W (drop (st + 1) t))"
  by pat_completeness auto
termination
proof (relation "measure (\<lambda>(W, t). length t)")
  fix W :: "'e web" and t st
  assume "find_sub title_key t = Some st"
  then have "t \<noteq> []" by (auto simp: find_sub.simps [of _ "[]"] title_key_def)
  then show "((W, drop (st + 1) t), (W, t)) \<in> measure (\<lambda>(W, t). length t)" by (cases t) auto
qed simp

declare extract_results_from_text.simps [simp del]

definition brave_json_results :: "'e web \<Rightarrow> bytes \<Rightarrow> search_result list" where
  "brave_json_results W html =
     concat (map (\<lambda>seg.
       let segment = hd (split_sub ''</script>'' seg) in
       if \<not> contains_sub ([CHR 0x22] @ ''url'' @ [CHR 0x22]) segment \<or>
          \<not> contains_sub ([CHR 0x22] @ ''title'' @ [CHR 0x22]) segment then []
       else extract_results_from_text W segment)
       (split_sub ''<script'' html))"

definition brave_search :: "'e web \<Rightarrow> bytes \<Rightarrow> 32 word \<Rightarrow> web_engine_error + search_result list" where
  "brave_search W query page =
     bindr (w_send W (WebGet (''https://search.brave.com/search?q='' @ w_urlencoded W query @ ''&source=web&offset='' @
         show_nat (unat page))))
       (\<lambda>html. let results = brave_html_results W html
               in Inr (if results \<noteq> [] then results else brave_json_results W html))"

subsection \<open>DuckDuckGo (duckduckgo.rs)\<close>

definition normalize_ddg_url :: "'e web \<Rightarrow> bytes \<Rightarrow> bytes \<Rightarrow> bytes" where
  "normalize_ddg_url W href text_url =
     (let redirect = (case find_sub ''uddg='' href of
            None \<Rightarrow> []
          | Some pos \<Rightarrow> w_percent_decode W (takeWhile (\<lambda>c. c \<noteq> CHR ''&'') (drop (pos + 5) href)))
      in if redirect \<noteq> [] then redirect
         else if is_http href then href
         else let trimmed = trim (w_unicode W) text_url in
              if trimmed \<noteq> [] then (if is_http trimmed then trimmed else ''https://'' @ trimmed) else [])"

definition ddg_lite_results :: "'e web \<Rightarrow> bytes \<Rightarrow> search_result list" where
  "ddg_lite_results W html =
     (let snippets = w_select W html ''td.result-snippet'' in
      concat (map (\<lambda>(i, link).
        web_hit W ''duckduckgo'' (w_text W link) (normalize_ddg_url W (text_or_empty (w_attr W link ''href'')) [])
          (if i < length snippets then w_text W (snippets ! i) else []))
        (enumerate 0 (w_select W html ''a.result-link''))))"

definition ddg_html_results :: "'e web \<Rightarrow> bytes \<Rightarrow> search_result list" where
  "ddg_html_results W html =
     concat (map (\<lambda>e.
       let href = (case w_within W e ''.result__a'' of [] \<Rightarrow> [] | a # _ \<Rightarrow> text_or_empty (w_attr W a ''href''))
       in web_hit W ''duckduckgo'' (first_text_in W e ''.result__a'')
            (normalize_ddg_url W href (first_text_in W e ''.result__url'')) (first_text_in W e ''.result__snippet''))
       (w_select W html ''.result''))"

definition ddg_search :: "'e web \<Rightarrow> bytes \<Rightarrow> 32 word \<Rightarrow> web_engine_error + search_result list" where
  "ddg_search W query page =
     bindr (w_send W (WebGetQuery ''https://lite.duckduckgo.com/lite/'' ''q'' query))
       (\<lambda>html. let results = ddg_lite_results W html in
          if results = []
          then bindr (w_send W (WebPost ''https://html.duckduckgo.com/html/'' (''q='' @ w_urlencoded W query @ ''&b='')))
                 (\<lambda>html2. Inr (ddg_html_results W html2))
          else Inr results)"

subsection \<open>Mojeek and Wikipedia (mojeek.rs, wikipedia.rs)\<close>

definition mojeek_results :: "'e web \<Rightarrow> bytes \<Rightarrow> search_result list" where
  "mojeek_results W html =
     concat (map (\<lambda>e.
       case w_within W e ''a.title'' of
         [] \<Rightarrow> []
       | t # _ \<Rightarrow> web_hit W ''mojeek'' (w_text W t) (text_or_empty (w_attr W t ''href'')) (first_text_in W e ''p.s''))
       (w_select W html ''ul.results-standard li''))"

definition mojeek_search :: "'e web \<Rightarrow> bytes \<Rightarrow> 32 word \<Rightarrow> web_engine_error + search_result list" where
  "mojeek_search W query page =
     bindr (w_send W (WebGet (''https://www.mojeek.com/search?q='' @ w_urlencoded W query @ ''&s='' @
         show_nat (unat (page * 10 + 1)))))
       (\<lambda>html. Inr (mojeek_results W html))"

definition column_of :: "'e web \<Rightarrow> bytes \<Rightarrow> nat \<Rightarrow> bytes \<Rightarrow> web_engine_error + bytes option list" where
  "column_of W body n missing =
     (case w_array W body n of None \<Rightarrow> Inl (ParseFailed missing) | Some vs \<Rightarrow> Inr vs)"

definition column_entry :: "bytes option list \<Rightarrow> nat \<Rightarrow> bytes" where
  "column_entry vs i = (if i < length vs then text_or_empty (vs ! i) else [])"

definition wikipedia_results :: "'e web \<Rightarrow> bytes \<Rightarrow> web_engine_error + search_result list" where
  "wikipedia_results W body =
     bindr (column_of W body 1 ''missing titles array'')
       (\<lambda>titles. bindr (column_of W body 2 ''missing descriptions array'')
         (\<lambda>descriptions. bindr (column_of W body 3 ''missing urls array'')
           (\<lambda>urls. Inr (concat (map (\<lambda>(i, title).
              if column_entry urls i \<noteq> []
              then [\<lparr>sr_title = text_or_empty title, sr_url = column_entry urls i, sr_description = column_entry descriptions i,
                     sr_engines = [''wikipedia''], sr_score = 0\<rparr>]
              else []) (enumerate 0 titles))))))"

definition wikipedia_search :: "'e web \<Rightarrow> bytes \<Rightarrow> 32 word \<Rightarrow> web_engine_error + search_result list" where
  "wikipedia_search W query page =
     bindr (w_send W (WebGet (''https://en.wikipedia.org/w/api.php?action=opensearch&search='' @ w_urlencoded W query @
         ''&limit=10&namespace=0&format=json'')))
       (wikipedia_results W)"

fun engine_search :: "'e web \<Rightarrow> engine_id \<Rightarrow> bytes \<Rightarrow> 32 word \<Rightarrow> web_engine_error + search_result list" where
  "engine_search W Bing = bing_search W"
| "engine_search W Brave = brave_search W"
| "engine_search W DuckDuckGo = ddg_search W"
| "engine_search W Mojeek = mojeek_search W"
| "engine_search W Wikipedia = wikipedia_search W"

subsection \<open>The text of a page (browser/fetch.rs)\<close>

text \<open>What the parser makes of a page: text, elements with their tag, comments and the like.\<close>

datatype page_node = PageText bytes | PageElement bytes "page_node list" | PageOther

definition noise_tags :: "bytes list" where
  "noise_tags = [''script'', ''style'', ''nav'', ''footer'', ''header'', ''aside'', ''noscript'', ''svg'', ''iframe'', ''form'']"

definition is_block_element :: "bytes \<Rightarrow> bool" where
  "is_block_element tag \<longleftrightarrow> tag \<in> set
     [''div'', ''p'', ''h1'', ''h2'', ''h3'', ''h4'', ''h5'', ''h6'', ''section'', ''article'', ''main'',
      ''blockquote'', ''pre'', ''ul'', ''ol'', ''li'', ''table'', ''tr'', ''br'', ''hr'', ''dl'', ''dd'', ''dt'',
      ''figcaption'', ''figure'']"

fun collect_text :: "unicode \<Rightarrow> page_node list \<Rightarrow> bytes list \<Rightarrow> bytes list" where
  "collect_text U [] out = out"
| "collect_text U (PageText t # rest) out =
     collect_text U rest (if trim U t \<noteq> [] then out @ [trim U t] else out)"
| "collect_text U (PageElement tag children # rest) out =
     collect_text U rest
       (if tag \<in> set noise_tags then out
        else collect_text U children (if is_block_element tag \<and> out \<noteq> [] then out @ [[]] else out))"
| "collect_text U (PageOther # rest) out = collect_text U rest out"

text \<open>The loop over the lines: the text so far, whether the last line was blank.\<close>

fun squeeze_lines :: "unicode \<Rightarrow> bytes \<Rightarrow> bool \<Rightarrow> bytes list \<Rightarrow> bytes" where
  "squeeze_lines U result blank [] = result"
| "squeeze_lines U result blank (line # rest) =
     (let trimmed = trim U line in
      if trimmed = [] then
        (if \<not> blank \<and> result \<noteq> [] then squeeze_lines U (result @ newline) True rest
         else squeeze_lines U result blank rest)
      else
        squeeze_lines U
          ((if blank then result @ newline else if result \<noteq> [] then result @ newline else result) @ trimmed)
          False rest)"

definition normalize_whitespace :: "unicode \<Rightarrow> bytes \<Rightarrow> bytes" where
  "normalize_whitespace U s = squeeze_lines U [] False (str_lines s)"

record page =
  pg_title :: "bytes option"
  pg_body :: "page_node list option"
  pg_texts :: "bytes list"

definition extract_content :: "unicode \<Rightarrow> page \<Rightarrow> bytes \<times> bytes" where
  "extract_content U pg =
     (let parts = (case pg_body pg of
            Some children \<Rightarrow> collect_text U children []
          | None \<Rightarrow> filter (\<lambda>t. t \<noteq> []) (map (trim U) (pg_texts pg)))
      in (trim U (text_or_empty (pg_title pg)), normalize_whitespace U (join_with newline parts)))"

record fetch_result =
  fr_url :: bytes
  fr_title :: bytes
  fr_content :: bytes
  fr_content_length :: nat

text \<open>\<open>send\<close> gives the final address and the page.\<close>

definition fetch_url :: "unicode \<Rightarrow> (bytes \<Rightarrow> bytes + bytes \<times> page) \<Rightarrow> bytes \<Rightarrow> bytes + fetch_result" where
  "fetch_url U send url =
     bindr (send url)
       (\<lambda>(final_url, pg). let (title, content) = extract_content U pg in
          Inr \<lparr>fr_url = final_url, fr_title = title, fr_content = content, fr_content_length = length content\<rparr>)"

subsection \<open>What the text of a page is\<close>

text \<open>The lines without blank ones in front, and never two blank ones in a row.\<close>

fun merge_blanks :: "bytes list \<Rightarrow> bytes list" where
  "merge_blanks (x # y # zs) = (if x = [] \<and> y = [] then merge_blanks (y # zs) else x # merge_blanks (y # zs))"
| "merge_blanks xs = xs"

lemma join_snoc_nonempty: "x \<noteq> [] \<Longrightarrow> join_with newline (acc @ [x]) \<noteq> []"
  by (cases "acc = []") (simp_all add: join_snoc)

lemma squeeze_after_both:
  "(\<forall>acc x. x \<noteq> [] \<longrightarrow> squeeze_lines U (join_with newline (acc @ [x])) False ls =
      join_with newline (acc @ merge_blanks (x # map (trim U) ls))) \<and>
   (\<forall>acc. acc \<noteq> [] \<longrightarrow> squeeze_lines U (join_with newline (acc @ [[]])) True ls =
      join_with newline (acc @ merge_blanks ([] # map (trim U) ls)))"
proof (induction ls)
  case (Cons l ls)
  have text_line: "squeeze_lines U (join_with newline (acc @ [x])) False ls =
      join_with newline (acc @ merge_blanks (x # map (trim U) ls))" if "x \<noteq> []" for acc x
    using Cons.IH that by blast
  have blank_line: "squeeze_lines U (join_with newline (acc @ [[]])) True ls =
      join_with newline (acc @ merge_blanks ([] # map (trim U) ls))" if "acc \<noteq> []" for acc
    using Cons.IH that by blast
  have longer: "join_with newline (acc @ [x]) @ newline @ y = join_with newline ((acc @ [x]) @ [y])" for acc x y
    by (rule join_snoc [symmetric]) simp
  have "squeeze_lines U (join_with newline (acc @ [x])) False (l # ls) =
      join_with newline (acc @ merge_blanks (x # map (trim U) (l # ls)))" if "x \<noteq> []" for acc x
  proof (cases "trim U l = []")
    case True
    have "squeeze_lines U (join_with newline (acc @ [x])) False (l # ls) =
        squeeze_lines U (join_with newline ((acc @ [x]) @ [[]])) True ls"
      using True join_snoc_nonempty [OF that, of acc] longer [of acc x "[]"] by simp
    also have "\<dots> = join_with newline ((acc @ [x]) @ merge_blanks ([] # map (trim U) ls))"
      by (rule blank_line) simp
    finally show ?thesis using True that by simp
  next
    case False
    have "squeeze_lines U (join_with newline (acc @ [x])) False (l # ls) =
        squeeze_lines U (join_with newline ((acc @ [x]) @ [trim U l])) False ls"
      using False join_snoc_nonempty [OF that, of acc] longer [of acc x "trim U l"] by simp
    also have "\<dots> = join_with newline ((acc @ [x]) @ merge_blanks (trim U l # map (trim U) ls))"
      by (rule text_line [OF False])
    finally show ?thesis using False that by simp
  qed
  moreover have "squeeze_lines U (join_with newline (acc @ [[]])) True (l # ls) =
      join_with newline (acc @ merge_blanks ([] # map (trim U) (l # ls)))" if "acc \<noteq> []" for acc
  proof (cases "trim U l = []")
    case True
    then show ?thesis using blank_line [OF that] by simp
  next
    case False
    have "squeeze_lines U (join_with newline (acc @ [[]])) True (l # ls) =
        squeeze_lines U (join_with newline ((acc @ [[]]) @ [trim U l])) False ls"
      using False longer [of acc "[]" "trim U l"] by simp
    also have "\<dots> = join_with newline ((acc @ [[]]) @ merge_blanks (trim U l # map (trim U) ls))"
      by (rule text_line [OF False])
    finally show ?thesis using False by simp
  qed
  ultimately show ?case by blast
qed simp

lemma squeeze_after:
  "x \<noteq> [] \<Longrightarrow> squeeze_lines U x False ls = join_with newline (merge_blanks (x # map (trim U) ls))"
  using squeeze_after_both [of U ls] by (metis append_Nil join_with.simps(2))

text \<open>
  Normalising the white space of a text trims every line, drops the blank lines in front and
  leaves one of every run of blank lines.
\<close>

theorem normalize_whitespace_reference:
  "normalize_whitespace U s = join_with newline (merge_blanks (dropWhile (\<lambda>l. l = []) (map (trim U) (str_lines s))))"
proof -
  have "squeeze_lines U [] False ls = join_with newline (merge_blanks (dropWhile (\<lambda>l. l = []) (map (trim U) ls)))" for ls
  proof (induction ls)
    case (Cons l ls)
    show ?case
    proof (cases "trim U l = []")
      case False
      then show ?thesis using squeeze_after [OF False] by simp
    qed (use Cons in simp)
  qed simp
  then show ?thesis by (simp add: normalize_whitespace_def)
qed

text \<open>The text a reader sees: every text node outside the noise, in document order.\<close>

fun visible_text :: "unicode \<Rightarrow> page_node list \<Rightarrow> bytes list" where
  "visible_text U [] = []"
| "visible_text U (PageText t # rest) = (if trim U t \<noteq> [] then [trim U t] else []) @ visible_text U rest"
| "visible_text U (PageElement tag children # rest) =
     (if tag \<in> set noise_tags then [] else visible_text U children) @ visible_text U rest"
| "visible_text U (PageOther # rest) = visible_text U rest"

text \<open>
  The fetcher collects exactly the visible text of a page, nothing from below a script, a
  navigation or another noise element; what it adds are blank lines.
\<close>

theorem collect_text_visible:
  "filter (\<lambda>t. t \<noteq> []) (collect_text U nodes out) = filter (\<lambda>t. t \<noteq> []) out @ visible_text U nodes"
  by (induction U nodes out rule: collect_text.induct) simp_all

subsection \<open>What every result credited\<close>

fun engine_tag :: "engine_id \<Rightarrow> bytes" where
  "engine_tag Bing = ''bing''"
| "engine_tag Brave = ''brave''"
| "engine_tag DuckDuckGo = ''duckduckgo''"
| "engine_tag Mojeek = ''mojeek''"
| "engine_tag Wikipedia = ''wikipedia''"

definition credited :: "bytes \<Rightarrow> search_result \<Rightarrow> bool" where
  "credited tag r \<longleftrightarrow> sr_engines r = [tag] \<and> sr_url r \<noteq> [] \<and> sr_score r = 0"

lemma web_hit_credited: "r \<in> set (web_hit W tag t u d) \<Longrightarrow> credited tag r"
  by (auto simp: web_hit_def credited_def split: if_splits)

lemma brave_text_credited: "r \<in> set (extract_results_from_text W t) \<Longrightarrow> credited ''brave'' r \<and> is_http (sr_url r)"
proof (induction W t rule: extract_results_from_text.induct)
  case (1 W t)
  show ?case
  proof (cases "find_sub title_key t")
    case None
    then show ?thesis using "1.prems" by (simp add: extract_results_from_text.simps [of W t])
  next
    case (Some st)
    then have "r \<in> set (brave_object W (drop st t)) \<or> r \<in> set (extract_results_from_text W (drop (st + 1) t))"
      using "1.prems" by (simp add: extract_results_from_text.simps [of W t])
    then show ?thesis
      using "1.IH" [OF Some]
      by (auto simp: brave_object_def credited_def Let_def split: option.splits if_splits)
  qed
qed

lemma brave_html_credited:
  assumes "r \<in> set (brave_html_results W html)"
  shows "credited ''brave'' r"
proof -
  define hits where "hits e = (case w_within W e ''.title'' of
         [] \<Rightarrow> []
       | t # _ \<Rightarrow>
           (let url = (case w_within W e ''a[href]'' of [] \<Rightarrow> [] | a # _ \<Rightarrow> text_or_empty (w_attr W a ''href'')) in
            if url = [] \<or> prefix ''/'' url then []
            else web_hit W ''brave'' (w_text W t) url (first_text_in W e ''.snippet-description, .snippet-content'')))" for e
  have one: "credited ''brave'' r" if "r \<in> set (hits e)" for e
  proof (cases "w_within W e ''.title''")
    case Nil
    then show ?thesis using that by (simp add: hits_def)
  next
    case (Cons t ts)
    then have "r \<in> set (web_hit W ''brave'' (w_text W t)
        (case w_within W e ''a[href]'' of [] \<Rightarrow> [] | a # _ \<Rightarrow> text_or_empty (w_attr W a ''href''))
        (first_text_in W e ''.snippet-description, .snippet-content''))"
      using that unfolding hits_def Let_def by (simp only: list.case split: if_split_asm) simp
    then show ?thesis by (rule web_hit_credited)
  qed
  have "brave_html_results W html =
      concat (map hits (w_select W html (''div.snippet[data-type='' @ [CHR 0x22] @ ''web'' @ [CHR 0x22] @ '']'')))"
    unfolding brave_html_results_def hits_def ..
  then show ?thesis using assms one by (auto simp del: append.simps)
qed

lemma brave_json_credited: "r \<in> set (brave_json_results W html) \<Longrightarrow> credited ''brave'' r"
  by (auto simp: brave_json_results_def Let_def split: if_splits dest: brave_text_credited)

text \<open>
  Whatever a search engine answers, each result read from the answer is attributed to that engine,
  has an address and no score yet.
\<close>

theorem engine_results_attributed:
  assumes "engine_search W i query page = Inr rs"
  shows "\<forall>r \<in> set rs. credited (engine_tag i) r"
proof (cases i)
  case Bing
  then show ?thesis
    using assms by (auto simp: bing_search_def bing_results_def bindr_Inr split: list.splits dest: web_hit_credited)
next
  case Brave
  then show ?thesis
    using assms by (auto simp: brave_search_def bindr_Inr Let_def split: if_splits dest: brave_html_credited brave_json_credited)
next
  case DuckDuckGo
  then show ?thesis
    using assms
    by (auto simp: ddg_search_def ddg_lite_results_def ddg_html_results_def bindr_Inr Let_def
        split: if_splits dest: web_hit_credited)
next
  case Mojeek
  then show ?thesis
    using assms by (auto simp: mojeek_search_def mojeek_results_def bindr_Inr split: list.splits dest: web_hit_credited)
next
  case Wikipedia
  then show ?thesis
    using assms
    by (auto simp: wikipedia_search_def wikipedia_results_def bindr_Inr credited_def split: if_splits)
qed

definition sample_web :: "unit web" where
  "sample_web = \<lparr>w_unicode = ascii_unicode, w_send = (\<lambda>_. Inr ''page''), w_urlencoded = id,
     w_percent_decode = id, w_base64 = (\<lambda>_. None), w_object = (\<lambda>_. None),
     w_array = (\<lambda>_ n. Some [Some (if n = 3 then ''http://a'' else ''A'')]), w_select = (\<lambda>_ _. []),
     w_within = (\<lambda>_ _. []), w_text = (\<lambda>_. []), w_attr = (\<lambda>_ _. None)\<rparr>"

lemma sample_wikipedia:
  "engine_search sample_web Wikipedia ''a'' 0 = Inr [\<lparr>sr_title = ''A'', sr_url = ''http://a'', sr_description = ''A'',
     sr_engines = [''wikipedia''], sr_score = 0\<rparr>]"
  by (simp add: wikipedia_search_def wikipedia_results_def column_of_def column_entry_def text_or_empty_def sample_web_def)

theorem engine_results_attributed_witness:
  "credited ''wikipedia'' \<lparr>sr_title = ''A'', sr_url = ''http://a'', sr_description = ''A'',
     sr_engines = [''wikipedia''], sr_score = 0\<rparr>"
  using engine_results_attributed [OF sample_wikipedia] by simp

end
