(* ===== verification/GuestTools.thy ===== *)
theory GuestTools
  imports BermDoors TextFind
begin

section \<open>The bundled harness programs (harness, lib/berm)\<close>

text \<open>
  The tools that run inside the sandbox: files and commands (\<open>harness/os\<close>), past conversations
  (\<open>harness/sessions\<close>), skills (\<open>harness/skill\<close>), the other agents (\<open>harness/peers\<close>), each over the doors of
  \<open>BermRoot\<close> and \<open>BermDoors\<close>, with the guest half of the runtime's doors (\<open>lib/berm\<close>). A tool gives the
  text it wrote and whether it failed. Parsing of arguments, the message codec, the quoting of
  \<open>{:?}\<close> and the buffer that bounds the text are the packages': arguments, or left out. The lemmas
  show what an edit changes, what pages of a file show, and that what a tool tells the model is
  granted.
\<close>

subsection \<open>Files and commands (harness/os)\<close>

record bash_args =
  ba_command :: bytes
  ba_cwd :: "bytes option"
  ba_env :: "(bytes \<times> bytes) list option"

record read_args =
  ra_path :: bytes
  ra_offset :: "nat option"
  ra_limit :: "nat option"

record glob_args =
  ga_pattern :: bytes
  ga_path :: "bytes option"

record grep_args =
  gr_pattern :: bytes
  gr_path :: "bytes option"
  gr_include :: "bytes option"
  gr_mode :: "bytes option"

record edit_args =
  ea_path :: bytes
  ea_old :: bytes
  ea_new :: bytes

text \<open>The doors of the namespace the tools call, over a file system.\<close>

record os_doors =
  od_exec :: "bytes \<Rightarrow> bytes \<Rightarrow> (bytes \<times> bytes) list \<Rightarrow> (fs, bytes) handler"
  od_read :: "bytes \<Rightarrow> fs \<Rightarrow> bytes + bytes"
  od_write :: "bytes \<Rightarrow> bytes \<Rightarrow> fs \<Rightarrow> bytes + fs"
  od_glob :: "bytes \<Rightarrow> bytes \<Rightarrow> fs \<Rightarrow> bytes + bytes"
  od_grep :: "bytes \<Rightarrow> bytes \<Rightarrow> bytes \<Rightarrow> bytes \<Rightarrow> fs \<Rightarrow> bytes + bytes"

text \<open>The doors bound to a root; what a command does to the files is its own.\<close>

definition bound_doors ::
  "shell \<Rightarrow> (path \<Rightarrow> bytes \<Rightarrow> fs \<Rightarrow> fs) \<Rightarrow> ('m, 'o) walker \<Rightarrow> names \<Rightarrow> path \<Rightarrow> os_doors" where
  "bound_doors X effect W cwd r =
     \<lparr>od_exec = (\<lambda>command dir env F. (fst (exec_run X F cwd r command dir env),
        (case resolve F cwd r dir of
           Inl _ \<Rightarrow> F
         | Inr p \<Rightarrow> (case sh_spawn X p command env of Inl _ \<Rightarrow> F | Inr _ \<Rightarrow> effect p command F)))),
      od_read = (\<lambda>p F. fs_read F cwd r p),
      od_write = (\<lambda>p content F. fs_write F cwd r p content),
      od_glob = (\<lambda>pattern p F. fs_glob W F cwd r pattern p),
      od_grep = (\<lambda>pattern p incl mode F. fs_grep W F cwd r pattern p incl mode)\<rparr>"

definition unwrap_or :: "'a \<Rightarrow> 'a option \<Rightarrow> 'a" where
  "unwrap_or d r = (case r of None \<Rightarrow> d | Some x \<Rightarrow> x)"

definition os_bash :: "os_doors \<Rightarrow> bash_args \<Rightarrow> (fs, bytes) handler" where
  "os_bash D a F = od_exec D (ba_command a) (unwrap_or ''.'' (ba_cwd a)) (unwrap_or [] (ba_env a)) F"

definition DEFAULT_LIMIT :: nat where
  "DEFAULT_LIMIT = 2000"

definition tab :: bytes where
  "tab = [CHR 0x09]"

definition guest_utf8 :: "bytes \<Rightarrow> bytes \<Rightarrow> bytes + bytes" where
  "guest_utf8 p content = (if valid_utf8 content then Inr content else Inl (p @ '' is not valid UTF-8''))"

text \<open>The numbered lines of one page.\<close>

definition page_body :: "bytes list \<Rightarrow> nat \<Rightarrow> nat \<Rightarrow> bytes" where
  "page_body ls start limit =
     concat (map (\<lambda>(i, line). show_nat i @ tab @ line @ newline) (enumerate (start + 1) (take limit (drop start ls))))"

definition read_page :: "bytes \<Rightarrow> nat \<Rightarrow> nat \<Rightarrow> bytes" where
  "read_page content offset limit =
     (let ls = str_lines content; total = length ls; start = offset - 1 in
      if start \<ge> total then
        ''--- '' @ show_nat total @ '' total lines (offset '' @ show_nat offset @ '' is past end of file) ---''
      else
        let finish = start + length (take limit (drop start ls)) in
        page_body ls start limit @
        (if start > 0 \<or> finish < total
         then newline @ ''--- '' @ show_nat total @ '' total lines (showing lines '' @ show_nat (start + 1) @ ''-'' @
           show_nat finish @ '') ---''
         else newline @ ''--- '' @ show_nat total @ '' total lines ---''))"

definition os_read :: "os_doors \<Rightarrow> read_args \<Rightarrow> (fs, bytes) handler" where
  "os_read D a F =
     (bindr (od_read D (ra_path a) F) (\<lambda>raw. bindr (guest_utf8 (ra_path a) raw) (\<lambda>content.
        Inr (read_page content (max (unwrap_or 1 (ra_offset a)) 1) (unwrap_or DEFAULT_LIMIT (ra_limit a))))), F)"

definition os_edit :: "os_doors \<Rightarrow> edit_args \<Rightarrow> (fs, bytes) handler" where
  "os_edit D a F =
     (if ea_old a = [] then (Inl ''old_string must not be empty'', F)
      else if ea_old a = ea_new a then (Inl ''old_string and new_string are identical'', F)
      else case bindr (od_read D (ea_path a) F) (guest_utf8 (ea_path a)) of
          Inl e \<Rightarrow> (Inl e, F)
        | Inr content \<Rightarrow>
            (let n = count_sub (ea_old a) content in
             if n = 0 then (Inl ''old_string not found'', F)
             else if n \<noteq> 1 then (Inl (''old_string is not unique, found '' @ show_nat n @ '' occurrences''), F)
             else case od_write D (ea_path a) (replace_first (ea_old a) (ea_new a) content) F of
                 Inl e \<Rightarrow> (Inl e, F)
               | Inr F' \<Rightarrow> (Inr ''ok'', F')))"

definition os_glob :: "os_doors \<Rightarrow> glob_args \<Rightarrow> (fs, bytes) handler" where
  "os_glob D a F = (od_glob D (ga_pattern a) (unwrap_or ''.'' (ga_path a)) F, F)"

definition os_grep :: "os_doors \<Rightarrow> grep_args \<Rightarrow> (fs, bytes) handler" where
  "os_grep D a F =
     (od_grep D (gr_pattern a) (unwrap_or ''.'' (gr_path a)) (unwrap_or [] (gr_include a)) (unwrap_or ''files'' (gr_mode a)) F, F)"

subsection \<open>The guest half of the runtime's doors (lib/berm)\<close>

record guest_codec =
  gc_search :: "search_msg \<Rightarrow> bytes option"
  gc_agents :: "bytes \<Rightarrow> agent_info list option"
  gc_hits :: "bytes \<Rightarrow> wire_hit list option"
  gc_skills :: "bytes \<Rightarrow> skill_summary list option"
  gc_body :: "bytes \<Rightarrow> (bytes \<times> bytes) option"
  gc_quoted :: "bytes \<Rightarrow> bytes"

definition guest_decode :: "(bytes \<Rightarrow> 'a option) \<Rightarrow> (bytes + bytes) \<times> 's \<Rightarrow> (bytes + 'a) \<times> 's" where
  "guest_decode dec r =
     (bindr (fst r) (\<lambda>b. case dec b of Some x \<Rightarrow> Inr x | None \<Rightarrow> Inl ''could not decode the reply''), snd r)"

record 's runtime_doors =
  rd_peers :: "('s, bytes) handler"
  rd_search :: "bytes \<Rightarrow> ('s, bytes) handler"
  rd_skills :: "('s, bytes) handler"
  rd_skill :: "bytes \<Rightarrow> ('s, bytes) handler"

text \<open>The doors a declaration opens onto a runtime.\<close>

definition scoped_doors :: "door_codec \<Rightarrow> 's reach \<Rightarrow> scope \<Rightarrow> 's runtime_doors" where
  "scoped_doors P X sc =
     \<lparr>rd_peers = door_peers P X, rd_search = door_sessions P X sc, rd_skills = door_skills P X sc,
      rd_skill = door_skill P X sc\<rparr>"

definition guest_peers :: "guest_codec \<Rightarrow> 's runtime_doors \<Rightarrow> ('s, agent_info list) handler" where
  "guest_peers G D s = guest_decode (gc_agents G) (rd_peers D s)"

definition guest_sessions :: "guest_codec \<Rightarrow> 's runtime_doors \<Rightarrow> search_msg \<Rightarrow> ('s, wire_hit list) handler" where
  "guest_sessions G D q s =
     (case gc_search G q of
        None \<Rightarrow> (Inl ''could not encode the request'', s)
      | Some request \<Rightarrow> guest_decode (gc_hits G) (rd_search D request s))"

definition guest_skills :: "guest_codec \<Rightarrow> 's runtime_doors \<Rightarrow> ('s, skill_summary list) handler" where
  "guest_skills G D s = guest_decode (gc_skills G) (rd_skills D s)"

definition guest_skill :: "guest_codec \<Rightarrow> 's runtime_doors \<Rightarrow> bytes \<Rightarrow> ('s, bytes \<times> bytes) handler" where
  "guest_skill G D name s = guest_decode (gc_body G) (rd_skill D name s)"

subsection \<open>Peers, past conversations, skills (harness/peers, sessions, skill)\<close>

definition tool_peers :: "guest_codec \<Rightarrow> 's runtime_doors \<Rightarrow> ('s, bytes) handler" where
  "tool_peers G D s =
     (let (r, s') = guest_peers G D s
      in (bindr r (\<lambda>as. Inr (concat (map (\<lambda>i. gi_name i @ tab @ gi_description i @ newline) as))), s'))"

record search_args =
  sa_query :: bytes
  sa_limit :: "nat option"
  sa_before :: "nat option"
  sa_after :: "nat option"
  sa_sender :: bytes

definition hit_label :: "bytes \<Rightarrow> bytes \<Rightarrow> bytes" where
  "hit_label role tool =
     (if role = ''assistant'' \<and> tool \<noteq> [] then ''tool-call:'' @ tool
      else if role = ''tool'' \<and> tool \<noteq> [] then ''tool:'' @ tool
      else role)"

definition middle_dot :: bytes where
  "middle_dot = [CHR 0x20, CHR 0xC2, CHR 0xB7, CHR 0x20]"

definition ellipsis :: bytes where
  "ellipsis = [CHR 0x20, CHR 0xE2, CHR 0x80, CHR 0xA6]"

definition write_hit :: "wire_hit \<Rightarrow> bytes" where
  "write_hit h =
     ''## '' @ (if wh_title h = [] then ''(untitled)'' else wh_title h) @ newline @
     ''session: '' @ wh_session h @ middle_dot @ ''agent: '' @ wh_agent_name h @ middle_dot @ ''sender: '' @ wh_sender h @ newline @
     ''updated: '' @ wh_updated_at h @ middle_dot @ ''matched message #'' @ show_nat (wh_msg_idx h) @ newline @
     concat (map (\<lambda>i. ''- ['' @ hit_label (wi_role i) (wi_tool_name i) @ '' #'' @ show_nat (wi_msg_idx i) @ ''] '' @
       wi_snippet i @ (if wi_truncated i then ellipsis else []) @ newline) (wh_window h))"

definition tool_search_sessions :: "guest_codec \<Rightarrow> 's runtime_doors \<Rightarrow> search_args \<Rightarrow> ('s, bytes) handler" where
  "tool_search_sessions G D a s =
     (let (r, s') = guest_sessions G D
          \<lparr>sr_query = sa_query a, sr_limit = sa_limit a, sr_before = sa_before a, sr_after = sa_after a,
           sr_agent = [], sr_sender = sa_sender a\<rparr> s
      in (bindr r (\<lambda>hits.
            Inr (if hits = [] then ''no sessions found''
                 else join_with (''---'' @ newline) (map write_hit hits))), s'))"

definition contains_ignoring_case :: "bytes \<Rightarrow> bytes \<Rightarrow> bool" where
  "contains_ignoring_case haystack needle = contains_sub (map ascii_lower needle) (map ascii_lower haystack)"

definition mentions :: "bytes \<Rightarrow> bytes \<Rightarrow> bytes \<Rightarrow> bool" where
  "mentions name description wanted \<longleftrightarrow>
     wanted = [] \<or> contains_ignoring_case name wanted \<or> contains_ignoring_case description wanted"

definition skill_line :: "skill_summary \<Rightarrow> bytes" where
  "skill_line k =
     (if su_description k = [] then ''- '' @ su_name k @ newline
      else ''- '' @ su_name k @ '': '' @ su_description k @ newline)"

text \<open>The catalogue as the tool lists it.\<close>

definition catalogue_text :: "guest_codec \<Rightarrow> bytes \<Rightarrow> skill_summary list \<Rightarrow> bytes" where
  "catalogue_text G wanted catalogue =
     (let hits = filter (\<lambda>k. mentions (su_name k) (su_description k) wanted) catalogue in
      if catalogue = [] then ''no skills are available to this agent''
      else if hits = [] then
        ''no skill matches '' @ gc_quoted G wanted @ ''. Call this tool with an empty name to see all '' @
        show_nat (length catalogue) @ ''.''
      else (if wanted = [] then ''Available skills:'' @ newline
            else ''No skill is named '' @ gc_quoted G wanted @ ''. Closest matches:'' @ newline) @
           concat (map skill_line hits))"

definition tool_skill :: "unicode \<Rightarrow> guest_codec \<Rightarrow> 's runtime_doors \<Rightarrow> bytes \<Rightarrow> ('s, bytes) handler" where
  "tool_skill U G D name s =
     (let wanted = trim U name;
          (loaded, s1) = (if wanted = [] then (Inl [], s) else guest_skill G D wanted s)
      in case loaded of
           Inr (_, body) \<Rightarrow> (Inr body, s1)
         | Inl _ \<Rightarrow>
             (let (r, s2) = guest_skills G D s1
              in (bindr r (\<lambda>catalogue. Inr (catalogue_text G wanted catalogue)), s2)))"

subsection \<open>Replacing the contents of a file moves nothing\<close>

lemma walk_replaced: "F q = Some (File d) \<Longrightarrow> walk n (F(q \<mapsto> File d')) base cs = walk n F base cs"
proof (induction n F base cs rule: walk.induct)
  case (2 n F base c cs)
  show ?case
  proof (cases "c = parent_name \<or> base @ [c] = q")
    case True
    then show ?thesis using 2 by (auto simp: walk.simps(2))
  next
    case False
    then show ?thesis using 2 by (simp add: walk.simps(2) split: option.split BermRoot.node.split)
  qed
qed simp

lemma canonicalize_replaced: "F q = Some (File d) \<Longrightarrow> canonicalize (F(q \<mapsto> File d')) cwd p = canonicalize F cwd p"
  unfolding canonicalize_def by (simp only: walk_replaced)

lemma settle_replaced:
  "F q = Some (File d) \<Longrightarrow> settle_loop (F(q \<mapsto> File d')) cwd whole existing missing = settle_loop F cwd whole existing missing"
proof (induction F cwd whole existing missing rule: settle_loop.induct)
  case (1 F cwd whole existing missing)
  have c: "canonicalize (F(q \<mapsto> File d')) cwd existing = canonicalize F cwd existing"
    by (rule canonicalize_replaced) (fact "1.prems")
  have unfold: "settle_loop G cwd whole existing missing = (case canonicalize G cwd existing of
        Some there \<Rightarrow> \<lparr>pa_absolute = True, pa_names = there @ missing\<rparr>
      | None \<Rightarrow> if pa_names existing = [] then whole
          else settle_loop G cwd whole (existing\<lparr>pa_names := butlast (pa_names existing)\<rparr>)
                 (last (pa_names existing) # missing))" for G
    by (rule settle_loop.simps)
  show ?case
  proof (cases "canonicalize F cwd existing = None \<and> pa_names existing \<noteq> []")
    case True
    then show ?thesis using "1.IH" [OF _ _ "1.prems"] by (simp add: unfold c del: fun_upd_apply)
  next
    case False
    then show ?thesis by (auto simp: unfold [of "F(q \<mapsto> File d')"] unfold [of F] c simp del: fun_upd_apply)
  qed
qed

lemma resolve_replaced: "F q = Some (File d) \<Longrightarrow> resolve (F(q \<mapsto> File d')) cwd r s = resolve F cwd r s"
  unfolding resolve_def real_root_def settle_def by (simp only: canonicalize_replaced settle_replaced)

lemma read_replaced:
  assumes "fs_read F cwd r s = Inr d" and "resolve F cwd r s = Inr p" and "pa_absolute p" and "F (pa_names p) = Some (File d)"
    and "walk MAX_LINKS F [] (pa_names p) = Some (pa_names p)"
  shows "fs_read (F(pa_names p \<mapsto> File d')) cwd r s =
    (if length d' > MAX_FILE_SIZE then Inl ''file is too large'' else Inr d')"
proof -
  let ?F = "F(pa_names p \<mapsto> File d')"
  have "resolve ?F cwd r s = Inr p" using resolve_replaced [where F = F and q = "pa_names p" and d = d] assms(2,4) by simp
  moreover have "walk MAX_LINKS ?F [] (pa_names p) = Some (pa_names p)"
    using walk_replaced [where F = F and q = "pa_names p" and d = d] assms(4,5) by simp
  ultimately show ?thesis using assms(3) by (simp add: fs_read_def read_file_def start_of_def)
qed

subsection \<open>What an edit changes\<close>

lemma edit_failure_keeps: "os_edit D a F = (Inl e, F') \<Longrightarrow> F' = F"
  by (auto simp: os_edit_def Let_def split: if_splits sum.splits)

lemma edit_success:
  assumes "os_edit D a F = (Inr out, F')"
  obtains content u v where "od_read D (ea_path a) F = Inr content" and "content = u @ ea_old a @ v"
    and "od_write D (ea_path a) (u @ ea_new a @ v) F = Inr F'" and "\<not> contains_sub (ea_old a) v"
    and "\<And>u' v'. content = u' @ ea_old a @ v' \<Longrightarrow> length u \<le> length u'" and "out = ''ok''"
proof -
  obtain content where c: "ea_old a \<noteq> []" "od_read D (ea_path a) F = Inr content" "count_sub (ea_old a) content = 1"
    and w: "od_write D (ea_path a) (replace_first (ea_old a) (ea_new a) content) F = Inr F'" "out = ''ok''"
    using assms by (auto simp: os_edit_def guest_utf8_def bindr_Inr Let_def split: if_splits sum.splits)
  from replace_first_once [OF c(1,3), where r = "ea_new a"] c(2) w show thesis using that by metis
qed

lemma os_bound_simps [simp]:
  "od_read (bound_doors X effect W cwd r) p F = fs_read F cwd r p"
  "od_write (bound_doors X effect W cwd r) p content F = fs_write F cwd r p content"
  by (simp_all add: bound_doors_def)

lemma read_walks:
  assumes "fs_read F cwd r s = Inr d" and res: "resolve F cwd r s = Inr p" and abs: "pa_absolute (real_root F cwd r)"
    and links: "\<not> link_below F (pa_names p)"
  shows "walk MAX_LINKS F [] (pa_names p) = Some (pa_names p) \<and> F (pa_names p) = Some (File d) \<and> pa_absolute p"
proof -
  have a: "pa_absolute p" using resolve_shape [OF res abs] by blast
  then obtain t where t: "walk MAX_LINKS F [] (pa_names p) = Some t" "F t = Some (File d)"
    using assms(1) by (auto simp: fs_read_def res read_file_def start_of_def split: option.splits BermRoot.node.splits if_splits)
  then have "t = pa_names p" using resolve_opens_itself [OF res abs walk_open] links by blast
  then show ?thesis using t a by simp
qed

text \<open>
  C37: Where the root resolves to an absolute path and no name of the edited path is a link the
  resolution left, an edit that succeeds replaced the one occurrence of the old string in the one
  file at that path, occurrences counted one behind the other, and so the first where some overlap,
  and nothing else of the file system; the file reads back with the new string in its place, or is
  refused as too large once it is over the bound. An edit that fails changed nothing.
\<close>

theorem edit_replaces:
  assumes res: "resolve F cwd r (ea_path a) = Inr p" and abs: "pa_absolute (real_root F cwd r)"
    and links: "\<not> link_below F (pa_names p)" and edit: "os_edit (bound_doors X effect W cwd r) a F = (result, F')"
  shows "case result of
      Inl e \<Rightarrow> F' = F
    | Inr out \<Rightarrow> \<exists>u v. F (pa_names p) = Some (File (u @ ea_old a @ v)) \<and>
        F' = F(pa_names p \<mapsto> File (u @ ea_new a @ v)) \<and> \<not> contains_sub (ea_old a) v \<and>
        (\<nexists>u' v'. u @ ea_old a @ v = u' @ ea_old a @ v' \<and> length u' < length u) \<and>
        fs_read F' cwd r (ea_path a) =
          (if length (u @ ea_new a @ v) > MAX_FILE_SIZE then Inl ''file is too large'' else Inr (u @ ea_new a @ v))"
proof (cases result)
  case (Inl e)
  then show ?thesis using edit edit_failure_keeps by simp
next
  case (Inr out)
  with edit have "os_edit (bound_doors X effect W cwd r) a F = (Inr out, F')" by simp
  then obtain content u v where c: "fs_read F cwd r (ea_path a) = Inr content" "content = u @ ea_old a @ v"
    and w: "fs_write F cwd r (ea_path a) (u @ ea_new a @ v) = Inr F'" "\<not> contains_sub (ea_old a) v"
    and first: "\<And>u' v'. content = u' @ ea_old a @ v' \<Longrightarrow> length u \<le> length u'"
    by (auto elim: edit_success)
  note at = read_walks [OF c(1) res abs links]
  have F': "F' = F(pa_names p \<mapsto> File (u @ ea_new a @ v))"
    using file_doors_at [OF abs res links] w(1) by blast
  have "fs_read F' cwd r (ea_path a) =
      (if length (u @ ea_new a @ v) > MAX_FILE_SIZE then Inl ''file is too large'' else Inr (u @ ea_new a @ v))"
    unfolding F' using at by (intro read_replaced [OF c(1) res]) simp_all
  moreover have "\<nexists>u' v'. u @ ea_old a @ v = u' @ ea_old a @ v' \<and> length u' < length u"
    using first c(2) by fastforce
  ultimately show ?thesis
    unfolding Inr sum.case using at c(2) F' w(2) by (intro exI [of _ u] exI [of _ v] conjI) simp_all
qed

text \<open>
  Occurrences are counted without overlap, so a string may be taken for unique that occurs twice.
\<close>

lemma overlap_counts_once:
  "os_edit (bound_doors X effect W [] (parse_path ''/r''))
     \<lparr>ea_path = ''f'', ea_old = ''aa'', ea_new = ''b''\<rparr> [[''r''] \<mapsto> Dir, [''r'', ''f''] \<mapsto> File ''aaa''] =
   (Inr ''ok'', [[''r''] \<mapsto> Dir, [''r'', ''f''] \<mapsto> File ''aaa'', [''r'', ''f''] \<mapsto> File ''ba''])"
proof -
  let ?F = "[[''r''] \<mapsto> Dir, [''r'', ''f''] \<mapsto> File ''aaa'']"
  have r: "fs_read ?F [] (parse_path ''/r'') ''f'' = Inr ''aaa''" by code_simp
  have q: "resolve ?F [] (parse_path ''/r'') ''f'' = Inr (parse_path ''/r/f'')"
    "os_open MAX_LINKS ?F (start_of [] (parse_path ''/r/f'')) (pa_names (parse_path ''/r/f'')) = Some [''r'', ''f'']" by code_simp+
  have w: "fs_write ?F [] (parse_path ''/r'') ''f'' ''ba'' = Inr (?F([''r'', ''f''] \<mapsto> File ''ba''))"
    by (simp add: fs_write_def q)
  have "valid_utf8 ''aaa''" "count_sub ''aa'' ''aaa'' = 1" "replace_first ''aa'' ''b'' ''aaa'' = ''ba''" by code_simp+
  then show ?thesis by (simp add: os_edit_def r guest_utf8_def w del: fun_upd_apply)
qed

subsection \<open>Pages of a file\<close>

lemma enumerate_append: "enumerate n (xs @ ys) = enumerate n xs @ enumerate (n + length xs) ys"
  by (induction xs arbitrary: n) simp_all

lemma page_body_split: "page_body ls a (m + n) = page_body ls a m @ page_body ls (a + m) n"
proof (cases "a + m \<le> length ls")
  case True
  then show ?thesis by (simp add: page_body_def take_add enumerate_append add.commute)
next
  case False
  then show ?thesis by (simp add: page_body_def)
qed

text \<open>Reading a file page after page, the pages show every line once, numbered through.\<close>

theorem pages_cover:
  assumes "length ls \<le> k * n"
  shows "concat (map (\<lambda>i. page_body ls (i * n) n) [0..<k]) = page_body ls 0 (length ls)"
proof -
  have "concat (map (\<lambda>i. page_body ls (i * n) n) [0..<k]) = page_body ls 0 (k * n)"
  proof (induction k)
    case 0
    then show ?case by (simp add: page_body_def)
  next
    case (Suc k)
    have "page_body ls 0 (k * n + n) = page_body ls 0 (k * n) @ page_body ls (k * n) n"
      using page_body_split [of ls 0 "k * n" n] by simp
    then show ?case using Suc by (simp add: add.commute)
  qed
  then show ?thesis using assms by (simp add: page_body_def)
qed

subsection \<open>What the runtime's tools tell\<close>

lemma decoded: "guest_decode dec r = (Inr x, s) \<Longrightarrow> \<exists>ans. r = (Inr ans, s) \<and> dec ans = Some x"
  by (cases r) (auto simp: guest_decode_def bindr_Inr split: option.splits)

text \<open>The codecs of the two sides agree.\<close>

definition codecs_agree :: "guest_codec \<Rightarrow> door_codec \<Rightarrow> bool" where
  "codecs_agree G P \<longleftrightarrow>
     (\<forall>hs. gc_hits G (pk_hits P hs) = Some hs) \<and> (\<forall>l. gc_skills G (pk_skills P l) = Some l) \<and>
     (\<forall>n b. gc_body G (pk_body P n b) = Some (n, b))"

text \<open>
  What the tool for past conversations tells is made of hits of the declaring agent's own
  conversations only, at most twenty, and asking changes nothing.
\<close>

theorem search_tool_own:
  assumes shown: "pk_show P = eg_show (nd_engine N)" "eg_show (nd_engine N) (sc_agent sc) \<noteq> []"
    and ulid: "ulid_ok (ae_ulid (eg_agents (nd_engine N)))" and codecs: "codecs_agree G P"
    and tool: "tool_search_sessions G (scoped_doors P (Some (server_dispatch (daemon_server N M))) sc) a d = (Inr out, d')"
  shows "d' = d \<and> (out = ''no sessions found'' \<or>
    (\<exists>hits. out = join_with (''---'' @ newline) (map write_hit hits) \<and> length hits \<le> 20 \<and>
       list_all (\<lambda>h. wh_agent_id h = eg_show (nd_engine N) (sc_agent sc)) hits))"
proof -
  let ?q = "\<lparr>sr_query = sa_query a, sr_limit = sa_limit a, sr_before = sa_before a, sr_after = sa_after a,
     sr_agent = [], sr_sender = sa_sender a\<rparr>"
  obtain hits where hits: "guest_sessions G (scoped_doors P (Some (server_dispatch (daemon_server N M))) sc) ?q d = (Inr hits, d')"
    and out: "out = (if hits = [] then ''no sessions found'' else join_with (''---'' @ newline) (map write_hit hits))"
    using tool by (auto simp: tool_search_sessions_def bindr_Inr Let_def split: prod.splits)
  obtain request where request: "gc_search G ?q = Some request"
    using hits by (cases "gc_search G ?q") (simp_all add: guest_sessions_def)
  obtain ans where door: "door_sessions P (Some (server_dispatch (daemon_server N M))) sc request d = (Inr ans, d')"
    and dec: "gc_hits G ans = Some hits"
    using decoded [of "gc_hits G"] hits by (fastforce simp: guest_sessions_def request scoped_doors_def)
  from session_door_hits [OF shown ulid door] obtain hs where "d' = d" "ans = pk_hits P hs" "length hs \<le> 20"
    "list_all (\<lambda>h. wh_agent_id h = eg_show (nd_engine N) (sc_agent sc)) hs" by blast
  then show ?thesis using out dec codecs by (auto simp: codecs_agree_def)
qed

lemma door_skill_body:
  assumes "fst (door_skill P X sc name s) = Inr ans"
  shows "may_use sc name \<and> (\<exists>n b. ans = pk_body P n b)"
proof -
  have "may_use sc name" using assms by (cases "may_use sc name") (simp_all add: door_skill_def)
  then show ?thesis using assms by (auto simp: door_skill_def sent_back_def map_sum_Inr_iff)
qed

text \<open>
  The skill tool gives the instructions of a skill the declaration allows, or lists such skills;
  under a declaration without skills that is every skill.
\<close>

theorem skill_tool_granted:
  assumes codecs: "codecs_agree G P" and tool: "tool_skill U G (scoped_doors P X sc) name s = (Inr out, s')"
  shows "may_use sc (trim U name) \<and> (\<exists>n. fst (door_skill P X sc (trim U name) s) = Inr (pk_body P n out)) \<or>
    (\<exists>catalogue. out = catalogue_text G (trim U name) catalogue \<and> list_all (\<lambda>k. may_use sc (su_name k)) catalogue)"
proof -
  let ?D = "scoped_doors P X sc" and ?w = "trim U name"
  obtain loaded s1 where l: "(if ?w = [] then (Inl [], s) else guest_skill G ?D ?w s) = (loaded, s1)" by fastforce
  note tool = tool [unfolded tool_skill_def Let_def l]
  show ?thesis
  proof (cases loaded)
    case (Inr nb)
    then obtain n where nb: "loaded = Inr (n, out)" using tool by (cases nb) simp
    then have "guest_skill G ?D ?w s = (Inr (n, out), s1)" using l by (simp split: if_splits)
    then obtain ans where "door_skill P X sc ?w s = (Inr ans, s1)" "gc_body G ans = Some (n, out)"
      using decoded unfolding guest_skill_def scoped_doors_def by fastforce
    then show ?thesis using door_skill_body [of P X sc ?w s ans] codecs by (auto simp: codecs_agree_def)
  next
    case (Inl e)
    then obtain catalogue where "guest_skills G ?D s1 = (Inr catalogue, s')" "out = catalogue_text G ?w catalogue"
      using tool by (auto simp: bindr_Inr split: prod.splits)
    moreover obtain ans where "door_skills P X sc s1 = (Inr ans, s')" "gc_skills G ans = Some catalogue"
      using decoded calculation(1) unfolding guest_skills_def scoped_doors_def by fastforce
    moreover obtain l where "ans = pk_skills P l" "list_all (\<lambda>k. may_use sc (su_name k)) l"
      using skill_doors_scoped(1) [of P X sc s1 ans] calculation(3) by auto
    ultimately show ?thesis using codecs by (auto simp: codecs_agree_def)
  qed
qed

subsection \<open>Witness\<close>

definition no_shell :: shell where
  "no_shell = \<lparr>sh_spawn = (\<lambda>_ _ _. Inl ''no shell''), sh_json = (\<lambda>_ _ _. [])\<rparr>"

theorem edit_replaces_witness:
  "\<exists>F'. os_edit (bound_doors no_shell (\<lambda>_ _ F. F) sample_walker [] (parse_path ''/r''))
      \<lparr>ea_path = ''d/a'', ea_old = ''x'', ea_new = ''y''\<rparr> sample_fs = (Inr ''ok'', F') \<and>
    fs_read F' [] (parse_path ''/r'') ''d/a'' = Inr ''y'' \<and> F' [''r'', ''d'', ''a''] = Some (File ''y'')"
proof -
  let ?D = "bound_doors no_shell (\<lambda>_ _ F. F) sample_walker [] (parse_path ''/r'')"
  let ?a = "\<lparr>ea_path = ''d/a'', ea_old = ''x'', ea_new = ''y''\<rparr>"
  have q: "resolve sample_fs [] (parse_path ''/r'') (ea_path ?a) = Inr (parse_path ''/r/d/a'')"
    "pa_absolute (real_root sample_fs [] (parse_path ''/r''))" "\<not> link_below sample_fs (pa_names (parse_path ''/r/d/a''))"
    by code_simp+
  have n: "pa_names (parse_path ''/r/d/a'') = [''r'', ''d'', ''a'']" by code_simp
  have r: "fs_read sample_fs [] (parse_path ''/r'') ''d/a'' = Inr ''x''" by code_simp
  have w: "fs_write sample_fs [] (parse_path ''/r'') ''d/a'' ''y'' = Inr (sample_fs([''r'', ''d'', ''a''] \<mapsto> File ''y''))"
  proof -
    have "os_open MAX_LINKS sample_fs (start_of [] (parse_path ''/r/d/a'')) (pa_names (parse_path ''/r/d/a'')) = Some [''r'', ''d'', ''a'']"
      "sample_fs [''r'', ''d'', ''a''] = Some (File ''x'')" by code_simp+
    then show ?thesis using q(1) by (simp add: fs_write_def)
  qed
  have "valid_utf8 ''x''" "count_sub ''x'' ''x'' = 1" "replace_first ''x'' ''y'' ''x'' = ''y''" by code_simp+
  then have e: "os_edit ?D ?a sample_fs = (Inr ''ok'', sample_fs([''r'', ''d'', ''a''] \<mapsto> File ''y''))"
    by (simp add: os_edit_def r guest_utf8_def w del: fun_upd_apply)
  have f: "sample_fs (pa_names (parse_path ''/r/d/a'')) = Some (File ''x'')" by code_simp
  let ?F = "sample_fs([''r'', ''d'', ''a''] \<mapsto> File ''y'')"
  obtain u v where uv: "sample_fs (pa_names (parse_path ''/r/d/a'')) = Some (File (u @ ''x'' @ v))"
    and read: "fs_read ?F [] (parse_path ''/r'') ''d/a'' =
      (if length (u @ ''y'' @ v) > MAX_FILE_SIZE then Inl ''file is too large'' else Inr (u @ ''y'' @ v))"
    using edit_replaces [OF q e] unfolding sum.case edit_args.simps by blast
  have "''x'' = u @ ''x'' @ v" using uv unfolding f by simp
  then have "u = [] \<and> v = []" by (cases u) auto
  then have "fs_read ?F [] (parse_path ''/r'') ''d/a'' = Inr ''y''" using read by (simp add: MAX_FILE_SIZE_def)
  then show ?thesis using e by simp
qed

end
