(* ===== verification/InstallConfig.thy ===== *)
theory InstallConfig
  imports AgentStore TextFind
begin

section \<open>The install's configuration (store/src/config, system/provider.rs, builder.rs)\<close>

text \<open>
  \<open>config.toml\<close>: its sections, the substitution of environment variables in secrets, the check that
  it names its endpoints once; which upstream the daemon talks to, the models it learns from them,
  and the agent a fresh install starts with. The TOML parser, the environment, the provider package
  and its catalogues are arguments. An error is its chain of contexts, outermost first. The lemmas
  show what a template evaluates to, what a loaded configuration holds, and that seeding is done
  once.
\<close>

subsection \<open>Substitution (env.rs)\<close>

definition dollar_brace :: bytes where
  "dollar_brace = [CHR 0x24, CHR 0x7B]"

definition brace :: byte where
  "brace = CHR 0x7D"

definition backtick :: bytes where
  "backtick = [CHR 0x60]"

function interpolate :: "(bytes \<Rightarrow> bytes option) \<Rightarrow> bytes \<Rightarrow> bytes + bytes" where
  "interpolate env rest =
     (case find_sub dollar_brace rest of
        None \<Rightarrow> Inr rest
      | Some n \<Rightarrow>
          (let tail = drop (n + 2) rest; name = takeWhile (\<lambda>c. c \<noteq> brace) tail in
           if name = tail then Inl (''unterminated '' @ backtick @ dollar_brace @ backtick @ '' in a configuration value'')
           else (case env name of
               None \<Rightarrow> Inl (''environment variable '' @ backtick @ name @ backtick @ '' is not set'')
             | Some v \<Rightarrow> bindr (interpolate env (drop (length name + 1) tail)) (\<lambda>out. Inr (take n rest @ v @ out)))))"
  by pat_completeness auto
termination
proof (relation "measure (\<lambda>(env, rest). length rest)")
  fix env :: "bytes \<Rightarrow> bytes option" and rest n tail name v
  assume "find_sub dollar_brace rest = Some n" and t: "tail = drop (n + 2) rest"
  then have "n + 2 \<le> length rest" using find_sub_bound [of dollar_brace rest n] by (simp add: dollar_brace_def)
  then show "((env, drop (length name + 1) tail), env, rest) \<in> measure (\<lambda>(env, rest). length rest)" using t by simp
qed simp

declare interpolate.simps [simp del]

subsection \<open>Sections (crabtalk.rs, llm.rs, system.rs, cache.rs, mcp.rs)\<close>

record llm_config =
  lc_base_url :: bytes
  lc_api_key :: bytes
  lc_kind :: "bytes option"

definition llm_is_set :: "llm_config \<Rightarrow> bool" where
  "llm_is_set c \<longleftrightarrow> lc_base_url c \<noteq> [] \<or> lc_api_key c \<noteq> [] \<or> lc_kind c \<noteq> None"

text \<open>What the code reads and writes of the provider package's record.\<close>

record provider_config =
  pv_kind :: "bytes option"
  pv_api_key :: "bytes option"
  pv_base_url :: "bytes option"
  pv_models :: "bytes list"

definition provider_config_default :: provider_config where
  "provider_config_default = \<lparr>pv_kind = None, pv_api_key = None, pv_base_url = None, pv_models = []\<rparr>"

record tasks_config =
  tk_max_concurrent :: nat
  tk_viewable_window :: nat
  tk_task_timeout :: nat

definition tasks_config_default :: tasks_config where
  "tasks_config_default = \<lparr>tk_max_concurrent = 4, tk_viewable_window = 16, tk_task_timeout = 300\<rparr>"

text \<open>Providers and variables are ordered maps; the cache bound is in megabytes.\<close>

record install_config =
  ic_llm :: llm_config
  ic_providers :: "(bytes \<times> provider_config) list"
  ic_tasks :: tasks_config
  ic_mcp_idle :: nat
  ic_cache_sessions :: "nat option"
  ic_env :: "(bytes \<times> bytes) list"

definition install_config_default :: install_config where
  "install_config_default =
     \<lparr>ic_llm = \<lparr>lc_base_url = [], lc_api_key = [], lc_kind = None\<rparr>, ic_providers = [],
      ic_tasks = tasks_config_default, ic_mcp_idle = 1800, ic_cache_sessions = Some 32, ic_env = []\<rparr>"

definition in_context :: "bytes \<Rightarrow> bytes + 'a \<Rightarrow> bytes list + 'a" where
  "in_context what r = map_sum (\<lambda>e. [what, e]) id r"

fun resolve_providers ::
  "(bytes \<Rightarrow> bytes option) \<Rightarrow> (bytes \<times> provider_config) list \<Rightarrow> bytes list + (bytes \<times> provider_config) list" where
  "resolve_providers env [] = Inr []"
| "resolve_providers env ((name, p) # ps) =
     (case pv_api_key p of
        None \<Rightarrow> bindr (resolve_providers env ps) (\<lambda>qs. Inr ((name, p) # qs))
      | Some k \<Rightarrow>
          bindr (in_context (''[providers.'' @ name @ ''] api_key'') (interpolate env k)) (\<lambda>v.
            bindr (resolve_providers env ps) (\<lambda>qs. Inr ((name, p\<lparr>pv_api_key := Some v\<rparr>) # qs))))"

definition resolve_config :: "(bytes \<Rightarrow> bytes option) \<Rightarrow> install_config \<Rightarrow> bytes list + install_config" where
  "resolve_config env c =
     (if llm_is_set (ic_llm c) \<and> ic_providers c \<noteq> []
      then Inl [''configure either [llm] or [providers], not both'']
      else bindr (in_context ''[llm] api_key'' (interpolate env (lc_api_key (ic_llm c)))) (\<lambda>k.
        bindr (resolve_providers env (ic_providers c)) (\<lambda>ps.
          Inr (c\<lparr>ic_llm := (ic_llm c)\<lparr>lc_api_key := k\<rparr>, ic_providers := ps\<rparr>))))"

definition from_toml ::
  "(bytes \<Rightarrow> bytes + install_config) \<Rightarrow> (bytes \<Rightarrow> bytes option) \<Rightarrow> bytes \<Rightarrow> bytes list + install_config" where
  "from_toml parse env s = bindr (map_sum (\<lambda>e. [e]) id (parse s)) (resolve_config env)"

datatype file_outcome = FileText bytes | FileMissing | FileUnreadable bytes

definition load_config ::
  "(bytes \<Rightarrow> bytes + install_config) \<Rightarrow> (bytes \<Rightarrow> bytes option) \<Rightarrow> file_outcome \<Rightarrow> bytes list + install_config" where
  "load_config parse env f =
     (case f of
        FileText s \<Rightarrow> from_toml parse env s
      | FileMissing \<Rightarrow> Inr install_config_default
      | FileUnreadable e \<Rightarrow> Inl [e])"

subsection \<open>Upstreams (provider.rs)\<close>

datatype 'r upstream =
    Gateway bytes bytes
  | Direct bytes provider_config
  | Registry 'r

definition upstream_of :: "llm_config \<Rightarrow> 'r upstream" where
  "upstream_of c =
     (case lc_kind c of
        None \<Rightarrow> Gateway (lc_base_url c) (lc_api_key c)
      | Some k \<Rightarrow>
          Direct k (provider_config_default
            \<lparr>pv_kind := Some k, pv_api_key := Some (lc_api_key c),
             pv_base_url := (if lc_base_url c \<noteq> [] then Some (lc_base_url c) else None)\<rparr>))"

definition open_upstream ::
  "((bytes \<times> provider_config) list \<Rightarrow> bytes + 'r) \<Rightarrow> install_config \<Rightarrow> bytes + 'r upstream" where
  "open_upstream registry c =
     (if ic_providers c = [] then Inr (upstream_of (ic_llm c))
      else map_sum id Registry (registry (ic_providers c)))"

text \<open>What is asked for its models: the one upstream, or one provider of a table.\<close>

datatype 'r probe = ProbeSingle "'r upstream" | ProbeRemote bytes provider_config

type_synonym 'r lister = "'r probe \<Rightarrow> bytes + bytes list"

definition catalogue :: "'r lister \<Rightarrow> 'r probe \<Rightarrow> bytes list" where
  "catalogue models p = (case models p of Inr ids \<Rightarrow> ids | Inl _ \<Rightarrow> [])"

definition discover_provider :: "'r lister \<Rightarrow> bytes \<times> provider_config \<Rightarrow> bytes \<times> provider_config" where
  "discover_provider models np =
     (if pv_models (snd np) = []
      then (fst np, (snd np)\<lparr>pv_models := catalogue models (ProbeRemote (fst np) (snd np))\<rparr>) else np)"

definition discover :: "'r lister \<Rightarrow> install_config \<Rightarrow> bytes list \<times> install_config" where
  "discover models c =
     (if ic_providers c = [] then (catalogue models (ProbeSingle (upstream_of (ic_llm c))), c)
      else let ps = map (discover_provider models) (ic_providers c)
           in (concat (map (\<lambda>np. pv_models (snd np)) ps), c\<lparr>ic_providers := ps\<rparr>))"

subsection \<open>Starting (builder.rs)\<close>

text \<open>The models an install knows, its settings with what was learned, and the default model.\<close>

definition settle_models :: "'r lister \<Rightarrow> install_config \<Rightarrow> bytes list \<times> install_config" where
  "settle_models models c =
     (if llm_is_set (ic_llm c) \<or> ic_providers c \<noteq> [] then discover models c else ([], c))"

definition default_model :: "bytes list \<Rightarrow> bytes" where
  "default_model models = (case models of [] \<Rightarrow> [] | m # _ \<Rightarrow> m)"

definition scaffold :: "agent_env \<Rightarrow> 32 word \<Rightarrow> kv \<Rightarrow> bytes \<Rightarrow> store_error + kv" where
  "scaffold E provider_max_tokens m model =
     (if agent_ids E m \<noteq> [] then Inr m
      else let crab = agent_config_crab provider_max_tokens model in
        bindr (upsert_agent E m crab) (\<lambda>m'. Inr (set_default_agent E m' (ag_id crab))))"

subsection \<open>What a template evaluates to\<close>

text \<open>A template: text, then variables each followed by text. Text holds no opening.\<close>

fun template :: "bytes \<Rightarrow> (bytes \<times> bytes) list \<Rightarrow> bytes" where
  "template t [] = t"
| "template t ((v, u) # vs) = t @ dollar_brace @ v @ brace # template u vs"

text \<open>The first variable that is not set, and the text with every variable's value in its place.\<close>

definition first_unset :: "(bytes \<Rightarrow> bytes option) \<Rightarrow> (bytes \<times> bytes) list \<Rightarrow> bytes option" where
  "first_unset env vs = find (\<lambda>v. env v = None) (map fst vs)"

definition substituted :: "(bytes \<Rightarrow> bytes option) \<Rightarrow> bytes \<Rightarrow> (bytes \<times> bytes) list \<Rightarrow> bytes" where
  "substituted env t vs = t @ concat (map (\<lambda>(v, u). the (env v) @ u) vs)"

definition plain_text :: "bytes \<Rightarrow> bool" where
  "plain_text t \<longleftrightarrow> find_sub dollar_brace t = None"

lemma find_after_plain:
  assumes "plain_text t"
  shows "find_sub dollar_brace (t @ dollar_brace @ s) = Some (length t)"
  using assms
proof (induction t)
  case Nil
  then show ?case by (simp add: find_sub_start)
next
  case (Cons c t)
  have "\<not> prefix dollar_brace (c # t)" and p: "plain_text t"
    using Cons.prems by (auto simp: plain_text_def find_sub_Cons split: if_splits)
  then have "\<not> prefix dollar_brace ((c # t) @ dollar_brace @ s)"
    by (cases t) (auto simp: dollar_brace_def)
  then show ?case using Cons.IH [OF p] by (simp add: find_sub_Cons)
qed

lemma find_sub_split:
  assumes "find_sub dollar_brace s = Some n"
  shows "s = take n s @ dollar_brace @ drop (n + 2) s \<and> plain_text (take n s)"
proof -
  have s: "s = take n s @ dollar_brace @ drop (n + 2) s"
    using find_sub_cut [OF assms] by (simp add: dollar_brace_def)
  have "find_sub dollar_brace (take n s) = None"
  proof (rule ccontr)
    assume "find_sub dollar_brace (take n s) \<noteq> None"
    then obtain k where k: "find_sub dollar_brace (take n s) = Some k" by blast
    have "s = take k (take n s) @ dollar_brace @ (drop (k + 2) (take n s) @ drop n s)"
      using find_sub_cut [OF k] by (metis append.assoc append_take_drop_id dollar_brace_def length_Cons list.size(3) numeral_2_eq_2 One_nat_def)
    from find_sub_first [OF assms this] have "n \<le> k" by simp
    then show False using find_sub_bound [OF k] by (simp add: dollar_brace_def)
  qed
  then show ?thesis using s by (simp add: plain_text_def)
qed

text \<open>The one way a text is not a template: it ends in a variable that is not closed.\<close>

definition template_of :: "bytes \<Rightarrow> bytes \<Rightarrow> (bytes \<times> bytes) list \<Rightarrow> bytes option \<Rightarrow> bool" where
  "template_of s t vs open_name \<longleftrightarrow>
     plain_text t \<and> list_all (\<lambda>(v, u). brace \<notin> set v \<and> plain_text u) vs \<and>
     (case open_name of
        None \<Rightarrow> s = template t vs
      | Some name \<Rightarrow> brace \<notin> set name \<and> s = template t vs @ dollar_brace @ name)"

lemma takeWhile_closed: "brace \<notin> set v \<Longrightarrow> takeWhile (\<lambda>c. c \<noteq> brace) (v @ brace # w) = v"
  by (induction v) auto

text \<open>
  C38: Reading a secret is evaluating it. Every text is a template in one way: text, variables each
  followed by text, and possibly a variable at the end that is not closed. A variable that is not
  set fails it, the first one named in the error; a variable that is not closed fails it otherwise;
  and else the text stays and every variable becomes its value, taken as it is even where the value
  looks like a variable again.
\<close>

theorem interpolate_template:
  "\<exists>t vs open_name. template_of s t vs open_name \<and>
     interpolate env s =
       (case first_unset env vs of
          Some v \<Rightarrow> Inl (''environment variable '' @ backtick @ v @ backtick @ '' is not set'')
        | None \<Rightarrow>
            (case open_name of
               Some name \<Rightarrow> Inl (''unterminated '' @ backtick @ dollar_brace @ backtick @ '' in a configuration value'')
             | None \<Rightarrow> Inr (substituted env t vs)))"
proof (induction s rule: length_induct)
  case (1 s)
  show ?case
  proof (cases "find_sub dollar_brace s")
    case None
    then show ?thesis
      by (intro exI [of _ s] exI [of _ "[]"] exI [of _ None])
        (simp add: interpolate.simps [of env s] template_of_def plain_text_def first_unset_def substituted_def)
  next
    case (Some n)
    note cut = find_sub_split [OF Some]
    define t where "t = take n s"
    define tail where "tail = drop (n + 2) s"
    define v where "v = takeWhile (\<lambda>c. c \<noteq> brace) tail"
    have s: "s = t @ dollar_brace @ tail" and t: "plain_text t" using cut by (simp_all add: t_def tail_def)
    have v: "brace \<notin> set v" by (auto simp: v_def dest: set_takeWhileD)
    have step: "interpolate env s =
        (if v = tail then Inl (''unterminated '' @ backtick @ dollar_brace @ backtick @ '' in a configuration value'')
         else (case env v of
             None \<Rightarrow> Inl (''environment variable '' @ backtick @ v @ backtick @ '' is not set'')
           | Some x \<Rightarrow> bindr (interpolate env (drop (length v + 1) tail)) (\<lambda>out. Inr (t @ x @ out))))"
      unfolding interpolate.simps [of env s] Some option.case Let_def t_def v_def tail_def ..
    show ?thesis
    proof (cases "v = tail")
      case True
      then show ?thesis using step t v s
        by (intro exI [of _ t] exI [of _ "[]"] exI [of _ "Some v"]) (simp add: template_of_def first_unset_def)
    next
      case False
      let ?rest = "drop (length v + 1) tail"
      have tail: "tail = v @ brace # ?rest"
      proof -
        have d: "dropWhile (\<lambda>c. c \<noteq> brace) tail \<noteq> []" using False unfolding v_def
          by (metis append_Nil2 takeWhile_dropWhile_id)
        then have "hd (dropWhile (\<lambda>c. c \<noteq> brace) tail) = brace" using hd_dropWhile [OF d] by simp
        then have "tail = v @ brace # List.tl (dropWhile (\<lambda>c. c \<noteq> brace) tail)"
          using d unfolding v_def by (metis list.collapse takeWhile_dropWhile_id)
        then show ?thesis by (metis append_eq_conv_conj drop_Suc_Cons drop_drop drop_0 add.commute Suc_eq_plus1 plus_1_eq_Suc)
      qed
      have "length ?rest < length s" by (subst s, subst tail) (simp add: dollar_brace_def)
      with 1 obtain u vs open_name where IH: "template_of ?rest u vs open_name"
        "interpolate env ?rest =
           (case first_unset env vs of
              Some v \<Rightarrow> Inl (''environment variable '' @ backtick @ v @ backtick @ '' is not set'')
            | None \<Rightarrow>
                (case open_name of
                   Some name \<Rightarrow> Inl (''unterminated '' @ backtick @ dollar_brace @ backtick @ '' in a configuration value'')
                 | None \<Rightarrow> Inr (substituted env u vs)))" by blast
      have "template_of s t ((v, u) # vs) open_name"
        using IH(1) t v s tail by (auto simp: template_of_def split: option.splits)
      then show ?thesis
        using IH(2) step False
        by (intro exI [of _ t] exI [of _ "(v, u) # vs"] exI [of _ open_name])
          (auto simp: first_unset_def substituted_def split: option.splits)
    qed
  qed
qed

text \<open>The reading of a text as a template is unique, and values are not read again.\<close>

lemma template_of_Nil:
  "template_of s t [] n \<longleftrightarrow> plain_text t \<and> (case n of None \<Rightarrow> s = t | Some name \<Rightarrow> brace \<notin> set name \<and> s = t @ dollar_brace @ name)"
  by (simp add: template_of_def split: option.split)

lemma template_of_Cons:
  "template_of s t ((v, u) # vs) n \<longleftrightarrow>
     plain_text t \<and> brace \<notin> set v \<and> (\<exists>r. s = t @ dollar_brace @ v @ brace # r \<and> template_of r u vs n)"
  by (auto simp: template_of_def split: option.splits)

lemma template_of_find:
  "template_of s t vs n \<Longrightarrow> find_sub dollar_brace s = (if vs = [] \<and> n = None then None else Some (length t))"
proof (cases vs)
  case Nil
  assume "template_of s t vs n"
  then show ?thesis using Nil find_after_plain by (auto simp: template_of_Nil plain_text_def split: option.splits)
next
  case (Cons vu vs')
  assume "template_of s t vs n"
  then show ?thesis using Cons find_after_plain by (cases vu) (auto simp: template_of_Cons)
qed

lemma template_of_unique:
  "template_of s t vs n \<Longrightarrow> template_of s t' vs' n' \<Longrightarrow> t = t' \<and> vs = vs' \<and> n = n'"
proof (induction vs arbitrary: s t t' vs')
  case Nil
  then have f: "(vs' = [] \<and> n' = None) = (n = None)" "n \<noteq> None \<Longrightarrow> length t = length t'"
    using template_of_find [OF Nil.prems(1)] template_of_find [OF Nil.prems(2)] by (auto split: if_splits)
  show ?case
  proof (cases n)
    case None
    then show ?thesis using Nil f by (auto simp: template_of_Nil)
  next
    case (Some name)
    then have s: "s = t @ dollar_brace @ name" "brace \<notin> set name" using Nil.prems(1) by (simp_all add: template_of_Nil)
    have len: "length t = length t'" using f(2) Some by simp
    show ?thesis
    proof (cases vs')
      case Nil': Nil
      then show ?thesis using Nil.prems(2) f Some s len by (auto simp: template_of_Nil split: option.splits)
    next
      case (Cons vu ws)
      obtain v u where vu: "vu = (v, u)" by (cases vu)
      obtain r where "s = t' @ dollar_brace @ v @ brace # r" using Nil.prems(2) by (auto simp: Cons vu template_of_Cons)
      then have "name = v @ brace # r" using s len by simp
      then show ?thesis using s(2) by simp
    qed
  qed
next
  case (Cons vu vs)
  obtain v u where vu: "vu = (v, u)" by (cases vu)
  obtain r where r: "s = t @ dollar_brace @ v @ brace # r" "template_of r u vs n" "brace \<notin> set v"
    using Cons.prems(1) by (auto simp: vu template_of_Cons)
  have f: "\<not> (vs' = [] \<and> n' = None)" "length t = length t'"
    using template_of_find [OF Cons.prems(1)] template_of_find [OF Cons.prems(2)] by (auto split: if_splits)
  show ?case
  proof (cases vs')
    case Nil
    then obtain name where "s = t' @ dollar_brace @ name" "brace \<notin> set name"
      using Cons.prems(2) f(1) by (auto simp: template_of_Nil split: option.splits)
    then show ?thesis using r(1) f(2) by auto
  next
    case (Cons vu' ws)
    obtain v' u' where vu': "vu' = (v', u')" by (cases vu')
    obtain r' where r': "s = t' @ dollar_brace @ v' @ brace # r'" "template_of r' u' ws n'" "brace \<notin> set v'"
      using Cons.prems(2) by (auto simp: Cons vu' template_of_Cons)
    have "t = t'" and rest: "v @ brace # r = v' @ brace # r'" using r(1) r'(1) f(2) by simp_all
    moreover have "v = v'" using takeWhile_closed [OF r(3), of r] takeWhile_closed [OF r'(3), of r'] rest by simp
    ultimately show ?thesis using Cons.IH [OF r(2), of u' ws] r'(2) by (simp add: Cons vu vu')
  qed
qed

lemma interpolate_examples:
  "interpolate [''KEY'' \<mapsto> [CHR 0x24, CHR 0x7B]] (template ''Bearer '' [(''KEY'', ''!'')]) = Inr (''Bearer '' @ dollar_brace @ ''!'')"
  by code_simp

subsection \<open>What a loaded configuration holds\<close>

lemma resolve_providers_names:
  "resolve_providers env ps = Inr qs \<Longrightarrow> map fst qs = map fst ps \<and> map (\<lambda>q. pv_models (snd q)) qs = map (\<lambda>q. pv_models (snd q)) ps \<and>
     list_all2 (\<lambda>p q. case pv_api_key (snd p) of None \<Rightarrow> pv_api_key (snd q) = None
        | Some k \<Rightarrow> \<exists>v. interpolate env k = Inr v \<and> pv_api_key (snd q) = Some v) ps qs"
proof (induction ps arbitrary: qs)
  case (Cons p ps)
  obtain name c where p: "p = (name, c)" by (cases p)
  show ?case
  proof (cases "pv_api_key c")
    case None
    then obtain rs where "resolve_providers env ps = Inr rs" "qs = (name, c) # rs"
      using Cons.prems by (auto simp: p bindr_Inr)
    then show ?thesis using Cons.IH None by (simp add: p)
  next
    case (Some k)
    then obtain v rs where "interpolate env k = Inr v" "resolve_providers env ps = Inr rs"
      "qs = (name, c\<lparr>pv_api_key := Some v\<rparr>) # rs"
      using Cons.prems by (auto simp: p bindr_Inr in_context_def map_sum_Inr_iff)
    then show ?thesis using Cons.IH Some by (simp add: p)
  qed
qed simp

text \<open>
  A configuration that loads names its endpoints once, and its secrets are substituted; everything
  else is as it was written.
\<close>

theorem loaded_config:
  assumes "from_toml parse env s = Inr c"
  shows "\<exists>written. parse s = Inr written \<and> (ic_providers c = [] \<or> \<not> llm_is_set (ic_llm written)) \<and>
    interpolate env (lc_api_key (ic_llm written)) = Inr (lc_api_key (ic_llm c)) \<and>
    resolve_providers env (ic_providers written) = Inr (ic_providers c) \<and>
    c = written\<lparr>ic_llm := (ic_llm written)\<lparr>lc_api_key := lc_api_key (ic_llm c)\<rparr>, ic_providers := ic_providers c\<rparr>"
proof -
  obtain w k ps where w: "parse s = Inr w" "\<not> (llm_is_set (ic_llm w) \<and> ic_providers w \<noteq> [])"
    "interpolate env (lc_api_key (ic_llm w)) = Inr k" "resolve_providers env (ic_providers w) = Inr ps"
    "c = w\<lparr>ic_llm := (ic_llm w)\<lparr>lc_api_key := k\<rparr>, ic_providers := ps\<rparr>"
    using assms by (auto simp: from_toml_def resolve_config_def bindr_Inr in_context_def map_sum_Inr_iff split: if_splits)
  have "ps = [] \<or> \<not> llm_is_set (ic_llm w)" using w(2) resolve_providers_names [OF w(4)] by (cases "ic_providers w") auto
  then show ?thesis using w by (intro exI [of _ w]) simp
qed

subsection \<open>What is known of the models\<close>

text \<open>
  A provider that names its models keeps them, one that does not has its catalogue's, none when it
  cannot be read; the names the install knows are those of its table, provider by provider.
\<close>

theorem discover_table:
  assumes "ic_providers c \<noteq> []"
  shows "fst (discover models c) = concat (map (\<lambda>np. pv_models (snd np)) (ic_providers (snd (discover models c)))) \<and>
    map fst (ic_providers (snd (discover models c))) = map fst (ic_providers c) \<and>
    list_all2 (\<lambda>p q. pv_models (snd q) = (if pv_models (snd p) \<noteq> [] then pv_models (snd p)
        else catalogue models (ProbeRemote (fst p) (snd p)))) (ic_providers c) (ic_providers (snd (discover models c)))"
proof -
  have "map fst (map (discover_provider models) ps) = map fst ps" for ps
    by (simp add: discover_provider_def)
  moreover have "list_all2 (\<lambda>p q. pv_models (snd q) = (if pv_models (snd p) \<noteq> [] then pv_models (snd p)
      else catalogue models (ProbeRemote (fst p) (snd p)))) ps (map (discover_provider models) ps)" for ps
    by (simp add: list_all2_map2 list_all2_same discover_provider_def)
  ultimately show ?thesis using assms by (simp add: discover_def Let_def)
qed

subsection \<open>Seeding is done once\<close>

lemma empty_listing:
  assumes "agent_env_ok E" and "bt_ok m" and "agents_consistent E m"
  shows "agent_ids E m = [] \<longleftrightarrow> agents_of E m = Map.empty"
proof -
  have "agent_ids E m = [] \<longleftrightarrow> dom (agents_of E m) = {}" using agent_ids_in_name_order [OF assms] by (metis set_empty)
  then show ?thesis by (simp add: dom_eq_empty_conv)
qed

text \<open>
  On a store without agents seeding makes the one agent \<open>crab\<close> with the default model and points
  the default at it; on a store with agents it changes nothing, whatever the default says.
\<close>

theorem scaffold_seeds_once:
  assumes ok: "agent_env_ok E" and bt: "bt_ok m" and wf: "agents_consistent E m"
    and name: "validate_table_name (ae_unicode E) DEFAULT_AGENT = Inr ()"
  shows "\<exists>m'. scaffold E provider_max_tokens m model = Inr m' \<and> agents_consistent E m' \<and>
    (if agents_of E m = Map.empty
     then agents_of E m' = [0 \<mapsto> persisted_config (agent_config_crab provider_max_tokens model)] \<and>
       default_agent E m' = Inr (Some 0)
     else m' = m)"
proof (cases "agents_of E m = Map.empty")
  case False
  then show ?thesis using empty_listing [OF ok bt wf] wf by (simp add: scaffold_def)
next
  case True
  let ?c = "agent_config_crab provider_max_tokens model"
  have c: "ag_name ?c = DEFAULT_AGENT" "ag_id ?c = 0" by (simp_all add: agent_config_crab_def agent_config_default_def)
  have "name_free (agents_of E m) (ag_id ?c) (ag_name ?c)" by (simp add: True name_free_def)
  then obtain m1 where m1: "upsert_agent E m ?c = Inr m1" "agents_consistent E m1"
    "agents_of E m1 = (agents_of E m)(ag_id ?c \<mapsto> persisted_config ?c)"
    using upsert_consistent [OF ok wf, of ?c] name c by auto
  have "scaffold E provider_max_tokens m model = Inr (set_default_agent E m1 0)"
    using empty_listing [OF ok bt wf] True by (simp add: scaffold_def Let_def m1(1) c(2))
  moreover have "default_agent E (set_default_agent E m1 0) = Inr (Some 0)"
    by (simp add: default_agent_def set_default_agent_def read_agent_id_show [OF ok])
  ultimately show ?thesis
    using set_default_consistent [OF m1(2), of 0] m1(3) c(2) True by simp
qed

theorem scaffold_seeds_once_witness:
  "\<exists>m. scaffold sample_env 64 [] ''gpt'' = Inr m \<and> default_agent sample_env m = Inr (Some 0)"
proof -
  have v: "validate_table_name (ae_unicode sample_env) DEFAULT_AGENT = Inr ()"
    using sample_names(1) by (simp add: sample_env_def DEFAULT_AGENT_def)
  have "bt_ok []" by (simp add: bt_ok_def)
  from scaffold_seeds_once [OF sample_env_ok this _ v, of 64 "''gpt''"] empty_consistent [of sample_env]
  show ?thesis by auto
qed

end
