(* ===== verification/ClientStream.thy ===== *)
theory ClientStream
  imports DaemonSessions TextFind
begin

section \<open>The client library (crates/client)\<close>

text \<open>
  What an app gets from a turn: the events over a fresh connection, the text accumulated from
  them, the chunks a richer client draws; slash commands and the line that sums up attachments.
  Connecting is an argument. A receiver is the list of what is sent to it; one that is dropped
  ends the list early. The lemmas compare the two ways to read a turn, and show what the
  accumulator holds and what the chunks leave out.
\<close>

subsection \<open>A turn over a fresh connection (conn.rs)\<close>

text \<open>Where the daemon listens.\<close>

datatype connection_info = Uds bytes | Tcp nat

fun show_connection_info :: "connection_info \<Rightarrow> bytes" where
  "show_connection_info (Uds p) = p"
| "show_connection_info (Tcp port) = ''tcp://127.0.0.1:'' @ show_nat port"

fun ends :: "stream_item \<Rightarrow> bool" where
  "ends (SEvent (WEnd agent err model u)) = True"
| "ends _ = False"

text \<open>The loop of the task: an error and the end close the channel, messages of other types are skipped.\<close>

fun forward_events :: "(bytes + server_message) list \<Rightarrow> (bytes + stream_item) list" where
  "forward_events [] = []"
| "forward_events (Inl e # rs) = [Inl e]"
| "forward_events (Inr m # rs) =
     (case m of
        Some (SStream (Some ev)) \<Rightarrow> Inr ev # (if ends ev then [] else forward_events rs)
      | Some (SError code message) \<Rightarrow> [Inl (server_error_text code message)]
      | _ \<Rightarrow> forward_events rs)"

definition info_stream :: "'c client \<Rightarrow> bytes + 'c \<Rightarrow> stream_msg \<Rightarrow> (bytes + stream_item) list" where
  "info_stream X dial m =
     (case dial of
        Inl e \<Rightarrow> [Inl e]
      | Inr c \<Rightarrow> forward_events (fst (cl_stream X (Some (CStream m)) c)))"

definition info_ephemeral ::
  "'c client \<Rightarrow> bytes + 'c \<Rightarrow> bytes \<Rightarrow> bytes \<Rightarrow> nat \<Rightarrow> bytes option \<Rightarrow> (bytes + stream_item) list" where
  "info_ephemeral X dial agent content correlation tool_choice =
     info_stream X dial
       \<lparr>sq_agent = agent, sq_content = content, sq_sender = None, sq_guest = None, sq_tool_choice = tool_choice,
        sq_ephemeral = True, sq_correlation = Some correlation, sq_session = []\<rparr>"

definition info_kill :: "'c client \<Rightarrow> bytes + 'c \<Rightarrow> bytes \<Rightarrow> bytes + bool" where
  "info_kill X dial h = bindr dial (\<lambda>c. fst (client_kill X h c))"

definition info_subscribe_events :: "'c client \<Rightarrow> bytes + 'c \<Rightarrow> (bytes + agent_event_msg) list" where
  "info_subscribe_events X dial =
     (case dial of Inl e \<Rightarrow> [Inl e] | Inr c \<Rightarrow> fst (client_subscribe_events X c))"

subsection \<open>Text in one bubble (stream.rs)\<close>

record accumulator =
  ac_text :: bytes
  ac_tool_line :: "bytes option"
  ac_agent :: "bytes option"
  ac_error :: "bytes option"
  ac_done :: bool

definition accumulator_new :: accumulator where
  "accumulator_new = \<lparr>ac_text = [], ac_tool_line = None, ac_agent = None, ac_error = None, ac_done = False\<rparr>"

definition calling_line :: "(bytes \<times> bytes) list \<Rightarrow> bytes" where
  "calling_line calls = ''[calling '' @ join_with '', '' (map fst calls) @ ''...]''"

fun accumulate :: "accumulator \<Rightarrow> stream_item \<Rightarrow> accumulator" where
  "accumulate A (SStart agent) = A\<lparr>ac_agent := Some agent\<rparr>"
| "accumulate A (SEvent (WChunk t)) = A\<lparr>ac_text := ac_text A @ t\<rparr>"
| "accumulate A (SEvent (WToolStart calls)) = A\<lparr>ac_tool_line := Some (calling_line calls)\<rparr>"
| "accumulate A (SEvent WToolsComplete) = A\<lparr>ac_tool_line := None\<rparr>"
| "accumulate A (SEvent (WEnd agent err model u)) =
     (if err \<noteq> [] then A\<lparr>ac_error := Some err, ac_done := True\<rparr> else A\<lparr>ac_done := True\<rparr>)"
| "accumulate A (SEvent _) = A"

definition accumulator_render :: "accumulator \<Rightarrow> bytes" where
  "accumulator_render A =
     (case ac_tool_line A of
        None \<Rightarrow> ac_text A
      | Some line \<Rightarrow> (if ac_text A \<noteq> [] \<and> last (ac_text A) \<noteq> CHR 0x0A then ac_text A @ newline else ac_text A) @ line)"

subsection \<open>Chunks (stream.rs)\<close>

datatype output_chunk =
    OutTextStart | OutText bytes | OutTextEnd
  | OutThinkingStart | OutThinking bytes | OutThinkingEnd
  | OutToolStart "(bytes \<times> bytes) list" | OutToolResult bytes bytes | OutToolDone bool

fun chunk_of :: "bytes + stream_item \<Rightarrow> (bytes + output_chunk) option" where
  "chunk_of (Inl e) = Some (Inl e)"
| "chunk_of (Inr (SStart a)) = None"
| "chunk_of (Inr (SEvent (WTextStart a))) = Some (Inr OutTextStart)"
| "chunk_of (Inr (SEvent (WChunk t))) = Some (Inr (OutText t))"
| "chunk_of (Inr (SEvent (WTextEnd a))) = Some (Inr OutTextEnd)"
| "chunk_of (Inr (SEvent (WThinkingStart a))) = Some (Inr OutThinkingStart)"
| "chunk_of (Inr (SEvent (WThinking t))) = Some (Inr (OutThinking t))"
| "chunk_of (Inr (SEvent (WThinkingEnd a))) = Some (Inr OutThinkingEnd)"
| "chunk_of (Inr (SEvent (WToolStart calls))) = Some (Inr (OutToolStart calls))"
| "chunk_of (Inr (SEvent (WToolResult call_id out ms bad))) = Some (Inr (OutToolResult call_id out))"
| "chunk_of (Inr (SEvent WToolsComplete)) = Some (Inr (OutToolDone True))"
| "chunk_of (Inr (SEvent (WContextUsage u))) = None"
| "chunk_of (Inr (SEvent (WEnd agent err model u))) = None"

definition stream_chunks :: "'c client \<Rightarrow> stream_msg \<Rightarrow> ('c, output_chunk) streamer" where
  "stream_chunks X m c = (let (rs, c') = client_stream X m c in (List.map_filter chunk_of rs, c'))"

definition spawn_stream :: "'c client \<Rightarrow> bytes + 'c \<Rightarrow> stream_msg \<Rightarrow> (bytes + output_chunk) list" where
  "spawn_stream X dial m =
     (case dial of Inl e \<Rightarrow> [Inl e] | Inr c \<Rightarrow> fst (stream_chunks X m c))"

subsection \<open>Slash commands (command.rs)\<close>

datatype chat_command = ChatClear | ChatExit | ChatHelp | ChatResume | ChatForward bytes

definition chat_commands :: "bytes list" where
  "chat_commands = [''/clear'', ''/exit'', ''/help'', ''/resume'']"

text \<open>The line up to the cursor is a slice: off a character boundary it panics.\<close>

definition collect_candidates :: "bytes \<Rightarrow> nat \<Rightarrow> bytes list \<Rightarrow> bytes list option" where
  "collect_candidates line pos skill_names =
     map_option (\<lambda>front.
       case find_sub ''/'' front of
         None \<Rightarrow> []
       | Some slash \<Rightarrow>
           (let typed = drop slash front
            in filter (\<lambda>cmd. prefix typed cmd) chat_commands @
               map (\<lambda>name. ''/'' @ name) (filter (\<lambda>name. prefix (drop 1 typed) name) skill_names)))
       (slice_to line pos)"

definition chat_parse :: "unicode \<Rightarrow> bytes \<Rightarrow> chat_command option" where
  "chat_parse U content =
     (let trimmed = trim U content in
      if \<not> prefix ''/'' trimmed then None
      else case split_whitespace U (drop 1 trimmed) of
          [] \<Rightarrow> None
        | name # _ \<Rightarrow>
            Some (if name = ''clear'' then ChatClear
                  else if name = ''exit'' then ChatExit
                  else if name = ''help'' then ChatHelp
                  else if name = ''resume'' then ChatResume
                  else ChatForward content))"

subsection \<open>Attachments (message.rs)\<close>

datatype attachment_kind = AttachImage | AttachFile | AttachAudio | AttachVideo

record attachment =
  at_kind :: attachment_kind
  at_url :: bytes
  at_name :: "bytes option"

definition count_kind :: "attachment_kind \<Rightarrow> attachment list \<Rightarrow> nat" where
  "count_kind k as = length (filter (\<lambda>a. at_kind a = k) as)"

definition plural :: "nat \<Rightarrow> bytes" where
  "plural n = (if n > 1 then ''s'' else [])"

definition attachment_summary :: "attachment list \<Rightarrow> bytes option" where
  "attachment_summary as =
     (let images = count_kind AttachImage as; others = count_kind AttachFile as;
          audio = count_kind AttachAudio as; video = count_kind AttachVideo as;
          parts = (if images > 0 then [show_nat images @ '' image'' @ plural images] else []) @
                  (if others > 0 then [show_nat others @ '' file'' @ plural others] else []) @
                  (if audio > 0 then [show_nat audio @ '' audio''] else []) @
                  (if video > 0 then [show_nat video @ '' video''] else [])
      in if as = [] then None else Some (''[Attachments: '' @ join_with '', '' parts @ '']''))"

subsection \<open>The two ways to read a turn\<close>

lemma is_end_ends: "is_end (Inr (Some (SStream (Some e)))) = ends e"
  by (cases e rule: ends.cases) simp_all

text \<open>
  On what a link delivers of a stream without empty events, the task hands over what the typed
  client does, and the end after it.
\<close>

lemma forward_is_typed:
  assumes "list_all (\<lambda>r. case r of Inr None \<Rightarrow> False | _ \<Rightarrow> True) xs"
  shows "forward_events (until_error (map (result_to_msg SStream) xs)) =
    map (\<lambda>r. bindr r (event_of debug)) (takeWhile (\<lambda>r. \<not> is_end r) (until_error (map (result_to_msg SStream) xs))) @
    (case List.find is_end (until_error (map (result_to_msg SStream) xs)) of
       Some r \<Rightarrow> [bindr r (event_of debug)] | None \<Rightarrow> [])"
  using assms
proof (induction xs)
  case (Cons x xs)
  show ?case
  proof (cases x)
    case (Inl e)
    then show ?thesis by (simp add: result_to_msg_def server_error_def)
  next
    case (Inr r)
    then obtain e where e: "x = Inr (Some e)" using Cons.prems by (cases r) auto
    then show ?thesis using Cons by (simp add: result_to_msg_def event_of_def is_end_ends)
  qed
qed simp

text \<open>
  C39: Over a connection the request and every reply of the turn fit (each decodes back and is at most
  16 MiB), what an app reads of a daemon's turn is what the daemon sent: one error, or the start,
  the events of the run and exactly one end, the last, with the error and the usage of the run, and
  nothing more.
\<close>

theorem info_stream_complete:
  assumes "conn_fits KC KS (daemon_server N M) d (CStream req)"
  shows "(\<exists>e. info_stream (connection KC KS debug (daemon_server N M)) (Inr d) req = [Inl (server_error_text 500 e)] \<and>
        fst (daemon_stream N M req d) = [Inl e]) \<or>
    (\<exists>a es err model u. info_stream (connection KC KS debug (daemon_server N M)) (Inr d) req =
        map Inr (SStart a # es @ [SEvent (WEnd a err model u)]) \<and> list_all (\<lambda>e. \<not> ends e) es \<and>
        fst (daemon_stream N M req d) = map (\<lambda>e. Inr (Some e)) (SStart a # es @ [SEvent (WEnd a err model u)]))"
proof -
  let ?X = "connection KC KS debug (daemon_server N M)" and ?out = "fst (daemon_stream N M req d)"
  have "dispatch_msg (daemon_server N M) d (CStream req) = (map (result_to_msg SStream) ?out, snd (daemon_stream N M req d))"
    by (simp add: reply_stream_def daemon_server_def split: prod.split)
  from conn.stream_delivers [OF assms this]
  have seen: "info_stream ?X (Inr d) req = forward_events (until_error (map (result_to_msg SStream) ?out))"
    by (simp add: info_stream_def)
  have run: "forward_events (until_error (map (result_to_msg SStream) (map (\<lambda>e. Inr (Some e)) es @ [Inr (Some (SEvent (WEnd a err model u)))]))) =
      map Inr es @ [Inr (SEvent (WEnd a err model u))]" if "list_all (\<lambda>e. \<not> ends e) es" for es a err model u
    using that by (induction es) (simp_all add: result_to_msg_def)
  from daemon_stream_shape [of N M req d] show ?thesis
  proof (elim disjE exE)
    fix e
    assume "?out = [Inl e]"
    then show ?thesis by (intro disjI1 exI [of _ e]) (simp add: seen result_to_msg_def server_error_def)
  next
    fix a evs
    assume s: "?out = Inr (Some (SStart a)) # turn_events (l_usage (eg_llm (nd_engine N))) a evs"
    obtain es err model u where es: "?out = map (\<lambda>e. Inr (Some e)) (SStart a # es) @ [Inr (Some (SEvent (WEnd a err model u)))]"
      "list_all (\<lambda>e. case e of SEvent (WEnd _ _ _ _) \<Rightarrow> False | _ \<Rightarrow> True) (SStart a # es)"
      using started_shape s by metis
    have "(case e of SEvent (WEnd _ _ _ _) \<Rightarrow> False | _ \<Rightarrow> True) = (\<not> ends e)" for e by (cases e rule: ends.cases) simp_all
    then have "list_all (\<lambda>e. \<not> ends e) (SStart a # es)" using es(2) by simp
    then show ?thesis using run [of "SStart a # es" a err model u] es(1) by (auto simp: seen)
  qed
qed

text \<open>A turn of a registered agent that calls a tool nobody has, then answers, and what is sent of it.\<close>

definition sample_turn_items :: "stream_item list" where
  "sample_turn_items =
     [SStart ''7'', SEvent (WToolStart [(''bash'', [])]), SEvent (WToolStart [(''bash'', [])]),
      SEvent (WToolResult ''bash'' ''tool not registered: bash'' 5 True), SEvent WToolsComplete,
      SEvent (WTextStart ''7''), SEvent (WChunk ''done''), SEvent (WTextEnd ''7''),
      SEvent (WEnd ''7'' [] [] (Some \<lparr>tu_prompt = 0, tu_completion = 0, tu_total = 0,
        tu_cache_hit = None, tu_cache_miss = None, tu_reasoning = None\<rparr>))]"

abbreviation sample_question :: stream_msg where
  "sample_question \<equiv> (sample_turn_request [])\<lparr>sq_ephemeral := True\<rparr>"

lemma sample_turn_events:
  "turn_events (l_usage sample_llm) ''7''
     (fst (run_stream sample_llm sample_turn_agent None None sample_world [entry_user text_wire ''hi''])) =
   map (\<lambda>e. Inr (Some e)) (tl sample_turn_items)"
  by code_simp

lemma sample_turn_stream:
  assumes "engine_agent sample_engine m 7 = Some (sample_config 7 ''crab'')"
  shows "fst (daemon_stream sample_node sample_moment sample_question (daemon_start sample_node m None 60 [])) =
    map (\<lambda>e. Inr (Some e)) sample_turn_items"
proof -
  have a: "resolve_agent sample_engine m 7 = Some (build_agent [] no_dispatcher (sample_config 7 ''crab''))"
    using assms by (simp add: resolve_agent_def)
  have show_seven: "show_nat 7 = ''7''" by code_simp
  have show7: "eg_show sample_engine 7 = ''7''"
    using show_seven by (simp add: sample_env_def show_ulid_def)
  have "fst (daemon_stream sample_node sample_moment sample_question (daemon_start sample_node m None 60 [])) =
      Inr (Some (SStart ''7'')) # turn_events (l_usage sample_llm) ''7''
        (fst (run_stream sample_llm sample_turn_agent None None sample_world [entry_user text_wire ''hi'']))"
    using sample_parse show7
    by (simp add: daemon_stream_def sample_turn_request_def parse_guest_def parse_agent_filter_def DaemonSessions.or_empty_def
        Let_def ephemeral_stream_def a sample_turn_agent_def sample_moment_def)
  then show ?thesis by (simp only: sample_turn_events) (simp add: sample_turn_items_def)
qed

lemma takeWhile_stops: "m \<in> set ms \<Longrightarrow> length (takeWhile (\<lambda>x. x \<noteq> m) ms) < length ms"
  by (induction ms) auto

lemma table_carries: "m \<in> set ms \<Longrightarrow> length ms \<le> MAX_FRAME_SIZE \<Longrightarrow> carries (table_pb ms) m"
  using takeWhile_stops [of m ms] nth_length_takeWhile [of "\<lambda>x. x \<noteq> m" ms]
  by (auto simp: carries_def table_pb_def)

theorem info_stream_complete_witness:
  "\<exists>m. info_stream (connection (table_pb [Some (CStream sample_question)])
     (table_pb (map (\<lambda>e. Some (SStream (Some e))) sample_turn_items)) (\<lambda>_. [])
     (daemon_server sample_node sample_moment)) (Inr (daemon_start sample_node m None 60 [])) sample_question =
   map Inr sample_turn_items"
proof -
  obtain m where m: "engine_agent sample_engine m 7 = Some (sample_config 7 ''crab'')"
    using sample_start by blast
  let ?V = "daemon_server sample_node sample_moment" and ?d = "daemon_start sample_node m None 60 []"
  let ?KS = "table_pb (map (\<lambda>e. Some (SStream (Some e))) sample_turn_items)"
  note s = sample_turn_stream [OF m]
  have "fst (dispatch_msg ?V ?d (CStream sample_question)) = map (\<lambda>e. Some (SStream (Some e))) sample_turn_items"
    by (simp add: reply_stream_def daemon_server_def case_prod_beta s result_to_msg_def)
  then have "conn_fits (table_pb [Some (CStream sample_question)]) ?KS ?V ?d (CStream sample_question)"
    by (simp add: conn_fits_def list_all_iff table_carries MAX_FRAME_SIZE_def)
      (simp add: table_carries sample_turn_items_def MAX_FRAME_SIZE_def)
  from info_stream_complete [OF this, of "\<lambda>_. []"] have
    "info_stream (connection (table_pb [Some (CStream sample_question)]) ?KS (\<lambda>_. []) ?V) (Inr ?d) sample_question =
      map Inr sample_turn_items"
    unfolding s
  proof (elim disjE exE conjE)
    fix e assume "map (\<lambda>e. Inr (Some e)) sample_turn_items = [Inl e]"
    then show ?thesis by (simp add: sample_turn_items_def)
  next
    fix a es err model u
    assume i: "info_stream (connection (table_pb [Some (CStream sample_question)]) ?KS (\<lambda>_. []) ?V) (Inr ?d) sample_question =
        map Inr (SStart a # es @ [SEvent (WEnd a err model u)])"
      and "map (\<lambda>e. Inr (Some e)) sample_turn_items = map (\<lambda>e. Inr (Some e)) (SStart a # es @ [SEvent (WEnd a err model u)])"
    then have "sample_turn_items = SStart a # es @ [SEvent (WEnd a err model u)]"
      by (subst (asm) inj_map_eq_map) (simp_all add: inj_on_def)
    then show ?thesis using i by simp
  qed
  then show ?thesis by blast
qed

subsection \<open>What the accumulator holds\<close>

fun chunk_text :: "stream_item \<Rightarrow> bytes" where
  "chunk_text (SEvent (WChunk t)) = t"
| "chunk_text _ = []"

fun end_error :: "stream_item \<Rightarrow> bytes option" where
  "end_error (SEvent (WEnd agent err model u)) = (if err = [] then None else Some err)"
| "end_error _ = None"

lemma accumulate_keeps:
  "ac_text (accumulate A e) = ac_text A @ chunk_text e"
  "ac_done (accumulate A e) = (ac_done A \<or> ends e)"
  "ac_error (accumulate A e) = (case end_error e of Some x \<Rightarrow> Some x | None \<Rightarrow> ac_error A)"
  by (cases "(A, e)" rule: accumulate.cases; simp)+

text \<open>
  Whatever events a turn sends, the accumulated text is the text of its chunks in their order, and
  the turn counts as done once its end came.
\<close>

theorem accumulated_text:
  "ac_text (foldl accumulate accumulator_new es) = concat (map chunk_text es) \<and>
   ac_done (foldl accumulate accumulator_new es) = list_ex ends es"
proof -
  have "ac_text (foldl accumulate A es) = ac_text A @ concat (map chunk_text es) \<and>
      ac_done (foldl accumulate A es) = (ac_done A \<or> list_ex ends es)" for A
    by (induction es arbitrary: A) (auto simp: accumulate_keeps)
  then show ?thesis by (simp add: accumulator_new_def)
qed

text \<open>
  The line about running tools stays where no completion follows the announcement, as after a turn
  cancelled while its tools ran: the text is rendered with it for good.
\<close>

lemma accumulator_keeps_line:
  "accumulator_render (foldl accumulate accumulator_new
     [SStart ''a'', SEvent (WChunk ''hi''), SEvent (WToolStart [(''bash'', [])]), SEvent (WEnd ''a'' [] ''m'' None)]) =
   ''hi'' @ newline @ ''[calling bash...]''"
  by (simp add: accumulator_new_def accumulator_render_def calling_line_def)

subsection \<open>What the chunks leave out\<close>

text \<open>Tools that failed are done as those that succeeded are; a turn that failed ends as one that did not.\<close>

lemma chunks_without_failures:
  "chunk_of r \<noteq> Some (Inr (OutToolDone False))"
  "List.map_filter chunk_of (map Inr [SStart a, SEvent (WEnd a err model u)]) = []"
  by (cases r rule: chunk_of.cases; simp) (simp add: List.map_filter_simps)

end
