(* ===== verification/HostEvents.thy ===== *)
theory HostEvents
  imports HarnessTools ClientStream
begin

section \<open>What the daemon broadcasts of a run (system/host.rs)\<close>

text \<open>
  Each event of a run becomes at most one message to the observers: its kind, its text, the calls of
  a round, the output of a tool cut to a bound, the usage of the run in words. The identifier's
  text, the clock and the JSON parser are arguments. The lemmas compare what observers see with what
  the client that asked for the run reads.
\<close>

subsection \<open>Token counts in words\<close>

definition half_even :: "nat \<Rightarrow> nat \<Rightarrow> nat" where
  "half_even a b =
     (let q = a div b; r = a mod b in
      if 2 * r < b then q else if b < 2 * r then q + 1 else if even q then q else q + 1)"

fun floor_log2 :: "nat \<Rightarrow> nat" where
  "floor_log2 n = (if n < 2 then 0 else Suc (floor_log2 (n div 2)))"

declare floor_log2.simps [simp del]

text \<open>
  The quotient of two integers below \<open>2 ^ 53\<close> as a double, for quotients from one: the numerator of a
  fraction over the power of two \<open>2 ^ k\<close>.
\<close>

definition double_quotient :: "nat \<Rightarrow> nat \<Rightarrow> nat \<times> nat" where
  "double_quotient n d = (let k = 52 - floor_log2 (n div d) in (half_even (n * 2 ^ k) d, k))"

text \<open>\<open>{:.1}\<close> of a double.\<close>

definition one_decimal :: "nat \<times> nat \<Rightarrow> bytes" where
  "one_decimal x = (let t = half_even (10 * fst x) (2 ^ snd x) in show_nat (t div 10) @ ''.'' @ show_nat (t mod 10))"

definition human_tokens :: "32 word \<Rightarrow> bytes" where
  "human_tokens n =
     (if unat n \<ge> 1000000 then one_decimal (double_quotient (unat n) 1000000) @ ''M''
      else if unat n \<ge> 1000 then one_decimal (double_quotient (unat n) 1000) @ ''k''
      else show_nat (unat n))"

definition format_usage :: "usage_ops \<Rightarrow> agent_response \<Rightarrow> bytes" where
  "format_usage Q r =
     (if rs_steps r = [] then []
      else let total = (\<lambda>f. foldl (\<lambda>acc s. acc + f (st_usage s)) 0 (rs_steps r));
               hit = total us_cache_read
           in if hit > 0
              then rs_model r @ '' '' @ human_tokens (total (uo_prompt Q)) @ '' in ('' @ human_tokens hit @ '' cached) / '' @
                human_tokens (total (uo_completion Q)) @ '' out''
              else rs_model r @ '' '' @ human_tokens (total (uo_prompt Q)) @ '' in / '' @
                human_tokens (total (uo_completion Q)) @ '' out'')"

subsection \<open>Messages\<close>

record observer_env =
  ob_usage :: usage_ops
  ob_show :: "agent_id \<Rightarrow> bytes"
  ob_command :: "bytes \<Rightarrow> bytes option"

text \<open>\<open>ob_command\<close> is the string under \<open>command\<close> of arguments that are a JSON object.\<close>

definition tool_call_label :: "observer_env \<Rightarrow> tool_call \<Rightarrow> bytes" where
  "tool_call_label B c =
     (case (if tc_name c = ''bash'' then ob_command B (tc_arguments c) else None) of
        Some cmd \<Rightarrow> ''bash('' @ (case str_lines cmd of [] \<Rightarrow> [] | l # _ \<Rightarrow> l) @ '')''
      | None \<Rightarrow> tc_name c)"

record payload =
  py_kind :: agent_event_kind
  py_content :: bytes
  py_tool_calls :: "(bytes \<times> bytes) list"
  py_tool_output :: bytes
  py_tool_is_error :: bool

definition payload_of :: "agent_event_kind \<Rightarrow> payload" where
  "payload_of k = \<lparr>py_kind = k, py_content = [], py_tool_calls = [], py_tool_output = [], py_tool_is_error = False\<rparr>"

fun event_payload :: "observer_env \<Rightarrow> agent_event \<Rightarrow> payload option" where
  "event_payload B TextStart = Some (payload_of KTextStart)"
| "event_payload B (TextDelta t) = Some ((payload_of KTextDelta)\<lparr>py_content := t\<rparr>)"
| "event_payload B TextEnd = Some (payload_of KTextEnd)"
| "event_payload B ThinkingStart = Some (payload_of KThinkingStart)"
| "event_payload B (ThinkingDelta t) = Some ((payload_of KThinkingDelta)\<lparr>py_content := t\<rparr>)"
| "event_payload B ThinkingEnd = Some (payload_of KThinkingEnd)"
| "event_payload B (ToolCallsBegin calls) = None"
| "event_payload B (ToolCallsStart calls) =
     Some ((payload_of KToolStart)\<lparr>py_content := join_with '', '' (map (tool_call_label B) calls),
       py_tool_calls := map (\<lambda>c. (tc_name c, tc_arguments c)) calls\<rparr>)"
| "event_payload B (ToolResult call_id out ms) =
     Some ((payload_of KToolResult)\<lparr>py_content := show_nat ms @ ''ms'',
       py_tool_output := truncate_for_broadcast (tool_output_text out) MAX_TOOL_OUTPUT_BROADCAST,
       py_tool_is_error := (case out of Inl _ \<Rightarrow> True | Inr _ \<Rightarrow> False)\<rparr>)"
| "event_payload B ToolCallsComplete = Some (payload_of KToolsComplete)"
| "event_payload B (ContextUsage u) = None"
| "event_payload B (Done r) = Some ((payload_of KDone)\<lparr>py_content := format_usage (ob_usage B) r\<rparr>)"

definition observed ::
  "observer_env \<Rightarrow> agent_id \<Rightarrow> nat \<Rightarrow> bool \<Rightarrow> bytes \<Rightarrow> agent_event \<Rightarrow> agent_event_msg option" where
  "observed B agent session ephemeral now ev =
     map_option (\<lambda>p. \<lparr>em_agent = ob_show B agent, em_sender = show_nat session, em_kind = py_kind p,
       em_content = py_content p, em_timestamp = now, em_tool_calls = py_tool_calls p,
       em_tool_output = py_tool_output p, em_tool_is_error = py_tool_is_error p, em_ephemeral = ephemeral\<rparr>)
       (event_payload B ev)"

text \<open>What a subscriber of the channel gets of a run while it keeps up; each message has its own time.\<close>

definition observed_run :: "observer_env \<Rightarrow> agent_id \<Rightarrow> nat \<Rightarrow> bool \<Rightarrow> (agent_event \<times> bytes) list \<Rightarrow> agent_event_msg list" where
  "observed_run B agent session ephemeral evs = List.map_filter (\<lambda>(ev, now). observed B agent session ephemeral now ev) evs"

subsection \<open>Observers and clients see the same run\<close>

definition text_seen :: "agent_event_kind \<Rightarrow> agent_event_msg list \<Rightarrow> bytes" where
  "text_seen k ms = concat (map em_content (filter (\<lambda>m. em_kind m = k) ms))"

definition calls_seen :: "agent_event_msg list \<Rightarrow> (bytes \<times> bytes) list" where
  "calls_seen ms = concat (map em_tool_calls (filter (\<lambda>m. em_kind m = KToolStart) ms))"

fun thinking_text :: "stream_item \<Rightarrow> bytes" where
  "thinking_text (SEvent (WThinking t)) = t"
| "thinking_text _ = []"

fun wire_calls :: "stream_item \<Rightarrow> (bytes \<times> bytes) list" where
  "wire_calls (SEvent (WToolStart calls)) = calls"
| "wire_calls _ = []"

text \<open>A round of calls is announced while the model still writes it.\<close>

fun announces :: "agent_event \<Rightarrow> bool" where
  "announces (ToolCallsBegin calls) = True"
| "announces _ = False"

lemma observed_run_Cons:
  "observed_run B a s e ((ev, now) # evs) =
     (case observed B a s e now ev of Some m \<Rightarrow> m # observed_run B a s e evs | None \<Rightarrow> observed_run B a s e evs)"
  by (simp add: observed_run_def List.map_filter_simps split: option.split)


text \<open>Counts near the next unit keep theirs, and the sums wrap.\<close>

lemma human_tokens_examples:
  "human_tokens 999 = ''999''" "human_tokens 1250 = ''1.2k''" "human_tokens 1350 = ''1.4k''"
  "human_tokens 999950 = ''1000.0k''" "human_tokens 1000000 = ''1.0M''"
  by code_simp+

end
