(* ===== verification/CodeCrab.thy ===== *)
theory CodeCrab
  imports CodeInput InstallConfig ClientStream
begin

section \<open>The coding agent (apps/code: crab.rs, setup, bin/main.rs)\<close>

text \<open>
  What \<open>crab\<close> does around the daemon it holds in its own process: it asks for an endpoint once and
  writes it to the install's configuration, makes the default agent the coding agent, opens the
  session of its directory, runs turns. The arguments of the process, the keys and the browser's
  reply are inputs; the TOML parser and printer are arguments, an error of the disk is not modelled.
  The daemon's store is the keyspace, which the directory store agrees with. The lemmas show what
  setup keeps, what opening makes of the agent, what a printed turn prints.
\<close>

subsection \<open>What crab is told (prompt.rs)\<close>

definition long_dash :: bytes where
  "long_dash = [CHR 0xE2, CHR 0x80, CHR 0x94]"

definition SYSTEM_PROMPT :: bytes where
  "SYSTEM_PROMPT =
     join_with newline
      [''You are crab, a coding agent working in a terminal alongside a developer.'',
       [],
       ''You work inside one directory tree and reach it through your tools: `bash` to run '' @
       ''commands, `read` to read a file, `edit` to change one, `glob` to find files by name, '' @
       ''and `grep` to search their contents. Paths are relative to that tree and nothing '' @
       ''outside it is reachable.'',
       [],
       ''Reach for `grep` and `glob` rather than running `grep`, `rg` or `find` through `bash` '' @ long_dash @
       '' they are faster and their output is already shaped for you. Use `bash` for the things '' @
       ''only a shell does: building, running tests, git.'',
       [],
       ''`edit` replaces a string that appears exactly once in a file, and fails otherwise. '' @
       ''Naming such a string means already knowing what is there, so read a file before editing '' @
       ''it rather than guessing at a line.'',
       [],
       ''Prefer doing the work to describing it. Read the code before you change it, follow what '' @
       ''the surrounding file already does, and make the smallest change that finishes the task. '' @
       ''When something is ambiguous enough that two readings would produce different work, ask '' @
       ''instead of picking one.'',
       [],
       ''You are answering into a terminal. Keep prose short, skip preamble and summary, and '' @
       ''reference code as `path:line` so it can be opened. Do not explain what a command you '' @
       ''just ran does when its output is on screen.'',
       [],
       ''Never commit, push, or otherwise touch a remote unless you are asked to.'']"

definition COMPACT_PROMPT :: bytes where
  "COMPACT_PROMPT =
     join_with newline
      [''Summarize this conversation so that you could pick the work up from the summary alone, '' @
       ''with none of the messages above it.'',
       [],
       ''Keep: what was being built and why, the decisions taken and what they ruled out, the '' @
       ''files touched and what changed in them, commands whose output still matters, and '' @
       ''anything the developer asked for that is not done yet.'',
       [],
       ''Drop: tool output that has served its purpose, exploration that led nowhere, and '' @
       ''anything restated later.'',
       [],
       ''Write it as notes to yourself, not as a report to a reader.'']"

subsection \<open>The arguments (main.rs)\<close>

datatype crab_run = PrintTurn bytes | Chat

datatype parsed = Run crab_run | Shown bytes | BadUsage bytes

definition crab_parse :: "bytes \<Rightarrow> bytes \<Rightarrow> bytes list \<Rightarrow> parsed" where
  "crab_parse usage version args =
     (case args of
        [] \<Rightarrow> Run Chat
      | a # rest \<Rightarrow>
          if a = ''-h'' \<or> a = ''--help'' then Shown usage
          else if a = ''-V'' \<or> a = ''--version'' then Shown (''crab '' @ version @ newline)
          else if a = ''-p'' \<or> a = ''--print'' then
            (case rest of p # _ \<Rightarrow> Run (PrintTurn p) | [] \<Rightarrow> BadUsage (''-p takes a prompt'' @ newline @ newline @ usage))
          else BadUsage (''unexpected argument: '' @ a @ newline @ newline @ usage))"

subsection \<open>Naming an endpoint (setup/mod.rs)\<close>

definition CLOUD :: bytes where
  "CLOUD = ''https://api-beta.crabtalk.ai''"

definition KINDS :: "bytes list" where
  "KINDS = [''anthropic'', ''openai'', ''google'', ''ollama'', ''azure'']"

definition setup_needed :: "install_config \<Rightarrow> bool" where
  "setup_needed c \<longleftrightarrow> \<not> llm_is_set (ic_llm c) \<and> ic_providers c = []"

datatype screen = Method nat | Provider nat | Key bytes "scalar list" | Waiting

definition encode_scalar :: "scalar \<Rightarrow> bytes" where
  "encode_scalar c =
     (if c < 128 then [char_of c]
      else if c < 2048 then [char_of (192 + c div 64), char_of (128 + c mod 64)]
      else if c < 65536 then [char_of (224 + c div 4096), char_of (128 + c div 64 mod 64), char_of (128 + c mod 64)]
      else [char_of (240 + c div 262144), char_of (128 + c div 4096 mod 64), char_of (128 + c div 64 mod 64),
            char_of (128 + c mod 64)])"

text \<open>What a key other than escape makes of a screen, or the entries it asks to be written.\<close>

fun screen_key :: "screen \<Rightarrow> key_code \<Rightarrow> screen + (bytes \<times> bytes) list" where
  "screen_key (Method n) KUp = Inl (Method (n - 1))"
| "screen_key (Method n) KDown = Inl (Method (min (n + 1) 1))"
| "screen_key (Method n) KEnter = Inl (if n = 0 then Waiting else Provider 0)"
| "screen_key (Provider n) KUp = Inl (Provider (n - 1))"
| "screen_key (Provider n) KDown = Inl (Provider (min (n + 1) (length KINDS - 1)))"
| "screen_key (Provider n) KEnter = Inl (Key (KINDS ! n) [])"
| "screen_key (Key kind k) (KChar c) = Inl (Key kind (k @ [c]))"
| "screen_key (Key kind k) KBackspace = Inl (Key kind (butlast k))"
| "screen_key (Key kind k) KEnter =
     (if k \<noteq> [] then Inr [(''kind'', kind), (''api_key'', concat (map encode_scalar k))] else Inl (Key kind k))"
| "screen_key s k = Inl s"

text \<open>
  A press or another event of a key, escape or not; an event that is no key; an error of the
  terminal; the end of the login that waits for the browser. The events of the terminal end with
  the list.
\<close>

datatype setup_input = Pressed bool "key_code option" | NoKey | TerminalFailed bytes | LoggedIn "bytes + bytes"

datatype setup_answer = WalkedAway | Answered "(bytes \<times> bytes) list" | AskFailed bytes | Unanswered

fun ask_waiting :: "setup_input list \<Rightarrow> setup_answer" where
  "ask_waiting [] = Unanswered"
| "ask_waiting (LoggedIn (Inr token) # ins) = Answered [(''base_url'', CLOUD @ ''/v1''), (''api_key'', token)]"
| "ask_waiting (LoggedIn (Inl e) # ins) = AskFailed e"
| "ask_waiting (Pressed down None # ins) = WalkedAway"
| "ask_waiting (ev # ins) = ask_waiting ins"

fun setup_ask :: "screen \<Rightarrow> setup_input list \<Rightarrow> setup_answer" where
  "setup_ask Waiting ins = ask_waiting ins"
| "setup_ask s [] = WalkedAway"
| "setup_ask s (ev # ins) =
     (case ev of
        TerminalFailed e \<Rightarrow> AskFailed e
      | Pressed down k \<Rightarrow>
          (if \<not> down then setup_ask s ins
           else case k of
             None \<Rightarrow> WalkedAway
           | Some code \<Rightarrow> (case screen_key s code of Inr es \<Rightarrow> Answered es | Inl s' \<Rightarrow> setup_ask s' ins))
      | _ \<Rightarrow> setup_ask s ins)"

text \<open>TOML values, as far as they are looked at; a table is an ordered map.\<close>

datatype toml = TString bytes | TTable "(bytes \<times> toml) list" | TOther bytes

type_synonym toml_table = "(bytes \<times> toml) list"

record toml_ops =
  to_parse :: "bytes \<Rightarrow> bytes + toml_table"
  to_print :: "toml_table \<Rightarrow> bytes + bytes"

definition insert_strings :: "(bytes \<times> bytes) list \<Rightarrow> toml_table \<Rightarrow> toml_table" where
  "insert_strings entries t = foldl (\<lambda>t (k, v). bt_insert k (TString v) t) t entries"

definition with_llm :: "(bytes \<times> bytes) list \<Rightarrow> toml_table \<Rightarrow> toml_table" where
  "with_llm entries doc =
     (case (case map_of doc ''llm'' of None \<Rightarrow> TTable [] | Some v \<Rightarrow> v) of
        TTable t \<Rightarrow> bt_insert ''llm'' (TTable (insert_strings entries t)) doc
      | v \<Rightarrow> bt_insert ''llm'' v doc)"

definition write_llm :: "toml_ops \<Rightarrow> (bytes \<times> bytes) list \<Rightarrow> file_outcome \<Rightarrow> bytes + bytes" where
  "write_llm T entries f =
     (let raw = (case f of FileText s \<Rightarrow> s | _ \<Rightarrow> []);
          doc = (case to_parse T raw of Inr t \<Rightarrow> t | Inl e \<Rightarrow> [])
      in to_print T (with_llm entries doc))"

subsection \<open>Starting (main.rs)\<close>

text \<open>What comes before the engine: a refusal, leaving, or the configuration to go on with.\<close>

datatype begun = Refused "bytes list" | Left | Ready file_outcome | Asking

definition crab_begin ::
  "toml_ops \<Rightarrow> (bytes \<Rightarrow> bytes + install_config) \<Rightarrow> (bytes \<Rightarrow> bytes option) \<Rightarrow> crab_run \<Rightarrow> setup_input list \<Rightarrow>
   file_outcome \<Rightarrow> begun" where
  "crab_begin T parse env what ins f =
     (case load_config parse env f of
        Inl e \<Rightarrow> Refused e
      | Inr c \<Rightarrow>
          if \<not> setup_needed c then Ready f
          else (case what of
              PrintTurn p \<Rightarrow> Refused [''no model configured '' @ long_dash @ '' run '' @ backtick @ ''crab'' @ backtick @ '' to set one up'']
            | Chat \<Rightarrow>
                (case setup_ask (Method 0) ins of
                   WalkedAway \<Rightarrow> Left
                 | AskFailed e \<Rightarrow> Refused [e]
                 | Unanswered \<Rightarrow> Asking
                 | Answered es \<Rightarrow> (case write_llm T es f of Inl e \<Rightarrow> Refused [e] | Inr s \<Rightarrow> Ready (FileText s)))))"

subsection \<open>The token of a callback (setup/login.rs)\<close>

definition nth_of :: "nat \<Rightarrow> 'a list \<Rightarrow> 'a option" where
  "nth_of n xs = (case drop n xs of [] \<Rightarrow> None | x # _ \<Rightarrow> Some x)"

definition token_param :: bytes where
  "token_param = ''token=''"

definition callback_token :: "unicode \<Rightarrow> bytes \<Rightarrow> bytes option" where
  "callback_token U request =
     Option.bind (nth_of 0 (str_lines request)) (\<lambda>l.
       Option.bind (nth_of 1 (split_whitespace U l)) (\<lambda>target.
         Option.bind (nth_of 1 (split_char (CHR ''?'') target)) (\<lambda>query.
           map_option (\<lambda>pair. drop (length token_param) pair)
             (find (\<lambda>pair. prefix token_param pair) (split_char (CHR ''&'') query)))))"

subsection \<open>The agent and its session (crab.rs)\<close>

record crab =
  cb_config :: agent_config
  cb_agent :: agent_id
  cb_session :: session_handle
  cb_root :: bytes

text \<open>
  The default agent gets the prompt, and the first model known if it names none; it is written only
  when that changed it.
\<close>

definition crab_agent :: "('b, 'p) node \<Rightarrow> ('p daemon, agent_id \<times> agent_config) handler" where
  "crab_agent N d =
     (let E = eg_agents (nd_engine N) in
      case default_agent E (dm_store d) of
        Inl e \<Rightarrow> (Inl (nd_store_text N e), d)
      | Inr None \<Rightarrow> (Inl (''no default agent '' @ long_dash @ '' the install did not scaffold one''), d)
      | Inr (Some i) \<Rightarrow>
          (case load_agent E (dm_store d) i of
             Inl e \<Rightarrow> (Inl (nd_store_text N e), d)
           | Inr None \<Rightarrow> (Inl ''the default agent names no record'', d)
           | Inr (Some c) \<Rightarrow>
               (case (if ag_model c = [] then map_sum id (\<lambda>ms. map_option fst (nth_of 0 ms)) (fst (daemon_list_models N d))
                      else Inr None) of
                  Inl e \<Rightarrow> (Inl e, d)
                | Inr pick \<Rightarrow>
                    (let edited = (ag_description c \<noteq> SYSTEM_PROMPT \<or> pick \<noteq> None);
                         config = c\<lparr>ag_description := SYSTEM_PROMPT,
                                    ag_model := (case pick of Some name \<Rightarrow> name | None \<Rightarrow> ag_model c)\<rparr>
                     in if edited then
                          (case upsert_agent E (dm_store d) config of
                             Inl e \<Rightarrow> (Inl (nd_store_text N e), d)
                           | Inr m \<Rightarrow> (Inr (i, config), d\<lparr>dm_store := m\<rparr>))
                        else (Inr (i, config), d)))))"

text \<open>The rest of opening, over the daemon that was started.\<close>

definition crab_open :: "('b, 'p) node \<Rightarrow> moment \<Rightarrow> bytes \<Rightarrow> ('p daemon, crab) handler" where
  "crab_open N M rt d =
     (case crab_agent N d of
        (Inl e, d1) \<Rightarrow> (Inl e, d1)
      | (Inr (i, config), d1) \<Rightarrow>
          (let K = \<lparr>cb_config = config, cb_agent = i, cb_session = rt, cb_root = rt\<rparr> in
           case load_session (eg_sessions (nd_engine N)) (dm_store d1) rt of
             Inl e \<Rightarrow> (Inl (nd_store_text N e), d1)
           | Inr (Some snap) \<Rightarrow> (Inr K, d1)
           | Inr None \<Rightarrow>
               (case daemon_create_session N M
                  \<lparr>cs_session = rt, cs_agent = eg_show (nd_engine N) i, cs_sender = None, cs_root = Some rt\<rparr> d1 of
                  (Inl e, d2) \<Rightarrow> (Inl e, d2)
                | (Inr _, d2) \<Rightarrow> (Inr K, d2))))"

definition crab_cancel :: "crab \<Rightarrow> ('p daemon, unit) handler" where
  "crab_cancel K = daemon_cancel_stream (cb_session K)"

definition crab_compact :: "('b, 'p) node \<Rightarrow> moment \<Rightarrow> crab \<Rightarrow> ('p daemon, bytes) handler" where
  "crab_compact N M K = daemon_compact N M (cb_session K) COMPACT_PROMPT"

definition crab_history :: "('b, 'p) node \<Rightarrow> crab \<Rightarrow> 'p daemon \<Rightarrow> bytes + history_entry list" where
  "crab_history N K d =
     (case load_session (eg_sessions (nd_engine N)) (dm_store d) (cb_session K) of
        Inl e \<Rightarrow> Inl (nd_store_text N e)
      | Inr None \<Rightarrow> Inr []
      | Inr (Some snap) \<Rightarrow> Inr (ss_history snap))"

definition saturating_add :: "32 word \<Rightarrow> 32 word \<Rightarrow> 32 word" where
  "saturating_add a b = (if unat a + unat b < 2 ^ 32 then a + b else - 1)"

definition overflows :: "crab \<Rightarrow> 32 word \<Rightarrow> bool" where
  "overflows K prompt_tokens =
     (case ag_context_window (cb_config K) of
        None \<Rightarrow> False
      | Some w \<Rightarrow> saturating_add prompt_tokens (fst (token_budget (cb_config K))) \<ge> w)"

subsection \<open>Turns (crab.rs)\<close>

text \<open>What the task of a turn puts on its channel, for a reader that stays.\<close>

fun deliver :: "(bytes + stream_event) list \<Rightarrow> (bytes + stream_item) list" where
  "deliver [] = []"
| "deliver (Inl e # rs) = [Inl e]"
| "deliver (Inr None # rs) = deliver rs"
| "deliver (Inr (Some ev) # rs) = Inr ev # deliver rs"

definition spawn_turn :: "('b, 'p) node \<Rightarrow> moment \<Rightarrow> crab \<Rightarrow> bytes \<Rightarrow> 'p daemon \<Rightarrow> (bytes + stream_item) list \<times> 'p daemon" where
  "spawn_turn N M K prompt d =
     map_prod deliver id (daemon_stream N M
       \<lparr>sq_agent = eg_show (nd_engine N) (cb_agent K), sq_content = prompt, sq_sender = None, sq_guest = None,
        sq_tool_choice = None, sq_ephemeral = False, sq_correlation = None, sq_session = cb_session K\<rparr> d)"

text \<open>What is printed, and how it ends.\<close>

fun print_turn :: "(bytes + stream_item) list \<Rightarrow> bytes \<times> (bytes + unit)" where
  "print_turn [] = ([], Inr ())"
| "print_turn (Inl e # rs) = ([], Inl e)"
| "print_turn (Inr (SEvent (WChunk t)) # rs) = map_prod ((@) t) id (print_turn rs)"
| "print_turn (Inr (SEvent (WEnd agent err model u)) # rs) =
     (if err \<noteq> [] then ([], Inl err) else map_prod ((@) newline) id (print_turn rs))"
| "print_turn (Inr ev # rs) = print_turn rs"


subsection \<open>What setup writes\<close>

definition screen_ok :: "screen \<Rightarrow> bool" where
  "screen_ok s \<longleftrightarrow> (case s of Method n \<Rightarrow> n < 2 | Provider n \<Rightarrow> n < length KINDS | Key kind k \<Rightarrow> kind \<in> set KINDS | Waiting \<Rightarrow> True)"

definition entries_ok :: "(bytes \<times> bytes) list \<Rightarrow> bool" where
  "entries_ok es \<longleftrightarrow>
     (\<exists>token. es = [(''base_url'', CLOUD @ ''/v1''), (''api_key'', token)]) \<or>
     (\<exists>kind k. es = [(''kind'', kind), (''api_key'', concat (map encode_scalar k))] \<and> kind \<in> set KINDS \<and> k \<noteq> [])"

lemma screen_key_ok:
  "screen_ok s \<Longrightarrow> (case screen_key s k of Inl s' \<Rightarrow> screen_ok s' | Inr es \<Rightarrow> entries_ok es)"
  by (cases "(s, k)" rule: screen_key.cases) (auto simp: screen_ok_def entries_ok_def KINDS_def nth_Cons')

lemma ask_waiting_ok: "ask_waiting ins = Answered es \<Longrightarrow> entries_ok es"
  by (induction ins rule: ask_waiting.induct) (auto simp: entries_ok_def)

lemma ask_ok: "screen_ok s \<Longrightarrow> setup_ask s ins = Answered es \<Longrightarrow> entries_ok es"
proof (induction ins arbitrary: s)
  case Nil
  then show ?case by (cases s) auto
next
  case (Cons ev ins)
  show ?case
  proof (cases "s = Waiting")
    case True
    then show ?thesis using Cons.prems ask_waiting_ok by simp
  next
    case False
    then have eq: "setup_ask s (ev # ins) = (case ev of
        TerminalFailed e \<Rightarrow> AskFailed e
      | Pressed down k \<Rightarrow>
          (if \<not> down then setup_ask s ins
           else case k of
             None \<Rightarrow> WalkedAway
           | Some code \<Rightarrow> (case screen_key s code of Inr es \<Rightarrow> Answered es | Inl s' \<Rightarrow> setup_ask s' ins))
      | _ \<Rightarrow> setup_ask s ins)" by (cases s) auto
    note p = Cons.prems(2) [unfolded eq]
    show ?thesis
    proof (cases ev)
      case (Pressed down k)
      show ?thesis
      proof (cases "down \<and> k \<noteq> None")
        case True
        then obtain code where k: "down" "k = Some code" by blast
        have st: "setup_ask s (ev # ins) = (case screen_key s code of Inr es \<Rightarrow> Answered es | Inl s' \<Rightarrow> setup_ask s' ins)"
          unfolding eq by (simp add: Pressed k)
        show ?thesis
          using Cons.IH Cons.prems screen_key_ok [OF Cons.prems(1), of code]
          by (cases "screen_key s code") (auto simp: st)
      next
        case False
        then show ?thesis using Cons.IH [OF Cons.prems(1)] p by (auto simp: Pressed split: if_splits)
      qed
    qed (use Cons.IH [OF Cons.prems(1)] p in auto)
  qed
qed

lemma map_of_insert_strings:
  "map_of (insert_strings es t) k = (case map_of (rev es) k of Some v \<Rightarrow> Some (TString v) | None \<Rightarrow> map_of t k)"
  unfolding insert_strings_def
  by (induction es arbitrary: t) (auto simp: map_add_def split: option.splits)

text \<open>What the reader of a section makes of a key: its string, or nothing where it is left out.\<close>

definition string_or :: "bytes \<Rightarrow> toml option \<Rightarrow> bytes option" where
  "string_or missing v = (case v of None \<Rightarrow> Some missing | Some (TString s) \<Rightarrow> Some s | _ \<Rightarrow> None)"

definition llm_section :: "toml_table \<Rightarrow> toml_table \<Rightarrow> bool" where
  "llm_section doc t \<longleftrightarrow> (case map_of doc ''llm'' of None \<Rightarrow> t = [] | Some v \<Rightarrow> v = TTable t)"

definition section_is :: "toml_table \<Rightarrow> llm_config \<Rightarrow> bool" where
  "section_is t c \<longleftrightarrow>
     string_or [] (map_of t ''base_url'') = Some (lc_base_url c) \<and>
     string_or [] (map_of t ''api_key'') = Some (lc_api_key c) \<and>
     (case map_of t ''kind'' of None \<Rightarrow> lc_kind c = None | Some v \<Rightarrow> (\<exists>k. v = TString k \<and> lc_kind c = Some k))"

definition reads_llm :: "(toml_table \<Rightarrow> bytes + install_config) \<Rightarrow> bool" where
  "reads_llm de \<longleftrightarrow> (\<forall>doc c. de doc = Inr c \<longrightarrow> (\<exists>t. llm_section doc t \<and> section_is t (ic_llm c)))"

lemma strings_of_with_llm:
  assumes "llm_section doc t"
  shows "map_of (with_llm es doc) = (map_of doc)(''llm'' \<mapsto> TTable (insert_strings es t))"
  using assms by (auto simp: llm_section_def with_llm_def split: option.splits)

text \<open>
  What setup writes changes the entries it asked for and no other part of the file, and names
  an endpoint: whatever starts on the written configuration does not ask again. It is one of the two
  ways to reach a model: the cloud with its token, or a listed kind with a key that is not empty.
\<close>

theorem setup_keeps_config:
  assumes toml: "\<forall>t s. to_print T t = Inr s \<longrightarrow> to_parse T s = Inr t" and de: "reads_llm de"
    and empty: "to_parse T [] = Inr []"
    and r: "crab_begin T (\<lambda>s. bindr (to_parse T s) de) env Chat ins f = Ready f'" and "f' \<noteq> f"
  shows "\<exists>doc doc' es t s. f' = FileText s \<and> to_parse T s = Inr doc' \<and>
    to_parse T (case f of FileText raw \<Rightarrow> raw | _ \<Rightarrow> []) = Inr doc \<and>
    entries_ok es \<and>
    map_of doc' = (map_of doc)(''llm'' \<mapsto> TTable t) \<and>
    (\<forall>k. map_of t k = (case map_of es k of Some v \<Rightarrow> Some (TString v)
       | None \<Rightarrow> (case map_of doc ''llm'' of Some (TTable t0) \<Rightarrow> map_of t0 k | _ \<Rightarrow> None))) \<and>
    (\<forall>c. de doc' = Inr c \<longrightarrow> \<not> setup_needed c)"
proof -
  obtain c es s where c: "load_config (\<lambda>s. bindr (to_parse T s) de) env f = Inr c"
    and es: "setup_ask (Method 0) ins = Answered es" and w: "write_llm T es f = Inr s" and f': "f' = FileText s"
    using r \<open>f' \<noteq> f\<close> by (auto simp: crab_begin_def split: sum.splits if_splits setup_answer.splits)
  have ok: "entries_ok es" using ask_ok [OF _ es] by (simp add: screen_ok_def)
  let ?raw = "case f of FileText raw \<Rightarrow> raw | _ \<Rightarrow> []"
  have "\<exists>doc t. to_parse T ?raw = Inr doc \<and> llm_section doc t"
  proof (cases f)
    case (FileText raw)
    then obtain doc c0 where "to_parse T raw = Inr doc" "de doc = Inr c0"
      using c by (auto simp: load_config_def from_toml_def bindr_Inr map_sum_Inr_iff)
    then show ?thesis using de FileText by (fastforce simp: reads_llm_def)
  qed (use empty c in \<open>auto simp: load_config_def llm_section_def\<close>)
  then obtain doc t where doc: "to_parse T ?raw = Inr doc"
    and t: "llm_section doc t" by blast
  have parsed: "to_parse T s = Inr (with_llm es doc)" using w doc toml by (simp add: write_llm_def)
  have distinct: "map_of (rev es) = map_of es" using ok by (auto simp: entries_ok_def)
  have inside: "map_of (insert_strings es t) k = (case map_of es k of Some v \<Rightarrow> Some (TString v)
       | None \<Rightarrow> (case map_of doc ''llm'' of Some (TTable t0) \<Rightarrow> map_of t0 k | _ \<Rightarrow> None))" for k
    using t by (auto simp: llm_section_def map_of_insert_strings distinct split: option.splits)
  have again: "\<not> setup_needed c'" if written: "de (with_llm es doc) = Inr c'" for c'
  proof -
    obtain t' where t': "llm_section (with_llm es doc) t'" and u: "section_is t' (ic_llm c')"
      using de written unfolding reads_llm_def by blast
    have "t' = insert_strings es t" using t' by (simp add: llm_section_def strings_of_with_llm [OF t])
    then show ?thesis
      using u ok by (auto simp: section_is_def inside entries_ok_def setup_needed_def llm_is_set_def string_or_def CLOUD_def)
  qed
  show ?thesis
    using f' parsed doc ok strings_of_with_llm [OF t] inside again by blast
qed

definition sample_toml :: toml_ops where
  "sample_toml =
     \<lparr>to_parse = (\<lambda>s. if s = [] then Inr []
        else if s = ''written'' then Inr [(''llm'', TTable [(''api_key'', TString ''k''), (''kind'', TString ''openai'')])]
        else Inl ''expected a table''),
      to_print = (\<lambda>t. if t = [(''llm'', TTable [(''api_key'', TString ''k''), (''kind'', TString ''openai'')])]
        then Inr ''written'' else Inl ''unsupported'')\<rparr>"

definition sample_reader :: "toml_table \<Rightarrow> bytes + install_config" where
  "sample_reader doc =
     (let entry = (\<lambda>t k. case map_of t k of Some (TString s) \<Rightarrow> Some s | _ \<Rightarrow> None) in
      case map_of doc ''llm'' of
        None \<Rightarrow> Inr install_config_default
      | Some (TTable t) \<Rightarrow>
          (if list_ex (\<lambda>k. case map_of t k of None \<Rightarrow> False | Some (TString s) \<Rightarrow> False | _ \<Rightarrow> True)
                [''base_url'', ''api_key'', ''kind''] then Inl ''expected a string''
           else Inr (install_config_default\<lparr>ic_llm :=
             \<lparr>lc_base_url = or_empty (entry t ''base_url''), lc_api_key = or_empty (entry t ''api_key''),
              lc_kind = entry t ''kind''\<rparr>\<rparr>))
      | _ \<Rightarrow> Inl ''expected a table'')"

lemma sample_reads: "reads_llm sample_reader"
  unfolding reads_llm_def
proof (intro allI impI)
  fix doc c assume r: "sample_reader doc = Inr c"
  show "\<exists>t. llm_section doc t \<and> section_is t (ic_llm c)"
  proof (cases "map_of doc ''llm''")
    case None
    then show ?thesis using r
      by (auto simp: sample_reader_def llm_section_def section_is_def string_or_def install_config_default_def)
  next
    case (Some v)
    then obtain t where "v = TTable t" using r by (auto simp: sample_reader_def split: toml.splits)
    then show ?thesis using r Some
      by (intro exI [of _ t]) (auto simp: sample_reader_def llm_section_def section_is_def string_or_def or_empty_def
        split: if_splits option.splits toml.splits)
  qed
qed

theorem setup_keeps_config_witness:
  "\<exists>t. to_parse sample_toml ''written'' = Inr [(''llm'', TTable t)] \<and> map_of t ''kind'' = Some (TString ''openai'')"
proof -
  let ?keys = "map (Pressed True) [Some KDown, Some KEnter, Some KDown, Some KEnter, Some (KChar 107), Some KEnter]"
  have "crab_begin sample_toml (\<lambda>s. bindr (to_parse sample_toml s) sample_reader) (\<lambda>_. None) Chat ?keys FileMissing =
      Ready (FileText ''written'')" by code_simp
  from setup_keeps_config [OF _ sample_reads _ this]
  obtain doc' t where "to_parse sample_toml ''written'' = Inr doc'" "map_of doc' ''llm'' = Some (TTable t)"
    by (auto simp: sample_toml_def split: if_splits)
  then show ?thesis by (auto simp: sample_toml_def)
qed

subsection \<open>What opening makes of the agent\<close>

lemma default_agent_upsert: "upsert_agent E m c = Inr m' \<Longrightarrow> default_agent E m' = default_agent E m"
  by (auto simp: upsert_agent_def bindr_Inr Let_def default_agent_def put_agent_name_def put_json_def split: option.splits if_splits)

lemma upsert_agent_valid: "upsert_agent E m c = Inr m' \<Longrightarrow> validate_table_name (ae_unicode E) (ag_name c) = Inr ()"
  by (auto simp: upsert_agent_def bindr_Inr)

lemma crab_agent_eq:
  assumes "default_agent (eg_agents (nd_engine N)) (dm_store d) = Inr (Some i)"
    and "load_agent (eg_agents (nd_engine N)) (dm_store d) i = Inr (Some old)"
  shows "crab_agent N d =
    (let c = old\<lparr>ag_description := SYSTEM_PROMPT,
                 ag_model := (if ag_model old = [] then default_model (dm_models d) else ag_model old)\<rparr> in
     if ag_description old \<noteq> SYSTEM_PROMPT \<or> ag_model old = [] \<and> dm_models d \<noteq> []
     then (case upsert_agent (eg_agents (nd_engine N)) (dm_store d) c of
             Inl e \<Rightarrow> (Inl (nd_store_text N e), d)
           | Inr m \<Rightarrow> (Inr (i, c), d\<lparr>dm_store := m\<rparr>))
     else (Inr (i, c), d))"
  using assms
  by (cases "dm_models d")
    (auto simp: crab_agent_def Let_def daemon_list_models_def list_models_def nth_of_def default_model_def split: sum.splits)

text \<open>
  Opening makes the default agent the coding agent and touches no other: it keeps its name and all
  settings but the prompt and, where it named none, the model; opening again finds it as it left it.
\<close>

theorem crab_agent_settles:
  assumes ok: "agent_env_ok (eg_agents (nd_engine N))" and wf: "agents_consistent (eg_agents (nd_engine N)) (dm_store d)"
    and r: "crab_agent N d = (Inr (i, c), d')"
  shows "\<exists>old new. let A = agents_of (eg_agents (nd_engine N)) in
    A (dm_store d) i = Some old \<and>
    c = old\<lparr>ag_description := SYSTEM_PROMPT,
            ag_model := (if ag_model old = [] then default_model (dm_models d) else ag_model old)\<rparr> \<and>
    (new = c \<or> new = persisted_config c) \<and> A (dm_store d') = (A (dm_store d))(i \<mapsto> new) \<and>
    agents_consistent (eg_agents (nd_engine N)) (dm_store d') \<and>
    (\<exists>d''. crab_agent N d' = (Inr (i, new), d'') \<and> A (dm_store d'') = A (dm_store d'))"
proof -
  let ?E = "eg_agents (nd_engine N)"
  let ?A = "\<lambda>d. agents_of ?E (dm_store d)"
  obtain old where i: "default_agent ?E (dm_store d) = Inr (Some i)" and old: "load_agent ?E (dm_store d) i = Inr (Some old)"
    using r by (auto simp: crab_agent_def Let_def split: sum.splits option.splits if_splits)
  then have a: "?A d i = Some old" by (simp add: agents_of_def)
  let ?c = "old\<lparr>ag_description := SYSTEM_PROMPT,
      ag_model := (if ag_model old = [] then default_model (dm_models d) else ag_model old)\<rparr>"
  have free: "name_free (?A d) i (ag_name ?c)"
    using consistent_unique [OF ok wf _ a] by (auto simp: name_free_def)
  have id: "ag_id ?c = i" using consistent_id [OF wf a] by simp
  show ?thesis
  proof (cases "ag_description old \<noteq> SYSTEM_PROMPT \<or> ag_model old = [] \<and> dm_models d \<noteq> []")
    case False
    then have same: "?c = old" by (auto simp: default_model_def)
    then have e: "c = old \<and> d' = d" using r False by (auto simp: crab_agent_eq [OF i old] Let_def split: if_splits)
    have "?A d' = (?A d)(i \<mapsto> old)" using a e by (simp add: fun_upd_idem)
    then show ?thesis using r wf same a e by (intro exI [of _ old]) (auto simp: Let_def)
  next
    case True
    then obtain m where m: "upsert_agent ?E (dm_store d) ?c = Inr m" and c: "c = ?c" and d': "d' = d\<lparr>dm_store := m\<rparr>"
      using r by (auto simp: crab_agent_eq [OF i old] Let_def split: sum.splits)
    let ?p = "persisted_config ?c"
    have valid: "validate_table_name (ae_unicode ?E) (ag_name ?c) = Inr ()" using upsert_agent_valid [OF m] .
    have m': "agents_consistent ?E m" "agents_of ?E m = (?A d)(i \<mapsto> ?p)"
      using upsert_consistent [OF ok wf valid] free m by (auto simp: id)
    have i': "default_agent ?E (dm_store d') = Inr (Some i)" using default_agent_upsert [OF m] i by (simp add: d')
    have load': "load_agent ?E (dm_store d') i = Inr (Some ?p)" using consistent_load [OF m'(1)] m'(2) by (simp add: d')
    have fixed: "?p\<lparr>ag_description := SYSTEM_PROMPT,
        ag_model := (if ag_model ?p = [] then default_model (dm_models d') else ag_model ?p)\<rparr> = ?p"
      by (simp add: persisted_config_def d')
    have a': "agents_of ?E m i = Some ?p" by (simp add: m'(2))
    have free': "name_free (agents_of ?E m) (ag_id ?p) (ag_name ?p)"
      using consistent_unique [OF ok m'(1) _ a'] by (auto simp: name_free_def id)
    obtain m2 where m2: "upsert_agent ?E m ?p = Inr m2" "agents_of ?E m2 = (agents_of ?E m)(i \<mapsto> persisted_config ?p)"
      using upsert_consistent [OF ok m'(1) _ free'] valid id by auto
    have again: "\<exists>d''. crab_agent N d' = (Inr (i, ?p), d'') \<and> ?A d'' = ?A d'"
    proof (cases "ag_model ?p = [] \<and> dm_models d' \<noteq> []")
      case True
      then have "crab_agent N d' = (Inr (i, ?p), d'\<lparr>dm_store := m2\<rparr>)"
        using crab_agent_eq [OF i' load'] m2(1) unfolding fixed Let_def by (simp add: d')
      moreover have "agents_of ?E m2 = agents_of ?E m" using a' by (simp add: m2(2) persisted_config_def fun_upd_idem)
      ultimately show ?thesis by (simp add: d')
    next
      case False
      then have "crab_agent N d' = (Inr (i, ?p), d')"
        using crab_agent_eq [OF i' load'] unfolding fixed Let_def by (auto simp: persisted_config_def)
      then show ?thesis by blast
    qed
    show ?thesis using a c m' again by (intro exI [of _ old] exI [of _ ?p]) (auto simp: Let_def d')
  qed
qed

subsection \<open>What is printed of a turn\<close>

lemma print_turn_events:
  "list_all (\<lambda>e. case e of SEvent (WEnd _ _ _ _) \<Rightarrow> False | _ \<Rightarrow> True) es \<Longrightarrow>
   print_turn (map Inr es @ rs) = map_prod ((@) (concat (map chunk_text es))) id (print_turn rs)"
proof (induction es)
  case (Cons e es)
  then show ?case
  proof (cases e)
    case (SEvent w)
    then show ?thesis using Cons by (cases w) (simp_all add: map_prod_def case_prod_beta)
  qed simp
qed (simp add: map_prod_def)

lemma deliver_events: "deliver (map (\<lambda>e. Inr (Some e)) es) = map Inr es"
  by (induction es) auto

text \<open>
  A printed turn prints the text of the answer and nothing else of it, with a line end where it
  ended well; where it did not, the process ends with what the turn failed with.
\<close>

theorem printed_turn:
  "(\<exists>e. fst (daemon_stream N M req d) = [Inl e] \<and> print_turn (deliver (fst (daemon_stream N M req d))) = ([], Inl e)) \<or>
   (\<exists>a es err model u. fst (daemon_stream N M req d) =
      map (\<lambda>e. Inr (Some e)) (SStart a # es) @ [Inr (Some (SEvent (WEnd a err model u)))] \<and>
      print_turn (deliver (fst (daemon_stream N M req d))) =
        (concat (map chunk_text es) @ (if err = [] then newline else []), if err = [] then Inr () else Inl err))"
proof (cases "\<exists>e. fst (daemon_stream N M req d) = [Inl e]")
  case True
  then show ?thesis by auto
next
  case False
  then obtain a evs where out: "fst (daemon_stream N M req d) =
      Inr (Some (SStart a)) # turn_events (l_usage (eg_llm (nd_engine N))) a evs"
    using daemon_stream_shape by blast
  obtain es err model u where es: "fst (daemon_stream N M req d) =
      map (\<lambda>e. Inr (Some e)) (SStart a # es) @ [Inr (Some (SEvent (WEnd a err model u)))]"
    and no_end: "list_all (\<lambda>e. case e of SEvent (WEnd _ _ _ _) \<Rightarrow> False | _ \<Rightarrow> True) (SStart a # es)"
    using started_shape unfolding out by blast
  have "deliver (fst (daemon_stream N M req d)) =
      map Inr (SStart a # es) @ [Inr (SEvent (WEnd a err model u))]"
    using deliver_events [of "(SStart a # es) @ [SEvent (WEnd a err model u)]"] by (simp add: es)
  then have "print_turn (deliver (fst (daemon_stream N M req d))) =
      (concat (map chunk_text es) @ (if err = [] then newline else []), if err = [] then Inr () else Inl err)"
    using print_turn_events [OF no_end] by simp
  then show ?thesis using es by blast
qed

subsection \<open>Fitting the window, and what callbacks carry\<close>

lemma overflows_exact:
  "overflows K n \<longleftrightarrow> (\<exists>w. ag_context_window (cb_config K) = Some w \<and>
     unat w \<le> unat n + unat (fst (token_budget (cb_config K))))"
proof -
  have "w \<le> saturating_add n b \<longleftrightarrow> unat w \<le> unat n + unat b" for w b :: "32 word"
  proof (cases "unat n + unat b < 2 ^ 32")
    case True
    then have "unat (n + b) = unat n + unat b" by (simp add: unat_word_ariths)
    then show ?thesis using True by (simp add: saturating_add_def word_le_nat_alt)
  next
    case False
    have "unat w < 2 ^ LENGTH(32)" by (rule unsigned_less)
    then show ?thesis using False by (simp add: saturating_add_def)
  qed
  then show ?thesis by (simp add: overflows_def split: option.split)
qed

lemma callback_examples:
  "callback_token ascii_unicode (''GET /?state=1&token=abc HTTP/1.1'' @ newline @ ''Host: x'') = Some ''abc''"
  "callback_token ascii_unicode (''GET /favicon.ico HTTP/1.1'' @ newline) = None"
  "callback_token ascii_unicode (''GET /?token= HTTP/1.1'' @ newline) = Some []"
  by code_simp+

end
