(* ===== verification/Spec2Isabelle.thy ===== *)
theory Spec2Isabelle
  imports CrabdbRefinement AgentLoop HarnessTools BermDoors CodeInput CodeTranscript CodeStoreEdges WebPages GuestTools InstallConfig HostEvents CodeCrab
begin

text \<open>
  Crabtalk is an agent daemon: a runtime that runs agents over a model, a store that keeps
  agents, sessions, memory and skills in one key-value file, harnesses and servers that provide
  tools, and clients that talk to it over a framed transport. This library models the parts
  that carry its logic, each in a theory of its own.

  The store, bottom up.
  \<^item> \<open>CrabdbFormat\<close>, \<open>CrabdbStore\<close>, \<open>CrabdbInvariant\<close>, \<open>CrabdbRefinement\<close>: \<open>lib/crabdb\<close>. A file is a
    list of bytes; the records, the index snapshot and the header are encoded and decoded as the
    code does it, and \<open>put\<close>, \<open>delete\<close>, \<open>checkpoint\<close>, \<open>compact\<close> and \<open>open_with\<close> work on those
    bytes. The refinement shows that any run of operations and reopenings is the map the puts
    and deletes make, and what a crash in the middle of a write leaves.
  \<^item> \<open>Keyspace\<close>: \<open>crates/store/src/kv.rs\<close>. Columns, keys with a realm, typed reads and writes over
    a sorted map; the locale \<open>kv_store\<close> states what a backend promises and the crabdb backend
    of \<open>apps/agent\<close> is interpreted in \<open>CrabdbRefinement\<close>.
  \<^item> \<open>TextIndex\<close>: \<open>crates/store/src/text.rs\<close>. Tokens, postings, statistics, ranking.
  \<^item> \<open>AgentStore\<close>: \<open>crates/store/src/agent\<close>, \<open>interface/agent.rs\<close> and the configuration records.
  \<^item> \<open>History\<close>, \<open>SessionStore\<close>, \<open>SessionInvariant\<close>, \<open>SessionSearch\<close>: \<open>crates/store/src/session\<close>
    and \<open>interface/session.rs\<close>. A session refines a list of turns and an archive pointer.
  \<^item> \<open>SkillFormat\<close>, \<open>SmallStores\<close>: \<open>lib/skill\<close> and the interfaces for memory, harness images,
    skills and subscriptions.

  The runtime.
  \<^item> \<open>AgentEvents\<close>, \<open>AgentLoop\<close>: \<open>crates/runtime/src/agent\<close>. The events of a run, the tool
    registry, and the loop over rounds of a model stream and its tool calls.
  \<^item> \<open>Engine\<close>, \<open>EngineInvariant\<close>: \<open>crates/runtime/src/engine\<close>. Turns, guest turns, resuming,
    compaction, rewinding and the listings over the agent loop and the store; the invariant is
    that a live session and its stored record say the same.
  \<^item> \<open>LiveSessions\<close>: \<open>crates/runtime/src/session\<close>. The registry of live sessions as a step
    relation in which resolves of handles interleave, with its invariant, and the sweep against
    a reference that drops the least recently used.

  Tools.
  \<^item> \<open>McpBridge\<close>, \<open>McpHandler\<close>: \<open>lib/mcp/src\<close>. The client methods over a transport, the bridge that
    holds the running servers, and the handler: who declared what, which declarations share a
    process, connecting, reaping. Its locked sections are definitions of their own, so that the
    invariant holds under any interleaving of them.
  \<^item> \<open>BermRoot\<close>, \<open>BermHarness\<close>: \<open>crates/berm/src\<close>. How a harness's path is resolved inside its root,
    against a file system with links, as the system's paths are split and compared, the empty root
    included, which confines nothing; which image a digest names, who declared it and what it is
    granted.
  \<^item> \<open>BermDoors\<close>: the doors themselves: searching files, commands, HTTP requests, the runtime and
    a sibling harness. The runtime's doors are composed with the daemon's own dispatch.
  \<^item> \<open>GuestTools\<close>: \<open>harness/os\<close>, \<open>sessions\<close>, \<open>skill\<close>, \<open>peers\<close> and \<open>lib/berm\<close>. The tools that run in the
    sandbox, over those doors: what an edit changes, what pages of a file show, what a search and
    the skill catalogue tell.
  \<^item> \<open>HarnessHost\<close>, \<open>HarnessTools\<close>: \<open>crates/crabtalk/src/harness\<close> and the dispatch of
    \<open>system/host.rs\<close>. The registry the runtime sees, with every callback: who owns a tool name, what
    an agent is offered, what a call reaches; the memory tools; the tasks the \<open>mcp\<close> member spawns.

  The wire.
  \<^item> \<open>ProtoWire\<close>, \<open>Transport\<close>: \<open>crates/proto/src\<close> and \<open>crates/transport/src\<close>. The messages, the
    server's dispatch over a record of handlers and the client's typed calls over two transport
    primitives; frames and connections as bytes. The locale \<open>wire_link\<close> states what a client
    relies on of its link, and a framed connection is its interpretation.

  The daemon.
  \<^item> \<open>EventBus\<close>: \<open>crates/crabtalk/src/system/event.rs\<close>. The table of subscriptions, matching,
    publishing, and the tasks each change spawns to mirror it in the store; the tasks are a list
    that is run in any order, so that what a restart finds is a statement about that order.
  \<^item> \<open>Daemon\<close>, \<open>DaemonSessions\<close>: \<open>crates/crabtalk/src/protocol\<close>. One definition per request
    handler: agents (with the JSON merge of a patch), models, servers and skills, then turns,
    sessions, listings, search and administration. A daemon is a record of what its handlers
    share: the engine, the store, the bus, the servers, the tokens of running turns. What a
    request reads from outside (the clock, fresh identifiers, the model, the codecs) is a record
    of arguments. \<open>daemon_server\<close> makes these handlers the server \<open>ProtoWire\<close> dispatches to, and
    \<open>daemon_run\<close> composes requests, fired turns and store writes in any order; the invariant of
    the engine and of the bus is kept along every such run.

  \<^item> \<open>InstallConfig\<close>: \<open>crates/store/src/config\<close>, \<open>system/provider.rs\<close>, \<open>builder.rs\<close>. The sections of
    \<open>config.toml\<close>, the substitution of variables in it, the upstream and the models the daemon
    settles on, the agent a fresh install starts with.
  \<^item> \<open>ClientStream\<close>: \<open>crates/client/src\<close>. A turn over a fresh connection to such a daemon, the text
    accumulated from it, the chunks, slash commands, attachments. \<open>HostEvents\<close>: \<open>system/host.rs\<close>, what
    the daemon broadcasts of a run, against what such a client reads.

  Search.
  \<^item> \<open>WebSearch\<close>, \<open>WebPages\<close>: \<open>lib/search/src\<close>. Merging and ranking the results of the engines against
    grouping by normalised address, the cache, the output; what each engine reads from its page
    and what the fetcher keeps of one, over an argument for the HTML parser and the network.

  The terminal client.
  \<^item> \<open>CodeInput\<close>: \<open>apps/code/src/tui/input.rs\<close>. The multi-line editor over lines of characters and
    byte offsets, with recall and its file, against an editor with one cursor in one string.
  \<^item> \<open>CodeTranscript\<close>: \<open>stream.rs\<close>, \<open>item.rs\<close>, \<open>replay.rs\<close> and the loop of \<open>mod.rs\<close>. The chunks of a
    turn become items, settled items go to the scrollback once; what a turn leaves unsettled is
    counted from the events the runtime sends.
  \<^item> \<open>CodeFiles\<close>, \<open>CodeStore\<close>: \<open>apps/code/src/backend\<close>. The store interfaces over a directory: a map
    from paths to files and directories with the system calls the code makes, the helpers of
    \<open>mod.rs\<close> (names as file names, documents, JSON lines), then one definition per operation,
    with the ranking that reads the corpus. Disk errors other than a missing or misplaced file
    are not modelled.
  \<^item> \<open>CodeSessions\<close>, \<open>CodeDocuments\<close>: the directory refines the same maps of sessions and of agents
    the keyspace refines, so the two stores agree; the locale of a directory of documents is
    interpreted on memory and on agents. \<open>CodeStoreEdges\<close>: ranking, windows, small files, a line
    cut short by a crash, dot names.
  \<^item> \<open>CodeCrab\<close>: \<open>crab.rs\<close>, \<open>setup\<close>, \<open>bin/main.rs\<close>. The screens of the first run and what they write to
    the configuration, the default agent made the coding agent, a turn printed to a pipe. It is
    composed with the daemon over the keyspace; the two stores agree.

  \<open>Prelude\<close> and \<open>RustText\<close> hold what they share: integers as bytes, sorted association lists for
  \<open>BTreeMap\<close>, stable sorting, UTF-8, decimal text; \<open>TextFind\<close> finds, counts and replaces strings in
  strings.

  Conventions. Text is a list of bytes. A failing call returns \<open>Inl\<close> of its error; what it had
  written before it failed is not part of the value. The clock is an argument. Unicode tables,
  JSON and YAML codecs, ULID text and the provider package are arguments with the laws the code
  relies on as named predicates (\<open>codec_ok\<close>, \<open>ulid_ok\<close>, \<open>agent_env_ok\<close>, \<open>session_env_ok\<close>,
  \<open>world_ok\<close>), and every property with such a hypothesis has a witness on a concrete instance.
  Offsets and lengths in the crabdb file are 32-bit and 64-bit fields, message numbers are padded
  to twelve digits, so a stream holds at most \<open>MAX_MESSAGES\<close> turns; token counts are 32-bit words.
  Runs of operations that are compared with a map are of admissible operations, decided against the map
  (\<open>session_cmds_ok\<close>, \<open>agent_cmds_ok\<close>, and \<open>dir_cmd_ok\<close> for the directory); what fails or goes apart
  outside of them is stated in theorems of its own. What holds over a connection is under \<open>conn_fits\<close>:
  the request and the replies decode back and are within the frame bound.

  Not modelled. Sockets, processes, the network, HTML and JSON parsing and the sandbox's instruction
  set are arguments or left out: they are packages or the system. \<open>lib/embed\<close> runs an ONNX model of
  a package; \<open>apps/cli\<close> parses its command line and prints what the client's typed calls return;
  \<open>apps/crabup\<close> runs the package manager of the machine; the binary of \<open>apps/agent\<close> opens sockets and
  waits for signals; drawing in \<open>apps/code\<close>, its browser and the listener of the login are input and
  output around this logic. A handler that panics is modelled as one that leaves the state as it was before.
  Concurrency is modelled where the code serialises it: one operation at a time on a store, one
  run at a time on a session, one call at a time under the registry's lock.
\<close>

end
